(* ===== verification/Prelude.thy ===== *)
theory Prelude
  imports Main "HOL-Library.Word"
begin

text \<open>
  What every component of the development shares: the machine integer types of
  \<^verbatim>\<open>src/dbt/util/common.h\<close>, the ways an operation of the program can stop (a
  \<open>failure\<close> carried in the left half of a sum), the arithmetic helpers \<open>roundup\<close> and
  \<open>rounddown\<close>, byte-wise little-endian memory access, and the collections of rules the
  component theories feed to the simplifier.
\<close>

unbundle bit_operations_syntax

section \<open>Collections of rules\<close>

named_theorems field_simps_bits "instruction fields read bit by bit"
named_theorems handler_simps "unfolding of the interpreter's handlers"
named_theorems emit_simps "what the translator appends to a block"
named_theorems qsem_simps "execution of intermediate code"

section \<open>Machine integers\<close>

type_synonym u8 = "8 word"
type_synonym u16 = "16 word"
type_synonym u32 = "32 word"
type_synonym u64 = "64 word"

section \<open>Operations that stop the program\<close>

text \<open>
  \<open>Panic\<close> prints and aborts, a failed \<^verbatim>\<open>assert\<close> aborts a debug build, and
  \<^verbatim>\<open>unreachable\<close> marks a branch that must not be taken. Dereferencing a null or end
  pointer and indexing outside an array are undefined in the source; the model makes each of
  them a value of its own so that no theorem can pass over them.
\<close>

datatype failure = Panic | AssertFailed | Unreachable | BadDeref | BadIndex

type_synonym 'a res = "failure + 'a"

definition rbind :: "'a res \<Rightarrow> ('a \<Rightarrow> 'b res) \<Rightarrow> 'b res" where
  "rbind m f = (case m of Inl e \<Rightarrow> Inl e | Inr x \<Rightarrow> f x)"

lemma rbind_simps [simp]:
  "rbind (Inl e) f = Inl e"
  "rbind (Inr x) f = f x"
  by (simp_all add: rbind_def)

lemma rbind_eq_Inr [simp]: "rbind m f = Inr y \<longleftrightarrow> (\<exists>x. m = Inr x \<and> f x = Inr y)"
  by (cases m) auto

lemma rbind_cong [fundef_cong]:
  "m = m' \<Longrightarrow> (\<And>x. m' = Inr x \<Longrightarrow> f x = g x) \<Longrightarrow> rbind m f = rbind m' g"
  by (cases m') auto

lemma rbind_assoc: "rbind (rbind m f) g = rbind m (\<lambda>x. rbind (f x) g)"
  by (cases m) auto

section \<open>Encodings\<close>

text \<open>
  The contract of an encoding: every value in its domain is read back from its representation.
  Distinct values then have distinct representations, and a decoder that is left inverse is onto
  the domain.
\<close>

locale codec =
  fixes enc :: "'a \<Rightarrow> 'r" and dec :: "'r \<Rightarrow> 'a" and fits :: "'a \<Rightarrow> bool"
  assumes dec_enc: "fits x \<Longrightarrow> dec (enc x) = x"
begin

lemma enc_eq_iff: "fits x \<Longrightarrow> fits y \<Longrightarrow> enc x = enc y \<longleftrightarrow> x = y"
  by (metis dec_enc)

lemma enc_inj_on: "inj_on enc (Collect fits)"
  by (auto intro!: inj_onI dest: enc_eq_iff)

end

section \<open>Rounding\<close>

text \<open>
  The helper templates \<open>roundup\<close> and \<open>rounddown\<close> divide by the alignment. They are used
  with a \<^verbatim>\<open>size_t\<close> alignment, so the arithmetic is done in 64 bits and the result is
  converted back to the type of the first argument.
\<close>

definition roundup :: "u64 \<Rightarrow> u64 \<Rightarrow> u64" where
  "roundup x y = ((x + (y - 1)) div y) * y"

definition rounddown :: "u64 \<Rightarrow> u64 \<Rightarrow> u64" where
  "rounddown x y = x - x mod y"

section \<open>Little-endian memory\<close>

text \<open>
  Guest memory is a window of the host's address space that starts at \<open>mmu::base\<close>; a
  memory is addressed by the 64-bit offset from that base, so that an access which begins
  below \<open>2^32\<close> and crosses it does not wrap.
\<close>

type_synonym vmem = "u64 \<Rightarrow> u8"

fun from_le :: "u8 list \<Rightarrow> 'a::len word" where
  "from_le [] = 0"
| "from_le (b # bs) = ucast b OR push_bit 8 (from_le bs)"

definition to_le :: "nat \<Rightarrow> 'a::len word \<Rightarrow> u8 list" where
  "to_le n v = map (\<lambda>k. ucast (drop_bit (8 * k) v)) [0..<n]"

definition unaligned_load :: "vmem \<Rightarrow> u64 \<Rightarrow> 'a::len word" where
  "unaligned_load m a = from_le (map (\<lambda>k. m (a + of_nat k)) [0..<LENGTH('a) div 8])"

fun store_bytes :: "vmem \<Rightarrow> u64 \<Rightarrow> u8 list \<Rightarrow> vmem" where
  "store_bytes m a [] = m"
| "store_bytes m a (b # bs) = store_bytes (m(a := b)) (a + 1) bs"

definition unaligned_store :: "vmem \<Rightarrow> u64 \<Rightarrow> 'a::len word \<Rightarrow> vmem" where
  "unaligned_store m a v = store_bytes m a (to_le (LENGTH('a) div 8) v)"

subsection \<open>Bytes of a word\<close>

lemma bit_from_le:
  "bit (from_le bs :: 'a::len word) n \<longleftrightarrow>
     n < LENGTH('a) \<and> n div 8 < length bs \<and> bit (bs ! (n div 8)) (n mod 8)"
proof (induction bs arbitrary: n)
  case Nil
  then show ?case by simp
next
  case (Cons b bs)
  show ?case
  proof (cases "n < 8")
    case True
    then show ?thesis by (auto simp: bit_simps)
  next
    case False
    then obtain k where n: "n = k + 8" by (metis le_add_diff_inverse2 not_less)
    have d: "n div 8 = Suc (k div 8)" "n mod 8 = k mod 8" unfolding n by simp_all
    have "\<not> bit b n" using False by (auto dest: bit_imp_le_length)
    then show ?thesis
      using Cons.IH [of k] unfolding d by (auto simp: bit_simps n)
  qed
qed

lemma length_to_le [simp]: "length (to_le n v) = n"
  by (simp add: to_le_def)

lemma nth_to_le [simp]: "k < n \<Longrightarrow> to_le n v ! k = ucast (drop_bit (8 * k) v)"
  by (simp add: to_le_def)

lemma from_le_to_le:
  assumes "LENGTH('a::len) = 8 * n"
  shows "from_le (to_le n (v :: 'a word)) = v"
proof (rule bit_word_eqI)
  fix k assume k: "k < LENGTH('a)"
  with assms have "k div 8 < n" by simp
  with k show "bit (from_le (to_le n v) :: 'a word) k \<longleftrightarrow> bit v k"
    by (simp add: bit_from_le bit_simps mult.commute)
qed

interpretation le32: codec "to_le 4" "from_le :: u8 list \<Rightarrow> u32" "\<lambda>_. True"
  by unfold_locales (simp add: from_le_to_le)

subsection \<open>Reading back what was stored\<close>

lemma store_bytes_apply:
  assumes "length bs \<le> 2 ^ 64"
  shows "store_bytes m a bs x = (if unat (x - a) < length bs then bs ! unat (x - a) else m x)"
  using assms
proof (induction bs arbitrary: m a)
  case Nil
  then show ?case by simp
next
  case (Cons b bs)
  have IH: "store_bytes (m(a := b)) (a + 1) bs x =
      (if unat (x - (a + 1)) < length bs then bs ! unat (x - (a + 1)) else (m(a := b)) x)"
    using Cons.prems by (intro Cons.IH) simp
  show ?case
  proof (cases "x = a")
    case True
    have "unat (x - (a + 1)) = 2 ^ 64 - 1"
      using True by (simp add: unsigned_minus_1_eq_mask mask_eq_exp_minus_1)
    with IH True Cons.prems show ?thesis by simp
  next
    case False
    then have pos: "x - a \<noteq> 0" by simp
    then have "unat (x - (a + 1)) = unat (x - a) - 1"
      by (simp add: unat_minus_one diff_diff_add [symmetric])
    moreover have "0 < unat (x - a)" using pos by (simp add: unat_gt_0)
    ultimately show ?thesis using IH False by (auto simp: nth_Cons' less_diff_conv2)
  qed
qed

lemma unat_add_diff_small:
  assumes "k < 2 ^ 64"
  shows "unat ((a + of_nat k :: u64) - a) = k"
  using assms by (simp add: unsigned_of_nat take_bit_nat_eq_self)

text \<open>
  The contract of a memory that holds values of one width: what was stored is read back, a
  store changes no byte outside the value, and a load depends on the bytes of the value only.
\<close>

locale byte_store =
  fixes load :: "'m \<Rightarrow> u64 \<Rightarrow> 'v"
    and store :: "'m \<Rightarrow> u64 \<Rightarrow> 'v \<Rightarrow> 'm"
    and byte :: "'m \<Rightarrow> u64 \<Rightarrow> u8"
    and width :: nat
  assumes load_store: "load (store m a v) a = v"
    and store_frame: "width \<le> unat (x - a) \<Longrightarrow> byte (store m a v) x = byte m x"
    and load_bytes:
      "(\<And>k. k < width \<Longrightarrow> byte m (a + of_nat k) = byte m' (a + of_nat k)) \<Longrightarrow> load m a = load m' a"
begin

lemma load_disjoint:
  assumes "\<And>k. k < width \<Longrightarrow> width \<le> unat (b + of_nat k - a)"
  shows "load (store m a v) b = load m b"
  by (rule load_bytes) (simp add: store_frame assms)

end

lemma load_store_word:
  assumes "LENGTH('a::len) = 8 * n" and "n \<le> 2 ^ 64"
  shows "unaligned_load (unaligned_store m a v) a = (v :: 'a word)"
proof -
  have "map (\<lambda>k. unaligned_store m a v (a + of_nat k)) [0..<n] = to_le n v"
    using assms
    by (intro nth_equalityI)
      (simp_all add: unaligned_store_def store_bytes_apply unsigned_of_nat take_bit_nat_eq_self)
  then show ?thesis
    using assms(1) by (simp add: unaligned_load_def from_le_to_le)
qed

lemma store_word_frame:
  assumes "LENGTH('a::len) = 8 * n" and "n \<le> 2 ^ 64" and "n \<le> unat (x - a)"
  shows "unaligned_store m a (v :: 'a word) x = m x"
  using assms by (simp add: unaligned_store_def store_bytes_apply)

lemma load_word_cong:
  assumes "LENGTH('a::len) = 8 * n"
    and "\<And>k. k < n \<Longrightarrow> m (a + of_nat k) = m' (a + of_nat k)"
  shows "unaligned_load m a = (unaligned_load m' a :: 'a word)"
  unfolding unaligned_load_def using assms by (intro arg_cong [where f = from_le]) simp

interpretation mem8: byte_store unaligned_load "unaligned_store :: vmem \<Rightarrow> u64 \<Rightarrow> u8 \<Rightarrow> vmem"
  "\<lambda>m. m" 1
  by unfold_locales
    (auto intro!: load_store_word [where n = 1] store_word_frame [where n = 1]
      load_word_cong [where n = 1])

interpretation mem16: byte_store unaligned_load "unaligned_store :: vmem \<Rightarrow> u64 \<Rightarrow> u16 \<Rightarrow> vmem"
  "\<lambda>m. m" 2
  by unfold_locales
    (auto intro!: load_store_word [where n = 2] store_word_frame [where n = 2]
      load_word_cong [where n = 2])

interpretation mem32: byte_store unaligned_load "unaligned_store :: vmem \<Rightarrow> u64 \<Rightarrow> u32 \<Rightarrow> vmem"
  "\<lambda>m. m" 4
  by unfold_locales
    (auto intro!: load_store_word [where n = 4] store_word_frame [where n = 4]
      load_word_cong [where n = 4])

section \<open>Rounding up\<close>

lemma roundup_nat:
  fixes x y :: u64
  assumes "y \<noteq> 0" and "unat x + unat y < 2 ^ 64"
  shows "unat (roundup x y) = ((unat x + unat y - 1) div unat y) * unat y"
    and "unat x \<le> unat (roundup x y)" and "unat (roundup x y) < unat x + unat y"
    and "unat y dvd unat (roundup x y)"
proof -
  let ?n = "unat x + unat y - 1" and ?d = "unat y"
  have pos: "0 < ?d" using assms(1) by (simp add: unat_gt_0)
  have s: "unat (x + (y - 1)) = ?n"
  proof -
    have "x + (y - 1) = of_nat ?n" using pos by (simp add: of_nat_diff algebra_simps)
    then show ?thesis using assms(2) by (simp only: unsigned_of_nat) (simp add: take_bit_nat_eq_self)
  qed
  have le: "(?n div ?d) * ?d \<le> ?n" by simp
  have "unat (w div y * y) = (unat w div ?d) * ?d mod 2 ^ 64" for w :: u64
    by (simp add: unat_word_ariths unat_div mod_mult_left_eq)
  then have "unat ((x + (y - 1)) div y * y) = (?n div ?d) * ?d"
    using le assms(2) by (simp only: s) (rule mod_less, linarith)
  then show eq: "unat (roundup x y) = (?n div ?d) * ?d" by (simp add: roundup_def)
  show "?d dvd unat (roundup x y)" unfolding eq by simp
  have "?n < (?n div ?d) * ?d + ?d" using div_mult_mod_eq [of ?n ?d] mod_less_divisor [OF pos, of ?n] by linarith
  then show "unat x \<le> unat (roundup x y)" unfolding eq using pos by linarith
  show "unat (roundup x y) < unat x + unat y" unfolding eq using le pos by linarith
qed

end
