(* ===== verification/Bitfield.thy ===== *)
theory Bitfield
  imports Prelude
begin

text \<open>
  The bit-field templates of \<^verbatim>\<open>src/dbt/util/bitfield.h\<close>. \<open>bf_range<T, l, h>\<close> reads and
  writes bits \<open>l..h\<close> of a container as a value of type \<open>T\<close>; \<open>bf_seq\<close> concatenates
  several ranges, the last of them signed. Template arguments are arguments here: the bounds are
  numbers, the types are the word lengths of the result and of the container.
\<close>

section \<open>Decoding and encoding one range\<close>

text \<open>
  The conditions the template asserts at compile time.
\<close>

definition bf_range_ok :: "nat \<Rightarrow> nat \<Rightarrow> nat \<Rightarrow> nat \<Rightarrow> bool" where
  "bf_range_ok type_size container_size l h \<longleftrightarrow>
     l \<le> h \<and> h - l + 1 \<le> type_size \<and> h < container_size"

text \<open>
  \<open>decode_bits\<close> shifts the field to the top of the container and back down. For an unsigned
  \<open>T\<close> the container is taken as unsigned and the shift back is logical; for a signed one it is
  arithmetic, which repeats the field's top bit.
\<close>

definition bf_range_decode_u :: "nat \<Rightarrow> nat \<Rightarrow> 'c::len word \<Rightarrow> 't::len word" where
  "bf_range_decode_u l h c =
     (let u_msb = LENGTH('c) - 1
      in ucast (drop_bit (u_msb - h + l) (push_bit (u_msb - h) c)))"

definition bf_range_decode_s :: "nat \<Rightarrow> nat \<Rightarrow> 'c::len word \<Rightarrow> 't::len word" where
  "bf_range_decode_s l h c =
     (let u_msb = LENGTH('c) - 1
      in scast (signed_drop_bit (u_msb - h + l) (push_bit (u_msb - h) c)))"

definition bf_range_mask :: "nat \<Rightarrow> nat \<Rightarrow> 'c::len word" where
  "bf_range_mask l h = push_bit l (push_bit (h - l + 1) 1 - 1)"

definition bf_range_encode :: "nat \<Rightarrow> nat \<Rightarrow> 'c::len word \<Rightarrow> 't::len word \<Rightarrow> 'c word" where
  "bf_range_encode l h c t =
     (let u_msb = LENGTH('c) - 1;
          fval = drop_bit (u_msb - h) (push_bit (u_msb - h + l) (ucast t))
      in (c AND NOT (bf_range_mask l h)) OR fval)"

section \<open>Sequences of ranges\<close>

text \<open>
  \<open>bf_seq<T, P, Args...>\<close>: the first part is the least significant, every part but the last is
  unsigned, and the last part is decoded as \<open>T\<close>, which is signed in every use.
\<close>

fun bf_seq_decode :: "(nat \<times> nat) list \<Rightarrow> 'c::len word \<Rightarrow> 't::len word" where
  "bf_seq_decode [] c = 0"
| "bf_seq_decode [(l, h)] c = bf_range_decode_s l h c"
| "bf_seq_decode ((l, h) # ps) c =
     bf_range_decode_u l h c OR push_bit (h - l + 1) (bf_seq_decode ps c)"

section \<open>Fields bit by bit\<close>

lemma bit_bf_range_decode_u:
  fixes c :: "'c::len word"
  assumes "l \<le> h" and "h < LENGTH('c)"
  shows "bit (bf_range_decode_u l h c :: 't::len word) n \<longleftrightarrow>
    n < LENGTH('t) \<and> n \<le> h - l \<and> bit c (l + n)"
  using assms unfolding bf_range_decode_u_def Let_def
  by (auto simp: bit_simps dest: bit_imp_le_length)

lemma bit_bf_range_decode_s:
  fixes c :: "'c::len word"
  assumes "l \<le> h" and "h < LENGTH('c)"
  shows "bit (bf_range_decode_s l h c :: 't::len word) n \<longleftrightarrow>
    n < LENGTH('t) \<and> bit c (min h (l + n))"
proof -
  define L where "L = LENGTH('c)"
  define k where "k = min (L - 1) n"
  define j where "j = (if L - (L - 1 - h + l) \<le> k \<and> k < L then L - 1 else L - 1 - h + l + k)"
  have "h < L" and "0 < L" using assms by (simp_all add: L_def)
  then have j: "L - 1 - h \<le> j" "j < L" "j - (L - 1 - h) = min h (l + n)"
    using assms(1) unfolding j_def k_def by (auto simp: min_def)
  have "bit (bf_range_decode_s l h c :: 't word) n \<longleftrightarrow>
      n < LENGTH('t) \<and> L - 1 - h \<le> j \<and> j < L \<and> bit c (j - (L - 1 - h))"
    unfolding bf_range_decode_s_def Let_def bit_signed_iff bit_signed_drop_bit_iff bit_push_bit_iff
      j_def k_def L_def by auto
  with j show ?thesis by simp
qed

lemma bit_bf_range_mask:
  assumes "l \<le> h" and "h < LENGTH('c::len)"
  shows "bit (bf_range_mask l h :: 'c word) n \<longleftrightarrow> l \<le> n \<and> n \<le> h"
proof -
  have "bf_range_mask l h = (push_bit l (mask (h - l + 1)) :: 'c word)"
    unfolding bf_range_mask_def push_bit_of_1 mask_eq_exp_minus_1 ..
  then show ?thesis using assms by (auto simp: bit_simps)
qed

lemma bit_bf_range_encode:
  fixes c :: "'c::len word" and t :: "'t::len word"
  assumes "l \<le> h" and "h < LENGTH('c)"
  shows "bit (bf_range_encode l h c t) n \<longleftrightarrow>
    (if l \<le> n \<and> n \<le> h then n - l < LENGTH('t) \<and> bit t (n - l) else bit c n)"
  using assms unfolding bf_range_encode_def Let_def
  by (auto simp: bit_simps bit_bf_range_mask dest: bit_imp_le_length)

lemmas bf_bits = bit_bf_range_decode_u bit_bf_range_decode_s bit_bf_range_encode bit_bf_range_mask

section \<open>Round trips\<close>

text \<open>Reading a field back after writing it gives the low bits of the value, and the value itself
  when it fits.\<close>

lemma bf_decode_encode:
  fixes c :: "'c::len word" and t :: "'t::len word"
  assumes "l \<le> h" and "h < LENGTH('c)"
  shows "bf_range_decode_u l h (bf_range_encode l h c t) = take_bit (h - l + 1) t"
  using assms by (intro bit_word_eqI) (auto simp: bf_bits bit_simps)

lemma bf_decode_encode_fits:
  fixes c :: "'c::len word" and t :: "'t::len word"
  assumes "l \<le> h" and "h < LENGTH('c)" and "unat t < 2 ^ (h - l + 1)"
  shows "bf_range_decode_u l h (bf_range_encode l h c t) = t"
proof -
  have "take_bit (h - l + 1) t = t"
    using assms(3) by (metis take_bit_nat_eq_self_iff unsigned_take_bit_eq word_unat_eq_iff)
  then show ?thesis using bf_decode_encode [OF assms(1,2), of c t] by simp
qed

text \<open>Writing one field leaves every field that shares no bit with it unchanged.\<close>

lemma bf_decode_encode_other:
  fixes c :: "'c::len word" and t :: "'t::len word"
  assumes "l \<le> h" "h < LENGTH('c)" "l' \<le> h'" "h' < LENGTH('c)" and "h < l' \<or> h' < l"
  shows "bf_range_decode_u l' h' (bf_range_encode l h c t) = (bf_range_decode_u l' h' c :: 'u::len word)"
  using assms by (intro bit_word_eqI) (auto simp: bf_bits)

text \<open>A decoded unsigned field is bounded by its width.\<close>

lemma bf_decode_u_bound:
  fixes c :: "'c::len word"
  assumes "l \<le> h" and "h < LENGTH('c)"
  shows "unat (bf_range_decode_u l h c :: 't::len word) < 2 ^ (h - l + 1)"
proof -
  let ?w = "bf_range_decode_u l h c :: 't word"
  have "take_bit (h - l + 1) ?w = ?w"
    using assms by (intro bit_word_eqI) (auto simp: bf_bits bit_simps)
  then have "unat ?w = take_bit (h - l + 1) (unat ?w)"
    by (metis unsigned_take_bit_eq)
  then show ?thesis by (metis take_bit_nat_less_exp)
qed

end
