(* ===== verification/QIR_Operand.thy ===== *)
theory QIR_Operand
  imports Bitfield
begin

text \<open>
  Operands of the intermediate code, \<open>VOperand\<close> of \<^verbatim>\<open>src/dbt/qmc/qir.h\<close>: a constant, a
  virtual or physical register, or a slot of the CPU state or of the stack frame, packed into one
  64-bit word by the bit-field templates. The section on views gives the operand a structured
  reading and shows that the packed constructors and accessors implement it.
\<close>

section \<open>Value types\<close>

datatype VType = UNDEF | I8 | I16 | I32

primrec VType_code :: "VType \<Rightarrow> u8" where
  "VType_code UNDEF = 0"
| "VType_code I8 = 1"
| "VType_code I16 = 2"
| "VType_code I32 = 3"

definition VType_of :: "u8 \<Rightarrow> VType" where
  "VType_of c = (if c = 0 then UNDEF else if c = 1 then I8 else if c = 2 then I16 else I32)"

primrec VTypeToSize :: "VType \<Rightarrow> u8 res" where
  "VTypeToSize I8 = Inr 1"
| "VTypeToSize I16 = Inr 2"
| "VTypeToSize I32 = Inr 4"
| "VTypeToSize UNDEF = Inl Unreachable"

datatype VSign = VU | VS

type_synonym RegN = u16

definition RegNBad :: RegN where "RegNBad = - 1"

section \<open>Packed operands\<close>

datatype VOperand = VOperand (voperand_value: u64)

datatype Kind = Kind_CONST | Kind_GPR | Kind_SLOT | Kind_BAD

primrec Kind_code :: "Kind \<Rightarrow> u8" where
  "Kind_code Kind_CONST = 0"
| "Kind_code Kind_GPR = 1"
| "Kind_code Kind_SLOT = 2"
| "Kind_code Kind_BAD = 3"

definition Kind_of :: "u8 \<Rightarrow> Kind" where
  "Kind_of c = (if c = 0 then Kind_CONST else if c = 1 then Kind_GPR else if c = 2 then Kind_SLOT else Kind_BAD)"

definition bool_code :: "bool \<Rightarrow> u8" where "bool_code b = (if b then 1 else 0)"

text \<open>The fields; \<open>f_reg\<close>, \<open>f_const\<close> and \<open>f_slot_offs\<close> share their first bits.\<close>

definition f_kind_encode :: "u64 \<Rightarrow> u8 \<Rightarrow> u64" where "f_kind_encode = bf_range_encode 0 1"
definition f_kind_decode :: "u64 \<Rightarrow> u8" where "f_kind_decode = bf_range_decode_u 0 1"
definition f_type_encode :: "u64 \<Rightarrow> u8 \<Rightarrow> u64" where "f_type_encode = bf_range_encode 2 3"
definition f_type_decode :: "u64 \<Rightarrow> u8" where "f_type_decode = bf_range_decode_u 2 3"
definition f_is_virtual_encode :: "u64 \<Rightarrow> u8 \<Rightarrow> u64" where
  "f_is_virtual_encode = bf_range_encode 4 4"
definition f_is_virtual_decode :: "u64 \<Rightarrow> u8" where "f_is_virtual_decode = bf_range_decode_u 4 4"
definition f_reg_encode :: "u64 \<Rightarrow> u16 \<Rightarrow> u64" where "f_reg_encode = bf_range_encode 5 20"
definition f_reg_decode :: "u64 \<Rightarrow> u16" where "f_reg_decode = bf_range_decode_u 5 20"
definition f_const_encode :: "u64 \<Rightarrow> u32 \<Rightarrow> u64" where "f_const_encode = bf_range_encode 5 36"
definition f_const_decode :: "u64 \<Rightarrow> u32" where "f_const_decode = bf_range_decode_u 5 36"
definition f_slot_offs_encode :: "u64 \<Rightarrow> u16 \<Rightarrow> u64" where
  "f_slot_offs_encode = bf_range_encode 5 20"
definition f_slot_offs_decode :: "u64 \<Rightarrow> u16" where "f_slot_offs_decode = bf_range_decode_u 5 20"
definition f_slot_is_global_encode :: "u64 \<Rightarrow> u8 \<Rightarrow> u64" where
  "f_slot_is_global_encode = bf_range_encode 21 21"
definition f_slot_is_global_decode :: "u64 \<Rightarrow> u8" where
  "f_slot_is_global_decode = bf_range_decode_u 21 21"

lemmas voperand_fields =
  f_kind_encode_def f_kind_decode_def f_type_encode_def f_type_decode_def
  f_is_virtual_encode_def f_is_virtual_decode_def f_reg_encode_def f_reg_decode_def
  f_const_encode_def f_const_decode_def f_slot_offs_encode_def f_slot_offs_decode_def
  f_slot_is_global_encode_def f_slot_is_global_decode_def

definition MakeBad :: VOperand where
  "MakeBad = VOperand (f_kind_encode 0 (Kind_code Kind_BAD))"

definition MakeVGPR :: "VType \<Rightarrow> RegN \<Rightarrow> VOperand" where
  "MakeVGPR type reg =
     (let value = f_kind_encode 0 (Kind_code Kind_GPR);
          value = f_type_encode value (VType_code type);
          value = f_is_virtual_encode value (bool_code True);
          value = f_reg_encode value reg
      in VOperand value)"

definition MakePGPR :: "VType \<Rightarrow> RegN \<Rightarrow> VOperand" where
  "MakePGPR type reg =
     (let value = f_kind_encode 0 (Kind_code Kind_GPR);
          value = f_type_encode value (VType_code type);
          value = f_reg_encode value reg
      in VOperand value)"

definition MakeConst :: "VType \<Rightarrow> u32 \<Rightarrow> VOperand" where
  "MakeConst type cval =
     (let value = f_kind_encode 0 (Kind_code Kind_CONST);
          value = f_type_encode value (VType_code type);
          value = f_const_encode value cval
      in VOperand value)"

definition MakeSlot :: "bool \<Rightarrow> VType \<Rightarrow> u16 \<Rightarrow> VOperand" where
  "MakeSlot is_glob type offs =
     (let value = f_kind_encode 0 (Kind_code Kind_SLOT);
          value = f_type_encode value (VType_code type);
          value = f_slot_offs_encode value offs;
          value = f_slot_is_global_encode value (bool_code is_glob)
      in VOperand value)"

definition GetKind :: "VOperand \<Rightarrow> Kind" where
  "GetKind v = Kind_of (f_kind_decode (voperand_value v))"

definition FlagV :: "VOperand \<Rightarrow> bool" where
  "FlagV v \<longleftrightarrow> f_is_virtual_decode (voperand_value v) \<noteq> 0"

definition GetType :: "VOperand \<Rightarrow> VType" where
  "GetType v = VType_of (f_type_decode (voperand_value v))"

definition IsConst :: "VOperand \<Rightarrow> bool" where "IsConst v \<longleftrightarrow> GetKind v = Kind_CONST"
definition IsGPR :: "VOperand \<Rightarrow> bool" where "IsGPR v \<longleftrightarrow> GetKind v = Kind_GPR"
definition IsSlot :: "VOperand \<Rightarrow> bool" where "IsSlot v \<longleftrightarrow> GetKind v = Kind_SLOT"

definition IsV :: "VOperand \<Rightarrow> bool res" where
  "IsV v = (if IsGPR v then Inr (FlagV v) else Inl AssertFailed)"

definition IsPGPR :: "VOperand \<Rightarrow> bool" where "IsPGPR v \<longleftrightarrow> IsGPR v \<and> \<not> FlagV v"
definition IsVGPR :: "VOperand \<Rightarrow> bool" where "IsVGPR v \<longleftrightarrow> IsGPR v \<and> FlagV v"

definition IsGSlot :: "VOperand \<Rightarrow> bool" where
  "IsGSlot v \<longleftrightarrow> IsSlot v \<and> f_slot_is_global_decode (voperand_value v) \<noteq> 0"

definition IsLSlot :: "VOperand \<Rightarrow> bool" where
  "IsLSlot v \<longleftrightarrow> IsSlot v \<and> \<not> f_slot_is_global_decode (voperand_value v) \<noteq> 0"

definition GetConst :: "VOperand \<Rightarrow> u32 res" where
  "GetConst v = (if IsConst v then Inr (f_const_decode (voperand_value v)) else Inl AssertFailed)"

definition GetPGPR :: "VOperand \<Rightarrow> RegN res" where
  "GetPGPR v = (if IsPGPR v then Inr (f_reg_decode (voperand_value v)) else Inl AssertFailed)"

definition GetVGPR :: "VOperand \<Rightarrow> RegN res" where
  "GetVGPR v = (if IsVGPR v then Inr (f_reg_decode (voperand_value v)) else Inl AssertFailed)"

definition GetSlotOffs :: "VOperand \<Rightarrow> u16 res" where
  "GetSlotOffs v = (if IsSlot v then Inr (f_slot_offs_decode (voperand_value v)) else Inl AssertFailed)"

section \<open>Fields of the constructors\<close>

lemma codes_inv [simp]:
  "VType_of (VType_code t) = t" "Kind_of (Kind_code k) = k" "bool_code b \<noteq> 0 \<longleftrightarrow> b"
  "bool_code b = 0 \<longleftrightarrow> \<not> b"
  by (cases t, simp_all add: VType_of_def) (cases k, simp_all add: Kind_of_def bool_code_def)

lemma codes_fit [simp]:
  "unat (VType_code t) < 4" "unat (Kind_code k) < 4" "unat (bool_code b) < 2"
  by (cases t, simp_all) (cases k, simp_all add: bool_code_def)

lemma decode_zero [simp]: "bf_range_decode_u l h (0 :: u64) = 0"
  by (simp add: bf_range_decode_u_def)

lemmas field_roundtrip = bf_decode_encode_fits bf_decode_encode_other

lemma kind_of_make [simp]:
  "GetKind (MakeVGPR t r) = Kind_GPR" "GetKind (MakePGPR t r) = Kind_GPR"
  "GetKind (MakeConst t c) = Kind_CONST" "GetKind (MakeSlot g t k) = Kind_SLOT" "GetKind MakeBad = Kind_BAD"
  by (simp_all add: GetKind_def MakeVGPR_def MakePGPR_def MakeConst_def MakeSlot_def MakeBad_def
      Let_def voperand_fields field_roundtrip Kind_of_def)

lemma type_of_make [simp]:
  "GetType (MakeVGPR t r) = t" "GetType (MakePGPR t r) = t"
  "GetType (MakeConst t c) = t" "GetType (MakeSlot g t k) = t"
  by (simp_all add: GetType_def MakeVGPR_def MakePGPR_def MakeConst_def MakeSlot_def
      Let_def voperand_fields field_roundtrip)

lemma flagv_of_make [simp]: "FlagV (MakeVGPR t r)" "\<not> FlagV (MakePGPR t r)"
  by (simp_all add: FlagV_def MakeVGPR_def MakePGPR_def Let_def voperand_fields field_roundtrip)

lemma is_of_make [simp]:
  "IsVGPR (MakeVGPR t r)" "\<not> IsPGPR (MakeVGPR t r)" "\<not> IsConst (MakeVGPR t r)" "\<not> IsSlot (MakeVGPR t r)"
  "\<not> IsVGPR (MakePGPR t r)" "IsPGPR (MakePGPR t r)" "\<not> IsConst (MakePGPR t r)" "\<not> IsSlot (MakePGPR t r)"
  "\<not> IsVGPR (MakeConst t c)" "\<not> IsPGPR (MakeConst t c)" "IsConst (MakeConst t c)" "\<not> IsSlot (MakeConst t c)"
  "\<not> IsVGPR (MakeSlot g t k)" "\<not> IsPGPR (MakeSlot g t k)" "\<not> IsConst (MakeSlot g t k)" "IsSlot (MakeSlot g t k)"
  "\<not> IsVGPR MakeBad" "\<not> IsPGPR MakeBad" "\<not> IsConst MakeBad" "\<not> IsSlot MakeBad"
  by (simp_all add: IsVGPR_def IsPGPR_def IsConst_def IsSlot_def IsGPR_def)

lemma field_full:
  "bf_range_decode_u 5 20 (bf_range_encode 5 20 (c :: u64) (r :: u16)) = r"
  "bf_range_decode_u 5 36 (bf_range_encode 5 36 (c :: u64) (v :: u32)) = v"
  using unsigned_less [of r, where 'a = nat] unsigned_less [of v, where 'a = nat]
  by (simp_all add: bf_decode_encode_fits)

lemma payload_of_make:
  "f_reg_decode (voperand_value (MakeVGPR t r)) = r"
  "f_reg_decode (voperand_value (MakePGPR t r)) = r"
  "f_const_decode (voperand_value (MakeConst t c)) = c"
  "f_slot_offs_decode (voperand_value (MakeSlot g t k)) = k"
  "f_slot_is_global_decode (voperand_value (MakeSlot g t k)) = bool_code g"
  by (simp_all add: MakeConst_def MakePGPR_def MakeVGPR_def MakeSlot_def Let_def voperand_fields
      field_full bf_decode_encode_other bf_decode_encode_fits)

lemma slot_of_make [simp]:
  "IsGSlot (MakeSlot g t k) \<longleftrightarrow> g" "IsLSlot (MakeSlot g t k) \<longleftrightarrow> \<not> g"
  "\<not> IsGSlot (MakeVGPR t r)" "\<not> IsGSlot (MakePGPR t r)" "\<not> IsGSlot (MakeConst t c)"
  "\<not> IsLSlot (MakeVGPR t r)" "\<not> IsLSlot (MakePGPR t r)" "\<not> IsLSlot (MakeConst t c)"
  by (simp_all add: IsGSlot_def IsLSlot_def payload_of_make)

lemma get_of_make [simp]:
  "GetConst (MakeConst t c) = Inr c" "GetPGPR (MakePGPR t r) = Inr r"
  "GetVGPR (MakeVGPR t r) = Inr r" "GetSlotOffs (MakeSlot g t k) = Inr k"
  by (simp_all add: GetConst_def GetPGPR_def GetVGPR_def GetSlotOffs_def payload_of_make)

section \<open>Views\<close>

text \<open>
  What an operand means: its kind with the kind's payload. \<open>make_operand\<close> builds the packed word
  with the constructors of the source, and \<open>view_of\<close> reads any word with its accessors.
\<close>

datatype view =
    VConst VType u32
  | VVirt VType RegN
  | VPhys VType RegN
  | VSlot bool VType u16
  | VBad

primrec make_operand :: "view \<Rightarrow> VOperand" where
  "make_operand (VConst t c) = MakeConst t c"
| "make_operand (VVirt t r) = MakeVGPR t r"
| "make_operand (VPhys t r) = MakePGPR t r"
| "make_operand (VSlot g t k) = MakeSlot g t k"
| "make_operand VBad = MakeBad"

definition view_of :: "VOperand \<Rightarrow> view" where
  "view_of v =
     (case GetKind v of
        Kind_CONST \<Rightarrow> VConst (GetType v) (f_const_decode (voperand_value v))
      | Kind_GPR \<Rightarrow> (if FlagV v then VVirt else VPhys) (GetType v) (f_reg_decode (voperand_value v))
      | Kind_SLOT \<Rightarrow> VSlot (IsGSlot v) (GetType v) (f_slot_offs_decode (voperand_value v))
      | Kind_BAD \<Rightarrow> VBad)"

interpretation voperand: codec make_operand view_of "\<lambda>_. True"
proof
  fix x show "view_of (make_operand x) = x"
    by (cases x) (simp_all add: view_of_def payload_of_make)
qed

lemma view_of_make [simp]:
  "view_of (MakeConst t c) = VConst t c" "view_of (MakeVGPR t r) = VVirt t r"
  "view_of (MakePGPR t r) = VPhys t r" "view_of (MakeSlot g t k) = VSlot g t k"
  by (simp_all add: view_of_def payload_of_make)

text \<open>C7. The packed operand implements its view: the constructors and the reading of a word are
  inverse to each other, so no two operands share an encoding, and on every 64-bit word, built by a
  constructor or not, each accessor returns the payload of the view's kind and fails its assertion
  on every other kind.\<close>

theorem voperand_refines_view:
  "view_of (make_operand x) = x \<and>
   (make_operand x = make_operand y \<longleftrightarrow> x = y) \<and>
   GetConst v = (case view_of v of VConst t c \<Rightarrow> Inr c | _ \<Rightarrow> Inl AssertFailed) \<and>
   GetVGPR v = (case view_of v of VVirt t r \<Rightarrow> Inr r | _ \<Rightarrow> Inl AssertFailed) \<and>
   GetPGPR v = (case view_of v of VPhys t r \<Rightarrow> Inr r | _ \<Rightarrow> Inl AssertFailed) \<and>
   GetSlotOffs v = (case view_of v of VSlot g t k \<Rightarrow> Inr k | _ \<Rightarrow> Inl AssertFailed) \<and>
   (IsGSlot v \<longleftrightarrow> (case view_of v of VSlot g t k \<Rightarrow> g | _ \<Rightarrow> False))"
  by (intro conjI, simp_all add: voperand.dec_enc voperand.enc_eq_iff)
    (simp_all add: view_of_def GetConst_def IsConst_def GetVGPR_def IsVGPR_def GetPGPR_def IsPGPR_def
      GetSlotOffs_def IsGPR_def IsSlot_def IsGSlot_def split: Kind.splits)

end
