(* ===== verification/QIR.thy ===== *)
theory QIR
  imports QIR_Operand
begin

text \<open>
  The intermediate representation of \<^verbatim>\<open>src/dbt/qmc/qir.h\<close>, \<^verbatim>\<open>qir_ops.h\<close> and \<^verbatim>\<open>qir.cpp\<close>: the
  opcode table, the instruction classes with their operand spans, condition codes, blocks with
  their edges, the register tables and the region that owns them, and the runtime stubs an
  instruction may call (\<^verbatim>\<open>src/dbt/qmc/runtime_stubs.h\<close>, \<^verbatim>\<open>src/dbt/guest/rv32_stubs.h\<close>).

  An instruction list is a list of instructions, each with the address its allocation gave it; an
  iterator into the list is the address of the instruction it points at, or nothing for the end.
  Addresses are the numbers of the allocations in the region's arena: what matters of them is that
  a new one differs from those in use. The arena of a job has 1 MB (\<^verbatim>\<open>src/dbt/qmc/compile.cpp\<close>); that it runs out is not an
  outcome of the model. A block is named by its own number, which is its position in
  the region.
\<close>

section \<open>Opcodes\<close>

datatype (plugins only: code size) QOp =
    q_hcall | q_br | q_brcc | q_gbr | q_gbrind | q_vmload | q_vmstore | q_setcc
  | q_mov
  | q_add | q_sub | q_and | q_or | q_xor | q_sra | q_srl | q_sll

definition Inst_SIDEEFF :: u8 where "Inst_SIDEEFF = 1"
definition Inst_REXIT :: u8 where "Inst_REXIT = 2"
definition Inst_HAS_CALLS :: u8 where "Inst_HAS_CALLS = 4"

primrec GetOpFlags :: "QOp \<Rightarrow> u8" where
  "GetOpFlags q_hcall = Inst_SIDEEFF OR Inst_HAS_CALLS"
| "GetOpFlags q_br = 0"
| "GetOpFlags q_brcc = 0"
| "GetOpFlags q_gbr = Inst_REXIT"
| "GetOpFlags q_gbrind = Inst_REXIT"
| "GetOpFlags q_vmload = Inst_SIDEEFF"
| "GetOpFlags q_vmstore = Inst_SIDEEFF"
| "GetOpFlags q_setcc = 0"
| "GetOpFlags q_mov = 0"
| "GetOpFlags q_add = 0"
| "GetOpFlags q_sub = 0"
| "GetOpFlags q_and = 0"
| "GetOpFlags q_or = 0"
| "GetOpFlags q_xor = 0"
| "GetOpFlags q_sra = 0"
| "GetOpFlags q_srl = 0"
| "GetOpFlags q_sll = 0"

text \<open>The table \<open>op_info\<close>: name, number of outputs, number of inputs.\<close>

record OpInfo =
  op_name :: string
  n_out :: nat
  n_in :: nat

primrec GetOpInfo :: "QOp \<Rightarrow> OpInfo" where
  "GetOpInfo q_hcall = \<lparr>op_name = ''hcall'', n_out = 0, n_in = 1\<rparr>"
| "GetOpInfo q_br = \<lparr>op_name = ''br'', n_out = 0, n_in = 0\<rparr>"
| "GetOpInfo q_brcc = \<lparr>op_name = ''brcc'', n_out = 0, n_in = 2\<rparr>"
| "GetOpInfo q_gbr = \<lparr>op_name = ''gbr'', n_out = 0, n_in = 0\<rparr>"
| "GetOpInfo q_gbrind = \<lparr>op_name = ''gbrind'', n_out = 0, n_in = 1\<rparr>"
| "GetOpInfo q_vmload = \<lparr>op_name = ''vmload'', n_out = 1, n_in = 1\<rparr>"
| "GetOpInfo q_vmstore = \<lparr>op_name = ''vmstore'', n_out = 0, n_in = 2\<rparr>"
| "GetOpInfo q_setcc = \<lparr>op_name = ''setcc'', n_out = 1, n_in = 2\<rparr>"
| "GetOpInfo q_mov = \<lparr>op_name = ''mov'', n_out = 1, n_in = 1\<rparr>"
| "GetOpInfo q_add = \<lparr>op_name = ''add'', n_out = 1, n_in = 2\<rparr>"
| "GetOpInfo q_sub = \<lparr>op_name = ''sub'', n_out = 1, n_in = 2\<rparr>"
| "GetOpInfo q_and = \<lparr>op_name = ''and'', n_out = 1, n_in = 2\<rparr>"
| "GetOpInfo q_or = \<lparr>op_name = ''or'', n_out = 1, n_in = 2\<rparr>"
| "GetOpInfo q_xor = \<lparr>op_name = ''xor'', n_out = 1, n_in = 2\<rparr>"
| "GetOpInfo q_sra = \<lparr>op_name = ''sra'', n_out = 1, n_in = 2\<rparr>"
| "GetOpInfo q_srl = \<lparr>op_name = ''srl'', n_out = 1, n_in = 2\<rparr>"
| "GetOpInfo q_sll = \<lparr>op_name = ''sll'', n_out = 1, n_in = 2\<rparr>"

text \<open>The opcode ranges of the two shared classes.\<close>

definition InstUnop_HasOpcode :: "QOp \<Rightarrow> bool" where
  "InstUnop_HasOpcode op \<longleftrightarrow> op = q_mov"

definition InstBinop_HasOpcode :: "QOp \<Rightarrow> bool" where
  "InstBinop_HasOpcode op \<longleftrightarrow>
     (case op of q_add \<Rightarrow> True | q_sub \<Rightarrow> True | q_and \<Rightarrow> True | q_or \<Rightarrow> True | q_xor \<Rightarrow> True
      | q_sra \<Rightarrow> True | q_srl \<Rightarrow> True | q_sll \<Rightarrow> True | _ \<Rightarrow> False)"

section \<open>Condition codes\<close>

datatype CondCode = EQ | NE | LE | LT | GE | GT | LEU | LTU | GEU | GTU

primrec InverseCC :: "CondCode \<Rightarrow> CondCode" where
  "InverseCC EQ = NE"
| "InverseCC NE = EQ"
| "InverseCC LE = GT"
| "InverseCC LT = GE"
| "InverseCC GE = LT"
| "InverseCC GT = LE"
| "InverseCC LEU = GTU"
| "InverseCC LTU = GEU"
| "InverseCC GEU = LTU"
| "InverseCC GTU = LEU"

primrec SwapCC :: "CondCode \<Rightarrow> CondCode" where
  "SwapCC EQ = EQ"
| "SwapCC NE = NE"
| "SwapCC LE = GE"
| "SwapCC LT = GT"
| "SwapCC GE = LE"
| "SwapCC GT = LT"
| "SwapCC LEU = GEU"
| "SwapCC LTU = GTU"
| "SwapCC GEU = LEU"
| "SwapCC GTU = LTU"

section \<open>Runtime stubs\<close>

datatype (plugins only: code size) RuntimeStubId =
    id_escape_link | id_escape_brind | id_link_branch_jit | id_link_branch_aot
  | id_link_branch_llvmaot | id_brind | id_raise | id_trace | id_nevercalled
  | id_rv32_ill | id_rv32_fence | id_rv32_fencei | id_rv32_ecall | id_rv32_ebreak
  | id_rv32_lrw | id_rv32_scw | id_rv32_amoswapw | id_rv32_amoaddw | id_rv32_amoxorw
  | id_rv32_amoandw | id_rv32_amoorw | id_rv32_amominw | id_rv32_amomaxw
  | id_rv32_amominuw | id_rv32_amomaxuw

primrec stub_index :: "RuntimeStubId \<Rightarrow> nat" where
  "stub_index id_escape_link = 0"
| "stub_index id_escape_brind = 1"
| "stub_index id_link_branch_jit = 2"
| "stub_index id_link_branch_aot = 3"
| "stub_index id_link_branch_llvmaot = 4"
| "stub_index id_brind = 5"
| "stub_index id_raise = 6"
| "stub_index id_trace = 7"
| "stub_index id_nevercalled = 8"
| "stub_index id_rv32_ill = 9"
| "stub_index id_rv32_fence = 10"
| "stub_index id_rv32_fencei = 11"
| "stub_index id_rv32_ecall = 12"
| "stub_index id_rv32_ebreak = 13"
| "stub_index id_rv32_lrw = 14"
| "stub_index id_rv32_scw = 15"
| "stub_index id_rv32_amoswapw = 16"
| "stub_index id_rv32_amoaddw = 17"
| "stub_index id_rv32_amoxorw = 18"
| "stub_index id_rv32_amoandw = 19"
| "stub_index id_rv32_amoorw = 20"
| "stub_index id_rv32_amominw = 21"
| "stub_index id_rv32_amomaxw = 22"
| "stub_index id_rv32_amominuw = 23"
| "stub_index id_rv32_amomaxuw = 24"

text \<open>\<open>RuntimeStubTab::offs\<close>: the byte offset of a stub's address in the table.\<close>

definition RuntimeStubTab_offs :: "RuntimeStubId \<Rightarrow> u64" where
  "RuntimeStubTab_offs sid = 8 * of_nat (stub_index sid)"

section \<open>Instructions\<close>

datatype instc =
    InstUnop QOp VOperand VOperand
  | InstBinop QOp VOperand VOperand VOperand
  | InstBr
  | InstBrcc CondCode VOperand VOperand
  | InstGBr VOperand
  | InstGBrind VOperand
  | InstHcall RuntimeStubId VOperand
  | InstVMLoad VType VSign VOperand VOperand
  | InstVMStore VType VSign VOperand VOperand
  | InstSetcc CondCode VOperand VOperand VOperand

record Inst =
  inst_ptr :: nat
  inst_id :: u32
  inst_flags :: u8
  inst_c :: instc

fun GetOpcode :: "instc \<Rightarrow> QOp" where
  "GetOpcode (InstUnop op d s) = op"
| "GetOpcode (InstBinop op d sl sr) = op"
| "GetOpcode InstBr = q_br"
| "GetOpcode (InstBrcc cc s1 s2) = q_brcc"
| "GetOpcode (InstGBr tpc) = q_gbr"
| "GetOpcode (InstGBrind tpc) = q_gbrind"
| "GetOpcode (InstHcall stub arg) = q_hcall"
| "GetOpcode (InstVMLoad sz sg d p) = q_vmload"
| "GetOpcode (InstVMStore sz sg p v) = q_vmstore"
| "GetOpcode (InstSetcc cc d sl sr) = q_setcc"

text \<open>\<open>outputs()\<close> and \<open>inputs()\<close>: the operand spans, in the order of \<open>o(k)\<close> and \<open>i(k)\<close>.\<close>

fun outputs :: "instc \<Rightarrow> VOperand list" where
  "outputs (InstUnop op d s) = [d]"
| "outputs (InstBinop op d sl sr) = [d]"
| "outputs (InstVMLoad sz sg d p) = [d]"
| "outputs (InstSetcc cc d sl sr) = [d]"
| "outputs _ = []"

fun inputs :: "instc \<Rightarrow> VOperand list" where
  "inputs (InstUnop op d s) = [s]"
| "inputs (InstBinop op d sl sr) = [sl, sr]"
| "inputs (InstBrcc cc s1 s2) = [s1, s2]"
| "inputs (InstGBrind tpc) = [tpc]"
| "inputs (InstHcall stub arg) = [arg]"
| "inputs (InstVMLoad sz sg d p) = [p]"
| "inputs (InstVMStore sz sg p v) = [p, v]"
| "inputs (InstSetcc cc d sl sr) = [sl, sr]"
| "inputs _ = []"

text \<open>The constructors' assertions.\<close>

fun inst_ctor_ok :: "instc \<Rightarrow> bool" where
  "inst_ctor_ok (InstUnop op d s) \<longleftrightarrow> InstUnop_HasOpcode op"
| "inst_ctor_ok (InstBinop op d sl sr) \<longleftrightarrow> InstBinop_HasOpcode op"
| "inst_ctor_ok (InstGBr tpc) \<longleftrightarrow> IsConst tpc"
| "inst_ctor_ok _ \<longleftrightarrow> True"

section \<open>State registers and virtual registers\<close>

record StateReg =
  state_offs :: u16
  sr_type :: VType
  sr_name :: string

record StateInfo =
  si_regs :: "StateReg list"

definition si_n_regs :: "StateInfo \<Rightarrow> nat" where "si_n_regs si = length (si_regs si)"

definition GetStateReg :: "StateInfo \<Rightarrow> RegN \<Rightarrow> StateReg option" where
  "GetStateReg si idx = (if unat idx < si_n_regs si then Some (si_regs si ! unat idx) else None)"

record VRegsInfo =
  glob_info :: StateInfo
  loc_info :: "VType list"

definition NumGlobals :: "VRegsInfo \<Rightarrow> nat" where "NumGlobals vi = si_n_regs (glob_info vi)"
definition NumLocals :: "VRegsInfo \<Rightarrow> nat" where "NumLocals vi = length (loc_info vi)"
definition NumAll :: "VRegsInfo \<Rightarrow> nat" where "NumAll vi = si_n_regs (glob_info vi) + length (loc_info vi)"
definition IsGlobal :: "VRegsInfo \<Rightarrow> RegN \<Rightarrow> bool" where
  "IsGlobal vi idx \<longleftrightarrow> unat idx < si_n_regs (glob_info vi)"
definition IsLocal :: "VRegsInfo \<Rightarrow> RegN \<Rightarrow> bool" where "IsLocal vi idx \<longleftrightarrow> \<not> IsGlobal vi idx"

definition GetGlobalInfo :: "VRegsInfo \<Rightarrow> RegN \<Rightarrow> StateReg res" where
  "GetGlobalInfo vi idx =
     (if IsGlobal vi idx then Inr (si_regs (glob_info vi) ! unat idx) else Inl AssertFailed)"

definition GetLocalType :: "VRegsInfo \<Rightarrow> RegN \<Rightarrow> VType res" where
  "GetLocalType vi idx =
     (if \<not> IsLocal vi idx then Inl AssertFailed
      else let k = unat idx - si_n_regs (glob_info vi)
           in if k < length (loc_info vi) then Inr (loc_info vi ! k) else Inl BadIndex)"

definition AddLocal :: "VType \<Rightarrow> VRegsInfo \<Rightarrow> RegN \<times> VRegsInfo" where
  "AddLocal type vi =
     (of_nat (length (loc_info vi) + si_n_regs (glob_info vi)),
      vi\<lparr>loc_info := loc_info vi @ [type]\<rparr>)"

section \<open>Blocks and regions\<close>

record Block =
  ilist :: "Inst list"
  succs :: "nat list"
  preds :: "nat list"

record Region =
  blist :: "Block list"
  vregs_info :: VRegsInfo
  inst_id_counter :: u32
  arena_top :: nat

definition NewRegion :: "StateInfo \<Rightarrow> Region" where
  "NewRegion si = \<lparr>blist = [], vregs_info = \<lparr>glob_info = si, loc_info = []\<rparr>,
     inst_id_counter = 0, arena_top = 0\<rparr>"

definition GetNumBlocks :: "Region \<Rightarrow> nat" where "GetNumBlocks rn = length (blist rn)"

definition upd_block :: "nat \<Rightarrow> (Block \<Rightarrow> Block) \<Rightarrow> Region \<Rightarrow> Region" where
  "upd_block bb f rn = rn\<lparr>blist := (blist rn)[bb := f (blist rn ! bb)]\<rparr>"

definition CreateBlock :: "Region \<Rightarrow> nat \<times> Region" where
  "CreateBlock rn =
     (length (blist rn), rn\<lparr>blist := blist rn @ [\<lparr>ilist = [], succs = [], preds = []\<rparr>]\<rparr>)"

definition AddSucc :: "nat \<Rightarrow> nat \<Rightarrow> Region \<Rightarrow> Region" where
  "AddSucc bb succ rn =
     upd_block succ (\<lambda>b. b\<lparr>preds := preds b @ [bb]\<rparr>)
       (upd_block bb (\<lambda>b. b\<lparr>succs := succs b @ [succ]\<rparr>) rn)"

definition Region_CreateInst :: "u8 \<Rightarrow> instc \<Rightarrow> Region \<Rightarrow> (Inst \<times> Region) res" where
  "Region_CreateInst flags c rn =
     (if inst_ctor_ok c
      then Inr (\<lparr>inst_ptr = arena_top rn, inst_id = inst_id_counter rn, inst_flags = flags, inst_c = c\<rparr>,
                rn\<lparr>inst_id_counter := inst_id_counter rn + 1, arena_top := arena_top rn + 1\<rparr>)
      else Inl AssertFailed)"

section \<open>Laws of the tables\<close>

lemma cc_involutive [simp]: "InverseCC (InverseCC cc) = cc" "SwapCC (SwapCC cc) = cc"
  by (cases cc; simp)+

text \<open>The operand spans of an instruction have the sizes the opcode table gives.\<close>

lemma operand_counts:
  assumes "inst_ctor_ok c"
  shows "length (outputs c) = n_out (GetOpInfo (GetOpcode c))"
    and "length (inputs c) = n_in (GetOpInfo (GetOpcode c))"
  using assms
  by (cases c; auto simp: InstUnop_HasOpcode_def InstBinop_HasOpcode_def split: QOp.splits)+

lemma stub_index_inj: "stub_index a = stub_index b \<longleftrightarrow> a = b"
  by (cases a; cases b; simp)

end
