(* ===== verification/QIR_Builder.thy ===== *)
theory QIR_Builder
  imports QIR
begin

text \<open>
  The instruction builder of \<^verbatim>\<open>src/dbt/qmc/qir_builder.h\<close> and the folder of
  \<^verbatim>\<open>src/dbt/qmc/qir_opt.cpp\<close> it runs on every instruction it creates. The builder allocates an
  instruction from the region, links it in front of its iterator and lets the folder look at it;
  the folder may put a \<open>mov\<close> in its place, which it creates through a builder of its own.
\<close>

section \<open>Instruction lists\<close>

fun insert_before :: "nat option \<Rightarrow> Inst \<Rightarrow> Inst list \<Rightarrow> Inst list" where
  "insert_before it n [] = [n]"
| "insert_before it n (x # xs) =
     (if it = Some (inst_ptr x) then n # x # xs else x # insert_before it n xs)"

definition erase_inst :: "nat \<Rightarrow> Inst list \<Rightarrow> Inst list" where
  "erase_inst p xs = filter (\<lambda>x. inst_ptr x \<noteq> p) xs"

definition set_inst :: "nat \<Rightarrow> instc \<Rightarrow> Inst list \<Rightarrow> Inst list" where
  "set_inst p c xs = map (\<lambda>x. if inst_ptr x = p then x\<lparr>inst_c := c\<rparr> else x) xs"

section \<open>Folder\<close>

text \<open>
  \<open>FolderVisitor::visit\<close>: the operands it leaves in the instruction, and the \<open>mov\<close> it creates in
  front of the instruction when it returns true.
\<close>

definition fold_zero_rhs :: "VOperand \<Rightarrow> VOperand \<Rightarrow> VOperand \<Rightarrow> (instc \<times> (VOperand \<times> VOperand) option) res" where
  "fold_zero_rhs vd vs0 vs1 =
     (if IsConst vs1
      then rbind (GetConst vs1) (\<lambda>c. Inr (InstBinop q_add vd vs0 vs1, if c = 0 then Some (vd, vs0) else None))
      else Inr (InstBinop q_add vd vs0 vs1, None))"

definition visit_add :: "VOperand \<Rightarrow> VOperand \<Rightarrow> VOperand \<Rightarrow> (instc \<times> (VOperand \<times> VOperand) option) res" where
  "visit_add vd vs0 vs1 =
     (if IsConst vs0
      then if IsConst vs1
        then rbind (GetConst vs0) (\<lambda>c0. rbind (GetConst vs1) (\<lambda>c1.
               Inr (InstBinop q_add vd vs0 vs1, Some (vd, MakeConst I32 (c0 + c1)))))
        else fold_zero_rhs vd vs1 vs0
      else fold_zero_rhs vd vs0 vs1)"

definition FolderVisitor_visit :: "instc \<Rightarrow> (instc \<times> (VOperand \<times> VOperand) option) res" where
  "FolderVisitor_visit c =
     (case c of
        InstBinop op vd vs0 vs1 \<Rightarrow> if op = q_add then visit_add vd vs0 vs1 else Inr (c, None)
      | _ \<Rightarrow> Inr (c, None))"

section \<open>Builder\<close>

record Builder =
  qb_bb :: nat
  qb_it :: "nat option"

definition NewBuilder :: "nat \<Rightarrow> Builder" where "NewBuilder bb = \<lparr>qb_bb = bb, qb_it = None\<rparr>"

definition upd_ilist :: "nat \<Rightarrow> (Inst list \<Rightarrow> Inst list) \<Rightarrow> Region \<Rightarrow> Region" where
  "upd_ilist bb f = upd_block bb (\<lambda>b. b\<lparr>ilist := f (ilist b)\<rparr>)"

definition CreateVGPR :: "VType \<Rightarrow> Region \<Rightarrow> RegN \<times> Region" where
  "CreateVGPR type rn = (let (r, vi) = AddLocal type (vregs_info rn) in (r, rn\<lparr>vregs_info := vi\<rparr>))"

text \<open>\<open>Builder::Create\<close> with \<open>FolderVisitor::Apply\<close> in place: the result is the address of the
  instruction that stands for the created one.\<close>

function Create :: "Builder \<Rightarrow> instc \<Rightarrow> Region \<Rightarrow> (nat \<times> Region) res" where
  "Create qb c rn =
     rbind (Region_CreateInst (GetOpFlags (GetOpcode c)) c rn) (\<lambda>(i, rn).
       let rn = upd_ilist (qb_bb qb) (insert_before (qb_it qb) i) rn in
       rbind (FolderVisitor_visit c) (\<lambda>(c', mov).
         let rn = upd_ilist (qb_bb qb) (set_inst (inst_ptr i) c') rn in
         case mov of
           None \<Rightarrow> Inr (inst_ptr i, rn)
         | Some (d, s) \<Rightarrow>
             rbind (Create (qb\<lparr>qb_it := Some (inst_ptr i)\<rparr>) (InstUnop q_mov d s) rn) (\<lambda>(m, rn).
               Inr (m, upd_ilist (qb_bb qb) (erase_inst (inst_ptr i)) rn))))"
  by pat_completeness auto

termination
  by (relation "measure (\<lambda>(qb, c, rn). case c of InstUnop _ _ _ \<Rightarrow> 0 | _ \<Rightarrow> 1)")
    (auto simp: FolderVisitor_visit_def split: instc.splits)

declare Create.simps [simp del]

section \<open>What the builder does to a block\<close>

text \<open>
  The reference: the code of a block is the sequence of its instructions' contents, and creating
  an instruction at the end appends one entry, the folded form of what was asked for.
\<close>

definition code_of :: "Block \<Rightarrow> instc list" where "code_of b = map inst_c (ilist b)"

definition folded :: "instc \<Rightarrow> instc" where
  "folded c =
     (case FolderVisitor_visit c of
        Inr (c', Some (d, s)) \<Rightarrow> InstUnop q_mov d s
      | Inr (c', None) \<Rightarrow> c'
      | Inl _ \<Rightarrow> c)"

text \<open>Addresses below the arena's top, each used once in a block.\<close>

definition region_wf :: "Region \<Rightarrow> bool" where
  "region_wf rn \<longleftrightarrow>
     (\<forall>b\<in>set (blist rn). distinct (map inst_ptr (ilist b)) \<and>
        (\<forall>x\<in>set (ilist b). inst_ptr x < arena_top rn) \<and>
        (\<forall>s\<in>set (succs b). s < length (blist rn)))"

lemma FolderVisitor_visit_total:
  "\<exists>c' mov. FolderVisitor_visit c = Inr (c', mov)"
  by (cases c) (auto simp: FolderVisitor_visit_def visit_add_def fold_zero_rhs_def GetConst_def)

lemma visit_mov [simp]: "FolderVisitor_visit (InstUnop op d s) = Inr (InstUnop op d s, None)"
  by (simp add: FolderVisitor_visit_def)

lemma insert_before_end: "insert_before None n xs = xs @ [n]"
  by (induction xs) auto

lemma insert_before_last:
  assumes "inst_ptr x \<notin> inst_ptr ` set xs"
  shows "insert_before (Some (inst_ptr x)) n (xs @ [x]) = xs @ [n, x]"
  using assms by (induction xs) auto

lemma list_ops_fresh:
  assumes "\<forall>x\<in>set xs. inst_ptr x \<noteq> p"
  shows "erase_inst p xs = xs" and "set_inst p c xs = xs"
  using assms by (induction xs) (auto simp: erase_inst_def set_inst_def)

lemma upd_ilist_simps [simp]:
  "length (blist (upd_ilist bb f rn)) = length (blist rn)"
  "vregs_info (upd_ilist bb f rn) = vregs_info rn"
  "arena_top (upd_ilist bb f rn) = arena_top rn"
  "inst_id_counter (upd_ilist bb f rn) = inst_id_counter rn"
  "bb < length (blist rn) \<Longrightarrow> blist (upd_ilist bb f rn) ! k =
     (if k = bb then (blist rn ! bb)\<lparr>ilist := f (ilist (blist rn ! bb))\<rparr> else blist rn ! k)"
  by (auto simp: upd_ilist_def upd_block_def nth_list_update)

lemma insert_before_set: "set (insert_before it n xs) = insert n (set xs)"
  by (induction xs) auto

definition append_inst :: "nat \<Rightarrow> Inst \<Rightarrow> Region \<Rightarrow> Region" where
  "append_inst bb i rn = upd_ilist bb (\<lambda>xs. xs @ [i]) rn"

text \<open>Creating at the end of a block appends one fresh instruction with the folded content; nothing
  else of the region changes but the two counters.\<close>

lemma Create_end:
  assumes wf: "region_wf rn" and bb: "bb < length (blist rn)" and ok: "inst_ctor_ok c"
  shows "\<exists>i k. Create (NewBuilder bb) c rn =
      Inr (inst_ptr i, append_inst bb i
             (rn\<lparr>inst_id_counter := inst_id_counter rn + of_nat k, arena_top := arena_top rn + k\<rparr>))
    \<and> inst_c i = folded c \<and> arena_top rn \<le> inst_ptr i \<and> inst_ptr i < arena_top rn + k"
proof -
  define xs where "xs = ilist (blist rn ! bb)"
  have fresh: "\<forall>x\<in>set xs. inst_ptr x < arena_top rn"
    using wf bb by (auto simp: region_wf_def xs_def)
  then have ne: "\<forall>x\<in>set xs. inst_ptr x \<noteq> arena_top rn" by auto
  then have nin: "arena_top rn \<notin> inst_ptr ` set xs" by auto
  obtain c' mov where v: "FolderVisitor_visit c = Inr (c', mov)"
    using FolderVisitor_visit_total by blast
  let ?i = "\<lparr>inst_ptr = arena_top rn, inst_id = inst_id_counter rn,
              inst_flags = GetOpFlags (GetOpcode c), inst_c = c'\<rparr>"
  let ?m = "\<lambda>d s. \<lparr>inst_ptr = arena_top rn + 1, inst_id = inst_id_counter rn + 1,
              inst_flags = GetOpFlags q_mov, inst_c = InstUnop q_mov d s\<rparr>"
  show ?thesis
  proof (cases mov)
    case None
    then have "Create (NewBuilder bb) c rn =
      Inr (inst_ptr ?i, append_inst bb ?i
             (rn\<lparr>inst_id_counter := inst_id_counter rn + of_nat 1, arena_top := arena_top rn + 1\<rparr>))"
      using ok bb ne v
      by (simp add: Create.simps [of _ c] NewBuilder_def Region_CreateInst_def Let_def append_inst_def
          upd_ilist_def upd_block_def insert_before_end set_inst_def xs_def map_idI)
    moreover have "inst_c ?i = folded c" using v None by (simp add: folded_def)
    ultimately show ?thesis by (intro exI [of _ ?i] exI [of _ 1]) simp
  next
    case (Some ds)
    then obtain d s where ds: "mov = Some (d, s)" by (cases ds) auto
    have l: "insert_before (Some (inst_ptr ?i)) n (xs @ [?i]) = xs @ [n, ?i]" for n
      using nin by (intro insert_before_last) simp
    have m: "map (\<lambda>x. if inst_ptr x = Suc (arena_top rn) then f x else x) xs = xs" for f
      using fresh by (intro map_idI) auto
    from l have "Create (NewBuilder bb) c rn =
      Inr (inst_ptr (?m d s), append_inst bb (?m d s)
             (rn\<lparr>inst_id_counter := inst_id_counter rn + of_nat 2, arena_top := arena_top rn + 2\<rparr>))"
      using ok bb ne v ds fresh m
      by (simp add: Create.simps [of _ c] Create.simps [of _ "InstUnop q_mov d s"] NewBuilder_def
          Region_CreateInst_def InstUnop_HasOpcode_def Let_def append_inst_def
          upd_ilist_def upd_block_def insert_before_end set_inst_def xs_def map_idI erase_inst_def
          filter_id_conv add.commute [of 2])
    moreover have "inst_c (?m d s) = folded c" using v ds by (simp add: folded_def)
    ultimately show ?thesis by (intro exI [of _ "?m d s"] exI [of _ 2]) simp
  qed
qed

subsection \<open>The builder's contract\<close>

text \<open>
  What the translator sees of a region: for every block its code and its successors. The contract
  of a builder is that creating an instruction at the end of a block succeeds and appends its folded
  form to the code of that block only.
\<close>

type_synonym rview = "(instc list \<times> nat list) list"

definition region_view :: "Region \<Rightarrow> rview" where
  "region_view rn = map (\<lambda>b. (code_of b, succs b)) (blist rn)"

definition view_append :: "nat \<Rightarrow> instc list \<Rightarrow> rview \<Rightarrow> rview" where
  "view_append bb cs v = v[bb := (fst (v ! bb) @ cs, snd (v ! bb))]"

lemma length_view_append [simp]: "length (view_append bb cs v) = length v"
  by (simp add: view_append_def)

lemma view_append_append [simp]:
  "bb < length v \<Longrightarrow> view_append bb cs' (view_append bb cs v) = view_append bb (cs @ cs') v"
  by (simp add: view_append_def)

lemma view_append_Nil [simp]: "view_append bb [] v = v"
  by (simp add: view_append_def)

locale code_builder =
  fixes create :: "nat \<Rightarrow> instc \<Rightarrow> 'r \<Rightarrow> 'r res"
    and rview :: "'r \<Rightarrow> rview"
    and wf :: "'r \<Rightarrow> bool"
    and regs :: "'r \<Rightarrow> VRegsInfo"
  assumes create_ok: "wf r \<Longrightarrow> bb < length (rview r) \<Longrightarrow> inst_ctor_ok c \<Longrightarrow>
     \<exists>r'. create bb c r = Inr r' \<and> wf r' \<and> regs r' = regs r \<and>
       rview r' = view_append bb [folded c] (rview r)"
    and create_bad: "\<not> inst_ctor_ok c \<Longrightarrow> create bb c r = Inl AssertFailed"
begin

primrec create_all :: "nat \<Rightarrow> instc list \<Rightarrow> 'r \<Rightarrow> 'r res" where
  "create_all bb [] r = Inr r"
| "create_all bb (c # cs) r = rbind (create bb c r) (create_all bb cs)"

lemma create_all_ok:
  assumes "wf r" and "bb < length (rview r)" and "\<forall>c\<in>set cs. inst_ctor_ok c"
  shows "\<exists>r'. create_all bb cs r = Inr r' \<and> wf r' \<and> regs r' = regs r \<and>
    rview r' = view_append bb (map folded cs) (rview r)"
  using assms
proof (induction cs arbitrary: r)
  case Nil
  then show ?case by simp
next
  case (Cons c cs)
  then obtain r1 where r1: "create bb c r = Inr r1" "wf r1" "regs r1 = regs r"
    "rview r1 = view_append bb [folded c] (rview r)"
    using create_ok [of r bb c] by auto
  with Cons.IH [of r1] Cons.prems show ?case by auto
qed

lemma create_all_fails:
  "create_all bb cs r = Inl e \<Longrightarrow> wf r \<Longrightarrow> bb < length (rview r) \<Longrightarrow> \<exists>c\<in>set cs. \<not> inst_ctor_ok c"
  using create_all_ok [of r bb cs] by auto

end

definition Create_at_end :: "nat \<Rightarrow> instc \<Rightarrow> Region \<Rightarrow> Region res" where
  "Create_at_end bb c rn = rbind (Create (NewBuilder bb) c rn) (\<lambda>(p, rn). Inr rn)"

lemma append_inst_wf:
  assumes "region_wf rn" and "bb < length (blist rn)" and "arena_top rn \<le> inst_ptr i"
    and "inst_ptr i < arena_top rn + k"
  shows "region_wf (append_inst bb i (rn\<lparr>inst_id_counter := n, arena_top := arena_top rn + k\<rparr>))"
proof -
  define b' where "b' = (blist rn ! bb)\<lparr>ilist := ilist (blist rn ! bb) @ [i]\<rparr>"
  define P where "P t b \<longleftrightarrow> distinct (map inst_ptr (ilist b)) \<and> (\<forall>x\<in>set (ilist b). inst_ptr x < t) \<and>
      (\<forall>s\<in>set (succs b). s < length (blist rn))" for t and b :: Block
  have old: "P (arena_top rn) b" if "b \<in> set (blist rn)" for b
    using assms(1) that by (simp add: region_wf_def P_def)
  then have "P (arena_top rn + k) b" if "b \<in> set (blist rn)" for b
    using that by (fastforce simp: P_def)
  moreover have "P (arena_top rn + k) b'"
    using old [OF nth_mem, OF assms(2)] assms(3,4) by (fastforce simp: P_def b'_def)
  ultimately have "\<forall>b\<in>set ((blist rn)[bb := b']). P (arena_top rn + k) b"
    using set_update_subset_insert [of "blist rn" bb b'] by auto
  then show ?thesis
    by (simp add: region_wf_def P_def b'_def append_inst_def upd_ilist_def upd_block_def)
qed

interpretation qb: code_builder Create_at_end region_view region_wf vregs_info
proof
  fix rn bb c
  assume wf: "region_wf rn" and bb: "bb < length (region_view rn)" and ok: "inst_ctor_ok c"
  then have bb': "bb < length (blist rn)" by (simp add: region_view_def)
  obtain i k where C: "Create (NewBuilder bb) c rn =
      Inr (inst_ptr i, append_inst bb i
             (rn\<lparr>inst_id_counter := inst_id_counter rn + of_nat k, arena_top := arena_top rn + k\<rparr>))"
    and i: "inst_c i = folded c" "arena_top rn \<le> inst_ptr i" "inst_ptr i < arena_top rn + k"
    using Create_end [OF wf bb' ok] by (elim exE conjE) simp
  let ?r = "append_inst bb i
             (rn\<lparr>inst_id_counter := inst_id_counter rn + of_nat k, arena_top := arena_top rn + k\<rparr>)"
  have "region_view ?r = view_append bb [folded c] (region_view rn)"
    using bb' i(1)
    by (simp add: region_view_def append_inst_def upd_ilist_def upd_block_def view_append_def
        map_update code_of_def)
  moreover have "region_wf ?r" using wf bb' i(2,3) by (rule append_inst_wf)
  moreover have "vregs_info ?r = vregs_info rn" by (simp add: append_inst_def)
  ultimately show "\<exists>r'. Create_at_end bb c rn = Inr r' \<and> region_wf r' \<and> vregs_info r' = vregs_info rn \<and>
      region_view r' = view_append bb [folded c] (region_view rn)"
    using C by (simp add: Create_at_end_def)
next
  fix bb c rn
  assume "\<not> inst_ctor_ok c"
  then show "Create_at_end bb c rn = Inl AssertFailed"
    by (simp add: Create_at_end_def Create.simps Region_CreateInst_def)
qed

text \<open>C8. Building code: creating an instruction at the end of a block of a well-formed region always
  succeeds when the instruction's constructor accepts it, keeps the region well formed (addresses
  fresh and distinct) and its register table unchanged, and appends exactly one entry, the folded
  instruction, to the code of that block, leaving every other block and all edges alone.\<close>

theorem builder_appends_folded:
  assumes "region_wf rn" and "bb < length (blist rn)" and "inst_ctor_ok c"
  shows "\<exists>rn'. Create_at_end bb c rn = Inr rn' \<and> region_wf rn' \<and> vregs_info rn' = vregs_info rn \<and>
    region_view rn' = view_append bb [folded c] (region_view rn)"
  using assms by (intro qb.create_ok) (simp_all add: region_view_def)

definition one_block :: Region where
  "one_block = snd (CreateBlock (NewRegion \<lparr>si_regs = []\<rparr>))"

theorem builder_appends_folded_witness:
  "\<exists>rn'. Create_at_end 0 (InstBinop q_add (MakeVGPR I32 7) (MakeConst I32 2) (MakeConst I32 3)) one_block
     = Inr rn' \<and> region_view rn' = [([InstUnop q_mov (MakeVGPR I32 7) (MakeConst I32 5)], [])]"
proof -
  let ?c = "InstBinop q_add (MakeVGPR I32 7) (MakeConst I32 2) (MakeConst I32 3)"
  have "region_wf one_block" "0 < length (blist one_block)" "inst_ctor_ok ?c"
    by (simp_all add: region_wf_def one_block_def CreateBlock_def NewRegion_def
        InstBinop_HasOpcode_def)
  from builder_appends_folded [OF this] show ?thesis
    by (auto simp: view_append_def region_view_def one_block_def CreateBlock_def NewRegion_def
        folded_def FolderVisitor_visit_def visit_add_def code_of_def)
qed

end
