(* ===== verification/RV32_Insn.thy ===== *)
theory RV32_Insn
  imports Bitfield
begin

text \<open>
  The guest instruction set: the opcode list of \<^verbatim>\<open>src/dbt/guest/rv32_ops.h\<close>, the formats,
  flags and field accessors of \<^verbatim>\<open>src/dbt/guest/rv32_insn.h\<close> and the register names of
  \<^verbatim>\<open>src/dbt/guest/rv32_insn.cpp\<close>. An instruction is its 32-bit word; an accessor of a
  format structure is a function of that word. The lemmas give every immediate bit by bit, as
  the RISC-V manual lays it out.
\<close>

section \<open>Opcodes, formats and flags\<close>

datatype (plugins only: code size) Op =
    Op_ill | Op_lui | Op_auipc | Op_jal | Op_jalr | Op_beq | Op_bne | Op_blt | Op_bge | Op_bltu
    | Op_bgeu | Op_lb | Op_lh | Op_lw | Op_lbu | Op_lhu | Op_sb | Op_sh | Op_sw | Op_addi
    | Op_slti | Op_sltiu | Op_xori | Op_ori | Op_andi | Op_slli | Op_srai | Op_srli | Op_sub
    | Op_add | Op_sll | Op_slt | Op_sltu | Op_xor | Op_sra | Op_srl | Op_or | Op_and | Op_fence
    | Op_fencei | Op_ecall | Op_ebreak | Op_lrw | Op_scw | Op_amoswapw | Op_amoaddw | Op_amoxorw
    | Op_amoandw | Op_amoorw | Op_amominw | Op_amomaxw | Op_amominuw | Op_amomaxuw

datatype Format = Fmt_Base | Fmt_R | Fmt_I | Fmt_IS | Fmt_S | Fmt_B | Fmt_U | Fmt_J | Fmt_A

definition Flags_None :: u32 where "Flags_None = 0"
definition Flags_Branch :: u32 where "Flags_Branch = push_bit 1 1"
definition Flags_MayTrap :: u32 where "Flags_MayTrap = push_bit 2 1"
definition Flags_Trap :: u32 where "Flags_Trap = push_bit 3 1"
definition Flags_HasRd :: u32 where "Flags_HasRd = push_bit 4 1"

lemmas Flags_defs = Flags_None_def Flags_Branch_def Flags_MayTrap_def Flags_Trap_def Flags_HasRd_def

primrec op_format :: "Op \<Rightarrow> Format" where
  "op_format Op_ill = Fmt_Base"
| "op_format Op_lui = Fmt_U"
| "op_format Op_auipc = Fmt_U"
| "op_format Op_jal = Fmt_J"
| "op_format Op_jalr = Fmt_I"
| "op_format Op_beq = Fmt_B"
| "op_format Op_bne = Fmt_B"
| "op_format Op_blt = Fmt_B"
| "op_format Op_bge = Fmt_B"
| "op_format Op_bltu = Fmt_B"
| "op_format Op_bgeu = Fmt_B"
| "op_format Op_lb = Fmt_I"
| "op_format Op_lh = Fmt_I"
| "op_format Op_lw = Fmt_I"
| "op_format Op_lbu = Fmt_I"
| "op_format Op_lhu = Fmt_I"
| "op_format Op_sb = Fmt_S"
| "op_format Op_sh = Fmt_S"
| "op_format Op_sw = Fmt_S"
| "op_format Op_addi = Fmt_I"
| "op_format Op_slti = Fmt_I"
| "op_format Op_sltiu = Fmt_I"
| "op_format Op_xori = Fmt_I"
| "op_format Op_ori = Fmt_I"
| "op_format Op_andi = Fmt_I"
| "op_format Op_slli = Fmt_IS"
| "op_format Op_srai = Fmt_IS"
| "op_format Op_srli = Fmt_IS"
| "op_format Op_sub = Fmt_R"
| "op_format Op_add = Fmt_R"
| "op_format Op_sll = Fmt_R"
| "op_format Op_slt = Fmt_R"
| "op_format Op_sltu = Fmt_R"
| "op_format Op_xor = Fmt_R"
| "op_format Op_sra = Fmt_R"
| "op_format Op_srl = Fmt_R"
| "op_format Op_or = Fmt_R"
| "op_format Op_and = Fmt_R"
| "op_format Op_fence = Fmt_Base"
| "op_format Op_fencei = Fmt_Base"
| "op_format Op_ecall = Fmt_Base"
| "op_format Op_ebreak = Fmt_Base"
| "op_format Op_lrw = Fmt_A"
| "op_format Op_scw = Fmt_A"
| "op_format Op_amoswapw = Fmt_A"
| "op_format Op_amoaddw = Fmt_A"
| "op_format Op_amoxorw = Fmt_A"
| "op_format Op_amoandw = Fmt_A"
| "op_format Op_amoorw = Fmt_A"
| "op_format Op_amominw = Fmt_A"
| "op_format Op_amomaxw = Fmt_A"
| "op_format Op_amominuw = Fmt_A"
| "op_format Op_amomaxuw = Fmt_A"

text \<open>The flags column of the opcode list.\<close>

primrec op_flags :: "Op \<Rightarrow> u32" where
  "op_flags Op_ill = Flags_Trap"
| "op_flags Op_lui = Flags_None"
| "op_flags Op_auipc = Flags_None"
| "op_flags Op_jal = Flags_Branch"
| "op_flags Op_jalr = Flags_Branch"
| "op_flags Op_beq = Flags_Branch"
| "op_flags Op_bne = Flags_Branch"
| "op_flags Op_blt = Flags_Branch"
| "op_flags Op_bge = Flags_Branch"
| "op_flags Op_bltu = Flags_Branch"
| "op_flags Op_bgeu = Flags_Branch"
| "op_flags Op_lb = Flags_MayTrap"
| "op_flags Op_lh = Flags_MayTrap"
| "op_flags Op_lw = Flags_MayTrap"
| "op_flags Op_lbu = Flags_MayTrap"
| "op_flags Op_lhu = Flags_MayTrap"
| "op_flags Op_sb = Flags_MayTrap"
| "op_flags Op_sh = Flags_MayTrap"
| "op_flags Op_sw = Flags_MayTrap"
| "op_flags Op_addi = Flags_None"
| "op_flags Op_slti = Flags_None"
| "op_flags Op_sltiu = Flags_None"
| "op_flags Op_xori = Flags_None"
| "op_flags Op_ori = Flags_None"
| "op_flags Op_andi = Flags_None"
| "op_flags Op_slli = Flags_None"
| "op_flags Op_srai = Flags_None"
| "op_flags Op_srli = Flags_None"
| "op_flags Op_sub = Flags_None"
| "op_flags Op_add = Flags_None"
| "op_flags Op_sll = Flags_None"
| "op_flags Op_slt = Flags_None"
| "op_flags Op_sltu = Flags_None"
| "op_flags Op_xor = Flags_None"
| "op_flags Op_sra = Flags_None"
| "op_flags Op_srl = Flags_None"
| "op_flags Op_or = Flags_None"
| "op_flags Op_and = Flags_None"
| "op_flags Op_fence = Flags_None"
| "op_flags Op_fencei = Flags_None"
| "op_flags Op_ecall = Flags_Trap"
| "op_flags Op_ebreak = Flags_Trap"
| "op_flags Op_lrw = Flags_None"
| "op_flags Op_scw = Flags_None"
| "op_flags Op_amoswapw = Flags_None"
| "op_flags Op_amoaddw = Flags_None"
| "op_flags Op_amoxorw = Flags_None"
| "op_flags Op_amoandw = Flags_None"
| "op_flags Op_amoorw = Flags_None"
| "op_flags Op_amominw = Flags_None"
| "op_flags Op_amomaxw = Flags_None"
| "op_flags Op_amominuw = Flags_None"
| "op_flags Op_amomaxuw = Flags_None"

text \<open>The flags every instruction of a format carries.\<close>

fun gen_flags :: "Format \<Rightarrow> u32" where
  "gen_flags Fmt_Base = Flags_None"
| "gen_flags Fmt_R = Flags_HasRd"
| "gen_flags Fmt_I = Flags_HasRd"
| "gen_flags Fmt_IS = Flags_HasRd"
| "gen_flags Fmt_S = Flags_None"
| "gen_flags Fmt_B = Flags_None"
| "gen_flags Fmt_U = Flags_HasRd"
| "gen_flags Fmt_J = Flags_HasRd"
| "gen_flags Fmt_A = Flags_HasRd OR Flags_MayTrap"

definition insn_flags :: "Op \<Rightarrow> u32" where
  "insn_flags op = op_flags op OR gen_flags (op_format op)"

definition has_flag :: "Op \<Rightarrow> u32 \<Rightarrow> bool" where
  "has_flag op f \<longleftrightarrow> insn_flags op AND f \<noteq> 0"

primrec opcode_str :: "Op \<Rightarrow> string" where
  "opcode_str Op_ill = ''ill''"
| "opcode_str Op_lui = ''lui''"
| "opcode_str Op_auipc = ''auipc''"
| "opcode_str Op_jal = ''jal''"
| "opcode_str Op_jalr = ''jalr''"
| "opcode_str Op_beq = ''beq''"
| "opcode_str Op_bne = ''bne''"
| "opcode_str Op_blt = ''blt''"
| "opcode_str Op_bge = ''bge''"
| "opcode_str Op_bltu = ''bltu''"
| "opcode_str Op_bgeu = ''bgeu''"
| "opcode_str Op_lb = ''lb''"
| "opcode_str Op_lh = ''lh''"
| "opcode_str Op_lw = ''lw''"
| "opcode_str Op_lbu = ''lbu''"
| "opcode_str Op_lhu = ''lhu''"
| "opcode_str Op_sb = ''sb''"
| "opcode_str Op_sh = ''sh''"
| "opcode_str Op_sw = ''sw''"
| "opcode_str Op_addi = ''addi''"
| "opcode_str Op_slti = ''slti''"
| "opcode_str Op_sltiu = ''sltiu''"
| "opcode_str Op_xori = ''xori''"
| "opcode_str Op_ori = ''ori''"
| "opcode_str Op_andi = ''andi''"
| "opcode_str Op_slli = ''slli''"
| "opcode_str Op_srai = ''srai''"
| "opcode_str Op_srli = ''srli''"
| "opcode_str Op_sub = ''sub''"
| "opcode_str Op_add = ''add''"
| "opcode_str Op_sll = ''sll''"
| "opcode_str Op_slt = ''slt''"
| "opcode_str Op_sltu = ''sltu''"
| "opcode_str Op_xor = ''xor''"
| "opcode_str Op_sra = ''sra''"
| "opcode_str Op_srl = ''srl''"
| "opcode_str Op_or = ''or''"
| "opcode_str Op_and = ''and''"
| "opcode_str Op_fence = ''fence''"
| "opcode_str Op_fencei = ''fencei''"
| "opcode_str Op_ecall = ''ecall''"
| "opcode_str Op_ebreak = ''ebreak''"
| "opcode_str Op_lrw = ''lrw''"
| "opcode_str Op_scw = ''scw''"
| "opcode_str Op_amoswapw = ''amoswapw''"
| "opcode_str Op_amoaddw = ''amoaddw''"
| "opcode_str Op_amoxorw = ''amoxorw''"
| "opcode_str Op_amoandw = ''amoandw''"
| "opcode_str Op_amoorw = ''amoorw''"
| "opcode_str Op_amominw = ''amominw''"
| "opcode_str Op_amomaxw = ''amomaxw''"
| "opcode_str Op_amominuw = ''amominuw''"
| "opcode_str Op_amomaxuw = ''amomaxuw''"

definition gpr_names :: "string list" where
  "gpr_names =
     [''zr'', ''ra'', ''sp'', ''gp'', ''tp'', ''t0'', ''t1'', ''t2'', ''fp'', ''s1'', ''a0''
      , ''a1'', ''a2'', ''a3'', ''a4'', ''a5'', ''a6'', ''a7'', ''s2'', ''s3'', ''s4'', ''s5''
      , ''s6'', ''s7'', ''s8'', ''s9'', ''s10'', ''s11'', ''t3'', ''t4'', ''t5'', ''t6'']"

definition GRPToName :: "u8 \<Rightarrow> string res" where
  "GRPToName r = (if unat r < length gpr_names then Inr (gpr_names ! unat r) else Inl BadIndex)"

section \<open>Fields\<close>

definition insn_opcode :: "u32 \<Rightarrow> u8" where "insn_opcode raw = bf_range_decode_u 0 6 raw"
definition insn_rd :: "u32 \<Rightarrow> u8" where "insn_rd raw = bf_range_decode_u 7 11 raw"
definition insn_rs1 :: "u32 \<Rightarrow> u8" where "insn_rs1 raw = bf_range_decode_u 15 19 raw"
definition insn_rs2 :: "u32 \<Rightarrow> u8" where "insn_rs2 raw = bf_range_decode_u 20 24 raw"
definition insn_funct3 :: "u32 \<Rightarrow> u8" where "insn_funct3 raw = bf_range_decode_u 12 14 raw"
definition insn_funct7 :: "u32 \<Rightarrow> u8" where "insn_funct7 raw = bf_range_decode_u 25 31 raw"
definition insn_funct12 :: "u32 \<Rightarrow> u16" where "insn_funct12 raw = bf_range_decode_u 20 31 raw"

text \<open>
  The immediates. \<open>I\<close> and \<open>S\<close> return a 16-bit signed value. The accessors with a scale shift
  after decoding; the operand of the shift is promoted to a 32-bit \<^verbatim>\<open>int\<close> first.
\<close>

definition I_imm :: "u32 \<Rightarrow> u16" where
  "I_imm raw = bf_seq_decode [(20, 30), (31, 31)] raw"

definition IS_imm :: "u32 \<Rightarrow> u8" where
  "IS_imm raw = bf_range_decode_u 20 24 raw"

definition S_imm :: "u32 \<Rightarrow> u16" where
  "S_imm raw = bf_seq_decode [(7, 11), (25, 30), (31, 31)] raw"

definition B_imm :: "u32 \<Rightarrow> u32" where
  "B_imm raw =
     push_bit 1 (scast (bf_seq_decode [(8, 11), (25, 30), (7, 7), (31, 31)] raw :: u16))"

definition U_imm :: "u32 \<Rightarrow> u32" where
  "U_imm raw = push_bit 12 (bf_range_decode_u 12 31 raw)"

definition J_imm :: "u32 \<Rightarrow> u32" where
  "J_imm raw = push_bit 1 (bf_seq_decode [(21, 30), (20, 20), (12, 19), (31, 31)] raw)"

definition A_rl :: "u32 \<Rightarrow> u8" where "A_rl raw = bf_range_decode_u 25 25 raw"
definition A_aq :: "u32 \<Rightarrow> u8" where "A_aq raw = bf_range_decode_u 26 26 raw"
definition A_rlaq :: "u32 \<Rightarrow> u8" where "A_rlaq raw = bf_range_decode_u 25 26 raw"

text \<open>The 16-bit immediates as the 32-bit operands they are promoted to.\<close>

abbreviation I_immx :: "u32 \<Rightarrow> u32" where "I_immx raw \<equiv> scast (I_imm raw)"
abbreviation S_immx :: "u32 \<Rightarrow> u32" where "S_immx raw \<equiv> scast (S_imm raw)"

lemmas insn_field_defs = insn_opcode_def insn_rd_def insn_rs1_def insn_rs2_def insn_funct3_def
  insn_funct7_def insn_funct12_def IS_imm_def A_rl_def A_aq_def A_rlaq_def

section \<open>Register fields are register numbers\<close>

lemma insn_reg_bounds [simp]:
  "unat (insn_rd raw) < 32" "unat (insn_rs1 raw) < 32" "unat (insn_rs2 raw) < 32"
  unfolding insn_field_defs
  using bf_decode_u_bound [of 7 11 raw, where 't = 8] bf_decode_u_bound [of 15 19 raw, where 't = 8]
    bf_decode_u_bound [of 20 24 raw, where 't = 8] by simp_all

lemma IS_imm_bound: "unat (IS_imm raw) < 32"
  using bf_decode_u_bound [of 20 24 raw, where 't = 8] by (simp add: IS_imm_def)

lemma length_gpr_names [simp]: "length gpr_names = 32"
  by (simp add: gpr_names_def)

lemma GRPToName_field: "\<exists>s. GRPToName (insn_rd raw) = Inr s"
  by (simp add: GRPToName_def)

section \<open>The immediates bit by bit\<close>

lemmas imm_bits = bf_seq_decode.simps bit_push_bit_iff bit_or_iff bit_signed_iff possible_bit_word

lemma bit_I_immx [field_simps_bits]:
  "bit (I_immx raw) n \<longleftrightarrow> n < 32 \<and> bit raw (if n < 11 then 20 + n else 31)"
  unfolding I_imm_def imm_bits by (auto simp: bf_bits min_def)

lemma bit_S_immx [field_simps_bits]:
  "bit (S_immx raw) n \<longleftrightarrow> n < 32 \<and>
     bit raw (if n < 5 then 7 + n else if n < 11 then 20 + n else 31)"
  unfolding S_imm_def imm_bits by (auto simp: bf_bits min_def)

lemma bit_B_imm [field_simps_bits]:
  "bit (B_imm raw) n \<longleftrightarrow> 0 < n \<and> n < 32 \<and>
     bit raw (if n < 5 then 7 + n else if n < 11 then 20 + n else if n = 11 then 7 else 31)"
  unfolding B_imm_def imm_bits by (auto simp: bf_bits min_def)

lemma bit_U_imm [field_simps_bits]: "bit (U_imm raw) n \<longleftrightarrow> 12 \<le> n \<and> bit raw n"
  unfolding U_imm_def by (auto simp: bit_simps bf_bits dest: bit_imp_le_length)

lemma bit_J_imm [field_simps_bits]:
  "bit (J_imm raw) n \<longleftrightarrow> 0 < n \<and> n < 32 \<and>
     bit raw (if n < 11 then 20 + n else if n = 11 then 20 else if n < 20 then n else 31)"
  unfolding J_imm_def imm_bits by (auto simp: bf_bits min_def)

end
