(* ===== verification/RV32_Decode.thy ===== *)
theory RV32_Decode
  imports RV32_Insn
begin

text \<open>
  The instruction decoder of \<^verbatim>\<open>src/dbt/guest/rv32_decode.h\<close>: nested switches on the opcode
  and function fields, one result per opcode of the list. The second half of the theory assembles
  instructions from the RISC-V manual's encoding tables and shows that the decoder and the field
  accessors invert the assembler.
\<close>

section \<open>The decoder\<close>

definition Decode_bcc :: "u32 \<Rightarrow> Op" where
  "Decode_bcc raw =
     (let f3 = insn_funct3 raw in
      if f3 = 0b000 then Op_beq else if f3 = 0b001 then Op_bne
      else if f3 = 0b100 then Op_blt else if f3 = 0b101 then Op_bge
      else if f3 = 0b110 then Op_bltu else if f3 = 0b111 then Op_bgeu
      else Op_ill)"

definition Decode_load :: "u32 \<Rightarrow> Op" where
  "Decode_load raw =
     (let f3 = insn_funct3 raw in
      if f3 = 0b000 then Op_lb else if f3 = 0b001 then Op_lh
      else if f3 = 0b010 then Op_lw else if f3 = 0b100 then Op_lbu
      else if f3 = 0b101 then Op_lhu
      else Op_ill)"

definition Decode_store :: "u32 \<Rightarrow> Op" where
  "Decode_store raw =
     (let f3 = insn_funct3 raw in
      if f3 = 0b000 then Op_sb else if f3 = 0b001 then Op_sh
      else if f3 = 0b010 then Op_sw
      else Op_ill)"

definition Decode_arithm_i :: "u32 \<Rightarrow> Op" where
  "Decode_arithm_i raw =
     (let f3 = insn_funct3 raw; f7 = insn_funct7 raw in
      if f3 = 0b000 then Op_addi else if f3 = 0b010 then Op_slti
      else if f3 = 0b011 then Op_sltiu else if f3 = 0b100 then Op_xori
      else if f3 = 0b110 then Op_ori else if f3 = 0b111 then Op_andi
      else if f3 = 0b001 then Op_slli
      else if f3 = 0b101 then
        (if f7 = 0b0000000 then Op_srli else if f7 = 0b0100000 then Op_srai else Op_ill)
      else Op_ill)"

definition Decode_arithm_r :: "u32 \<Rightarrow> Op" where
  "Decode_arithm_r raw =
     (let f3 = insn_funct3 raw; f7 = insn_funct7 raw in
      if f3 = 0b000 then
        (if f7 = 0b0000000 then Op_add else if f7 = 0b0100000 then Op_sub else Op_ill)
      else if f3 = 0b001 then Op_sll else if f3 = 0b010 then Op_slt
      else if f3 = 0b011 then Op_sltu else if f3 = 0b100 then Op_xor
      else if f3 = 0b101 then
        (if f7 = 0b0000000 then Op_srl else if f7 = 0b0100000 then Op_sra else Op_ill)
      else if f3 = 0b110 then Op_or else if f3 = 0b111 then Op_and
      else Op_ill)"

definition Decode_fence :: "u32 \<Rightarrow> Op" where
  "Decode_fence raw =
     (let f3 = insn_funct3 raw in
      if f3 = 0b000 then Op_fence else if f3 = 0b001 then Op_fencei else Op_ill)"

definition Decode_system :: "u32 \<Rightarrow> Op" where
  "Decode_system raw =
     (if insn_funct3 raw OR insn_rd raw OR insn_rs1 raw = 0 then
        (let f12 = insn_funct12 raw in
         if f12 = 0b000000000000 then Op_ecall
         else if f12 = 0b000000000001 then Op_ebreak
         else Op_ill)
      else Op_ill)"

definition Decode_amo :: "u32 \<Rightarrow> Op" where
  "Decode_amo raw =
     (let f5 = drop_bit 2 (insn_funct7 raw) in
      if insn_funct3 raw = 0b010 then
        (if f5 = 0b00010 then Op_lrw else if f5 = 0b00011 then Op_scw
         else if f5 = 0b00001 then Op_amoswapw else if f5 = 0b00000 then Op_amoaddw
         else if f5 = 0b00100 then Op_amoxorw else if f5 = 0b01100 then Op_amoandw
         else if f5 = 0b01000 then Op_amoorw else if f5 = 0b10000 then Op_amominw
         else if f5 = 0b10100 then Op_amomaxw else if f5 = 0b11000 then Op_amominuw
         else if f5 = 0b11100 then Op_amomaxuw
         else Op_ill)
      else Op_ill)"

definition Decode :: "u32 \<Rightarrow> Op" where
  "Decode raw =
     (let opc = insn_opcode raw in
      if opc = 0b0110111 then Op_lui
      else if opc = 0b0010111 then Op_auipc
      else if opc = 0b1101111 then Op_jal
      else if opc = 0b1100111 then (if insn_funct3 raw = 0b000 then Op_jalr else Op_ill)
      else if opc = 0b1100011 then Decode_bcc raw
      else if opc = 0b0000011 then Decode_load raw
      else if opc = 0b0100011 then Decode_store raw
      else if opc = 0b0010011 then Decode_arithm_i raw
      else if opc = 0b0110011 then Decode_arithm_r raw
      else if opc = 0b0001111 then Decode_fence raw
      else if opc = 0b1110011 then Decode_system raw
      else if opc = 0b0101111 then Decode_amo raw
      else Op_ill)"

lemmas Decode_defs = Decode_bcc_def Decode_load_def Decode_store_def Decode_arithm_i_def
  Decode_arithm_r_def Decode_fence_def Decode_system_def Decode_amo_def

section \<open>Assembling instructions\<close>

text \<open>
  The encoding table of the RISC-V manual: opcode, \<open>funct3\<close> and \<open>funct7\<close> of every
  instruction (for the atomics \<open>funct7\<close> carries the five function bits above \<open>aq\<close> and
  \<open>rl\<close>).
\<close>

primrec op_encoding :: "Op \<Rightarrow> u8 \<times> u8 \<times> u8" where
  "op_encoding Op_ill = (0b0, 0, 0)"
| "op_encoding Op_lui = (0b110111, 0, 0)"
| "op_encoding Op_auipc = (0b10111, 0, 0)"
| "op_encoding Op_jal = (0b1101111, 0, 0)"
| "op_encoding Op_jalr = (0b1100111, 0, 0)"
| "op_encoding Op_beq = (0b1100011, 0, 0)"
| "op_encoding Op_bne = (0b1100011, 1, 0)"
| "op_encoding Op_blt = (0b1100011, 4, 0)"
| "op_encoding Op_bge = (0b1100011, 5, 0)"
| "op_encoding Op_bltu = (0b1100011, 6, 0)"
| "op_encoding Op_bgeu = (0b1100011, 7, 0)"
| "op_encoding Op_lb = (0b11, 0, 0)"
| "op_encoding Op_lh = (0b11, 1, 0)"
| "op_encoding Op_lw = (0b11, 2, 0)"
| "op_encoding Op_lbu = (0b11, 4, 0)"
| "op_encoding Op_lhu = (0b11, 5, 0)"
| "op_encoding Op_sb = (0b100011, 0, 0)"
| "op_encoding Op_sh = (0b100011, 1, 0)"
| "op_encoding Op_sw = (0b100011, 2, 0)"
| "op_encoding Op_addi = (0b10011, 0, 0)"
| "op_encoding Op_slti = (0b10011, 2, 0)"
| "op_encoding Op_sltiu = (0b10011, 3, 0)"
| "op_encoding Op_xori = (0b10011, 4, 0)"
| "op_encoding Op_ori = (0b10011, 6, 0)"
| "op_encoding Op_andi = (0b10011, 7, 0)"
| "op_encoding Op_slli = (0b10011, 1, 0)"
| "op_encoding Op_srai = (0b10011, 5, 32)"
| "op_encoding Op_srli = (0b10011, 5, 0)"
| "op_encoding Op_sub = (0b110011, 0, 32)"
| "op_encoding Op_add = (0b110011, 0, 0)"
| "op_encoding Op_sll = (0b110011, 1, 0)"
| "op_encoding Op_slt = (0b110011, 2, 0)"
| "op_encoding Op_sltu = (0b110011, 3, 0)"
| "op_encoding Op_xor = (0b110011, 4, 0)"
| "op_encoding Op_sra = (0b110011, 5, 32)"
| "op_encoding Op_srl = (0b110011, 5, 0)"
| "op_encoding Op_or = (0b110011, 6, 0)"
| "op_encoding Op_and = (0b110011, 7, 0)"
| "op_encoding Op_fence = (0b1111, 0, 0)"
| "op_encoding Op_fencei = (0b1111, 1, 0)"
| "op_encoding Op_ecall = (0b1110011, 0, 0)"
| "op_encoding Op_ebreak = (0b1110011, 0, 0)"
| "op_encoding Op_lrw = (0b101111, 2, 8)"
| "op_encoding Op_scw = (0b101111, 2, 12)"
| "op_encoding Op_amoswapw = (0b101111, 2, 4)"
| "op_encoding Op_amoaddw = (0b101111, 2, 0)"
| "op_encoding Op_amoxorw = (0b101111, 2, 16)"
| "op_encoding Op_amoandw = (0b101111, 2, 48)"
| "op_encoding Op_amoorw = (0b101111, 2, 32)"
| "op_encoding Op_amominw = (0b101111, 2, 64)"
| "op_encoding Op_amomaxw = (0b101111, 2, 80)"
| "op_encoding Op_amominuw = (0b101111, 2, 96)"
| "op_encoding Op_amomaxuw = (0b101111, 2, 112)"

definition asm_head :: "u8 \<Rightarrow> u8 \<Rightarrow> u32" where
  "asm_head opc f3 = bf_range_encode 12 14 (bf_range_encode 0 6 0 opc) f3"

definition put_rd :: "u8 \<Rightarrow> u32 \<Rightarrow> u32" where "put_rd r w = bf_range_encode 7 11 w r"
definition put_rs1 :: "u8 \<Rightarrow> u32 \<Rightarrow> u32" where "put_rs1 r w = bf_range_encode 15 19 w r"
definition put_rs2 :: "u8 \<Rightarrow> u32 \<Rightarrow> u32" where "put_rs2 r w = bf_range_encode 20 24 w r"
definition put_funct7 :: "u8 \<Rightarrow> u32 \<Rightarrow> u32" where "put_funct7 f w = bf_range_encode 25 31 w f"

lemmas put_defs = asm_head_def put_rd_def put_rs1_def put_rs2_def put_funct7_def

fun put_imm :: "Format \<Rightarrow> u32 \<Rightarrow> u32 \<Rightarrow> u32" where
  "put_imm Fmt_I imm w = bf_range_encode 20 31 w imm"
| "put_imm Fmt_IS imm w = bf_range_encode 20 24 w imm"
| "put_imm Fmt_S imm w =
     bf_range_encode 7 11 (bf_range_encode 25 31 w (drop_bit 5 imm)) imm"
| "put_imm Fmt_B imm w =
     bf_range_encode 7 7 (bf_range_encode 8 11 (bf_range_encode 25 30
       (bf_range_encode 31 31 w (drop_bit 12 imm)) (drop_bit 5 imm)) (drop_bit 1 imm)) (drop_bit 11 imm)"
| "put_imm Fmt_U imm w = bf_range_encode 12 31 w (drop_bit 12 imm)"
| "put_imm Fmt_J imm w =
     bf_range_encode 12 19 (bf_range_encode 20 20 (bf_range_encode 21 30
       (bf_range_encode 31 31 w (drop_bit 20 imm)) (drop_bit 1 imm)) (drop_bit 11 imm)) (drop_bit 12 imm)"
| "put_imm Fmt_A imm w = bf_range_encode 25 26 w imm"
| "put_imm _ imm w = w"

definition assemble :: "Op \<Rightarrow> u8 \<Rightarrow> u8 \<Rightarrow> u8 \<Rightarrow> u32 \<Rightarrow> u32" where
  "assemble op rd rs1 rs2 imm =
     (case op_encoding op of (opc, f3, f7) \<Rightarrow>
        (case op_format op of
           Fmt_R \<Rightarrow> put_funct7 f7 (put_rs2 rs2 (put_rs1 rs1 (put_rd rd (asm_head opc f3))))
         | Fmt_A \<Rightarrow> put_imm Fmt_A imm
             (put_funct7 f7 (put_rs2 rs2 (put_rs1 rs1 (put_rd rd (asm_head opc f3)))))
         | Fmt_I \<Rightarrow> put_imm Fmt_I imm (put_rs1 rs1 (put_rd rd (asm_head opc f3)))
         | Fmt_IS \<Rightarrow> put_imm Fmt_IS imm (put_funct7 f7 (put_rs1 rs1 (put_rd rd (asm_head opc f3))))
         | Fmt_S \<Rightarrow> put_imm Fmt_S imm (put_rs2 rs2 (put_rs1 rs1 (asm_head opc f3)))
         | Fmt_B \<Rightarrow> put_imm Fmt_B imm (put_rs2 rs2 (put_rs1 rs1 (asm_head opc f3)))
         | Fmt_U \<Rightarrow> put_imm Fmt_U imm (put_rd rd (asm_head opc f3))
         | Fmt_J \<Rightarrow> put_imm Fmt_J imm (put_rd rd (asm_head opc f3))
         | Fmt_Base \<Rightarrow> if op = Op_ebreak then bf_range_encode 20 31 (asm_head opc f3) (1 :: u16)
             else asm_head opc f3))"

text \<open>Which immediates a format can hold, and the immediate an instruction word carries.\<close>

fun imm_fits :: "Format \<Rightarrow> u32 \<Rightarrow> bool" where
  "imm_fits Fmt_I imm \<longleftrightarrow> signed_take_bit 11 imm = imm"
| "imm_fits Fmt_S imm \<longleftrightarrow> signed_take_bit 11 imm = imm"
| "imm_fits Fmt_B imm \<longleftrightarrow> signed_take_bit 12 imm = imm \<and> even imm"
| "imm_fits Fmt_J imm \<longleftrightarrow> signed_take_bit 20 imm = imm \<and> even imm"
| "imm_fits Fmt_U imm \<longleftrightarrow> take_bit 12 imm = 0"
| "imm_fits Fmt_IS imm \<longleftrightarrow> take_bit 5 imm = imm"
| "imm_fits Fmt_A imm \<longleftrightarrow> take_bit 2 imm = imm"
| "imm_fits _ imm \<longleftrightarrow> imm = 0"

fun format_imm :: "Format \<Rightarrow> u32 \<Rightarrow> u32" where
  "format_imm Fmt_I raw = I_immx raw"
| "format_imm Fmt_IS raw = ucast (IS_imm raw)"
| "format_imm Fmt_S raw = S_immx raw"
| "format_imm Fmt_B raw = B_imm raw"
| "format_imm Fmt_U raw = U_imm raw"
| "format_imm Fmt_J raw = J_imm raw"
| "format_imm Fmt_A raw = ucast (A_rlaq raw)"
| "format_imm _ raw = 0"

section \<open>The decoder inverts the assembler\<close>

lemma bf_decode_u_0 [simp]: "bf_range_decode_u l h 0 = 0"
  by (simp add: bf_range_decode_u_def)

lemma funct5_put_rlaq:
  "drop_bit 2 (bf_range_decode_u 25 31 (bf_range_encode 25 26 w t) :: u8) =
   drop_bit 2 (bf_range_decode_u 25 31 (w :: u32))"
  by (rule bit_word_eqI) (auto simp: bf_bits bit_simps)

lemma signed_fits_bit:
  fixes imm :: u32
  assumes "signed_take_bit k imm = imm" and "k \<le> n" and "n < 32"
  shows "bit imm n \<longleftrightarrow> bit imm k"
  using bit_signed_take_bit_iff [of k imm n] assms by (simp add: min_def)

lemmas assemble_op = assemble_def op_format.simps op_encoding.simps Format.case prod.case

lemmas asm_simps = put_defs insn_field_defs bf_decode_encode_fits
  bf_decode_encode_other funct5_put_rlaq

text \<open>C1. Assembling any instruction of the opcode list with any operands and decoding the word
  gives the opcode back: the decoder's switches agree with the encoding table of the manual.\<close>

theorem decode_assemble:
  assumes "op \<noteq> Op_ill"
  shows "Decode (assemble op rd rs1 rs2 imm) = op"
  using assms
  by (cases op; simp only: assemble_op; simp add: asm_simps Decode_def Decode_defs)

theorem decode_assemble_witness:
  "Op_amomaxuw \<noteq> Op_ill \<and> Decode (assemble Op_amomaxuw 5 6 7 3) = Op_amomaxuw"
  using decode_assemble [of Op_amomaxuw 5 6 7 3] by simp

text \<open>The operand fields survive assembly: register numbers below 32 are read back.\<close>

lemma register_assemble:
  assumes "unat rd < 32" "unat rs1 < 32" "unat rs2 < 32"
  shows "op_format op \<in> {Fmt_R, Fmt_I, Fmt_IS, Fmt_U, Fmt_J, Fmt_A} \<Longrightarrow>
      insn_rd (assemble op rd rs1 rs2 imm) = rd"
    and "op_format op \<in> {Fmt_R, Fmt_I, Fmt_IS, Fmt_S, Fmt_B, Fmt_A} \<Longrightarrow>
      insn_rs1 (assemble op rd rs1 rs2 imm) = rs1"
    and "op_format op \<in> {Fmt_R, Fmt_S, Fmt_B, Fmt_A} \<Longrightarrow>
      insn_rs2 (assemble op rd rs1 rs2 imm) = rs2"
  using assms
  by (cases "op_encoding op"; elim insertE emptyE; simp only: assemble_def Format.case prod.case;
      simp add: asm_simps)+

lemma format_imm_put_imm:
  assumes "imm_fits f imm"
  shows "format_imm f (put_imm f imm w) = imm"
proof (rule bit_word_eqI)
  fix n assume "n < LENGTH(32)"
  then have n: "n < 32" by simp
  have lo: "bit imm 0 \<longleftrightarrow> odd imm" by (simp add: bit_0)
  show "bit (format_imm f (put_imm f imm w)) n \<longleftrightarrow> bit imm n"
  proof (cases f)
    case Fmt_I
    then show ?thesis using n assms signed_fits_bit [of 11 imm n]
      by (auto simp: field_simps_bits bf_bits)
  next
    case Fmt_S
    then show ?thesis using n assms signed_fits_bit [of 11 imm n]
      by (auto simp: field_simps_bits bf_bits bit_drop_bit_eq)
  next
    case Fmt_B
    then show ?thesis using n assms signed_fits_bit [of 12 imm n] lo
      by (cases "n = 0"; cases "n = 11"; cases "n < 11") (auto simp: field_simps_bits bf_bits bit_simps)
  next
    case Fmt_J
    then show ?thesis using n assms signed_fits_bit [of 20 imm n] lo
      by (cases "n = 0"; cases "n < 20") (auto simp: field_simps_bits bf_bits bit_simps)
  next
    case Fmt_U
    then show ?thesis using n assms bit_take_bit_iff [of 12 imm n]
      by (auto simp: field_simps_bits bf_bits bit_simps)
  next
    case Fmt_IS
    then show ?thesis using n assms bit_take_bit_iff [of 5 imm n]
      by (auto simp: IS_imm_def bf_bits bit_simps)
  next
    case Fmt_A
    then show ?thesis using n assms bit_take_bit_iff [of 2 imm n]
      by (auto simp: A_rlaq_def bf_bits bit_simps)
  qed (use assms in simp_all)
qed

lemma assemble_put_imm:
  "op_format op \<notin> {Fmt_R, Fmt_Base} \<Longrightarrow>
     \<exists>w. assemble op rd rs1 rs2 imm = put_imm (op_format op) imm w"
  by (cases "op_encoding op"; cases "op_format op") (auto simp: assemble_def)

text \<open>C2. Every immediate a format can hold (a sign-extended 12-, 13- or 21-bit offset, an upper
  immediate, a shift amount or the ordering bits of an atomic) is read back unchanged by the
  format's accessor.\<close>

theorem immediate_assemble:
  assumes "imm_fits (op_format op) imm"
  shows "format_imm (op_format op) (assemble op rd rs1 rs2 imm) = imm"
proof (cases "op_format op \<in> {Fmt_R, Fmt_Base}")
  case True
  with assms show ?thesis by auto
next
  case False
  with assms show ?thesis using assemble_put_imm format_imm_put_imm by metis
qed

theorem immediate_assemble_witness:
  "imm_fits Fmt_B (- 4096) \<and> B_imm (assemble Op_bge 0 3 4 (- 4096)) = - 4096"
proof -
  have h: "imm_fits (op_format Op_bge) (- 4096)" by simp
  from immediate_assemble [OF h, of 0 3 4] h show ?thesis by simp
qed

text \<open>
  The decoder ignores \<open>funct7\<close> for \<open>sll\<close> and the other register operations with a single
  meaning, so a word of the M extension is taken for a shift: \<open>mulh x5, x6, x7\<close>
  (\<open>funct7 = 1\<close>) decodes as \<open>sll\<close> and is executed as such instead of trapping.
\<close>

lemma decode_mulh_as_sll: "Decode 0x027312b3 = Op_sll"
  by code_simp

end
