(* ===== verification/RV32_Interp.thy ===== *)
theory RV32_Interp
  imports RV32_Decode
begin

text \<open>
  The guest CPU state of \<^verbatim>\<open>src/dbt/guest/rv32_cpu.h\<close> and the interpreter of
  \<^verbatim>\<open>src/dbt/guest/rv32_interp.cpp\<close>: one definition per handler or handler macro, the common
  wrapper \<open>H\<close>, the runtime stubs generated from the handlers and the dispatch loop. A handler
  works on the CPU state, the local program counter \<open>gip\<close> and the guest memory, and either
  returns or leaves by \<open>RaiseTrap\<close>, a non-local jump out of the interpreter.

  Guest memory is total here: the page fault an access to an unmapped page would raise is a
  signal of the host and is not modelled. One guest thread runs, so the memory orders of the
  atomic handlers select nothing and a compare-and-swap loop ends with its store.
\<close>

section \<open>CPU state\<close>

datatype TrapCode = NONE | UNALIGNED_IP | ILLEGAL_INSN | EBREAK | ECALL

record CPUState =
  gpr :: "u8 \<Rightarrow> u32"
  ip :: u32
  trapno :: TrapCode

definition IsTrapPending :: "CPUState \<Rightarrow> bool" where
  "IsTrapPending s \<longleftrightarrow> trapno s = NONE"

definition TB_MAX_INSNS :: nat where "TB_MAX_INSNS = 64"

record hstate =
  cpu :: CPUState
  gip :: u32
  mem :: vmem

datatype hres = Next hstate | Raised hstate | Fail failure

definition get_gpr :: "hstate \<Rightarrow> u8 \<Rightarrow> u32" where
  "get_gpr st r = gpr (cpu st) r"

definition set_gpr :: "u8 \<Rightarrow> u32 \<Rightarrow> hstate \<Rightarrow> hstate" where
  "set_gpr r v st = st\<lparr>cpu := (cpu st)\<lparr>gpr := (gpr (cpu st))(r := v)\<rparr>\<rparr>"

definition set_ip :: "u32 \<Rightarrow> hstate \<Rightarrow> hstate" where
  "set_ip v st = st\<lparr>cpu := (cpu st)\<lparr>ip := v\<rparr>\<rparr>"

lemmas reg_defs = get_gpr_def set_gpr_def set_ip_def

section \<open>Handler macros\<close>

definition RAISE_TRAP :: "TrapCode \<Rightarrow> hstate \<Rightarrow> hres" where
  "RAISE_TRAP t st = Raised (st\<lparr>cpu := (cpu st)\<lparr>ip := gip st, trapno := t\<rparr>\<rparr>)"

definition HANDLER_BCC :: "(u32 \<Rightarrow> u32 \<Rightarrow> bool) \<Rightarrow> u32 \<Rightarrow> hstate \<Rightarrow> hres" where
  "HANDLER_BCC cond i st =
     (let pred = cond (get_gpr st (insn_rs1 i)) (get_gpr st (insn_rs2 i)) in
      if \<not> pred then Next (st\<lparr>gip := gip st + 4\<rparr>)
      else if B_imm i mod 4 \<noteq> 0 then RAISE_TRAP UNALIGNED_IP st
      else Next (st\<lparr>gip := gip st + B_imm i\<rparr>))"

text \<open>The address of a load or store: a 32-bit sum, used as an offset from the memory base.\<close>

definition vaddr :: "u32 \<Rightarrow> u32 \<Rightarrow> u64" where
  "vaddr base imm = ucast (base + imm)"

definition HANDLER_Load :: "(vmem \<Rightarrow> u64 \<Rightarrow> u32) \<Rightarrow> u32 \<Rightarrow> hstate \<Rightarrow> hres" where
  "HANDLER_Load ld i st =
     Next (set_gpr (insn_rd i) (ld (mem st) (vaddr (get_gpr st (insn_rs1 i)) (I_immx i))) st)"

definition HANDLER_Store :: "(vmem \<Rightarrow> u64 \<Rightarrow> u32 \<Rightarrow> vmem) \<Rightarrow> u32 \<Rightarrow> hstate \<Rightarrow> hres" where
  "HANDLER_Store sto i st =
     Next (st\<lparr>mem := sto (mem st) (vaddr (get_gpr st (insn_rs1 i)) (S_immx i))
                (get_gpr st (insn_rs2 i))\<rparr>)"

definition HANDLER_ArithmRR :: "(u32 \<Rightarrow> u32 \<Rightarrow> u32) \<Rightarrow> u32 \<Rightarrow> hstate \<Rightarrow> hres" where
  "HANDLER_ArithmRR f i st =
     Next (set_gpr (insn_rd i) (f (get_gpr st (insn_rs1 i)) (get_gpr st (insn_rs2 i))) st)"

definition HANDLER_ArithmRI :: "(u32 \<Rightarrow> u32 \<Rightarrow> u32) \<Rightarrow> u32 \<Rightarrow> hstate \<Rightarrow> hres" where
  "HANDLER_ArithmRI f i st =
     Next (set_gpr (insn_rd i) (f (get_gpr st (insn_rs1 i)) (I_immx i)) st)"

definition HANDLER_Unimpl :: "hstate \<Rightarrow> hres" where
  "HANDLER_Unimpl st = RAISE_TRAP ILLEGAL_INSN st"

text \<open>The typed accesses the load and store macros are instantiated with; a narrow value is
  extended to 32 bits by its signedness and truncated when stored.\<close>

definition load_i8 :: "vmem \<Rightarrow> u64 \<Rightarrow> u32" where "load_i8 m a = scast (unaligned_load m a :: u8)"
definition load_i16 :: "vmem \<Rightarrow> u64 \<Rightarrow> u32" where "load_i16 m a = scast (unaligned_load m a :: u16)"
definition load_i32 :: "vmem \<Rightarrow> u64 \<Rightarrow> u32" where "load_i32 m a = unaligned_load m a"
definition load_u8 :: "vmem \<Rightarrow> u64 \<Rightarrow> u32" where "load_u8 m a = ucast (unaligned_load m a :: u8)"
definition load_u16 :: "vmem \<Rightarrow> u64 \<Rightarrow> u32" where "load_u16 m a = ucast (unaligned_load m a :: u16)"
definition store_u8 :: "vmem \<Rightarrow> u64 \<Rightarrow> u32 \<Rightarrow> vmem" where
  "store_u8 m a v = unaligned_store m a (ucast v :: u8)"
definition store_u16 :: "vmem \<Rightarrow> u64 \<Rightarrow> u32 \<Rightarrow> vmem" where
  "store_u16 m a v = unaligned_store m a (ucast v :: u16)"
definition store_u32 :: "vmem \<Rightarrow> u64 \<Rightarrow> u32 \<Rightarrow> vmem" where
  "store_u32 m a v = unaligned_store m a v"

text \<open>A C comparison yields 0 or 1.\<close>

definition of_cond :: "bool \<Rightarrow> u32" where "of_cond b = (if b then 1 else 0)"

section \<open>Handlers\<close>

definition Impl_ill :: "u32 \<Rightarrow> hstate \<Rightarrow> hres" where
  "Impl_ill i st = RAISE_TRAP ILLEGAL_INSN st"

definition Impl_lui :: "u32 \<Rightarrow> hstate \<Rightarrow> hres" where
  "Impl_lui i st = Next (set_gpr (insn_rd i) (U_imm i) st)"

definition Impl_auipc :: "u32 \<Rightarrow> hstate \<Rightarrow> hres" where
  "Impl_auipc i st = Next (set_gpr (insn_rd i) (U_imm i + gip st) st)"

definition Impl_jal :: "u32 \<Rightarrow> hstate \<Rightarrow> hres" where
  "Impl_jal i st =
     (if J_imm i mod 4 \<noteq> 0 then RAISE_TRAP UNALIGNED_IP st
      else Next ((set_gpr (insn_rd i) (gip st + 4) st)\<lparr>gip := gip st + J_imm i\<rparr>))"

definition Impl_jalr :: "u32 \<Rightarrow> hstate \<Rightarrow> hres" where
  "Impl_jalr i st =
     (let target = (get_gpr st (insn_rs1 i) + I_immx i) AND NOT 1 in
      if target mod 4 \<noteq> 0 then RAISE_TRAP UNALIGNED_IP st
      else Next ((set_gpr (insn_rd i) (gip st + 4) st)\<lparr>gip := target\<rparr>))"

definition Impl_slli :: "u32 \<Rightarrow> hstate \<Rightarrow> hres" where
  "Impl_slli i st =
     Next (set_gpr (insn_rd i) (push_bit (unat (IS_imm i)) (get_gpr st (insn_rs1 i))) st)"

definition Impl_srai :: "u32 \<Rightarrow> hstate \<Rightarrow> hres" where
  "Impl_srai i st =
     Next (set_gpr (insn_rd i) (signed_drop_bit (unat (IS_imm i)) (get_gpr st (insn_rs1 i))) st)"

definition Impl_srli :: "u32 \<Rightarrow> hstate \<Rightarrow> hres" where
  "Impl_srli i st =
     Next (set_gpr (insn_rd i) (drop_bit (unat (IS_imm i)) (get_gpr st (insn_rs1 i))) st)"

definition Impl_sll :: "u32 \<Rightarrow> hstate \<Rightarrow> hres" where
  "Impl_sll i st =
     Next (set_gpr (insn_rd i)
       (push_bit (unat (get_gpr st (insn_rs2 i) AND 31)) (get_gpr st (insn_rs1 i))) st)"

definition Impl_sra :: "u32 \<Rightarrow> hstate \<Rightarrow> hres" where
  "Impl_sra i st =
     Next (set_gpr (insn_rd i)
       (signed_drop_bit (unat (get_gpr st (insn_rs2 i) AND 31)) (get_gpr st (insn_rs1 i))) st)"

definition Impl_srl :: "u32 \<Rightarrow> hstate \<Rightarrow> hres" where
  "Impl_srl i st =
     Next (set_gpr (insn_rd i)
       (drop_bit (unat (get_gpr st (insn_rs2 i) AND 31)) (get_gpr st (insn_rs1 i))) st)"

definition Impl_fence :: "u32 \<Rightarrow> hstate \<Rightarrow> hres" where "Impl_fence i st = Next st"
definition Impl_fencei :: "u32 \<Rightarrow> hstate \<Rightarrow> hres" where "Impl_fencei i st = Next st"
definition Impl_ecall :: "u32 \<Rightarrow> hstate \<Rightarrow> hres" where "Impl_ecall i st = RAISE_TRAP ECALL st"
definition Impl_ebreak :: "u32 \<Rightarrow> hstate \<Rightarrow> hres" where "Impl_ebreak i st = RAISE_TRAP EBREAK st"

subsection \<open>Atomics\<close>

datatype memory_order = relaxed | release | acquire | acq_rel

definition ApplyInsnA :: "(memory_order \<Rightarrow> hstate \<Rightarrow> hstate) \<Rightarrow> u32 \<Rightarrow> hstate \<Rightarrow> hres" where
  "ApplyInsnA h i st =
     (let rlaq = A_rlaq i in
      if rlaq = 0b00 then Next (h relaxed st)
      else if rlaq = 0b01 then Next (h release st)
      else if rlaq = 0b10 then Next (h acquire st)
      else if rlaq = 0b11 then Next (h acq_rel st)
      else Fail Unreachable)"

definition a_addr :: "hstate \<Rightarrow> u32 \<Rightarrow> u64" where
  "a_addr st i = ucast (get_gpr st (insn_rs1 i))"

definition Impl_lrw :: "u32 \<Rightarrow> hstate \<Rightarrow> hres" where
  "Impl_lrw i st =
     ApplyInsnA (\<lambda>mo st. set_gpr (insn_rd i) (unaligned_load (mem st) (a_addr st i)) st) i st"

definition Impl_scw :: "u32 \<Rightarrow> hstate \<Rightarrow> hres" where
  "Impl_scw i st =
     ApplyInsnA (\<lambda>mo st.
       let st' = st\<lparr>mem := unaligned_store (mem st) (a_addr st i) (get_gpr st (insn_rs2 i))\<rparr>
       in set_gpr (insn_rd i) 0 st') i st"

definition Impl_amoswapw :: "u32 \<Rightarrow> hstate \<Rightarrow> hres" where
  "Impl_amoswapw i st =
     ApplyInsnA (\<lambda>mo st.
       let old = unaligned_load (mem st) (a_addr st i);
           st' = st\<lparr>mem := unaligned_store (mem st) (a_addr st i) (get_gpr st (insn_rs2 i))\<rparr>
       in set_gpr (insn_rd i) old st') i st"

definition Impl_amoaddw :: "u32 \<Rightarrow> hstate \<Rightarrow> hres" where
  "Impl_amoaddw i st =
     ApplyInsnA (\<lambda>mo st.
       let old = unaligned_load (mem st) (a_addr st i);
           st' = st\<lparr>mem := unaligned_store (mem st) (a_addr st i) (old + get_gpr st (insn_rs2 i))\<rparr>
       in set_gpr (insn_rd i) old st') i st"

definition Impl_amomaxuw :: "u32 \<Rightarrow> hstate \<Rightarrow> hres" where
  "Impl_amomaxuw i st =
     ApplyInsnA (\<lambda>mo st.
       let cur = unaligned_load (mem st) (a_addr st i); rhs = get_gpr st (insn_rs2 i)
       in st\<lparr>mem := unaligned_store (mem st) (a_addr st i) (max cur rhs)\<rparr>) i st"

section \<open>Dispatch\<close>

primrec Impl :: "Op \<Rightarrow> u32 \<Rightarrow> hstate \<Rightarrow> hres" where
  "Impl Op_ill = Impl_ill"
| "Impl Op_lui = Impl_lui"
| "Impl Op_auipc = Impl_auipc"
| "Impl Op_jal = Impl_jal"
| "Impl Op_jalr = Impl_jalr"
| "Impl Op_beq = HANDLER_BCC (\<lambda>a b. a = b)"
| "Impl Op_bne = HANDLER_BCC (\<lambda>a b. a \<noteq> b)"
| "Impl Op_blt = HANDLER_BCC (\<lambda>a b. a <s b)"
| "Impl Op_bge = HANDLER_BCC (\<lambda>a b. b \<le>s a)"
| "Impl Op_bltu = HANDLER_BCC (\<lambda>a b. a < b)"
| "Impl Op_bgeu = HANDLER_BCC (\<lambda>a b. b \<le> a)"
| "Impl Op_lb = HANDLER_Load load_i8"
| "Impl Op_lh = HANDLER_Load load_i16"
| "Impl Op_lw = HANDLER_Load load_i32"
| "Impl Op_lbu = HANDLER_Load load_u8"
| "Impl Op_lhu = HANDLER_Load load_u16"
| "Impl Op_sb = HANDLER_Store store_u8"
| "Impl Op_sh = HANDLER_Store store_u16"
| "Impl Op_sw = HANDLER_Store store_u32"
| "Impl Op_addi = HANDLER_ArithmRI (\<lambda>a b. a + b)"
| "Impl Op_slti = HANDLER_ArithmRI (\<lambda>a b. of_cond (a <s b))"
| "Impl Op_sltiu = HANDLER_ArithmRI (\<lambda>a b. of_cond (a < b))"
| "Impl Op_xori = HANDLER_ArithmRI (\<lambda>a b. a XOR b)"
| "Impl Op_ori = HANDLER_ArithmRI (\<lambda>a b. a OR b)"
| "Impl Op_andi = HANDLER_ArithmRI (\<lambda>a b. a AND b)"
| "Impl Op_slli = Impl_slli"
| "Impl Op_srai = Impl_srai"
| "Impl Op_srli = Impl_srli"
| "Impl Op_sub = HANDLER_ArithmRR (\<lambda>a b. a - b)"
| "Impl Op_add = HANDLER_ArithmRR (\<lambda>a b. a + b)"
| "Impl Op_sll = Impl_sll"
| "Impl Op_slt = HANDLER_ArithmRR (\<lambda>a b. of_cond (a <s b))"
| "Impl Op_sltu = HANDLER_ArithmRR (\<lambda>a b. of_cond (a < b))"
| "Impl Op_xor = HANDLER_ArithmRR (\<lambda>a b. a XOR b)"
| "Impl Op_sra = Impl_sra"
| "Impl Op_srl = Impl_srl"
| "Impl Op_or = HANDLER_ArithmRR (\<lambda>a b. a OR b)"
| "Impl Op_and = HANDLER_ArithmRR (\<lambda>a b. a AND b)"
| "Impl Op_fence = Impl_fence"
| "Impl Op_fencei = Impl_fencei"
| "Impl Op_ecall = Impl_ecall"
| "Impl Op_ebreak = Impl_ebreak"
| "Impl Op_lrw = Impl_lrw"
| "Impl Op_scw = Impl_scw"
| "Impl Op_amoswapw = Impl_amoswapw"
| "Impl Op_amoaddw = Impl_amoaddw"
| "Impl Op_amoxorw = (\<lambda>i. HANDLER_Unimpl)"
| "Impl Op_amoandw = (\<lambda>i. HANDLER_Unimpl)"
| "Impl Op_amoorw = (\<lambda>i. HANDLER_Unimpl)"
| "Impl Op_amominw = (\<lambda>i. HANDLER_Unimpl)"
| "Impl Op_amomaxw = (\<lambda>i. HANDLER_Unimpl)"
| "Impl Op_amominuw = (\<lambda>i. HANDLER_Unimpl)"
| "Impl Op_amomaxuw = Impl_amomaxuw"

text \<open>The wrapper every \<open>HANDLER\<close> expands to.\<close>

definition H :: "Op \<Rightarrow> u32 \<Rightarrow> hstate \<Rightarrow> hres" where
  "H op insn_raw st =
     (let st = (if has_flag op Flags_Trap \<or> has_flag op Flags_MayTrap then set_ip (gip st) st else st)
      in case Impl op insn_raw st of
           Next st \<Rightarrow>
             (let st = (if has_flag op Flags_HasRd then set_gpr 0 0 st else st)
              in if has_flag op Flags_Branch then Next (set_ip (gip st) st)
                 else Next (st\<lparr>gip := gip st + 4\<rparr>))
         | r \<Rightarrow> r)"

text \<open>The stub \<open>qcgstub_rv32_<name>\<close> through which translated code calls a handler.\<close>

definition qcgstub_rv32 :: "Op \<Rightarrow> u32 \<Rightarrow> CPUState \<Rightarrow> vmem \<Rightarrow> hres" where
  "qcgstub_rv32 op insn_raw s m =
     (case H op insn_raw \<lparr>cpu = s, gip = ip s, mem = m\<rparr> of
        Next st \<Rightarrow> Next (set_ip (gip st) st)
      | r \<Rightarrow> r)"

definition fetch :: "vmem \<Rightarrow> u32 \<Rightarrow> u32" where
  "fetch m a = unaligned_load m (ucast a)"

text \<open>One turn of the dispatch loop.\<close>

definition interp_step :: "hstate \<Rightarrow> hres" where
  "interp_step st = (let raw = fetch (mem st) (gip st) in H (Decode raw) raw st)"

partial_function (option) interp_loop :: "hstate \<Rightarrow> hres option" where
  "interp_loop st =
     (case interp_step st of Next st' \<Rightarrow> interp_loop st' | Raised st' \<Rightarrow> Some (Raised st') | Fail e \<Rightarrow> Some (Fail e))"

definition Interpreter_Execute :: "CPUState \<Rightarrow> vmem \<Rightarrow> hres option" where
  "Interpreter_Execute s m = interp_loop \<lparr>cpu = s, gip = ip s, mem = m\<rparr>"

section \<open>Flags of the opcodes\<close>

lemma has_Branch:
  "has_flag op Flags_Branch \<longleftrightarrow>
     op \<in> {Op_jal, Op_jalr, Op_beq, Op_bne, Op_blt, Op_bge, Op_bltu, Op_bgeu}"
  by (cases op) (simp_all add: has_flag_def insn_flags_def Flags_defs)

lemma has_Trap: "has_flag op Flags_Trap \<longleftrightarrow> op \<in> {Op_ill, Op_ecall, Op_ebreak}"
  by (cases op) (simp_all add: has_flag_def insn_flags_def Flags_defs)

lemma has_MayTrap:
  "has_flag op Flags_MayTrap \<longleftrightarrow> op_format op = Fmt_A \<or>
     op \<in> {Op_lb, Op_lh, Op_lw, Op_lbu, Op_lhu, Op_sb, Op_sh, Op_sw}"
  by (cases op) (simp_all add: has_flag_def insn_flags_def Flags_defs)

lemma has_HasRd:
  "has_flag op Flags_HasRd \<longleftrightarrow> op_format op \<in> {Fmt_R, Fmt_I, Fmt_IS, Fmt_U, Fmt_J, Fmt_A}"
  by (cases op) (simp_all add: has_flag_def insn_flags_def Flags_defs)

lemmas flag_sets = has_Branch has_Trap has_MayTrap has_HasRd

section \<open>What a handler may change\<close>

lemma A_rlaq_cases: "A_rlaq i \<in> {0, 1, 2, 3}"
proof -
  have "unat (A_rlaq i) < 4"
    using bf_decode_u_bound [of 25 26 i, where 't = 8] by (simp add: A_rlaq_def)
  then have "unat (A_rlaq i) \<in> {0, 1, 2, 3}" by auto
  then show ?thesis by (auto simp: word_unat_eq_iff)
qed

lemma ApplyInsnA_Next: "\<exists>mo. ApplyInsnA h i st = Next (h mo st)"
  using A_rlaq_cases [of i] by (auto simp: ApplyInsnA_def)

lemmas Impl_defs = Impl_ill_def Impl_lui_def Impl_auipc_def Impl_jal_def Impl_jalr_def
  Impl_slli_def Impl_srai_def Impl_srli_def Impl_sll_def Impl_sra_def Impl_srl_def
  Impl_fence_def Impl_fencei_def Impl_ecall_def Impl_ebreak_def HANDLER_BCC_def HANDLER_Load_def
  HANDLER_Store_def HANDLER_ArithmRR_def HANDLER_ArithmRI_def HANDLER_Unimpl_def RAISE_TRAP_def

lemmas Impl_A_defs = Impl_lrw_def Impl_scw_def Impl_amoswapw_def Impl_amoaddw_def Impl_amomaxuw_def

lemma Impl_atomic:
  "Impl_lrw i st = Next (set_gpr (insn_rd i) (unaligned_load (mem st) (a_addr st i)) st)"
  "Impl_scw i st = Next (set_gpr (insn_rd i) 0
     (st\<lparr>mem := unaligned_store (mem st) (a_addr st i) (get_gpr st (insn_rs2 i))\<rparr>))"
  "Impl_amoswapw i st = Next (set_gpr (insn_rd i) (unaligned_load (mem st) (a_addr st i))
     (st\<lparr>mem := unaligned_store (mem st) (a_addr st i) (get_gpr st (insn_rs2 i))\<rparr>))"
  "Impl_amoaddw i st = Next (set_gpr (insn_rd i) (unaligned_load (mem st) (a_addr st i))
     (st\<lparr>mem := unaligned_store (mem st) (a_addr st i)
        (unaligned_load (mem st) (a_addr st i) + get_gpr st (insn_rs2 i))\<rparr>))"
  "Impl_amomaxuw i st = Next (st\<lparr>mem := unaligned_store (mem st) (a_addr st i)
     (max (unaligned_load (mem st) (a_addr st i)) (get_gpr st (insn_rs2 i)))\<rparr>)"
  using ApplyInsnA_Next [of _ i st] unfolding Impl_A_defs Let_def by (metis (no_types, lifting))+

lemmas Impl_cases_simps = Impl.simps Impl_atomic Impl_defs reg_defs Let_def

text \<open>A handler traps before it changes anything, with the trap code set and the program counter
  of the instruction in \<open>ip\<close>.\<close>

lemma Impl_Raised:
  assumes "Impl op i st = Raised st'"
  shows "\<exists>t. t \<noteq> NONE \<and> st' = st\<lparr>cpu := (cpu st)\<lparr>ip := gip st, trapno := t\<rparr>\<rparr>"
  using assms by (cases op) (auto simp: Impl_cases_simps flag_sets split: if_splits)

lemma Impl_not_Fail: "Impl op i st \<noteq> Fail e"
  by (cases op) (auto simp: Impl_cases_simps)

lemma Impl_Next_gpr:
  assumes "Impl op i st = Next st'" and "r \<noteq> insn_rd i \<or> \<not> has_flag op Flags_HasRd"
  shows "gpr (cpu st') r = gpr (cpu st) r"
  using assms by (cases op) (auto simp: Impl_cases_simps flag_sets split: if_splits)

lemma Impl_Next_cpu:
  assumes "Impl op i st = Next st'"
  shows "trapno (cpu st') = trapno (cpu st)" and "ip (cpu st') = ip (cpu st)"
  using assms by (cases op; auto simp: Impl_cases_simps split: if_splits)+

lemma Impl_Next_mem:
  assumes "Impl op i st = Next st'"
    and "op \<notin> {Op_sb, Op_sh, Op_sw, Op_scw, Op_amoswapw, Op_amoaddw, Op_amomaxuw}"
  shows "mem st' = mem st"
  using assms by (cases op) (auto simp: Impl_cases_simps flag_sets split: if_splits)

lemma Impl_Next_gip:
  assumes "Impl op i st = Next st'" and "\<not> has_flag op Flags_Branch"
  shows "gip st' = gip st"
  using assms by (cases op) (auto simp: Impl_cases_simps flag_sets split: if_splits)

section \<open>Properties of a step\<close>

definition x0_zero :: "hstate \<Rightarrow> bool" where
  "x0_zero st \<longleftrightarrow> gpr (cpu st) 0 = 0"

lemma H_Next:
  assumes "H op i st = Next st'"
  obtains st1 st2 where "st1 = st \<or> st1 = set_ip (gip st) st" and "Impl op i st1 = Next st2"
    and "gpr (cpu st') = (if has_flag op Flags_HasRd then (gpr (cpu st2))(0 := 0) else gpr (cpu st2))"
    and "mem st' = mem st2" and "trapno (cpu st') = trapno (cpu st2)"
    and "gip st' = (if has_flag op Flags_Branch then gip st2 else gip st2 + 4)"
proof -
  define st1 where
    "st1 = (if has_flag op Flags_Trap \<or> has_flag op Flags_MayTrap then set_ip (gip st) st else st)"
  define hasrd branch where "hasrd = has_flag op Flags_HasRd" and "branch = has_flag op Flags_Branch"
  have 1: "st1 = st \<or> st1 = set_ip (gip st) st" by (simp add: st1_def)
  have eq: "H op i st = (case Impl op i st1 of
      Next st \<Rightarrow> (let st = (if hasrd then set_gpr 0 0 st else st)
        in if branch then Next (set_ip (gip st) st) else Next (st\<lparr>gip := gip st + 4\<rparr>))
    | r \<Rightarrow> r)"
    unfolding H_def st1_def hasrd_def branch_def Let_def ..
  with assms obtain st2 where 2: "Impl op i st1 = Next st2" by (cases "Impl op i st1") auto
  with eq assms have st': "st' = (let st = (if hasrd then set_gpr 0 0 st2 else st2)
        in if branch then set_ip (gip st) st else st\<lparr>gip := gip st + 4\<rparr>)"
    by (simp add: Let_def split: if_splits)
  show thesis
    by (rule that [OF 1 2]; cases hasrd; cases branch)
      (simp_all add: st' reg_defs hasrd_def [symmetric] branch_def [symmetric])
qed

lemma H_Raised:
  assumes "H op i st = Raised st'"
  shows "\<exists>t. t \<noteq> NONE \<and> st' = st\<lparr>cpu := (cpu st)\<lparr>ip := gip st, trapno := t\<rparr>\<rparr>"
proof -
  define st1 where
    "st1 = (if has_flag op Flags_Trap \<or> has_flag op Flags_MayTrap then set_ip (gip st) st else st)"
  from assms have "Impl op i st1 = Raised st'"
    unfolding H_def Let_def st1_def by (auto split: hres.splits if_splits)
  from Impl_Raised [OF this] show ?thesis by (auto simp: st1_def set_ip_def split: if_splits)
qed

lemma H_not_Fail: "H op i st \<noteq> Fail e"
  using Impl_not_Fail by (auto simp: H_def Let_def split: hres.splits)

text \<open>C3. Register \<open>x0\<close> reads as zero for ever: whatever instruction is executed, with \<open>x0\<close> as
  its destination or not, and whether the handler returns or traps. This is the assertion
  \<open>state->gpr[0] == 0\<close> of the execution loop, and a step never reaches the handlers'
  \<open>unreachable\<close>.\<close>

theorem interp_step_x0:
  assumes "x0_zero st"
  shows "\<exists>st'. (interp_step st = Next st' \<or> interp_step st = Raised st') \<and> x0_zero st'"
proof (cases "interp_step st")
  case (Next st')
  then obtain op i where H: "H op i st = Next st'" by (auto simp: interp_step_def Let_def)
  have "x0_zero st'"
  proof (rule H_Next [OF H])
    fix st1 st2
    assume 1: "st1 = st \<or> st1 = set_ip (gip st) st" and 2: "Impl op i st1 = Next st2"
      and g: "gpr (cpu st') = (if has_flag op Flags_HasRd then (gpr (cpu st2))(0 := 0) else gpr (cpu st2))"
    show "x0_zero st'"
      using assms g 1 Impl_Next_gpr [OF 2, of 0]
      by (auto simp: x0_zero_def set_ip_def split: if_splits)
  qed
  with Next show ?thesis by blast
next
  case (Raised st')
  with assms show ?thesis by (auto simp: interp_step_def Let_def x0_zero_def dest!: H_Raised)
next
  case (Fail e)
  then show ?thesis by (simp add: interp_step_def Let_def H_not_Fail)
qed

text \<open>C4. Traps are precise: when a step leaves by a trap, the registers and the memory are those
  before the instruction, \<open>ip\<close> is the address of the instruction that trapped and the trap code
  is set, so the kernel resumes or reports at the right place.\<close>

theorem interp_trap_precise:
  assumes "interp_step st = Raised st'"
  shows "gpr (cpu st') = gpr (cpu st) \<and> mem st' = mem st \<and> ip (cpu st') = gip st
    \<and> trapno (cpu st') \<noteq> NONE"
  using assms by (auto simp: interp_step_def Let_def dest!: H_Raised)

definition ecall_at_0 :: vmem where
  "ecall_at_0 a = (if a = 0 then 0x73 else 0)"

definition boot_cpu :: CPUState where
  "boot_cpu = \<lparr>gpr = (\<lambda>r. if r = 0 then 0 else 7), ip = 0, trapno = NONE\<rparr>"

lemma ecall_at_0_step:
  "interp_step \<lparr>cpu = boot_cpu, gip = 0, mem = ecall_at_0\<rparr> =
     Raised \<lparr>cpu = boot_cpu\<lparr>ip := 0, trapno := ECALL\<rparr>, gip = 0, mem = ecall_at_0\<rparr>"
proof -
  have f: "fetch ecall_at_0 0 = 0x73" and d: "Decode 0x73 = Op_ecall" by code_simp+
  show ?thesis
    by (simp add: interp_step_def f d H_def Impl_ecall_def RAISE_TRAP_def set_ip_def flag_sets)
qed

theorem interp_trap_precise_witness:
  "\<exists>st'. interp_step \<lparr>cpu = boot_cpu, gip = 0, mem = ecall_at_0\<rparr> = Raised st'
     \<and> gpr (cpu st') = gpr boot_cpu \<and> trapno (cpu st') = ECALL"
  using interp_trap_precise [OF ecall_at_0_step] ecall_at_0_step by simp

theorem interp_step_x0_witness:
  "x0_zero \<lparr>cpu = boot_cpu, gip = 0, mem = ecall_at_0\<rparr> \<and>
   (\<exists>st'. interp_step \<lparr>cpu = boot_cpu, gip = 0, mem = ecall_at_0\<rparr> = Raised st' \<and> x0_zero st')"
proof -
  have h: "x0_zero \<lparr>cpu = boot_cpu, gip = 0, mem = ecall_at_0\<rparr>"
    by (simp add: x0_zero_def boot_cpu_def)
  from interp_step_x0 [OF h] h show ?thesis by (simp add: ecall_at_0_step)
qed

lemma mod4_iff: "(w :: u32) mod 4 = 0 \<longleftrightarrow> 4 dvd unat w"
  by (simp add: word_unat_eq_iff unat_mod dvd_eq_mod_eq_0)

lemma dvd4_add [intro]:
  fixes a b :: u32
  assumes "4 dvd unat a" and "4 dvd unat b"
  shows "4 dvd unat (a + b)"
proof -
  have "4 dvd (unat a + unat b) mod 2 ^ 32" using assms by (intro dvd_mod) auto
  then show ?thesis by (simp add: unat_word_ariths)
qed

lemma dvd4_add4 [simp, intro]: "4 dvd unat (a :: u32) \<Longrightarrow> 4 dvd unat (a + 4)"
  by (rule dvd4_add) simp_all

lemma Impl_aligned:
  assumes "Impl op i st = Next st'" and "gip st mod 4 = 0"
  shows "gip st' mod 4 = 0"
  using assms unfolding mod4_iff
  by (cases op) (auto simp: Impl_cases_simps mod4_iff split: if_splits)

text \<open>The program counter stays a multiple of four: every handler that sets it either checks
  the target and traps, or advances by one instruction.\<close>

lemma interp_step_aligned:
  assumes "interp_step st = Next st'" and "gip st mod 4 = 0"
  shows "gip st' mod 4 = 0"
proof -
  from assms(1) obtain op i where H: "H op i st = Next st'" by (auto simp: interp_step_def Let_def)
  show ?thesis
  proof (rule H_Next [OF H])
    fix st1 st2
    assume 1: "st1 = st \<or> st1 = set_ip (gip st) st" and 2: "Impl op i st1 = Next st2"
      and g: "gip st' = (if has_flag op Flags_Branch then gip st2 else gip st2 + 4)"
    have "gip st1 = gip st" using 1 by (auto simp: set_ip_def)
    with assms(2) have "gip st2 mod 4 = 0" by (intro Impl_aligned [OF 2]) simp
    with g show ?thesis by (auto simp: mod4_iff)
  qed
qed

section \<open>The loop\<close>

primrec interp_steps :: "nat \<Rightarrow> hstate \<Rightarrow> hstate option" where
  "interp_steps 0 st = Some st"
| "interp_steps (Suc n) st = (case interp_step st of Next st' \<Rightarrow> interp_steps n st' | _ \<Rightarrow> None)"

lemma interp_steps_add:
  "interp_steps (m + n) st = Option.bind (interp_steps m st) (interp_steps n)"
  by (induction m arbitrary: st) (auto split: hres.splits)

lemma interp_loop_sound:
  assumes "interp_loop st = Some r"
  shows "\<exists>n s. interp_steps n st = Some s \<and> interp_step s = r \<and> (\<forall>s'. r \<noteq> Next s')"
proof (rule interp_loop.raw_induct
    [where P = "\<lambda>st r. \<exists>n s. interp_steps n st = Some s \<and> interp_step s = r \<and> (\<forall>s'. r \<noteq> Next s')",
      OF _ assms])
  fix f st r
  assume IH: "\<And>st r. f st = Some r \<Longrightarrow>
      \<exists>n s. interp_steps n st = Some s \<and> interp_step s = r \<and> (\<forall>s'. r \<noteq> Next s')"
    and eq: "(case interp_step st of Next st' \<Rightarrow> f st' | Raised st' \<Rightarrow> Some (Raised st')
       | Fail e \<Rightarrow> Some (Fail e)) = Some r"
  show "\<exists>n s. interp_steps n st = Some s \<and> interp_step s = r \<and> (\<forall>s'. r \<noteq> Next s')"
  proof (cases "interp_step st")
    case (Next st')
    with eq IH obtain n s where "interp_steps n st' = Some s" "interp_step s = r" "\<forall>s'. r \<noteq> Next s'"
      by fastforce
    with Next have "interp_steps (Suc n) st = Some s \<and> interp_step s = r \<and> (\<forall>s'. r \<noteq> Next s')"
      by simp
    then show ?thesis by blast
  next
    case (Raised st')
    with eq have "interp_steps 0 st = Some st \<and> interp_step st = r \<and> (\<forall>s'. r \<noteq> Next s')" by auto
    then show ?thesis by blast
  next
    case (Fail e)
    with eq have "interp_steps 0 st = Some st \<and> interp_step st = r \<and> (\<forall>s'. r \<noteq> Next s')" by auto
    then show ?thesis by blast
  qed
qed

lemma interp_loop_complete:
  assumes "interp_steps n st = Some s" and "\<forall>s'. interp_step s \<noteq> Next s'"
  shows "interp_loop st = Some (interp_step s)"
  using assms
proof (induction n arbitrary: st)
  case 0
  then show ?case by (subst interp_loop.simps) (auto split: hres.splits)
next
  case (Suc n)
  then show ?case by (subst interp_loop.simps) (auto split: hres.splits)
qed

lemma interp_loop_ends:
  "interp_loop st = Some r \<longleftrightarrow>
     (\<exists>n s st'. interp_steps n st = Some s \<and> interp_step s = Raised st' \<and> r = Raised st')"
proof
  assume "interp_loop st = Some r"
  from interp_loop_sound [OF this] obtain n s
    where "interp_steps n st = Some s" "interp_step s = r" "\<forall>s'. r \<noteq> Next s'" by (elim exE conjE)
  moreover have "r \<noteq> Fail e" for e
    using \<open>interp_step s = r\<close> H_not_Fail by (auto simp: interp_step_def Let_def)
  ultimately show "\<exists>n s st'. interp_steps n st = Some s \<and> interp_step s = Raised st' \<and> r = Raised st'"
    by (cases r) auto
next
  assume "\<exists>n s st'. interp_steps n st = Some s \<and> interp_step s = Raised st' \<and> r = Raised st'"
  then show "interp_loop st = Some r" using interp_loop_complete by fastforce
qed

section \<open>Which instructions trap\<close>

text \<open>Written from the manual and the list of atomics that are left out, not from the handlers: the trap an instruction
  raises in a state, \<open>NONE\<close> for one that completes. A conditional branch that is not taken never traps.\<close>

fun taken :: "Op \<Rightarrow> u32 \<Rightarrow> u32 \<Rightarrow> bool" where
  "taken Op_beq a b \<longleftrightarrow> a = b"
| "taken Op_bne a b \<longleftrightarrow> a \<noteq> b"
| "taken Op_blt a b \<longleftrightarrow> sint a < sint b"
| "taken Op_bge a b \<longleftrightarrow> sint b \<le> sint a"
| "taken Op_bltu a b \<longleftrightarrow> unat a < unat b"
| "taken Op_bgeu a b \<longleftrightarrow> unat b \<le> unat a"
| "taken _ a b \<longleftrightarrow> False"

definition jump_target :: "Op \<Rightarrow> u32 \<Rightarrow> hstate \<Rightarrow> u32 option" where
  "jump_target op i st =
     (if op = Op_jal then Some (gip st + J_imm i)
      else if op = Op_jalr then Some ((get_gpr st (insn_rs1 i) + I_immx i) AND NOT 1)
      else if taken op (get_gpr st (insn_rs1 i)) (get_gpr st (insn_rs2 i)) then Some (gip st + B_imm i)
      else None)"

definition trap_code :: "Op \<Rightarrow> u32 \<Rightarrow> hstate \<Rightarrow> TrapCode" where
  "trap_code op i st =
     (if op \<in> {Op_ill, Op_amoxorw, Op_amoandw, Op_amoorw, Op_amominw, Op_amomaxw, Op_amominuw} then ILLEGAL_INSN
      else if op = Op_ecall then ECALL
      else if op = Op_ebreak then EBREAK
      else case jump_target op i st of
             Some target \<Rightarrow> if target mod 4 \<noteq> 0 then UNALIGNED_IP else NONE
           | None \<Rightarrow> NONE)"

definition trap_of :: "hstate \<Rightarrow> TrapCode" where
  "trap_of st = (let i = fetch (mem st) (gip st) in trap_code (Decode i) i st)"

definition trapped :: "TrapCode \<Rightarrow> hstate \<Rightarrow> hstate" where
  "trapped c st = st\<lparr>cpu := (cpu st)\<lparr>ip := gip st, trapno := c\<rparr>\<rparr>"

lemma dvd4_add_iff: "4 dvd unat (a :: u32) \<Longrightarrow> 4 dvd unat (a + b) \<longleftrightarrow> 4 dvd unat b"
proof -
  assume a: "4 dvd unat a"
  have "4 dvd (unat a + unat b) mod 2 ^ 32 \<longleftrightarrow> 4 dvd unat a + unat b" by (rule dvd_mod_iff) simp
  then show ?thesis using a by (simp add: unat_word_ariths dvd_add_right_iff)
qed

lemma Impl_traps:
  assumes "gip st mod 4 = 0"
  shows "Impl op i st = Raised st' \<longleftrightarrow> trap_code op i st \<noteq> NONE \<and> st' = trapped (trap_code op i st) st"
  using assms
  by (cases op) (auto simp: Impl_cases_simps trap_code_def jump_target_def trapped_def mod4_iff dvd4_add_iff word_sless_alt word_sle_eq
    word_less_nat_alt word_le_nat_alt)

lemma interp_step_traps:
  assumes "gip st mod 4 = 0"
  shows "interp_step st = Raised st' \<longleftrightarrow> trap_of st \<noteq> NONE \<and> st' = trapped (trap_of st) st"
proof -
  let ?i = "fetch (mem st) (gip st)"
  let ?op = "Decode ?i"
  define s where "s = (if has_flag ?op Flags_Trap \<or> has_flag ?op Flags_MayTrap then set_ip (gip st) st else st)"
  have s: "gip s = gip st" "trap_code ?op ?i s = trap_of st" "trapped c s = trapped c st" for c
    by (simp_all add: s_def set_ip_def trap_of_def trap_code_def jump_target_def get_gpr_def trapped_def)
  have "interp_step st = Raised st' \<longleftrightarrow> Impl ?op ?i s = Raised st'"
    unfolding interp_step_def H_def Let_def s_def [symmetric] by (auto split: hres.splits)
  then show ?thesis using Impl_traps [of s ?op ?i st'] s assms by simp
qed

lemma interp_steps_aligned: "interp_steps n st = Some s \<Longrightarrow> gip st mod 4 = 0 \<Longrightarrow> gip s mod 4 = 0"
proof (induction n arbitrary: st)
  case (Suc n)
  then obtain st1 where "interp_step st = Next st1" "interp_steps n st1 = Some s" by (auto split: hres.splits)
  then show ?case using Suc.IH [of st1] interp_step_aligned [of st st1] Suc.prems(2) by blast
qed simp

text \<open>C6. When the interpreter stops, and how. Started at an aligned program counter, \<open>Interpreter::Execute\<close> returns exactly when some number of
  instructions leads to one that the manual makes trap: an \<^verbatim>\<open>ecall\<close>, an \<^verbatim>\<open>ebreak\<close>, a jump or a taken branch to a target that is
  not a multiple of four, or an encoding that is unknown or among the atomics that are left out. It then returns
  the state in front of that instruction with its address in \<open>ip\<close> and the trap's code; otherwise it runs forever.\<close>

theorem interp_loop_iff:
  assumes "ip s mod 4 = 0"
  shows "Interpreter_Execute s m = Some r \<longleftrightarrow>
     (\<exists>n st. interp_steps n \<lparr>cpu = s, gip = ip s, mem = m\<rparr> = Some st \<and> trap_of st \<noteq> NONE \<and> r = Raised (trapped (trap_of st) st))"
  using interp_steps_aligned [of _ "\<lparr>cpu = s, gip = ip s, mem = m\<rparr>"] interp_step_traps assms
  unfolding Interpreter_Execute_def interp_loop_ends by (metis hstate.select_convs(2))

text \<open>An \<^verbatim>\<open>ecall\<close> at once.\<close>

theorem interp_loop_iff_witness:
  "Interpreter_Execute boot_cpu ecall_at_0 = Some (Raised \<lparr>cpu = boot_cpu\<lparr>ip := 0, trapno := ECALL\<rparr>, gip = 0, mem = ecall_at_0\<rparr>)"
proof -
  let ?st = "\<lparr>cpu = boot_cpu, gip = 0, mem = ecall_at_0\<rparr>"
  have "fetch ecall_at_0 0 = 0x73" and "Decode 0x73 = Op_ecall" by code_simp+
  then have t: "trap_of ?st = ECALL" by (simp add: trap_of_def trap_code_def)
  have "ip boot_cpu mod 4 = 0" by (simp add: boot_cpu_def)
  from interp_loop_iff [OF this, of ecall_at_0 "Raised (trapped (trap_of ?st) ?st)"]
  have "Interpreter_Execute boot_cpu ecall_at_0 = Some (Raised (trapped (trap_of ?st) ?st))"
    using t by (metis (no_types, lifting) boot_cpu_def CPUState.select_convs(2) TrapCode.distinct(7) interp_steps.simps(1))
  then show ?thesis by (simp add: t trapped_def)
qed

lemma amomaxuw_ignores_rd: "H Op_amomaxuw i st = Next st' \<Longrightarrow> insn_rd i \<noteq> 0 \<Longrightarrow>
   gpr (cpu st') (insn_rd i) = gpr (cpu st) (insn_rd i)"
  by (auto simp: H_def Impl_cases_simps flag_sets)

end
