(* ===== verification/RV32_QIR.thy ===== *)
theory RV32_QIR
  imports QIR_Builder RV32_Interp
begin

text \<open>
  The front end of \<^verbatim>\<open>src/dbt/guest/rv32_qir.cpp\<close>: \<open>RV32Translator\<close> reads guest code from memory,
  decodes it and emits intermediate code through the builder, one block per address range and one
  block per branch target outside the region. The translator's fields are a record; every member
  function is a function on it that may fail with the assertion of the source. The calls of
  \<^verbatim>\<open>src/dbt/tcache/cflow_dump.h\<close> append to a list of events instead of writing a log line. The
  compile-time switch \<open>config::dump_trace\<close> is an argument.
\<close>

section \<open>Guest registers as operands\<close>

definition GlobalRegId_IP :: RegN where "GlobalRegId_IP = 31"
definition GlobalRegId_END :: nat where "GlobalRegId_END = 32"

definition vgpr :: "u8 \<Rightarrow> VType \<Rightarrow> VOperand res" where
  "vgpr i type = (if i \<noteq> 0 then Inr (MakeVGPR type (ucast i - 1)) else Inl AssertFailed)"

definition vconst :: "u32 \<Rightarrow> VType \<Rightarrow> VOperand" where
  "vconst val type = MakeConst type val"

definition gprop :: "u8 \<Rightarrow> VType \<Rightarrow> VOperand res" where
  "gprop i type = (if i = 0 then Inr (vconst 0 type) else vgpr i type)"

definition offsetof_gpr :: u16 where "offsetof_gpr = 0"
definition offsetof_ip :: u16 where "offsetof_ip = 128"

definition state_info :: StateInfo where
  "state_info = \<lparr>si_regs =
     map (\<lambda>i. \<lparr>state_offs = offsetof_gpr + 4 * of_nat i, sr_type = I32, sr_name = gpr_names ! i\<rparr>) [1..<32] @
     [\<lparr>state_offs = offsetof_ip, sr_type = I32, sr_name = ''ip''\<rparr>]\<rparr>"

section \<open>Translator state\<close>

datatype Control = C_NEXT | C_BRANCH | C_TB_OVF

datatype cflow_event =
    RecordEntry u32
  | RecordGBr u32 u32
  | RecordGBrLink u32 u32 u32
  | RecordGBrind u32 u32

record RV32Translator =
  t_qb :: Builder
  t_region :: Region
  ip2bb :: "u32 \<rightharpoonup> nat"
  control :: Control
  t_vmem :: vmem
  insn_ip :: u32
  bb_ip :: u32
  cflow :: "cflow_event list"

definition record_ev :: "cflow_event \<Rightarrow> RV32Translator \<Rightarrow> RV32Translator" where
  "record_ev e t = t\<lparr>cflow := cflow t @ [e]\<rparr>"

definition emit :: "instc \<Rightarrow> RV32Translator \<Rightarrow> RV32Translator res" where
  "emit c t = rbind (Create (t_qb t) c (t_region t)) (\<lambda>(i, rn). Inr (t\<lparr>t_region := rn\<rparr>))"

definition vtemp :: "VType \<Rightarrow> RV32Translator \<Rightarrow> VOperand \<times> RV32Translator" where
  "vtemp type t = (let (r, rn) = CreateVGPR type (t_region t) in (MakeVGPR type r, t\<lparr>t_region := rn\<rparr>))"

definition add_succ :: "nat \<Rightarrow> RV32Translator \<Rightarrow> RV32Translator" where
  "add_succ succ t = t\<lparr>t_region := AddSucc (qb_bb (t_qb t)) succ (t_region t)\<rparr>"

section \<open>Shared emitters\<close>

definition PreSideeff :: "RV32Translator \<Rightarrow> RV32Translator res" where
  "PreSideeff t =
     (case GetStateReg state_info GlobalRegId_IP of
        None \<Rightarrow> Inl BadDeref
      | Some sr \<Rightarrow> emit (InstUnop q_mov (MakeSlot True I32 (state_offs sr)) (vconst (insn_ip t) I32)) t)"

definition MakeGBr :: "u32 \<Rightarrow> RV32Translator \<Rightarrow> RV32Translator res" where
  "MakeGBr tip t =
     (case ip2bb t tip of
        Some bb \<Rightarrow> rbind (emit InstBr t) (\<lambda>t. Inr (add_succ bb t))
      | None \<Rightarrow> emit (InstGBr (vconst tip I32)) t)"

definition make_target :: "u32 \<Rightarrow> RV32Translator \<Rightarrow> (nat \<times> RV32Translator) res" where
  "make_target tip t =
     (let t = record_ev (RecordGBr (bb_ip t) tip) t in
      case ip2bb t tip of
        Some bb \<Rightarrow> Inr (bb, t)
      | None \<Rightarrow>
          (let (bb, rn) = CreateBlock (t_region t);
               t = t\<lparr>t_region := rn, t_qb := NewBuilder bb\<rparr>
           in rbind (emit (InstGBr (vconst tip I32)) t) (\<lambda>t. Inr (qb_bb (t_qb t), t))))"

definition TranslateBrcc :: "CondCode \<Rightarrow> u32 \<Rightarrow> RV32Translator \<Rightarrow> RV32Translator res" where
  "TranslateBrcc cc i t =
     (let bb_src = qb_bb (t_qb t) in
      rbind (make_target (insn_ip t + 4) t) (\<lambda>(bb_f, t).
      rbind (make_target (insn_ip t + B_imm i) t) (\<lambda>(bb_t, t).
      let t = t\<lparr>t_qb := NewBuilder bb_src\<rparr> in
      rbind (gprop (insn_rs1 i) I32) (\<lambda>s1. rbind (gprop (insn_rs2 i) I32) (\<lambda>s2.
      rbind (emit (InstBrcc cc s1 s2) t) (\<lambda>t.
      Inr (add_succ bb_f (add_succ bb_t t))))))))"

definition TranslateSetccR :: "CondCode \<Rightarrow> u32 \<Rightarrow> RV32Translator \<Rightarrow> RV32Translator res" where
  "TranslateSetccR cc i t =
     (if insn_rd i \<noteq> 0
      then rbind (vgpr (insn_rd i) I32) (\<lambda>d. rbind (gprop (insn_rs1 i) I32) (\<lambda>s1.
           rbind (gprop (insn_rs2 i) I32) (\<lambda>s2. emit (InstSetcc cc d s1 s2) t)))
      else Inr t)"

definition TranslateSetccI :: "CondCode \<Rightarrow> u32 \<Rightarrow> RV32Translator \<Rightarrow> RV32Translator res" where
  "TranslateSetccI cc i t =
     (if insn_rd i \<noteq> 0
      then rbind (vgpr (insn_rd i) I32) (\<lambda>d. rbind (gprop (insn_rs1 i) I32) (\<lambda>s1.
           emit (InstSetcc cc d s1 (vconst (I_immx i) I32)) t))
      else Inr t)"

text \<open>The address operand of a load or store: the base register, or a fresh temporary that holds the
  sum with a non-zero offset.\<close>

definition vaddr_op :: "u8 \<Rightarrow> u32 \<Rightarrow> RV32Translator \<Rightarrow> (VOperand \<times> RV32Translator) res" where
  "vaddr_op rs1 imm t =
     rbind (gprop rs1 I32) (\<lambda>addr.
       if imm \<noteq> 0
       then (let (tmp, t) = vtemp I32 t
             in rbind (emit (InstBinop q_add tmp addr (vconst imm I32)) t) (\<lambda>t. Inr (tmp, t)))
       else Inr (addr, t))"

definition TranslateLoad :: "VType \<Rightarrow> VSign \<Rightarrow> u32 \<Rightarrow> RV32Translator \<Rightarrow> RV32Translator res" where
  "TranslateLoad type sg i t =
     rbind (vaddr_op (insn_rs1 i) (I_immx i) t) (\<lambda>(addr, t).
       if insn_rd i \<noteq> 0
       then rbind (vgpr (insn_rd i) I32) (\<lambda>d. emit (InstVMLoad type sg d addr) t)
       else emit (InstVMLoad type sg addr addr) t)"

definition TranslateStore :: "VType \<Rightarrow> VSign \<Rightarrow> u32 \<Rightarrow> RV32Translator \<Rightarrow> RV32Translator res" where
  "TranslateStore type sg i t =
     rbind (vaddr_op (insn_rs1 i) (S_immx i) t) (\<lambda>(addr, t).
       rbind (gprop (insn_rs2 i) type) (\<lambda>v. emit (InstVMStore type sg addr v) t))"

definition TranslateHelper :: "RuntimeStubId \<Rightarrow> u32 \<Rightarrow> RV32Translator \<Rightarrow> RV32Translator res" where
  "TranslateHelper stub i t = emit (InstHcall stub (vconst i I32)) t"

definition TRANSLATOR_ArithmRI :: "QOp \<Rightarrow> (u32 \<Rightarrow> u32) \<Rightarrow> u32 \<Rightarrow> RV32Translator \<Rightarrow> RV32Translator res" where
  "TRANSLATOR_ArithmRI op imm i t =
     (if insn_rd i \<noteq> 0
      then rbind (vgpr (insn_rd i) I32) (\<lambda>d. rbind (gprop (insn_rs1 i) I32) (\<lambda>s1.
           emit (InstBinop op d s1 (vconst (imm i) I32)) t))
      else Inr t)"

definition TRANSLATOR_ArithmRR :: "QOp \<Rightarrow> u32 \<Rightarrow> RV32Translator \<Rightarrow> RV32Translator res" where
  "TRANSLATOR_ArithmRR op i t =
     (if insn_rd i \<noteq> 0
      then rbind (vgpr (insn_rd i) I32) (\<lambda>d. rbind (gprop (insn_rs1 i) I32) (\<lambda>s1.
           rbind (gprop (insn_rs2 i) I32) (\<lambda>s2. emit (InstBinop op d s1 s2) t)))
      else Inr t)"

section \<open>Instructions\<close>

definition V_lui :: "u32 \<Rightarrow> RV32Translator \<Rightarrow> RV32Translator res" where
  "V_lui i t =
     (if insn_rd i \<noteq> 0
      then rbind (vgpr (insn_rd i) I32) (\<lambda>d. emit (InstUnop q_mov d (vconst (U_imm i) I32)) t)
      else Inr t)"

definition V_auipc :: "u32 \<Rightarrow> RV32Translator \<Rightarrow> RV32Translator res" where
  "V_auipc i t =
     (if insn_rd i \<noteq> 0
      then rbind (vgpr (insn_rd i) I32) (\<lambda>d. emit (InstUnop q_mov d (vconst (U_imm i + insn_ip t) I32)) t)
      else Inr t)"

definition V_jal :: "u32 \<Rightarrow> RV32Translator \<Rightarrow> RV32Translator res" where
  "V_jal i t =
     rbind (if insn_rd i \<noteq> 0
            then rbind (vgpr (insn_rd i) I32) (\<lambda>d.
                 rbind (emit (InstUnop q_mov d (vconst (insn_ip t + 4) I32)) t) (\<lambda>t.
                 Inr (record_ev (RecordGBrLink (bb_ip t) (insn_ip t + J_imm i) (insn_ip t + 4)) t)))
            else Inr (record_ev (RecordGBr (bb_ip t) (insn_ip t + J_imm i)) t))
       (\<lambda>t. MakeGBr (insn_ip t + J_imm i) t)"

definition V_jalr :: "u32 \<Rightarrow> RV32Translator \<Rightarrow> RV32Translator res" where
  "V_jalr i t =
     (let (tgt, t) = vtemp I32 t in
      rbind (gprop (insn_rs1 i) I32) (\<lambda>s1.
      rbind (emit (InstBinop q_add tgt s1 (vconst (I_immx i) I32)) t) (\<lambda>t.
      rbind (emit (InstBinop q_and tgt tgt (vconst (NOT 1) I32)) t) (\<lambda>t.
      rbind (if insn_rd i \<noteq> 0
             then rbind (vgpr (insn_rd i) I32) (\<lambda>d.
                  rbind (emit (InstUnop q_mov d (vconst (insn_ip t + 4) I32)) t) (\<lambda>t.
                  Inr (record_ev (RecordGBrind (bb_ip t) (insn_ip t + 4)) t)))
             else Inr (record_ev (RecordGBrind (bb_ip t) 0) t))
        (\<lambda>t. emit (InstGBrind tgt) t)))))"

primrec V :: "Op \<Rightarrow> u32 \<Rightarrow> RV32Translator \<Rightarrow> RV32Translator res" where
  "V Op_lui = V_lui"
| "V Op_auipc = V_auipc"
| "V Op_jal = V_jal"
| "V Op_jalr = V_jalr"
| "V Op_beq = TranslateBrcc EQ"
| "V Op_bne = TranslateBrcc NE"
| "V Op_blt = TranslateBrcc LT"
| "V Op_bge = TranslateBrcc GE"
| "V Op_bltu = TranslateBrcc LTU"
| "V Op_bgeu = TranslateBrcc GEU"
| "V Op_lb = TranslateLoad I8 VS"
| "V Op_lh = TranslateLoad I16 VS"
| "V Op_lw = TranslateLoad I32 VS"
| "V Op_lbu = TranslateLoad I8 VU"
| "V Op_lhu = TranslateLoad I16 VU"
| "V Op_sb = TranslateStore I8 VU"
| "V Op_sh = TranslateStore I16 VU"
| "V Op_sw = TranslateStore I32 VU"
| "V Op_addi = TRANSLATOR_ArithmRI q_add (\<lambda>i. I_immx i)"
| "V Op_slti = TranslateSetccI LT"
| "V Op_sltiu = TranslateSetccI LTU"
| "V Op_xori = TRANSLATOR_ArithmRI q_xor (\<lambda>i. I_immx i)"
| "V Op_ori = TRANSLATOR_ArithmRI q_or (\<lambda>i. I_immx i)"
| "V Op_andi = TRANSLATOR_ArithmRI q_and (\<lambda>i. I_immx i)"
| "V Op_slli = TRANSLATOR_ArithmRI q_sll (\<lambda>i. ucast (IS_imm i))"
| "V Op_srai = TRANSLATOR_ArithmRI q_sra (\<lambda>i. ucast (IS_imm i))"
| "V Op_srli = TRANSLATOR_ArithmRI q_srl (\<lambda>i. ucast (IS_imm i))"
| "V Op_sub = TRANSLATOR_ArithmRR q_sub"
| "V Op_add = TRANSLATOR_ArithmRR q_add"
| "V Op_sll = TRANSLATOR_ArithmRR q_sll"
| "V Op_slt = TranslateSetccR LT"
| "V Op_sltu = TranslateSetccR LTU"
| "V Op_xor = TRANSLATOR_ArithmRR q_xor"
| "V Op_sra = TRANSLATOR_ArithmRR q_sra"
| "V Op_srl = TRANSLATOR_ArithmRR q_srl"
| "V Op_or = TRANSLATOR_ArithmRR q_or"
| "V Op_and = TRANSLATOR_ArithmRR q_and"
| "V Op_fence = TranslateHelper id_rv32_fence"
| "V Op_fencei = TranslateHelper id_rv32_fencei"
| "V Op_ecall = TranslateHelper id_rv32_ecall"
| "V Op_ebreak = TranslateHelper id_rv32_ebreak"
| "V Op_ill = TranslateHelper id_rv32_ill"
| "V Op_lrw = TranslateHelper id_rv32_lrw"
| "V Op_scw = TranslateHelper id_rv32_scw"
| "V Op_amoswapw = TranslateHelper id_rv32_amoswapw"
| "V Op_amoaddw = TranslateHelper id_rv32_amoaddw"
| "V Op_amoxorw = TranslateHelper id_rv32_amoxorw"
| "V Op_amoandw = TranslateHelper id_rv32_amoandw"
| "V Op_amoorw = TranslateHelper id_rv32_amoorw"
| "V Op_amominw = TranslateHelper id_rv32_amominw"
| "V Op_amomaxw = TranslateHelper id_rv32_amomaxw"
| "V Op_amominuw = TranslateHelper id_rv32_amominuw"
| "V Op_amomaxuw = TranslateHelper id_rv32_amomaxuw"

text \<open>The wrapper every \<open>TRANSLATOR\<close> expands to.\<close>

definition H_translate :: "Op \<Rightarrow> u32 \<Rightarrow> RV32Translator \<Rightarrow> RV32Translator res" where
  "H_translate op insn t =
     rbind (if has_flag op Flags_Trap \<or> has_flag op Flags_MayTrap then PreSideeff t else Inr t) (\<lambda>t.
     rbind (V op insn t) (\<lambda>t.
     let t = (if has_flag op Flags_Branch \<or> has_flag op Flags_Trap then t\<lparr>control := C_BRANCH\<rparr> else t)
     in Inr (t\<lparr>insn_ip := insn_ip t + 4\<rparr>)))"

definition TranslateInsn :: "RV32Translator \<Rightarrow> RV32Translator res" where
  "TranslateInsn t = (let insn = fetch (t_vmem t) (insn_ip t) in H_translate (Decode insn) insn t)"

section \<open>Ranges\<close>

text \<open>
  The loop of \<open>TranslateIPRange\<close>, with the number of instructions left before \<open>TB_MAX_INSNS\<close> in
  place of the counter: \<open>num_insns == TB_MAX_INSNS\<close> holds when none is left.
\<close>

primrec translate_loop :: "nat \<Rightarrow> u32 \<Rightarrow> u32 \<Rightarrow> RV32Translator \<Rightarrow> RV32Translator res" where
  "translate_loop 0 start boundary_ip t = Inl Unreachable"
| "translate_loop (Suc left) start boundary_ip t =
     rbind (TranslateInsn t) (\<lambda>t.
       if control t \<noteq> C_NEXT then Inr t
       else if left = 0 \<or> boundary_ip \<le> insn_ip t
       then MakeGBr (insn_ip t) (record_ev (RecordGBr (bb_ip t) start) (t\<lparr>control := C_TB_OVF\<rparr>))
       else translate_loop left start boundary_ip t)"

definition TranslateIPRange :: "bool \<Rightarrow> u32 \<Rightarrow> u32 \<Rightarrow> RV32Translator \<Rightarrow> RV32Translator res" where
  "TranslateIPRange dump_trace start boundary_ip t =
     (let t = record_ev (RecordEntry start) (t\<lparr>bb_ip := start, insn_ip := start\<rparr>) in
      if boundary_ip = 0 then Inl AssertFailed else
      case ip2bb t start of
        None \<Rightarrow> Inl BadDeref
      | Some bb \<Rightarrow>
          (let t = t\<lparr>t_qb := NewBuilder bb\<rparr> in
           rbind (if dump_trace
                  then rbind (PreSideeff t) (emit (InstHcall id_trace (vconst 0 I32)))
                  else Inr t) (\<lambda>t.
           translate_loop TB_MAX_INSNS start boundary_ip (t\<lparr>control := C_NEXT\<rparr>))))"

text \<open>\<open>std::map::insert\<close> keeps the entry of a key that is already there.\<close>

definition map_insert :: "'k \<Rightarrow> 'v \<Rightarrow> ('k \<rightharpoonup> 'v) \<Rightarrow> ('k \<rightharpoonup> 'v)" where
  "map_insert k v m = (case m k of None \<Rightarrow> m(k \<mapsto> v) | Some _ \<Rightarrow> m)"

primrec create_blocks :: "(u32 \<times> u32) list \<Rightarrow> RV32Translator \<Rightarrow> RV32Translator" where
  "create_blocks [] t = t"
| "create_blocks (r # rs) t =
     (let (bb, rn) = CreateBlock (t_region t)
      in create_blocks rs (t\<lparr>t_region := rn, ip2bb := map_insert (fst r) bb (ip2bb t)\<rparr>))"

primrec translate_ranges :: "bool \<Rightarrow> (u32 \<times> u32) list \<Rightarrow> RV32Translator \<Rightarrow> RV32Translator res" where
  "translate_ranges dump_trace [] t = Inr t"
| "translate_ranges dump_trace (r # rs) t =
     rbind (TranslateIPRange dump_trace (fst r) (snd r) t) (translate_ranges dump_trace rs)"

definition NewTranslator :: "Region \<Rightarrow> vmem \<Rightarrow> RV32Translator" where
  "NewTranslator region vmem =
     \<lparr>t_qb = NewBuilder 0, t_region = region, ip2bb = Map.empty, control = C_NEXT,
      t_vmem = vmem, insn_ip = 0, bb_ip = 0, cflow = []\<rparr>"

definition Translate :: "bool \<Rightarrow> Region \<Rightarrow> (u32 \<times> u32) list \<Rightarrow> vmem \<Rightarrow> RV32Translator res" where
  "Translate dump_trace region ipranges vmem =
     translate_ranges dump_trace ipranges (create_blocks ipranges (NewTranslator region vmem))"

text \<open>\<open>CompilerGenRegionIR\<close>: a fresh region over the guest's state registers, filled by the
  translator. The job's ranges must not be empty.\<close>

definition CompilerGenRegionIR :: "bool \<Rightarrow> (u32 \<times> u32) list \<Rightarrow> vmem \<Rightarrow> Region res" where
  "CompilerGenRegionIR dump_trace iprange vmem =
     (if iprange = [] then Inl AssertFailed
      else rbind (Translate dump_trace (NewRegion state_info) iprange vmem) (\<lambda>t. Inr (t_region t)))"

end
