(* ===== verification/QIR_Sem.thy ===== *)
theory QIR_Sem
  imports QIR_Builder RV32_Interp
begin

text \<open>
  A reference semantics of the intermediate code, used to state what the translator and the folder
  preserve. It is what the back ends implement before register allocation: a virtual register below
  the number of state registers is the field of the CPU state its table entry names, a global slot
  is the field at its offset, every other virtual register is a local of the region. Shifts use the
  low five bits of the count, as the host's shift instructions do. A call of a guest stub runs the
  interpreter's handler through \<open>qcgstub_rv32\<close>; the trace stub only prints.
\<close>

section \<open>State\<close>

record qstate =
  qcpu :: CPUState
  qmem :: vmem
  qloc :: "RegN \<Rightarrow> u32"

text \<open>The CPU state by byte offset: the thirty-two registers, then \<open>ip\<close>.\<close>

definition state_read :: "CPUState \<Rightarrow> u16 \<Rightarrow> u32 option" where
  "state_read s offs =
     (if unat offs < 128 \<and> unat offs mod 4 = 0 then Some (gpr s (of_nat (unat offs div 4)))
      else if offs = 128 then Some (ip s) else None)"

definition state_write :: "u16 \<Rightarrow> u32 \<Rightarrow> CPUState \<Rightarrow> CPUState option" where
  "state_write offs v s =
     (if unat offs < 128 \<and> unat offs mod 4 = 0
      then Some (s\<lparr>gpr := (gpr s)(of_nat (unat offs div 4) := v)\<rparr>)
      else if offs = 128 then Some (s\<lparr>ip := v\<rparr>) else None)"

primrec vtrunc :: "VType \<Rightarrow> u32 \<Rightarrow> u32" where
  "vtrunc I8 v = v AND 0xff"
| "vtrunc I16 v = v AND 0xffff"
| "vtrunc I32 v = v"
| "vtrunc UNDEF v = v"

definition read_vreg :: "StateInfo \<Rightarrow> qstate \<Rightarrow> RegN \<Rightarrow> u32 option" where
  "read_vreg si s r =
     (case GetStateReg si r of
        Some sr \<Rightarrow> state_read (qcpu s) (state_offs sr)
      | None \<Rightarrow> Some (qloc s r))"

definition write_vreg :: "StateInfo \<Rightarrow> RegN \<Rightarrow> u32 \<Rightarrow> qstate \<Rightarrow> qstate option" where
  "write_vreg si r v s =
     (case GetStateReg si r of
        Some sr \<Rightarrow> map_option (\<lambda>c. s\<lparr>qcpu := c\<rparr>) (state_write (state_offs sr) v (qcpu s))
      | None \<Rightarrow> Some (s\<lparr>qloc := (qloc s)(r := v)\<rparr>))"

definition read_op :: "StateInfo \<Rightarrow> qstate \<Rightarrow> VOperand \<Rightarrow> u32 option" where
  "read_op si s v =
     (case view_of v of
        VConst t c \<Rightarrow> Some (vtrunc t c)
      | VVirt t r \<Rightarrow> map_option (vtrunc t) (read_vreg si s r)
      | VSlot g t k \<Rightarrow> if g then map_option (vtrunc t) (state_read (qcpu s) k) else None
      | _ \<Rightarrow> None)"

text \<open>A narrow write keeps the upper bits, as the host's does.\<close>

primrec vmerge :: "VType \<Rightarrow> u32 \<Rightarrow> u32 \<Rightarrow> u32" where
  "vmerge I8 old v = (old AND NOT 0xff) OR (v AND 0xff)"
| "vmerge I16 old v = (old AND NOT 0xffff) OR (v AND 0xffff)"
| "vmerge I32 old v = v"
| "vmerge UNDEF old v = v"

definition write_op :: "StateInfo \<Rightarrow> VOperand \<Rightarrow> u32 \<Rightarrow> qstate \<Rightarrow> qstate option" where
  "write_op si d v s =
     (case view_of d of
        VVirt t r \<Rightarrow>
          if t = I32 then write_vreg si r v s
          else if t = UNDEF then None
          else Option.bind (read_vreg si s r) (\<lambda>old. write_vreg si r (vmerge t old v) s)
      | VSlot g t k \<Rightarrow>
          if g \<and> t = I32 then map_option (\<lambda>c. s\<lparr>qcpu := c\<rparr>) (state_write k v (qcpu s)) else None
      | _ \<Rightarrow> None)"

section \<open>Instructions\<close>

fun eval_binop :: "QOp \<Rightarrow> u32 \<Rightarrow> u32 \<Rightarrow> u32 option" where
  "eval_binop q_add a b = Some (a + b)"
| "eval_binop q_sub a b = Some (a - b)"
| "eval_binop q_and a b = Some (a AND b)"
| "eval_binop q_or a b = Some (a OR b)"
| "eval_binop q_xor a b = Some (a XOR b)"
| "eval_binop q_sra a b = Some (signed_drop_bit (unat (b AND 31)) a)"
| "eval_binop q_srl a b = Some (drop_bit (unat (b AND 31)) a)"
| "eval_binop q_sll a b = Some (push_bit (unat (b AND 31)) a)"
| "eval_binop _ a b = None"

primrec eval_cc :: "CondCode \<Rightarrow> u32 \<Rightarrow> u32 \<Rightarrow> bool" where
  "eval_cc EQ a b \<longleftrightarrow> a = b"
| "eval_cc NE a b \<longleftrightarrow> a \<noteq> b"
| "eval_cc LE a b \<longleftrightarrow> a \<le>s b"
| "eval_cc LT a b \<longleftrightarrow> a <s b"
| "eval_cc GE a b \<longleftrightarrow> b \<le>s a"
| "eval_cc GT a b \<longleftrightarrow> b <s a"
| "eval_cc LEU a b \<longleftrightarrow> a \<le> b"
| "eval_cc LTU a b \<longleftrightarrow> a < b"
| "eval_cc GEU a b \<longleftrightarrow> b \<le> a"
| "eval_cc GTU a b \<longleftrightarrow> b < a"

fun eval_load :: "VType \<Rightarrow> VSign \<Rightarrow> vmem \<Rightarrow> u64 \<Rightarrow> u32 option" where
  "eval_load I8 VS m a = Some (scast (unaligned_load m a :: u8))"
| "eval_load I16 VS m a = Some (scast (unaligned_load m a :: u16))"
| "eval_load I8 VU m a = Some (ucast (unaligned_load m a :: u8))"
| "eval_load I16 VU m a = Some (ucast (unaligned_load m a :: u16))"
| "eval_load I32 sg m a = Some (unaligned_load m a)"
| "eval_load UNDEF sg m a = None"

primrec eval_store :: "VType \<Rightarrow> vmem \<Rightarrow> u64 \<Rightarrow> u32 \<Rightarrow> vmem option" where
  "eval_store I8 m a v = Some (unaligned_store m a (ucast v :: u8))"
| "eval_store I16 m a v = Some (unaligned_store m a (ucast v :: u16))"
| "eval_store I32 m a v = Some (unaligned_store m a v)"
| "eval_store UNDEF m a v = None"

fun stub_op :: "RuntimeStubId \<Rightarrow> Op option" where
  "stub_op id_rv32_ill = Some Op_ill"
| "stub_op id_rv32_fence = Some Op_fence"
| "stub_op id_rv32_fencei = Some Op_fencei"
| "stub_op id_rv32_ecall = Some Op_ecall"
| "stub_op id_rv32_ebreak = Some Op_ebreak"
| "stub_op id_rv32_lrw = Some Op_lrw"
| "stub_op id_rv32_scw = Some Op_scw"
| "stub_op id_rv32_amoswapw = Some Op_amoswapw"
| "stub_op id_rv32_amoaddw = Some Op_amoaddw"
| "stub_op id_rv32_amoxorw = Some Op_amoxorw"
| "stub_op id_rv32_amoandw = Some Op_amoandw"
| "stub_op id_rv32_amoorw = Some Op_amoorw"
| "stub_op id_rv32_amominw = Some Op_amominw"
| "stub_op id_rv32_amomaxw = Some Op_amomaxw"
| "stub_op id_rv32_amominuw = Some Op_amominuw"
| "stub_op id_rv32_amomaxuw = Some Op_amomaxuw"
| "stub_op _ = None"

text \<open>The outcomes of an instruction: go on, leave the block by its first or a chosen successor,
  leave translated code for a guest address, or leave it by a raised trap.\<close>

datatype 's qres =
    QNext 's
  | QBr 's
  | QBrcc bool 's
  | QExit u32 's
  | QRaise 's
  | QStuck

definition ostuck :: "'a option \<Rightarrow> ('a \<Rightarrow> 's qres) \<Rightarrow> 's qres" where
  "ostuck x f = (case x of None \<Rightarrow> QStuck | Some v \<Rightarrow> f v)"

lemma ostuck_simps [simp]: "ostuck (Some v) f = f v" "ostuck None f = QStuck"
  by (simp_all add: ostuck_def)

fun exec_inst :: "StateInfo \<Rightarrow> instc \<Rightarrow> qstate \<Rightarrow> qstate qres" where
  "exec_inst si (InstUnop op d a) s =
     (if op = q_mov then ostuck (read_op si s a) (\<lambda>v. ostuck (write_op si d v s) QNext) else QStuck)"
| "exec_inst si (InstBinop op d a b) s =
     ostuck (read_op si s a) (\<lambda>x. ostuck (read_op si s b) (\<lambda>y.
       ostuck (eval_binop op x y) (\<lambda>v. ostuck (write_op si d v s) QNext)))"
| "exec_inst si (InstSetcc cc d a b) s =
     ostuck (read_op si s a) (\<lambda>x. ostuck (read_op si s b) (\<lambda>y.
       ostuck (write_op si d (of_cond (eval_cc cc x y)) s) QNext))"
| "exec_inst si InstBr s = QBr s"
| "exec_inst si (InstBrcc cc a b) s =
     ostuck (read_op si s a) (\<lambda>x. ostuck (read_op si s b) (\<lambda>y. QBrcc (eval_cc cc x y) s))"
| "exec_inst si (InstGBr t) s = ostuck (read_op si s t) (\<lambda>x. QExit x s)"
| "exec_inst si (InstGBrind t) s = ostuck (read_op si s t) (\<lambda>x. QExit x s)"
| "exec_inst si (InstVMLoad sz sg d p) s =
     ostuck (read_op si s p) (\<lambda>a. ostuck (eval_load sz sg (qmem s) (ucast a)) (\<lambda>v.
       ostuck (write_op si d v s) QNext))"
| "exec_inst si (InstVMStore sz sg p x) s =
     ostuck (read_op si s p) (\<lambda>a. ostuck (read_op si s x) (\<lambda>v.
       ostuck (eval_store sz (qmem s) (ucast a) v) (\<lambda>m. QNext (s\<lparr>qmem := m\<rparr>))))"
| "exec_inst si (InstHcall stub arg) s =
     (if stub = id_trace then QNext s else
     ostuck (stub_op stub) (\<lambda>op. ostuck (read_op si s arg) (\<lambda>raw.
       case qcgstub_rv32 op raw (qcpu s) (qmem s) of
         Next st \<Rightarrow> QNext (s\<lparr>qcpu := cpu st, qmem := mem st\<rparr>)
       | Raised st \<Rightarrow> QRaise (s\<lparr>qcpu := cpu st, qmem := mem st\<rparr>)
       | Fail e \<Rightarrow> QStuck)))"

primrec exec_list :: "StateInfo \<Rightarrow> instc list \<Rightarrow> qstate \<Rightarrow> qstate qres" where
  "exec_list si [] s = QNext s"
| "exec_list si (c # cs) s = (case exec_inst si c s of QNext s' \<Rightarrow> exec_list si cs s' | r \<Rightarrow> r)"

lemma exec_list_append [simp]:
  "exec_list si (cs @ cs') s = (case exec_list si cs s of QNext s' \<Rightarrow> exec_list si cs' s' | r \<Rightarrow> r)"
  by (induction cs arbitrary: s) (auto split: qres.splits)

section \<open>Blocks\<close>

text \<open>Where control is after a block: at another block, outside translated code at a guest address,
  or at a trap. A block that runs off its end, or branches without a successor, is stuck.\<close>

datatype 's bres = BGoto nat 's | BExit u32 's | BRaise 's | BStuck

definition succ_at :: "nat list \<Rightarrow> nat \<Rightarrow> 's \<Rightarrow> 's bres" where
  "succ_at ss k s = (if k < length ss then BGoto (ss ! k) s else BStuck)"

definition exec_block :: "StateInfo \<Rightarrow> rview \<Rightarrow> nat \<Rightarrow> qstate \<Rightarrow> qstate bres" where
  "exec_block si v bb s =
     (if bb < length v
      then (case exec_list si (fst (v ! bb)) s of
              QNext s' \<Rightarrow> BStuck
            | QBr s' \<Rightarrow> succ_at (snd (v ! bb)) 0 s'
            | QBrcc c s' \<Rightarrow> succ_at (snd (v ! bb)) (if c then 0 else 1) s'
            | QExit t s' \<Rightarrow> BExit t s'
            | QRaise s' \<Rightarrow> BRaise s'
            | QStuck \<Rightarrow> BStuck)
      else BStuck)"

section \<open>The folder preserves execution\<close>

lemma read_const [simp]: "read_op si s (MakeConst t c) = Some (vtrunc t c)"
  by (simp add: read_op_def)

text \<open>Constants of the folded additions are 32 bits wide, as every constant the translator makes
  for an addition is.\<close>

definition const_i32 :: "VOperand \<Rightarrow> bool" where
  "const_i32 v \<longleftrightarrow> (IsConst v \<longrightarrow> GetType v = I32)"

lemma IsConst_view: "IsConst v \<Longrightarrow> const_i32 v \<Longrightarrow> \<exists>c. view_of v = VConst I32 c \<and> GetConst v = Inr c"
  by (auto simp: const_i32_def IsConst_def view_of_def GetConst_def split: Kind.splits)

lemma read_view_const: "view_of v = VConst I32 c \<Longrightarrow> read_op si s v = Some c"
  by (simp add: read_op_def)

lemma folder_exec:
  assumes "GetOpcode c = q_add \<longrightarrow> (\<forall>v\<in>set (inputs c). const_i32 v)"
  shows "exec_inst si (folded c) s = exec_inst si c s"
proof (cases "\<exists>d a b. c = InstBinop q_add d a b")
  case False
  then have "folded c = c"
    by (cases c) (auto simp: folded_def FolderVisitor_visit_def)
  then show ?thesis by simp
next
  case True
  then obtain d a b where c: "c = InstBinop q_add d a b" by blast
  have a: "IsConst a \<Longrightarrow> \<exists>x. view_of a = VConst I32 x \<and> GetConst a = Inr x"
    and b: "IsConst b \<Longrightarrow> \<exists>x. view_of b = VConst I32 x \<and> GetConst b = Inr x"
    using assms c by (auto intro: IsConst_view)
  show ?thesis
    using a b unfolding c
    by (cases "IsConst a"; cases "IsConst b")
      (auto simp: folded_def FolderVisitor_visit_def visit_add_def fold_zero_rhs_def read_view_const
        add.commute ostuck_def split: option.splits)
qed

text \<open>C9. The folder is correct: the instruction it leaves behind behaves as the one that was asked
  for, in every state and for every outcome, when the constants of an addition are 32 bits wide.\<close>

theorem folder_preserves_exec:
  assumes "GetOpcode c = q_add \<longrightarrow> (\<forall>v\<in>set (inputs c). const_i32 v)"
  shows "exec_inst si (folded c) s = exec_inst si c s"
  using assms by (rule folder_exec)

theorem folder_preserves_exec_witness:
  "exec_inst \<lparr>si_regs = []\<rparr>
     (folded (InstBinop q_add (MakeVGPR I32 7) (MakeConst I32 2) (MakeConst I32 3)))
     \<lparr>qcpu = boot_cpu, qmem = \<lambda>_. 0, qloc = \<lambda>_. 0\<rparr> =
   QNext \<lparr>qcpu = boot_cpu, qmem = \<lambda>_. 0, qloc = (\<lambda>_. 0)(7 := 5)\<rparr>"
  by (subst folder_preserves_exec)
    (simp_all add: const_i32_def write_op_def write_vreg_def GetStateReg_def si_n_regs_def)

section \<open>Condition codes\<close>

text \<open>The condition-code tables mean what their names say: the inverse code decides the opposite
  for every pair of values, and the swapped code decides the same with the values exchanged; hence
  both tables are involutions.\<close>

lemma condition_code_tables:
  "(eval_cc (InverseCC cc) a b \<longleftrightarrow> \<not> eval_cc cc a b) \<and> (eval_cc (SwapCC cc) a b \<longleftrightarrow> eval_cc cc b a) \<and>
   InverseCC (InverseCC cc) = cc \<and> SwapCC (SwapCC cc) = cc"
  by (cases cc) (auto simp: word_sless_alt word_sle_eq)

end
