(* ===== verification/RV32_QIR_Correct.thy ===== *)
theory RV32_QIR_Correct
  imports RV32_QIR QIR_Sem
begin

text \<open>
  The front end is correct: running the intermediate code of an instruction, of a block and of a
  region gives what the interpreter gives on the guest code.
\<close>

section \<open>Guest registers in the CPU state\<close>

lemma state_info_len [simp]: "si_n_regs state_info = 32"
  by (simp add: si_n_regs_def state_info_def)

lemma vgpr_idx:
  assumes "r \<noteq> 0" and "unat (r :: u8) < 32"
  shows "unat (ucast r - 1 :: u16) = unat r - 1"
proof -
  have u: "unat (ucast r :: u16) = unat r"
    using assms(2) by (simp add: unsigned_ucast_eq take_bit_nat_eq_self)
  then have "ucast r \<noteq> (0 :: u16)" using assms(1) by (metis unat_eq_zero unsigned_0)
  then show ?thesis using u by (simp add: unat_minus_one)
qed

lemma state_reg_gpr:
  assumes "r \<noteq> 0" and "unat (r :: u8) < 32"
  shows "\<exists>sr. GetStateReg state_info (ucast r - 1) = Some sr \<and> state_offs sr = of_nat (4 * unat r)"
proof -
  have pos: "0 < unat r" using assms(1) by (simp add: unat_gt_0)
  have idx: "unat (ucast r - 1 :: u16) = unat r - 1" using assms by (rule vgpr_idx)
  then show ?thesis
    using pos assms(2) less_diff_conv2 [of 1 "unat r" 31]
    by (simp add: GetStateReg_def)
      (simp add: state_info_def nth_append offsetof_gpr_def nth_map)
qed

lemma gpr_offs:
  assumes "unat (r :: u8) < 32"
  shows "unat (of_nat (4 * unat r) :: u16) = 4 * unat r"
  using assms by (simp only: unsigned_of_nat) (simp add: take_bit_nat_eq_self)

lemma read_vreg_gpr:
  assumes "r \<noteq> 0" and "unat (r :: u8) < 32"
  shows "read_vreg state_info s (ucast r - 1) = Some (gpr (qcpu s) r)"
proof -
  obtain sr where "GetStateReg state_info (ucast r - 1) = Some sr" "state_offs sr = of_nat (4 * unat r)"
    using state_reg_gpr [OF assms] by blast
  then show ?thesis using assms gpr_offs [OF assms(2)] by (simp add: read_vreg_def state_read_def)
qed

lemma write_vreg_gpr:
  assumes "r \<noteq> 0" and "unat (r :: u8) < 32"
  shows "write_vreg state_info (ucast r - 1) v s =
    Some (s\<lparr>qcpu := (qcpu s)\<lparr>gpr := (gpr (qcpu s))(r := v)\<rparr>\<rparr>)"
proof -
  obtain sr where "GetStateReg state_info (ucast r - 1) = Some sr" "state_offs sr = of_nat (4 * unat r)"
    using state_reg_gpr [OF assms] by blast
  then show ?thesis using assms gpr_offs [OF assms(2)] by (simp add: write_vreg_def state_write_def)
qed

lemma tmp_local: "32 \<le> unat (r :: RegN) \<Longrightarrow> GetStateReg state_info r = None"
  by (simp add: GetStateReg_def)

section \<open>Related states\<close>

text \<open>The states agree on the registers, the pending trap and memory. The stored program counter may
  differ: translated code writes it only where it can be observed.\<close>

definition sim :: "hstate \<Rightarrow> qstate \<Rightarrow> bool" where
  "sim st s \<longleftrightarrow> gpr (qcpu s) = gpr (cpu st) \<and> trapno (qcpu s) = trapno (cpu st) \<and> qmem s = mem st"

definition same_cpu :: "hstate \<Rightarrow> qstate \<Rightarrow> bool" where
  "same_cpu st s \<longleftrightarrow> qcpu s = cpu st \<and> qmem s = mem st"

definition vop :: "u8 \<Rightarrow> VType \<Rightarrow> VOperand" where
  "vop r t = (if r = 0 then MakeConst t 0 else MakeVGPR t (ucast r - 1))"

lemma gprop_vop [simp]: "gprop r t = Inr (vop r t)"
  by (simp add: gprop_def vgpr_def vop_def vconst_def)

lemma vgpr_vop [simp]: "r \<noteq> 0 \<Longrightarrow> vgpr r t = Inr (vop r t)"
  by (simp add: vgpr_def vop_def)

lemma vtrunc_0 [simp]: "vtrunc t 0 = 0" by (cases t) simp_all

lemma read_vop [qsem_simps]:
  assumes "sim st s" and "x0_zero st" and "unat r < 32"
  shows "read_op state_info s (vop r t) = Some (vtrunc t (get_gpr st r))"
  using assms
  by (simp add: vop_def read_op_def read_vreg_gpr sim_def x0_zero_def get_gpr_def)

lemma write_vop [qsem_simps]:
  "r \<noteq> 0 \<Longrightarrow> unat r < 32 \<Longrightarrow> write_op state_info (vop r I32) v s =
    Some (s\<lparr>qcpu := (qcpu s)\<lparr>gpr := (gpr (qcpu s))(r := v)\<rparr>\<rparr>)"
  by (simp add: vop_def write_op_def write_vreg_gpr)

lemma read_tmp [qsem_simps]:
  "32 \<le> unat r \<Longrightarrow> read_op state_info s (MakeVGPR I32 r) = Some (qloc s r)"
  by (simp add: read_op_def read_vreg_def tmp_local)

lemma write_tmp [qsem_simps]:
  "32 \<le> unat r \<Longrightarrow> write_op state_info (MakeVGPR I32 r) v s = Some (s\<lparr>qloc := (qloc s)(r := v)\<rparr>)"
  by (simp add: write_op_def write_vreg_def tmp_local)

lemma write_ip_slot [qsem_simps]:
  "write_op state_info (MakeSlot True I32 128) v s = Some (s\<lparr>qcpu := (qcpu s)\<lparr>ip := v\<rparr>\<rparr>)"
  by (simp add: write_op_def state_write_def)

section \<open>What the translator appends\<close>

definition t_ok :: "RV32Translator \<Rightarrow> bool" where
  "t_ok t \<longleftrightarrow> region_wf (t_region t) \<and> glob_info (vregs_info (t_region t)) = state_info \<and>
     t_qb t = NewBuilder (qb_bb (t_qb t)) \<and> qb_bb (t_qb t) < length (blist (t_region t)) \<and>
     (\<forall>a bb. ip2bb t a = Some bb \<longrightarrow> bb < length (blist (t_region t)))"

abbreviation tview :: "RV32Translator \<Rightarrow> rview" where "tview t \<equiv> region_view (t_region t)"
abbreviation cur :: "RV32Translator \<Rightarrow> nat" where "cur t \<equiv> qb_bb (t_qb t)"
abbreviation nloc :: "RV32Translator \<Rightarrow> nat" where "nloc t \<equiv> length (loc_info (vregs_info (t_region t)))"

text \<open>\<open>t'\<close> is \<open>t\<close> with the folded form of the listed instructions appended to the current block and
  \<open>k\<close> more locals.\<close>

definition emits :: "RV32Translator \<Rightarrow> nat \<Rightarrow> instc list \<Rightarrow> RV32Translator \<Rightarrow> bool" where
  "emits t k cs t' \<longleftrightarrow> t_ok t' \<and> t' = t\<lparr>t_region := t_region t', cflow := cflow t'\<rparr> \<and>
     tview t' = view_append (cur t) (map folded cs) (tview t) \<and> nloc t' = nloc t + k"

lemma emits_fields:
  assumes "emits t k cs t'"
  shows "t_qb t' = t_qb t" "ip2bb t' = ip2bb t" "control t' = control t" "t_vmem t' = t_vmem t"
    "insn_ip t' = insn_ip t" "bb_ip t' = bb_ip t" "t_ok t'"
proof -
  from assms have t': "t' = t\<lparr>t_region := t_region t', cflow := cflow t'\<rparr>" and "t_ok t'"
    by (simp_all add: emits_def)
  show "t_qb t' = t_qb t" "ip2bb t' = ip2bb t" "control t' = control t" "t_vmem t' = t_vmem t"
    "insn_ip t' = insn_ip t" "bb_ip t' = bb_ip t" by (subst t', simp)+
  show "t_ok t'" by fact
qed

lemma length_region_view [simp]: "length (region_view rn) = length (blist rn)"
  by (simp add: region_view_def)

lemma emits_refl: "t_ok t \<Longrightarrow> emits t 0 [] t"
  by (simp add: emits_def)

lemma emits_record: "t_ok t \<Longrightarrow> emits t 0 [] (record_ev e t)"
  by (simp add: emits_def record_ev_def t_ok_def)

lemma emits_trans:
  assumes "emits t k cs t1" and "emits t1 k' cs' t2" and "t_ok t"
  shows "emits t (k + k') (cs @ cs') t2"
proof -
  from assms(1) have t1: "t1 = t\<lparr>t_region := t_region t1, cflow := cflow t1\<rparr>" by (simp add: emits_def)
  from assms(2) have t2: "t2 = t1\<lparr>t_region := t_region t2, cflow := cflow t2\<rparr>" by (simp add: emits_def)
  have "t2 = t\<lparr>t_region := t_region t2, cflow := cflow t2\<rparr>" by (subst t2, subst t1) simp
  moreover have "cur t < length (tview t)" using assms(3) by (simp add: t_ok_def)
  ultimately show ?thesis
    using assms(1,2) emits_fields(1) [OF assms(1)] by (simp add: emits_def)
qed

lemma emit_emits:
  assumes "t_ok t" and "inst_ctor_ok c"
  shows "\<exists>t'. emit c t = Inr t' \<and> emits t 0 [c] t'"
proof -
  have nb: "NewBuilder (cur t) = t_qb t" and bb: "cur t < length (blist (t_region t))"
    and wf: "region_wf (t_region t)" using assms(1) by (simp_all add: t_ok_def)
  obtain rn' where rn': "Create_at_end (cur t) c (t_region t) = Inr rn'" "region_wf rn'"
      "vregs_info rn' = vregs_info (t_region t)"
      "region_view rn' = view_append (cur t) [folded c] (tview t)"
    using qb.create_ok [OF wf _ assms(2), of "cur t"] bb by auto
  then have "emit c t = Inr (t\<lparr>t_region := rn'\<rparr>)"
    by (auto simp: Create_at_end_def emit_def nb)
  moreover have "length (blist rn') = length (blist (t_region t))"
    using arg_cong [OF rn'(4), of length] by simp
  ultimately show ?thesis using assms(1) rn' by (simp add: emits_def t_ok_def)
qed

lemma vtemp_emits:
  assumes "t_ok t" and "nloc t + 33 \<le> 2 ^ 16"
  shows "\<exists>r t'. vtemp I32 t = (MakeVGPR I32 r, t') \<and> 32 \<le> unat r \<and> emits t 1 [] t'"
proof -
  let ?n = "nloc t + 32"
  let ?t' = "t\<lparr>t_region := (t_region t)\<lparr>vregs_info := (vregs_info (t_region t))
      \<lparr>loc_info := loc_info (vregs_info (t_region t)) @ [I32]\<rparr>\<rparr>\<rparr>"
  have v: "vtemp I32 t = (MakeVGPR I32 (of_nat ?n), ?t')"
    using assms(1) by (simp add: vtemp_def CreateVGPR_def AddLocal_def t_ok_def)
  have "unat (of_nat ?n :: RegN) = ?n"
    using assms(2) by (simp only: unsigned_of_nat) (simp add: take_bit_nat_eq_self)
  then have r: "32 \<le> unat (of_nat ?n :: RegN)" by simp
  have e: "emits t 1 [] ?t'"
    using assms(1) by (simp add: emits_def t_ok_def region_wf_def region_view_def)
  show ?thesis using v r e by blast
qed

text \<open>Chaining: an emission followed by more.\<close>

lemma emit_then:
  assumes "t_ok t" and "inst_ctor_ok c"
    and "\<And>t1. emits t 0 [c] t1 \<Longrightarrow> \<exists>t'. f t1 = Inr t' \<and> emits t1 k cs t'"
  shows "\<exists>t'. rbind (emit c t) f = Inr t' \<and> emits t k (c # cs) t'"
proof -
  obtain t1 where t1: "emit c t = Inr t1" "emits t 0 [c] t1" using emit_emits [OF assms(1,2)] by blast
  obtain t' where "f t1 = Inr t'" "emits t1 k cs t'" using assms(3) [OF t1(2)] by blast
  with t1 emits_trans [OF t1(2) _ assms(1), of k cs t'] show ?thesis by simp
qed

lemma ctor_simps [simp]:
  "InstUnop_HasOpcode q_mov" "IsConst (vconst x ty)"
  "InstBinop_HasOpcode q_add" "InstBinop_HasOpcode q_sub" "InstBinop_HasOpcode q_and"
  "InstBinop_HasOpcode q_or" "InstBinop_HasOpcode q_xor" "InstBinop_HasOpcode q_sra"
  "InstBinop_HasOpcode q_srl" "InstBinop_HasOpcode q_sll"
  by (simp_all add: InstUnop_HasOpcode_def InstBinop_HasOpcode_def vconst_def)

definition ip_spill :: "u32 \<Rightarrow> instc" where
  "ip_spill a = InstUnop q_mov (MakeSlot True I32 128) (vconst a I32)"

lemma PreSideeff_emits:
  assumes "t_ok t"
  shows "\<exists>t'. PreSideeff t = Inr t' \<and> emits t 0 [ip_spill (insn_ip t)] t'"
proof -
  have "\<exists>sr. GetStateReg state_info GlobalRegId_IP = Some sr \<and> state_offs sr = 128"
    by (simp add: GetStateReg_def GlobalRegId_IP_def)
      (simp add: state_info_def nth_append offsetof_ip_def)
  then show ?thesis
    using emit_emits [OF assms, of "ip_spill (insn_ip t)"] by (auto simp: PreSideeff_def ip_spill_def)
qed

section \<open>Straight-line instructions\<close>

text \<open>Loads whose result is discarded are translated wrongly when the offset is zero: the load's
  destination is then the base register itself.\<close>

definition discarded_load :: "Op \<Rightarrow> u32 \<Rightarrow> bool" where
  "discarded_load op i \<longleftrightarrow>
     op \<in> {Op_lb, Op_lh, Op_lw, Op_lbu, Op_lhu} \<and> insn_rd i = 0 \<and> I_immx i = 0"

text \<open>The code does in every related state what the handler does: it goes on with related states, or
  raises with the handler's state.\<close>

definition implements :: "Op \<Rightarrow> u32 \<Rightarrow> u32 \<Rightarrow> instc list \<Rightarrow> bool" where
  "implements op i a cs \<longleftrightarrow>
     (\<forall>st s. x0_zero st \<and> sim st s \<and> gip st = a \<and>
        (has_flag op Flags_Trap \<or> has_flag op Flags_MayTrap \<longrightarrow> ip (qcpu s) = a) \<longrightarrow>
        (case H op i st of
           Next st' \<Rightarrow> gip st' = a + 4 \<and> (\<exists>s'. exec_list state_info cs s = QNext s' \<and> sim st' s')
         | Raised st' \<Rightarrow> \<exists>s'. exec_list state_info cs s = QRaise s' \<and> same_cpu st' s'
         | Fail e \<Rightarrow> False))"

definition foldable :: "instc list \<Rightarrow> bool" where
  "foldable cs \<longleftrightarrow> (\<forall>c\<in>set cs. GetOpcode c = q_add \<longrightarrow> (\<forall>v\<in>set (inputs c). const_i32 v))"

lemma foldable_simps [simp]:
  "foldable []" "foldable (c # c' # cs) \<longleftrightarrow> foldable [c] \<and> foldable (c' # cs)"
  "foldable (cs @ cs') \<longleftrightarrow> foldable cs \<and> foldable cs'"
  by (auto simp: foldable_def)

lemma const_i32_ops [simp]: "const_i32 (vop r I32)" "const_i32 (vconst x I32)" "const_i32 (MakeVGPR I32 r')"
  by (simp_all add: const_i32_def vop_def vconst_def)

lemma foldable_one [simp]:
  "GetOpcode c \<noteq> q_add \<Longrightarrow> foldable [c]"
  "const_i32 a \<Longrightarrow> const_i32 b \<Longrightarrow> foldable [InstBinop op d a b]"
  by (simp_all add: foldable_def)

lemma vconst_read [qsem_simps]: "read_op state_info s (vconst x I32) = Some x"
  by (simp add: vconst_def)

text \<open>Instructions that compute one value for \<open>rd\<close>.\<close>

lemma computes_rd:
  assumes flags: "\<not> has_flag op Flags_Branch" "\<not> has_flag op Flags_Trap" "\<not> has_flag op Flags_MayTrap"
      "has_flag op Flags_HasRd"
    and impl: "\<And>st. gip st = a \<Longrightarrow> Impl op i st = Next (set_gpr (insn_rd i) (v st) st)"
    and code: "\<And>st s. x0_zero st \<Longrightarrow> sim st s \<Longrightarrow> gip st = a \<Longrightarrow> insn_rd i \<noteq> 0 \<Longrightarrow>
      exec_inst state_info c s =
        QNext (s\<lparr>qcpu := (qcpu s)\<lparr>gpr := (gpr (qcpu s))(insn_rd i := v st)\<rparr>\<rparr>)"
  shows "implements op i a (if insn_rd i \<noteq> 0 then [c] else [])"
proof -
  have H: "H op i st = Next ((set_gpr 0 0 (set_gpr (insn_rd i) (v st) st))\<lparr>gip := gip st + 4\<rparr>)"
    if "gip st = a" for st
    using flags impl [OF that] by (simp add: H_def set_gpr_def)
  show ?thesis
    unfolding implements_def
    using code by (auto simp: H sim_def x0_zero_def set_gpr_def fun_eq_iff)
qed

text \<open>The translation of one instruction: it succeeds, appends code and adds at most one local, and
  the code implements the handler.\<close>

definition translated :: "Op \<Rightarrow> u32 \<Rightarrow> RV32Translator \<Rightarrow> bool" where
  "translated op i t \<longleftrightarrow>
     (\<exists>k cs t'. V op i t = Inr t' \<and> k \<le> 1 \<and> emits t k cs t' \<and> foldable cs \<and>
        implements op i (insn_ip t) cs)"

lemma translatedI:
  "V op i t = Inr t' \<Longrightarrow> k \<le> 1 \<Longrightarrow> emits t k cs t' \<Longrightarrow> foldable cs \<Longrightarrow>
    implements op i (insn_ip t) cs \<Longrightarrow> translated op i t"
  by (auto simp: translated_def)

lemma translated_rd:
  assumes "t_ok t"
    and "V op i t = (if insn_rd i \<noteq> 0 then emit c t else Inr t)"
    and "inst_ctor_ok c" and "foldable [c]"
    and "implements op i (insn_ip t) (if insn_rd i \<noteq> 0 then [c] else [])"
  shows "translated op i t"
proof -
  obtain t' where "emit c t = Inr t'" "emits t 0 [c] t'" using emit_emits [OF assms(1,3)] by blast
  then have "V op i t = Inr (if insn_rd i \<noteq> 0 then t' else t)"
    "emits t 0 (if insn_rd i \<noteq> 0 then [c] else []) (if insn_rd i \<noteq> 0 then t' else t)"
    using assms(1,2) by (simp_all add: emits_refl)
  with assms(4,5) show ?thesis by (intro translatedI [where k = 0]) (auto split: if_splits)
qed

lemma translated_lui: "t_ok t \<Longrightarrow> translated Op_lui i t"
  by (rule translated_rd [where c = "InstUnop q_mov (vop (insn_rd i) I32) (vconst (U_imm i) I32)"],
      simp, simp add: V_lui_def, simp, simp,
      rule computes_rd [where v = "\<lambda>st. U_imm i"])
    (simp_all add: flag_sets Impl_lui_def qsem_simps)

lemma translated_auipc: "t_ok t \<Longrightarrow> translated Op_auipc i t"
  by (rule translated_rd [where c = "InstUnop q_mov (vop (insn_rd i) I32) (vconst (U_imm i + insn_ip t) I32)"],
      simp, simp add: V_auipc_def, simp, simp,
      rule computes_rd [where v = "\<lambda>st. U_imm i + insn_ip t"])
    (simp_all add: flag_sets Impl_auipc_def qsem_simps)

lemma ostuck_the: "x \<noteq> None \<Longrightarrow> ostuck x f = f (the x)"
  by auto

lemma translated_rr:
  assumes "t_ok t" and "V op = TRANSLATOR_ArithmRR q" and "InstBinop_HasOpcode q"
    and "\<not> has_flag op Flags_Branch" "\<not> has_flag op Flags_Trap" "\<not> has_flag op Flags_MayTrap"
      "has_flag op Flags_HasRd"
    and "\<And>st. Impl op i st = HANDLER_ArithmRR (\<lambda>x y. the (eval_binop q x y)) i st"
    and "\<And>x y. eval_binop q x y \<noteq> None"
  shows "translated op i t"
  using assms(1-8) ostuck_the [OF assms(9)]
  by (intro translated_rd [where c = "InstBinop q (vop (insn_rd i) I32) (vop (insn_rs1 i) I32) (vop (insn_rs2 i) I32)"]
      computes_rd [where v = "\<lambda>st. the (eval_binop q (get_gpr st (insn_rs1 i)) (get_gpr st (insn_rs2 i)))"])
    (simp_all add: TRANSLATOR_ArithmRR_def HANDLER_ArithmRR_def qsem_simps)

lemma translated_ri:
  assumes "t_ok t" and "V op = TRANSLATOR_ArithmRI q imm" and "InstBinop_HasOpcode q"
    and "\<not> has_flag op Flags_Branch" "\<not> has_flag op Flags_Trap" "\<not> has_flag op Flags_MayTrap"
      "has_flag op Flags_HasRd"
    and "\<And>st. Impl op i st = Next (set_gpr (insn_rd i) (the (eval_binop q (get_gpr st (insn_rs1 i)) (imm i))) st)"
    and "\<And>x y. eval_binop q x y \<noteq> None"
  shows "translated op i t"
  using assms(1-8) ostuck_the [OF assms(9)]
  by (intro translated_rd [where c = "InstBinop q (vop (insn_rd i) I32) (vop (insn_rs1 i) I32) (vconst (imm i) I32)"]
      computes_rd [where v = "\<lambda>st. the (eval_binop q (get_gpr st (insn_rs1 i)) (imm i))"])
    (simp_all add: TRANSLATOR_ArithmRI_def qsem_simps)

lemma translated_setcc_r:
  assumes "t_ok t" and "V op = TranslateSetccR cc"
    and "\<not> has_flag op Flags_Branch" "\<not> has_flag op Flags_Trap" "\<not> has_flag op Flags_MayTrap"
      "has_flag op Flags_HasRd"
    and "\<And>st. Impl op i st = HANDLER_ArithmRR (\<lambda>x y. of_cond (eval_cc cc x y)) i st"
  shows "translated op i t"
  using assms
  by (intro translated_rd [where c = "InstSetcc cc (vop (insn_rd i) I32) (vop (insn_rs1 i) I32) (vop (insn_rs2 i) I32)"]
      computes_rd [where v = "\<lambda>st. of_cond (eval_cc cc (get_gpr st (insn_rs1 i)) (get_gpr st (insn_rs2 i)))"])
    (simp_all add: TranslateSetccR_def HANDLER_ArithmRR_def qsem_simps)

lemma translated_setcc_i:
  assumes "t_ok t" and "V op = TranslateSetccI cc"
    and "\<not> has_flag op Flags_Branch" "\<not> has_flag op Flags_Trap" "\<not> has_flag op Flags_MayTrap"
      "has_flag op Flags_HasRd"
    and "\<And>st. Impl op i st = HANDLER_ArithmRI (\<lambda>x y. of_cond (eval_cc cc x y)) i st"
  shows "translated op i t"
  using assms
  by (intro translated_rd [where c = "InstSetcc cc (vop (insn_rd i) I32) (vop (insn_rs1 i) I32) (vconst (I_immx i) I32)"]
      computes_rd [where v = "\<lambda>st. of_cond (eval_cc cc (get_gpr st (insn_rs1 i)) (I_immx i))"])
    (simp_all add: TranslateSetccI_def HANDLER_ArithmRI_def qsem_simps)

subsection \<open>Loads and stores\<close>

text \<open>The code of an address operand leaves the address in it and the guest state alone.\<close>

definition addresses :: "instc list \<Rightarrow> VOperand \<Rightarrow> u8 \<Rightarrow> u32 \<Rightarrow> bool" where
  "addresses cs addr rs1 imm \<longleftrightarrow>
     (\<forall>st s. x0_zero st \<and> sim st s \<longrightarrow>
        (\<exists>s'. exec_list state_info cs s = QNext s' \<and> sim st s' \<and>
           read_op state_info s' addr = Some (get_gpr st rs1 + imm)))"

lemma vaddr_op_emits:
  assumes "t_ok t" and "nloc t + 33 \<le> 2 ^ 16" and "unat rs1 < 32"
  shows "\<exists>addr k cs t'. vaddr_op rs1 imm t = Inr (addr, t') \<and> k \<le> 1 \<and> emits t k cs t' \<and> foldable cs \<and>
    addresses cs addr rs1 imm \<and> (imm \<noteq> 0 \<longrightarrow> (\<exists>r. addr = MakeVGPR I32 r \<and> 32 \<le> unat r))"
proof (cases "imm = 0")
  case True
  then have "vaddr_op rs1 imm t = Inr (vop rs1 I32, t)" by (simp add: vaddr_op_def)
  moreover have "addresses [] (vop rs1 I32) rs1 imm"
    using assms(3) True by (auto simp: addresses_def qsem_simps)
  ultimately show ?thesis using True assms(1) by (auto intro!: exI [of _ 0] exI [of _ "[]"] emits_refl)
next
  case False
  obtain r t1 where v: "vtemp I32 t = (MakeVGPR I32 r, t1)" and r: "32 \<le> unat r" and e1: "emits t 1 [] t1"
    using vtemp_emits [OF assms(1,2)] by blast
  let ?c = "InstBinop q_add (MakeVGPR I32 r) (vop rs1 I32) (vconst imm I32)"
  obtain t2 where t2: "emit ?c t1 = Inr t2" "emits t1 0 [?c] t2"
    using emit_emits [OF emits_fields(7) [OF e1], of ?c] by auto
  have "emits t 1 [?c] t2" using emits_trans [OF e1 t2(2) assms(1)] by simp
  moreover have "vaddr_op rs1 imm t = Inr (MakeVGPR I32 r, t2)"
    using False v t2 by (simp add: vaddr_op_def)
  moreover have "addresses [?c] (MakeVGPR I32 r) rs1 imm"
    using assms(3) r by (auto simp: addresses_def qsem_simps sim_def [of _ "s\<lparr>qloc := _\<rparr>" for s])
      (auto simp: sim_def)
  ultimately show ?thesis using r by (intro exI [of _ "MakeVGPR I32 r"] exI [of _ 1] exI [of _ "[?c]"]) auto
qed

lemma translated_load:
  assumes "t_ok t" and "nloc t + 33 \<le> 2 ^ 16" and "V op = TranslateLoad ty sg"
    and "op \<in> {Op_lb, Op_lh, Op_lw, Op_lbu, Op_lhu}" and "\<not> discarded_load op i"
    and "Impl op = HANDLER_Load ld" and "\<And>m x. eval_load ty sg m x = Some (ld m x)"
  shows "translated op i t"
proof -
  obtain addr k cs t1 where a: "vaddr_op (insn_rs1 i) (I_immx i) t = Inr (addr, t1)" "k \<le> 1"
      "emits t k cs t1" "foldable cs" "addresses cs addr (insn_rs1 i) (I_immx i)"
      "I_immx i \<noteq> 0 \<longrightarrow> (\<exists>r. addr = MakeVGPR I32 r \<and> 32 \<le> unat r)"
    using vaddr_op_emits [OF assms(1,2) insn_reg_bounds(2), of i "I_immx i"] by blast
  let ?c = "InstVMLoad ty sg (if insn_rd i \<noteq> 0 then vop (insn_rd i) I32 else addr) addr"
  obtain t2 where t2: "emit ?c t1 = Inr t2" "emits t1 0 [?c] t2"
    using emit_emits [OF emits_fields(7) [OF a(3)], of ?c] by auto
  have V: "V op i t = Inr t2" using assms(3) a t2(1) by (simp add: TranslateLoad_def split: if_splits)
  have H: "H op i st = Next ((set_gpr 0 0 (set_gpr (insn_rd i) (ld (mem st)
      (vaddr (get_gpr st (insn_rs1 i)) (I_immx i))) (set_ip (gip st) st)))\<lparr>gip := gip st + 4\<rparr>)" for st
    using assms(4) by (auto simp: H_def flag_sets assms(6) HANDLER_Load_def reg_defs)
  have "implements op i (insn_ip t) (cs @ [?c])"
    unfolding implements_def
  proof (intro allI impI, elim conjE)
    fix st s assume st: "x0_zero st" "sim st s" "gip st = insn_ip t"
    then obtain s1 where s1: "exec_list state_info cs s = QNext s1" "sim st s1"
        "read_op state_info s1 addr = Some (get_gpr st (insn_rs1 i) + I_immx i)"
      using a(5) by (auto simp: addresses_def)
    define v where "v = ld (mem st) (vaddr (get_gpr st (insn_rs1 i)) (I_immx i))"
    have "\<exists>s'. exec_inst state_info ?c s1 = QNext s' \<and>
        gpr (qcpu s') = (gpr (qcpu s1))(insn_rd i := if insn_rd i = 0 then 0 else v) \<and>
        trapno (qcpu s') = trapno (qcpu s1) \<and> qmem s' = qmem s1"
    proof (cases "insn_rd i = 0")
      case False
      then show ?thesis using s1 assms(7) by (simp add: qsem_simps sim_def v_def vaddr_def)
    next
      case True
      then have "I_immx i \<noteq> 0" using assms(4,5) by (auto simp: discarded_load_def)
      then obtain r where "addr = MakeVGPR I32 r" "32 \<le> unat r" using a(6) by blast
      then show ?thesis using True s1 assms(7) st(1)
        by (auto simp: qsem_simps sim_def x0_zero_def fun_eq_iff)
    qed
    then show "case H op i st of
          Next st' \<Rightarrow> gip st' = insn_ip t + 4 \<and>
            (\<exists>s'. exec_list state_info (cs @ [?c]) s = QNext s' \<and> sim st' s')
        | Raised st' \<Rightarrow> \<exists>s'. exec_list state_info (cs @ [?c]) s = QRaise s' \<and> same_cpu st' s'
        | Fail e \<Rightarrow> False"
      using s1 st by (auto simp: H sim_def reg_defs x0_zero_def v_def fun_eq_iff)
  qed
  then show ?thesis
    using V a emits_trans [OF a(3) t2(2) assms(1)] by (intro translatedI [where k = k]) auto
qed

lemma translated_store:
  assumes "t_ok t" and "nloc t + 33 \<le> 2 ^ 16" and "V op = TranslateStore ty VU"
    and "op \<in> {Op_sb, Op_sh, Op_sw}" and "Impl op = HANDLER_Store sto"
    and "\<And>m x v. eval_store ty m x (vtrunc ty v) = Some (sto m x v)"
  shows "translated op i t"
proof -
  obtain addr k cs t1 where a: "vaddr_op (insn_rs1 i) (S_immx i) t = Inr (addr, t1)" "k \<le> 1"
      "emits t k cs t1" "foldable cs" "addresses cs addr (insn_rs1 i) (S_immx i)"
    using vaddr_op_emits [OF assms(1,2) insn_reg_bounds(2), of i "S_immx i"] by blast
  let ?c = "InstVMStore ty VU addr (vop (insn_rs2 i) ty)"
  obtain t2 where t2: "emit ?c t1 = Inr t2" "emits t1 0 [?c] t2"
    using emit_emits [OF emits_fields(7) [OF a(3)], of ?c] by auto
  have V: "V op i t = Inr t2" using assms(3) a t2(1) by (simp add: TranslateStore_def)
  have H: "H op i st = Next (st\<lparr>cpu := (cpu st)\<lparr>ip := gip st\<rparr>, mem := sto (mem st)
      (vaddr (get_gpr st (insn_rs1 i)) (S_immx i)) (get_gpr st (insn_rs2 i)), gip := gip st + 4\<rparr>)" for st
    using assms(4) by (auto simp: H_def flag_sets assms(5) HANDLER_Store_def reg_defs)
  have "implements op i (insn_ip t) (cs @ [?c])"
    unfolding implements_def
  proof (intro allI impI, elim conjE)
    fix st s assume st: "x0_zero st" "sim st s" "gip st = insn_ip t"
    then obtain s1 where s1: "exec_list state_info cs s = QNext s1" "sim st s1"
        "read_op state_info s1 addr = Some (get_gpr st (insn_rs1 i) + S_immx i)"
      using a(5) by (auto simp: addresses_def)
    then have "exec_inst state_info ?c s1 = QNext (s1\<lparr>qmem := sto (mem st)
        (vaddr (get_gpr st (insn_rs1 i)) (S_immx i)) (get_gpr st (insn_rs2 i))\<rparr>)"
      using assms(6) st(1) by (simp add: read_vop) (simp add: sim_def vaddr_def)
    then show "case H op i st of
          Next st' \<Rightarrow> gip st' = insn_ip t + 4 \<and>
            (\<exists>s'. exec_list state_info (cs @ [?c]) s = QNext s' \<and> sim st' s')
        | Raised st' \<Rightarrow> \<exists>s'. exec_list state_info (cs @ [?c]) s = QRaise s' \<and> same_cpu st' s'
        | Fail e \<Rightarrow> False"
      using s1 st by (auto simp: H sim_def)
  qed
  then show ?thesis
    using V a emits_trans [OF a(3) t2(2) assms(1)] by (intro translatedI [where k = k]) auto
qed

subsection \<open>Calls of runtime stubs\<close>

text \<open>A stub that sets the stored program counter first sees nothing of the difference between
  related states.\<close>

lemma stub_same:
  assumes "has_flag op Flags_Trap \<or> has_flag op Flags_MayTrap" and "sim st s" and "ip (qcpu s) = gip st"
  shows "H op i \<lparr>cpu = qcpu s, gip = ip (qcpu s), mem = qmem s\<rparr> = H op i st"
proof -
  have "set_ip (gip st) \<lparr>cpu = qcpu s, gip = ip (qcpu s), mem = qmem s\<rparr> = set_ip (gip st) st"
    using assms(2,3) by (simp add: sim_def set_ip_def)
  then show ?thesis using assms by (simp add: H_def)
qed

lemma H_straight_gip:
  assumes "\<not> has_flag op Flags_Branch" and "H op i st = Next st'"
  shows "gip st' = gip st + 4"
proof (rule H_Next [OF assms(2)])
  fix st1 st2
  assume 1: "st1 = st \<or> st1 = set_ip (gip st) st" and 2: "Impl op i st1 = Next st2"
    and g: "gip st' = (if has_flag op Flags_Branch then gip st2 else gip st2 + 4)"
  have "gip st1 = gip st" using 1 by (auto simp: set_ip_def)
  with g Impl_Next_gip [OF 2 assms(1)] assms(1) show ?thesis by simp
qed

lemma translated_helper:
  assumes "t_ok t" and "V op = TranslateHelper stub" and "stub_op stub = Some op"
    and "has_flag op Flags_Trap \<or> has_flag op Flags_MayTrap" and "\<not> has_flag op Flags_Branch"
  shows "translated op i t"
proof -
  let ?c = "InstHcall stub (vconst i I32)"
  obtain t' where t': "emit ?c t = Inr t'" "emits t 0 [?c] t'" using emit_emits [OF assms(1), of ?c] by auto
  have tr: "stub \<noteq> id_trace" using assms(3) by auto
  have "implements op i (insn_ip t) [?c]"
    unfolding implements_def
  proof (intro allI impI, elim conjE)
    fix st s assume st: "sim st s" "gip st = insn_ip t"
      "has_flag op Flags_Trap \<or> has_flag op Flags_MayTrap \<longrightarrow> ip (qcpu s) = insn_ip t"
    then have eq: "H op i \<lparr>cpu = qcpu s, gip = ip (qcpu s), mem = qmem s\<rparr> = H op i st"
      using assms(4) by (intro stub_same) auto
    have x: "exec_list state_info [?c] s =
      (case H op i st of
         Next st' \<Rightarrow> QNext (s\<lparr>qcpu := (cpu st')\<lparr>ip := gip st'\<rparr>, qmem := mem st'\<rparr>)
       | Raised st' \<Rightarrow> QRaise (s\<lparr>qcpu := cpu st', qmem := mem st'\<rparr>)
       | Fail e \<Rightarrow> QStuck)"
      using assms(3) tr
      by (simp add: qsem_simps qcgstub_rv32_def eq set_ip_def split: hres.split)
    show "case H op i st of
          Next st' \<Rightarrow> gip st' = insn_ip t + 4 \<and> (\<exists>s'. exec_list state_info [?c] s = QNext s' \<and> sim st' s')
        | Raised st' \<Rightarrow> \<exists>s'. exec_list state_info [?c] s = QRaise s' \<and> same_cpu st' s'
        | Fail e \<Rightarrow> False"
      unfolding x using st(2) H_straight_gip [OF assms(5)] H_not_Fail
      by (auto simp: sim_def same_cpu_def split: hres.split)
  qed
  then show ?thesis using t' assms(2) by (intro translatedI [where k = 0]) (auto simp: TranslateHelper_def)
qed

lemma translated_fence:
  assumes "t_ok t" and "V op = TranslateHelper stub" and "stub_op stub = Some op"
    and "op \<in> {Op_fence, Op_fencei}"
  shows "translated op i t"
proof -
  let ?c = "InstHcall stub (vconst i I32)"
  obtain t' where t': "emit ?c t = Inr t'" "emits t 0 [?c] t'" using emit_emits [OF assms(1), of ?c] by auto
  have tr: "stub \<noteq> id_trace" using assms(3) by auto
  have H: "H op i st = Next (st\<lparr>gip := gip st + 4\<rparr>)" for st
    using assms(4) by (auto simp: H_def flag_sets Impl_fence_def Impl_fencei_def)
  have "implements op i (insn_ip t) [?c]"
    using assms(3) tr H
    by (auto simp: implements_def qsem_simps qcgstub_rv32_def sim_def set_ip_def)
  then show ?thesis using t' assms(2) by (intro translatedI [where k = 0]) (auto simp: TranslateHelper_def)
qed

subsection \<open>Every straight-line instruction\<close>

lemma and_masks:
  "w AND 31 = take_bit 5 (w :: u32)" "w AND 0xff = take_bit 8 (w :: u32)"
  "w AND 0xffff = take_bit 16 (w :: u32)"
  by (simp_all add: take_bit_eq_mask mask_eq_exp_minus_1)

lemma shift_counts [simp]: "unat (ucast (IS_imm i) AND 31 :: u32) = unat (IS_imm i)"
  using IS_imm_bound [of i]
  by (simp only: and_masks unsigned_take_bit_eq unsigned_ucast_eq) (simp add: take_bit_nat_eq_self)

lemma stored_bits [simp]:
  "ucast (v AND 0xff :: u32) = (ucast v :: u8)" "ucast (v AND 0xffff :: u32) = (ucast v :: u16)"
  unfolding and_masks by (intro bit_word_eqI; simp add: bit_simps)+

lemmas handlers_arith = flag_sets HANDLER_ArithmRR_def HANDLER_ArithmRI_def
  Impl_sll_def Impl_srl_def Impl_sra_def Impl_slli_def Impl_srli_def Impl_srai_def

lemma translated_arith:
  "t_ok t \<Longrightarrow> translated Op_sub i t"
  "t_ok t \<Longrightarrow> translated Op_add i t"
  "t_ok t \<Longrightarrow> translated Op_sll i t"
  "t_ok t \<Longrightarrow> translated Op_xor i t"
  "t_ok t \<Longrightarrow> translated Op_sra i t"
  "t_ok t \<Longrightarrow> translated Op_srl i t"
  "t_ok t \<Longrightarrow> translated Op_or i t"
  "t_ok t \<Longrightarrow> translated Op_and i t"
  by (rule translated_rr, (assumption | rule V.simps | simp add: handlers_arith)+)+

lemma translated_arith_imm:
  "t_ok t \<Longrightarrow> translated Op_addi i t"
  "t_ok t \<Longrightarrow> translated Op_xori i t"
  "t_ok t \<Longrightarrow> translated Op_ori i t"
  "t_ok t \<Longrightarrow> translated Op_andi i t"
  "t_ok t \<Longrightarrow> translated Op_slli i t"
  "t_ok t \<Longrightarrow> translated Op_srai i t"
  "t_ok t \<Longrightarrow> translated Op_srli i t"
  by (rule translated_ri, (assumption | rule V.simps | simp add: handlers_arith)+)+

lemma translated_compare:
  "t_ok t \<Longrightarrow> translated Op_slt i t"
  "t_ok t \<Longrightarrow> translated Op_sltu i t"
  by (rule translated_setcc_r, (assumption | rule V.simps | simp add: handlers_arith)+)+

lemma translated_compare_imm:
  "t_ok t \<Longrightarrow> translated Op_slti i t"
  "t_ok t \<Longrightarrow> translated Op_sltiu i t"
  by (rule translated_setcc_i, (assumption | rule V.simps | simp add: handlers_arith)+)+

lemma translated_loads:
  "t_ok t \<Longrightarrow> nloc t + 33 \<le> 2 ^ 16 \<Longrightarrow> \<not> discarded_load Op_lb i \<Longrightarrow> translated Op_lb i t"
  "t_ok t \<Longrightarrow> nloc t + 33 \<le> 2 ^ 16 \<Longrightarrow> \<not> discarded_load Op_lh i \<Longrightarrow> translated Op_lh i t"
  "t_ok t \<Longrightarrow> nloc t + 33 \<le> 2 ^ 16 \<Longrightarrow> \<not> discarded_load Op_lw i \<Longrightarrow> translated Op_lw i t"
  "t_ok t \<Longrightarrow> nloc t + 33 \<le> 2 ^ 16 \<Longrightarrow> \<not> discarded_load Op_lbu i \<Longrightarrow> translated Op_lbu i t"
  "t_ok t \<Longrightarrow> nloc t + 33 \<le> 2 ^ 16 \<Longrightarrow> \<not> discarded_load Op_lhu i \<Longrightarrow> translated Op_lhu i t"
  by (rule translated_load, (assumption | rule V.simps | rule Impl.simps
      | simp add: load_i8_def load_i16_def load_i32_def load_u8_def load_u16_def)+)+

lemma translated_stores:
  "t_ok t \<Longrightarrow> nloc t + 33 \<le> 2 ^ 16 \<Longrightarrow> translated Op_sb i t"
  "t_ok t \<Longrightarrow> nloc t + 33 \<le> 2 ^ 16 \<Longrightarrow> translated Op_sh i t"
  "t_ok t \<Longrightarrow> nloc t + 33 \<le> 2 ^ 16 \<Longrightarrow> translated Op_sw i t"
  by (rule translated_store, (assumption | rule V.simps | rule Impl.simps
      | simp add: store_u8_def store_u16_def store_u32_def)+)+

lemma translated_stubs:
  "t_ok t \<Longrightarrow> translated Op_ecall i t"
  "t_ok t \<Longrightarrow> translated Op_ebreak i t"
  "t_ok t \<Longrightarrow> translated Op_ill i t"
  "t_ok t \<Longrightarrow> translated Op_lrw i t"
  "t_ok t \<Longrightarrow> translated Op_scw i t"
  "t_ok t \<Longrightarrow> translated Op_amoswapw i t"
  "t_ok t \<Longrightarrow> translated Op_amoaddw i t"
  "t_ok t \<Longrightarrow> translated Op_amoxorw i t"
  "t_ok t \<Longrightarrow> translated Op_amoandw i t"
  "t_ok t \<Longrightarrow> translated Op_amoorw i t"
  "t_ok t \<Longrightarrow> translated Op_amominw i t"
  "t_ok t \<Longrightarrow> translated Op_amomaxw i t"
  "t_ok t \<Longrightarrow> translated Op_amominuw i t"
  "t_ok t \<Longrightarrow> translated Op_amomaxuw i t"
  by (rule translated_helper, (assumption | rule V.simps | simp add: flag_sets)+)+

lemma translated_fences:
  "t_ok t \<Longrightarrow> translated Op_fence i t"
  "t_ok t \<Longrightarrow> translated Op_fencei i t"
  by (rule translated_fence, (assumption | rule V.simps | simp)+)+

lemma straight_translated:
  assumes "t_ok t" and "nloc t + 33 \<le> 2 ^ 16" and "\<not> discarded_load op i"
    and "\<not> has_flag op Flags_Branch"
  shows "translated op i t"
  using assms
  by (cases op)
    (simp_all add: flag_sets translated_lui translated_auipc translated_arith translated_arith_imm
      translated_compare translated_compare_imm translated_loads translated_stores translated_stubs
      translated_fences)

section \<open>Blocks and edges\<close>

definition view_succ :: "nat \<Rightarrow> nat \<Rightarrow> rview \<Rightarrow> rview" where
  "view_succ bb b v = v[bb := (fst (v ! bb), snd (v ! bb) @ [b])]"

lemma nth_region_view:
  "b < length (blist rn) \<Longrightarrow> region_view rn ! b = (code_of (blist rn ! b), succs (blist rn ! b))"
  by (simp add: region_view_def)

lemma AddSucc_view:
  assumes "region_wf rn" and "bb < length (blist rn)" and "b < length (blist rn)"
  shows "region_view (AddSucc bb b rn) = view_succ bb b (region_view rn)"
    and "region_wf (AddSucc bb b rn)" and "vregs_info (AddSucc bb b rn) = vregs_info rn"
    and "length (blist (AddSucc bb b rn)) = length (blist rn)"
proof -
  show "length (blist (AddSucc bb b rn)) = length (blist rn)"
    "vregs_info (AddSucc bb b rn) = vregs_info rn"
    by (simp_all add: AddSucc_def upd_block_def)
  show "region_view (AddSucc bb b rn) = view_succ bb b (region_view rn)"
    using assms(2,3)
    by (intro nth_equalityI)
      (auto simp: AddSucc_def upd_block_def view_succ_def region_view_def code_of_def nth_list_update)
  have "blist (AddSucc bb b rn) ! k = (blist rn ! k)
      \<lparr>succs := succs (blist (AddSucc bb b rn) ! k), preds := preds (blist (AddSucc bb b rn) ! k)\<rparr> \<and>
      set (succs (blist (AddSucc bb b rn) ! k)) \<subseteq> insert b (set (succs (blist rn ! k)))"
    if "k < length (blist rn)" for k
    using assms(2,3) that by (auto simp: AddSucc_def upd_block_def nth_list_update)
  note k = this
  show "region_wf (AddSucc bb b rn)"
    unfolding region_wf_def
  proof
    fix x assume "x \<in> set (blist (AddSucc bb b rn))"
    then obtain n where n: "n < length (blist rn)" "x = blist (AddSucc bb b rn) ! n"
      by (auto simp: in_set_conv_nth AddSucc_def upd_block_def)
    have "ilist x = ilist (blist rn ! n)" using k [OF n(1)] n(2) by (metis Block.ext_inject Block.surjective Block.update_convs(2,3))
    moreover have "set (succs x) \<subseteq> insert b (set (succs (blist rn ! n)))" using k [OF n(1)] n(2) by simp
    moreover have "arena_top (AddSucc bb b rn) = arena_top rn" by (simp add: AddSucc_def upd_block_def)
    moreover have "length (blist (AddSucc bb b rn)) = length (blist rn)"
      by (simp add: AddSucc_def upd_block_def)
    ultimately show "distinct (map inst_ptr (ilist x)) \<and> (\<forall>y\<in>set (ilist x). inst_ptr y < arena_top (AddSucc bb b rn)) \<and>
        (\<forall>y\<in>set (succs x). y < length (blist (AddSucc bb b rn)))"
      using assms(1,3) nth_mem [OF n(1)] by (auto simp: region_wf_def)
  qed
qed

lemma CreateBlock_view:
  assumes "region_wf rn" and "CreateBlock rn = (b, rn')"
  shows "b = length (blist rn)" "region_view rn' = region_view rn @ [([], [])]" "region_wf rn'"
    "vregs_info rn' = vregs_info rn" "length (blist rn') = Suc (length (blist rn))"
  using assms by (auto simp: CreateBlock_def region_view_def code_of_def region_wf_def less_Suc_eq)

lemma add_succ_ok:
  assumes "t_ok t" and "b < length (tview t)"
  shows "t_ok (add_succ b t)" "tview (add_succ b t) = view_succ (cur t) b (tview t)"
    "nloc (add_succ b t) = nloc t" "cur (add_succ b t) = cur t"
  using assms AddSucc_view [of "t_region t" "cur t" b]
  by (simp_all add: add_succ_def t_ok_def)

lemma add_succ_fields [simp]:
  "ip2bb (add_succ b t) = ip2bb t" "control (add_succ b t) = control t" "t_vmem (add_succ b t) = t_vmem t"
  "insn_ip (add_succ b t) = insn_ip t" "bb_ip (add_succ b t) = bb_ip t" "t_qb (add_succ b t) = t_qb t"
  by (simp_all add: add_succ_def)

lemma record_ev_fields [simp]:
  "ip2bb (record_ev e t) = ip2bb t" "control (record_ev e t) = control t" "t_vmem (record_ev e t) = t_vmem t"
  "insn_ip (record_ev e t) = insn_ip t" "bb_ip (record_ev e t) = bb_ip t" "t_qb (record_ev e t) = t_qb t"
  "t_region (record_ev e t) = t_region t" "t_ok (record_ev e t) = t_ok t"
  by (simp_all add: record_ev_def t_ok_def)

text \<open>A block that stands for guest address \<open>pc\<close>: the block of the range that starts there, or one
  that only leaves for \<open>pc\<close>.\<close>

definition block_for :: "rview \<Rightarrow> (u32 \<rightharpoonup> nat) \<Rightarrow> u32 \<Rightarrow> nat \<Rightarrow> bool" where
  "block_for v m pc b \<longleftrightarrow> b < length v \<and>
     (m pc = Some b \<or> v ! b = ([InstGBr (vconst pc I32)], []) \<and> b \<notin> ran m)"

lemma make_target_ok:
  assumes "t_ok t"
  shows "\<exists>b t' ext. make_target tip t = Inr (b, t') \<and> t_ok t' \<and> tview t' = tview t @ ext \<and>
    block_for (tview t') (ip2bb t) tip b \<and> ip2bb t' = ip2bb t \<and> control t' = control t \<and>
    t_vmem t' = t_vmem t \<and> insn_ip t' = insn_ip t \<and> bb_ip t' = bb_ip t \<and> nloc t' = nloc t"
proof (cases "ip2bb t tip")
  case (Some b)
  then show ?thesis using assms
    by (intro exI [of _ b] exI [of _ "record_ev (RecordGBr (bb_ip t) tip) t"] exI [of _ "[]"])
      (simp add: make_target_def block_for_def t_ok_def [of t] Let_def)
next
  case None
  obtain b rn where cb: "CreateBlock (t_region t) = (b, rn)" by (cases "CreateBlock (t_region t)") auto
  have wf: "region_wf (t_region t)" using assms by (simp add: t_ok_def)
  note v = CreateBlock_view [OF wf cb]
  define t1 where "t1 = (record_ev (RecordGBr (bb_ip t) tip) t)\<lparr>t_region := rn, t_qb := NewBuilder b\<rparr>"
  have ok1: "t_ok t1"
    using assms v by (auto simp: t1_def t_ok_def NewBuilder_def less_Suc_eq)
  obtain t2 where t2: "emit (InstGBr (vconst tip I32)) t1 = Inr t2" "emits t1 0 [InstGBr (vconst tip I32)] t2"
    using emit_emits [OF ok1, of "InstGBr (vconst tip I32)"] by auto
  have f: "folded (InstGBr x) = InstGBr x" for x by (simp add: folded_def FolderVisitor_visit_def)
  have "tview t2 = tview t @ [([InstGBr (vconst tip I32)], [])]"
    using t2(2) v
    by (simp add: emits_def f view_append_def t1_def NewBuilder_def list_update_append nth_append)
  moreover have "b \<notin> ran (ip2bb t)" using assms v(1) by (auto simp: t_ok_def ran_def)
  moreover have "nloc t2 = nloc t" using t2(2) v by (simp add: emits_def t1_def)
  moreover have "make_target tip t = Inr (b, t2)"
    using None cb t2 emits_fields(1) [OF t2(2)] by (simp add: make_target_def t1_def Let_def NewBuilder_def)
  ultimately show ?thesis
    using emits_fields [OF t2(2)] v(1)
    by (intro exI [of _ b] exI [of _ t2] exI [of _ "[([InstGBr (vconst tip I32)], [])]"])
      (simp add: t1_def block_for_def nth_append)
qed

section \<open>Branches\<close>

text \<open>\<open>t'\<close> is \<open>t\<close> with code and edges appended to the current block and further blocks after the old
  ones.\<close>

definition closes :: "RV32Translator \<Rightarrow> nat \<Rightarrow> instc list \<Rightarrow> nat list \<Rightarrow> RV32Translator \<Rightarrow> bool" where
  "closes t k cs ss t' \<longleftrightarrow> t_ok t' \<and> ip2bb t' = ip2bb t \<and> t_vmem t' = t_vmem t \<and> bb_ip t' = bb_ip t \<and>
     control t' = control t \<and> insn_ip t' = insn_ip t \<and> nloc t' = nloc t + k \<and>
     (\<exists>ext. tview t' = (tview t)[cur t := (fst (tview t ! cur t) @ cs, snd (tview t ! cur t) @ ss)] @ ext)"

text \<open>The outcome of a block's code and its successors lead to guest address \<open>pc\<close>.\<close>

definition leads :: "rview \<Rightarrow> (u32 \<rightharpoonup> nat) \<Rightarrow> nat list \<Rightarrow> qstate qres \<Rightarrow> u32 \<Rightarrow> qstate \<Rightarrow> bool" where
  "leads v m ss r pc s \<longleftrightarrow>
     r = QExit pc s \<or>
     r = QBr s \<and> (\<exists>b. ss = [b] \<and> block_for v m pc b) \<or>
     (\<exists>c bt bf. r = QBrcc c s \<and> ss = [bt, bf] \<and> block_for v m pc (if c then bt else bf))"

lemma emits_closes:
  assumes "emits t k cs t1" and "closes t1 k' cs' ss t2" and "t_ok t"
  shows "closes t (k + k') (map folded cs @ cs') ss t2"
proof -
  have l: "cur t < length (tview t)" using assms(3) by (simp add: t_ok_def)
  then have "tview t1 = view_append (cur t) (map folded cs) (tview t)" using assms(1) by (simp add: emits_def)
  then show ?thesis
    using assms(1,2) l emits_fields [OF assms(1)] by (auto simp: closes_def emits_def view_append_def)
qed

lemma folded_id [simp]: "GetOpcode c \<noteq> q_add \<Longrightarrow> folded c = c"
  by (cases c) (auto simp: folded_def FolderVisitor_visit_def)

lemma emits_end:
  assumes "emits t k cs t'" and "t_ok t"
  shows "closes t k (map folded cs) [] t'"
  using assms emits_fields [OF assms(1)] by (auto simp: closes_def emits_def view_append_def)

lemma MakeGBr_ok:
  assumes "t_ok t"
  shows "\<exists>cs ss t'. MakeGBr tip t = Inr t' \<and> closes t 0 cs ss t' \<and>
    (\<forall>s. leads (tview t') (ip2bb t) ss (exec_list state_info cs s) tip s)"
proof (cases "ip2bb t tip")
  case None
  let ?c = "InstGBr (vconst tip I32)"
  obtain t' where t': "emit ?c t = Inr t'" "emits t 0 [?c] t'" using emit_emits [OF assms, of ?c] by auto
  with emits_end [OF t'(2) assms] None show ?thesis
    by (intro exI [of _ "[?c]"] exI [of _ "[]"] exI [of _ t']) (simp add: MakeGBr_def leads_def qsem_simps)
next
  case (Some b)
  obtain t1 where t1: "emit InstBr t = Inr t1" "emits t 0 [InstBr] t1" using emit_emits [OF assms, of InstBr] by auto
  have ok1: "t_ok t1" and c1: "cur t1 = cur t" using emits_fields [OF t1(2)] by simp_all
  have l: "cur t < length (tview t)" using assms by (simp add: t_ok_def)
  have b: "b < length (tview t1)"
    using Some ok1 emits_fields(2) [OF t1(2)] by (auto simp: t_ok_def)
  note s = add_succ_ok [OF ok1 b]
  have v: "tview (add_succ b t1) = (tview t)[cur t := (fst (tview t ! cur t) @ [InstBr], snd (tview t ! cur t) @ [b])]"
    using t1(2) s l c1 by (simp add: emits_def view_append_def view_succ_def)
  then have "closes t 0 [InstBr] [b] (add_succ b t1)"
    using s(1,3) emits_fields [OF t1(2)] t1(2) by (simp add: closes_def emits_def)
  moreover have "block_for (tview (add_succ b t1)) (ip2bb t) tip b"
    using Some assms v by (auto simp: block_for_def t_ok_def)
  ultimately show ?thesis using Some t1
    by (intro exI [of _ "[InstBr]"] exI [of _ "[b]"] exI [of _ "add_succ b t1"]) (simp add: MakeGBr_def leads_def)
qed

text \<open>What the translation of a branch instruction achieves: the code ends the block and leads to the
  address the handler leaves, when the handler accepts it.\<close>

definition branches :: "Op \<Rightarrow> u32 \<Rightarrow> RV32Translator \<Rightarrow> bool" where
  "branches op i t \<longleftrightarrow>
     (\<exists>k cs ss t'. V op i t = Inr t' \<and> k \<le> 1 \<and> closes t k cs ss t' \<and>
        (\<forall>st s st'. x0_zero st \<and> sim st s \<and> gip st = insn_ip t \<and> H op i st = Next st' \<longrightarrow>
           (\<exists>s'. leads (tview t') (ip2bb t) ss (exec_list state_info cs s) (gip st') s' \<and> sim st' s')))"

lemma branchesI:
  assumes "V op i t = Inr t'" and "closes t k cs ss t'" and "k \<le> 1"
    and "\<And>st s st'. x0_zero st \<Longrightarrow> sim st s \<Longrightarrow> gip st = insn_ip t \<Longrightarrow> H op i st = Next st' \<Longrightarrow>
      \<exists>s'. leads (tview t') (ip2bb t) ss (exec_list state_info cs s) (gip st') s' \<and> sim st' s'"
  shows "branches op i t"
  unfolding branches_def using assms(1-3)
  by (intro exI [of _ k] exI [of _ cs] exI [of _ ss] exI [of _ t'] conjI) (auto intro: assms(4))

text \<open>The link register.\<close>

definition link_code :: "u8 \<Rightarrow> u32 \<Rightarrow> instc list" where
  "link_code rd x = (if rd \<noteq> 0 then [InstUnop q_mov (vop rd I32) (vconst x I32)] else [])"

lemma link_emits:
  assumes "t_ok t"
  shows "\<exists>t1. (if rd \<noteq> 0 then rbind (vgpr rd I32) (\<lambda>d.
        rbind (emit (InstUnop q_mov d (vconst x I32)) t) (\<lambda>t. Inr (record_ev (f t) t)))
      else Inr (record_ev e t)) = Inr t1 \<and> emits t 0 (link_code rd x) t1"
proof (cases "rd = 0")
  case True
  then show ?thesis using assms by (simp add: link_code_def emits_record)
next
  case False
  have "\<exists>t1. rbind (emit (InstUnop q_mov (vop rd I32) (vconst x I32)) t) (\<lambda>t. Inr (record_ev (f t) t)) = Inr t1 \<and>
      emits t 0 [InstUnop q_mov (vop rd I32) (vconst x I32)] t1"
    by (rule emit_then [OF assms]) (auto intro: emits_record emits_fields)
  with False show ?thesis by (simp add: link_code_def)
qed

lemma link_exec:
  assumes "unat rd < 32" and "gpr (qcpu s) 0 = 0"
  shows "exec_list state_info (map folded (link_code rd x)) s =
    QNext (s\<lparr>qcpu := (qcpu s)\<lparr>gpr := (gpr (qcpu s))(rd := if rd = 0 then 0 else x)\<rparr>\<rparr>)"
  using assms by (auto simp: link_code_def qsem_simps fun_upd_idem)

lemma branches_jal:
  assumes "t_ok t" shows "branches Op_jal i t"
proof -
  let ?rd = "insn_rd i" and ?a = "insn_ip t"
  obtain t1 where t1: "(if ?rd \<noteq> 0 then rbind (vgpr ?rd I32) (\<lambda>d.
        rbind (emit (InstUnop q_mov d (vconst (?a + 4) I32)) t) (\<lambda>t. Inr (record_ev
          (RecordGBrLink (bb_ip t) (insn_ip t + J_imm i) (insn_ip t + 4)) t)))
      else Inr (record_ev (RecordGBr (bb_ip t) (?a + J_imm i)) t)) = Inr t1"
    "emits t 0 (link_code ?rd (?a + 4)) t1"
    using link_emits [OF assms, of ?rd "?a + 4"
        "\<lambda>t. RecordGBrLink (bb_ip t) (insn_ip t + J_imm i) (insn_ip t + 4)"] by blast
  note f1 = emits_fields [OF t1(2)]
  obtain cs ss t' where g: "MakeGBr (?a + J_imm i) t1 = Inr t'" "closes t1 0 cs ss t'"
      "\<And>s. leads (tview t') (ip2bb t1) ss (exec_list state_info cs s) (?a + J_imm i) s"
    using MakeGBr_ok [OF f1(7), of "?a + J_imm i"] by blast
  have V: "V Op_jal i t = Inr t'" using t1(1) g(1) f1 by (simp add: V_jal_def)
  have c: "closes t 0 (map folded (link_code ?rd (?a + 4)) @ cs) ss t'"
    using emits_closes [OF t1(2) g(2) assms] by simp
  show ?thesis
  proof (rule branchesI [OF V c], simp)
    fix st s st' assume st: "x0_zero st" "sim st s" "gip st = ?a" "H Op_jal i st = Next st'"
    let ?s' = "s\<lparr>qcpu := (qcpu s)\<lparr>gpr := (gpr (qcpu s))(?rd := if ?rd = 0 then 0 else ?a + 4)\<rparr>\<rparr>"
    have "gpr (qcpu s) 0 = 0" using st by (simp add: sim_def x0_zero_def)
    then have "leads (tview t') (ip2bb t) ss
        (exec_list state_info (map folded (link_code ?rd (?a + 4)) @ cs) s) (?a + J_imm i) ?s'"
      using g(3) [of ?s'] f1 by (simp add: link_exec)
    moreover have "gip st' = ?a + J_imm i \<and> sim st' ?s'"
      using st by (auto simp: H_def flag_sets Impl_jal_def RAISE_TRAP_def sim_def reg_defs x0_zero_def
          split: if_splits)
    ultimately show "\<exists>s'. leads (tview t') (ip2bb t) ss
        (exec_list state_info (map folded (link_code ?rd (?a + 4)) @ cs) s) (gip st') s' \<and> sim st' s'"
      by auto
  qed
qed

lemma exec_folded:
  assumes "foldable cs"
  shows "exec_list state_info (map folded cs) s = exec_list state_info cs s"
  using assms
proof (induction cs arbitrary: s)
  case (Cons c cs)
  then have "exec_inst state_info (folded c) s = exec_inst state_info c s"
    by (intro folder_exec) (auto simp: foldable_def)
  moreover have "foldable cs" using Cons.prems by (simp add: foldable_def)
  ultimately show ?case using Cons.IH by (simp split: qres.split)
qed simp

lemma branches_jalr:
  assumes "t_ok t" and "nloc t + 33 \<le> 2 ^ 16" shows "branches Op_jalr i t"
proof -
  let ?rd = "insn_rd i" and ?a = "insn_ip t"
  obtain r t1 where v: "vtemp I32 t = (MakeVGPR I32 r, t1)" and r: "32 \<le> unat r" and e1: "emits t 1 [] t1"
    using vtemp_emits [OF assms] by blast
  let ?t = "MakeVGPR I32 r"
  let ?c1 = "InstBinop q_add ?t (vop (insn_rs1 i) I32) (vconst (I_immx i) I32)"
  let ?c2 = "InstBinop q_and ?t ?t (vconst (NOT 1) I32)"
  let ?cs = "[?c1, ?c2] @ link_code ?rd (?a + 4) @ [InstGBrind ?t]"
  obtain t2 where t2: "emit ?c1 t1 = Inr t2" "emits t1 0 [?c1] t2"
    using emit_emits [OF emits_fields(7) [OF e1], of ?c1] by auto
  obtain t3 where t3: "emit ?c2 t2 = Inr t3" "emits t2 0 [?c2] t3"
    using emit_emits [OF emits_fields(7) [OF t2(2)], of ?c2] by auto
  have ip3: "insn_ip t3 = ?a" using emits_fields(5) [OF e1] emits_fields(5) [OF t2(2)] emits_fields(5) [OF t3(2)] by simp
  obtain t4 where t4: "(if ?rd \<noteq> 0 then rbind (vgpr ?rd I32) (\<lambda>d.
        rbind (emit (InstUnop q_mov d (vconst (insn_ip t3 + 4) I32)) t3) (\<lambda>t. Inr (record_ev
          (RecordGBrind (bb_ip t) (insn_ip t + 4)) t)))
      else Inr (record_ev (RecordGBrind (bb_ip t3) 0) t3)) = Inr t4"
    "emits t3 0 (link_code ?rd (insn_ip t3 + 4)) t4"
    using link_emits [OF emits_fields(7) [OF t3(2)], of ?rd "insn_ip t3 + 4"
        "\<lambda>t. RecordGBrind (bb_ip t) (insn_ip t + 4)"] by blast
  obtain t5 where t5: "emit (InstGBrind ?t) t4 = Inr t5" "emits t4 0 [InstGBrind ?t] t5"
    using emit_emits [OF emits_fields(7) [OF t4(2)], of "InstGBrind ?t"] by auto
  have V: "V Op_jalr i t = Inr t5" using v t2 t3 t4 t5 by (simp add: V_jalr_def)
  have "emits t 1 ?cs t5"
    using emits_trans [OF emits_trans [OF emits_trans [OF emits_trans [OF e1 t2(2)] t3(2)] t4(2)] t5(2)] assms(1)
    unfolding ip3 by simp
  note c = emits_end [OF this assms(1)]
  have fold: "foldable ?cs" by (simp add: link_code_def)
  show ?thesis
  proof (rule branchesI [OF V c], simp)
    fix st s st' assume st: "x0_zero st" "sim st s" "gip st = ?a" "H Op_jalr i st = Next st'"
    define tgt where "tgt = (get_gpr st (insn_rs1 i) + I_immx i) AND NOT 1"
    let ?s' = "s\<lparr>qloc := (qloc s)(r := tgt), qcpu := (qcpu s)\<lparr>gpr := (gpr (qcpu s))(?rd := if ?rd = 0 then 0 else ?a + 4)\<rparr>\<rparr>"
    have z: "gpr (qcpu s) 0 = 0" using st by (simp add: sim_def x0_zero_def)
    have "exec_list state_info ?cs s = QExit tgt ?s'"
      using r st(1,2) z
      by (auto simp: qsem_simps read_vop [OF st(2,1)] tgt_def link_code_def fun_upd_idem)
    then have "leads (tview t5) (ip2bb t) [] (exec_list state_info (map folded ?cs) s) tgt ?s'"
      unfolding exec_folded [OF fold] leads_def by (rule disjI1)
    moreover have "gip st' = tgt \<and> sim st' ?s'"
      using st by (auto simp: H_def flag_sets Impl_jalr_def RAISE_TRAP_def sim_def reg_defs x0_zero_def
          tgt_def Let_def split: if_splits)
    ultimately show "\<exists>s'. leads (tview t5) (ip2bb t) []
        (exec_list state_info (map folded ?cs) s) (gip st') s' \<and> sim st' s'" by auto
  qed
qed

lemma block_for_mono:
  assumes "block_for v m pc b" and "length v \<le> length v'"
    and "\<And>b. b < length v \<Longrightarrow> b \<notin> ran m \<Longrightarrow> v' ! b = v ! b"
  shows "block_for v' m pc b"
  using assms by (auto simp: block_for_def)

lemma TranslateBrcc_ok:
  assumes "t_ok t" and "cur t \<in> ran (ip2bb t)"
  shows "\<exists>bt bf t'. TranslateBrcc cc i t = Inr t' \<and>
    closes t 0 [InstBrcc cc (vop (insn_rs1 i) I32) (vop (insn_rs2 i) I32)] [bt, bf] t' \<and>
    block_for (tview t') (ip2bb t) (insn_ip t + B_imm i) bt \<and> block_for (tview t') (ip2bb t) (insn_ip t + 4) bf"
proof -
  let ?c = "InstBrcc cc (vop (insn_rs1 i) I32) (vop (insn_rs2 i) I32)" and ?m = "ip2bb t"
  obtain bf t1 ext1 where 1: "make_target (insn_ip t + 4) t = Inr (bf, t1)" "t_ok t1" "tview t1 = tview t @ ext1"
      "block_for (tview t1) ?m (insn_ip t + 4) bf" "ip2bb t1 = ?m" "control t1 = control t"
      "t_vmem t1 = t_vmem t" "insn_ip t1 = insn_ip t" "bb_ip t1 = bb_ip t" "nloc t1 = nloc t"
    using make_target_ok [OF assms(1), of "insn_ip t + 4"] by blast
  obtain bt t2 ext2 where 2: "make_target (insn_ip t1 + B_imm i) t1 = Inr (bt, t2)" "t_ok t2" "tview t2 = tview t1 @ ext2"
      "block_for (tview t2) ?m (insn_ip t + B_imm i) bt" "ip2bb t2 = ?m" "control t2 = control t"
      "t_vmem t2 = t_vmem t" "insn_ip t2 = insn_ip t" "bb_ip t2 = bb_ip t" "nloc t2 = nloc t"
    using make_target_ok [OF 1(2), of "insn_ip t1 + B_imm i"] 1(5-10) by auto
  have l: "cur t < length (tview t)" using assms(1) by (simp add: t_ok_def)
  define t3 where "t3 = t2\<lparr>t_qb := NewBuilder (cur t)\<rparr>"
  have len2: "length (blist (t_region t2)) = length (tview t @ ext1 @ ext2)"
    using arg_cong [OF 2(3), of length] arg_cong [OF 1(3), of length] by simp
  then have ok3: "t_ok t3" using 2(2) l by (simp add: t_ok_def t3_def NewBuilder_def)
  obtain t4 where t4: "emit ?c t3 = Inr t4" "emits t3 0 [?c] t4" using emit_emits [OF ok3, of ?c] by auto
  note f4 = emits_fields [OF t4(2)]
  have c4: "cur t4 = cur t" using f4(1) by (simp add: t3_def NewBuilder_def)
  have v4: "tview t4 = view_append (cur t) [?c] (tview t @ ext1 @ ext2)"
    using t4(2) 1(3) 2(3) by (simp add: emits_def t3_def NewBuilder_def)
  have bl: "bt < length (tview t4)" "bf < length (tview t4)"
    using 1(3,4) 2(3,4) v4 by (simp_all add: block_for_def)
  note s5 = add_succ_ok [OF f4(7) bl(1)]
  have bf5: "bf < length (tview (add_succ bt t4))" using bl(2) s5(2) by (simp add: view_succ_def)
  note s6 = add_succ_ok [OF s5(1) bf5]
  let ?t = "add_succ bf (add_succ bt t4)"
  have v6: "tview ?t = (tview t)[cur t := (fst (tview t ! cur t) @ [?c], snd (tview t ! cur t) @ [bt, bf])] @ ext1 @ ext2"
    using l by (simp add: s6(2) s5(2,4) c4 v4 view_succ_def view_append_def list_update_append nth_append)
  have "TranslateBrcc cc i t = Inr ?t"
    using 1(1) 2(1) t4(1) by (simp add: TranslateBrcc_def t3_def)
  moreover have "closes t 0 [?c] [bt, bf] ?t"
    using v6 s6(1,3) s5(3) f4 t4(2) 2 by (simp add: closes_def t3_def emits_def)
  moreover have "tview ?t ! b = (tview t @ ext1 @ ext2) ! b" if "b \<notin> ran ?m" for b
    using that assms(2) l by (auto simp: v6 nth_append nth_list_update)
  then have "block_for (tview ?t) ?m (insn_ip t + 4) bf" "block_for (tview ?t) ?m (insn_ip t + B_imm i) bt"
    using 1(3,4) 2(3,4) v6 by (auto elim!: block_for_mono simp: nth_append)
  ultimately show ?thesis by blast
qed

lemma branches_bcc:
  assumes "t_ok t" and "cur t \<in> ran (ip2bb t)" and "V op = TranslateBrcc cc"
    and "op \<in> {Op_beq, Op_bne, Op_blt, Op_bge, Op_bltu, Op_bgeu}"
    and "Impl op = HANDLER_BCC f" and "\<And>x y. f x y = eval_cc cc x y"
  shows "branches op i t"
proof -
  have flags: "has_flag op Flags_Branch" "\<not> has_flag op Flags_Trap" "\<not> has_flag op Flags_MayTrap"
      "\<not> has_flag op Flags_HasRd"
    using assms(4) by (elim insertE emptyE; simp add: flag_sets)+
  have H: "H op i st = (case HANDLER_BCC f i st of Next st' \<Rightarrow> Next (set_ip (gip st') st') | r \<Rightarrow> r)" for st
    by (simp add: H_def flags assms(5) split: hres.split)
  obtain bt bf t' where t': "TranslateBrcc cc i t = Inr t'"
      "closes t 0 [InstBrcc cc (vop (insn_rs1 i) I32) (vop (insn_rs2 i) I32)] [bt, bf] t'"
      "block_for (tview t') (ip2bb t) (insn_ip t + B_imm i) bt" "block_for (tview t') (ip2bb t) (insn_ip t + 4) bf"
    using TranslateBrcc_ok [OF assms(1,2)] by blast
  have V: "V op i t = Inr t'" using t'(1) assms(3) by simp
  show ?thesis
  proof (rule branchesI [OF V t'(2)], simp)
    fix st s st' assume st: "x0_zero st" "sim st s" "gip st = insn_ip t" "H op i st = Next st'"
    define c where "c = eval_cc cc (get_gpr st (insn_rs1 i)) (get_gpr st (insn_rs2 i))"
    have "exec_list state_info [InstBrcc cc (vop (insn_rs1 i) I32) (vop (insn_rs2 i) I32)] s = QBrcc c s"
      by (simp add: read_vop [OF st(2,1)] c_def)
    moreover have "gip st' = (if c then insn_ip t + B_imm i else insn_ip t + 4) \<and> sim st' s"
      using st(2-4) unfolding H
      by (auto simp: HANDLER_BCC_def RAISE_TRAP_def Let_def c_def sim_def set_ip_def assms(6)
          split: if_splits)
    ultimately show "\<exists>s'. leads (tview t') (ip2bb t) [bt, bf]
        (exec_list state_info [InstBrcc cc (vop (insn_rs1 i) I32) (vop (insn_rs2 i) I32)] s) (gip st') s' \<and> sim st' s'"
      using t'(3,4) by (intro exI [of _ s]) (simp add: leads_def)
  qed
qed

lemma branch_translated:
  assumes "t_ok t" and "cur t \<in> ran (ip2bb t)" and "nloc t + 33 \<le> 2 ^ 16" and "has_flag op Flags_Branch"
  shows "branches op i t"
proof -
  have "op \<in> {Op_jal, Op_jalr, Op_beq, Op_bne, Op_blt, Op_bge, Op_bltu, Op_bgeu}"
    using assms(4) by (simp add: has_Branch)
  moreover have "branches Op_beq i t" "branches Op_bne i t" "branches Op_blt i t" "branches Op_bge i t"
      "branches Op_bltu i t" "branches Op_bgeu i t"
    by (rule branches_bcc [OF assms(1,2)], rule V.simps, simp, rule Impl.simps, simp)+
  ultimately show ?thesis using branches_jal [OF assms(1)] branches_jalr [OF assms(1,3)] by auto
qed

section \<open>One instruction\<close>

text \<open>What translating a straight-line instruction leaves, apart from the code.\<close>

definition advanced :: "Op \<Rightarrow> RV32Translator \<Rightarrow> RV32Translator \<Rightarrow> bool" where
  "advanced op t t' \<longleftrightarrow> t_ok t' \<and> t_qb t' = t_qb t \<and> ip2bb t' = ip2bb t \<and> t_vmem t' = t_vmem t \<and>
     bb_ip t' = bb_ip t \<and> insn_ip t' = insn_ip t + 4 \<and> nloc t' \<le> nloc t + 1 \<and>
     control t' = (if has_flag op Flags_Trap then C_BRANCH else control t)"

lemma spill_exec:
  "exec_inst state_info (ip_spill a) s = QNext (s\<lparr>qcpu := (qcpu s)\<lparr>ip := a\<rparr>\<rparr>)" "folded (ip_spill a) = ip_spill a"
  by (simp_all add: ip_spill_def qsem_simps)

lemma straight_insn:
  assumes "t_ok t" and "nloc t + 33 \<le> 2 ^ 16" and "\<not> discarded_load op i" and "\<not> has_flag op Flags_Branch"
  shows "\<exists>cs t'. H_translate op i t = Inr t' \<and> advanced op t t' \<and>
    tview t' = view_append (cur t) cs (tview t) \<and>
    (\<forall>st s. x0_zero st \<and> sim st s \<and> gip st = insn_ip t \<longrightarrow>
       (case H op i st of
          Next st' \<Rightarrow> gip st' = insn_ip t + 4 \<and> (\<exists>s'. exec_list state_info cs s = QNext s' \<and> sim st' s')
        | Raised st' \<Rightarrow> \<exists>s'. exec_list state_info cs s = QRaise s' \<and> same_cpu st' s'
        | Fail e \<Rightarrow> False))"
proof -
  let ?T = "has_flag op Flags_Trap \<or> has_flag op Flags_MayTrap" and ?a = "insn_ip t"
  let ?pre = "if ?T then [ip_spill ?a] else []"
  have "\<exists>t1. (if ?T then PreSideeff t else Inr t) = Inr t1 \<and> emits t 0 ?pre t1"
    using PreSideeff_emits [OF assms(1)] emits_refl [OF assms(1)] by simp
  then obtain t1 where t1: "(if ?T then PreSideeff t else Inr t) = Inr t1" "emits t 0 ?pre t1" by blast
  note f1 = emits_fields [OF t1(2)]
  have "nloc t1 = nloc t" using t1(2) by (simp add: emits_def)
  then obtain k cs t2 where t2: "V op i t1 = Inr t2" "k \<le> 1" "emits t1 k cs t2" "foldable cs"
      "implements op i (insn_ip t1) cs"
    using straight_translated [OF f1(7) _ assms(3,4)] assms(2) by (auto simp: translated_def)
  let ?t' = "(if has_flag op Flags_Trap then t2\<lparr>control := C_BRANCH\<rparr> else t2)\<lparr>insn_ip := insn_ip t2 + 4\<rparr>"
  have H: "H_translate op i t = Inr ?t'" using t1 t2 assms(4) by (simp add: H_translate_def Let_def)
  have e: "emits t k (?pre @ cs) t2" using emits_trans [OF t1(2) t2(3) assms(1)] by simp
  then have "advanced op t ?t'" "tview ?t' = view_append (cur t) (map folded (?pre @ cs)) (tview t)"
    using emits_fields [OF e] t2(2) by (auto simp: advanced_def emits_def t_ok_def)
  moreover have "case H op i st of
          Next st' \<Rightarrow> gip st' = ?a + 4 \<and> (\<exists>s'. exec_list state_info (map folded (?pre @ cs)) s = QNext s' \<and> sim st' s')
        | Raised st' \<Rightarrow> \<exists>s'. exec_list state_info (map folded (?pre @ cs)) s = QRaise s' \<and> same_cpu st' s'
        | Fail e \<Rightarrow> False" if st: "x0_zero st" "sim st s" "gip st = ?a" for st s
  proof -
    define s1 where "s1 = (if ?T then s\<lparr>qcpu := (qcpu s)\<lparr>ip := ?a\<rparr>\<rparr> else s)"
    have x: "exec_list state_info (map folded (?pre @ cs)) s = exec_list state_info cs s1"
      using exec_folded [OF t2(4)] by (simp add: s1_def spill_exec)
    have "sim st s1" "?T \<longrightarrow> ip (qcpu s1) = ?a" using st(2) by (auto simp: s1_def sim_def)
    moreover have "implements op i ?a cs" using t2(5) f1(5) by simp
    ultimately show ?thesis unfolding x using st unfolding implements_def by blast
  qed
  ultimately show ?thesis using H by blast
qed

lemma branch_insn:
  assumes "t_ok t" and "cur t \<in> ran (ip2bb t)" and "nloc t + 33 \<le> 2 ^ 16" and "has_flag op Flags_Branch"
  shows "\<exists>k cs ss t1 t'. H_translate op i t = Inr t' \<and> k \<le> 1 \<and> closes t k cs ss t1 \<and>
    t' = t1\<lparr>control := C_BRANCH, insn_ip := insn_ip t + 4\<rparr> \<and>
    (\<forall>st s st'. x0_zero st \<and> sim st s \<and> gip st = insn_ip t \<and> H op i st = Next st' \<longrightarrow>
       (\<exists>s'. leads (tview t') (ip2bb t) ss (exec_list state_info cs s) (gip st') s' \<and> sim st' s'))"
proof -
  have flags: "\<not> has_flag op Flags_Trap" "\<not> has_flag op Flags_MayTrap"
    using assms(4) unfolding has_Branch by (elim insertE emptyE; simp add: flag_sets)+
  obtain k cs ss t1 where b: "V op i t = Inr t1" "k \<le> 1" "closes t k cs ss t1"
      "\<forall>st s st'. x0_zero st \<and> sim st s \<and> gip st = insn_ip t \<and> H op i st = Next st' \<longrightarrow>
           (\<exists>s'. leads (tview t1) (ip2bb t) ss (exec_list state_info cs s) (gip st') s' \<and> sim st' s')"
    using branch_translated [OF assms, of i] unfolding branches_def by blast
  let ?t' = "t1\<lparr>control := C_BRANCH, insn_ip := insn_ip t + 4\<rparr>"
  have "H_translate op i t = Inr ?t'" using b(1,3) flags assms(4) by (simp add: H_translate_def closes_def)
  with b show ?thesis by (intro exI [of _ k] exI [of _ cs] exI [of _ ss] exI [of _ t1] exI [of _ ?t']) simp
qed

text \<open>C11. The translation of every instruction that is not a branch succeeds and is correct: the code it
  appends, run in any state related to the interpreter's, does what the interpreter's handler does
  (the same registers and memory when the handler returns, and the very CPU state, stored program
  counter included, when it raises a trap), unless the instruction is a load with a discarded result
  and offset zero. There must be room for 33 more locals in the 16-bit register number.\<close>

theorem straight_insn_correct:
  assumes "t_ok t" and "nloc t + 33 \<le> 2 ^ 16" and "\<not> discarded_load op i" and "\<not> has_flag op Flags_Branch"
  shows "\<exists>cs t'. H_translate op i t = Inr t' \<and> advanced op t t' \<and>
    tview t' = view_append (cur t) cs (tview t) \<and>
    (\<forall>st s. x0_zero st \<and> sim st s \<and> gip st = insn_ip t \<longrightarrow>
       (case H op i st of
          Next st' \<Rightarrow> gip st' = insn_ip t + 4 \<and> (\<exists>s'. exec_list state_info cs s = QNext s' \<and> sim st' s')
        | Raised st' \<Rightarrow> \<exists>s'. exec_list state_info cs s = QRaise s' \<and> same_cpu st' s'
        | Fail e \<Rightarrow> False))"
  using assms by (rule straight_insn)

definition empty_block_tr :: RV32Translator where
  "empty_block_tr = create_blocks [(0, 64)] (NewTranslator (NewRegion state_info) (\<lambda>_. 0))"

lemma empty_block_tr_ok: "t_ok empty_block_tr" "nloc empty_block_tr = 0" "insn_ip empty_block_tr = 0"
  by (simp_all add: empty_block_tr_def t_ok_def NewTranslator_def NewRegion_def CreateBlock_def
      NewBuilder_def region_wf_def map_insert_def)

theorem straight_insn_correct_witness:
  "\<exists>cs t'. H_translate Op_ecall 0x73 empty_block_tr = Inr t' \<and>
    (\<exists>s'. exec_list state_info cs \<lparr>qcpu = boot_cpu, qmem = \<lambda>_. 0, qloc = \<lambda>_. 0\<rparr> = QRaise s' \<and>
       trapno (qcpu s') = ECALL)"
proof -
  let ?s = "\<lparr>qcpu = boot_cpu, qmem = \<lambda>_. 0, qloc = \<lambda>_. 0\<rparr>"
  let ?st = "\<lparr>cpu = boot_cpu, gip = 0, mem = \<lambda>_. 0\<rparr>"
  obtain cs t' where "H_translate Op_ecall 0x73 empty_block_tr = Inr t'"
    and "\<forall>st s. x0_zero st \<and> sim st s \<and> gip st = insn_ip empty_block_tr \<longrightarrow>
       (case H Op_ecall 0x73 st of
          Next st' \<Rightarrow> gip st' = insn_ip empty_block_tr + 4 \<and> (\<exists>s'. exec_list state_info cs s = QNext s' \<and> sim st' s')
        | Raised st' \<Rightarrow> \<exists>s'. exec_list state_info cs s = QRaise s' \<and> same_cpu st' s'
        | Fail e \<Rightarrow> False)"
    using straight_insn_correct [OF empty_block_tr_ok(1), of Op_ecall "0x73"]
    by (auto simp: empty_block_tr_ok discarded_load_def has_Branch)
  moreover have "x0_zero ?st" "sim ?st ?s" by (simp_all add: x0_zero_def sim_def boot_cpu_def)
  moreover have "H Op_ecall 0x73 ?st = Raised (?st\<lparr>cpu := boot_cpu\<lparr>ip := 0, trapno := ECALL\<rparr>\<rparr>)"
    by (simp add: H_def Impl_ecall_def RAISE_TRAP_def set_ip_def flag_sets)
  ultimately show ?thesis using empty_block_tr_ok(3) by (fastforce simp: same_cpu_def)
qed

text \<open>The excluded case is a defect: a load with a discarded result and offset zero is translated
  to a load into its base register, so that translated code changes a register the guest
  instruction leaves alone.\<close>

lemma discarded_load_clobbers_base:
  assumes "t_ok t" and "insn_rd i = 0" and "I_immx i = 0" and "insn_rs1 i \<noteq> 0" and "sim st s" and "x0_zero st"
  shows "\<exists>t'. TranslateLoad I32 VS i t = Inr t' \<and>
    tview t' = view_append (cur t) [InstVMLoad I32 VS (vop (insn_rs1 i) I32) (vop (insn_rs1 i) I32)] (tview t) \<and>
    (\<exists>s'. exec_inst state_info (InstVMLoad I32 VS (vop (insn_rs1 i) I32) (vop (insn_rs1 i) I32)) s = QNext s' \<and>
       gpr (qcpu s') (insn_rs1 i) = unaligned_load (mem st) (ucast (gpr (cpu st) (insn_rs1 i)))) \<and>
    (\<exists>st'. H Op_lw i st = Next st' \<and> gpr (cpu st') = gpr (cpu st))"
proof -
  let ?c = "InstVMLoad I32 VS (vop (insn_rs1 i) I32) (vop (insn_rs1 i) I32)"
  obtain t' where t': "emit ?c t = Inr t'" "emits t 0 [?c] t'" using emit_emits [OF assms(1), of ?c] by auto
  have "TranslateLoad I32 VS i t = Inr t'" using assms(2,3) t'(1) by (simp add: TranslateLoad_def vaddr_op_def)
  moreover have "tview t' = view_append (cur t) [?c] (tview t)" using t'(2) by (simp add: emits_def)
  moreover have "\<exists>s'. exec_inst state_info ?c s = QNext s' \<and>
      gpr (qcpu s') (insn_rs1 i) = unaligned_load (mem st) (ucast (gpr (cpu st) (insn_rs1 i)))"
    using assms(4) by (simp add: read_vop [OF assms(5,6)] write_vop get_gpr_def) (use assms(5) in \<open>simp add: sim_def\<close>)
  moreover have "\<exists>st'. H Op_lw i st = Next st' \<and> gpr (cpu st') = gpr (cpu st)"
    using assms(2,6) by (simp add: H_def flag_sets HANDLER_Load_def reg_defs x0_zero_def fun_upd_idem)
  ultimately show ?thesis by blast
qed

text \<open>\<open>lw x0, 0(x1)\<close>.\<close>

lemma discarded_load_clobbers_base_witness:
  "\<exists>t'. TranslateLoad I32 VS 0x0000a003 empty_block_tr = Inr t' \<and>
    (\<exists>s'. exec_inst state_info (InstVMLoad I32 VS (vop 1 I32) (vop 1 I32))
        \<lparr>qcpu = boot_cpu, qmem = \<lambda>_. 1, qloc = \<lambda>_. 0\<rparr> = QNext s' \<and> gpr (qcpu s') 1 = 0x01010101)"
proof -
  let ?s = "\<lparr>qcpu = boot_cpu, qmem = \<lambda>_. 1, qloc = \<lambda>_. 0\<rparr>" and ?st = "\<lparr>cpu = boot_cpu, gip = 0, mem = \<lambda>_. 1\<rparr>"
  have f: "insn_rd 0x0000a003 = 0" "I_immx 0x0000a003 = 0" "insn_rs1 0x0000a003 = 1" by code_simp+
  have s: "sim ?st ?s" "x0_zero ?st" by (simp_all add: sim_def x0_zero_def boot_cpu_def)
  have m: "unaligned_load (\<lambda>_. 1) a = (0x01010101 :: u32)" for a
    by (simp add: unaligned_load_def upt_conv_Cons)
  show ?thesis
    using discarded_load_clobbers_base [OF empty_block_tr_ok(1) f(1,2) _ s] f(3) m by auto
qed

end
