(* ===== verification/Region_Correct.thy ===== *)
theory Region_Correct
  imports RV32_QIR_Correct
begin

text \<open>
  From instructions to blocks and regions: the loop of \<open>TranslateIPRange\<close> and the region driver
  \<open>Translate\<close> of \<^verbatim>\<open>src/dbt/guest/rv32_qir.cpp\<close>. A translated block, run from a state related to
  the interpreter's, gives the result of one to \<open>TB_MAX_INSNS\<close> interpreter steps, and every
  assertion of the translator holds on the way.
\<close>

section \<open>Interpreter facts\<close>

lemma H_x0: "H op i st = Next st' \<Longrightarrow> x0_zero st \<Longrightarrow> x0_zero st'"
proof (erule H_Next)
  fix st1 st2
  assume x: "x0_zero st" and 1: "st1 = st \<or> st1 = set_ip (gip st) st" and 2: "Impl op i st1 = Next st2"
    and g: "gpr (cpu st') = (if has_flag op Flags_HasRd then (gpr (cpu st2))(0 := 0) else gpr (cpu st2))"
  have "gpr (cpu st1) = gpr (cpu st)" using 1 by (auto simp: set_ip_def)
  with x g Impl_Next_gpr [OF 2, of 0] show ?thesis by (auto simp: x0_zero_def)
qed

lemma H_branch_raises:
  assumes "has_flag op Flags_Branch" and "H op i st = Raised st'"
  shows "trapno (cpu st') = UNALIGNED_IP"
proof -
  have "Impl op i x = Raised y \<Longrightarrow> trapno (cpu y) = UNALIGNED_IP" for x y
    using assms(1) unfolding has_Branch
    by (elim insertE emptyE)
      (auto simp: Impl_jal_def Impl_jalr_def HANDLER_BCC_def RAISE_TRAP_def Let_def split: if_splits)
  then show ?thesis using assms(2) by (auto simp: H_def Let_def split: hres.splits if_splits)
qed

lemma H_trap_raises:
  assumes "has_flag op Flags_Trap" shows "H op i st \<noteq> Next st'"
  using assms unfolding has_Trap
  by (elim insertE emptyE)
    (auto simp: H_def Impl_ill_def Impl_ecall_def Impl_ebreak_def RAISE_TRAP_def Let_def)

section \<open>Straight-line runs\<close>

text \<open>Conditions on a run of at most \<open>n\<close> instructions from \<open>a\<close> on: the code bytes are those that were
  translated, and no branch raises the alignment trap, which translated code does not check.\<close>

definition path_ok :: "vmem \<Rightarrow> nat \<Rightarrow> u32 \<Rightarrow> hstate \<Rightarrow> bool" where
  "path_ok vm n a st \<longleftrightarrow>
     (\<forall>k<n. \<forall>stk. interp_steps k st = Some stk \<and> gip stk = a + 4 * of_nat k \<longrightarrow>
        fetch (mem stk) (gip stk) = fetch vm (gip stk) \<and>
        (\<forall>st'. interp_step stk = Raised st' \<longrightarrow> trapno (cpu st') \<noteq> UNALIGNED_IP))"

definition no_discarded :: "vmem \<Rightarrow> nat \<Rightarrow> u32 \<Rightarrow> bool" where
  "no_discarded vm n a \<longleftrightarrow>
     (\<forall>k<n. let i = fetch vm (a + 4 * of_nat k) in \<not> discarded_load (Decode i) i)"

lemma path_ok_0:
  assumes "path_ok vm (Suc n) a st" and "gip st = a"
  shows "fetch (mem st) a = fetch vm a"
    and "interp_step st = Raised st' \<Longrightarrow> trapno (cpu st') \<noteq> UNALIGNED_IP"
proof -
  have "interp_steps 0 st = Some st \<and> gip st = a + 4 * of_nat 0" using assms(2) by simp
  then have "fetch (mem st) (gip st) = fetch vm (gip st) \<and>
      (\<forall>st'. interp_step st = Raised st' \<longrightarrow> trapno (cpu st') \<noteq> UNALIGNED_IP)"
    using assms(1) zero_less_Suc unfolding path_ok_def by blast
  then show "fetch (mem st) a = fetch vm a"
    and "interp_step st = Raised st' \<Longrightarrow> trapno (cpu st') \<noteq> UNALIGNED_IP"
    using assms(2) by auto
qed

lemma path_ok_Suc:
  assumes "path_ok vm (Suc n) a st" and "interp_step st = Next st'"
  shows "path_ok vm n (a + 4) st'"
  unfolding path_ok_def
proof (intro allI impI)
  fix k stk assume k: "k < n" and s: "interp_steps k st' = Some stk \<and> gip stk = a + 4 + 4 * of_nat k"
  then have "interp_steps (Suc k) st = Some stk" "gip stk = a + 4 * of_nat (Suc k)"
    using assms(2) by (simp_all add: algebra_simps)
  then show "fetch (mem stk) (gip stk) = fetch vm (gip stk) \<and>
      (\<forall>st'. interp_step stk = Raised st' \<longrightarrow> trapno (cpu st') \<noteq> UNALIGNED_IP)"
    using assms(1) k unfolding path_ok_def by (meson Suc_less_eq)
qed

lemma no_discarded_0: "no_discarded vm (Suc n) a \<Longrightarrow> \<not> discarded_load (Decode (fetch vm a)) (fetch vm a)"
  by (auto simp: no_discarded_def Let_def dest!: spec [of _ 0])

lemma no_discarded_Suc: "no_discarded vm (Suc n) a \<Longrightarrow> no_discarded vm n (a + 4)"
  unfolding no_discarded_def
proof (intro allI impI)
  fix k assume a: "\<forall>k<Suc n. let i = fetch vm (a + 4 * of_nat k) in \<not> discarded_load (Decode i) i" and k: "k < n"
  have "a + 4 + 4 * of_nat k = a + 4 * of_nat (Suc k)" by (simp add: algebra_simps)
  then show "let i = fetch vm (a + 4 + 4 * of_nat k) in \<not> discarded_load (Decode i) i"
    using a [rule_format, of "Suc k"] k by (simp only: Suc_less_eq)
qed

section \<open>Blocks\<close>

text \<open>What running a block's code means for the guest: some steps lead to the address where control
  is next, or to the trap that was raised.\<close>

definition code_correct :: "rview \<Rightarrow> (u32 \<rightharpoonup> nat) \<Rightarrow> vmem \<Rightarrow> nat \<Rightarrow> u32 \<Rightarrow> instc list \<Rightarrow> nat list \<Rightarrow> bool" where
  "code_correct v m vm n a cs ss \<longleftrightarrow>
     (\<forall>st s. x0_zero st \<and> sim st s \<and> gip st = a \<and> path_ok vm n a st \<longrightarrow>
        (\<exists>k st' s'. 0 < k \<and> k \<le> n \<and> interp_steps k st = Some st' \<and>
           leads v m ss (exec_list state_info cs s) (gip st') s' \<and> sim st' s') \<or>
        (\<exists>k st1 st' s'. k < n \<and> interp_steps k st = Some st1 \<and> interp_step st1 = Raised st' \<and>
           exec_list state_info cs s = QRaise s' \<and> same_cpu st' s'))"

text \<open>What the translation of a range leaves behind.\<close>

definition finishes :: "RV32Translator \<Rightarrow> nat \<Rightarrow> instc list \<Rightarrow> nat list \<Rightarrow> RV32Translator \<Rightarrow> bool" where
  "finishes t k cs ss t' \<longleftrightarrow> t_ok t' \<and> ip2bb t' = ip2bb t \<and> t_vmem t' = t_vmem t \<and> nloc t' \<le> nloc t + k \<and>
     (\<exists>ext. tview t' = (tview t)[cur t := (fst (tview t ! cur t) @ cs, snd (tview t ! cur t) @ ss)] @ ext)"

lemma closes_finishes:
  "closes t k cs ss t1 \<Longrightarrow> finishes t k cs ss (t1\<lparr>control := c, insn_ip := a\<rparr>)"
  "closes t k cs ss t1 \<Longrightarrow> finishes t k cs ss t1"
  by (auto simp: closes_def finishes_def t_ok_def)

lemma finishes_trans:
  assumes "advanced op t t1" and "tview t1 = view_append (cur t) cs (tview t)"
    and "finishes t1 k cs' ss t2" and "t_ok t"
  shows "finishes t (Suc k) (cs @ cs') ss t2"
proof -
  have "cur t < length (tview t)" using assms(4) by (simp add: t_ok_def)
  then show ?thesis using assms(1-3) by (auto simp: finishes_def advanced_def view_append_def)
qed

lemma leads_exec_Next:
  "exec_list state_info cs s = QNext s1 \<Longrightarrow>
    exec_list state_info (cs @ cs') s = exec_list state_info cs' s1"
  by simp

text \<open>Correctness of the parts gives correctness of the whole.\<close>

lemma code_correct_branch:
  assumes "has_flag (Decode (fetch vm a)) Flags_Branch" and "0 < n"
    and "\<And>st s st'. x0_zero st \<Longrightarrow> sim st s \<Longrightarrow> gip st = a \<Longrightarrow> H (Decode (fetch vm a)) (fetch vm a) st = Next st' \<Longrightarrow>
      \<exists>s'. leads v m ss (exec_list state_info cs s) (gip st') s' \<and> sim st' s'"
  shows "code_correct v m vm n a cs ss"
  unfolding code_correct_def
proof (intro allI impI disjI1, elim conjE)
  fix st s assume st: "x0_zero st" "sim st s" "gip st = a" "path_ok vm n a st"
  obtain n' where n: "n = Suc n'" using assms(2) by (cases n) auto
  note p = path_ok_0 [OF st(4) [unfolded n] st(3)]
  have step: "interp_step st = H (Decode (fetch vm a)) (fetch vm a) st"
    using p(1) st(3) by (simp add: interp_step_def Let_def)
  have "interp_step st \<noteq> Raised x" for x using p(2) [of x] H_branch_raises [OF assms(1)] step by metis
  moreover have "interp_step st \<noteq> Fail e" for e using step H_not_Fail by metis
  ultimately obtain st' where st': "interp_step st = Next st'" by (cases "interp_step st") auto
  then obtain s' where "leads v m ss (exec_list state_info cs s) (gip st') s' \<and> sim st' s'"
    using assms(3) [OF st(1-3)] step by auto
  then show "\<exists>k st' s'. 0 < k \<and> k \<le> n \<and> interp_steps k st = Some st' \<and>
      leads v m ss (exec_list state_info cs s) (gip st') s' \<and> sim st' s'"
    using st' n by (intro exI [of _ 1]) auto
qed

text \<open>Code of one straight-line instruction followed by correct code.\<close>

definition insn_correct :: "Op \<Rightarrow> u32 \<Rightarrow> u32 \<Rightarrow> instc list \<Rightarrow> bool" where
  "insn_correct op i a cs \<longleftrightarrow>
     (\<forall>st s. x0_zero st \<and> sim st s \<and> gip st = a \<longrightarrow>
       (case H op i st of
          Next st' \<Rightarrow> gip st' = a + 4 \<and> (\<exists>s'. exec_list state_info cs s = QNext s' \<and> sim st' s')
        | Raised st' \<Rightarrow> \<exists>s'. exec_list state_info cs s = QRaise s' \<and> same_cpu st' s'
        | Fail e \<Rightarrow> False))"

lemma code_correct_straight:
  assumes i: "insn_correct (Decode (fetch vm a)) (fetch vm a) a cs"
    and rest: "has_flag (Decode (fetch vm a)) Flags_Trap \<or> code_correct v m vm n (a + 4) cs' ss \<or>
      (\<forall>s. leads v m ss (exec_list state_info cs' s) (a + 4) s)"
  shows "code_correct v m vm (Suc n) a (cs @ cs') ss"
  unfolding code_correct_def
proof (intro allI impI, elim conjE)
  fix st s assume st: "x0_zero st" "sim st s" "gip st = a" "path_ok vm (Suc n) a st"
  let ?A = "\<exists>k st' s'. 0 < k \<and> k \<le> Suc n \<and> interp_steps k st = Some st' \<and>
      leads v m ss (exec_list state_info (cs @ cs') s) (gip st') s' \<and> sim st' s'"
  let ?B = "\<exists>k st1 st' s'. k < Suc n \<and> interp_steps k st = Some st1 \<and> interp_step st1 = Raised st' \<and>
      exec_list state_info (cs @ cs') s = QRaise s' \<and> same_cpu st' s'"
  note p = path_ok_0 [OF st(4,3)]
  have step: "interp_step st = H (Decode (fetch vm a)) (fetch vm a) st"
    using p(1) st(3) by (simp add: interp_step_def Let_def)
  have c: "case interp_step st of
      Next st' \<Rightarrow> gip st' = a + 4 \<and> (\<exists>s'. exec_list state_info cs s = QNext s' \<and> sim st' s')
    | Raised st' \<Rightarrow> \<exists>s'. exec_list state_info cs s = QRaise s' \<and> same_cpu st' s' | Fail e \<Rightarrow> False"
    using i st(1-3) unfolding insn_correct_def step by blast
  show "?A \<or> ?B"
  proof (cases "interp_step st")
    case (Raised st')
    with c have ?B by (intro exI [of _ 0] exI [of _ st] exI [of _ st']) auto
    then show ?thesis ..
  next
    case (Next st1)
    with c obtain s1 where s1: "gip st1 = a + 4" "exec_list state_info cs s = QNext s1" "sim st1 s1" by auto
    have nt: "\<not> has_flag (Decode (fetch vm a)) Flags_Trap" using Next step H_trap_raises by auto
    have x: "exec_list state_info (cs @ cs') s = exec_list state_info cs' s1" using s1(2) by simp
    show ?thesis
    proof (cases "code_correct v m vm n (a + 4) cs' ss")
      case True
      have "x0_zero st1" using H_x0 Next step st(1) by auto
      with True s1(1,3) path_ok_Suc [OF st(4) Next]
      have "(\<exists>k st' s'. 0 < k \<and> k \<le> n \<and> interp_steps k st1 = Some st' \<and>
           leads v m ss (exec_list state_info cs' s1) (gip st') s' \<and> sim st' s') \<or>
        (\<exists>k st2 st' s'. k < n \<and> interp_steps k st1 = Some st2 \<and> interp_step st2 = Raised st' \<and>
           exec_list state_info cs' s1 = QRaise s' \<and> same_cpu st' s')"
        unfolding code_correct_def by blast
      then consider k st' s' where "0 < k" "k \<le> n" "interp_steps k st1 = Some st'"
          "leads v m ss (exec_list state_info cs' s1) (gip st') s'" "sim st' s'"
        | k st2 st' s' where "k < n" "interp_steps k st1 = Some st2" "interp_step st2 = Raised st'"
          "exec_list state_info cs' s1 = QRaise s'" "same_cpu st' s'"
        by blast
      then show ?thesis
      proof cases
        case 1
        then have ?A unfolding x using Next by (intro exI [of _ "Suc k"] exI [of _ st'] exI [of _ s']) simp
        then show ?thesis ..
      next
        case 2
        then have ?B unfolding x using Next
          by (intro exI [of _ "Suc k"] exI [of _ st2] exI [of _ st'] exI [of _ s']) simp
        then show ?thesis ..
      qed
    next
      case False
      then have "leads v m ss (exec_list state_info cs' s1) (gip st1) s1" using rest nt s1(1) by auto
      then have ?A unfolding x using Next s1(3) by (intro exI [of _ 1] exI [of _ st1] exI [of _ s1]) simp
      then show ?thesis ..
    qed
  qed (use c in auto)
qed

section \<open>The translation loop\<close>

lemma TranslateInsn_eq:
  "TranslateInsn t = H_translate (Decode (fetch (t_vmem t) (insn_ip t))) (fetch (t_vmem t) (insn_ip t)) t"
  by (simp add: TranslateInsn_def Let_def)

lemma translate_loop_correct:
  assumes "t_ok t" and "cur t \<in> ran (ip2bb t)" and "nloc t + 32 + left \<le> 2 ^ 16" and "0 < left"
    and "control t = C_NEXT" and "no_discarded (t_vmem t) left (insn_ip t)"
  shows "\<exists>cs ss t'. translate_loop left start bound t = Inr t' \<and> finishes t left cs ss t' \<and>
    code_correct (tview t') (ip2bb t) (t_vmem t) left (insn_ip t) cs ss"
  using assms
proof (induction left arbitrary: t)
  case (Suc left)
  define i where "i = fetch (t_vmem t) (insn_ip t)"
  have nl: "nloc t + 33 \<le> 2 ^ 16" using Suc.prems(3) by simp
  have nd: "\<not> discarded_load (Decode i) i" using no_discarded_0 [OF Suc.prems(6)] by (simp add: i_def)
  show ?case
  proof (cases "has_flag (Decode i) Flags_Branch")
    case True
    obtain k cs ss t1 t' where b: "H_translate (Decode i) i t = Inr t'" "k \<le> 1" "closes t k cs ss t1"
        "t' = t1\<lparr>control := C_BRANCH, insn_ip := insn_ip t + 4\<rparr>"
        "\<forall>st s st'. x0_zero st \<and> sim st s \<and> gip st = insn_ip t \<and> H (Decode i) i st = Next st' \<longrightarrow>
           (\<exists>s'. leads (tview t') (ip2bb t) ss (exec_list state_info cs s) (gip st') s' \<and> sim st' s')"
      using branch_insn [OF Suc.prems(1,2) nl True, of i] by blast
    have "translate_loop (Suc left) start bound t = Inr t'"
      using b(1,4) by (simp add: TranslateInsn_eq i_def)
    moreover have "finishes t (Suc left) cs ss t'"
      using closes_finishes(1) [OF b(3)] b(2,4) by (fastforce simp: finishes_def)
    moreover have "code_correct (tview t') (ip2bb t) (t_vmem t) (Suc left) (insn_ip t) cs ss"
      using True b(5) by (intro code_correct_branch) (auto simp: i_def)
    ultimately show ?thesis by blast
  next
    case False
    obtain cs t1 where s: "H_translate (Decode i) i t = Inr t1" "advanced (Decode i) t t1"
        "tview t1 = view_append (cur t) cs (tview t)" "insn_correct (Decode i) i (insn_ip t) cs"
      using straight_insn [OF Suc.prems(1) nl nd False] unfolding insn_correct_def by blast
    have f: "t_ok t1" "ip2bb t1 = ip2bb t" "t_vmem t1 = t_vmem t" "insn_ip t1 = insn_ip t + 4"
        "cur t1 = cur t" "nloc t1 \<le> nloc t + 1"
      using s(2) by (simp_all add: advanced_def)
    have T: "TranslateInsn t = Inr t1" using s(1) by (simp add: TranslateInsn_eq i_def)
    note glue = code_correct_straight [OF s(4) [unfolded i_def]]
    show ?thesis
    proof (cases "control t1 = C_NEXT")
      case stop: False
      then have trap: "has_flag (Decode i) Flags_Trap"
        using s(2) Suc.prems(5) by (auto simp: advanced_def split: if_splits)
      have "finishes t1 left [] [] t1"
        using f(1) by (auto simp: finishes_def intro!: exI [of _ "[]"])
      with finishes_trans [OF s(2,3) _ Suc.prems(1)] have "finishes t (Suc left) (cs @ []) [] t1" by blast
      then show ?thesis
        using stop T glue [of _ _ _ "[]" "[]"] trap
        by (intro exI [of _ "cs @ []"] exI [of _ "[]"] exI [of _ t1]) (simp add: i_def)
    next
      case True
      show ?thesis
      proof (cases "left = 0 \<or> bound \<le> insn_ip t1")
        case stop: True
        define t2 where "t2 = record_ev (RecordGBr (bb_ip t1) start) (t1\<lparr>control := C_TB_OVF\<rparr>)"
        have t2: "t_ok t2" "tview t2 = tview t1" "ip2bb t2 = ip2bb t" "cur t2 = cur t1" "t_vmem t2 = t_vmem t1"
            "nloc t2 = nloc t1"
          using f by (simp_all add: t2_def t_ok_def)
        obtain cs' ss t' where g: "MakeGBr (insn_ip t1) t2 = Inr t'" "closes t2 0 cs' ss t'"
            "\<forall>s. leads (tview t') (ip2bb t2) ss (exec_list state_info cs' s) (insn_ip t1) s"
          using MakeGBr_ok [OF t2(1), of "insn_ip t1"] by blast
        have "finishes t1 left cs' ss t'"
          using closes_finishes(2) [OF g(2)] t2 f by (simp add: finishes_def)
        with finishes_trans [OF s(2,3) _ Suc.prems(1)] have "finishes t (Suc left) (cs @ cs') ss t'" by blast
        moreover have "translate_loop (Suc left) start bound t = Inr t'"
          using T True stop g(1) by (simp add: t2_def)
        moreover have "code_correct (tview t') (ip2bb t) (t_vmem t) (Suc left) (insn_ip t) (cs @ cs') ss"
          using g(3) t2(3) f(4) by (intro glue) simp
        ultimately show ?thesis by blast
      next
        case go: False
        obtain cs' ss t' where r: "translate_loop left start bound t1 = Inr t'" "finishes t1 left cs' ss t'"
            "code_correct (tview t') (ip2bb t1) (t_vmem t1) left (insn_ip t1) cs' ss"
          using Suc.IH [OF f(1)] f Suc.prems(2,3) True go no_discarded_Suc [OF Suc.prems(6)] by auto
        have "finishes t (Suc left) (cs @ cs') ss t'"
          using finishes_trans [OF s(2,3) r(2) Suc.prems(1)] .
        moreover have "translate_loop (Suc left) start bound t = Inr t'"
          using T True go r(1) by simp
        moreover have "code_correct (tview t') (ip2bb t) (t_vmem t) (Suc left) (insn_ip t) (cs @ cs') ss"
          using r(3) f by (intro glue) simp
        ultimately show ?thesis by blast
      qed
    qed
  qed
qed simp

section \<open>Ranges\<close>

lemma code_correct_mono:
  assumes "code_correct v m vm n a cs ss" and "length v \<le> length v'"
    and "\<And>b. b < length v \<Longrightarrow> b \<notin> ran m \<Longrightarrow> v' ! b = v ! b"
  shows "code_correct v' m vm n a cs ss"
proof -
  have "leads v m ss r pc s \<Longrightarrow> leads v' m ss r pc s" for r pc s
    unfolding leads_def using block_for_mono [OF _ assms(2,3)] by blast
  then show ?thesis using assms(1) unfolding code_correct_def by blast
qed

lemma code_correct_prefix:
  assumes "code_correct v m vm n a cs ss"
    and "\<And>st s. sim st s \<Longrightarrow> \<exists>s'. exec_list state_info pre s = QNext s' \<and> sim st s'"
  shows "code_correct v m vm n a (pre @ cs) ss"
  unfolding code_correct_def
proof (intro allI impI, elim conjE)
  fix st s assume st: "x0_zero st" "sim st s" "gip st = a" "path_ok vm n a st"
  obtain s1 where s1: "exec_list state_info pre s = QNext s1" "sim st s1" using assms(2) [OF st(2)] by blast
  have x: "exec_list state_info (pre @ cs) s = exec_list state_info cs s1" using s1(1) by simp
  show "(\<exists>k st' s'. 0 < k \<and> k \<le> n \<and> interp_steps k st = Some st' \<and>
           leads v m ss (exec_list state_info (pre @ cs) s) (gip st') s' \<and> sim st' s') \<or>
        (\<exists>k st1 st' s'. k < n \<and> interp_steps k st = Some st1 \<and> interp_step st1 = Raised st' \<and>
           exec_list state_info (pre @ cs) s = QRaise s' \<and> same_cpu st' s')"
    unfolding x using assms(1) st s1(2) unfolding code_correct_def by blast
qed

definition trace_code :: "bool \<Rightarrow> u32 \<Rightarrow> instc list" where
  "trace_code dump_trace a = (if dump_trace then [ip_spill a, InstHcall id_trace (vconst 0 I32)] else [])"

lemma trace_exec: "sim st s \<Longrightarrow> \<exists>s'. exec_list state_info (map folded (trace_code d a)) s = QNext s' \<and> sim st s'"
  by (simp add: trace_code_def spill_exec) (simp add: sim_def)

lemma trace_emits:
  assumes "t_ok t"
  shows "\<exists>t'. (if d then rbind (PreSideeff t) (emit (InstHcall id_trace (vconst 0 I32))) else Inr t) = Inr t' \<and>
    emits t 0 (trace_code d (insn_ip t)) t'"
proof (cases d)
  case True
  obtain t1 where t1: "PreSideeff t = Inr t1" "emits t 0 [ip_spill (insn_ip t)] t1"
    using PreSideeff_emits [OF assms] by blast
  obtain t2 where "emit (InstHcall id_trace (vconst 0 I32)) t1 = Inr t2" "emits t1 0 [InstHcall id_trace (vconst 0 I32)] t2"
    using emit_emits [OF emits_fields(7) [OF t1(2)], of "InstHcall id_trace (vconst 0 I32)"] by auto
  with t1 True emits_trans [OF t1(2) _ assms, of 0 "[InstHcall id_trace (vconst 0 I32)]" t2] show ?thesis
    by (simp add: trace_code_def)
qed (use assms in \<open>simp add: trace_code_def emits_refl\<close>)

text \<open>What translating one range does to the region: it fills the block of the range with correct code
  and adds blocks at the end.\<close>

definition filled :: "RV32Translator \<Rightarrow> nat \<Rightarrow> u32 \<Rightarrow> RV32Translator \<Rightarrow> bool" where
  "filled t bb a t' \<longleftrightarrow> t_ok t' \<and> ip2bb t' = ip2bb t \<and> t_vmem t' = t_vmem t \<and> nloc t' \<le> nloc t + TB_MAX_INSNS \<and>
     (\<exists>cs ss ext. tview t' = (tview t)[bb := (cs, ss)] @ ext \<and>
        code_correct (tview t') (ip2bb t) (t_vmem t) TB_MAX_INSNS a cs ss)"

lemma TranslateIPRange_filled:
  assumes "t_ok t" and "ip2bb t a = Some bb" and "bound \<noteq> 0" and "nloc t + 32 + TB_MAX_INSNS \<le> 2 ^ 16"
    and "no_discarded (t_vmem t) TB_MAX_INSNS a" and "tview t ! bb = ([], [])"
  shows "\<exists>t'. TranslateIPRange d a bound t = Inr t' \<and> filled t bb a t'"
proof -
  define t0 where "t0 = (record_ev (RecordEntry a) (t\<lparr>bb_ip := a, insn_ip := a\<rparr>))\<lparr>t_qb := NewBuilder bb\<rparr>"
  have bb: "bb < length (blist (t_region t))" using assms(1,2) by (auto simp: t_ok_def)
  have t0: "t_ok t0" "tview t0 = tview t" "cur t0 = bb" "ip2bb t0 = ip2bb t" "t_vmem t0 = t_vmem t"
      "insn_ip t0 = a" "nloc t0 = nloc t"
    using assms(1) bb by (simp_all add: t0_def record_ev_def t_ok_def NewBuilder_def)
  obtain t1 where t1: "(if d then rbind (PreSideeff t0) (emit (InstHcall id_trace (vconst 0 I32))) else Inr t0) = Inr t1"
      "emits t0 0 (trace_code d a) t1"
    using trace_emits [OF t0(1), of d] t0(6) by auto
  note f1 = emits_fields [OF t1(2)]
  define t2 where "t2 = t1\<lparr>control := C_NEXT\<rparr>"
  have t2: "t_ok t2" "tview t2 = tview t1" "cur t2 = bb" "ip2bb t2 = ip2bb t" "t_vmem t2 = t_vmem t"
      "insn_ip t2 = a" "nloc t2 = nloc t" "control t2 = C_NEXT"
    using f1 t0 t1(2) by (simp_all add: t2_def t_ok_def emits_def)
  have "bb \<in> ran (ip2bb t)" using assms(2) by (auto simp: ran_def)
  then obtain cs ss t' where l: "translate_loop TB_MAX_INSNS a bound t2 = Inr t'" "finishes t2 TB_MAX_INSNS cs ss t'"
      "code_correct (tview t') (ip2bb t) (t_vmem t) TB_MAX_INSNS a cs ss"
    using translate_loop_correct [OF t2(1), of TB_MAX_INSNS a bound] t2 assms(4,5) by (auto simp: TB_MAX_INSNS_def)
  have T: "TranslateIPRange d a bound t = Inr t'"
    using assms(2,3) t1(1) l(1) unfolding TranslateIPRange_def t0_def t2_def by (simp add: Let_def)
  have v: "tview t1 = (tview t)[bb := (map folded (trace_code d a), [])]"
    using t1(2) t0 assms(6) by (simp add: emits_def view_append_def)
  obtain ext where "tview t' = (tview t)[bb := (map folded (trace_code d a) @ cs, ss)] @ ext"
    using l(2) t2 v bb by (auto simp: finishes_def)
  moreover have "code_correct (tview t') (ip2bb t) (t_vmem t) TB_MAX_INSNS a (map folded (trace_code d a) @ cs) ss"
    using l(3) trace_exec by (rule code_correct_prefix)
  ultimately have "filled t bb a t'" using l(2) t2 unfolding filled_def finishes_def by auto
  with T show ?thesis by blast
qed

section \<open>Regions\<close>

definition range_blocks :: "RV32Translator \<Rightarrow> (u32 \<times> u32) list \<Rightarrow> nat set" where
  "range_blocks t rs = {bb. \<exists>r\<in>set rs. ip2bb t (fst r) = Some bb}"

definition range_correct :: "RV32Translator \<Rightarrow> u32 \<Rightarrow> bool" where
  "range_correct t a \<longleftrightarrow>
     (\<exists>bb. ip2bb t a = Some bb \<and> bb < length (tview t) \<and>
        code_correct (tview t) (ip2bb t) (t_vmem t) TB_MAX_INSNS a (fst (tview t ! bb)) (snd (tview t ! bb)))"

text \<open>Ranges still to do have their own empty blocks.\<close>

definition todo :: "RV32Translator \<Rightarrow> (u32 \<times> u32) list \<Rightarrow> bool" where
  "todo t rs \<longleftrightarrow> distinct (map fst rs) \<and> inj_on (ip2bb t) (fst ` set rs) \<and>
     (\<forall>r\<in>set rs. snd r \<noteq> 0 \<and> no_discarded (t_vmem t) TB_MAX_INSNS (fst r) \<and>
        (\<exists>bb. ip2bb t (fst r) = Some bb \<and> tview t ! bb = ([], [])))"

lemma todo_filled:
  assumes "t_ok t" and "todo t (r # rs)" and "ip2bb t (fst r) = Some bb" and "filled t bb (fst r) t1"
  shows "todo t1 rs" and "bb \<notin> range_blocks t rs"
proof -
  obtain cs ss ext where f: "ip2bb t1 = ip2bb t" "t_vmem t1 = t_vmem t" "tview t1 = (tview t)[bb := (cs, ss)] @ ext"
    using assms(4) by (auto simp: filled_def)
  show nin: "bb \<notin> range_blocks t rs"
    using assms(2,3) by (fastforce simp: todo_def range_blocks_def inj_on_def)
  show "todo t1 rs"
    unfolding todo_def
  proof (intro conjI ballI)
    show "distinct (map fst rs)" "inj_on (ip2bb t1) (fst ` set rs)"
      using assms(2) f(1) by (auto simp: todo_def inj_on_def)
  next
    fix q assume q: "q \<in> set rs"
    then show "snd q \<noteq> 0" "no_discarded (t_vmem t1) TB_MAX_INSNS (fst q)"
      using assms(2) f(2) by (auto simp: todo_def)
    obtain b where b: "ip2bb t (fst q) = Some b" "tview t ! b = ([], [])"
      using assms(2) q by (auto simp: todo_def)
    moreover have "b \<noteq> bb" using nin b(1) q by (auto simp: range_blocks_def)
    moreover have "b < length (tview t)" using b(1) assms(1) by (auto simp: t_ok_def)
    ultimately show "\<exists>b. ip2bb t1 (fst q) = Some b \<and> tview t1 ! b = ([], [])"
      using f(1,3) by (auto simp: nth_append)
  qed
qed

lemma translate_ranges_correct:
  assumes "t_ok t" and "todo t rs" and "nloc t + 32 + length rs * TB_MAX_INSNS \<le> 2 ^ 16"
  shows "\<exists>t'. translate_ranges d rs t = Inr t' \<and> t_ok t' \<and> ip2bb t' = ip2bb t \<and> t_vmem t' = t_vmem t \<and>
    length (tview t) \<le> length (tview t') \<and> (\<forall>r\<in>set rs. range_correct t' (fst r)) \<and>
    (\<forall>b<length (tview t). b \<notin> range_blocks t rs \<longrightarrow> tview t' ! b = tview t ! b)"
  using assms
proof (induction rs arbitrary: t)
  case Nil
  then show ?case by simp
next
  case (Cons r rs)
  obtain bb where bb: "ip2bb t (fst r) = Some bb" "tview t ! bb = ([], [])"
    using Cons.prems(2) by (auto simp: todo_def)
  then have lt: "bb < length (tview t)" using Cons.prems(1) by (auto simp: t_ok_def)
  obtain t1 where t1: "TranslateIPRange d (fst r) (snd r) t = Inr t1" "filled t bb (fst r) t1"
    using TranslateIPRange_filled [OF Cons.prems(1) bb(1) _ _ _ bb(2), of "snd r" d] Cons.prems(2,3)
    by (auto simp: todo_def)
  then obtain cs ss ext where f: "t_ok t1" "ip2bb t1 = ip2bb t" "t_vmem t1 = t_vmem t"
      "nloc t1 \<le> nloc t + TB_MAX_INSNS" "tview t1 = (tview t)[bb := (cs, ss)] @ ext"
      "code_correct (tview t1) (ip2bb t) (t_vmem t) TB_MAX_INSNS (fst r) cs ss"
    by (auto simp: filled_def)
  note td = todo_filled [OF Cons.prems(1,2) bb(1) t1(2)]
  have keep: "tview t1 ! b = tview t ! b" if "b < length (tview t)" "b \<noteq> bb" for b
    using that f(5) by (simp add: nth_append)
  obtain t' where t': "translate_ranges d rs t1 = Inr t'" "t_ok t'" "ip2bb t' = ip2bb t" "t_vmem t' = t_vmem t"
      "length (tview t1) \<le> length (tview t')" "\<forall>q\<in>set rs. range_correct t' (fst q)"
      "\<forall>b<length (tview t1). b \<notin> range_blocks t1 rs \<longrightarrow> tview t' ! b = tview t1 ! b"
    using Cons.IH [OF f(1) td(1)] f(2-4) Cons.prems(3) by auto
  have rb: "range_blocks t1 rs = range_blocks t rs" using f(2) by (simp add: range_blocks_def)
  have len: "length (tview t) \<le> length (tview t1)" using f(5) by simp
  have "tview t' ! bb = (cs, ss)" using t'(7) td(2) rb lt f(5) len by (simp add: nth_append)
  moreover have "code_correct (tview t') (ip2bb t) (t_vmem t) TB_MAX_INSNS (fst r) cs ss"
    by (rule code_correct_mono [OF f(6) t'(5)])
      (use t'(7) rb in \<open>auto simp: range_blocks_def ran_def\<close>)
  ultimately have "range_correct t' (fst r)"
    using bb(1) t'(3-5) lt len unfolding range_correct_def by auto
  moreover have "tview t' ! b = tview t ! b" if "b < length (tview t)" "b \<notin> range_blocks t (r # rs)" for b
    using that t'(7) rb keep len bb(1) by (auto simp: range_blocks_def)
  ultimately show ?case using t1(1) t' len by (intro exI [of _ t']) auto
qed

lemma create_blocks_todo:
  assumes "distinct (map fst rs)" and "\<forall>r\<in>set rs. ip2bb t (fst r) = None" and "region_wf (t_region t)"
    and "\<forall>a bb. ip2bb t a = Some bb \<longrightarrow> bb < length (blist (t_region t))"
  defines "t' \<equiv> create_blocks rs t"
  shows "region_wf (t_region t') \<and> vregs_info (t_region t') = vregs_info (t_region t) \<and>
    t_qb t' = t_qb t \<and> t_vmem t' = t_vmem t \<and> tview t' = tview t @ replicate (length rs) ([], []) \<and>
    (\<forall>k<length rs. ip2bb t' (fst (rs ! k)) = Some (length (blist (t_region t)) + k)) \<and>
    (\<forall>a. a \<notin> fst ` set rs \<longrightarrow> ip2bb t' a = ip2bb t a)"
  using assms(1-4) unfolding t'_def
proof (induction rs arbitrary: t)
  case Nil
  then show ?case by simp
next
  case (Cons r rs)
  obtain b rn where cb: "CreateBlock (t_region t) = (b, rn)" by (cases "CreateBlock (t_region t)") auto
  note v = CreateBlock_view [OF Cons.prems(3) cb]
  define t1 where "t1 = t\<lparr>t_region := rn, ip2bb := map_insert (fst r) b (ip2bb t)\<rparr>"
  have m: "ip2bb t1 = (ip2bb t)(fst r \<mapsto> b)" using Cons.prems(2) by (simp add: t1_def map_insert_def)
  have IH: "region_wf (t_region (create_blocks rs t1)) \<and>
    vregs_info (t_region (create_blocks rs t1)) = vregs_info (t_region t1) \<and>
    t_qb (create_blocks rs t1) = t_qb t1 \<and> t_vmem (create_blocks rs t1) = t_vmem t1 \<and>
    tview (create_blocks rs t1) = tview t1 @ replicate (length rs) ([], []) \<and>
    (\<forall>k<length rs. ip2bb (create_blocks rs t1) (fst (rs ! k)) = Some (length (blist (t_region t1)) + k)) \<and>
    (\<forall>a. a \<notin> fst ` set rs \<longrightarrow> ip2bb (create_blocks rs t1) a = ip2bb t1 a)"
  proof (rule Cons.IH)
    have "fst q \<noteq> fst r" if "q \<in> set rs" for q using Cons.prems(1) that by (auto simp: image_iff)
    then show "\<forall>q\<in>set rs. ip2bb t1 (fst q) = None" using Cons.prems(2) by (simp add: m)
    show "\<forall>a bb. ip2bb t1 a = Some bb \<longrightarrow> bb < length (blist (t_region t1))"
      using Cons.prems(4) v(1,5) unfolding m by (auto simp: t1_def less_Suc_eq split: if_splits)
  qed (use Cons.prems(1) v(3) in \<open>simp_all add: t1_def\<close>)
  have c: "create_blocks (r # rs) t = create_blocks rs t1" by (simp add: cb t1_def)
  have "fst r \<notin> fst ` set rs" using Cons.prems(1) by simp
  then show ?case
    unfolding c using IH v m
    by (auto simp: t1_def nth_Cons split: nat.split)
qed

text \<open>A block of the region, run from a state at the start of its range.\<close>

definition arrives :: "rview \<Rightarrow> (u32 \<rightharpoonup> nat) \<Rightarrow> qstate bres \<Rightarrow> u32 \<Rightarrow> qstate \<Rightarrow> bool" where
  "arrives v m r pc s \<longleftrightarrow> r = BExit pc s \<or>
     (\<exists>b. r = BGoto b s \<and> (m pc = Some b \<or> exec_block state_info v b s = BExit pc s))"

definition block_correct :: "RV32Translator \<Rightarrow> u32 \<Rightarrow> nat \<Rightarrow> bool" where
  "block_correct t a bb \<longleftrightarrow>
     (\<forall>st s. x0_zero st \<and> sim st s \<and> gip st = a \<and> path_ok (t_vmem t) TB_MAX_INSNS a st \<longrightarrow>
        (\<exists>k st' s'. 0 < k \<and> k \<le> TB_MAX_INSNS \<and> interp_steps k st = Some st' \<and>
           arrives (tview t) (ip2bb t) (exec_block state_info (tview t) bb s) (gip st') s' \<and> sim st' s') \<or>
        (\<exists>k st1 st' s'. k < TB_MAX_INSNS \<and> interp_steps k st = Some st1 \<and> interp_step st1 = Raised st' \<and>
           exec_block state_info (tview t) bb s = BRaise s' \<and> same_cpu st' s'))"

lemma leads_arrives:
  assumes "bb < length v" and "leads v m (snd (v ! bb)) (exec_list state_info (fst (v ! bb)) s) pc s'"
  shows "arrives v m (exec_block state_info v bb s) pc s'"
proof -
  have stub: "arrives v m (BGoto b s') pc s'" if "block_for v m pc b" for b
    using that by (auto simp: arrives_def block_for_def exec_block_def qsem_simps)
  from assms(2) consider "exec_list state_info (fst (v ! bb)) s = QExit pc s'"
    | b where "exec_list state_info (fst (v ! bb)) s = QBr s'" "snd (v ! bb) = [b]" "block_for v m pc b"
    | c bt bf where "exec_list state_info (fst (v ! bb)) s = QBrcc c s'" "snd (v ! bb) = [bt, bf]"
        "block_for v m pc (if c then bt else bf)"
    unfolding leads_def by blast
  then show ?thesis
    using assms(1) stub by cases (auto simp: exec_block_def succ_at_def arrives_def [of _ _ "BExit _ _"])
qed

lemma range_block_correct: "range_correct t a \<Longrightarrow> \<exists>bb. ip2bb t a = Some bb \<and> block_correct t a bb"
proof -
  assume "range_correct t a"
  then obtain bb where bb: "ip2bb t a = Some bb" "bb < length (tview t)"
      "code_correct (tview t) (ip2bb t) (t_vmem t) TB_MAX_INSNS a (fst (tview t ! bb)) (snd (tview t ! bb))"
    unfolding range_correct_def by blast
  have r: "exec_list state_info (fst (tview t ! bb)) s = QRaise s' \<Longrightarrow> exec_block state_info (tview t) bb s = BRaise s'" for s s'
    using bb(2) by (simp add: exec_block_def)
  have "block_correct t a bb"
    unfolding block_correct_def
  proof (intro allI impI)
    fix st s assume "x0_zero st \<and> sim st s \<and> gip st = a \<and> path_ok (t_vmem t) TB_MAX_INSNS a st"
    with bb(3) have "(\<exists>k st' s'. 0 < k \<and> k \<le> TB_MAX_INSNS \<and> interp_steps k st = Some st' \<and>
           leads (tview t) (ip2bb t) (snd (tview t ! bb)) (exec_list state_info (fst (tview t ! bb)) s) (gip st') s' \<and> sim st' s') \<or>
        (\<exists>k st1 st' s'. k < TB_MAX_INSNS \<and> interp_steps k st = Some st1 \<and> interp_step st1 = Raised st' \<and>
           exec_list state_info (fst (tview t ! bb)) s = QRaise s' \<and> same_cpu st' s')"
      unfolding code_correct_def by blast
    then show "(\<exists>k st' s'. 0 < k \<and> k \<le> TB_MAX_INSNS \<and> interp_steps k st = Some st' \<and>
           arrives (tview t) (ip2bb t) (exec_block state_info (tview t) bb s) (gip st') s' \<and> sim st' s') \<or>
        (\<exists>k st1 st' s'. k < TB_MAX_INSNS \<and> interp_steps k st = Some st1 \<and> interp_step st1 = Raised st' \<and>
           exec_block state_info (tview t) bb s = BRaise s' \<and> same_cpu st' s')"
      using leads_arrives [OF bb(2)] r by blast
  qed
  with bb(1) show ?thesis by blast
qed

lemma blocks_created:
  assumes "ranges \<noteq> []" and "distinct (map fst ranges)" and "\<forall>r\<in>set ranges. snd r \<noteq> 0 \<and> no_discarded vm TB_MAX_INSNS (fst r)"
  defines "t1 \<equiv> create_blocks ranges (NewTranslator (NewRegion state_info) vm)"
  shows "t_ok t1" and "todo t1 ranges" and "tview t1 = replicate (length ranges) ([], [])" and "nloc t1 = 0" and "t_vmem t1 = vm"
proof -
  define t0 where "t0 = NewTranslator (NewRegion state_info) vm"
  have "region_wf (t_region t0)" "tview t0 = []" "blist (t_region t0) = []" "ip2bb t0 = Map.empty"
      "vregs_info (t_region t0) = \<lparr>glob_info = state_info, loc_info = []\<rparr>" "t_qb t0 = NewBuilder 0" "t_vmem t0 = vm"
    by (simp_all add: t0_def NewTranslator_def NewRegion_def region_wf_def region_view_def)
  with create_blocks_todo [OF assms(2), of t0]
  have c: "region_wf (t_region t1)" "vregs_info (t_region t1) = \<lparr>glob_info = state_info, loc_info = []\<rparr>"
      "t_qb t1 = NewBuilder 0" "t_vmem t1 = vm" "tview t1 = replicate (length ranges) ([], [])"
      "\<forall>k<length ranges. ip2bb t1 (fst (ranges ! k)) = Some k" "\<forall>a. a \<notin> fst ` set ranges \<longrightarrow> ip2bb t1 a = None"
    by (simp_all add: t1_def t0_def)
  have len: "length (blist (t_region t1)) = length ranges" using arg_cong [OF c(5), of length] by simp
  have idx: "\<exists>k<length ranges. a = fst (ranges ! k)" if "a \<in> fst ` set ranges" for a
  proof -
    have "a \<in> set (map fst ranges)" using that by simp
    then show ?thesis by (auto simp: in_set_conv_nth simp del: set_map)
  qed
  have dom: "bb < length ranges" if "ip2bb t1 a = Some bb" for a bb
    using idx [of a] that c(6,7) by (cases "a \<in> fst ` set ranges") auto
  show "t_ok t1" using c len assms(1) dom by (fastforce simp: t_ok_def NewBuilder_def)
  show "todo t1 ranges"
    unfolding todo_def
  proof (intro conjI ballI)
    show "inj_on (ip2bb t1) (fst ` set ranges)"
    proof (rule inj_onI)
      fix x y assume xy: "x \<in> fst ` set ranges" "y \<in> fst ` set ranges" "ip2bb t1 x = ip2bb t1 y"
      obtain k l where "k < length ranges" "x = fst (ranges ! k)" "l < length ranges" "y = fst (ranges ! l)"
        using idx [OF xy(1)] idx [OF xy(2)] by blast
      then show "x = y" using c(6) xy(3) by simp
    qed
  next
    fix r assume r: "r \<in> set ranges"
    then show "snd r \<noteq> 0" "no_discarded (t_vmem t1) TB_MAX_INSNS (fst r)" using assms(3) c(4) by auto
    from r obtain k where "k < length ranges" "r = ranges ! k" by (auto simp: in_set_conv_nth)
    then show "\<exists>bb. ip2bb t1 (fst r) = Some bb \<and> tview t1 ! bb = ([], [])" using c(5,6) by auto
  qed (use assms(2) in simp)
  show "tview t1 = replicate (length ranges) ([], [])" "nloc t1 = 0" "t_vmem t1 = vm" using c by simp_all
qed

lemma Translate_ok:
  assumes "ranges \<noteq> []" and "distinct (map fst ranges)" and "length ranges \<le> 1000"
    and "\<forall>r\<in>set ranges. snd r \<noteq> 0 \<and> no_discarded vm TB_MAX_INSNS (fst r)"
  shows "\<exists>t. Translate d (NewRegion state_info) ranges vm = Inr t \<and> region_wf (t_region t) \<and> t_vmem t = vm \<and>
    (\<forall>r\<in>set ranges. range_correct t (fst r))"
proof -
  define t1 where "t1 = create_blocks ranges (NewTranslator (NewRegion state_info) vm)"
  note c = blocks_created [OF assms(1,2,4), folded t1_def]
  have "nloc t1 + 32 + length ranges * TB_MAX_INSNS \<le> 2 ^ 16"
    using c(4) assms(3) by (simp add: TB_MAX_INSNS_def)
  then obtain t' where t': "translate_ranges d ranges t1 = Inr t'" "t_ok t'" "t_vmem t' = t_vmem t1"
      "\<forall>r\<in>set ranges. range_correct t' (fst r)"
    using translate_ranges_correct [of t1 ranges d] c(1,2) by blast
  then show ?thesis using c(5) by (auto simp: Translate_def t1_def t_ok_def)
qed

text \<open>C13. The front end is correct. Translating any list of at most a thousand ranges with distinct starts
  and non-zero ends, over guest code without discarded loads, succeeds: no assertion fires and the
  region is well formed. Every range has its block, and running that block from a state related to
  the interpreter's at the start of the range gives what between one and \<open>TB_MAX_INSNS\<close> interpreter
  steps give: related states at the guest address where control is next (outside the region, at the
  block of another range, or at a block that only leaves for it), or the trap the interpreter
  raises, with the same CPU state and memory. The run must not change the code it runs, and no branch
  may raise the alignment trap.\<close>

theorem region_translation_correct:
  assumes "ranges \<noteq> []" and "distinct (map fst ranges)" and "length ranges \<le> 1000"
    and "\<forall>r\<in>set ranges. snd r \<noteq> 0 \<and> no_discarded vm TB_MAX_INSNS (fst r)"
  shows "\<exists>t. Translate d (NewRegion state_info) ranges vm = Inr t \<and> region_wf (t_region t) \<and> t_vmem t = vm \<and>
    (\<forall>r\<in>set ranges. \<exists>bb. ip2bb t (fst r) = Some bb \<and> block_correct t (fst r) bb)"
proof -
  obtain t where "Translate d (NewRegion state_info) ranges vm = Inr t" "region_wf (t_region t)" "t_vmem t = vm"
      "\<forall>r\<in>set ranges. range_correct t (fst r)"
    using Translate_ok [OF assms, of d] by blast
  then show ?thesis using range_block_correct by (intro exI [of _ t]) simp
qed

text \<open>A page of shift instructions: every word is \<open>0x13131313\<close>.\<close>

definition shifts_everywhere :: vmem where "shifts_everywhere a = 0x13"

lemma shifts_fetch: "fetch shifts_everywhere a = 0x13131313"
  by (simp add: fetch_def unaligned_load_def shifts_everywhere_def upt_conv_Cons)

lemma shifts_ok: "no_discarded shifts_everywhere n a"
proof -
  have "Decode 0x13131313 = Op_slli" by code_simp
  then show ?thesis by (simp add: no_discarded_def shifts_fetch discarded_load_def)
qed

theorem region_translation_correct_witness:
  "\<exists>t. Translate False (NewRegion state_info) [(0x1000, 0x1040), (0x2000, 0x2100)] shifts_everywhere = Inr t \<and>
    (\<exists>bb. ip2bb t 0x1000 = Some bb \<and> block_correct t 0x1000 bb) \<and>
    (\<exists>bb. ip2bb t 0x2000 = Some bb \<and> block_correct t 0x2000 bb)"
  using region_translation_correct [of "[(0x1000, 0x1040), (0x2000, 0x2100)]" shifts_everywhere False] shifts_ok
  by auto

end
