(* ===== verification/ArchTraits.thy ===== *)
theory ArchTraits
  imports QIR_Builder
begin

text \<open>
  The host as the code generator sees it, \<^verbatim>\<open>src/dbt/qmc/qcg/arch_traits.h\<close> and \<^verbatim>\<open>arch_traits.cpp\<close>: register masks,
  the fixed, clobbered and allocatable registers of amd64, and for every opcode that takes operands the
  constraints on them: which registers, which immediates, and which input shares the output's register.
  Register numbers are those of the instruction encoding, which the assembler library uses as ids.
\<close>

section \<open>Register masks\<close>

type_synonym RegMask = u32

definition mask_Test :: "RegMask \<Rightarrow> RegN \<Rightarrow> bool" where
  "mask_Test m r \<longleftrightarrow> m AND push_bit (unat r) 1 \<noteq> 0"

definition mask_Set :: "RegN \<Rightarrow> RegMask \<Rightarrow> RegMask" where
  "mask_Set r m = m OR push_bit (unat r) 1"

definition mask_Clear :: "RegN \<Rightarrow> RegMask \<Rightarrow> RegMask" where
  "mask_Clear r m = m AND NOT (push_bit (unat r) 1)"

definition mask_count :: "RegMask \<Rightarrow> nat" where
  "mask_count m = length (filter (bit m) [0..<32])"

definition RAX :: RegN where "RAX = 0"
definition RCX :: RegN where "RCX = 1"
definition RDX :: RegN where "RDX = 2"
definition RBX :: RegN where "RBX = 3"
definition RSP :: RegN where "RSP = 4"
definition RBP :: RegN where "RBP = 5"
definition RSI :: RegN where "RSI = 6"
definition RDI :: RegN where "RDI = 7"
definition R8 :: RegN where "R8 = 8"
definition R9 :: RegN where "R9 = 9"
definition R10 :: RegN where "R10 = 10"
definition R11 :: RegN where "R11 = 11"
definition R13 :: RegN where "R13 = 13"

lemmas reg_ids = RAX_def RCX_def RDX_def RBX_def RSP_def RBP_def RSI_def RDI_def R8_def R9_def R10_def R11_def R13_def

definition GPR_NUM :: nat where "GPR_NUM = 16"

definition GPR_FIXED :: RegMask where
  "GPR_FIXED = mask_Set RSP (mask_Set RBP (mask_Set R13 0))"

definition GPR_CALL_CLOBBER :: RegMask where
  "GPR_CALL_CLOBBER = mask_Set R11 (mask_Set R10 (mask_Set R9 (mask_Set R8 (mask_Set RCX (mask_Set RDX
     (mask_Set RSI (mask_Set RDI (mask_Set RAX 0))))))))"

definition GPR_ALL :: RegMask where "GPR_ALL = push_bit GPR_NUM 1 - 1"
definition GPR_POOL :: RegMask where "GPR_POOL = GPR_ALL AND NOT GPR_FIXED"
definition GPR_CALL_SAVED :: RegMask where "GPR_CALL_SAVED = GPR_ALL AND NOT GPR_CALL_CLOBBER"
definition spillframe_size :: u16 where "spillframe_size = 1024"

section \<open>Operand constraints\<close>

definition Imm_NO :: u8 where "Imm_NO = 0"
definition Imm_ANY :: u8 where "Imm_ANY = 1"
definition Imm_S32 :: u8 where "Imm_S32 = 2"
definition Imm_U32 :: u8 where "Imm_U32 = 4"

record RAOpCt =
  ct_cr :: RegMask
  ct_ci :: u8
  ct_has_alias :: bool
  ct_alias :: nat

datatype RACtDefOrAlias = DEF RegMask u8 | ALIAS nat

definition SetAlias :: "nat \<Rightarrow> RAOpCt \<Rightarrow> RAOpCt" where
  "SetAlias a ct = ct\<lparr>ct_has_alias := True, ct_alias := a\<rparr>"

definition make_def :: "RegMask \<Rightarrow> u8 \<Rightarrow> RAOpCt" where
  "make_def cr ci = \<lparr>ct_cr = cr, ct_ci = ci, ct_has_alias = False, ct_alias = 0\<rparr>"

text \<open>The loop over the inputs, with the constraints made so far; an input's index is their number.\<close>

primrec make_inputs :: "RACtDefOrAlias list \<Rightarrow> RAOpCt list \<Rightarrow> RAOpCt list" where
  "make_inputs [] ct = ct"
| "make_inputs (idef # idefs) ct =
     (case idef of
        DEF cr ci \<Rightarrow> make_inputs idefs (ct @ [make_def cr ci])
      | ALIAS aidx \<Rightarrow>
          make_inputs idefs (ct[aidx := SetAlias (length ct) (ct ! aidx)] @ [SetAlias aidx (ct ! aidx)]))"

text \<open>The order in which operands are allocated: the most constrained first. There are at most two of a kind.\<close>

definition order_ct :: "RAOpCt list \<Rightarrow> nat list" where
  "order_ct cts = sort_key (\<lambda>i. mask_count (ct_cr (cts ! i))) [0..<length cts]"

definition InstCt_Make :: "(RegMask \<times> u8) list \<Rightarrow> RACtDefOrAlias list \<Rightarrow> RAOpCt list \<times> nat list" where
  "InstCt_Make odefs idefs =
     (let ct = make_inputs idefs (map (\<lambda>(cr, ci). make_def cr ci) odefs); n = length odefs
      in (ct, order_ct (take n ct) @ order_ct (drop n ct)))"

definition CT_r_rs32 :: "RAOpCt list \<times> nat list" where
  "CT_r_rs32 = InstCt_Make [] [DEF GPR_ALL Imm_NO, DEF GPR_ALL Imm_S32]"
definition CT_si :: "RAOpCt list \<times> nat list" where
  "CT_si = InstCt_Make [] [DEF (mask_Set RSI 0) Imm_NO]"
definition CT_r_ru32 :: "RAOpCt list \<times> nat list" where
  "CT_r_ru32 = InstCt_Make [(GPR_ALL, Imm_NO)] [DEF GPR_ALL Imm_U32]"
definition CT_r_ri :: "RAOpCt list \<times> nat list" where
  "CT_r_ri = InstCt_Make [(GPR_ALL, Imm_NO)] [DEF GPR_ALL Imm_ANY]"
definition CT_ri_r :: "RAOpCt list \<times> nat list" where
  "CT_ri_r = InstCt_Make [] [DEF GPR_ALL Imm_ANY, DEF GPR_ALL Imm_NO]"
definition CT_r8_r_rs32 :: "RAOpCt list \<times> nat list" where
  "CT_r8_r_rs32 = InstCt_Make [(GPR_ALL, Imm_NO)] [DEF GPR_ALL Imm_NO, DEF GPR_ALL Imm_S32]"
definition CT_r_0_rs32 :: "RAOpCt list \<times> nat list" where
  "CT_r_0_rs32 = InstCt_Make [(GPR_ALL, Imm_NO)] [ALIAS 0, DEF GPR_ALL Imm_S32]"
definition CT_r_0_ru32 :: "RAOpCt list \<times> nat list" where
  "CT_r_0_ru32 = InstCt_Make [(GPR_ALL, Imm_NO)] [ALIAS 0, DEF GPR_ALL Imm_U32]"
definition CT_r_0_cxi :: "RAOpCt list \<times> nat list" where
  "CT_r_0_cxi = InstCt_Make [(GPR_ALL, Imm_NO)] [ALIAS 0, DEF (mask_Set RCX 0) Imm_ANY]"

text \<open>The table \<open>ArchTraits::init\<close> fills in; an opcode without an entry has a null pointer.\<close>

primrec ra_info :: "QOp \<Rightarrow> (RAOpCt list \<times> nat list) option" where
  "ra_info q_hcall = None"
| "ra_info q_br = None"
| "ra_info q_gbr = None"
| "ra_info q_brcc = Some CT_r_rs32"
| "ra_info q_gbrind = Some CT_si"
| "ra_info q_vmload = Some CT_r_ru32"
| "ra_info q_vmstore = Some CT_ri_r"
| "ra_info q_setcc = Some CT_r8_r_rs32"
| "ra_info q_mov = Some CT_r_ri"
| "ra_info q_add = Some CT_r_0_rs32"
| "ra_info q_sub = Some CT_r_0_rs32"
| "ra_info q_and = Some CT_r_0_ru32"
| "ra_info q_or = Some CT_r_0_rs32"
| "ra_info q_xor = Some CT_r_0_rs32"
| "ra_info q_sra = Some CT_r_0_cxi"
| "ra_info q_srl = Some CT_r_0_cxi"
| "ra_info q_sll = Some CT_r_0_cxi"

text \<open>The value is the operand's 32-bit constant, widened to 64 bits without a sign.\<close>

definition match_gp_const :: "u64 \<Rightarrow> u8 \<Rightarrow> bool" where
  "match_gp_const val ct \<longleftrightarrow>
     ct AND Imm_ANY \<noteq> 0 \<or>
     (ct AND Imm_U32 \<noteq> 0 \<and> ucast (ucast val :: u32) = val) \<or>
     (ct AND Imm_S32 \<noteq> 0 \<and> scast (ucast val :: u32) = val)"

section \<open>The table evaluated\<close>

definition cx_mask :: RegMask where "cx_mask = mask_Set RCX 0"
definition si_mask :: RegMask where "si_mask = mask_Set RSI 0"

lemma mask_values: "GPR_ALL = 0xffff" "cx_mask = 2" "si_mask = 0x40" "GPR_FIXED = 0x2030" "GPR_CALL_CLOBBER = 0xfc7"
  by code_simp+

lemma ct_values:
  "CT_r_rs32 = ([make_def 0xffff 0, make_def 0xffff 2], [0, 1])"
  "CT_si = ([make_def 0x40 0], [0])"
  "CT_r_ru32 = ([make_def 0xffff 0, make_def 0xffff 4], [0, 0])"
  "CT_r_ri = ([make_def 0xffff 0, make_def 0xffff 1], [0, 0])"
  "CT_ri_r = ([make_def 0xffff 1, make_def 0xffff 0], [0, 1])"
  "CT_r8_r_rs32 = ([make_def 0xffff 0, make_def 0xffff 0, make_def 0xffff 2], [0, 0, 1])"
  "CT_r_0_rs32 = ([SetAlias 1 (make_def 0xffff 0), SetAlias 0 (make_def 0xffff 0), make_def 0xffff 2], [0, 0, 1])"
  "CT_r_0_ru32 = ([SetAlias 1 (make_def 0xffff 0), SetAlias 0 (make_def 0xffff 0), make_def 0xffff 4], [0, 0, 1])"
  "CT_r_0_cxi = ([SetAlias 1 (make_def 0xffff 0), SetAlias 0 (make_def 0xffff 0), make_def 2 1], [0, 1, 0])"
  by code_simp+

end
