(* ===== verification/QSel.thy ===== *)
theory QSel
  imports ArchTraits QIR_Sem
begin

text \<open>
  Instruction selection, \<^verbatim>\<open>src/dbt/qmc/qcg/qsel.cpp\<close>: before registers are allocated, every instruction is brought into
  a form the host has, by moves in front of it. An input that must share the output's register becomes
  the output, after its old value was saved if another input needs it, and a constant the host cannot
  encode moves to a temporary. The pass works on the code of a block: its builder stands in front of the
  instruction it visits, so what it creates precedes the instruction. C38: the selected code behaves as
  the block and meets the constraints of the host.
\<close>

section \<open>Selection\<close>

fun set_inputs :: "VOperand list \<Rightarrow> instc \<Rightarrow> instc" where
  "set_inputs [s] (InstUnop op d _) = InstUnop op d s"
| "set_inputs [sl, sr] (InstBinop op d _ _) = InstBinop op d sl sr"
| "set_inputs [s1, s2] (InstBrcc cc _ _) = InstBrcc cc s1 s2"
| "set_inputs [t] (InstGBrind _) = InstGBrind t"
| "set_inputs [p] (InstVMLoad sz sg d _) = InstVMLoad sz sg d p"
| "set_inputs [p, v] (InstVMStore sz sg _ _) = InstVMStore sz sg p v"
| "set_inputs [sl, sr] (InstSetcc cc d _ _) = InstSetcc cc d sl sr"
| "set_inputs _ c = c"

definition same_vgpr :: "VOperand \<Rightarrow> VOperand \<Rightarrow> bool" where
  "same_vgpr a b \<longleftrightarrow> IsVGPR a \<and> GetVGPR a = GetVGPR b"

record sel_state =
  sel_pre :: "instc list"
  sel_srcl :: "VOperand list"
  sel_vregs :: VRegsInfo

definition sel_mov :: "VOperand \<Rightarrow> VOperand \<Rightarrow> sel_state \<Rightarrow> sel_state" where
  "sel_mov d s st = st\<lparr>sel_pre := sel_pre st @ [InstUnop q_mov d s]\<rparr>"

definition sel_temp :: "VType \<Rightarrow> sel_state \<Rightarrow> VOperand \<times> sel_state" where
  "sel_temp type st =
     (let (r, vi) = AddLocal type (sel_vregs st) in (MakeVGPR type r, st\<lparr>sel_vregs := vi\<rparr>))"

definition other_inputs :: "nat \<Rightarrow> VOperand \<Rightarrow> VOperand list \<Rightarrow> nat list" where
  "other_inputs i dst srcl = filter (\<lambda>k. k \<noteq> i \<and> same_vgpr (srcl ! k) dst) [0..<length srcl]"

definition sel_alias :: "RAOpCt list \<Rightarrow> VOperand list \<Rightarrow> nat \<Rightarrow> sel_state \<Rightarrow> sel_state res" where
  "sel_alias op_ct dstl i st =
     (let ct = op_ct ! (length dstl + i) in
      if \<not> ct_has_alias ct then Inr st
      else
        let src = sel_srcl st ! i; dst = dstl ! ct_alias ct in
        if \<not> IsVGPR dst then Inl AssertFailed
        else if same_vgpr src dst then Inr st
        else
          let ks = other_inputs i dst (sel_srcl st);
              st = (if ks \<noteq> []
                    then let (tmp, st) = sel_temp (GetType dst) st; st = sel_mov tmp dst st
                         in st\<lparr>sel_srcl := map (\<lambda>k. if k \<in> set ks then tmp else sel_srcl st ! k) [0..<length (sel_srcl st)]\<rparr>
                    else st);
              st = sel_mov dst src st
          in Inr (st\<lparr>sel_srcl := (sel_srcl st)[i := dst]\<rparr>))"

definition sel_const :: "RAOpCt list \<Rightarrow> nat \<Rightarrow> nat \<Rightarrow> sel_state \<Rightarrow> sel_state res" where
  "sel_const op_ct dst_n i st =
     (let ct = op_ct ! (dst_n + i); src = sel_srcl st ! i in
      if \<not> IsConst src then Inr st
      else rbind (GetConst src) (\<lambda>val.
        if ct_ci ct \<noteq> Imm_NO \<and> match_gp_const (ucast val) (ct_ci ct) then Inr st
        else
          let type = GetType src; (tmp, st) = sel_temp type st; st = sel_mov tmp src st
          in Inr (st\<lparr>sel_srcl := (sel_srcl st)[i := tmp]\<rparr>)))"

primrec sel_loop :: "(nat \<Rightarrow> sel_state \<Rightarrow> sel_state res) \<Rightarrow> nat list \<Rightarrow> sel_state \<Rightarrow> sel_state res" where
  "sel_loop f [] st = Inr st"
| "sel_loop f (i # is) st = rbind (f i st) (sel_loop f is)"

definition SelectOperands :: "instc \<Rightarrow> VRegsInfo \<Rightarrow> (instc list \<times> instc \<times> VRegsInfo) res" where
  "SelectOperands c vi =
     (case ra_info (GetOpcode c) of
        None \<Rightarrow> Inl AssertFailed
      | Some (op_ct, _) \<Rightarrow>
          let srcl = inputs c; dstl = outputs c; idx = [0..<length srcl] in
          rbind (sel_loop (sel_alias op_ct dstl) idx \<lparr>sel_pre = [], sel_srcl = srcl, sel_vregs = vi\<rparr>) (\<lambda>st.
          rbind (sel_loop (sel_const op_ct (length dstl)) idx st) (\<lambda>st.
            Inr (sel_pre st, set_inputs (sel_srcl st) c, sel_vregs st))))"

definition QSelVisitor :: "instc \<Rightarrow> VRegsInfo \<Rightarrow> (instc list \<times> instc \<times> VRegsInfo) res" where
  "QSelVisitor c vi =
     (case c of
        InstBr \<Rightarrow> Inr ([], c, vi)
      | InstGBr _ \<Rightarrow> Inr ([], c, vi)
      | InstHcall _ _ \<Rightarrow> Inr ([], c, vi)
      | _ \<Rightarrow> SelectOperands c vi)"

primrec sel_block :: "instc list \<Rightarrow> VRegsInfo \<Rightarrow> bool \<Rightarrow> (instc list \<times> VRegsInfo \<times> bool) res" where
  "sel_block [] vi has_calls = Inr ([], vi, has_calls)"
| "sel_block (c # cs) vi has_calls =
     rbind (QSelVisitor c vi) (\<lambda>(pre, c', vi).
     rbind (sel_block cs vi (has_calls \<or> GetOpFlags (GetOpcode c') AND Inst_HAS_CALLS \<noteq> 0)) (\<lambda>(cs', vi, hc).
       Inr (pre @ c' # cs', vi, hc)))"

primrec QSel_Run :: "rview \<Rightarrow> VRegsInfo \<Rightarrow> bool \<Rightarrow> (rview \<times> VRegsInfo \<times> bool) res" where
  "QSel_Run [] vi has_calls = Inr ([], vi, has_calls)"
| "QSel_Run (b # bs) vi has_calls =
     rbind (sel_block (fst b) vi has_calls) (\<lambda>(cs, vi, hc).
     rbind (QSel_Run bs vi hc) (\<lambda>(bs', vi, hc). Inr ((cs, snd b) # bs', vi, hc)))"

definition QSelPass_run :: "rview \<Rightarrow> VRegsInfo \<Rightarrow> (rview \<times> VRegsInfo \<times> bool) res" where
  "QSelPass_run bs vi = QSel_Run bs vi False"

section \<open>Operands the front end makes\<close>

text \<open>Virtual registers or constants as inputs, of a proper type; the operands of arithmetic are 32 bits wide.\<close>

definition sel_src :: "VOperand \<Rightarrow> bool" where
  "sel_src v \<longleftrightarrow> (case view_of v of VVirt t r \<Rightarrow> t \<noteq> UNDEF | VConst t k \<Rightarrow> t \<noteq> UNDEF | _ \<Rightarrow> False)"

definition sel_src32 :: "VOperand \<Rightarrow> bool" where
  "sel_src32 v \<longleftrightarrow> (case view_of v of VVirt t r \<Rightarrow> t = I32 | VConst t k \<Rightarrow> t = I32 | _ \<Rightarrow> False)"

definition sel_dst :: "VOperand \<Rightarrow> bool" where
  "sel_dst v \<longleftrightarrow> (case view_of v of VVirt t r \<Rightarrow> t = I32 | _ \<Rightarrow> False)"

fun sel_typed :: "instc \<Rightarrow> bool" where
  "sel_typed (InstUnop op d s) \<longleftrightarrow> op = q_mov \<and> (sel_dst d \<or> (\<exists>k. view_of d = VSlot True I32 k)) \<and> sel_src s"
| "sel_typed (InstBinop op d a b) \<longleftrightarrow> InstBinop_HasOpcode op \<and> sel_dst d \<and> sel_src32 a \<and> sel_src32 b"
| "sel_typed (InstSetcc cc d a b) \<longleftrightarrow> sel_dst d \<and> sel_src a \<and> sel_src b"
| "sel_typed (InstBrcc cc a b) \<longleftrightarrow> sel_src a \<and> sel_src b"
| "sel_typed (InstGBrind t) \<longleftrightarrow> sel_src t"
| "sel_typed (InstVMLoad sz sg d p) \<longleftrightarrow> sel_dst d \<and> sel_src p"
| "sel_typed (InstVMStore sz sg p v) \<longleftrightarrow> sel_src p \<and> sel_src v"
| "sel_typed InstBr \<longleftrightarrow> True"
| "sel_typed (InstGBr t) \<longleftrightarrow> IsConst t"
| "sel_typed (InstHcall stub arg) \<longleftrightarrow> IsConst arg"

definition op_below :: "nat \<Rightarrow> VOperand \<Rightarrow> bool" where
  "op_below n v \<longleftrightarrow> (case view_of v of VVirt t r \<Rightarrow> unat r < n | _ \<Rightarrow> True)"

definition inst_below :: "nat \<Rightarrow> instc \<Rightarrow> bool" where
  "inst_below n c \<longleftrightarrow> (\<forall>v\<in>set (inputs c @ outputs c). op_below n v)"

text \<open>What the host can encode.\<close>

definition meets_ct :: "RAOpCt list \<Rightarrow> VOperand list \<Rightarrow> VOperand list \<Rightarrow> bool" where
  "meets_ct op_ct dstl srcl \<longleftrightarrow>
     (\<forall>i<length srcl. let ct = op_ct ! (length dstl + i) in
        (ct_has_alias ct \<longrightarrow> same_vgpr (srcl ! i) (dstl ! ct_alias ct)) \<and>
        (\<forall>k. GetConst (srcl ! i) = Inr k \<longrightarrow> ct_ci ct \<noteq> Imm_NO \<and> match_gp_const (ucast k) (ct_ci ct)))"

definition selected :: "instc \<Rightarrow> bool" where
  "selected c \<longleftrightarrow> (case ra_info (GetOpcode c) of None \<Rightarrow> True | Some (op_ct, _) \<Rightarrow> meets_ct op_ct (outputs c) (inputs c))"

section \<open>States that agree below a register number\<close>

definition eq_below :: "nat \<Rightarrow> qstate \<Rightarrow> qstate \<Rightarrow> bool" where
  "eq_below n s s' \<longleftrightarrow> qcpu s' = qcpu s \<and> qmem s' = qmem s \<and> (\<forall>r. unat r < n \<longrightarrow> qloc s' r = qloc s r)"

fun res_below :: "nat \<Rightarrow> qstate qres \<Rightarrow> qstate qres \<Rightarrow> bool" where
  "res_below n (QNext s) (QNext s') \<longleftrightarrow> eq_below n s s'"
| "res_below n (QBr s) (QBr s') \<longleftrightarrow> eq_below n s s'"
| "res_below n (QBrcc b s) (QBrcc b' s') \<longleftrightarrow> b = b' \<and> eq_below n s s'"
| "res_below n (QExit a s) (QExit a' s') \<longleftrightarrow> a = a' \<and> eq_below n s s'"
| "res_below n (QRaise s) (QRaise s') \<longleftrightarrow> eq_below n s s'"
| "res_below n QStuck QStuck \<longleftrightarrow> True"
| "res_below n _ _ \<longleftrightarrow> False"

lemma eq_below_refl [simp]: "eq_below n s s"
  by (simp add: eq_below_def)

lemma eq_below_trans: "eq_below n s s' \<Longrightarrow> eq_below n s' s'' \<Longrightarrow> eq_below n s s''"
  by (simp add: eq_below_def)

lemma eq_below_le: "eq_below n s s' \<Longrightarrow> m \<le> n \<Longrightarrow> eq_below m s s'"
  by (simp add: eq_below_def)

lemma res_below_trans: "res_below n r r' \<Longrightarrow> res_below n r' r'' \<Longrightarrow> res_below n r r''"
  by (cases r; cases r'; cases r'') (auto intro: eq_below_trans)

lemma res_below_le: "res_below n r r' \<Longrightarrow> m \<le> n \<Longrightarrow> res_below m r r'"
  by (cases r; cases r') (auto intro: eq_below_le)

lemma read_below: "eq_below n s s' \<Longrightarrow> op_below n v \<Longrightarrow> read_op si s' v = read_op si s v"
  by (auto simp: eq_below_def op_below_def read_op_def read_vreg_def split: view.splits option.splits)

lemma write_below:
  assumes "eq_below n s s'" and "op_below n d"
  shows "rel_option (eq_below n) (write_op si d v s) (write_op si d v s')"
proof (cases "view_of d")
  case (VVirt t r)
  have w: "rel_option (eq_below n) (write_vreg si r x s) (write_vreg si r x s')" for x
    using assms(1) by (auto simp: write_vreg_def eq_below_def option.rel_map intro!: option.rel_refl_strong split: option.splits)
  have "read_vreg si s' r = read_vreg si s r"
    using assms VVirt by (auto simp: eq_below_def op_below_def read_vreg_def split: option.splits)
  then show ?thesis using VVirt w by (cases "read_vreg si s r") (auto simp: write_op_def)
next
  case (VSlot g t k)
  then show ?thesis using assms(1)
    by (auto simp: write_op_def eq_below_def option.rel_map intro!: option.rel_refl_strong)
qed (auto simp: write_op_def)

lemma ostuck_below:
  "rel_option R x y \<Longrightarrow> (\<And>a b. R a b \<Longrightarrow> res_below n (f a) (g b)) \<Longrightarrow> res_below n (ostuck x f) (ostuck y g)"
  by (cases x; cases y) auto

lemma write_next_below:
  "eq_below n s s' \<Longrightarrow> op_below n d \<Longrightarrow> res_below n (ostuck (write_op si d v s) QNext) (ostuck (write_op si d v s') QNext)"
  using write_below by (rule ostuck_below) auto

text \<open>Executing an instruction with inputs that read the same.\<close>

lemma exec_inputs_below:
  assumes "eq_below n s s'" and "\<forall>v\<in>set (outputs c). op_below n v" and "length xs = length (inputs c)"
    and "\<forall>i<length xs. read_op si s' (xs ! i) = read_op si s (inputs c ! i)" and "\<forall>t. c \<noteq> InstGBr t" and "\<forall>h a. c \<noteq> InstHcall h a"
  shows "res_below n (exec_inst si c s) (exec_inst si (set_inputs xs c) s')"
proof (cases "xs")
  case Nil
  then show ?thesis using assms by (cases c) auto
next
  case (Cons x xs')
  then have r: "read_op si s' x = read_op si s (inputs c ! 0)" using assms(4) by force
  have m: "qmem s' = qmem s" using assms(1) by (simp add: eq_below_def)
  show ?thesis
  proof (cases xs')
    case Nil
    then show ?thesis using assms(1,2,3,5,6) Cons r m
      by (cases c) (auto simp: ostuck_def eq_below_def [of n s s'] write_next_below [unfolded ostuck_def] split: option.splits)
  next
    case (Cons y ys)
    then have q: "read_op si s' y = read_op si s (inputs c ! 1)" using assms(4) \<open>xs = x # xs'\<close> by force
    show ?thesis using assms(1,2,3,5,6) Cons \<open>xs = x # xs'\<close> r q m
      by (cases c; cases ys) (auto simp: ostuck_def eq_below_def write_next_below [unfolded ostuck_def] split: option.splits)
  qed
qed

section \<open>Moves in front of an instruction\<close>

lemma is_view:
  "IsVGPR v \<longleftrightarrow> (\<exists>t r. view_of v = VVirt t r)" "IsConst v \<longleftrightarrow> (\<exists>t k. view_of v = VConst t k)"
  "GetVGPR v = Inr r \<longleftrightarrow> (\<exists>t. view_of v = VVirt t r)" "GetConst v = Inr k \<longleftrightarrow> (\<exists>t. view_of v = VConst t k)"
  "view_of v = VConst t k \<Longrightarrow> GetType v = t" "view_of v = VVirt t r \<Longrightarrow> GetType v = t"
  by (auto simp: view_of_def IsVGPR_def IsConst_def IsGPR_def GetVGPR_def GetConst_def split: Kind.splits if_splits)

lemma same_vgpr_view: "view_of d = VVirt t r \<Longrightarrow> same_vgpr v d \<longleftrightarrow> (\<exists>t'. view_of v = VVirt t' r)"
  unfolding same_vgpr_def using is_view(1,3) [of v] is_view(3) [of d] by (metis view.inject(2))

lemma vtrunc_merge [simp]: "vtrunc t (vmerge t old v) = vtrunc t v"
proof -
  have "(old AND NOT 255 OR v AND 255) AND 255 = v AND (255 :: u32)" "(old AND NOT 65535 OR v AND 65535) AND 65535 = v AND (65535 :: u32)"
    by (rule bit_word_eqI, auto simp: bit_simps)+
  then show ?thesis by (cases t) simp_all
qed

lemma vtrunc_idem [simp]: "vtrunc t (vtrunc t v) = vtrunc t v"
  by (cases t) (simp_all add: and.assoc)

lemma NumAll_AddLocal:
  "AddLocal type vi = (r, vi') \<Longrightarrow> glob_info vi' = glob_info vi \<and> NumAll vi' = Suc (NumAll vi) \<and> r = of_nat (NumAll vi)"
  by (auto simp: AddLocal_def NumAll_def add.commute)

lemma new_local:
  assumes "AddLocal type vi = (r, vi')" and "NumAll vi < 2 ^ 16"
  shows "unat r = NumAll vi" and "GetStateReg (glob_info vi) r = None"
proof -
  have r: "r = of_nat (NumAll vi)" using NumAll_AddLocal [OF assms(1)] by simp
  show u: "unat r = NumAll vi" using assms(2) by (simp add: r unsigned_of_nat take_bit_nat_eq_self)
  show "GetStateReg (glob_info vi) r = None" using u by (simp add: GetStateReg_def NumAll_def)
qed

lemma mov_temp:
  assumes "GetStateReg si r = None" and "t \<noteq> UNDEF" and "read_op si s v = Some (vtrunc t x)"
  shows "\<exists>s'. exec_inst si (InstUnop q_mov (MakeVGPR t r) v) s = QNext s' \<and> (\<forall>n\<le>unat r. eq_below n s s') \<and>
    read_op si s' (MakeVGPR t r) = Some (vtrunc t x)"
  using assms
  by (cases t) (auto simp: write_op_def write_vreg_def read_op_def read_vreg_def eq_below_def vtrunc_merge [of I8, simplified] vtrunc_merge [of I16, simplified] and.assoc)

text \<open>Lowering constants: the code in front, for any state, and what the new operands read.\<close>

definition lowered :: "StateInfo \<Rightarrow> nat \<Rightarrow> VOperand list \<Rightarrow> VOperand list \<Rightarrow> instc list \<Rightarrow> bool" where
  "lowered si n srcl srcl2 pre \<longleftrightarrow> length srcl2 = length srcl \<and> (\<forall>c\<in>set pre. \<exists>d v. c = InstUnop q_mov d v) \<and>
     (\<forall>s. \<exists>s2. exec_list si pre s = QNext s2 \<and> eq_below n s s2 \<and>
        (\<forall>i<length srcl. op_below n (srcl ! i) \<longrightarrow> read_op si s2 (srcl2 ! i) = read_op si s (srcl ! i)))"

lemma lowered_refl: "lowered si n srcl srcl []"
  by (simp add: lowered_def)

lemma sel_const_ok:
  assumes "i < length srcl" and "sel_src (srcl ! i)" and "NumAll vi < 2 ^ 16"
  shows "\<exists>pre2 x vi2. sel_const op_ct dn i \<lparr>sel_pre = pre, sel_srcl = srcl, sel_vregs = vi\<rparr> =
      Inr \<lparr>sel_pre = pre @ pre2, sel_srcl = srcl[i := x], sel_vregs = vi2\<rparr> \<and>
    glob_info vi2 = glob_info vi \<and> NumAll vi \<le> NumAll vi2 \<and> NumAll vi2 \<le> Suc (NumAll vi) \<and>
    sel_src x \<and> (x = srcl ! i \<or> (IsConst (srcl ! i) \<and> IsVGPR x \<and> op_below (NumAll vi2) x)) \<and>
    (\<forall>k. GetConst x = Inr k \<longrightarrow> ct_ci (op_ct ! (dn + i)) \<noteq> Imm_NO \<and> match_gp_const (ucast k) (ct_ci (op_ct ! (dn + i)))) \<and>
    lowered (glob_info vi) (NumAll vi) srcl (srcl[i := x]) pre2"
proof (cases "IsConst (srcl ! i)")
  case False
  then have "\<forall>k. GetConst (srcl ! i) \<noteq> Inr k" using is_view(2,4) by metis
  then show ?thesis using False assms lowered_refl
    by (intro exI [of _ "[]"] exI [of _ "srcl ! i"] exI [of _ vi]) (auto simp: sel_const_def)
next
  case True
  then obtain t k where v: "view_of (srcl ! i) = VConst t k" using is_view(2) by blast
  have g: "GetConst (srcl ! i) = Inr k" "GetType (srcl ! i) = t" "t \<noteq> UNDEF"
    using v is_view(4,5) assms(2) by (auto simp: sel_src_def)
  let ?ci = "ct_ci (op_ct ! (dn + i))"
  show ?thesis
  proof (cases "?ci \<noteq> Imm_NO \<and> match_gp_const (ucast k) ?ci")
    case m: True
    then have "sel_const op_ct dn i \<lparr>sel_pre = pre, sel_srcl = srcl, sel_vregs = vi\<rparr> = Inr \<lparr>sel_pre = pre, sel_srcl = srcl, sel_vregs = vi\<rparr>"
      using True g by (simp add: sel_const_def)
    then show ?thesis using g(1) m assms lowered_refl
      by (intro exI [of _ "[]"] exI [of _ "srcl ! i"] exI [of _ vi]) auto
  next
    case m: False
    obtain r vi2 where a: "AddLocal t vi = (r, vi2)" by (cases "AddLocal t vi")
    note n = NumAll_AddLocal [OF a] and nl = new_local [OF a assms(3)]
    let ?x = "MakeVGPR t r" and ?pre = "[InstUnop q_mov (MakeVGPR t r) (srcl ! i)]"
    have e: "sel_const op_ct dn i \<lparr>sel_pre = pre, sel_srcl = srcl, sel_vregs = vi\<rparr> =
        Inr \<lparr>sel_pre = pre @ ?pre, sel_srcl = srcl[i := ?x], sel_vregs = vi2\<rparr>"
      using True g m a by (auto simp: sel_const_def sel_temp_def sel_mov_def Let_def)
    have "lowered (glob_info vi) (NumAll vi) srcl (srcl[i := ?x]) ?pre"
      unfolding lowered_def
    proof (intro conjI allI)
      fix s
      have rd: "read_op (glob_info vi) s (srcl ! i) = Some (vtrunc t k)" using v by (simp add: read_op_def)
      from mov_temp [OF nl(2) g(3) rd] obtain s' where s': "exec_inst (glob_info vi) (InstUnop q_mov ?x (srcl ! i)) s = QNext s'"
          "eq_below (NumAll vi) s s'" "read_op (glob_info vi) s' ?x = Some (vtrunc t k)" using nl(1) by auto
      have "read_op (glob_info vi) s' (srcl[i := ?x] ! j) = read_op (glob_info vi) s (srcl ! j)"
        if "j < length srcl" "op_below (NumAll vi) (srcl ! j)" for j
        using that s'(3) rd read_below [OF s'(2)] by (cases "j = i") simp_all
      then show "\<exists>s2. exec_list (glob_info vi) ?pre s = QNext s2 \<and> eq_below (NumAll vi) s s2 \<and>
          (\<forall>j<length srcl. op_below (NumAll vi) (srcl ! j) \<longrightarrow> read_op (glob_info vi) s2 (srcl[i := ?x] ! j) = read_op (glob_info vi) s (srcl ! j))"
        using s' by auto
    qed auto
    moreover have "sel_src ?x" "op_below (NumAll vi2) ?x" using g(3) nl(1) n by (simp_all add: sel_src_def op_below_def)
    moreover have "GetConst ?x \<noteq> Inr kk" for kk by (simp add: GetConst_def)
    ultimately show ?thesis using e n True by (intro exI [of _ ?pre] exI [of _ ?x] exI [of _ vi2]) simp
  qed
qed

lemma lowered_trans:
  assumes "lowered si n srcl srcl1 pre1" and "lowered si m srcl1 srcl2 pre2" and "n \<le> m"
    and "\<forall>i<length srcl. op_below n (srcl ! i) \<longrightarrow> op_below m (srcl1 ! i)"
  shows "lowered si n srcl srcl2 (pre1 @ pre2)"
proof -
  have l: "length srcl2 = length srcl" "\<forall>c\<in>set (pre1 @ pre2). \<exists>d v. c = InstUnop q_mov d v" using assms(1,2) by (auto simp: lowered_def)
  have "\<exists>s2. exec_list si (pre1 @ pre2) s = QNext s2 \<and> eq_below n s s2 \<and>
      (\<forall>i<length srcl. op_below n (srcl ! i) \<longrightarrow> read_op si s2 (srcl2 ! i) = read_op si s (srcl ! i))" for s
  proof -
    obtain s1 where s1: "exec_list si pre1 s = QNext s1" "eq_below n s s1"
        "\<forall>i<length srcl. op_below n (srcl ! i) \<longrightarrow> read_op si s1 (srcl1 ! i) = read_op si s (srcl ! i)"
      using assms(1) unfolding lowered_def by blast
    obtain s2 where s2: "exec_list si pre2 s1 = QNext s2" "eq_below m s1 s2"
        "\<forall>i<length srcl1. op_below m (srcl1 ! i) \<longrightarrow> read_op si s2 (srcl2 ! i) = read_op si s1 (srcl1 ! i)"
      using assms(2) unfolding lowered_def by blast
    have "length srcl1 = length srcl" using assms(1) by (simp add: lowered_def)
    then show ?thesis using s1 s2 assms(3,4) eq_below_trans [OF s1(2) eq_below_le [OF s2(2) assms(3)]] by auto
  qed
  then show ?thesis using l by (simp add: lowered_def)
qed

definition const_ok :: "RAOpCt \<Rightarrow> VOperand \<Rightarrow> bool" where
  "const_ok ct v \<longleftrightarrow> (\<forall>k. GetConst v = Inr k \<longrightarrow> ct_ci ct \<noteq> Imm_NO \<and> match_gp_const (ucast k) (ct_ci ct))"

definition srcs_ok :: "nat \<Rightarrow> VOperand list \<Rightarrow> bool" where
  "srcs_ok n srcl \<longleftrightarrow> (\<forall>v\<in>set srcl. sel_src v \<and> op_below n v)"

lemma op_below_le: "op_below n v \<Longrightarrow> n \<le> m \<Longrightarrow> op_below m v"
  by (auto simp: op_below_def split: view.splits)

lemma sel_const_loop:
  assumes "\<forall>i\<in>set idx. i < length srcl" and "distinct idx" and "srcs_ok (NumAll vi) srcl" and "NumAll vi + length idx \<le> 2 ^ 16"
  shows "\<exists>pre2 srcl2 vi2. sel_loop (sel_const op_ct dn) idx \<lparr>sel_pre = pre, sel_srcl = srcl, sel_vregs = vi\<rparr> =
      Inr \<lparr>sel_pre = pre @ pre2, sel_srcl = srcl2, sel_vregs = vi2\<rparr> \<and>
    glob_info vi2 = glob_info vi \<and> NumAll vi \<le> NumAll vi2 \<and> NumAll vi2 \<le> NumAll vi + length idx \<and> srcs_ok (NumAll vi2) srcl2 \<and>
    (\<forall>j<length srcl. j \<notin> set idx \<or> IsVGPR (srcl ! j) \<longrightarrow> srcl2 ! j = srcl ! j) \<and>
    (\<forall>i\<in>set idx. const_ok (op_ct ! (dn + i)) (srcl2 ! i)) \<and> lowered (glob_info vi) (NumAll vi) srcl srcl2 pre2"
  using assms
proof (induction idx arbitrary: pre srcl vi)
  case Nil
  then show ?case using lowered_refl by (intro exI [of _ "[]"] exI [of _ srcl] exI [of _ vi]) auto
next
  case (Cons i idx)
  have i: "i < length srcl" "sel_src (srcl ! i)" "NumAll vi < 2 ^ 16" using Cons.prems by (auto simp: srcs_ok_def)
  from sel_const_ok [OF i, of op_ct dn pre] obtain pre1 x vi1 where
    x: "sel_const op_ct dn i \<lparr>sel_pre = pre, sel_srcl = srcl, sel_vregs = vi\<rparr> =
        Inr \<lparr>sel_pre = pre @ pre1, sel_srcl = srcl[i := x], sel_vregs = vi1\<rparr>"
      "glob_info vi1 = glob_info vi" "NumAll vi \<le> NumAll vi1" "NumAll vi1 \<le> Suc (NumAll vi)" "sel_src x"
      "x = srcl ! i \<or> IsConst (srcl ! i) \<and> IsVGPR x \<and> op_below (NumAll vi1) x" "const_ok (op_ct ! (dn + i)) x"
      "lowered (glob_info vi) (NumAll vi) srcl (srcl[i := x]) pre1" unfolding const_ok_def by blast
  have xb: "op_below (NumAll vi1) x" using x(3,6) Cons.prems(3) i(1) by (auto simp: srcs_ok_def intro: op_below_le)
  have s1: "srcs_ok (NumAll vi1) (srcl[i := x])"
    using Cons.prems(3) x(3,5) xb set_update_subset_insert [of srcl i x] by (auto simp: srcs_ok_def intro: op_below_le)
  have p: "\<forall>j\<in>set idx. j < length (srcl[i := x])" "distinct idx" "NumAll vi1 + length idx \<le> 2 ^ 16" "i \<notin> set idx"
    using Cons.prems x(4) by auto
  from Cons.IH [OF p(1,2) s1 p(3), of "pre @ pre1"] obtain pre2 srcl2 vi2 where
    y: "sel_loop (sel_const op_ct dn) idx \<lparr>sel_pre = pre @ pre1, sel_srcl = srcl[i := x], sel_vregs = vi1\<rparr> =
        Inr \<lparr>sel_pre = (pre @ pre1) @ pre2, sel_srcl = srcl2, sel_vregs = vi2\<rparr>"
      "glob_info vi2 = glob_info vi1" "NumAll vi1 \<le> NumAll vi2" "NumAll vi2 \<le> NumAll vi1 + length idx" "srcs_ok (NumAll vi2) srcl2"
      "\<forall>j<length (srcl[i := x]). j \<notin> set idx \<or> IsVGPR (srcl[i := x] ! j) \<longrightarrow> srcl2 ! j = srcl[i := x] ! j"
      "\<forall>i\<in>set idx. const_ok (op_ct ! (dn + i)) (srcl2 ! i)" "lowered (glob_info vi1) (NumAll vi1) (srcl[i := x]) srcl2 pre2" by blast
  have "op_below (NumAll vi1) (srcl[i := x] ! j)" if "j < length srcl" for j
    using s1 that by (auto simp: srcs_ok_def)
  then have l: "lowered (glob_info vi) (NumAll vi) srcl srcl2 (pre1 @ pre2)"
    using lowered_trans [OF x(8) y(8) [unfolded x(2)] x(3)] by simp
  have q: "srcl2 ! i = x" using y(6) p(4) i(1) by simp
  have nv: "IsVGPR (srcl ! i) \<Longrightarrow> x = srcl ! i" using x(6) is_view(1,2) by (metis view.distinct(1))
  have "srcl2 ! j = srcl ! j" if "j < length srcl" "j \<notin> set (i # idx) \<or> IsVGPR (srcl ! j)" for j
    using that y(6) q nv by (cases "j = i") auto
  then show ?case using x(1,2,3,4,7) y q l by (intro exI [of _ "pre1 @ pre2"] exI [of _ srcl2] exI [of _ vi2]) auto
qed

text \<open>What selecting an instruction gives.\<close>

definition sel_spec :: "VRegsInfo \<Rightarrow> instc \<Rightarrow> (instc list \<times> instc \<times> VRegsInfo) res \<Rightarrow> bool" where
  "sel_spec vi c r \<longleftrightarrow>
     (\<exists>pre c' vi'. r = Inr (pre, c', vi') \<and> glob_info vi' = glob_info vi \<and> NumAll vi \<le> NumAll vi' \<and> NumAll vi' \<le> NumAll vi + 3 \<and>
        selected c' \<and> (\<forall>m\<in>set pre. selected m) \<and> GetOpcode c' = GetOpcode c \<and>
        (\<forall>s. exec_inst (glob_info vi) c s \<noteq> QStuck \<longrightarrow>
           res_below (NumAll vi) (exec_inst (glob_info vi) c s) (exec_list (glob_info vi) (pre @ [c']) s)))"

lemma selected_mov: "selected (InstUnop q_mov d v)"
  by (simp add: selected_def ct_values meets_ct_def Let_def make_def_def Imm_NO_def match_gp_const_def Imm_ANY_def)

lemma lowered_movs: "lowered si n xs ys pre \<Longrightarrow> m \<in> set pre \<Longrightarrow> selected m"
  using selected_mov by (auto simp: lowered_def)

lemma exec_append_below:
  assumes "exec_list si pre s = QNext s1" and "res_below n r (exec_inst si c s1)"
  shows "res_below n r (exec_list si (pre @ [c]) s)"
  using assms by (cases r; cases "exec_inst si c s1") simp_all

lemma outputs_set_inputs [simp]: "outputs (set_inputs xs c) = outputs c" "GetOpcode (set_inputs xs c) = GetOpcode c"
  by (cases "(xs, c)" rule: set_inputs.cases; simp)+

lemma inputs_set_inputs:
  "length xs = length (inputs c) \<Longrightarrow> \<forall>h a. c \<noteq> InstHcall h a \<Longrightarrow> inputs (set_inputs xs c) = xs"
  by (cases c) (auto simp: length_Suc_conv numeral_2_eq_2)

lemma sel_loop_same: "(\<And>i. i \<in> set idx \<Longrightarrow> f i st = Inr st) \<Longrightarrow> sel_loop f idx st = Inr st"
  by (induction idx) simp_all

lemma select_no_alias:
  assumes "ra_info (GetOpcode c) = Some (op_ct, ord)" and "\<forall>i<length (inputs c). \<not> ct_has_alias (op_ct ! (length (outputs c) + i))"
    and "srcs_ok (NumAll vi) (inputs c)" and "\<forall>v\<in>set (outputs c). op_below (NumAll vi) v" and "NumAll vi + 3 \<le> 2 ^ 16"
    and "\<forall>t. c \<noteq> InstGBr t" and "\<forall>h a. c \<noteq> InstHcall h a"
  shows "sel_spec vi c (SelectOperands c vi)"
proof -
  let ?st = "\<lparr>sel_pre = [], sel_srcl = inputs c, sel_vregs = vi\<rparr>" and ?dn = "length (outputs c)"
  have a: "sel_loop (sel_alias op_ct (outputs c)) [0..<length (inputs c)] ?st = Inr ?st"
    using assms(2) by (intro sel_loop_same) (simp add: sel_alias_def)
  have len: "length (inputs c) \<le> 2" by (cases c) simp_all
  have b: "\<forall>i\<in>set [0..<length (inputs c)]. i < length (inputs c)" "NumAll vi + length [0..<length (inputs c)] \<le> 2 ^ 16"
    using assms(5) len by auto
  obtain pre srcl2 vi2 where
    y: "sel_loop (sel_const op_ct ?dn) [0..<length (inputs c)] ?st = Inr \<lparr>sel_pre = [] @ pre, sel_srcl = srcl2, sel_vregs = vi2\<rparr>"
      "glob_info vi2 = glob_info vi" "NumAll vi \<le> NumAll vi2" "NumAll vi2 \<le> NumAll vi + length [0..<length (inputs c)]"
      "\<forall>i\<in>set [0..<length (inputs c)]. const_ok (op_ct ! (?dn + i)) (srcl2 ! i)"
      "lowered (glob_info vi) (NumAll vi) (inputs c) srcl2 pre"
    using sel_const_loop [OF b(1) distinct_upt assms(3) b(2), of op_ct ?dn "[]"] by blast
  have l: "length srcl2 = length (inputs c)" using y(6) by (simp add: lowered_def)
  have "SelectOperands c vi = Inr (pre, set_inputs srcl2 c, vi2)" using assms(1) a y(1) by (simp add: SelectOperands_def Let_def)
  moreover have "selected (set_inputs srcl2 c)"
    using assms(1,2,7) y(5) l by (auto simp: selected_def meets_ct_def inputs_set_inputs const_ok_def Let_def)
  moreover have "res_below (NumAll vi) (exec_inst (glob_info vi) c s) (exec_list (glob_info vi) (pre @ [set_inputs srcl2 c]) s)" for s
  proof -
    obtain s2 where s2: "exec_list (glob_info vi) pre s = QNext s2" "eq_below (NumAll vi) s s2"
        "\<forall>i<length (inputs c). op_below (NumAll vi) (inputs c ! i) \<longrightarrow> read_op (glob_info vi) s2 (srcl2 ! i) = read_op (glob_info vi) s (inputs c ! i)"
      using y(6) unfolding lowered_def by blast
    have r: "\<forall>i<length srcl2. read_op (glob_info vi) s2 (srcl2 ! i) = read_op (glob_info vi) s (inputs c ! i)"
      using s2(3) l assms(3) by (simp add: srcs_ok_def)
    show ?thesis by (rule exec_append_below [OF s2(1) exec_inputs_below [OF s2(2) assms(4) l r assms(6,7)]])
  qed
  ultimately show ?thesis using y(2-4) len lowered_movs [OF y(6)] unfolding sel_spec_def by auto
qed

section \<open>Arithmetic\<close>

definition offs_distinct :: "StateInfo \<Rightarrow> bool" where
  "offs_distinct si \<longleftrightarrow> distinct (map state_offs (si_regs si))"

lemma state_read_write:
  assumes "state_write k v c = Some c'"
  shows "state_read c' k = Some v" and "k' \<noteq> k \<Longrightarrow> state_read c' k' = state_read c k'" and "state_write k w c' = state_write k w c"
proof -
  have d: "of_nat (unat k div 4) \<noteq> (of_nat (unat k' div 4) :: u8)"
    if "unat k < 128" "unat k' < 128" "unat k mod 4 = 0" "unat k' mod 4 = 0" "k \<noteq> k'"
  proof
    assume e: "of_nat (unat k div 4) = (of_nat (unat k' div 4) :: u8)"
    have "unat (of_nat (unat k div 4) :: u8) = unat k div 4" "unat (of_nat (unat k' div 4) :: u8) = unat k' div 4"
      using that(1,2) by (simp_all add: unsigned_of_nat take_bit_nat_eq_self less_mult_imp_div_less)
    then have "unat k div 4 = unat k' div 4" using e by metis
    then have "unat k = unat k'" using that(3,4) div_mult_mod_eq [of "unat k" 4] div_mult_mod_eq [of "unat k'" 4] by simp
    then show False using that(5) unsigned_word_eqI by blast
  qed
  show "state_read c' k = Some v" "state_write k w c' = state_write k w c"
    using assms by (auto simp: state_read_def state_write_def split: if_splits)
  show "state_read c' k' = state_read c k'" if "k' \<noteq> k"
  proof (cases "unat k < 128 \<and> unat k mod 4 = 0")
    case True
    then have c: "c' = c\<lparr>gpr := (gpr c)(of_nat (unat k div 4) := v)\<rparr>" using assms by (simp add: state_write_def)
    show ?thesis
    proof (cases "unat k' < 128 \<and> unat k' mod 4 = 0")
      case t: True
      have "of_nat (unat k' div 4) \<noteq> (of_nat (unat k div 4) :: u8)" using d True t that by metis
      then show ?thesis using t unfolding c by (simp add: state_read_def)
    next
      case False
      then show ?thesis unfolding c by (auto simp: state_read_def)
    qed
  next
    case False
    then have "k = 128" "c' = c\<lparr>ip := v\<rparr>" using assms by (auto simp: state_write_def split: if_splits)
    then show ?thesis using that by (simp add: state_read_def)
  qed
qed

lemma offs_of_reg:
  assumes "offs_distinct si" and "GetStateReg si r = Some a" and "GetStateReg si r' = Some b" and "r \<noteq> r'"
  shows "state_offs a \<noteq> state_offs b"
proof -
  have "unat r \<noteq> unat r'" using assms(4) unsigned_word_eqI by blast
  then show ?thesis using assms(1-3) by (auto simp: offs_distinct_def GetStateReg_def si_n_regs_def distinct_conv_nth split: if_splits)
qed

lemma write_vreg_facts:
  assumes "write_vreg si r v s = Some s'"
  shows "read_vreg si s' r = Some v" and "write_vreg si r w s' = write_vreg si r w s" and "write_vreg si r w s \<noteq> None"
    and "offs_distinct si \<Longrightarrow> r' \<noteq> r \<Longrightarrow> read_vreg si s' r' = read_vreg si s r'" and "qmem s' = qmem s"
proof -
  have n: "state_write k v c = Some c' \<Longrightarrow> state_write k w c \<noteq> None" for k c c' by (auto simp: state_write_def split: if_splits)
  show "read_vreg si s' r = Some v" "write_vreg si r w s' = write_vreg si r w s" "write_vreg si r w s \<noteq> None" "qmem s' = qmem s"
    using assms n by (auto simp: write_vreg_def read_vreg_def state_read_write(1,3) split: option.splits)
  show "read_vreg si s' r' = read_vreg si s r'" if "offs_distinct si" "r' \<noteq> r"
    using assms that offs_of_reg [OF that(1)] state_read_write(2)
    by (auto simp: write_vreg_def read_vreg_def split: option.splits)
qed

lemma write_op_vreg: "view_of d = VVirt I32 r \<Longrightarrow> write_op si d v s = write_vreg si r v s"
  by (simp add: write_op_def)

lemma read_other:
  assumes "write_vreg si r v s = Some s'" and "offs_distinct si" and "sel_src b" and "\<not> (\<exists>t. view_of b = VVirt t r)"
  shows "read_op si s' b = read_op si s b"
  using assms write_vreg_facts(4) [OF assms(1,2)]
  by (auto simp: read_op_def sel_src_def split: view.splits)

lemma sel_src32_src: "sel_src32 v \<Longrightarrow> sel_src v"
  by (auto simp: sel_src32_def sel_src_def split: view.splits)

lemma exec_binop:
  assumes "exec_inst si (InstBinop op d a b) s \<noteq> QStuck" and "view_of d = VVirt I32 r"
  obtains x y v t where "read_op si s a = Some x" "read_op si s b = Some y" "eval_binop op x y = Some v" "write_vreg si r v s = Some t"
    "exec_inst si (InstBinop op d a b) s = QNext t"
  using assms by (auto simp: ostuck_def write_op_vreg split: option.splits)

text \<open>The aliased input: the code in front of the instruction and the instruction's inputs after it.\<close>

definition alias_code :: "VOperand \<Rightarrow> VOperand \<Rightarrow> VOperand \<Rightarrow> VRegsInfo \<Rightarrow> instc list \<times> VOperand list \<times> VRegsInfo" where
  "alias_code d a b vi =
     (if same_vgpr a d then ([], [a, b], vi)
      else if same_vgpr b d
      then let (r, vi') = AddLocal (GetType d) vi; tmp = MakeVGPR (GetType d) r
           in ([InstUnop q_mov tmp d, InstUnop q_mov d a], [d, tmp], vi')
      else ([InstUnop q_mov d a], [d, b], vi))"

lemma sel_alias_code:
  assumes "IsVGPR d" and "op_ct = [SetAlias 1 ct0, SetAlias 0 ct0, ct2]" and "\<not> ct_has_alias ct2"
    and "alias_code d a b vi = (pre, srcl, vi')"
  shows "sel_loop (sel_alias op_ct [d]) [0..<2] \<lparr>sel_pre = [], sel_srcl = [a, b], sel_vregs = vi\<rparr> =
    Inr \<lparr>sel_pre = pre, sel_srcl = srcl, sel_vregs = vi'\<rparr>"
proof -
  have "[0..<2] = [0, Suc 0]" by (simp add: upt_rec)
  moreover have "other_inputs 0 d [a, b] = (if same_vgpr b d then [Suc 0] else [])" by (simp add: other_inputs_def upt_rec)
  moreover obtain r vi2 where "AddLocal (GetType d) vi = (r, vi2)" by (cases "AddLocal (GetType d) vi")
  ultimately show ?thesis
    using assms
    by (cases "same_vgpr a d"; cases "same_vgpr b d")
      (auto simp: sel_alias_def SetAlias_def alias_code_def sel_temp_def sel_mov_def Let_def upt_rec)
qed

lemma alias_code_ok:
  assumes d: "view_of d = VVirt I32 r" "unat r < NumAll vi" and si: "offs_distinct (glob_info vi)" and n: "NumAll vi < 2 ^ 16"
    and ab: "sel_src32 a" "sel_src32 b" "op_below (NumAll vi) a" "op_below (NumAll vi) b"
    and c: "alias_code d a b vi = (pre, srcl, vi')"
  shows "\<exists>x y. srcl = [x, y] \<and> same_vgpr x d \<and> sel_src32 x \<and> sel_src32 y \<and> op_below (NumAll vi') x \<and> op_below (NumAll vi') y \<and>
    glob_info vi' = glob_info vi \<and> NumAll vi \<le> NumAll vi' \<and> NumAll vi' \<le> Suc (NumAll vi) \<and> (\<forall>m\<in>set pre. \<exists>e v. m = InstUnop q_mov e v) \<and>
    (\<forall>op s. exec_inst (glob_info vi) (InstBinop op d a b) s \<noteq> QStuck \<longrightarrow>
       (\<exists>s1. exec_list (glob_info vi) pre s = QNext s1 \<and>
          res_below (NumAll vi) (exec_inst (glob_info vi) (InstBinop op d a b) s) (exec_inst (glob_info vi) (InstBinop op d x y) s1)))"
proof -
  let ?si = "glob_info vi"
  have res_refl: "res_below n q q" for n q by (cases q) auto
  have dv: "sel_src32 d" "op_below (NumAll vi) d" "same_vgpr d d" "GetType d = I32"
    using d is_view(6) [OF d(1)] same_vgpr_view [OF d(1), of d] by (auto simp: sel_src32_def op_below_def)
  consider (A) "same_vgpr a d" | (B) "\<not> same_vgpr a d" "same_vgpr b d" | (C) "\<not> same_vgpr a d" "\<not> same_vgpr b d" by blast
  then show ?thesis
  proof cases
    case A
    then show ?thesis using c ab res_refl by (auto simp: alias_code_def)
  next
    case C
    then have e: "pre = [InstUnop q_mov d a]" "srcl = [d, b]" "vi' = vi" using c by (auto simp: alias_code_def)
    have "\<exists>s1. exec_list ?si pre s = QNext s1 \<and> res_below (NumAll vi) (exec_inst ?si (InstBinop op d a b) s) (exec_inst ?si (InstBinop op d d b) s1)"
      if st: "exec_inst ?si (InstBinop op d a b) s \<noteq> QStuck" for op s
    proof -
      obtain x y v t where o: "read_op ?si s a = Some x" "read_op ?si s b = Some y" "eval_binop op x y = Some v"
          "write_vreg ?si r v s = Some t" "exec_inst ?si (InstBinop op d a b) s = QNext t" by (rule exec_binop [OF st d(1)])
      obtain s1 where s1: "write_vreg ?si r x s = Some s1" using write_vreg_facts(3) [OF o(4), of x] by auto
      note w = write_vreg_facts [OF s1]
      have "read_op ?si s1 b = Some y" using read_other [OF s1 si sel_src32_src [OF ab(2)]] same_vgpr_view [OF d(1)] C(2) o(2) by simp
      moreover have "read_op ?si s1 d = Some x" using w(1) d(1) by (simp add: read_op_def)
      ultimately have "exec_inst ?si (InstBinop op d d b) s1 = QNext t" using o(3,4) w(2) by (simp add: write_op_vreg [OF d(1)])
      then show ?thesis using e(1) o(1,5) s1 by (auto simp: write_op_vreg [OF d(1)])
    qed
    then show ?thesis using e dv ab by auto
  next
    case B
    obtain q vi2 where q: "AddLocal I32 vi = (q, vi2)" by (cases "AddLocal I32 vi")
    note nl = new_local [OF q n] and na = NumAll_AddLocal [OF q]
    let ?tmp = "MakeVGPR I32 q"
    have e: "pre = [InstUnop q_mov ?tmp d, InstUnop q_mov d a]" "srcl = [d, ?tmp]" "vi' = vi2"
      using c B q dv(4) by (auto simp: alias_code_def Let_def)
    obtain tb where bv: "view_of b = VVirt tb r" using B(2) same_vgpr_view [OF d(1)] by blast
    then have bv: "view_of b = VVirt I32 r" using ab(2) by (auto simp: sel_src32_def)
    have qr: "q \<noteq> r" using nl(1) d(2) by auto
    have "\<exists>s1. exec_list ?si pre s = QNext s1 \<and> res_below (NumAll vi) (exec_inst ?si (InstBinop op d a b) s) (exec_inst ?si (InstBinop op d d ?tmp) s1)"
      if st: "exec_inst ?si (InstBinop op d a b) s \<noteq> QStuck" for op s
    proof -
      obtain x y v t where o: "read_op ?si s a = Some x" "read_op ?si s b = Some y" "eval_binop op x y = Some v"
          "write_vreg ?si r v s = Some t" "exec_inst ?si (InstBinop op d a b) s = QNext t" by (rule exec_binop [OF st d(1)])
      have rd: "read_op ?si s d = Some (vtrunc I32 y)" using o(2) bv d(1) by (simp add: read_op_def)
      obtain s0 where s0: "exec_inst ?si (InstUnop q_mov ?tmp d) s = QNext s0" "eq_below (NumAll vi) s s0" "read_op ?si s0 ?tmp = Some y"
        using mov_temp [OF nl(2) _ rd] nl(1) by auto
      have ra: "read_op ?si s0 a = Some x" using read_below [OF s0(2) ab(3)] o(1) by simp
      have "rel_option (eq_below (NumAll vi)) (write_op ?si d v s) (write_op ?si d v s0)" using write_below [OF s0(2) dv(2)] .
      then obtain t0 where t0: "write_vreg ?si r v s0 = Some t0" "eq_below (NumAll vi) t t0"
        using o(4) by (auto simp: write_op_vreg [OF d(1)] option_rel_Some1)
      obtain s1 where s1: "write_vreg ?si r x s0 = Some s1" using write_vreg_facts(3) [OF t0(1), of x] by auto
      note w = write_vreg_facts [OF s1]
      have "read_op ?si s1 ?tmp = Some y" using read_other [OF s1 si, of ?tmp] qr s0(3) by (simp add: sel_src_def)
      moreover have "read_op ?si s1 d = Some x" using w(1) d(1) by (simp add: read_op_def)
      ultimately have "exec_inst ?si (InstBinop op d d ?tmp) s1 = QNext t0" using o(3) t0(1) w(2) by (simp add: write_op_vreg [OF d(1)])
      moreover have "exec_list ?si pre s = QNext s1" using e(1) s0(1) ra s1 by (simp add: write_op_vreg [OF d(1)])
      ultimately show ?thesis using o(5) t0(2) by auto
    qed
    moreover have "sel_src32 ?tmp" "op_below (NumAll vi2) ?tmp" using nl(1) na by (simp_all add: sel_src32_def op_below_def)
    ultimately show ?thesis using e dv na op_below_le [OF dv(2)] by auto
  qed
qed

lemma select_binop:
  assumes "sel_typed (InstBinop op d a b)" and "inst_below (NumAll vi) (InstBinop op d a b)"
    and "offs_distinct (glob_info vi)" and "NumAll vi + 3 \<le> 2 ^ 16"
  shows "sel_spec vi (InstBinop op d a b) (SelectOperands (InstBinop op d a b) vi)"
proof -
  let ?si = "glob_info vi" and ?c = "InstBinop op d a b"
  obtain r where d: "view_of d = VVirt I32 r" using assms(1) by (auto simp: sel_dst_def split: view.splits)
  have b: "unat r < NumAll vi" "op_below (NumAll vi) a" "op_below (NumAll vi) b" "sel_src32 a" "sel_src32 b" "NumAll vi < 2 ^ 16"
    using assms d by (auto simp: inst_below_def op_below_def)
  obtain ct0 ct2 ord where ct: "ra_info op = Some ([SetAlias 1 ct0, SetAlias 0 ct0, ct2], ord)" "\<not> ct_has_alias ct2"
    using assms(1) by (cases op) (auto simp: InstBinop_HasOpcode_def ct_values make_def_def)
  let ?ct = "[SetAlias 1 ct0, SetAlias 0 ct0, ct2]"
  obtain pre srcl vi1 where ac: "alias_code d a b vi = (pre, srcl, vi1)" by (cases "alias_code d a b vi")
  obtain x y where xy: "srcl = [x, y]" "same_vgpr x d" "sel_src32 x" "sel_src32 y" "op_below (NumAll vi1) x" "op_below (NumAll vi1) y"
      "glob_info vi1 = ?si" "NumAll vi \<le> NumAll vi1" "NumAll vi1 \<le> Suc (NumAll vi)" "\<forall>m\<in>set pre. \<exists>e v. m = InstUnop q_mov e v"
      and ex: "\<forall>op s. exec_inst ?si (InstBinop op d a b) s \<noteq> QStuck \<longrightarrow> (\<exists>s1. exec_list ?si pre s = QNext s1 \<and>
          res_below (NumAll vi) (exec_inst ?si (InstBinop op d a b) s) (exec_inst ?si (InstBinop op d x y) s1))"
    using alias_code_ok [OF d b(1) assms(3) b(6) b(4,5) b(2,3) ac] by auto
  have vd: "IsVGPR d" "IsVGPR x" using d is_view(1) xy(2) by (auto simp: same_vgpr_def)
  note al = sel_alias_code [OF vd(1) refl ct(2) ac, of ct0]
  have so: "srcs_ok (NumAll vi1) [x, y]" using xy(3-6) sel_src32_src by (simp add: srcs_ok_def)
  have h: "\<forall>i\<in>set [0..<2]. i < length [x, y]" "NumAll vi1 + length [0..<2] \<le> 2 ^ 16" using assms(4) xy(9) by auto
  obtain pre2 srcl2 vi2 where
    l: "sel_loop (sel_const ?ct 1) [0..<2] \<lparr>sel_pre = pre, sel_srcl = [x, y], sel_vregs = vi1\<rparr> = Inr \<lparr>sel_pre = pre @ pre2, sel_srcl = srcl2, sel_vregs = vi2\<rparr>"
      "glob_info vi2 = glob_info vi1" "NumAll vi1 \<le> NumAll vi2" "NumAll vi2 \<le> NumAll vi1 + length [0..<2]"
      "\<forall>j<length [x, y]. j \<notin> set [0..<2] \<or> IsVGPR ([x, y] ! j) \<longrightarrow> srcl2 ! j = [x, y] ! j"
      "\<forall>i\<in>set [0..<2]. const_ok (?ct ! (1 + i)) (srcl2 ! i)" "lowered (glob_info vi1) (NumAll vi1) [x, y] srcl2 pre2"
    using sel_const_loop [OF h(1) distinct_upt so h(2), of ?ct 1 pre] by blast
  have len: "length srcl2 = 2" using l(7) by (simp add: lowered_def)
  then obtain y2 where s2: "srcl2 = [x, y2]" using l(5) vd(2) by (auto simp: length_Suc_conv numeral_2_eq_2)
  have "SelectOperands ?c vi = rbind (sel_loop (sel_alias ?ct [d]) [0..<2] \<lparr>sel_pre = [], sel_srcl = [a, b], sel_vregs = vi\<rparr>) (\<lambda>st.
      rbind (sel_loop (sel_const ?ct 1) [0..<2] st) (\<lambda>st. Inr (sel_pre st, set_inputs (sel_srcl st) ?c, sel_vregs st)))"
    using ct(1) by (simp add: SelectOperands_def numeral_2_eq_2 Let_def del: upt_Suc)
  then have so: "SelectOperands ?c vi = Inr (pre @ pre2, InstBinop op d x y2, vi2)"
    unfolding al xy(1) rbind_simps l(1) by (simp add: s2)
  have "selected (InstBinop op d x y2)"
  proof -
    have "1 \<in> set [0..<2 :: nat]" by simp
    then have "const_ok (?ct ! (1 + 1)) (srcl2 ! 1)" using l(6) by blast
    then have ci: "const_ok ct2 y2" by (simp add: s2)
    have nc: "\<not> IsConst x" using vd(2) is_view(1,2) [of x] by auto
    have "GetConst x \<noteq> Inr k" for k using nc is_view(2,4) by blast
    then show ?thesis using ct ci xy(2)
      by (auto simp: selected_def meets_ct_def SetAlias_def Let_def less_Suc_eq const_ok_def)
  qed
  moreover have "res_below (NumAll vi) (exec_inst ?si ?c s) (exec_list ?si ((pre @ pre2) @ [InstBinop op d x y2]) s)"
    if ns: "exec_inst ?si ?c s \<noteq> QStuck" for s
  proof -
    obtain s1 where s1: "exec_list ?si pre s = QNext s1"
        "res_below (NumAll vi) (exec_inst ?si ?c s) (exec_inst ?si (InstBinop op d x y) s1)" using ex ns by blast
    obtain t where t: "exec_list ?si pre2 s1 = QNext t" "eq_below (NumAll vi1) s1 t"
        "\<forall>i<length [x, y]. op_below (NumAll vi1) ([x, y] ! i) \<longrightarrow> read_op ?si t (srcl2 ! i) = read_op ?si s1 ([x, y] ! i)"
      using l(7) xy(7) unfolding lowered_def by metis
    have rd: "\<forall>i<length srcl2. read_op ?si t (srcl2 ! i) = read_op ?si s1 (inputs (InstBinop op d x y) ! i)"
      using t(3) xy(5,6) len by (auto simp: less_Suc_eq numeral_2_eq_2)
    have od: "\<forall>v\<in>set (outputs (InstBinop op d x y)). op_below (NumAll vi1) v" using d b(1) xy(8) by (simp add: op_below_def)
    have "res_below (NumAll vi1) (exec_inst ?si (InstBinop op d x y) s1) (exec_inst ?si (InstBinop op d x y2) t)"
      using exec_inputs_below [OF t(2) od _ rd] len s2 by simp
    then have "res_below (NumAll vi) (exec_inst ?si ?c s) (exec_inst ?si (InstBinop op d x y2) t)"
      using res_below_trans [OF s1(2)] res_below_le xy(8) by blast
    then show ?thesis using s1(1) t(1) by (intro exec_append_below) simp_all
  qed
  moreover have "\<forall>m\<in>set (pre @ pre2). selected m" using lowered_movs [OF l(7)] xy(10) selected_mov by auto
  moreover have "NumAll vi \<le> NumAll vi2" "NumAll vi2 \<le> NumAll vi + 3" "glob_info vi2 = ?si" using l(2-4) xy(7-9) by auto
  ultimately show ?thesis using so unfolding sel_spec_def
    by (intro exI [of _ "pre @ pre2"] exI [of _ "InstBinop op d x y2"] exI [of _ vi2]) (simp only: GetOpcode.simps simp_thms, blast)
qed

section \<open>Blocks\<close>

lemma QSelVisitor_ok:
  assumes "sel_typed c" and "inst_below (NumAll vi) c" and "offs_distinct (glob_info vi)" and "NumAll vi + 3 \<le> 2 ^ 16"
  shows "sel_spec vi c (QSelVisitor c vi)"
proof -
  have rr: "res_below n q q" for n q by (cases q) auto
  have io: "srcs_ok (NumAll vi) (inputs c)" "\<forall>v\<in>set (outputs c). op_below (NumAll vi) v"
    if "\<forall>v\<in>set (inputs c). sel_src v" using that assms(2) by (auto simp: srcs_ok_def inst_below_def)
  show ?thesis
  proof (cases c)
    case (InstBinop op d a b)
    then show ?thesis using select_binop assms by (simp add: QSelVisitor_def)
  next
    case InstBr
    then show ?thesis using rr by (auto simp: QSelVisitor_def sel_spec_def selected_def)
  next
    case (InstGBr t)
    then show ?thesis using rr by (auto simp: QSelVisitor_def sel_spec_def selected_def split: qres.splits)
  next
    case (InstHcall h t)
    have e: "exec_list si [c] s = exec_inst si c s" for si s by (cases "exec_inst si c s") simp_all
    show ?thesis unfolding sel_spec_def
      by (rule exI [of _ "[]"], rule exI [of _ c], rule exI [of _ vi])
        (simp add: QSelVisitor_def InstHcall selected_def e [unfolded InstHcall] rr del: exec_list.simps exec_inst.simps)
  next
    case (InstUnop op d v)
    then have "sel_spec vi c (SelectOperands c vi)"
      using assms(1,4) io by (intro select_no_alias [where op_ct = "fst CT_r_ri" and ord = "snd CT_r_ri"]) (auto simp: ct_values make_def_def)
    then show ?thesis using InstUnop by (simp add: QSelVisitor_def)
  next
    case (InstSetcc cc d a b)
    then have "sel_spec vi c (SelectOperands c vi)"
      using assms(1,4) io by (intro select_no_alias [where op_ct = "fst CT_r8_r_rs32" and ord = "snd CT_r8_r_rs32"])
        (auto simp: ct_values make_def_def less_Suc_eq numeral_2_eq_2)
    then show ?thesis using InstSetcc by (simp add: QSelVisitor_def)
  next
    case (InstBrcc cc a b)
    then have "sel_spec vi c (SelectOperands c vi)"
      using assms(1,4) io by (intro select_no_alias [where op_ct = "fst CT_r_rs32" and ord = "snd CT_r_rs32"])
        (auto simp: ct_values make_def_def less_Suc_eq numeral_2_eq_2)
    then show ?thesis using InstBrcc by (simp add: QSelVisitor_def)
  next
    case (InstGBrind t)
    then have "sel_spec vi c (SelectOperands c vi)"
      using assms(1,4) io by (intro select_no_alias [where op_ct = "fst CT_si" and ord = "snd CT_si"]) (auto simp: ct_values make_def_def)
    then show ?thesis using InstGBrind by (simp add: QSelVisitor_def)
  next
    case (InstVMLoad sz sg d p)
    then have "sel_spec vi c (SelectOperands c vi)"
      using assms(1,4) io by (intro select_no_alias [where op_ct = "fst CT_r_ru32" and ord = "snd CT_r_ru32"]) (auto simp: ct_values make_def_def)
    then show ?thesis using InstVMLoad by (simp add: QSelVisitor_def)
  next
    case (InstVMStore sz sg p v)
    then have "sel_spec vi c (SelectOperands c vi)"
      using assms(1,4) io by (intro select_no_alias [where op_ct = "fst CT_ri_r" and ord = "snd CT_ri_r"])
        (auto simp: ct_values make_def_def less_Suc_eq numeral_2_eq_2)
    then show ?thesis using InstVMStore by (simp add: QSelVisitor_def)
  qed
qed

lemma exec_below:
  assumes "eq_below n s s'" and "inst_below n c" and "sel_typed c"
  shows "res_below n (exec_inst si c s) (exec_inst si c s')"
proof (cases "(\<exists>t. c = InstGBr t) \<or> (\<exists>h a. c = InstHcall h a)")
  case True
  have eq: "qcpu s' = qcpu s" "qmem s' = qmem s" using assms(1) by (simp_all add: eq_below_def)
  have rd: "read_op si s' v = read_op si s v" if "IsConst v" for v
    using that read_below [OF assms(1), of v] by (auto simp: is_view(2) op_below_def)
  from True assms(1,3) show ?thesis
    by (auto simp: eq rd ostuck_def eq_below_def split: option.splits hres.splits)
next
  case False
  have "set_inputs (inputs c) c = c" using False by (cases c) auto
  moreover have "\<forall>i<length (inputs c). read_op si s' (inputs c ! i) = read_op si s (inputs c ! i)"
    using assms(2) read_below [OF assms(1)] by (simp add: inst_below_def)
  ultimately show ?thesis
    using exec_inputs_below [OF assms(1) _ refl, of c si] False assms(2) by (auto simp: inst_below_def)
qed

definition sel_code :: "nat \<Rightarrow> instc list \<Rightarrow> bool" where
  "sel_code n cs \<longleftrightarrow> (\<forall>c\<in>set cs. sel_typed c \<and> inst_below n c)"

definition has_call :: "instc list \<Rightarrow> bool" where
  "has_call cs \<longleftrightarrow> (\<exists>c\<in>set cs. GetOpFlags (GetOpcode c) AND Inst_HAS_CALLS \<noteq> 0)"

lemma inst_below_le: "inst_below n c \<Longrightarrow> n \<le> m \<Longrightarrow> inst_below m c"
  by (auto simp: inst_below_def intro: op_below_le)

lemma exec_cons_below:
  assumes "res_below n (exec_inst si c s) (exec_list si code s')"
    and "\<And>t t'. exec_inst si c s = QNext t \<Longrightarrow> eq_below n t t' \<Longrightarrow> exec_list si cs t \<noteq> QStuck \<Longrightarrow>
      res_below n (exec_list si cs t) (exec_list si code' t')"
    and "exec_list si (c # cs) s \<noteq> QStuck"
  shows "res_below n (exec_list si (c # cs) s) (exec_list si (code @ code') s')"
  using assms by (cases "exec_inst si c s"; cases "exec_list si code s'") auto

lemma sel_block_ok:
  assumes "sel_code n cs" and "n \<le> NumAll vi" and "offs_distinct (glob_info vi)" and "NumAll vi + 3 * length cs \<le> 2 ^ 16"
  shows "\<exists>cs' vi'. sel_block cs vi hc = Inr (cs', vi', hc \<or> has_call cs) \<and> glob_info vi' = glob_info vi \<and>
    NumAll vi \<le> NumAll vi' \<and> NumAll vi' \<le> NumAll vi + 3 * length cs \<and> (\<forall>c\<in>set cs'. selected c) \<and>
    (\<forall>s s'. eq_below n s s' \<longrightarrow> exec_list (glob_info vi) cs s \<noteq> QStuck \<longrightarrow>
       res_below n (exec_list (glob_info vi) cs s) (exec_list (glob_info vi) cs' s'))"
  using assms
proof (induction cs arbitrary: vi hc)
  case Nil
  then show ?case by (auto simp: has_call_def)
next
  case (Cons c cs)
  let ?si = "glob_info vi"
  have c: "sel_typed c" "inst_below n c" using Cons.prems(1) by (simp_all add: sel_code_def)
  have "sel_spec vi c (QSelVisitor c vi)"
    using QSelVisitor_ok [OF c(1) inst_below_le [OF c(2) Cons.prems(2)] Cons.prems(3)] Cons.prems(4) by simp
  then obtain pre c' vi1 where
    v: "QSelVisitor c vi = Inr (pre, c', vi1)" "glob_info vi1 = ?si" "NumAll vi \<le> NumAll vi1" "NumAll vi1 \<le> NumAll vi + 3"
      "selected c'" "\<forall>m\<in>set pre. selected m" "GetOpcode c' = GetOpcode c"
    and ex: "\<And>s. exec_inst ?si c s \<noteq> QStuck \<Longrightarrow> res_below (NumAll vi) (exec_inst ?si c s) (exec_list ?si (pre @ [c']) s)"
    unfolding sel_spec_def by blast
  let ?hc = "hc \<or> GetOpFlags (GetOpcode c') AND Inst_HAS_CALLS \<noteq> 0"
  have "sel_code n cs" "n \<le> NumAll vi1" "offs_distinct (glob_info vi1)" "NumAll vi1 + 3 * length cs \<le> 2 ^ 16"
    using Cons.prems v(2-4) by (simp_all add: sel_code_def)
  from Cons.IH [OF this, of ?hc] obtain cs' vi2 where
    b: "sel_block cs vi1 ?hc = Inr (cs', vi2, ?hc \<or> has_call cs)" "glob_info vi2 = glob_info vi1" "NumAll vi1 \<le> NumAll vi2"
      "NumAll vi2 \<le> NumAll vi1 + 3 * length cs" "\<forall>c\<in>set cs'. selected c"
    and ih: "\<And>s s'. eq_below n s s' \<Longrightarrow> exec_list ?si cs s \<noteq> QStuck \<Longrightarrow> res_below n (exec_list ?si cs s) (exec_list ?si cs' s')"
    unfolding v(2) by blast
  have "sel_block (c # cs) vi hc = Inr ((pre @ [c']) @ cs', vi2, hc \<or> has_call (c # cs))"
    using v(1,7) b(1) by (auto simp: has_call_def)
  moreover have "res_below n (exec_list ?si (c # cs) s) (exec_list ?si ((pre @ [c']) @ cs') s')"
    if e: "eq_below n s s'" and ns: "exec_list ?si (c # cs) s \<noteq> QStuck" for s s'
  proof (rule exec_cons_below [OF _ ih ns])
    have r: "res_below n (exec_inst ?si c s) (exec_inst ?si c s')" using exec_below [OF e c(2,1)] .
    have "exec_inst ?si c s \<noteq> QStuck" using ns by auto
    then have "exec_inst ?si c s' \<noteq> QStuck" using r by (cases "exec_inst ?si c s") auto
    then show "res_below n (exec_inst ?si c s) (exec_list ?si (pre @ [c']) s')"
      using res_below_trans [OF r] res_below_le [OF ex Cons.prems(2)] by blast
  qed
  moreover have "\<forall>c\<in>set ((pre @ [c']) @ cs'). selected c" using v(5,6) b(5) by auto
  moreover have "glob_info vi2 = ?si" "NumAll vi \<le> NumAll vi2" "NumAll vi2 \<le> NumAll vi + 3 * length (c # cs)"
    using v(2-4) b(2-4) by simp_all
  ultimately show ?case by (intro exI [of _ "(pre @ [c']) @ cs'"] exI [of _ vi2] conjI) blast+
qed

section \<open>Regions\<close>

fun bres_below :: "nat \<Rightarrow> qstate bres \<Rightarrow> qstate bres \<Rightarrow> bool" where
  "bres_below n (BGoto b s) (BGoto b' s') \<longleftrightarrow> b = b' \<and> eq_below n s s'"
| "bres_below n (BExit a s) (BExit a' s') \<longleftrightarrow> a = a' \<and> eq_below n s s'"
| "bres_below n (BRaise s) (BRaise s') \<longleftrightarrow> eq_below n s s'"
| "bres_below n _ _ \<longleftrightarrow> False"

definition region_size :: "rview \<Rightarrow> nat" where
  "region_size v = sum_list (map (length \<circ> fst) v)"

definition block_sim :: "nat \<Rightarrow> StateInfo \<Rightarrow> instc list \<times> nat list \<Rightarrow> instc list \<times> nat list \<Rightarrow> bool" where
  "block_sim n si b b' \<longleftrightarrow> snd b' = snd b \<and> (\<forall>c\<in>set (fst b'). selected c) \<and>
     (\<forall>s s'. eq_below n s s' \<longrightarrow> exec_list si (fst b) s \<noteq> QStuck \<longrightarrow> res_below n (exec_list si (fst b) s) (exec_list si (fst b') s'))"

lemma QSel_Run_ok:
  assumes "\<forall>b\<in>set v. sel_code n (fst b)" and "n \<le> NumAll vi" and "offs_distinct (glob_info vi)" and "NumAll vi + 3 * region_size v \<le> 2 ^ 16"
  shows "\<exists>v' vi'. QSel_Run v vi hc = Inr (v', vi', hc \<or> (\<exists>b\<in>set v. has_call (fst b))) \<and> glob_info vi' = glob_info vi \<and>
    NumAll vi \<le> NumAll vi' \<and> NumAll vi' \<le> NumAll vi + 3 * region_size v \<and> list_all2 (block_sim n (glob_info vi)) v v'"
  using assms
proof (induction v arbitrary: vi hc)
  case Nil
  then show ?case by simp
next
  case (Cons b v)
  have "sel_code n (fst b)" "NumAll vi + 3 * length (fst b) \<le> 2 ^ 16" using Cons.prems(1,4) by (simp_all add: region_size_def)
  from sel_block_ok [OF this(1) Cons.prems(2,3) this(2), of hc] obtain cs' vi1 where
    s: "sel_block (fst b) vi hc = Inr (cs', vi1, hc \<or> has_call (fst b))" "glob_info vi1 = glob_info vi" "NumAll vi \<le> NumAll vi1"
      "NumAll vi1 \<le> NumAll vi + 3 * length (fst b)" "block_sim n (glob_info vi) b (cs', snd b)"
    unfolding block_sim_def fst_conv snd_conv by blast
  have "\<forall>b\<in>set v. sel_code n (fst b)" "n \<le> NumAll vi1" "offs_distinct (glob_info vi1)" "NumAll vi1 + 3 * region_size v \<le> 2 ^ 16"
    using Cons.prems s(2-4) by (simp_all add: region_size_def)
  from Cons.IH [OF this, of "hc \<or> has_call (fst b)"] s show ?case
    by (fastforce simp: region_size_def)
qed

lemma succ_at_below: "eq_below n s s' \<Longrightarrow> succ_at ss k s \<noteq> BStuck \<Longrightarrow> bres_below n (succ_at ss k s) (succ_at ss k s')"
  by (auto simp: succ_at_def split: if_splits)

lemma exec_block_below:
  assumes "list_all2 (block_sim n si) v v'" and "eq_below n s s'" and "exec_block si v bb s \<noteq> BStuck"
  shows "bres_below n (exec_block si v bb s) (exec_block si v' bb s')"
proof -
  have bb: "bb < length v" "length v' = length v" using assms(1,3) by (auto simp: exec_block_def list_all2_lengthD split: if_splits)
  have "block_sim n si (v ! bb) (v' ! bb)" using list_all2_nthD [OF assms(1) bb(1)] .
  moreover have "exec_list si (fst (v ! bb)) s \<noteq> QStuck" using assms(3) bb(1) by (auto simp: exec_block_def)
  ultimately have "res_below n (exec_list si (fst (v ! bb)) s) (exec_list si (fst (v' ! bb)) s')" "snd (v' ! bb) = snd (v ! bb)"
    using assms(2) unfolding block_sim_def by blast+
  then show ?thesis using assms(3) bb
    by (cases "exec_list si (fst (v ! bb)) s"; cases "exec_list si (fst (v' ! bb)) s'")
      (auto simp: exec_block_def intro: succ_at_below)
qed

lemma block_sims_selected: "list_all2 (block_sim n si) v v' \<Longrightarrow> \<forall>b\<in>set v'. \<forall>c\<in>set (fst b). selected c"
  by (induction rule: list_all2_induct) (auto simp: block_sim_def)

text \<open>C38. Instruction selection is correct: on a region whose operands are virtual registers the region
  has and constants, of proper types, as the front end makes them, the pass succeeds. Every instruction it leaves meets the
  constraints of the host's table: aliased inputs are the output, constants are of an encodable form.
  It adds at most three temporaries per instruction, records whether there is a call, leaves the
  successors of the blocks as they are, and each block that executes does the same as before: with the
  same successor or guest address, the same CPU state and guest memory, and the same value in every virtual register
  that existed before the pass.\<close>

theorem selection_correct:
  assumes "\<forall>b\<in>set v. sel_code (NumAll vi) (fst b)" and "offs_distinct (glob_info vi)" and "NumAll vi + 3 * region_size v \<le> 2 ^ 16"
  shows "\<exists>v' vi'. QSelPass_run v vi = Inr (v', vi', \<exists>b\<in>set v. has_call (fst b)) \<and> map snd v' = map snd v \<and>
    (\<forall>b\<in>set v'. \<forall>c\<in>set (fst b). selected c) \<and> glob_info vi' = glob_info vi \<and> NumAll vi' \<le> NumAll vi + 3 * region_size v \<and>
    (\<forall>bb s s'. eq_below (NumAll vi) s s' \<and> exec_block (glob_info vi) v bb s \<noteq> BStuck \<longrightarrow>
       bres_below (NumAll vi) (exec_block (glob_info vi) v bb s) (exec_block (glob_info vi) v' bb s'))"
proof -
  obtain v' vi' where r: "QSel_Run v vi False = Inr (v', vi', \<exists>b\<in>set v. has_call (fst b))" "glob_info vi' = glob_info vi"
      "NumAll vi' \<le> NumAll vi + 3 * region_size v" "list_all2 (block_sim (NumAll vi) (glob_info vi)) v v'"
    using QSel_Run_ok [OF assms(1) order.refl assms(2,3), of False] by auto
  have "map snd v' = map snd v" using r(4) by (induction rule: list_all2_induct) (auto simp: block_sim_def)
  moreover have "\<forall>b\<in>set v'. \<forall>c\<in>set (fst b). selected c" using block_sims_selected [OF r(4)] .
  ultimately show ?thesis using r exec_block_below [OF r(4)] unfolding QSelPass_run_def by blast
qed

text \<open>A block \<open>l0 = l1 - l0; store(l0, 0x12345678); gbr 8\<close>: sharing the register of \<open>l1\<close> needs a save of
  the old \<open>l0\<close>.\<close>

definition sel_example :: rview where
  "sel_example = [([InstBinop q_sub (MakeVGPR I32 0) (MakeVGPR I32 1) (MakeVGPR I32 0),
     InstVMStore I32 VU (MakeVGPR I32 0) (MakeConst I32 0x12345678), InstGBr (MakeConst I32 8)], [])]"

definition sel_example_info :: VRegsInfo where
  "sel_example_info = \<lparr>glob_info = \<lparr>si_regs = []\<rparr>, loc_info = [I32, I32]\<rparr>"

lemma sel_example_ok:
  "\<forall>b\<in>set sel_example. sel_code (NumAll sel_example_info) (fst b)" "offs_distinct (glob_info sel_example_info)"
  "NumAll sel_example_info + 3 * region_size sel_example \<le> 2 ^ 16"
  by (simp_all add: sel_example_def sel_example_info_def sel_code_def NumAll_def si_n_regs_def sel_dst_def sel_src_def sel_src32_def
      inst_below_def op_below_def InstBinop_HasOpcode_def offs_distinct_def region_size_def)

theorem selection_correct_witness:
  "\<exists>v' vi'. QSelPass_run sel_example sel_example_info = Inr (v', vi', \<exists>b\<in>set sel_example. has_call (fst b)) \<and> map snd v' = [[]] \<and>
    (\<forall>b\<in>set v'. \<forall>c\<in>set (fst b). selected c)"
  using selection_correct [OF sel_example_ok] by (auto simp: sel_example_def)

end
