(* ===== verification/Select_Correct.thy ===== *)
theory Select_Correct
  imports Region_Correct QSel
begin

text \<open>
  The front end and instruction selection together: the code the translator emits has the operands
  that selection expects, so selection never fails on it, and the selected region behaves
  as the interpreter.
\<close>

section \<open>Translated code is typed\<close>

definition typed_tr :: "RV32Translator \<Rightarrow> bool" where
  "typed_tr t \<longleftrightarrow> t_ok t \<and> (\<forall>b\<in>set (tview t). sel_code (32 + nloc t) (fst b))"

text \<open>The virtual registers and the code, counted as selection needs them; \<open>k\<close> bounds how much they grow.\<close>

definition weight :: "RV32Translator \<Rightarrow> nat" where
  "weight t = nloc t + 3 * region_size (tview t)"

definition tr_grows :: "nat \<Rightarrow> RV32Translator \<Rightarrow> RV32Translator \<Rightarrow> bool" where
  "tr_grows k t t' \<longleftrightarrow> typed_tr t' \<and> weight t' \<le> weight t + k \<and> nloc t \<le> nloc t' \<and> insn_ip t' = insn_ip t \<and> t_vmem t' = t_vmem t \<and> ip2bb t' = ip2bb t \<and>
     length (tview t) \<le> length (tview t')"

lemma tr_grows_refl: "typed_tr t \<Longrightarrow> tr_grows 0 t t"
  by (simp add: tr_grows_def)

lemma tr_grows_trans: "tr_grows j t t' \<Longrightarrow> tr_grows k t' t'' \<Longrightarrow> tr_grows (j + k) t t''"
  by (auto simp: tr_grows_def)

lemma tr_grows_le: "tr_grows j t t' \<Longrightarrow> j \<le> k \<Longrightarrow> tr_grows k t t'"
  by (auto simp: tr_grows_def)

lemma region_size_update:
  assumes "i < length v"
  shows "region_size (v[i := x]) + length (fst (v ! i)) = region_size v + length (fst x)"
  using assms unfolding region_size_def by (induction v arbitrary: i) (auto split: nat.splits)

lemma folded_add_cases:
  "folded (InstBinop q_add d a b) \<in>
     {InstUnop q_mov d a, InstUnop q_mov d b, InstBinop q_add d a b, InstBinop q_add d b a} \<union> range (\<lambda>k. InstUnop q_mov d (MakeConst I32 k))"
  by (cases "GetConst a"; cases "GetConst b")
    (auto simp: folded_def FolderVisitor_visit_def visit_add_def fold_zero_rhs_def)

lemma folded_typed:
  assumes "sel_typed c" and "inst_below n c"
  shows "sel_typed (folded c) \<and> inst_below n (folded c)"
proof (cases "\<exists>d a b. c = InstBinop q_add d a b")
  case True
  then obtain d a b where c: "c = InstBinop q_add d a b" by blast
  have "sel_src (MakeConst I32 k)" "op_below n (MakeConst I32 k)" for k by (simp_all add: sel_src_def op_below_def)
  then show ?thesis using folded_add_cases [of d a b] assms unfolding c
    by (auto simp: inst_below_def sel_src32_src)
next
  case False
  then have "folded c = c" by (cases c) (auto simp: folded_def FolderVisitor_visit_def)
  then show ?thesis using assms by simp
qed

lemma sel_code_append: "sel_code n (cs @ cs') \<longleftrightarrow> sel_code n cs \<and> sel_code n cs'"
  by (auto simp: sel_code_def)

lemma emit_typed:
  assumes "typed_tr t" and "sel_typed c" and "inst_below (32 + nloc t) c" and "emit c t = Inr t'"
  shows "tr_grows 3 t t' \<and> t_qb t' = t_qb t \<and> nloc t' = nloc t"
proof -
  have ok: "t_ok t" using assms(1) by (simp add: typed_tr_def)
  have "inst_ctor_ok c" using assms(2) by (cases c) auto
  then have e: "emits t 0 [c] t'" using emit_emits [OF ok] assms(4) by (metis sum.inject(2))
  have l: "cur t < length (tview t)" using ok by (simp add: t_ok_def)
  have v: "tview t' = view_append (cur t) [folded c] (tview t)" and n: "nloc t' = nloc t" using e by (simp_all add: emits_def)
  have "sel_code (32 + nloc t) (fst b)" if "b \<in> set (tview t')" for b
    using that l assms(1) folded_typed [OF assms(2,3)] set_update_subset_insert [of "tview t"] nth_mem [OF l]
    unfolding v view_append_def typed_tr_def by (fastforce simp: sel_code_def)
  then have "typed_tr t'" using emits_fields(7) [OF e] n by (simp add: typed_tr_def)
  moreover have "weight t' \<le> weight t + 3"
    using region_size_update [OF l, of "(fst (tview t ! cur t) @ [folded c], snd (tview t ! cur t))"] n by (simp add: weight_def v view_append_def)
  ultimately show ?thesis using emits_fields [OF e] n arg_cong [OF v, of length] by (simp add: tr_grows_def)
qed

lemma vop_typed [simp]:
  "t \<noteq> UNDEF \<Longrightarrow> sel_src (vop r t)" "sel_src32 (vop r I32)" "r \<noteq> 0 \<Longrightarrow> sel_dst (vop r I32)"
  by (simp_all add: vop_def sel_src_def sel_src32_def sel_dst_def)

lemma vop_below: "unat r < 32 \<Longrightarrow> 32 \<le> n \<Longrightarrow> op_below n (vop r t)"
  using vgpr_idx [of r] by (auto simp: vop_def op_below_def)

lemma const_typed [simp]: "t \<noteq> UNDEF \<Longrightarrow> sel_src (vconst x t)" "sel_src32 (vconst x I32)" "op_below n (vconst x t)"
  by (simp_all add: vconst_def sel_src_def sel_src32_def op_below_def)

lemma tmp_typed [simp]: "sel_src (MakeVGPR I32 r)" "sel_src32 (MakeVGPR I32 r)" "sel_dst (MakeVGPR I32 r)"
  "op_below n (MakeVGPR I32 r) \<longleftrightarrow> unat r < n" "op_below n (MakeSlot g t k)"
  by (simp_all add: sel_src_def sel_src32_def sel_dst_def op_below_def)

lemma regs_below [simp]: "op_below (32 + n) (vop (insn_rd i) t)" "op_below (32 + n) (vop (insn_rs1 i) t)" "op_below (32 + n) (vop (insn_rs2 i) t)"
  by (simp_all add: vop_below)

text \<open>A computation on the translator that tr_keeps the code typed.\<close>

definition tr_keeps :: "nat \<Rightarrow> RV32Translator \<Rightarrow> RV32Translator res \<Rightarrow> bool" where
  "tr_keeps k t r \<longleftrightarrow> (\<forall>t'. r = Inr t' \<longrightarrow> tr_grows k t t')"

lemma tr_keeps_Inr: "tr_keeps k t (Inr t') \<longleftrightarrow> tr_grows k t t'"
  by (simp add: tr_keeps_def)

lemma tr_keeps_le: "tr_keeps j t r \<Longrightarrow> j \<le> k \<Longrightarrow> tr_keeps k t r"
  using tr_grows_le unfolding tr_keeps_def by blast

lemma tr_keeps_emit: "typed_tr t \<Longrightarrow> sel_typed c \<Longrightarrow> inst_below (32 + nloc t) c \<Longrightarrow> tr_keeps 3 t (emit c t)"
  using emit_typed unfolding tr_keeps_def by blast

lemma tr_keeps_bind:
  "tr_keeps j t r \<Longrightarrow> (\<And>t1. tr_grows j t t1 \<Longrightarrow> tr_keeps k t1 (f t1)) \<Longrightarrow> tr_keeps (j + k) t (rbind r f)"
  by (cases r) (auto simp: tr_keeps_def intro: tr_grows_trans)

lemma tr_grows_typed: "tr_grows k t t' \<Longrightarrow> typed_tr t'"
  by (simp add: tr_grows_def)

lemma typed_record [simp]: "typed_tr (record_ev e t) = typed_tr t" "tr_grows k t (record_ev e t) \<longleftrightarrow> typed_tr t"
  "nloc (record_ev e t) = nloc t"
  by (simp_all add: typed_tr_def tr_grows_def weight_def record_ev_def t_ok_def)

lemma unat_of_nat_le: "unat (of_nat n :: 'a::len word) \<le> n"
  by (simp add: unsigned_of_nat)

lemma vtemp_typed:
  assumes "typed_tr t"
  shows "\<exists>r t'. vtemp I32 t = (MakeVGPR I32 r, t') \<and> tr_grows 1 t t' \<and> unat r < 32 + nloc t'"
proof -
  let ?t' = "t\<lparr>t_region := (t_region t)\<lparr>vregs_info := (vregs_info (t_region t))
      \<lparr>loc_info := loc_info (vregs_info (t_region t)) @ [I32]\<rparr>\<rparr>\<rparr>"
  have v: "vtemp I32 t = (MakeVGPR I32 (of_nat (nloc t + 32)), ?t')"
    using assms by (simp add: vtemp_def CreateVGPR_def AddLocal_def t_ok_def typed_tr_def)
  have "unat (of_nat (nloc t + 32) :: RegN) \<le> nloc t + 32" by (rule unat_of_nat_le)
  moreover have "tr_grows 1 t ?t'"
    using assms inst_below_le [of "32 + nloc t" _ "32 + Suc (nloc t)"]
    by (simp add: tr_grows_def typed_tr_def t_ok_def region_wf_def region_view_def sel_code_def weight_def)
  ultimately show ?thesis using v by (intro exI [of _ "of_nat (nloc t + 32)"] exI [of _ ?t']) simp
qed

lemma tr_keeps_succ:
  assumes "typed_tr t" and "b < length (tview t)"
  shows "tr_grows 0 t (add_succ b t)"
proof -
  have ok: "t_ok t" using assms(1) by (simp add: typed_tr_def)
  note s = add_succ_ok [OF ok assms(2)]
  have l: "cur t < length (tview t)" using ok by (simp add: t_ok_def)
  have "sel_code (32 + nloc t) (fst x)" if "x \<in> set (tview (add_succ b t))" for x
    using that assms(1) set_update_subset_insert [of "tview t"] nth_mem [OF l]
    unfolding s(2) view_succ_def typed_tr_def by fastforce
  then have "typed_tr (add_succ b t)" using s(1,3) by (simp add: typed_tr_def)
  moreover have "length (tview (add_succ b t)) = length (tview t)" unfolding s(2) by (simp add: view_succ_def)
  moreover have "weight (add_succ b t) = weight t"
    using region_size_update [OF l, of "(fst (tview t ! cur t), snd (tview t ! cur t) @ [b])"] s(3) by (simp add: weight_def s(2) view_succ_def)
  ultimately show ?thesis using s(3) by (simp add: tr_grows_def)
qed

lemma typed_const_br [simp]: "sel_typed (InstGBr (vconst x I32))" "inst_below n (InstGBr (vconst x I32))" "inst_below n InstBr"
  "sel_typed (InstHcall h (vconst x I32))" "inst_below n (InstHcall h (vconst x I32))"
  by (simp_all add: vconst_def inst_below_def op_below_def)

lemma tr_keeps_MakeGBr: "typed_tr t \<Longrightarrow> tr_keeps 3 t (MakeGBr a t)"
proof (cases "ip2bb t a")
  case None
  assume "typed_tr t"
  then show ?thesis using None tr_keeps_emit by (simp add: MakeGBr_def)
next
  case (Some b)
  assume t: "typed_tr t"
  then have b: "b < length (tview t)" using Some by (auto simp: typed_tr_def t_ok_def)
  have "tr_keeps 0 t1 (Inr (add_succ b t1))" if g: "tr_grows 3 t t1" for t1
    using tr_keeps_succ [of t1 b] g b by (simp add: tr_keeps_Inr tr_grows_def)
  then show ?thesis using Some tr_keeps_bind [OF tr_keeps_emit [OF t, of InstBr], where k = 0] by (simp add: MakeGBr_def)
qed

lemma make_target_typed:
  assumes "typed_tr t" and "make_target a t = Inr (b, t')"
  shows "tr_grows 3 t t' \<and> b < length (tview t')"
proof (cases "ip2bb t a")
  case (Some x)
  then show ?thesis using assms by (auto simp: make_target_def Let_def typed_tr_def t_ok_def)
next
  case None
  obtain x rn where cb: "CreateBlock (t_region t) = (x, rn)" by (cases "CreateBlock (t_region t)") auto
  have ok: "t_ok t" using assms(1) by (simp add: typed_tr_def)
  then have wf: "region_wf (t_region t)" by (simp add: t_ok_def)
  note v = CreateBlock_view [OF wf cb]
  define t1 where "t1 = (record_ev (RecordGBr (bb_ip t) a) t)\<lparr>t_region := rn, t_qb := NewBuilder x\<rparr>"
  have "t_ok t1" using ok v by (auto simp: t1_def t_ok_def NewBuilder_def less_Suc_eq)
  then have ty: "typed_tr t1" using assms(1) v by (auto simp: typed_tr_def t1_def sel_code_def)
  obtain t2 where e: "emit (InstGBr (vconst a I32)) t1 = Inr t2" "b = cur t2" "t' = t2"
    using None cb assms(2) by (auto simp: make_target_def t1_def Let_def)
  note g = emit_typed [OF ty _ _ e(1)]
  have "tr_grows 0 t t1" using ty v by (simp add: tr_grows_def t1_def weight_def region_size_def)
  moreover have "x < length (tview t1)" using v by (simp add: t1_def)
  moreover have "cur t1 = x" by (simp add: t1_def NewBuilder_def)
  ultimately show ?thesis using g e(2,3) by (auto simp: tr_grows_def)
qed

lemma tr_keeps_Brcc:
  assumes "typed_tr t"
  shows "tr_keeps 9 t (TranslateBrcc cc i t)"
  unfolding tr_keeps_def
proof (intro allI impI)
  fix t' assume r: "TranslateBrcc cc i t = Inr t'"
  obtain bf t1 where t1: "make_target (insn_ip t + 4) t = Inr (bf, t1)" using r by (auto simp: TranslateBrcc_def Let_def)
  obtain bt t2 where t2: "make_target (insn_ip t1 + B_imm i) t1 = Inr (bt, t2)" using r t1 by (auto simp: TranslateBrcc_def Let_def)
  define t3 where "t3 = t2\<lparr>t_qb := NewBuilder (cur t)\<rparr>"
  obtain t4 where t4: "emit (InstBrcc cc (vop (insn_rs1 i) I32) (vop (insn_rs2 i) I32)) t3 = Inr t4" "t' = add_succ bf (add_succ bt t4)"
    using r t1 t2 by (auto simp: TranslateBrcc_def Let_def t3_def)
  have g1: "tr_grows 3 t t1" "bf < length (tview t1)" using make_target_typed [OF assms t1] by simp_all
  have g2: "tr_grows 3 t1 t2" "bt < length (tview t2)" using make_target_typed [OF tr_grows_typed [OF g1(1)] t2] by simp_all
  have "cur t < length (tview t)" using assms by (simp add: typed_tr_def t_ok_def)
  then have "tr_grows 0 t2 t3" using g1(1) g2(1) by (auto simp: tr_grows_def typed_tr_def t3_def t_ok_def NewBuilder_def weight_def)
  then have g3: "tr_grows 0 t2 t3" "typed_tr t3" using tr_grows_typed by simp_all
  have g4: "tr_grows 3 t3 t4" using emit_typed [OF g3(2) _ _ t4(1)] by (simp add: inst_below_def)
  have b: "bt < length (tview t4)" "bf < length (tview t4)" using g1 g2 g3(1) g4 by (simp_all add: tr_grows_def)
  have g5: "tr_grows 0 t4 (add_succ bt t4)" using tr_keeps_succ [OF tr_grows_typed [OF g4] b(1)] .
  then have "bf < length (tview (add_succ bt t4))" using b(2) by (simp add: tr_grows_def)
  then have "tr_grows 0 (add_succ bt t4) t'" using tr_keeps_succ [OF tr_grows_typed [OF g5]] t4(2) by simp
  then show "tr_grows 9 t t'" using tr_grows_trans [OF tr_grows_trans [OF tr_grows_trans [OF tr_grows_trans [OF tr_grows_trans [OF g1(1) g2(1)] g3(1)] g4] g5], of 0 t'] by simp
qed

lemma tr_keeps_arith:
  assumes "typed_tr t"
  shows "InstBinop_HasOpcode op \<Longrightarrow> tr_keeps 3 t (TRANSLATOR_ArithmRI op imm i t)" "InstBinop_HasOpcode op \<Longrightarrow> tr_keeps 3 t (TRANSLATOR_ArithmRR op i t)"
    "tr_keeps 3 t (TranslateSetccR cc i t)" "tr_keeps 3 t (TranslateSetccI cc i t)" "tr_keeps 3 t (V_lui i t)" "tr_keeps 3 t (V_auipc i t)"
    "tr_keeps 3 t (TranslateHelper h i t)"
  using assms tr_keeps_emit tr_keeps_Inr tr_grows_le [OF tr_grows_refl]
  by (simp_all add: TRANSLATOR_ArithmRI_def TRANSLATOR_ArithmRR_def TranslateSetccR_def TranslateSetccI_def V_lui_def V_auipc_def
      TranslateHelper_def inst_below_def)

lemma vaddr_typed:
  assumes "typed_tr t" and "vaddr_op (insn_rs1 i) imm t = Inr (addr, t')"
  shows "tr_grows 4 t t' \<and> sel_src addr \<and> op_below (32 + nloc t') addr \<and> (imm \<noteq> 0 \<longrightarrow> sel_dst addr)"
proof (cases "imm = 0")
  case True
  then show ?thesis using assms tr_grows_le [OF tr_grows_refl] by (auto simp: vaddr_op_def)
next
  case False
  obtain r t1 where t1: "vtemp I32 t = (MakeVGPR I32 r, t1)" "tr_grows 1 t t1" "unat r < 32 + nloc t1" using vtemp_typed [OF assms(1)] by blast
  have e: "emit (InstBinop q_add (MakeVGPR I32 r) (vop (insn_rs1 i) I32) (vconst imm I32)) t1 = Inr t'" "addr = MakeVGPR I32 r"
    using assms(2) False t1(1) by (auto simp: vaddr_op_def)
  have g: "tr_grows 3 t1 t'" "nloc t' = nloc t1"
    using emit_typed [OF tr_grows_typed [OF t1(2)] _ _ e(1)] t1(3) by (simp_all add: inst_below_def)
  then show ?thesis using e(2) t1(2,3) tr_grows_trans [OF t1(2) g(1)] by simp
qed

lemma tr_keeps_load:
  assumes "typed_tr t" and "\<not> (insn_rd i = 0 \<and> I_immx i = 0)"
  shows "tr_keeps 7 t (TranslateLoad ty sg i t)"
  unfolding tr_keeps_def
proof (intro allI impI)
  fix t' assume r: "TranslateLoad ty sg i t = Inr t'"
  then obtain addr t1 where a: "vaddr_op (insn_rs1 i) (I_immx i) t = Inr (addr, t1)" by (auto simp: TranslateLoad_def)
  note g = vaddr_typed [OF assms(1) a]
  obtain d where d: "emit (InstVMLoad ty sg d addr) t1 = Inr t'" "sel_dst d" "op_below (32 + nloc t1) d"
  proof (cases "insn_rd i = 0")
    case True
    then show ?thesis using that [of addr] r a g assms(2) by (simp add: TranslateLoad_def)
  next
    case False
    then show ?thesis using that [of "vop (insn_rd i) I32"] r a by (simp add: TranslateLoad_def)
  qed
  have "tr_grows 3 t1 t'" using emit_typed [OF tr_grows_typed _ _ d(1)] g d(2,3) by (auto simp: inst_below_def)
  then show "tr_grows 7 t t'" using tr_grows_trans [of 4 t t1 3] g by simp
qed

lemma tr_keeps_store:
  assumes "typed_tr t" and "ty \<noteq> UNDEF"
  shows "tr_keeps 7 t (TranslateStore ty sg i t)"
  unfolding tr_keeps_def
proof (intro allI impI)
  fix t' assume r: "TranslateStore ty sg i t = Inr t'"
  then obtain addr t1 where a: "vaddr_op (insn_rs1 i) (S_immx i) t = Inr (addr, t1)" by (auto simp: TranslateStore_def)
  note g = vaddr_typed [OF assms(1) a]
  have e: "emit (InstVMStore ty sg addr (vop (insn_rs2 i) ty)) t1 = Inr t'" using r a by (simp add: TranslateStore_def)
  have "tr_grows 3 t1 t'" using emit_typed [OF tr_grows_typed _ _ e] g assms(2) by (auto simp: inst_below_def)
  then show "tr_grows 7 t t'" using tr_grows_trans [of 4 t t1 3] g by simp
qed

lemma tr_keeps_link:
  assumes "typed_tr t"
  shows "tr_keeps 3 t (if insn_rd i \<noteq> 0
    then rbind (vgpr (insn_rd i) I32) (\<lambda>d. rbind (emit (InstUnop q_mov d (vconst k I32)) t) (\<lambda>t. Inr (record_ev (e t) t)))
    else Inr (record_ev (e' t) t))"
proof -
  have "tr_keeps 3 t (emit (InstUnop q_mov (vop (insn_rd i) I32) (vconst k I32)) t)" if "insn_rd i \<noteq> 0"
    using that by (intro tr_keeps_emit [OF assms]) (simp_all add: inst_below_def)
  then show ?thesis using tr_keeps_bind [of 3 t _ 0] assms tr_grows_typed by (simp add: tr_keeps_Inr)
qed

lemma tr_keeps_jal: "typed_tr t \<Longrightarrow> tr_keeps (3 + 3) t (V_jal i t)"
  unfolding V_jal_def by (intro tr_keeps_bind tr_keeps_link tr_keeps_MakeGBr) (auto intro: tr_grows_typed)

lemma tr_keeps_jalr:
  assumes "typed_tr t"
  shows "tr_keeps 13 t (V_jalr i t)"
proof -
  obtain r t1 where t1: "vtemp I32 t = (MakeVGPR I32 r, t1)" "tr_grows 1 t t1" "unat r < 32 + nloc t1" using vtemp_typed [OF assms] by blast
  have "tr_keeps (3 + (3 + (3 + 3))) t1 (rbind (emit (InstBinop q_add (MakeVGPR I32 r) (vop (insn_rs1 i) I32) (vconst (I_immx i) I32)) t1) (\<lambda>t.
      rbind (emit (InstBinop q_and (MakeVGPR I32 r) (MakeVGPR I32 r) (vconst (NOT 1) I32)) t) (\<lambda>t.
      rbind (if insn_rd i \<noteq> 0
             then rbind (vgpr (insn_rd i) I32) (\<lambda>d.
                  rbind (emit (InstUnop q_mov d (vconst (insn_ip t + 4) I32)) t) (\<lambda>t.
                  Inr (record_ev (RecordGBrind (bb_ip t) (insn_ip t + 4)) t)))
             else Inr (record_ev (RecordGBrind (bb_ip t) 0) t))
        (\<lambda>t. emit (InstGBrind (MakeVGPR I32 r)) t))))"
    using t1(2,3) by (intro tr_keeps_bind tr_keeps_link tr_keeps_emit) (auto simp: inst_below_def tr_grows_def)
  then show ?thesis using t1(1) tr_grows_trans [OF t1(2), of 12] by (auto simp: V_jalr_def tr_keeps_def)
qed

lemma tr_keeps_V:
  assumes "typed_tr t" and "\<not> discarded_load op i"
  shows "tr_keeps 13 t (V op i t)"
proof -
  have l: "\<not> (insn_rd i = 0 \<and> I_immx i = 0)" if "op \<in> {Op_lb, Op_lh, Op_lw, Op_lbu, Op_lhu}"
    using assms(2) that by (auto simp: discarded_load_def)
  note a = tr_keeps_arith [OF assms(1), THEN tr_keeps_le] and b = tr_keeps_load [OF assms(1), THEN tr_keeps_le] tr_keeps_store [OF assms(1), THEN tr_keeps_le]
    and c = tr_keeps_jal [OF assms(1), THEN tr_keeps_le] tr_keeps_jalr [OF assms(1)] tr_keeps_Brcc [OF assms(1), THEN tr_keeps_le]
  show ?thesis using l by (cases op) (simp_all add: a b c)
qed

lemma tr_keeps_spill:
  assumes "typed_tr t"
  shows "tr_keeps 3 t (PreSideeff t)"
  unfolding PreSideeff_def
  using tr_keeps_emit [OF assms, of "InstUnop q_mov (MakeSlot True I32 k) (vconst (insn_ip t) I32)" for k]
  by (auto simp: tr_keeps_def inst_below_def split: option.splits)

lemma TranslateInsn_typed:
  assumes "typed_tr t" and "\<not> discarded_load (Decode (fetch (t_vmem t) (insn_ip t))) (fetch (t_vmem t) (insn_ip t))"
    and "TranslateInsn t = Inr t'"
  shows "typed_tr t' \<and> weight t' \<le> weight t + 16 \<and> insn_ip t' = insn_ip t + 4 \<and> t_vmem t' = t_vmem t \<and> ip2bb t' = ip2bb t"
proof -
  let ?i = "fetch (t_vmem t) (insn_ip t)"
  let ?pre = "if has_flag (Decode ?i) Flags_Trap \<or> has_flag (Decode ?i) Flags_MayTrap then PreSideeff t else Inr t"
  obtain t1 t2 where r: "?pre = Inr t1" "V (Decode ?i) ?i t1 = Inr t2"
      "t' = (if has_flag (Decode ?i) Flags_Branch \<or> has_flag (Decode ?i) Flags_Trap then t2\<lparr>control := C_BRANCH\<rparr> else t2)\<lparr>insn_ip := insn_ip t2 + 4\<rparr>"
    using assms(3) by (auto simp: TranslateInsn_def H_translate_def Let_def)
  have "tr_keeps 3 t ?pre" using tr_keeps_spill [OF assms(1)] tr_grows_le [OF tr_grows_refl [OF assms(1)]] by (simp add: tr_keeps_Inr)
  then have g: "tr_grows 3 t t1" using r(1) by (simp add: tr_keeps_def)
  then have "tr_grows 13 t1 t2" using tr_keeps_V [OF tr_grows_typed [OF g] assms(2)] r(2) by (simp add: tr_keeps_def)
  then have "tr_grows 16 t t2" using tr_grows_trans [OF g] by fastforce
  then show ?thesis using r(3) by (auto simp: tr_grows_def typed_tr_def t_ok_def weight_def)
qed

text \<open>Setting the fields that the code does not depend on.\<close>

lemma typed_fields [simp]:
  "typed_tr (t\<lparr>control := c\<rparr>) = typed_tr t" "typed_tr (t\<lparr>bb_ip := a, insn_ip := b\<rparr>) = typed_tr t"
  "weight (t\<lparr>control := c\<rparr>) = weight t" "weight (record_ev e t) = weight t"
  by (simp_all add: typed_tr_def t_ok_def weight_def)

text \<open>How many instructions the loop translates at most: it stops at the boundary.\<close>

fun loop_insns :: "nat \<Rightarrow> u32 \<Rightarrow> u32 \<Rightarrow> nat" where
  "loop_insns 0 a boundary_ip = 0"
| "loop_insns (Suc left) a boundary_ip = Suc (if left = 0 \<or> boundary_ip \<le> a + 4 then 0 else loop_insns left (a + 4) boundary_ip)"

lemma loop_insns_le: "loop_insns left a b \<le> left"
  by (induction left a b rule: loop_insns.induct) auto

definition job_size :: "(u32 \<times> u32) list \<Rightarrow> nat" where
  "job_size ranges = sum_list (map (\<lambda>r. 16 * loop_insns TB_MAX_INSNS (fst r) (snd r) + 9) ranges)"

lemma job_size_le: "job_size ranges \<le> length ranges * (16 * TB_MAX_INSNS + 9)"
  unfolding job_size_def
proof (induction ranges)
  case (Cons r ranges)
  then show ?case using loop_insns_le [of TB_MAX_INSNS "fst r" "snd r"] by simp
qed simp

lemma translate_loop_typed:
  assumes "typed_tr t" and "no_discarded (t_vmem t) left (insn_ip t)" and "translate_loop left start bound t = Inr t'"
  shows "typed_tr t' \<and> weight t' \<le> weight t + 16 * loop_insns left (insn_ip t) bound + 3 \<and> t_vmem t' = t_vmem t \<and> ip2bb t' = ip2bb t"
  using assms
proof (induction left arbitrary: t)
  case (Suc left)
  obtain t1 where t1: "TranslateInsn t = Inr t1" using Suc.prems(3) by auto
  note g = TranslateInsn_typed [OF Suc.prems(1) no_discarded_0 [OF Suc.prems(2)] t1]
  show ?case
  proof (cases "control t1 \<noteq> C_NEXT")
    case True
    then show ?thesis using Suc.prems(3) t1 g by simp
  next
    case go: False
    let ?t = "record_ev (RecordGBr (bb_ip t1) start) (t1\<lparr>control := C_TB_OVF\<rparr>)"
    show ?thesis
    proof (cases "left = 0 \<or> bound \<le> insn_ip t1")
      case True
      then have "MakeGBr (insn_ip t1) ?t = Inr t'" using Suc.prems(3) t1 go by simp
      then have "tr_grows 3 ?t t'" using tr_keeps_MakeGBr [of ?t "insn_ip t1"] g by (simp add: tr_keeps_def)
      then show ?thesis using g by (simp add: tr_grows_def)
    next
      case False
      then have "translate_loop left start bound t1 = Inr t'" using Suc.prems(3) t1 go by simp
      moreover have "\<not> (left = 0 \<or> bound \<le> insn_ip t + 4)" using False g by simp
      ultimately show ?thesis using Suc.IH [of t1] g no_discarded_Suc [OF Suc.prems(2)] by auto
    qed
  qed
qed simp

lemma TranslateIPRange_typed:
  assumes "typed_tr t" and "no_discarded (t_vmem t) TB_MAX_INSNS start" and "TranslateIPRange d start bound t = Inr t'"
  shows "typed_tr t' \<and> weight t' \<le> weight t + (16 * loop_insns TB_MAX_INSNS start bound + 9) \<and> t_vmem t' = t_vmem t \<and> ip2bb t' = ip2bb t"
proof -
  obtain bb where bb: "ip2bb t start = Some bb" using assms(3) by (auto simp: TranslateIPRange_def Let_def split: if_splits option.splits)
  define t0 where "t0 = (record_ev (RecordEntry start) (t\<lparr>bb_ip := start, insn_ip := start\<rparr>))\<lparr>t_qb := NewBuilder bb\<rparr>"
  let ?pre = "if d then rbind (PreSideeff t0) (emit (InstHcall id_trace (vconst 0 I32))) else Inr t0"
  obtain t1 where r: "?pre = Inr t1" "translate_loop TB_MAX_INSNS start bound (t1\<lparr>control := C_NEXT\<rparr>) = Inr t'"
    using assms(3) bb by (auto simp: TranslateIPRange_def Let_def t0_def split: if_splits)
  have t0: "typed_tr t0" "insn_ip t0 = start" "t_vmem t0 = t_vmem t" "ip2bb t0 = ip2bb t" "weight t0 = weight t"
    using assms(1) bb by (auto simp: t0_def typed_tr_def t_ok_def NewBuilder_def record_ev_def weight_def)
  have "tr_keeps (3 + 3) t0 (rbind (PreSideeff t0) (emit (InstHcall id_trace (vconst 0 I32))))"
    by (intro tr_keeps_bind tr_keeps_spill tr_keeps_emit t0) (auto intro: tr_grows_typed)
  then have g: "tr_grows 6 t0 t1" using r(1) tr_grows_le [OF tr_grows_refl [OF t0(1)]] by (auto simp: tr_keeps_def split: if_splits)
  then show ?thesis using translate_loop_typed [OF _ _ r(2)] assms(2) t0 by (simp add: tr_grows_def)
qed

lemma translate_ranges_typed:
  assumes "typed_tr t" and "\<forall>r\<in>set rs. no_discarded (t_vmem t) TB_MAX_INSNS (fst r)" and "translate_ranges d rs t = Inr t'"
  shows "typed_tr t' \<and> weight t' \<le> weight t + job_size rs"
  using assms
proof (induction rs arbitrary: t)
  case (Cons r rs)
  obtain t1 where t1: "TranslateIPRange d (fst r) (snd r) t = Inr t1" "translate_ranges d rs t1 = Inr t'" using Cons.prems(3) by auto
  have "no_discarded (t_vmem t) TB_MAX_INSNS (fst r)" using Cons.prems(2) by simp
  note g = TranslateIPRange_typed [OF Cons.prems(1) this t1(1)]
  show ?case using Cons.IH [OF _ _ t1(2)] g Cons.prems(2) by (simp add: job_size_def)
qed (simp add: job_size_def)

section \<open>Translation and selection\<close>

lemma state_info_offs: "offs_distinct state_info"
  unfolding offs_distinct_def by code_simp

text \<open>A block of a region that does what the interpreter does, like \<open>block_correct\<close>, for any code of the
  region.\<close>

definition reaches :: "rview \<Rightarrow> (u32 \<rightharpoonup> nat) \<Rightarrow> qstate bres \<Rightarrow> u32 \<Rightarrow> qstate \<Rightarrow> bool" where
  "reaches v m r pc s \<longleftrightarrow> r = BExit pc s \<or>
     (\<exists>b s0. r = BGoto b s0 \<and> (m pc = Some b \<and> s0 = s \<or> exec_block state_info v b s0 = BExit pc s))"

definition code_of_range :: "rview \<Rightarrow> (u32 \<rightharpoonup> nat) \<Rightarrow> vmem \<Rightarrow> u32 \<Rightarrow> nat \<Rightarrow> bool" where
  "code_of_range v m vm a bb \<longleftrightarrow>
     (\<forall>st s. x0_zero st \<and> sim st s \<and> gip st = a \<and> path_ok vm TB_MAX_INSNS a st \<longrightarrow>
        (\<exists>k st' s'. 0 < k \<and> k \<le> TB_MAX_INSNS \<and> interp_steps k st = Some st' \<and>
           reaches v m (exec_block state_info v bb s) (gip st') s' \<and> sim st' s') \<or>
        (\<exists>k st1 st' s'. k < TB_MAX_INSNS \<and> interp_steps k st = Some st1 \<and> interp_step st1 = Raised st' \<and>
           exec_block state_info v bb s = BRaise s' \<and> same_cpu st' s'))"

lemma reaches_below:
  assumes below: "\<And>bb s s'. eq_below n s s' \<Longrightarrow> exec_block state_info v bb s \<noteq> BStuck \<Longrightarrow>
      bres_below n (exec_block state_info v bb s) (exec_block state_info v' bb s')"
    and "arrives v m (exec_block state_info v bb s) pc s1"
  shows "\<exists>s2. reaches v' m (exec_block state_info v' bb s) pc s2 \<and> eq_below n s1 s2"
proof -
  let ?r = "exec_block state_info v bb s" and ?r' = "exec_block state_info v' bb s"
  have b: "bres_below n ?r ?r'" using assms(2) by (intro below) (auto simp: arrives_def)
  from assms(2) consider "?r = BExit pc s1" | b where "?r = BGoto b s1" "m pc = Some b"
    | b where "?r = BGoto b s1" "exec_block state_info v b s1 = BExit pc s1"
    unfolding arrives_def by blast
  then show ?thesis
  proof cases
    case 1
    then show ?thesis using b by (cases ?r') (auto simp: reaches_def)
  next
    case (2 x)
    then show ?thesis using b by (cases ?r') (auto simp: reaches_def)
  next
    case (3 x)
    then obtain s0 where s0: "?r' = BGoto x s0" "eq_below n s1 s0" using b by (cases ?r') auto
    have "bres_below n (exec_block state_info v x s1) (exec_block state_info v' x s0)" using below [OF s0(2), of x] 3(2) by simp
    then obtain s2 where "exec_block state_info v' x s0 = BExit pc s2" "eq_below n s1 s2"
      using 3(2) by (cases "exec_block state_info v' x s0") auto
    then show ?thesis using s0(1) by (auto simp: reaches_def)
  qed
qed

lemma code_of_range_below:
  assumes below: "\<And>bb s s'. eq_below n s s' \<Longrightarrow> exec_block state_info (tview t) bb s \<noteq> BStuck \<Longrightarrow>
      bres_below n (exec_block state_info (tview t) bb s) (exec_block state_info v' bb s')"
    and "block_correct t a bb"
  shows "code_of_range v' (ip2bb t) (t_vmem t) a bb"
  unfolding code_of_range_def
proof (intro allI impI)
  fix st s assume h: "x0_zero st \<and> sim st s \<and> gip st = a \<and> path_ok (t_vmem t) TB_MAX_INSNS a st"
  have keep: "sim st' s1 \<Longrightarrow> eq_below n s1 s2 \<Longrightarrow> sim st' s2" "same_cpu st' s1 \<Longrightarrow> eq_below n s1 s2 \<Longrightarrow> same_cpu st' s2" for st' s1 s2
    by (simp_all add: sim_def same_cpu_def eq_below_def)
  consider (run) k st' s' where "0 < k" "k \<le> TB_MAX_INSNS" "interp_steps k st = Some st'"
      "arrives (tview t) (ip2bb t) (exec_block state_info (tview t) bb s) (gip st') s'" "sim st' s'"
    | (trap) k st1 st' s' where "k < TB_MAX_INSNS" "interp_steps k st = Some st1" "interp_step st1 = Raised st'"
      "exec_block state_info (tview t) bb s = BRaise s'" "same_cpu st' s'"
    using assms(2) h unfolding block_correct_def by blast
  then show "(\<exists>k st' s'. 0 < k \<and> k \<le> TB_MAX_INSNS \<and> interp_steps k st = Some st' \<and>
           reaches v' (ip2bb t) (exec_block state_info v' bb s) (gip st') s' \<and> sim st' s') \<or>
        (\<exists>k st1 st' s'. k < TB_MAX_INSNS \<and> interp_steps k st = Some st1 \<and> interp_step st1 = Raised st' \<and>
           exec_block state_info v' bb s = BRaise s' \<and> same_cpu st' s')"
  proof cases
    case run
    then show ?thesis using reaches_below [OF below run(4)] keep(1) by blast
  next
    case trap
    have "bres_below n (BRaise s') (exec_block state_info v' bb s)" using below [of s s bb] trap(4) by simp
    then obtain s2 where "exec_block state_info v' bb s = BRaise s2" "eq_below n s' s2" by (cases "exec_block state_info v' bb s") auto
    then show ?thesis using trap keep(2) by blast
  qed
qed

lemma Translate_typed:
  assumes "ranges \<noteq> []" and "distinct (map fst ranges)" and "\<forall>r\<in>set ranges. snd r \<noteq> 0 \<and> no_discarded vm TB_MAX_INSNS (fst r)"
    and "Translate d (NewRegion state_info) ranges vm = Inr t"
  shows "typed_tr t" and "weight t \<le> job_size ranges"
proof -
  define t1 where "t1 = create_blocks ranges (NewTranslator (NewRegion state_info) vm)"
  note c = blocks_created [OF assms(1-3), folded t1_def]
  have "typed_tr t1" "weight t1 = 0" using c by (auto simp: typed_tr_def weight_def region_size_def sel_code_def sum_list_replicate)
  then show "typed_tr t" "weight t \<le> job_size ranges"
    using translate_ranges_typed [of t1 ranges d t] assms(3,4) c(5) by (auto simp: Translate_def t1_def)
qed

text \<open>Translation and selection together: a job of at most 63 ranges translates and its region passes selection, with
  enough register numbers for the temporaries.\<close>

lemma selected_region:
  assumes "ranges \<noteq> []" and "distinct (map fst ranges)" and "length ranges \<le> 63"
    and "\<forall>r\<in>set ranges. snd r \<noteq> 0 \<and> no_discarded vm TB_MAX_INSNS (fst r)"
  shows "\<exists>t v' vi' hc. Translate d (NewRegion state_info) ranges vm = Inr t \<and> typed_tr t \<and>
    NumAll (vregs_info (t_region t)) + 3 * region_size (tview t) \<le> 2 ^ 16 \<and>
    QSelPass_run (tview t) (vregs_info (t_region t)) = Inr (v', vi', hc) \<and> NumAll vi' \<le> 32 + job_size ranges \<and>
    (\<forall>b\<in>set v'. \<forall>c\<in>set (fst b). selected c) \<and>
    (\<forall>r\<in>set ranges. \<exists>bb. ip2bb t (fst r) = Some bb \<and> code_of_range v' (ip2bb t) vm (fst r) bb)"
proof -
  obtain t where t: "Translate d (NewRegion state_info) ranges vm = Inr t" "t_vmem t = vm" "\<forall>r\<in>set ranges. range_correct t (fst r)"
    using Translate_ok [OF assms(1,2) _ assms(4), of d] assms(3) by auto
  let ?vi = "vregs_info (t_region t)"
  note ty = Translate_typed [OF assms(1,2,4) t(1)]
  have gi: "glob_info ?vi = state_info" and n: "NumAll ?vi = 32 + nloc t" using ty(1) by (simp_all add: typed_tr_def t_ok_def NumAll_def)
  have "length ranges * (16 * TB_MAX_INSNS + 9) \<le> 63 * (16 * TB_MAX_INSNS + 9)" using assms(3) by (rule mult_right_mono) simp
  then have sz: "NumAll ?vi + 3 * region_size (tview t) \<le> 2 ^ 16" using ty(2) job_size_le [of ranges] n by (simp add: weight_def TB_MAX_INSNS_def)
  have "\<forall>b\<in>set (tview t). sel_code (NumAll ?vi) (fst b)" using ty(1) n by (simp add: typed_tr_def)
  then obtain v' vi' hc where s: "QSelPass_run (tview t) ?vi = Inr (v', vi', hc)" "list_all2 (block_sim (NumAll ?vi) state_info) (tview t) v'"
      "NumAll vi' \<le> NumAll ?vi + 3 * region_size (tview t)"
    using QSel_Run_ok [of "tview t" "NumAll ?vi" ?vi False] state_info_offs sz unfolding gi QSelPass_run_def by auto
  have "\<forall>b\<in>set v'. \<forall>c\<in>set (fst b). selected c" using block_sims_selected [OF s(2)] by blast
  moreover have "code_of_range v' (ip2bb t) vm a bb" if "block_correct t a bb" for a bb
    using code_of_range_below [OF exec_block_below [OF s(2)] that] t(2) by simp
  moreover have "NumAll vi' \<le> 32 + job_size ranges" using s(3) n ty(2) by (simp add: weight_def)
  ultimately show ?thesis using t s(1) range_block_correct ty(1) sz
    by (intro exI [of _ t] exI [of _ v'] exI [of _ vi'] exI [of _ hc]) blast
qed

end
