(* ===== verification/QRA.thy ===== *)
theory QRA
  imports QSel
begin

text \<open>
  Register allocation, \<^verbatim>\<open>src/dbt/qmc/qcg/qra.cpp\<close>: one pass over the region that keeps, for every virtual register,
  a track of where its value is: nowhere, in its memory slot (the CPU state for globals, the spill frame
  for locals) or in a host register. The code it creates stands in front of the instruction it visits.
  A track is referred to by its index in \<open>vregs\<close>; \<open>n_vregs\<close> is the length of that list.
\<close>

section \<open>Tracks\<close>

definition NO_SPILL :: u16 where "NO_SPILL = - 1"

datatype Location = LDEAD | LMEM | LREG

record RTrack =
  rt_type :: VType
  is_global :: bool
  spill_offs :: u16
  rt_p :: RegN
  rt_loc :: Location
  spill_synced :: bool

definition new_track :: RTrack where
  "new_track = \<lparr>rt_type = UNDEF, is_global = False, spill_offs = NO_SPILL, rt_p = 0, rt_loc = LDEAD, spill_synced = False\<rparr>"

definition MAX_VREGS :: nat where "MAX_VREGS = 512"

record QRegAlloc =
  ra_pre :: "instc list"
  frame_cur :: u16
  vregs :: "RTrack list"
  p2v :: "RegN \<Rightarrow> nat option"

definition pregs :: "RegN list" where "pregs = map of_nat [0..<GPR_NUM]"

definition upd_track :: "nat \<Rightarrow> (RTrack \<Rightarrow> RTrack) \<Rightarrow> QRegAlloc \<Rightarrow> QRegAlloc" where
  "upd_track i f ra = ra\<lparr>vregs := (vregs ra)[i := f (vregs ra ! i)]\<rparr>"

definition AddTrack :: "RTrack \<Rightarrow> QRegAlloc \<Rightarrow> QRegAlloc res" where
  "AddTrack v ra = (if length (vregs ra) = MAX_VREGS then Inl Panic else Inr (ra\<lparr>vregs := vregs ra @ [v]\<rparr>))"

definition AddTrackGlobal :: "VType \<Rightarrow> u16 \<Rightarrow> QRegAlloc \<Rightarrow> QRegAlloc res" where
  "AddTrackGlobal type offs = AddTrack (new_track\<lparr>is_global := True, rt_type := type, spill_offs := offs\<rparr>)"

definition AddTrackLocal :: "VType \<Rightarrow> QRegAlloc \<Rightarrow> QRegAlloc res" where
  "AddTrackLocal type = AddTrack (new_track\<lparr>is_global := False, rt_type := type, spill_offs := NO_SPILL\<rparr>)"

text \<open>A loop over indices; its body may stop the program.\<close>

primrec ra_loop :: "('i \<Rightarrow> QRegAlloc \<Rightarrow> QRegAlloc res) \<Rightarrow> 'i list \<Rightarrow> QRegAlloc \<Rightarrow> QRegAlloc res" where
  "ra_loop f [] ra = Inr ra"
| "ra_loop f (i # is) ra = rbind (f i ra) (ra_loop f is)"

definition NewQRegAlloc :: "VRegsInfo \<Rightarrow> QRegAlloc res" where
  "NewQRegAlloc vi =
     rbind (ra_loop (\<lambda>i ra. rbind (GetGlobalInfo vi (of_nat i)) (\<lambda>gr. AddTrackGlobal (sr_type gr) (state_offs gr) ra)) [0..<NumGlobals vi]
              \<lparr>ra_pre = [], frame_cur = 0, vregs = [], p2v = Map.empty\<rparr>) (\<lambda>ra.
     ra_loop (\<lambda>i ra. rbind (GetLocalType vi (of_nat i)) (\<lambda>type. AddTrackLocal type ra)) [NumGlobals vi..<NumAll vi] ra)"

section \<open>Spills and fills\<close>

definition EmitMov :: "VOperand \<Rightarrow> VOperand \<Rightarrow> QRegAlloc \<Rightarrow> QRegAlloc" where
  "EmitMov d s ra = ra\<lparr>ra_pre := ra_pre ra @ [InstUnop q_mov d s]\<rparr>"

definition AllocFrameSlot :: "nat \<Rightarrow> QRegAlloc \<Rightarrow> QRegAlloc res" where
  "AllocFrameSlot i ra =
     (let v = vregs ra ! i in
      if spill_offs v \<noteq> NO_SPILL \<or> is_global v then Inl AssertFailed
      else rbind (VTypeToSize (rt_type v)) (\<lambda>sz.
        let slot_sz = ucast sz; slot_offs = ucast (roundup (ucast (frame_cur ra)) (ucast slot_sz)) in
        if unat slot_offs + unat slot_sz > unat spillframe_size then Inl Panic
        else Inr ((upd_track i (spill_offs_update (\<lambda>_. slot_offs)) ra)\<lparr>frame_cur := slot_offs + slot_sz\<rparr>)))"

definition slot_op :: "RTrack \<Rightarrow> VOperand" where
  "slot_op v = MakeSlot (is_global v) (rt_type v) (spill_offs v)"

definition reg_op :: "RTrack \<Rightarrow> VOperand" where
  "reg_op v = MakePGPR (rt_type v) (rt_p v)"

definition EmitSpill :: "nat \<Rightarrow> QRegAlloc \<Rightarrow> QRegAlloc res" where
  "EmitSpill i ra =
     rbind (if \<not> is_global (vregs ra ! i) \<and> spill_offs (vregs ra ! i) = NO_SPILL then AllocFrameSlot i ra else Inr ra) (\<lambda>ra.
       Inr (EmitMov (slot_op (vregs ra ! i)) (reg_op (vregs ra ! i)) ra))"

definition EmitFill :: "nat \<Rightarrow> QRegAlloc \<Rightarrow> QRegAlloc res" where
  "EmitFill i ra =
     (if spill_offs (vregs ra ! i) = NO_SPILL then Inl AssertFailed
      else Inr (EmitMov (reg_op (vregs ra ! i)) (slot_op (vregs ra ! i)) ra))"

definition SyncSpill :: "nat \<Rightarrow> QRegAlloc \<Rightarrow> QRegAlloc res" where
  "SyncSpill i ra =
     (let v = vregs ra ! i in
      if spill_synced v then Inr ra
      else case rt_loc v of
          LMEM \<Rightarrow> Inr ra
        | LREG \<Rightarrow> rbind (EmitSpill i ra) (\<lambda>ra. Inr (upd_track i (spill_synced_update (\<lambda>_. True)) ra))
        | LDEAD \<Rightarrow> Inl Panic)"

definition Release :: "bool \<Rightarrow> nat \<Rightarrow> QRegAlloc \<Rightarrow> QRegAlloc" where
  "Release kill i ra =
     (let v = vregs ra ! i;
          ra' = upd_track i (rt_loc_update (\<lambda>_. if is_global v then LMEM else if kill then LDEAD else LMEM)) ra
      in if rt_loc v = LREG then ra'\<lparr>p2v := (p2v ra')(rt_p v := None)\<rparr> else ra')"

definition Spill_v :: "nat \<Rightarrow> QRegAlloc \<Rightarrow> QRegAlloc res" where
  "Spill_v i ra = rbind (SyncSpill i ra) (\<lambda>ra. Inr (Release False i ra))"

definition Spill_p :: "RegN \<Rightarrow> QRegAlloc \<Rightarrow> QRegAlloc res" where
  "Spill_p p ra = (case p2v ra p of None \<Rightarrow> Inr ra | Some i \<Rightarrow> Spill_v i ra)"

definition AllocPReg :: "RegMask \<Rightarrow> RegMask \<Rightarrow> QRegAlloc \<Rightarrow> (RegN \<times> QRegAlloc) res" where
  "AllocPReg desire avoid ra =
     (let target = desire AND NOT avoid in
      case find (\<lambda>p. p2v ra p = None \<and> mask_Test target p) pregs of
        Some p \<Rightarrow> Inr (p, ra)
      | None \<Rightarrow>
          (case find (mask_Test target) pregs of
             Some p \<Rightarrow> rbind (Spill_p p ra) (\<lambda>ra. Inr (p, ra))
           | None \<Rightarrow> Inl Panic))"

definition set_reg :: "nat \<Rightarrow> RegN \<Rightarrow> QRegAlloc \<Rightarrow> QRegAlloc" where
  "set_reg i p ra = (upd_track i (\<lambda>v. v\<lparr>rt_p := p, rt_loc := LREG\<rparr>) ra)\<lparr>p2v := (p2v ra)(p := Some i)\<rparr>"

definition Fill :: "nat \<Rightarrow> RegMask \<Rightarrow> RegMask \<Rightarrow> QRegAlloc \<Rightarrow> QRegAlloc res" where
  "Fill i desire avoid ra =
     (case rt_loc (vregs ra ! i) of
        LMEM \<Rightarrow>
          rbind (AllocPReg desire avoid ra) (\<lambda>(p, ra).
            EmitFill i (upd_track i (spill_synced_update (\<lambda>_. True)) (set_reg i p ra)))
      | LREG \<Rightarrow> Inr ra
      | LDEAD \<Rightarrow> Inl Panic)"

section \<open>Boundaries\<close>

definition ra_Prologue :: "QRegAlloc \<Rightarrow> QRegAlloc" where
  "ra_Prologue ra = ra\<lparr>vregs := map (\<lambda>v. v\<lparr>rt_loc := if is_global v then LMEM else LDEAD\<rparr>) (vregs ra)\<rparr>"

definition BlockBoundary :: "QRegAlloc \<Rightarrow> QRegAlloc res" where
  "BlockBoundary ra =
     ra_loop (\<lambda>i ra. if is_global (vregs ra ! i) then Spill_v i ra else Inr ra) [0..<length (vregs ra)] ra"

definition RegionBoundary :: "QRegAlloc \<Rightarrow> QRegAlloc res" where
  "RegionBoundary ra =
     ra_loop (\<lambda>i ra. if is_global (vregs ra ! i) then Spill_v i ra else Inr (Release False i ra)) [0..<length (vregs ra)] ra"

section \<open>Operands\<close>

fun set_outputs :: "VOperand list \<Rightarrow> instc \<Rightarrow> instc" where
  "set_outputs [d] (InstUnop op _ s) = InstUnop op d s"
| "set_outputs [d] (InstBinop op _ sl sr) = InstBinop op d sl sr"
| "set_outputs [d] (InstVMLoad sz sg _ p) = InstVMLoad sz sg d p"
| "set_outputs [d] (InstSetcc cc _ sl sr) = InstSetcc cc d sl sr"
| "set_outputs _ c = c"

text \<open>The track of an operand; a register number beyond the tracks would be an access outside them.\<close>

definition track_of :: "VOperand \<Rightarrow> QRegAlloc \<Rightarrow> nat res" where
  "track_of opr ra = rbind (GetVGPR opr) (\<lambda>r. if unat r < length (vregs ra) then Inr (unat r) else Inl BadIndex)"

definition alloc_input :: "RAOpCt \<Rightarrow> VOperand \<Rightarrow> RegMask \<Rightarrow> QRegAlloc \<Rightarrow> (VOperand \<times> RegMask \<times> QRegAlloc) res" where
  "alloc_input ct opr avoid ra =
     (if \<not> IsVGPR opr then Inr (opr, avoid, ra)
      else rbind (track_of opr ra) (\<lambda>src.
        rbind (Fill src (ct_cr ct) avoid ra) (\<lambda>ra.
        let p = rt_p (vregs ra ! src) in
        if mask_Test (ct_cr ct) p then Inr (MakePGPR (GetType opr) p, mask_Set p avoid, ra)
        else rbind (AllocPReg (ct_cr ct) avoid ra) (\<lambda>(p, ra).
          let ra = EmitMov (MakePGPR (rt_type (vregs ra ! src)) p) (MakePGPR (rt_type (vregs ra ! src)) (rt_p (vregs ra ! src))) ra
          in Inr (MakePGPR (GetType opr) p, mask_Set p avoid, ra)))))"

primrec alloc_inputs :: "RAOpCt list \<Rightarrow> nat \<Rightarrow> nat list \<Rightarrow> VOperand list \<Rightarrow> RegMask \<Rightarrow> QRegAlloc \<Rightarrow>
    (VOperand list \<times> RegMask \<times> QRegAlloc) res" where
  "alloc_inputs op_ct dst_n [] srcl avoid ra = Inr (srcl, avoid, ra)"
| "alloc_inputs op_ct dst_n (i # ord) srcl avoid ra =
     rbind (alloc_input (op_ct ! (dst_n + i)) (srcl ! i) avoid ra) (\<lambda>(opr, avoid, ra).
       alloc_inputs op_ct dst_n ord (srcl[i := opr]) avoid ra)"

definition sync_globals :: "QRegAlloc \<Rightarrow> QRegAlloc res" where
  "sync_globals ra = ra_loop (\<lambda>i ra. if is_global (vregs ra ! i) then SyncSpill i ra else Inr ra) [0..<length (vregs ra)] ra"

definition alloc_output :: "RAOpCt \<Rightarrow> VOperand \<Rightarrow> RegMask \<Rightarrow> QRegAlloc \<Rightarrow> (VOperand \<times> RegMask \<times> QRegAlloc) res" where
  "alloc_output ct opr avoid ra =
     (if \<not> IsVGPR opr then Inr (opr, avoid, ra)
      else rbind (track_of opr ra) (\<lambda>dst.
        rbind (if ct_has_alias ct then Inr ra
               else rbind (AllocPReg (ct_cr ct) avoid ra) (\<lambda>(p, ra).
                 let v = vregs ra ! dst;
                     ra = (if rt_loc v = LREG then ra\<lparr>p2v := (p2v ra)(rt_p v := None)\<rparr> else ra)
                 in Inr (set_reg dst p ra))) (\<lambda>ra.
        let ra = upd_track dst (spill_synced_update (\<lambda>_. False)) ra; p = rt_p (vregs ra ! dst)
        in Inr (MakePGPR (GetType opr) p, mask_Set p avoid, ra))))"

primrec alloc_outputs :: "RAOpCt list \<Rightarrow> nat list \<Rightarrow> VOperand list \<Rightarrow> RegMask \<Rightarrow> QRegAlloc \<Rightarrow>
    (VOperand list \<times> RegMask \<times> QRegAlloc) res" where
  "alloc_outputs op_ct [] dstl avoid ra = Inr (dstl, avoid, ra)"
| "alloc_outputs op_ct (i # ord) dstl avoid ra =
     rbind (alloc_output (op_ct ! i) (dstl ! i) avoid ra) (\<lambda>(opr, avoid, ra).
       alloc_outputs op_ct ord (dstl[i := opr]) avoid ra)"

definition AllocOp :: "instc \<Rightarrow> QRegAlloc \<Rightarrow> (instc \<times> QRegAlloc) res" where
  "AllocOp c ra =
     (case ra_info (GetOpcode c) of
        None \<Rightarrow> Inl AssertFailed
      | Some (op_ct, op_order) \<Rightarrow>
          let dst_n = length (outputs c) in
          rbind (alloc_inputs op_ct dst_n (drop dst_n op_order) (inputs c) GPR_FIXED ra) (\<lambda>(srcl, avoid, ra).
          rbind (if GetOpFlags (GetOpcode c) AND Inst_SIDEEFF \<noteq> 0 then sync_globals ra else Inr ra) (\<lambda>ra.
          rbind (alloc_outputs op_ct (take dst_n op_order) (outputs c) avoid ra) (\<lambda>(dstl, avoid, ra).
            Inr (set_outputs dstl (set_inputs srcl c), ra)))))"

section \<open>Calls\<close>

text \<open>The second loop of \<open>CallOp\<close> counts in a byte: it does not end when there are more than 255 tracks.\<close>

partial_function (option) call_loop :: "u8 \<Rightarrow> QRegAlloc \<Rightarrow> QRegAlloc res option" where
  "call_loop i ra =
     (if unat i < length (vregs ra)
      then (case (if is_global (vregs ra ! unat i) then Spill_v (unat i) ra else Inr ra) of
              Inl e \<Rightarrow> Some (Inl e)
            | Inr ra \<Rightarrow> call_loop (i + 1) ra)
      else Some (Inr ra))"

declare call_loop.simps [code]

definition CallOp :: "bool \<Rightarrow> QRegAlloc \<Rightarrow> QRegAlloc res option" where
  "CallOp use_globals ra =
     (case ra_loop (\<lambda>p ra. if mask_Test GPR_CALL_CLOBBER p then Spill_p p ra else Inr ra) pregs ra of
        Inl e \<Rightarrow> Some (Inl e)
      | Inr ra \<Rightarrow> if use_globals then call_loop 0 ra else Some (Inr ra))"

section \<open>The pass\<close>

definition dbind :: "'a res option \<Rightarrow> ('a \<Rightarrow> 'b res option) \<Rightarrow> 'b res option" where
  "dbind m f = (case m of None \<Rightarrow> None | Some (Inl e) \<Rightarrow> Some (Inl e) | Some (Inr x) \<Rightarrow> f x)"

definition QRegAllocVisitor :: "instc \<Rightarrow> QRegAlloc \<Rightarrow> (instc \<times> QRegAlloc) res option" where
  "QRegAllocVisitor c ra =
     (case c of
        InstBr \<Rightarrow> Some (rbind (BlockBoundary ra) (\<lambda>ra. Inr (c, ra)))
      | InstBrcc _ _ _ \<Rightarrow> Some (rbind (AllocOp c ra) (\<lambda>(c, ra). rbind (BlockBoundary ra) (\<lambda>ra. Inr (c, ra))))
      | InstGBr _ \<Rightarrow> Some (rbind (RegionBoundary ra) (\<lambda>ra. Inr (c, ra)))
      | InstGBrind _ \<Rightarrow> Some (rbind (AllocOp c ra) (\<lambda>(c, ra). rbind (RegionBoundary ra) (\<lambda>ra. Inr (c, ra))))
      | InstHcall _ _ \<Rightarrow> dbind (CallOp True ra) (\<lambda>ra. Some (Inr (c, ra)))
      | _ \<Rightarrow> Some (AllocOp c ra))"

primrec ra_block :: "instc list \<Rightarrow> QRegAlloc \<Rightarrow> (instc list \<times> QRegAlloc) res option" where
  "ra_block [] ra = Some (Inr ([], ra))"
| "ra_block (c # cs) ra =
     dbind (QRegAllocVisitor c (ra\<lparr>ra_pre := []\<rparr>)) (\<lambda>(c', ra).
     let pre = ra_pre ra in
     dbind (ra_block cs ra) (\<lambda>(cs', ra). Some (Inr (pre @ c' # cs', ra))))"

primrec ra_blocks :: "rview \<Rightarrow> QRegAlloc \<Rightarrow> (rview \<times> QRegAlloc) res option" where
  "ra_blocks [] ra = Some (Inr ([], ra))"
| "ra_blocks (b # bs) ra =
     dbind (ra_block (fst b) ra) (\<lambda>(cs, ra).
     dbind (ra_blocks bs ra) (\<lambda>(bs', ra). Some (Inr ((cs, snd b) # bs', ra))))"

definition QRegAlloc_Run :: "rview \<Rightarrow> QRegAlloc \<Rightarrow> (rview \<times> QRegAlloc) res option" where
  "QRegAlloc_Run bs ra = ra_blocks bs (ra_Prologue ra)"

definition QRegAllocPass_run :: "rview \<Rightarrow> VRegsInfo \<Rightarrow> rview res option" where
  "QRegAllocPass_run bs vi =
     dbind (Some (NewQRegAlloc vi)) (\<lambda>ra. dbind (QRegAlloc_Run bs ra) (\<lambda>(bs', ra). Some (Inr bs')))"

end
