(* ===== verification/Host_Sem.thy ===== *)
theory Host_Sem
  imports QSel
begin

text \<open>
  A reference semantics of the intermediate code after register allocation, to state what allocation
  preserves: operands are host registers, constants and memory slots. The sixteen host registers are seen
  through their low 32 bits; a narrow write keeps the other bits. A global slot is a field of the CPU state, a local
  slot lies in the spill frame, which is memory of its own. A call of a stub leaves any values in the
  registers that the calling convention lets it clobber: they are an argument, a function of the state the call leaves.
\<close>

section \<open>Operands\<close>

record mstate =
  m_regs :: "RegN \<Rightarrow> u32"
  m_frame :: vmem
  m_cpu :: CPUState
  m_mem :: vmem

definition mread :: "mstate \<Rightarrow> VOperand \<Rightarrow> u32 option" where
  "mread s v =
     (case view_of v of
        VConst t c \<Rightarrow> Some (vtrunc t c)
      | VPhys t p \<Rightarrow> if unat p < GPR_NUM then Some (vtrunc t (m_regs s p)) else None
      | VSlot g t k \<Rightarrow>
          if g then (if t = I32 then state_read (m_cpu s) k else None) else eval_load t VU (m_frame s) (ucast k)
      | _ \<Rightarrow> None)"

definition mwrite :: "VOperand \<Rightarrow> u32 \<Rightarrow> mstate \<Rightarrow> mstate option" where
  "mwrite d v s =
     (case view_of d of
        VPhys t p \<Rightarrow> if unat p < GPR_NUM then Some (s\<lparr>m_regs := (m_regs s)(p := vmerge t (m_regs s p) v)\<rparr>) else None
      | VSlot g t k \<Rightarrow>
          if g then (if t = I32 then map_option (\<lambda>c. s\<lparr>m_cpu := c\<rparr>) (state_write k v (m_cpu s)) else None)
          else map_option (\<lambda>m. s\<lparr>m_frame := m\<rparr>) (eval_store t (m_frame s) (ucast k) v)
      | _ \<Rightarrow> None)"

section \<open>Instructions and blocks\<close>

definition after_call :: "(mstate \<Rightarrow> RegN \<Rightarrow> u32) \<Rightarrow> mstate \<Rightarrow> mstate" where
  "after_call clob s = s\<lparr>m_regs := \<lambda>p. if mask_Test GPR_CALL_CLOBBER p then clob s p else m_regs s p\<rparr>"

fun mexec_inst :: "(mstate \<Rightarrow> RegN \<Rightarrow> u32) \<Rightarrow> instc \<Rightarrow> mstate \<Rightarrow> mstate qres" where
  "mexec_inst clob (InstUnop op d a) s =
     (if op = q_mov then ostuck (mread s a) (\<lambda>v. ostuck (mwrite d v s) QNext) else QStuck)"
| "mexec_inst clob (InstBinop op d a b) s =
     ostuck (mread s a) (\<lambda>x. ostuck (mread s b) (\<lambda>y.
       ostuck (eval_binop op x y) (\<lambda>v. ostuck (mwrite d v s) QNext)))"
| "mexec_inst clob (InstSetcc cc d a b) s =
     ostuck (mread s a) (\<lambda>x. ostuck (mread s b) (\<lambda>y.
       ostuck (mwrite d (of_cond (eval_cc cc x y)) s) QNext))"
| "mexec_inst clob InstBr s = QBr s"
| "mexec_inst clob (InstBrcc cc a b) s =
     ostuck (mread s a) (\<lambda>x. ostuck (mread s b) (\<lambda>y. QBrcc (eval_cc cc x y) s))"
| "mexec_inst clob (InstGBr t) s = ostuck (mread s t) (\<lambda>x. QExit x s)"
| "mexec_inst clob (InstGBrind t) s = ostuck (mread s t) (\<lambda>x. QExit x s)"
| "mexec_inst clob (InstVMLoad sz sg d p) s =
     ostuck (mread s p) (\<lambda>a. ostuck (eval_load sz sg (m_mem s) (ucast a)) (\<lambda>v.
       ostuck (mwrite d v s) QNext))"
| "mexec_inst clob (InstVMStore sz sg p x) s =
     ostuck (mread s p) (\<lambda>a. ostuck (mread s x) (\<lambda>v.
       ostuck (eval_store sz (m_mem s) (ucast a) v) (\<lambda>m. QNext (s\<lparr>m_mem := m\<rparr>))))"
| "mexec_inst clob (InstHcall stub arg) s =
     (if stub = id_trace then QNext (after_call clob s) else
     ostuck (stub_op stub) (\<lambda>op. ostuck (mread s arg) (\<lambda>raw.
       case qcgstub_rv32 op raw (m_cpu s) (m_mem s) of
         Next st \<Rightarrow> QNext (after_call clob (s\<lparr>m_cpu := cpu st, m_mem := mem st\<rparr>))
       | Raised st \<Rightarrow> QRaise (after_call clob (s\<lparr>m_cpu := cpu st, m_mem := mem st\<rparr>))
       | Fail e \<Rightarrow> QStuck)))"

primrec mexec_list :: "(mstate \<Rightarrow> RegN \<Rightarrow> u32) \<Rightarrow> instc list \<Rightarrow> mstate \<Rightarrow> mstate qres" where
  "mexec_list clob [] s = QNext s"
| "mexec_list clob (c # cs) s = (case mexec_inst clob c s of QNext s' \<Rightarrow> mexec_list clob cs s' | r \<Rightarrow> r)"

lemma mexec_list_append [simp]:
  "mexec_list clob (cs @ cs') s = (case mexec_list clob cs s of QNext s' \<Rightarrow> mexec_list clob cs' s' | r \<Rightarrow> r)"
  by (induction cs arbitrary: s) (auto split: qres.splits)

definition mexec_block :: "(mstate \<Rightarrow> RegN \<Rightarrow> u32) \<Rightarrow> rview \<Rightarrow> nat \<Rightarrow> mstate \<Rightarrow> mstate bres" where
  "mexec_block clob v bb s =
     (if bb < length v
      then (case mexec_list clob (fst (v ! bb)) s of
              QNext s' \<Rightarrow> BStuck
            | QBr s' \<Rightarrow> succ_at (snd (v ! bb)) 0 s'
            | QBrcc c s' \<Rightarrow> succ_at (snd (v ! bb)) (if c then 0 else 1) s'
            | QExit t s' \<Rightarrow> BExit t s'
            | QRaise s' \<Rightarrow> BRaise s'
            | QStuck \<Rightarrow> BStuck)
      else BStuck)"

end
