(* ===== verification/QRA_Moves.thy ===== *)
theory QRA_Moves
  imports QRA Host_Sem
begin

text \<open>
  Register allocation keeps the values of virtual registers: a relation between a state of the code before
  allocation and a state of the host, indexed by what the allocator knows, is kept by every move the
  allocator creates and by every instruction it rewrites.
\<close>

section \<open>Masks\<close>

lemma mask_Test_bit: "mask_Test m p \<longleftrightarrow> bit m (unat p)"
  by (simp add: mask_Test_def bit_iff_and_push_bit_not_eq_0)

lemma mask_Test_diff: "unat p < 32 \<Longrightarrow> mask_Test (a AND NOT b) p \<longleftrightarrow> mask_Test a p \<and> \<not> mask_Test b p"
  by (simp add: mask_Test_bit bit_simps)

lemma mask_Test_lt: "mask_Test m p \<Longrightarrow> unat p < 32"
  using bit_imp_le_length [of m "unat p"] by (simp add: mask_Test_bit)

lemma mask_Test_Set: "unat q < 32 \<Longrightarrow> mask_Test (mask_Set q m) p \<longleftrightarrow> p = q \<or> mask_Test m p"
  by (auto simp: mask_Test_bit mask_Set_def bit_simps unsigned_word_eqI)

lemma pregs_eq: "pregs = [0, 1, 2, 3, 4, 5, 6, 7, 8, 9, 10, 11, 12, 13, 14, 15]"
  by code_simp

lemma set_pregs: "p \<in> set pregs \<longleftrightarrow> unat p < 16"
proof
  assume "unat p < 16"
  then have "unat p \<in> set [0..<16]" by simp
  then have "of_nat (unat p) \<in> set pregs" unfolding pregs_def GPR_NUM_def by (simp only: set_map imageI)
  then show "p \<in> set pregs" by simp
qed (auto simp: pregs_eq)

lemma mask_all: "mask_Test 0xffff p \<longleftrightarrow> unat p < 16"
proof (cases "unat p < 16")
  case True
  then have "p \<in> set pregs" by (simp add: set_pregs)
  then show ?thesis using True by (auto simp: pregs_eq mask_Test_bit)
next
  case False
  have "(0xffff :: u32) = mask 16" by (simp add: mask_eq_exp_minus_1)
  then show ?thesis using False unfolding mask_Test_bit by (simp only: bit_mask_iff) simp
qed

lemma mask_bits:
  "mask_Test 0x40 p \<longleftrightarrow> p = 6" "mask_Test 2 p \<longleftrightarrow> p = 1"
proof -
  have "mask_Test (mask_Set 6 0) p \<longleftrightarrow> p = 6" "mask_Test (mask_Set 1 0) p \<longleftrightarrow> p = 1"
    using mask_Test_Set [of 6 0 p] mask_Test_Set [of 1 0 p] by (simp_all add: mask_Test_bit [of 0])
  moreover have "mask_Set 6 0 = (0x40 :: u32)" "mask_Set 1 0 = (2 :: u32)" by code_simp+
  ultimately show "mask_Test 0x40 p \<longleftrightarrow> p = 6" "mask_Test 2 p \<longleftrightarrow> p = 1" by simp_all
qed

section \<open>Slots\<close>

primrec vsz :: "VType \<Rightarrow> nat" where
  "vsz I8 = 1"
| "vsz I16 = 2"
| "vsz I32 = 4"
| "vsz UNDEF = 0"

text \<open>Where the bytes of a slot are: in the CPU state or in the frame.\<close>

definition offs_ok :: "u16 \<Rightarrow> bool" where
  "offs_ok k \<longleftrightarrow> unat k < 128 \<and> unat k mod 4 = 0 \<or> k = 128"

lemma NO_SPILL_val: "unat NO_SPILL = 65535"
  by (simp add: NO_SPILL_def unsigned_minus_1_eq_mask mask_eq_exp_minus_1)

lemma offs_ok_NO_SPILL: "\<not> offs_ok NO_SPILL"
proof -
  have "NO_SPILL \<noteq> 128"
  proof
    assume "NO_SPILL = 128"
    then have "unat NO_SPILL = unat (128 :: u16)" by (rule arg_cong)
    then show False using NO_SPILL_val by simp
  qed
  then show ?thesis using NO_SPILL_val by (simp add: offs_ok_def)
qed

definition slot_ok :: "RTrack \<Rightarrow> bool" where
  "slot_ok v \<longleftrightarrow>
     (if is_global v then rt_type v = I32 \<and> offs_ok (spill_offs v)
      else rt_type v \<noteq> UNDEF \<and> spill_offs v \<noteq> NO_SPILL \<and> unat (spill_offs v) + vsz (rt_type v) \<le> 1024)"

definition slots_apart :: "RTrack \<Rightarrow> RTrack \<Rightarrow> bool" where
  "slots_apart v w \<longleftrightarrow>
     is_global v \<noteq> is_global w \<or>
     (if is_global v then spill_offs v \<noteq> spill_offs w
      else unat (spill_offs v) + vsz (rt_type v) \<le> unat (spill_offs w) \<or>
           unat (spill_offs w) + vsz (rt_type w) \<le> unat (spill_offs v))"

definition cpu_rest :: "CPUState \<Rightarrow> TrapCode \<times> (u8 \<Rightarrow> u32)" where
  "cpu_rest c = (trapno c, \<lambda>r. if unat r < 32 then 0 else gpr c r)"

lemma state_read_ok: "state_read c k \<noteq> None \<longleftrightarrow> offs_ok k" "state_write k x c \<noteq> None \<longleftrightarrow> offs_ok k"
  by (auto simp: state_read_def state_write_def offs_ok_def)

lemma cpu_eqI:
  assumes "cpu_rest c = cpu_rest c'" and "\<And>k. offs_ok k \<Longrightarrow> state_read c k = state_read c' k"
  shows "c = c'"
proof -
  have "gpr c r = gpr c' r" for r
  proof (cases "unat r < 32")
    case True
    have u: "unat (of_nat (4 * unat r) :: u16) = 4 * unat r" using True by (simp only: unsigned_of_nat) (simp add: take_bit_nat_eq_self)
    have "offs_ok (of_nat (4 * unat r))" unfolding offs_ok_def u using True by simp
    from assms(2) [OF this] show ?thesis using True unfolding state_read_def u by simp
  next
    case False
    have "snd (cpu_rest c) r = snd (cpu_rest c') r" using assms(1) by simp
    then show ?thesis using False by (simp add: cpu_rest_def)
  qed
  moreover have "ip c = ip c'" using assms(2) [of 128] by (simp add: offs_ok_def state_read_def)
  moreover have "trapno c = trapno c'" using assms(1) by (simp add: cpu_rest_def)
  ultimately show ?thesis by (intro CPUState.equality) auto
qed

lemma state_write_rest: "state_write k x c = Some c' \<Longrightarrow> cpu_rest c' = cpu_rest c"
proof -
  assume w: "state_write k x c = Some c'"
  have "unat (of_nat (unat k div 4) :: u8) < 32" if "unat k < 128"
    using that by (simp add: unsigned_of_nat take_bit_nat_eq_self less_mult_imp_div_less)
  then show ?thesis using w by (auto simp: state_write_def cpu_rest_def fun_eq_iff split: if_splits)
qed

text \<open>The frame.\<close>

lemma vtrunc_cast: "vtrunc I8 v = ucast (ucast v :: u8)" "vtrunc I16 v = ucast (ucast v :: u16)"
proof -
  have "v AND 0xff = take_bit 8 v" "v AND 0xffff = take_bit 16 v"
    by (simp_all add: take_bit_eq_mask mask_eq_exp_minus_1)
  then show "vtrunc I8 v = ucast (ucast v :: u8)" "vtrunc I16 v = ucast (ucast v :: u16)"
    by (auto intro!: bit_word_eqI simp: bit_simps)
qed

lemma frame_load_store:
  assumes "eval_store t m a v = Some m'"
  shows "eval_load t VU m' a = Some (vtrunc t v)"
  using assms load_store_word [where 'a = 8 and n = 1] load_store_word [where 'a = 16 and n = 2] load_store_word [where 'a = 32 and n = 4]
  by (cases t) (auto simp del: vtrunc.simps(1,2) simp: vtrunc_cast)

lemma frame_store_bytes:
  assumes "eval_store t m a v = Some m'" and "vsz t \<le> unat (x - a)"
  shows "m' x = m x"
  using assms store_word_frame [where 'a = 8 and n = 1] store_word_frame [where 'a = 16 and n = 2] store_word_frame [where 'a = 32 and n = 4]
  by (cases t) auto

lemma eval_load_cong:
  assumes "\<And>j. j < vsz t \<Longrightarrow> m' (a + of_nat j) = m (a + of_nat j)"
  shows "eval_load t VU m' a = eval_load t VU m a"
  using assms load_word_cong [where 'a = 8 and n = 1, of m' a m] load_word_cong [where 'a = 16 and n = 2, of m' a m]
    load_word_cong [where 'a = 32 and n = 4, of m' a m]
  by (cases t) simp_all

lemma frame_store_other:
  assumes "eval_store t m (ucast (k :: u16)) v = Some m'" and "unat k + vsz t \<le> 1024" and "unat k' + vsz t' \<le> 1024"
    and "unat k + vsz t \<le> unat k' \<or> unat k' + vsz t' \<le> unat k"
  shows "eval_load t' VU m' (ucast (k' :: u16)) = eval_load t' VU m (ucast k')"
proof (rule eval_load_cong)
  fix j assume j: "j < vsz t'"
  let ?x = "ucast k' + of_nat j :: u64" and ?a = "ucast k :: u64"
  have x: "unat ?x = unat k' + j" and a: "unat ?a = unat k"
  proof -
    have "?x = of_nat (unat k' + j)" by simp
    then show "unat ?x = unat k' + j" using assms(3) j by (simp only: unsigned_of_nat) (simp add: take_bit_nat_eq_self)
    show "unat ?a = unat k" using unsigned_less [of k, where 'a = nat] by (simp add: unsigned_ucast_eq take_bit_nat_eq_self)
  qed
  show "m' ?x = m ?x"
  proof (rule frame_store_bytes [OF assms(1)])
    from assms(4) show "vsz t \<le> unat (?x - ?a)"
    proof
      assume "unat k + vsz t \<le> unat k'"
      then have "unat (?x - ?a) = unat k' + j - unat k" using x a by (simp add: unat_sub word_le_nat_alt)
      then show ?thesis using \<open>unat k + vsz t \<le> unat k'\<close> by simp
    next
      assume l: "unat k' + vsz t' \<le> unat k"
      have "unat (?x - ?a) = 2 ^ 64 + (unat k' + j) - unat k"
        using x a l j by (simp add: unat_sub_if_size word_le_nat_alt size_word_def)
      moreover have "vsz t \<le> 4" by (cases t) simp_all
      ultimately show ?thesis using l j assms(2) by simp
    qed
  qed
qed

section \<open>Moves between registers and slots\<close>

lemma mread_reg [simp]: "unat p < 16 \<Longrightarrow> mread s (MakePGPR t p) = Some (vtrunc t (m_regs s p))"
  by (simp add: mread_def GPR_NUM_def)

lemma mwrite_reg [simp]:
  "unat p < 16 \<Longrightarrow> mwrite (MakePGPR t p) v s = Some (s\<lparr>m_regs := (m_regs s)(p := vmerge t (m_regs s p) v)\<rparr>)"
  by (simp add: mwrite_def GPR_NUM_def)

lemma mread_slot_cong: "m_frame s' = m_frame s \<Longrightarrow> m_cpu s' = m_cpu s \<Longrightarrow> mread s' (slot_op v) = mread s (slot_op v)"
  by (simp add: mread_def slot_op_def)

lemma slot_spill_exec:
  assumes "slot_ok v" and "unat (rt_p v) < 16"
  shows "\<exists>s'. mexec_inst clob (InstUnop q_mov (slot_op v) (reg_op v)) s = QNext s' \<and> m_regs s' = m_regs s \<and> m_mem s' = m_mem s \<and>
    mread s' (slot_op v) = Some (vtrunc (rt_type v) (m_regs s (rt_p v))) \<and>
    (\<forall>w. slot_ok w \<and> slots_apart v w \<longrightarrow> mread s' (slot_op w) = mread s (slot_op w)) \<and> cpu_rest (m_cpu s') = cpu_rest (m_cpu s) \<and>
    (\<forall>k. \<not> (is_global v \<and> k = spill_offs v) \<longrightarrow> state_read (m_cpu s') k = state_read (m_cpu s) k)"
proof (cases "is_global v")
  case True
  then have ty: "rt_type v = I32" "offs_ok (spill_offs v)" using assms(1) by (simp_all add: slot_ok_def)
  obtain c where c: "state_write (spill_offs v) (m_regs s (rt_p v)) (m_cpu s) = Some c" using state_read_ok(2) ty(2) by blast
  note r = state_read_write [OF c]
  have "mexec_inst clob (InstUnop q_mov (slot_op v) (reg_op v)) s = QNext (s\<lparr>m_cpu := c\<rparr>)"
    using assms(2) True ty(1) c by (simp add: reg_op_def slot_op_def mwrite_def)
  then show ?thesis using True ty(1) r state_write_rest [OF c]
    by (intro exI [of _ "s\<lparr>m_cpu := c\<rparr>"]) (auto simp: mread_def slot_op_def slots_apart_def slot_ok_def)
next
  case False
  then have ty: "rt_type v \<noteq> UNDEF" "unat (spill_offs v) + vsz (rt_type v) \<le> 1024" using assms(1) by (simp_all add: slot_ok_def)
  let ?x = "vtrunc (rt_type v) (m_regs s (rt_p v))"
  obtain m where m: "eval_store (rt_type v) (m_frame s) (ucast (spill_offs v)) ?x = Some m" using ty(1) by (cases "rt_type v") auto
  have "mexec_inst clob (InstUnop q_mov (slot_op v) (reg_op v)) s = QNext (s\<lparr>m_frame := m\<rparr>)"
    using assms(2) False m by (simp add: reg_op_def slot_op_def mwrite_def)
  moreover have "mread (s\<lparr>m_frame := m\<rparr>) (slot_op w) = mread s (slot_op w)" if "slot_ok w" "slots_apart v w" for w
    using that False frame_store_other [OF m ty(2)] by (cases "is_global w") (auto simp: mread_def slot_op_def slots_apart_def slot_ok_def)
  ultimately show ?thesis using False frame_load_store [OF m]
    by (intro exI [of _ "s\<lparr>m_frame := m\<rparr>"]) (auto simp: mread_def slot_op_def)
qed

lemma fill_exec:
  assumes "mread s (slot_op v) = Some x" and "unat (rt_p v) < 16"
  shows "mexec_inst clob (InstUnop q_mov (reg_op v) (slot_op v)) s =
    QNext (s\<lparr>m_regs := (m_regs s)(rt_p v := vmerge (rt_type v) (m_regs s (rt_p v)) x)\<rparr>)"
  using assms by (simp add: reg_op_def)

section \<open>The allocator's invariant\<close>

text \<open>The region's registers: state registers are 32 bits wide and at distinct offsets of the CPU state, locals have
  proper types, and there are at most 255 registers, so that the loop over them in a call ends.\<close>

definition info_ok :: "VRegsInfo \<Rightarrow> bool" where
  "info_ok vi \<longleftrightarrow> offs_distinct (glob_info vi) \<and>
     (\<forall>sr\<in>set (si_regs (glob_info vi)). sr_type sr = I32 \<and> offs_ok (state_offs sr)) \<and>
     UNDEF \<notin> set (loc_info vi) \<and> NumAll vi \<le> 255"

definition goffs :: "VRegsInfo \<Rightarrow> nat \<Rightarrow> u16" where
  "goffs vi i = state_offs (si_regs (glob_info vi) ! i)"

definition track_ok :: "VRegsInfo \<Rightarrow> nat \<Rightarrow> RTrack \<Rightarrow> bool" where
  "track_ok vi i v \<longleftrightarrow>
     (if i < NumGlobals vi then is_global v \<and> rt_type v = I32 \<and> spill_offs v = goffs vi i
      else \<not> is_global v \<and> rt_type v = loc_info vi ! (i - NumGlobals vi))"

text \<open>The program counter's register is only written through its slot.\<close>

definition ip_reg :: "VRegsInfo \<Rightarrow> nat \<Rightarrow> bool" where
  "ip_reg vi i \<longleftrightarrow> i < NumGlobals vi \<and> goffs vi i = 128"

definition tracks_ok :: "VRegsInfo \<Rightarrow> RTrack list \<Rightarrow> bool" where
  "tracks_ok vi vs \<longleftrightarrow> length vs = NumAll vi \<and>
     (\<forall>i<NumAll vi. track_ok vi i (vs ! i) \<and> (i < NumGlobals vi \<longrightarrow> rt_loc (vs ! i) \<noteq> LDEAD) \<and> (ip_reg vi i \<longrightarrow> rt_loc (vs ! i) = LMEM))"

definition regs_ok :: "RTrack list \<Rightarrow> (RegN \<Rightarrow> nat option) \<Rightarrow> bool" where
  "regs_ok vs pv \<longleftrightarrow>
     (\<forall>i<length vs. rt_loc (vs ! i) = LREG \<longrightarrow>
        unat (rt_p (vs ! i)) < 16 \<and> \<not> mask_Test GPR_FIXED (rt_p (vs ! i)) \<and> pv (rt_p (vs ! i)) = Some i) \<and>
     (\<forall>p i. pv p = Some i \<longrightarrow> i < length vs \<and> rt_loc (vs ! i) = LREG \<and> rt_p (vs ! i) = p)"

definition slotted :: "RTrack \<Rightarrow> bool" where
  "slotted v \<longleftrightarrow> \<not> is_global v \<and> spill_offs v \<noteq> NO_SPILL"

definition frame_ok :: "RTrack list \<Rightarrow> u16 \<Rightarrow> bool" where
  "frame_ok vs cur \<longleftrightarrow> unat cur \<le> 4 * length (filter slotted vs) \<and>
     (\<forall>v\<in>set vs. slotted v \<longrightarrow> unat (spill_offs v) + vsz (rt_type v) \<le> unat cur) \<and>
     (\<forall>i<length vs. \<forall>j<length vs. i \<noteq> j \<and> slotted (vs ! i) \<and> slotted (vs ! j) \<longrightarrow> slots_apart (vs ! i) (vs ! j))"

definition has_slot :: "RTrack \<Rightarrow> bool" where
  "has_slot v \<longleftrightarrow> is_global v \<or> spill_offs v \<noteq> NO_SPILL"

text \<open>The registers of \<open>X\<close> have a value: it is in a register or in a slot.\<close>

definition placed :: "RTrack \<Rightarrow> bool" where
  "placed v \<longleftrightarrow> rt_loc v \<noteq> LDEAD \<and> (rt_loc v = LMEM \<or> spill_synced v \<longrightarrow> has_slot v)"

definition located :: "nat set \<Rightarrow> RTrack list \<Rightarrow> bool" where
  "located X vs \<longleftrightarrow> (\<forall>i\<in>X. i < length vs \<longrightarrow> placed (vs ! i))"

definition ra_inv :: "VRegsInfo \<Rightarrow> nat set \<Rightarrow> QRegAlloc \<Rightarrow> bool" where
  "ra_inv vi X ra \<longleftrightarrow> tracks_ok vi (vregs ra) \<and> regs_ok (vregs ra) (p2v ra) \<and> frame_ok (vregs ra) (frame_cur ra) \<and> located X (vregs ra)"

section \<open>Related states\<close>

definition vreg_val :: "VRegsInfo \<Rightarrow> qstate \<Rightarrow> nat \<Rightarrow> u32" where
  "vreg_val vi qs i = (if i < NumGlobals vi then the (state_read (qcpu qs) (goffs vi i)) else qloc qs (of_nat i))"

definition slot_has :: "mstate \<Rightarrow> RTrack \<Rightarrow> u32 \<Rightarrow> bool" where
  "slot_has ms v x \<longleftrightarrow> mread ms (slot_op v) = Some (vtrunc (rt_type v) x)"

definition holds :: "mstate \<Rightarrow> RTrack \<Rightarrow> u32 \<Rightarrow> bool" where
  "holds ms v x \<longleftrightarrow>
     (rt_loc v = LREG \<longrightarrow> vtrunc (rt_type v) (m_regs ms (rt_p v)) = vtrunc (rt_type v) x) \<and>
     (rt_loc v = LMEM \<or> spill_synced v \<longrightarrow> slot_has ms v x)"

definition ra_sim :: "VRegsInfo \<Rightarrow> nat set \<Rightarrow> RTrack list \<Rightarrow> qstate \<Rightarrow> mstate \<Rightarrow> bool" where
  "ra_sim vi X vs qs ms \<longleftrightarrow> (\<forall>i\<in>X. i < NumAll vi \<longrightarrow> holds ms (vs ! i) (vreg_val vi qs i)) \<and>
     m_mem ms = qmem qs \<and> cpu_rest (m_cpu ms) = cpu_rest (qcpu qs) \<and>
     (\<forall>k. (\<forall>i<NumGlobals vi. k \<noteq> goffs vi i) \<longrightarrow> state_read (m_cpu ms) k = state_read (qcpu qs) k)"

text \<open>What a piece of the allocator does: it appends moves that keep the relation, the registers of \<open>K\<close> and what is in them.\<close>

definition ra_moves :: "VRegsInfo \<Rightarrow> nat set \<Rightarrow> RegN set \<Rightarrow> QRegAlloc \<Rightarrow> QRegAlloc \<Rightarrow> bool" where
  "ra_moves vi X K ra ra' \<longleftrightarrow> ra_inv vi X ra' \<and>
     (\<forall>i<NumAll vi. rt_loc (vregs ra ! i) = LREG \<and> rt_p (vregs ra ! i) \<in> K \<longrightarrow>
        rt_loc (vregs ra' ! i) = LREG \<and> rt_p (vregs ra' ! i) = rt_p (vregs ra ! i)) \<and>
     (\<exists>cs. ra_pre ra' = ra_pre ra @ cs \<and>
        (\<forall>clob qs ms. ra_sim vi X (vregs ra) qs ms \<longrightarrow>
           (\<exists>ms'. mexec_list clob cs ms = QNext ms' \<and> ra_sim vi X (vregs ra') qs ms' \<and> (\<forall>p\<in>K. m_regs ms' p = m_regs ms p))))"

lemma ra_movesI:
  assumes "ra_inv vi X ra'" and "ra_pre ra' = ra_pre ra @ cs"
    and "\<And>i. i < NumAll vi \<Longrightarrow> rt_loc (vregs ra ! i) = LREG \<Longrightarrow> rt_p (vregs ra ! i) \<in> K \<Longrightarrow>
      rt_loc (vregs ra' ! i) = LREG \<and> rt_p (vregs ra' ! i) = rt_p (vregs ra ! i)"
    and "\<And>clob qs ms. ra_sim vi X (vregs ra) qs ms \<Longrightarrow>
      \<exists>ms'. mexec_list clob cs ms = QNext ms' \<and> ra_sim vi X (vregs ra') qs ms' \<and> (\<forall>p\<in>K. m_regs ms' p = m_regs ms p)"
  shows "ra_moves vi X K ra ra'"
  using assms unfolding ra_moves_def by blast

lemma ra_moves_refl: "ra_inv vi X ra \<Longrightarrow> ra_moves vi X K ra ra"
  by (auto simp: ra_moves_def)

lemma ra_moves_mono: "ra_moves vi X K ra ra' \<Longrightarrow> K' \<subseteq> K \<Longrightarrow> ra_moves vi X K' ra ra'"
  unfolding ra_moves_def by (elim conjE exE, intro conjI exI) blast+

lemma ra_moves_inv: "ra_moves vi X K ra ra' \<Longrightarrow> ra_inv vi X ra'"
  by (simp add: ra_moves_def)

lemma ra_moves_trans:
  assumes "ra_moves vi X K ra ra1" and "ra_moves vi X K ra1 ra2"
  shows "ra_moves vi X K ra ra2"
proof -
  obtain cs1 where 1: "ra_pre ra1 = ra_pre ra @ cs1" "\<And>clob qs ms. ra_sim vi X (vregs ra) qs ms \<Longrightarrow>
      \<exists>ms'. mexec_list clob cs1 ms = QNext ms' \<and> ra_sim vi X (vregs ra1) qs ms' \<and> (\<forall>p\<in>K. m_regs ms' p = m_regs ms p)"
    using assms(1) unfolding ra_moves_def by blast
  obtain cs2 where 2: "ra_pre ra2 = ra_pre ra1 @ cs2" "\<And>clob qs ms. ra_sim vi X (vregs ra1) qs ms \<Longrightarrow>
      \<exists>ms'. mexec_list clob cs2 ms = QNext ms' \<and> ra_sim vi X (vregs ra2) qs ms' \<and> (\<forall>p\<in>K. m_regs ms' p = m_regs ms p)"
    using assms(2) unfolding ra_moves_def by blast
  have "\<exists>ms'. mexec_list clob (cs1 @ cs2) ms = QNext ms' \<and> ra_sim vi X (vregs ra2) qs ms' \<and> (\<forall>p\<in>K. m_regs ms' p = m_regs ms p)"
    if h: "ra_sim vi X (vregs ra) qs ms" for clob qs ms
  proof -
    obtain ms1 where m1: "mexec_list clob cs1 ms = QNext ms1" "ra_sim vi X (vregs ra1) qs ms1" "\<forall>p\<in>K. m_regs ms1 p = m_regs ms p"
      using 1(2) [OF h] by blast
    obtain ms2 where "mexec_list clob cs2 ms1 = QNext ms2" "ra_sim vi X (vregs ra2) qs ms2" "\<forall>p\<in>K. m_regs ms2 p = m_regs ms1 p"
      using 2(2) [OF m1(2)] by blast
    then show ?thesis using m1 by simp
  qed
  moreover have "\<forall>i<NumAll vi. rt_loc (vregs ra ! i) = LREG \<and> rt_p (vregs ra ! i) \<in> K \<longrightarrow>
        rt_loc (vregs ra2 ! i) = LREG \<and> rt_p (vregs ra2 ! i) = rt_p (vregs ra ! i)"
    using assms unfolding ra_moves_def by metis
  ultimately show ?thesis using 1(1) 2(1) assms(2) unfolding ra_moves_def by (intro conjI exI [of _ "cs1 @ cs2"]) auto
qed

section \<open>Spilling\<close>

lemma ra_invD:
  assumes "ra_inv vi X ra"
  shows "tracks_ok vi (vregs ra)" "regs_ok (vregs ra) (p2v ra)" "frame_ok (vregs ra) (frame_cur ra)" "located X (vregs ra)"
  using assms unfolding ra_inv_def by blast+

lemma tracks_okD:
  assumes "tracks_ok vi vs"
  shows "length vs = NumAll vi" "i < NumAll vi \<Longrightarrow> track_ok vi i (vs ! i)" "i < NumGlobals vi \<Longrightarrow> i < NumAll vi \<Longrightarrow> rt_loc (vs ! i) \<noteq> LDEAD"
    "ip_reg vi i \<Longrightarrow> i < NumAll vi \<Longrightarrow> rt_loc (vs ! i) = LMEM"
  using assms unfolding tracks_ok_def by blast+

lemma frame_okD:
  assumes "frame_ok vs cur"
  shows "unat cur \<le> 4 * length (filter slotted vs)" "v \<in> set vs \<Longrightarrow> slotted v \<Longrightarrow> unat (spill_offs v) + vsz (rt_type v) \<le> unat cur"
    "i < length vs \<Longrightarrow> j < length vs \<Longrightarrow> i \<noteq> j \<Longrightarrow> slotted (vs ! i) \<Longrightarrow> slotted (vs ! j) \<Longrightarrow> slots_apart (vs ! i) (vs ! j)"
  using assms unfolding frame_ok_def by blast+

lemma regs_okD:
  assumes "regs_ok vs pv"
  shows "i < length vs \<Longrightarrow> rt_loc (vs ! i) = LREG \<Longrightarrow> unat (rt_p (vs ! i)) < 16" "i < length vs \<Longrightarrow> rt_loc (vs ! i) = LREG \<Longrightarrow> \<not> mask_Test GPR_FIXED (rt_p (vs ! i))"
    "i < length vs \<Longrightarrow> rt_loc (vs ! i) = LREG \<Longrightarrow> pv (rt_p (vs ! i)) = Some i"
    "pv p = Some i \<Longrightarrow> i < length vs" "pv p = Some i \<Longrightarrow> rt_loc (vs ! i) = LREG" "pv p = Some i \<Longrightarrow> rt_p (vs ! i) = p"
  using assms unfolding regs_ok_def by blast+

lemma inv_length: "ra_inv vi X ra \<Longrightarrow> length (vregs ra) = NumAll vi"
  using ra_invD(1) tracks_okD(1) by blast

lemma inv_track: "ra_inv vi X ra \<Longrightarrow> i < NumAll vi \<Longrightarrow> track_ok vi i (vregs ra ! i)"
  using ra_invD(1) tracks_okD(2) by blast

lemma globals_le: "NumGlobals vi \<le> NumAll vi"
  by (simp add: NumGlobals_def NumAll_def)

lemma is_global_iff: "ra_inv vi X ra \<Longrightarrow> i < NumAll vi \<Longrightarrow> is_global (vregs ra ! i) \<longleftrightarrow> i < NumGlobals vi"
  using inv_track [of vi X ra i] by (auto simp: track_ok_def split: if_splits)

lemma goffs_facts:
  assumes "info_ok vi" and "i < NumGlobals vi"
  shows "offs_ok (goffs vi i)" and "j < NumGlobals vi \<Longrightarrow> j \<noteq> i \<Longrightarrow> goffs vi j \<noteq> goffs vi i"
  using assms by (auto simp: info_ok_def goffs_def NumGlobals_def si_n_regs_def offs_distinct_def distinct_conv_nth)

lemma track_type:
  assumes "info_ok vi" and "track_ok vi i v" and "i < NumAll vi"
  shows "rt_type v \<noteq> UNDEF"
proof (cases "i < NumGlobals vi")
  case False
  then have "i - NumGlobals vi < length (loc_info vi)" using assms(3) by (simp add: NumAll_def NumGlobals_def)
  then have "loc_info vi ! (i - NumGlobals vi) \<in> set (loc_info vi)" by simp
  then show ?thesis using assms(1,2) False by (auto simp: info_ok_def track_ok_def)
qed (use assms(2) in \<open>simp add: track_ok_def\<close>)

lemma frame_bound:
  assumes "info_ok vi" and "ra_inv vi X ra"
  shows "unat (frame_cur ra) \<le> 1020"
proof -
  have "length (filter slotted (vregs ra)) \<le> 255"
    using length_filter_le [of slotted "vregs ra"] inv_length [OF assms(2)] assms(1) by (simp add: info_ok_def)
  then show ?thesis using frame_okD(1) [OF ra_invD(3) [OF assms(2)]] by simp
qed

lemma inv_slot:
  assumes "info_ok vi" and "ra_inv vi X ra" and "i < NumAll vi" and "has_slot (vregs ra ! i)"
  shows "slot_ok (vregs ra ! i)"
proof (cases "i < NumGlobals vi")
  case True
  then show ?thesis using inv_track [OF assms(2,3)] goffs_facts(1) [OF assms(1) True] by (simp add: slot_ok_def track_ok_def)
next
  case False
  then have "slotted (vregs ra ! i)" using assms inv_track [OF assms(2,3)] by (simp add: track_ok_def slotted_def has_slot_def)
  moreover have "vregs ra ! i \<in> set (vregs ra)" using inv_length [OF assms(2)] assms(3) by simp
  ultimately have "unat (spill_offs (vregs ra ! i)) + vsz (rt_type (vregs ra ! i)) \<le> unat (frame_cur ra)"
    using frame_okD(2) [OF ra_invD(3) [OF assms(2)]] by blast
  then show ?thesis using \<open>slotted _\<close> frame_bound [OF assms(1,2)] track_type [OF assms(1) inv_track [OF assms(2,3)] assms(3)]
    by (simp add: slot_ok_def slotted_def)
qed

lemma inv_apart:
  assumes "info_ok vi" and "ra_inv vi X ra" and "i < NumAll vi" and "j < NumAll vi" and "i \<noteq> j"
    and "has_slot (vregs ra ! i)" and "has_slot (vregs ra ! j)"
  shows "slots_apart (vregs ra ! i) (vregs ra ! j)"
proof (cases "i < NumGlobals vi \<or> j < NumGlobals vi")
  case True
  then show ?thesis using inv_track [OF assms(2,3)] inv_track [OF assms(2,4)] goffs_facts(2) [OF assms(1), of j i] assms(5)
    by (auto simp: slots_apart_def track_ok_def split: if_splits)
next
  case False
  then have "slotted (vregs ra ! i)" "slotted (vregs ra ! j)"
    using assms inv_track [OF assms(2,3)] inv_track [OF assms(2,4)] by (simp_all add: track_ok_def slotted_def has_slot_def)
  then show ?thesis using frame_okD(3) [OF ra_invD(3) [OF assms(2)]] inv_length [OF assms(2)] assms(3-5) by simp
qed

text \<open>Updates of a track that leave its kind alone.\<close>

lemma nth_upd_track: "i < length (vregs ra) \<Longrightarrow> vregs (upd_track i f ra) ! j = (if j = i then f (vregs ra ! i) else vregs ra ! j)"
  by (simp add: upd_track_def nth_list_update)

lemma upd_track_fields [simp]:
  "ra_pre (upd_track i f ra) = ra_pre ra" "frame_cur (upd_track i f ra) = frame_cur ra" "p2v (upd_track i f ra) = p2v ra"
  "length (vregs (upd_track i f ra)) = length (vregs ra)"
  by (simp_all add: upd_track_def)

lemma filter_slotted_upd:
  "i < length vs \<Longrightarrow> slotted v = slotted (vs ! i) \<Longrightarrow> length (filter slotted (vs[i := v])) = length (filter slotted vs)"
  "i < length vs \<Longrightarrow> slotted v \<Longrightarrow> \<not> slotted (vs ! i) \<Longrightarrow> length (filter slotted (vs[i := v])) = Suc (length (filter slotted vs))"
  by (induction vs arbitrary: i; auto split: nat.splits simp: nth_Cons)+

lemma frame_ok_upd:
  assumes "frame_ok vs cur" and "i < length vs" and "spill_offs v = spill_offs (vs ! i)" and "is_global v = is_global (vs ! i)"
    and "rt_type v = rt_type (vs ! i)"
  shows "frame_ok (vs[i := v]) cur"
proof -
  have s: "slotted v = slotted (vs ! i)" using assms(3,4) by (simp add: slotted_def)
  have a: "slots_apart v w = slots_apart (vs ! i) w" "slots_apart w v = slots_apart w (vs ! i)" for w
    using assms(3-5) by (simp_all add: slots_apart_def)
  have "unat (spill_offs x) + vsz (rt_type x) \<le> unat cur" if "x \<in> set (vs[i := v])" "slotted x" for x
    using that assms s set_update_subset_insert [of vs i v] nth_mem [OF assms(2)] unfolding frame_ok_def by (cases "x = v") (auto simp: assms(3,5))
  then show ?thesis using assms(1,2) filter_slotted_upd(1) [OF assms(2) s] a s unfolding frame_ok_def
    by (auto simp: nth_list_update)
qed

lemma tracks_ok_upd:
  assumes "tracks_ok vi vs" and "track_ok vi i v" and "i < NumGlobals vi \<longrightarrow> rt_loc v \<noteq> LDEAD" and "ip_reg vi i \<longrightarrow> rt_loc v = LMEM"
  shows "tracks_ok vi (vs[i := v])"
  unfolding tracks_ok_def
proof (intro conjI allI impI)
  fix j assume j: "j < NumAll vi"
  then have l: "j < length vs" using tracks_okD(1) [OF assms(1)] by simp
  show "track_ok vi j (vs[i := v] ! j)" using tracks_okD(2) [OF assms(1) j] assms(2) l by (cases "j = i") simp_all
  show "rt_loc (vs[i := v] ! j) \<noteq> LDEAD" if "j < NumGlobals vi" using tracks_okD(3) [OF assms(1) that j] assms(3) l that by (cases "j = i") simp_all
  show "rt_loc (vs[i := v] ! j) = LMEM" if "ip_reg vi j" using tracks_okD(4) [OF assms(1) that j] assms(4) l that by (cases "j = i") simp_all
qed (simp add: tracks_okD(1) [OF assms(1)])

lemma regs_ok_upd:
  assumes "regs_ok vs pv" and "rt_loc v = rt_loc (vs ! i)" and "rt_p v = rt_p (vs ! i)"
  shows "regs_ok (vs[i := v]) pv"
proof -
  have "rt_loc (vs[i := v] ! j) = rt_loc (vs ! j)" "rt_p (vs[i := v] ! j) = rt_p (vs ! j)" if "j < length vs" for j
    using that assms(2,3) by (cases "j = i"; simp)+
  then show ?thesis using assms(1) unfolding regs_ok_def by simp
qed

lemma located_upd:
  assumes "located X vs" and "i \<in> X \<longrightarrow> placed v"
  shows "located X (vs[i := v])"
  using assms unfolding located_def by (metis length_list_update nth_list_update_eq nth_list_update_neq)

lemma AllocFrameSlot_ok:
  assumes "info_ok vi" and "ra_inv vi X ra" and "i < NumAll vi" and "\<not> has_slot (vregs ra ! i)"
  shows "\<exists>k cur. AllocFrameSlot i ra = Inr ((upd_track i (spill_offs_update (\<lambda>_. k)) ra)\<lparr>frame_cur := cur\<rparr>) \<and> k \<noteq> NO_SPILL \<and>
    ra_inv vi X ((upd_track i (spill_offs_update (\<lambda>_. k)) ra)\<lparr>frame_cur := cur\<rparr>)"
proof -
  let ?v = "vregs ra ! i" and ?cur = "unat (frame_cur ra)"
  have v: "spill_offs ?v = NO_SPILL" "\<not> is_global ?v" using assms(4) by (simp_all add: has_slot_def)
  have len: "length (vregs ra) = NumAll vi" using inv_length [OF assms(2)] .
  obtain sz where sz: "VTypeToSize (rt_type ?v) = Inr sz" "unat sz = vsz (rt_type ?v)" "sz \<in> {1, 2, 4}"
    using track_type [OF assms(1) inv_track [OF assms(2,3)] assms(3)] by (cases "rt_type ?v") auto
  let ?sz = "ucast sz :: u16" and ?z = "unat sz"
  define k where "k = (ucast (roundup (ucast (frame_cur ra)) (ucast ?sz)) :: u16)"
  have cur: "?cur \<le> 1020" using frame_bound [OF assms(1,2)] .
  have u: "unat ?sz = ?z" "unat (ucast ?sz :: u64) = ?z" "unat (ucast (frame_cur ra) :: u64) = ?cur" "ucast ?sz \<noteq> (0 :: u64)"
    using sz(3) unsigned_less [of "frame_cur ra", where 'a = nat] by (auto simp: unsigned_ucast_eq take_bit_nat_eq_self)
  have "?z \<le> 4" using sz(3) by auto
  note r = roundup_nat [OF u(4), of "ucast (frame_cur ra)", unfolded u(2,3)]
  have k: "unat k = unat (roundup (ucast (frame_cur ra)) (ucast ?sz) :: u64)" "?cur \<le> unat k" "unat k < ?cur + ?z" "?z dvd unat k"
  proof -
    have b: "unat (roundup (ucast (frame_cur ra)) (ucast ?sz) :: u64) < ?cur + ?z" using r(3) cur \<open>?z \<le> 4\<close> by simp
    then show e: "unat k = unat (roundup (ucast (frame_cur ra)) (ucast ?sz) :: u64)"
      using cur \<open>?z \<le> 4\<close> by (simp add: k_def unsigned_ucast_eq take_bit_nat_eq_self)
    show "?cur \<le> unat k" "unat k < ?cur + ?z" "?z dvd unat k" using r cur \<open>?z \<le> 4\<close> b unfolding e by simp_all
  qed
  define n where "n = length (filter slotted (vregs ra))"
  have n: "?cur \<le> 4 * n" "n < 255"
  proof -
    show "?cur \<le> 4 * n" using frame_okD(1) [OF ra_invD(3) [OF assms(2)]] by (simp add: n_def)
    have "\<not> slotted ?v" using v by (simp add: slotted_def)
    then have "n < length (vregs ra)" unfolding n_def using assms(3) len by (intro length_filter_less [of ?v]) simp_all
    then show "n < 255" using assms(1) len by (simp add: info_ok_def)
  qed
  have kn: "unat k + ?z \<le> 4 * n + 4"
  proof -
    have "?z dvd 4 * n" using sz(3) by auto
    then obtain a b where ab: "unat k = ?z * a" "4 * n = ?z * b" using k(4) by (auto elim!: dvdE)
    have "?z * a < ?z * (b + 1)" using k(3) n(1) ab by simp
    then have "a \<le> b" using mult_less_cancel1 [of ?z a "b + 1"] by linarith
    then have "unat k \<le> 4 * n" using ab by simp
    then show ?thesis using \<open>?z \<le> 4\<close> by simp
  qed
  have fit: "unat k + ?z \<le> 1024" using kn n(2) by simp
  have ku: "unat (k + ?sz) = unat k + ?z" using fit u(1) by (simp add: unat_word_ariths)
  have nk: "k \<noteq> NO_SPILL" using fit NO_SPILL_val by auto
  have "AllocFrameSlot i ra = Inr ((upd_track i (spill_offs_update (\<lambda>_. k)) ra)\<lparr>frame_cur := k + ?sz\<rparr>)"
    using v sz(1) fit u(1) unfolding AllocFrameSlot_def Let_def by (simp add: spillframe_size_def flip: k_def)
  moreover have "ra_inv vi X ((upd_track i (spill_offs_update (\<lambda>_. k)) ra)\<lparr>frame_cur := k + ?sz\<rparr>)"
  proof -
    let ?w = "?v\<lparr>spill_offs := k\<rparr>"
    have i: "i < length (vregs ra)" using assms(3) len by simp
    note fr = frame_okD [OF ra_invD(3) [OF assms(2)]]
    have loc: "i \<in> X \<longrightarrow> placed ?w"
      using ra_invD(4) [OF assms(2)] i nk by (auto simp: located_def placed_def has_slot_def)
    have tr: "track_ok vi i ?w" using inv_track [OF assms(2,3)] v(2) by (auto simp: track_ok_def split: if_splits)
    have sl: "slotted ?w" "\<not> slotted ?v" using v nk by (simp_all add: slotted_def)
    have cnt: "length (filter slotted ((vregs ra)[i := ?w])) = Suc n" using filter_slotted_upd(2) [OF i sl] by (simp add: n_def)
    have fro: "frame_ok ((vregs ra)[i := ?w]) (k + ?sz)"
      unfolding frame_ok_def
    proof (intro conjI ballI allI impI)
      show "unat (k + ?sz) \<le> 4 * length (filter slotted ((vregs ra)[i := ?w]))" using ku kn cnt by simp
    next
      fix x assume x: "x \<in> set ((vregs ra)[i := ?w])" "slotted x"
      then consider "x = ?w" | "x \<in> set (vregs ra)" using set_update_subset_insert [of "vregs ra" i ?w] by blast
      then show "unat (spill_offs x) + vsz (rt_type x) \<le> unat (k + ?sz)"
        by cases (use ku sz(2) fr(2) [of x] x(2) k(2) in simp_all)
    next
      fix a b assume ab: "a < length ((vregs ra)[i := ?w])" "b < length ((vregs ra)[i := ?w])"
        "a \<noteq> b \<and> slotted ((vregs ra)[i := ?w] ! a) \<and> slotted ((vregs ra)[i := ?w] ! b)"
      have new: "slots_apart ?w (vregs ra ! c) \<and> slots_apart (vregs ra ! c) ?w" if "c < length (vregs ra)" "slotted (vregs ra ! c)" for c
        using fr(2) [of "vregs ra ! c"] that k(2) v(2) by (auto simp: slots_apart_def slotted_def)
      show "slots_apart ((vregs ra)[i := ?w] ! a) ((vregs ra)[i := ?w] ! b)"
        using ab new fr(3) by (cases "a = i"; cases "b = i") simp_all
    qed
    have "vregs ((upd_track i (spill_offs_update (\<lambda>_. k)) ra)\<lparr>frame_cur := k + ?sz\<rparr>) = (vregs ra)[i := ?w]" by (simp add: upd_track_def)
    then show ?thesis unfolding ra_inv_def
      using tracks_ok_upd [OF ra_invD(1) [OF assms(2)] tr] tracks_okD(3,4) [OF ra_invD(1) [OF assms(2)], of i] assms(3)
        regs_ok_upd [OF ra_invD(2) [OF assms(2)], of ?w i] located_upd [OF ra_invD(4) [OF assms(2)] loc] fro by simp
  qed
  ultimately show ?thesis using nk by blast
qed

lemma EmitMov_fields [simp]:
  "vregs (EmitMov d e ra) = vregs ra" "frame_cur (EmitMov d e ra) = frame_cur ra" "p2v (EmitMov d e ra) = p2v ra"
  "ra_pre (EmitMov d e ra) = ra_pre ra @ [InstUnop q_mov d e]"
  by (simp_all add: EmitMov_def)

lemma ra_inv_cong: "vregs ra' = vregs ra \<Longrightarrow> frame_cur ra' = frame_cur ra \<Longrightarrow> p2v ra' = p2v ra \<Longrightarrow> ra_inv vi X ra' = ra_inv vi X ra"
  by (simp add: ra_inv_def)

lemma locatedD: "located X vs \<Longrightarrow> i \<in> X \<Longrightarrow> i < length vs \<Longrightarrow> placed (vs ! i)"
  by (simp add: located_def)

lemma ra_simD:
  assumes "ra_sim vi X vs qs ms"
  shows "i \<in> X \<Longrightarrow> i < NumAll vi \<Longrightarrow> holds ms (vs ! i) (vreg_val vi qs i)" "m_mem ms = qmem qs" "cpu_rest (m_cpu ms) = cpu_rest (qcpu qs)"
    "(\<And>i. i < NumGlobals vi \<Longrightarrow> k \<noteq> goffs vi i) \<Longrightarrow> state_read (m_cpu ms) k = state_read (qcpu qs) k"
  using assms unfolding ra_sim_def by blast+

lemma ra_simI:
  assumes "\<And>i. i \<in> X \<Longrightarrow> i < NumAll vi \<Longrightarrow> holds ms (vs ! i) (vreg_val vi qs i)" and "m_mem ms = qmem qs" and "cpu_rest (m_cpu ms) = cpu_rest (qcpu qs)"
    and "\<And>k. (\<And>i. i < NumGlobals vi \<Longrightarrow> k \<noteq> goffs vi i) \<Longrightarrow> state_read (m_cpu ms) k = state_read (qcpu qs) k"
  shows "ra_sim vi X vs qs ms"
  using assms unfolding ra_sim_def by blast

text \<open>Writing a register back to its slot.\<close>

lemma spill_sim:
  assumes vi: "info_ok vi" and inv: "ra_inv vi X ra" and i: "i < NumAll vi" and loc: "rt_loc (vregs ra ! i) = LREG" and slot: "has_slot (vregs ra ! i)"
    and sim: "ra_sim vi X (vregs ra) qs ms"
  shows "\<exists>ms'. mexec_inst clob (InstUnop q_mov (slot_op (vregs ra ! i)) (reg_op (vregs ra ! i))) ms = QNext ms' \<and> m_regs ms' = m_regs ms \<and>
    ra_sim vi X ((vregs ra)[i := (vregs ra ! i)\<lparr>spill_synced := True\<rparr>]) qs ms'"
proof -
  let ?v = "vregs ra ! i" and ?w = "(vregs ra ! i)\<lparr>spill_synced := True\<rparr>"
  have len: "length (vregs ra) = NumAll vi" using inv_length [OF inv] .
  have p: "unat (rt_p ?v) < 16" using regs_okD(1) [OF ra_invD(2) [OF inv]] i len loc by simp
  have ok: "slot_ok ?v" using inv_slot [OF vi inv i slot] .
  obtain ms' where ex: "mexec_inst clob (InstUnop q_mov (slot_op ?v) (reg_op ?v)) ms = QNext ms'" "m_regs ms' = m_regs ms" "m_mem ms' = m_mem ms"
      "mread ms' (slot_op ?v) = Some (vtrunc (rt_type ?v) (m_regs ms (rt_p ?v)))"
      "\<And>w. slot_ok w \<Longrightarrow> slots_apart ?v w \<Longrightarrow> mread ms' (slot_op w) = mread ms (slot_op w)" "cpu_rest (m_cpu ms') = cpu_rest (m_cpu ms)"
      "\<And>k. \<not> (is_global ?v \<and> k = spill_offs ?v) \<Longrightarrow> state_read (m_cpu ms') k = state_read (m_cpu ms) k"
    using slot_spill_exec [OF ok p, of clob ms] by blast
  have "ra_sim vi X ((vregs ra)[i := ?w]) qs ms'"
  proof (rule ra_simI)
    fix j assume j: "j \<in> X" "j < NumAll vi"
    note h = ra_simD(1) [OF sim j]
    show "holds ms' ((vregs ra)[i := ?w] ! j) (vreg_val vi qs j)"
    proof (cases "j = i")
      case True
      then show ?thesis using h ex(2,4) i len loc by (simp add: holds_def slot_has_def slot_op_def)
    next
      case False
      have "placed (vregs ra ! j)" using locatedD [OF ra_invD(4) [OF inv] j(1)] j(2) len by simp
      then have "slot_has ms' (vregs ra ! j) x = slot_has ms (vregs ra ! j) x" if "rt_loc (vregs ra ! j) = LMEM \<or> spill_synced (vregs ra ! j)" for x
        using that ex(5) [OF inv_slot [OF vi inv j(2)] inv_apart [OF vi inv i j(2)]] slot False by (auto simp: slot_has_def placed_def)
      then show ?thesis using h False ex(2) by (simp add: holds_def)
    qed
  next
    fix k assume k: "\<And>i. i < NumGlobals vi \<Longrightarrow> k \<noteq> goffs vi i"
    have "\<not> (is_global ?v \<and> k = spill_offs ?v)" using inv_track [OF inv i] k [of i] by (auto simp: track_ok_def split: if_splits)
    then show "state_read (m_cpu ms') k = state_read (qcpu qs) k" using ex(7) ra_simD(4) [OF sim k] by simp
  qed (use ex(3,6) ra_simD(2,3) [OF sim] in simp_all)
  then show ?thesis using ex(1,2) by blast
qed

lemma synced_inv:
  assumes inv: "ra_inv vi X ra" and i: "i < NumAll vi" and slot: "has_slot (vregs ra ! i)"
  shows "ra_inv vi X (upd_track i (spill_synced_update (\<lambda>_. True)) ra)"
proof -
  let ?w = "(vregs ra ! i)\<lparr>spill_synced := True\<rparr>"
  have len: "length (vregs ra) = NumAll vi" using inv_length [OF inv] .
  have "placed ?w" if "i \<in> X" using locatedD [OF ra_invD(4) [OF inv] that] i len slot by (simp add: placed_def has_slot_def)
  moreover have "track_ok vi i ?w" using inv_track [OF inv i] by (simp add: track_ok_def)
  ultimately show ?thesis unfolding ra_inv_def
    using tracks_ok_upd [OF ra_invD(1) [OF inv], of i ?w] tracks_okD(3,4) [OF ra_invD(1) [OF inv], of i] i
      regs_ok_upd [OF ra_invD(2) [OF inv], of ?w i] located_upd [OF ra_invD(4) [OF inv], of i ?w] frame_ok_upd [OF ra_invD(3) [OF inv], of i ?w] len
    by (simp add: upd_track_def)
qed

lemma slot_sim:
  assumes "ra_inv vi X ra" and "i < NumAll vi" and "\<not> has_slot (vregs ra ! i)" and "ra_sim vi X (vregs ra) qs ms"
  shows "ra_sim vi X ((vregs ra)[i := (vregs ra ! i)\<lparr>spill_offs := k\<rparr>]) qs ms"
proof (rule ra_simI)
  fix j assume j: "j \<in> X" "j < NumAll vi"
  have len: "length (vregs ra) = NumAll vi" using inv_length [OF assms(1)] .
  note h = ra_simD(1) [OF assms(4) j]
  have "placed (vregs ra ! j)" using locatedD [OF ra_invD(4) [OF assms(1)] j(1)] j(2) len by simp
  then show "holds ms ((vregs ra)[i := (vregs ra ! i)\<lparr>spill_offs := k\<rparr>] ! j) (vreg_val vi qs j)"
    using h assms(3) len j(2) by (cases "j = i") (auto simp: holds_def placed_def)
qed (use ra_simD(2-4) [OF assms(4)] in blast)+

text \<open>\<open>ra'\<close> differs from \<open>ra\<close> in the track of \<open>i\<close> only.\<close>

definition only_track :: "nat \<Rightarrow> QRegAlloc \<Rightarrow> QRegAlloc \<Rightarrow> bool" where
  "only_track i ra ra' \<longleftrightarrow> (\<forall>j. j \<noteq> i \<longrightarrow> vregs ra' ! j = vregs ra ! j)"

lemma SyncSpill_ok:
  assumes vi: "info_ok vi" and inv: "ra_inv vi X ra" and i: "i < NumAll vi" and loc: "rt_loc (vregs ra ! i) \<noteq> LDEAD"
  shows "\<exists>ra'. SyncSpill i ra = Inr ra' \<and> ra_moves vi X UNIV ra ra' \<and> p2v ra' = p2v ra \<and> only_track i ra ra' \<and>
    rt_loc (vregs ra' ! i) = rt_loc (vregs ra ! i) \<and> rt_p (vregs ra' ! i) = rt_p (vregs ra ! i) \<and>
    (rt_loc (vregs ra ! i) = LREG \<and> i \<in> X \<longrightarrow> has_slot (vregs ra' ! i) \<and> spill_synced (vregs ra' ! i))"
proof (cases "spill_synced (vregs ra ! i) \<or> rt_loc (vregs ra ! i) = LMEM")
  case True
  then have "SyncSpill i ra = Inr ra" by (auto simp: SyncSpill_def Let_def)
  moreover have "has_slot (vregs ra ! i)" if "i \<in> X" using locatedD [OF ra_invD(4) [OF inv] that] inv_length [OF inv] i True by (auto simp: placed_def)
  ultimately show ?thesis using True ra_moves_refl [OF inv] by (auto simp: only_track_def)
next
  case False
  then have reg: "rt_loc (vregs ra ! i) = LREG" "\<not> spill_synced (vregs ra ! i)" using loc by (cases "rt_loc (vregs ra ! i)"; simp)+
  have len: "length (vregs ra) = NumAll vi" using inv_length [OF inv] .
  define ra1 where "ra1 = (if has_slot (vregs ra ! i) then ra else projr (AllocFrameSlot i ra))"
  obtain r1: "EmitSpill i ra = Inr (EmitMov (slot_op (vregs ra1 ! i)) (reg_op (vregs ra1 ! i)) ra1)"
    and i1: "ra_inv vi X ra1" "has_slot (vregs ra1 ! i)" "ra_pre ra1 = ra_pre ra" "p2v ra1 = p2v ra"
      "\<exists>k. vregs ra1 = (vregs ra)[i := (vregs ra ! i)\<lparr>spill_offs := k\<rparr>]" "\<And>qs ms. ra_sim vi X (vregs ra) qs ms \<Longrightarrow> ra_sim vi X (vregs ra1) qs ms"
  proof (cases "has_slot (vregs ra ! i)")
    case True
    have "\<exists>k. vregs ra = (vregs ra)[i := (vregs ra ! i)\<lparr>spill_offs := k\<rparr>]" by (intro exI [of _ "spill_offs (vregs ra ! i)"]) simp
    then show ?thesis using that [unfolded ra1_def] inv True by (auto simp: EmitSpill_def has_slot_def)
  next
    case False
    obtain k cur where k: "AllocFrameSlot i ra = Inr ((upd_track i (spill_offs_update (\<lambda>_. k)) ra)\<lparr>frame_cur := cur\<rparr>)" "k \<noteq> NO_SPILL"
        "ra_inv vi X ((upd_track i (spill_offs_update (\<lambda>_. k)) ra)\<lparr>frame_cur := cur\<rparr>)" using AllocFrameSlot_ok [OF vi inv i False] by blast
    have e: "ra1 = (upd_track i (spill_offs_update (\<lambda>_. k)) ra)\<lparr>frame_cur := cur\<rparr>" using False k(1) by (simp add: ra1_def)
    have v: "vregs ra1 = (vregs ra)[i := (vregs ra ! i)\<lparr>spill_offs := k\<rparr>]" by (simp add: e upd_track_def)
    show ?thesis
    proof (rule that)
      show "EmitSpill i ra = Inr (EmitMov (slot_op (vregs ra1 ! i)) (reg_op (vregs ra1 ! i)) ra1)"
        using False k(1) by (simp add: EmitSpill_def has_slot_def e)
      show "has_slot (vregs ra1 ! i)" using v len i k(2) by (simp add: has_slot_def)
      show "ra_sim vi X (vregs ra1) qs ms" if "ra_sim vi X (vregs ra) qs ms" for qs ms using slot_sim [OF inv i False that] v by simp
    qed (use k(3) e v in auto)
  qed
  obtain k where k: "vregs ra1 = (vregs ra)[i := (vregs ra ! i)\<lparr>spill_offs := k\<rparr>]" using i1(5) by blast
  have t1: "rt_loc (vregs ra1 ! i) = LREG" "rt_p (vregs ra1 ! i) = rt_p (vregs ra ! i)" using k reg(1) len i by simp_all
  define ra3 where "ra3 = upd_track i (spill_synced_update (\<lambda>_. True)) (EmitMov (slot_op (vregs ra1 ! i)) (reg_op (vregs ra1 ! i)) ra1)"
  have "SyncSpill i ra = Inr ra3" using reg r1 by (simp add: SyncSpill_def ra3_def)
  have v3: "vregs ra3 = (vregs ra1)[i := (vregs ra1 ! i)\<lparr>spill_synced := True\<rparr>]" by (simp add: ra3_def upd_track_def)
  have inv3: "ra_inv vi X ra3"
    using synced_inv [OF i1(1) i i1(2)] unfolding ra3_def by (subst ra_inv_cong [where ra = "upd_track i (spill_synced_update (\<lambda>_. True)) ra1"]) (simp_all add: upd_track_def)
  have moves: "ra_moves vi X UNIV ra ra3"
    unfolding ra_moves_def
  proof (intro conjI exI [of _ "[InstUnop q_mov (slot_op (vregs ra1 ! i)) (reg_op (vregs ra1 ! i))]"] allI impI)
    fix clob qs ms assume "ra_sim vi X (vregs ra) qs ms"
    then have "ra_sim vi X (vregs ra1) qs ms" using i1(6) by blast
    from spill_sim [OF vi i1(1) i t1(1) i1(2) this, of clob] obtain ms' where
      "mexec_inst clob (InstUnop q_mov (slot_op (vregs ra1 ! i)) (reg_op (vregs ra1 ! i))) ms = QNext ms'" "m_regs ms' = m_regs ms" "ra_sim vi X (vregs ra3) qs ms'"
      unfolding v3 by blast
    then show "\<exists>ms'. mexec_list clob [InstUnop q_mov (slot_op (vregs ra1 ! i)) (reg_op (vregs ra1 ! i))] ms = QNext ms' \<and>
        ra_sim vi X (vregs ra3) qs ms' \<and> (\<forall>p\<in>UNIV. m_regs ms' p = m_regs ms p)" by simp
  next
    fix j assume "j < NumAll vi" "rt_loc (vregs ra ! j) = LREG \<and> rt_p (vregs ra ! j) \<in> UNIV"
    then show "rt_loc (vregs ra3 ! j) = LREG" "rt_p (vregs ra3 ! j) = rt_p (vregs ra ! j)"
      using t1 v3 k len by (cases "j = i"; simp)+
  qed (use inv3 i1(3) in \<open>simp_all add: ra3_def\<close>)
  have "only_track i ra ra3" using v3 k by (simp add: only_track_def)
  then show ?thesis using \<open>SyncSpill i ra = Inr ra3\<close> moves t1 reg v3 k len i i1(2,4)
    by (intro exI [of _ ra3]) (simp add: ra3_def has_slot_def)
qed

lemma only_track_refl: "only_track i ra ra"
  by (simp add: only_track_def)

lemma only_trackD: "only_track i ra ra' \<Longrightarrow> j \<noteq> i \<Longrightarrow> vregs ra' ! j = vregs ra ! j"
  by (simp add: only_track_def)

text \<open>A released register is free; its value stays in the slot.\<close>

lemma Release_fields:
  "vregs (Release kill i ra) = (vregs ra)[i := (vregs ra ! i)\<lparr>rt_loc := if is_global (vregs ra ! i) then LMEM else if kill then LDEAD else LMEM\<rparr>]"
  "p2v (Release kill i ra) = (if rt_loc (vregs ra ! i) = LREG then (p2v ra)(rt_p (vregs ra ! i) := None) else p2v ra)"
  "frame_cur (Release kill i ra) = frame_cur ra" "ra_pre (Release kill i ra) = ra_pre ra"
  by (simp_all add: Release_def upd_track_def Let_def)

lemma regs_ok_release:
  assumes "regs_ok vs pv" and "i < length vs" and "rt_loc v \<noteq> LREG"
  shows "regs_ok (vs[i := v]) (if rt_loc (vs ! i) = LREG then pv(rt_p (vs ! i) := None) else pv)"
proof -
  note r = regs_okD [OF assms(1)]
  have "rt_p (vs ! j) \<noteq> rt_p (vs ! i)" if "j < length vs" "j \<noteq> i" "rt_loc (vs ! j) = LREG" "rt_loc (vs ! i) = LREG" for j
    using r(3) [of j] r(3) [of i] that assms(2) by auto
  moreover have "j \<noteq> i" if "pv p = Some j" "rt_loc (vs ! i) = LREG \<longrightarrow> p \<noteq> rt_p (vs ! i)" for p j
    using that r(5,6) by auto
  ultimately show ?thesis using r assms(2,3) unfolding regs_ok_def
    by (auto simp: nth_list_update split: if_splits)
qed

lemma Release_ok:
  assumes inv: "ra_inv vi X ra" and i: "i < NumAll vi"
    and slot: "i \<in> X \<longrightarrow> has_slot (vregs ra ! i) \<and> (rt_loc (vregs ra ! i) = LREG \<longrightarrow> spill_synced (vregs ra ! i))"
  shows "ra_moves vi X {p. rt_loc (vregs ra ! i) = LREG \<longrightarrow> p \<noteq> rt_p (vregs ra ! i)} ra (Release False i ra)"
proof -
  let ?v = "vregs ra ! i" and ?ra = "Release False i ra"
  have len: "length (vregs ra) = NumAll vi" using inv_length [OF inv] .
  have v: "vregs ?ra = (vregs ra)[i := ?v\<lparr>rt_loc := LMEM\<rparr>]" by (simp add: Release_fields)
  let ?w = "?v\<lparr>rt_loc := LMEM\<rparr>"
  have "placed ?w" if "i \<in> X" using slot that by (simp add: placed_def has_slot_def)
  moreover have "track_ok vi i ?w" using inv_track [OF inv i] by (simp add: track_ok_def)
  moreover have "regs_ok (vregs ?ra) (p2v ?ra)"
    using regs_ok_release [OF ra_invD(2) [OF inv], of i ?w] i len by (simp add: Release_fields(2) v)
  ultimately have "ra_inv vi X ?ra" unfolding ra_inv_def
    using tracks_ok_upd [OF ra_invD(1) [OF inv], of i ?w] located_upd [OF ra_invD(4) [OF inv], of i ?w] frame_ok_upd [OF ra_invD(3) [OF inv], of i ?w] i len
    by (simp add: v Release_fields(3))
  moreover have "ra_sim vi X (vregs ?ra) qs ms" if sim: "ra_sim vi X (vregs ra) qs ms" for qs ms
  proof (rule ra_simI)
    fix j assume j: "j \<in> X" "j < NumAll vi"
    note h = ra_simD(1) [OF sim j]
    have "rt_loc ?v \<noteq> LDEAD" if "j = i" using locatedD [OF ra_invD(4) [OF inv] j(1)] j(2) len that by (simp add: placed_def)
    then show "holds ms (vregs ?ra ! j) (vreg_val vi qs j)"
      using h slot j len unfolding v by (cases "j = i"; cases "rt_loc ?v") (auto simp: holds_def slot_has_def slot_op_def)
  qed (use ra_simD(2-4) [OF sim] in blast)+
  ultimately show ?thesis
    unfolding ra_moves_def using i len
    by (intro conjI exI [of _ "[]"] allI impI) (auto simp: v Release_fields(4) nth_list_update)
qed

definition free_but :: "nat \<Rightarrow> QRegAlloc \<Rightarrow> RegN set" where
  "free_but i ra = {p. rt_loc (vregs ra ! i) = LREG \<longrightarrow> p \<noteq> rt_p (vregs ra ! i)}"

lemma Spill_v_ok:
  assumes vi: "info_ok vi" and inv: "ra_inv vi X ra" and i: "i < NumAll vi" and loc: "rt_loc (vregs ra ! i) \<noteq> LDEAD"
  shows "\<exists>ra'. Spill_v i ra = Inr ra' \<and> ra_moves vi X (free_but i ra) ra ra' \<and> only_track i ra ra' \<and> rt_loc (vregs ra' ! i) = LMEM \<and>
    (rt_loc (vregs ra ! i) = LREG \<longrightarrow> p2v ra' = (p2v ra)(rt_p (vregs ra ! i) := None)) \<and> (rt_loc (vregs ra ! i) \<noteq> LREG \<longrightarrow> p2v ra' = p2v ra)"
proof -
  obtain ra1 where r1: "SyncSpill i ra = Inr ra1" "ra_moves vi X UNIV ra ra1" "p2v ra1 = p2v ra" "only_track i ra ra1"
      "rt_loc (vregs ra1 ! i) = rt_loc (vregs ra ! i)" "rt_p (vregs ra1 ! i) = rt_p (vregs ra ! i)"
      "rt_loc (vregs ra ! i) = LREG \<and> i \<in> X \<longrightarrow> has_slot (vregs ra1 ! i) \<and> spill_synced (vregs ra1 ! i)"
    using SyncSpill_ok [OF assms] by blast
  note inv1 = ra_moves_inv [OF r1(2)]
  have len: "length (vregs ra1) = NumAll vi" using inv_length [OF inv1] .
  have slot: "i \<in> X \<longrightarrow> has_slot (vregs ra1 ! i) \<and> (rt_loc (vregs ra1 ! i) = LREG \<longrightarrow> spill_synced (vregs ra1 ! i))"
    using r1(5,7) loc locatedD [OF ra_invD(4) [OF inv1], of i] len i by (cases "rt_loc (vregs ra ! i)") (auto simp: placed_def)
  have "ra_moves vi X (free_but i ra) ra1 (Release False i ra1)"
    using Release_ok [OF inv1 i slot] r1(5,6) by (simp add: free_but_def)
  then have "ra_moves vi X (free_but i ra) ra (Release False i ra1)"
    using ra_moves_trans [OF ra_moves_mono [OF r1(2)]] by blast
  moreover have "only_track i ra (Release False i ra1)" using r1(4) by (simp add: only_track_def Release_fields)
  ultimately show ?thesis using r1 len i by (intro exI [of _ "Release False i ra1"]) (simp add: Spill_v_def Release_fields)
qed

text \<open>Registers in memory stay there.\<close>

definition same_slots :: "QRegAlloc \<Rightarrow> QRegAlloc \<Rightarrow> bool" where
  "same_slots ra ra' \<longleftrightarrow> (\<forall>i. rt_loc (vregs ra ! i) \<noteq> LREG \<longrightarrow> vregs ra' ! i = vregs ra ! i)"

lemma Spill_p_ok:
  assumes vi: "info_ok vi" and inv: "ra_inv vi X ra"
  shows "\<exists>ra'. Spill_p p ra = Inr ra' \<and> ra_moves vi X (- {p}) ra ra' \<and> p2v ra' = (p2v ra)(p := None) \<and> same_slots ra ra'"
proof (cases "p2v ra p")
  case None
  then show ?thesis using ra_moves_refl [OF inv] by (auto simp: Spill_p_def same_slots_def)
next
  case (Some i)
  have r: "i < NumAll vi" "rt_loc (vregs ra ! i) = LREG" "rt_p (vregs ra ! i) = p"
    using regs_okD(4-6) [OF ra_invD(2) [OF inv] Some] inv_length [OF inv] by simp_all
  then have "free_but i ra = - {p}" by (auto simp: free_but_def)
  then show ?thesis using Spill_v_ok [OF vi inv r(1)] r Some by (auto simp: Spill_p_def same_slots_def only_track_def)
qed

lemma AllocPReg_ok:
  assumes vi: "info_ok vi" and inv: "ra_inv vi X ra" and q: "unat q < 16" "mask_Test desire q" "\<not> mask_Test avoid q"
  shows "\<exists>p ra'. AllocPReg desire avoid ra = Inr (p, ra') \<and> ra_moves vi X (- {p}) ra ra' \<and> p2v ra' p = None \<and> unat p < 16 \<and>
    mask_Test desire p \<and> \<not> mask_Test avoid p \<and> same_slots ra ra'"
proof -
  let ?t = "desire AND NOT avoid"
  have t: "mask_Test ?t p \<longleftrightarrow> mask_Test desire p \<and> \<not> mask_Test avoid p" if "unat p < 16" for p using mask_Test_diff [of p] that by simp
  show ?thesis
  proof (cases "find (\<lambda>p. p2v ra p = None \<and> mask_Test ?t p) pregs")
    case (Some p)
    then have "p2v ra p = None" "mask_Test ?t p" "unat p < 16"
      by (auto simp: find_Some_iff set_pregs [symmetric] in_set_conv_nth)
    then show ?thesis using Some t ra_moves_refl [OF inv] by (auto simp: AllocPReg_def same_slots_def)
  next
    case None
    obtain p where p: "find (mask_Test ?t) pregs = Some p"
      using q t [OF q(1)] set_pregs [of q] by (cases "find (mask_Test ?t) pregs") (auto simp: find_None_iff)
    then have "mask_Test ?t p" "unat p < 16" by (auto simp: find_Some_iff set_pregs [symmetric] in_set_conv_nth)
    then show ?thesis using None p t Spill_p_ok [OF vi inv, of p] by (auto simp: AllocPReg_def)
  qed
qed

section \<open>Filling\<close>

text \<open>A track gets a free register; the register it had before is free again.\<close>

lemma regs_ok_set:
  assumes "regs_ok vs pv" and "i < length vs" and "pv p = None" and "unat p < 16" and "\<not> mask_Test GPR_FIXED p" and "rt_loc v = LREG" and "rt_p v = p"
  shows "regs_ok (vs[i := v]) ((if rt_loc (vs ! i) = LREG then pv(rt_p (vs ! i) := None) else pv)(p := Some i))"
proof -
  note r = regs_okD [OF assms(1)]
  have np: "rt_p (vs ! j) \<noteq> p" if "j < length vs" "rt_loc (vs ! j) = LREG" for j using r(3) [OF that] assms(3) by auto
  have a: "rt_p (vs ! j) \<noteq> rt_p (vs ! i)" if "j < length vs" "j \<noteq> i" "rt_loc (vs ! j) = LREG" "rt_loc (vs ! i) = LREG" for j
    using r(3) [of j] r(3) [of i] that assms(2) by auto
  have b: "j \<noteq> i" if "pv q = Some j" "rt_loc (vs ! i) = LREG \<longrightarrow> q \<noteq> rt_p (vs ! i)" for q j using that r(5,6) by auto
  show ?thesis unfolding regs_ok_def
  proof (intro conjI allI impI)
    fix j assume j: "j < length (vs[i := v])" "rt_loc (vs[i := v] ! j) = LREG"
    show "unat (rt_p (vs[i := v] ! j)) < 16" using j r(1) assms(2,4,7) by (cases "j = i") simp_all
    show "\<not> mask_Test GPR_FIXED (rt_p (vs[i := v] ! j))" using j r(2) assms(2,5,7) by (cases "j = i") simp_all
    show "((if rt_loc (vs ! i) = LREG then pv(rt_p (vs ! i) := None) else pv)(p := Some i)) (rt_p (vs[i := v] ! j)) = Some j"
      using j r(3) assms(2,7) np a by (cases "j = i") auto
  next
    fix q j assume h: "((if rt_loc (vs ! i) = LREG then pv(rt_p (vs ! i) := None) else pv)(p := Some i)) q = Some j"
    have "j < length vs \<and> rt_loc (vs[i := v] ! j) = LREG \<and> rt_p (vs[i := v] ! j) = q"
    proof (cases "q = p")
      case True
      then show ?thesis using h assms(2,6,7) by simp
    next
      case False
      then have "pv q = Some j" "rt_loc (vs ! i) = LREG \<longrightarrow> q \<noteq> rt_p (vs ! i)" using h by (auto split: if_splits)
      then show ?thesis using r(4-6) [of q j] b [of q j] by simp
    qed
    then show "j < length (vs[i := v])" "rt_loc (vs[i := v] ! j) = LREG" "rt_p (vs[i := v] ! j) = q" by simp_all
  qed
qed

definition avoids_fixed :: "RegMask \<Rightarrow> bool" where
  "avoids_fixed m \<longleftrightarrow> (\<forall>p. mask_Test GPR_FIXED p \<longrightarrow> mask_Test m p)"

lemma not_ip: "ra_inv vi X ra \<Longrightarrow> i < NumAll vi \<Longrightarrow> rt_loc (vregs ra ! i) = LREG \<Longrightarrow> \<not> ip_reg vi i"
  using tracks_okD(4) [OF ra_invD(1), of vi X ra i] by auto

lemma fill_ok:
  assumes vi: "info_ok vi" and inv: "ra_inv vi X ra" and i: "i < NumAll vi" "i \<in> X" "\<not> ip_reg vi i" and loc: "rt_loc (vregs ra ! i) = LMEM"
    and p: "p2v ra p = None" "unat p < 16" "\<not> mask_Test GPR_FIXED p"
  defines "ra2 \<equiv> upd_track i (spill_synced_update (\<lambda>_. True)) (set_reg i p ra)"
  shows "\<exists>ra'. EmitFill i ra2 = Inr ra' \<and> ra_moves vi X (- {p}) ra ra' \<and> rt_loc (vregs ra' ! i) = LREG"
proof -
  have len: "length (vregs ra) = NumAll vi" using inv_length [OF inv] .
  let ?v = "vregs ra ! i" and ?w = "(vregs ra ! i)\<lparr>rt_p := p, rt_loc := LREG, spill_synced := True\<rparr>"
  have slot: "has_slot ?v" using locatedD [OF ra_invD(4) [OF inv] i(2)] i(1) len loc by (simp add: placed_def)
  have v2: "vregs ra2 = (vregs ra)[i := ?w]" using i len by (simp add: ra2_def set_reg_def upd_track_def)
  have p2: "p2v ra2 = (p2v ra)(p := Some i)" "frame_cur ra2 = frame_cur ra" "ra_pre ra2 = ra_pre ra"
    by (simp_all add: ra2_def set_reg_def upd_track_def)
  have "spill_offs ?v \<noteq> NO_SPILL"
  proof (cases "i < NumGlobals vi")
    case True
    then have "offs_ok (spill_offs ?v)" using goffs_facts(1) [OF vi] inv_track [OF inv i(1)] by (simp add: track_ok_def)
    then show ?thesis using offs_ok_NO_SPILL by auto
  next
    case False
    then show ?thesis using slot is_global_iff [OF inv i(1)] by (simp add: has_slot_def)
  qed
  then have e: "EmitFill i ra2 = Inr (EmitMov (reg_op ?w) (slot_op ?w) ra2)" using v2 i len by (simp add: EmitFill_def)
  have "placed ?w" using slot by (simp add: placed_def has_slot_def)
  moreover have "track_ok vi i ?w" using inv_track [OF inv i(1)] by (simp add: track_ok_def)
  moreover have "regs_ok (vregs ra2) (p2v ra2)" using regs_ok_set [OF ra_invD(2) [OF inv], of i p ?w] i(1) len p loc by (simp add: v2 p2)
  ultimately have inv2: "ra_inv vi X ra2" unfolding ra_inv_def
    using tracks_ok_upd [OF ra_invD(1) [OF inv], of i ?w] located_upd [OF ra_invD(4) [OF inv], of i ?w] frame_ok_upd [OF ra_invD(3) [OF inv], of i ?w] i len
    by (simp add: v2 p2)
  have "\<exists>ms'. mexec_list clob [InstUnop q_mov (reg_op ?w) (slot_op ?w)] ms = QNext ms' \<and> ra_sim vi X (vregs ra2) qs ms' \<and> (\<forall>q\<in>- {p}. m_regs ms' q = m_regs ms q)"
    if sim: "ra_sim vi X (vregs ra) qs ms" for clob qs ms
  proof -
    let ?x = "vreg_val vi qs i"
    have s: "mread ms (slot_op ?w) = Some (vtrunc (rt_type ?v) ?x)"
      using ra_simD(1) [OF sim i(2,1)] loc by (simp add: holds_def slot_has_def slot_op_def)
    let ?ms = "ms\<lparr>m_regs := (m_regs ms)(p := vmerge (rt_type ?v) (m_regs ms p) (vtrunc (rt_type ?v) ?x))\<rparr>"
    have "mexec_list clob [InstUnop q_mov (reg_op ?w) (slot_op ?w)] ms = QNext ?ms" using fill_exec [OF s, of clob] p(2) by simp
    moreover have "ra_sim vi X (vregs ra2) qs ?ms"
    proof (rule ra_simI)
      fix j assume j: "j \<in> X" "j < NumAll vi"
      note h = ra_simD(1) [OF sim j]
      have sl: "slot_has ?ms v x = slot_has ms v x" for v x using mread_slot_cong [of ?ms ms v] by (simp add: slot_has_def)
      have "rt_p (vregs ra ! j) \<noteq> p" if "rt_loc (vregs ra ! j) = LREG" using regs_okD(3) [OF ra_invD(2) [OF inv], of j] j(2) len that p(1) by auto
      moreover have "holds ?ms ?w ?x" unfolding holds_def sl using s by (simp add: slot_has_def)
      ultimately show "holds ?ms (vregs ra2 ! j) (vreg_val vi qs j)"
        using h i len unfolding v2 by (cases "j = i") (simp_all add: holds_def sl)
    qed (use ra_simD(2-4) [OF sim] in auto)
    ultimately show ?thesis by auto
  qed
  moreover have "vregs ra2 ! j = vregs ra ! j" if "rt_loc (vregs ra ! j) = LREG" for j using loc that v2 by (cases "j = i") auto
  ultimately have "ra_moves vi X (- {p}) ra (EmitMov (reg_op ?w) (slot_op ?w) ra2)"
    using inv2 ra_inv_cong [of "EmitMov (reg_op ?w) (slot_op ?w) ra2" ra2]
    by (intro ra_movesI [where cs = "[InstUnop q_mov (reg_op ?w) (slot_op ?w)]"]) (simp_all add: p2 del: mexec_list.simps)
  then show ?thesis using e v2 i len by simp
qed

lemma Fill_ok:
  assumes vi: "info_ok vi" and inv: "ra_inv vi X ra" and i: "i < NumAll vi" "i \<in> X" "\<not> ip_reg vi i" and av: "avoids_fixed avoid"
    and q: "unat q < 16" "mask_Test desire q" "\<not> mask_Test avoid q"
  shows "\<exists>ra'. Fill i desire avoid ra = Inr ra' \<and> ra_moves vi X {p. mask_Test avoid p} ra ra' \<and> rt_loc (vregs ra' ! i) = LREG"
proof -
  have "placed (vregs ra ! i)" using locatedD [OF ra_invD(4) [OF inv] i(2)] i(1) inv_length [OF inv] by simp
  then consider "rt_loc (vregs ra ! i) = LREG" | (mem) "rt_loc (vregs ra ! i) = LMEM" by (cases "rt_loc (vregs ra ! i)") (auto simp: placed_def)
  then show ?thesis
  proof cases
    case 1
    then show ?thesis using ra_moves_refl [OF inv] by (simp add: Fill_def)
  next
    case mem
    obtain p ra1 where a: "AllocPReg desire avoid ra = Inr (p, ra1)" "ra_moves vi X (- {p}) ra ra1" "p2v ra1 p = None" "unat p < 16"
        "\<not> mask_Test avoid p" "same_slots ra ra1" using AllocPReg_ok [OF vi inv q] by blast
    have m1: "rt_loc (vregs ra1 ! i) = LMEM" using a(6) mem by (simp add: same_slots_def)
    have nf: "\<not> mask_Test GPR_FIXED p" using av a(5) by (auto simp: avoids_fixed_def)
    obtain ra' where f: "EmitFill i (upd_track i (spill_synced_update (\<lambda>_. True)) (set_reg i p ra1)) = Inr ra'" "ra_moves vi X (- {p}) ra1 ra'"
        "rt_loc (vregs ra' ! i) = LREG" using fill_ok [OF vi ra_moves_inv [OF a(2)] i m1 a(3,4) nf] by blast
    have "ra_moves vi X {p. mask_Test avoid p} ra ra'"
      using ra_moves_mono [OF ra_moves_trans [OF a(2) f(2)]] a(5) by blast
    then show ?thesis using mem a(1) f(1,3) by (simp add: Fill_def)
  qed
qed

section \<open>Input operands\<close>

definition type_of :: "VRegsInfo \<Rightarrow> nat \<Rightarrow> VType" where
  "type_of vi i = (if i < NumGlobals vi then I32 else loc_info vi ! (i - NumGlobals vi))"

lemma track_type_of: "ra_inv vi X ra \<Longrightarrow> i < NumAll vi \<Longrightarrow> rt_type (vregs ra ! i) = type_of vi i"
  using inv_track [of vi X ra i] by (auto simp: track_ok_def type_of_def split: if_splits)

lemma vtrunc_narrow:
  assumes "vsz t \<le> vsz ty" and "t \<noteq> UNDEF" and "vtrunc ty x = vtrunc ty y"
  shows "vtrunc t x = vtrunc t y"
proof -
  have "(x AND 0xffff) AND 0xff = x AND (0xff :: u32)" for x :: u32 by (simp add: and.assoc)
  then show ?thesis using assms by (cases t; cases ty) (auto, metis)
qed

lemma read_vreg_val:
  assumes "info_ok vi" and "unat r < NumAll vi"
  shows "read_vreg (glob_info vi) qs r = Some (vreg_val vi qs (unat r))"
proof (cases "unat r < NumGlobals vi")
  case True
  then have "GetStateReg (glob_info vi) r = Some (si_regs (glob_info vi) ! unat r)" by (simp add: GetStateReg_def NumGlobals_def)
  moreover have "state_read (qcpu qs) (goffs vi (unat r)) \<noteq> None" using state_read_ok(1) goffs_facts(1) [OF assms(1) True] by blast
  ultimately show ?thesis using True by (auto simp: read_vreg_def vreg_val_def goffs_def)
next
  case False
  then show ?thesis by (simp add: read_vreg_def vreg_val_def GetStateReg_def NumGlobals_def)
qed

text \<open>An input: a constant, or a virtual register that has a value, read at most as wide as it is.\<close>

definition in_ok :: "VRegsInfo \<Rightarrow> nat set \<Rightarrow> VOperand \<Rightarrow> bool" where
  "in_ok vi X v \<longleftrightarrow>
     (case view_of v of
        VConst t k \<Rightarrow> True
      | VVirt t r \<Rightarrow> unat r \<in> X \<and> unat r < NumAll vi \<and> \<not> ip_reg vi (unat r) \<and> t \<noteq> UNDEF \<and> vsz t \<le> vsz (type_of vi (unat r))
      | _ \<Rightarrow> False)"

text \<open>What holds after the code between two states of the allocator has run.\<close>

definition yields :: "VRegsInfo \<Rightarrow> nat set \<Rightarrow> QRegAlloc \<Rightarrow> QRegAlloc \<Rightarrow> (qstate \<Rightarrow> mstate \<Rightarrow> bool) \<Rightarrow> bool" where
  "yields vi X ra ra' Q \<longleftrightarrow>
     (\<forall>cs clob qs ms ms'. ra_pre ra' = ra_pre ra @ cs \<and> ra_sim vi X (vregs ra) qs ms \<and> mexec_list clob cs ms = QNext ms' \<longrightarrow> Q qs ms')"

lemma ra_movesD:
  assumes "ra_moves vi X K ra ra'" and "ra_sim vi X (vregs ra) qs ms"
  shows "\<exists>cs ms'. ra_pre ra' = ra_pre ra @ cs \<and> mexec_list clob cs ms = QNext ms' \<and> ra_sim vi X (vregs ra') qs ms' \<and> (\<forall>p\<in>K. m_regs ms' p = m_regs ms p)"
  using assms unfolding ra_moves_def by blast

lemma yields_sim: "ra_moves vi X K ra ra' \<Longrightarrow> yields vi X ra ra' (\<lambda>qs ms. ra_sim vi X (vregs ra') qs ms)"
  unfolding yields_def using ra_movesD by (metis qres.inject(1) same_append_eq)

lemma yields_mono: "yields vi X ra ra' Q \<Longrightarrow> (\<And>qs ms. Q qs ms \<Longrightarrow> Q' qs ms) \<Longrightarrow> yields vi X ra ra' Q'"
  unfolding yields_def by blast

lemma yields_split:
  assumes "ra_moves vi X K ra ra1" and "ra_moves vi X K' ra1 ra2" and "ra_pre ra2 = ra_pre ra @ cs" and "ra_sim vi X (vregs ra) qs ms"
    and "mexec_list clob cs ms = QNext ms2"
  obtains cs1 cs2 ms1 where "ra_pre ra1 = ra_pre ra @ cs1" "ra_pre ra2 = ra_pre ra1 @ cs2" "mexec_list clob cs1 ms = QNext ms1"
    "mexec_list clob cs2 ms1 = QNext ms2" "ra_sim vi X (vregs ra1) qs ms1" "\<forall>p\<in>K'. m_regs ms2 p = m_regs ms1 p"
proof -
  obtain cs1 ms1 where 1: "ra_pre ra1 = ra_pre ra @ cs1" "mexec_list clob cs1 ms = QNext ms1" "ra_sim vi X (vregs ra1) qs ms1"
    using ra_movesD [OF assms(1,4), of clob] by blast
  obtain cs2 ms3 where 2: "ra_pre ra2 = ra_pre ra1 @ cs2" "mexec_list clob cs2 ms1 = QNext ms3" "\<forall>p\<in>K'. m_regs ms3 p = m_regs ms1 p"
    using ra_movesD [OF assms(2) 1(3), of clob] by blast
  have "cs = cs1 @ cs2" using 1(1) 2(1) assms(3) by simp
  then have "ms3 = ms2" using 1(2) 2(2) assms(5) by simp
  then show ?thesis using 1 2 that by blast
qed

lemma yields_after: "ra_moves vi X K ra ra1 \<Longrightarrow> ra_moves vi X K' ra1 ra2 \<Longrightarrow> yields vi X ra1 ra2 Q \<Longrightarrow> yields vi X ra ra2 Q"
  by (subst yields_def, clarify, erule (2) yields_split) (auto simp: yields_def)

lemma yields_keep:
  assumes "ra_moves vi X K ra ra1" and "ra_moves vi X K' ra1 ra2" and "yields vi X ra ra1 Q"
    and "\<And>qs ms ms'. Q qs ms \<Longrightarrow> (\<forall>p\<in>K'. m_regs ms' p = m_regs ms p) \<Longrightarrow> Q qs ms'"
  shows "yields vi X ra ra2 Q"
  unfolding yields_def
proof (intro allI impI, elim conjE)
  fix cs clob qs ms ms'
  assume h: "ra_pre ra2 = ra_pre ra @ cs" "ra_sim vi X (vregs ra) qs ms" "mexec_list clob cs ms = QNext ms'"
  obtain cs1 cs2 ms1 where "ra_pre ra1 = ra_pre ra @ cs1" "ra_pre ra2 = ra_pre ra1 @ cs2" "mexec_list clob cs1 ms = QNext ms1"
    "mexec_list clob cs2 ms1 = QNext ms'" "ra_sim vi X (vregs ra1) qs ms1" "\<forall>p\<in>K'. m_regs ms' p = m_regs ms1 p"
    using yields_split [OF assms(1,2) h] by blast
  then show "Q qs ms'" using assms(3,4) h(2) unfolding yields_def by blast
qed

definition op_at :: "VRegsInfo \<Rightarrow> VOperand \<Rightarrow> VOperand \<Rightarrow> qstate \<Rightarrow> mstate \<Rightarrow> bool" where
  "op_at vi opr opr' qs ms \<longleftrightarrow> mread ms opr' = read_op (glob_info vi) qs opr"

lemma op_at_reg:
  assumes "info_ok vi" and "in_ok vi X opr" and "view_of opr = VVirt t r" and "unat p < 16"
    and "vtrunc (type_of vi (unat r)) (m_regs ms p) = vtrunc (type_of vi (unat r)) (vreg_val vi qs (unat r))"
  shows "op_at vi opr (MakePGPR t p) qs ms"
proof -
  have r: "unat r < NumAll vi" "t \<noteq> UNDEF" "vsz t \<le> vsz (type_of vi (unat r))" using assms(2,3) by (simp_all add: in_ok_def)
  have "vtrunc t (m_regs ms p) = vtrunc t (vreg_val vi qs (unat r))" using vtrunc_narrow [OF r(3,2) assms(5)] .
  then show ?thesis using assms(3,4) read_vreg_val [OF assms(1) r(1)] by (simp add: op_at_def read_op_def)
qed

text \<open>Allocating one input: the new operand reads as the old one. If the register suits the
  instruction, the operand is the track's register.\<close>

lemma alloc_input_ok:
  assumes vi: "info_ok vi" and inv: "ra_inv vi X ra" and av: "avoids_fixed avoid" and opr: "in_ok vi X opr"
    and q: "unat q < 16" "mask_Test (ct_cr ct) q" "\<not> mask_Test avoid q" and v: "view_of opr = VVirt t r"
  shows "\<exists>p ra'. alloc_input ct opr avoid ra = Inr (MakePGPR t p, mask_Set p avoid, ra') \<and> ra_moves vi X {p. mask_Test avoid p} ra ra' \<and>
    yields vi X ra ra' (op_at vi opr (MakePGPR t p)) \<and> unat p < 16 \<and> mask_Test (ct_cr ct) p \<and> \<not> mask_Test GPR_FIXED p \<and>
    (ct_cr ct = 0xffff \<longrightarrow> rt_loc (vregs ra' ! unat r) = LREG \<and> rt_p (vregs ra' ! unat r) = p)"
proof -
  let ?i = "unat r"
  have i: "?i < NumAll vi" "?i \<in> X" "\<not> ip_reg vi ?i" using opr v by (simp_all add: in_ok_def)
  have tr: "track_of opr ra = Inr ?i" using is_view(3) [of opr r] v inv_length [OF inv] i(1) by (auto simp: track_of_def)
  have gt: "IsVGPR opr" "GetType opr = t" using is_view(1,6) [of opr] v by blast+
  obtain ra1 where f: "Fill ?i (ct_cr ct) avoid ra = Inr ra1" "ra_moves vi X {p. mask_Test avoid p} ra ra1" "rt_loc (vregs ra1 ! ?i) = LREG"
    using Fill_ok [OF vi inv i av q] by blast
  note inv1 = ra_moves_inv [OF f(2)]
  let ?p = "rt_p (vregs ra1 ! ?i)"
  have len: "length (vregs ra1) = NumAll vi" using inv_length [OF inv1] .
  have p: "unat ?p < 16" "\<not> mask_Test GPR_FIXED ?p" using regs_okD(1,2) [OF ra_invD(2) [OF inv1], of ?i] i(1) len f(3) by simp_all
  have val: "vtrunc (type_of vi ?i) (m_regs ms ?p) = vtrunc (type_of vi ?i) (vreg_val vi qs ?i)" if "ra_sim vi X (vregs ra1) qs ms" for qs ms
    using ra_simD(1) [OF that i(2,1)] f(3) track_type_of [OF inv1 i(1)] by (simp add: holds_def)
  show ?thesis
  proof (cases "mask_Test (ct_cr ct) ?p")
    case True
    have "yields vi X ra ra1 (op_at vi opr (MakePGPR t ?p))"
      using op_at_reg [OF vi opr v p(1) val] by (intro yields_mono [OF yields_sim [OF f(2)]])
    then show ?thesis using True f p gt tr by (intro exI [of _ ?p] exI [of _ ra1]) (simp add: alloc_input_def Let_def)
  next
    case False
    obtain p' ra2 where a: "AllocPReg (ct_cr ct) avoid ra1 = Inr (p', ra2)" "ra_moves vi X (- {p'}) ra1 ra2" "p2v ra2 p' = None" "unat p' < 16"
        "mask_Test (ct_cr ct) p'" "\<not> mask_Test avoid p'" using AllocPReg_ok [OF vi inv1 q] by blast
    note inv2 = ra_moves_inv [OF a(2)]
    have ne: "?p \<noteq> p'" using False a(5) by auto
    have t2: "rt_loc (vregs ra2 ! ?i) = LREG" "rt_p (vregs ra2 ! ?i) = ?p" using a(2) f(3) i(1) ne unfolding ra_moves_def by blast+
    let ?ty = "rt_type (vregs ra2 ! ?i)"
    let ?m = "InstUnop q_mov (MakePGPR ?ty p') (MakePGPR ?ty ?p)"
    let ?ra3 = "EmitMov (MakePGPR ?ty p') (MakePGPR ?ty ?p) ra2"
    have ty: "?ty = type_of vi ?i" using track_type_of [OF inv2 i(1)] .
    have ex: "\<exists>ms'. mexec_list clob [?m] ms = QNext ms' \<and> ra_sim vi X (vregs ?ra3) qs ms' \<and> (\<forall>q\<in>- {p'}. m_regs ms' q = m_regs ms q) \<and>
        vtrunc (type_of vi ?i) (m_regs ms' p') = vtrunc (type_of vi ?i) (vreg_val vi qs ?i)"
      if sim: "ra_sim vi X (vregs ra2) qs ms" for clob qs ms
    proof -
      let ?ms = "ms\<lparr>m_regs := (m_regs ms)(p' := vmerge ?ty (m_regs ms p') (vtrunc ?ty (m_regs ms ?p)))\<rparr>"
      have "ra_sim vi X (vregs ra2) qs ?ms"
      proof (rule ra_simI)
        fix j assume j: "j \<in> X" "j < NumAll vi"
        have "slot_has ?ms v x = slot_has ms v x" for v x using mread_slot_cong [of ?ms ms v] by (simp add: slot_has_def)
        moreover have "rt_p (vregs ra2 ! j) \<noteq> p'" if "rt_loc (vregs ra2 ! j) = LREG"
          using regs_okD(3) [OF ra_invD(2) [OF inv2], of j] j(2) inv_length [OF inv2] that a(3) by auto
        ultimately show "holds ?ms (vregs ra2 ! j) (vreg_val vi qs j)" using ra_simD(1) [OF sim j] by (auto simp: holds_def)
      qed (use ra_simD(2-4) [OF sim] in auto)
      moreover have "vtrunc ?ty (m_regs ms ?p) = vtrunc ?ty (vreg_val vi qs ?i)" using ra_simD(1) [OF sim i(2,1)] t2 by (simp add: holds_def)
      ultimately show ?thesis using p(1) a(4) ty by simp
    qed
    have m3: "ra_moves vi X (- {p'}) ra2 ?ra3"
      unfolding ra_moves_def using ex inv2 ra_inv_cong [of ?ra3 ra2] by (intro conjI exI [of _ "[?m]"] allI impI) (auto, blast)
    have m: "ra_moves vi X {p. mask_Test avoid p} ra ?ra3"
      using ra_moves_trans [OF f(2) ra_moves_mono [OF ra_moves_trans [OF a(2) m3]]] a(6) by blast
    have "yields vi X ra2 ?ra3 (op_at vi opr (MakePGPR t p'))"
      unfolding yields_def
    proof (intro allI impI, elim conjE)
      fix cs clob qs ms ms'
      assume h: "ra_pre ?ra3 = ra_pre ra2 @ cs" "ra_sim vi X (vregs ra2) qs ms" "mexec_list clob cs ms = QNext ms'"
      have "cs = [?m]" using h(1) by simp
      then have "vtrunc (type_of vi ?i) (m_regs ms' p') = vtrunc (type_of vi ?i) (vreg_val vi qs ?i)"
        using ex [OF h(2), of clob] h(3) by (metis qres.inject(1))
      then show "op_at vi opr (MakePGPR t p') qs ms'" by (rule op_at_reg [OF vi opr v a(4)])
    qed
    then have "yields vi X ra ?ra3 (op_at vi opr (MakePGPR t p'))"
      using yields_after [OF f(2) ra_moves_trans [OF a(2) m3] yields_after [OF a(2) m3]] by blast
    moreover have "\<not> mask_Test GPR_FIXED p'" using av a(6) by (auto simp: avoids_fixed_def)
    moreover have "ct_cr ct \<noteq> 0xffff" using False p(1) mask_all by auto
    ultimately show ?thesis using False f(1) a gt tr m t2 by (intro exI [of _ p'] exI [of _ ?ra3]) (simp add: alloc_input_def Let_def)
  qed
qed

text \<open>Registers that are still free for an instruction.\<close>

definition free_regs :: "RegMask \<Rightarrow> RegN list" where
  "free_regs avoid = filter (\<lambda>p. \<not> mask_Test avoid p) pregs"

lemma free_regs_fixed: "length (free_regs GPR_FIXED) = 13"
  by code_simp

lemma distinct_pregs: "distinct pregs"
  by code_simp

lemma filter_but: "distinct xs \<Longrightarrow> length (filter P xs) \<le> Suc (length (filter (\<lambda>x. x \<noteq> p \<and> P x) xs))"
proof (induction xs)
  case (Cons x xs)
  have "p \<notin> set xs \<Longrightarrow> filter (\<lambda>x. x \<noteq> p \<and> P x) xs = filter P xs" by (induction xs) auto
  then show ?case using Cons by auto
qed simp

lemma free_regs_Set: "unat p < 16 \<Longrightarrow> length (free_regs avoid) \<le> Suc (length (free_regs (mask_Set p avoid)))"
  using filter_but [OF distinct_pregs, of "\<lambda>p. \<not> mask_Test avoid p" p] by (simp add: free_regs_def mask_Test_Set)

lemma free_reg_all: "0 < length (free_regs avoid) \<Longrightarrow> \<exists>q. unat q < 16 \<and> mask_Test 0xffff q \<and> \<not> mask_Test avoid q"
proof -
  assume "0 < length (free_regs avoid)"
  then obtain q where "q \<in> set (free_regs avoid)" by (cases "free_regs avoid") auto
  then show ?thesis using set_pregs mask_all by (auto simp: free_regs_def)
qed

definition in_alloc :: "RAOpCt \<Rightarrow> VOperand \<Rightarrow> VOperand \<Rightarrow> bool" where
  "in_alloc ct opr opr' \<longleftrightarrow>
     opr' = opr \<and> IsConst opr \<or>
     (\<exists>t r p. view_of opr = VVirt t r \<and> opr' = MakePGPR t p \<and> unat p < 16 \<and> mask_Test (ct_cr ct) p \<and> \<not> mask_Test GPR_FIXED p)"

definition held :: "RegMask \<Rightarrow> VOperand \<Rightarrow> bool" where
  "held avoid opr \<longleftrightarrow> (\<forall>t p. view_of opr = VPhys t p \<longrightarrow> mask_Test avoid p)"

lemma op_at_keep:
  assumes "op_at vi opr opr' qs ms" and "in_alloc ct opr opr'" and "held avoid opr'" and "\<forall>p\<in>{p. mask_Test avoid p}. m_regs ms' p = m_regs ms p"
  shows "op_at vi opr opr' qs ms'"
proof -
  have "mread ms' opr' = mread ms opr'"
    using assms(2)
  proof (cases "IsConst opr'")
    case True
    then show ?thesis using is_view(2) [of opr'] by (auto simp: mread_def)
  next
    case False
    then obtain t p where "opr' = MakePGPR t p" "unat p < 16" using assms(2) by (auto simp: in_alloc_def)
    then show ?thesis using assms(3,4) by (simp add: held_def)
  qed
  then show ?thesis using assms(1) by (simp add: op_at_def)
qed

definition mask_le :: "RegMask \<Rightarrow> RegMask \<Rightarrow> bool" where
  "mask_le a b \<longleftrightarrow> (\<forall>p. mask_Test a p \<longrightarrow> mask_Test b p)"

lemma held_le: "held a v \<Longrightarrow> mask_le a b \<Longrightarrow> held b v"
  by (auto simp: held_def mask_le_def)

text \<open>Where the operand of a register without constraint is: in the track's register.\<close>

definition own_reg :: "QRegAlloc \<Rightarrow> VOperand \<Rightarrow> VOperand \<Rightarrow> bool" where
  "own_reg ra opr opr' \<longleftrightarrow>
     (\<forall>t r. view_of opr = VVirt t r \<longrightarrow> rt_loc (vregs ra ! unat r) = LREG \<and> opr' = MakePGPR t (rt_p (vregs ra ! unat r)))"

lemma own_reg_keep:
  assumes "own_reg ra opr opr'" and "in_ok vi X opr" and "held avoid opr'" and "ra_moves vi X' {p. mask_Test avoid p} ra ra'"
  shows "own_reg ra' opr opr'"
  unfolding own_reg_def
proof (intro allI impI)
  fix t r assume v: "view_of opr = VVirt t r"
  then have o: "rt_loc (vregs ra ! unat r) = LREG" "opr' = MakePGPR t (rt_p (vregs ra ! unat r))" "unat r < NumAll vi"
    using assms(1,2) by (auto simp: own_reg_def in_ok_def)
  then have "mask_Test avoid (rt_p (vregs ra ! unat r))" using assms(3) by (simp add: held_def)
  then show "rt_loc (vregs ra' ! unat r) = LREG \<and> opr' = MakePGPR t (rt_p (vregs ra' ! unat r))"
    using assms(4) o unfolding ra_moves_def by simp
qed

lemma alloc_in:
  assumes vi: "info_ok vi" and inv: "ra_inv vi X ra" and av: "avoids_fixed avoid" and opr: "in_ok vi X opr"
    and q: "\<exists>q. unat q < 16 \<and> mask_Test (ct_cr ct) q \<and> \<not> mask_Test avoid q"
  shows "\<exists>opr' avoid' ra'. alloc_input ct opr avoid ra = Inr (opr', avoid', ra') \<and> ra_moves vi X {p. mask_Test avoid p} ra ra' \<and>
    yields vi X ra ra' (op_at vi opr opr') \<and> in_alloc ct opr opr' \<and> held avoid' opr' \<and> mask_le avoid avoid' \<and>
    length (free_regs avoid) \<le> Suc (length (free_regs avoid')) \<and> (ct_cr ct = 0xffff \<longrightarrow> own_reg ra' opr opr')"
proof -
  consider (c) t k where "view_of opr = VConst t k" | (v) t r where "view_of opr = VVirt t r" using opr by (auto simp: in_ok_def split: view.splits)
  then show ?thesis
  proof cases
    case c
    then have "\<not> IsVGPR opr" "IsConst opr" using is_view(1,2) [of opr] by auto
    then have "alloc_input ct opr avoid ra = Inr (opr, avoid, ra)" "in_alloc ct opr opr" by (simp_all add: alloc_input_def in_alloc_def)
    moreover have "yields vi X ra ra (op_at vi opr opr)" using c by (simp add: yields_def op_at_def mread_def read_op_def)
    ultimately show ?thesis using ra_moves_refl [OF inv] c by (auto simp: held_def mask_le_def own_reg_def)
  next
    case v
    obtain p ra' where a: "alloc_input ct opr avoid ra = Inr (MakePGPR t p, mask_Set p avoid, ra')" "ra_moves vi X {p. mask_Test avoid p} ra ra'"
        "yields vi X ra ra' (op_at vi opr (MakePGPR t p))" "unat p < 16" "mask_Test (ct_cr ct) p" "\<not> mask_Test GPR_FIXED p"
        "ct_cr ct = 0xffff \<longrightarrow> rt_loc (vregs ra' ! unat r) = LREG \<and> rt_p (vregs ra' ! unat r) = p"
      using alloc_input_ok [OF vi inv av opr _ _ _ v] q by blast
    have "in_alloc ct opr (MakePGPR t p)" using v a(4-6) unfolding in_alloc_def by blast
    moreover have "mask_le avoid (mask_Set p avoid)" "held (mask_Set p avoid) (MakePGPR t p)" using a(4) by (simp_all add: mask_le_def held_def mask_Test_Set)
    moreover have "ct_cr ct = 0xffff \<longrightarrow> own_reg ra' opr (MakePGPR t p)" using v a(7) by (simp add: own_reg_def)
    ultimately show ?thesis using a(1-3) free_regs_Set [OF a(4)] by blast
  qed
qed

definition feasible :: "RAOpCt list \<Rightarrow> nat \<Rightarrow> nat list \<Rightarrow> RegMask \<Rightarrow> bool" where
  "feasible op_ct dn ord avoid \<longleftrightarrow> avoids_fixed avoid \<and> length ord \<le> length (free_regs avoid) \<and>
     (\<forall>i\<in>set (tl ord). ct_cr (op_ct ! (dn + i)) = 0xffff) \<and>
     (ord \<noteq> [] \<longrightarrow> (\<exists>q. unat q < 16 \<and> mask_Test (ct_cr (op_ct ! (dn + hd ord))) q \<and> \<not> mask_Test avoid q))"

lemma alloc_inputs_ok:
  assumes vi: "info_ok vi" and "ra_inv vi X ra" and "distinct ord" and "\<forall>i\<in>set ord. i < length srcl \<and> in_ok vi X (srcl ! i)"
    and "feasible op_ct dn ord avoid"
  shows "\<exists>srcl' avoid' ra'. alloc_inputs op_ct dn ord srcl avoid ra = Inr (srcl', avoid', ra') \<and> length srcl' = length srcl \<and>
    (\<forall>j. j \<notin> set ord \<longrightarrow> srcl' ! j = srcl ! j) \<and> ra_moves vi X {p. mask_Test avoid p} ra ra' \<and> mask_le avoid avoid' \<and>
    length (free_regs avoid) \<le> length ord + length (free_regs avoid') \<and>
    (\<forall>i\<in>set ord. yields vi X ra ra' (op_at vi (srcl ! i) (srcl' ! i)) \<and> in_alloc (op_ct ! (dn + i)) (srcl ! i) (srcl' ! i) \<and> held avoid' (srcl' ! i) \<and>
       (ct_cr (op_ct ! (dn + i)) = 0xffff \<longrightarrow> own_reg ra' (srcl ! i) (srcl' ! i)))"
  using assms(2-)
proof (induction ord arbitrary: srcl avoid ra)
  case Nil
  then show ?case using ra_moves_refl by (auto simp: mask_le_def)
next
  case (Cons i ord)
  let ?ct = "op_ct ! (dn + i)"
  have i: "i < length srcl" "in_ok vi X (srcl ! i)" "i \<notin> set ord" using Cons.prems(2,3) by auto
  have f: "avoids_fixed avoid" "\<exists>q. unat q < 16 \<and> mask_Test (ct_cr ?ct) q \<and> \<not> mask_Test avoid q" "Suc (length ord) \<le> length (free_regs avoid)"
      "\<forall>j\<in>set ord. ct_cr (op_ct ! (dn + j)) = 0xffff" using Cons.prems(4) by (simp_all add: feasible_def)
  obtain opr' avoid1 ra1 where a: "alloc_input ?ct (srcl ! i) avoid ra = Inr (opr', avoid1, ra1)" "ra_moves vi X {p. mask_Test avoid p} ra ra1"
      "yields vi X ra ra1 (op_at vi (srcl ! i) opr')" "in_alloc ?ct (srcl ! i) opr'" "held avoid1 opr'" "mask_le avoid avoid1"
      "length (free_regs avoid) \<le> Suc (length (free_regs avoid1))" "ct_cr ?ct = 0xffff \<longrightarrow> own_reg ra1 (srcl ! i) opr'"
    using alloc_in [OF vi Cons.prems(1) f(1) i(2) f(2)] by blast
  have "\<exists>q. unat q < 16 \<and> mask_Test (ct_cr (op_ct ! (dn + hd ord))) q \<and> \<not> mask_Test avoid1 q" if "ord \<noteq> []"
  proof -
    have "0 < length (free_regs avoid1)" using f(3) a(7) that length_greater_0_conv [of ord] by linarith
    moreover have "ct_cr (op_ct ! (dn + hd ord)) = 0xffff" using f(4) that by simp
    ultimately show ?thesis using free_reg_all [of avoid1] by simp
  qed
  then have feas: "feasible op_ct dn ord avoid1"
    using f a(6,7) list.set_sel(2) [of ord] unfolding feasible_def avoids_fixed_def mask_le_def by (cases ord) auto
  have "\<forall>j\<in>set ord. j < length (srcl[i := opr']) \<and> in_ok vi X (srcl[i := opr'] ! j)"
    using Cons.prems(3) i(3) by (metis length_list_update list.set_intros(2) nth_list_update_neq)
  from Cons.IH [OF ra_moves_inv [OF a(2)] _ this feas] Cons.prems(2) obtain srcl' avoid' ra' where
    r: "alloc_inputs op_ct dn ord (srcl[i := opr']) avoid1 ra1 = Inr (srcl', avoid', ra')" "length srcl' = length srcl"
      "\<forall>j. j \<notin> set ord \<longrightarrow> srcl' ! j = srcl[i := opr'] ! j" "ra_moves vi X {p. mask_Test avoid1 p} ra1 ra'" "mask_le avoid1 avoid'"
      "length (free_regs avoid1) \<le> length ord + length (free_regs avoid')"
      "\<forall>j\<in>set ord. yields vi X ra1 ra' (op_at vi (srcl[i := opr'] ! j) (srcl' ! j)) \<and> in_alloc (op_ct ! (dn + j)) (srcl[i := opr'] ! j) (srcl' ! j) \<and>
         held avoid' (srcl' ! j) \<and> (ct_cr (op_ct ! (dn + j)) = 0xffff \<longrightarrow> own_reg ra' (srcl[i := opr'] ! j) (srcl' ! j))"
    by auto
  have si: "srcl' ! i = opr'" using r(3) i by simp
  have "{p. mask_Test avoid p} \<subseteq> {p. mask_Test avoid1 p}" using a(6) by (auto simp: mask_le_def)
  then have m: "ra_moves vi X {p. mask_Test avoid p} ra ra'" using ra_moves_trans [OF a(2) ra_moves_mono [OF r(4)]] by blast
  have yi: "yields vi X ra ra' (op_at vi (srcl ! i) opr')" using yields_keep [OF a(2) r(4) a(3)] op_at_keep [OF _ a(4,5)] by blast
  have oi: "ct_cr ?ct = 0xffff \<longrightarrow> own_reg ra' (srcl ! i) opr'" using own_reg_keep [OF _ i(2) a(5) r(4)] a(8) by blast
  have rest: "yields vi X ra ra' (op_at vi (srcl ! j) (srcl' ! j)) \<and> in_alloc (op_ct ! (dn + j)) (srcl ! j) (srcl' ! j) \<and>
         held avoid' (srcl' ! j) \<and> (ct_cr (op_ct ! (dn + j)) = 0xffff \<longrightarrow> own_reg ra' (srcl ! j) (srcl' ! j))" if "j \<in> set ord" for j
    using r(7) that i(3) yields_after [OF a(2) r(4)] by (metis nth_list_update_neq)
  show ?case
    using r(1,2,3,5,6) a(1,4,5,6,7) si m yi oi rest held_le [OF a(5) r(5)]
    by (intro exI [of _ srcl'] exI [of _ avoid'] exI [of _ ra']) (auto simp: mask_le_def)
qed

section \<open>Loops over tracks\<close>

text \<open>Code that only writes slots leaves the registers alone.\<close>

definition slot_mov :: "instc \<Rightarrow> bool" where
  "slot_mov c \<longleftrightarrow> (\<exists>d e g t k. c = InstUnop q_mov d e \<and> view_of d = VSlot g t k)"

definition quiet :: "QRegAlloc \<Rightarrow> QRegAlloc \<Rightarrow> bool" where
  "quiet ra ra' \<longleftrightarrow> (\<exists>cs. ra_pre ra' = ra_pre ra @ cs \<and> (\<forall>c\<in>set cs. slot_mov c))"

lemma quiet_refl: "quiet ra ra"
  by (simp add: quiet_def)

lemma quiet_trans: "quiet ra ra1 \<Longrightarrow> quiet ra1 ra2 \<Longrightarrow> quiet ra ra2"
  unfolding quiet_def by (metis Un_iff append.assoc set_append)

lemma slot_movs_regs: "\<forall>c\<in>set cs. slot_mov c \<Longrightarrow> mexec_list clob cs ms = QNext ms' \<Longrightarrow> m_regs ms' = m_regs ms"
proof (induction cs arbitrary: ms)
  case (Cons c cs)
  obtain d e g t k where c: "c = InstUnop q_mov d e" "view_of d = VSlot g t k" using Cons.prems(1) by (auto simp: slot_mov_def)
  obtain x ms1 where "mread ms e = Some x" "mwrite d x ms = Some ms1" "mexec_list clob cs ms1 = QNext ms'"
    using Cons.prems(2) c(1) by (auto simp: ostuck_def split: option.splits qres.splits)
  moreover then have "m_regs ms1 = m_regs ms" using c(2) by (auto simp: mwrite_def split: if_splits)
  ultimately show ?case using Cons.IH Cons.prems(1) by simp
qed simp

lemma SyncSpill_quiet: "SyncSpill i ra = Inr ra' \<Longrightarrow> quiet ra ra'"
proof -
  assume r: "SyncSpill i ra = Inr ra'"
  have m: "slot_mov (InstUnop q_mov (slot_op v) e)" for v e by (simp add: slot_mov_def slot_op_def)
  have "ra_pre ra1 = ra_pre ra" if "AllocFrameSlot i ra = Inr ra1" for ra1 using that by (auto simp: AllocFrameSlot_def Let_def split: if_splits)
  then have "quiet ra ra1" if "EmitSpill i ra = Inr ra1" for ra1
    using that m by (auto simp: EmitSpill_def quiet_def split: if_splits)
  then show ?thesis using r quiet_refl by (auto simp: SyncSpill_def Let_def quiet_def split: if_splits Location.splits)
qed

lemma Spill_v_quiet: "Spill_v i ra = Inr ra' \<Longrightarrow> quiet ra ra'"
  using SyncSpill_quiet by (auto simp: Spill_v_def quiet_def Release_fields)

lemma ra_loop_quiet:
  "(\<And>i ra ra'. i \<in> set is \<Longrightarrow> f i ra = Inr ra' \<Longrightarrow> quiet ra ra') \<Longrightarrow> ra_loop f is ra = Inr ra' \<Longrightarrow> quiet ra ra'"
proof (induction "is" arbitrary: ra)
  case (Cons i "is")
  then obtain ra1 where "f i ra = Inr ra1" "ra_loop f is ra1 = Inr ra'" by auto
  then show ?case using Cons.IH [of ra1] Cons.prems(1) quiet_trans by (metis list.set_intros)
qed (simp add: quiet_refl)

lemma ra_loop_moves:
  assumes "\<And>i ra. i \<in> set is \<Longrightarrow> ra_inv vi X ra \<Longrightarrow> \<exists>ra'. f i ra = Inr ra' \<and> ra_moves vi X K ra ra'" and "ra_inv vi X ra"
  shows "\<exists>ra'. ra_loop f is ra = Inr ra' \<and> ra_moves vi X K ra ra'"
  using assms
proof (induction "is" arbitrary: ra)
  case (Cons i "is")
  obtain ra1 where r: "f i ra = Inr ra1" "ra_moves vi X K ra ra1" using Cons.prems by (meson list.set_intros(1))
  have "\<exists>ra'. ra_loop f is ra1 = Inr ra' \<and> ra_moves vi X K ra1 ra'" using Cons.prems(1) ra_moves_inv [OF r(2)] by (intro Cons.IH) auto
  then show ?case using r ra_moves_trans [OF r(2)] by auto
qed (simp add: ra_moves_refl)

lemma sync_globals_ok:
  assumes "info_ok vi" and "ra_inv vi X ra"
  shows "\<exists>ra'. sync_globals ra = Inr ra' \<and> ra_moves vi X UNIV ra ra'"
  unfolding sync_globals_def
proof (rule ra_loop_moves [OF _ assms(2)])
  fix i ra1 assume i: "i \<in> set [0..<length (vregs ra)]" and inv: "ra_inv vi X ra1"
  then have n: "i < NumAll vi" using inv_length [OF assms(2)] by simp
  have "rt_loc (vregs ra1 ! i) \<noteq> LDEAD" if "is_global (vregs ra1 ! i)"
    using tracks_okD(3) [OF ra_invD(1) [OF inv], of i] is_global_iff [OF inv n] that n by simp
  then show "\<exists>ra'. (if is_global (vregs ra1 ! i) then SyncSpill i ra1 else Inr ra1) = Inr ra' \<and> ra_moves vi X UNIV ra1 ra'"
    using SyncSpill_ok [OF assms(1) inv n] ra_moves_refl [OF inv] by auto
qed

text \<open>Spilling the globals of a list of tracks: afterwards they are in memory; free registers stay free.\<close>

definition spilled :: "VRegsInfo \<Rightarrow> nat set \<Rightarrow> nat list \<Rightarrow> QRegAlloc \<Rightarrow> QRegAlloc \<Rightarrow> bool" where
  "spilled vi X is ra ra' \<longleftrightarrow> ra_moves vi X {} ra ra' \<and> quiet ra ra' \<and> (\<forall>i\<in>set is. i < NumGlobals vi \<longrightarrow> rt_loc (vregs ra' ! i) = LMEM) \<and>
     (\<forall>i. rt_loc (vregs ra ! i) = LMEM \<longrightarrow> rt_loc (vregs ra' ! i) = LMEM) \<and> (\<forall>p. p2v ra p = None \<longrightarrow> p2v ra' p = None)"

lemma spilled_refl: "ra_inv vi X ra \<Longrightarrow> spilled vi X [] ra ra"
  using ra_moves_refl quiet_refl by (simp add: spilled_def)

lemma spilled_trans: "spilled vi X [i] ra ra1 \<Longrightarrow> spilled vi X is ra1 ra2 \<Longrightarrow> spilled vi X (i # is) ra ra2"
  unfolding spilled_def using ra_moves_trans quiet_trans by (auto intro: ra_moves_trans quiet_trans)

lemma spilled_one:
  assumes "info_ok vi" and "ra_inv vi X ra" and "i < NumAll vi"
  shows "is_global (vregs ra ! i) \<Longrightarrow> \<exists>ra'. Spill_v i ra = Inr ra' \<and> spilled vi X [i] ra ra'"
    and "\<not> is_global (vregs ra ! i) \<Longrightarrow> spilled vi X [i] ra ra"
    and "\<not> is_global (vregs ra ! i) \<Longrightarrow> i \<notin> X \<Longrightarrow> spilled vi X [i] ra (Release False i ra)"
proof -
  note g = is_global_iff [OF assms(2,3)]
  show "\<exists>ra'. Spill_v i ra = Inr ra' \<and> spilled vi X [i] ra ra'" if "is_global (vregs ra ! i)"
  proof -
    have "rt_loc (vregs ra ! i) \<noteq> LDEAD" using tracks_okD(3) [OF ra_invD(1) [OF assms(2)], of i] g that assms(3) by simp
    from Spill_v_ok [OF assms this] obtain ra' where r: "Spill_v i ra = Inr ra'" "ra_moves vi X (free_but i ra) ra ra'" "only_track i ra ra'"
        "rt_loc (vregs ra' ! i) = LMEM" "rt_loc (vregs ra ! i) = LREG \<longrightarrow> p2v ra' = (p2v ra)(rt_p (vregs ra ! i) := None)"
        "rt_loc (vregs ra ! i) \<noteq> LREG \<longrightarrow> p2v ra' = p2v ra" by blast
    have "rt_loc (vregs ra' ! j) = LMEM" if "rt_loc (vregs ra ! j) = LMEM" for j using only_trackD [OF r(3), of j] r(4) that by (cases "j = i") auto
    moreover have "p2v ra' p = None" if "p2v ra p = None" for p using r(5,6) that by (cases "rt_loc (vregs ra ! i) = LREG") auto
    ultimately have "spilled vi X [i] ra ra'" using ra_moves_mono [OF r(2)] Spill_v_quiet [OF r(1)] r(4) by (simp add: spilled_def)
    then show ?thesis using r(1) by blast
  qed
  show "spilled vi X [i] ra ra" if "\<not> is_global (vregs ra ! i)" using g that ra_moves_refl [OF assms(2)] quiet_refl by (simp add: spilled_def)
  show "spilled vi X [i] ra (Release False i ra)" if "\<not> is_global (vregs ra ! i)" "i \<notin> X"
    using g that ra_moves_mono [OF Release_ok [OF assms(2,3)]] inv_length [OF assms(2)]
    by (auto simp: spilled_def quiet_def Release_fields nth_list_update assms(3))
qed

lemma spill_loop:
  assumes "\<And>i ra. i \<in> set is \<Longrightarrow> ra_inv vi X ra \<Longrightarrow> \<exists>ra'. f i ra = Inr ra' \<and> spilled vi X [i] ra ra'" and "ra_inv vi X ra"
  shows "\<exists>ra'. ra_loop f is ra = Inr ra' \<and> spilled vi X is ra ra'"
  using assms
proof (induction "is" arbitrary: ra)
  case (Cons i "is")
  obtain ra1 where r: "f i ra = Inr ra1" "spilled vi X [i] ra ra1" using Cons.prems by (meson list.set_intros(1))
  have "\<exists>ra'. ra_loop f is ra1 = Inr ra' \<and> spilled vi X is ra1 ra'" using Cons.prems(1) r(2) by (intro Cons.IH) (auto simp: spilled_def ra_moves_def)
  then show ?case using r spilled_trans [OF r(2)] by auto
qed (simp add: spilled_refl)

text \<open>All globals are in memory: the host's CPU state is the guest's.\<close>

definition globals_in_mem :: "VRegsInfo \<Rightarrow> QRegAlloc \<Rightarrow> bool" where
  "globals_in_mem vi ra \<longleftrightarrow> (\<forall>i<NumGlobals vi. rt_loc (vregs ra ! i) = LMEM)"

definition globals :: "VRegsInfo \<Rightarrow> nat set" where
  "globals vi = {i. i < NumGlobals vi}"

lemma cpu_in_mem:
  assumes vi: "info_ok vi" and inv: "ra_inv vi X ra" and "globals_in_mem vi ra" and "globals vi \<subseteq> X" and sim: "ra_sim vi X (vregs ra) qs ms"
  shows "m_cpu ms = qcpu qs"
proof (rule cpu_eqI)
  fix k assume k: "offs_ok k"
  show "state_read (m_cpu ms) k = state_read (qcpu qs) k"
  proof (cases "\<exists>i<NumGlobals vi. k = goffs vi i")
    case True
    then obtain i where i: "i < NumGlobals vi" "k = goffs vi i" by blast
    then have n: "i < NumAll vi" "i \<in> X" using globals_le [of vi] assms(4) by (auto simp: globals_def)
    have "state_read (qcpu qs) k = Some (vreg_val vi qs i)" using i k state_read_ok(1) [of "qcpu qs" k] by (auto simp: vreg_val_def)
    moreover have "state_read (m_cpu ms) k = Some (vreg_val vi qs i)"
      using ra_simD(1) [OF sim n(2,1)] assms(3) inv_track [OF inv n(1)] i
      by (auto simp: holds_def globals_in_mem_def slot_has_def track_ok_def slot_op_def mread_def)
    ultimately show ?thesis by simp
  qed (use ra_simD(4) [OF sim] in blast)
qed (use ra_simD(3) [OF sim] in simp)

lemma BlockBoundary_ok:
  assumes "info_ok vi" and "ra_inv vi X ra"
  shows "\<exists>ra'. BlockBoundary ra = Inr ra' \<and> ra_moves vi X {} ra ra' \<and> quiet ra ra' \<and> globals_in_mem vi ra'"
proof -
  have "\<exists>ra'. BlockBoundary ra = Inr ra' \<and> spilled vi X [0..<length (vregs ra)] ra ra'"
    unfolding BlockBoundary_def
    using spilled_one [OF assms(1)] inv_length [OF assms(2)] by (intro spill_loop [OF _ assms(2)]) (auto split: if_splits)
  then show ?thesis using inv_length [OF assms(2)] globals_le [of vi] by (fastforce simp: spilled_def globals_in_mem_def)
qed

lemma RegionBoundary_ok:
  assumes "info_ok vi" and "ra_inv vi (globals vi) ra"
  shows "\<exists>ra'. RegionBoundary ra = Inr ra' \<and> ra_moves vi (globals vi) {} ra ra' \<and> quiet ra ra' \<and> globals_in_mem vi ra'"
proof -
  have "\<exists>ra'. RegionBoundary ra = Inr ra' \<and> spilled vi (globals vi) [0..<length (vregs ra)] ra ra'"
    unfolding RegionBoundary_def
  proof (rule spill_loop [OF _ assms(2)])
    fix i ra1 assume i: "i \<in> set [0..<length (vregs ra)]" and inv: "ra_inv vi (globals vi) ra1"
    then have n: "i < NumAll vi" using inv_length [OF assms(2)] by simp
    have "i \<notin> globals vi" if "\<not> is_global (vregs ra1 ! i)" using is_global_iff [OF inv n] that by (simp add: globals_def)
    then show "\<exists>ra'. (if is_global (vregs ra1 ! i) then Spill_v i ra1 else Inr (Release False i ra1)) = Inr ra' \<and> spilled vi (globals vi) [i] ra1 ra'"
      using spilled_one [OF assms(1) inv n] by auto
  qed
  then show ?thesis using inv_length [OF assms(2)] globals_le [of vi] by (fastforce simp: spilled_def globals_in_mem_def)
qed

end
