(* ===== verification/QRA_Correct.thy ===== *)
theory QRA_Correct
  imports QRA_Moves
begin

text \<open>
  Register allocation is correct: the operands of an instruction, calls, blocks and the region. The code of a
  block after allocation does on the host what the code before it does on the virtual registers.
\<close>

section \<open>Output operands\<close>

lemma ra_sim_mono: "ra_sim vi X vs qs ms \<Longrightarrow> Y \<subseteq> X \<Longrightarrow> ra_sim vi Y vs qs ms"
  unfolding ra_sim_def by blast

lemma ra_sim_other: "ra_sim vi X vs qs ms \<Longrightarrow> i \<notin> X \<Longrightarrow> ra_sim vi X (vs[i := v]) qs ms"
  unfolding ra_sim_def by (metis nth_list_update_neq)

text \<open>A destination: a register written as wide as it is, or the program counter's slot.\<close>

definition out_ok :: "VRegsInfo \<Rightarrow> VOperand \<Rightarrow> bool" where
  "out_ok vi d \<longleftrightarrow>
     (case view_of d of
        VVirt t r \<Rightarrow> unat r < NumAll vi \<and> \<not> ip_reg vi (unat r) \<and> t = type_of vi (unat r)
      | VSlot g t k \<Rightarrow> g \<and> t = I32 \<and> k = 128
      | _ \<Rightarrow> False)"

text \<open>The track of a destination, once it has its register.\<close>

definition fresh_reg :: "QRegAlloc \<Rightarrow> nat \<Rightarrow> RegN \<Rightarrow> bool" where
  "fresh_reg ra i p \<longleftrightarrow> rt_loc (vregs ra ! i) = LREG \<and> rt_p (vregs ra ! i) = p \<and> \<not> spill_synced (vregs ra ! i)"

lemma fresh_inv:
  assumes inv: "ra_inv vi X ra" and i: "i < NumAll vi" "\<not> ip_reg vi i"
    and w: "rt_loc w = LREG" "\<not> spill_synced w" "is_global w = is_global (vregs ra ! i)" "rt_type w = rt_type (vregs ra ! i)" "spill_offs w = spill_offs (vregs ra ! i)"
    and r: "vregs ra' = (vregs ra)[i := w]" "frame_cur ra' = frame_cur ra" "regs_ok (vregs ra') (p2v ra')"
  shows "ra_inv vi (insert i X) ra'"
proof -
  have len: "length (vregs ra) = NumAll vi" using inv_length [OF inv] .
  have "track_ok vi i w" using inv_track [OF inv i(1)] w by (simp add: track_ok_def)
  moreover have "located (insert i X) ((vregs ra)[i := w])"
    unfolding located_def
  proof (intro ballI impI)
    fix j assume "j \<in> insert i X" "j < length ((vregs ra)[i := w])"
    then show "placed ((vregs ra)[i := w] ! j)" using w(1,2) locatedD [OF ra_invD(4) [OF inv], of j] by (cases "j = i") (auto simp: placed_def)
  qed
  ultimately show ?thesis unfolding ra_inv_def
    using tracks_ok_upd [OF ra_invD(1) [OF inv], of i w] frame_ok_upd [OF ra_invD(3) [OF inv], of i w] i len w r by simp
qed

lemma alloc_output_ok:
  assumes vi: "info_ok vi" and inv: "ra_inv vi X ra" and av: "avoids_fixed avoid" "0 < length (free_regs avoid)" and cr: "ct_cr ct = 0xffff"
    and d: "view_of opr = VVirt t r" "out_ok vi opr" and al: "ct_has_alias ct \<Longrightarrow> rt_loc (vregs ra ! unat r) = LREG"
  shows "\<exists>p ra' cs. alloc_output ct opr avoid ra = Inr (MakePGPR t p, mask_Set p avoid, ra') \<and> ra_inv vi (insert (unat r) X) ra' \<and>
    fresh_reg ra' (unat r) p \<and> (ct_has_alias ct \<longrightarrow> p = rt_p (vregs ra ! unat r)) \<and> ra_pre ra' = ra_pre ra @ cs \<and>
    (\<forall>clob qs ms. ra_sim vi X (vregs ra) qs ms \<longrightarrow>
       (\<exists>ms'. mexec_list clob cs ms = QNext ms' \<and> ra_sim vi (X - {unat r}) (vregs ra') qs ms' \<and> (\<forall>p. mask_Test avoid p \<longrightarrow> m_regs ms' p = m_regs ms p)))"
proof -
  let ?i = "unat r"
  have i: "?i < NumAll vi" "\<not> ip_reg vi ?i" using d by (simp_all add: out_ok_def)
  have v: "IsVGPR opr" "GetType opr = t" "GetVGPR opr = Inr r" using d(1) is_view(1,3,6) by auto
  have len: "length (vregs ra) = NumAll vi" using inv_length [OF inv] .
  have tr: "track_of opr ra = Inr ?i" using v(3) i(1) len by (simp add: track_of_def)
  show ?thesis
  proof (cases "ct_has_alias ct")
    case True
    let ?w = "(vregs ra ! ?i)\<lparr>spill_synced := False\<rparr>" and ?ra = "upd_track ?i (spill_synced_update (\<lambda>_. False)) ra"
    note l = al [OF True]
    have e: "vregs ?ra = (vregs ra)[?i := ?w]" by (simp add: upd_track_def)
    have "alloc_output ct opr avoid ra = Inr (MakePGPR t (rt_p (vregs ra ! ?i)), mask_Set (rt_p (vregs ra ! ?i)) avoid, ?ra)"
      using True v tr i len by (simp add: alloc_output_def Let_def nth_upd_track)
    moreover have "regs_ok (vregs ?ra) (p2v ?ra)" using regs_ok_upd [OF ra_invD(2) [OF inv], of ?w ?i] e by simp
    then have "ra_inv vi (insert ?i X) ?ra" using fresh_inv [OF inv i, of ?w ?ra] l e by simp
    moreover have "fresh_reg ?ra ?i (rt_p (vregs ra ! ?i))" using l i len by (simp add: fresh_reg_def e)
    moreover have "ra_sim vi (X - {?i}) (vregs ?ra) qs ms" if "ra_sim vi X (vregs ra) qs ms" for qs ms
      using ra_sim_other [OF ra_sim_mono [OF that]] e by simp
    ultimately show ?thesis by (intro exI [of _ "rt_p (vregs ra ! ?i)"] exI [of _ ?ra] exI [of _ "[]"]) simp
  next
    case False
    obtain q where q: "unat q < 16" "mask_Test 0xffff q" "\<not> mask_Test avoid q" using free_reg_all [OF av(2)] by blast
    obtain p ra1 where a: "AllocPReg (ct_cr ct) avoid ra = Inr (p, ra1)" "ra_moves vi X (- {p}) ra ra1" "p2v ra1 p = None" "unat p < 16" "\<not> mask_Test avoid p"
      using AllocPReg_ok [OF vi inv q(1) _ q(3), of "ct_cr ct"] q(2) unfolding cr by blast
    have inv1: "ra_inv vi X ra1" using ra_moves_inv [OF a(2)] .
    have len1: "length (vregs ra1) = NumAll vi" using inv_length [OF inv1] .
    let ?v = "vregs ra1 ! ?i" and ?w = "(vregs ra1 ! ?i)\<lparr>rt_p := p, rt_loc := LREG, spill_synced := False\<rparr>"
    let ?ra2 = "if rt_loc ?v = LREG then ra1\<lparr>p2v := (p2v ra1)(rt_p ?v := None)\<rparr> else ra1"
    let ?ra = "upd_track ?i (spill_synced_update (\<lambda>_. False)) (set_reg ?i p ?ra2)"
    have e: "vregs ?ra = (vregs ra1)[?i := ?w]" "frame_cur ?ra = frame_cur ra1" "ra_pre ?ra = ra_pre ra1"
        "p2v ?ra = (if rt_loc ?v = LREG then (p2v ra1)(rt_p ?v := None) else p2v ra1)(p := Some ?i)"
      using i len1 by (simp_all add: upd_track_def set_reg_def)
    have "alloc_output ct opr avoid ra = Inr (MakePGPR t p, mask_Set p avoid, ?ra)"
      using False v tr a(1) e(1) i len1 by (simp add: alloc_output_def Let_def)
    moreover have "\<not> mask_Test GPR_FIXED p" using av(1) a(5) by (auto simp: avoids_fixed_def)
    then have "regs_ok (vregs ?ra) (p2v ?ra)" using regs_ok_set [OF ra_invD(2) [OF inv1], of ?i p ?w] a(3,4) i len1 unfolding e by simp
    then have "ra_inv vi (insert ?i X) ?ra" using fresh_inv [OF inv1 i, of ?w ?ra] e by simp
    moreover have "fresh_reg ?ra ?i p" using i len1 by (simp add: fresh_reg_def e)
    moreover obtain cs where cs: "ra_pre ra1 = ra_pre ra @ cs" "\<And>clob qs ms. ra_sim vi X (vregs ra) qs ms \<Longrightarrow>
        \<exists>ms'. mexec_list clob cs ms = QNext ms' \<and> ra_sim vi X (vregs ra1) qs ms' \<and> (\<forall>p\<in>- {p}. m_regs ms' p = m_regs ms p)"
      using a(2) unfolding ra_moves_def by blast
    have "\<exists>ms'. mexec_list clob cs ms = QNext ms' \<and> ra_sim vi (X - {?i}) (vregs ?ra) qs ms' \<and> (\<forall>p. mask_Test avoid p \<longrightarrow> m_regs ms' p = m_regs ms p)"
      if sim: "ra_sim vi X (vregs ra) qs ms" for clob qs ms
    proof -
      obtain ms' where m: "mexec_list clob cs ms = QNext ms'" "ra_sim vi X (vregs ra1) qs ms'" "\<forall>q\<in>- {p}. m_regs ms' q = m_regs ms q" using cs(2) [OF sim] by blast
      have "ra_sim vi (X - {?i}) (vregs ?ra) qs ms'" unfolding e(1) using ra_sim_other [OF ra_sim_mono [OF m(2)]] by simp
      then show ?thesis using m a(5) by (metis ComplI singletonD)
    qed
    ultimately show ?thesis using False cs(1) e(3) by (intro exI [of _ p] exI [of _ ?ra] exI [of _ cs]) simp
  qed
qed

text \<open>The write itself.\<close>

lemma vreg_val_write:
  assumes vi: "info_ok vi" and r: "unat r < NumAll vi" and w: "write_vreg (glob_info vi) r v qs = Some qs'"
  shows "vreg_val vi qs' (unat r) = v" and "j < NumAll vi \<Longrightarrow> j \<noteq> unat r \<Longrightarrow> vreg_val vi qs' j = vreg_val vi qs j"
    and "qmem qs' = qmem qs" and "cpu_rest (qcpu qs') = cpu_rest (qcpu qs)"
    and "(\<And>i. i < NumGlobals vi \<Longrightarrow> k \<noteq> goffs vi i) \<Longrightarrow> state_read (qcpu qs') k = state_read (qcpu qs) k"
proof -
  have n: "NumAll vi \<le> 255" "offs_distinct (glob_info vi)" using vi by (simp_all add: info_ok_def)
  show "vreg_val vi qs' (unat r) = v" using write_vreg_facts(1) [OF w] read_vreg_val [OF vi r, of qs'] by simp
  show "vreg_val vi qs' j = vreg_val vi qs j" if j: "j < NumAll vi" "j \<noteq> unat r"
  proof -
    have u: "unat (of_nat j :: RegN) = j" using j(1) n(1) by (simp add: unsigned_of_nat take_bit_nat_eq_self)
    then have "of_nat j \<noteq> r" using j(2) by auto
    then show ?thesis using write_vreg_facts(4) [OF w n(2), of "of_nat j"] read_vreg_val [OF vi, of "of_nat j"] j(1) u by simp
  qed
  show "qmem qs' = qmem qs" using write_vreg_facts(5) [OF w] .
  show "cpu_rest (qcpu qs') = cpu_rest (qcpu qs)" using w state_write_rest by (auto simp: write_vreg_def split: option.splits)
  show "state_read (qcpu qs') k = state_read (qcpu qs) k" if k: "\<And>i. i < NumGlobals vi \<Longrightarrow> k \<noteq> goffs vi i"
  proof (cases "GetStateReg (glob_info vi) r")
    case None
    then show ?thesis using w by (auto simp: write_vreg_def)
  next
    case (Some sr)
    then have "unat r < NumGlobals vi" "goffs vi (unat r) = state_offs sr"
      by (auto simp: GetStateReg_def goffs_def NumGlobals_def si_n_regs_def split: if_splits)
    then have "k \<noteq> state_offs sr" using k [of "unat r"] by simp
    then show ?thesis using Some w state_read_write(2) by (auto simp: write_vreg_def)
  qed
qed

lemma write_reg_sim:
  assumes vi: "info_ok vi" and inv: "ra_inv vi (insert (unat r) X) ra" and f: "fresh_reg ra (unat r) p" and d: "view_of d = VVirt t r" "out_ok vi d"
    and sim: "ra_sim vi (X - {unat r}) (vregs ra) qs ms" and w: "write_op (glob_info vi) d v qs = Some qs'"
  shows "\<exists>ms'. mwrite (MakePGPR t p) v ms = Some ms' \<and> ra_sim vi (insert (unat r) X) (vregs ra) qs' ms'"
proof -
  let ?i = "unat r" and ?ms = "ms\<lparr>m_regs := (m_regs ms)(p := vmerge t (m_regs ms p) v)\<rparr>"
  have i: "?i < NumAll vi" "t = type_of vi ?i" using d by (simp_all add: out_ok_def)
  have len: "length (vregs ra) = NumAll vi" using inv_length [OF inv] .
  have fr: "rt_loc (vregs ra ! ?i) = LREG" "rt_p (vregs ra ! ?i) = p" "\<not> spill_synced (vregs ra ! ?i)" using f by (simp_all add: fresh_reg_def)
  have p: "unat p < 16" "p2v ra p = Some ?i" using regs_okD(1,3) [OF ra_invD(2) [OF inv], of ?i] i(1) len fr by simp_all
  have rt: "rt_type (vregs ra ! ?i) = t" using track_type_of [OF inv i(1)] i(2) by simp
  obtain x where x: "write_vreg (glob_info vi) r x qs = Some qs'" "vtrunc t x = vtrunc t v"
    using w d(1) by (auto simp: write_op_def bind_eq_Some_conv split: if_splits)
  note q = vreg_val_write [OF vi i(1) x(1)]
  have "ra_sim vi (insert ?i X) (vregs ra) qs' ?ms"
  proof (rule ra_simI)
    fix j assume j: "j \<in> insert ?i X" "j < NumAll vi"
    show "holds ?ms (vregs ra ! j) (vreg_val vi qs' j)"
    proof (cases "j = ?i")
      case True
      then show ?thesis using fr rt q(1) x(2) by (simp add: holds_def)
    next
      case False
      have "rt_p (vregs ra ! j) \<noteq> p" if "rt_loc (vregs ra ! j) = LREG" using regs_okD(3) [OF ra_invD(2) [OF inv], of j] j(2) len that p(2) False by auto
      moreover have "slot_has ?ms v x = slot_has ms v x" for v x using mread_slot_cong [of ?ms ms v] by (simp add: slot_has_def)
      ultimately show ?thesis using ra_simD(1) [OF sim, of j] q(2) [OF j(2) False] j False by (simp add: holds_def)
    qed
  qed (use ra_simD(2-4) [OF sim] q(3-5) in auto)
  then show ?thesis using p(1) by simp
qed

lemma write_slot_sim:
  assumes vi: "info_ok vi" and inv: "ra_inv vi X ra" and d: "view_of d = VSlot True I32 128"
    and sim: "ra_sim vi X (vregs ra) qs ms" and w: "write_op (glob_info vi) d v qs = Some qs'"
  shows "\<exists>ms'. mwrite d v ms = Some ms' \<and> ra_sim vi X (vregs ra) qs' ms'"
proof -
  obtain c where c: "state_write 128 v (qcpu qs) = Some c" "qs' = qs\<lparr>qcpu := c\<rparr>" using w d by (auto simp: write_op_def)
  obtain c' where c': "state_write 128 v (m_cpu ms) = Some c'" using state_read_ok(2) [of 128] by (auto simp: offs_ok_def)
  note r = state_read_write(1,2) [OF c(1)] state_read_write(1,2) [OF c']
  have len: "length (vregs ra) = NumAll vi" using inv_length [OF inv] .
  have "ra_sim vi X (vregs ra) qs' (ms\<lparr>m_cpu := c'\<rparr>)"
  proof (rule ra_simI)
    fix j assume j: "j \<in> X" "j < NumAll vi"
    note h = ra_simD(1) [OF sim j] and tr = inv_track [OF inv j(2)]
    show "holds (ms\<lparr>m_cpu := c'\<rparr>) (vregs ra ! j) (vreg_val vi qs' j)"
    proof (cases "j < NumGlobals vi")
      case False
      then show ?thesis using h tr c(2) by (simp add: holds_def slot_has_def vreg_val_def track_ok_def slot_op_def mread_def)
    next
      case True
      then have g: "slot_has m (vregs ra ! j) x \<longleftrightarrow> state_read (m_cpu m) (goffs vi j) = Some x" for m x
        using tr by (simp add: slot_has_def slot_op_def mread_def track_ok_def)
      show ?thesis
      proof (cases "goffs vi j = 128")
        case t: True
        have "rt_loc (vregs ra ! j) = LMEM" using tracks_okD(4) [OF ra_invD(1) [OF inv], of j] t True j(2) by (simp add: ip_reg_def)
        then show ?thesis using r(1,3) True t c(2) by (simp add: holds_def g vreg_val_def)
      next
        case f: False
        have "state_read c (goffs vi j) = state_read (qcpu qs) (goffs vi j)" "state_read c' (goffs vi j) = state_read (m_cpu ms) (goffs vi j)"
          using r(2,4) f by simp_all
        then show ?thesis using h True c(2) by (simp add: holds_def g vreg_val_def)
      qed
    qed
  next
    fix k assume k: "\<And>i. i < NumGlobals vi \<Longrightarrow> k \<noteq> goffs vi i"
    show "state_read (m_cpu (ms\<lparr>m_cpu := c'\<rparr>)) k = state_read (qcpu qs') k"
      using ra_simD(4) [OF sim k] r c(2) by (cases "k = 128") simp_all
  qed (use ra_simD(2,3) [OF sim] c state_write_rest [OF c(1)] state_write_rest [OF c'] in simp_all)
  then show ?thesis using d c' by (simp add: mwrite_def)
qed

section \<open>The operands of an instruction\<close>

definition out_regs :: "VOperand list \<Rightarrow> nat list" where
  "out_regs ds = concat (map (\<lambda>d. case view_of d of VVirt t r \<Rightarrow> [unat r] | _ \<Rightarrow> []) ds)"

text \<open>The instruction can write its outputs, and then the states are related again.\<close>

definition ops_ready :: "VRegsInfo \<Rightarrow> nat set \<Rightarrow> VOperand list \<Rightarrow> VOperand list \<Rightarrow> QRegAlloc \<Rightarrow> qstate \<Rightarrow> mstate \<Rightarrow> bool" where
  "ops_ready vi X outs dstl ra qs ms \<longleftrightarrow> m_mem ms = qmem qs \<and> (outs = [] \<longrightarrow> ra_sim vi X (vregs ra) qs ms) \<and>
     (\<forall>d v qs'. outs = [d] \<and> write_op (glob_info vi) d v qs = Some qs' \<longrightarrow>
        (\<exists>ms'. mwrite (hd dstl) v ms = Some ms' \<and> ra_sim vi (X \<union> set (out_regs outs)) (vregs ra) qs' ms'))"

definition out_alloc :: "RAOpCt \<Rightarrow> QRegAlloc \<Rightarrow> VOperand \<Rightarrow> VOperand \<Rightarrow> bool" where
  "out_alloc ct ra d d' \<longleftrightarrow>
     (case view_of d of
        VVirt t r \<Rightarrow> \<exists>p. d' = MakePGPR t p \<and> unat p < 16 \<and> \<not> mask_Test GPR_FIXED p \<and> (ct_has_alias ct \<longrightarrow> p = rt_p (vregs ra ! unat r))
      | _ \<Rightarrow> d' = d)"

lemma fresh_reg_bounds:
  assumes "ra_inv vi X ra" and "i < NumAll vi" and "fresh_reg ra i p"
  shows "unat p < 16" and "\<not> mask_Test GPR_FIXED p"
  using regs_okD(1,2) [OF ra_invD(2) [OF assms(1)], of i] inv_length [OF assms(1)] assms(2,3) by (auto simp: fresh_reg_def)

lemma alloc_outputs_ok:
  assumes vi: "info_ok vi" and inv: "ra_inv vi X ra" and av: "avoids_fixed avoid" "0 < length (free_regs avoid)"
    and outs: "outs = [] \<or> (\<exists>d. outs = [d] \<and> out_ok vi d \<and> ct_cr (op_ct ! 0) = 0xffff)"
    and al: "\<forall>d t r. outs = [d] \<and> view_of d = VVirt t r \<and> ct_has_alias (op_ct ! 0) \<longrightarrow> rt_loc (vregs ra ! unat r) = LREG"
  shows "\<exists>dstl avoid' ra' cs. alloc_outputs op_ct [0..<length outs] outs avoid ra = Inr (dstl, avoid', ra') \<and> length dstl = length outs \<and>
    ra_inv vi (X \<union> set (out_regs outs)) ra' \<and> ra_pre ra' = ra_pre ra @ cs \<and> (outs \<noteq> [] \<longrightarrow> out_alloc (op_ct ! 0) ra (hd outs) (hd dstl)) \<and>
    (\<forall>clob qs ms. ra_sim vi X (vregs ra) qs ms \<longrightarrow>
       (\<exists>ms'. mexec_list clob cs ms = QNext ms' \<and> ops_ready vi X outs dstl ra' qs ms' \<and> (\<forall>p. mask_Test avoid p \<longrightarrow> m_regs ms' p = m_regs ms p)))"
proof -
  consider (n) "outs = []" | (s) d where "outs = [d]" "view_of d = VSlot True I32 128" "out_ok vi d"
    | (v) d t r where "outs = [d]" "view_of d = VVirt t r" "out_ok vi d" "ct_cr (op_ct ! 0) = 0xffff"
    using outs by (cases outs; cases "view_of (hd outs)") (auto simp: out_ok_def)
  then show ?thesis
  proof cases
    case n
    then show ?thesis using inv ra_simD(2) by (intro exI [of _ "[]"] exI [of _ avoid] exI [of _ ra]) (auto simp: ops_ready_def out_regs_def)
  next
    case s
    then have "\<not> IsVGPR d" using is_view(1) by auto
    then have "alloc_outputs op_ct [0..<length outs] outs avoid ra = Inr ([d], avoid, ra)" using s(1) by (simp add: alloc_output_def)
    moreover have "ops_ready vi X outs [d] ra qs ms" if sim: "ra_sim vi X (vregs ra) qs ms" for qs ms
      using s write_slot_sim [OF vi inv s(2) sim] ra_simD(2) [OF sim] by (simp add: ops_ready_def out_regs_def)
    ultimately show ?thesis using s inv
      by (intro exI [of _ "[d]"] exI [of _ avoid] exI [of _ ra] exI [of _ "[]"]) (simp add: out_alloc_def out_regs_def)
  next
    case v
    obtain p ra' cs where a: "alloc_output (op_ct ! 0) d avoid ra = Inr (MakePGPR t p, mask_Set p avoid, ra')" "ra_inv vi (insert (unat r) X) ra'"
        "fresh_reg ra' (unat r) p" "ct_has_alias (op_ct ! 0) \<longrightarrow> p = rt_p (vregs ra ! unat r)" "ra_pre ra' = ra_pre ra @ cs"
        "\<And>clob qs ms. ra_sim vi X (vregs ra) qs ms \<Longrightarrow>
          \<exists>ms'. mexec_list clob cs ms = QNext ms' \<and> ra_sim vi (X - {unat r}) (vregs ra') qs ms' \<and> (\<forall>p. mask_Test avoid p \<longrightarrow> m_regs ms' p = m_regs ms p)"
      using alloc_output_ok [OF vi inv av v(4,2,3)] al v(1,2) by blast
    have r: "out_regs outs = [unat r]" using v by (simp add: out_regs_def)
    have "unat r < NumAll vi" using v(2,3) by (simp add: out_ok_def)
    note b = fresh_reg_bounds [OF a(2) this a(3)]
    have "ops_ready vi X outs [MakePGPR t p] ra' qs ms" if "ra_sim vi (X - {unat r}) (vregs ra') qs ms" for qs ms
      using write_reg_sim [OF vi a(2,3) v(2,3) that] ra_simD(2) [OF that] v(1) r by (simp add: ops_ready_def del: mwrite_reg)
    then show ?thesis using a v r b
      by (intro exI [of _ "[MakePGPR t p]"] exI [of _ "mask_Set p avoid"] exI [of _ ra'] exI [of _ cs]) (fastforce simp: out_alloc_def)
  qed
qed

text \<open>The table of constraints suits the pass: the inputs' order covers them, the most constrained is first, and
  an output takes any register or that of an input without constraint.\<close>

definition plan_ok :: "instc \<Rightarrow> RAOpCt list \<Rightarrow> nat list \<Rightarrow> bool" where
  "plan_ok c op_ct ord \<longleftrightarrow>
     (let dn = length (outputs c); n = length (inputs c) in
      dn \<le> 1 \<and> n \<le> 2 \<and> take dn ord = [0..<dn] \<and> distinct (drop dn ord) \<and> set (drop dn ord) = {0..<n} \<and> feasible op_ct dn (drop dn ord) GPR_FIXED \<and>
      (dn = 1 \<longrightarrow> ct_cr (op_ct ! 0) = 0xffff) \<and>
      (\<forall>i<n. ct_has_alias (op_ct ! (dn + i)) \<longrightarrow> dn = 1 \<and> ct_alias (op_ct ! (dn + i)) = 0 \<and> ct_has_alias (op_ct ! 0) \<and> ct_cr (op_ct ! (dn + i)) = 0xffff) \<and>
      (dn = 1 \<and> ct_has_alias (op_ct ! 0) \<longrightarrow> (\<exists>k<n. ct_cr (op_ct ! (1 + k)) = 0xffff \<and> ct_has_alias (op_ct ! (1 + k)) \<and> ct_alias (op_ct ! (1 + k)) = 0)))"

fun op_typed :: "instc \<Rightarrow> bool" where
  "op_typed (InstUnop op d s) \<longleftrightarrow> op = q_mov"
| "op_typed (InstBinop op d a b) \<longleftrightarrow> InstBinop_HasOpcode op"
| "op_typed _ \<longleftrightarrow> True"

lemma feasible_head:
  assumes "\<forall>i\<in>set ord. ct_cr (op_ct ! (dn + i)) = 0xffff" and "length ord \<le> 12" and "ct_cr (op_ct ! (dn + i)) \<in> {2, 0x40, 0xffff}"
  shows "feasible op_ct dn (i # ord) GPR_FIXED"
proof -
  have "unat (1 :: RegN) < 16 \<and> mask_Test 2 (1 :: RegN) \<and> \<not> mask_Test GPR_FIXED (1 :: RegN)" "mask_Test 0xffff (1 :: RegN)" "unat (6 :: RegN) < 16 \<and> mask_Test 0x40 (6 :: RegN) \<and> \<not> mask_Test GPR_FIXED (6 :: RegN)"
    by code_simp+
  then have "\<exists>q. unat q < 16 \<and> mask_Test (ct_cr (op_ct ! (dn + i))) q \<and> \<not> mask_Test GPR_FIXED q" using assms(3) by (metis insertE singletonD)
  then show ?thesis using assms(1,2) free_regs_fixed unfolding feasible_def avoids_fixed_def by simp
qed

lemma plan_table:
  assumes "ra_info (GetOpcode c) = Some (op_ct, ord)" and "op_typed c"
  shows "plan_ok c op_ct ord"
proof (cases c)
  case (InstBinop op d a b)
  then have "InstBinop_HasOpcode op" using assms(2) by simp
  then show ?thesis using InstBinop assms(1)
    by (cases op) (auto simp: plan_ok_def ct_values All_less_Suc2 Ex_less_Suc2 make_def_def SetAlias_def Let_def InstBinop_HasOpcode_def intro!: feasible_head)
qed (use assms in \<open>auto simp: plan_ok_def ct_values All_less_Suc2 Ex_less_Suc2 make_def_def Let_def intro!: feasible_head\<close>)

text \<open>What the pass requires of an instruction, and what it leaves of it.\<close>

definition inst_ok :: "VRegsInfo \<Rightarrow> nat set \<Rightarrow> instc \<Rightarrow> bool" where
  "inst_ok vi X c \<longleftrightarrow> op_typed c \<and> (\<forall>v\<in>set (inputs c). in_ok vi X v) \<and> (\<forall>d\<in>set (outputs c). out_ok vi d)"

definition allocated :: "instc \<Rightarrow> bool" where
  "allocated c \<longleftrightarrow>
     (case ra_info (GetOpcode c) of
        None \<Rightarrow> True
      | Some (op_ct, _) \<Rightarrow>
          (\<forall>i<length (inputs c). let ct = op_ct ! (length (outputs c) + i) in
             (\<exists>k. GetConst (inputs c ! i) = Inr k \<and> ct_ci ct \<noteq> Imm_NO \<and> match_gp_const (ucast k) (ct_ci ct)) \<or>
             (\<exists>t p. view_of (inputs c ! i) = VPhys t p \<and> unat p < 16 \<and> mask_Test (ct_cr ct) p \<and> \<not> mask_Test GPR_FIXED p \<and>
                (ct_has_alias ct \<longrightarrow> (\<exists>t'. view_of (outputs c ! ct_alias ct) = VPhys t' p)))) \<and>
          (\<forall>d\<in>set (outputs c). (\<exists>t p. view_of d = VPhys t p \<and> unat p < 16 \<and> \<not> mask_Test GPR_FIXED p) \<or> (\<exists>g t k. view_of d = VSlot g t k)))"

lemma set_operands:
  assumes "length srcl = length (inputs c)" and "length dstl = length (outputs c)" and "\<forall>h a. c \<noteq> InstHcall h a"
  shows "inputs (set_outputs dstl (set_inputs srcl c)) = srcl" and "outputs (set_outputs dstl (set_inputs srcl c)) = dstl"
    and "GetOpcode (set_outputs dstl (set_inputs srcl c)) = GetOpcode c"
  using assms by (cases c; auto simp: length_Suc_conv numeral_2_eq_2)+

lemma sync_step:
  assumes "info_ok vi" and "ra_inv vi X ra"
  shows "\<exists>ra'. (if b then sync_globals ra else Inr ra) = Inr ra' \<and> ra_moves vi X UNIV ra ra'"
  using sync_globals_ok [OF assms] ra_moves_refl [OF assms(2)] by auto

lemma AllocOp_ok:
  assumes vi: "info_ok vi" and inv: "ra_inv vi X ra" and info: "ra_info (GetOpcode c) = Some (op_ct, ord)" and ok: "inst_ok vi X c" "selected c"
    and nh: "\<forall>h a. c \<noteq> InstHcall h a"
  shows "\<exists>srcl dstl ra' cs. AllocOp c ra = Inr (set_outputs dstl (set_inputs srcl c), ra') \<and> length srcl = length (inputs c) \<and> length dstl = length (outputs c) \<and>
    ra_inv vi (X \<union> set (out_regs (outputs c))) ra' \<and> allocated (set_outputs dstl (set_inputs srcl c)) \<and> ra_pre ra' = ra_pre ra @ cs \<and>
    (\<forall>clob qs ms. ra_sim vi X (vregs ra) qs ms \<longrightarrow>
       (\<exists>ms'. mexec_list clob cs ms = QNext ms' \<and> ops_ready vi X (outputs c) dstl ra' qs ms' \<and> (\<forall>i<length srcl. op_at vi (inputs c ! i) (srcl ! i) qs ms')))"
proof -
  let ?dn = "length (outputs c)" and ?n = "length (inputs c)" and ?ord = "drop (length (outputs c)) ord"
  have plan: "plan_ok c op_ct ord" using plan_table [OF info] ok(1) by (simp add: inst_ok_def)
  have pl: "?dn \<le> 1" "?n \<le> 2" "take ?dn ord = [0..<?dn]" "distinct ?ord" "set ?ord = {0..<?n}" "feasible op_ct ?dn ?ord GPR_FIXED" "?dn = 1 \<Longrightarrow> ct_cr (op_ct ! 0) = 0xffff"
      "\<And>i. i < ?n \<Longrightarrow> ct_has_alias (op_ct ! (?dn + i)) \<Longrightarrow> ?dn = 1 \<and> ct_alias (op_ct ! (?dn + i)) = 0 \<and> ct_has_alias (op_ct ! 0) \<and> ct_cr (op_ct ! (?dn + i)) = 0xffff"
      "?dn = 1 \<Longrightarrow> ct_has_alias (op_ct ! 0) \<Longrightarrow> \<exists>k<?n. ct_cr (op_ct ! (1 + k)) = 0xffff \<and> ct_has_alias (op_ct ! (1 + k)) \<and> ct_alias (op_ct ! (1 + k)) = 0"
    using plan unfolding plan_ok_def Let_def by blast+
  have io: "\<forall>i<?n. in_ok vi X (inputs c ! i)" "\<forall>d\<in>set (outputs c). out_ok vi d" "meets_ct op_ct (outputs c) (inputs c)"
    using ok info by (simp_all add: inst_ok_def selected_def)
  have olen: "length ?ord = ?n" using distinct_card [OF pl(4)] pl(5) by simp
  obtain srcl avoid ra1 where a: "alloc_inputs op_ct ?dn ?ord (inputs c) GPR_FIXED ra = Inr (srcl, avoid, ra1)" "length srcl = ?n"
      "ra_moves vi X {p. mask_Test GPR_FIXED p} ra ra1" "mask_le GPR_FIXED avoid" "length (free_regs GPR_FIXED) \<le> length ?ord + length (free_regs avoid)"
      "\<And>i. i < ?n \<Longrightarrow> yields vi X ra ra1 (op_at vi (inputs c ! i) (srcl ! i)) \<and> in_alloc (op_ct ! (?dn + i)) (inputs c ! i) (srcl ! i) \<and> held avoid (srcl ! i) \<and>
         (ct_cr (op_ct ! (?dn + i)) = 0xffff \<longrightarrow> own_reg ra1 (inputs c ! i) (srcl ! i))"
    using alloc_inputs_ok [OF vi inv pl(4) _ pl(6), of "inputs c"] io(1) unfolding pl(5) by (auto simp: atLeast0LessThan)
  obtain ra2 where s: "(if GetOpFlags (GetOpcode c) AND Inst_SIDEEFF \<noteq> 0 then sync_globals ra1 else Inr ra1) = Inr ra2" "ra_moves vi X UNIV ra1 ra2"
    using sync_step [OF vi ra_moves_inv [OF a(3)]] by blast
  have y: "yields vi X ra ra2 (op_at vi (inputs c ! i) (srcl ! i))" if i: "i < ?n" for i
    using yields_keep [OF a(3) s(2)] a(6) [OF i] op_at_keep by blast
  have own: "own_reg ra2 (inputs c ! i) (srcl ! i)" if i: "i < ?n" "ct_cr (op_ct ! (?dn + i)) = 0xffff" for i
    using own_reg_keep [OF _ _ _ ra_moves_mono [OF s(2)]] a(6) [OF i(1)] i io(1) by blast
  have m: "ra_moves vi X {} ra ra2" using ra_moves_trans [OF ra_moves_mono [OF a(3)] ra_moves_mono [OF s(2)]] by blast
  have outs: "outputs c = [] \<or> (\<exists>d. outputs c = [d] \<and> out_ok vi d \<and> ct_cr (op_ct ! 0) = 0xffff)"
    using pl(1,7) io(2) by (cases "outputs c") auto
  have same: "\<exists>t'. view_of (inputs c ! k) = VVirt t' r" if "outputs c = [d]" "view_of d = VVirt t r" "k < ?n" "ct_has_alias (op_ct ! (1 + k))" for k d t r
    using io(3) that pl(8) [of k] same_vgpr_view [OF that(2)] by (auto simp: meets_ct_def Let_def)
  have al: "rt_loc (vregs ra2 ! unat r) = LREG" if h: "outputs c = [d]" "view_of d = VVirt t r" "ct_has_alias (op_ct ! 0)" for d t r
  proof -
    obtain k where k: "k < ?n" "ct_cr (op_ct ! (1 + k)) = 0xffff" "ct_has_alias (op_ct ! (1 + k))" using pl(9) h(1,3) by auto
    then show ?thesis using own [of k] same [OF h(1,2) k(1,3)] h(1) by (auto simp: own_reg_def)
  qed
  have av: "avoids_fixed avoid" using a(4) by (simp add: avoids_fixed_def mask_le_def)
  have fr: "0 < length (free_regs avoid)" using a(5) free_regs_fixed olen pl(2) by linarith
  obtain dstl avoid' ra' cs2 where o: "alloc_outputs op_ct [0..<?dn] (outputs c) avoid ra2 = Inr (dstl, avoid', ra')" "length dstl = ?dn"
      "ra_inv vi (X \<union> set (out_regs (outputs c))) ra'" "ra_pre ra' = ra_pre ra2 @ cs2" "outputs c \<noteq> [] \<longrightarrow> out_alloc (op_ct ! 0) ra2 (hd (outputs c)) (hd dstl)"
      "\<And>clob qs ms. ra_sim vi X (vregs ra2) qs ms \<Longrightarrow>
       \<exists>ms'. mexec_list clob cs2 ms = QNext ms' \<and> ops_ready vi X (outputs c) dstl ra' qs ms' \<and> (\<forall>p. mask_Test avoid p \<longrightarrow> m_regs ms' p = m_regs ms p)"
    using alloc_outputs_ok [OF vi ra_moves_inv [OF m] av fr outs] al by blast
  obtain cs1 where cs1: "ra_pre ra2 = ra_pre ra @ cs1" "\<And>clob qs ms. ra_sim vi X (vregs ra) qs ms \<Longrightarrow> \<exists>ms'. mexec_list clob cs1 ms = QNext ms' \<and> ra_sim vi X (vregs ra2) qs ms'"
    using m unfolding ra_moves_def by blast
  let ?c = "set_outputs dstl (set_inputs srcl c)"
  have "AllocOp c ra = Inr (?c, ra')" using info a(1) s(1) o(1) pl(3) by (simp add: AllocOp_def Let_def)
  moreover have "\<exists>ms'. mexec_list clob (cs1 @ cs2) ms = QNext ms' \<and> ops_ready vi X (outputs c) dstl ra' qs ms' \<and> (\<forall>i<length srcl. op_at vi (inputs c ! i) (srcl ! i) qs ms')"
    if sim: "ra_sim vi X (vregs ra) qs ms" for clob qs ms
  proof -
    obtain ms1 where m1: "mexec_list clob cs1 ms = QNext ms1" "ra_sim vi X (vregs ra2) qs ms1" using cs1(2) [OF sim] by blast
    obtain ms2 where m2: "mexec_list clob cs2 ms1 = QNext ms2" "ops_ready vi X (outputs c) dstl ra' qs ms2" "\<forall>p. mask_Test avoid p \<longrightarrow> m_regs ms2 p = m_regs ms1 p"
      using o(6) [OF m1(2)] by blast
    have "op_at vi (inputs c ! i) (srcl ! i) qs ms2" if "i < length srcl" for i
    proof -
      have i: "i < ?n" using that a(2) by simp
      have "op_at vi (inputs c ! i) (srcl ! i) qs ms1" using y [OF i] cs1(1) sim m1(1) unfolding yields_def by blast
      then show ?thesis using op_at_keep a(6) [OF i] m2(3) by blast
    qed
    then show ?thesis using m1(1) m2(1,2) by simp
  qed
  moreover have "allocated ?c"
  proof -
    have "(\<exists>k. GetConst (srcl ! i) = Inr k \<and> ct_ci ct \<noteq> Imm_NO \<and> match_gp_const (ucast k) (ct_ci ct)) \<or>
        (\<exists>t p. view_of (srcl ! i) = VPhys t p \<and> unat p < 16 \<and> mask_Test (ct_cr ct) p \<and> \<not> mask_Test GPR_FIXED p \<and>
          (ct_has_alias ct \<longrightarrow> (\<exists>t'. view_of (dstl ! ct_alias ct) = VPhys t' p)))" if i: "i < ?n" and ct: "ct = op_ct ! (?dn + i)" for i ct
    proof -
      consider (k) "srcl ! i = inputs c ! i" "IsConst (inputs c ! i)"
        | (v) t r p where "view_of (inputs c ! i) = VVirt t r" "srcl ! i = MakePGPR t p" "unat p < 16" "mask_Test (ct_cr ct) p" "\<not> mask_Test GPR_FIXED p"
        using a(6) [OF i] ct unfolding in_alloc_def by blast
      then show ?thesis
      proof cases
        case k
        then show ?thesis using io(3) i ct is_view(2,4) [of "inputs c ! i"] by (auto simp: meets_ct_def Let_def)
      next
        case v
        have "\<exists>t'. view_of (dstl ! ct_alias ct) = VPhys t' p" if h: "ct_has_alias ct"
        proof -
          have g: "?dn = 1" "ct_alias ct = 0" "ct_has_alias (op_ct ! 0)" "ct_cr ct = 0xffff" using pl(8) [OF i h [unfolded ct]] unfolding ct by blast+
          obtain d where d: "outputs c = [d]" using g(1) by (auto simp: length_Suc_conv)
          have "same_vgpr (inputs c ! i) d" using io(3) i ct h g(2) d by (auto simp: meets_ct_def Let_def)
          then obtain t' where t: "view_of d = VVirt t' r" unfolding same_vgpr_def using is_view(3) v(1) by metis
          have "own_reg ra2 (inputs c ! i) (srcl ! i)" using own [OF i] g(4) ct by simp
          then have "MakePGPR t p = MakePGPR t (rt_p (vregs ra2 ! unat r))" using v(1,2) unfolding own_reg_def by metis
          from arg_cong [OF this, of view_of] have "p = rt_p (vregs ra2 ! unat r)" by simp
          then have "hd dstl = MakePGPR t' p" using o(5) d t g(3) by (auto simp: out_alloc_def)
          then show ?thesis using g(2) o(2) g(1) by (cases dstl) auto
        qed
        then show ?thesis using v by simp
      qed
    qed
    moreover have "(\<exists>t p. view_of d' = VPhys t p \<and> unat p < 16 \<and> \<not> mask_Test GPR_FIXED p) \<or> (\<exists>g t k. view_of d' = VSlot g t k)" if e: "d' \<in> set dstl" for d'
    proof -
      obtain d where d: "outputs c = [d]" "dstl = [d']" "out_ok vi d" using e o(2) pl(1) io(2) by (cases dstl; cases "outputs c") auto
      then show ?thesis using o(5) by (cases "view_of d") (auto simp: out_alloc_def out_ok_def)
    qed
    ultimately show ?thesis using info a(2) o(2) set_operands [OF a(2) o(2) nh] by (simp add: allocated_def Let_def)
  qed
  ultimately show ?thesis using a(2) o(2-4) cs1(1)
    by (intro exI [of _ srcl] exI [of _ dstl] exI [of _ ra'] exI [of _ "cs1 @ cs2"]) simp
qed

section \<open>Calls\<close>

lemma call_spills:
  assumes vi: "info_ok vi" and "ra_inv vi X ra"
  shows "\<exists>ra'. ra_loop (\<lambda>p ra. if mask_Test GPR_CALL_CLOBBER p then Spill_p p ra else Inr ra) ps ra = Inr ra' \<and> ra_moves vi X {} ra ra' \<and>
    (\<forall>p. p2v ra p = None \<or> p \<in> set ps \<and> mask_Test GPR_CALL_CLOBBER p \<longrightarrow> p2v ra' p = None)"
  using assms(2)
proof (induction ps arbitrary: ra)
  case Nil
  then show ?case using ra_moves_refl by simp
next
  case (Cons q ps)
  have "\<exists>ra1. (if mask_Test GPR_CALL_CLOBBER q then Spill_p q ra else Inr ra) = Inr ra1 \<and> ra_moves vi X {} ra ra1 \<and>
      (\<forall>p. p2v ra p = None \<or> p = q \<and> mask_Test GPR_CALL_CLOBBER p \<longrightarrow> p2v ra1 p = None)"
    using Spill_p_ok [OF vi Cons.prems, of q] ra_moves_refl [OF Cons.prems] ra_moves_mono by fastforce
  then obtain ra1 where r: "(if mask_Test GPR_CALL_CLOBBER q then Spill_p q ra else Inr ra) = Inr ra1" "ra_moves vi X {} ra ra1"
      "\<forall>p. p2v ra p = None \<or> p = q \<and> mask_Test GPR_CALL_CLOBBER p \<longrightarrow> p2v ra1 p = None" by blast
  from Cons.IH [OF ra_moves_inv [OF r(2)]] obtain ra' where
    s: "ra_loop (\<lambda>p ra. if mask_Test GPR_CALL_CLOBBER p then Spill_p p ra else Inr ra) ps ra1 = Inr ra'" "ra_moves vi X {} ra1 ra'"
      "\<forall>p. p2v ra1 p = None \<or> p \<in> set ps \<and> mask_Test GPR_CALL_CLOBBER p \<longrightarrow> p2v ra' p = None" by blast
  have "\<forall>p. p2v ra p = None \<or> p \<in> set (q # ps) \<and> mask_Test GPR_CALL_CLOBBER p \<longrightarrow> p2v ra' p = None" using r(3) s(3) by auto
  then show ?case using r(1) s(1) ra_moves_trans [OF r(2) s(2)] by (intro exI [of _ ra']) simp
qed

text \<open>With at most 255 tracks the byte that counts them does not wrap around, so the loop ends.\<close>

lemma call_loop_ok:
  assumes vi: "info_ok vi" and "ra_inv vi X ra" and "k \<le> NumAll vi"
  shows "\<exists>ra'. call_loop (of_nat k) ra = Some (Inr ra') \<and> spilled vi X [k..<NumAll vi] ra ra'"
  using assms(2,3)
proof (induction "NumAll vi - k" arbitrary: k ra)
  case 0
  have "unat (of_nat k :: u8) = k" using 0(3) vi by (simp add: unsigned_of_nat take_bit_nat_eq_self info_ok_def)
  then show ?case using 0 inv_length [OF 0(2)] spilled_refl [OF 0(2)] by (subst call_loop.simps) simp
next
  case (Suc n)
  have n: "k < NumAll vi" "NumAll vi \<le> 255" using Suc(2) vi by (simp_all add: info_ok_def)
  have u: "unat (of_nat k :: u8) = k" using n by (simp add: unsigned_of_nat take_bit_nat_eq_self)
  let ?f = "if is_global (vregs ra ! k) then Spill_v k ra else Inr ra"
  obtain ra1 where r: "?f = Inr ra1" "spilled vi X [k] ra ra1" using spilled_one(1,2) [OF vi Suc(3) n(1)] by (cases "is_global (vregs ra ! k)") auto
  have "ra_inv vi X ra1" using r(2) ra_moves_inv unfolding spilled_def by blast
  moreover have "n = NumAll vi - Suc k" using Suc(2) by simp
  ultimately obtain ra' where s: "call_loop (of_nat (Suc k)) ra1 = Some (Inr ra')" "spilled vi X [Suc k..<NumAll vi] ra1 ra'"
    using Suc(1) [of "Suc k" ra1] n(1) by auto
  have "call_loop (of_nat k) ra = Some (Inr ra')"
    using s(1) r(1) u n(1) inv_length [OF Suc(3)] by (subst call_loop.simps) (cases "is_global (vregs ra ! k)"; simp add: add.commute)
  moreover have "spilled vi X [k..<NumAll vi] ra ra'" using spilled_trans [OF r(2) s(2)] n(1) by (simp add: upt_rec)
  ultimately show ?case by blast
qed

definition call_ready :: "VRegsInfo \<Rightarrow> QRegAlloc \<Rightarrow> bool" where
  "call_ready vi ra \<longleftrightarrow> globals_in_mem vi ra \<and> (\<forall>p. mask_Test GPR_CALL_CLOBBER p \<longrightarrow> p2v ra p = None)"

lemma CallOp_ok:
  assumes vi: "info_ok vi" and inv: "ra_inv vi X ra"
  shows "\<exists>ra'. CallOp True ra = Some (Inr ra') \<and> ra_moves vi X {} ra ra' \<and> call_ready vi ra'"
proof -
  obtain ra1 where a: "ra_loop (\<lambda>p ra. if mask_Test GPR_CALL_CLOBBER p then Spill_p p ra else Inr ra) pregs ra = Inr ra1" "ra_moves vi X {} ra ra1"
      "\<And>p. p \<in> set pregs \<Longrightarrow> mask_Test GPR_CALL_CLOBBER p \<Longrightarrow> p2v ra1 p = None"
    using call_spills [OF vi inv, of pregs] by blast
  obtain ra' where b: "call_loop 0 ra1 = Some (Inr ra')" "spilled vi X [0..<NumAll vi] ra1 ra'"
    using call_loop_ok [OF vi ra_moves_inv [OF a(2)], of 0] by auto
  have m: "ra_moves vi X {} ra ra'" using ra_moves_trans [OF a(2)] b(2) by (simp add: spilled_def)
  have "p2v ra' p = None" if "mask_Test GPR_CALL_CLOBBER p" for p
  proof (cases "unat p < 16")
    case True
    then have "p2v ra1 p = None" using a(3) that set_pregs [of p] by simp
    then show ?thesis using b(2) by (simp add: spilled_def)
  next
    case False
    then show ?thesis using regs_okD(1,4,5,6) [OF ra_invD(2) [OF ra_moves_inv [OF m]]] by (metis not_None_eq)
  qed
  moreover have "globals_in_mem vi ra'" using b(2) globals_le [of vi] by (fastforce simp: spilled_def globals_in_mem_def)
  ultimately show ?thesis using a(1) b(1) m by (auto simp: CallOp_def call_ready_def)
qed

text \<open>A byte cannot reach a count above 255: with more tracks the loop runs for ever, even when there is nothing to spill.\<close>

lemma Spill_v_mem:
  assumes "rt_loc (vregs ra ! i) = LMEM"
  shows "\<exists>ra'. Spill_v i ra = Inr ra' \<and> vregs ra' = vregs ra"
proof -
  have "vregs ra ! i = (vregs ra ! i)\<lparr>rt_loc := LMEM\<rparr>" using assms by (cases "vregs ra ! i") simp
  then have "(vregs ra)[i := (vregs ra ! i)\<lparr>rt_loc := LMEM\<rparr>] = vregs ra" by (metis list_update_id)
  then show ?thesis using assms by (auto simp: Spill_v_def SyncSpill_def Release_def upd_track_def Let_def)
qed

lemma call_loop_diverges:
  assumes "255 < length (vregs ra)" and "\<forall>v\<in>set (vregs ra). rt_loc v = LMEM"
  shows "call_loop i ra = None"
proof -
  have "\<not> (255 < length (vregs ra) \<and> (\<forall>v\<in>set (vregs ra). rt_loc v = LMEM))" if "call_loop i ra = Some y" for i ra y
  proof (rule call_loop.raw_induct [OF _ that, where P = "\<lambda>i ra y. \<not> (255 < length (vregs ra) \<and> (\<forall>v\<in>set (vregs ra). rt_loc v = LMEM))"])
    fix loop and i :: u8 and ra y
    assume ih: "\<And>i ra y. loop i ra = Some y \<Longrightarrow> \<not> (255 < length (vregs ra) \<and> (\<forall>v\<in>set (vregs ra). rt_loc v = LMEM))"
      and b: "(if unat i < length (vregs ra)
         then case if is_global (vregs ra ! unat i) then Spill_v (unat i) ra else Inr ra of Inl e \<Rightarrow> Some (Inl e) | Inr ra \<Rightarrow> loop (i + 1) ra
         else Some (Inr ra)) = Some y"
    show "\<not> (255 < length (vregs ra) \<and> (\<forall>v\<in>set (vregs ra). rt_loc v = LMEM))"
    proof
      assume h: "255 < length (vregs ra) \<and> (\<forall>v\<in>set (vregs ra). rt_loc v = LMEM)"
      have n: "unat i < length (vregs ra)" by (rule order_less_le_trans [OF unsigned_less]) (use h in simp)
      obtain ra1 where r: "(if is_global (vregs ra ! unat i) then Spill_v (unat i) ra else Inr ra) = Inr ra1" "vregs ra1 = vregs ra"
        using Spill_v_mem [of ra "unat i"] h n by (cases "is_global (vregs ra ! unat i)") auto
      then have "loop (i + 1) ra1 = Some y" using b n by simp
      from ih [OF this] show False using h r(2) by simp
    qed
  qed
  then show ?thesis using assms by (cases "call_loop i ra") auto
qed

section \<open>The state after a call\<close>

lemma clob_sim:
  assumes inv: "ra_inv vi X ra" and r: "call_ready vi ra" and sim: "ra_sim vi X (vregs ra) qs ms"
  shows "ra_sim vi X (vregs ra) qs (after_call clob ms)"
proof (rule ra_simI)
  fix j assume j: "j \<in> X" "j < NumAll vi"
  have "\<not> mask_Test GPR_CALL_CLOBBER (rt_p (vregs ra ! j))" if "rt_loc (vregs ra ! j) = LREG"
    using regs_okD(3) [OF ra_invD(2) [OF inv], of j] that j(2) inv_length [OF inv] r by (auto simp: call_ready_def)
  moreover have "slot_has (after_call clob ms) v x = slot_has ms v x" for v x
    using mread_slot_cong [of "after_call clob ms" ms v] by (simp add: slot_has_def after_call_def)
  ultimately show "holds (after_call clob ms) (vregs ra ! j) (vreg_val vi qs j)"
    using ra_simD(1) [OF sim j] by (auto simp: holds_def after_call_def)
qed (use ra_simD(2-4) [OF sim] in \<open>auto simp: after_call_def\<close>)

lemma stub_sim:
  assumes vi: "info_ok vi" and inv: "ra_inv vi X ra" and g: "globals_in_mem vi ra" and sim: "ra_sim vi X (vregs ra) qs ms"
  shows "ra_sim vi X (vregs ra) (qs\<lparr>qcpu := c, qmem := m\<rparr>) (ms\<lparr>m_cpu := c, m_mem := m\<rparr>)"
proof (rule ra_simI)
  fix j assume j: "j \<in> X" "j < NumAll vi"
  note h = ra_simD(1) [OF sim j] and tr = inv_track [OF inv j(2)]
  show "holds (ms\<lparr>m_cpu := c, m_mem := m\<rparr>) (vregs ra ! j) (vreg_val vi (qs\<lparr>qcpu := c, qmem := m\<rparr>) j)"
  proof (cases "j < NumGlobals vi")
    case True
    have "state_read c (goffs vi j) = Some (the (state_read c (goffs vi j)))" using state_read_ok(1) [of c "goffs vi j"] goffs_facts(1) [OF vi True] by auto
    then show ?thesis using g True tr by (auto simp: holds_def globals_in_mem_def slot_has_def slot_op_def mread_def track_ok_def vreg_val_def)
  next
    case False
    then show ?thesis using h tr by (simp add: holds_def slot_has_def vreg_val_def track_ok_def slot_op_def mread_def)
  qed
qed simp_all

end
