(* ===== verification/Alloc_Moves.thy ===== *)
theory Alloc_Moves
  imports QRA_Correct
begin

text \<open>
  What the allocator puts in front of an instruction: moves between registers and from and to slots, both operands of one type.
  A slot of the frame lies in it, and no register with a fixed use is written.
\<close>

section \<open>Moves\<close>

definition is_reg :: "VOperand \<Rightarrow> bool" where
  "is_reg v \<longleftrightarrow> (\<exists>t p. view_of v = VPhys t p)"

definition is_slot :: "VOperand \<Rightarrow> bool" where
  "is_slot v \<longleftrightarrow> (\<exists>g t k. view_of v = VSlot g t k)"

definition in_frame :: "VOperand \<Rightarrow> bool" where
  "in_frame v \<longleftrightarrow> (case view_of v of VSlot g t k \<Rightarrow> g \<or> unat k + vsz t \<le> 1024 | _ \<Rightarrow> True)"

definition free_dst :: "VOperand \<Rightarrow> bool" where
  "free_dst v \<longleftrightarrow> (case view_of v of VPhys t p \<Rightarrow> \<not> mask_Test GPR_FIXED p | _ \<Rightarrow> True)"

definition host_mov :: "instc \<Rightarrow> bool" where
  "host_mov c \<longleftrightarrow> (\<exists>d s. c = InstUnop q_mov d s \<and> (is_reg d \<and> (is_reg s \<or> is_slot s) \<or> is_slot d \<and> is_reg s) \<and>
     GetType d = GetType s \<and> GetType s \<noteq> UNDEF \<and> in_frame d \<and> in_frame s \<and> free_dst d)"

text \<open>What emission depends on of an operand: its type, that it lies in the frame, and whether it is a slot.\<close>

definition oshape :: "VOperand \<Rightarrow> VType \<times> bool \<times> bool" where
  "oshape v = (GetType v, in_frame v, is_slot v)"

lemma oshape_reg [simp]: "IsVGPR v \<Longrightarrow> oshape v = (GetType v, True, False)" "oshape (MakePGPR t p) = (t, True, False)"
  by (auto simp: oshape_def in_frame_def is_slot_def is_view(1))

text \<open>Tracks have a type, and their slots are in the frame.\<close>

definition slot_in :: "RTrack \<Rightarrow> bool" where
  "slot_in v \<longleftrightarrow> rt_type v \<noteq> UNDEF \<and> (slotted v \<longrightarrow> unat (spill_offs v) + vsz (rt_type v) \<le> 1024)"

definition slots_in :: "QRegAlloc \<Rightarrow> bool" where
  "slots_in ra \<longleftrightarrow> (\<forall>v\<in>set (vregs ra). slot_in v) \<and> (\<forall>p i. p2v ra p = Some i \<longrightarrow> i < length (vregs ra))"

definition movs :: "QRegAlloc \<Rightarrow> QRegAlloc \<Rightarrow> bool" where
  "movs ra ra' \<longleftrightarrow> (slots_in ra \<longrightarrow> slots_in ra' \<and> length (vregs ra') = length (vregs ra) \<and>
     (\<exists>cs. ra_pre ra' = ra_pre ra @ cs \<and> (\<forall>c\<in>set cs. host_mov c)))"

lemma movs_refl: "movs ra ra"
  by (simp add: movs_def)

lemma movs_trans:
  assumes "movs ra ra1" and "movs ra1 ra2"
  shows "movs ra ra2"
  unfolding movs_def
proof
  assume s: "slots_in ra"
  then obtain cs where a: "slots_in ra1" "length (vregs ra1) = length (vregs ra)" "ra_pre ra1 = ra_pre ra @ cs" "\<forall>c\<in>set cs. host_mov c"
    using assms(1) unfolding movs_def by blast
  obtain ds where b: "slots_in ra2" "length (vregs ra2) = length (vregs ra1)" "ra_pre ra2 = ra_pre ra1 @ ds" "\<forall>c\<in>set ds. host_mov c"
    using assms(2) a(1) unfolding movs_def by blast
  show "slots_in ra2 \<and> length (vregs ra2) = length (vregs ra) \<and> (\<exists>cs. ra_pre ra2 = ra_pre ra @ cs \<and> (\<forall>c\<in>set cs. host_mov c))"
    using a b by (intro conjI exI [of _ "cs @ ds"]) auto
qed

lemma movs_len: "movs ra ra' \<Longrightarrow> slots_in ra \<Longrightarrow> slots_in ra'" "movs ra ra' \<Longrightarrow> slots_in ra \<Longrightarrow> length (vregs ra') = length (vregs ra)"
  by (simp_all add: movs_def)

lemma movs_assume: "(slots_in ra \<Longrightarrow> movs ra ra') \<Longrightarrow> movs ra ra'"
  by (simp add: movs_def)

text \<open>A track changes, but not its slot.\<close>

lemma movs_track:
  assumes "ra_pre ra' = ra_pre ra" and "vregs ra' = (vregs ra)[i := w]" and "i < length (vregs ra) \<Longrightarrow> slot_in (vregs ra ! i) \<Longrightarrow> slot_in w"
    and "\<And>p j. p2v ra' p = Some j \<Longrightarrow> p2v ra p = Some j \<or> j < length (vregs ra)"
  shows "movs ra ra'"
proof (rule movs_assume)
  assume s: "slots_in ra"
  have "slot_in v" if v: "v \<in> set (vregs ra')" for v
  proof (cases "i < length (vregs ra)")
    case True
    then have "slot_in w" using assms(3) s by (simp add: slots_in_def)
    moreover have "v = w \<or> v \<in> set (vregs ra)" using v set_update_subset_insert [of "vregs ra" i w] unfolding assms(2) by blast
    ultimately show ?thesis using s by (auto simp: slots_in_def)
  next
    case False
    then show ?thesis using v s unfolding assms(2) by (simp add: slots_in_def list_update_beyond)
  qed
  then show ?thesis using s assms by (fastforce simp: movs_def slots_in_def)
qed

lemma slot_in_same [simp]:
  "slot_in (v\<lparr>spill_synced := b\<rparr>) = slot_in v" "slot_in (v\<lparr>rt_loc := l\<rparr>) = slot_in v" "slot_in (v\<lparr>rt_p := p\<rparr>) = slot_in v"
  by (simp_all add: slot_in_def slotted_def)

lemma movs_sync [simp]: "movs ra (upd_track i (spill_synced_update (\<lambda>_. b)) ra)"
  by (rule movs_track [where i = i and w = "(vregs ra ! i)\<lparr>spill_synced := b\<rparr>"]) (simp_all add: upd_track_def)

lemma movs_Release [simp]: "movs ra (Release kill i ra)"
  by (rule movs_track [where i = i and w = "(vregs ra ! i)\<lparr>rt_loc := if is_global (vregs ra ! i) then LMEM else if kill then LDEAD else LMEM\<rparr>"])
    (auto simp: Release_fields split: if_splits)

lemma movs_set_reg: "i < length (vregs ra) \<Longrightarrow> movs ra (set_reg i p ra)"
  by (rule movs_track [where i = i and w = "(vregs ra ! i)\<lparr>rt_p := p, rt_loc := LREG\<rparr>"]) (auto simp: set_reg_def upd_track_def split: if_splits)

lemma movs_free: "movs ra (ra\<lparr>p2v := (p2v ra)(p := None)\<rparr>)"
  by (rule movs_track [where i = "length (vregs ra)" and w = undefined]) (auto simp: list_update_beyond split: if_splits)

lemma movs_emit:
  assumes "slots_in ra \<Longrightarrow> host_mov (InstUnop q_mov d s)"
  shows "movs ra (EmitMov d s ra)"
proof (rule movs_assume)
  assume "slots_in ra"
  then show ?thesis using assms by (simp add: movs_def slots_in_def EmitMov_def)
qed

lemma track_in: "slots_in ra \<Longrightarrow> i < length (vregs ra) \<Longrightarrow> slot_in (vregs ra ! i)"
  by (simp add: slots_in_def)

lemma track_ops:
  assumes "slot_in v"
  shows "is_reg (reg_op v)" "is_slot (slot_op v)" "GetType (reg_op v) = rt_type v" "GetType (slot_op v) = rt_type v" "rt_type v \<noteq> UNDEF"
    "in_frame (reg_op v)" "has_slot v \<Longrightarrow> in_frame (slot_op v)" "free_dst (slot_op v)"
  using assms by (auto simp: is_reg_def is_slot_def reg_op_def slot_op_def in_frame_def free_dst_def slot_in_def slotted_def has_slot_def)

lemma AllocFrameSlot_movs:
  assumes "AllocFrameSlot i ra = Inr ra'" and "i < length (vregs ra)"
  shows "movs ra ra'" and "has_slot (vregs ra' ! i)" and "length (vregs ra') = length (vregs ra)"
proof -
  obtain sz where sz: "VTypeToSize (rt_type (vregs ra ! i)) = Inr sz" using assms(1) by (auto simp: AllocFrameSlot_def Let_def split: if_splits)
  define k where "k = (ucast (roundup (ucast (frame_cur ra)) (ucast (ucast sz :: u16))) :: u16)"
  have r: "ra' = (upd_track i (spill_offs_update (\<lambda>_. k)) ra)\<lparr>frame_cur := k + ucast sz\<rparr>" and fit: "unat k + unat (ucast sz :: u16) \<le> 1024"
    using assms(1) sz by (auto simp: AllocFrameSlot_def Let_def k_def spillframe_size_def split: if_splits)
  have "unat (ucast sz :: u16) = vsz (rt_type (vregs ra ! i))" using sz by (cases "rt_type (vregs ra ! i)") auto
  then have f: "unat k + vsz (rt_type (vregs ra ! i)) \<le> 1024" using fit by simp
  show "movs ra ra'"
    by (rule movs_track [where i = i and w = "(vregs ra ! i)\<lparr>spill_offs := k\<rparr>"]) (use f in \<open>simp_all add: r upd_track_def slot_in_def\<close>)
  have "k \<noteq> NO_SPILL" using f NO_SPILL_val by auto
  then show "has_slot (vregs ra' ! i)" using assms(2) by (simp add: r has_slot_def upd_track_def)
  show "length (vregs ra') = length (vregs ra)" by (simp add: r)
qed

lemma SyncSpill_movs:
  assumes "SyncSpill i ra = Inr ra'" and "i < length (vregs ra)"
  shows "movs ra ra'"
proof (cases "spill_synced (vregs ra ! i) \<or> rt_loc (vregs ra ! i) \<noteq> LREG")
  case True
  then show ?thesis using assms by (auto simp: SyncSpill_def Let_def movs_refl split: Location.splits if_splits)
next
  case False
  then obtain ra1 where r: "EmitSpill i ra = Inr ra1" "ra' = upd_track i (spill_synced_update (\<lambda>_. True)) ra1" using assms by (auto simp: SyncSpill_def Let_def)
  obtain ra0 where z: "movs ra ra0" "has_slot (vregs ra0 ! i)" "length (vregs ra0) = length (vregs ra)" "ra1 = EmitMov (slot_op (vregs ra0 ! i)) (reg_op (vregs ra0 ! i)) ra0"
    using r(1) AllocFrameSlot_movs [OF _ assms(2)] movs_refl [of ra] by (auto simp: EmitSpill_def has_slot_def split: if_splits)
  have "movs ra0 ra1" unfolding z(4)
  proof (rule movs_emit)
    assume "slots_in ra0"
    then have "slot_in (vregs ra0 ! i)" using track_in assms(2) z(3) by simp
    then show "host_mov (InstUnop q_mov (slot_op (vregs ra0 ! i)) (reg_op (vregs ra0 ! i)))" using track_ops z(2) by (simp add: host_mov_def)
  qed
  then show ?thesis using movs_trans [OF movs_trans [OF z(1)] movs_sync] r(2) by blast
qed

lemma Spill_movs:
  shows "Spill_v i ra = Inr ra' \<Longrightarrow> i < length (vregs ra) \<Longrightarrow> movs ra ra'" and "Spill_p p ra = Inr ra' \<Longrightarrow> movs ra ra'"
proof -
  show v: "Spill_v i ra = Inr ra' \<Longrightarrow> i < length (vregs ra) \<Longrightarrow> movs ra ra'" for i
    using SyncSpill_movs movs_trans [OF _ movs_Release] by (fastforce simp: Spill_v_def)
  show "Spill_p p ra = Inr ra' \<Longrightarrow> movs ra ra'"
  proof (rule movs_assume)
    assume "Spill_p p ra = Inr ra'" "slots_in ra"
    then show "movs ra ra'" using v movs_refl by (auto simp: Spill_p_def slots_in_def split: option.splits)
  qed
qed

lemma AllocPReg_movs:
  assumes "AllocPReg desire avoid ra = Inr (p, ra')"
  shows "movs ra ra'" and "\<not> mask_Test avoid p" and "unat p < 16"
proof -
  let ?t = "desire AND NOT avoid"
  have "mask_Test ?t p \<and> p \<in> set pregs \<and> (ra' = ra \<or> Spill_p p ra = Inr ra')"
    using assms by (auto simp: AllocPReg_def Let_def find_Some_iff split: option.splits)
  then show "movs ra ra'" "\<not> mask_Test avoid p" "unat p < 16"
    using Spill_movs(2) movs_refl mask_Test_diff [of p desire avoid] set_pregs [of p] by auto
qed

lemma avoids_Set: "avoids_fixed avoid \<Longrightarrow> unat p < 32 \<Longrightarrow> avoids_fixed (mask_Set p avoid)"
  using mask_Test_Set [of p avoid] by (simp add: avoids_fixed_def)

lemma fixed_free: "avoids_fixed avoid \<Longrightarrow> \<not> mask_Test avoid p \<Longrightarrow> \<not> mask_Test GPR_FIXED p"
  by (auto simp: avoids_fixed_def)

lemma Fill_movs:
  assumes "Fill i desire avoid ra = Inr ra'" and "i < length (vregs ra)" and "avoids_fixed avoid"
  shows "movs ra ra'"
proof (cases "rt_loc (vregs ra ! i) = LMEM")
  case True
  then obtain p ra1 where a: "AllocPReg desire avoid ra = Inr (p, ra1)" "EmitFill i (upd_track i (spill_synced_update (\<lambda>_. True)) (set_reg i p ra1)) = Inr ra'"
    using assms by (auto simp: Fill_def)
  let ?ra = "upd_track i (spill_synced_update (\<lambda>_. True)) (set_reg i p ra1)"
  note p = AllocPReg_movs [OF a(1)]
  show ?thesis
  proof (rule movs_assume)
    assume "slots_in ra"
    then have l: "i < length (vregs ra1)" using movs_len(2) [OF p(1)] assms(2) by simp
    have m: "movs ra ?ra" using movs_trans [OF p(1) movs_trans [OF movs_set_reg [OF l] movs_sync]] .
    have e: "ra' = EmitMov (reg_op (vregs ?ra ! i)) (slot_op (vregs ?ra ! i)) ?ra" "has_slot (vregs ?ra ! i)"
      using a(2) by (auto simp: EmitFill_def has_slot_def split: if_splits)
    have r: "rt_p (vregs ?ra ! i) = p" "i < length (vregs ?ra)" using l by (simp_all add: set_reg_def upd_track_def)
    have "movs ?ra ra'" unfolding e(1)
    proof (rule movs_emit)
      assume "slots_in ?ra"
      then have "slot_in (vregs ?ra ! i)" using track_in r(2) by blast
      moreover have "free_dst (reg_op (vregs ?ra ! i))" using fixed_free [OF assms(3) p(2)] r(1) by (simp add: free_dst_def reg_op_def)
      ultimately show "host_mov (InstUnop q_mov (reg_op (vregs ?ra ! i)) (slot_op (vregs ?ra ! i)))" using track_ops e(2) by (simp add: host_mov_def)
    qed
    then show ?thesis using movs_trans [OF m] by blast
  qed
next
  case False
  then show ?thesis using assms movs_refl by (auto simp: Fill_def split: Location.splits)
qed

lemma alloc_input_movs:
  assumes "alloc_input ct opr avoid ra = Inr (opr', avoid', ra')" and "avoids_fixed avoid"
  shows "movs ra ra'" and "avoids_fixed avoid'" and "oshape opr' = oshape opr"
proof -
  have "movs ra ra' \<and> avoids_fixed avoid' \<and> oshape opr' = oshape opr"
  proof (cases "IsVGPR opr")
    case vg: True
    then obtain src ra1 where f: "track_of opr ra = Inr src" "Fill src (ct_cr ct) avoid ra = Inr ra1"
        "(if mask_Test (ct_cr ct) (rt_p (vregs ra1 ! src)) then Inr (MakePGPR (GetType opr) (rt_p (vregs ra1 ! src)), mask_Set (rt_p (vregs ra1 ! src)) avoid, ra1)
          else rbind (AllocPReg (ct_cr ct) avoid ra1) (\<lambda>(p, ra).
            let ra = EmitMov (MakePGPR (rt_type (vregs ra ! src)) p) (MakePGPR (rt_type (vregs ra ! src)) (rt_p (vregs ra ! src))) ra
            in Inr (MakePGPR (GetType opr) p, mask_Set p avoid, ra))) =
         Inr (opr', avoid', ra')"
      using assms(1) by (auto simp: alloc_input_def Let_def)
    have src: "src < length (vregs ra)" using f(1) by (auto simp: track_of_def split: if_splits)
    note m = Fill_movs [OF f(2) src assms(2)]
    show ?thesis
    proof (cases "mask_Test (ct_cr ct) (rt_p (vregs ra1 ! src))")
      case True
      then show ?thesis using f(3) m avoids_Set [OF assms(2) mask_Test_lt [OF True]] oshape_reg(1) [OF vg] by auto
    next
      case False
      then obtain p ra2 where a: "AllocPReg (ct_cr ct) avoid ra1 = Inr (p, ra2)" "opr' = MakePGPR (GetType opr) p" "avoid' = mask_Set p avoid"
          "ra' = EmitMov (MakePGPR (rt_type (vregs ra2 ! src)) p) (MakePGPR (rt_type (vregs ra2 ! src)) (rt_p (vregs ra2 ! src))) ra2"
        using f(3) by (auto simp: Let_def)
      note p = AllocPReg_movs [OF a(1)]
      have "movs ra ra'"
      proof (rule movs_assume)
        assume s: "slots_in ra"
        have m2: "movs ra ra2" using movs_trans [OF m p(1)] .
        have "slot_in (vregs ra2 ! src)" using track_in [OF movs_len(1) [OF m2 s], of src] movs_len(2) [OF m2 s] src by simp
        then have "host_mov (InstUnop q_mov (MakePGPR (rt_type (vregs ra2 ! src)) p) (MakePGPR (rt_type (vregs ra2 ! src)) (rt_p (vregs ra2 ! src))))"
          using fixed_free [OF assms(2) p(2)] by (simp add: host_mov_def is_reg_def in_frame_def free_dst_def slot_in_def)
        then show ?thesis unfolding a(4) using movs_trans [OF m2 movs_emit] by blast
      qed
      then show ?thesis using a(2,3) avoids_Set [OF assms(2), of p] p(3) oshape_reg(1) [OF vg] by simp
    qed
  qed (use assms movs_refl in \<open>auto simp: alloc_input_def\<close>)
  then show "movs ra ra'" "avoids_fixed avoid'" "oshape opr' = oshape opr" by simp_all
qed

lemma types_update: "oshape v = oshape (xs ! i) \<Longrightarrow> map oshape (xs[i := v]) = map oshape xs"
  by (metis list_update_id map_update)

lemma alloc_inputs_movs:
  "alloc_inputs op_ct dn ord srcl avoid ra = Inr (srcl', avoid', ra') \<Longrightarrow> avoids_fixed avoid \<Longrightarrow> movs ra ra' \<and> avoids_fixed avoid' \<and> map oshape srcl' = map oshape srcl"
proof (induction ord arbitrary: srcl avoid ra)
  case (Cons i ord)
  then obtain opr avoid1 ra1 where a: "alloc_input (op_ct ! (dn + i)) (srcl ! i) avoid ra = Inr (opr, avoid1, ra1)"
      "alloc_inputs op_ct dn ord (srcl[i := opr]) avoid1 ra1 = Inr (srcl', avoid', ra')" by auto
  note m = alloc_input_movs [OF a(1) Cons.prems(2)]
  show ?case using Cons.IH [OF a(2) m(2)] movs_trans [OF m(1)] types_update [OF m(3)] by simp
qed (simp add: movs_refl)

lemma loop_movs:
  assumes "\<And>i ra ra'. i \<in> set is \<Longrightarrow> length (vregs ra) = n \<Longrightarrow> f i ra = Inr ra' \<Longrightarrow> movs ra ra'" and "length (vregs ra) = n" and "ra_loop f is ra = Inr ra'"
  shows "movs ra ra'"
  using assms
proof (induction "is" arbitrary: ra)
  case (Cons i "is")
  then obtain ra1 where r: "f i ra = Inr ra1" "ra_loop f is ra1 = Inr ra'" by auto
  have m: "movs ra ra1" using Cons.prems(1) [of i ra] Cons.prems(2) r(1) by simp
  show ?case
  proof (rule movs_assume)
    assume "slots_in ra"
    then have "length (vregs ra1) = n" using movs_len(2) [OF m] Cons.prems(2) by simp
    then have "movs ra1 ra'" by (rule Cons.IH [rotated]) (use Cons.prems(1) r(2) in auto)
    then show ?thesis using movs_trans [OF m] by blast
  qed
qed (simp add: movs_refl)

lemma boundary_movs:
  "sync_globals ra = Inr ra' \<Longrightarrow> movs ra ra'" "BlockBoundary ra = Inr ra' \<Longrightarrow> movs ra ra'" "RegionBoundary ra = Inr ra' \<Longrightarrow> movs ra ra'"
  unfolding sync_globals_def BlockBoundary_def RegionBoundary_def
  by (erule loop_movs [rotated 2], use SyncSpill_movs Spill_movs movs_refl in \<open>auto split: if_splits\<close>)+

lemma alloc_output_movs:
  assumes "alloc_output ct opr avoid ra = Inr (opr', avoid', ra')"
  shows "movs ra ra'" and "oshape opr' = oshape opr"
proof -
  have "movs ra ra' \<and> oshape opr' = oshape opr"
  proof (cases "IsVGPR opr")
    case vg: True
    then obtain dst ra1 where d: "track_of opr ra = Inr dst" "opr' = MakePGPR (GetType opr) (rt_p (vregs ra' ! dst))" "ra' = upd_track dst (spill_synced_update (\<lambda>_. False)) ra1"
        "(if ct_has_alias ct then Inr ra
               else rbind (AllocPReg (ct_cr ct) avoid ra) (\<lambda>(p, ra).
                 let v = vregs ra ! dst;
                     ra = (if rt_loc v = LREG then ra\<lparr>p2v := (p2v ra)(rt_p v := None)\<rparr> else ra)
                 in Inr (set_reg dst p ra))) = Inr ra1"
      using assms by (auto simp: alloc_output_def Let_def split del: if_split)
    have l: "dst < length (vregs ra)" using d(1) by (auto simp: track_of_def split: if_splits)
    have "movs ra ra1"
    proof (cases "ct_has_alias ct")
      case True
      then show ?thesis using d(4) movs_refl by simp
    next
      case False
      then obtain p ra2 where a: "AllocPReg (ct_cr ct) avoid ra = Inr (p, ra2)"
          "ra1 = set_reg dst p (if rt_loc (vregs ra2 ! dst) = LREG then ra2\<lparr>p2v := (p2v ra2)(rt_p (vregs ra2 ! dst) := None)\<rparr> else ra2)"
        using d(4) by (auto simp: Let_def split del: if_split)
      note m = AllocPReg_movs(1) [OF a(1)]
      show ?thesis
      proof (rule movs_assume)
        assume "slots_in ra"
        then have l2: "dst < length (vregs ra2)" using movs_len(2) [OF m] l by simp
        let ?ra = "if rt_loc (vregs ra2 ! dst) = LREG then ra2\<lparr>p2v := (p2v ra2)(rt_p (vregs ra2 ! dst) := None)\<rparr> else ra2"
        have "movs ra2 ?ra" using movs_free movs_refl by simp
        moreover have "movs ?ra ra1" unfolding a(2) by (rule movs_set_reg) (use l2 in simp)
        ultimately show ?thesis using movs_trans [OF m movs_trans] by blast
      qed
    qed
    then show ?thesis using movs_trans [OF _ movs_sync] d(2,3) oshape_reg(1) [OF vg] by simp
  qed (use assms movs_refl in \<open>auto simp: alloc_output_def\<close>)
  then show "movs ra ra'" "oshape opr' = oshape opr" by simp_all
qed

lemma alloc_outputs_movs:
  "alloc_outputs op_ct ord dstl avoid ra = Inr (dstl', avoid', ra') \<Longrightarrow> movs ra ra' \<and> map oshape dstl' = map oshape dstl"
proof (induction ord arbitrary: dstl avoid ra)
  case (Cons i ord)
  then obtain opr avoid1 ra1 where a: "alloc_output (op_ct ! i) (dstl ! i) avoid ra = Inr (opr, avoid1, ra1)"
      "alloc_outputs op_ct ord (dstl[i := opr]) avoid1 ra1 = Inr (dstl', avoid', ra')" by auto
  note m = alloc_output_movs [OF a(1)]
  show ?case using Cons.IH [OF a(2)] movs_trans [OF m(1)] types_update [OF m(2)] by simp
qed (simp add: movs_refl)

text \<open>An instruction keeps the types of its operands.\<close>

lemma AllocOp_movs:
  assumes "AllocOp c ra = Inr (c', ra')"
  shows "movs ra ra'" and "\<exists>srcl dstl. c' = set_outputs dstl (set_inputs srcl c) \<and> map oshape srcl = map oshape (inputs c) \<and> map oshape dstl = map oshape (outputs c)"
proof -
  obtain op_ct ord srcl avoid ra1 ra2 dstl avoid' where
    a: "alloc_inputs op_ct (length (outputs c)) (drop (length (outputs c)) ord) (inputs c) GPR_FIXED ra = Inr (srcl, avoid, ra1)"
      "(if GetOpFlags (GetOpcode c) AND Inst_SIDEEFF \<noteq> 0 then sync_globals ra1 else Inr ra1) = Inr ra2"
      "alloc_outputs op_ct (take (length (outputs c)) ord) (outputs c) avoid ra2 = Inr (dstl, avoid', ra')" "c' = set_outputs dstl (set_inputs srcl c)"
    using assms by (auto simp: AllocOp_def Let_def split: option.splits)
  have "movs ra1 ra2" using a(2) boundary_movs(1) movs_refl by (auto split: if_splits)
  moreover have i: "movs ra ra1" "map oshape srcl = map oshape (inputs c)" using alloc_inputs_movs [OF a(1)] by (simp_all add: avoids_fixed_def)
  moreover have o: "movs ra2 ra'" "map oshape dstl = map oshape (outputs c)" using alloc_outputs_movs [OF a(3)] by simp_all
  ultimately show "movs ra ra'" using movs_trans by blast
  show "\<exists>srcl dstl. c' = set_outputs dstl (set_inputs srcl c) \<and> map oshape srcl = map oshape (inputs c) \<and> map oshape dstl = map oshape (outputs c)"
    using a(4) i(2) o(2) by blast
qed

lemma call_loop_movs:
  assumes "call_loop i ra = Some y"
  shows "\<forall>ra'. y = Inr ra' \<longrightarrow> movs ra ra'"
proof (rule call_loop.raw_induct [OF _ assms, where P = "\<lambda>i ra y. \<forall>ra'. y = Inr ra' \<longrightarrow> movs ra ra'"])
  fix loop and i :: u8 and ra y
  assume ih: "\<And>i ra y. loop i ra = Some y \<Longrightarrow> \<forall>ra'. y = Inr ra' \<longrightarrow> movs ra ra'"
    and b: "(if unat i < length (vregs ra)
         then case if is_global (vregs ra ! unat i) then Spill_v (unat i) ra else Inr ra of Inl e \<Rightarrow> Some (Inl e) | Inr ra \<Rightarrow> loop (i + 1) ra
         else Some (Inr ra)) = Some y"
  let ?f = "if is_global (vregs ra ! unat i) then Spill_v (unat i) ra else Inr ra"
  have f: "movs ra ra1" if "?f = Inr ra1" "unat i < length (vregs ra)" for ra1 using that Spill_movs(1) movs_refl by (auto split: if_splits)
  show "\<forall>ra'. y = Inr ra' \<longrightarrow> movs ra ra'"
  proof (cases "unat i < length (vregs ra)")
    case True
    then show ?thesis using b f ih movs_trans by (cases ?f) (fastforce split: if_splits)+
  qed (use b movs_refl in auto)
qed

lemma visitor_movs:
  assumes "QRegAllocVisitor c ra = Some (Inr (c', ra'))"
  shows "movs ra ra'"
    and "c' = c \<or> (\<exists>srcl dstl. c' = set_outputs dstl (set_inputs srcl c) \<and> map oshape srcl = map oshape (inputs c) \<and> map oshape dstl = map oshape (outputs c))"
proof -
  have "movs ra ra' \<and> (c' = c \<or> (\<exists>srcl dstl. c' = set_outputs dstl (set_inputs srcl c) \<and> map oshape srcl = map oshape (inputs c) \<and> map oshape dstl = map oshape (outputs c)))"
  proof (cases "\<exists>h a. c = InstHcall h a")
    case True
    then obtain h a where c: "c = InstHcall h a" by blast
    have "CallOp True ra = Some (Inr ra')" "c' = c" using assms c by (auto simp: QRegAllocVisitor_def dbind_def split: option.splits sum.splits)
    then obtain ra1 where r: "ra_loop (\<lambda>p ra. if mask_Test GPR_CALL_CLOBBER p then Spill_p p ra else Inr ra) pregs ra = Inr ra1" "call_loop 0 ra1 = Some (Inr ra')"
      by (auto simp: CallOp_def split: sum.splits)
    have "movs ra ra1" by (rule loop_movs [OF _ refl r(1)]) (use Spill_movs(2) movs_refl in \<open>auto split: if_splits\<close>)
    then show ?thesis using movs_trans call_loop_movs [OF r(2)] \<open>c' = c\<close> by blast
  next
    case False
    consider "QRegAllocVisitor c ra = Some (rbind (BlockBoundary ra) (\<lambda>ra. Inr (c, ra)))" | "QRegAllocVisitor c ra = Some (rbind (RegionBoundary ra) (\<lambda>ra. Inr (c, ra)))"
      | f where "QRegAllocVisitor c ra = Some (rbind (AllocOp c ra) (\<lambda>(c, ra). rbind (f ra) (\<lambda>ra. Inr (c, ra))))" "\<And>ra ra'. f ra = Inr ra' \<Longrightarrow> movs ra ra'"
      | "QRegAllocVisitor c ra = Some (AllocOp c ra)"
    proof (cases c)
      case (InstBrcc cc a b)
      then show ?thesis using that(3) [of BlockBoundary] boundary_movs(2) by (simp add: QRegAllocVisitor_def)
    next
      case (InstGBrind t)
      then show ?thesis using that(3) [of RegionBoundary] boundary_movs(3) by (simp add: QRegAllocVisitor_def)
    qed (use that False in \<open>simp_all add: QRegAllocVisitor_def\<close>)
    then show ?thesis
    proof cases
      case 3
      have "rbind (AllocOp c ra) (\<lambda>(c, ra). rbind (f ra) (\<lambda>ra. Inr (c, ra))) = Inr (c', ra')" using assms 3(1) by simp
      then obtain ra1 where a: "AllocOp c ra = Inr (c', ra1)" "f ra1 = Inr ra'" by auto
      show ?thesis using AllocOp_movs [OF a(1)] movs_trans [OF _ 3(2) [OF a(2)]] by blast
    next
      case 4
      then have "AllocOp c ra = Inr (c', ra')" using assms by simp
      then show ?thesis using AllocOp_movs by blast
    next
      case 1
      then have "rbind (BlockBoundary ra) (\<lambda>ra. Inr (c, ra)) = Inr (c', ra')" using assms by simp
      then show ?thesis using boundary_movs(2) by auto
    next
      case 2
      then have "rbind (RegionBoundary ra) (\<lambda>ra. Inr (c, ra)) = Inr (c', ra')" using assms by simp
      then show ?thesis using boundary_movs(3) by auto
    qed
  qed
  then show "movs ra ra'" "c' = c \<or> (\<exists>srcl dstl. c' = set_outputs dstl (set_inputs srcl c) \<and> map oshape srcl = map oshape (inputs c) \<and> map oshape dstl = map oshape (outputs c))"
    by blast+
qed

section \<open>The invariant\<close>

lemma slots_in_inv:
  assumes "info_ok vi" and "ra_inv vi X ra"
  shows "slots_in ra"
proof -
  have "slot_in v" if v: "v \<in> set (vregs ra)" for v
  proof -
    obtain i where i: "i < NumAll vi" "v = vregs ra ! i" using v inv_length [OF assms(2)] by (auto simp: in_set_conv_nth)
    have "rt_type v \<noteq> UNDEF" using track_type [OF assms(1) inv_track [OF assms(2) i(1)] i(1)] i(2) by simp
    moreover have "unat (spill_offs v) + vsz (rt_type v) \<le> unat (frame_cur ra)" if "slotted v"
      using ra_invD(3) [OF assms(2)] that v by (auto simp: frame_ok_def)
    ultimately show ?thesis using frame_bound [OF assms] by (auto simp: slot_in_def)
  qed
  then show ?thesis using regs_okD(4) [OF ra_invD(2) [OF assms(2)]] by (auto simp: slots_in_def)
qed

definition host_inst :: "instc \<Rightarrow> bool" where
  "host_inst c \<longleftrightarrow> host_mov c \<or> allocated c"

end
