(* ===== verification/Alloc_Correct.thy ===== *)
theory Alloc_Correct
  imports Alloc_Moves
begin

text \<open>
  The allocation pass over instructions, blocks and regions: what the code after allocation does on the host
  is what the code before it does on the virtual registers. C40.
\<close>

section \<open>Instructions\<close>

lemma ra_sim_mem:
  assumes "ra_sim vi X vs qs ms"
  shows "ra_sim vi X vs (qs\<lparr>qmem := m\<rparr>) (ms\<lparr>m_mem := m\<rparr>)"
proof (rule ra_simI)
  fix j assume j: "j \<in> X" "j < NumAll vi"
  have "slot_has (ms\<lparr>m_mem := m\<rparr>) v x = slot_has ms v x" for v x using mread_slot_cong [of "ms\<lparr>m_mem := m\<rparr>" ms v] by (simp add: slot_has_def)
  moreover have "vreg_val vi (qs\<lparr>qmem := m\<rparr>) j = vreg_val vi qs j" by (simp add: vreg_val_def)
  ultimately show "holds (ms\<lparr>m_mem := m\<rparr>) (vs ! j) (vreg_val vi (qs\<lparr>qmem := m\<rparr>) j)" using ra_simD(1) [OF assms j] by (simp add: holds_def)
qed (use ra_simD(2-4) [OF assms] in auto)

lemma ready_mem: "ops_ready vi X outs dstl ra qs ms \<Longrightarrow> m_mem ms = qmem qs"
  by (simp add: ops_ready_def)

lemma ready_write:
  assumes "ops_ready vi X [d] [e] ra qs ms" and "write_op (glob_info vi) d v qs = Some qs'"
  shows "\<exists>ms'. mwrite e v ms = Some ms' \<and> ra_sim vi (X \<union> set (out_regs [d])) (vregs ra) qs' ms'"
  using assms by (simp add: ops_ready_def)

lemma mexec_sim:
  assumes typed: "op_typed c" "\<forall>h a. c \<noteq> InstHcall h a" "\<forall>t. c \<noteq> InstGBr t" and len: "length srcl = length (inputs c)" "length dstl = length (outputs c)"
    and ops: "\<forall>i<length srcl. op_at vi (inputs c ! i) (srcl ! i) qs ms" and rdy: "ops_ready vi X (outputs c) dstl ra qs ms"
    and ns: "exec_inst (glob_info vi) c qs \<noteq> QStuck"
  shows "rel_qres (ra_sim vi (X \<union> set (out_regs (outputs c))) (vregs ra)) (exec_inst (glob_info vi) c qs)
    (mexec_inst clob (set_outputs dstl (set_inputs srcl c)) ms)"
proof -
  have out: "\<exists>ms'. mwrite e v ms = Some ms' \<and> ra_sim vi (X \<union> set (out_regs [d])) (vregs ra) qs' ms'"
    if "outputs c = [d]" "dstl = [e]" "write_op (glob_info vi) d v qs = Some qs'" for d e v qs'
    using ready_write rdy that by metis
  note m = ready_mem [OF rdy]
  show ?thesis
  proof (cases c)
    case (InstUnop op d a)
    obtain a' e where s: "srcl = [a']" "dstl = [e]" using len InstUnop by (auto simp: length_Suc_conv)
    then show ?thesis using InstUnop typed ops ns out [of d e] by (fastforce simp: op_at_def ostuck_def split: option.splits)
  next
    case (InstBinop op d a b)
    obtain a' b' e where s: "srcl = [a', b']" "dstl = [e]" using len InstBinop by (auto simp: length_Suc_conv numeral_2_eq_2)
    then show ?thesis using InstBinop ops ns out [of d e] by (fastforce simp: op_at_def ostuck_def All_less_Suc2 split: option.splits)
  next
    case (InstSetcc cc d a b)
    obtain a' b' e where s: "srcl = [a', b']" "dstl = [e]" using len InstSetcc by (auto simp: length_Suc_conv numeral_2_eq_2)
    then show ?thesis using InstSetcc ops ns out [of d e] by (fastforce simp: op_at_def ostuck_def All_less_Suc2 split: option.splits)
  next
    case (InstVMLoad sz sg d p)
    obtain a' e where s: "srcl = [a']" "dstl = [e]" using len InstVMLoad by (auto simp: length_Suc_conv)
    then show ?thesis using InstVMLoad ops ns out [of d e] m by (fastforce simp: op_at_def ostuck_def split: option.splits)
  next
    case (InstVMStore sz sg p x)
    obtain a' b' where s: "srcl = [a', b']" "dstl = []" using len InstVMStore by (auto simp: length_Suc_conv numeral_2_eq_2)
    have "ra_sim vi X (vregs ra) qs ms" using rdy InstVMStore by (simp add: ops_ready_def)
    then show ?thesis using s InstVMStore ops ns m ra_sim_mem by (fastforce simp: op_at_def ostuck_def All_less_Suc2 out_regs_def split: option.splits)
  next
    case (InstBrcc cc a b)
    obtain a' b' where s: "srcl = [a', b']" "dstl = []" using len InstBrcc by (auto simp: length_Suc_conv numeral_2_eq_2)
    have "ra_sim vi X (vregs ra) qs ms" using rdy InstBrcc by (simp add: ops_ready_def)
    then show ?thesis using s InstBrcc ops ns by (auto simp: op_at_def ostuck_def All_less_Suc2 out_regs_def split: option.splits)
  next
    case (InstGBrind t)
    obtain a' where s: "srcl = [a']" "dstl = []" using len InstGBrind by (auto simp: length_Suc_conv)
    have "ra_sim vi X (vregs ra) qs ms" using rdy InstGBrind by (simp add: ops_ready_def)
    then show ?thesis using s InstGBrind ops ns by (auto simp: op_at_def ostuck_def out_regs_def split: option.splits)
  next
    case InstBr
    then show ?thesis using rdy len by (simp add: ops_ready_def out_regs_def)
  qed (use typed in simp_all)
qed

section \<open>Visiting an instruction\<close>

text \<open>Between blocks the CPU state and memory are the same on both sides.\<close>

definition bound :: "qstate \<Rightarrow> mstate \<Rightarrow> bool" where
  "bound qs ms \<longleftrightarrow> m_cpu ms = qcpu qs \<and> m_mem ms = qmem qs"

definition outcome :: "(qstate \<Rightarrow> mstate \<Rightarrow> bool) \<Rightarrow> qstate qres \<Rightarrow> mstate qres \<Rightarrow> bool" where
  "outcome R r m \<longleftrightarrow> (case r of QNext s \<Rightarrow> \<exists>s'. m = QNext s' \<and> R s s' | _ \<Rightarrow> rel_qres bound r m)"

fun ends :: "instc \<Rightarrow> bool" where
  "ends InstBr \<longleftrightarrow> True"
| "ends (InstBrcc cc a b) \<longleftrightarrow> True"
| "ends (InstGBr t) \<longleftrightarrow> True"
| "ends (InstGBrind t) \<longleftrightarrow> True"
| "ends _ \<longleftrightarrow> False"

fun is_call :: "instc \<Rightarrow> bool" where
  "is_call (InstHcall stub arg) \<longleftrightarrow> True"
| "is_call _ \<longleftrightarrow> False"

fun visit_ok :: "VRegsInfo \<Rightarrow> nat set \<Rightarrow> instc \<Rightarrow> bool" where
  "visit_ok vi X InstBr \<longleftrightarrow> True"
| "visit_ok vi X (InstGBr t) \<longleftrightarrow> IsConst t"
| "visit_ok vi X (InstHcall stub arg) \<longleftrightarrow> IsConst arg"
| "visit_ok vi X c \<longleftrightarrow> inst_ok vi X c"

lemma ra_inv_mono: "ra_inv vi X ra \<Longrightarrow> Y \<subseteq> X \<Longrightarrow> ra_inv vi Y ra"
  unfolding ra_inv_def located_def by blast

lemma bound_in_mem: "info_ok vi \<Longrightarrow> ra_inv vi X ra \<Longrightarrow> globals_in_mem vi ra \<Longrightarrow> globals vi \<subseteq> X \<Longrightarrow> ra_sim vi X (vregs ra) qs ms \<Longrightarrow> bound qs ms"
  using cpu_in_mem ra_simD(2) by (simp add: bound_def)

lemma mread_const: "IsConst v \<Longrightarrow> mread ms v = read_op si qs v"
  by (auto simp: is_view(2) mread_def read_op_def)

lemma allocated_reads:
  assumes "allocated c" and "ra_info (GetOpcode c) = Some (op_ct, ord)" and "i < length (inputs c)" and "m_regs ms' = m_regs ms"
  shows "mread ms' (inputs c ! i) = mread ms (inputs c ! i)"
proof -
  consider k where "GetConst (inputs c ! i) = Inr k" | t p where "view_of (inputs c ! i) = VPhys t p"
    using assms(1-3) by (auto simp: allocated_def Let_def)
  then show ?thesis by cases (use assms(4) is_view(4) in \<open>auto simp: mread_def\<close>)
qed

lemma allocated_none: "ra_info (GetOpcode c) = None \<Longrightarrow> allocated c"
  by (simp add: allocated_def)

text \<open>What visiting an instruction gives.\<close>

definition visit_spec :: "VRegsInfo \<Rightarrow> nat set \<Rightarrow> instc \<Rightarrow> QRegAlloc \<Rightarrow> bool" where
  "visit_spec vi X c ra \<longleftrightarrow>
     (\<exists>c' ra' cs. QRegAllocVisitor c ra = Some (Inr (c', ra')) \<and> ra_pre ra' = ra_pre ra @ cs \<and> allocated c' \<and>
        ra_inv vi (if ends c then globals vi else X \<union> set (out_regs (outputs c))) ra' \<and> (ends c \<or> is_call c \<longrightarrow> globals_in_mem vi ra') \<and>
        (\<forall>clob qs ms. ra_sim vi X (vregs ra) qs ms \<and> exec_inst (glob_info vi) c qs \<noteq> QStuck \<longrightarrow>
           outcome (ra_sim vi (X \<union> set (out_regs (outputs c))) (vregs ra')) (exec_inst (glob_info vi) c qs) (mexec_list clob (cs @ [c']) ms)))"

lemma visit_plain:
  assumes vi: "info_ok vi" and inv: "ra_inv vi X ra" and ok: "inst_ok vi X c" "selected c" and c: "QRegAllocVisitor c ra = Some (AllocOp c ra)"
    "ra_info (GetOpcode c) = Some (op_ct, ord)" "\<not> ends c" "\<not> is_call c"
  shows "visit_spec vi X c ra"
proof -
  have n: "\<forall>h a. c \<noteq> InstHcall h a" "\<forall>t. c \<noteq> InstGBr t" "op_typed c" using c(3,4) ok(1) by (auto simp: inst_ok_def)
  obtain srcl dstl ra' cs where a: "AllocOp c ra = Inr (set_outputs dstl (set_inputs srcl c), ra')" "length srcl = length (inputs c)" "length dstl = length (outputs c)"
      "ra_inv vi (X \<union> set (out_regs (outputs c))) ra'" "allocated (set_outputs dstl (set_inputs srcl c))" "ra_pre ra' = ra_pre ra @ cs"
      "\<And>clob qs ms. ra_sim vi X (vregs ra) qs ms \<Longrightarrow>
       \<exists>ms'. mexec_list clob cs ms = QNext ms' \<and> ops_ready vi X (outputs c) dstl ra' qs ms' \<and> (\<forall>i<length srcl. op_at vi (inputs c ! i) (srcl ! i) qs ms')"
    using AllocOp_ok [OF vi inv c(2) ok n(1)] by blast
  let ?c = "set_outputs dstl (set_inputs srcl c)"
  have "outcome (ra_sim vi (X \<union> set (out_regs (outputs c))) (vregs ra')) (exec_inst (glob_info vi) c qs) (mexec_list clob (cs @ [?c]) ms)"
    if sim: "ra_sim vi X (vregs ra) qs ms" and ns: "exec_inst (glob_info vi) c qs \<noteq> QStuck" for clob qs ms
  proof -
    obtain ms1 where m: "mexec_list clob cs ms = QNext ms1" "ops_ready vi X (outputs c) dstl ra' qs ms1" "\<forall>i<length srcl. op_at vi (inputs c ! i) (srcl ! i) qs ms1"
      using a(7) [OF sim] by blast
    obtain qs' where q: "exec_inst (glob_info vi) c qs = QNext qs'" using ns c(3,4) by (cases c) (auto simp: ostuck_def split: option.splits if_splits)
    obtain ms' where "mexec_inst clob ?c ms1 = QNext ms'" "ra_sim vi (X \<union> set (out_regs (outputs c))) (vregs ra') qs' ms'"
      using mexec_sim [OF n(3,1,2) a(2,3) m(3,2) ns, of clob] unfolding q by (cases "mexec_inst clob ?c ms1") auto
    then show ?thesis using m(1) q by (simp add: outcome_def)
  qed
  then show ?thesis unfolding visit_spec_def using a c by (intro exI [of _ ?c] exI [of _ ra'] exI [of _ cs]) simp
qed

lemma visit_end:
  assumes vi: "info_ok vi" and inv: "ra_inv vi X ra" and X: "globals vi \<subseteq> X" and ok: "inst_ok vi X c" "selected c"
    and c: "QRegAllocVisitor c ra = Some (rbind (AllocOp c ra) (\<lambda>(c, ra). rbind (f ra) (\<lambda>ra. Inr (c, ra))))"
      "ra_info (GetOpcode c) = Some (op_ct, ord)" "ends c" "outputs c = []"
    and f: "\<And>ra. ra_inv vi X ra \<Longrightarrow> \<exists>ra'. f ra = Inr ra' \<and> ra_moves vi (globals vi) {} ra ra' \<and> quiet ra ra' \<and> globals_in_mem vi ra'"
  shows "visit_spec vi X c ra"
proof -
  have n: "\<forall>h a. c \<noteq> InstHcall h a" "\<forall>t. c \<noteq> InstGBr t" "op_typed c" using c(2,3) ok(1) by (auto simp: inst_ok_def)
  obtain srcl dstl ra1 cs where a: "AllocOp c ra = Inr (set_outputs dstl (set_inputs srcl c), ra1)" "length srcl = length (inputs c)" "length dstl = length (outputs c)"
      "ra_inv vi X ra1" "allocated (set_outputs dstl (set_inputs srcl c))" "ra_pre ra1 = ra_pre ra @ cs"
      "\<And>clob qs ms. ra_sim vi X (vregs ra) qs ms \<Longrightarrow>
       \<exists>ms'. mexec_list clob cs ms = QNext ms' \<and> ops_ready vi X (outputs c) dstl ra1 qs ms' \<and> (\<forall>i<length srcl. op_at vi (inputs c ! i) (srcl ! i) qs ms')"
    using AllocOp_ok [OF vi inv c(2) ok n(1)] c(4) by (auto simp: out_regs_def)
  obtain ra' where b: "f ra1 = Inr ra'" "ra_moves vi (globals vi) {} ra1 ra'" "quiet ra1 ra'" "globals_in_mem vi ra'" using f [OF a(4)] by blast
  obtain cs2 where cs2: "ra_pre ra' = ra_pre ra1 @ cs2" "\<forall>c\<in>set cs2. slot_mov c" using b(3) unfolding quiet_def by blast
  let ?c = "set_outputs dstl (set_inputs srcl c)"
  note op = set_operands [OF a(2,3) n(1)]
  have "outcome R (exec_inst (glob_info vi) c qs) (mexec_list clob ((cs @ cs2) @ [?c]) ms)"
    if sim: "ra_sim vi X (vregs ra) qs ms" and ns: "exec_inst (glob_info vi) c qs \<noteq> QStuck" for R clob qs ms
  proof -
    obtain ms1 where m: "mexec_list clob cs ms = QNext ms1" "ops_ready vi X (outputs c) dstl ra1 qs ms1" "\<forall>i<length srcl. op_at vi (inputs c ! i) (srcl ! i) qs ms1"
      using a(7) [OF sim] by blast
    have "ra_sim vi (globals vi) (vregs ra1) qs ms1" using m(2) c(4) X ra_sim_mono by (auto simp: ops_ready_def)
    then obtain ms2 where m2: "mexec_list clob cs2 ms1 = QNext ms2" "ra_sim vi (globals vi) (vregs ra') qs ms2"
      using ra_movesD [OF b(2), of qs ms1 clob] cs2(1) by auto
    have regs: "m_regs ms2 = m_regs ms1" using slot_movs_regs [OF cs2(2) m2(1)] .
    have "mread ms2 (srcl ! i) = mread ms1 (srcl ! i)" if "i < length srcl" for i
      using allocated_reads [OF a(5) _ _ regs, of op_ct ord i] that c(2) unfolding op by simp
    then have "\<forall>i<length srcl. op_at vi (inputs c ! i) (srcl ! i) qs ms2" using m(3) by (simp add: op_at_def)
    moreover have "ops_ready vi (globals vi) (outputs c) dstl ra' qs ms2" using m2(2) ra_simD(2) [OF m2(2)] c(4) by (simp add: ops_ready_def)
    ultimately have r: "rel_qres (ra_sim vi (globals vi) (vregs ra')) (exec_inst (glob_info vi) c qs) (mexec_inst clob ?c ms2)"
      using mexec_sim [OF n(3,1,2) a(2,3) _ _ ns, where ms = ms2 and X = "globals vi" and ra = ra' and clob = clob] c(4) by (simp add: out_regs_def)
    have "rel_qres bound (exec_inst (glob_info vi) c qs) (mexec_inst clob ?c ms2)"
      using qres.rel_mono_strong [OF r] bound_in_mem [OF vi ra_moves_inv [OF b(2)] b(4)] by blast
    moreover have "exec_inst (glob_info vi) c qs \<noteq> QNext s" for s using c(3) by (cases c) (auto simp: ostuck_def split: option.splits)
    ultimately show ?thesis using m(1) m2(1)
      by (cases "exec_inst (glob_info vi) c qs"; cases "mexec_inst clob ?c ms2") (simp_all add: outcome_def)
  qed
  moreover have "QRegAllocVisitor c ra = Some (Inr (?c, ra'))" using c(1) a(1) b(1) by simp
  ultimately show ?thesis unfolding visit_spec_def using a(5,6) cs2(1) b(4) c(3) ra_moves_inv [OF b(2)]
    by (intro exI [of _ ?c] exI [of _ ra'] exI [of _ "cs @ cs2"]) simp
qed

lemma block_boundary:
  assumes "info_ok vi" and "globals vi \<subseteq> X" and "ra_inv vi X ra"
  shows "\<exists>ra'. BlockBoundary ra = Inr ra' \<and> ra_moves vi (globals vi) {} ra ra' \<and> quiet ra ra' \<and> globals_in_mem vi ra'"
    and "\<exists>ra'. RegionBoundary ra = Inr ra' \<and> ra_moves vi (globals vi) {} ra ra' \<and> quiet ra ra' \<and> globals_in_mem vi ra'"
  using BlockBoundary_ok [OF assms(1) ra_inv_mono [OF assms(3,2)]] RegionBoundary_ok [OF assms(1) ra_inv_mono [OF assms(3,2)]] by blast+

lemma visit_jump:
  assumes vi: "info_ok vi" and X: "globals vi \<subseteq> X" and c: "QRegAllocVisitor c ra = Some (rbind (f ra) (\<lambda>ra. Inr (c, ra)))" "c = InstBr \<or> (\<exists>t. c = InstGBr t \<and> IsConst t)"
    and f: "\<exists>ra'. f ra = Inr ra' \<and> ra_moves vi (globals vi) {} ra ra' \<and> quiet ra ra' \<and> globals_in_mem vi ra'"
  shows "visit_spec vi X c ra"
proof -
  obtain ra' where b: "f ra = Inr ra'" "ra_moves vi (globals vi) {} ra ra'" "globals_in_mem vi ra'" using f by blast
  obtain cs where cs: "ra_pre ra' = ra_pre ra @ cs" using b(2) unfolding ra_moves_def by blast
  have e: "ends c" "allocated c" using c(2) by (auto intro: allocated_none)
  have "outcome R (exec_inst (glob_info vi) c qs) (mexec_list clob (cs @ [c]) ms)" if sim: "ra_sim vi X (vregs ra) qs ms" for R clob qs ms
  proof -
    obtain ms2 where m2: "mexec_list clob cs ms = QNext ms2" "ra_sim vi (globals vi) (vregs ra') qs ms2"
      using ra_movesD [OF b(2) ra_sim_mono [OF sim X], of clob] cs by auto
    have "bound qs ms2" using bound_in_mem [OF vi ra_moves_inv [OF b(2)] b(3) order_refl m2(2)] .
    then show ?thesis using m2(1) c(2) mread_const [of _ ms2 "glob_info vi" qs] by (auto simp: outcome_def ostuck_def split: option.splits)
  qed
  then show ?thesis unfolding visit_spec_def using c(1) b e cs ra_moves_inv [OF b(2)] by (intro exI [of _ c] exI [of _ ra'] exI [of _ cs]) simp
qed

lemma visit_call:
  assumes vi: "info_ok vi" and inv: "ra_inv vi X ra" and X: "globals vi \<subseteq> X" and arg: "IsConst arg"
  shows "visit_spec vi X (InstHcall stub arg) ra"
proof -
  let ?c = "InstHcall stub arg"
  obtain ra' where b: "CallOp True ra = Some (Inr ra')" "ra_moves vi X {} ra ra'" "call_ready vi ra'" using CallOp_ok [OF vi inv] by blast
  obtain cs where cs: "ra_pre ra' = ra_pre ra @ cs" using b(2) unfolding ra_moves_def by blast
  have inv': "ra_inv vi X ra'" using ra_moves_inv [OF b(2)] .
  have g: "globals_in_mem vi ra'" using b(3) by (simp add: call_ready_def)
  have "outcome (ra_sim vi X (vregs ra')) (exec_inst (glob_info vi) ?c qs) (mexec_list clob (cs @ [?c]) ms)"
    if sim: "ra_sim vi X (vregs ra) qs ms" and ns: "exec_inst (glob_info vi) ?c qs \<noteq> QStuck" for clob qs ms
  proof -
    obtain ms2 where m2: "mexec_list clob cs ms = QNext ms2" "ra_sim vi X (vregs ra') qs ms2" using ra_movesD [OF b(2) sim, of clob] cs by auto
    have bd: "m_cpu ms2 = qcpu qs" "m_mem ms2 = qmem qs" using bound_in_mem [OF vi inv' g X m2(2)] by (simp_all add: bound_def)
    have st: "ra_sim vi X (vregs ra') (qs\<lparr>qcpu := c, qmem := m\<rparr>) (after_call clob (ms2\<lparr>m_cpu := c, m_mem := m\<rparr>))" for c m
      using clob_sim [OF inv' b(3) stub_sim [OF vi inv' g m2(2)]] .
    have tr: "ra_sim vi X (vregs ra') qs (after_call clob ms2)" using clob_sim [OF inv' b(3) m2(2)] .
    show ?thesis using m2(1) ns st tr bd mread_const [OF arg, of ms2 "glob_info vi" qs]
      by (auto simp: outcome_def ostuck_def bound_def after_call_def split: option.splits if_splits hres.splits)
  qed
  then show ?thesis unfolding visit_spec_def using b(1) cs inv' g allocated_none [of ?c]
    by (intro exI [of _ ?c] exI [of _ ra'] exI [of _ cs]) (simp add: QRegAllocVisitor_def dbind_def out_regs_def)
qed

lemma ra_info_some:
  assumes "op_typed c" and "\<not> is_call c" and "c \<noteq> InstBr" and "\<forall>t. c \<noteq> InstGBr t"
  shows "\<exists>op_ct ord. ra_info (GetOpcode c) = Some (op_ct, ord)"
proof (cases c)
  case (InstBinop op d a b)
  then show ?thesis using assms(1) by (cases op) (auto simp: InstBinop_HasOpcode_def ct_values)
qed (use assms in \<open>auto simp: ct_values\<close>)

lemma visit_all:
  assumes vi: "info_ok vi" and inv: "ra_inv vi X ra" and X: "globals vi \<subseteq> X" and ok: "visit_ok vi X c" "selected c"
  shows "visit_spec vi X c ra"
proof (cases "c = InstBr \<or> (\<exists>t. c = InstGBr t) \<or> is_call c")
  case True
  then consider "c = InstBr" | t where "c = InstGBr t" | h a where "c = InstHcall h a" by (cases c) auto
  then show ?thesis
  proof cases
    case 1
    then show ?thesis using visit_jump [OF vi X, of c ra BlockBoundary] block_boundary(1) [OF vi X inv] by (simp add: QRegAllocVisitor_def)
  next
    case 2
    then show ?thesis using visit_jump [OF vi X, of c ra RegionBoundary] block_boundary(2) [OF vi X inv] ok by (simp add: QRegAllocVisitor_def)
  next
    case 3
    then show ?thesis using visit_call [OF vi inv X] ok by simp
  qed
next
  case False
  then have i: "inst_ok vi X c" using ok(1) by (cases c) auto
  obtain op_ct ord where info: "ra_info (GetOpcode c) = Some (op_ct, ord)" using ra_info_some [of c] i False by (auto simp: inst_ok_def)
  show ?thesis
  proof (cases "ends c")
    case e: True
    then consider cc a b where "c = InstBrcc cc a b" | t where "c = InstGBrind t" using False by (cases c) auto
    then show ?thesis
    proof cases
      case 1
      then show ?thesis using visit_end [OF vi inv X i ok(2) _ info e, of BlockBoundary] block_boundary(1) [OF vi X] by (simp add: QRegAllocVisitor_def)
    next
      case 2
      then show ?thesis using visit_end [OF vi inv X i ok(2) _ info e, of RegionBoundary] block_boundary(2) [OF vi X] by (simp add: QRegAllocVisitor_def)
    qed
  next
    case n: False
    have "QRegAllocVisitor c ra = Some (AllocOp c ra)" using n False by (cases c) (simp_all add: QRegAllocVisitor_def)
    then show ?thesis using visit_plain [OF vi inv i ok(2) _ info n] False by simp
  qed
qed

section \<open>Blocks\<close>

text \<open>What the pass requires of a block: every register is read after it was written in the block or is a state
  register, and the block ends in a branch or a call, so that no state register is left in a host register.\<close>

primrec alloc_block_ok :: "VRegsInfo \<Rightarrow> nat set \<Rightarrow> bool \<Rightarrow> instc list \<Rightarrow> bool" where
  "alloc_block_ok vi X closed [] \<longleftrightarrow> closed"
| "alloc_block_ok vi X closed (c # cs) \<longleftrightarrow>
     visit_ok vi X c \<and> (ends c \<longrightarrow> cs = []) \<and> alloc_block_ok vi (X \<union> set (out_regs (outputs c))) (ends c \<or> is_call c) cs"

definition code_sim :: "VRegsInfo \<Rightarrow> (qstate \<Rightarrow> mstate \<Rightarrow> bool) \<Rightarrow> instc list \<Rightarrow> instc list \<Rightarrow> bool" where
  "code_sim vi R cs cs' \<longleftrightarrow>
     (\<forall>clob qs ms. R qs ms \<and> exec_list (glob_info vi) cs qs \<noteq> QStuck \<longrightarrow>
        outcome (\<lambda>_ _. True) (exec_list (glob_info vi) cs qs) (mexec_list clob cs' ms))"

lemma outcome_seq:
  assumes "outcome R (exec_inst si c qs) (mexec_list clob (pre @ [c']) ms)" and "exec_list si (c # cs) qs \<noteq> QStuck"
    and "\<And>qs' ms'. R qs' ms' \<Longrightarrow> exec_list si cs qs' \<noteq> QStuck \<Longrightarrow> outcome S (exec_list si cs qs') (mexec_list clob cs' ms')"
  shows "outcome S (exec_list si (c # cs) qs) (mexec_list clob (pre @ c' # cs') ms)"
proof -
  have "mexec_list clob (pre @ c' # cs') ms = (case mexec_list clob (pre @ [c']) ms of QNext s' \<Rightarrow> mexec_list clob cs' s' | r \<Rightarrow> r)"
    using mexec_list_append [of clob "pre @ [c']" cs' ms] by simp
  then show ?thesis using assms
    by (cases "exec_inst si c qs"; cases "mexec_list clob (pre @ [c']) ms") (auto simp: outcome_def simp del: mexec_list_append)
qed

lemma ra_block_ok:
  assumes vi: "info_ok vi" and "ra_inv vi X ra" and "globals vi \<subseteq> X" and "alloc_block_ok vi X closed cs" and "closed \<Longrightarrow> globals_in_mem vi ra"
    and "\<forall>c\<in>set cs. selected c"
  shows "\<exists>cs' ra'. ra_block cs ra = Some (Inr (cs', ra')) \<and> ra_inv vi (globals vi) ra' \<and> globals_in_mem vi ra' \<and>
    code_sim vi (ra_sim vi X (vregs ra)) cs cs' \<and> (\<forall>c\<in>set cs'. host_inst c)"
  using assms(2-)
proof (induction cs arbitrary: ra X closed)
  case Nil
  then show ?case using ra_inv_mono by (auto simp: code_sim_def outcome_def)
next
  case (Cons c cs)
  let ?X = "X \<union> set (out_regs (outputs c))"
  let ?ra = "ra\<lparr>ra_pre := []\<rparr>"
  have "ra_inv vi X ?ra" using Cons.prems(1) ra_inv_cong [of ?ra ra] by simp
  moreover have "visit_ok vi X c" "selected c" using Cons.prems(3,5) by simp_all
  ultimately obtain c' ra1 pre where v: "QRegAllocVisitor c ?ra = Some (Inr (c', ra1))" "ra_pre ra1 = pre" "allocated c'"
      "ra_inv vi (if ends c then globals vi else ?X) ra1" "ends c \<or> is_call c \<longrightarrow> globals_in_mem vi ra1"
      "\<And>clob qs ms. ra_sim vi X (vregs ra) qs ms \<Longrightarrow> exec_inst (glob_info vi) c qs \<noteq> QStuck \<Longrightarrow>
         outcome (ra_sim vi ?X (vregs ra1)) (exec_inst (glob_info vi) c qs) (mexec_list clob (pre @ [c']) ms)"
    using visit_all [OF vi _ Cons.prems(2), of ?ra c] unfolding visit_spec_def by auto
  have "slots_in ?ra" using slots_in_inv [OF vi \<open>ra_inv vi X ?ra\<close>] .
  then have hm: "\<forall>c\<in>set pre. host_inst c" using visitor_movs(1) [OF v(1)] v(2) by (simp add: movs_def host_inst_def)
  have ih: "\<exists>cs' ra'. ra_block cs ra1 = Some (Inr (cs', ra')) \<and> ra_inv vi (globals vi) ra' \<and> globals_in_mem vi ra' \<and> (\<forall>c\<in>set cs'. host_inst c) \<and>
      (\<not> ends c \<longrightarrow> code_sim vi (ra_sim vi ?X (vregs ra1)) cs cs')"
  proof (cases "ends c")
    case True
    then show ?thesis using Cons.prems(3) v(4,5) by simp
  next
    case False
    then show ?thesis using Cons.IH [of ?X ra1 "is_call c"] Cons.prems(2,3,5) v(4,5) by auto
  qed
  then obtain cs' ra' where r: "ra_block cs ra1 = Some (Inr (cs', ra'))" "ra_inv vi (globals vi) ra'" "globals_in_mem vi ra'" "\<forall>c\<in>set cs'. host_inst c"
      "\<not> ends c \<longrightarrow> code_sim vi (ra_sim vi ?X (vregs ra1)) cs cs'" by blast
  have "outcome (\<lambda>_ _. True) (exec_list (glob_info vi) (c # cs) qs) (mexec_list clob (pre @ c' # cs') ms)"
    if sim: "ra_sim vi X (vregs ra) qs ms" and ns: "exec_list (glob_info vi) (c # cs) qs \<noteq> QStuck" for clob qs ms
  proof -
    have n: "exec_inst (glob_info vi) c qs \<noteq> QStuck" using ns by auto
    show ?thesis
    proof (cases "ends c")
      case True
      have "exec_inst (glob_info vi) c qs \<noteq> QNext s" for s using True by (cases c) (auto simp: ostuck_def split: option.splits)
      then have "outcome (\<lambda>_ _. False) (exec_inst (glob_info vi) c qs) (mexec_list clob (pre @ [c']) ms)"
        using v(6) [OF sim n, of clob] by (cases "exec_inst (glob_info vi) c qs") (auto simp: outcome_def simp del: mexec_list_append)
      then show ?thesis by (rule outcome_seq [OF _ ns]) simp
    next
      case False
      then show ?thesis using outcome_seq [OF v(6) [OF sim n] ns] r(5) unfolding code_sim_def by blast
    qed
  qed
  then have "code_sim vi (ra_sim vi X (vregs ra)) (c # cs) (pre @ c' # cs')" unfolding code_sim_def by blast
  moreover have "ra_block (c # cs) ra = Some (Inr (pre @ c' # cs', ra'))" using v(1,2) r(1) by (simp add: dbind_def Let_def)
  moreover have "\<forall>c\<in>set (pre @ c' # cs'). host_inst c" using hm v(3) r(4) by (auto simp: host_inst_def)
  ultimately show ?case using r(2,3) by blast
qed

lemma bound_sim:
  assumes "info_ok vi" and "ra_inv vi (globals vi) ra" and "globals_in_mem vi ra" and "bound qs ms"
  shows "ra_sim vi (globals vi) (vregs ra) qs ms"
proof (rule ra_simI)
  fix j assume j: "j \<in> globals vi" "j < NumAll vi"
  have "state_read (qcpu qs) (goffs vi j) = Some (the (state_read (qcpu qs) (goffs vi j)))"
    using state_read_ok(1) [of "qcpu qs" "goffs vi j"] goffs_facts(1) [OF assms(1)] j(1) by (auto simp: globals_def)
  then show "holds ms (vregs ra ! j) (vreg_val vi qs j)" using assms(3,4) inv_track [OF assms(2) j(2)] j(1)
    by (auto simp: holds_def globals_in_mem_def globals_def bound_def slot_has_def slot_op_def mread_def track_ok_def vreg_val_def)
qed (use assms(4) in \<open>simp_all add: bound_def\<close>)

definition alloc_region_ok :: "VRegsInfo \<Rightarrow> rview \<Rightarrow> bool" where
  "alloc_region_ok vi bs \<longleftrightarrow> (\<forall>b\<in>set bs. alloc_block_ok vi (globals vi) True (fst b) \<and> (\<forall>c\<in>set (fst b). selected c))"

lemma ra_blocks_ok:
  assumes vi: "info_ok vi" and "ra_inv vi (globals vi) ra" and "globals_in_mem vi ra" and "alloc_region_ok vi bs"
  shows "\<exists>bs' ra'. ra_blocks bs ra = Some (Inr (bs', ra')) \<and> list_all2 (\<lambda>b b'. snd b' = snd b \<and> code_sim vi bound (fst b) (fst b') \<and> (\<forall>c\<in>set (fst b'). host_inst c)) bs bs'"
  using assms(2-)
proof (induction bs arbitrary: ra)
  case (Cons b bs)
  obtain cs' ra1 where a: "ra_block (fst b) ra = Some (Inr (cs', ra1))" "ra_inv vi (globals vi) ra1" "globals_in_mem vi ra1"
      "code_sim vi (ra_sim vi (globals vi) (vregs ra)) (fst b) cs'" "\<forall>c\<in>set cs'. host_inst c"
    using ra_block_ok [OF vi Cons.prems(1) order_refl, of True "fst b"] Cons.prems(2,3) by (auto simp: alloc_region_ok_def)
  have "code_sim vi bound (fst b) cs'" using a(4) bound_sim [OF vi Cons.prems(1,2)] unfolding code_sim_def by blast
  moreover obtain bs' ra' where "ra_blocks bs ra1 = Some (Inr (bs', ra'))" "list_all2 (\<lambda>b b'. snd b' = snd b \<and> code_sim vi bound (fst b) (fst b') \<and> (\<forall>c\<in>set (fst b'). host_inst c)) bs bs'"
    using Cons.IH [OF a(2,3)] Cons.prems(3) by (auto simp: alloc_region_ok_def)
  ultimately show ?case using a(1,5) by (auto simp: dbind_def)
qed simp

section \<open>The initial state\<close>

lemma add_loop:
  assumes "\<And>i ra. i \<in> set is \<Longrightarrow> length (vregs ra) < MAX_VREGS \<Longrightarrow> f i ra = Inr (ra\<lparr>vregs := vregs ra @ [g i]\<rparr>)"
    and "length (vregs ra) + length is \<le> MAX_VREGS"
  shows "ra_loop f is ra = Inr (ra\<lparr>vregs := vregs ra @ map g is\<rparr>)"
  using assms
proof (induction "is" arbitrary: ra)
  case (Cons i "is")
  have "f i ra = Inr (ra\<lparr>vregs := vregs ra @ [g i]\<rparr>)" using Cons.prems by simp
  then show ?case using Cons.IH [of "ra\<lparr>vregs := vregs ra @ [g i]\<rparr>"] Cons.prems by simp
qed simp

definition first_track :: "VRegsInfo \<Rightarrow> nat \<Rightarrow> RTrack" where
  "first_track vi i =
     (if i < NumGlobals vi then new_track\<lparr>is_global := True, rt_type := I32, spill_offs := goffs vi i\<rparr>
      else new_track\<lparr>is_global := False, rt_type := loc_info vi ! (i - NumGlobals vi), spill_offs := NO_SPILL\<rparr>)"

lemma NewQRegAlloc_ok:
  assumes vi: "info_ok vi"
  shows "NewQRegAlloc vi = Inr \<lparr>ra_pre = [], frame_cur = 0, vregs = map (first_track vi) [0..<NumAll vi], p2v = Map.empty\<rparr>"
proof -
  have n: "NumAll vi \<le> 255" "NumGlobals vi \<le> NumAll vi" using vi globals_le by (simp_all add: info_ok_def)
  have u: "unat (of_nat i :: RegN) = i" if "i < NumAll vi" for i using that n by (simp add: unsigned_of_nat take_bit_nat_eq_self)
  let ?ra = "\<lparr>ra_pre = [], frame_cur = 0, vregs = [], p2v = Map.empty\<rparr> :: QRegAlloc"
  have "ra_loop (\<lambda>i ra. rbind (GetGlobalInfo vi (of_nat i)) (\<lambda>gr. AddTrackGlobal (sr_type gr) (state_offs gr) ra)) [0..<NumGlobals vi] ?ra =
      Inr (?ra\<lparr>vregs := [] @ map (first_track vi) [0..<NumGlobals vi]\<rparr>)"
  proof (subst add_loop [where g = "first_track vi"])
    fix i and ra :: QRegAlloc assume i: "i \<in> set [0..<NumGlobals vi]" and l: "length (vregs ra) < MAX_VREGS"
    have "sr_type (si_regs (glob_info vi) ! i) = I32" using vi i by (auto simp: info_ok_def NumGlobals_def si_n_regs_def)
    then show "rbind (GetGlobalInfo vi (of_nat i)) (\<lambda>gr. AddTrackGlobal (sr_type gr) (state_offs gr) ra) = Inr (ra\<lparr>vregs := vregs ra @ [first_track vi i]\<rparr>)"
      using i l u [of i] n by (simp add: GetGlobalInfo_def IsGlobal_def AddTrackGlobal_def AddTrack_def first_track_def goffs_def NumGlobals_def)
  qed (use n in \<open>simp_all add: MAX_VREGS_def\<close>)
  moreover have "ra_loop (\<lambda>i ra. rbind (GetLocalType vi (of_nat i)) (\<lambda>type. AddTrackLocal type ra)) [NumGlobals vi..<NumAll vi] (?ra\<lparr>vregs := vs\<rparr>) =
      Inr (?ra\<lparr>vregs := vs @ map (first_track vi) [NumGlobals vi..<NumAll vi]\<rparr>)" if "length vs = NumGlobals vi" for vs
  proof (subst add_loop [where g = "first_track vi"])
    fix i and ra :: QRegAlloc assume i: "i \<in> set [NumGlobals vi..<NumAll vi]" and l: "length (vregs ra) < MAX_VREGS"
    then show "rbind (GetLocalType vi (of_nat i)) (\<lambda>type. AddTrackLocal type ra) = Inr (ra\<lparr>vregs := vregs ra @ [first_track vi i]\<rparr>)"
      using u [of i] by (auto simp: GetLocalType_def IsLocal_def IsGlobal_def AddTrackLocal_def AddTrack_def first_track_def NumGlobals_def NumAll_def Let_def)
  qed (use n that in \<open>simp_all add: MAX_VREGS_def\<close>)
  moreover have "[0..<NumAll vi] = [0..<NumGlobals vi] @ [NumGlobals vi..<NumAll vi]"
    using upt_add_eq_append [of 0 "NumGlobals vi" "NumAll vi - NumGlobals vi"] n(2) by simp
  ultimately show ?thesis by (simp add: NewQRegAlloc_def)
qed

lemma Prologue_ok:
  assumes vi: "info_ok vi" and ra: "NewQRegAlloc vi = Inr ra"
  shows "ra_inv vi (globals vi) (ra_Prologue ra)" and "globals_in_mem vi (ra_Prologue ra)"
proof -
  let ?vs = "vregs (ra_Prologue ra)"
  have e: "ra = \<lparr>ra_pre = [], frame_cur = 0, vregs = map (first_track vi) [0..<NumAll vi], p2v = Map.empty\<rparr>" using NewQRegAlloc_ok [OF vi] ra by simp
  have n: "NumGlobals vi \<le> NumAll vi" using globals_le .
  have v: "length ?vs = NumAll vi" "\<And>i. i < NumAll vi \<Longrightarrow> ?vs ! i = (first_track vi i)\<lparr>rt_loc := if i < NumGlobals vi then LMEM else LDEAD\<rparr>"
    by (simp_all add: e ra_Prologue_def first_track_def)
  have "tracks_ok vi ?vs" unfolding tracks_ok_def using v by (auto simp: track_ok_def first_track_def ip_reg_def)
  moreover have "regs_ok ?vs (p2v (ra_Prologue ra))" using v unfolding regs_ok_def by (auto simp: e ra_Prologue_def)
  moreover have s: "\<not> slotted x" if "x \<in> set ?vs" for x using that v by (auto simp: in_set_conv_nth slotted_def first_track_def split: if_splits)
  then have "filter slotted ?vs = []" by (simp add: filter_empty_conv)
  then have "frame_ok ?vs (frame_cur (ra_Prologue ra))" unfolding frame_ok_def using s by (auto simp: e ra_Prologue_def)
  moreover have "located (globals vi) ?vs" using v n by (auto simp: located_def globals_def placed_def has_slot_def first_track_def)
  ultimately show "ra_inv vi (globals vi) (ra_Prologue ra)" by (simp add: ra_inv_def)
  show "globals_in_mem vi (ra_Prologue ra)" using v n by (simp add: globals_in_mem_def)
qed

section \<open>The pass\<close>

lemma code_sim_exec:
  assumes l: "list_all2 (\<lambda>b b'. snd b' = snd b \<and> code_sim vi bound (fst b) (fst b') \<and> (\<forall>c\<in>set (fst b'). host_inst c)) bs bs'" and b: "bound qs ms"
    and ns: "exec_block (glob_info vi) bs k qs \<noteq> BStuck"
  shows "rel_bres bound (exec_block (glob_info vi) bs k qs) (mexec_block clob bs' k ms)"
proof -
  have k: "k < length bs" using ns by (auto simp: exec_block_def split: if_splits)
  then have k': "k < length bs'" "snd (bs' ! k) = snd (bs ! k)" "code_sim vi bound (fst (bs ! k)) (fst (bs' ! k))"
    using l by (auto simp: list_all2_conv_all_nth)
  have "exec_list (glob_info vi) (fst (bs ! k)) qs \<noteq> QStuck" using ns k by (auto simp: exec_block_def)
  then have "outcome (\<lambda>_ _. True) (exec_list (glob_info vi) (fst (bs ! k)) qs) (mexec_list clob (fst (bs' ! k)) ms)"
    using k'(3) b unfolding code_sim_def by blast
  then show ?thesis using k k'(1,2) ns
    by (cases "exec_list (glob_info vi) (fst (bs ! k)) qs"; cases "mexec_list clob (fst (bs' ! k)) ms")
      (auto simp: exec_block_def mexec_block_def outcome_def succ_at_def split: if_splits)
qed

lemma pass_ok:
  assumes "info_ok vi" and "alloc_region_ok vi bs"
  shows "\<exists>bs'. QRegAllocPass_run bs vi = Some (Inr bs') \<and> list_all2 (\<lambda>b b'. snd b' = snd b \<and> code_sim vi bound (fst b) (fst b') \<and> (\<forall>c\<in>set (fst b'). host_inst c)) bs bs'"
proof -
  obtain ra where ra: "NewQRegAlloc vi = Inr ra" using NewQRegAlloc_ok [OF assms(1)] by blast
  show ?thesis using ra_blocks_ok [OF assms(1) Prologue_ok [OF assms(1) ra] assms(2)] ra
    by (auto simp: QRegAllocPass_run_def QRegAlloc_Run_def dbind_def)
qed

text \<open>C40. Register allocation is correct. On a region whose blocks are well formed and selected, with at most 255 virtual
  registers, the pass returns: no register and no frame slot is missing and no track is dead when it is read.
  Every instruction of the result is a move between host registers and slots, or has its operands in
  registers that its constraints admit, the shared input in the output's register and constants the host can
  encode. Each block does on the host what it did on virtual registers: from the same CPU state and memory, with
  any registers, any spill frame and any effect of calls on the registers they may clobber, it leaves
  by the same branch, exit or trap with the same CPU state and memory.\<close>

theorem allocation_correct:
  assumes "info_ok vi" and "alloc_region_ok vi bs"
  shows "\<exists>bs'. QRegAllocPass_run bs vi = Some (Inr bs') \<and> length bs' = length bs \<and> (\<forall>b\<in>set bs'. \<forall>c\<in>set (fst b). host_inst c) \<and>
    (\<forall>clob k qs ms. bound qs ms \<and> exec_block (glob_info vi) bs k qs \<noteq> BStuck \<longrightarrow>
       rel_bres bound (exec_block (glob_info vi) bs k qs) (mexec_block clob bs' k ms))"
proof -
  obtain bs' where p: "QRegAllocPass_run bs vi = Some (Inr bs')"
      "list_all2 (\<lambda>b b'. snd b' = snd b \<and> code_sim vi bound (fst b) (fst b') \<and> (\<forall>c\<in>set (fst b'). host_inst c)) bs bs'"
    using pass_ok [OF assms] by blast
  have "\<forall>b\<in>set bs'. \<forall>c\<in>set (fst b). host_inst c" using p(2) unfolding list_all2_conv_all_nth by (metis in_set_conv_nth)
  then show ?thesis using p(1) list_all2_lengthD [OF p(2)] code_sim_exec [OF p(2)] by auto
qed

text \<open>Two state registers and a local: \<open>l = g0; l += g1; g0 = l << g1; call; brcc l < g0\<close>, and a block that leaves.\<close>

definition alloc_demo :: "rview" where
  "alloc_demo =
     [([InstUnop q_mov (MakeVGPR I32 2) (MakeVGPR I32 0), InstBinop q_add (MakeVGPR I32 2) (MakeVGPR I32 2) (MakeVGPR I32 1),
        InstUnop q_mov (MakeVGPR I32 0) (MakeVGPR I32 2), InstBinop q_sll (MakeVGPR I32 0) (MakeVGPR I32 0) (MakeVGPR I32 1),
        InstHcall id_rv32_fence (MakeConst I32 0), InstBrcc LT (MakeVGPR I32 2) (MakeVGPR I32 0)], [1, 1]),
      ([InstGBr (MakeConst I32 8)], [])]"

definition alloc_demo_info :: VRegsInfo where
  "alloc_demo_info =
     \<lparr>glob_info = \<lparr>si_regs = [\<lparr>state_offs = 4, sr_type = I32, sr_name = ''a''\<rparr>, \<lparr>state_offs = 8, sr_type = I32, sr_name = ''b''\<rparr>]\<rparr>, loc_info = [I32]\<rparr>"

lemma alloc_demo_ok: "info_ok alloc_demo_info" "alloc_region_ok alloc_demo_info alloc_demo"
proof -
  show "info_ok alloc_demo_info" by (simp add: info_ok_def alloc_demo_info_def offs_distinct_def offs_ok_def NumAll_def si_n_regs_def)
  have "same_vgpr (MakeVGPR t r) (MakeVGPR t' r)" for t t' r using same_vgpr_view [of "MakeVGPR t' r" t' r "MakeVGPR t r"] by simp
  then have "\<forall>b\<in>set alloc_demo. \<forall>c\<in>set (fst b). selected c"
    by (simp add: alloc_demo_def selected_mov) (simp add: selected_def meets_ct_def ct_values make_def_def SetAlias_def All_less_Suc2 is_view(4) Let_def)
  then show "alloc_region_ok alloc_demo_info alloc_demo"
    by (simp add: alloc_region_ok_def alloc_demo_def inst_ok_def in_ok_def out_ok_def out_regs_def globals_def NumGlobals_def NumAll_def
        alloc_demo_info_def si_n_regs_def ip_reg_def goffs_def type_of_def InstBinop_HasOpcode_def)
qed

theorem allocation_correct_witness:
  "\<exists>bs'. QRegAllocPass_run alloc_demo alloc_demo_info = Some (Inr bs') \<and> length bs' = length alloc_demo \<and> (\<forall>b\<in>set bs'. \<forall>c\<in>set (fst b). host_inst c) \<and>
    (\<forall>clob k qs ms. bound qs ms \<and> exec_block (glob_info alloc_demo_info) alloc_demo k qs \<noteq> BStuck \<longrightarrow>
       rel_bres bound (exec_block (glob_info alloc_demo_info) alloc_demo k qs) (mexec_block clob bs' k ms))"
  by (rule allocation_correct [OF alloc_demo_ok])

end
