(* ===== verification/Host_Typed.thy ===== *)
theory Host_Typed
  imports Alloc_Correct
begin

text \<open>
  What emission requires of the code of a block beyond its registers: the types of the operands, that a branch is the last
  instruction and finds its successors, and that a region without a frame makes no calls. Selection and register
  allocation keep it.
\<close>

section \<open>Typed code\<close>

definition wide :: "VOperand \<Rightarrow> bool" where
  "wide v \<longleftrightarrow> oshape v = (I32, True, False)"

fun host_typed :: "instc \<Rightarrow> bool" where
  "host_typed (InstUnop op d a) \<longleftrightarrow> op = q_mov \<and> GetType d = GetType a \<and> GetType a \<noteq> UNDEF \<and> in_frame d \<and> in_frame a"
| "host_typed (InstBinop op d a b) \<longleftrightarrow> InstBinop_HasOpcode op \<and> wide d \<and> wide a \<and> wide b"
| "host_typed (InstSetcc cc d a b) \<longleftrightarrow> wide d \<and> wide a \<and> wide b"
| "host_typed (InstBrcc cc a b) \<longleftrightarrow> wide a \<and> wide b"
| "host_typed (InstGBrind t) \<longleftrightarrow> wide t"
| "host_typed (InstVMLoad sz sg d p) \<longleftrightarrow> sz \<noteq> UNDEF \<and> wide d \<and> wide p"
| "host_typed (InstVMStore sz sg p v) \<longleftrightarrow> sz \<noteq> UNDEF \<and> sg = VU \<and> wide p \<and> oshape v = (sz, True, False)"
| "host_typed InstBr \<longleftrightarrow> True"
| "host_typed (InstGBr t) \<longleftrightarrow> IsConst t \<and> GetType t = I32"
| "host_typed (InstHcall stub arg) \<longleftrightarrow> IsConst arg \<and> GetType arg = I32"

text \<open>How many successors an instruction looks up.\<close>

fun succs_used :: "instc \<Rightarrow> nat" where
  "succs_used InstBr = 1"
| "succs_used (InstBrcc cc a b) = 2"
| "succs_used _ = 0"

primrec typed_code :: "bool \<Rightarrow> nat \<Rightarrow> instc list \<Rightarrow> bool" where
  "typed_code leaf n [] \<longleftrightarrow> True"
| "typed_code leaf n (c # cs) \<longleftrightarrow>
     host_typed c \<and> succs_used c \<le> n \<and> (leaf \<longrightarrow> \<not> is_call c) \<and> (ends c \<longrightarrow> cs = []) \<and> typed_code leaf n cs"

definition typed_region :: "bool \<Rightarrow> rview \<Rightarrow> bool" where
  "typed_region leaf bs \<longleftrightarrow> (\<forall>b\<in>set bs. typed_code leaf (length (snd b)) (fst b) \<and> (\<forall>s\<in>set (snd b). s < length bs))"

text \<open>Moves in front of an instruction.\<close>

definition is_mov :: "instc \<Rightarrow> bool" where
  "is_mov c \<longleftrightarrow> (\<exists>d a. c = InstUnop q_mov d a) \<and> host_typed c"

lemma typed_movs: "\<forall>c\<in>set pre. is_mov c \<Longrightarrow> typed_code leaf n cs \<Longrightarrow> typed_code leaf n (pre @ cs)"
  by (induction pre) (auto simp: is_mov_def)

lemma oshape_inj: "oshape v = oshape w \<longleftrightarrow> GetType v = GetType w \<and> in_frame v = in_frame w \<and> is_slot v = is_slot w"
  by (simp add: oshape_def)

lemma wideD: "wide v \<Longrightarrow> GetType v = I32 \<and> in_frame v \<and> \<not> is_slot v"
  by (simp add: wide_def oshape_def)

text \<open>Other operands of the same shape.\<close>

lemma same_shapes:
  assumes "map oshape srcl = map oshape (inputs c)" and "map oshape dstl = map oshape (outputs c)" and "host_typed c"
  shows "host_typed (set_outputs dstl (set_inputs srcl c))" and "succs_used (set_outputs dstl (set_inputs srcl c)) = succs_used c"
    and "is_call (set_outputs dstl (set_inputs srcl c)) = is_call c" and "ends (set_outputs dstl (set_inputs srcl c)) = ends c"
  using assms by (cases c; auto simp: map_eq_Cons_conv wide_def oshape_inj [symmetric]; auto simp: oshape_inj)+

section \<open>Allocation\<close>

lemma host_mov_typed: "host_mov c \<Longrightarrow> is_mov c"
  by (auto simp: host_mov_def is_mov_def)

lemma slots_in_pre [simp]: "slots_in (ra\<lparr>ra_pre := cs\<rparr>) = slots_in ra"
  by (simp add: slots_in_def)

lemma ra_block_typed:
  assumes "ra_block cs ra = Some (Inr (cs', ra'))" and "slots_in ra" and "typed_code leaf n cs"
  shows "typed_code leaf n cs' \<and> slots_in ra'"
  using assms
proof (induction cs arbitrary: ra cs')
  case (Cons c cs)
  obtain c' ra1 cs1 where v: "QRegAllocVisitor c (ra\<lparr>ra_pre := []\<rparr>) = Some (Inr (c', ra1))" "ra_block cs ra1 = Some (Inr (cs1, ra'))" "cs' = ra_pre ra1 @ c' # cs1"
    using Cons.prems(1) by (auto simp: dbind_def Let_def split: option.splits sum.splits)
  note m = visitor_movs [OF v(1)]
  have s1: "slots_in ra1" "\<forall>c\<in>set (ra_pre ra1). is_mov c" using m(1) Cons.prems(2) host_mov_typed by (auto simp: movs_def)
  have c: "host_typed c" "succs_used c \<le> n" "leaf \<longrightarrow> \<not> is_call c" "ends c \<longrightarrow> cs = []" "typed_code leaf n cs" using Cons.prems(3) by simp_all
  have c': "host_typed c' \<and> succs_used c' = succs_used c \<and> is_call c' = is_call c \<and> ends c' = ends c" using m(2) same_shapes [OF _ _ c(1)] c(1) by auto
  have ih: "typed_code leaf n cs1" "slots_in ra'" using Cons.IH [OF v(2) s1(1) c(5)] by simp_all
  have "ends c \<longrightarrow> cs1 = []" using c(4) v(2) by auto
  then have "typed_code leaf n (c' # cs1)" using c c' ih(1) by simp
  then show ?case unfolding v(3) using typed_movs [OF s1(2)] ih(2) by blast
qed simp

lemma ra_blocks_typed:
  assumes "ra_blocks bs ra = Some (Inr (bs', ra'))" and "slots_in ra" and "\<forall>b\<in>set bs. typed_code leaf (length (snd b)) (fst b)"
  shows "list_all2 (\<lambda>b b'. snd b' = snd b \<and> typed_code leaf (length (snd b)) (fst b')) bs bs'"
  using assms
proof (induction bs arbitrary: ra bs')
  case (Cons b bs)
  obtain cs ra1 bs1 where v: "ra_block (fst b) ra = Some (Inr (cs, ra1))" "ra_blocks bs ra1 = Some (Inr (bs1, ra'))" "bs' = (cs, snd b) # bs1"
    using Cons.prems(1) by (auto simp: dbind_def split: option.splits sum.splits)
  have "typed_code leaf (length (snd b)) cs" "slots_in ra1" using ra_block_typed [OF v(1) Cons.prems(2), of leaf "length (snd b)"] Cons.prems(3) by simp_all
  then show ?case using Cons.IH [OF v(2)] Cons.prems(3) v(3) by simp
qed simp

lemma typed_region_like:
  assumes "list_all2 (\<lambda>b b'. snd b' = snd b \<and> typed_code leaf (length (snd b)) (fst b')) bs bs'" and "\<forall>b\<in>set bs. \<forall>s\<in>set (snd b). s < length bs"
  shows "typed_region leaf bs'"
proof -
  have "typed_code leaf (length (snd b')) (fst b') \<and> (\<forall>s\<in>set (snd b'). s < length bs')" if b': "b' \<in> set bs'" for b'
  proof -
    obtain i where i: "i < length bs'" "b' = bs' ! i" using b' by (auto simp: in_set_conv_nth)
    have l: "length bs' = length bs" using list_all2_lengthD [OF assms(1)] by simp
    then have "snd b' = snd (bs ! i)" "typed_code leaf (length (snd (bs ! i))) (fst b')" "bs ! i \<in> set bs"
      using list_all2_nthD [OF assms(1), of i] i by simp_all
    then show ?thesis using assms(2) l by auto
  qed
  then show ?thesis by (simp add: typed_region_def)
qed

lemma pass_typed:
  assumes "info_ok vi" and "QRegAllocPass_run bs vi = Some (Inr bs')" and "typed_region leaf bs"
  shows "typed_region leaf bs'"
proof -
  obtain ra ra' where r: "NewQRegAlloc vi = Inr ra" "ra_blocks bs (ra_Prologue ra) = Some (Inr (bs', ra'))"
    using assms(2) by (auto simp: QRegAllocPass_run_def QRegAlloc_Run_def dbind_def split: option.splits sum.splits)
  have "slots_in (ra_Prologue ra)" using slots_in_inv [OF assms(1) Prologue_ok(1) [OF assms(1) r(1)]] .
  then show ?thesis using assms(3) by (intro typed_region_like [OF ra_blocks_typed [OF r(2)]]) (auto simp: typed_region_def)
qed

section \<open>Selection\<close>

text \<open>The state of selection for an instruction: only moves so far, and operands of the types they had.\<close>

definition sel_shape :: "VType list \<Rightarrow> sel_state \<Rightarrow> bool" where
  "sel_shape ts st \<longleftrightarrow> (\<forall>c\<in>set (sel_pre st). is_mov c) \<and> UNDEF \<notin> set ts \<and> map oshape (sel_srcl st) = map (\<lambda>t. (t, True, False)) ts"

lemma sel_shape_at: "sel_shape ts st \<Longrightarrow> i < length ts \<Longrightarrow> oshape (sel_srcl st ! i) = (ts ! i, True, False) \<and> ts ! i \<noteq> UNDEF"
  unfolding sel_shape_def by (metis length_map nth_map nth_mem)

lemma sel_shape_set:
  assumes "sel_shape ts st" and "i < length ts" and "oshape v = (ts ! i, True, False)"
  shows "sel_shape ts (st\<lparr>sel_srcl := (sel_srcl st)[i := v]\<rparr>)"
  using assms unfolding sel_shape_def by (simp add: map_update) (metis list_update_id map_update)

lemma sel_shape_mov:
  assumes "sel_shape ts st" and "GetType d = GetType v" and "GetType v \<noteq> UNDEF" and "in_frame d" and "in_frame v"
  shows "sel_shape ts (sel_mov d v st)"
  using assms by (simp add: sel_shape_def sel_mov_def is_mov_def)

lemma sel_temp_shape:
  assumes "sel_temp t st = (tmp, st1)"
  shows "oshape tmp = (t, True, False)" and "sel_shape ts st1 = sel_shape ts st" and "sel_srcl st1 = sel_srcl st"
  using assms by (auto simp: sel_temp_def sel_shape_def is_view(1) split: prod.splits)

lemma sel_const_shape:
  assumes "sel_shape ts st" and "i < length ts" and "sel_const op_ct dn i st = Inr st'"
  shows "sel_shape ts st'"
proof (cases "st' = st")
  case False
  obtain tmp st1 where t: "sel_temp (GetType (sel_srcl st ! i)) st = (tmp, st1)" by (cases "sel_temp (GetType (sel_srcl st ! i)) st")
  have e: "st' = (sel_mov tmp (sel_srcl st ! i) st1)\<lparr>sel_srcl := (sel_srcl (sel_mov tmp (sel_srcl st ! i) st1))[i := tmp]\<rparr>"
    using assms(3) False t by (auto simp: sel_const_def Let_def split: if_splits)
  note at = sel_shape_at [OF assms(1,2)] and s = sel_temp_shape [OF t]
  have "sel_shape ts (sel_mov tmp (sel_srcl st ! i) st1)" using assms(1) at s by (intro sel_shape_mov) (auto simp: oshape_def)
  then show ?thesis unfolding e using sel_shape_set [OF _ assms(2)] at s(1) by (simp add: oshape_def)
qed (use assms(1) in simp)

lemma sel_alias_shape:
  assumes "sel_shape ts st" and "i < length ts" and "ct_has_alias (op_ct ! (length dstl + i)) \<Longrightarrow> set ts \<subseteq> {I32} \<and> GetType (dstl ! ct_alias (op_ct ! (length dstl + i))) = I32"
    and "sel_alias op_ct dstl i st = Inr st'"
  shows "sel_shape ts st'"
proof (cases "st' = st")
  case False
  let ?d = "dstl ! ct_alias (op_ct ! (length dstl + i))" and ?s = "sel_srcl st ! i"
  have al: "ct_has_alias (op_ct ! (length dstl + i))" "IsVGPR ?d" using assms(4) False by (auto simp: sel_alias_def Let_def split: if_splits)
  have t: "set ts \<subseteq> {I32}" "GetType ?d = I32" using assms(3) al(1) by simp_all
  have all: "ts ! k = I32" if "k < length ts" for k using t(1) nth_mem [OF that] by blast
  have d: "oshape ?d = (I32, True, False)" using al(2) t(2) by simp
  note at = sel_shape_at [OF assms(1,2)]
  let ?ks = "other_inputs i ?d (sel_srcl st)"
  define st2 where "st2 = (if ?ks \<noteq> []
                    then let (tmp, st) = sel_temp (GetType ?d) st; st = sel_mov tmp ?d st
                         in st\<lparr>sel_srcl := map (\<lambda>k. if k \<in> set ?ks then tmp else sel_srcl st ! k) [0..<length (sel_srcl st)]\<rparr>
                    else st)"
  have e: "st' = (sel_mov ?d ?s st2)\<lparr>sel_srcl := (sel_srcl (sel_mov ?d ?s st2))[i := ?d]\<rparr>"
    using assms(4) False al by (simp add: sel_alias_def Let_def st2_def split: if_splits)
  have "sel_shape ts st2"
  proof (cases "?ks = []")
    case True
    then show ?thesis using assms(1) by (simp add: st2_def)
  next
    case False
    obtain tmp st1 where tm: "sel_temp (GetType ?d) st = (tmp, st1)" by (cases "sel_temp (GetType ?d) st")
    note s = sel_temp_shape [OF tm]
    have m: "sel_shape ts (sel_mov tmp ?d st1)" using assms(1) s d t(2) by (intro sel_shape_mov) (auto simp: oshape_def)
    have e2: "st2 = (sel_mov tmp ?d st1)\<lparr>sel_srcl := map (\<lambda>k. if k \<in> set ?ks then tmp else sel_srcl st ! k) [0..<length (sel_srcl st)]\<rparr>"
      using False tm s(3) by (simp add: st2_def sel_mov_def Let_def)
    have l: "length (sel_srcl st) = length ts" using assms(1) by (auto simp: sel_shape_def dest: map_eq_imp_length_eq)
    have "map oshape (map (\<lambda>k. if k \<in> set ?ks then tmp else sel_srcl st ! k) [0..<length (sel_srcl st)]) = map (\<lambda>t. (t, True, False)) ts"
      using l s(1) t(2) all sel_shape_at [OF assms(1)] by (intro nth_equalityI) auto
    then show ?thesis using m unfolding e2 sel_shape_def by simp
  qed
  then have "sel_shape ts (sel_mov ?d ?s st2)" using at d all [OF assms(2)] by (intro sel_shape_mov) (auto simp: oshape_def)
  then show ?thesis unfolding e using sel_shape_set [OF _ assms(2)] d all [OF assms(2)] by simp
qed (use assms(1) in simp)

lemma sel_loop_shape:
  assumes "\<And>i st st'. i \<in> set is \<Longrightarrow> sel_shape ts st \<Longrightarrow> f i st = Inr st' \<Longrightarrow> sel_shape ts st'" and "sel_shape ts st" and "sel_loop f is st = Inr st'"
  shows "sel_shape ts st'"
  using assms
proof (induction "is" arbitrary: st)
  case (Cons i "is")
  then obtain st1 where "f i st = Inr st1" "sel_loop f is st1 = Inr st'" by auto
  then show ?case using Cons.IH [of st1] Cons.prems(1,2) by auto
qed simp

text \<open>The types of an instruction's inputs, when they are all registers or constants.\<close>

definition flat :: "instc \<Rightarrow> bool" where
  "flat c \<longleftrightarrow> (\<forall>v\<in>set (inputs c). in_frame v \<and> \<not> is_slot v \<and> GetType v \<noteq> UNDEF)"

lemma alias_types:
  assumes "ra_info (GetOpcode c) = Some (op_ct, ord)" and "host_typed c" and "i < length (inputs c)" and "ct_has_alias (op_ct ! (length (outputs c) + i))"
  shows "set (map GetType (inputs c)) \<subseteq> {I32} \<and> GetType (outputs c ! ct_alias (op_ct ! (length (outputs c) + i))) = I32"
proof (cases c)
  case (InstBinop op d a b)
  then have t: "GetType d = I32" "GetType a = I32" "GetType b = I32" "InstBinop_HasOpcode op" using assms(2) wideD by auto
  then show ?thesis using assms(1,3,4) InstBinop
    by (cases op) (auto simp: InstBinop_HasOpcode_def ct_values make_def_def SetAlias_def Let_def less_Suc_eq)
qed (use assms in \<open>auto simp: ct_values make_def_def less_Suc_eq\<close>)

lemma SelectOperands_typed:
  assumes "SelectOperands c vi = Inr (pre, c', vi')" and "host_typed c" and "flat c"
  shows "(\<forall>m\<in>set pre. is_mov m) \<and> (\<exists>srcl. c' = set_inputs srcl c \<and> map oshape srcl = map oshape (inputs c))"
proof -
  obtain op_ct ord where info: "ra_info (GetOpcode c) = Some (op_ct, ord)" using assms(1) by (auto simp: SelectOperands_def split: option.splits)
  let ?idx = "[0..<length (inputs c)]" and ?st = "\<lparr>sel_pre = [], sel_srcl = inputs c, sel_vregs = vi\<rparr>" and ?ts = "map GetType (inputs c)"
  obtain st1 st2 where s: "sel_loop (sel_alias op_ct (outputs c)) ?idx ?st = Inr st1" "sel_loop (sel_const op_ct (length (outputs c))) ?idx st1 = Inr st2"
      "pre = sel_pre st2" "c' = set_inputs (sel_srcl st2) c" using assms(1) info by (auto simp: SelectOperands_def Let_def)
  have i0: "sel_shape ?ts ?st" using assms(3) by (auto simp: sel_shape_def flat_def oshape_def)
  have "sel_shape ?ts st'" if i: "i \<in> set ?idx" and st: "sel_shape ?ts st" "sel_alias op_ct (outputs c) i st = Inr st'" for i st st'
    using i by (intro sel_alias_shape [OF st(1) _ _ st(2)] alias_types [OF info assms(2)]) simp_all
  then have "sel_shape ?ts st1" using i0 s(1) by (rule sel_loop_shape)
  moreover have "sel_shape ?ts st'" if i: "i \<in> set ?idx" and st: "sel_shape ?ts st" "sel_const op_ct (length (outputs c)) i st = Inr st'" for i st st'
    using i by (intro sel_const_shape [OF st(1) _ st(2)]) simp
  ultimately have "sel_shape ?ts st2" using s(2) sel_loop_shape by blast
  moreover have "map (\<lambda>t. (t, True, False)) ?ts = map oshape (inputs c)" using assms(3) by (auto simp: flat_def oshape_def)
  ultimately show ?thesis using s(3,4) by (auto simp: sel_shape_def)
qed

lemma set_outputs_same [simp]: "set_outputs (outputs c) (set_inputs srcl c) = set_inputs srcl c"
proof -
  have "set_outputs (outputs c) c = c" for c by (cases c) simp_all
  then show ?thesis by (cases "(srcl, c)" rule: set_inputs.cases) simp_all
qed

lemma visitor_typed:
  assumes "QSelVisitor c vi = Inr (pre, c', vi')" and "host_typed c" and "flat c"
  shows "(\<forall>m\<in>set pre. is_mov m) \<and> host_typed c' \<and> succs_used c' = succs_used c \<and> is_call c' = is_call c \<and> ends c' = ends c"
proof (cases "pre = [] \<and> c' = c")
  case False
  then have "SelectOperands c vi = Inr (pre, c', vi')" using assms(1) by (cases c) (auto simp: QSelVisitor_def)
  from SelectOperands_typed [OF this assms(2,3)] obtain srcl where s: "\<forall>m\<in>set pre. is_mov m" "c' = set_inputs srcl c" "map oshape srcl = map oshape (inputs c)" by blast
  show ?thesis using same_shapes [OF s(3) refl assms(2)] s(1,2) by simp
qed (use assms(2) in simp)

lemma call_flag: "GetOpFlags (GetOpcode c) AND Inst_HAS_CALLS = 0 \<Longrightarrow> \<not> is_call c"
  by (cases c) (auto simp: Inst_HAS_CALLS_def Inst_SIDEEFF_def)

lemma typed_code_leaf: "typed_code leaf n cs \<Longrightarrow> (leaf' \<Longrightarrow> leaf) \<Longrightarrow> typed_code leaf' n cs"
  by (induction cs) auto

lemma sel_block_typed:
  assumes "sel_block cs vi hc = Inr (cs', vi', hc')" and "typed_code False n cs" and "\<forall>c\<in>set cs. flat c"
  shows "typed_code (\<not> hc') n cs' \<and> (hc \<longrightarrow> hc')"
  using assms
proof (induction cs arbitrary: vi hc cs')
  case (Cons c cs)
  obtain pre c' vi1 cs1 where s: "QSelVisitor c vi = Inr (pre, c', vi1)"
      "sel_block cs vi1 (hc \<or> GetOpFlags (GetOpcode c') AND Inst_HAS_CALLS \<noteq> 0) = Inr (cs1, vi', hc')" "cs' = pre @ c' # cs1"
    using Cons.prems(1) by auto
  have v: "\<forall>m\<in>set pre. is_mov m" "host_typed c'" "succs_used c' = succs_used c" "ends c' = ends c"
    using visitor_typed [OF s(1)] Cons.prems(2,3) by auto
  have ih: "typed_code (\<not> hc') n cs1" "hc \<longrightarrow> hc'" "GetOpFlags (GetOpcode c') AND Inst_HAS_CALLS \<noteq> 0 \<longrightarrow> hc'"
    using Cons.IH [OF s(2)] Cons.prems(2,3) by auto
  have "ends c \<longrightarrow> cs1 = []" using Cons.prems(2) s(2) by auto
  then have "typed_code (\<not> hc') n (c' # cs1)" using v ih Cons.prems(2) call_flag [of c'] by auto
  then show ?case unfolding s(3) using typed_movs [OF v(1)] ih(2) by blast
qed simp

lemma QSel_typed:
  assumes "QSel_Run bs vi hc = Inr (bs', vi', hc')" and "\<forall>b\<in>set bs. typed_code False (length (snd b)) (fst b) \<and> (\<forall>c\<in>set (fst b). flat c)"
  shows "list_all2 (\<lambda>b b'. snd b' = snd b \<and> typed_code (\<not> hc') (length (snd b)) (fst b')) bs bs' \<and> (hc \<longrightarrow> hc')"
  using assms
proof (induction bs arbitrary: vi hc bs')
  case (Cons b bs)
  obtain cs vi1 hc1 bs1 where s: "sel_block (fst b) vi hc = Inr (cs, vi1, hc1)" "QSel_Run bs vi1 hc1 = Inr (bs1, vi', hc')" "bs' = (cs, snd b) # bs1"
    using Cons.prems(1) by auto
  have v: "typed_code (\<not> hc1) (length (snd b)) cs" "hc \<longrightarrow> hc1" using sel_block_typed [OF s(1), of "length (snd b)"] Cons.prems(2) by simp_all
  have ih: "list_all2 (\<lambda>b b'. snd b' = snd b \<and> typed_code (\<not> hc') (length (snd b)) (fst b')) bs bs1" "hc1 \<longrightarrow> hc'" using Cons.IH [OF s(2)] Cons.prems(2) by simp_all
  then show ?case using s(3) v typed_code_leaf [OF v(1), of "\<not> hc'"] by auto
qed simp

lemma selected_typed:
  assumes "QSelPass_run bs vi = Inr (bs', vi', hc)" and "typed_region False bs" and "\<forall>b\<in>set bs. \<forall>c\<in>set (fst b). flat c"
  shows "typed_region (\<not> hc) bs'"
proof (rule typed_region_like)
  show "list_all2 (\<lambda>b b'. snd b' = snd b \<and> typed_code (\<not> hc) (length (snd b)) (fst b')) bs bs'"
    using QSel_typed [of bs vi False bs' vi' hc] assms by (auto simp: QSelPass_run_def typed_region_def)
  show "\<forall>b\<in>set bs. \<forall>s\<in>set (snd b). s < length bs" using assms(2) by (simp add: typed_region_def)
qed

end
