(* ===== verification/Region_Shape.thy ===== *)
theory Region_Shape
  imports Select_Correct Host_Typed
begin

text \<open>
  The shape of the code that reaches the allocator: in a block of a translated region every local register is
  written before it is read, the program counter is only written through its slot, a branch is the last
  instruction and has its successors, the block ends in a branch or a call, and operands have the types emission expects.
\<close>

section \<open>The shape of a block\<close>

definition op_in :: "nat set \<Rightarrow> VOperand \<Rightarrow> bool" where
  "op_in D v \<longleftrightarrow> (case view_of v of VVirt t r \<Rightarrow> unat r \<in> D | _ \<Rightarrow> True)"

definition dst_in :: "VOperand \<Rightarrow> bool" where
  "dst_in d \<longleftrightarrow> (case view_of d of VVirt t r \<Rightarrow> unat r \<noteq> 31 | VSlot g t k \<Rightarrow> k = 128 | _ \<Rightarrow> True)"

definition fe_inst :: "nat set \<Rightarrow> instc \<Rightarrow> bool" where
  "fe_inst D c \<longleftrightarrow> host_typed c \<and> (\<forall>v\<in>set (inputs c). op_in D v) \<and> (\<forall>d\<in>set (outputs c). dst_in d)"

primrec fe_code :: "nat set \<Rightarrow> instc list \<Rightarrow> bool" where
  "fe_code D [] \<longleftrightarrow> True"
| "fe_code D (c # cs) \<longleftrightarrow> fe_inst D c \<and> (ends c \<longrightarrow> cs = []) \<and> fe_code (D \<union> set (out_regs (outputs c))) cs"

definition code_defs :: "instc list \<Rightarrow> nat set" where
  "code_defs cs = (\<Union>c\<in>set cs. set (out_regs (outputs c)))"

definition closed_code :: "instc list \<Rightarrow> bool" where
  "closed_code cs \<longleftrightarrow> cs = [] \<or> ends (last cs) \<or> is_call (last cs)"

text \<open>A block that is finished; \<open>k\<close> of its successors are still to be added.\<close>

definition finished :: "nat \<Rightarrow> instc list \<times> nat list \<Rightarrow> bool" where
  "finished k b \<longleftrightarrow> closed_code (fst b) \<and> (\<forall>c\<in>set (fst b). succs_used c \<le> length (snd b) + k)"

lemma fe_code_snoc: "fe_code D (cs @ [c]) \<longleftrightarrow> fe_code D cs \<and> (\<forall>x\<in>set cs. \<not> ends x) \<and> fe_inst (D \<union> code_defs cs) c"
  by (induction cs arbitrary: D) (auto simp: code_defs_def Un_assoc)

lemma op_in_mono: "op_in D v \<Longrightarrow> D \<subseteq> E \<Longrightarrow> op_in E v"
  by (auto simp: op_in_def split: view.splits)

lemma fe_inst_mono: "fe_inst D c \<Longrightarrow> D \<subseteq> E \<Longrightarrow> fe_inst E c"
  using op_in_mono unfolding fe_inst_def by blast

lemma folded_shape:
  "outputs (folded c) = outputs c" "ends (folded c) = ends c" "is_call (folded c) = is_call c" "fe_inst D c \<Longrightarrow> fe_inst D (folded c)"
  "succs_used (folded c) = succs_used c"
proof -
  have "outputs (folded c) = outputs c \<and> ends (folded c) = ends c \<and> is_call (folded c) = is_call c \<and> (fe_inst D c \<longrightarrow> fe_inst D (folded c)) \<and> succs_used (folded c) = succs_used c"
  proof (cases "\<exists>d a b. c = InstBinop q_add d a b")
    case True
    then obtain d a b where c: "c = InstBinop q_add d a b" by blast
    have "op_in D (MakeConst I32 k)" "in_frame (MakeConst I32 k)" for k by (simp_all add: op_in_def in_frame_def)
    then show ?thesis using folded_add_cases [of d a b] wideD unfolding c by (auto simp: fe_inst_def)
  next
    case False
    then have "folded c = c" by (cases c) (auto simp: folded_def FolderVisitor_visit_def)
    then show ?thesis by simp
  qed
  then show "outputs (folded c) = outputs c" "ends (folded c) = ends c" "is_call (folded c) = is_call c" "fe_inst D c \<Longrightarrow> fe_inst D (folded c)"
    "succs_used (folded c) = succs_used c" by simp_all
qed

section \<open>The translator keeps the shape\<close>

definition gregs :: "nat set" where "gregs = {0..<31}"

definition i32_locals :: "RV32Translator \<Rightarrow> bool" where
  "i32_locals t \<longleftrightarrow> set (loc_info (vregs_info (t_region t))) \<subseteq> {I32}"

definition shaped :: "RV32Translator \<Rightarrow> bool" where
  "shaped t \<longleftrightarrow> t_ok t \<and> i32_locals t \<and> (\<forall>b\<in>set (tview t). fe_code gregs (fst b))"

text \<open>The current block is open and \<open>D\<close> are registers it may read; all others are closed.\<close>

definition opened :: "nat set \<Rightarrow> RV32Translator \<Rightarrow> bool" where
  "opened D t \<longleftrightarrow> shaped t \<and> D \<subseteq> gregs \<union> code_defs (fst (tview t ! cur t)) \<and> (\<forall>c\<in>set (fst (tview t ! cur t)). \<not> ends c) \<and>
     (\<forall>j<length (tview t). j \<noteq> cur t \<longrightarrow> finished 0 (tview t ! j))"

definition closed_but :: "nat \<Rightarrow> RV32Translator \<Rightarrow> bool" where
  "closed_but k t \<longleftrightarrow> shaped t \<and> (\<forall>j<length (tview t). finished (if j = cur t then k else 0) (tview t ! j))"

definition all_closed :: "RV32Translator \<Rightarrow> bool" where
  "all_closed t \<longleftrightarrow> shaped t \<and> (\<forall>b\<in>set (tview t). finished 0 b)"

lemma closed_but_0: "closed_but 0 t \<longleftrightarrow> all_closed t"
  unfolding closed_but_def all_closed_def by (metis in_set_conv_nth)

lemma emit_info:
  assumes "t_ok t" and "inst_ctor_ok c" and "emit c t = Inr t'"
  shows "vregs_info (t_region t') = vregs_info (t_region t)"
proof -
  have nb: "NewBuilder (cur t) = t_qb t" and bb: "cur t < length (blist (t_region t))" and wf: "region_wf (t_region t)" using assms(1) by (simp_all add: t_ok_def)
  obtain rn' where "Create_at_end (cur t) c (t_region t) = Inr rn'" "vregs_info rn' = vregs_info (t_region t)"
    using qb.create_ok [OF wf _ assms(2), of "cur t"] bb by auto
  then show ?thesis using assms(3) by (auto simp: Create_at_end_def emit_def nb)
qed

lemma emit_shaped:
  assumes "opened D t" and "inst_ctor_ok c" and "fe_inst D c" and "emit c t = Inr t'"
  shows "shaped t'" and "tview t' = view_append (cur t) [folded c] (tview t)" and "cur t' = cur t" and "cur t < length (tview t)"
proof -
  have ok: "t_ok t" "i32_locals t" "\<forall>b\<in>set (tview t). fe_code gregs (fst b)" using assms(1) by (simp_all add: opened_def shaped_def)
  have e: "emits t 0 [c] t'" using emit_emits [OF ok(1) assms(2)] assms(4) by (metis sum.inject(2))
  show l: "cur t < length (tview t)" using ok(1) by (simp add: t_ok_def)
  show v: "tview t' = view_append (cur t) [folded c] (tview t)" using e by (simp add: emits_def)
  show "cur t' = cur t" using emits_fields(1) [OF e] by simp
  let ?cs = "fst (tview t ! cur t)"
  have "fe_inst (gregs \<union> code_defs ?cs) (folded c)" using fe_inst_mono [OF folded_shape(4) [OF assms(3)]] assms(1) by (simp add: opened_def)
  then have "fe_code gregs (?cs @ [folded c])" using assms(1) ok(3) nth_mem [OF l] by (simp add: fe_code_snoc opened_def)
  then have "\<forall>b\<in>set (tview t'). fe_code gregs (fst b)" using ok(3) set_update_subset_insert [of "tview t"] unfolding v view_append_def by fastforce
  then show "shaped t'" using emits_fields(7) [OF e] ok(2) emit_info [OF ok(1) assms(2,4)] by (simp add: shaped_def i32_locals_def)
qed

lemma code_defs_snoc [simp]: "code_defs (cs @ [c]) = code_defs cs \<union> set (out_regs (outputs c))"
  by (auto simp: code_defs_def)

lemma opened_emit:
  assumes "opened D t" and "inst_ctor_ok c" and "fe_inst D c" and "emit c t = Inr t'" and "\<not> ends c"
  shows "opened (D \<union> set (out_regs (outputs c))) t'"
proof -
  note e = emit_shaped [OF assms(1-4)]
  have "fst (tview t' ! cur t) = fst (tview t ! cur t) @ [folded c]" using e(2,4) by (simp add: view_append_def)
  then show ?thesis using assms(1,5) e folded_shape(1,2) [of c] by (auto simp: opened_def view_append_def)
qed

lemma no_ends_succs: "\<forall>c\<in>set cs. \<not> ends c \<Longrightarrow> c \<in> set cs \<Longrightarrow> succs_used c = 0"
  by (cases c) auto

lemma closed_emit:
  assumes "opened D t" and "inst_ctor_ok c" and "fe_inst D c" and "emit c t = Inr t'" and "ends c \<or> is_call c"
  shows "closed_but (succs_used c) t'"
proof -
  note e = emit_shaped [OF assms(1-4)]
  have "finished (if j = cur t then succs_used c else 0) (tview t' ! j)" if "j < length (tview t')" for j
    using that assms(1,5) e(2,4) folded_shape(2,3,5) [of c] no_ends_succs [of "fst (tview t ! cur t)"]
    by (cases "j = cur t") (auto simp: finished_def closed_code_def opened_def view_append_def)
  then show ?thesis using e(1,3) unfolding closed_but_def by simp
qed

lemma opened_mono: "opened D t \<Longrightarrow> E \<subseteq> D \<Longrightarrow> opened E t"
  unfolding opened_def by blast

lemma opened_gregs: "opened D t \<Longrightarrow> opened (D \<union> gregs) t"
  unfolding opened_def by blast

lemma opened_record [simp]: "opened D (record_ev e t) = opened D t" "all_closed (record_ev e t) = all_closed t"
  by (simp_all add: opened_def all_closed_def shaped_def i32_locals_def record_ev_def t_ok_def)

lemma opened_temp:
  assumes "opened D t" and "nloc t + 33 \<le> 2 ^ 16"
  shows "\<exists>r t'. vtemp I32 t = (MakeVGPR I32 r, t') \<and> 32 \<le> unat r \<and> opened D t'"
proof -
  have ok: "t_ok t" using assms(1) by (simp add: opened_def shaped_def)
  obtain r t' where v: "vtemp I32 t = (MakeVGPR I32 r, t')" "32 \<le> unat r" "emits t 1 [] t'" using vtemp_emits [OF ok assms(2)] by blast
  have "loc_info (vregs_info (t_region t')) = loc_info (vregs_info (t_region t)) @ [I32]"
    using v(1) by (auto simp: vtemp_def CreateVGPR_def AddLocal_def Let_def split: prod.splits)
  moreover have "tview t' = tview t" "t_qb t' = t_qb t" "t_ok t'" using v(3) emits_fields [OF v(3)] by (simp_all add: emits_def)
  ultimately have "opened D t'" using assms(1) unfolding opened_def shaped_def i32_locals_def by simp
  then show ?thesis using v(1,2) by blast
qed

lemma op_in_vop: "gregs \<subseteq> D \<Longrightarrow> unat r < 32 \<Longrightarrow> op_in D (vop r ty)"
  using vgpr_idx [of r] by (auto simp: op_in_def vop_def gregs_def)

lemma op_in_const [simp]: "op_in D (vconst x ty)"
  by (simp add: op_in_def vconst_def)

lemma op_in_tmp [simp]: "op_in D (MakeVGPR ty r) \<longleftrightarrow> unat r \<in> D" "dst_in (MakeVGPR ty r) \<longleftrightarrow> unat r \<noteq> 31" "out_regs [MakeVGPR ty r] = [unat r]"
  by (simp_all add: op_in_def dst_in_def out_regs_def)

lemma dst_in_vop: "r \<noteq> 0 \<Longrightarrow> unat r < 32 \<Longrightarrow> dst_in (vop r ty)"
  using vgpr_idx [of r] by (auto simp: dst_in_def vop_def)


text \<open>Computations on the translator that leave the current block open, and those that close it.\<close>

definition keeps_open :: "RV32Translator res \<Rightarrow> bool" where
  "keeps_open r \<longleftrightarrow> (\<forall>t'. r = Inr t' \<longrightarrow> opened gregs t')"

definition closes_all :: "RV32Translator res \<Rightarrow> bool" where
  "closes_all r \<longleftrightarrow> (\<forall>t'. r = Inr t' \<longrightarrow> all_closed t')"

lemma keeps_open_emit: "opened D t \<Longrightarrow> inst_ctor_ok c \<Longrightarrow> fe_inst D c \<Longrightarrow> \<not> ends c \<Longrightarrow> keeps_open (emit c t)"
  using opened_emit opened_gregs opened_mono unfolding keeps_open_def by (metis sup_ge2)

lemma closes_all_emit:
  assumes "opened D t" and "inst_ctor_ok c" and "fe_inst D c" and "ends c \<or> is_call c" and "succs_used c = 0"
  shows "closes_all (emit c t)"
  using closed_emit [OF assms(1-3) _ assms(4)] assms(5) unfolding closes_all_def by (simp add: closed_but_0)

lemma op_shapes [simp]:
  "GetType (vop r t) = t" "GetType (vconst x t) = t" "GetType (MakeVGPR t q) = t" "GetType (MakeSlot g t k) = t" "IsConst (vconst x t)"
  "in_frame (vop r t)" "in_frame (vconst x t)" "in_frame (MakeVGPR t q)" "in_frame (MakeSlot True t k)"
  "oshape (vop r t) = (t, True, False)" "oshape (vconst x t) = (t, True, False)" "wide (vop r I32)" "wide (vconst x I32)" "wide (MakeVGPR I32 q)"
  by (auto simp: vop_def vconst_def oshape_def wide_def in_frame_def is_slot_def is_view(2))

lemma keeps_open_Inr [simp]: "keeps_open (Inr t) \<longleftrightarrow> opened gregs t"
  by (simp add: keeps_open_def)

lemma keeps_open_bind: "keeps_open r \<Longrightarrow> (\<And>t. opened gregs t \<Longrightarrow> keeps_open (f t)) \<Longrightarrow> keeps_open (rbind r f)"
  by (cases r) (auto simp: keeps_open_def)

lemma closes_all_bind: "keeps_open r \<Longrightarrow> (\<And>t. opened gregs t \<Longrightarrow> closes_all (f t)) \<Longrightarrow> closes_all (rbind r f)"
  by (cases r) (auto simp: closes_all_def keeps_open_def)

lemma reg_ops [simp]:
  "op_in gregs (vop (insn_rs1 i) ty)" "op_in gregs (vop (insn_rs2 i) ty)" "insn_rd i \<noteq> 0 \<Longrightarrow> dst_in (vop (insn_rd i) ty)"
  by (simp_all add: op_in_vop dst_in_vop)

lemma reg_ops_in: "gregs \<subseteq> D \<Longrightarrow> op_in D (vop (insn_rs1 i) ty)" "gregs \<subseteq> D \<Longrightarrow> op_in D (vop (insn_rs2 i) ty)"
  using op_in_mono reg_ops by blast+

lemma arith_open:
  assumes "opened gregs t"
  shows "InstBinop_HasOpcode op \<Longrightarrow> keeps_open (TRANSLATOR_ArithmRI op imm i t)" "InstBinop_HasOpcode op \<Longrightarrow> keeps_open (TRANSLATOR_ArithmRR op i t)"
    "keeps_open (TranslateSetccR cc i t)" "keeps_open (TranslateSetccI cc i t)" "keeps_open (V_lui i t)" "keeps_open (V_auipc i t)"
    "keeps_open (TranslateHelper h i t)" "closes_all (TranslateHelper h i t)"
  using assms keeps_open_emit [OF assms] closes_all_emit [OF assms]
  by (simp_all add: TRANSLATOR_ArithmRI_def TRANSLATOR_ArithmRR_def TranslateSetccR_def TranslateSetccI_def V_lui_def V_auipc_def TranslateHelper_def fe_inst_def)

lemma vaddr_open:
  assumes "opened gregs t" and "nloc t + 33 \<le> 2 ^ 16" and "vaddr_op (insn_rs1 i) imm t = Inr (addr, t')"
  shows "\<exists>D. opened D t' \<and> gregs \<subseteq> D \<and> op_in D addr \<and> wide addr \<and> (imm \<noteq> 0 \<longrightarrow> dst_in addr)"
proof (cases "imm = 0")
  case True
  then show ?thesis using assms(1,3) by (auto simp: vaddr_op_def)
next
  case False
  obtain r t1 where v: "vtemp I32 t = (MakeVGPR I32 r, t1)" "32 \<le> unat r" "opened gregs t1" using opened_temp [OF assms(1,2)] by blast
  let ?c = "InstBinop q_add (MakeVGPR I32 r) (vop (insn_rs1 i) I32) (vconst imm I32)"
  have e: "emit ?c t1 = Inr t'" "addr = MakeVGPR I32 r" using assms(3) False v(1) by (auto simp: vaddr_op_def)
  have "opened (gregs \<union> set (out_regs (outputs ?c))) t'" using v(2) by (intro opened_emit [OF v(3) _ _ e(1)]) (auto simp: fe_inst_def)
  then show ?thesis using e(2) v(2) by (intro exI [of _ "gregs \<union> {unat r}"]) auto
qed

lemma load_open:
  assumes "opened gregs t" and "nloc t + 33 \<le> 2 ^ 16" and "\<not> (insn_rd i = 0 \<and> I_immx i = 0)" and "ty \<noteq> UNDEF"
  shows "keeps_open (TranslateLoad ty sg i t)"
  unfolding keeps_open_def
proof (intro allI impI)
  fix t' assume r: "TranslateLoad ty sg i t = Inr t'"
  then obtain addr t1 where a: "vaddr_op (insn_rs1 i) (I_immx i) t = Inr (addr, t1)" by (auto simp: TranslateLoad_def)
  obtain D where D: "opened D t1" "op_in D addr" "I_immx i \<noteq> 0 \<longrightarrow> dst_in addr" "wide addr" using vaddr_open [OF assms(1,2) a] by blast
  obtain d where d: "emit (InstVMLoad ty sg d addr) t1 = Inr t'" "dst_in d" "wide d"
    using r a D(3,4) assms(3) by (cases "insn_rd i = 0") (auto simp: TranslateLoad_def)
  then show "opened gregs t'" using keeps_open_emit [OF D(1), of "InstVMLoad ty sg d addr"] D(2,4) assms(4) by (simp add: keeps_open_def fe_inst_def)
qed

lemma store_open:
  assumes "opened gregs t" and "nloc t + 33 \<le> 2 ^ 16" and "ty \<noteq> UNDEF"
  shows "keeps_open (TranslateStore ty VU i t)"
  unfolding keeps_open_def
proof (intro allI impI)
  fix t' assume r: "TranslateStore ty VU i t = Inr t'"
  then obtain addr t1 where a: "vaddr_op (insn_rs1 i) (S_immx i) t = Inr (addr, t1)" by (auto simp: TranslateStore_def)
  obtain D where D: "opened D t1" "gregs \<subseteq> D" "op_in D addr" "wide addr" using vaddr_open [OF assms(1,2) a] by blast
  have "emit (InstVMStore ty VU addr (vop (insn_rs2 i) ty)) t1 = Inr t'" using r a by (simp add: TranslateStore_def)
  then show "opened gregs t'" using keeps_open_emit [OF D(1), of "InstVMStore ty VU addr (vop (insn_rs2 i) ty)"] D(2-4) reg_ops_in assms(3)
    by (simp add: keeps_open_def fe_inst_def)
qed


section \<open>Branches\<close>

lemma closed_succ:
  assumes "closed_but (Suc k) t" and "b < length (tview t)"
  shows "closed_but k (add_succ b t)" and "length (tview (add_succ b t)) = length (tview t)"
proof -
  have ok: "t_ok t" using assms(1) by (simp add: closed_but_def shaped_def)
  note s = add_succ_ok [OF ok assms(2)]
  have l: "cur t < length (tview t)" using ok by (simp add: t_ok_def)
  have i: "i32_locals (add_succ b t) = i32_locals t" by (simp add: i32_locals_def add_succ_def AddSucc_def upd_block_def)
  have c: "cur (add_succ b t) = cur t" by (simp add: add_succ_def)
  have "\<exists>y\<in>set (tview t). fst x = fst y" if "x \<in> set (tview (add_succ b t))" for x
    using that set_update_subset_insert [of "tview t"] nth_mem [OF l] unfolding s(2) view_succ_def by fastforce
  then have "shaped (add_succ b t)" using assms(1) s(1) i unfolding closed_but_def shaped_def by metis
  moreover have "finished (if j = cur t then k else 0) (tview (add_succ b t) ! j)" if "j < length (tview (add_succ b t))" for j
    using that assms(1) l unfolding s(2) view_succ_def by (cases "j = cur t") (auto simp: closed_but_def finished_def)
  ultimately show "closed_but k (add_succ b t)" using c by (simp add: closed_but_def)
  show "length (tview (add_succ b t)) = length (tview t)" unfolding s(2) by (simp add: view_succ_def)
qed

lemma MakeGBr_closes:
  assumes "opened gregs t"
  shows "closes_all (MakeGBr a t)"
proof (cases "ip2bb t a")
  case None
  then show ?thesis using closes_all_emit [OF assms, of "InstGBr (vconst a I32)"] by (simp add: MakeGBr_def fe_inst_def)
next
  case (Some b)
  have ok: "t_ok t" using assms by (simp add: opened_def shaped_def)
  have "all_closed (add_succ b t1)" if "emit InstBr t = Inr t1" for t1
  proof -
    have e: "emits t 0 [InstBr] t1" using emit_emits [OF ok, of InstBr] that by auto
    then have "b < length (tview t1)" using Some emits_fields(2,7) [OF e] by (auto simp: t_ok_def)
    then show ?thesis using closed_succ(1) [of 0] closed_emit [OF assms _ _ that] by (simp add: fe_inst_def closed_but_0)
  qed
  then show ?thesis using Some by (auto simp: MakeGBr_def closes_all_def)
qed

text \<open>The translator while it makes the targets of a branch: the block of the branch stays open.\<close>

abbreviation back_at :: "nat \<Rightarrow> RV32Translator \<Rightarrow> RV32Translator" where
  "back_at c t \<equiv> t\<lparr>t_qb := NewBuilder c\<rparr>"

lemma make_target_open:
  assumes "t_ok t" and "opened D (back_at c0 t)" and "make_target a t = Inr (b, t')"
  shows "t_ok t' \<and> opened D (back_at c0 t') \<and> b < length (tview t') \<and> length (tview t) \<le> length (tview t') \<and> insn_ip t' = insn_ip t"
proof (cases "ip2bb t a")
  case (Some x)
  then have e: "t' = record_ev (RecordGBr (bb_ip t) a) t" "b = x" using assms(3) by (auto simp: make_target_def Let_def)
  moreover have "back_at c0 (record_ev ev t) = record_ev ev (back_at c0 t)" for ev by (simp add: record_ev_def)
  ultimately show ?thesis using assms(1,2) Some by (auto simp: t_ok_def record_ev_def [of _ t])
next
  case None
  obtain x rn where cb: "CreateBlock (t_region t) = (x, rn)" by (cases "CreateBlock (t_region t)") auto
  have wf: "region_wf (t_region t)" using assms(1) by (simp add: t_ok_def)
  note v = CreateBlock_view [OF wf cb]
  define t1 where "t1 = (record_ev (RecordGBr (bb_ip t) a) t)\<lparr>t_region := rn, t_qb := NewBuilder x\<rparr>"
  have ok1: "t_ok t1" using assms(1) v by (auto simp: t1_def t_ok_def NewBuilder_def less_Suc_eq)
  obtain t2 where e: "emit (InstGBr (vconst a I32)) t1 = Inr t2" "b = cur t2" "t' = t2"
    using None cb assms(3) by (auto simp: make_target_def t1_def Let_def)
  have em: "emits t1 0 [InstGBr (vconst a I32)] t2" using emit_emits [OF ok1, of "InstGBr (vconst a I32)"] e(1) by auto
  note f = emits_fields [OF em]
  have vw: "tview t2 = tview t @ [([InstGBr (vconst a I32)], [])]"
    using em v by (simp add: emits_def view_append_def t1_def NewBuilder_def list_update_append nth_append)
  have vi: "vregs_info (t_region t2) = vregs_info (t_region t)" using emit_info [OF ok1 _ e(1)] v(4) by (simp add: t1_def)
  have o: "shaped (back_at c0 t)" "D \<subseteq> gregs \<union> code_defs (fst (tview t ! c0))" "\<forall>c\<in>set (fst (tview t ! c0)). \<not> ends c"
      "\<forall>j<length (tview t). j \<noteq> c0 \<longrightarrow> finished 0 (tview t ! j)" using assms(2) by (simp_all add: opened_def NewBuilder_def)
  have c0: "c0 < length (tview t)" using o(1) by (simp add: shaped_def t_ok_def NewBuilder_def)
  have len: "length (tview t2) = Suc (length (tview t))" using vw by simp
  have "t_ok (back_at c0 t2)" using f(7) c0 len by (simp add: t_ok_def NewBuilder_def)
  then have "shaped (back_at c0 t2)" using o(1) vi vw by (auto simp: shaped_def i32_locals_def fe_inst_def)
  moreover have "finished 0 (tview t2 ! j)" if "j < length (tview t2)" "j \<noteq> c0" for j
    using that o(4) len unfolding vw by (cases "j < length (tview t)") (auto simp: nth_append closed_code_def finished_def)
  ultimately have "opened D (back_at c0 t2)" using o(2,3) c0 unfolding opened_def by (simp add: vw NewBuilder_def nth_append)
  moreover have "x < length (tview t2)" using v(1) len by simp
  ultimately show ?thesis using e(2,3) f len by (simp add: t1_def NewBuilder_def)
qed

lemma Brcc_closes:
  assumes "opened gregs t"
  shows "closes_all (TranslateBrcc cc i t)"
  unfolding closes_all_def
proof (intro allI impI)
  fix t' assume r: "TranslateBrcc cc i t = Inr t'"
  have ok: "t_ok t" using assms by (simp add: opened_def shaped_def)
  then have bk: "back_at (cur t) t = t" by (simp add: t_ok_def)
  obtain bf t1 where t1: "make_target (insn_ip t + 4) t = Inr (bf, t1)" using r by (auto simp: TranslateBrcc_def Let_def)
  obtain bt t2 where t2: "make_target (insn_ip t1 + B_imm i) t1 = Inr (bt, t2)" using r t1 by (auto simp: TranslateBrcc_def Let_def)
  define t3 where "t3 = back_at (cur t) t2"
  obtain t4 where t4: "emit (InstBrcc cc (vop (insn_rs1 i) I32) (vop (insn_rs2 i) I32)) t3 = Inr t4" "t' = add_succ bf (add_succ bt t4)"
    using r t1 t2 by (auto simp: TranslateBrcc_def Let_def t3_def)
  have g1: "t_ok t1" "opened gregs (back_at (cur t) t1)" "bf < length (tview t1)" using make_target_open [OF ok _ t1, of gregs "cur t"] assms bk by simp_all
  have g2: "opened gregs t3" "bt < length (tview t2)" "length (tview t1) \<le> length (tview t2)" using make_target_open [OF g1(1,2) t2] by (simp_all add: t3_def)
  have c: "fe_inst gregs (InstBrcc cc (vop (insn_rs1 i) I32) (vop (insn_rs2 i) I32))" by (simp add: fe_inst_def)
  have g4: "closed_but (Suc (Suc 0)) t4" using closed_emit [OF g2(1) _ c t4(1)] by (simp add: numeral_2_eq_2)
  have "length (tview t4) = length (tview t2)" using emit_shaped(2) [OF g2(1) _ c t4(1)] by (simp add: t3_def del: length_region_view)
  then have b: "bt < length (tview t4)" "bf < length (tview t4)" using g1(3) g2(2,3) by simp_all
  then show "all_closed t'" using closed_succ [OF closed_succ(1) [OF g4 b(1)]] closed_succ(2) [OF g4 b(1)] t4(2) by (simp add: closed_but_0)
qed

lemma link_open:
  assumes "opened D t" and "gregs \<subseteq> D"
  shows "(if insn_rd i \<noteq> 0
    then rbind (vgpr (insn_rd i) I32) (\<lambda>d. rbind (emit (InstUnop q_mov d (vconst k I32)) t) (\<lambda>t. Inr (record_ev (e t) t)))
    else Inr (record_ev e0 t)) = Inr t' \<Longrightarrow> opened D t'"
proof -
  have "opened D t1" if "emit (InstUnop q_mov (vop (insn_rd i) I32) (vconst k I32)) t = Inr t1" "insn_rd i \<noteq> 0" for t1
    using opened_mono [OF opened_emit [OF assms(1) _ _ that(1)]] that(2) by (simp add: fe_inst_def)
  then show "(if insn_rd i \<noteq> 0
    then rbind (vgpr (insn_rd i) I32) (\<lambda>d. rbind (emit (InstUnop q_mov d (vconst k I32)) t) (\<lambda>t. Inr (record_ev (e t) t)))
    else Inr (record_ev e0 t)) = Inr t' \<Longrightarrow> opened D t'" using assms(1) by (auto split: if_splits)
qed

lemma jal_closes:
  assumes "opened gregs t"
  shows "closes_all (V_jal i t)"
  unfolding V_jal_def by (intro closes_all_bind) (use link_open [OF assms] MakeGBr_closes in \<open>auto simp: keeps_open_def\<close>)

lemma jalr_closes:
  assumes "opened gregs t" and "nloc t + 33 \<le> 2 ^ 16"
  shows "closes_all (V_jalr i t)"
  unfolding closes_all_def
proof (intro allI impI)
  fix t' assume r: "V_jalr i t = Inr t'"
  obtain q t1 where v: "vtemp I32 t = (MakeVGPR I32 q, t1)" "32 \<le> unat q" "opened gregs t1" using opened_temp [OF assms] by blast
  let ?t = "MakeVGPR I32 q" and ?D = "gregs \<union> {unat q}"
  let ?c1 = "InstBinop q_add ?t (vop (insn_rs1 i) I32) (vconst (I_immx i) I32)" and ?c2 = "InstBinop q_and ?t ?t (vconst (NOT 1) I32)"
  let ?l = "\<lambda>t. if insn_rd i \<noteq> 0
             then rbind (vgpr (insn_rd i) I32) (\<lambda>d.
                  rbind (emit (InstUnop q_mov d (vconst (insn_ip t + 4) I32)) t) (\<lambda>t.
                  Inr (record_ev (RecordGBrind (bb_ip t) (insn_ip t + 4)) t)))
             else Inr (record_ev (RecordGBrind (bb_ip t) 0) t)"
  have "rbind (emit ?c1 t1) (\<lambda>t. rbind (emit ?c2 t) (\<lambda>t. rbind (?l t) (\<lambda>t. emit (InstGBrind ?t) t))) = Inr t'"
    using r v(1) by (simp add: V_jalr_def)
  then obtain t2 t3 t4 where e: "emit ?c1 t1 = Inr t2" "emit ?c2 t2 = Inr t3" "?l t3 = Inr t4" "emit (InstGBrind ?t) t4 = Inr t'"
    unfolding rbind_eq_Inr by blast
  have o2: "opened ?D t2" using opened_emit [OF v(3) _ _ e(1)] v(2) by (simp add: fe_inst_def)
  have "opened (?D \<union> set (out_regs (outputs ?c2))) t3" using v(2) by (intro opened_emit [OF o2 _ _ e(2)]) (simp_all add: fe_inst_def)
  then have "opened ?D t3" by (rule opened_mono) simp
  then have "opened ?D t4" by (rule link_open [OF _ _ e(3)]) auto
  then show "all_closed t'" using closed_emit [OF _ _ _ e(4), of ?D] by (simp add: fe_inst_def closed_but_0)
qed


section \<open>Instructions and ranges\<close>

lemma V_shape:
  assumes "opened gregs t" and "nloc t + 33 \<le> 2 ^ 16" and "\<not> discarded_load op i"
  shows "\<not> has_flag op Flags_Branch \<Longrightarrow> keeps_open (V op i t)" and "has_flag op Flags_Branch \<or> has_flag op Flags_Trap \<Longrightarrow> closes_all (V op i t)"
proof -
  have l: "\<not> (insn_rd i = 0 \<and> I_immx i = 0)" if "op \<in> {Op_lb, Op_lh, Op_lw, Op_lbu, Op_lhu}" using assms(3) that by (auto simp: discarded_load_def)
  note a = arith_open [OF assms(1)] and b = load_open [OF assms(1,2)] store_open [OF assms(1,2)]
    and c = jal_closes [OF assms(1)] jalr_closes [OF assms(1,2)] Brcc_closes [OF assms(1)]
  show "\<not> has_flag op Flags_Branch \<Longrightarrow> keeps_open (V op i t)" using l by (cases op) (simp_all add: a b has_Branch)
  show "has_flag op Flags_Branch \<or> has_flag op Flags_Trap \<Longrightarrow> closes_all (V op i t)"
    unfolding has_Branch has_Trap by (elim disjE insertE emptyE) (simp_all add: a c)
qed

lemma shape_fields [simp]:
  "opened D (t\<lparr>control := c\<rparr>) = opened D t" "opened D (t\<lparr>insn_ip := x\<rparr>) = opened D t" "all_closed (t\<lparr>control := c\<rparr>) = all_closed t"
  "all_closed (t\<lparr>insn_ip := x\<rparr>) = all_closed t"
  by (simp_all add: opened_def all_closed_def shaped_def i32_locals_def t_ok_def)

lemma spill_open: "opened gregs t \<Longrightarrow> keeps_open (PreSideeff t)"
proof -
  assume o: "opened gregs t"
  have "fe_inst gregs (ip_spill a)" for a by (simp add: fe_inst_def ip_spill_def dst_in_def)
  moreover have "PreSideeff t = emit (ip_spill (insn_ip t)) t" unfolding PreSideeff_def ip_spill_def by (simp add: GetStateReg_def state_info_def si_n_regs_def GlobalRegId_IP_def offsetof_ip_def nth_append)
  ultimately show "keeps_open (PreSideeff t)" using keeps_open_emit [OF o, of "ip_spill (insn_ip t)"] by (simp add: ip_spill_def)
qed

lemma insn_shape:
  assumes "opened gregs t" and "nloc t + 33 \<le> 2 ^ 16" and "\<not> discarded_load op i" and "control t = C_NEXT" and "H_translate op i t = Inr t'"
    and "cur t \<in> ran (ip2bb t)"
  shows "if control t' = C_NEXT then opened gregs t' \<and> cur t' = cur t \<and> ip2bb t' = ip2bb t else all_closed t'" and "nloc t' \<le> nloc t + 1"
proof -
  let ?p = "if has_flag op Flags_Trap \<or> has_flag op Flags_MayTrap then PreSideeff t else Inr t" and ?B = "has_flag op Flags_Branch \<or> has_flag op Flags_Trap"
  obtain t1 t2 where r: "?p = Inr t1" "V op i t1 = Inr t2" "t' = (if ?B then t2\<lparr>control := C_BRANCH\<rparr> else t2)\<lparr>insn_ip := insn_ip t2 + 4\<rparr>"
    using assms(5) by (auto simp: H_translate_def Let_def)
  have ok: "t_ok t" using assms(1) by (simp add: opened_def shaped_def)
  have "keeps_open ?p" using spill_open [OF assms(1)] assms(1) by simp
  then have o1: "opened gregs t1" using r(1) by (simp add: keeps_open_def)
  have "\<exists>cs. emits t 0 cs t1" using r(1) PreSideeff_emits [OF ok] emits_refl [OF ok] by (auto split: if_splits)
  then have n1: "nloc t1 + 33 \<le> 2 ^ 16" using assms(2) by (auto simp: emits_def)
  note v = V_shape [OF o1 n1 assms(3)]
  have st: "advanced op t t'" if "\<not> has_flag op Flags_Branch" using straight_insn [OF ok assms(2,3) that] assms(5) by auto
  have "cur t' = cur t" "ip2bb t' = ip2bb t" if "control t' = C_NEXT" using st that r(3) by (auto simp: advanced_def split: if_splits)
  moreover have "control t' = C_NEXT" if "\<not> ?B" using st that assms(4) by (simp add: advanced_def)
  ultimately show "if control t' = C_NEXT then opened gregs t' \<and> cur t' = cur t \<and> ip2bb t' = ip2bb t else all_closed t'"
    using v r(2,3) by (auto simp: keeps_open_def closes_all_def split: if_splits)
  show "nloc t' \<le> nloc t + 1"
  proof (cases "has_flag op Flags_Branch")
    case True
    then show ?thesis using branch_insn [OF ok assms(6,2) True, of i] assms(5) by (auto simp: closes_def)
  next
    case False
    then show ?thesis using st by (simp add: advanced_def)
  qed
qed

lemma loop_shape:
  assumes "opened gregs t" and "cur t \<in> ran (ip2bb t)" and "nloc t + 32 + left \<le> 2 ^ 16" and "control t = C_NEXT" and "no_discarded (t_vmem t) left (insn_ip t)"
    and "translate_loop left start bnd t = Inr t'"
  shows "all_closed t'"
  using assms
proof (induction left arbitrary: t)
  case (Suc left)
  define i where "i = fetch (t_vmem t) (insn_ip t)"
  have nl: "nloc t + 33 \<le> 2 ^ 16" using Suc.prems(3) by simp
  have nd: "\<not> discarded_load (Decode i) i" using no_discarded_0 [OF Suc.prems(5)] by (simp add: i_def)
  obtain t1 where t1: "H_translate (Decode i) i t = Inr t1" using Suc.prems(6) by (auto simp: TranslateInsn_eq i_def)
  have T: "TranslateInsn t = Inr t1" using t1 by (simp add: TranslateInsn_eq i_def)
  note s = insn_shape [OF Suc.prems(1) nl nd Suc.prems(4) t1 Suc.prems(2)]
  show ?case
  proof (cases "control t1 = C_NEXT")
    case False
    then show ?thesis using Suc.prems(6) T s(1) by simp
  next
    case True
    let ?t = "record_ev (RecordGBr (bb_ip t1) start) (t1\<lparr>control := C_TB_OVF\<rparr>)"
    show ?thesis
    proof (cases "left = 0 \<or> bnd \<le> insn_ip t1")
      case stop: True
      then have "MakeGBr (insn_ip t1) ?t = Inr t'" using Suc.prems(6) T True by simp
      then show ?thesis using MakeGBr_closes [of ?t "insn_ip t1"] s(1) True by (simp add: closes_all_def)
    next
      case go: False
      have "\<not> has_flag (Decode i) Flags_Branch" using True t1 by (auto simp: H_translate_def Let_def split: if_splits)
      moreover have "t_ok t" using Suc.prems(1) by (simp add: opened_def shaped_def)
      ultimately have "advanced (Decode i) t t1" using straight_insn [OF _ nl nd] t1 by auto
      then have "t_vmem t1 = t_vmem t" "insn_ip t1 = insn_ip t + 4" by (simp_all add: advanced_def)
      then show ?thesis using Suc.IH [of t1] s True Suc.prems(2,3,6) go T no_discarded_Suc [OF Suc.prems(5)] by auto
    qed
  qed
qed simp

lemma range_shape:
  assumes "all_closed t" and "ip2bb t a = Some bb" and "nloc t + 32 + TB_MAX_INSNS \<le> 2 ^ 16"
    and "no_discarded (t_vmem t) TB_MAX_INSNS a" and "tview t ! bb = ([], [])" and "TranslateIPRange d a bnd t = Inr t'"
  shows "all_closed t'"
proof -
  define t0 where "t0 = (record_ev (RecordEntry a) (t\<lparr>bb_ip := a, insn_ip := a\<rparr>))\<lparr>t_qb := NewBuilder bb\<rparr>"
  have ok: "t_ok t" using assms(1) by (simp add: all_closed_def shaped_def)
  have bb: "bb < length (blist (t_region t))" using ok assms(2) by (auto simp: t_ok_def)
  have ok0: "t_ok t0" using ok bb by (simp add: t0_def record_ev_def t_ok_def NewBuilder_def)
  have t0: "tview t0 = tview t" "cur t0 = bb" "ip2bb t0 = ip2bb t" "t_vmem t0 = t_vmem t" "insn_ip t0 = a" "nloc t0 = nloc t"
    by (simp_all add: t0_def record_ev_def NewBuilder_def)
  have "opened gregs t0" using assms(1,5) ok0 t0(2) by (auto simp: t0_def opened_def all_closed_def shaped_def i32_locals_def record_ev_def)
  moreover have "keeps_open (if d then rbind (PreSideeff t0) (emit (InstHcall id_trace (vconst 0 I32))) else Inr t0)"
    using calculation by (auto intro!: keeps_open_bind spill_open keeps_open_emit simp: fe_inst_def)
  moreover obtain t1 where t1: "(if d then rbind (PreSideeff t0) (emit (InstHcall id_trace (vconst 0 I32))) else Inr t0) = Inr t1" "emits t0 0 (trace_code d a) t1"
    using trace_emits [OF ok0, of d] t0(5) by auto
  ultimately have o1: "opened gregs (t1\<lparr>control := C_NEXT\<rparr>)" by (simp add: keeps_open_def)
  note f = emits_fields [OF t1(2)]
  have l: "translate_loop TB_MAX_INSNS a bnd (t1\<lparr>control := C_NEXT\<rparr>) = Inr t'"
    using assms(2,6) t1(1) unfolding TranslateIPRange_def t0_def by (simp add: Let_def split: if_splits)
  have "nloc t1 = nloc t" using t1(2) t0(6) by (simp add: emits_def)
  then show ?thesis using loop_shape [OF o1 _ _ _ _ l] f t0 assms(2-4) by (auto simp: ran_def)
qed

end
