(* ===== verification/Shape_Sel.thy ===== *)
theory Shape_Sel
  imports Region_Shape
begin

text \<open>
  Translated blocks meet the allocator's requirements, and selection keeps them: its moves write fresh
  registers or the output, and read what is defined. Together with the allocation pass this
  gives the translation from guest code to allocated code.
\<close>

section \<open>Translated regions\<close>

lemma ranges_shape:
  assumes "all_closed t" and "todo t rs" and "nloc t + 32 + length rs * TB_MAX_INSNS \<le> 2 ^ 16" and "translate_ranges d rs t = Inr t'"
  shows "all_closed t'"
  using assms
proof (induction rs arbitrary: t)
  case (Cons r rs)
  have ok: "t_ok t" using Cons.prems(1) by (simp add: all_closed_def shaped_def)
  obtain bb where bb: "ip2bb t (fst r) = Some bb" "tview t ! bb = ([], [])" "snd r \<noteq> 0" "no_discarded (t_vmem t) TB_MAX_INSNS (fst r)"
    using Cons.prems(2) by (auto simp: todo_def)
  have n: "nloc t + 32 + TB_MAX_INSNS \<le> 2 ^ 16" using Cons.prems(3) by simp
  obtain t1 where t1: "TranslateIPRange d (fst r) (snd r) t = Inr t1" "filled t bb (fst r) t1"
    using TranslateIPRange_filled [OF ok bb(1,3) n bb(4,2)] by blast
  have "translate_ranges d rs t1 = Inr t'" using Cons.prems(4) t1(1) by simp
  moreover have "nloc t1 \<le> nloc t + TB_MAX_INSNS" using t1(2) by (simp add: filled_def)
  ultimately show ?case
    using Cons.IH [OF range_shape [OF Cons.prems(1) bb(1) n bb(4,2) t1(1)] todo_filled(1) [OF ok Cons.prems(2) bb(1) t1(2)]] Cons.prems(3) by simp
qed simp

lemma Translate_shape:
  assumes "ranges \<noteq> []" and "distinct (map fst ranges)" and "length ranges \<le> 63" and "\<forall>r\<in>set ranges. snd r \<noteq> 0 \<and> no_discarded vm TB_MAX_INSNS (fst r)"
    and "Translate d (NewRegion state_info) ranges vm = Inr t"
  shows "all_closed t"
proof -
  define t1 where "t1 = create_blocks ranges (NewTranslator (NewRegion state_info) vm)"
  note c = blocks_created [OF assms(1,2,4), folded t1_def]
  have "all_closed t1" using c by (auto simp: all_closed_def shaped_def i32_locals_def finished_def closed_code_def)
  moreover have "nloc t1 + 32 + length ranges * TB_MAX_INSNS \<le> 2 ^ 16" using c(4) assms(3) by (simp add: TB_MAX_INSNS_def)
  ultimately show ?thesis using ranges_shape [of t1 ranges d t] c(2) assms(5) by (simp add: Translate_def t1_def)
qed

text \<open>The registers of the guest.\<close>

lemma state_offs_at:
  "i < 31 \<Longrightarrow> state_offs (si_regs state_info ! i) = of_nat (4 * Suc i)" "state_offs (si_regs state_info ! 31) = 128" "length (si_regs state_info) = 32"
proof -
  have len: "length [1..<32::nat] = 31" by simp
  show "i < 31 \<Longrightarrow> state_offs (si_regs state_info ! i) = of_nat (4 * Suc i)"
    using len by (simp add: state_info_def nth_append offsetof_gpr_def del: upt.simps)
  show "state_offs (si_regs state_info ! 31) = 128" "length (si_regs state_info) = 32"
    by (simp_all add: state_info_def nth_append offsetof_ip_def del: upt.simps)
qed

lemma guest_regs:
  assumes "glob_info vi = state_info"
  shows "NumGlobals vi = 32" and "ip_reg vi i \<longleftrightarrow> i = 31" and "i < 32 \<Longrightarrow> offs_ok (goffs vi i)"
proof -
  show n: "NumGlobals vi = 32" using assms state_offs_at(3) by (simp add: NumGlobals_def si_n_regs_def)
  have g: "unat (goffs vi i) = 4 * Suc i" if "i < 31" for i
  proof -
    have "goffs vi i = of_nat (4 * Suc i)" using assms state_offs_at(1) [OF that] by (simp only: goffs_def)
    moreover have "unat (of_nat (4 * Suc i) :: u16) = 4 * Suc i" using that take_bit_nat_eq_self [of "4 * Suc i" 16] by (simp only: unsigned_of_nat len_of_numeral_defs) simp
    ultimately show ?thesis by simp
  qed
  have g31: "goffs vi 31 = 128" using assms state_offs_at(2) by (simp add: goffs_def)
  show "ip_reg vi i \<longleftrightarrow> i = 31" using n g [of i] g31 by (cases "i < 31") (auto simp: ip_reg_def)
  show "offs_ok (goffs vi i)" if "i < 32"
  proof (cases "i < 31")
    case True
    then show ?thesis using g [OF True] by (simp add: offs_ok_def)
  next
    case False
    then have "i = 31" using that by simp
    then show ?thesis using g31 by (simp add: offs_ok_def)
  qed
qed

lemma guest_info_ok:
  assumes "glob_info vi = state_info" and "UNDEF \<notin> set (loc_info vi)" and "NumAll vi \<le> 255"
  shows "info_ok vi"
proof -
  have "sr_type sr = I32" if "sr \<in> set (si_regs state_info)" for sr using that by (auto simp: state_info_def)
  moreover have "offs_ok (state_offs sr)" if s: "sr \<in> set (si_regs state_info)" for sr
  proof -
    obtain i where "i < 32" "sr = si_regs state_info ! i" using s state_offs_at(3) by (auto simp: in_set_conv_nth)
    then show ?thesis using guest_regs(3) [OF assms(1), of i] assms(1) by (simp add: goffs_def)
  qed
  ultimately show ?thesis using assms state_info_offs by (simp add: info_ok_def)
qed

lemma sel_typed_src: "sel_typed c \<Longrightarrow> \<not> is_call c \<Longrightarrow> v \<in> set (inputs c) \<Longrightarrow> sel_src v"
  by (cases c) (auto intro: sel_src32_src)

lemma fe_visit_ok:
  assumes vi: "glob_info vi = state_info" "set (loc_info vi) \<subseteq> {I32}" and c: "sel_typed c" "inst_below (NumAll vi) c" "fe_inst D c" and D: "31 \<notin> D" "D \<subseteq> X"
  shows "visit_ok vi X c" and "31 \<notin> set (out_regs (outputs c))"
proof -
  have ty: "type_of vi i = I32" if "i < NumAll vi" for i
  proof (cases "i < NumGlobals vi")
    case False
    then have "loc_info vi ! (i - NumGlobals vi) \<in> set (loc_info vi)" using that by (intro nth_mem) (auto simp: NumAll_def NumGlobals_def)
    then show ?thesis using vi(2) False by (auto simp: type_of_def)
  qed (simp add: type_of_def)
  note ip = guest_regs(2) [OF vi(1)]
  have i: "in_ok vi X v" if "v \<in> set (inputs c)" "\<not> is_call c" for v
  proof -
    have s: "sel_src v" "op_below (NumAll vi) v" "op_in D v" using sel_typed_src [OF c(1) that(2,1)] c(2,3) that(1) by (auto simp: inst_below_def fe_inst_def)
    moreover have "vsz ty \<le> 4" for ty by (cases ty) simp_all
    ultimately show ?thesis using D ty ip
      by (cases "view_of v") (auto simp: in_ok_def sel_src_def op_below_def op_in_def)
  qed
  have o: "out_ok vi d" if "d \<in> set (outputs c)" for d
  proof -
    have s: "sel_dst d \<or> (\<exists>k. view_of d = VSlot True I32 k)" "op_below (NumAll vi) d" "dst_in d" using c that by (cases c; auto simp: inst_below_def fe_inst_def)+
    then show ?thesis using ty ip by (cases "view_of d") (auto simp: out_ok_def sel_dst_def op_below_def dst_in_def)
  qed
  have t: "op_typed c" using c(1) by (cases c) auto
  show "visit_ok vi X c" using i o t c(1) by (cases c) (auto simp: inst_ok_def)
  show "31 \<notin> set (out_regs (outputs c))" using c(3) by (auto simp: fe_inst_def out_regs_def dst_in_def split: view.splits) metis
qed

lemma fe_block_ok:
  assumes vi: "glob_info vi = state_info" "set (loc_info vi) \<subseteq> {I32}" and "sel_code (NumAll vi) cs" and "fe_code D cs" and "31 \<notin> D" and "D \<subseteq> X"
    and "if cs = [] then closed else closed_code cs"
  shows "alloc_block_ok vi X closed cs"
  using assms(3-)
proof (induction cs arbitrary: D X closed)
  case (Cons c cs)
  have c: "sel_typed c" "inst_below (NumAll vi) c" "fe_inst D c" using Cons.prems by (simp_all add: sel_code_def)
  note v = fe_visit_ok [OF vi c Cons.prems(3,4)]
  have "if cs = [] then ends c \<or> is_call c else closed_code cs" using Cons.prems(5) by (simp add: closed_code_def split: if_splits)
  then show ?case using Cons.IH [of "D \<union> set (out_regs (outputs c))" "X \<union> set (out_regs (outputs c))" "ends c \<or> is_call c"] Cons.prems v by (auto simp: sel_code_def)
qed simp

section \<open>Selection\<close>

text \<open>Selection adds registers; what was a good operand stays one.\<close>

definition extends :: "VRegsInfo \<Rightarrow> VRegsInfo \<Rightarrow> bool" where
  "extends vi vi' \<longleftrightarrow> glob_info vi' = glob_info vi \<and> (\<exists>xs. loc_info vi' = loc_info vi @ xs)"

lemma extends_refl: "extends vi vi"
  by (simp add: extends_def)

lemma extends_trans: "extends vi vi1 \<Longrightarrow> extends vi1 vi2 \<Longrightarrow> extends vi vi2"
  by (auto simp: extends_def)

lemma extends_facts:
  assumes "extends vi vi'"
  shows "NumGlobals vi' = NumGlobals vi" "NumAll vi \<le> NumAll vi'" "ip_reg vi' i = ip_reg vi i" "i < NumAll vi \<Longrightarrow> type_of vi' i = type_of vi i"
    "globals vi' = globals vi"
  using assms by (auto simp: extends_def NumGlobals_def NumAll_def ip_reg_def goffs_def type_of_def globals_def nth_append)

lemma in_ok_ext:
  assumes "in_ok vi X v" and "extends vi vi'" and "X \<subseteq> Y"
  shows "in_ok vi' Y v"
proof (cases "view_of v")
  case (VVirt t r)
  then show ?thesis using assms extends_facts(2-4) [OF assms(2)] by (auto simp: in_ok_def)
qed (use assms(1) in \<open>simp_all add: in_ok_def\<close>)

lemma out_ok_ext:
  assumes "out_ok vi d" and "extends vi vi'"
  shows "out_ok vi' d"
proof (cases "view_of d")
  case (VVirt t r)
  then show ?thesis using assms extends_facts(2-4) [OF assms(2)] by (auto simp: out_ok_def)
qed (use assms(1) in \<open>simp_all add: out_ok_def\<close>)

lemma inst_ok_ext: "inst_ok vi X c \<Longrightarrow> extends vi vi' \<Longrightarrow> X \<subseteq> Y \<Longrightarrow> inst_ok vi' Y c"
  using in_ok_ext out_ok_ext unfolding inst_ok_def by blast

lemma visit_ok_ext: "visit_ok vi X c \<Longrightarrow> extends vi vi' \<Longrightarrow> X \<subseteq> Y \<Longrightarrow> visit_ok vi' Y c"
  using inst_ok_ext by (cases c) auto

lemma block_ok_ext: "alloc_block_ok vi X closed cs \<Longrightarrow> extends vi vi' \<Longrightarrow> X \<subseteq> Y \<Longrightarrow> alloc_block_ok vi' Y closed cs"
proof (induction cs arbitrary: X Y closed)
  case (Cons c cs)
  have sub: "X \<union> set (out_regs (outputs c)) \<subseteq> Y \<union> set (out_regs (outputs c))" using Cons.prems(3) by blast
  have b: "alloc_block_ok vi (X \<union> set (out_regs (outputs c))) (ends c \<or> is_call c) cs" using Cons.prems(1) by simp
  show ?case using visit_ok_ext [of vi X c vi' Y] Cons.IH [OF b Cons.prems(2) sub] Cons.prems by simp
qed simp

text \<open>Code without branches and calls.\<close>

primrec straight :: "VRegsInfo \<Rightarrow> nat set \<Rightarrow> instc list \<Rightarrow> bool" where
  "straight vi X [] \<longleftrightarrow> True"
| "straight vi X (c # cs) \<longleftrightarrow> inst_ok vi X c \<and> \<not> ends c \<and> \<not> is_call c \<and> straight vi (X \<union> set (out_regs (outputs c))) cs"

lemma straight_ext: "straight vi X cs \<Longrightarrow> extends vi vi' \<Longrightarrow> straight vi' X cs"
  by (induction cs arbitrary: X) (auto intro: inst_ok_ext)

lemma code_defs_simps [simp]: "code_defs [] = {}" "code_defs (c # cs) = set (out_regs (outputs c)) \<union> code_defs cs" "code_defs (cs @ cs') = code_defs cs \<union> code_defs cs'"
  by (simp_all add: code_defs_def)

lemma straight_append: "straight vi X (cs @ cs') \<longleftrightarrow> straight vi X cs \<and> straight vi (X \<union> code_defs cs) cs'"
  by (induction cs arbitrary: X) (simp_all add: Un_assoc)

lemma block_ok_prefix: "straight vi X pre \<Longrightarrow> alloc_block_ok vi (X \<union> code_defs pre) cl cs \<Longrightarrow> cs \<noteq> [] \<Longrightarrow> alloc_block_ok vi X cl' (pre @ cs)"
proof (induction pre arbitrary: X cl')
  case Nil
  then show ?case by (cases cs) simp_all
next
  case (Cons c pre)
  have "visit_ok vi X c" using Cons.prems(1) by (cases c) auto
  then show ?case using Cons by (simp add: Un_assoc)
qed

lemma AddLocal_ok:
  assumes "AddLocal ty vi = (r, vi')" and "NumAll vi < 2 ^ 16"
  shows "unat r = NumAll vi" "extends vi vi'" "type_of vi' (NumAll vi) = ty" "NumAll vi' = Suc (NumAll vi)" "\<not> ip_reg vi' (NumAll vi)" "loc_info vi' = loc_info vi @ [ty]"
proof -
  have e: "r = of_nat (NumAll vi)" "vi' = vi\<lparr>loc_info := loc_info vi @ [ty]\<rparr>" using assms(1) by (auto simp: AddLocal_def NumAll_def add.commute)
  show "unat r = NumAll vi" using assms(2) by (simp add: e unsigned_of_nat take_bit_nat_eq_self)
  show "extends vi vi'" "type_of vi' (NumAll vi) = ty" "NumAll vi' = Suc (NumAll vi)" "\<not> ip_reg vi' (NumAll vi)" "loc_info vi' = loc_info vi @ [ty]"
    by (simp_all add: e(2) extends_def type_of_def NumAll_def NumGlobals_def ip_reg_def)
qed

text \<open>The state of selection for an instruction: the moves so far are good, and so are the operands after them.\<close>

definition sel_inv :: "VRegsInfo \<Rightarrow> nat set \<Rightarrow> sel_state \<Rightarrow> bool" where
  "sel_inv vi X st \<longleftrightarrow> extends vi (sel_vregs st) \<and> (UNDEF \<notin> set (loc_info vi) \<longrightarrow> UNDEF \<notin> set (loc_info (sel_vregs st))) \<and>
     straight (sel_vregs st) X (sel_pre st) \<and> (\<forall>v\<in>set (sel_srcl st). sel_src v \<and> in_ok (sel_vregs st) (X \<union> code_defs (sel_pre st)) v)"

text \<open>Moving an operand to a new register.\<close>

lemma temp_inv:
  assumes inv: "sel_inv vi X st" and n: "NumAll (sel_vregs st) < 2 ^ 16" and src: "in_ok (sel_vregs st) (X \<union> code_defs (sel_pre st)) src"
    and ty: "ty \<noteq> UNDEF" and t: "sel_temp ty st = (tmp, st1)"
  shows "sel_inv vi X (sel_mov tmp src st1)" and "sel_src tmp" and "sel_srcl (sel_mov tmp src st1) = sel_srcl st" and "NumAll (sel_vregs (sel_mov tmp src st1)) = Suc (NumAll (sel_vregs st))"
    and "in_ok (sel_vregs (sel_mov tmp src st1)) (X \<union> code_defs (sel_pre (sel_mov tmp src st1))) tmp"
proof -
  obtain r vi' where a: "AddLocal ty (sel_vregs st) = (r, vi')" by (cases "AddLocal ty (sel_vregs st)")
  then have e: "tmp = MakeVGPR ty r" "st1 = st\<lparr>sel_vregs := vi'\<rparr>" using t by (auto simp: sel_temp_def)
  note l = AddLocal_ok [OF a n]
  let ?X = "X \<union> code_defs (sel_pre st)" and ?m = "InstUnop q_mov tmp src"
  have o: "out_ok vi' tmp" using l by (simp add: e out_ok_def)
  have m: "inst_ok vi' ?X ?m" using o in_ok_ext [OF src l(2) order_refl] by (simp add: inst_ok_def)
  have ou: "out_regs [tmp] = [NumAll (sel_vregs st)]" using l(1) by (simp add: e)
  show tt: "in_ok (sel_vregs (sel_mov tmp src st1)) (X \<union> code_defs (sel_pre (sel_mov tmp src st1))) tmp"
    using l ty ou by (simp add: sel_mov_def e in_ok_def)
  show "sel_src tmp" using ty by (simp add: e sel_src_def)
  show "sel_srcl (sel_mov tmp src st1) = sel_srcl st" "NumAll (sel_vregs (sel_mov tmp src st1)) = Suc (NumAll (sel_vregs st))" using l by (simp_all add: sel_mov_def e)
  have i: "extends vi (sel_vregs st)" "UNDEF \<notin> set (loc_info vi) \<longrightarrow> UNDEF \<notin> set (loc_info (sel_vregs st))" "straight (sel_vregs st) X (sel_pre st)"
      "\<forall>v\<in>set (sel_srcl st). sel_src v \<and> in_ok (sel_vregs st) ?X v" using inv by (simp_all add: sel_inv_def)
  have "straight vi' X (sel_pre st @ [?m])" using straight_ext [OF i(3) l(2)] m by (simp add: straight_append)
  moreover have "in_ok vi' (?X \<union> set (out_regs [tmp])) v" if "v \<in> set (sel_srcl st)" for v using in_ok_ext [OF _ l(2)] i(4) that by blast
  ultimately show "sel_inv vi X (sel_mov tmp src st1)"
    using i(1,2,4) extends_trans [OF i(1) l(2)] l(6) ty by (auto simp: sel_inv_def sel_mov_def e(2) Un_assoc)
qed

lemma sel_inv_src:
  assumes "sel_inv vi X st" and "sel_src v" and "in_ok (sel_vregs st) (X \<union> code_defs (sel_pre st)) v"
  shows "sel_inv vi X (st\<lparr>sel_srcl := (sel_srcl st)[i := v]\<rparr>)"
  using assms set_update_subset_insert [of "sel_srcl st" i v] by (auto simp: sel_inv_def)

lemma sel_const_inv:
  assumes inv: "sel_inv vi X st" and n: "NumAll (sel_vregs st) < 2 ^ 16" and i: "i < length (sel_srcl st)" and r: "sel_const op_ct dn i st = Inr st'"
  shows "sel_inv vi X st' \<and> length (sel_srcl st') = length (sel_srcl st) \<and> NumAll (sel_vregs st') \<le> Suc (NumAll (sel_vregs st))"
proof -
  let ?src = "sel_srcl st ! i"
  have s: "sel_src ?src" "in_ok (sel_vregs st) (X \<union> code_defs (sel_pre st)) ?src" using inv i nth_mem by (auto simp: sel_inv_def)
  obtain tmp st1 where t: "sel_temp (GetType ?src) st = (tmp, st1)" by (cases "sel_temp (GetType ?src) st")
  show ?thesis
  proof (cases "st' = st")
    case False
    then have c: "IsConst ?src" using r by (auto simp: sel_const_def Let_def split: if_splits)
    then obtain ty k where k: "view_of ?src = VConst ty k" "ty \<noteq> UNDEF" using s(1) is_view(2) by (auto simp: sel_src_def)
    then have ty: "GetType ?src \<noteq> UNDEF" using is_view(5) by auto
    note m = temp_inv [OF inv n s(2) ty t]
    have e: "st' = (sel_mov tmp ?src st1)\<lparr>sel_srcl := (sel_srcl (sel_mov tmp ?src st1))[i := tmp]\<rparr>"
      using False r c t by (auto simp: sel_const_def Let_def split: if_splits)
    show ?thesis using sel_inv_src [OF m(1,2,5), of i] m(3,4) by (simp add: e)
  qed (use inv in simp)
qed

lemma sel_const_loop_inv:
  assumes "sel_inv vi X st" and "NumAll (sel_vregs st) + length idx \<le> 2 ^ 16" and "\<forall>i\<in>set idx. i < length (sel_srcl st)"
    and "sel_loop (sel_const op_ct dn) idx st = Inr st'"
  shows "sel_inv vi X st' \<and> length (sel_srcl st') = length (sel_srcl st) \<and> NumAll (sel_vregs st') \<le> NumAll (sel_vregs st) + length idx"
  using assms
proof (induction idx arbitrary: st)
  case (Cons i idx)
  obtain st1 where s: "sel_const op_ct dn i st = Inr st1" "sel_loop (sel_const op_ct dn) idx st1 = Inr st'" using Cons.prems(4) by auto
  note c = sel_const_inv [OF Cons.prems(1) _ _ s(1)]
  have "sel_inv vi X st1 \<and> length (sel_srcl st1) = length (sel_srcl st) \<and> NumAll (sel_vregs st1) \<le> Suc (NumAll (sel_vregs st))"
    using c Cons.prems(2,3) by simp
  then show ?case using Cons.IH [OF _ _ _ s(2)] Cons.prems(2,3) by fastforce
qed simp

lemma mov_dst_inv:
  assumes inv: "sel_inv vi X st" and d: "view_of d = VVirt I32 r" "out_ok (sel_vregs st) d" and a: "in_ok (sel_vregs st) (X \<union> code_defs (sel_pre st)) a"
  shows "sel_inv vi X (sel_mov d a st)" and "in_ok (sel_vregs (sel_mov d a st)) (X \<union> code_defs (sel_pre (sel_mov d a st))) d"
proof -
  let ?X = "X \<union> code_defs (sel_pre st)"
  have "inst_ok (sel_vregs st) ?X (InstUnop q_mov d a)" using d(2) a by (simp add: inst_ok_def)
  moreover have "in_ok (sel_vregs st) (?X \<union> Y) v" if "in_ok (sel_vregs st) ?X v" for v Y using in_ok_ext [OF that extends_refl] by blast
  ultimately show "sel_inv vi X (sel_mov d a st)" using inv by (simp add: sel_inv_def sel_mov_def straight_append Un_assoc)
  have o: "out_regs [d] = [unat r]" using d(1) by (simp add: out_regs_def)
  have "unat r < NumAll (sel_vregs st)" "\<not> ip_reg (sel_vregs st) (unat r)" "type_of (sel_vregs st) (unat r) = I32" using d by (simp_all add: out_ok_def)
  then show "in_ok (sel_vregs (sel_mov d a st)) (X \<union> code_defs (sel_pre (sel_mov d a st))) d" using d(1) o by (simp add: in_ok_def sel_mov_def)
qed

lemma in_ok_dst:
  assumes "view_of d = VVirt I32 r" and "out_ok vi d" and "same_vgpr v d" and "in_ok vi X v"
  shows "in_ok vi X d"
proof -
  obtain t where "view_of v = VVirt t r" using assms(3) same_vgpr_view [OF assms(1)] by blast
  then show ?thesis using assms(1,2,4) by (simp add: in_ok_def out_ok_def)
qed

lemma alias_inv:
  assumes d: "view_of d = VVirt I32 r" "out_ok vi d" and n: "NumAll vi < 2 ^ 16" and ab: "sel_src a" "sel_src b" "in_ok vi X a" "in_ok vi X b"
    and c: "alias_code d a b vi = (pre, srcl, vi')"
  shows "sel_inv vi X \<lparr>sel_pre = pre, sel_srcl = srcl, sel_vregs = vi'\<rparr>" and "NumAll vi' \<le> Suc (NumAll vi)" and "length srcl = 2"
proof -
  let ?st = "\<lparr>sel_pre = [], sel_srcl = [a, b], sel_vregs = vi\<rparr>"
  have i0: "sel_inv vi X ?st" using ab by (simp add: sel_inv_def extends_refl)
  have sd: "sel_src d" using d(1) by (simp add: sel_src_def)
  have "sel_inv vi X \<lparr>sel_pre = pre, sel_srcl = srcl, sel_vregs = vi'\<rparr> \<and> NumAll vi' \<le> Suc (NumAll vi) \<and> length srcl = 2"
  proof -
    consider (A) "same_vgpr a d" | (B) "\<not> same_vgpr a d" "same_vgpr b d" | (C) "\<not> same_vgpr a d" "\<not> same_vgpr b d" by blast
    then show ?thesis
    proof cases
      case A
      then show ?thesis using c i0 by (auto simp: alias_code_def)
    next
      case C
      then have e: "pre = [InstUnop q_mov d a]" "srcl = [d, b]" "vi' = vi" using c by (auto simp: alias_code_def)
      note m = mov_dst_inv [OF i0 d(1), of a]
      show ?thesis using sel_inv_src [OF m(1) sd m(2), of 0] d(2) ab(3) by (simp add: e sel_mov_def)
    next
      case B
      have gt: "GetType d = I32" using is_view(6) [OF d(1)] .
      obtain q where q: "AddLocal I32 vi = (q, vi')" "pre = [InstUnop q_mov (MakeVGPR I32 q) d, InstUnop q_mov d a]" "srcl = [d, MakeVGPR I32 q]"
        using c B gt by (auto simp: alias_code_def Let_def split: prod.splits)
      let ?t = "MakeVGPR I32 q"
      have st: "sel_temp I32 ?st = (?t, ?st\<lparr>sel_vregs := vi'\<rparr>)" using q(1) by (simp add: sel_temp_def)
      have "in_ok (sel_vregs ?st) (X \<union> code_defs (sel_pre ?st)) d" using in_ok_dst [OF d B(2) ab(4)] by simp
      note m = temp_inv [OF i0 _ this _ st]
      define st1 where "st1 = sel_mov ?t d (?st\<lparr>sel_vregs := vi'\<rparr>)"
      have s1: "sel_inv vi X st1" "in_ok (sel_vregs st1) (X \<union> code_defs (sel_pre st1)) ?t" "sel_src ?t" using m n by (simp_all add: st1_def)
      have v1: "sel_vregs st1 = vi'" "sel_pre st1 = [InstUnop q_mov ?t d]" by (simp_all add: st1_def sel_mov_def)
      have x: "extends vi vi'" using AddLocal_ok(2) [OF q(1) n] .
      have o: "out_ok (sel_vregs st1) d" "in_ok (sel_vregs st1) (X \<union> code_defs (sel_pre st1)) a" using out_ok_ext [OF d(2) x] in_ok_ext [OF ab(3) x] v1 by auto
      note m2 = mov_dst_inv [OF s1(1) d(1) o]
      let ?st2 = "sel_mov d a st1"
      have "in_ok (sel_vregs ?st2) (X \<union> code_defs (sel_pre ?st2)) ?t"
        using in_ok_ext [OF s1(2) extends_refl, of "X \<union> code_defs (sel_pre ?st2)"] by (auto simp: sel_mov_def)
      from sel_inv_src [OF sel_inv_src [OF m2(1) sd m2(2), of 0] s1(3), of 1] this
      have "sel_inv vi X (?st2\<lparr>sel_srcl := [d, ?t]\<rparr>)" by (simp add: sel_mov_def st1_def)
      then show ?thesis using q(2,3) AddLocal_ok(4) [OF q(1) n] by (simp add: sel_mov_def st1_def)
    qed
  qed
  then show "sel_inv vi X \<lparr>sel_pre = pre, sel_srcl = srcl, sel_vregs = vi'\<rparr>" "NumAll vi' \<le> Suc (NumAll vi)" "length srcl = 2" by simp_all
qed

lemma alias_table:
  assumes "InstBinop_HasOpcode op"
  shows "\<exists>ct0 ct2 ord. ra_info op = Some ([SetAlias 1 ct0, SetAlias 0 ct0, ct2], ord) \<and> \<not> ct_has_alias ct2"
  using assms by (cases op) (auto simp: InstBinop_HasOpcode_def ct_values make_def_def)

lemma no_alias_table:
  assumes "ra_info (GetOpcode c) = Some (op_ct, ord)" and "op_typed c" and "\<forall>op d a b. c \<noteq> InstBinop op d a b" and "i < length (inputs c)"
  shows "\<not> ct_has_alias (op_ct ! (length (outputs c) + i))"
  using assms by (cases c) (auto simp: ct_values make_def_def less_Suc_eq)

lemma select_shape:
  assumes c: "inst_ok vi X c" "sel_typed c" "\<not> is_call c" and n: "NumAll vi + 3 \<le> 2 ^ 16" and r: "SelectOperands c vi = Inr (pre, c', vi')"
  shows "extends vi vi' \<and> (UNDEF \<notin> set (loc_info vi) \<longrightarrow> UNDEF \<notin> set (loc_info vi')) \<and> straight vi' X pre \<and> inst_ok vi' (X \<union> code_defs pre) c' \<and>
    outputs c' = outputs c \<and> ends c' = ends c \<and> is_call c' = is_call c \<and> NumAll vi' \<le> NumAll vi + 3 \<and> GetOpcode c' = GetOpcode c"
proof -
  obtain op_ct ord where info: "ra_info (GetOpcode c) = Some (op_ct, ord)" using r by (auto simp: SelectOperands_def split: option.splits)
  let ?idx = "[0..<length (inputs c)]" and ?st = "\<lparr>sel_pre = [], sel_srcl = inputs c, sel_vregs = vi\<rparr>"
  obtain st1 st2 where s: "sel_loop (sel_alias op_ct (outputs c)) ?idx ?st = Inr st1" "sel_loop (sel_const op_ct (length (outputs c))) ?idx st1 = Inr st2"
      "pre = sel_pre st2" "c' = set_inputs (sel_srcl st2) c" "vi' = sel_vregs st2" using r info by (auto simp: SelectOperands_def Let_def)
  have src: "\<forall>v\<in>set (inputs c). sel_src v \<and> in_ok vi X v" using sel_typed_src [OF c(2,3)] c(1) by (simp add: inst_ok_def)
  have t: "op_typed c" using c(1) by (simp add: inst_ok_def)
  have "sel_inv vi X st1 \<and> NumAll (sel_vregs st1) \<le> Suc (NumAll vi) \<and> length (sel_srcl st1) = length (inputs c)"
  proof (cases "\<exists>op d a b. c = InstBinop op d a b")
    case True
    then obtain op d a b where e: "c = InstBinop op d a b" by blast
    obtain q where d: "view_of d = VVirt I32 q" "out_ok vi d" using c(1,2) e by (auto simp: inst_ok_def sel_dst_def split: view.splits)
    obtain ct0 ct2 where ct: "op_ct = [SetAlias 1 ct0, SetAlias 0 ct0, ct2]" "\<not> ct_has_alias ct2" using alias_table [of op] t e info by auto
    obtain p1 srcl vi1 where ac: "alias_code d a b vi = (p1, srcl, vi1)" by (metis prod_cases3)
    have "IsVGPR d" using d(1) is_view(1) by blast
    then have "st1 = \<lparr>sel_pre = p1, sel_srcl = srcl, sel_vregs = vi1\<rparr>" using sel_alias_code [OF _ ct ac] s(1) e by (auto simp: numeral_2_eq_2)
    moreover have "NumAll vi < 2 ^ 16" using n by simp
    note ai = alias_inv [OF d this _ _ _ _ ac, of X]
    have "sel_src a" "sel_src b" "in_ok vi X a" "in_ok vi X b" using src e by simp_all
    note ai = ai [OF this]
    ultimately show ?thesis using ai e by simp
  next
    case False
    then have "sel_loop (sel_alias op_ct (outputs c)) ?idx ?st = Inr ?st"
      using no_alias_table [OF info t] by (intro sel_loop_same) (simp add: sel_alias_def)
    then show ?thesis using s(1) src by (simp add: sel_inv_def extends_refl)
  qed
  moreover have "length (inputs c) \<le> 2" by (cases c) simp_all
  ultimately have i: "sel_inv vi X st2" "length (sel_srcl st2) = length (inputs c)" "NumAll (sel_vregs st2) \<le> NumAll vi + 3"
    using sel_const_loop_inv [OF _ _ _ s(2), of vi X] n by auto
  have nh: "\<forall>h a. c \<noteq> InstHcall h a" using c(3) by auto
  have "inputs c' = sel_srcl st2" "outputs c' = outputs c" using inputs_set_inputs [OF i(2) nh] s(4) by auto
  moreover have "GetOpcode c' = GetOpcode c" unfolding s(4) by simp
  moreover have "op_typed c'" "ends c' = ends c" "is_call c' = is_call c" using t unfolding s(4) by (cases "(sel_srcl st2, c)" rule: set_inputs.cases; simp)+
  ultimately show ?thesis using i(1,3) c(1) s(3,5) out_ok_ext by (auto simp: sel_inv_def inst_ok_def)
qed

lemma visitor_shape:
  assumes c: "visit_ok vi X c" "sel_typed c" and n: "NumAll vi + 3 \<le> 2 ^ 16" and r: "QSelVisitor c vi = Inr (pre, c', vi')"
  shows "extends vi vi' \<and> (UNDEF \<notin> set (loc_info vi) \<longrightarrow> UNDEF \<notin> set (loc_info vi')) \<and> straight vi' X pre \<and> visit_ok vi' (X \<union> code_defs pre) c' \<and>
    outputs c' = outputs c \<and> ends c' = ends c \<and> is_call c' = is_call c \<and> NumAll vi' \<le> NumAll vi + 3"
proof (cases "c = InstBr \<or> (\<exists>t. c = InstGBr t) \<or> is_call c")
  case True
  then have "pre = [] \<and> c' = c \<and> vi' = vi" using r by (cases c) (auto simp: QSelVisitor_def)
  then show ?thesis using c(1) extends_refl by simp
next
  case False
  then have i: "inst_ok vi X c" "SelectOperands c vi = Inr (pre, c', vi')" using c(1) r by (cases c; auto simp: QSelVisitor_def)+
  note s = select_shape [OF i(1) c(2) _ n i(2)]
  have "op_typed c" using i(1) by (simp add: inst_ok_def)
  then have "GetOpcode c \<noteq> q_gbr" using False by (cases c) (auto simp: InstBinop_HasOpcode_def)
  then have "visit_ok vi' Y c'" if "inst_ok vi' Y c'" "is_call c' = is_call c" "GetOpcode c' = GetOpcode c" for Y
    using that False by (cases c') auto
  then show ?thesis using s False by auto
qed

lemma sel_block_shape:
  assumes "alloc_block_ok vi X cl cs" and "\<forall>c\<in>set cs. sel_typed c" and "NumAll vi + 3 * length cs \<le> 2 ^ 16" and "sel_block cs vi hc = Inr (cs', vi', hc')"
  shows "extends vi vi' \<and> (UNDEF \<notin> set (loc_info vi) \<longrightarrow> UNDEF \<notin> set (loc_info vi')) \<and> NumAll vi' \<le> NumAll vi + 3 * length cs \<and> alloc_block_ok vi' X cl cs'"
  using assms
proof (induction cs arbitrary: vi X cl hc cs')
  case Nil
  then show ?case by (simp add: extends_refl)
next
  case (Cons c cs)
  let ?o = "set (out_regs (outputs c))" and ?cl = "ends c \<or> is_call c"
  obtain pre c' vi1 cs1 where s: "QSelVisitor c vi = Inr (pre, c', vi1)"
      "sel_block cs vi1 (hc \<or> GetOpFlags (GetOpcode c') AND Inst_HAS_CALLS \<noteq> 0) = Inr (cs1, vi', hc')" "cs' = pre @ c' # cs1"
    using Cons.prems(4) by auto
  have v: "extends vi vi1" "UNDEF \<notin> set (loc_info vi) \<longrightarrow> UNDEF \<notin> set (loc_info vi1)" "straight vi1 X pre" "visit_ok vi1 (X \<union> code_defs pre) c'"
      "outputs c' = outputs c" "ends c' = ends c" "is_call c' = is_call c" "NumAll vi1 \<le> NumAll vi + 3"
    using visitor_shape [OF _ _ _ s(1), of X] Cons.prems(1-3) by auto
  have b: "alloc_block_ok vi1 (X \<union> ?o) ?cl cs" using block_ok_ext [OF _ v(1) order_refl] Cons.prems(1) by simp
  have ih: "extends vi1 vi'" "UNDEF \<notin> set (loc_info vi1) \<longrightarrow> UNDEF \<notin> set (loc_info vi')" "NumAll vi' \<le> NumAll vi1 + 3 * length cs" "alloc_block_ok vi' (X \<union> ?o) ?cl cs1"
    using Cons.IH [OF b _ _ s(2)] Cons.prems(2,3) v(8) by auto
  have "ends c' \<longrightarrow> cs1 = []" using v(6) Cons.prems(1) s(2) by auto
  moreover have "alloc_block_ok vi' (X \<union> code_defs pre \<union> ?o) ?cl cs1" by (rule block_ok_ext [OF ih(4) extends_refl]) auto
  ultimately have "alloc_block_ok vi' (X \<union> code_defs pre) cl (c' # cs1)" using visit_ok_ext [OF v(4) ih(1) order_refl] v(5-7) by simp
  then have "alloc_block_ok vi' X cl cs'" unfolding s(3) using block_ok_prefix [OF straight_ext [OF v(3) ih(1)]] by blast
  then show ?case using extends_trans [OF v(1) ih(1)] v(2,8) ih(2,3) by auto
qed

lemma QSel_shape:
  assumes "\<forall>b\<in>set bs. alloc_block_ok vi (globals vi) True (fst b) \<and> (\<forall>c\<in>set (fst b). sel_typed c)" and "NumAll vi + 3 * region_size bs \<le> 2 ^ 16"
    and "QSel_Run bs vi hc = Inr (bs', vi', hc')"
  shows "extends vi vi' \<and> (UNDEF \<notin> set (loc_info vi) \<longrightarrow> UNDEF \<notin> set (loc_info vi')) \<and> (\<forall>b\<in>set bs'. alloc_block_ok vi' (globals vi') True (fst b))"
  using assms
proof (induction bs arbitrary: vi hc bs')
  case Nil
  then show ?case by (simp add: extends_refl)
next
  case (Cons b bs)
  obtain cs vi1 hc1 bs1 where s: "sel_block (fst b) vi hc = Inr (cs, vi1, hc1)" "QSel_Run bs vi1 hc1 = Inr (bs1, vi', hc')" "bs' = (cs, snd b) # bs1"
    using Cons.prems(3) by auto
  have sz: "NumAll vi + 3 * length (fst b) \<le> 2 ^ 16" using Cons.prems(2) by (simp add: region_size_def)
  have v: "extends vi vi1" "UNDEF \<notin> set (loc_info vi) \<longrightarrow> UNDEF \<notin> set (loc_info vi1)" "NumAll vi1 \<le> NumAll vi + 3 * length (fst b)" "alloc_block_ok vi1 (globals vi) True cs"
    using sel_block_shape [OF _ _ sz s(1)] Cons.prems(1) by auto
  have "\<forall>b\<in>set bs. alloc_block_ok vi1 (globals vi1) True (fst b) \<and> (\<forall>c\<in>set (fst b). sel_typed c)"
    using Cons.prems(1) block_ok_ext [OF _ v(1) order_refl] extends_facts(5) [OF v(1)] by simp
  then have ih: "extends vi1 vi'" "UNDEF \<notin> set (loc_info vi1) \<longrightarrow> UNDEF \<notin> set (loc_info vi')" "\<forall>b\<in>set bs1. alloc_block_ok vi' (globals vi') True (fst b)"
    using Cons.IH [OF _ _ s(2)] Cons.prems(2) v(3) by (auto simp: region_size_def)
  have "alloc_block_ok vi' (globals vi') True cs"
    using block_ok_ext [OF v(4) ih(1) order_refl] extends_facts(5) [OF v(1)] extends_facts(5) [OF ih(1)] by simp
  then show ?case using extends_trans [OF v(1) ih(1)] v(2) ih(2,3) s(3) by simp
qed

end
