(* ===== verification/Codegen_Correct.thy ===== *)
theory Codegen_Correct
  imports Shape_Sel
begin

text \<open>
  The code generator up to emission, \<^verbatim>\<open>GenerateCode\<close> of \<^verbatim>\<open>src/dbt/qmc/qcg/qcg.cpp\<close>: selection and register allocation on a
  translated region, from guest code to allocated code, every step together.
\<close>

section \<open>The passes\<close>

definition GenerateCode_passes :: "rview \<Rightarrow> VRegsInfo \<Rightarrow> (rview \<times> bool) res option" where
  "GenerateCode_passes bs vi =
     dbind (Some (QSelPass_run bs vi)) (\<lambda>(bs, vi, has_calls).
     dbind (QRegAllocPass_run bs vi) (\<lambda>bs. Some (Inr (bs, \<not> has_calls))))"

text \<open>The number of virtual registers the allocator is given.\<close>

definition codegen_vregs :: "bool \<Rightarrow> (u32 \<times> u32) list \<Rightarrow> vmem \<Rightarrow> nat" where
  "codegen_vregs d ranges vm =
     (case Translate d (NewRegion state_info) ranges vm of
        Inl e \<Rightarrow> 0
      | Inr t \<Rightarrow> (case QSelPass_run (tview t) (vregs_info (t_region t)) of Inl e \<Rightarrow> 0 | Inr (v, vi, hc) \<Rightarrow> NumAll vi))"

lemma codegen_vregs_bound:
  assumes "ranges \<noteq> []" and "distinct (map fst ranges)" and "length ranges \<le> 63"
    and "\<forall>r\<in>set ranges. snd r \<noteq> 0 \<and> no_discarded vm TB_MAX_INSNS (fst r)"
  shows "codegen_vregs d ranges vm \<le> 32 + job_size ranges"
  using selected_region [OF assms, of d] by (auto simp: codegen_vregs_def)

section \<open>Allocated code of a range\<close>

text \<open>The guest as the host state shows it between blocks; the registers and the frame do not matter.\<close>

definition guest_of :: "mstate \<Rightarrow> qstate" where
  "guest_of ms = \<lparr>qcpu = m_cpu ms, qmem = m_mem ms, qloc = \<lambda>_. 0\<rparr>"

definition host_reaches :: "(mstate \<Rightarrow> RegN \<Rightarrow> u32) \<Rightarrow> rview \<Rightarrow> (u32 \<rightharpoonup> nat) \<Rightarrow> mstate bres \<Rightarrow> u32 \<Rightarrow> mstate \<Rightarrow> bool" where
  "host_reaches clob v m r pc ms \<longleftrightarrow> r = BExit pc ms \<or>
     (\<exists>b ms0. r = BGoto b ms0 \<and> (m pc = Some b \<and> ms0 = ms \<or> mexec_block clob v b ms0 = BExit pc ms))"

definition host_code_of_range :: "rview \<Rightarrow> (u32 \<rightharpoonup> nat) \<Rightarrow> vmem \<Rightarrow> u32 \<Rightarrow> nat \<Rightarrow> bool" where
  "host_code_of_range v m vm a bb \<longleftrightarrow>
     (\<forall>clob st ms. x0_zero st \<and> sim st (guest_of ms) \<and> gip st = a \<and> path_ok vm TB_MAX_INSNS a st \<longrightarrow>
        (\<exists>k st' ms'. 0 < k \<and> k \<le> TB_MAX_INSNS \<and> interp_steps k st = Some st' \<and>
           host_reaches clob v m (mexec_block clob v bb ms) (gip st') ms' \<and> sim st' (guest_of ms')) \<or>
        (\<exists>k st1 st' ms'. k < TB_MAX_INSNS \<and> interp_steps k st = Some st1 \<and> interp_step st1 = Raised st' \<and>
           mexec_block clob v bb ms = BRaise ms' \<and> same_cpu st' (guest_of ms')))"

lemma bound_guest: "bound (guest_of ms) ms"
  by (simp add: bound_def guest_of_def)

lemma sim_guest: "bound qs ms \<Longrightarrow> sim st qs \<Longrightarrow> sim st (guest_of ms)" "bound qs ms \<Longrightarrow> same_cpu st qs \<Longrightarrow> same_cpu st (guest_of ms)"
  by (simp_all add: bound_def sim_def same_cpu_def guest_of_def)

lemma host_reaches_ok:
  assumes block: "\<And>k qs ms. bound qs ms \<Longrightarrow> exec_block state_info v k qs \<noteq> BStuck \<Longrightarrow>
      rel_bres bound (exec_block state_info v k qs) (mexec_block clob v' k ms)"
    and r: "reaches v m (exec_block state_info v bb qs) pc s" and b: "bound qs ms"
  shows "\<exists>ms'. host_reaches clob v' m (mexec_block clob v' bb ms) pc ms' \<and> bound s ms'"
proof -
  let ?r = "exec_block state_info v bb qs" and ?r' = "mexec_block clob v' bb ms"
  have rel: "rel_bres bound ?r ?r'" using r by (intro block [OF b]) (auto simp: reaches_def)
  from r consider "?r = BExit pc s" | x where "?r = BGoto x s" "m pc = Some x" | x s0 where "?r = BGoto x s0" "exec_block state_info v x s0 = BExit pc s"
    unfolding reaches_def by blast
  then show ?thesis
  proof cases
    case 1
    then show ?thesis using rel by (cases ?r') (auto simp: host_reaches_def)
  next
    case 2
    then show ?thesis using rel by (cases ?r') (auto simp: host_reaches_def)
  next
    case (3 x s0)
    then obtain ms0 where m: "?r' = BGoto x ms0" "bound s0 ms0" using rel by (cases ?r') auto
    have "rel_bres bound (BExit pc s) (mexec_block clob v' x ms0)" using block [OF m(2), of x] 3(2) by simp
    then obtain ms' where "mexec_block clob v' x ms0 = BExit pc ms'" "bound s ms'" by (cases "mexec_block clob v' x ms0") auto
    then show ?thesis using m(1) by (auto simp: host_reaches_def)
  qed
qed

lemma host_code_ok:
  assumes block: "\<And>clob k qs ms. bound qs ms \<Longrightarrow> exec_block state_info v k qs \<noteq> BStuck \<Longrightarrow>
      rel_bres bound (exec_block state_info v k qs) (mexec_block clob v' k ms)"
    and c: "code_of_range v m vm a bb"
  shows "host_code_of_range v' m vm a bb"
  unfolding host_code_of_range_def
proof (intro allI impI)
  fix clob st ms assume h: "x0_zero st \<and> sim st (guest_of ms) \<and> gip st = a \<and> path_ok vm TB_MAX_INSNS a st"
  consider (run) k st' s' where "0 < k" "k \<le> TB_MAX_INSNS" "interp_steps k st = Some st'" "reaches v m (exec_block state_info v bb (guest_of ms)) (gip st') s'" "sim st' s'"
    | (trap) k st1 st' s' where "k < TB_MAX_INSNS" "interp_steps k st = Some st1" "interp_step st1 = Raised st'"
      "exec_block state_info v bb (guest_of ms) = BRaise s'" "same_cpu st' s'"
    using c h unfolding code_of_range_def by blast
  then show "(\<exists>k st' ms'. 0 < k \<and> k \<le> TB_MAX_INSNS \<and> interp_steps k st = Some st' \<and>
           host_reaches clob v' m (mexec_block clob v' bb ms) (gip st') ms' \<and> sim st' (guest_of ms')) \<or>
        (\<exists>k st1 st' ms'. k < TB_MAX_INSNS \<and> interp_steps k st = Some st1 \<and> interp_step st1 = Raised st' \<and>
           mexec_block clob v' bb ms = BRaise ms' \<and> same_cpu st' (guest_of ms'))"
  proof cases
    case run
    then show ?thesis using host_reaches_ok [OF block run(4) bound_guest] sim_guest(1) by blast
  next
    case trap
    have "rel_bres bound (BRaise s') (mexec_block clob v' bb ms)" using block [OF bound_guest, of bb ms clob] trap(4) by simp
    then obtain ms' where "mexec_block clob v' bb ms = BRaise ms'" "bound s' ms'" by (cases "mexec_block clob v' bb ms") auto
    then show ?thesis using trap sim_guest(2) by blast
  qed
qed

lemma typed_region_ok:
  assumes "typed_tr t" and "all_closed t" and "NumAll (vregs_info (t_region t)) + 3 * region_size (tview t) \<le> 2 ^ 16"
    and "QSelPass_run (tview t) (vregs_info (t_region t)) = Inr (v, vi, hc)" and "\<forall>b\<in>set v. \<forall>c\<in>set (fst b). selected c" and "NumAll vi \<le> 255"
  shows "info_ok vi" and "alloc_region_ok vi v" and "glob_info vi = state_info"
proof -
  let ?vi = "vregs_info (t_region t)"
  have gi: "glob_info ?vi = state_info" "NumAll ?vi = 32 + nloc t" using assms(1) by (simp_all add: typed_tr_def t_ok_def NumAll_def)
  have l: "set (loc_info ?vi) \<subseteq> {I32}" using assms(2) by (simp add: all_closed_def shaped_def i32_locals_def)
  have g: "31 \<notin> gregs" "gregs \<subseteq> globals ?vi" using guest_regs(1) [OF gi(1)] by (auto simp: gregs_def globals_def)
  have "alloc_block_ok ?vi (globals ?vi) True (fst b) \<and> (\<forall>c\<in>set (fst b). sel_typed c)" if "b \<in> set (tview t)" for b
  proof -
    have "sel_code (NumAll ?vi) (fst b)" "fe_code gregs (fst b)" "closed_code (fst b)" using that assms(1,2) gi(2) by (simp_all add: typed_tr_def all_closed_def shaped_def finished_def)
    then show ?thesis using fe_block_ok [OF gi(1) l _ _ g, of "fst b" True] by (simp add: sel_code_def)
  qed
  then have s: "extends ?vi vi" "UNDEF \<notin> set (loc_info ?vi) \<longrightarrow> UNDEF \<notin> set (loc_info vi)" "\<forall>b\<in>set v. alloc_block_ok vi (globals vi) True (fst b)"
    using QSel_shape [of "tview t" ?vi False v vi hc] assms(3,4) by (auto simp: QSelPass_run_def)
  show e: "glob_info vi = state_info" using s(1) gi(1) by (simp add: extends_def)
  have "UNDEF \<notin> set (loc_info ?vi)" using l by auto
  then show "info_ok vi" using guest_info_ok [OF e] s(2) assms(6) by blast
  show "alloc_region_ok vi v" using s(3) assms(5) by (simp add: alloc_region_ok_def)
qed

text \<open>The types that emission requires hold of translated code, and the passes keep them.\<close>

lemma fe_typed: "fe_code D cs \<Longrightarrow> \<forall>c\<in>set cs. succs_used c \<le> n \<Longrightarrow> typed_code False n cs"
  by (induction cs arbitrary: D) (auto simp: fe_inst_def)

lemma sel_src_flat: "sel_src v \<Longrightarrow> in_frame v \<and> \<not> is_slot v \<and> GetType v \<noteq> UNDEF"
  using is_view(5,6) by (auto simp: sel_src_def in_frame_def is_slot_def split: view.splits)

lemma sel_typed_flat: "sel_typed c \<Longrightarrow> \<not> is_call c \<Longrightarrow> flat c"
  using sel_typed_src sel_src_flat unfolding flat_def by blast

lemma front_typed:
  assumes "typed_tr t" and "all_closed t"
  shows "typed_region False (tview t)" and "\<forall>b\<in>set (tview t). \<forall>c\<in>set (fst b). flat c"
proof -
  have wf: "region_wf (t_region t)" using assms(1) by (simp add: typed_tr_def t_ok_def)
  have b: "fe_code gregs (fst b)" "\<forall>c\<in>set (fst b). succs_used c \<le> length (snd b)" "\<forall>s\<in>set (snd b). s < length (tview t)" "sel_code (32 + nloc t) (fst b)"
    if "b \<in> set (tview t)" for b
    using that assms wf by (auto simp: typed_tr_def all_closed_def shaped_def finished_def region_wf_def region_view_def)
  show "typed_region False (tview t)" using b fe_typed unfolding typed_region_def by blast
  have "flat c" if "b \<in> set (tview t)" "c \<in> set (fst b)" for b c
  proof (cases "is_call c")
    case False
    then show ?thesis using b(4) [OF that(1)] that(2) sel_typed_flat by (simp add: sel_code_def)
  next
    case True
    have "typed_code False (length (snd b)) (fst b)" using b(1,2) [OF that(1)] fe_typed by blast
    then have "host_typed c" using that(2) by (induction "fst b" arbitrary: b) auto
    then show ?thesis using True by (cases c) (auto simp: flat_def in_frame_def is_slot_def is_view(2))
  qed
  then show "\<forall>b\<in>set (tview t). \<forall>c\<in>set (fst b). flat c" by blast
qed

text \<open>
  The code generator up to emission. A job of at most 63 ranges with distinct starts and non-zero
  ends, over guest code without discarded loads, whose region has at most 255 virtual registers once
  selection has added its temporaries, translates, passes selection and passes register allocation: no assertion
  fires, no register runs out, and the allocator's loops end. Running the allocated block of a range on the host, from a
  state whose CPU state and memory are related to the interpreter's, with whatever its registers and
  spill frame hold and whatever calls leave in the registers they may clobber, gives what between one and
  \<open>TB_MAX_INSNS\<close> interpreter steps give, or the trap the interpreter raises.
\<close>

lemma generated_code:
  assumes "ranges \<noteq> []" and "distinct (map fst ranges)" and "length ranges \<le> 63"
    and "\<forall>r\<in>set ranges. snd r \<noteq> 0 \<and> no_discarded vm TB_MAX_INSNS (fst r)" and "codegen_vregs d ranges vm \<le> 255"
  shows "\<exists>t v leaf. Translate d (NewRegion state_info) ranges vm = Inr t \<and> typed_tr t \<and> length v = length (tview t) \<and>
    GenerateCode_passes (tview t) (vregs_info (t_region t)) = Some (Inr (v, leaf)) \<and>
    typed_region leaf v \<and> (\<forall>b\<in>set v. \<forall>c\<in>set (fst b). host_inst c) \<and>
    (\<forall>r\<in>set ranges. \<exists>bb. ip2bb t (fst r) = Some bb \<and> host_code_of_range v (ip2bb t) vm (fst r) bb)"
proof -
  obtain t v' vi' hc where s: "Translate d (NewRegion state_info) ranges vm = Inr t" "typed_tr t" "NumAll (vregs_info (t_region t)) + 3 * region_size (tview t) \<le> 2 ^ 16"
      "QSelPass_run (tview t) (vregs_info (t_region t)) = Inr (v', vi', hc)" "\<forall>b\<in>set v'. \<forall>c\<in>set (fst b). selected c"
      "\<forall>r\<in>set ranges. \<exists>bb. ip2bb t (fst r) = Some bb \<and> code_of_range v' (ip2bb t) vm (fst r) bb"
    using selected_region [OF assms(1-4), of d] by blast
  have n: "NumAll vi' \<le> 255" using assms(5) s(1,4) by (simp add: codegen_vregs_def)
  have sh: "all_closed t" using Translate_shape [OF assms(1-4) s(1)] .
  note ok = typed_region_ok [OF s(2) sh s(3-5) n]
  obtain v where v: "QRegAllocPass_run v' vi' = Some (Inr v)" "list_all2 (\<lambda>b b'. snd b' = snd b \<and> code_sim vi' bound (fst b) (fst b') \<and> (\<forall>c\<in>set (fst b'). host_inst c)) v' v"
    using pass_ok [OF ok(1,2)] by blast
  have "host_code_of_range v (ip2bb t) vm a bb" if "code_of_range v' (ip2bb t) vm a bb" for a bb
    using host_code_ok [OF _ that] code_sim_exec [OF v(2)] ok(3) by simp
  moreover have "GenerateCode_passes (tview t) (vregs_info (t_region t)) = Some (Inr (v, \<not> hc))"
    using s(4) v(1) by (simp add: GenerateCode_passes_def dbind_def)
  moreover have ty: "typed_region (\<not> hc) v'" using selected_typed [OF s(4) front_typed [OF s(2) sh]] .
  moreover have "typed_region (\<not> hc) v" using pass_typed [OF ok(1) v(1) ty] .
  moreover have "\<forall>b\<in>set v. \<forall>c\<in>set (fst b). host_inst c" using v(2) unfolding list_all2_conv_all_nth by (metis in_set_conv_nth)
  moreover have "length v' = length (tview t)" using QSel_typed [of "tview t" "vregs_info (t_region t)" False v' vi' hc] s(4) front_typed [OF s(2) sh]
    by (auto simp: QSelPass_run_def typed_region_def dest: list_all2_lengthD)
  moreover have "length v = length v'" using list_all2_lengthD [OF v(2)] by simp
  ultimately show ?thesis using s(1,2,6) by (intro exI [of _ t] exI [of _ v] exI [of _ "\<not> hc"]) auto
qed

text \<open>The first range is the first block.\<close>

lemma ranges_ip2bb:
  assumes "typed_tr t" and "\<forall>r\<in>set rs. no_discarded (t_vmem t) TB_MAX_INSNS (fst r)" and "translate_ranges d rs t = Inr t'"
  shows "ip2bb t' = ip2bb t"
  using assms
proof (induction rs arbitrary: t)
  case (Cons r rs)
  obtain t1 where t1: "TranslateIPRange d (fst r) (snd r) t = Inr t1" "translate_ranges d rs t1 = Inr t'" using Cons.prems(3) by auto
  have "no_discarded (t_vmem t) TB_MAX_INSNS (fst r)" using Cons.prems(2) by simp
  note g = TranslateIPRange_typed [OF Cons.prems(1) this t1(1)]
  show ?case using Cons.IH [OF _ _ t1(2)] g Cons.prems(2) by simp
qed simp

lemma first_block:
  assumes "ranges \<noteq> []" and "distinct (map fst ranges)" and "\<forall>r\<in>set ranges. snd r \<noteq> 0 \<and> no_discarded vm TB_MAX_INSNS (fst r)"
    and "Translate d (NewRegion state_info) ranges vm = Inr t"
  shows "ip2bb t (fst (hd ranges)) = Some 0"
proof -
  define t0 where "t0 = NewTranslator (NewRegion state_info) vm"
  define t1 where "t1 = create_blocks ranges t0"
  note c = blocks_created [OF assms(1-3), folded t0_def t1_def]
  have "typed_tr t1" using c by (auto simp: typed_tr_def sel_code_def)
  then have i: "ip2bb t = ip2bb t1" using ranges_ip2bb [of t1 ranges d t] assms(3,4) c(5) by (auto simp: Translate_def t1_def t0_def)
  have "region_wf (t_region t0)" "blist (t_region t0) = []" "ip2bb t0 = Map.empty"
    by (simp_all add: t0_def NewTranslator_def NewRegion_def region_wf_def)
  then have "\<forall>k<length ranges. ip2bb t1 (fst (ranges ! k)) = Some k" using create_blocks_todo [OF assms(2), of t0] by (simp add: t1_def)
  then show ?thesis using assms(1) i by (simp add: hd_conv_nth)
qed

end
