(* ===== verification/Arena.thy ===== *)
theory Arena
  imports Prelude
begin

text \<open>
  The bump allocator of \<^verbatim>\<open>src/dbt/arena.h\<close> and \<^verbatim>\<open>src/dbt/arena.cpp\<close>, which holds regions, translated
  code and translation blocks. The host's \<^verbatim>\<open>mmap\<close> is an argument: the base address it returns, or
  nothing when it fails. A failed allocation asserts in a debug build and returns null in a release
  build, so the build is an argument too.
\<close>

section \<open>Allocator\<close>

record MemArena =
  pool :: u64
  pool_sz :: u64
  used :: u64

definition NewArena :: MemArena where "NewArena = \<lparr>pool = 0, pool_sz = 0, used = 0\<rparr>"

definition MemArena_Init :: "(u64 \<Rightarrow> u64 option) \<Rightarrow> u64 \<Rightarrow> MemArena \<Rightarrow> MemArena res" where
  "MemArena_Init host_mmap sz0 a =
     (if pool a \<noteq> 0 then Inl AssertFailed else
      let sz = roundup sz0 4096 in
      case host_mmap sz of
        None \<Rightarrow> Inl Panic
      | Some p \<Rightarrow> Inr \<lparr>pool = p, pool_sz = sz, used = 0\<rparr>)"

definition MemArena_Destroy :: "(u64 \<Rightarrow> u64 \<Rightarrow> bool) \<Rightarrow> MemArena \<Rightarrow> MemArena res" where
  "MemArena_Destroy munmap a =
     (if pool a = 0 then Inr a
      else if \<not> munmap (pool a) (pool_sz a) then Inl Panic
      else Inr (a\<lparr>pool := 0\<rparr>))"

definition MemArena_Reset :: "MemArena \<Rightarrow> MemArena" where "MemArena_Reset a = a\<lparr>used := 0\<rparr>"

definition Allocate :: "bool \<Rightarrow> u64 \<Rightarrow> u64 \<Rightarrow> MemArena \<Rightarrow> (u64 option \<times> MemArena) res" where
  "Allocate debug alloc_sz align a =
     (let alloc_start = roundup (used a) align in
      if pool_sz a < alloc_start + alloc_sz
      then if debug then Inl AssertFailed else Inr (None, a)
      else Inr (Some (pool a + alloc_start), a\<lparr>used := alloc_start + alloc_sz\<rparr>))"

definition GetUsedSize :: "MemArena \<Rightarrow> u64" where "GetUsedSize a = used a"

section \<open>The contract of an allocator\<close>

text \<open>Requests are served at increasing, aligned offsets below the capacity.\<close>

locale bump_allocator =
  fixes alloc :: "nat \<Rightarrow> nat \<Rightarrow> 'a \<Rightarrow> (nat \<times> 'a) option"
    and top :: "'a \<Rightarrow> nat" and cap :: "'a \<Rightarrow> nat"
    and inv :: "'a \<Rightarrow> bool" and request :: "nat \<Rightarrow> nat \<Rightarrow> bool"
  assumes alloc_Some: "inv a \<Longrightarrow> request sz al \<Longrightarrow> alloc sz al a = Some (p, a') \<Longrightarrow>
      inv a' \<and> cap a' = cap a \<and> top a \<le> p \<and> p + sz = top a' \<and> al dvd p"
    and inv_cap: "inv a \<Longrightarrow> top a \<le> cap a"
begin

primrec alloc_all :: "(nat \<times> nat) list \<Rightarrow> 'a \<Rightarrow> (nat list \<times> 'a) option" where
  "alloc_all [] a = Some ([], a)"
| "alloc_all (r # rs) a =
     (case alloc (fst r) (snd r) a of
        None \<Rightarrow> None
      | Some (p, a) \<Rightarrow> map_option (\<lambda>(ps, a). (p # ps, a)) (alloc_all rs a))"

text \<open>Blocks handed out one after the other do not overlap and lie inside the pool.\<close>

lemma alloc_all_disjoint:
  assumes "inv a" and "alloc_all rs a = Some (ps, a')" and "\<forall>r\<in>set rs. request (fst r) (snd r)"
  shows "length ps = length rs \<and> inv a' \<and> cap a' = cap a \<and> top a \<le> top a' \<and>
    (\<forall>i<length rs. top a \<le> ps ! i \<and> ps ! i + fst (rs ! i) \<le> top a' \<and> snd (rs ! i) dvd ps ! i) \<and>
    (\<forall>i j. i < j \<and> j < length rs \<longrightarrow> ps ! i + fst (rs ! i) \<le> ps ! j)"
  using assms
proof (induction rs arbitrary: a ps)
  case Nil
  then show ?case by simp
next
  case (Cons r rs)
  obtain p a1 qs where a1: "alloc (fst r) (snd r) a = Some (p, a1)" "alloc_all rs a1 = Some (qs, a')" "ps = p # qs"
    using Cons.prems(2) by (auto split: option.splits)
  have r: "inv a1" "cap a1 = cap a" "top a \<le> p" "p + fst r = top a1" "snd r dvd p"
    using alloc_Some [OF Cons.prems(1) _ a1(1)] Cons.prems(3) by auto
  have IH: "length qs = length rs \<and> inv a' \<and> cap a' = cap a1 \<and> top a1 \<le> top a' \<and>
    (\<forall>i<length rs. top a1 \<le> qs ! i \<and> qs ! i + fst (rs ! i) \<le> top a' \<and> snd (rs ! i) dvd qs ! i) \<and>
    (\<forall>i j. i < j \<and> j < length rs \<longrightarrow> qs ! i + fst (rs ! i) \<le> qs ! j)"
    using Cons.IH [OF r(1) a1(2)] Cons.prems(3) by simp
  have "top a \<le> ps ! i \<and> ps ! i + fst ((r # rs) ! i) \<le> top a' \<and> snd ((r # rs) ! i) dvd ps ! i" if "i < Suc (length rs)" for i
    using that IH r a1(3) by (cases i) auto
  moreover have "ps ! i + fst ((r # rs) ! i) \<le> ps ! j" if "i < j" "j < Suc (length rs)" for i j
    using that IH r a1(3) by (cases i; cases j) auto
  ultimately show ?case using IH r a1(3) by auto
qed

end

text \<open>The arena in offsets from its base, for requests that cannot wrap around.\<close>

definition arena_alloc :: "nat \<Rightarrow> nat \<Rightarrow> MemArena \<Rightarrow> (nat \<times> MemArena) option" where
  "arena_alloc sz al a =
     (case Allocate False (of_nat sz) (of_nat al) a of
        Inr (Some p, a') \<Rightarrow> Some (unat (p - pool a), a')
      | _ \<Rightarrow> None)"

definition arena_inv :: "MemArena \<Rightarrow> bool" where
  "arena_inv a \<longleftrightarrow> unat (used a) \<le> unat (pool_sz a) \<and> unat (pool_sz a) \<le> 2 ^ 62"

definition arena_request :: "nat \<Rightarrow> nat \<Rightarrow> bool" where
  "arena_request sz al \<longleftrightarrow> 0 < al \<and> al \<le> 2 ^ 62 \<and> sz \<le> 2 ^ 62"

interpretation arena: bump_allocator arena_alloc "\<lambda>a. unat (used a)" "\<lambda>a. unat (pool_sz a)" arena_inv arena_request
proof
  fix a sz al p a'
  assume inv: "arena_inv a" and req: "arena_request sz al" and al: "arena_alloc sz al a = Some (p, a')"
  let ?y = "of_nat al :: u64" and ?z = "of_nat sz :: u64"
  define st where "st = roundup (used a) ?y"
  have u: "unat ?y = al" "unat ?z = sz" using req
    by (simp_all only: arena_request_def unsigned_of_nat) (simp_all add: take_bit_nat_eq_self)
  have y: "?y \<noteq> 0" using u(1) req by (auto simp: arena_request_def)
  note ru = roundup_nat [OF y, of "used a", unfolded u, folded st_def]
  have b: "unat (used a) + al < 2 ^ 64" using inv req by (simp add: arena_inv_def arena_request_def)
  have s: "unat (st + ?z) = unat st + sz"
    using ru(3) [OF b] inv req u(2) by (simp add: unat_word_ariths arena_inv_def arena_request_def)
  have c: "\<not> pool_sz a < st + ?z" "p = unat st" "a' = a\<lparr>used := st + ?z\<rparr>"
    using al by (auto simp: arena_alloc_def Allocate_def Let_def st_def split: if_splits)
  have "unat st + sz \<le> unat (pool_sz a)" using c(1) s by (simp add: word_less_nat_alt)
  then show "arena_inv a' \<and> unat (pool_sz a') = unat (pool_sz a) \<and> unat (used a) \<le> p \<and> p + sz = unat (used a') \<and> al dvd p"
    using inv c ru(2,4) [OF b] s by (simp add: arena_inv_def)
qed (simp add: arena_inv_def)

text \<open>C15. Allocations of one arena never overlap: for any sequence of requests the arena serves, each
  block starts at a multiple of its alignment, lies between the old mark and the pool's end, and ends
  before the next one begins.\<close>

theorem arena_blocks_disjoint:
  assumes "arena_inv a" and "arena.alloc_all rs a = Some (ps, a')"
    and "\<forall>r\<in>set rs. arena_request (fst r) (snd r)" and "i < j" and "j < length rs"
  shows "ps ! i + fst (rs ! i) \<le> ps ! j \<and> ps ! j + fst (rs ! j) \<le> unat (pool_sz a) \<and>
    unat (used a) \<le> ps ! i \<and> snd (rs ! i) dvd ps ! i \<and> snd (rs ! j) dvd ps ! j"
proof -
  note d = arena.alloc_all_disjoint [OF assms(1-3)]
  have "unat (used a') \<le> unat (pool_sz a)" using d arena.inv_cap [of a'] by auto
  then show ?thesis using d assms(4,5) by (meson less_trans order_trans)
qed

theorem arena_blocks_disjoint_witness:
  "\<exists>ps a'. arena.alloc_all [(10, 1), (24, 8)] \<lparr>pool = 0x100000, pool_sz = 4096, used = 0\<rparr> = Some (ps, a') \<and>
     ps ! 0 + 10 \<le> ps ! 1 \<and> 8 dvd ps ! 1"
proof -
  let ?a = "\<lparr>pool = 0x100000, pool_sz = 4096, used = 0\<rparr>"
  have r: "arena.alloc_all [(10, 1), (24, 8)] ?a = Some ([0, 16], ?a\<lparr>used := 40\<rparr>)"
    by (simp add: arena.alloc_all.simps arena_alloc_def Allocate_def roundup_def)
  have "arena_inv ?a" "\<forall>r\<in>set [(10 :: nat, 1 :: nat), (24, 8)]. arena_request (fst r) (snd r)"
    by (simp_all add: arena_inv_def arena_request_def)
  from arena_blocks_disjoint [OF this(1) r this(2), of 0 1] r show ?thesis by auto
qed

end
