(* ===== verification/TCache.thy ===== *)
theory TCache
  imports Arena RV32_Interp
begin

text \<open>
  The translation cache of \<^verbatim>\<open>src/dbt/tcache/tcache.h\<close> and \<^verbatim>\<open>src/dbt/tcache/tcache.cpp\<close>: the ordered map
  from guest addresses to translation blocks, the direct-mapped first-level cache in front of it, the
  cache of indirect branch targets that translated code reads itself, the table of links between
  blocks and the two pools. Translation blocks live at addresses; the class's static members are a
  record, with the control-flow dump's entries for indirect branch targets beside them. The standard ordered map is a sorted association list; its contract is a locale.
\<close>

section \<open>Ordered maps\<close>

fun sm_insert :: "u32 \<Rightarrow> 'v \<Rightarrow> (u32 \<times> 'v) list \<Rightarrow> (u32 \<times> 'v) list" where
  "sm_insert k v [] = [(k, v)]"
| "sm_insert k v ((k', v') # m) =
     (if k < k' then (k, v) # (k', v') # m
      else if k = k' then (k', v') # m
      else (k', v') # sm_insert k v m)"

definition sm_find :: "u32 \<Rightarrow> (u32 \<times> 'v) list \<Rightarrow> 'v option" where
  "sm_find k m = map_of m k"

text \<open>\<open>upper_bound\<close>: the position of the first key above \<open>k\<close>, as the rest of the map from there on.\<close>

definition sm_upper_bound :: "u32 \<Rightarrow> (u32 \<times> 'v) list \<Rightarrow> (u32 \<times> 'v) list" where
  "sm_upper_bound k m = dropWhile (\<lambda>e. fst e \<le> k) m"

definition sm_sorted :: "(u32 \<times> 'v) list \<Rightarrow> bool" where
  "sm_sorted m \<longleftrightarrow> sorted_wrt (<) (map fst m)"

locale ordered_map =
  fixes lookup :: "'m \<Rightarrow> u32 \<Rightarrow> 'v option"
    and insert' :: "u32 \<Rightarrow> 'v \<Rightarrow> 'm \<Rightarrow> 'm"
    and above :: "u32 \<Rightarrow> 'm \<Rightarrow> (u32 \<times> 'v) option"
    and inv :: "'m \<Rightarrow> bool"
  assumes lookup_insert: "inv m \<Longrightarrow>
      lookup (insert' k v m) k' = (if k' = k \<and> lookup m k = None then Some v else lookup m k')"
    and inv_insert: "inv m \<Longrightarrow> inv (insert' k v m)"
    and above_None: "inv m \<Longrightarrow> above k m = None \<longleftrightarrow> (\<forall>k'. k < k' \<longrightarrow> lookup m k' = None)"
    and above_Some: "inv m \<Longrightarrow> above k m = Some (k', v) \<Longrightarrow>
      k < k' \<and> lookup m k' = Some v \<and> (\<forall>k''. k < k'' \<and> k'' < k' \<longrightarrow> lookup m k'' = None)"
begin

lemma insert_old: "inv m \<Longrightarrow> lookup m k = Some w \<Longrightarrow> lookup (insert' k v m) = lookup m"
  by (auto simp: lookup_insert fun_eq_iff)

lemma above_least:
  "inv m \<Longrightarrow> lookup m k1 \<noteq> None \<Longrightarrow> k < k1 \<Longrightarrow> \<exists>k' v. above k m = Some (k', v) \<and> k' \<le> k1"
  by (metis above_None above_Some not_None_eq not_less old.prod.exhaust)

end

lemma sm_insert_set: "fst ` set (sm_insert k v m) = insert k (fst ` set m)"
  by (induction k v m rule: sm_insert.induct) auto

lemma sm_sorted_Cons: "sm_sorted ((k, v) # m) \<longleftrightarrow> (\<forall>k'\<in>fst ` set m. k < k') \<and> sm_sorted m"
  by (simp add: sm_sorted_def)

lemma sm_insert_sorted: "sm_sorted m \<Longrightarrow> sm_sorted (sm_insert k v m)"
proof (induction k v m rule: sm_insert.induct)
  case (1 k v)
  then show ?case by (simp add: sm_sorted_def)
next
  case (2 k v k' v' m)
  have "\<forall>x\<in>fst ` set m. k' < x" "sm_sorted m" using "2.prems" by (simp_all add: sm_sorted_Cons)
  with 2 show ?case
    by (cases "k < k'"; cases "k = k'") (auto simp: sm_sorted_Cons sm_insert_set intro: less_trans)
qed

lemma sm_find_notin: "k \<notin> fst ` set m \<Longrightarrow> sm_find k m = None"
  by (simp add: sm_find_def map_of_eq_None_iff)

lemma sm_find_insert:
  "sm_sorted m \<Longrightarrow> sm_find k' (sm_insert k v m) = (if k' = k \<and> sm_find k m = None then Some v else sm_find k' m)"
proof (induction k v m rule: sm_insert.induct)
  case (2 k v k0 v0 m)
  have "sm_find k m = None" if "k < k0"
    using 2(2) that by (intro sm_find_notin) (force simp: sm_sorted_Cons)
  with 2 show ?case by (auto simp: sm_find_def sm_sorted_Cons)
qed (simp add: sm_find_def)

lemma sm_upper_bound_hd:
  "sm_sorted m \<Longrightarrow>
    (case sm_upper_bound k m of
       [] \<Rightarrow> \<forall>k'. k < k' \<longrightarrow> sm_find k' m = None
     | (k1, v) # _ \<Rightarrow> k < k1 \<and> sm_find k1 m = Some v \<and> (\<forall>k'. k < k' \<and> k' < k1 \<longrightarrow> sm_find k' m = None))"
proof (induction m)
  case Nil
  then show ?case by (simp add: sm_upper_bound_def sm_find_def)
next
  case (Cons e m)
  obtain k0 v0 where e: "e = (k0, v0)" by (cases e)
  have s: "\<forall>k'\<in>fst ` set m. k0 < k'" "sm_sorted m" using Cons.prems by (simp_all add: e sm_sorted_Cons)
  show ?case
  proof (cases "k0 \<le> k")
    case True
    then have "sm_upper_bound k (e # m) = sm_upper_bound k m" by (simp add: sm_upper_bound_def e)
    moreover have "k < k' \<Longrightarrow> sm_find k' (e # m) = sm_find k' m" for k' using True by (auto simp: sm_find_def e)
    ultimately show ?thesis using Cons.IH [OF s(2)] by (auto split: list.splits)
  next
    case False
    have "sm_find k' (e # m) = None" if "k' < k0" for k'
      using that s(1) sm_find_notin [of k' m] by (force simp: sm_find_def e)
    with False show ?thesis by (auto simp: sm_upper_bound_def e sm_find_def)
  qed
qed

definition sm_above :: "u32 \<Rightarrow> (u32 \<times> 'v) list \<Rightarrow> (u32 \<times> 'v) option" where
  "sm_above k m = (case sm_upper_bound k m of [] \<Rightarrow> None | e # _ \<Rightarrow> Some e)"

interpretation smap: ordered_map "\<lambda>m k. sm_find k m" sm_insert sm_above sm_sorted
proof
  fix m :: "(u32 \<times> 'a) list" and k
  assume s: "sm_sorted m"
  show "sm_above k m = None \<longleftrightarrow> (\<forall>k'. k < k' \<longrightarrow> sm_find k' m = None)"
    using sm_upper_bound_hd [OF s, of k] by (auto simp: sm_above_def split: list.splits prod.splits)
  fix k' v assume "sm_above k m = Some (k', v)"
  then show "k < k' \<and> sm_find k' m = Some v \<and> (\<forall>k''. k < k'' \<and> k'' < k' \<longrightarrow> sm_find k'' m = None)"
    using sm_upper_bound_hd [OF s, of k] by (auto simp: sm_above_def split: list.splits prod.splits)
qed (simp_all add: sm_find_insert sm_insert_sorted)

section \<open>State\<close>

record TBlock =
  tcode_ptr :: u64
  tcode_size :: u64
  tb_ip :: u32
  is_brind_target :: bool
  is_segment_entry :: bool

definition NewTBlock :: TBlock where
  "NewTBlock = \<lparr>tcode_ptr = 0, tcode_size = 0, tb_ip = 0, is_brind_target = False, is_segment_entry = False\<rparr>"

definition sizeof_TBlock :: u64 where "sizeof_TBlock = 24"

definition L1_CACHE_BITS :: nat where "L1_CACHE_BITS = 12"

definition PAGE_SIZE :: u64 where "PAGE_SIZE = 4096"

definition TB_POOL_SIZE :: u64 where "TB_POOL_SIZE = 32 * 1024 * 1024"
definition CODE_POOL_SIZE :: u64 where "CODE_POOL_SIZE = 128 * 1024 * 1024"

record tcache =
  l1_cache :: "u32 \<Rightarrow> u64 option"
  l1_brind_cache :: "u32 \<Rightarrow> u32 \<times> u64"
  tcache_map :: "(u32 \<times> u64) list"
  link_map :: "(u32 \<times> u64) list"
  tb_pool :: MemArena
  code_pool :: MemArena
  tblocks :: "u64 \<rightharpoonup> TBlock"
  brind_log :: "u32 list"

definition l1hash :: "u32 \<Rightarrow> u32" where
  "l1hash a = ucast ((ucast (drop_bit 2 a) :: u64) AND (push_bit L1_CACHE_BITS 1 - 1))"

definition deref :: "u64 \<Rightarrow> tcache \<Rightarrow> TBlock res" where
  "deref p t = (case tblocks t p of None \<Rightarrow> Inl BadDeref | Some tb \<Rightarrow> Inr tb)"

section \<open>Operations\<close>

definition tcache_Init :: "(u64 \<Rightarrow> u64 option) \<Rightarrow> tcache \<Rightarrow> tcache res" where
  "tcache_Init host_mmap t =
     rbind (MemArena_Init host_mmap TB_POOL_SIZE (tb_pool t)) (\<lambda>tbp.
     rbind (MemArena_Init host_mmap CODE_POOL_SIZE (code_pool t)) (\<lambda>cp.
     Inr (t\<lparr>l1_cache := \<lambda>_. None, l1_brind_cache := \<lambda>_. (0, 0), tcache_map := [],
           tb_pool := tbp, code_pool := cp\<rparr>)))"

definition tcache_Destroy :: "(u64 \<Rightarrow> u64 \<Rightarrow> bool) \<Rightarrow> tcache \<Rightarrow> tcache res" where
  "tcache_Destroy munmap t =
     rbind (MemArena_Destroy munmap (tb_pool t)) (\<lambda>tbp.
     rbind (MemArena_Destroy munmap (code_pool t)) (\<lambda>cp.
     Inr (t\<lparr>l1_cache := \<lambda>_. None, l1_brind_cache := \<lambda>_. (0, 0), tcache_map := [],
           tb_pool := tbp, code_pool := cp\<rparr>)))"

definition Invalidate :: "tcache \<Rightarrow> tcache" where
  "Invalidate t =
     t\<lparr>l1_cache := \<lambda>_. None, l1_brind_cache := \<lambda>_. (0, 0), tcache_map := [],
       tb_pool := MemArena_Reset (tb_pool t), code_pool := MemArena_Reset (code_pool t), link_map := []\<rparr>"

definition tcache_Insert :: "u64 \<Rightarrow> tcache \<Rightarrow> tcache res" where
  "tcache_Insert p t =
     rbind (deref p t) (\<lambda>tb.
       Inr (t\<lparr>tcache_map := sm_insert (tb_ip tb) p (tcache_map t),
             l1_cache := (l1_cache t)(l1hash (tb_ip tb) := Some p)\<rparr>))"

definition LookupFull :: "u32 \<Rightarrow> tcache \<Rightarrow> u64 option" where
  "LookupFull a t = sm_find a (tcache_map t)"

definition LookupFast :: "u32 \<Rightarrow> tcache \<Rightarrow> u64 option res" where
  "LookupFast a t =
     (case l1_cache t (l1hash a) of
        None \<Rightarrow> Inl BadDeref
      | Some p \<Rightarrow> rbind (deref p t) (\<lambda>tb. Inr (if tb_ip tb = a then Some p else None)))"

definition Lookup :: "u32 \<Rightarrow> tcache \<Rightarrow> (u64 option \<times> tcache) res" where
  "Lookup a t =
     (let hash = l1hash a;
          full = (case LookupFull a t of
                    None \<Rightarrow> (None, t)
                  | Some p \<Rightarrow> (Some p, t\<lparr>l1_cache := (l1_cache t)(hash := Some p)\<rparr>))
      in case l1_cache t hash of
           None \<Rightarrow> Inr full
         | Some p \<Rightarrow> rbind (deref p t) (\<lambda>tb. if tb_ip tb = a then Inr (Some p, t) else Inr full))"

definition LookupUpperBound :: "u32 \<Rightarrow> tcache \<Rightarrow> u64 option" where
  "LookupUpperBound a t = map_option snd (sm_above a (tcache_map t))"

definition CacheBrind :: "u64 \<Rightarrow> tcache \<Rightarrow> tcache res" where
  "CacheBrind p t =
     rbind (deref p t) (\<lambda>tb.
       Inr (t\<lparr>l1_brind_cache := (l1_brind_cache t)(l1hash (tb_ip tb) := (tb_ip tb, tcode_ptr tb)),
             brind_log := (if is_brind_target tb then brind_log t else brind_log t @ [tb_ip tb]),
             tblocks := (tblocks t)(p \<mapsto> tb\<lparr>is_brind_target := True\<rparr>)\<rparr>))"

text \<open>A multimap keeps equal keys; a new one goes behind them.\<close>

fun mm_insert :: "u32 \<Rightarrow> 'v \<Rightarrow> (u32 \<times> 'v) list \<Rightarrow> (u32 \<times> 'v) list" where
  "mm_insert k v [] = [(k, v)]"
| "mm_insert k v (e # m) = (if k < fst e then (k, v) # e # m else e # mm_insert k v m)"

definition RecordLink :: "u64 \<Rightarrow> u64 \<Rightarrow> bool \<Rightarrow> tcache \<Rightarrow> tcache res" where
  "RecordLink slot tgt cross_segment t =
     rbind (deref tgt t) (\<lambda>tb.
       Inr (t\<lparr>tblocks := (tblocks t)(tgt \<mapsto> tb\<lparr>is_segment_entry := is_segment_entry tb \<or> cross_segment\<rparr>),
             link_map := mm_insert (tb_ip tb) slot (link_map t)\<rparr>))"

definition AllocateTBlock :: "bool \<Rightarrow> tcache \<Rightarrow> (u64 \<times> tcache) res" where
  "AllocateTBlock debug t =
     rbind (Allocate debug sizeof_TBlock 8 (tb_pool t)) (\<lambda>(r, a).
       case r of
         None \<Rightarrow> Inl BadDeref
       | Some p \<Rightarrow> Inr (p, t\<lparr>tb_pool := a, tblocks := (tblocks t)(p \<mapsto> NewTBlock)\<rparr>))"

definition AllocateCode :: "bool \<Rightarrow> u64 \<Rightarrow> u16 \<Rightarrow> tcache \<Rightarrow> (u64 option \<times> tcache) res" where
  "AllocateCode debug code_sz align t =
     rbind (Allocate debug code_sz (ucast align) (code_pool t)) (\<lambda>(r, a).
       let t = t\<lparr>code_pool := a\<rparr> in
       case r of None \<Rightarrow> Inr (None, Invalidate t) | Some p \<Rightarrow> Inr (Some p, t))"

text \<open>\<open>InvalidatePage\<close>: the loops start behind \<open>pvaddr\<close> and test the entry at the iterator before they
  look whether the map has ended; the result lists the link slots on which \<open>LinkLazyJIT\<close> is called.\<close>

fun drop_page :: "u64 \<Rightarrow> (u32 \<times> 'v) list \<Rightarrow> (u32 \<times> 'v) list res" where
  "drop_page lim [] = Inl BadDeref"
| "drop_page lim (e # m) = (if ucast (fst e) < lim then drop_page lim m else Inr (e # m))"

definition invalidate_map :: "u32 \<Rightarrow> (u32 \<times> 'v) list \<Rightarrow> (u32 \<times> 'v) list res" where
  "invalidate_map pvaddr m =
     rbind (drop_page (ucast pvaddr + PAGE_SIZE) (sm_upper_bound pvaddr m)) (\<lambda>rest.
       Inr (takeWhile (\<lambda>e. fst e \<le> pvaddr) m @ rest))"

definition invalidated :: "u32 \<Rightarrow> (u32 \<times> 'v) list \<Rightarrow> 'v list" where
  "invalidated pvaddr m =
     map snd (takeWhile (\<lambda>e. ucast (fst e) < (ucast pvaddr + PAGE_SIZE :: u64)) (sm_upper_bound pvaddr m))"

definition in_page :: "u32 \<Rightarrow> u32 \<Rightarrow> bool" where
  "in_page pvaddr a \<longleftrightarrow> ucast (rounddown (ucast a) PAGE_SIZE) = pvaddr"

definition InvalidatePage :: "u32 \<Rightarrow> tcache \<Rightarrow> (u64 list \<times> tcache) res" where
  "InvalidatePage pvaddr t =
     (if ucast (rounddown (ucast pvaddr) PAGE_SIZE) \<noteq> pvaddr then Inl AssertFailed else
      rbind (invalidate_map pvaddr (link_map t)) (\<lambda>lm.
      rbind (invalidate_map pvaddr (tcache_map t)) (\<lambda>tm.
      if \<exists>h\<in>set [0..<2 ^ L1_CACHE_BITS]. case l1_cache t (of_nat h) of None \<Rightarrow> True | Some p \<Rightarrow> tblocks t p = None
      then Inl BadDeref
      else Inr (invalidated pvaddr (link_map t), t\<lparr>link_map := lm, tcache_map := tm,
        l1_cache := (\<lambda>h. case l1_cache t h of
            Some p \<Rightarrow> (case tblocks t p of
                Some tb \<Rightarrow> if in_page pvaddr (tb_ip tb) then None else Some p | None \<Rightarrow> Some p)
          | None \<Rightarrow> None),
        l1_brind_cache := (\<lambda>h. if in_page pvaddr (fst (l1_brind_cache t h)) then (0, 0) else l1_brind_cache t h)\<rparr>))))"

section \<open>Coherence\<close>

text \<open>
  The invariant of the cache: every address in the map leads to a block of that address inside the
  used part of the block pool; the first-level cache only holds blocks of the map, in the slot their
  address hashes to; an entry of the branch-target cache is empty or holds the code of the mapped block.
\<close>

definition brind_entry_ok :: "tcache \<Rightarrow> u32 \<Rightarrow> u32 \<times> u64 \<Rightarrow> bool" where
  "brind_entry_ok t h e \<longleftrightarrow> e = (0, 0) \<or> l1hash (fst e) = h \<and>
     (\<exists>p tb. sm_find (fst e) (tcache_map t) = Some p \<and> tblocks t p = Some tb \<and> tcode_ptr tb = snd e)"

definition block_in_pool :: "tcache \<Rightarrow> u64 \<Rightarrow> bool" where
  "block_in_pool t p \<longleftrightarrow> unat (p - pool (tb_pool t)) < unat (used (tb_pool t))"

definition tc_inv :: "tcache \<Rightarrow> bool" where
  "tc_inv t \<longleftrightarrow> sm_sorted (tcache_map t) \<and> arena_inv (tb_pool t) \<and>
     (\<forall>g p. sm_find g (tcache_map t) = Some p \<longrightarrow>
        block_in_pool t p \<and> (\<exists>tb. tblocks t p = Some tb \<and> tb_ip tb = g)) \<and>
     (\<forall>h p. l1_cache t h = Some p \<longrightarrow>
        (\<exists>tb. tblocks t p = Some tb \<and> l1hash (tb_ip tb) = h \<and> sm_find (tb_ip tb) (tcache_map t) = Some p)) \<and>
     (\<forall>h. brind_entry_ok t h (l1_brind_cache t h))"

lemma tc_invI:
  assumes "sm_sorted (tcache_map t)" and "arena_inv (tb_pool t)"
    and "\<And>g p. sm_find g (tcache_map t) = Some p \<Longrightarrow> block_in_pool t p \<and> (\<exists>tb. tblocks t p = Some tb \<and> tb_ip tb = g)"
    and "\<And>h p. l1_cache t h = Some p \<Longrightarrow>
        \<exists>tb. tblocks t p = Some tb \<and> l1hash (tb_ip tb) = h \<and> sm_find (tb_ip tb) (tcache_map t) = Some p"
    and "\<And>h. brind_entry_ok t h (l1_brind_cache t h)"
  shows "tc_inv t"
  using assms by (simp add: tc_inv_def)

lemma tc_invD:
  assumes "tc_inv t"
  shows "sm_sorted (tcache_map t)" and "arena_inv (tb_pool t)"
    and "sm_find g (tcache_map t) = Some p \<Longrightarrow> block_in_pool t p \<and> (\<exists>tb. tblocks t p = Some tb \<and> tb_ip tb = g)"
    and "l1_cache t h = Some p \<Longrightarrow>
        \<exists>tb. tblocks t p = Some tb \<and> l1hash (tb_ip tb) = h \<and> sm_find (tb_ip tb) (tcache_map t) = Some p"
    and "brind_entry_ok t h (l1_brind_cache t h)"
  using assms by (auto simp: tc_inv_def)

lemma l1hash_eq: "l1hash a = take_bit 12 (drop_bit 2 a)"
proof -
  have m: "(push_bit L1_CACHE_BITS 1 - 1 :: u64) = mask 12" by (simp add: L1_CACHE_BITS_def mask_eq_exp_minus_1)
  show ?thesis unfolding l1hash_def m by (rule bit_word_eqI) (auto simp: bit_simps)
qed

lemma l1hash_range: "unat (l1hash a) < 4096"
  using take_bit_nat_less_exp [of 12 "unat (drop_bit 2 a)"] by (simp add: l1hash_eq unsigned_take_bit_eq)

lemma Lookup_inv:
  assumes "tc_inv t"
  shows "\<exists>t'. Lookup a t = Inr (sm_find a (tcache_map t), t') \<and> tc_inv t' \<and> t' = t\<lparr>l1_cache := l1_cache t'\<rparr>"
proof -
  let ?h = "l1hash a"
  let ?full = "(case LookupFull a t of None \<Rightarrow> (None, t) | Some p \<Rightarrow> (Some p, t\<lparr>l1_cache := (l1_cache t)(?h := Some p)\<rparr>))"
  have full: "\<exists>t'. ?full = (sm_find a (tcache_map t), t') \<and> tc_inv t' \<and> t' = t\<lparr>l1_cache := l1_cache t'\<rparr>"
  proof (cases "sm_find a (tcache_map t)")
    case None
    then show ?thesis using assms by (simp add: LookupFull_def)
  next
    case (Some p)
    have "tc_inv (t\<lparr>l1_cache := (l1_cache t)(?h := Some p)\<rparr>)"
      using tc_invD [OF assms] Some
      by (intro tc_invI) (fastforce simp: brind_entry_ok_def block_in_pool_def split: if_splits)+
    then show ?thesis using Some by (simp add: LookupFull_def)
  qed
  show ?thesis
  proof (cases "l1_cache t ?h")
    case None
    then show ?thesis using full by (simp add: Lookup_def Let_def)
  next
    case (Some p)
    obtain tb where tb: "tblocks t p = Some tb" "sm_find (tb_ip tb) (tcache_map t) = Some p"
      using tc_invD(4) [OF assms Some] by auto
    show ?thesis
    proof (cases "tb_ip tb = a")
      case True
      then show ?thesis using tb Some assms by (auto simp: Lookup_def Let_def deref_def)
    next
      case False
      then have "Lookup a t = Inr ?full" using tb Some by (simp add: Lookup_def Let_def deref_def)
      then show ?thesis using full by simp
    qed
  qed
qed

lemma Insert_inv:
  assumes inv: "tc_inv t" and p: "tblocks t p = Some tb" "block_in_pool t p"
    and new: "sm_find (tb_ip tb) (tcache_map t) = None"
  shows "\<exists>t'. tcache_Insert p t = Inr t' \<and> tc_inv t' \<and>
    (\<forall>a. sm_find a (tcache_map t') = (if a = tb_ip tb then Some p else sm_find a (tcache_map t))) \<and>
    tb_pool t' = tb_pool t \<and> code_pool t' = code_pool t \<and> tblocks t' = tblocks t"
proof -
  let ?a = "tb_ip tb"
  let ?t = "t\<lparr>tcache_map := sm_insert ?a p (tcache_map t), l1_cache := (l1_cache t)(l1hash ?a := Some p)\<rparr>"
  note s = tc_invD [OF inv]
  have f: "sm_find a (tcache_map ?t) = (if a = ?a then Some p else sm_find a (tcache_map t))" for a
    using new by (simp add: sm_find_insert [OF s(1)])
  have "tc_inv ?t"
  proof (rule tc_invI)
    show "sm_sorted (tcache_map ?t)" by (simp add: smap.inv_insert [OF s(1)])
    show "arena_inv (tb_pool ?t)" using s(2) by simp
    fix g q assume "sm_find g (tcache_map ?t) = Some q"
    then show "block_in_pool ?t q \<and> (\<exists>tb. tblocks ?t q = Some tb \<and> tb_ip tb = g)"
      using s(3) [of g q] p unfolding f by (auto simp: block_in_pool_def split: if_splits)
  next
    fix h q assume q: "l1_cache ?t h = Some q"
    show "\<exists>tb. tblocks ?t q = Some tb \<and> l1hash (tb_ip tb) = h \<and> sm_find (tb_ip tb) (tcache_map ?t) = Some q"
      using s(4) [of h q] p q new unfolding f by (cases "h = l1hash ?a") fastforce+
  next
    fix h
    show "brind_entry_ok ?t h (l1_brind_cache ?t h)"
      using s(5) [of h] new unfolding brind_entry_ok_def f by auto
  qed
  then show ?thesis using p f by (intro exI [of _ ?t]) (simp add: tcache_Insert_def deref_def)
qed

text \<open>Changing a block without its address and code keeps the invariant.\<close>

lemma tblock_flags_inv:
  assumes "tc_inv t" and "tblocks t p = Some tb" and "tb_ip tb' = tb_ip tb" and "tcode_ptr tb' = tcode_ptr tb"
  shows "tc_inv (t\<lparr>tblocks := (tblocks t)(p \<mapsto> tb')\<rparr>)"
proof (rule tc_invI)
  let ?t = "t\<lparr>tblocks := (tblocks t)(p \<mapsto> tb')\<rparr>"
  note s = tc_invD [OF assms(1)]
  show "sm_sorted (tcache_map ?t)" "arena_inv (tb_pool ?t)" using s(1,2) by simp_all
  fix h q
  show "sm_find h (tcache_map ?t) = Some q \<Longrightarrow> block_in_pool ?t q \<and> (\<exists>tb. tblocks ?t q = Some tb \<and> tb_ip tb = h)"
    using s(3) [of h q] assms(2-4) by (auto simp: block_in_pool_def)
  show "l1_cache ?t h = Some q \<Longrightarrow>
      \<exists>tb. tblocks ?t q = Some tb \<and> l1hash (tb_ip tb) = h \<and> sm_find (tb_ip tb) (tcache_map ?t) = Some q"
    using s(4) [of h q] assms(2-4) by fastforce
  show "brind_entry_ok ?t h (l1_brind_cache ?t h)"
    using s(5) [of h] assms(2-4) by (auto simp: brind_entry_ok_def)
qed

lemma tc_inv_irrelevant [simp]:
  "tc_inv (t\<lparr>link_map := m\<rparr>) = tc_inv t" "tc_inv (t\<lparr>code_pool := c\<rparr>) = tc_inv t" "tc_inv (t\<lparr>brind_log := l\<rparr>) = tc_inv t"
  by (simp_all add: tc_inv_def brind_entry_ok_def block_in_pool_def)

lemma RecordLink_inv:
  assumes "tc_inv t" and "tblocks t p = Some tb"
  shows "\<exists>t'. RecordLink slot p c t = Inr t' \<and> tc_inv t' \<and> tcache_map t' = tcache_map t \<and>
    tb_pool t' = tb_pool t \<and> code_pool t' = code_pool t \<and> l1_brind_cache t' = l1_brind_cache t \<and>
    l1_cache t' = l1_cache t \<and> link_map t' = mm_insert (tb_ip tb) slot (link_map t)"
  using assms tblock_flags_inv [OF assms, of "tb\<lparr>is_segment_entry := is_segment_entry tb \<or> c\<rparr>"]
  by (simp add: RecordLink_def deref_def)

lemma CacheBrind_inv:
  assumes "tc_inv t" and "tblocks t p = Some tb" and "sm_find (tb_ip tb) (tcache_map t) = Some p"
  shows "\<exists>t'. CacheBrind p t = Inr t' \<and> tc_inv t' \<and> tcache_map t' = tcache_map t \<and>
    tb_pool t' = tb_pool t \<and> code_pool t' = code_pool t \<and>
    l1_brind_cache t' (l1hash (tb_ip tb)) = (tb_ip tb, tcode_ptr tb)"
proof -
  let ?t = "t\<lparr>tblocks := (tblocks t)(p \<mapsto> tb\<lparr>is_brind_target := True\<rparr>)\<rparr>"
  let ?b = "(l1_brind_cache t)(l1hash (tb_ip tb) := (tb_ip tb, tcode_ptr tb))"
  have "tc_inv ?t" by (rule tblock_flags_inv [OF assms(1,2)]) simp_all
  then have "tc_inv (?t\<lparr>l1_brind_cache := ?b\<rparr>)"
    using assms(3) by (simp add: tc_inv_def brind_entry_ok_def block_in_pool_def)
  then show ?thesis using assms(2)
    by (simp add: CacheBrind_def deref_def) (simp add: tc_inv_def brind_entry_ok_def block_in_pool_def)
qed

lemma Invalidate_inv: "tc_inv t \<Longrightarrow> tc_inv (Invalidate t) \<and> tcache_map (Invalidate t) = []"
  by (simp add: tc_inv_def Invalidate_def brind_entry_ok_def sm_sorted_def sm_find_def arena_inv_def MemArena_Reset_def)

lemma tcache_Init_inv:
  assumes "tcache_Init host_mmap t = Inr t'"
  shows "tc_inv t' \<and> tcache_map t' = []"
  using assms
  by (auto simp: tcache_Init_def MemArena_Init_def TB_POOL_SIZE_def roundup_def Let_def tc_inv_def brind_entry_ok_def
    sm_sorted_def sm_find_def arena_inv_def split: if_splits option.splits)

lemma AllocateCode_inv:
  "tc_inv t \<Longrightarrow> AllocateCode debug sz al t = Inr (r, t') \<Longrightarrow>
    tc_inv t' \<and> (case r of None \<Rightarrow> t' = Invalidate t | Some p \<Rightarrow> t' = t\<lparr>code_pool := code_pool t'\<rparr>)"
  by (auto simp: AllocateCode_def Let_def Allocate_def Invalidate_inv split: if_splits)

lemma AllocateTBlock_cases:
  assumes "AllocateTBlock debug t = Inr (p, t')"
  obtains a where "Allocate debug sizeof_TBlock 8 (tb_pool t) = Inr (Some p, a)"
    "t' = t\<lparr>tb_pool := a, tblocks := (tblocks t)(p \<mapsto> NewTBlock)\<rparr>"
  using assms by (auto simp: AllocateTBlock_def split: option.splits)

lemma AllocateTBlock_inv:
  assumes inv: "tc_inv t" and al: "AllocateTBlock debug t = Inr (p, t')"
  shows "tc_inv t' \<and> tcache_map t' = tcache_map t \<and> code_pool t' = code_pool t \<and> tblocks t' p = Some NewTBlock \<and>
    block_in_pool t' p \<and> (\<forall>g q. sm_find g (tcache_map t) = Some q \<longrightarrow> q \<noteq> p)"
proof -
  note s = tc_invD [OF inv]
  obtain a where a: "Allocate debug sizeof_TBlock 8 (tb_pool t) = Inr (Some p, a)"
      "t' = t\<lparr>tb_pool := a, tblocks := (tblocks t)(p \<mapsto> NewTBlock)\<rparr>"
    by (rule AllocateTBlock_cases [OF al])
  have "arena_alloc 24 8 (tb_pool t) = Some (unat (p - pool (tb_pool t)), a)"
    using a(1) by (auto simp: arena_alloc_def Allocate_def sizeof_TBlock_def Let_def split: if_splits)
  from arena.alloc_Some [OF s(2) _ this]
  have r: "arena_inv a" "unat (used (tb_pool t)) \<le> unat (p - pool (tb_pool t))"
      "unat (p - pool (tb_pool t)) + 24 = unat (used a)" by (simp_all add: arena_request_def)
  have pl: "pool a = pool (tb_pool t)" using a(1) by (auto simp: Allocate_def Let_def split: if_splits)
  have fresh: "q \<noteq> p" if "sm_find g (tcache_map t) = Some q" for g q
    using s(3) [OF that] r(2) by (auto simp: block_in_pool_def)
  have "tc_inv t'"
  proof (rule tc_invI)
    show "sm_sorted (tcache_map t')" "arena_inv (tb_pool t')" using s(1) r(1) a(2) by simp_all
    fix g q assume "sm_find g (tcache_map t') = Some q"
    then show "block_in_pool t' q \<and> (\<exists>tb. tblocks t' q = Some tb \<and> tb_ip tb = g)"
      using s(3) [of g q] fresh [of g q] r a(2) pl by (auto simp: block_in_pool_def)
  next
    fix h q assume "l1_cache t' h = Some q"
    then show "\<exists>tb. tblocks t' q = Some tb \<and> l1hash (tb_ip tb) = h \<and> sm_find (tb_ip tb) (tcache_map t') = Some q"
      using s(4) [of h q] fresh a(2) by auto
  next
    fix h show "brind_entry_ok t' h (l1_brind_cache t' h)"
      using s(5) [of h] fresh a(2) by (auto simp: brind_entry_ok_def)
  qed
  then show ?thesis using a(2) r pl fresh by (auto simp: block_in_pool_def)
qed

section \<open>Lookup\<close>

text \<open>C16. The first-level cache is transparent: in a coherent cache \<open>Lookup\<close> of any address succeeds and
  returns what the ordered map holds, changes nothing but the first-level cache, keeps coherence, and
  a following \<open>LookupFast\<close> of an address that was found finds the same block.\<close>

theorem lookup_transparent:
  assumes "tc_inv t"
  shows "\<exists>t'. Lookup a t = Inr (sm_find a (tcache_map t), t') \<and> tc_inv t' \<and> t' = t\<lparr>l1_cache := l1_cache t'\<rparr> \<and>
    (\<forall>p. sm_find a (tcache_map t) = Some p \<longrightarrow> LookupFast a t' = Inr (Some p))"
proof -
  obtain t' where t': "Lookup a t = Inr (sm_find a (tcache_map t), t')" "tc_inv t'" "t' = t\<lparr>l1_cache := l1_cache t'\<rparr>"
    using Lookup_inv [OF assms] by blast
  have "LookupFast a t' = Inr (Some p)" if p: "sm_find a (tcache_map t) = Some p" for p
  proof -
    obtain tb where tb: "tblocks t p = Some tb" "tb_ip tb = a" using tc_invD(3) [OF assms p] by auto
    have "l1_cache t' (l1hash a) = Some p" "tblocks t' = tblocks t"
      using t'(1) p by (auto simp: Lookup_def Let_def LookupFull_def deref_def split: option.splits if_splits)
    then show ?thesis using tb by (simp add: LookupFast_def deref_def)
  qed
  then show ?thesis using t' by blast
qed

definition example_cache :: tcache where
  "example_cache =
     \<lparr>l1_cache = \<lambda>_. None, l1_brind_cache = \<lambda>_. (0, 0), tcache_map = [(0x1000, 0x70000)], link_map = [],
      tb_pool = \<lparr>pool = 0x70000, pool_sz = TB_POOL_SIZE, used = 24\<rparr>, code_pool = NewArena,
      tblocks = [0x70000 \<mapsto> NewTBlock\<lparr>tb_ip := 0x1000, tcode_ptr := 0x90000\<rparr>], brind_log = []\<rparr>"

lemma example_cache_inv: "tc_inv example_cache"
  by (rule tc_invI) (auto simp: example_cache_def sm_sorted_def sm_find_def arena_inv_def TB_POOL_SIZE_def
    block_in_pool_def brind_entry_ok_def NewTBlock_def split: if_splits)

theorem lookup_transparent_witness:
  "\<exists>t'. Lookup 0x1000 example_cache = Inr (Some 0x70000, t') \<and> LookupFast 0x1000 t' = Inr (Some 0x70000)"
  using lookup_transparent [OF example_cache_inv, of "0x1000"] by (auto simp: example_cache_def sm_find_def)

end
