(* ===== verification/JitABI.thy ===== *)
theory JitABI
  imports TCache QIR
begin

text \<open>
  The contract between the runtime and translated code, \<^verbatim>\<open>src/dbt/qmc/qcg/jitabi.h\<close> and
  \<^verbatim>\<open>src/dbt/qmc/qcg/jitabi.cpp\<close>: branch slots, which are patched in place to call the linking stub or to
  jump to a block; the stubs' C++ halves; and the parts of \<^verbatim>\<open>src/dbt/qmc/qcg/qemit.cpp\<close> that create a slot
  and look up an indirect target inline. Slots are bytes of host memory; what a slot does is read off
  those bytes as the processor reads them.
\<close>

section \<open>Branch slots\<close>

definition sizeof_Call64Abs :: u64 where "sizeof_Call64Abs = 12"
definition sizeof_Jump32Rel :: u64 where "sizeof_Jump32Rel = 5"
definition sizeof_CallTab :: u64 where "sizeof_CallTab = 7"
definition sizeof_BranchSlot :: nat where "sizeof_BranchSlot = 17"

definition Call64Abs :: "u64 \<Rightarrow> u8 list" where
  "Call64Abs imm = to_le 2 (0xb848 :: u16) @ to_le 8 imm @ to_le 2 (0xd0ff :: u16)"

definition Jump64Abs :: "u64 \<Rightarrow> u8 list" where
  "Jump64Abs imm = to_le 2 (0xb848 :: u16) @ to_le 8 imm @ to_le 2 (0xe0ff :: u16)"

definition Jump32Rel :: "u32 \<Rightarrow> u8 list" where
  "Jump32Rel imm = 0xe9 # to_le 4 imm"

definition CallTab :: "u32 \<Rightarrow> u8 list" where
  "CallTab imm = to_le 3 (0x95ff41 :: u32) @ to_le 4 imm"

definition CreatePatch :: "u8 list \<Rightarrow> u64 \<Rightarrow> vmem \<Rightarrow> vmem" where
  "CreatePatch code slot m = store_bytes m slot code"

definition slot_gip :: "vmem \<Rightarrow> u64 \<Rightarrow> u32" where "slot_gip m slot = unaligned_load m (slot + 12)"

definition slot_cross_segment :: "vmem \<Rightarrow> u64 \<Rightarrow> bool" where
  "slot_cross_segment m slot \<longleftrightarrow> bit (m (slot + 16)) 0"

type_synonym stub_tab = "RuntimeStubId \<Rightarrow> u64"

definition stub_offs :: "RuntimeStubId \<Rightarrow> u64" where "stub_offs i = 8 * of_nat (stub_index i)"

definition LinkLazyJIT :: "stub_tab \<Rightarrow> u64 \<Rightarrow> vmem \<Rightarrow> vmem" where
  "LinkLazyJIT tab slot m = CreatePatch (Call64Abs (tab id_link_branch_jit)) slot m"

definition LinkLazyAOT :: "u16 \<Rightarrow> u64 \<Rightarrow> vmem \<Rightarrow> vmem" where
  "LinkLazyAOT stub_tab_offs slot m =
     CreatePatch (CallTab (ucast (ucast stub_tab_offs + stub_offs id_link_branch_aot))) slot m"

definition LinkLazyLLVMAOT :: "u16 \<Rightarrow> u64 \<Rightarrow> vmem \<Rightarrow> vmem" where
  "LinkLazyLLVMAOT stub_tab_offs slot m =
     CreatePatch (CallTab (ucast (ucast stub_tab_offs + stub_offs id_link_branch_llvmaot))) slot m"

definition Link :: "u64 \<Rightarrow> u64 \<Rightarrow> vmem \<Rightarrow> vmem" where
  "Link to slot m =
     (let rel = to - (slot + sizeof_Jump32Rel) in
      if scast (ucast rel :: u32) = rel
      then CreatePatch (Jump32Rel (ucast rel)) slot m
      else CreatePatch (Jump64Abs to) slot m)"

definition FromCallPtrRetaddr :: "u64 \<Rightarrow> u64" where "FromCallPtrRetaddr ra = ra - sizeof_Call64Abs"

definition FromCallRuntimeStubRetaddr :: "u64 \<Rightarrow> u64" where "FromCallRuntimeStubRetaddr ra = ra - sizeof_CallTab"

section \<open>What a slot does\<close>

text \<open>
  The instructions a slot can hold, by their amd64 encodings: \<^verbatim>\<open>e9\<close> is a jump relative to the end of
  the instruction, \<^verbatim>\<open>48 b8\<close> loads a constant into \<^verbatim>\<open>rax\<close>, \<^verbatim>\<open>ff e0\<close> and \<^verbatim>\<open>ff d0\<close> jump to and call it, and
  \<^verbatim>\<open>41 ff 95\<close> calls through a pointer at an offset from \<^verbatim>\<open>r13\<close>. A call carries its return address.
\<close>

datatype xfer = XJump u64 | XCall u64 u64 | XCallTab u32 u64

definition fetch_bytes :: "vmem \<Rightarrow> u64 \<Rightarrow> nat \<Rightarrow> u8 list" where
  "fetch_bytes m a n = map (\<lambda>k. m (a + of_nat k)) [0..<n]"

definition slot_xfer :: "vmem \<Rightarrow> u64 \<Rightarrow> xfer option" where
  "slot_xfer m a =
     (if m a = 0xe9 then Some (XJump (a + 5 + scast (unaligned_load m (a + 1) :: u32)))
      else if fetch_bytes m a 3 = [0x41, 0xff, 0x95] then Some (XCallTab (unaligned_load m (a + 3)) (a + 7))
      else if fetch_bytes m a 2 = [0x48, 0xb8] then
        (if fetch_bytes m (a + 10) 2 = [0xff, 0xe0] then Some (XJump (unaligned_load m (a + 2)))
         else if fetch_bytes m (a + 10) 2 = [0xff, 0xd0] then Some (XCall (unaligned_load m (a + 2)) (a + 12))
         else None)
      else None)"

lemma fetch_bytes_CreatePatch:
  assumes "k + n \<le> length bs" and "length bs \<le> 12"
  shows "fetch_bytes (CreatePatch bs slot m) (slot + of_nat k) n = take n (drop k bs)"
proof (rule nth_equalityI)
  show "length (fetch_bytes (CreatePatch bs slot m) (slot + of_nat k) n) = length (take n (drop k bs))"
    using assms by (simp add: fetch_bytes_def)
  fix i assume "i < length (fetch_bytes (CreatePatch bs slot m) (slot + of_nat k) n)"
  then have i: "i < n" by (simp add: fetch_bytes_def)
  have "slot + of_nat k + of_nat i - slot = of_nat (k + i)" by simp
  then have "unat (slot + of_nat k + of_nat i - slot) = k + i"
    using i assms by (simp only: unsigned_of_nat) (simp add: take_bit_nat_eq_self)
  then show "fetch_bytes (CreatePatch bs slot m) (slot + of_nat k) n ! i = take n (drop k bs) ! i"
    using i assms by (simp add: fetch_bytes_def CreatePatch_def store_bytes_apply)
qed

lemma load_fetch: "unaligned_load m a = (from_le (fetch_bytes m a (LENGTH('a::len) div 8)) :: 'a word)"
  by (simp add: unaligned_load_def fetch_bytes_def)

lemma CreatePatch_frame:
  assumes "length bs \<le> 12" and "12 \<le> k" and "k < 2 ^ 64"
  shows "CreatePatch bs slot m (slot + of_nat k) = m (slot + of_nat k)"
  using assms by (simp add: CreatePatch_def store_bytes_apply unsigned_of_nat take_bit_nat_eq_self)

lemma CreatePatch_keeps:
  assumes "length bs \<le> 12"
  shows "slot_gip (CreatePatch bs slot m) slot = slot_gip m slot"
    and "slot_cross_segment (CreatePatch bs slot m) slot = slot_cross_segment m slot"
proof -
  have "fetch_bytes (CreatePatch bs slot m) (slot + 12) 4 = fetch_bytes m (slot + 12) 4"
    unfolding fetch_bytes_def using CreatePatch_frame [OF assms, of "12 + k" slot m for k] 
    by (intro map_cong) (simp_all add: add.assoc)
  then show "slot_gip (CreatePatch bs slot m) slot = slot_gip m slot" by (simp add: slot_gip_def load_fetch)
  show "slot_cross_segment (CreatePatch bs slot m) slot = slot_cross_segment m slot"
    using CreatePatch_frame [OF assms, of 16 slot m] by (simp add: slot_cross_segment_def)
qed

lemmas patch_fetch = fetch_bytes_CreatePatch [where k = 0, simplified] fetch_bytes_CreatePatch [where k = 1, simplified]
  fetch_bytes_CreatePatch [where k = 2, simplified] fetch_bytes_CreatePatch [where k = 3, simplified]
  fetch_bytes_CreatePatch [where k = 10, simplified]

lemma patch_hd: "bs \<noteq> [] \<Longrightarrow> length bs \<le> 12 \<Longrightarrow> CreatePatch bs slot m slot = hd bs"
  by (simp add: CreatePatch_def store_bytes_apply hd_conv_nth)

lemma opcode_bytes:
  "to_le 2 (0xb848 :: u16) = [0x48, 0xb8]" "to_le 2 (0xd0ff :: u16) = [0xff, 0xd0]"
  "to_le 2 (0xe0ff :: u16) = [0xff, 0xe0]" "to_le 3 (0x95ff41 :: u32) = [0x41, 0xff, 0x95]"
  by (simp_all add: to_le_def upt_rec)

lemma xfer_Jump32Rel:
  "slot_xfer (CreatePatch (Jump32Rel imm) slot m) slot = Some (XJump (slot + 5 + scast imm))"
  by (simp add: slot_xfer_def patch_hd Jump32Rel_def load_fetch patch_fetch from_le_to_le)

lemma xfer_CallTab:
  "slot_xfer (CreatePatch (CallTab imm) slot m) slot = Some (XCallTab imm (slot + 7))"
  by (simp add: slot_xfer_def patch_hd CallTab_def opcode_bytes load_fetch patch_fetch from_le_to_le)

lemma xfer_Jump64Abs:
  "slot_xfer (CreatePatch (Jump64Abs imm) slot m) slot = Some (XJump imm)"
  by (simp add: slot_xfer_def patch_hd Jump64Abs_def opcode_bytes load_fetch patch_fetch from_le_to_le)

lemma xfer_Call64Abs:
  "slot_xfer (CreatePatch (Call64Abs imm) slot m) slot = Some (XCall imm (slot + 12))"
  by (simp add: slot_xfer_def patch_hd Call64Abs_def opcode_bytes load_fetch patch_fetch from_le_to_le)

lemma xfer_Link: "slot_xfer (Link to slot m) slot = Some (XJump to)"
  by (simp add: Link_def Let_def xfer_Jump32Rel xfer_Jump64Abs sizeof_Jump32Rel_def)

lemma patch_lengths [simp]:
  "length (Call64Abs i) = 12" "length (Jump64Abs i) = 12" "length (Jump32Rel j) = 5" "length (CallTab j) = 7"
  by (simp_all add: Call64Abs_def Jump64Abs_def Jump32Rel_def CallTab_def)

lemma Link_keeps [simp]:
  "slot_gip (Link to slot m) slot = slot_gip m slot"
  "slot_cross_segment (Link to slot m) slot = slot_cross_segment m slot"
  by (simp_all add: Link_def Let_def CreatePatch_keeps)

section \<open>Slots in emitted code\<close>

record CodeSegment =
  gip_base :: u32
  seg_size :: u32

definition InSegment :: "u32 \<Rightarrow> CodeSegment \<Rightarrow> bool" where
  "InSegment g seg \<longleftrightarrow> g - gip_base seg < seg_size seg"

definition Emit_gbr :: "bool \<Rightarrow> CodeSegment \<Rightarrow> stub_tab \<Rightarrow> u16 \<Rightarrow> u32 \<Rightarrow> u64 \<Rightarrow> vmem \<Rightarrow> vmem" where
  "Emit_gbr jit_mode segment tab stub_tab_offs tpc slot m =
     (let m = store_bytes m slot (replicate sizeof_BranchSlot 0);
          m = unaligned_store m (slot + 12) tpc;
          m = m(slot + 16 := (if InSegment tpc segment then 0 else 1))
      in if jit_mode then LinkLazyJIT tab slot m else LinkLazyAOT stub_tab_offs slot m)"

lemma Emit_gbr_fields:
  "slot_gip (Emit_gbr jit segment tab offs tpc slot m) slot = tpc"
  "slot_cross_segment (Emit_gbr jit segment tab offs tpc slot m) slot \<longleftrightarrow> \<not> InSegment tpc segment"
proof -
  let ?m = "unaligned_store (store_bytes m slot (replicate sizeof_BranchSlot 0)) (slot + 12) tpc"
  have ne: "slot + 12 + of_nat k \<noteq> slot + 16" if "k < 4" for k
  proof -
    have "unat (slot + of_nat (12 + k) - slot) \<noteq> unat (slot + of_nat 16 - slot)"
      using that by (subst (1 2) unat_add_diff_small) auto
    then show ?thesis by (auto simp: algebra_simps)
  qed
  have "unaligned_load (?m(slot + 16 := b)) (slot + 12) = (unaligned_load ?m (slot + 12) :: u32)" for b
    by (rule mem32.load_bytes) (use ne in auto)
  then have g: "slot_gip (?m(slot + 16 := b)) slot = tpc" for b by (simp add: slot_gip_def mem32.load_store)
  show "slot_gip (Emit_gbr jit segment tab offs tpc slot m) slot = tpc"
    by (simp add: Emit_gbr_def Let_def LinkLazyJIT_def LinkLazyAOT_def CreatePatch_keeps g del: fun_upd_apply)
  show "slot_cross_segment (Emit_gbr jit segment tab offs tpc slot m) slot \<longleftrightarrow> \<not> InSegment tpc segment"
    by (simp add: Emit_gbr_def Let_def LinkLazyJIT_def LinkLazyAOT_def CreatePatch_keeps del: fun_upd_apply)
      (simp add: slot_cross_segment_def)
qed

text \<open>C17. The protocol of a branch slot: as emitted it calls the linking stub of its mode, and the stub
  computes the slot's own address from the return address; once linked it jumps to the linked code,
  however far that is; patching never touches the slot's guest address or its flag, which hold what
  the emitter was given.\<close>

theorem branch_slot_protocol:
  "slot_xfer (Link to slot m) slot = Some (XJump to) \<and>
   slot_gip (Link to slot m) slot = slot_gip m slot \<and>
   slot_cross_segment (Link to slot m) slot = slot_cross_segment m slot \<and>
   (\<exists>ra. slot_xfer (Emit_gbr True seg tab offs g slot m) slot = Some (XCall (tab id_link_branch_jit) ra) \<and>
      FromCallPtrRetaddr ra = slot) \<and>
   (\<exists>ra. slot_xfer (Emit_gbr False seg tab offs g slot m) slot =
        Some (XCallTab (ucast (ucast offs + stub_offs id_link_branch_aot)) ra) \<and>
      FromCallRuntimeStubRetaddr ra = slot) \<and>
   (\<exists>ra. slot_xfer (LinkLazyLLVMAOT offs slot m) slot =
        Some (XCallTab (ucast (ucast offs + stub_offs id_link_branch_llvmaot)) ra) \<and>
      FromCallRuntimeStubRetaddr ra = slot) \<and>
   slot_gip (Emit_gbr jit seg tab offs g slot m) slot = g \<and>
   slot_cross_segment (Emit_gbr jit seg tab offs g slot m) slot = (\<not> InSegment g seg)"
  by (simp only: Emit_gbr_fields xfer_Link Link_keeps)
    (simp add: Emit_gbr_def Let_def LinkLazyJIT_def LinkLazyAOT_def LinkLazyLLVMAOT_def xfer_Call64Abs xfer_CallTab
      FromCallPtrRetaddr_def FromCallRuntimeStubRetaddr_def sizeof_Call64Abs_def sizeof_CallTab_def)

section \<open>Runtime stubs\<close>

record runtime =
  rt_cpu :: CPUState
  sp_unwindptr :: u64
  rt_tc :: tcache
  rt_mem :: vmem

definition TryLinkBranch :: "stub_tab \<Rightarrow> u64 \<Rightarrow> runtime \<Rightarrow> ((u64 \<times> u64) \<times> runtime) res" where
  "TryLinkBranch tab slot rt =
     (let g = slot_gip (rt_mem rt) slot in
      rbind (Lookup g (rt_tc rt)) (\<lambda>(found, tc).
        case found of
          Some p \<Rightarrow>
            rbind (deref p tc) (\<lambda>tb.
              let m = Link (tcode_ptr tb) slot (rt_mem rt) in
              rbind (RecordLink slot p (slot_cross_segment m slot) tc) (\<lambda>tc.
                Inr ((slot, tcode_ptr tb), rt\<lparr>rt_tc := tc, rt_mem := m\<rparr>)))
        | None \<Rightarrow> Inr ((slot, tab id_escape_link), rt\<lparr>rt_tc := tc, rt_cpu := (rt_cpu rt)\<lparr>ip := g\<rparr>\<rparr>)))"

definition qcg_TryLinkBranchJIT :: "stub_tab \<Rightarrow> u64 \<Rightarrow> runtime \<Rightarrow> ((u64 \<times> u64) \<times> runtime) res" where
  "qcg_TryLinkBranchJIT tab retaddr = TryLinkBranch tab (FromCallPtrRetaddr retaddr)"

definition qcg_TryLinkBranchAOT :: "stub_tab \<Rightarrow> u64 \<Rightarrow> runtime \<Rightarrow> ((u64 \<times> u64) \<times> runtime) res" where
  "qcg_TryLinkBranchAOT tab retaddr = TryLinkBranch tab (FromCallRuntimeStubRetaddr retaddr)"

definition qcg_TryLinkBranchLLVMAOT :: "stub_tab \<Rightarrow> u64 \<Rightarrow> u64 \<Rightarrow> runtime \<Rightarrow> ((u64 \<times> u64) \<times> runtime) res" where
  "qcg_TryLinkBranchLLVMAOT tab retaddr in_sp rt =
     (if in_sp \<noteq> sp_unwindptr rt then Inl AssertFailed
      else TryLinkBranch tab (FromCallRuntimeStubRetaddr retaddr) rt)"

definition qcgstub_brind :: "stub_tab \<Rightarrow> u32 \<Rightarrow> runtime \<Rightarrow> (u64 \<times> runtime) res" where
  "qcgstub_brind tab g rt =
     (let rt = rt\<lparr>rt_cpu := (rt_cpu rt)\<lparr>ip := g\<rparr>\<rparr> in
      rbind (Lookup g (rt_tc rt)) (\<lambda>(found, tc).
        case found of
          Some p \<Rightarrow> rbind (CacheBrind p tc) (\<lambda>tc. rbind (deref p tc) (\<lambda>tb. Inr (tcode_ptr tb, rt\<lparr>rt_tc := tc\<rparr>)))
        | None \<Rightarrow> Inr (tab id_escape_brind, rt\<lparr>rt_tc := tc\<rparr>)))"

text \<open>The code \<open>Emit_gbrind\<close> emits: an inlined look-up, whose byte offset is four times the address
  masked, in a table of sixteen-byte entries; on a miss the stub.\<close>

definition brind_offs :: "u32 \<Rightarrow> u32" where
  "brind_offs g = push_bit 2 g AND ucast (push_bit 4 (push_bit L1_CACHE_BITS 1 - 1 :: u64))"

definition gbrind :: "stub_tab \<Rightarrow> u32 \<Rightarrow> runtime \<Rightarrow> (u64 \<times> runtime) res" where
  "gbrind tab g rt =
     (let e = l1_brind_cache (rt_tc rt) (drop_bit 4 (brind_offs g)) in
      if fst e = g then Inr (snd e, rt) else qcgstub_brind tab g rt)"

lemma brind_offs_hash: "brind_offs g = push_bit 4 (l1hash g)" "drop_bit 4 (brind_offs g) = l1hash g"
proof -
  have m: "(push_bit 4 (push_bit L1_CACHE_BITS 1 - 1) :: u64) = push_bit 4 (mask 12)"
    by (simp add: L1_CACHE_BITS_def mask_eq_exp_minus_1)
  have i: "4 \<le> n \<Longrightarrow> Suc (Suc (n - 4)) = n - 2" for n :: nat by simp
  show e: "brind_offs g = push_bit 4 (l1hash g)"
    unfolding brind_offs_def m l1hash_eq
    by (rule bit_word_eqI) (auto simp: bit_simps i)
  show "drop_bit 4 (brind_offs g) = l1hash g"
    unfolding e l1hash_eq by (rule bit_word_eqI) (auto simp: bit_simps)
qed

text \<open>The code the cache holds for an address.\<close>

definition tcode_of :: "tcache \<Rightarrow> u32 \<Rightarrow> u64 option" where
  "tcode_of t g =
     (case sm_find g (tcache_map t) of None \<Rightarrow> None | Some p \<Rightarrow> map_option tcode_ptr (tblocks t p))"

lemma tcode_of_Some:
  assumes "tc_inv t" and "tcode_of t g = Some c"
  obtains p tb where "sm_find g (tcache_map t) = Some p" "tblocks t p = Some tb" "tb_ip tb = g" "tcode_ptr tb = c"
  using assms tc_invD(3) [OF assms(1)] by (fastforce simp: tcode_of_def split: option.splits)

lemma tcode_of_None: "tc_inv t \<Longrightarrow> tcode_of t g = None \<longleftrightarrow> sm_find g (tcache_map t) = None"
  by (auto simp: tcode_of_def split: option.splits dest: tc_invD(3))

lemma tcode_of_tblock_flags:
  "tblocks t p = Some tb \<Longrightarrow> tcode_ptr tb' = tcode_ptr tb \<Longrightarrow>
    tcode_of (t\<lparr>tblocks := (tblocks t)(p \<mapsto> tb')\<rparr>) = tcode_of t"
  by (auto simp: tcode_of_def fun_eq_iff split: option.splits)

lemma Lookup_code:
  assumes "tc_inv t"
  obtains t' where "Lookup g t = Inr (sm_find g (tcache_map t), t')" "tc_inv t'"
    "tcache_map t' = tcache_map t" "tblocks t' = tblocks t" "tcode_of t' = tcode_of t" "link_map t' = link_map t"
proof -
  obtain t' where t': "Lookup g t = Inr (sm_find g (tcache_map t), t')" "tc_inv t'" "t' = t\<lparr>l1_cache := l1_cache t'\<rparr>"
    using Lookup_inv [OF assms] by blast
  have e: "tcache_map t' = tcache_map t" "tblocks t' = tblocks t" "link_map t' = link_map t" by (subst t'(3), simp)+
  then have "tcode_of t' = tcode_of t" by (intro ext) (simp add: tcode_of_def split: option.split)
  then show ?thesis using that [OF t'(1,2)] e by simp
qed

lemma RecordLink_code:
  assumes "tc_inv t" and "tblocks t p = Some tb"
  obtains t' where "RecordLink slot p c t = Inr t'" "tc_inv t'" "tcode_of t' = tcode_of t"
    "link_map t' = mm_insert (tb_ip tb) slot (link_map t)"
  using RecordLink_inv [OF assms, of slot c] assms(2) that
  by (auto simp: RecordLink_def deref_def tcode_of_def fun_eq_iff split: option.splits)

lemma CacheBrind_code:
  assumes "tc_inv t" and "tblocks t p = Some tb" and "sm_find (tb_ip tb) (tcache_map t) = Some p"
  obtains t' where "CacheBrind p t = Inr t'" "tc_inv t'" "tcode_of t' = tcode_of t"
    "tblocks t' p = Some (tb\<lparr>is_brind_target := True\<rparr>)"
    "l1_brind_cache t' (l1hash (tb_ip tb)) = (tb_ip tb, tcode_ptr tb)"
  using CacheBrind_inv [OF assms] assms(2) that
  by (auto simp: CacheBrind_def deref_def tcode_of_def fun_eq_iff split: option.splits)

text \<open>C18. Linking a direct branch: in a coherent cache the stub always returns; when the branch's guest
  address is translated, it returns that code, the slot jumps there from now on and the link is
  recorded; otherwise it returns the escape stub, leaves the slot as it is and sets the guest program
  counter to the branch's target. What the cache holds does not change.\<close>

theorem try_link_branch_correct:
  assumes "tc_inv (rt_tc rt)"
  shows "\<exists>v rt'. TryLinkBranch tab slot rt = Inr ((slot, v), rt') \<and> tc_inv (rt_tc rt') \<and>
    tcode_of (rt_tc rt') = tcode_of (rt_tc rt) \<and>
    (case tcode_of (rt_tc rt) (slot_gip (rt_mem rt) slot) of
       Some c \<Rightarrow> v = c \<and> slot_xfer (rt_mem rt') slot = Some (XJump c) \<and>
         slot_gip (rt_mem rt') slot = slot_gip (rt_mem rt) slot \<and> rt_cpu rt' = rt_cpu rt \<and>
         link_map (rt_tc rt') = mm_insert (slot_gip (rt_mem rt) slot) slot (link_map (rt_tc rt))
     | None \<Rightarrow> v = tab id_escape_link \<and> rt_mem rt' = rt_mem rt \<and>
         rt_cpu rt' = (rt_cpu rt)\<lparr>ip := slot_gip (rt_mem rt) slot\<rparr>)"
proof -
  let ?g = "slot_gip (rt_mem rt) slot"
  obtain t1 where t1: "Lookup ?g (rt_tc rt) = Inr (sm_find ?g (tcache_map (rt_tc rt)), t1)" "tc_inv t1"
      "tblocks t1 = tblocks (rt_tc rt)" "tcode_of t1 = tcode_of (rt_tc rt)" "link_map t1 = link_map (rt_tc rt)"
    by (rule Lookup_code [OF assms, of ?g]) blast
  show ?thesis
  proof (cases "tcode_of (rt_tc rt) ?g")
    case None
    then have "sm_find ?g (tcache_map (rt_tc rt)) = None" using tcode_of_None [OF assms] by simp
    then show ?thesis using t1 None by (simp add: TryLinkBranch_def Let_def)
  next
    case (Some c)
    obtain p tb where p: "sm_find ?g (tcache_map (rt_tc rt)) = Some p" "tblocks t1 p = Some tb" "tb_ip tb = ?g" "tcode_ptr tb = c"
      using tcode_of_Some [OF assms Some] t1(3) by metis
    obtain t2 where "RecordLink slot p (slot_cross_segment (rt_mem rt) slot) t1 = Inr t2" "tc_inv t2" "tcode_of t2 = tcode_of t1"
        "link_map t2 = mm_insert (tb_ip tb) slot (link_map t1)"
      using RecordLink_code [OF t1(2) p(2)] by metis
    then show ?thesis using t1 p Some by (simp add: TryLinkBranch_def Let_def deref_def xfer_Link)
  qed
qed

text \<open>The stub always finds where to go.\<close>

lemma brind_stub_ok:
  assumes "tc_inv (rt_tc rt)"
  shows "\<exists>v rt'. qcgstub_brind tab g rt = Inr (v, rt') \<and> tc_inv (rt_tc rt') \<and> tcode_of (rt_tc rt') = tcode_of (rt_tc rt) \<and>
    rt_mem rt' = rt_mem rt \<and> rt_cpu rt' = (rt_cpu rt)\<lparr>ip := g\<rparr> \<and>
    (case tcode_of (rt_tc rt) g of Some c \<Rightarrow> v = c \<and> gbrind tab g rt' = Inr (c, rt') | None \<Rightarrow> v = tab id_escape_brind)"
proof -
  obtain t1 where t1: "Lookup g (rt_tc rt) = Inr (sm_find g (tcache_map (rt_tc rt)), t1)" "tc_inv t1"
      "tcache_map t1 = tcache_map (rt_tc rt)" "tblocks t1 = tblocks (rt_tc rt)" "tcode_of t1 = tcode_of (rt_tc rt)"
    by (rule Lookup_code [OF assms, of g]) blast
  show ?thesis
  proof (cases "tcode_of (rt_tc rt) g")
    case None
    then have "sm_find g (tcache_map (rt_tc rt)) = None" using tcode_of_None [OF assms] by simp
    then show ?thesis using t1 None by (simp add: qcgstub_brind_def Let_def)
  next
    case (Some c)
    obtain p tb where p: "sm_find g (tcache_map t1) = Some p" "tblocks t1 p = Some tb" "tb_ip tb = g" "tcode_ptr tb = c"
      using tcode_of_Some [OF assms Some] t1(3,4) by metis
    obtain t2 where "CacheBrind p t1 = Inr t2" "tc_inv t2" "tcode_of t2 = tcode_of t1"
        "tblocks t2 p = Some (tb\<lparr>is_brind_target := True\<rparr>)" "l1_brind_cache t2 (l1hash g) = (g, c)"
      using CacheBrind_code [OF t1(2) p(2)] p by metis
    then show ?thesis using t1 p Some
      by (simp add: qcgstub_brind_def Let_def deref_def) (simp add: gbrind_def brind_offs_hash(2) Let_def)
  qed
qed

text \<open>C19. Indirect branches: in a coherent cache, a branch to a guest address other than 0 reaches the code
  the cache holds for that address, by the inlined look-up or by the stub, or the escape stub when
  there is none, with the guest program counter set; afterwards the inlined look-up hits.\<close>

theorem gbrind_correct:
  assumes "tc_inv (rt_tc rt)" and "g \<noteq> 0"
  shows "\<exists>v rt'. gbrind tab g rt = Inr (v, rt') \<and> tc_inv (rt_tc rt') \<and> tcode_of (rt_tc rt') = tcode_of (rt_tc rt) \<and>
    rt_mem rt' = rt_mem rt \<and>
    (case tcode_of (rt_tc rt) g of
       Some c \<Rightarrow> v = c \<and> gbrind tab g rt' = Inr (c, rt')
     | None \<Rightarrow> v = tab id_escape_brind \<and> rt_cpu rt' = (rt_cpu rt)\<lparr>ip := g\<rparr>)"
proof (cases "fst (l1_brind_cache (rt_tc rt) (l1hash g)) = g")
  case True
  then have h: "gbrind tab g rt = Inr (snd (l1_brind_cache (rt_tc rt) (l1hash g)), rt)"
    by (simp add: gbrind_def brind_offs_hash(2) Let_def)
  have "tcode_of (rt_tc rt) g = Some (snd (l1_brind_cache (rt_tc rt) (l1hash g)))"
    using tc_invD(5) [OF assms(1), of "l1hash g"] True assms(2) by (auto simp: brind_entry_ok_def tcode_of_def)
  then show ?thesis using h assms(1) by simp
next
  case False
  then have s: "gbrind tab g rt = qcgstub_brind tab g rt" by (simp add: gbrind_def brind_offs_hash(2) Let_def)
  show ?thesis unfolding s using brind_stub_ok [OF assms(1), of tab g] by (auto split: option.splits)
qed

definition example_runtime :: runtime where
  "example_runtime = \<lparr>rt_cpu = \<lparr>gpr = \<lambda>_. 0, ip = 0x2000, trapno = NONE\<rparr>, sp_unwindptr = 0,
     rt_tc = example_cache, rt_mem = unaligned_store (\<lambda>_. 0) (0x80000 + 12) (0x1000 :: u32)\<rparr>"

lemma example_code: "tcode_of example_cache 0x1000 = Some 0x90000"
  by (simp add: tcode_of_def example_cache_def sm_find_def)

theorem try_link_branch_correct_witness:
  "\<exists>rt'. TryLinkBranch (\<lambda>_. 0) 0x80000 example_runtime = Inr ((0x80000, 0x90000), rt') \<and>
     slot_xfer (rt_mem rt') 0x80000 = Some (XJump 0x90000)"
proof -
  have "slot_gip (rt_mem example_runtime) 0x80000 = 0x1000"
    unfolding slot_gip_def example_runtime_def by (simp add: mem32.load_store [of _ "0x80000 + 12", simplified])
  then show ?thesis
    using try_link_branch_correct [of example_runtime "\<lambda>_. 0" "0x80000"] example_cache_inv example_code
    by (auto simp: example_runtime_def)
qed

theorem gbrind_correct_witness:
  "\<exists>rt'. gbrind (\<lambda>_. 0) 0x1000 example_runtime = Inr (0x90000, rt') \<and> gbrind (\<lambda>_. 0) 0x1000 rt' = Inr (0x90000, rt')"
  using gbrind_correct [of example_runtime "0x1000" "\<lambda>_. 0"] example_cache_inv example_code
  by (auto simp: example_runtime_def)

text \<open>The exception: after initialisation the empty entries of the inlined look-up have address 0 and
  no code, so an indirect branch to guest address 0 jumps to the null pointer instead of leaving
  translated code.\<close>

lemma gbrind_null_jump:
  assumes "tcache_Init host_mmap t0 = Inr (rt_tc rt)"
  shows "gbrind tab 0 rt = Inr (0, rt)"
proof -
  have "l1_brind_cache (rt_tc rt) h = (0, 0)" for h using assms by (auto simp: tcache_Init_def dest: sym)
  then show ?thesis by (simp add: gbrind_def)
qed

lemma gbrind_null_jump_witness:
  "\<exists>t. tcache_Init (\<lambda>_. Some 0x70000) (example_cache\<lparr>tb_pool := NewArena\<rparr>) = Inr t \<and>
     gbrind (\<lambda>_. 0) 0 (example_runtime\<lparr>rt_tc := t\<rparr>) = Inr (0, example_runtime\<lparr>rt_tc := t\<rparr>)"
proof -
  obtain t where t: "tcache_Init (\<lambda>_. Some 0x70000) (example_cache\<lparr>tb_pool := NewArena\<rparr>) = Inr t"
    by (simp add: tcache_Init_def MemArena_Init_def NewArena_def example_cache_def)
  then show ?thesis using gbrind_null_jump [of _ _ "example_runtime\<lparr>rt_tc := t\<rparr>"] by auto
qed

section \<open>Trace ring\<close>

record TraceRing =
  head :: u32
  arr :: "u32 list"

definition ring_size :: u32 where "ring_size = 64"

definition NewTraceRing :: TraceRing where "NewTraceRing = \<lparr>head = 0, arr = replicate 64 0\<rparr>"

definition ring_push :: "u32 \<Rightarrow> TraceRing \<Rightarrow> TraceRing" where
  "ring_push rec r = r\<lparr>arr := (arr r)[unat (head r mod ring_size) := rec], head := head r + 1\<rparr>"

definition at_idx :: "u32 \<Rightarrow> TraceRing \<Rightarrow> u32" where
  "at_idx i r = arr r ! unat ((head r - 1 - i) mod ring_size)"

lemma unat_mod_ring: "unat (of_nat n mod ring_size :: u32) = n mod 64"
proof -
  have "n mod 2 ^ 32 mod 64 = n mod 64" by (rule mod_mod_cancel) simp
  then show ?thesis by (simp add: ring_size_def unat_mod unsigned_of_nat take_bit_eq_mod)
qed

lemma ring_pushes:
  "head (fold ring_push recs NewTraceRing) = of_nat (length recs) \<and>
   length (arr (fold ring_push recs NewTraceRing)) = 64 \<and>
   (\<forall>k<length recs. length recs \<le> k + 64 \<longrightarrow> arr (fold ring_push recs NewTraceRing) ! (k mod 64) = recs ! k)"
proof (induction recs rule: rev_induct)
  case Nil
  then show ?case by (simp add: NewTraceRing_def)
next
  case (snoc x recs)
  have ne: "k mod 64 \<noteq> length recs mod 64" if "k < length recs" "length recs \<le> 63 + k" for k
  proof -
    have "(length recs - k) mod 64 \<noteq> 0" using that by simp
    then show ?thesis using that by (metis less_imp_le_nat mod_0 mod_diff_left_eq mod_eq_dvd_iff_nat mod_0_imp_dvd dvd_imp_mod_0)
  qed
  show ?case using snoc
    by (auto simp: ring_push_def unat_mod_ring nth_list_update nth_append less_Suc_eq dest: ne)
qed

text \<open>The trace ring holds the latest 64 records, newest first, also after its 32-bit counter has wrapped
  around.\<close>

lemma trace_ring_latest:
  assumes "i < 64" and "i < length recs"
  shows "at_idx (of_nat i) (fold ring_push recs NewTraceRing) = recs ! (length recs - 1 - i)"
proof -
  let ?k = "length recs - 1 - i"
  have "(of_nat (length recs) - 1 - of_nat i :: u32) = of_nat ?k" using assms(2) by (simp add: of_nat_diff)
  then have "at_idx (of_nat i) (fold ring_push recs NewTraceRing) = arr (fold ring_push recs NewTraceRing) ! (?k mod 64)"
    using ring_pushes [of recs] by (simp add: at_idx_def unat_mod_ring)
  then show ?thesis using ring_pushes [of recs] assms by simp
qed

lemma trace_ring_latest_witness:
  "at_idx 1 (fold ring_push [7, 8, 9] NewTraceRing) = 8"
  using trace_ring_latest [of 1 "[7, 8, 9]"] by simp

end
