(* ===== verification/X86.thy ===== *)
theory X86
  imports Host_Sem JitABI
begin

text \<open>
  A reference semantics of the host instructions that \<^verbatim>\<open>src/dbt/qmc/qcg/qemit.cpp\<close> requests from its assembler, in the
  forms it requests them: registers of 64 bits with their narrower views, the flags of a comparison, and
  an address space with the CPU state, the table of indirect targets, the host stack and guest memory. A request that
  is not one of these forms, such as a move between two memory operands or a comparison with an immediate on the left,
  has no execution. Flags are known after a comparison only: code that would use another instruction's flags has no
  execution either. The assembler's encoding of a request into bytes is its own.
\<close>

section \<open>Requests\<close>

datatype Gp = gpb RegN | gpw RegN | gpd RegN | gpq RegN

primrec gp_id :: "Gp \<Rightarrow> RegN" where
  "gp_id (gpb r) = r"
| "gp_id (gpw r) = r"
| "gp_id (gpd r) = r"
| "gp_id (gpq r) = r"

primrec gp_size :: "Gp \<Rightarrow> nat" where
  "gp_size (gpb r) = 1"
| "gp_size (gpw r) = 2"
| "gp_size (gpd r) = 4"
| "gp_size (gpq r) = 8"

text \<open>A memory operand: base, index with its shift, displacement, and the size of the access, 0 to read as much as the
  instruction does.\<close>

record Mem =
  mem_base :: "Gp option"
  mem_index :: "(Gp \<times> nat) option"
  mem_offs :: u64
  mem_size :: nat

datatype Operand = OGp Gp | OImm u64 | OMem Mem

datatype XCondCode =
    kEqual | kNotEqual | kSignedLE | kSignedLT | kSignedGE | kSignedGT
  | kUnsignedLE | kUnsignedLT | kUnsignedGE | kUnsignedGT

datatype InstId =
    kIdMov | kIdMovzx | kIdMovsx | kIdLea | kIdCmp
  | kIdAdd | kIdSub | kIdAnd | kIdOr | kIdXor | kIdShl | kIdShr | kIdSar

text \<open>A branch slot stands in the code with the guest address it leaves for, and whether that lies in another segment.\<close>

datatype asm =
    Ins InstId Operand Operand
  | InsSetcc XCondCode Gp
  | InsJcc XCondCode nat
  | InsJmpLabel nat
  | InsJmp Operand
  | InsCall Operand
  | InsPush Gp
  | InsPop Gp
  | InsBind nat
  | InsSlot u32 bool

section \<open>State\<close>

record flags =
  fl_zf :: bool
  fl_cf :: bool
  fl_sf :: bool
  fl_of :: bool

record xstate =
  x_regs :: "RegN \<Rightarrow> u64"
  x_flags :: "flags option"
  x_stack :: vmem
  x_rt :: runtime
  x_mem :: vmem

text \<open>
  The process the code runs in: where the CPU state, the table of indirect targets and the spill frame are, the stubs'
  addresses, and what calls leave in the registers they may clobber and in the stack below the caller's: any functions of
  the CPU state and memory they leave.
\<close>

record host_env =
  h_state :: u64
  h_l1 :: u64
  h_frame :: u64
  h_tab :: stub_tab
  h_clob :: "CPUState \<Rightarrow> vmem \<Rightarrow> RegN \<Rightarrow> u64"
  h_junk :: "CPUState \<Rightarrow> vmem \<Rightarrow> vmem"

definition offsetof_l1_brind_cache :: u16 where "offsetof_l1_brind_cache = 136"
definition offsetof_stub_tab :: u16 where "offsetof_stub_tab = 144"
definition sizeof_CPUState :: u64 where "sizeof_CPUState = 360"
definition sizeof_L1BrindCache :: u64 where "sizeof_L1BrindCache = 65536"

text \<open>The part of the host stack that is looked at: some below the spill frame, and the frame.\<close>

definition stack_below :: u64 where "stack_below = 65536"
definition stack_span :: u64 where "stack_span = 65536 + 1024"

definition in_state :: "host_env \<Rightarrow> u64 \<Rightarrow> bool" where "in_state h a \<longleftrightarrow> a - h_state h < sizeof_CPUState"
definition in_l1 :: "host_env \<Rightarrow> u64 \<Rightarrow> bool" where "in_l1 h a \<longleftrightarrow> a - h_l1 h < sizeof_L1BrindCache"
definition in_stack :: "host_env \<Rightarrow> u64 \<Rightarrow> bool" where "in_stack h a \<longleftrightarrow> a - (h_frame h - stack_below) < stack_span"

text \<open>Guest memory is at address 0, below the others; no two areas meet, the frame is aligned, and no two stubs have one address.\<close>

definition env_ok :: "host_env \<Rightarrow> bool" where
  "env_ok h \<longleftrightarrow> (\<forall>a. \<not> (in_state h a \<and> in_l1 h a) \<and> \<not> (in_state h a \<and> in_stack h a) \<and> \<not> (in_l1 h a \<and> in_stack h a)) \<and>
     (\<forall>g :: u32. \<not> in_state h (ucast g) \<and> \<not> in_l1 h (ucast g) \<and> \<not> in_stack h (ucast g)) \<and>
     unat (h_frame h) mod 16 = 0 \<and> inj (h_tab h)"

text \<open>The host state of the code before emission: the low halves of the registers, the spill frame, the CPU state and memory.\<close>

definition mview :: "host_env \<Rightarrow> xstate \<Rightarrow> mstate" where
  "mview h s =
     \<lparr>m_regs = \<lambda>p. ucast (x_regs s p),
      m_frame = \<lambda>a. if unat a < unat spillframe_size then x_stack s (h_frame h + a) else 0,
      m_cpu = rt_cpu (x_rt s), m_mem = x_mem s\<rparr>"

section \<open>Registers and memory\<close>

primrec read_gp :: "Gp \<Rightarrow> xstate \<Rightarrow> u64" where
  "read_gp (gpb r) s = x_regs s r AND 0xff"
| "read_gp (gpw r) s = x_regs s r AND 0xffff"
| "read_gp (gpd r) s = x_regs s r AND 0xffffffff"
| "read_gp (gpq r) s = x_regs s r"

definition set_gp :: "RegN \<Rightarrow> u64 \<Rightarrow> xstate \<Rightarrow> xstate" where
  "set_gp r v s = s\<lparr>x_regs := (x_regs s)(r := v)\<rparr>"

text \<open>A write of 32 bits clears the upper half; narrower writes keep the other bits.\<close>

primrec write_gp :: "Gp \<Rightarrow> u64 \<Rightarrow> xstate \<Rightarrow> xstate" where
  "write_gp (gpb r) v s = set_gp r ((x_regs s r AND NOT 0xff) OR (v AND 0xff)) s"
| "write_gp (gpw r) v s = set_gp r ((x_regs s r AND NOT 0xffff) OR (v AND 0xffff)) s"
| "write_gp (gpd r) v s = set_gp r (v AND 0xffffffff) s"
| "write_gp (gpq r) v s = set_gp r v s"

definition mem_load :: "nat \<Rightarrow> vmem \<Rightarrow> u64 \<Rightarrow> u64 option" where
  "mem_load n m a =
     (if n = 1 then Some (ucast (unaligned_load m a :: u8))
      else if n = 2 then Some (ucast (unaligned_load m a :: u16))
      else if n = 4 then Some (ucast (unaligned_load m a :: u32))
      else if n = 8 then Some (unaligned_load m a) else None)"

definition mem_store :: "nat \<Rightarrow> vmem \<Rightarrow> u64 \<Rightarrow> u64 \<Rightarrow> vmem option" where
  "mem_store n m a v =
     (if n = 1 then Some (unaligned_store m a (ucast v :: u8))
      else if n = 2 then Some (unaligned_store m a (ucast v :: u16))
      else if n = 4 then Some (unaligned_store m a (ucast v :: u32))
      else if n = 8 then Some (unaligned_store m a v) else None)"

definition stub_ids :: "RuntimeStubId list" where
  "stub_ids = [id_escape_link, id_escape_brind, id_link_branch_jit, id_link_branch_aot, id_link_branch_llvmaot, id_brind,
     id_raise, id_trace, id_nevercalled, id_rv32_ill, id_rv32_fence, id_rv32_fencei, id_rv32_ecall, id_rv32_ebreak, id_rv32_lrw,
     id_rv32_scw, id_rv32_amoswapw, id_rv32_amoaddw, id_rv32_amoxorw, id_rv32_amoandw, id_rv32_amoorw, id_rv32_amominw,
     id_rv32_amomaxw, id_rv32_amominuw, id_rv32_amomaxuw]"

text \<open>The CPU state has its registers and program counter, then the pointers translated code uses.\<close>

definition state_load :: "host_env \<Rightarrow> nat \<Rightarrow> u64 \<Rightarrow> xstate \<Rightarrow> u64 option" where
  "state_load h n off s =
     (if n = 4 then map_option ucast (state_read (rt_cpu (x_rt s)) (ucast off))
      else if n = 8 then
        (if off = ucast offsetof_l1_brind_cache then Some (h_l1 h)
         else map_option (h_tab h) (find (\<lambda>i. off = ucast offsetof_stub_tab + RuntimeStubTab_offs i) stub_ids))
      else None)"

text \<open>An entry of the table is a guest address, padding, and the address of its code.\<close>

definition l1_load :: "nat \<Rightarrow> u64 \<Rightarrow> xstate \<Rightarrow> u64 option" where
  "l1_load n off s =
     (let e = l1_brind_cache (rt_tc (x_rt s)) (ucast (drop_bit 4 off)) in
      if n = 4 \<and> off AND 15 = 0 then Some (ucast (fst e))
      else if n = 8 \<and> off AND 15 = 8 then Some (snd e) else None)"

definition stack_fits :: "host_env \<Rightarrow> nat \<Rightarrow> u64 \<Rightarrow> bool" where
  "stack_fits h n a \<longleftrightarrow> unat (a - (h_frame h - stack_below)) + n \<le> unat stack_span"

definition xload :: "host_env \<Rightarrow> nat \<Rightarrow> u64 \<Rightarrow> xstate \<Rightarrow> u64 option" where
  "xload h n a s =
     (if in_state h a then state_load h n (a - h_state h) s
      else if in_l1 h a then l1_load n (a - h_l1 h) s
      else if in_stack h a then (if stack_fits h n a then mem_load n (x_stack s) a else None)
      else mem_load n (x_mem s) a)"

definition xstore :: "host_env \<Rightarrow> nat \<Rightarrow> u64 \<Rightarrow> u64 \<Rightarrow> xstate \<Rightarrow> xstate option" where
  "xstore h n a v s =
     (if in_state h a
      then (if n = 4 then map_option (\<lambda>c. s\<lparr>x_rt := (x_rt s)\<lparr>rt_cpu := c\<rparr>\<rparr>) (state_write (ucast (a - h_state h)) (ucast v) (rt_cpu (x_rt s)))
            else None)
      else if in_l1 h a then None
      else if in_stack h a then (if stack_fits h n a then map_option (\<lambda>m. s\<lparr>x_stack := m\<rparr>) (mem_store n (x_stack s) a v) else None)
      else map_option (\<lambda>m. s\<lparr>x_mem := m\<rparr>) (mem_store n (x_mem s) a v))"

text \<open>An address computed from a register of 32 bits is one of 32 bits.\<close>

definition mem_ea :: "Mem \<Rightarrow> xstate \<Rightarrow> u64 option" where
  "mem_ea m s =
     (let idx = (case mem_index m of None \<Rightarrow> 0 | Some (g, k) \<Rightarrow> push_bit k (read_gp g s));
          wide = (case mem_index m of None \<Rightarrow> True | Some (g, k) \<Rightarrow> gp_size g = 8) in
      case mem_base m of
        None \<Rightarrow> if wide then Some (idx + mem_offs m) else None
      | Some (gpq r) \<Rightarrow> if wide then Some (x_regs s r + idx + mem_offs m) else None
      | Some (gpd r) \<Rightarrow> if mem_index m = None then Some ((x_regs s r + mem_offs m) AND 0xffffffff) else None
      | _ \<Rightarrow> None)"

definition xread :: "host_env \<Rightarrow> nat \<Rightarrow> Operand \<Rightarrow> xstate \<Rightarrow> u64 option" where
  "xread h n src s =
     (case src of
        OGp g \<Rightarrow> if gp_size g = n \<and> unat (gp_id g) < GPR_NUM then Some (read_gp g s) else None
      | OImm v \<Rightarrow> Some v
      | OMem m \<Rightarrow> if mem_size m \<in> {0, n} then Option.bind (mem_ea m s) (\<lambda>a. xload h n a s) else None)"

definition xwrite :: "host_env \<Rightarrow> nat \<Rightarrow> Operand \<Rightarrow> u64 \<Rightarrow> xstate \<Rightarrow> xstate option" where
  "xwrite h n src v s =
     (case src of
        OGp g \<Rightarrow> if gp_size g = n \<and> unat (gp_id g) < GPR_NUM then Some (write_gp g v s) else None
      | OImm i \<Rightarrow> None
      | OMem m \<Rightarrow> if mem_size m = n then Option.bind (mem_ea m s) (\<lambda>a. xstore h n a v s) else None)"

section \<open>Instructions\<close>

definition cmp_flags :: "u32 \<Rightarrow> u32 \<Rightarrow> flags" where
  "cmp_flags a b = \<lparr>fl_zf = (a - b = 0), fl_cf = (a < b), fl_sf = bit (a - b) 31, fl_of = (sint a - sint b \<noteq> sint (a - b))\<rparr>"

primrec cond_holds :: "XCondCode \<Rightarrow> flags \<Rightarrow> bool" where
  "cond_holds kEqual f \<longleftrightarrow> fl_zf f"
| "cond_holds kNotEqual f \<longleftrightarrow> \<not> fl_zf f"
| "cond_holds kSignedLE f \<longleftrightarrow> fl_zf f \<or> fl_sf f \<noteq> fl_of f"
| "cond_holds kSignedLT f \<longleftrightarrow> fl_sf f \<noteq> fl_of f"
| "cond_holds kSignedGE f \<longleftrightarrow> fl_sf f = fl_of f"
| "cond_holds kSignedGT f \<longleftrightarrow> \<not> fl_zf f \<and> fl_sf f = fl_of f"
| "cond_holds kUnsignedLE f \<longleftrightarrow> fl_cf f \<or> fl_zf f"
| "cond_holds kUnsignedLT f \<longleftrightarrow> fl_cf f"
| "cond_holds kUnsignedGE f \<longleftrightarrow> \<not> fl_cf f"
| "cond_holds kUnsignedGT f \<longleftrightarrow> \<not> fl_cf f \<and> \<not> fl_zf f"

fun alu :: "InstId \<Rightarrow> u32 \<Rightarrow> u32 \<Rightarrow> u32 option" where
  "alu kIdAdd a b = Some (a + b)"
| "alu kIdSub a b = Some (a - b)"
| "alu kIdAnd a b = Some (a AND b)"
| "alu kIdOr a b = Some (a OR b)"
| "alu kIdXor a b = Some (a XOR b)"
| "alu _ a b = None"

fun shift_by :: "InstId \<Rightarrow> u32 \<Rightarrow> nat \<Rightarrow> u32 option" where
  "shift_by kIdShl a n = Some (push_bit n a)"
| "shift_by kIdShr a n = Some (drop_bit n a)"
| "shift_by kIdSar a n = Some (signed_drop_bit n a)"
| "shift_by _ a n = None"

fun both_mem :: "Operand \<Rightarrow> Operand \<Rightarrow> bool" where
  "both_mem (OMem m) (OMem m') \<longleftrightarrow> True"
| "both_mem _ _ \<longleftrightarrow> False"

primrec op_size :: "Operand \<Rightarrow> nat" where
  "op_size (OGp g) = gp_size g"
| "op_size (OMem m) = mem_size m"
| "op_size (OImm v) = 0"

text \<open>The count of a shift is the low byte of the count register, whatever view of it is named, or an immediate.\<close>

definition shift_count :: "Operand \<Rightarrow> xstate \<Rightarrow> nat option" where
  "shift_count src s =
     (case src of
        OGp g \<Rightarrow> if gp_id g = RCX then Some (unat (x_regs s RCX AND 31)) else None
      | OImm v \<Rightarrow> Some (unat (v AND 31))
      | OMem m \<Rightarrow> None)"

definition xins :: "host_env \<Rightarrow> InstId \<Rightarrow> Operand \<Rightarrow> Operand \<Rightarrow> xstate \<Rightarrow> xstate option" where
  "xins h i d src s =
     (case i of
        kIdMov \<Rightarrow> if both_mem d src then None else Option.bind (xread h (op_size d) src s) (\<lambda>v. xwrite h (op_size d) d v s)
      | kIdMovzx \<Rightarrow>
          if op_size d = 4 \<and> op_size src \<in> {1, 2} then Option.bind (xread h (op_size src) src s) (\<lambda>v. xwrite h 4 d v s) else None
      | kIdMovsx \<Rightarrow>
          if op_size d = 4 \<and> op_size src = 1 then Option.bind (xread h 1 src s) (\<lambda>v. xwrite h 4 d (scast (ucast v :: u8)) s)
          else if op_size d = 4 \<and> op_size src = 2 then Option.bind (xread h 2 src s) (\<lambda>v. xwrite h 4 d (scast (ucast v :: u16)) s)
          else None
      | kIdLea \<Rightarrow> (case src of OMem m \<Rightarrow> Option.bind (mem_ea m s) (\<lambda>a. xwrite h 4 d a s) | _ \<Rightarrow> None)
      | kIdCmp \<Rightarrow>
          if both_mem d src \<or> op_size d \<noteq> 4 then None
          else Option.bind (xread h 4 d s) (\<lambda>a. Option.bind (xread h 4 src s) (\<lambda>b. Some (s\<lparr>x_flags := Some (cmp_flags (ucast a) (ucast b))\<rparr>)))
      | _ \<Rightarrow>
          if both_mem d src \<or> op_size d \<noteq> 4 then None
          else Option.bind (xread h 4 d s) (\<lambda>a.
            Option.bind (if i \<in> {kIdShl, kIdShr, kIdSar} then Option.bind (shift_count src s) (shift_by i (ucast a))
                         else Option.bind (xread h 4 src s) (\<lambda>b. alu i (ucast a) (ucast b))) (\<lambda>v.
            map_option (x_flags_update (\<lambda>_. None)) (xwrite h 4 d (ucast v) s))))"

text \<open>What a call leaves.\<close>

definition xcall_ret :: "host_env \<Rightarrow> xstate \<Rightarrow> xstate" where
  "xcall_ret h s =
     (let c = rt_cpu (x_rt s); m = x_mem s; lo = h_frame h - stack_below in
      s\<lparr>x_regs := \<lambda>p. if mask_Test GPR_CALL_CLOBBER p then h_clob h c m p else x_regs s p, x_flags := None,
        x_stack := \<lambda>a. if a - lo < x_regs s RSP - lo then h_junk h c m a else x_stack s a\<rparr>)"

datatype 's ares = ANext 's | AGoto nat 's | ASlot u32 's | AJump u64 's | ARaise 's | AStuck

definition astuck :: "'a option \<Rightarrow> ('a \<Rightarrow> 's ares) \<Rightarrow> 's ares" where
  "astuck x f = (case x of None \<Rightarrow> AStuck | Some v \<Rightarrow> f v)"

lemma astuck_simps [simp]: "astuck (Some v) f = f v" "astuck None f = AStuck"
  by (simp_all add: astuck_def)

text \<open>A stub takes the CPU state and a word, on an aligned stack.\<close>

definition xcall :: "host_env \<Rightarrow> u64 \<Rightarrow> xstate \<Rightarrow> xstate ares" where
  "xcall h t s =
     (if unat (x_regs s RSP) mod 16 \<noteq> 0 \<or> x_regs s RDI \<noteq> h_state h then AStuck
      else astuck (find (\<lambda>i. h_tab h i = t) stub_ids) (\<lambda>i.
        let arg = ucast (x_regs s RSI) in
        if i = id_trace then ANext (xcall_ret h s)
        else if i = id_brind then
          (case qcgstub_brind (h_tab h) arg (x_rt s) of
             Inl e \<Rightarrow> AStuck
           | Inr (v, rt) \<Rightarrow> ANext (set_gp RAX v (xcall_ret h (s\<lparr>x_rt := rt\<rparr>))))
        else astuck (stub_op i) (\<lambda>op.
          case qcgstub_rv32 op arg (rt_cpu (x_rt s)) (x_mem s) of
            Next st \<Rightarrow> ANext (xcall_ret h (s\<lparr>x_rt := (x_rt s)\<lparr>rt_cpu := cpu st\<rparr>, x_mem := mem st\<rparr>))
          | Raised st \<Rightarrow> ARaise (xcall_ret h (s\<lparr>x_rt := (x_rt s)\<lparr>rt_cpu := cpu st\<rparr>, x_mem := mem st\<rparr>))
          | Fail e \<Rightarrow> AStuck)))"

primrec xinst :: "host_env \<Rightarrow> asm \<Rightarrow> xstate \<Rightarrow> xstate ares" where
  "xinst h (Ins i d src) s = astuck (xins h i d src s) ANext"
| "xinst h (InsSetcc cc g) s =
     astuck (x_flags s) (\<lambda>f. astuck (xwrite h 1 (OGp g) (if cond_holds cc f then 1 else 0) s) ANext)"
| "xinst h (InsJcc cc l) s = astuck (x_flags s) (\<lambda>f. if cond_holds cc f then AGoto l s else ANext s)"
| "xinst h (InsJmpLabel l) s = AGoto l s"
| "xinst h (InsJmp src) s = astuck (xread h 8 src s) (\<lambda>a. AJump a s)"
| "xinst h (InsCall src) s = astuck (xread h 8 src s) (\<lambda>a. xcall h a s)"
| "xinst h (InsPush g) s =
     (let s' = set_gp RSP (x_regs s RSP - 8) s in
      astuck (xread h 8 (OGp g) s) (\<lambda>v. astuck (xstore h 8 (x_regs s RSP - 8) v s') ANext))"
| "xinst h (InsPop g) s =
     astuck (xload h 8 (x_regs s RSP) s) (\<lambda>v. astuck (xwrite h 8 (OGp g) v (set_gp RSP (x_regs s RSP + 8) s)) ANext)"
| "xinst h (InsBind l) s = ANext s"
| "xinst h (InsSlot g c) s = ASlot g s"

primrec xlist :: "host_env \<Rightarrow> asm list \<Rightarrow> xstate \<Rightarrow> xstate ares" where
  "xlist h [] s = ANext s"
| "xlist h (i # is) s = (case xinst h i s of ANext s' \<Rightarrow> xlist h is s' | r \<Rightarrow> r)"

lemma xlist_append [simp]:
  "xlist h (is @ is') s = (case xlist h is s of ANext s' \<Rightarrow> xlist h is' s' | r \<Rightarrow> r)"
  by (induction "is" arbitrary: s) (auto split: ares.splits)

section \<open>Programs\<close>

text \<open>A program runs from a position of its code until it leaves: by a branch slot, a jump to other code, or a trap.\<close>

datatype xconf = At nat xstate | Left u32 xstate | Jumped u64 xstate | Trapped xstate | Failed

definition label_at :: "asm list \<Rightarrow> nat \<Rightarrow> nat option" where
  "label_at code l = find (\<lambda>k. code ! k = InsBind l) [0..<length code]"

primrec xstep :: "host_env \<Rightarrow> asm list \<Rightarrow> xconf \<Rightarrow> xconf" where
  "xstep h code (At k s) =
     (if k < length code
      then (case xinst h (code ! k) s of
              ANext s' \<Rightarrow> At (Suc k) s'
            | AGoto l s' \<Rightarrow> (case label_at code l of None \<Rightarrow> Failed | Some k' \<Rightarrow> At k' s')
            | ASlot g s' \<Rightarrow> Left g s'
            | AJump a s' \<Rightarrow> Jumped a s'
            | ARaise s' \<Rightarrow> Trapped s'
            | AStuck \<Rightarrow> Failed)
      else Failed)"
| "xstep h code (Left g s) = Left g s"
| "xstep h code (Jumped a s) = Jumped a s"
| "xstep h code (Trapped s) = Trapped s"
| "xstep h code Failed = Failed"

definition xruns :: "host_env \<Rightarrow> asm list \<Rightarrow> xconf \<Rightarrow> xconf \<Rightarrow> bool" where
  "xruns h code c c' \<longleftrightarrow> (\<exists>n. (xstep h code ^^ n) c = c')"

lemma xruns_refl: "xruns h code c c"
  unfolding xruns_def by (rule exI [of _ 0]) simp

lemma xruns_step: "xruns h code c (xstep h code c)"
  unfolding xruns_def by (rule exI [of _ 1]) simp

lemma xruns_trans:
  assumes "xruns h code c c1" and "xruns h code c1 c2"
  shows "xruns h code c c2"
proof -
  obtain n m where "(xstep h code ^^ n) c = c1" "(xstep h code ^^ m) c1 = c2" using assms by (auto simp: xruns_def)
  then have "(xstep h code ^^ (m + n)) c = c2" by (simp add: funpow_add)
  then show ?thesis unfolding xruns_def by blast
qed

text \<open>Where a stretch of code leads when it is run from its first instruction.\<close>

definition after :: "asm list \<Rightarrow> nat \<Rightarrow> xstate ares \<Rightarrow> xconf" where
  "after code k r =
     (case r of
        ANext s \<Rightarrow> At k s
      | AGoto l s \<Rightarrow> (case label_at code l of None \<Rightarrow> Failed | Some k' \<Rightarrow> At k' s)
      | ASlot g s \<Rightarrow> Left g s
      | AJump a s \<Rightarrow> Jumped a s
      | ARaise s \<Rightarrow> Trapped s
      | AStuck \<Rightarrow> Failed)"

lemma run_list:
  assumes "code = pre @ is @ post"
  shows "xruns h code (At (length pre) s) (after code (length pre + length is) (xlist h is s))"
  using assms
proof (induction "is" arbitrary: pre s)
  case Nil
  then show ?case by (simp add: after_def xruns_refl)
next
  case (Cons i "is")
  have k: "length pre < length code" "code ! length pre = i" using Cons.prems by (simp_all add: nth_append)
  show ?case
  proof (cases "xinst h i s")
    case (ANext s')
    have "xstep h code (At (length pre) s) = At (length (pre @ [i])) s'" using k ANext by simp
    then have "xruns h code (At (length pre) s) (At (length (pre @ [i])) s')" using xruns_step by metis
    moreover have "xruns h code (At (length (pre @ [i])) s') (after code (length (pre @ [i]) + length is) (xlist h is s'))"
      using Cons.prems by (intro Cons.IH) simp
    ultimately show ?thesis using xruns_trans ANext by simp
  qed (use xruns_step [of h code "At (length pre) s"] k in \<open>simp_all add: after_def\<close>)
qed

text \<open>The labels a program binds. The assembler refuses to bind one twice.\<close>

primrec bound_labels :: "asm list \<Rightarrow> nat list" where
  "bound_labels [] = []"
| "bound_labels (i # is) = (case i of InsBind l \<Rightarrow> l # bound_labels is | _ \<Rightarrow> bound_labels is)"

lemma set_bound_labels: "l \<in> set (bound_labels is) \<longleftrightarrow> InsBind l \<in> set is"
  by (induction "is") (auto split: asm.splits)

lemma bound_labels_append [simp]: "bound_labels (is @ js) = bound_labels is @ bound_labels js"
  by (induction "is") (auto split: asm.splits)

lemma bound_labels_none: "\<forall>l. InsBind l \<notin> set is \<Longrightarrow> bound_labels is = []"
  using set_bound_labels [of _ "is"] by (metis list.set_intros(1) neq_Nil_conv)

lemma find_skip: "find P xs = None \<Longrightarrow> find P (xs @ ys) = find P ys"
  by (induction xs) (auto split: if_splits)

lemma label_at_first:
  assumes "code = pre @ InsBind l # post" and "InsBind l \<notin> set pre"
  shows "label_at code l = Some (length pre)"
proof -
  let ?P = "\<lambda>k. code ! k = InsBind l"
  have u: "[0..<length code] = [0..<length pre] @ length pre # [Suc (length pre)..<length code]"
    using assms(1) upt_add_eq_append [of 0 "length pre" "Suc (length post)"] by (simp add: upt_rec)
  have "find ?P [0..<length pre] = None" using assms by (auto simp: find_None_iff nth_append in_set_conv_nth)
  from find_skip [OF this] show ?thesis using assms(1) unfolding label_at_def u by (simp add: nth_append)
qed

end
