(* ===== verification/QEmit.thy ===== *)
theory QEmit
  imports X86
begin

text \<open>
  Emission, \<^verbatim>\<open>src/dbt/qmc/qcg/qemit.cpp\<close>, \<^verbatim>\<open>qemit.h\<close> and the visitor of \<^verbatim>\<open>qcg.cpp\<close>: the last step of the code generator, which turns
  every allocated instruction into requests to the assembler. The emitter keeps the requests made so far. The labels of the blocks
  are the first ones the assembler makes, so a block's label is its number; later labels are the slow paths
  of indirect branches. A failed lookup of a successor or a label, an operand of the wrong kind and
  a failed assertion stop the program.
\<close>

section \<open>The emitter\<close>

record QEmit =
  jit_mode :: bool
  zero_membase :: bool
  segment :: CodeSegment
  stub_tab :: stub_tab
  l1_cache_data :: u64
  is_leaf :: bool
  spillframe_sp_offs :: u32
  n_labels :: nat
  next_label :: nat
  qe_bb :: nat
  qe_code :: "asm list"

definition NewQEmit :: "nat \<Rightarrow> bool \<Rightarrow> bool \<Rightarrow> CodeSegment \<Rightarrow> stub_tab \<Rightarrow> u64 \<Rightarrow> bool \<Rightarrow> QEmit" where
  "NewQEmit num_blocks jit zero_base seg tab l1 leaf =
     \<lparr>jit_mode = jit, zero_membase = zero_base, segment = seg, stub_tab = tab, l1_cache_data = l1, is_leaf = leaf,
      spillframe_sp_offs = 8 * (if leaf then 1 else 2), n_labels = num_blocks, next_label = num_blocks, qe_bb = 0, qe_code = []\<rparr>"

definition put :: "asm list \<Rightarrow> QEmit \<Rightarrow> QEmit" where
  "put is e = e\<lparr>qe_code := qe_code e @ is\<rparr>"

definition newLabel :: "QEmit \<Rightarrow> nat \<times> QEmit" where
  "newLabel e = (next_label e, e\<lparr>next_label := Suc (next_label e)\<rparr>)"

definition R_STATE :: Gp where "R_STATE = gpq R13"
definition R_MEMBASE :: Gp where "R_MEMBASE = gpq RBP"
definition R_SP :: Gp where "R_SP = gpq RSP"

definition block_label :: "nat \<Rightarrow> QEmit \<Rightarrow> nat res" where
  "block_label bb e = (if bb < n_labels e then Inr bb else Inl BadIndex)"

definition SetBlock :: "nat \<Rightarrow> QEmit \<Rightarrow> QEmit res" where
  "SetBlock bb e = rbind (block_label bb e) (\<lambda>l. Inr (put [InsBind l] (e\<lparr>qe_bb := bb\<rparr>)))"

section \<open>Operands\<close>

primrec make_gpr :: "RegN \<Rightarrow> VType \<Rightarrow> Gp res" where
  "make_gpr pr I8 = Inr (gpb pr)"
| "make_gpr pr I16 = Inr (gpw pr)"
| "make_gpr pr I32 = Inr (gpd pr)"
| "make_gpr pr UNDEF = Inl Unreachable"

definition make_gpr_op :: "VOperand \<Rightarrow> Gp res" where
  "make_gpr_op opr = rbind (GetPGPR opr) (\<lambda>p. make_gpr p (GetType opr))"

definition make_imm :: "VOperand \<Rightarrow> Operand res" where
  "make_imm opr = rbind (GetConst opr) (\<lambda>c. Inr (OImm (ucast c)))"

definition base_mem :: "Gp \<Rightarrow> u64 \<Rightarrow> nat \<Rightarrow> Mem" where
  "base_mem base offs sz = \<lparr>mem_base = Some base, mem_index = None, mem_offs = offs, mem_size = sz\<rparr>"

text \<open>The offset is of 16 bits, and so is its sum with the distance of the spill frame.\<close>

definition make_slot :: "VOperand \<Rightarrow> QEmit \<Rightarrow> Operand res" where
  "make_slot opr e =
     rbind (VTypeToSize (GetType opr)) (\<lambda>sz. rbind (GetSlotOffs opr) (\<lambda>offs.
       let (base, offs) = (if IsLSlot opr then (R_SP, offs + ucast (spillframe_sp_offs e)) else (R_STATE, offs))
       in Inr (OMem (base_mem base (ucast offs) (unat sz)))))"

definition make_operand_x :: "VOperand \<Rightarrow> QEmit \<Rightarrow> Operand res" where
  "make_operand_x opr e =
     (if IsGPR opr then rbind (make_gpr_op opr) (\<lambda>g. Inr (OGp g))
      else if IsConst opr then make_imm opr
      else make_slot opr e)"

definition make_stubcall_target :: "RuntimeStubId \<Rightarrow> QEmit \<Rightarrow> Operand" where
  "make_stubcall_target stub e =
     (if jit_mode e then OImm (stub_tab e stub)
      else OMem (base_mem R_STATE (ucast offsetof_stub_tab + RuntimeStubTab_offs stub) 0))"

primrec make_cc :: "CondCode \<Rightarrow> XCondCode" where
  "make_cc EQ = kEqual"
| "make_cc NE = kNotEqual"
| "make_cc LE = kSignedLE"
| "make_cc LT = kSignedLT"
| "make_cc GE = kSignedGE"
| "make_cc GT = kSignedGT"
| "make_cc LEU = kUnsignedLE"
| "make_cc LTU = kUnsignedLT"
| "make_cc GEU = kUnsignedGE"
| "make_cc GTU = kUnsignedGT"

section \<open>Frames\<close>

definition FrameSetup :: "QEmit \<Rightarrow> asm list" where
  "FrameSetup e = (if \<not> is_leaf e then [InsPush (gpq RCX)] else [])"

definition FrameDestroy :: "QEmit \<Rightarrow> asm list" where
  "FrameDestroy e = (if \<not> is_leaf e then [InsPop (gpq RCX)] else [])"

definition Prologue :: "u32 \<Rightarrow> QEmit \<Rightarrow> QEmit" where
  "Prologue addr e = put (FrameSetup e) e"

definition state_slot :: "Gp \<Rightarrow> VType \<Rightarrow> u16 \<Rightarrow> Operand res" where
  "state_slot base type offs = rbind (VTypeToSize type) (\<lambda>sz. Inr (OMem (base_mem base (ucast offs) (unat sz))))"

definition StateFill :: "RegN \<Rightarrow> VType \<Rightarrow> u16 \<Rightarrow> QEmit \<Rightarrow> QEmit res" where
  "StateFill p type offs e =
     rbind (state_slot R_STATE type offs) (\<lambda>slot. rbind (make_gpr p type) (\<lambda>g. Inr (put [Ins kIdMov (OGp g) slot] e)))"

definition StateSpill :: "RegN \<Rightarrow> VType \<Rightarrow> u16 \<Rightarrow> QEmit \<Rightarrow> QEmit res" where
  "StateSpill p type offs e =
     rbind (state_slot R_STATE type offs) (\<lambda>slot. rbind (make_gpr p type) (\<lambda>g. Inr (put [Ins kIdMov slot (OGp g)] e)))"

definition LocFill :: "RegN \<Rightarrow> VType \<Rightarrow> u16 \<Rightarrow> QEmit \<Rightarrow> QEmit res" where
  "LocFill p type offs e =
     rbind (state_slot R_SP type offs) (\<lambda>slot. rbind (make_gpr p type) (\<lambda>g. Inr (put [Ins kIdMov (OGp g) slot] e)))"

definition LocSpill :: "RegN \<Rightarrow> VType \<Rightarrow> u16 \<Rightarrow> QEmit \<Rightarrow> QEmit res" where
  "LocSpill p type offs e =
     rbind (state_slot R_SP type offs) (\<lambda>slot. rbind (make_gpr p type) (\<lambda>g. Inr (put [Ins kIdMov slot (OGp g)] e)))"

section \<open>Calls and branches\<close>

definition Emit_hcall :: "RuntimeStubId \<Rightarrow> VOperand \<Rightarrow> QEmit \<Rightarrow> QEmit res" where
  "Emit_hcall stub arg e =
     (if is_leaf e then Inl AssertFailed
      else rbind (make_operand_x arg e) (\<lambda>a.
        Inr (put [Ins kIdMov (OGp (gpq RDI)) (OGp R_STATE), Ins kIdMov (OGp (gpq RSI)) a, InsCall (make_stubcall_target stub e)] e)))"

text \<open>The successors of the current block, and the block that follows it in the region.\<close>

definition succ_of :: "rview \<Rightarrow> nat \<Rightarrow> QEmit \<Rightarrow> nat res" where
  "succ_of r k e =
     (let ss = snd (r ! qe_bb e) in if k < length ss then Inr (ss ! k) else Inl BadIndex)"

definition jump_unless_next :: "nat \<Rightarrow> QEmit \<Rightarrow> asm list res" where
  "jump_unless_next bb e =
     (if bb \<noteq> qe_bb e + 1 then rbind (block_label bb e) (\<lambda>l. Inr [InsJmpLabel l]) else Inr [])"

definition Emit_br :: "rview \<Rightarrow> QEmit \<Rightarrow> QEmit res" where
  "Emit_br r e = rbind (succ_of r 0 e) (\<lambda>bb_s. rbind (jump_unless_next bb_s e) (\<lambda>is. Inr (put is e)))"

definition Emit_brcc :: "rview \<Rightarrow> CondCode \<Rightarrow> VOperand \<Rightarrow> VOperand \<Rightarrow> QEmit \<Rightarrow> QEmit res" where
  "Emit_brcc r cc vs0 vs1 e =
     rbind (succ_of r 0 e) (\<lambda>bb_t. rbind (succ_of r 1 e) (\<lambda>bb_f.
       let (vs0, vs1, cc) = (if IsConst vs0 then (vs1, vs0, SwapCC cc) else (vs0, vs1, cc)) in
       rbind (make_operand_x vs0 e) (\<lambda>a. rbind (make_operand_x vs1 e) (\<lambda>b.
       rbind (block_label bb_t e) (\<lambda>l. rbind (jump_unless_next bb_f e) (\<lambda>is.
         Inr (put ([Ins kIdCmp a b, InsJcc (make_cc cc) l] @ is) e)))))))"

text \<open>The bytes of the slot are those of \<open>JitABI.Emit_gbr\<close>.\<close>

definition Emit_gbr_x :: "VOperand \<Rightarrow> QEmit \<Rightarrow> QEmit res" where
  "Emit_gbr_x tpc e =
     rbind (GetConst tpc) (\<lambda>g. Inr (put (FrameDestroy e @ [InsSlot g (\<not> InSegment g (segment e))]) e))"

definition l1_base :: "QEmit \<Rightarrow> Operand" where
  "l1_base e =
     (if jit_mode e then OImm (l1_cache_data e) else OMem (base_mem R_STATE (ucast offsetof_l1_brind_cache) 0))"

definition l1_entry :: "u64 \<Rightarrow> nat \<Rightarrow> Operand" where
  "l1_entry offs sz = OMem \<lparr>mem_base = Some (gpq RDX), mem_index = Some (gpq RDI, 0), mem_offs = offs, mem_size = sz\<rparr>"

definition gbrind_fast :: "RegN \<Rightarrow> nat \<Rightarrow> QEmit \<Rightarrow> asm list" where
  "gbrind_fast tgt slowpath e =
     [Ins kIdMov (OGp (gpq RDX)) (l1_base e),
      Ins kIdLea (OGp (gpd RDI)) (OMem \<lparr>mem_base = None, mem_index = Some (gpq tgt, 2), mem_offs = 0, mem_size = 0\<rparr>),
      Ins kIdAnd (OGp (gpd RDI)) (OImm (push_bit 4 (push_bit L1_CACHE_BITS 1 - 1))),
      Ins kIdCmp (l1_entry 0 4) (OGp (gpd tgt)),
      InsJcc kNotEqual slowpath] @ FrameDestroy e @ [InsJmp (l1_entry 8 8)]"

definition gbrind_slow :: "nat \<Rightarrow> QEmit \<Rightarrow> asm list" where
  "gbrind_slow slowpath e =
     [InsBind slowpath, Ins kIdMov (OGp (gpq RDI)) (OGp R_STATE)] @
     (if is_leaf e then [InsPush (gpq RCX)] else []) @ [InsCall (make_stubcall_target id_brind e)] @
     (if is_leaf e then [InsPop (gpq RCX)] else FrameDestroy e) @ [InsJmp (OGp (gpq RAX))]"

definition Emit_gbrind :: "VOperand \<Rightarrow> QEmit \<Rightarrow> QEmit res" where
  "Emit_gbrind tpc e =
     rbind (make_gpr_op tpc) (\<lambda>ptgt.
       if gp_id ptgt \<noteq> RSI then Inl AssertFailed
       else let (slowpath, e) = newLabel e in Inr (put (gbrind_fast (gp_id ptgt) slowpath e @ gbrind_slow slowpath e) e))"

section \<open>Memory\<close>

definition make_vmem :: "VOperand \<Rightarrow> QEmit \<Rightarrow> Mem res" where
  "make_vmem vbase e =
     (if zero_membase e
      then (if IsPGPR vbase then rbind (make_gpr_op vbase) (\<lambda>g. Inr (base_mem g 0 0))
            else rbind (GetConst vbase) (\<lambda>c. Inr \<lparr>mem_base = None, mem_index = None, mem_offs = ucast c, mem_size = 0\<rparr>))
      else (if IsPGPR vbase then rbind (make_gpr_op vbase) (\<lambda>g. Inr ((base_mem R_MEMBASE 0 0)\<lparr>mem_index := Some (g, 0)\<rparr>))
            else rbind (GetConst vbase) (\<lambda>c. Inr (base_mem R_MEMBASE (scast c) 0))))"

definition setSize :: "nat \<Rightarrow> Mem \<Rightarrow> Operand" where "setSize n m = OMem (m\<lparr>mem_size := n\<rparr>)"

definition Emit_vmload :: "VType \<Rightarrow> VSign \<Rightarrow> VOperand \<Rightarrow> VOperand \<Rightarrow> QEmit \<Rightarrow> QEmit res" where
  "Emit_vmload sz sg vrd vbase e =
     rbind (make_gpr_op vrd) (\<lambda>prd. rbind (make_vmem vbase e) (\<lambda>vm.
       if GetType vrd \<noteq> I32 then Inl AssertFailed
       else case sz of
           I8 \<Rightarrow> Inr (put [Ins (if sg = VU then kIdMovzx else kIdMovsx) (OGp prd) (setSize 1 vm)] e)
         | I16 \<Rightarrow> Inr (put [Ins (if sg = VU then kIdMovzx else kIdMovsx) (OGp prd) (setSize 2 vm)] e)
         | I32 \<Rightarrow> Inr (put [Ins kIdMov (OGp prd) (setSize 4 vm)] e)
         | UNDEF \<Rightarrow> Inl Unreachable))"

definition Emit_vmstore :: "VType \<Rightarrow> VSign \<Rightarrow> VOperand \<Rightarrow> VOperand \<Rightarrow> QEmit \<Rightarrow> QEmit res" where
  "Emit_vmstore sz sg vbase vdata e =
     rbind (make_operand_x vdata e) (\<lambda>pdata. rbind (make_vmem vbase e) (\<lambda>vm.
       if sg \<noteq> VU then Inl AssertFailed
       else rbind (VTypeToSize sz) (\<lambda>n. Inr (put [Ins kIdMov (setSize (unat n) vm) pdata] e))))"

section \<open>Arithmetic\<close>

definition Emit_setcc :: "CondCode \<Rightarrow> VOperand \<Rightarrow> VOperand \<Rightarrow> VOperand \<Rightarrow> QEmit \<Rightarrow> QEmit res" where
  "Emit_setcc cc vrd vs0 vs1 e =
     rbind (make_gpr_op vrd) (\<lambda>prd. rbind (GetPGPR vs0) (\<lambda>p0.
       let dst_aliased = p0 = gp_id prd \<or> (IsPGPR vs1 \<and> GetPGPR vs1 = Inr (gp_id prd)) in
       rbind (make_operand_x vs0 e) (\<lambda>a. rbind (make_operand_x vs1 e) (\<lambda>b.
         Inr (put ((if \<not> dst_aliased then [Ins kIdXor (OGp prd) (OGp prd)] else []) @
           [Ins kIdCmp a b, InsSetcc (make_cc cc) (gpb (gp_id prd))] @
           (if dst_aliased then [Ins kIdMovzx (OGp prd) (OGp (gpb (gp_id prd)))] else [])) e)))))"

text \<open>The shorter form for a zero constant is disabled in the source.\<close>

definition Emit_mov :: "VOperand \<Rightarrow> VOperand \<Rightarrow> QEmit \<Rightarrow> QEmit res" where
  "Emit_mov vrd vs0 e =
     rbind (make_operand_x vrd e) (\<lambda>d. rbind (make_operand_x vs0 e) (\<lambda>s. Inr (put [Ins kIdMov d s] e)))"

definition EmitInstBinop :: "InstId \<Rightarrow> VOperand \<Rightarrow> VOperand \<Rightarrow> VOperand \<Rightarrow> QEmit \<Rightarrow> QEmit res" where
  "EmitInstBinop op vrd vs0 vs1 e =
     rbind (GetPGPR vrd) (\<lambda>pd. rbind (GetPGPR vs0) (\<lambda>p0.
       if pd \<noteq> p0 then Inl AssertFailed
       else rbind (make_gpr_op vrd) (\<lambda>d. rbind (make_operand_x vs1 e) (\<lambda>s. Inr (put [Ins op (OGp d) s] e)))))"

definition Emit_shift :: "InstId \<Rightarrow> VOperand \<Rightarrow> VOperand \<Rightarrow> VOperand \<Rightarrow> QEmit \<Rightarrow> QEmit res" where
  "Emit_shift op vrd vs0 vs1 e =
     (if IsConst vs1 \<or> GetPGPR vs1 = Inr RCX then EmitInstBinop op vrd vs0 vs1 e else Inl AssertFailed)"

fun Emit_binop :: "QOp \<Rightarrow> VOperand \<Rightarrow> VOperand \<Rightarrow> VOperand \<Rightarrow> QEmit \<Rightarrow> QEmit res" where
  "Emit_binop q_add d a b e = EmitInstBinop kIdAdd d a b e"
| "Emit_binop q_sub d a b e = EmitInstBinop kIdSub d a b e"
| "Emit_binop q_and d a b e = EmitInstBinop kIdAnd d a b e"
| "Emit_binop q_or d a b e = EmitInstBinop kIdOr d a b e"
| "Emit_binop q_xor d a b e = EmitInstBinop kIdXor d a b e"
| "Emit_binop q_sra d a b e = Emit_shift kIdSar d a b e"
| "Emit_binop q_srl d a b e = Emit_shift kIdShr d a b e"
| "Emit_binop q_sll d a b e = Emit_shift kIdShl d a b e"
| "Emit_binop _ d a b e = Inl Unreachable"

section \<open>The visitor\<close>

fun QCodegenVisitor :: "rview \<Rightarrow> instc \<Rightarrow> QEmit \<Rightarrow> QEmit res" where
  "QCodegenVisitor r (InstHcall stub arg) e = Emit_hcall stub arg e"
| "QCodegenVisitor r InstBr e = Emit_br r e"
| "QCodegenVisitor r (InstBrcc cc a b) e = Emit_brcc r cc a b e"
| "QCodegenVisitor r (InstGBr t) e = Emit_gbr_x t e"
| "QCodegenVisitor r (InstGBrind t) e = Emit_gbrind t e"
| "QCodegenVisitor r (InstVMLoad sz sg d p) e = Emit_vmload sz sg d p e"
| "QCodegenVisitor r (InstVMStore sz sg p v) e = Emit_vmstore sz sg p v e"
| "QCodegenVisitor r (InstSetcc cc d a b) e = Emit_setcc cc d a b e"
| "QCodegenVisitor r (InstUnop op d s) e = (if op = q_mov then Emit_mov d s e else Inl Unreachable)"
| "QCodegenVisitor r (InstBinop op d a b) e = Emit_binop op d a b e"

primrec emit_insts :: "rview \<Rightarrow> instc list \<Rightarrow> QEmit \<Rightarrow> QEmit res" where
  "emit_insts r [] e = Inr e"
| "emit_insts r (c # cs) e = rbind (QCodegenVisitor r c e) (emit_insts r cs)"

primrec emit_blocks :: "rview \<Rightarrow> nat list \<Rightarrow> QEmit \<Rightarrow> QEmit res" where
  "emit_blocks r [] e = Inr e"
| "emit_blocks r (bb # bbs) e =
     rbind (SetBlock bb e) (\<lambda>e. rbind (emit_insts r (fst (r ! bb)) e) (emit_blocks r bbs))"

definition QCodegen_Run :: "rview \<Rightarrow> u32 \<Rightarrow> QEmit \<Rightarrow> QEmit res" where
  "QCodegen_Run r addr e = emit_blocks r [0..<length r] (Prologue addr e)"

end
