(* ===== verification/QEmit_Correct.thy ===== *)
theory QEmit_Correct
  imports QEmit Host_Typed
begin

text \<open>
  Emission is correct: what the assembler is asked for does on the host what the allocated code does, instruction by instruction,
  block by block and for the region.
\<close>

section \<open>Conditions\<close>

lemma signed_less_flags: "(bit (a - b) 31 \<noteq> (sint a - sint b \<noteq> sint (a - b))) \<longleftrightarrow> a <s (b :: u32)"
proof -
  have r: "- (2 ^ 31) \<le> sint a" "sint a < 2 ^ 31" "- (2 ^ 31) \<le> sint b" "sint b < 2 ^ 31"
    using sint_range_size [of a] sint_range_size [of b] by (simp_all add: word_size)
  have n: "bit (a - b) 31 \<longleftrightarrow> sint (a - b) < 0" using bit_last_iff [of "a - b"] by simp
  have s: "sint (a - b) = signed_take_bit 31 (sint a - sint b)"
    by (simp add: sint_word_ariths)
  define d where "d = sint a - sint b"
  have e: "signed_take_bit 31 d = (d + 2147483648) mod 4294967296 - 2147483648"
    using signed_take_bit_eq_take_bit_shift [of 31 d] by (simp add: take_bit_eq_mod)
  have d: "- 4294967296 < d" "d < 4294967296" using r by (simp_all add: d_def)
  have lt: "a <s b \<longleftrightarrow> d < 0" by (simp add: word_sless_alt d_def)
  consider "d < - 2147483648" | "- 2147483648 \<le> d" "d < 2147483648" | "2147483648 \<le> d" by linarith
  then show ?thesis unfolding n s d_def [symmetric] lt e
  proof cases
    case 1
    have "(d + 2147483648) mod 4294967296 = (d + 2147483648 + 4294967296) mod 4294967296" by (simp only: mod_add_self2)
    also have "\<dots> = d + 2147483648 + 4294967296" using 1 d by (intro mod_pos_pos_trivial) linarith+
    finally have "(d + 2147483648) mod 4294967296 = d + 2147483648 + 4294967296" .
    then show "(((d + 2147483648) mod 4294967296 - 2147483648 < 0) \<noteq> (d \<noteq> (d + 2147483648) mod 4294967296 - 2147483648)) = (d < 0)" using 1 d by linarith
  next
    case 2
    then show "(((d + 2147483648) mod 4294967296 - 2147483648 < 0) \<noteq> (d \<noteq> (d + 2147483648) mod 4294967296 - 2147483648)) = (d < 0)" by simp
  next
    case 3
    have "(d + 2147483648) mod 4294967296 = (d - 2147483648 + 4294967296) mod 4294967296" by (simp add: algebra_simps)
    also have "\<dots> = d - 2147483648" unfolding mod_add_self2 using 3 d by (intro mod_pos_pos_trivial) linarith+
    finally show "(((d + 2147483648) mod 4294967296 - 2147483648 < 0) \<noteq> (d \<noteq> (d + 2147483648) mod 4294967296 - 2147483648)) = (d < 0)" using 3 d by linarith
  qed
qed

lemma cc_flags: "cond_holds (make_cc cc) (cmp_flags a b) \<longleftrightarrow> eval_cc cc a b"
proof -
  have "(a <s b \<or> a = b) \<longleftrightarrow> a \<le>s b" "\<not> a <s b \<longleftrightarrow> b \<le>s a" "(b <s a) \<longleftrightarrow> b \<le>s a \<and> a \<noteq> b" for a b :: u32
    by (auto simp: word_sless_alt word_sle_eq less_le dest: signed_word_eqI [OF sym] signed_word_eqI)
  then show ?thesis using signed_less_flags [of a b]
    by (cases cc) (auto simp: cmp_flags_def)
qed

section \<open>Registers\<close>

lemma mview_upd [simp]:
  "mview h (s\<lparr>x_rt := r\<rparr>) = (mview h s)\<lparr>m_cpu := rt_cpu r\<rparr>" "mview h (s\<lparr>x_mem := m\<rparr>) = (mview h s)\<lparr>m_mem := m\<rparr>"
  "mview h (s\<lparr>x_flags := f\<rparr>) = mview h s" "mview h (set_gp p v s) = (mview h s)\<lparr>m_regs := (m_regs (mview h s))(p := ucast v)\<rparr>"
  by (auto simp: mview_def set_gp_def cong: if_cong)

lemma mview_sel [simp]:
  "m_regs (mview h s) p = ucast (x_regs s p)" "m_cpu (mview h s) = rt_cpu (x_rt s)" "m_mem (mview h s) = x_mem s"
  by (simp_all add: mview_def)

definition keeps_env :: "xstate \<Rightarrow> xstate \<Rightarrow> bool" where
  "keeps_env s s' \<longleftrightarrow> x_regs s' RSP = x_regs s RSP \<and> x_regs s' R13 = x_regs s R13 \<and> rt_tc (x_rt s') = rt_tc (x_rt s)"

lemma keeps_refl: "keeps_env s s"
  by (simp add: keeps_env_def)

lemma keeps_trans: "keeps_env s s1 \<Longrightarrow> keeps_env s1 s2 \<Longrightarrow> keeps_env s s2"
  by (simp add: keeps_env_def)

lemma make_gpr_ok:
  assumes "t \<noteq> UNDEF"
  shows "\<exists>g. make_gpr p t = Inr g \<and> gp_id g = p \<and> gp_size g = vsz t"
  using assms by (cases t) simp_all

lemma trunc_bits:
  "ucast (x AND 0xff) = (ucast x :: u32) AND 0xff" "ucast (x AND 0xffff) = (ucast x :: u32) AND 0xffff" "ucast (x AND 0xffffffff) = (ucast x :: u32)"
  "ucast ((x AND NOT 0xff) OR (y AND 0xff)) = ((ucast x AND NOT 0xff) OR (ucast y AND 0xff) :: u32)"
  "ucast ((x AND NOT 0xffff) OR (y AND 0xffff)) = ((ucast x AND NOT 0xffff) OR (ucast y AND 0xffff) :: u32)" for x y :: u64
proof -
  have m: "(0xff :: u64) = mask 8" "(0xffff :: u64) = mask 16" "(0xffffffff :: u64) = mask 32" "(0xff :: u32) = mask 8" "(0xffff :: u32) = mask 16"
    by (simp_all add: mask_eq_exp_minus_1)
  show "ucast (x AND 0xff) = (ucast x :: u32) AND 0xff" "ucast (x AND 0xffff) = (ucast x :: u32) AND 0xffff" "ucast (x AND 0xffffffff) = (ucast x :: u32)"
    "ucast ((x AND NOT 0xff) OR (y AND 0xff)) = ((ucast x AND NOT 0xff) OR (ucast y AND 0xff) :: u32)"
    "ucast ((x AND NOT 0xffff) OR (y AND 0xffff)) = ((ucast x AND NOT 0xffff) OR (ucast y AND 0xffff) :: u32)"
    unfolding m by (rule bit_word_eqI, auto simp: bit_simps)+
qed

lemma read_gp_view:
  assumes "make_gpr p t = Inr g"
  shows "(ucast (read_gp g s) :: u32) = vtrunc t (m_regs (mview h s) p)"
  using assms by (cases t) (auto simp: mview_def trunc_bits)

lemma write_gp_view:
  assumes "make_gpr p t = Inr g"
  shows "mview h (write_gp g v s) = (mview h s)\<lparr>m_regs := (m_regs (mview h s))(p := vmerge t (m_regs (mview h s) p) (ucast v))\<rparr>"
    and "\<not> mask_Test GPR_FIXED p \<Longrightarrow> keeps_env s (write_gp g v s)" and "x_flags (write_gp g v s) = x_flags s"
proof -
  show "mview h (write_gp g v s) = (mview h s)\<lparr>m_regs := (m_regs (mview h s))(p := vmerge t (m_regs (mview h s) p) (ucast v))\<rparr>"
    using assms by (cases t) (auto simp: mview_def set_gp_def trunc_bits trunc_bits [simplified] fun_eq_iff)
  have "mask_Test GPR_FIXED RSP" "mask_Test GPR_FIXED R13" by code_simp+
  then show "\<not> mask_Test GPR_FIXED p \<Longrightarrow> keeps_env s (write_gp g v s)" using assms by (cases t) (auto simp: keeps_env_def set_gp_def)
  show "x_flags (write_gp g v s) = x_flags s" using assms by (cases t) (auto simp: set_gp_def)
qed

lemma vmerge_trunc: "vtrunc t x = vtrunc t y \<Longrightarrow> vmerge t old x = vmerge t old y"
  by (cases t) simp_all

section \<open>The address space\<close>

text \<open>The state of the code between instructions of a region.\<close>

definition sp_offs :: "bool \<Rightarrow> u64" where "sp_offs leaf = (if leaf then 8 else 16)"

definition xinv :: "host_env \<Rightarrow> bool \<Rightarrow> xstate \<Rightarrow> bool" where
  "xinv h leaf s \<longleftrightarrow> x_regs s R13 = h_state h \<and> x_regs s RSP = h_frame h - sp_offs leaf \<and> tc_inv (rt_tc (x_rt s))"

lemma xinv_keeps: "xinv h leaf s \<Longrightarrow> keeps_env s s' \<Longrightarrow> xinv h leaf s'"
  by (simp add: xinv_def keeps_env_def)

lemma unat_ucast_16 [simp]: "unat (ucast (k :: u16) :: u64) = unat k"
  using unsigned_less [of k, where 'a = nat] by (simp add: unsigned_ucast_eq take_bit_nat_eq_self)

lemma env_okD:
  assumes "env_ok h"
  shows "in_stack h a \<Longrightarrow> \<not> in_state h a" "in_stack h a \<Longrightarrow> \<not> in_l1 h a" "in_l1 h a \<Longrightarrow> \<not> in_state h a"
    "\<not> in_state h (ucast (g :: u32))" "\<not> in_l1 h (ucast g)" "\<not> in_stack h (ucast g)" "inj (h_tab h)" "unat (h_frame h) mod 16 = 0"
  using assms unfolding env_ok_def by blast+

lemma state_area:
  assumes "unat k < 360"
  shows "in_state h (h_state h + ucast (k :: u16))" "h_state h + ucast k - h_state h = ucast k" "ucast (ucast k :: u64) = k"
proof -
  have "(ucast k :: u64) < 360" using assms by (simp add: word_less_nat_alt)
  then show "in_state h (h_state h + ucast k)" by (simp add: in_state_def sizeof_CPUState_def)
  show "h_state h + ucast k - h_state h = ucast k" by simp
  show "ucast (ucast k :: u64) = k" by (rule bit_word_eqI) (simp add: bit_simps)
qed

lemma stack_area:
  assumes "env_ok h" and "unat k < 1024 + 65536" and "unat k + n \<le> 1024 + 65536"
  shows "in_stack h (h_frame h - stack_below + k)" "\<not> in_state h (h_frame h - stack_below + k)" "\<not> in_l1 h (h_frame h - stack_below + k)"
    "stack_fits h n (h_frame h - stack_below + k)"
proof -
  show i: "in_stack h (h_frame h - stack_below + k)" using assms(2) by (simp add: in_stack_def stack_span_def word_less_nat_alt)
  show "\<not> in_state h (h_frame h - stack_below + k)" "\<not> in_l1 h (h_frame h - stack_below + k)" using env_okD(1,2) [OF assms(1) i] by simp_all
  show "stack_fits h n (h_frame h - stack_below + k)" using assms(3) by (simp add: stack_fits_def stack_span_def)
qed

section \<open>The spill frame\<close>

lemma load_shift:
  assumes "LENGTH('a::len) = 8 * n" and "\<And>i. i < n \<Longrightarrow> m (a + of_nat i) = m' (a' + of_nat i)"
  shows "unaligned_load m a = (unaligned_load m' a' :: 'a word)"
  unfolding unaligned_load_def using assms by (intro arg_cong [where f = from_le]) simp

lemma frame_byte:
  assumes "unat (k :: u16) + n \<le> 1024" and "i < n"
  shows "m_frame (mview h s) (ucast k + of_nat i) = x_stack s (h_frame h + ucast k + of_nat i)"
proof -
  have "unat (ucast k + of_nat i :: u64) = unat k + i"
    using assms by (simp add: unat_word_ariths unsigned_of_nat take_bit_nat_eq_self)
  then show ?thesis using assms by (simp add: mview_def spillframe_size_def add.assoc)
qed

lemma frame_load:
  assumes "t \<noteq> UNDEF" and "unat k + vsz t \<le> 1024"
  shows "mem_load (vsz t) (x_stack s) (h_frame h + ucast (k :: u16)) = map_option ucast (eval_load t VU (m_frame (mview h s)) (ucast k))"
proof -
  let ?a = "h_frame h + ucast k"
  note b = frame_byte [where h = h and s = s, symmetric]
  have "unaligned_load (x_stack s) ?a = (unaligned_load (m_frame (mview h s)) (ucast k) :: u8)" if "t = I8"
    using that assms(2) b [of k 1] by (intro load_shift [of 1]) simp_all
  moreover have "unaligned_load (x_stack s) ?a = (unaligned_load (m_frame (mview h s)) (ucast k) :: u16)" if "t = I16"
    using that assms(2) b [of k 2] by (intro load_shift [of 2]) simp_all
  moreover have "unaligned_load (x_stack s) ?a = (unaligned_load (m_frame (mview h s)) (ucast k) :: u32)" if "t = I32"
    using that assms(2) b [of k 4] by (intro load_shift [of 4]) simp_all
  moreover have "(ucast (ucast (x :: u8) :: u32) :: u64) = ucast x" "(ucast (ucast (y :: u16) :: u32) :: u64) = ucast y" for x y
    by (rule bit_word_eqI, auto simp: bit_simps dest: bit_imp_le_length)+
  ultimately show ?thesis using assms(1) by (cases t) (simp_all add: mem_load_def)
qed

lemma view_store_bytes:
  assumes "unat k + length bs \<le> 1024"
  shows "m_frame (mview h (s\<lparr>x_stack := store_bytes (x_stack s) (h_frame h + ucast (k :: u16)) bs\<rparr>)) = store_bytes (m_frame (mview h s)) (ucast k) bs"
proof
  fix x
  have l: "length bs \<le> 2 ^ 64" using assms by simp
  have d: "h_frame h + x - (h_frame h + ucast k) = x - ucast k" by simp
  have "unat x < 1024" if "unat (x - ucast k) < length bs"
  proof -
    have "x = ucast k + (x - ucast k)" by simp
    then have "unat x \<le> unat (ucast k :: u64) + unat (x - ucast k)" by (metis unat_word_ariths(1) mod_less_eq_dividend)
    then show ?thesis using that assms by simp
  qed
  then show "m_frame (mview h (s\<lparr>x_stack := store_bytes (x_stack s) (h_frame h + ucast k) bs\<rparr>)) x = store_bytes (m_frame (mview h s)) (ucast k) bs x"
    by (simp add: mview_def store_bytes_apply [OF l] d spillframe_size_def)
qed

lemma store_low:
  assumes "t \<noteq> UNDEF" and "vtrunc t (ucast y) = vtrunc t v"
  shows "mem_store (vsz t) m a y = eval_store t m a v"
proof -
  have m: "(0xff :: u32) = mask 8" "(0xffff :: u32) = mask 16" by (simp_all add: mask_eq_exp_minus_1)
  have c8: "(ucast y :: u8) = ucast v" if "t = I8"
  proof -
    have "(ucast (ucast y :: u32) :: u8) = ucast (ucast y AND 0xff :: u32)" "(ucast v :: u8) = ucast (v AND 0xff)" "(ucast (ucast y :: u32) :: u8) = ucast y"
      unfolding m by (rule bit_word_eqI, auto simp: bit_simps)+
    then show ?thesis using assms(2) that by simp
  qed
  have c16: "(ucast y :: u16) = ucast v" if "t = I16"
  proof -
    have "(ucast (ucast y :: u32) :: u16) = ucast (ucast y AND 0xffff :: u32)" "(ucast v :: u16) = ucast (v AND 0xffff)" "(ucast (ucast y :: u32) :: u16) = ucast y"
      unfolding m by (rule bit_word_eqI, auto simp: bit_simps)+
    then show ?thesis using assms(2) that by simp
  qed
  show ?thesis using assms by (cases t) (simp_all add: mem_store_def c8 c16)
qed

lemma frame_store:
  assumes "t \<noteq> UNDEF" and "unat k + vsz t \<le> 1024" and "vtrunc t (ucast y) = vtrunc t v"
  shows "\<exists>st. mem_store (vsz t) (x_stack s) (h_frame h + ucast (k :: u16)) y = Some st \<and>
    eval_store t (m_frame (mview h s)) (ucast k) v = Some (m_frame (mview h (s\<lparr>x_stack := st\<rparr>)))"
  unfolding store_low [OF assms(1,3)] using assms(1,2) by (cases t) (simp_all add: unaligned_store_def view_store_bytes)

section \<open>Operands\<close>

lemma kinds_phys: "view_of v = VPhys t p \<Longrightarrow> IsGPR v \<and> IsPGPR v \<and> \<not> IsConst v \<and> GetPGPR v = Inr p \<and> GetType v = t"
  by (auto simp: view_of_def IsGPR_def IsPGPR_def IsConst_def GetPGPR_def split: Kind.splits if_splits)

lemma kinds_const: "view_of v = VConst t k \<Longrightarrow> \<not> IsGPR v \<and> \<not> IsPGPR v \<and> IsConst v \<and> GetConst v = Inr k \<and> GetType v = t"
  by (auto simp: view_of_def IsGPR_def IsPGPR_def IsConst_def GetConst_def split: Kind.splits if_splits)

lemma kinds_slot: "view_of v = VSlot g t k \<Longrightarrow> \<not> IsGPR v \<and> \<not> IsConst v \<and> GetSlotOffs v = Inr k \<and> IsLSlot v = (\<not> g) \<and> GetType v = t"
  by (auto simp: view_of_def IsGPR_def IsSlot_def IsConst_def GetSlotOffs_def IsLSlot_def IsGSlot_def split: Kind.splits if_splits)

definition emitter_ok :: "host_env \<Rightarrow> QEmit \<Rightarrow> bool" where
  "emitter_ok h e \<longleftrightarrow> env_ok h \<and> zero_membase e \<and> stub_tab e = h_tab h \<and> l1_cache_data e = h_l1 h \<and>
     spillframe_sp_offs e = (if is_leaf e then 8 else 16)"

lemma slot_address:
  assumes "emitter_ok h e" and "xinv h (is_leaf e) s" and "unat (k :: u16) + n \<le> 1024" and "0 < n"
  shows "mem_ea (base_mem R_SP (ucast (k + ucast (spillframe_sp_offs e))) n) s = Some (h_frame h + ucast k)"
    and "xload h n (h_frame h + ucast k) s = mem_load n (x_stack s) (h_frame h + ucast k)"
    and "xstore h n (h_frame h + ucast k) y s = map_option (\<lambda>m. s\<lparr>x_stack := m\<rparr>) (mem_store n (x_stack s) (h_frame h + ucast k) y)"
proof -
  let ?o = "ucast (spillframe_sp_offs e) :: u16"
  have o: "unat ?o \<le> 16" "(ucast ?o :: u64) = sp_offs (is_leaf e)" using assms(1) by (simp_all add: emitter_ok_def sp_offs_def)
  have "unat (k + ?o) = unat k + unat ?o" using assms(3) o(1) by (simp add: unat_word_ariths)
  then have "unat (ucast (k + ?o) :: u64) = unat (ucast k + ucast ?o :: u64)" using assms(3) o(1) by (simp add: unat_word_ariths)
  then have "(ucast (k + ?o) :: u64) = ucast k + sp_offs (is_leaf e)" using o(2) by (metis word_unat_eq_iff)
  then show "mem_ea (base_mem R_SP (ucast (k + ucast (spillframe_sp_offs e))) n) s = Some (h_frame h + ucast k)"
    using assms(2) by (simp add: mem_ea_def base_mem_def R_SP_def xinv_def)
  have a: "h_frame h + ucast k = h_frame h - stack_below + (stack_below + ucast k)" by simp
  have u: "unat (stack_below + ucast k) = 65536 + unat k" using assms(3) by (simp add: stack_below_def unat_word_ariths)
  have "env_ok h" using assms(1) by (simp add: emitter_ok_def)
  note st = stack_area [OF this, of "stack_below + ucast k" n, folded a, unfolded u]
  show "xload h n (h_frame h + ucast k) s = mem_load n (x_stack s) (h_frame h + ucast k)"
    "xstore h n (h_frame h + ucast k) y s = map_option (\<lambda>m. s\<lparr>x_stack := m\<rparr>) (mem_store n (x_stack s) (h_frame h + ucast k) y)"
    using st assms(3,4) by (simp_all add: xload_def xstore_def)
qed

lemma state_address:
  assumes "xinv h leaf s" and "state_read c k \<noteq> None"
  shows "mem_ea (base_mem R_STATE (ucast k) n) s = Some (h_state h + ucast k)"
    and "xload h 4 (h_state h + ucast k) s = map_option ucast (state_read (rt_cpu (x_rt s)) k)"
    and "xstore h 4 (h_state h + ucast k) y s = map_option (\<lambda>c. s\<lparr>x_rt := (x_rt s)\<lparr>rt_cpu := c\<rparr>\<rparr>) (state_write k (ucast y) (rt_cpu (x_rt s)))"
proof -
  show "mem_ea (base_mem R_STATE (ucast k) n) s = Some (h_state h + ucast k)"
    using assms(1) by (simp add: mem_ea_def base_mem_def R_STATE_def xinv_def)
  have "unat k < 360" using assms(2) by (auto simp: state_read_def split: if_splits)
  note a = state_area [OF this]
  show "xload h 4 (h_state h + ucast k) s = map_option ucast (state_read (rt_cpu (x_rt s)) k)"
    "xstore h 4 (h_state h + ucast k) y s = map_option (\<lambda>c. s\<lparr>x_rt := (x_rt s)\<lparr>rt_cpu := c\<rparr>\<rparr>) (state_write k (ucast y) (rt_cpu (x_rt s)))"
    using a by (simp_all add: xload_def xstore_def state_load_def)
qed

lemma size_of_type: "t \<noteq> UNDEF \<Longrightarrow> \<exists>z. VTypeToSize t = Inr z \<and> unat z = vsz t" and vsz_pos: "t \<noteq> UNDEF \<Longrightarrow> 0 < vsz t"
  by (cases t; simp)+

lemma load_narrow: "eval_load t VU m a = Some x \<Longrightarrow> vtrunc t x = x"
proof -
  have "(ucast (b :: u8) :: u32) AND 0xff = ucast b" "(ucast (w :: u16) :: u32) AND 0xffff = ucast w" for b w
  proof -
    have m: "(0xff :: u32) = mask 8" "(0xffff :: u32) = mask 16" by (simp_all add: mask_eq_exp_minus_1)
    show "(ucast b :: u32) AND 0xff = ucast b" "(ucast w :: u32) AND 0xffff = ucast w" unfolding m
      by (rule bit_word_eqI, auto simp: bit_simps dest: bit_imp_le_length)+
  qed
  then show "eval_load t VU m a = Some x \<Longrightarrow> vtrunc t x = x" by (cases t) auto
qed

lemma ucast_up_down [simp]: "(ucast (ucast (x :: u32) :: u64) :: u32) = x"
  by (rule bit_word_eqI) (simp add: bit_simps)

definition reads_as :: "host_env \<Rightarrow> QEmit \<Rightarrow> VOperand \<Rightarrow> xstate \<Rightarrow> u32 \<Rightarrow> Operand \<Rightarrow> bool" where
  "reads_as h e v s x src \<longleftrightarrow> make_operand_x v e = Inr src \<and>
     (\<exists>y. xread h (vsz (GetType v)) src s = Some y \<and> vtrunc (GetType v) (ucast y) = x)"

lemma operand_read:
  assumes e: "emitter_ok h e" "xinv h (is_leaf e) s" and v: "mread (mview h s) v = Some x" "GetType v \<noteq> UNDEF" "in_frame v"
  shows "\<exists>src. reads_as h e v s x src \<and> (case view_of v of VPhys t p \<Rightarrow> \<exists>g. src = OGp g \<and> make_gpr p t = Inr g | VConst t k \<Rightarrow> src = OImm (ucast k) | _ \<Rightarrow> \<exists>m. src = OMem m \<and> mem_size m = vsz (GetType v))"
proof (cases "view_of v")
  case (VConst t k)
  then show ?thesis using v(1) kinds_const [OF VConst] by (simp add: reads_as_def make_operand_x_def make_imm_def xread_def mread_def)
next
  case (VPhys t p)
  have t: "t \<noteq> UNDEF" "unat p < GPR_NUM" "x = vtrunc t (m_regs (mview h s) p)" using v(1,2) VPhys kinds_phys [OF VPhys] by (auto simp: mread_def split: if_splits)
  obtain g where g: "make_gpr p t = Inr g" "gp_id g = p" "gp_size g = vsz t" using make_gpr_ok [OF t(1)] by blast
  have "reads_as h e v s x (OGp g)" using kinds_phys [OF VPhys] g t read_gp_view [OF g(1), of s h]
    by (simp add: reads_as_def make_operand_x_def make_gpr_op_def xread_def)
  then show ?thesis using VPhys g(1) by auto
next
  case (VSlot gl t k)
  note kd = kinds_slot [OF VSlot]
  have t: "t \<noteq> UNDEF" using v(2) kd by simp
  obtain z where z: "VTypeToSize t = Inr z" "unat z = vsz t" using size_of_type [OF t] by blast
  show ?thesis
  proof (cases gl)
    case True
    then have st: "t = I32" "state_read (rt_cpu (x_rt s)) k = Some x" using v(1) VSlot by (auto simp: mread_def mview_def split: if_splits)
    note a = state_address [OF e(2), of "rt_cpu (x_rt s)" k]
    have "reads_as h e v s x (OMem (base_mem R_STATE (ucast k) 4))"
      using kd True z st a(1) [where n = 4] a(2) by (simp add: reads_as_def make_operand_x_def make_slot_def xread_def base_mem_def)
    then show ?thesis using VSlot st(1) kd by (auto simp: base_mem_def)
  next
    case False
    then have f: "unat k + vsz t \<le> 1024" "eval_load t VU (m_frame (mview h s)) (ucast k) = Some x" using v(1,3) VSlot by (simp_all add: in_frame_def mread_def)
    note a = slot_address [OF e f(1) vsz_pos [OF t]]
    have "reads_as h e v s x (OMem (base_mem R_SP (ucast (k + ucast (spillframe_sp_offs e))) (vsz t)))"
      using kd False z f(2) a(1,2) frame_load [OF t f(1), of s h] load_narrow [OF f(2)]
      by (simp add: reads_as_def make_operand_x_def make_slot_def xread_def base_mem_def)
    then show ?thesis using VSlot kd by (auto simp: base_mem_def)
  qed
qed (use v(1) in \<open>simp_all add: mread_def\<close>)


definition writes_as :: "host_env \<Rightarrow> QEmit \<Rightarrow> VOperand \<Rightarrow> u64 \<Rightarrow> xstate \<Rightarrow> mstate \<Rightarrow> Operand \<Rightarrow> bool" where
  "writes_as h e d y s ms' dst \<longleftrightarrow> make_operand_x d e = Inr dst \<and> op_size dst = vsz (GetType d) \<and>
     (\<exists>s'. xwrite h (vsz (GetType d)) dst y s = Some s' \<and> mview h s' = ms' \<and> keeps_env s s' \<and> x_flags s' = x_flags s)"

lemma operand_write:
  assumes e: "emitter_ok h e" "xinv h (is_leaf e) s" and d: "mwrite d v (mview h s) = Some ms'" "GetType d \<noteq> UNDEF" "in_frame d" "free_dst d"
    and y: "vtrunc (GetType d) (ucast y) = vtrunc (GetType d) v"
  shows "\<exists>dst. writes_as h e d y s ms' dst \<and> (case view_of d of VPhys t p \<Rightarrow> \<exists>g. dst = OGp g \<and> make_gpr p t = Inr g | _ \<Rightarrow> \<exists>m. dst = OMem m)"
proof (cases "view_of d")
  case (VPhys t p)
  note kd = kinds_phys [OF VPhys]
  have t: "t \<noteq> UNDEF" "unat p < GPR_NUM" "ms' = (mview h s)\<lparr>m_regs := (m_regs (mview h s))(p := vmerge t (m_regs (mview h s) p) v)\<rparr>" "\<not> mask_Test GPR_FIXED p"
    using d kd VPhys by (auto simp: mwrite_def free_dst_def split: if_splits)
  obtain g where g: "make_gpr p t = Inr g" "gp_id g = p" "gp_size g = vsz t" using make_gpr_ok [OF t(1)] by blast
  have "vmerge t (m_regs (mview h s) p) (ucast y) = vmerge t (m_regs (mview h s) p) v" using y kd by (intro vmerge_trunc) simp
  then have "writes_as h e d y s ms' (OGp g)" using kd g t write_gp_view [OF g(1)]
    by (simp add: writes_as_def make_operand_x_def make_gpr_op_def xwrite_def)
  then show ?thesis using VPhys g(1) by auto
next
  case (VSlot gl t k)
  note kd = kinds_slot [OF VSlot]
  have t: "t \<noteq> UNDEF" using d(2) kd by simp
  obtain z where z: "VTypeToSize t = Inr z" "unat z = vsz t" using size_of_type [OF t] by blast
  show ?thesis
  proof (cases gl)
    case True
    then obtain c where st: "t = I32" "state_write k v (rt_cpu (x_rt s)) = Some c" "ms' = (mview h s)\<lparr>m_cpu := c\<rparr>"
      using d(1) VSlot by (auto simp: mwrite_def mview_def split: if_splits)
    have "state_read (rt_cpu (x_rt s)) k \<noteq> None" using st(2) by (auto simp: state_read_def state_write_def split: if_splits)
    note a = state_address [OF e(2) this]
    have "ucast y = v" using y kd st(1) by simp
    then have "xwrite h 4 (OMem (base_mem R_STATE (ucast k) 4)) y s = Some (s\<lparr>x_rt := (x_rt s)\<lparr>rt_cpu := c\<rparr>\<rparr>)"
      using a(1) [of 4] a(3) [of y] st(2) by (simp add: xwrite_def base_mem_def)
    moreover have "make_operand_x d e = Inr (OMem (base_mem R_STATE (ucast k) 4))" using kd True z st(1) by (simp add: make_operand_x_def make_slot_def)
    moreover have "mview h (s\<lparr>x_rt := (x_rt s)\<lparr>rt_cpu := c\<rparr>\<rparr>) = ms'" using st(3) by simp
    ultimately have "writes_as h e d y s ms' (OMem (base_mem R_STATE (ucast k) 4))"
      using kd st(1) by (simp add: writes_as_def keeps_env_def) (simp add: base_mem_def)
    then show ?thesis using VSlot by auto
  next
    case False
    then have f: "unat k + vsz t \<le> 1024" using d(3) VSlot by (simp add: in_frame_def)
    obtain st where st: "mem_store (vsz t) (x_stack s) (h_frame h + ucast k) y = Some st"
        "eval_store t (m_frame (mview h s)) (ucast k) v = Some (m_frame (mview h (s\<lparr>x_stack := st\<rparr>)))"
      using frame_store [OF t f, of y v s h] y kd by blast
    have ms: "ms' = mview h (s\<lparr>x_stack := st\<rparr>)" using d(1) VSlot False st(2) by (simp add: mwrite_def) (simp add: mview_def)
    note a = slot_address [OF e f vsz_pos [OF t]]
    have "writes_as h e d y s ms' (OMem (base_mem R_SP (ucast (k + ucast (spillframe_sp_offs e))) (vsz t)))"
      using kd False z st(1) a(1,3) ms by (simp add: writes_as_def make_operand_x_def make_slot_def xwrite_def base_mem_def keeps_env_def)
    then show ?thesis using VSlot by auto
  qed
qed (use d(1) in \<open>simp_all add: mwrite_def\<close>)

section \<open>Moves and arithmetic\<close>

text \<open>An instruction's requests, run from a state, give a state.\<close>

definition steps_as :: "host_env \<Rightarrow> rview \<Rightarrow> QEmit \<Rightarrow> instc \<Rightarrow> xstate \<Rightarrow> mstate \<Rightarrow> bool" where
  "steps_as h r e c s ms' \<longleftrightarrow>
     (\<exists>is s'. QCodegenVisitor r c e = Inr (put is e) \<and> xlist h is s = ANext s' \<and> mview h s' = ms' \<and> keeps_env s s')"

lemma steps_one:
  assumes "QCodegenVisitor r c e = Inr (put [Ins i d a] e)" and "xins h i d a s = Some s'" and "mview h s' = ms'" and "keeps_env s s'"
  shows "steps_as h r e c s ms'"
  unfolding steps_as_def using assms by (intro exI [of _ "[Ins i d a]"] exI [of _ s']) simp

lemma mov_ok:
  assumes e: "emitter_ok h e" "xinv h (is_leaf e) s" and x: "mread (mview h s) a = Some v" "mwrite d v (mview h s) = Some ms'"
    and t: "GetType d = GetType a" "GetType a \<noteq> UNDEF" and f: "in_frame d" "in_frame a" "free_dst d" and k: "\<not> (is_slot d \<and> is_slot a)"
  shows "steps_as h r e (InstUnop q_mov d a) s ms'"
proof -
  obtain src where src: "reads_as h e a s v src"
      "case view_of a of VPhys t p \<Rightarrow> \<exists>g. src = OGp g \<and> make_gpr p t = Inr g | VConst t k \<Rightarrow> src = OImm (ucast k) | _ \<Rightarrow> \<exists>m. src = OMem m \<and> mem_size m = vsz (GetType a)"
    using operand_read [OF e x(1) t(2) f(2)] by blast
  obtain y where y: "make_operand_x a e = Inr src" "xread h (vsz (GetType a)) src s = Some y" "vtrunc (GetType a) (ucast y) = v" using src(1) by (auto simp: reads_as_def)
  obtain dst where dst: "writes_as h e d y s ms' dst" "case view_of d of VPhys t p \<Rightarrow> \<exists>g. dst = OGp g \<and> make_gpr p t = Inr g | _ \<Rightarrow> \<exists>m. dst = OMem m"
    using operand_write [OF e x(2) _ f(1,3), of y] t y(3) by auto
  obtain s' where s': "make_operand_x d e = Inr dst" "op_size dst = vsz (GetType a)" "xwrite h (vsz (GetType a)) dst y s = Some s'" "mview h s' = ms'" "keeps_env s s'"
    using dst(1) t(1) by (auto simp: writes_as_def)
  have "\<not> both_mem dst src" using k src(2) dst(2) x by (cases "view_of a"; cases "view_of d") (auto simp: is_slot_def mread_def mwrite_def)
  then have "xins h kIdMov dst src s = Some s'" using s' y(2) by (simp add: xins_def)
  then show ?thesis using s' y(1) by (intro steps_one) (simp_all add: Emit_mov_def)
qed

text \<open>Registers of 32 bits and constants.\<close>

lemma reads32:
  assumes e: "emitter_ok h e" "xinv h (is_leaf e) s" and x: "mread (mview h s) v = Some x" "GetType v = I32" "in_frame v"
  shows "\<exists>src y. make_operand_x v e = Inr src \<and> xread h 4 src s = Some y \<and> ucast y = x"
  using operand_read [OF e x(1) _ x(3)] x(2) by (auto simp: reads_as_def)

lemma reg_only: "view_of v = VPhys t p \<Longrightarrow> in_frame v" "view_of v = VConst t k \<Longrightarrow> in_frame v"
  by (simp_all add: in_frame_def)

lemma set_reg32:
  assumes "view_of d = VPhys I32 p" and "mwrite d v (mview h s) = Some ms'" and "\<not> mask_Test GPR_FIXED p" and "x_regs s' = (x_regs s)(p := y)" and "ucast y = v"
    and "x_stack s' = x_stack s" and "x_rt s' = x_rt s" and "x_mem s' = x_mem s"
  shows "mview h s' = ms'" and "keeps_env s s'" and "unat p < GPR_NUM"
proof -
  have m: "unat p < GPR_NUM" "ms' = (mview h s)\<lparr>m_regs := (m_regs (mview h s))(p := v)\<rparr>" using assms(1,2) by (auto simp: mwrite_def split: if_splits)
  show "unat p < GPR_NUM" using m(1) .
  show "mview h s' = ms'" unfolding m(2) using assms(4-) by (auto simp: mview_def)
  have "mask_Test GPR_FIXED RSP" "mask_Test GPR_FIXED R13" by code_simp+
  then show "keeps_env s s'" using assms by (auto simp: keeps_env_def)
qed

primrec binop_id :: "QOp \<Rightarrow> InstId" where
  "binop_id q_add = kIdAdd" | "binop_id q_sub = kIdSub" | "binop_id q_and = kIdAnd" | "binop_id q_or = kIdOr" | "binop_id q_xor = kIdXor"
| "binop_id q_sra = kIdSar" | "binop_id q_srl = kIdShr" | "binop_id q_sll = kIdShl" | "binop_id q_hcall = kIdMov" | "binop_id q_br = kIdMov"
| "binop_id q_brcc = kIdMov" | "binop_id q_gbr = kIdMov" | "binop_id q_gbrind = kIdMov" | "binop_id q_vmload = kIdMov" | "binop_id q_vmstore = kIdMov"
| "binop_id q_setcc = kIdMov" | "binop_id q_mov = kIdMov"

definition is_shift :: "QOp \<Rightarrow> bool" where "is_shift op \<longleftrightarrow> op \<in> {q_sra, q_srl, q_sll}"

lemma unat_up32: "unat (ucast (x :: u32) :: u64) = unat x"
proof -
  have "unat x < 2 ^ 32" by (rule order_less_le_trans [OF unsigned_less]) simp
  then show ?thesis by (simp add: unsigned_ucast_eq take_bit_nat_eq_self)
qed

lemma low_count: "unat (x AND 31 :: u64) = unat (ucast x AND 31 :: u32)"
proof -
  have "(x AND 31 :: u64) = ucast (ucast x AND 31 :: u32)"
  proof -
    have m: "(31 :: u64) = mask 5" "(31 :: u32) = mask 5" by (simp_all add: mask_eq_exp_minus_1)
    show ?thesis unfolding m by (rule bit_word_eqI) (auto simp: bit_simps)
  qed
  then show ?thesis by (simp only: unat_up32)
qed

lemma one_bit:
  assumes "mask_Test (push_bit n 1) p" and "n < 32" and "unat p < 16"
  shows "p = of_nat n"
proof -
  have "n = unat p"
  proof (rule ccontr)
    assume ne: "n \<noteq> unat p"
    have "(push_bit n 1 :: u32) AND push_bit (unat p) 1 = 0" using ne by (intro bit_word_eqI) (auto simp: bit_simps)
    then show False using assms(1) by (simp add: mask_Test_def)
  qed
  then show ?thesis by simp
qed

lemma fixed_choice: "mask_Test 2 p \<Longrightarrow> unat p < 16 \<Longrightarrow> p = RCX" "mask_Test 0x40 p \<Longrightarrow> unat p < 16 \<Longrightarrow> p = RSI"
  using one_bit [of 1 p] one_bit [of 6 p] by (simp_all add: RCX_def RSI_def)

lemmas allocated_unfold = allocated_def ct_values make_def_def SetAlias_def Let_def All_less_Suc2 Imm_NO_def is_view(4)

lemma binop_operands:
  assumes "allocated (InstBinop op d a b)" and "InstBinop_HasOpcode op"
  shows "\<exists>t t' p. view_of a = VPhys t p \<and> view_of d = VPhys t' p \<and> \<not> mask_Test GPR_FIXED p"
    and "(\<exists>t k. view_of b = VConst t k) \<or> (\<exists>t q. view_of b = VPhys t q \<and> (is_shift op \<longrightarrow> q = RCX))"
  using assms by (cases op; auto simp: InstBinop_HasOpcode_def is_shift_def allocated_unfold dest: fixed_choice(1))+

lemma both_mem_gp [simp]: "\<not> both_mem (OGp g) src" "\<not> both_mem dst (OGp g)" "\<not> both_mem dst (OImm i)"
  by (cases src; cases dst; simp)+

lemma xread_gpd: "unat p < GPR_NUM \<Longrightarrow> xread h 4 (OGp (gpd p)) s = Some (x_regs s p AND 0xffffffff)"
  by (simp add: xread_def)

lemma alu_ok:
  assumes "InstBinop_HasOpcode op" and "eval_binop op (ucast x) (ucast y) = Some v" and "unat p < GPR_NUM"
    and "x_regs s p = x" and "xread h 4 src s = Some y" and "is_shift op \<longrightarrow> shift_count src s = Some (unat (ucast y AND 31 :: u32))"
  shows "xins h (binop_id op) (OGp (gpd p)) src s = Some (s\<lparr>x_regs := (x_regs s)(p := ucast v), x_flags := None\<rparr>)"
proof -
  have m: "(ucast v :: u64) AND 0xffffffff = ucast v" for v :: u32
  proof -
    have m: "(0xffffffff :: u64) = mask 32" by (simp add: mask_eq_exp_minus_1)
    show ?thesis unfolding m by (rule bit_word_eqI) (auto simp: bit_simps dest: bit_imp_le_length)
  qed
  show ?thesis using assms
    by (cases op) (auto simp: InstBinop_HasOpcode_def is_shift_def xins_def xread_gpd xwrite_def set_gp_def trunc_bits m)
qed

lemma binop_emits:
  assumes "InstBinop_HasOpcode op" and "view_of d = VPhys I32 p" and "view_of a = VPhys t p" and "make_operand_x b e = Inr src"
    and "is_shift op \<longrightarrow> IsConst b \<or> GetPGPR b = Inr RCX"
  shows "QCodegenVisitor r (InstBinop op d a b) e = Inr (put [Ins (binop_id op) (OGp (gpd p)) src] e)"
proof -
  have "EmitInstBinop i d a b e = Inr (put [Ins i (OGp (gpd p)) src] e)" for i
    using kinds_phys [OF assms(2)] kinds_phys [OF assms(3)] assms(4) by (simp add: EmitInstBinop_def make_gpr_op_def)
  then show ?thesis using assms(1,5) by (cases op) (auto simp: InstBinop_HasOpcode_def is_shift_def Emit_shift_def)
qed

lemma binop_ok:
  assumes e: "emitter_ok h e" "xinv h (is_leaf e) s" and c: "allocated (InstBinop op d a b)" "InstBinop_HasOpcode op"
    and t: "GetType d = I32" "GetType a = I32" "GetType b = I32"
    and x: "mread (mview h s) a = Some x" "mread (mview h s) b = Some y" "eval_binop op x y = Some v" "mwrite d v (mview h s) = Some ms'"
  shows "steps_as h r e (InstBinop op d a b) s ms'"
proof -
  obtain ta td p where v: "view_of a = VPhys ta p" "view_of d = VPhys td p" "\<not> mask_Test GPR_FIXED p" using binop_operands(1) [OF c] by blast
  have p: "view_of a = VPhys I32 p" "view_of d = VPhys I32 p" "\<not> mask_Test GPR_FIXED p"
    using v t kinds_phys [OF v(1)] kinds_phys [OF v(2)] by simp_all
  have b: "(\<exists>k. view_of b = VConst I32 k) \<or> (\<exists>q. view_of b = VPhys I32 q \<and> (is_shift op \<longrightarrow> q = RCX))"
    using binop_operands(2) [OF c] t kinds_phys kinds_const by metis
  have "in_frame b" using b reg_only by blast
  then obtain src z where src: "make_operand_x b e = Inr src" "xread h 4 src s = Some z" "ucast z = y" using reads32 [OF e x(2) t(3)] by blast
  have xa: "ucast (x_regs s p) = x" using x(1) p(1) by (auto simp: mread_def split: if_splits)
  have sh: "is_shift op \<longrightarrow> shift_count src s = Some (unat (ucast z AND 31 :: u32))"
  proof
    assume i: "is_shift op"
    from b show "shift_count src s = Some (unat (ucast z AND 31 :: u32))"
    proof
      assume "\<exists>k. view_of b = VConst I32 k"
      then obtain k where k: "view_of b = VConst I32 k" by blast
      then have "src = OImm (ucast k)" "z = ucast k" using src kinds_const [OF k] by (auto simp: make_operand_x_def make_imm_def xread_def)
      then show ?thesis by (simp add: shift_count_def low_count)
    next
      assume "\<exists>q. view_of b = VPhys I32 q \<and> (is_shift op \<longrightarrow> q = RCX)"
      then have k: "view_of b = VPhys I32 RCX" using i by auto
      then have "src = OGp (gpd RCX)" "z = x_regs s RCX AND 0xffffffff" using src kinds_phys [OF k]
        by (auto simp: make_operand_x_def make_gpr_op_def xread_def split: if_splits)
      then show ?thesis by (simp add: shift_count_def low_count trunc_bits)
    qed
  qed
  let ?s = "s\<lparr>x_regs := (x_regs s)(p := ucast v), x_flags := None\<rparr>"
  have s': "mview h ?s = ms'" "keeps_env s ?s" "unat p < GPR_NUM" using set_reg32 [OF p(2) x(4) p(3), of ?s "ucast v"] by simp_all
  have "xins h (binop_id op) (OGp (gpd p)) src s = Some ?s" using alu_ok [OF c(2) _ s'(3) refl src(2) sh] x(3) xa src(3) by simp
  moreover have "is_shift op \<longrightarrow> IsConst b \<or> GetPGPR b = Inr RCX" using b kinds_phys kinds_const by metis
  ultimately show ?thesis using steps_one [OF binop_emits [OF c(2) p(2,1) src(1)] _ s'(1,2)] by blast
qed

section \<open>Comparisons\<close>

lemma compare_operands:
  assumes "allocated (InstSetcc cc d a b) \<or> allocated (InstBrcc cc a b)"
  shows "\<exists>t q. view_of a = VPhys t q" and "(\<exists>t k. view_of b = VConst t k) \<or> (\<exists>t q. view_of b = VPhys t q)"
  using assms by (auto simp: allocated_unfold)

text \<open>A comparison of a register with a register or a constant.\<close>

lemma cmp_ok:
  assumes "view_of a = VPhys I32 q" and "(\<exists>k. view_of b = VConst I32 k) \<or> (\<exists>q. view_of b = VPhys I32 q)"
    and "mread (mview h s) a = Some x" and "mread (mview h s) b = Some y"
  shows "\<exists>src. make_operand_x a e = Inr (OGp (gpd q)) \<and> make_operand_x b e = Inr src \<and>
    xins h kIdCmp (OGp (gpd q)) src s = Some (s\<lparr>x_flags := Some (cmp_flags x y)\<rparr>)"
proof -
  have a: "make_operand_x a e = Inr (OGp (gpd q))" "unat q < GPR_NUM" "ucast (x_regs s q) = x"
    using kinds_phys [OF assms(1)] assms(1,3) by (auto simp: make_operand_x_def make_gpr_op_def mread_def split: if_splits)
  obtain src z where b: "make_operand_x b e = Inr src" "xread h 4 src s = Some z" "ucast z = y" "\<And>d. \<not> both_mem d src"
  proof (cases "\<exists>k. view_of b = VConst I32 k")
    case True
    then obtain k where k: "view_of b = VConst I32 k" by blast
    then show ?thesis using that [of "OImm (ucast k)" "ucast k"] kinds_const [OF k] assms(4) by (simp add: make_operand_x_def make_imm_def xread_def mread_def)
  next
    case False
    then obtain p where k: "view_of b = VPhys I32 p" using assms(2) by blast
    then show ?thesis using that [of "OGp (gpd p)" "x_regs s p AND 0xffffffff"] kinds_phys [OF k] assms(4)
      by (auto simp: make_operand_x_def make_gpr_op_def xread_def mread_def trunc_bits split: if_splits)
  qed
  then show ?thesis using a by (simp add: xins_def xread_gpd trunc_bits)
qed

lemma setcc_bits: "((0 :: u64) AND NOT 0xff) OR ((if c then 1 else 0) AND 0xff) = (if c then 1 else 0)"
  "((x AND NOT 0xff) OR ((if c then 1 else 0) AND 0xff)) AND 0xff = (if c then 1 else (0 :: u64))"
proof -
  have m: "(0xff :: u64) = mask 8" by (simp add: mask_eq_exp_minus_1)
  show "((0 :: u64) AND NOT 0xff) OR ((if c then 1 else 0) AND 0xff) = (if c then 1 else 0)" by simp
  have e: "((x AND NOT 0xff) OR (y AND 0xff)) AND 0xff = y AND (0xff :: u64)" for y unfolding m by (rule bit_word_eqI) (auto simp: bit_simps)
  show "((x AND NOT 0xff) OR ((if c then 1 else 0) AND 0xff)) AND 0xff = (if c then 1 else (0 :: u64))" unfolding e by simp
qed

lemma setcc_ok:
  assumes c: "allocated (InstSetcc cc d a b)" "\<not> is_slot d" and t: "GetType d = I32" "GetType a = I32" "GetType b = I32"
    and x: "mread (mview h s) a = Some x" "mread (mview h s) b = Some y" "mwrite d (of_cond (eval_cc cc x y)) (mview h s) = Some ms'"
  shows "steps_as h r e (InstSetcc cc d a b) s ms'"
proof -
  obtain td p where d': "view_of d = VPhys td p" "\<not> mask_Test GPR_FIXED p" using c by (auto simp: allocated_unfold is_slot_def)
  have d: "view_of d = VPhys I32 p" using d'(1) t(1) kinds_phys [OF d'(1)] by simp
  obtain ta q where "view_of a = VPhys ta q" using compare_operands(1) c(1) by blast
  then have a: "view_of a = VPhys I32 q" using t(2) kinds_phys by fastforce
  have b: "(\<exists>k. view_of b = VConst I32 k) \<or> (\<exists>q. view_of b = VPhys I32 q)" using compare_operands(2) c(1) t(3) kinds_phys kinds_const by metis
  let ?v = "if eval_cc cc x y then 1 else 0 :: u64" and ?al = "q = p \<or> (IsPGPR b \<and> GetPGPR b = Inr p)"
  have ov: "ucast ?v = of_cond (eval_cc cc x y)" by (simp add: of_cond_def)
  note ka = kinds_phys [OF a] and kd = kinds_phys [OF d]
  obtain src where cmp: "make_operand_x a e = Inr (OGp (gpd q))" "make_operand_x b e = Inr src"
      "xins h kIdCmp (OGp (gpd q)) src s = Some (s\<lparr>x_flags := Some (cmp_flags x y)\<rparr>)" using cmp_ok [OF a b x(1,2)] by blast
  let ?is = "(if \<not> ?al then [Ins kIdXor (OGp (gpd p)) (OGp (gpd p))] else []) @ [Ins kIdCmp (OGp (gpd q)) src, InsSetcc (make_cc cc) (gpb p)] @
           (if ?al then [Ins kIdMovzx (OGp (gpd p)) (OGp (gpb p))] else [])"
  have em: "QCodegenVisitor r (InstSetcc cc d a b) e = Inr (put ?is e)" using ka kd cmp(1,2) by (simp add: Emit_setcc_def make_gpr_op_def)
  let ?s = "s\<lparr>x_regs := (x_regs s)(p := ?v), x_flags := Some (cmp_flags x y)\<rparr>"
  have s': "mview h ?s = ms'" "keeps_env s ?s" "unat p < GPR_NUM" using set_reg32 [OF d x(3) d'(2), of ?s ?v] ov by simp_all
  have "xlist h ?is s = ANext ?s"
  proof (cases ?al)
    case True
    let ?w = "((x_regs s p AND NOT 0xff) OR (?v AND 0xff)) AND 0xff"
    have e: "xlist h ?is s = ANext (s\<lparr>x_flags := Some (cmp_flags x y), x_regs := (x_regs s)(p := ?w AND 0xffffffff)\<rparr>)"
      using True cmp(3) s'(3) by (simp add: xwrite_def set_gp_def cc_flags xins_def [of h kIdMovzx] xread_def)
    have w: "?w AND 0xffffffff = ?v" unfolding setcc_bits(2) by simp
    have "s\<lparr>x_flags := Some (cmp_flags x y), x_regs := (x_regs s)(p := ?v)\<rparr> = ?s" by (rule xstate.equality) simp_all
    then show ?thesis unfolding e w by simp
  next
    case False
    let ?s1 = "s\<lparr>x_regs := (x_regs s)(p := 0), x_flags := None\<rparr>"
    have m: "mview h ?s1 = (mview h s)\<lparr>m_regs := (m_regs (mview h s))(p := 0)\<rparr>" by (simp add: mview_def fun_eq_iff cong: if_cong)
    have r: "mread (mview h ?s1) a = Some x" "mread (mview h ?s1) b = Some y"
      using x(1,2) a b False kinds_phys unfolding m by (auto simp: mread_def split: if_splits)
    have "xins h kIdXor (OGp (gpd p)) (OGp (gpd p)) s = Some ?s1" using s'(3) by (simp add: xins_def xread_gpd xwrite_def set_gp_def)
    moreover have "xins h kIdCmp (OGp (gpd q)) src ?s1 = Some (?s1\<lparr>x_flags := Some (cmp_flags x y)\<rparr>)"
      using cmp_ok [OF a b r, of e] cmp(1,2) by auto
    ultimately show ?thesis using False s'(3) by (auto simp: xwrite_def set_gp_def cc_flags)
  qed
  then show ?thesis unfolding steps_as_def using em s'(1,2) by blast
qed

section \<open>Guest memory\<close>

lemma vmem_operands:
  shows "allocated (InstVMLoad sz sg d p) \<Longrightarrow> (\<exists>t k. view_of p = VConst t k) \<or> (\<exists>t q. view_of p = VPhys t q)"
    and "allocated (InstVMStore sz sg p v) \<Longrightarrow> (\<exists>t k. view_of p = VConst t k) \<or> (\<exists>t q. view_of p = VPhys t q)"
    and "allocated (InstVMStore sz sg p v) \<Longrightarrow> \<exists>t q. view_of v = VPhys t q"
  by (auto simp: allocated_unfold)

lemma low_half: "x AND 0xffffffff = ucast (ucast x :: u32)" for x :: u64
proof -
  have m: "(0xffffffff :: u64) = mask 32" by (simp add: mask_eq_exp_minus_1)
  show ?thesis unfolding m by (rule bit_word_eqI) (auto simp: bit_simps)
qed

lemma vmem_address:
  assumes "zero_membase e" and "mread (mview h s) p = Some a" and "GetType p = I32" and "(\<exists>t k. view_of p = VConst t k) \<or> (\<exists>t q. view_of p = VPhys t q)"
  shows "\<exists>m. make_vmem p e = Inr m \<and> (\<forall>n. mem_ea (m\<lparr>mem_size := n\<rparr>) s = Some (ucast a))"
proof (cases "\<exists>t k. view_of p = VConst t k")
  case True
  then obtain t k where k: "view_of p = VConst t k" by blast
  then show ?thesis using kinds_const [OF k] assms(1-3) by (simp add: make_vmem_def mem_ea_def mread_def)
next
  case False
  then obtain t q where k: "view_of p = VPhys t q" using assms(4) by blast
  then have "ucast (x_regs s q) = a" using assms(2,3) kinds_phys [OF k] by (auto simp: mread_def split: if_splits)
  then show ?thesis using kinds_phys [OF k] assms(1,3) by (simp add: make_vmem_def make_gpr_op_def mem_ea_def base_mem_def low_half)
qed

lemma guest_access:
  assumes "env_ok h"
  shows "xload h n (ucast (a :: u32)) s = mem_load n (x_mem s) (ucast a)"
    and "xstore h n (ucast a) y s = map_option (\<lambda>m. s\<lparr>x_mem := m\<rparr>) (mem_store n (x_mem s) (ucast a) y)"
  using env_okD(4-6) [OF assms] by (simp_all add: xload_def xstore_def)

definition load_id :: "VType \<Rightarrow> VSign \<Rightarrow> InstId" where
  "load_id sz sg = (if sz = I32 then kIdMov else if sg = VU then kIdMovzx else kIdMovsx)"

lemma load_ins:
  assumes h: "env_ok h" and l: "eval_load sz sg (x_mem s) (ucast (a :: u32)) = Some v" and ea: "mem_ea m s = Some (ucast a)" "mem_size m = vsz sz" and p: "unat p < GPR_NUM"
  shows "xins h (load_id sz sg) (OGp (gpd p)) (OMem m) s = Some (s\<lparr>x_regs := (x_regs s)(p := ucast v)\<rparr>)"
proof -
  have c: "(ucast v :: u64) AND 0xffffffff = ucast v" for v :: u32 unfolding low_half by simp
  have z: "(ucast (b :: u8) :: u64) AND 0xffffffff = ucast (ucast b :: u32)" "(ucast (w :: u16) :: u64) AND 0xffffffff = ucast (ucast w :: u32)"
    "(scast b :: u64) AND 0xffffffff = ucast (scast b :: u32)" "(scast w :: u64) AND 0xffffffff = ucast (scast w :: u32)"
    "(ucast (ucast b :: u64) :: u8) = b" "(ucast (ucast w :: u64) :: u16) = w" for b w
    unfolding low_half by (rule bit_word_eqI, auto simp: bit_simps min_def)+
  have r: "xread h (vsz sz) (OMem m) s = mem_load (vsz sz) (x_mem s) (ucast a)" using ea guest_access(1) [OF h] by (simp add: xread_def)
  show ?thesis using l r ea(2) p c z
    by (cases sz; cases sg) (auto simp: xins_def load_id_def xwrite_def set_gp_def mem_load_def)
qed

lemma vmload_ok:
  assumes e: "emitter_ok h e" and c: "allocated (InstVMLoad sz sg d p)" "\<not> is_slot d" and t: "GetType d = I32" "GetType p = I32"
    and x: "mread (mview h s) p = Some a" "eval_load sz sg (x_mem s) (ucast a) = Some v" "mwrite d v (mview h s) = Some ms'"
  shows "steps_as h r e (InstVMLoad sz sg d p) s ms'"
proof -
  obtain td q where d': "view_of d = VPhys td q" "\<not> mask_Test GPR_FIXED q" using c by (auto simp: allocated_unfold is_slot_def)
  have d: "view_of d = VPhys I32 q" using d'(1) t(1) kinds_phys [OF d'(1)] by simp
  have h: "env_ok h" "zero_membase e" using e by (simp_all add: emitter_ok_def)
  obtain m where m: "make_vmem p e = Inr m" "\<forall>n. mem_ea (m\<lparr>mem_size := n\<rparr>) s = Some (ucast a)" using vmem_address [OF h(2) x(1) t(2) vmem_operands(1) [OF c(1)]] by blast
  let ?s = "s\<lparr>x_regs := (x_regs s)(q := ucast v)\<rparr>"
  have s': "mview h ?s = ms'" "keeps_env s ?s" "unat q < GPR_NUM" using set_reg32 [OF d x(3) d'(2), of ?s "ucast v"] by simp_all
  have "QCodegenVisitor r (InstVMLoad sz sg d p) e = Inr (put [Ins (load_id sz sg) (OGp (gpd q)) (setSize (vsz sz) m)] e)"
    using kinds_phys [OF d] m(1) x(2) by (cases sz) (simp_all add: Emit_vmload_def make_gpr_op_def load_id_def)
  then show ?thesis using load_ins [OF h(1) x(2), of "m\<lparr>mem_size := vsz sz\<rparr>" q] m(2) s' steps_one by (simp add: setSize_def)
qed

lemma vmstore_ok:
  assumes e: "emitter_ok h e" "xinv h (is_leaf e) s" and c: "allocated (InstVMStore sz sg p v)" "sg = VU" and t: "GetType p = I32" "GetType v = sz"
    and x: "mread (mview h s) p = Some a" "mread (mview h s) v = Some y" "eval_store sz (x_mem s) (ucast a) y = Some m'"
  shows "steps_as h r e (InstVMStore sz sg p v) s ((mview h s)\<lparr>m_mem := m'\<rparr>)"
proof -
  have h: "env_ok h" "zero_membase e" "sz \<noteq> UNDEF" using e(1) x(3) by (auto simp: emitter_ok_def)
  obtain t q where v: "view_of v = VPhys t q" using vmem_operands(3) [OF c(1)] by blast
  obtain m where m: "make_vmem p e = Inr m" "\<forall>n. mem_ea (m\<lparr>mem_size := n\<rparr>) s = Some (ucast a)" using vmem_address [OF h(2) x(1) t(1) vmem_operands(2) [OF c(1)]] by blast
  obtain src where src: "reads_as h e v s y src" "\<exists>g. src = OGp g" using operand_read [OF e x(2)] t(2) h(3) v reg_only(1) [OF v] by auto
  obtain z where z: "make_operand_x v e = Inr src" "xread h (vsz sz) src s = Some z" "vtrunc sz (ucast z) = y" using src(1) t(2) by (auto simp: reads_as_def)
  have "vtrunc sz (ucast z) = vtrunc sz y" using z(3) by auto
  then have st: "mem_store (vsz sz) (x_mem s) (ucast a) z = Some m'" using store_low [OF h(3)] x(3) by simp
  obtain n where n: "VTypeToSize sz = Inr n" "unat n = vsz sz" using size_of_type [OF h(3)] by blast
  have "QCodegenVisitor r (InstVMStore sz sg p v) e = Inr (put [Ins kIdMov (setSize (vsz sz) m) src] e)"
    using z(1) m(1) n c(2) by (simp add: Emit_vmstore_def)
  moreover have "xins h kIdMov (setSize (vsz sz) m) src s = Some (s\<lparr>x_mem := m'\<rparr>)"
    using src(2) z(2) m(2) guest_access(2) [OF h(1)] st by (auto simp: xins_def setSize_def xwrite_def)
  ultimately show ?thesis by (rule steps_one) (simp_all add: keeps_env_def)
qed

section \<open>Calls\<close>

lemma find_unique:
  assumes "x \<in> set xs" and "P x" and "\<And>y. P y \<Longrightarrow> y = x"
  shows "find P xs = Some x"
proof (cases "find P xs")
  case None
  then show ?thesis using assms(1,2) by (simp add: find_None_iff)
next
  case (Some y)
  then have "P y" unfolding find_Some_iff by blast
  then have "y = x" by (rule assms(3))
  then show ?thesis using Some by simp
qed

lemma stub_ids_all: "i \<in> set stub_ids"
  by (cases i) (simp_all add: stub_ids_def)

lemma stub_found: "inj tab \<Longrightarrow> find (\<lambda>i. tab i = tab stub) stub_ids = Some stub"
  using stub_ids_all by (intro find_unique) (auto dest: injD)

lemma stub_offs_range:
  "unat (ucast offsetof_stub_tab + RuntimeStubTab_offs stub) < 360" "ucast offsetof_stub_tab + RuntimeStubTab_offs stub \<noteq> ucast offsetof_l1_brind_cache"
  "ucast offsetof_stub_tab + RuntimeStubTab_offs i = ucast offsetof_stub_tab + RuntimeStubTab_offs stub \<longleftrightarrow> i = stub"
proof -
  have u: "unat (8 * of_nat (stub_index i) :: u64) = 8 * stub_index i" "stub_index i \<le> 24" for i
    by (cases i; simp)+
  show "unat (ucast offsetof_stub_tab + RuntimeStubTab_offs stub) < 360" "ucast offsetof_stub_tab + RuntimeStubTab_offs stub \<noteq> ucast offsetof_l1_brind_cache"
    by (cases stub; simp add: offsetof_stub_tab_def offsetof_l1_brind_cache_def RuntimeStubTab_offs_def)+
  show "ucast offsetof_stub_tab + RuntimeStubTab_offs i = ucast offsetof_stub_tab + RuntimeStubTab_offs stub \<longleftrightarrow> i = stub"
    using u [of i] u [of stub] stub_index_inj [of i stub] by (auto simp: RuntimeStubTab_offs_def)
qed

lemma call_target:
  assumes "emitter_ok h e" and "x_regs s R13 = h_state h"
  shows "xread h 8 (make_stubcall_target stub e) s = Some (h_tab h stub)"
proof (cases "jit_mode e")
  case True
  then show ?thesis using assms(1) by (simp add: make_stubcall_target_def xread_def emitter_ok_def)
next
  case False
  let ?o = "ucast offsetof_stub_tab + RuntimeStubTab_offs stub"
  have "find (\<lambda>i. ?o = ucast offsetof_stub_tab + RuntimeStubTab_offs i) stub_ids = Some stub"
    using stub_ids_all stub_offs_range(3) by (intro find_unique) metis+
  moreover have "in_state h (h_state h + ?o)" using stub_offs_range(1) [of stub] by (simp add: in_state_def sizeof_CPUState_def word_less_nat_alt)
  ultimately have "xload h 8 (h_state h + ?o) s = Some (h_tab h stub)" using stub_offs_range(2) by (simp add: xload_def state_load_def)
  then show ?thesis using False assms(2) by (simp add: make_stubcall_target_def xread_def base_mem_def mem_ea_def R_STATE_def add.assoc)
qed

definition clob_of :: "host_env \<Rightarrow> mstate \<Rightarrow> RegN \<Rightarrow> u32" where
  "clob_of h ms p = ucast (h_clob h (m_cpu ms) (m_mem ms) p)"

lemma ret_view:
  assumes "x_regs s RSP = h_frame h - 16"
  shows "mview h (xcall_ret h s) = after_call (clob_of h) (mview h s)" and "keeps_env s (xcall_ret h s)"
proof -
  have "\<not> h_frame h + a - (h_frame h - stack_below) < x_regs s RSP - (h_frame h - stack_below)" if "unat a < 1024" for a
  proof -
    have e: "h_frame h + a - (h_frame h - stack_below) = a + 65536" "x_regs s RSP - (h_frame h - stack_below) = 65520"
      using assms by (simp_all add: stack_below_def)
    have "unat (a + 65536) = unat a + 65536" using that by (simp add: unat_word_ariths)
    then show ?thesis unfolding e word_less_nat_alt by simp
  qed
  then show "mview h (xcall_ret h s) = after_call (clob_of h) (mview h s)"
    by (auto simp: mview_def xcall_ret_def after_call_def clob_of_def Let_def spillframe_size_def fun_eq_iff)
  have "\<not> mask_Test GPR_CALL_CLOBBER RSP" "\<not> mask_Test GPR_CALL_CLOBBER R13" by code_simp+
  then show "keeps_env s (xcall_ret h s)" by (simp add: keeps_env_def xcall_ret_def Let_def)
qed

lemma frame_aligned:
  assumes "env_ok h"
  shows "unat (h_frame h - 16) mod 16 = 0"
proof -
  have "unat (h_frame h) mod 16 = 0" using env_okD(8) [OF assms] .
  then show ?thesis unfolding unat_sub_if' by (auto simp: mod_diff_right_eq)
qed

lemma after_call_same:
  assumes "m_cpu b = m_cpu a" and "m_mem b = m_mem a" and "m_frame b = m_frame a" and "\<And>p. \<not> mask_Test GPR_CALL_CLOBBER p \<Longrightarrow> m_regs b p = m_regs a p"
  shows "after_call (clob_of h) b = after_call (clob_of h) a"
  using assms by (intro mstate.equality) (auto simp: after_call_def clob_of_def)

text \<open>What the requests of an instruction lead to, when it does not branch.\<close>

definition runs_as :: "host_env \<Rightarrow> rview \<Rightarrow> QEmit \<Rightarrow> instc \<Rightarrow> xstate \<Rightarrow> mstate qres \<Rightarrow> bool" where
  "runs_as h r e c s res \<longleftrightarrow> (\<exists>is. QCodegenVisitor r c e = Inr (put is e) \<and>
     (case res of
        QNext ms \<Rightarrow> \<exists>s'. xlist h is s = ANext s' \<and> mview h s' = ms \<and> keeps_env s s'
      | QRaise ms \<Rightarrow> \<exists>s'. xlist h is s = ARaise s' \<and> rt_cpu (x_rt s') = m_cpu ms \<and> x_mem s' = m_mem ms
      | _ \<Rightarrow> False))"

lemma hcall_ok:
  assumes e: "emitter_ok h e" "xinv h (is_leaf e) s" "\<not> is_leaf e" and c: "view_of arg = VConst I32 k"
    and ns: "mexec_inst (clob_of h) (InstHcall stub arg) (mview h s) \<noteq> QStuck"
  shows "runs_as h r e (InstHcall stub arg) s (mexec_inst (clob_of h) (InstHcall stub arg) (mview h s))"
proof -
  have h: "env_ok h" "x_regs s R13 = h_state h" "x_regs s RSP = h_frame h - 16" using e by (simp_all add: emitter_ok_def xinv_def sp_offs_def)
  let ?s2 = "set_gp RSI (ucast k) (set_gp RDI (h_state h) s)"
  let ?is = "[Ins kIdMov (OGp (gpq RDI)) (OGp R_STATE), Ins kIdMov (OGp (gpq RSI)) (OImm (ucast k)), InsCall (make_stubcall_target stub e)]"
  have ids: "unat RDI < GPR_NUM" "unat R13 < GPR_NUM" "unat RSI < GPR_NUM" by code_simp+
  have ne: "RDI \<noteq> R13" "RSI \<noteq> R13" "RSI \<noteq> RDI" "RSI \<noteq> RSP" "RDI \<noteq> RSP" by (simp_all add: reg_ids)
  have em: "QCodegenVisitor r (InstHcall stub arg) e = Inr (put ?is e)"
    using e(3) kinds_const [OF c] by (simp add: Emit_hcall_def make_operand_x_def make_imm_def)
  have r2: "x_regs ?s2 R13 = h_state h" "x_regs ?s2 RSP = h_frame h - 16" "x_regs ?s2 RDI = h_state h" "x_regs ?s2 RSI = ucast k" "x_rt ?s2 = x_rt s" "x_mem ?s2 = x_mem s"
    using h ne by (simp_all add: set_gp_def)
  have run: "xlist h ?is s = xcall h (h_tab h stub) ?s2"
    using ids h(2) call_target [OF e(1) r2(1), of stub] ne
    by (simp add: xins_def R_STATE_def xread_def [of h 8 "OGp _"] xread_def [of h 8 "OImm _"] xwrite_def split: ares.splits)
  have ret: "mview h (xcall_ret h s2') = after_call (clob_of h) ((mview h s)\<lparr>m_cpu := rt_cpu (x_rt s2'), m_mem := x_mem s2'\<rparr>)" "keeps_env s (xcall_ret h s2')"
    if "x_regs s2' = x_regs ?s2" "x_stack s2' = x_stack s" "rt_tc (x_rt s2') = rt_tc (x_rt s)" for s2'
  proof -
    have rsp: "x_regs s2' RSP = h_frame h - 16" using that(1) r2(2) by simp
    have cl: "mask_Test GPR_CALL_CLOBBER RSI" "mask_Test GPR_CALL_CLOBBER RDI" by code_simp+
    have "after_call (clob_of h) (mview h s2') = after_call (clob_of h) ((mview h s)\<lparr>m_cpu := rt_cpu (x_rt s2'), m_mem := x_mem s2'\<rparr>)"
      using that(1,2) cl by (intro after_call_same) (auto simp: mview_def set_gp_def)
    then show "mview h (xcall_ret h s2') = after_call (clob_of h) ((mview h s)\<lparr>m_cpu := rt_cpu (x_rt s2'), m_mem := x_mem s2'\<rparr>)"
      using ret_view(1) [OF rsp] by simp
    show "keeps_env s (xcall_ret h s2')" using ret_view(2) [OF rsp] that r2(1,2) h(2,3) by (simp add: keeps_env_def)
  qed
  have call: "xcall h (h_tab h stub) ?s2 =
      (if stub = id_trace then ANext (xcall_ret h ?s2)
       else if stub = id_brind then
          (case qcgstub_brind (h_tab h) k (x_rt s) of Inl e \<Rightarrow> AStuck | Inr (v, rt) \<Rightarrow> ANext (set_gp RAX v (xcall_ret h (?s2\<lparr>x_rt := rt\<rparr>))))
       else astuck (stub_op stub) (\<lambda>op.
          case qcgstub_rv32 op k (rt_cpu (x_rt s)) (x_mem s) of
            Next st \<Rightarrow> ANext (xcall_ret h (?s2\<lparr>x_rt := (x_rt s)\<lparr>rt_cpu := cpu st\<rparr>, x_mem := mem st\<rparr>))
          | Raised st \<Rightarrow> ARaise (xcall_ret h (?s2\<lparr>x_rt := (x_rt s)\<lparr>rt_cpu := cpu st\<rparr>, x_mem := mem st\<rparr>))
          | Fail e \<Rightarrow> AStuck))"
    unfolding xcall_def using r2 frame_aligned [OF h(1)] stub_found [OF env_okD(7) [OF h(1)]] by (cases "stub_op stub") (simp_all add: Let_def split: hres.splits)
  show ?thesis
  proof (cases "stub = id_trace")
    case True
    then have "xlist h ?is s = ANext (xcall_ret h ?s2)" using run call by simp
    moreover have e0: "(mview h s)\<lparr>m_cpu := rt_cpu (x_rt s), m_mem := x_mem s\<rparr> = mview h s" by (simp add: mview_def)
    have "mview h (xcall_ret h ?s2) = after_call (clob_of h) (mview h s)" by (rule trans [OF ret(1)]) (simp_all add: set_gp_def e0)
    moreover have "keeps_env s (xcall_ret h ?s2)" by (rule ret(2)) (simp_all add: set_gp_def)
    ultimately show ?thesis unfolding runs_as_def em using True by (intro exI [of _ ?is]) (simp del: xlist.simps)
  next
    case False
    have "mread (mview h s) arg = Some k" using c by (simp add: mread_def)
    then obtain op where op: "stub_op stub = Some op" "qcgstub_rv32 op k (rt_cpu (x_rt s)) (x_mem s) \<noteq> Fail e'" for e'
      using ns False by (cases "stub_op stub") (auto split: hres.splits)
    have nb: "stub \<noteq> id_brind" using op(1) by auto
    show ?thesis
    proof (cases "qcgstub_rv32 op k (rt_cpu (x_rt s)) (x_mem s)")
      case (Next st)
      let ?s3 = "?s2\<lparr>x_rt := (x_rt s)\<lparr>rt_cpu := cpu st\<rparr>, x_mem := mem st\<rparr>"
      have "xlist h ?is s = ANext (xcall_ret h ?s3)" using run call False nb op(1) Next by simp
      moreover have "mexec_inst (clob_of h) (InstHcall stub arg) (mview h s) = QNext (after_call (clob_of h) ((mview h s)\<lparr>m_cpu := cpu st, m_mem := mem st\<rparr>))"
        using False op(1) c Next by (simp add: mread_def)
      ultimately show ?thesis unfolding runs_as_def using em ret [of ?s3] by (intro exI [of _ ?is]) (simp add: set_gp_def)
    next
      case (Raised st)
      let ?s3 = "?s2\<lparr>x_rt := (x_rt s)\<lparr>rt_cpu := cpu st\<rparr>, x_mem := mem st\<rparr>"
      have "xlist h ?is s = ARaise (xcall_ret h ?s3)" using run call False nb op(1) Raised by simp
      moreover have "mexec_inst (clob_of h) (InstHcall stub arg) (mview h s) = QRaise (after_call (clob_of h) ((mview h s)\<lparr>m_cpu := cpu st, m_mem := mem st\<rparr>))"
        using False op(1) c Raised by (simp add: mread_def)
      ultimately show ?thesis unfolding runs_as_def using em by (intro exI [of _ ?is]) (simp add: xcall_ret_def after_call_def Let_def)
    next
      case (Fail e')
      then show ?thesis using op(2) by blast
    qed
  qed
qed

end
