(* ===== verification/QEmit_Insts.thy ===== *)
theory QEmit_Insts
  imports QEmit_Correct
begin

text \<open>
  Every instruction that the passes leave can be emitted, and what is emitted for an instruction without a branch runs as the
  instruction does.
\<close>

section \<open>Instructions without branches\<close>

definition emit_ok :: "bool \<Rightarrow> instc \<Rightarrow> bool" where
  "emit_ok leaf c \<longleftrightarrow> host_typed c \<and> host_inst c \<and> (leaf \<longrightarrow> \<not> is_call c)"

lemma steps_runs: "steps_as h r e c s ms \<Longrightarrow> runs_as h r e c s (QNext ms)"
  by (auto simp: steps_as_def runs_as_def)

lemma mov_operands:
  assumes "host_inst (InstUnop q_mov d a)"
  shows "free_dst d" and "\<not> (is_slot d \<and> is_slot a)"
  using assms by (auto simp: host_inst_def host_mov_def allocated_unfold free_dst_def is_slot_def is_reg_def)

lemma not_mov: "host_inst c \<Longrightarrow> \<forall>d a. c \<noteq> InstUnop q_mov d a \<Longrightarrow> allocated c"
  by (auto simp: host_inst_def host_mov_def)

lemma const_arg: "IsConst v \<Longrightarrow> GetType v = t \<Longrightarrow> \<exists>k. view_of v = VConst t k"
  using is_view(2,5) by blast

lemma straight_runs:
  assumes e: "emitter_ok h e" "xinv h (is_leaf e) s" and c: "emit_ok (is_leaf e) c" "\<not> ends c"
    and ns: "mexec_inst (clob_of h) c (mview h s) \<noteq> QStuck"
  shows "runs_as h r e c s (mexec_inst (clob_of h) c (mview h s))"
proof (cases c)
  case (InstUnop op d a)
  then have t: "op = q_mov" "GetType d = GetType a" "GetType a \<noteq> UNDEF" "in_frame d" "in_frame a" using c(1) by (simp_all add: emit_ok_def)
  have k: "free_dst d" "\<not> (is_slot d \<and> is_slot a)" using mov_operands [of d a] c(1) InstUnop t(1) by (simp_all add: emit_ok_def)
  obtain v ms where x: "mread (mview h s) a = Some v" "mwrite d v (mview h s) = Some ms" "mexec_inst (clob_of h) c (mview h s) = QNext ms"
    using ns InstUnop t(1) by (auto simp: ostuck_def split: option.splits)
  show ?thesis using steps_runs [OF mov_ok [OF e x(1,2) t(2-5) k]] x(3) InstUnop t(1) by simp
next
  case (InstBinop op d a b)
  have al: "allocated (InstBinop op d a b)" using not_mov c(1) InstBinop by (auto simp: emit_ok_def)
  have t: "InstBinop_HasOpcode op" "GetType d = I32" "GetType a = I32" "GetType b = I32" using c(1) InstBinop wideD by (auto simp: emit_ok_def)
  obtain x y v ms where x: "mread (mview h s) a = Some x" "mread (mview h s) b = Some y" "eval_binop op x y = Some v" "mwrite d v (mview h s) = Some ms"
      "mexec_inst (clob_of h) c (mview h s) = QNext ms" using ns InstBinop by (auto simp: ostuck_def split: option.splits)
  show ?thesis using steps_runs [OF binop_ok [OF e al t x(1-4)]] x(5) InstBinop by simp
next
  case (InstSetcc cc d a b)
  have al: "allocated (InstSetcc cc d a b)" using not_mov c(1) InstSetcc by (auto simp: emit_ok_def)
  have t: "\<not> is_slot d" "GetType d = I32" "GetType a = I32" "GetType b = I32" using c(1) InstSetcc wideD by (auto simp: emit_ok_def)
  obtain x y ms where x: "mread (mview h s) a = Some x" "mread (mview h s) b = Some y" "mwrite d (of_cond (eval_cc cc x y)) (mview h s) = Some ms"
      "mexec_inst (clob_of h) c (mview h s) = QNext ms" using ns InstSetcc by (auto simp: ostuck_def split: option.splits)
  show ?thesis using steps_runs [OF setcc_ok [OF al t x(1-3)]] x(4) InstSetcc by simp
next
  case (InstVMLoad sz sg d p)
  have al: "allocated (InstVMLoad sz sg d p)" using not_mov c(1) InstVMLoad by (auto simp: emit_ok_def)
  have t: "\<not> is_slot d" "GetType d = I32" "GetType p = I32" using c(1) InstVMLoad wideD by (auto simp: emit_ok_def)
  obtain a v ms where x: "mread (mview h s) p = Some a" "eval_load sz sg (x_mem s) (ucast a) = Some v" "mwrite d v (mview h s) = Some ms"
      "mexec_inst (clob_of h) c (mview h s) = QNext ms" using ns InstVMLoad by (auto simp: ostuck_def split: option.splits)
  show ?thesis using steps_runs [OF vmload_ok [OF e(1) al t x(1-3)]] x(4) InstVMLoad by simp
next
  case (InstVMStore sz sg p v)
  have al: "allocated (InstVMStore sz sg p v)" using not_mov c(1) InstVMStore by (auto simp: emit_ok_def)
  have t: "sg = VU" "GetType p = I32" "GetType v = sz" using c(1) InstVMStore wideD by (auto simp: emit_ok_def oshape_def)
  obtain a y m where x: "mread (mview h s) p = Some a" "mread (mview h s) v = Some y" "eval_store sz (x_mem s) (ucast a) y = Some m"
      "mexec_inst (clob_of h) c (mview h s) = QNext ((mview h s)\<lparr>m_mem := m\<rparr>)" using ns InstVMStore by (auto simp: ostuck_def split: option.splits)
  show ?thesis using steps_runs [OF vmstore_ok [OF e al t x(1-3)]] x(4) InstVMStore by simp
next
  case (InstHcall stub arg)
  then have a: "IsConst arg" "GetType arg = I32" "\<not> is_leaf e" using c(1) by (auto simp: emit_ok_def)
  obtain k where "view_of arg = VConst I32 k" using const_arg [OF a(1,2)] by blast
  then show ?thesis using hcall_ok [OF e a(3)] ns InstHcall by simp
qed (use c(2) in simp_all)

section \<open>Emission succeeds\<close>

text \<open>What emitting an instruction adds: requests, and labels of its own.\<close>

definition emit_cfg :: "QEmit \<Rightarrow> QEmit" where
  "emit_cfg e = e\<lparr>qe_code := [], next_label := 0\<rparr>"

lemma cfg_fields:
  assumes "emit_cfg e' = emit_cfg e"
  shows "jit_mode e' = jit_mode e" "zero_membase e' = zero_membase e" "segment e' = segment e" "stub_tab e' = stub_tab e" "l1_cache_data e' = l1_cache_data e"
    "is_leaf e' = is_leaf e" "spillframe_sp_offs e' = spillframe_sp_offs e" "n_labels e' = n_labels e" "qe_bb e' = qe_bb e"
  using assms by (cases e; cases e'; simp add: emit_cfg_def)+

definition adds :: "QEmit \<Rightarrow> asm list \<Rightarrow> QEmit \<Rightarrow> bool" where
  "adds e is e' \<longleftrightarrow> qe_code e' = qe_code e @ is \<and> emit_cfg e' = emit_cfg e \<and> next_label e \<le> next_label e' \<and>
     (\<forall>l. InsBind l \<in> set is \<longrightarrow> next_label e \<le> l \<and> l < next_label e') \<and> distinct (bound_labels is)"

lemma adds_put: "(\<forall>l. InsBind l \<notin> set is) \<Longrightarrow> adds e is (put is e)"
  by (simp add: adds_def put_def emit_cfg_def bound_labels_none)

lemma adds_refl: "adds e [] e"
  by (simp add: adds_def)

lemma adds_trans: "adds e is e1 \<Longrightarrow> adds e1 is1 e2 \<Longrightarrow> adds e (is @ is1) e2"
  by (fastforce simp: adds_def set_bound_labels)

lemma operand_static:
  assumes "(\<exists>t k. view_of v = VConst t k) \<or> (\<exists>t p. view_of v = VPhys t p) \<or> is_slot v" and "GetType v \<noteq> UNDEF"
  shows "\<exists>x. make_operand_x v e = Inr x"
proof -
  obtain z where z: "VTypeToSize (GetType v) = Inr z" using size_of_type [OF assms(2)] by blast
  obtain g where g: "make_gpr p (GetType v) = Inr (g p)" for p using make_gpr_ok [OF assms(2)] by metis
  from assms(1) consider t k where "view_of v = VConst t k" | t p where "view_of v = VPhys t p" | gl t k where "view_of v = VSlot gl t k"
    by (auto simp: is_slot_def)
  then show ?thesis
  proof cases
    case 1
    then show ?thesis using kinds_const by (simp add: make_operand_x_def make_imm_def)
  next
    case 2
    then show ?thesis using kinds_phys [OF 2] g by (simp add: make_operand_x_def make_gpr_op_def)
  next
    case 3
    then show ?thesis using kinds_slot [OF 3] z by (auto simp: make_operand_x_def make_slot_def Let_def)
  qed
qed

lemma allocated_view:
  assumes "allocated c" and "ra_info (GetOpcode c) = Some (op_ct, ord)"
  shows "v \<in> set (inputs c) \<Longrightarrow> (\<exists>t k. view_of v = VConst t k) \<or> (\<exists>t p. view_of v = VPhys t p)"
    and "v \<in> set (outputs c) \<Longrightarrow> (\<exists>t p. view_of v = VPhys t p) \<or> is_slot v"
proof -
  show "v \<in> set (inputs c) \<Longrightarrow> (\<exists>t k. view_of v = VConst t k) \<or> (\<exists>t p. view_of v = VPhys t p)"
    using assms by (auto simp: allocated_def Let_def in_set_conv_nth is_view(4))
  show "v \<in> set (outputs c) \<Longrightarrow> (\<exists>t p. view_of v = VPhys t p) \<or> is_slot v"
    using assms by (auto simp: allocated_def Let_def is_slot_def)
qed

lemma put_inject [simp]: "put is e = put is' e \<longleftrightarrow> is = is'"
  by (cases e) (simp add: put_def)

definition emits_plain :: "rview \<Rightarrow> QEmit \<Rightarrow> instc \<Rightarrow> bool" where
  "emits_plain r e c \<longleftrightarrow> (\<exists>is. QCodegenVisitor r c e = Inr (put is e) \<and> (\<forall>l. InsBind l \<notin> set is))"

lemma emits_plainI: "QCodegenVisitor r c e = Inr (put is e) \<Longrightarrow> (\<forall>l. InsBind l \<notin> set is) \<Longrightarrow> emits_plain r e c"
  unfolding emits_plain_def by blast

lemma vmem_static:
  assumes "(\<exists>t k. view_of p = VConst t k) \<or> (\<exists>t q. view_of p = VPhys t q)" and "GetType p = I32"
  shows "\<exists>m. make_vmem p e = Inr m"
  using assms kinds_const kinds_phys by (fastforce simp: make_vmem_def make_gpr_op_def)

lemma wide_reg: "wide v \<Longrightarrow> (\<exists>t p. view_of v = VPhys t p) \<or> is_slot v \<Longrightarrow> \<exists>p. view_of v = VPhys I32 p"
  using wideD kinds_phys by metis

lemma straight_emits:
  assumes c: "emit_ok (is_leaf e) c" "\<not> ends c"
  shows "emits_plain r e c"
proof -
  have al: "allocated c" if "\<forall>d a. c \<noteq> InstUnop q_mov d a" using not_mov c(1) that by (simp add: emit_ok_def)
  show ?thesis
  proof (cases c)
    case (InstUnop op d a)
    then have t: "op = q_mov" "GetType d \<noteq> UNDEF" "GetType a \<noteq> UNDEF" "host_inst (InstUnop q_mov d a)" using c(1) by (auto simp: emit_ok_def)
    have "((\<exists>t k. view_of a = VConst t k) \<or> (\<exists>t p. view_of a = VPhys t p) \<or> is_slot a) \<and> ((\<exists>t p. view_of d = VPhys t p) \<or> is_slot d)"
      using t(4) by (auto simp: host_inst_def host_mov_def is_reg_def allocated_unfold is_slot_def)
    then obtain x y where "make_operand_x d e = Inr x" "make_operand_x a e = Inr y" using operand_static t(2,3) by meson
    then show ?thesis using InstUnop t(1) by (intro emits_plainI [of _ _ _ "[Ins kIdMov x y]"]) (simp_all add: Emit_mov_def)
  next
    case (InstBinop op d a b)
    have t: "InstBinop_HasOpcode op" "GetType d = I32" "GetType b = I32" using c(1) InstBinop wideD by (auto simp: emit_ok_def)
    note al = al [unfolded InstBinop, simplified]
    obtain ta td p where v: "view_of a = VPhys ta p" "view_of d = VPhys td p" using binop_operands(1) [OF al t(1)] by blast
    have b: "(\<exists>t k. view_of b = VConst t k) \<or> (\<exists>t q. view_of b = VPhys t q \<and> (is_shift op \<longrightarrow> q = RCX))" using binop_operands(2) [OF al t(1)] .
    have vd: "view_of d = VPhys I32 p" using v(2) t(2) kinds_phys [OF v(2)] by simp
    obtain x where x: "make_operand_x b e = Inr x" using operand_static [of b e] b t(3) by auto
    have "is_shift op \<longrightarrow> IsConst b \<or> GetPGPR b = Inr RCX" using b kinds_phys kinds_const by metis
    from binop_emits [OF t(1) vd v(1) x this] show ?thesis unfolding InstBinop by (rule emits_plainI) simp
  next
    case (InstSetcc cc d a b)
    have t: "wide d" "wide a" "wide b" using c(1) InstSetcc by (simp_all add: emit_ok_def)
    note al = al [unfolded InstSetcc, simplified]
    obtain q where d: "view_of d = VPhys I32 q" using wide_reg [OF t(1)] al by (auto simp: allocated_unfold is_slot_def)
    obtain p where a: "view_of a = VPhys I32 p" using wide_reg [OF t(2)] compare_operands(1) al by blast
    obtain x where x: "make_operand_x b e = Inr x" using operand_static [of b e] compare_operands(2) [of cc d a b] al wideD [OF t(3)] by auto
    have "make_operand_x a e = Inr (OGp (gpd p))" "GetPGPR a = Inr p" "make_gpr_op d = Inr (gpd q)"
      using kinds_phys [OF a] kinds_phys [OF d] by (simp_all add: make_operand_x_def make_gpr_op_def)
    then show ?thesis unfolding emits_plain_def InstSetcc using x by (simp add: Emit_setcc_def Let_def)
  next
    case (InstVMLoad sz sg d p)
    have t: "sz \<noteq> UNDEF" "wide d" "wide p" using c(1) InstVMLoad by (simp_all add: emit_ok_def)
    note al = al [unfolded InstVMLoad, simplified]
    obtain q where d: "view_of d = VPhys I32 q" using wide_reg [OF t(2)] al by (auto simp: allocated_unfold is_slot_def)
    obtain m where m: "make_vmem p e = Inr m" using vmem_static [OF vmem_operands(1) [OF al]] wideD [OF t(3)] by blast
    have "QCodegenVisitor r c e = Inr (put [Ins (load_id sz sg) (OGp (gpd q)) (setSize (vsz sz) m)] e)"
      using kinds_phys [OF d] m t(1) InstVMLoad by (cases sz) (simp_all add: Emit_vmload_def make_gpr_op_def load_id_def)
    then show ?thesis by (rule emits_plainI) simp
  next
    case (InstVMStore sz sg p v)
    have t: "sz \<noteq> UNDEF" "sg = VU" "wide p" "GetType v = sz" using c(1) InstVMStore by (simp_all add: emit_ok_def oshape_def)
    note al = al [unfolded InstVMStore, simplified]
    obtain m where m: "make_vmem p e = Inr m" using vmem_static [OF vmem_operands(2) [OF al]] wideD [OF t(3)] by blast
    obtain x where x: "make_operand_x v e = Inr x" using operand_static [of v e] vmem_operands(3) [OF al] t(1,4) by auto
    obtain n where "VTypeToSize sz = Inr n" using size_of_type [OF t(1)] by blast
    then have "QCodegenVisitor r c e = Inr (put [Ins kIdMov (setSize (unat n) m) x] e)" using m x t(2) InstVMStore by (simp add: Emit_vmstore_def)
    then show ?thesis by (rule emits_plainI) simp
  next
    case (InstHcall stub arg)
    then have a: "IsConst arg" "GetType arg = I32" "\<not> is_leaf e" using c(1) by (auto simp: emit_ok_def)
    obtain k where k: "view_of arg = VConst I32 k" using const_arg [OF a(1,2)] by blast
    then show ?thesis using a(3) InstHcall kinds_const [OF k] by (simp add: emits_plain_def Emit_hcall_def make_operand_x_def make_imm_def)
  qed (use c(2) in simp_all)
qed

end
