(* ===== verification/QEmit_Ends.thy ===== *)
theory QEmit_Ends
  imports QEmit_Insts
begin

text \<open>
  The instructions that end a block, as emitted: branches to other blocks, branch slots, and indirect branches with their inlined
  look-up and their slow path.
\<close>

section \<open>Frames\<close>

text \<open>Where the stack pointer may be: two words below the frame.\<close>

lemma stack_word:
  assumes "env_ok h" and "a = h_frame h - 16 \<or> a = h_frame h - 8"
  shows "xload h 8 a s = Some (unaligned_load (x_stack s) a)" and "xstore h 8 a v s = Some (s\<lparr>x_stack := unaligned_store (x_stack s) a v\<rparr>)"
proof -
  define k :: u64 where "k = (if a = h_frame h - 16 then 65520 else 65528)"
  have k: "a = h_frame h - stack_below + k" "unat k + 8 \<le> 1024 + 65536" using assms(2) by (auto simp: k_def stack_below_def)
  have "unat k < 1024 + 65536" using k(2) by simp
  note st = stack_area [OF assms(1) this k(2), folded k(1)]
  show "xload h 8 a s = Some (unaligned_load (x_stack s) a)" using st by (simp add: xload_def mem_load_def)
  show "xstore h 8 a v s = Some (s\<lparr>x_stack := unaligned_store (x_stack s) a v\<rparr>)" using st by (simp add: xstore_def mem_store_def)
qed

lemma reg_facts: "unat RCX < GPR_NUM" "unat RSP < GPR_NUM" "unat RAX < GPR_NUM" "unat RDX < GPR_NUM" "unat RDI < GPR_NUM" "unat RSI < GPR_NUM" "unat R13 < GPR_NUM"
  "RCX \<noteq> RSP" "RCX \<noteq> R13" "RSP \<noteq> R13" "RCX \<noteq> RDX" "RCX \<noteq> RDI" "RCX \<noteq> RAX" "RSP \<noteq> RDX" "RSP \<noteq> RDI" "RSP \<noteq> RAX" "RDX \<noteq> RDI" "RDX \<noteq> RSI" "RDI \<noteq> RSI"
  "RDX \<noteq> R13" "RDI \<noteq> R13" "RAX \<noteq> R13" "RSI \<noteq> RSP" "RCX \<noteq> RSI"
  by code_simp+

text \<open>Taking a word off the stack.\<close>

lemma pop_rcx:
  assumes "env_ok h" and "x_regs s RSP = h_frame h - 16"
  shows "\<exists>s'. xinst h (InsPop (gpq RCX)) s = ANext s' \<and> x_regs s' RSP = h_frame h - 8 \<and> (\<forall>p. p \<noteq> RSP \<and> p \<noteq> RCX \<longrightarrow> x_regs s' p = x_regs s p) \<and>
    x_rt s' = x_rt s \<and> x_mem s' = x_mem s \<and> x_flags s' = x_flags s"
  using assms(2) stack_word(1) [OF assms(1), of "h_frame h - 16" s] reg_facts by (auto simp: xwrite_def set_gp_def)

definition left_from :: "host_env \<Rightarrow> xstate \<Rightarrow> xstate \<Rightarrow> bool" where
  "left_from h s s' \<longleftrightarrow> x_regs s' RSP = h_frame h - 8 \<and> (\<forall>p. p \<noteq> RSP \<and> p \<noteq> RCX \<longrightarrow> x_regs s' p = x_regs s p) \<and> x_rt s' = x_rt s \<and> x_mem s' = x_mem s"

lemma FrameDestroy_ok:
  assumes "emitter_ok h e" and "xinv h (is_leaf e) s"
  shows "\<exists>s'. xlist h (FrameDestroy e) s = ANext s' \<and> left_from h s s'"
proof (cases "is_leaf e")
  case True
  then show ?thesis using assms(2) by (simp add: FrameDestroy_def left_from_def xinv_def sp_offs_def)
next
  case False
  then have "env_ok h" "x_regs s RSP = h_frame h - 16" using assms by (simp_all add: emitter_ok_def xinv_def sp_offs_def)
  from pop_rcx [OF this] show ?thesis using False by (auto simp: FrameDestroy_def left_from_def)
qed

lemma Prologue_run:
  assumes "env_ok h" and "x_regs s RSP = h_frame h - 8" and "x_regs s R13 = h_state h" and "tc_inv (rt_tc (x_rt s))"
  shows "\<exists>s'. xlist h (FrameSetup e) s = ANext s' \<and> xinv h (is_leaf e) s' \<and> x_rt s' = x_rt s \<and> x_mem s' = x_mem s"
proof (cases "is_leaf e")
  case True
  then show ?thesis using assms by (simp add: FrameSetup_def xinv_def sp_offs_def)
next
  case False
  have "h_frame h - 8 - 8 = h_frame h - 16" by simp
  then show ?thesis using False assms stack_word(2) [OF assms(1), of "h_frame h - 16"] reg_facts
    by (simp add: FrameSetup_def xread_def set_gp_def xinv_def sp_offs_def Let_def)
qed

section \<open>How a block ends\<close>

text \<open>Outside a region: as its code is entered and left.\<close>

definition outside :: "host_env \<Rightarrow> xstate \<Rightarrow> bool" where
  "outside h s \<longleftrightarrow> x_regs s RSP = h_frame h - 8 \<and> x_regs s R13 = h_state h \<and> tc_inv (rt_tc (x_rt s))"

text \<open>The code leaves for a guest address by a branch slot, or by a jump to what the table or the stub gives for it.\<close>

definition leaves :: "host_env \<Rightarrow> u32 \<Rightarrow> CPUState \<Rightarrow> vmem \<Rightarrow> xconf \<Rightarrow> bool" where
  "leaves h g c m x \<longleftrightarrow>
     (\<exists>s'. x = Left g s' \<and> rt_cpu (x_rt s') = c \<and> x_mem s' = m \<and> outside h s') \<or>
     (\<exists>v s' rt. x = Jumped v s' \<and> rt_cpu rt = c \<and> tc_inv (rt_tc rt) \<and> gbrind (h_tab h) g rt = Inr (v, x_rt s') \<and> x_mem s' = m \<and> outside h s')"

definition ends_as :: "host_env \<Rightarrow> bool \<Rightarrow> asm list \<Rightarrow> nat list \<Rightarrow> mstate qres \<Rightarrow> xconf \<Rightarrow> bool" where
  "ends_as h leaf code ss res x \<longleftrightarrow>
     (case res of
        QBr ms \<Rightarrow> \<exists>p s'. x = At p s' \<and> label_at code (ss ! 0) = Some p \<and> mview h s' = ms \<and> xinv h leaf s'
      | QBrcc b ms \<Rightarrow> \<exists>p s'. x = At p s' \<and> label_at code (ss ! (if b then 0 else 1)) = Some p \<and> mview h s' = ms \<and> xinv h leaf s'
      | QExit g ms \<Rightarrow> leaves h g (m_cpu ms) (m_mem ms) x
      | QRaise ms \<Rightarrow> \<exists>s'. x = Trapped s' \<and> rt_cpu (x_rt s') = m_cpu ms \<and> x_mem s' = m_mem ms
      | _ \<Rightarrow> False)"

text \<open>The blocks of the region have their labels in the code, and the next block follows.\<close>

definition block_labels :: "rview \<Rightarrow> asm list \<Rightarrow> QEmit \<Rightarrow> nat \<Rightarrow> bool" where
  "block_labels r code e k \<longleftrightarrow> n_labels e = length r \<and> (\<forall>l<length r. label_at code l \<noteq> None) \<and>
     (\<forall>s\<in>set (snd (r ! qe_bb e)). s < length r) \<and> (qe_bb e + 1 < length r \<longrightarrow> label_at code (qe_bb e + 1) = Some k)"

lemma jump_runs:
  assumes l: "block_labels r code e (length pre + length is)" and bb: "bb < length r" and j: "jump_unless_next bb e = Inr is" and code: "code = pre @ is @ post"
  shows "\<exists>p. label_at code bb = Some p \<and> xruns h code (At (length pre) s) (At p s)"
proof -
  obtain p where p: "label_at code bb = Some p" using l bb by (auto simp: block_labels_def)
  show ?thesis
  proof (cases "bb = qe_bb e + 1")
    case True
    then have "is = []" using j by (simp add: jump_unless_next_def)
    then show ?thesis using l bb True p xruns_refl by (auto simp: block_labels_def)
  next
    case False
    then have "is = [InsJmpLabel bb]" using j l bb by (auto simp: jump_unless_next_def block_label_def block_labels_def)
    then show ?thesis using run_list [OF code, of h s] p by (simp add: after_def)
  qed
qed

lemma succ_at_label: "block_labels r code e k \<Longrightarrow> n \<le> length (snd (r ! qe_bb e)) \<Longrightarrow> i < n \<Longrightarrow> snd (r ! qe_bb e) ! i < length r \<and> block_label (snd (r ! qe_bb e) ! i) e = Inr (snd (r ! qe_bb e) ! i)"
  by (auto simp: block_labels_def block_label_def)

lemma br_end:
  assumes e: "xinv h (is_leaf e) s" and em: "QCodegenVisitor r InstBr e = Inr e'" and l: "block_labels r (qe_code e' @ post) e (length (qe_code e'))"
    and n: "succs_used InstBr \<le> length (snd (r ! qe_bb e))"
  shows "\<exists>x. xruns h (qe_code e' @ post) (At (length (qe_code e)) s) x \<and> ends_as h (is_leaf e) (qe_code e' @ post) (snd (r ! qe_bb e)) (QBr (mview h s)) x"
proof -
  let ?b = "snd (r ! qe_bb e) ! 0"
  obtain "is" where i: "jump_unless_next ?b e = Inr is" "e' = put is e" using em n by (auto simp: Emit_br_def succ_of_def Let_def split: if_splits)
  have c: "qe_code e' @ post = qe_code e @ is @ post" "length (qe_code e') = length (qe_code e) + length is" using i(2) by (simp_all add: put_def)
  have b: "?b < length r" using succ_at_label [OF l n, of 0] by simp
  obtain p where "label_at (qe_code e' @ post) ?b = Some p" "xruns h (qe_code e' @ post) (At (length (qe_code e)) s) (At p s)"
    using jump_runs [OF l [unfolded c(2)] b i(1) c(1)] by blast
  then show ?thesis using e by (auto simp: ends_as_def)
qed

lemma brcc_end:
  assumes e: "emitter_ok h e" "xinv h (is_leaf e) s" and c: "emit_ok (is_leaf e) (InstBrcc cc a b)" and em: "QCodegenVisitor r (InstBrcc cc a b) e = Inr e'"
    and l: "block_labels r (qe_code e' @ post) e (length (qe_code e'))" and n: "succs_used (InstBrcc cc a b) \<le> length (snd (r ! qe_bb e))"
    and ns: "mexec_inst clob (InstBrcc cc a b) (mview h s) \<noteq> QStuck"
  shows "\<exists>x. xruns h (qe_code e' @ post) (At (length (qe_code e)) s) x \<and>
    ends_as h (is_leaf e) (qe_code e' @ post) (snd (r ! qe_bb e)) (mexec_inst clob (InstBrcc cc a b) (mview h s)) x"
proof -
  let ?ss = "snd (r ! qe_bb e)" and ?code = "qe_code e' @ post"
  obtain x y where x: "mread (mview h s) a = Some x" "mread (mview h s) b = Some y" "mexec_inst clob (InstBrcc cc a b) (mview h s) = QBrcc (eval_cc cc x y) (mview h s)"
    using ns by (auto simp: ostuck_def split: option.splits)
  have al: "allocated (InstBrcc cc a b)" and t: "wide a" "wide b" using c not_mov [of "InstBrcc cc a b"] by (simp_all add: emit_ok_def)
  obtain q where va: "view_of a = VPhys I32 q" using wide_reg [OF t(1)] compare_operands(1) al by blast
  have vb: "(\<exists>k. view_of b = VConst I32 k) \<or> (\<exists>q. view_of b = VPhys I32 q)" using compare_operands(2) [of cc _ a b] al wideD [OF t(2)] kinds_phys kinds_const by metis
  obtain src where cmp: "make_operand_x a e = Inr (OGp (gpd q))" "make_operand_x b e = Inr src" "xins h kIdCmp (OGp (gpd q)) src s = Some (s\<lparr>x_flags := Some (cmp_flags x y)\<rparr>)"
    using cmp_ok [OF va vb x(1,2)] by blast
  have s0: "?ss ! 0 < length r" "?ss ! 1 < length r" "block_label (?ss ! 0) e = Inr (?ss ! 0)" using succ_at_label [OF l n, of 0] succ_at_label [OF l n, of 1] by simp_all
  obtain "is" where i: "jump_unless_next (?ss ! 1) e = Inr is" "e' = put ([Ins kIdCmp (OGp (gpd q)) src, InsJcc (make_cc cc) (?ss ! 0)] @ is) e"
    using em n cmp(1,2) s0 kinds_phys [OF va] by (auto simp: Emit_brcc_def succ_of_def Let_def split: if_splits)
  let ?hd = "[Ins kIdCmp (OGp (gpd q)) src, InsJcc (make_cc cc) (?ss ! 0)]" and ?s = "s\<lparr>x_flags := Some (cmp_flags x y)\<rparr>"
  have cd: "?code = qe_code e @ ?hd @ (is @ post)" "?code = (qe_code e @ ?hd) @ is @ post" "length (qe_code e') = length (qe_code e @ ?hd) + length is" using i(2) by (simp_all add: put_def)
  have inv: "xinv h (is_leaf e) ?s" "mview h ?s = mview h s" using e(2) by (simp_all add: xinv_def)
  have run: "xruns h ?code (At (length (qe_code e)) s) (after ?code (length (qe_code e) + length ?hd) (xlist h ?hd s))" by (rule run_list [OF cd(1)])
  show ?thesis
  proof (cases "eval_cc cc x y")
    case True
    obtain p where "label_at ?code (?ss ! 0) = Some p" using l s0(1) by (auto simp: block_labels_def)
    then show ?thesis using run cmp(3) True inv x(3) by (auto simp: cc_flags after_def ends_as_def)
  next
    case False
    obtain p where p: "label_at ?code (?ss ! 1) = Some p" "xruns h ?code (At (length (qe_code e @ ?hd)) ?s) (At p ?s)"
      using jump_runs [OF l [unfolded cd(3)] s0(2) i(1) cd(2)] by blast
    have "xruns h ?code (At (length (qe_code e)) s) (At (length (qe_code e @ ?hd)) ?s)" using run cmp(3) False by (simp add: cc_flags after_def)
    from xruns_trans [OF this p(2)] show ?thesis using p(1) inv x(3) False by (intro exI [of _ "At p ?s"]) (auto simp: ends_as_def)
  qed
qed

lemma left_outside:
  assumes "xinv h leaf s" and "left_from h s s'"
  shows "outside h s'"
  using assms reg_facts by (simp add: left_from_def outside_def xinv_def)

lemma gbr_end:
  assumes e: "emitter_ok h e" "xinv h (is_leaf e) s" and em: "QCodegenVisitor r (InstGBr t) e = Inr e'" and t: "GetType t = I32"
  shows "\<exists>x. xruns h (qe_code e' @ post) (At (length (qe_code e)) s) x \<and> ends_as h (is_leaf e) (qe_code e' @ post) ss (mexec_inst clob (InstGBr t) (mview h s)) x"
proof -
  obtain g where g: "GetConst t = Inr g" "e' = put (FrameDestroy e @ [InsSlot g (\<not> InSegment g (segment e))]) e" using em by (auto simp: Emit_gbr_x_def)
  let ?is = "FrameDestroy e @ [InsSlot g (\<not> InSegment g (segment e))]"
  have "qe_code e' @ post = qe_code e @ ?is @ post" using g(2) by (simp add: put_def)
  note run = run_list [OF this, of h s]
  obtain s' where s': "xlist h (FrameDestroy e) s = ANext s'" "left_from h s s'" using FrameDestroy_ok [OF e] by blast
  have "xruns h (qe_code e' @ post) (At (length (qe_code e)) s) (Left g s')" using run s'(1) by (simp add: after_def)
  moreover have "mread (mview h s) t = Some g" using g(1) t is_view(4,5) by (fastforce simp: mread_def)
  ultimately show ?thesis using s'(2) left_outside [OF e(2) s'(2)] by (auto simp: ends_as_def leaves_def left_from_def intro!: exI [of _ "Left g s'"])
qed

section \<open>Indirect branches\<close>

text \<open>The address of an entry of the table.\<close>

lemma entry_facts:
  shows "unat (ucast (brind_offs g) :: u64) \<le> 65520" and "(ucast (brind_offs g) :: u64) AND 15 = 0" and "((ucast (brind_offs g) :: u64) + 8) AND 15 = 8"
    and "(ucast (drop_bit 4 (ucast (brind_offs g) :: u64)) :: u32) = l1hash g" and "(ucast (drop_bit 4 ((ucast (brind_offs g) :: u64) + 8)) :: u32) = l1hash g"
proof -
  let ?o = "ucast (brind_offs g) :: u64"
  have h: "unat (l1hash g) < 4096" by (rule l1hash_range)
  have "unat (brind_offs g) = 16 * unat (l1hash g)" unfolding brind_offs_hash(1) using h by (simp add: push_bit_eq_mult unat_word_ariths)
  then have u: "unat ?o = 16 * unat (l1hash g)" by (simp add: unat_up32)
  then have u8: "unat (?o + 8) = 16 * unat (l1hash g) + 8" using h by (simp add: unat_word_ariths)
  have m: "unat (x AND 15) = unat x mod 16" for x :: u64
  proof -
    have "(15 :: u64) = mask 4" by (simp add: mask_eq_exp_minus_1)
    then have "x AND 15 = take_bit 4 x" by (simp only: take_bit_eq_mask)
    then have "unat (x AND 15) = take_bit 4 (unat x)" by (simp only: unsigned_take_bit_eq)
    then show ?thesis by (simp add: take_bit_eq_mod)
  qed
  have d: "ucast (drop_bit 4 x) = l1hash g" if "unat x div 16 = unat (l1hash g)" for x :: u64
  proof -
    have "unat (drop_bit 4 x) = unat x div 16" unfolding unsigned_drop_bit_eq take_bit_nat_eq_self [OF unsigned_less] by (simp add: drop_bit_eq_div)
    then have "unat (ucast (drop_bit 4 x) :: u32) = unat (l1hash g)"
      using that take_bit_nat_eq_self [OF unsigned_less [of "l1hash g"]] unfolding unsigned_ucast_eq by simp
    then show ?thesis by (simp add: word_unat_eq_iff)
  qed
  show "unat ?o \<le> 65520" using u h by simp
  show "?o AND 15 = 0" "(?o + 8) AND 15 = 8" using m [of ?o] m [of "?o + 8"] u u8 by (simp_all add: word_unat_eq_iff)
  show "ucast (drop_bit 4 ?o) = l1hash g" "ucast (drop_bit 4 (?o + 8)) = l1hash g" using d [of ?o] d [of "?o + 8"] u u8 by simp_all
qed

lemma l1_area:
  assumes "env_ok h" and "unat (off :: u64) < 65536"
  shows "xload h n (h_l1 h + off) s = l1_load n off s"
proof -
  have i: "in_l1 h (h_l1 h + off)" using assms(2) by (simp add: in_l1_def sizeof_L1BrindCache_def word_less_nat_alt)
  then show ?thesis using env_okD(3) [OF assms(1) i] by (simp add: xload_def)
qed

lemma l1_base_read:
  assumes "emitter_ok h e" and "x_regs s R13 = h_state h"
  shows "xread h 8 (l1_base e) s = Some (h_l1 h)"
proof (cases "jit_mode e")
  case True
  then show ?thesis using assms(1) by (simp add: l1_base_def xread_def emitter_ok_def)
next
  case False
  have "in_state h (h_state h + 136)" by (simp add: in_state_def sizeof_CPUState_def)
  then show ?thesis using False assms(2)
    by (simp add: l1_base_def xread_def base_mem_def mem_ea_def R_STATE_def offsetof_l1_brind_cache_def xload_def state_load_def)
qed

text \<open>The look-up: the entry's guest address is compared with the target.\<close>

definition brind_lookup :: "QEmit \<Rightarrow> asm list" where
  "brind_lookup e =
     [Ins kIdMov (OGp (gpq RDX)) (l1_base e),
      Ins kIdLea (OGp (gpd RDI)) (OMem \<lparr>mem_base = None, mem_index = Some (gpq RSI, 2), mem_offs = 0, mem_size = 0\<rparr>),
      Ins kIdAnd (OGp (gpd RDI)) (OImm (push_bit 4 (push_bit L1_CACHE_BITS 1 - 1))),
      Ins kIdCmp (l1_entry 0 4) (OGp (gpd RSI))]"

lemma fast_eq: "gbrind_fast RSI slow e = brind_lookup e @ InsJcc kNotEqual slow # FrameDestroy e @ [InsJmp (l1_entry 8 8)]"
  by (simp add: gbrind_fast_def brind_lookup_def)

lemma lookup_run:
  assumes e: "emitter_ok h e" "x_regs s R13 = h_state h" and g: "ucast (x_regs s RSI) = g" and en: "en = l1_brind_cache (rt_tc (x_rt s)) (l1hash g)"
  shows "\<exists>s'. xlist h (brind_lookup e) s = ANext s' \<and> x_flags s' = Some (cmp_flags (fst en) g) \<and>
    x_regs s' RDX = h_l1 h \<and> x_regs s' RDI = ucast (brind_offs g) \<and> (\<forall>p. p \<noteq> RDX \<and> p \<noteq> RDI \<longrightarrow> x_regs s' p = x_regs s p) \<and>
    x_rt s' = x_rt s \<and> x_mem s' = x_mem s"
proof -
  have h: "env_ok h" using e(1) by (simp add: emitter_ok_def)
  have lea: "(ucast (push_bit 2 (x_regs s RSI) AND 0xffffffff) :: u32) = push_bit 2 g" unfolding g [symmetric] low_half by (rule bit_word_eqI) (auto simp: bit_simps)
  have o: "ucast (push_bit 2 g AND ucast (push_bit 4 (push_bit L1_CACHE_BITS 1 - 1 :: u64))) AND (0xffffffff :: u64) = ucast (brind_offs g)"
    by (simp add: low_half brind_offs_def)
  let ?s1 = "set_gp RDX (h_l1 h) s"
  let ?s2 = "set_gp RDI (push_bit 2 (x_regs s RSI) AND 0xffffffff) ?s1"
  let ?s3 = "(set_gp RDI (ucast (brind_offs g)) ?s2)\<lparr>x_flags := None\<rparr>"
  have 1: "xins h kIdMov (OGp (gpq RDX)) (l1_base e) s = Some ?s1"
    using l1_base_read [OF e] reg_facts by (simp add: xins_def xwrite_def)
  have 2: "xins h kIdLea (OGp (gpd RDI)) (OMem \<lparr>mem_base = None, mem_index = Some (gpq RSI, 2), mem_offs = 0, mem_size = 0\<rparr>) ?s1 = Some ?s2"
    using reg_facts by (simp add: xins_def mem_ea_def xwrite_def set_gp_def)
  have 3: "xins h kIdAnd (OGp (gpd RDI)) (OImm (push_bit 4 (push_bit L1_CACHE_BITS 1 - 1))) ?s2 = Some ?s3"
    using reg_facts lea o by (simp add: xins_def xread_def xwrite_def set_gp_def)
  have ea: "mem_ea \<lparr>mem_base = Some (gpq RDX), mem_index = Some (gpq RDI, 0), mem_offs = 0, mem_size = 4\<rparr> ?s3 = Some (h_l1 h + ucast (brind_offs g))"
    using reg_facts by (simp add: mem_ea_def set_gp_def)
  have "xread h 4 (l1_entry 0 4) ?s3 = Some (ucast (fst en))"
    using ea l1_area [OF h, of "ucast (brind_offs g)" 4 ?s3] entry_facts(1,2,4) [of g] en by (simp add: xread_def l1_entry_def l1_load_def Let_def set_gp_def)
  then have 4: "xins h kIdCmp (l1_entry 0 4) (OGp (gpd RSI)) ?s3 = Some (?s3\<lparr>x_flags := Some (cmp_flags (fst en) g)\<rparr>)"
    using reg_facts g by (simp add: xins_def xread_gpd trunc_bits set_gp_def) (simp add: l1_entry_def)
  show ?thesis using 1 2 3 4 reg_facts by (simp add: brind_lookup_def set_gp_def)
qed

text \<open>On a hit the code jumps to the entry's code.\<close>

lemma fast_hit:
  assumes e: "emitter_ok h e" "xinv h (is_leaf e) s" and g: "ucast (x_regs s RSI) = g" and en: "en = l1_brind_cache (rt_tc (x_rt s)) (l1hash g)" "fst en = g"
  shows "\<exists>s'. xlist h (gbrind_fast RSI slow e) s = AJump (snd en) s' \<and> outside h s' \<and> x_rt s' = x_rt s \<and> x_mem s' = x_mem s"
proof -
  have r13: "x_regs s R13 = h_state h" using e(2) by (simp add: xinv_def)
  from lookup_run [OF e(1) r13 g en(1)] obtain s1 where s1: "xlist h (brind_lookup e) s = ANext s1" "x_flags s1 = Some (cmp_flags (fst en) g)"
    "x_regs s1 RDX = h_l1 h" "x_regs s1 RDI = ucast (brind_offs g)" "\<forall>p. p \<noteq> RDX \<and> p \<noteq> RDI \<longrightarrow> x_regs s1 p = x_regs s p" "x_rt s1 = x_rt s" "x_mem s1 = x_mem s"
    by blast
  have i1: "xinv h (is_leaf e) s1" using e(2) s1(5,6) reg_facts by (simp add: xinv_def)
  obtain s2 where s2: "xlist h (FrameDestroy e) s1 = ANext s2" "left_from h s1 s2" using FrameDestroy_ok [OF e(1) i1] by blast
  have h: "env_ok h" using e(1) by (simp add: emitter_ok_def)
  have l2: "x_regs s2 RDX = h_l1 h" "x_regs s2 RDI = ucast (brind_offs g)" "x_rt s2 = x_rt s" "x_mem s2 = x_mem s"
    using s2(2) s1(3,4,6,7) reg_facts by (auto simp: left_from_def)
  have a8: "unat ((ucast (brind_offs g) :: u64) + 8) < 65536" using entry_facts(1) [of g] by (simp add: unat_word_ariths)
  have "mem_ea \<lparr>mem_base = Some (gpq RDX), mem_index = Some (gpq RDI, 0), mem_offs = 8, mem_size = 8\<rparr> s2 = Some (h_l1 h + (ucast (brind_offs g) + 8))"
    using l2(1,2) by (simp add: mem_ea_def add.assoc)
  then have rd: "xread h 8 (l1_entry 8 8) s2 = Some (snd en)"
    using l1_area [OF h a8, of 8 s2] entry_facts(3,5) [of g] en(1) l2(3) by (simp add: xread_def l1_entry_def l1_load_def Let_def)
  have "xlist h (gbrind_fast RSI slow e) s = AJump (snd en) s2"
    unfolding fast_eq using s1(1,2) s2(1) rd en(2) by (simp add: cmp_flags_def)
  then show ?thesis using left_outside [OF i1 s2(2)] l2(3,4) by blast
qed

lemma fast_miss:
  assumes e: "emitter_ok h e" "xinv h (is_leaf e) s" and g: "ucast (x_regs s RSI) = g" and en: "en = l1_brind_cache (rt_tc (x_rt s)) (l1hash g)" "fst en \<noteq> g"
  shows "\<exists>s'. xlist h (gbrind_fast RSI slow e) s = AGoto slow s' \<and> xinv h (is_leaf e) s' \<and> ucast (x_regs s' RSI) = g \<and> x_rt s' = x_rt s \<and> x_mem s' = x_mem s"
proof -
  have r13: "x_regs s R13 = h_state h" using e(2) by (simp add: xinv_def)
  from lookup_run [OF e(1) r13 g en(1)] obtain s1 where s1: "xlist h (brind_lookup e) s = ANext s1" "x_flags s1 = Some (cmp_flags (fst en) g)"
    "\<forall>p. p \<noteq> RDX \<and> p \<noteq> RDI \<longrightarrow> x_regs s1 p = x_regs s p" "x_rt s1 = x_rt s" "x_mem s1 = x_mem s"
    by blast
  have "xlist h (gbrind_fast RSI slow e) s = AGoto slow s1"
    unfolding fast_eq using s1(1,2) en(2) by (simp add: cmp_flags_def)
  then show ?thesis using s1(3-5) e(2) g reg_facts by (simp add: xinv_def)
qed

text \<open>On a miss the stub is called, on an aligned stack, and the code jumps to what it returns.\<close>

lemma brind_call:
  assumes h: "env_ok h" and s: "x_regs s RSP = h_frame h - 16" "x_regs s RDI = h_state h" "ucast (x_regs s RSI) = g"
    and b: "qcgstub_brind (h_tab h) g (x_rt s) = Inr (v, rt)"
  shows "xcall h (h_tab h id_brind) s = ANext (set_gp RAX v (xcall_ret h (s\<lparr>x_rt := rt\<rparr>)))"
  using frame_aligned [OF h] stub_found [OF env_okD(7) [OF h], of id_brind] s b by (simp add: xcall_def Let_def)

lemma slow_run:
  assumes e: "emitter_ok h e" "xinv h (is_leaf e) s" and g: "ucast (x_regs s RSI) = g" and b: "qcgstub_brind (h_tab h) g (x_rt s) = Inr (v, rt)" "tc_inv (rt_tc rt)"
  shows "\<exists>s'. xlist h (gbrind_slow slow e) s = AJump v s' \<and> outside h s' \<and> x_rt s' = rt \<and> x_mem s' = x_mem s"
proof -
  have h: "env_ok h" using e(1) by (simp add: emitter_ok_def)
  have r13: "x_regs s R13 = h_state h" using e(2) by (simp add: xinv_def)
  let ?s1 = "set_gp RDI (h_state h) s"
  have mv: "xinst h (Ins kIdMov (OGp (gpq RDI)) (OGp R_STATE)) s = ANext ?s1" using r13 reg_facts by (simp add: xins_def xread_def xwrite_def R_STATE_def)
  have "h_frame h - 8 - 8 = h_frame h - 16" by simp
  then have "\<exists>s2. xlist h (if is_leaf e then [InsPush (gpq RCX)] else []) ?s1 = ANext s2 \<and> x_regs s2 RSP = h_frame h - 16 \<and>
      (\<forall>p. p \<noteq> RSP \<longrightarrow> x_regs s2 p = x_regs ?s1 p) \<and> x_rt s2 = x_rt s \<and> x_mem s2 = x_mem s"
    using e(2) stack_word(2) [OF h, of "h_frame h - 16"] reg_facts by (simp add: xinv_def sp_offs_def xread_def set_gp_def Let_def)
  then obtain s2 where s2: "xlist h (if is_leaf e then [InsPush (gpq RCX)] else []) ?s1 = ANext s2" "x_regs s2 RSP = h_frame h - 16"
      "\<forall>p. p \<noteq> RSP \<longrightarrow> x_regs s2 p = x_regs ?s1 p" "x_rt s2 = x_rt s" "x_mem s2 = x_mem s" by blast
  have r2: "x_regs s2 RDI = h_state h" "x_regs s2 R13 = h_state h" "ucast (x_regs s2 RSI) = g" using s2(3) r13 g reg_facts by (simp_all add: set_gp_def)
  let ?s3 = "set_gp RAX v (xcall_ret h (s2\<lparr>x_rt := rt\<rparr>))"
  have cl: "xinst h (InsCall (make_stubcall_target id_brind e)) s2 = ANext ?s3"
    using call_target [OF e(1) r2(2), of id_brind] brind_call [OF h s2(2) r2(1,3)] b(1) s2(4) by simp
  have "\<not> mask_Test GPR_CALL_CLOBBER RSP" "\<not> mask_Test GPR_CALL_CLOBBER R13" by code_simp+
  then have r3: "x_regs ?s3 RSP = h_frame h - 16" "x_regs ?s3 R13 = h_state h" "x_regs ?s3 RAX = v" "x_rt ?s3 = rt" "x_mem ?s3 = x_mem s"
    using s2 r2(2) reg_facts by (simp_all add: set_gp_def xcall_ret_def Let_def)
  obtain s4 where s4: "xinst h (InsPop (gpq RCX)) ?s3 = ANext s4" "x_regs s4 RSP = h_frame h - 8" "\<forall>p. p \<noteq> RSP \<and> p \<noteq> RCX \<longrightarrow> x_regs s4 p = x_regs ?s3 p"
      "x_rt s4 = x_rt ?s3" "x_mem s4 = x_mem ?s3" using pop_rcx [OF h r3(1)] by blast
  have jm: "xinst h (InsJmp (OGp (gpq RAX))) s4 = AJump v s4" using s4(3) r3(3) reg_facts by (simp add: xread_def)
  have pop: "(if is_leaf e then [InsPop (gpq RCX)] else FrameDestroy e) = [InsPop (gpq RCX)]" by (simp add: FrameDestroy_def)
  have "xlist h (gbrind_slow slow e) s = AJump v s4"
    unfolding gbrind_slow_def pop using mv s2(1) cl s4(1) jm by (simp del: xinst.simps(1,5,6,8))
  then show ?thesis using s4 r3 b(2) reg_facts by (auto simp: outside_def)
qed

lemma gbrind_operand:
  assumes "emit_ok leaf (InstGBrind t)"
  shows "view_of t = VPhys I32 RSI"
proof -
  have w: "wide t" and al: "allocated (InstGBrind t)" using assms not_mov [of "InstGBrind t"] by (simp_all add: emit_ok_def)
  obtain ty p where p: "view_of t = VPhys ty p" "unat p < 16" "mask_Test 0x40 p" using al by (auto simp: allocated_unfold)
  then have "p = RSI" "ty = I32" using fixed_choice(2) wideD [OF w] kinds_phys [OF p(1)] by simp_all
  then show ?thesis using p(1) by simp
qed

lemma gbrind_emits:
  assumes "emit_ok leaf (InstGBrind t)"
  shows "QCodegenVisitor r (InstGBrind t) e =
    Inr (put (gbrind_fast RSI (next_label e) e @ gbrind_slow (next_label e) e) (e\<lparr>next_label := Suc (next_label e)\<rparr>))"
proof -
  have "gbrind_fast RSI l (e\<lparr>next_label := n\<rparr>) = gbrind_fast RSI l e" "gbrind_slow l (e\<lparr>next_label := n\<rparr>) = gbrind_slow l e" for l n
    by (simp_all add: gbrind_fast_def gbrind_slow_def l1_base_def FrameDestroy_def make_stubcall_target_def)
  then show ?thesis using kinds_phys [OF gbrind_operand [OF assms]] by (simp add: Emit_gbrind_def make_gpr_op_def newLabel_def)
qed

lemma gbrind_end:
  assumes e: "emitter_ok h e" "xinv h (is_leaf e) s" and c: "emit_ok (is_leaf e) (InstGBrind t)" and em: "QCodegenVisitor r (InstGBrind t) e = Inr e'"
    and l: "\<forall>l. InsBind l \<in> set (qe_code e) \<longrightarrow> l < next_label e"
  shows "\<exists>x. xruns h (qe_code e' @ post) (At (length (qe_code e)) s) x \<and> ends_as h (is_leaf e) (qe_code e' @ post) ss (mexec_inst clob (InstGBrind t) (mview h s)) x"
proof -
  define g :: u32 where "g = ucast (x_regs s RSI)"
  let ?l = "next_label e" and ?code = "qe_code e' @ post" and ?en = "l1_brind_cache (rt_tc (x_rt s)) (l1hash g)" and ?ms = "mview h s"
  let ?F = "gbrind_fast RSI ?l e" and ?S = "gbrind_slow ?l e"
  have tc: "tc_inv (rt_tc (x_rt s))" using e(2) by (simp add: xinv_def)
  have m: "mexec_inst clob (InstGBrind t) ?ms = QExit g ?ms" using gbrind_operand [OF c] reg_facts by (simp add: mread_def g_def)
  have cd: "?code = qe_code e @ ?F @ (?S @ post)" "?code = (qe_code e @ ?F) @ ?S @ post" using em gbrind_emits [OF c, of r e] by (auto simp: put_def)
  show ?thesis
  proof (cases "fst ?en = g")
    case True
    obtain s' where s': "xlist h ?F s = AJump (snd ?en) s'" "outside h s'" "x_rt s' = x_rt s" "x_mem s' = x_mem s"
      using fast_hit [OF e g_def [symmetric] refl True] by blast
    have "xruns h ?code (At (length (qe_code e)) s) (Jumped (snd ?en) s')" using run_list [OF cd(1), of h s] s'(1) by (simp add: after_def)
    moreover have "gbrind (h_tab h) g (x_rt s) = Inr (snd ?en, x_rt s')" using True s'(3) by (simp add: gbrind_def brind_offs_hash(2) Let_def)
    ultimately show ?thesis using m s' tc by (intro exI [of _ "Jumped (snd ?en) s'"]) (auto simp: ends_as_def leaves_def)
  next
    case False
    obtain s1 where s1: "xlist h ?F s = AGoto ?l s1" "xinv h (is_leaf e) s1" "ucast (x_regs s1 RSI) = g" "x_rt s1 = x_rt s" "x_mem s1 = x_mem s"
      using fast_miss [OF e g_def [symmetric] refl False] by blast
    obtain v rt where b: "qcgstub_brind (h_tab h) g (x_rt s1) = Inr (v, rt)" "tc_inv (rt_tc rt)" using brind_stub_ok [of "x_rt s1" "h_tab h" g] tc s1(4) by auto
    obtain s' where s': "xlist h ?S s1 = AJump v s'" "outside h s'" "x_rt s' = rt" "x_mem s' = x_mem s1" using slow_run [OF e(1) s1(2,3) b] by blast
    have "InsBind ?l \<notin> set ?F" by (auto simp: fast_eq brind_lookup_def FrameDestroy_def)
    moreover have "InsBind ?l \<notin> set (qe_code e)" using l by auto
    moreover have "?code = (qe_code e @ ?F) @ InsBind ?l # (tl ?S @ post)" using cd(2) by (simp add: gbrind_slow_def)
    ultimately have lab: "label_at ?code ?l = Some (length (qe_code e @ ?F))" by (intro label_at_first) auto
    have "xruns h ?code (At (length (qe_code e)) s) (At (length (qe_code e @ ?F)) s1)" using run_list [OF cd(1), of h s] s1(1) lab by (simp add: after_def)
    moreover have "xruns h ?code (At (length (qe_code e @ ?F)) s1) (Jumped v s')" using run_list [OF cd(2), of h s1] s'(1) by (simp add: after_def)
    ultimately have "xruns h ?code (At (length (qe_code e)) s) (Jumped v s')" by (rule xruns_trans)
    moreover have "gbrind (h_tab h) g (x_rt s) = Inr (v, x_rt s')" using False s'(3) b(1) s1(4) by (simp add: gbrind_def brind_offs_hash(2) Let_def)
    ultimately show ?thesis using m s' s1(5) tc by (intro exI [of _ "Jumped v s'"]) (auto simp: ends_as_def leaves_def)
  qed
qed

section \<open>Every instruction\<close>

definition succs_ok :: "rview \<Rightarrow> QEmit \<Rightarrow> bool" where
  "succs_ok r e \<longleftrightarrow> n_labels e = length r \<and> (\<forall>s\<in>set (snd (r ! qe_bb e)). s < length r)"

lemma jump_static: "succs_ok r e \<Longrightarrow> bb < length r \<Longrightarrow> \<exists>is. jump_unless_next bb e = Inr is \<and> (\<forall>l. InsBind l \<notin> set is)"
  by (auto simp: jump_unless_next_def block_label_def succs_ok_def)

lemma plain_adds: "emits_plain r e c \<Longrightarrow> \<exists>is e'. QCodegenVisitor r c e = Inr e' \<and> adds e is e'"
  unfolding emits_plain_def using adds_put by blast

lemma emit_total:
  assumes c: "emit_ok (is_leaf e) c" and r: "succs_ok r e" and n: "succs_used c \<le> length (snd (r ! qe_bb e))"
  shows "\<exists>is e'. QCodegenVisitor r c e = Inr e' \<and> adds e is e'"
proof (cases "ends c")
  case False
  then show ?thesis using straight_emits [OF c] plain_adds by blast
next
  case True
  let ?ss = "snd (r ! qe_bb e)"
  have lt: "?ss ! i < length r" if "i < length ?ss" for i using r that by (auto simp: succs_ok_def)
  show ?thesis
  proof (cases c)
    case InstBr
    then have "0 < length ?ss" using n by auto
    then obtain "is" where "jump_unless_next (?ss ! 0) e = Inr is" "\<forall>l. InsBind l \<notin> set is" using jump_static [OF r lt] by blast
    then have "emits_plain r e c" using InstBr \<open>0 < length ?ss\<close> by (simp add: emits_plain_def Emit_br_def succ_of_def Let_def)
    then show ?thesis by (rule plain_adds)
  next
    case (InstBrcc cc a b)
    have al: "allocated (InstBrcc cc a b)" and t: "wide a" "wide b" using c not_mov [of "InstBrcc cc a b"] InstBrcc by (simp_all add: emit_ok_def)
    obtain q where va: "view_of a = VPhys I32 q" using wide_reg [OF t(1)] compare_operands(1) al by blast
    obtain y where y: "make_operand_x b e = Inr y" using operand_static [of b e] compare_operands(2) [of cc _ a b] al wideD [OF t(2)] by auto
    have l: "0 < length ?ss" "1 < length ?ss" using n InstBrcc by auto
    obtain "is" where i: "jump_unless_next (?ss ! 1) e = Inr is" "\<forall>l. InsBind l \<notin> set is" using jump_static [OF r lt [OF l(2)]] by blast
    have "block_label (?ss ! 0) e = Inr (?ss ! 0)" using lt [OF l(1)] r by (simp add: block_label_def succs_ok_def)
    then have "emits_plain r e c" using InstBrcc l i y kinds_phys [OF va]
      by (simp add: emits_plain_def Emit_brcc_def succ_of_def Let_def make_operand_x_def [of a] make_gpr_op_def)
    then show ?thesis by (rule plain_adds)
  next
    case (InstGBr t)
    then obtain k where "GetConst t = Inr k" using c is_view(2,4) by (fastforce simp: emit_ok_def)
    then have "emits_plain r e c" using InstGBr by (simp add: emits_plain_def Emit_gbr_x_def FrameDestroy_def)
    then show ?thesis by (rule plain_adds)
  next
    case (InstGBrind t)
    let ?is = "gbrind_fast RSI (next_label e) e @ gbrind_slow (next_label e) e" and ?e = "e\<lparr>next_label := Suc (next_label e)\<rparr>"
    have "l = next_label e" if "InsBind l \<in> set ?is" for l using that by (auto simp: fast_eq brind_lookup_def FrameDestroy_def gbrind_slow_def split: if_splits)
    moreover have "bound_labels ?is = [next_label e]" by (simp add: gbrind_fast_def gbrind_slow_def FrameDestroy_def)
    ultimately have "adds e ?is (put ?is ?e)" by (auto simp: adds_def put_def emit_cfg_def)
    then show ?thesis using gbrind_emits [of "is_leaf e" t r e] c InstGBrind by blast
  qed (use True in simp_all)
qed

lemma end_runs:
  assumes e: "emitter_ok h e" "xinv h (is_leaf e) s" and c: "emit_ok (is_leaf e) c" "ends c" and em: "QCodegenVisitor r c e = Inr e'"
    and l: "block_labels r (qe_code e' @ post) e (length (qe_code e'))" "\<forall>l. InsBind l \<in> set (qe_code e) \<longrightarrow> l < next_label e"
    and n: "succs_used c \<le> length (snd (r ! qe_bb e))" and ns: "mexec_inst clob c (mview h s) \<noteq> QStuck"
  shows "\<exists>x. xruns h (qe_code e' @ post) (At (length (qe_code e)) s) x \<and> ends_as h (is_leaf e) (qe_code e' @ post) (snd (r ! qe_bb e)) (mexec_inst clob c (mview h s)) x"
proof (cases c)
  case InstBr
  then show ?thesis using br_end [OF e(2) _ l(1)] em n by simp
next
  case (InstBrcc cc a b)
  then show ?thesis using brcc_end [OF e _ _ l(1)] c(1) em n ns by simp
next
  case (InstGBr t)
  then show ?thesis using gbr_end [OF e] c(1) em by (simp add: emit_ok_def)
next
  case (InstGBrind t)
  then show ?thesis using gbrind_end [OF e _ _ l(2)] c(1) em by simp
qed (use c(2) in simp_all)

end
