(* ===== verification/QEmit_Region.thy ===== *)
theory QEmit_Region
  imports QEmit_Ends
begin

text \<open>
  The code of a block, and how the blocks of a region lie in the emitted code: each behind its label, one after the other. Running
  the code from a block's label does what the block does.
\<close>

section \<open>Blocks\<close>

lemma emitter_ok_cfg: "emit_cfg e' = emit_cfg e \<Longrightarrow> emitter_ok h e' = emitter_ok h e"
  using cfg_fields [of e' e] by (simp add: emitter_ok_def)

lemma succs_ok_cfg: "emit_cfg e' = emit_cfg e \<Longrightarrow> succs_ok r e' = succs_ok r e"
  using cfg_fields [of e' e] by (simp add: succs_ok_def)

lemma block_labels_cfg: "emit_cfg e' = emit_cfg e \<Longrightarrow> block_labels r code e' k = block_labels r code e k"
  using cfg_fields [of e' e] by (simp add: block_labels_def)

lemma insts_total:
  assumes "\<forall>c\<in>set cs. emit_ok (is_leaf e) c \<and> succs_used c \<le> length (snd (r ! qe_bb e))" and "succs_ok r e"
  shows "\<exists>is e'. emit_insts r cs e = Inr e' \<and> adds e is e'"
  using assms
proof (induction cs arbitrary: e)
  case Nil
  then show ?case using adds_refl by auto
next
  case (Cons c cs)
  obtain is1 e1 where a: "QCodegenVisitor r c e = Inr e1" "adds e is1 e1" using emit_total [of e c r] Cons.prems by auto
  then have g: "emit_cfg e1 = emit_cfg e" by (simp add: adds_def)
  obtain is2 e2 where b: "emit_insts r cs e1 = Inr e2" "adds e1 is2 e2" using Cons.IH [of e1] Cons.prems succs_ok_cfg [OF g] cfg_fields [OF g] by auto
  show ?case using a(1) b(1) adds_trans [OF a(2) b(2)] by auto
qed

lemma insts_run:
  assumes "emitter_ok h e" and "xinv h (is_leaf e) s" and "\<forall>c\<in>set cs. emit_ok (is_leaf e) c" and "typed_code leaf (length (snd (r ! qe_bb e))) cs"
    and "emit_insts r cs e = Inr e'" and "block_labels r (qe_code e' @ post) e (length (qe_code e'))" and "\<forall>l. InsBind l \<in> set (qe_code e) \<longrightarrow> l < next_label e"
    and "mexec_list (clob_of h) cs (mview h s) = res" and "res \<noteq> QStuck" and "\<forall>ms. res \<noteq> QNext ms"
  shows "\<exists>x. xruns h (qe_code e' @ post) (At (length (qe_code e)) s) x \<and> ends_as h (is_leaf e) (qe_code e' @ post) (snd (r ! qe_bb e)) res x"
  using assms
proof (induction cs arbitrary: e s)
  case (Cons c cs)
  have c: "emit_ok (is_leaf e) c" "succs_used c \<le> length (snd (r ! qe_bb e))" "ends c \<longrightarrow> cs = []" using Cons.prems(3,4) by simp_all
  have ns: "mexec_inst (clob_of h) c (mview h s) \<noteq> QStuck" using Cons.prems(8,9) by auto
  show ?case
  proof (cases "ends c")
    case True
    then have "QCodegenVisitor r c e = Inr e'" "mexec_inst (clob_of h) c (mview h s) = res" using c(3) Cons.prems(5,8) by (auto split: sum.splits qres.splits)
    then show ?thesis using end_runs [OF Cons.prems(1,2) c(1) True _ Cons.prems(6,7) c(2) ns] by simp
  next
    case False
    let ?m = "mexec_inst (clob_of h) c (mview h s)" and ?code = "qe_code e' @ post"
    obtain "is" where i: "QCodegenVisitor r c e = Inr (put is e)"
        "case ?m of QNext ms \<Rightarrow> \<exists>s'. xlist h is s = ANext s' \<and> mview h s' = ms \<and> keeps_env s s'
         | QRaise ms \<Rightarrow> \<exists>s'. xlist h is s = ARaise s' \<and> rt_cpu (x_rt s') = m_cpu ms \<and> x_mem s' = m_mem ms | _ \<Rightarrow> False"
      using straight_runs [OF Cons.prems(1,2) c(1) False ns, of r] unfolding runs_as_def by blast
    let ?e = "put is e"
    have g: "emit_cfg ?e = emit_cfg e" by (simp add: emit_cfg_def put_def)
    have e1: "emit_insts r cs ?e = Inr e'" using Cons.prems(5) i(1) by simp
    have nb: "\<forall>l. InsBind l \<notin> set is" using straight_emits [OF c(1) False, of r] i(1) by (auto simp: emits_plain_def)
    have ok: "\<forall>c\<in>set cs. emit_ok (is_leaf ?e) c \<and> succs_used c \<le> length (snd (r ! qe_bb ?e))"
    proof -
      have "succs_used c \<le> n" if "typed_code leaf n cs" "c \<in> set cs" for n c and cs using that by (induction cs) auto
      then show ?thesis using Cons.prems(3,4) cfg_fields [OF g] by auto
    qed
    have "succs_ok r e" using Cons.prems(6) by (simp add: block_labels_def succs_ok_def)
    then obtain is2 where a: "adds ?e is2 e'" using insts_total [OF ok] succs_ok_cfg [OF g] e1 by auto
    have cd: "?code = qe_code e @ is @ (is2 @ post)" using a by (simp add: adds_def put_def)
    note run = run_list [OF cd, of h s]
    show ?thesis
    proof (cases ?m)
      case (QNext ms)
      then obtain s1 where s1: "xlist h is s = ANext s1" "mview h s1 = ms" "keeps_env s s1" using i(2) by auto
      have r1: "xruns h ?code (At (length (qe_code e)) s) (At (length (qe_code ?e)) s1)" using run s1(1) by (simp add: after_def put_def)
      have "mexec_list (clob_of h) cs (mview h s1) = res" using Cons.prems(8) QNext s1(2) by simp
      moreover have "\<forall>l. InsBind l \<in> set (qe_code ?e) \<longrightarrow> l < next_label ?e" using Cons.prems(7) nb by (auto simp: put_def)
      ultimately have "\<exists>x. xruns h ?code (At (length (qe_code ?e)) s1) x \<and> ends_as h (is_leaf ?e) ?code (snd (r ! qe_bb ?e)) res x"
        using Cons.IH [of ?e s1] Cons.prems xinv_keeps [OF Cons.prems(2) s1(3)] emitter_ok_cfg [OF g] block_labels_cfg [OF g] cfg_fields [OF g] e1 by simp
      then show ?thesis using xruns_trans [OF r1] cfg_fields [OF g] by auto
    next
      case (QRaise ms)
      then obtain s1 where s1: "xlist h is s = ARaise s1" "rt_cpu (x_rt s1) = m_cpu ms" "x_mem s1 = m_mem ms" using i(2) by auto
      have "res = QRaise ms" using Cons.prems(8) QRaise by simp
      moreover have "xruns h ?code (At (length (qe_code e)) s) (Trapped s1)" using run s1(1) by (simp add: after_def)
      ultimately show ?thesis using s1(2,3) by (auto simp: ends_as_def)
    qed (use i(2) in simp_all)
  qed
qed auto

section \<open>The region\<close>

definition cfgb :: "QEmit \<Rightarrow> QEmit" where
  "cfgb e = (emit_cfg e)\<lparr>qe_bb := 0\<rparr>"

lemma cfgb_fields:
  assumes "cfgb e' = cfgb e"
  shows "emitter_ok h e' = emitter_ok h e" "is_leaf e' = is_leaf e" "n_labels e' = n_labels e"
  using assms by (cases e; cases e'; simp add: cfgb_def emit_cfg_def emitter_ok_def)+

lemma cfg_cfgb: "emit_cfg e' = emit_cfg e \<Longrightarrow> cfgb e' = cfgb e"
  by (simp add: cfgb_def)

text \<open>The labels bound so far: those of the blocks below \<open>k\<close>, and slow paths.\<close>

definition bound_below :: "nat \<Rightarrow> QEmit \<Rightarrow> bool" where
  "bound_below k e \<longleftrightarrow> k \<le> n_labels e \<and> distinct (bound_labels (qe_code e)) \<and> n_labels e \<le> next_label e \<and> (\<forall>l. InsBind l \<in> set (qe_code e) \<longrightarrow> l < k \<or> n_labels e \<le> l \<and> l < next_label e)"

lemma bound_adds: "bound_below k e \<Longrightarrow> adds e is e' \<Longrightarrow> bound_below k e'"
  using cfg_fields(8) [of e' e] by (fastforce simp: bound_below_def adds_def set_bound_labels)

text \<open>Where the code of a block is in the emitted code.\<close>

definition block_at :: "rview \<Rightarrow> QEmit \<Rightarrow> asm list \<Rightarrow> nat \<Rightarrow> QEmit \<Rightarrow> QEmit \<Rightarrow> asm list \<Rightarrow> bool" where
  "block_at r e code bb eb eb' post \<longleftrightarrow> cfgb eb = cfgb e \<and> qe_bb eb = bb \<and> emit_insts r (fst (r ! bb)) eb = Inr eb' \<and> code = qe_code eb' @ post \<and>
     (\<exists>pre. qe_code eb = pre @ [InsBind bb] \<and> InsBind bb \<notin> set pre) \<and> bound_below (Suc bb) eb' \<and>
     (\<forall>l. InsBind l \<in> set (qe_code eb) \<longrightarrow> l < next_label eb) \<and> (Suc bb < length r \<longrightarrow> (\<exists>post'. post = InsBind (Suc bb) # post'))"

definition region_ok :: "bool \<Rightarrow> rview \<Rightarrow> bool" where
  "region_ok leaf r \<longleftrightarrow> typed_region leaf r \<and> (\<forall>b\<in>set r. \<forall>c\<in>set (fst b). host_inst c)"

lemma typed_code_all: "typed_code leaf n cs \<Longrightarrow> \<forall>c\<in>set cs. host_inst c \<Longrightarrow> \<forall>c\<in>set cs. emit_ok leaf c \<and> succs_used c \<le> n"
  by (induction cs) (auto simp: emit_ok_def)

lemma region_okD:
  assumes "region_ok leaf r" and "bb < length r"
  shows "typed_code leaf (length (snd (r ! bb))) (fst (r ! bb))" "\<forall>c\<in>set (fst (r ! bb)). emit_ok leaf c \<and> succs_used c \<le> length (snd (r ! bb))"
    "\<forall>s\<in>set (snd (r ! bb)). s < length r"
  using assms typed_code_all nth_mem [OF assms(2)] unfolding region_ok_def typed_region_def by blast+

lemma blocks_layout:
  assumes "region_ok leaf r" and "is_leaf e = leaf" and "n_labels e = length r" and "bound_below k e" and "k \<le> length r" and "length r - k = d"
  shows "\<exists>e' tail. emit_blocks r [k..<length r] e = Inr e' \<and> qe_code e' = qe_code e @ tail \<and> (k < length r \<longrightarrow> (\<exists>t. tail = InsBind k # t)) \<and>
    (\<forall>bb. k \<le> bb \<and> bb < length r \<longrightarrow> (\<exists>eb eb' post. block_at r e (qe_code e') bb eb eb' post)) \<and> bound_below (length r) e'"
  using assms(2-)
proof (induction d arbitrary: k e)
  case 0
  then show ?case by auto
next
  case (Suc d)
  then have k: "k < length r" "[k..<length r] = k # [Suc k..<length r]" by (simp_all add: upt_conv_Cons)
  let ?e = "put [InsBind k] (e\<lparr>qe_bb := k\<rparr>)"
  have sb: "SetBlock k e = Inr ?e" using k(1) Suc.prems(2) by (simp add: SetBlock_def block_label_def)
  have f: "cfgb ?e = cfgb e" "qe_bb ?e = k" "is_leaf ?e = leaf" "n_labels ?e = length r" "qe_code ?e = qe_code e @ [InsBind k]" "next_label ?e = next_label e"
    using Suc.prems(1,2) by (simp_all add: cfgb_def emit_cfg_def put_def)
  note b = region_okD [OF assms(1) k(1)]
  have "succs_ok r ?e" using f b(3) by (simp add: succs_ok_def)
  then obtain is1 e1 where a: "emit_insts r (fst (r ! k)) ?e = Inr e1" "adds ?e is1 e1" using insts_total [of "fst (r ! k)" ?e r] b(2) f by auto
  have c1: "emit_cfg e1 = emit_cfg ?e" "qe_code e1 = qe_code e @ InsBind k # is1" using a(2) f(5) by (simp_all add: adds_def)
  have g1: "cfgb e1 = cfgb e" using cfg_cfgb [OF c1(1)] f(1) by simp
  have nk: "InsBind k \<notin> set (qe_code e)" using Suc.prems(2,3) k(1) by (auto simp: bound_below_def)
  have bb: "bound_below (Suc k) ?e" using Suc.prems(2,3) f k(1) nk by (auto simp: bound_below_def less_Suc_eq set_bound_labels)
  then have bb1: "bound_below (Suc k) e1" using bound_adds [OF _ a(2)] by blast
  have l1: "is_leaf e1 = leaf" "n_labels e1 = length r" using Suc.prems(1,2) cfgb_fields [OF g1] by simp_all
  obtain e' tail where r: "emit_blocks r [Suc k..<length r] e1 = Inr e'" "qe_code e' = qe_code e1 @ tail" "Suc k < length r \<longrightarrow> (\<exists>t. tail = InsBind (Suc k) # t)"
      "\<forall>bb. Suc k \<le> bb \<and> bb < length r \<longrightarrow> (\<exists>eb eb' post. block_at r e1 (qe_code e') bb eb eb' post)" "bound_below (length r) e'"
    using Suc.IH [OF l1 bb1] k(1) Suc.prems(5) by fastforce
  note nk
  moreover have "\<forall>l. InsBind l \<in> set (qe_code ?e) \<longrightarrow> l < next_label ?e" using bb f k(1) by (fastforce simp: bound_below_def)
  ultimately have "block_at r e (qe_code e') k ?e e1 tail" using f(1,2,5) a(1) r(2,3) bb1 by (simp add: block_at_def)
  moreover have "block_at r e1 code bb eb eb' post = block_at r e code bb eb eb' post" for code bb eb eb' post using g1 by (simp add: block_at_def)
  ultimately have "\<exists>eb eb' post. block_at r e (qe_code e') bb eb eb' post" if "k \<le> bb" "bb < length r" for bb
    using that r(4) by (cases "bb = k") (auto simp: Suc_le_eq le_neq_implies_less)
  then show ?case using sb a(1) r(1,2,5) c1(2) unfolding k(2) by simp
qed

definition laid_out :: "rview \<Rightarrow> QEmit \<Rightarrow> asm list \<Rightarrow> bool" where
  "laid_out r e code \<longleftrightarrow> (\<forall>bb<length r. \<exists>eb eb' post. block_at r e code bb eb eb' post)"

lemma block_label_at:
  assumes "region_ok (is_leaf e) r" and "n_labels e = length r" and "block_at r e code bb eb eb' post" and "bb < length r"
  shows "\<exists>p is. label_at code bb = Some p \<and> length (qe_code eb) = Suc p \<and> code ! p = InsBind bb \<and> p < length code \<and> adds eb is eb'"
    and "Suc bb < length r \<Longrightarrow> label_at code (Suc bb) = Some (length (qe_code eb'))"
proof -
  have b: "cfgb eb = cfgb e" "qe_bb eb = bb" "emit_insts r (fst (r ! bb)) eb = Inr eb'" "code = qe_code eb' @ post" "bound_below (Suc bb) eb'"
      "Suc bb < length r \<longrightarrow> (\<exists>post'. post = InsBind (Suc bb) # post')" using assms(3) by (simp_all add: block_at_def)
  obtain pre where pre: "qe_code eb = pre @ [InsBind bb]" "InsBind bb \<notin> set pre" using assms(3) by (auto simp: block_at_def)
  note d = region_okD [OF assms(1,4)] and f = cfgb_fields [OF b(1)]
  have "succs_ok r eb" using d(3) b(2) f(3) assms(2) by (simp add: succs_ok_def)
  then obtain "is" where a: "adds eb is eb'" using insts_total [of "fst (r ! bb)" eb r] d(2) b(2,3) f(2) by auto
  have code: "code = pre @ InsBind bb # is @ post" using b(4) a pre(1) by (simp add: adds_def)
  show "\<exists>p is. label_at code bb = Some p \<and> length (qe_code eb) = Suc p \<and> code ! p = InsBind bb \<and> p < length code \<and> adds eb is eb'"
    using label_at_first [OF code pre(2)] a pre(1) unfolding code by (intro exI [of _ "length pre"] exI [of _ "is"]) (simp add: nth_append)
  assume s: "Suc bb < length r"
  then obtain post' where post: "code = qe_code eb' @ InsBind (Suc bb) # post'" using b(4,6) by auto
  have "n_labels eb' = length r" using a f(3) assms(2) cfg_fields(8) [of eb' eb] by (simp add: adds_def)
  then have "InsBind (Suc bb) \<notin> set (qe_code eb')" using b(5) s by (auto simp: bound_below_def)
  then show "label_at code (Suc bb) = Some (length (qe_code eb'))" by (rule label_at_first [OF post])
qed

text \<open>How the code leaves a block.\<close>

definition block_ends :: "host_env \<Rightarrow> bool \<Rightarrow> asm list \<Rightarrow> mstate bres \<Rightarrow> xconf \<Rightarrow> bool" where
  "block_ends h leaf code res x \<longleftrightarrow>
     (case res of
        BGoto b ms \<Rightarrow> \<exists>p s'. x = At p s' \<and> label_at code b = Some p \<and> mview h s' = ms \<and> xinv h leaf s'
      | BExit g ms \<Rightarrow> leaves h g (m_cpu ms) (m_mem ms) x
      | BRaise ms \<Rightarrow> \<exists>s'. x = Trapped s' \<and> rt_cpu (x_rt s') = m_cpu ms \<and> x_mem s' = m_mem ms
      | BStuck \<Rightarrow> False)"

lemma region_block_runs:
  assumes r: "region_ok leaf r" and e: "emitter_ok h e" "is_leaf e = leaf" "n_labels e = length r" and lo: "laid_out r e code"
    and bb: "bb < length r" and s: "xinv h leaf s" "mexec_block (clob_of h) r bb (mview h s) \<noteq> BStuck"
  shows "\<exists>p x. label_at code bb = Some p \<and> xruns h code (At p s) x \<and> block_ends h leaf code (mexec_block (clob_of h) r bb (mview h s)) x"
proof -
  note r' = r [folded e(2)]
  obtain eb eb' post where b: "block_at r e code bb eb eb' post" using lo bb by (auto simp: laid_out_def)
  have f: "emitter_ok h eb" "is_leaf eb = leaf" "n_labels eb = length r" "qe_bb eb = bb" "code = qe_code eb' @ post" "emit_insts r (fst (r ! bb)) eb = Inr eb'"
      "\<forall>l. InsBind l \<in> set (qe_code eb) \<longrightarrow> l < next_label eb"
    using b cfgb_fields [of eb e] e by (auto simp: block_at_def)
  obtain p "is" where p: "label_at code bb = Some p" "length (qe_code eb) = Suc p" "code ! p = InsBind bb" "p < length code" "adds eb is eb'"
    using block_label_at(1) [OF r' e(3) b bb] by blast
  have "label_at code l \<noteq> None" if "l < length r" for l
    using lo that block_label_at(1) [OF r' e(3) _ that] unfolding laid_out_def by fastforce
  then have bl: "block_labels r code eb (length (qe_code eb'))"
    using f(3,4) region_okD(3) [OF r bb] block_label_at(2) [OF r' e(3) b bb] by (simp add: block_labels_def)
  have "xstep h code (At p s) = At (length (qe_code eb)) s" using p(2-4) by simp
  then have r1: "xruns h code (At p s) (At (length (qe_code eb)) s)" using xruns_step by metis
  let ?res = "mexec_list (clob_of h) (fst (r ! bb)) (mview h s)"
  have res: "?res \<noteq> QStuck" "\<forall>ms. ?res \<noteq> QNext ms" using s(2) bb by (auto simp: mexec_block_def)
  obtain x where x: "xruns h code (At (length (qe_code eb)) s) x" "ends_as h leaf code (snd (r ! bb)) ?res x"
    using insts_run [OF f(1) _ _ _ f(6) _ f(7) refl res, of leaf post] s(1) region_okD(1,2) [OF r bb] bl f(2,4,5) by auto
  have "block_ends h leaf code (mexec_block (clob_of h) r bb (mview h s)) x"
    using x(2) s(2) bb by (cases ?res) (auto simp: mexec_block_def ends_as_def block_ends_def succ_at_def split: if_splits)
  then show ?thesis using p(1) xruns_trans [OF r1 x(1)] by blast
qed

lemma Run_layout:
  assumes "region_ok leaf r" and "env_ok h" and "e0 = NewQEmit (length r) jit True seg (h_tab h) (h_l1 h) leaf" and "r \<noteq> []"
  shows "\<exists>e tail. QCodegen_Run r addr e0 = Inr e \<and> laid_out r e0 (qe_code e) \<and> emitter_ok h e0 \<and> n_labels e0 = length r \<and> is_leaf e0 = leaf \<and>
    qe_code e = FrameSetup e0 @ InsBind 0 # tail \<and> InsBind 0 \<notin> set (FrameSetup e0) \<and> distinct (bound_labels (qe_code e))"
proof -
  let ?e = "Prologue addr e0"
  have f: "emitter_ok h e0" "n_labels e0 = length r" "is_leaf e0 = leaf" "qe_code e0 = []" "n_labels e0 \<le> next_label e0" using assms(2,3) by (simp_all add: NewQEmit_def emitter_ok_def)
  have n: "InsBind l \<notin> set (FrameSetup e0)" for l by (simp add: FrameSetup_def)
  have g: "cfgb ?e = cfgb e0" "qe_code ?e = FrameSetup e0" "next_label ?e = next_label e0" using f(4) by (simp_all add: Prologue_def put_def cfgb_def emit_cfg_def)
  have b: "bound_below 0 ?e" using n g f(5) cfgb_fields [OF g(1)] by (simp add: bound_below_def bound_labels_none)
  have l: "is_leaf ?e = leaf" "n_labels ?e = length r" using cfgb_fields [OF g(1)] f(2,3) by simp_all
  obtain e tail where "emit_blocks r [0..<length r] ?e = Inr e \<and> qe_code e = qe_code ?e @ tail \<and> (0 < length r \<longrightarrow> (\<exists>t. tail = InsBind 0 # t)) \<and>
      (\<forall>bb. 0 \<le> bb \<and> bb < length r \<longrightarrow> (\<exists>eb eb' post. block_at r ?e (qe_code e) bb eb eb' post)) \<and> bound_below (length r) e"
    using blocks_layout [OF assms(1) l b le0 refl] by (elim exE) (rule that)
  moreover have "block_at r ?e code bb eb eb' post = block_at r e0 code bb eb eb' post" for code bb eb eb' post using g(1) by (simp add: block_at_def)
  ultimately show ?thesis using f n g(2) assms(4) by (auto simp: QCodegen_Run_def laid_out_def bound_below_def)
qed

end
