(* ===== verification/Emit_Correct.thy ===== *)
theory Emit_Correct
  imports Codegen_Correct QEmit_Region
begin

text \<open>
  The whole back end. C5: emission of a region is correct. C39: from guest code to what the assembler is asked for, all passes
  together, against the interpreter.
\<close>

section \<open>Emission of a region\<close>

text \<open>Entering the code of a region reaches its first block, with its frame set up.\<close>

definition enters :: "host_env \<Rightarrow> bool \<Rightarrow> asm list \<Rightarrow> bool" where
  "enters h leaf code \<longleftrightarrow>
     (\<exists>p. label_at code 0 = Some p \<and>
        (\<forall>s. outside h s \<longrightarrow> (\<exists>s'. xruns h code (At 0 s) (At p s') \<and> xinv h leaf s' \<and> x_rt s' = x_rt s \<and> x_mem s' = x_mem s)))"

text \<open>The code behind a block's label does what the block does.\<close>

definition runs_block :: "host_env \<Rightarrow> bool \<Rightarrow> asm list \<Rightarrow> rview \<Rightarrow> nat \<Rightarrow> bool" where
  "runs_block h leaf code r bb \<longleftrightarrow>
     (\<exists>p. label_at code bb = Some p \<and>
        (\<forall>s. xinv h leaf s \<and> mexec_block (clob_of h) r bb (mview h s) \<noteq> BStuck \<longrightarrow>
           (\<exists>x. xruns h code (At p s) x \<and> block_ends h leaf code (mexec_block (clob_of h) r bb (mview h s)) x)))"

lemma emission:
  assumes "env_ok h" and "region_ok leaf r" and "r \<noteq> []"
  shows "\<exists>e. QCodegen_Run r addr (NewQEmit (length r) jit True seg (h_tab h) (h_l1 h) leaf) = Inr e \<and>
    distinct (bound_labels (qe_code e)) \<and> enters h leaf (qe_code e) \<and> (\<forall>bb<length r. runs_block h leaf (qe_code e) r bb)"
proof -
  define e0 where "e0 = NewQEmit (length r) jit True seg (h_tab h) (h_l1 h) leaf"
  obtain e tail where e: "QCodegen_Run r addr e0 = Inr e" "laid_out r e0 (qe_code e)" "emitter_ok h e0" "n_labels e0 = length r" "is_leaf e0 = leaf"
      "qe_code e = FrameSetup e0 @ InsBind 0 # tail" "InsBind 0 \<notin> set (FrameSetup e0)" "distinct (bound_labels (qe_code e))"
    using Run_layout [OF assms(2,1) e0_def assms(3)] by blast
  have cd: "qe_code e = [] @ FrameSetup e0 @ (InsBind 0 # tail)" using e(6) by simp
  have "\<exists>s'. xruns h (qe_code e) (At 0 s) (At (length (FrameSetup e0)) s') \<and> xinv h leaf s' \<and> x_rt s' = x_rt s \<and> x_mem s' = x_mem s" if "outside h s" for s
  proof -
    obtain s' where s': "xlist h (FrameSetup e0) s = ANext s'" "xinv h (is_leaf e0) s'" "x_rt s' = x_rt s" "x_mem s' = x_mem s"
      using Prologue_run [OF assms(1)] \<open>outside h s\<close> unfolding outside_def by blast
    then show ?thesis using run_list [OF cd, of h s] e(5) by (auto simp: after_def)
  qed
  then have en: "enters h leaf (qe_code e)" unfolding enters_def using label_at_first [OF e(6,7)] by blast
  have "runs_block h leaf (qe_code e) r bb" if bb: "bb < length r" for bb
  proof -
    obtain eb eb' post where "block_at r e0 (qe_code e) bb eb eb' post" using e(2) bb by (auto simp: laid_out_def)
    then obtain p where p: "label_at (qe_code e) bb = Some p" using block_label_at(1) [of e0 r "qe_code e" bb eb eb' post] assms(2) e(4,5) bb by auto
    show ?thesis unfolding runs_block_def using region_block_runs [OF assms(2) e(3,5,4,2) bb] p by fastforce
  qed
  then show ?thesis using e(1,8) en unfolding e0_def by blast
qed

text \<open>C5. Emission is correct. For a region as register allocation leaves it, in a host process whose areas do not meet and with guest memory at host address 0, emission
  succeeds in both modes: no assertion fires, no operand has the wrong kind, no label or successor is missing, and labels are unique. Entering the
  code reaches the first block with the frame set up. From the label of a block, whatever the host registers and the stack
  hold, the emitted code does what the block does: it reaches the label of the successor the block branches to with the same
  CPU state, memory, spill frame and register values; or leaves for the same guest address, by a branch slot or by the jump to the
  code the table or the stub finds, with the stack pointer as on entry; or traps with the same CPU state and memory.\<close>

theorem emission_correct:
  assumes "env_ok h" and "region_ok leaf r" and "r \<noteq> []"
  shows "\<exists>e. QCodegen_Run r addr (NewQEmit (length r) jit True seg (h_tab h) (h_l1 h) leaf) = Inr e \<and>
    distinct (bound_labels (qe_code e)) \<and> enters h leaf (qe_code e) \<and> (\<forall>bb<length r. runs_block h leaf (qe_code e) r bb)"
  using emission [OF assms] .

section \<open>From guest code to the assembler\<close>

text \<open>The whole of \<^verbatim>\<open>GenerateCode\<close> up to the assembler's encoding.\<close>

definition GenerateCode :: "bool \<Rightarrow> bool \<Rightarrow> CodeSegment \<Rightarrow> stub_tab \<Rightarrow> u64 \<Rightarrow> rview \<Rightarrow> VRegsInfo \<Rightarrow> u32 \<Rightarrow> QEmit res option" where
  "GenerateCode jit zero_base seg tab l1 bs vi addr =
     dbind (GenerateCode_passes bs vi) (\<lambda>(bs, leaf).
       Some (QCodegen_Run bs addr (NewQEmit (length bs) jit zero_base seg tab l1 leaf)))"

text \<open>The guest as the state of the emitted code shows it.\<close>

definition xguest :: "xstate \<Rightarrow> qstate" where
  "xguest s = \<lparr>qcpu = rt_cpu (x_rt s), qmem = x_mem s, qloc = \<lambda>_. 0\<rparr>"

text \<open>Where the code of a range may lead: to the block of the next guest address in the same region, or out of the region for it.\<close>

definition leads_to :: "host_env \<Rightarrow> bool \<Rightarrow> asm list \<Rightarrow> (u32 \<rightharpoonup> nat) \<Rightarrow> hstate \<Rightarrow> xconf \<Rightarrow> bool" where
  "leads_to h leaf code m st x \<longleftrightarrow>
     (\<exists>b p s'. x = At p s' \<and> m (gip st) = Some b \<and> label_at code b = Some p \<and> xinv h leaf s' \<and> sim st (xguest s')) \<or>
     (\<exists>c mm. leaves h (gip st) c mm x \<and> sim st \<lparr>qcpu = c, qmem = mm, qloc = \<lambda>_. 0\<rparr>)"

definition emitted_code_of_range :: "host_env \<Rightarrow> bool \<Rightarrow> asm list \<Rightarrow> (u32 \<rightharpoonup> nat) \<Rightarrow> vmem \<Rightarrow> u32 \<Rightarrow> nat \<Rightarrow> bool" where
  "emitted_code_of_range h leaf code m vm a p \<longleftrightarrow>
     (\<forall>st s. x0_zero st \<and> xinv h leaf s \<and> sim st (xguest s) \<and> gip st = a \<and> path_ok vm TB_MAX_INSNS a st \<longrightarrow>
        (\<exists>k st' x. 0 < k \<and> k \<le> TB_MAX_INSNS \<and> interp_steps k st = Some st' \<and> xruns h code (At p s) x \<and> leads_to h leaf code m st' x) \<or>
        (\<exists>k st1 st' s'. k < TB_MAX_INSNS \<and> interp_steps k st = Some st1 \<and> interp_step st1 = Raised st' \<and>
           xruns h code (At p s) (Trapped s') \<and> same_cpu st' (xguest s')))"

lemma guest_view: "guest_of (mview h s) = xguest s"
  by (simp add: guest_of_def mview_def xguest_def)

lemma runs_blockD:
  assumes "runs_block h leaf code r bb" and "xinv h leaf s" and "mexec_block (clob_of h) r bb (mview h s) = res" and "res \<noteq> BStuck"
  shows "\<exists>p x. label_at code bb = Some p \<and> xruns h code (At p s) x \<and> block_ends h leaf code res x"
  using assms unfolding runs_block_def by blast

text \<open>What a block reaches on the host, directly or through the block behind it, its code leads to.\<close>

lemma reaches_leads:
  assumes blocks: "\<forall>bb<length r. runs_block h leaf code r bb" and bb: "bb < length r" and p: "label_at code bb = Some p" and s: "xinv h leaf s"
    and m: "host_reaches (clob_of h) r m (mexec_block (clob_of h) r bb (mview h s)) (gip st) ms" and st: "sim st (guest_of ms)"
  shows "\<exists>x. xruns h code (At p s) x \<and> leads_to h leaf code m st x"
proof -
  let ?res = "mexec_block (clob_of h) r bb (mview h s)"
  have out: "leads_to h leaf code m st x" if "block_ends h leaf code (BExit (gip st) ms) x" for x
    using that st unfolding block_ends_def leads_to_def guest_of_def by auto
  have run: "\<exists>x. xruns h code (At p s) x \<and> block_ends h leaf code ?res x" if "?res \<noteq> BStuck"
    using runs_blockD [of h leaf code r bb s ?res] blocks bb s p that by auto
  from m consider "?res = BExit (gip st) ms" | b where "?res = BGoto b ms" "m (gip st) = Some b"
    | b ms0 where "?res = BGoto b ms0" "mexec_block (clob_of h) r b ms0 = BExit (gip st) ms"
    unfolding host_reaches_def by blast
  then show ?thesis
  proof cases
    case 1
    then show ?thesis using run out by auto
  next
    case (2 b)
    then obtain x q s' where x: "xruns h code (At p s) x" "x = At q s'" "label_at code b = Some q" "mview h s' = ms" "xinv h leaf s'"
      using run by (auto simp: block_ends_def)
    have "sim st (xguest s')" using st guest_view [of h s'] x(4) by simp
    then have "leads_to h leaf code m st x" using x(2,3,5) 2(2) unfolding leads_to_def by blast
    then show ?thesis using x(1) by blast
  next
    case (3 b ms0)
    then obtain q s' where x: "xruns h code (At p s) (At q s')" "label_at code b = Some q" "mview h s' = ms0" "xinv h leaf s'"
      using run by (auto simp: block_ends_def)
    have "b < length r" using 3(2) by (auto simp: mexec_block_def split: if_splits)
    then have "runs_block h leaf code r b" using blocks by blast
    then obtain x' where "xruns h code (At q s') x'" "block_ends h leaf code (BExit (gip st) ms) x'"
      using runs_blockD [OF _ x(4), of code r b "BExit (gip st) ms"] 3(2) x(2,3) by auto
    then show ?thesis using xruns_trans [OF x(1)] out by blast
  qed
qed

lemma emitted_range:
  assumes "\<forall>bb<length r. runs_block h leaf code r bb" and "bb < length r" and "host_code_of_range r m vm a bb"
  shows "\<exists>p. label_at code bb = Some p \<and> emitted_code_of_range h leaf code m vm a p"
proof -
  obtain p where p: "label_at code bb = Some p" using assms(1,2) unfolding runs_block_def by blast
  have "(\<exists>k st' x. 0 < k \<and> k \<le> TB_MAX_INSNS \<and> interp_steps k st = Some st' \<and> xruns h code (At p s) x \<and> leads_to h leaf code m st' x) \<or>
        (\<exists>k st1 st' s'. k < TB_MAX_INSNS \<and> interp_steps k st = Some st1 \<and> interp_step st1 = Raised st' \<and>
           xruns h code (At p s) (Trapped s') \<and> same_cpu st' (xguest s'))"
    if i: "x0_zero st \<and> xinv h leaf s \<and> sim st (xguest s) \<and> gip st = a \<and> path_ok vm TB_MAX_INSNS a st" for st s
  proof -
    let ?res = "mexec_block (clob_of h) r bb (mview h s)"
    have x: "xinv h leaf s" using i by blast
    have "x0_zero st \<and> sim st (guest_of (mview h s)) \<and> gip st = a \<and> path_ok vm TB_MAX_INSNS a st" using i by (simp add: guest_view)
    then consider (run) k st' ms' where "0 < k" "k \<le> TB_MAX_INSNS" "interp_steps k st = Some st'" "host_reaches (clob_of h) r m ?res (gip st') ms'" "sim st' (guest_of ms')"
      | (trap) k st1 st' ms' where "k < TB_MAX_INSNS" "interp_steps k st = Some st1" "interp_step st1 = Raised st'" "?res = BRaise ms'" "same_cpu st' (guest_of ms')"
      using assms(3) unfolding host_code_of_range_def by blast
    then show ?thesis
    proof cases
      case run
      then show ?thesis using reaches_leads [OF assms(1,2) p x run(4,5)] by blast
    next
      case trap
      then obtain s' where s': "xruns h code (At p s) (Trapped s')" "rt_cpu (x_rt s') = m_cpu ms'" "x_mem s' = m_mem ms'"
        using runs_blockD [of h leaf code r bb s ?res] assms(1,2) x p by (auto simp: block_ends_def)
      then have "same_cpu st' (xguest s')" using trap(5) by (simp add: guest_of_def xguest_def)
      then show ?thesis using trap(1-3) s'(1) by blast
    qed
  qed
  then show ?thesis using p unfolding emitted_code_of_range_def by blast
qed

lemma emitted_code:
  assumes "env_ok h" and "ranges \<noteq> []" and "distinct (map fst ranges)" and "length ranges \<le> 63"
    and "\<forall>r\<in>set ranges. snd r \<noteq> 0 \<and> no_discarded vm TB_MAX_INSNS (fst r)" and "codegen_vregs d ranges vm \<le> 255"
  shows "\<exists>t v leaf e. Translate d (NewRegion state_info) ranges vm = Inr t \<and>
    GenerateCode_passes (tview t) (vregs_info (t_region t)) = Some (Inr (v, leaf)) \<and>
    GenerateCode jit True seg (h_tab h) (h_l1 h) (tview t) (vregs_info (t_region t)) (fst (hd ranges)) = Some (Inr e) \<and>
    ip2bb t (fst (hd ranges)) = Some 0 \<and> enters h leaf (qe_code e) \<and>
    (\<forall>r\<in>set ranges. \<exists>bb p. ip2bb t (fst r) = Some bb \<and> label_at (qe_code e) bb = Some p \<and>
       emitted_code_of_range h leaf (qe_code e) (ip2bb t) vm (fst r) p)"
proof -
  obtain t v leaf where g: "Translate d (NewRegion state_info) ranges vm = Inr t" "typed_tr t" "length v = length (tview t)"
      "GenerateCode_passes (tview t) (vregs_info (t_region t)) = Some (Inr (v, leaf))" "typed_region leaf v" "\<forall>b\<in>set v. \<forall>c\<in>set (fst b). host_inst c"
      "\<forall>r\<in>set ranges. \<exists>bb. ip2bb t (fst r) = Some bb \<and> host_code_of_range v (ip2bb t) vm (fst r) bb"
    using generated_code [OF assms(2-6)] by (elim exE conjE) (rule that)
  have f: "ip2bb t (fst (hd ranges)) = Some 0" using first_block [OF assms(2,3,5) g(1)] .
  have inside: "bb < length v" if "ip2bb t a = Some bb" for a bb
    using that g(2,3) by (simp add: typed_tr_def t_ok_def region_view_def)
  then have "v \<noteq> []" using f by fastforce
  moreover have "region_ok leaf v" using g(5,6) by (simp add: region_ok_def)
  ultimately obtain e where e: "QCodegen_Run v (fst (hd ranges)) (NewQEmit (length v) jit True seg (h_tab h) (h_l1 h) leaf) = Inr e"
      "enters h leaf (qe_code e)" "\<forall>bb<length v. runs_block h leaf (qe_code e) v bb"
    using emission [OF assms(1)] by blast
  have "\<exists>bb p. ip2bb t (fst r) = Some bb \<and> label_at (qe_code e) bb = Some p \<and> emitted_code_of_range h leaf (qe_code e) (ip2bb t) vm (fst r) p"
    if "r \<in> set ranges" for r
    using g(7) that inside emitted_range [OF e(3)] by blast
  moreover have "GenerateCode jit True seg (h_tab h) (h_l1 h) (tview t) (vregs_info (t_region t)) (fst (hd ranges)) = Some (Inr e)"
    using g(4) e(1) by (simp add: GenerateCode_def dbind_def)
  ultimately show ?thesis using g(1,4) f e(2)
    by (intro exI [of _ t] exI [of _ v] exI [of _ leaf] exI [of _ e] conjI ballI)
qed

text \<open>C39. From guest code to the assembler. A job of at most 63 ranges with distinct starts and non-zero
  ends, over guest code without discarded loads, whose region has at most 255 virtual registers once
  selection has added its temporaries, translates, passes selection, passes register allocation and is emitted, in both modes, with guest memory at host address 0 in a process
  whose areas do not meet: no
  assertion fires, no register runs out and no loop runs forever. Entering the emitted code reaches the block of the first range
  with the frame set up. From the block of a range, in a host state whose CPU state and memory are related to the
  interpreter's, whatever the other registers and the stack hold and whatever calls leave in the registers they may clobber, the emitted
  code reaches, for the state that between one and \<open>TB_MAX_INSNS\<close> interpreter steps give, the block of the same region for its program counter, or
  leaves the region for that address with the stack pointer as on entry; or it traps as the interpreter does. The run must not change the
  code it runs, and no branch may raise the alignment trap, which translated code does not.\<close>

theorem emitted_code_correct:
  assumes "env_ok h" and "ranges \<noteq> []" and "distinct (map fst ranges)" and "length ranges \<le> 63"
    and "\<forall>r\<in>set ranges. snd r \<noteq> 0 \<and> no_discarded vm TB_MAX_INSNS (fst r)" and "codegen_vregs d ranges vm \<le> 255"
  shows "\<exists>t v leaf e. Translate d (NewRegion state_info) ranges vm = Inr t \<and>
    GenerateCode_passes (tview t) (vregs_info (t_region t)) = Some (Inr (v, leaf)) \<and>
    GenerateCode jit True seg (h_tab h) (h_l1 h) (tview t) (vregs_info (t_region t)) (fst (hd ranges)) = Some (Inr e) \<and>
    ip2bb t (fst (hd ranges)) = Some 0 \<and> enters h leaf (qe_code e) \<and>
    (\<forall>r\<in>set ranges. \<exists>bb p. ip2bb t (fst r) = Some bb \<and> label_at (qe_code e) bb = Some p \<and>
       emitted_code_of_range h leaf (qe_code e) (ip2bb t) vm (fst r) p)"
  using emitted_code [OF assms] .

section \<open>Examples\<close>

text \<open>A process with its CPU state, table and stack above the 4 GB of guest memory.\<close>

definition example_env :: host_env where
  "example_env =
     \<lparr>h_state = 0x100000000, h_l1 = 0x200000000, h_frame = 0x300000000, h_tab = \<lambda>i. 0x400000000 + 16 * of_nat (stub_index i),
      h_clob = \<lambda>c m p. 0, h_junk = \<lambda>c m a. 0\<rparr>"

lemma areas_apart:
  assumes "unat (s2 - s1 :: u64) = d" and "m \<le> d" and "n + d \<le> 2 ^ 64"
  shows "\<not> (unat (a - s1) < m \<and> unat (a - s2) < n)"
proof
  assume a: "unat (a - s1) < m \<and> unat (a - s2) < n"
  have "unat (a - s1) = (unat (a - s2) + d) mod 2 ^ 64" using unat_word_ariths(1) [of "a - s2" "s2 - s1"] assms(1) by simp
  then have "unat (a - s1) = unat (a - s2) + d" using a assms(3) by simp
  then show False using a assms(2) by simp
qed

lemma example_env_ok: "env_ok example_env"
proof -
  have lt: "(x :: u64) < y \<longleftrightarrow> unat x < unat y" for x y by (rule word_less_nat_alt)
  have "\<not> (in_state example_env a \<and> in_l1 example_env a)" "\<not> (in_state example_env a \<and> in_stack example_env a)"
    "\<not> (in_l1 example_env a \<and> in_stack example_env a)" for a
    unfolding in_state_def in_l1_def in_stack_def lt
    by (rule areas_apart [OF refl]; simp add: example_env_def sizeof_CPUState_def sizeof_L1BrindCache_def stack_below_def stack_span_def)+
  moreover have "\<not> in_state example_env (ucast g)" "\<not> in_l1 example_env (ucast g)" "\<not> in_stack example_env (ucast g)" for g :: u32
  proof -
    have u: "unat (ucast g - 0 :: u64) < 2 ^ 32" using unsigned_less [of g, where 'a = nat] by (simp add: unsigned_ucast_eq take_bit_nat_eq_self)
    have "\<not> unat (ucast g - s :: u64) < n" if "unat (s - 0) = d" "2 ^ 32 \<le> d" "n + d \<le> 2 ^ 64" for s n d
      using areas_apart [OF that, of "ucast g"] u by blast
    note f = this
    show "\<not> in_state example_env (ucast g)" "\<not> in_l1 example_env (ucast g)" "\<not> in_stack example_env (ucast g)"
      unfolding in_state_def in_l1_def in_stack_def lt
      by (rule f [OF refl]; simp add: example_env_def sizeof_CPUState_def sizeof_L1BrindCache_def stack_below_def stack_span_def)+
  qed
  moreover have "inj (h_tab example_env)"
  proof (rule injI)
    fix i j assume "h_tab example_env i = h_tab example_env j"
    then have "unat (16 * of_nat (stub_index i) :: u64) = unat (16 * of_nat (stub_index j) :: u64)" by (simp add: example_env_def)
    moreover have "unat (16 * of_nat (stub_index k) :: u64) = 16 * stub_index k" for k by (cases k) simp_all
    ultimately show "i = j" using stub_index_inj [of i j] by simp
  qed
  moreover have "unat (h_frame example_env) mod 16 = 0" by (simp add: example_env_def)
  ultimately show ?thesis unfolding env_ok_def by blast
qed

text \<open>A region of three blocks: an addition, a comparison with a constant, and two exits.\<close>

definition example_region :: rview where
  "example_region =
     [([InstBinop q_add (MakePGPR I32 RAX) (MakePGPR I32 RAX) (MakeConst I32 5), InstBrcc LTU (MakePGPR I32 RAX) (MakeConst I32 7)], [1, 2]),
      ([InstGBr (MakeConst I32 0x1000)], []), ([InstGBr (MakeConst I32 0x2000)], [])]"

lemma example_region_ok: "region_ok True example_region"
proof -
  have r: "unat RAX < 16" "mask_Test 0xffff RAX" "\<not> mask_Test GPR_FIXED RAX" by code_simp+
  have k: "match_gp_const 5 2" "match_gp_const 7 2" "2 \<noteq> Imm_NO" by code_simp+
  have a: "allocated (InstBinop q_add (MakePGPR I32 RAX) (MakePGPR I32 RAX) (MakeConst I32 5))"
    using r k by (simp add: allocated_def Let_def ct_values make_def_def SetAlias_def less_Suc_eq)
  have b: "allocated (InstBrcc LTU (MakePGPR I32 RAX) (MakeConst I32 7))"
    using r k by (simp add: allocated_def Let_def ct_values make_def_def SetAlias_def less_Suc_eq)
  have c: "allocated (InstGBr t)" for t by (simp add: allocated_def)
  have w: "wide (MakePGPR I32 RAX)" "wide (MakeConst I32 k)" for k by (simp_all add: wide_def oshape_def in_frame_def is_slot_def)
  have t: "typed_region True example_region" using w by (simp add: example_region_def typed_region_def)
  show ?thesis using t a b c by (simp add: region_ok_def example_region_def host_inst_def)
qed

text \<open>C5 at the three blocks, whose exits leave the segment.\<close>

theorem emission_correct_witness:
  "\<exists>e. QCodegen_Run example_region 0x1000 (NewQEmit 3 True True \<lparr>gip_base = 0, seg_size = 0x1000\<rparr> (h_tab example_env) (h_l1 example_env) True) = Inr e \<and>
    distinct (bound_labels (qe_code e)) \<and> enters example_env True (qe_code e) \<and> (\<forall>bb<3. runs_block example_env True (qe_code e) example_region bb)"
proof -
  have "length example_region = 3" "example_region \<noteq> []" by (simp_all add: example_region_def)
  then show ?thesis using emission_correct [OF example_env_ok example_region_ok, of "0x1000" True "\<lparr>gip_base = 0, seg_size = 0x1000\<rparr>"] by simp
qed

text \<open>C39 at two ranges of shift instructions, in a segment of both.\<close>

theorem emitted_code_correct_witness:
  "\<exists>t v leaf e. Translate False (NewRegion state_info) [(0x1000, 0x1008), (0x2000, 0x200c)] shifts_everywhere = Inr t \<and>
    GenerateCode_passes (tview t) (vregs_info (t_region t)) = Some (Inr (v, leaf)) \<and>
    GenerateCode True True \<lparr>gip_base = 0x1000, seg_size = 0x2000\<rparr> (h_tab example_env) (h_l1 example_env) (tview t) (vregs_info (t_region t)) 0x1000 = Some (Inr e) \<and>
    ip2bb t 0x1000 = Some 0 \<and> enters example_env leaf (qe_code e) \<and>
    (\<exists>bb p. ip2bb t 0x2000 = Some bb \<and> label_at (qe_code e) bb = Some p \<and>
       emitted_code_of_range example_env leaf (qe_code e) (ip2bb t) shifts_everywhere 0x2000 p)"
proof -
  let ?ranges = "[(0x1000, 0x1008), (0x2000, 0x200c)] :: (u32 \<times> u32) list"
  have r: "?ranges \<noteq> []" "distinct (map fst ?ranges)" "length ?ranges \<le> 63" "\<forall>r\<in>set ?ranges. snd r \<noteq> 0 \<and> no_discarded shifts_everywhere TB_MAX_INSNS (fst r)"
    using shifts_ok by simp_all
  have "job_size ?ranges \<le> 223" by (simp add: job_size_def TB_MAX_INSNS_def numeral_eq_Suc)
  then have "codegen_vregs False ?ranges shifts_everywhere \<le> 255" using codegen_vregs_bound [OF r, of False] by simp
  from emitted_code_correct [OF example_env_ok r this, of True "\<lparr>gip_base = 0x1000, seg_size = 0x2000\<rparr>"] show ?thesis by simp blast
qed

end
