(* ===== verification/IList.thy ===== *)
theory IList
  imports QIR_Builder
begin

text \<open>
  The intrusive doubly linked list of \<^verbatim>\<open>src/dbt/qmc/ilist.h\<close>, at the level of its pointers: a heap
  gives every node its two links, a list is a ring through its sentinel, and the operations of
  \<open>IListBase\<close>, \<open>IListSentinel\<close>, \<open>IListIterator\<close> and \<open>IList\<close> update the links. The ring refines a
  sequence of addresses; the contract of such a sequence is a locale, which the pointer lists and the
  instruction lists of the builder both satisfy.
\<close>

section \<open>Nodes\<close>

type_synonym ptr = nat

record links =
  nprev :: "ptr \<Rightarrow> ptr"
  nnext :: "ptr \<Rightarrow> ptr"

definition setPrev :: "ptr \<Rightarrow> ptr \<Rightarrow> links \<Rightarrow> links" where
  "setPrev node n h = h\<lparr>nprev := (nprev h)(node := n)\<rparr>"

definition setNext :: "ptr \<Rightarrow> ptr \<Rightarrow> links \<Rightarrow> links" where
  "setNext node n h = h\<lparr>nnext := (nnext h)(node := n)\<rparr>"

definition insertBefore :: "ptr \<Rightarrow> ptr \<Rightarrow> links \<Rightarrow> links" where
  "insertBefore nxt node h =
     (let prev = nprev h nxt;
          h = setNext node nxt h;
          h = setPrev node prev h;
          h = setNext prev node h
      in setPrev nxt node h)"

definition remove_node :: "ptr \<Rightarrow> links \<Rightarrow> links" where
  "remove_node node h =
     (let prev = nprev h node;
          nxt = nnext h node;
          h = setPrev nxt prev h
      in setNext prev nxt h)"

section \<open>Lists\<close>

text \<open>A list is the address of its sentinel.\<close>

definition reset :: "ptr \<Rightarrow> links \<Rightarrow> links" where
  "reset s h = setNext s s (setPrev s s h)"

definition ilist_empty :: "ptr \<Rightarrow> links \<Rightarrow> bool" where
  "ilist_empty s h \<longleftrightarrow> nprev h s = s"

definition it_inc :: "links \<Rightarrow> ptr \<Rightarrow> ptr" where "it_inc h pos = nnext h pos"
definition it_dec :: "links \<Rightarrow> ptr \<Rightarrow> ptr" where "it_dec h pos = nprev h pos"

definition ilist_end :: "ptr \<Rightarrow> ptr" where "ilist_end s = s"
definition ilist_begin :: "ptr \<Rightarrow> links \<Rightarrow> ptr" where "ilist_begin s h = it_inc h s"

definition ilist_insert :: "ptr \<Rightarrow> ptr \<Rightarrow> links \<Rightarrow> links" where
  "ilist_insert it n h = insertBefore it n h"

definition ilist_push_back :: "ptr \<Rightarrow> ptr \<Rightarrow> links \<Rightarrow> links" where
  "ilist_push_back s n h = ilist_insert (ilist_end s) n h"

definition ilist_erase :: "ptr \<Rightarrow> ptr \<Rightarrow> links \<Rightarrow> (ptr \<times> links) res" where
  "ilist_erase s it h =
     (if ilist_end s = it then Inl AssertFailed else Inr (it_inc h it, remove_node it h))"

text \<open>The nodes a loop \<open>for (it = begin(); it != end(); ++it)\<close> visits in at most \<open>k\<close> rounds.\<close>

primrec walk :: "nat \<Rightarrow> ptr \<Rightarrow> links \<Rightarrow> ptr \<Rightarrow> ptr list option" where
  "walk 0 s h it = (if it = s then Some [] else None)"
| "walk (Suc k) s h it =
     (if it = s then Some [] else map_option (Cons it) (walk k s h (it_inc h it)))"

section \<open>Rings\<close>

text \<open>Every two neighbours of the sequence are linked both ways.\<close>

fun linked :: "links \<Rightarrow> ptr list \<Rightarrow> bool" where
  "linked h (a # b # ps) \<longleftrightarrow> nnext h a = b \<and> nprev h b = a \<and> linked h (b # ps)"
| "linked h _ \<longleftrightarrow> True"

definition ring :: "ptr \<Rightarrow> links \<Rightarrow> ptr list \<Rightarrow> bool" where
  "ring s h xs \<longleftrightarrow> distinct (s # xs) \<and> linked h (s # xs @ [s])"

lemma linked_append:
  "linked h (xs @ y # zs) \<longleftrightarrow> linked h (xs @ [y]) \<and> linked h (y # zs)"
proof (induction xs)
  case (Cons x xs)
  then show ?case by (cases xs) auto
qed simp

text \<open>Links of nodes that are not written stay.\<close>

lemma in_set_tlD: "x \<in> set (tl xs) \<Longrightarrow> x \<in> set xs"
  by (cases xs) auto

lemma linked_cong:
  assumes "\<And>p. p \<in> set (butlast ps) \<Longrightarrow> nnext h' p = nnext h p"
    and "\<And>p. p \<in> set (tl ps) \<Longrightarrow> nprev h' p = nprev h p"
  shows "linked h' ps = linked h ps"
  using assms
proof (induction ps rule: induct_list012)
  case (3 a b ps)
  have "linked h' (b # ps) = linked h (b # ps)"
    by (rule "3.IH"(2)) (use "3.prems" in \<open>auto split: if_splits dest: list.set_sel(2)\<close>)
  with "3.prems" show ?case by simp
qed auto

lemma ring_reset: "ring s (reset s h) []"
  by (simp add: ring_def reset_def setNext_def setPrev_def)

lemma linked_last_Cons: "linked h (xs @ [a, b]) \<longleftrightarrow> linked h (xs @ [a]) \<and> nnext h a = b \<and> nprev h b = a"
  using linked_append [of h xs a "[b]"] by auto

text \<open>A ring opened at one link: the sequence up to the link, and the rest.\<close>

lemma insertBefore_linked:
  assumes l: "linked h (as @ [p, q] @ bs)" and n: "n \<notin> set (as @ [p, q] @ bs)"
    and p: "p \<notin> set as" "p \<notin> set (butlast (q # bs))" and q: "q \<notin> set bs" "q \<notin> set (tl (as @ [p]))"
  shows "linked (insertBefore q n h) (as @ [p, n, q] @ bs)"
proof -
  have split: "linked h (as @ [p])" "nnext h p = q" "nprev h q = p" "linked h (q # bs)"
    using l linked_append [of h as p "q # bs"] by auto
  let ?h = "insertBefore q n h"
  have nn: "nnext ?h x = (if x = p then n else if x = n then q else nnext h x)"
    and np: "nprev ?h x = (if x = q then n else if x = n then p else nprev h x)" for x
    using split(3) by (auto simp: insertBefore_def setNext_def setPrev_def Let_def)
  have "linked ?h (as @ [p]) = linked h (as @ [p])"
    by (rule linked_cong) (use n p q in \<open>auto simp: nn np butlast_append dest: in_set_tlD\<close>)
  moreover have "linked ?h (q # bs) = linked h (q # bs)"
    by (rule linked_cong) (use n p q in \<open>auto simp: nn np dest: in_set_butlastD split: if_splits\<close>)
  ultimately show ?thesis
    using split linked_append [of ?h as p "[n, q] @ bs"] n by (auto simp: nn np)
qed

lemma remove_linked:
  assumes l: "linked h (as @ [p, n, q] @ bs)" and n: "n \<notin> set (as @ [p, q] @ bs)"
    and p: "p \<notin> set as" "p \<notin> set (butlast (q # bs))" and q: "q \<notin> set bs" "q \<notin> set (tl (as @ [p]))"
  shows "linked (remove_node n h) (as @ [p, q] @ bs)"
proof -
  have split: "linked h (as @ [p])" "nnext h p = n" "nprev h n = p" "nnext h n = q" "nprev h q = n" "linked h (q # bs)"
    using l linked_append [of h as p "[n, q] @ bs"] by auto
  let ?h = "remove_node n h"
  have nn: "nnext ?h x = (if x = p then q else nnext h x)" and np: "nprev ?h x = (if x = q then p else nprev h x)" for x
    using split by (auto simp: remove_node_def setNext_def setPrev_def Let_def)
  have "linked ?h (as @ [p]) = linked h (as @ [p])"
    by (rule linked_cong) (use n p q in \<open>auto simp: nn np butlast_append dest: in_set_tlD\<close>)
  moreover have "linked ?h (q # bs) = linked h (q # bs)"
    by (rule linked_cong) (use n p q in \<open>auto simp: nn np dest: in_set_butlastD split: if_splits\<close>)
  ultimately show ?thesis
    using split linked_append [of ?h as p "q # bs"] by (auto simp: nn np)
qed

text \<open>The shape both lemmas need, for a ring cut in front of \<open>vs\<close>.\<close>

lemma ring_cut:
  obtains as bs where "s # us @ vs @ [s] = as @ [last (s # us), hd (vs @ [s])] @ bs"
    and "as @ [last (s # us)] = s # us" and "hd (vs @ [s]) # bs = vs @ [s]"
proof
  show "butlast (s # us) @ [last (s # us)] = s # us" by (rule append_butlast_last_id) simp
  show "hd (vs @ [s]) # tl (vs @ [s]) = vs @ [s]" by (rule list.collapse) simp
  show "s # us @ vs @ [s] = butlast (s # us) @ [last (s # us), hd (vs @ [s])] @ tl (vs @ [s])"
    using append_butlast_last_id [of "s # us"] list.collapse [of "vs @ [s]"] by (metis append.assoc append_Cons
        append_Nil list.discI Nil_is_append_conv)
qed

lemma ring_cut_sides:
  assumes "distinct (s # us @ vs)" and "as @ [p] = s # us" and "q # bs = vs @ [s]"
  shows "p \<notin> set as" "p \<notin> set (butlast (q # bs))" "q \<notin> set bs" "q \<notin> set (tl (as @ [p]))"
proof -
  have "distinct (as @ [p])" unfolding assms(2) using assms(1) by auto
  then show "p \<notin> set as" by simp
  have "p \<in> set (s # us)" unfolding assms(2) [symmetric] by simp
  moreover have "us \<noteq> [] \<Longrightarrow> p \<in> set us" using assms(2) by (cases us rule: rev_cases) auto
  ultimately show "p \<notin> set (butlast (q # bs))" unfolding assms(3) using assms(1) by (cases "us = []") auto
  have "distinct (q # bs)" unfolding assms(3) using assms(1) by auto
  then show "q \<notin> set bs" by simp
  have "q = s \<or> q \<in> set vs" using assms(3) by (cases vs) auto
  then show "q \<notin> set (tl (as @ [p]))" unfolding assms(2) using assms(1) by auto
qed

lemma ring_insert:
  assumes "ring s h (us @ vs)" and "n \<notin> set (s # us @ vs)"
  shows "ring s (ilist_insert (hd (vs @ [s])) n h) (us @ n # vs)"
proof -
  obtain as bs where c: "s # us @ vs @ [s] = as @ [last (s # us), hd (vs @ [s])] @ bs"
      "as @ [last (s # us)] = s # us" "hd (vs @ [s]) # bs = vs @ [s]"
    by (rule ring_cut)
  have d: "distinct (s # us @ vs)" using assms(1) by (simp add: ring_def)
  note sides = ring_cut_sides [OF d c(2,3)]
  have "linked h (as @ [last (s # us), hd (vs @ [s])] @ bs)"
    using assms(1) c(1) by (simp add: ring_def)
  moreover have "n \<notin> set (as @ [last (s # us), hd (vs @ [s])] @ bs)" unfolding c(1) [symmetric] using assms(2) by auto
  ultimately have "linked (insertBefore (hd (vs @ [s])) n h) (as @ [last (s # us), n, hd (vs @ [s])] @ bs)"
    using sides by (intro insertBefore_linked) auto
  moreover have "as @ [last (s # us), n, hd (vs @ [s])] @ bs = s # (us @ n # vs) @ [s]"
    using c(2,3) by (metis append.assoc append_Cons append_Nil)
  ultimately show ?thesis using d assms(2) by (simp add: ring_def ilist_insert_def)
qed

lemma ring_remove:
  assumes "ring s h (us @ n # vs)"
  shows "ring s (remove_node n h) (us @ vs)"
proof -
  obtain as bs where c: "s # us @ vs @ [s] = as @ [last (s # us), hd (vs @ [s])] @ bs"
      "as @ [last (s # us)] = s # us" "hd (vs @ [s]) # bs = vs @ [s]"
    by (rule ring_cut)
  have d: "distinct (s # us @ vs)" and n: "n \<notin> set (s # us @ vs)" using assms by (auto simp: ring_def)
  note sides = ring_cut_sides [OF d c(2,3)]
  have e: "as @ [last (s # us), n, hd (vs @ [s])] @ bs = s # (us @ n # vs) @ [s]"
    using c(2,3) by (metis append.assoc append_Cons append_Nil)
  have "n \<notin> set (as @ [last (s # us), hd (vs @ [s])] @ bs)" unfolding c(1) [symmetric] using n by auto
  moreover have "linked h (as @ [last (s # us), n, hd (vs @ [s])] @ bs)" unfolding e using assms by (simp add: ring_def)
  ultimately have "linked (remove_node n h) (as @ [last (s # us), hd (vs @ [s])] @ bs)"
    using sides by (intro remove_linked) auto
  then show ?thesis using d c(1) by (simp add: ring_def)
qed

text \<open>Walking the ring visits the sequence, when as many rounds are allowed as there are nodes.\<close>

lemma walk_linked:
  assumes "linked h (xs @ [s])" and "s \<notin> set xs" and "length xs \<le> k"
  shows "walk k s h (hd (xs @ [s])) = Some xs"
  using assms
proof (induction xs arbitrary: k)
  case Nil
  then show ?case by (cases k) simp_all
next
  case (Cons x xs)
  then obtain k' where k: "k = Suc k'" by (cases k) auto
  have "nnext h x = hd (xs @ [s])" "linked h (xs @ [s])" using Cons.prems(1) by (cases xs; simp)+
  with Cons k show ?case by (simp add: it_inc_def)
qed

lemma walk_ring:
  assumes "ring s h xs" and "length xs \<le> k"
  shows "walk k s h (ilist_begin s h) = Some xs"
proof -
  have "nnext h s = hd (xs @ [s])" "linked h (xs @ [s])" "s \<notin> set xs"
    using assms(1) by (cases xs; auto simp: ring_def)+
  then show ?thesis using walk_linked [OF _ _ assms(2)] by (simp add: ilist_begin_def it_inc_def)
qed

section \<open>The contract of a sequence of nodes\<close>

primrec spec_insert :: "ptr option \<Rightarrow> ptr \<Rightarrow> ptr list \<Rightarrow> ptr list" where
  "spec_insert it n [] = [n]"
| "spec_insert it n (x # xs) = (if it = Some x then n # x # xs else x # spec_insert it n xs)"

lemma spec_insert_cut:
  "it = None \<or> (\<exists>x\<in>set xs. it = Some x) \<Longrightarrow>
    \<exists>us vs. xs = us @ vs \<and> spec_insert it n xs = us @ n # vs \<and> it = (case vs of [] \<Rightarrow> None | v # _ \<Rightarrow> Some v)"
proof (induction xs)
  case Nil
  then show ?case by simp
next
  case (Cons x xs)
  show ?case
  proof (cases "it = Some x")
    case True
    then show ?thesis by (intro exI [of _ "[]"] exI [of _ "x # xs"]) simp
  next
    case False
    then obtain us vs where "xs = us @ vs" "spec_insert it n xs = us @ n # vs"
        "it = (case vs of [] \<Rightarrow> None | v # _ \<Rightarrow> Some v)"
      using Cons by auto
    with False show ?thesis by (intro exI [of _ "x # us"] exI [of _ vs]) simp
  qed
qed

lemma remove1_spec_insert: "n \<notin> set xs \<Longrightarrow> remove1 n (spec_insert it n xs) = xs"
  by (induction xs) auto

lemma set_spec_insert: "set (spec_insert it n xs) = insert n (set xs)"
  by (induction xs) auto

locale node_seq =
  fixes nodes :: "'l \<Rightarrow> ptr list \<Rightarrow> bool"
    and addr :: "'n \<Rightarrow> ptr"
    and fresh :: "'n \<Rightarrow> 'l \<Rightarrow> bool"
    and ins :: "ptr option \<Rightarrow> 'n \<Rightarrow> 'l \<Rightarrow> 'l"
    and del :: "ptr \<Rightarrow> 'l \<Rightarrow> 'l"
  assumes nodes_ins: "nodes l xs \<Longrightarrow> addr n \<notin> set xs \<Longrightarrow> fresh n l \<Longrightarrow>
      it = None \<or> (\<exists>x\<in>set xs. it = Some x) \<Longrightarrow> nodes (ins it n l) (spec_insert it (addr n) xs)"
    and nodes_del: "nodes l xs \<Longrightarrow> p \<in> set xs \<Longrightarrow> nodes (del p l) (remove1 p xs)"
begin

text \<open>What the folder relies on: a node put in front of another and the other erased leaves the new
  one in its place.\<close>

lemma ins_del_neutral:
  assumes "nodes l xs" and "addr n \<notin> set xs" and "fresh n l" and "it = None \<or> (\<exists>x\<in>set xs. it = Some x)"
  shows "nodes (del (addr n) (ins it n l)) xs"
  using nodes_del [OF nodes_ins [OF assms], of "addr n"] assms(2)
  by (simp add: remove1_spec_insert set_spec_insert)

lemma replace_node:
  assumes "nodes l (us @ p # vs)" and "p \<notin> set us" and "addr n \<notin> set (us @ p # vs)" and "fresh n l"
  shows "nodes (del p (ins (Some p) n l)) (us @ addr n # vs)"
proof -
  have "spec_insert (Some p) m (us @ p # vs) = us @ m # p # vs" for m using assms(2) by (induction us) auto
  moreover have "remove1 p (us @ m # p # vs) = us @ m # vs" if "m \<noteq> p" for m
    using assms(2) that by (induction us) auto
  moreover have "addr n \<noteq> p" using assms(3) by auto
  ultimately show ?thesis
    using nodes_del [OF nodes_ins [OF assms(1,3,4), of "Some p"], of p] by auto
qed

end

text \<open>Pointer lists: the state is the heap with the sentinel.\<close>

definition pl_insert :: "ptr option \<Rightarrow> ptr \<Rightarrow> ptr \<times> links \<Rightarrow> ptr \<times> links" where
  "pl_insert it n l = (fst l, ilist_insert (case it of None \<Rightarrow> ilist_end (fst l) | Some p \<Rightarrow> p) n (snd l))"

definition pl_erase :: "ptr \<Rightarrow> ptr \<times> links \<Rightarrow> ptr \<times> links" where
  "pl_erase p l = (case ilist_erase (fst l) p (snd l) of Inr (it, h) \<Rightarrow> (fst l, h) | Inl _ \<Rightarrow> l)"

interpretation ilist_seq: node_seq "\<lambda>l. ring (fst l) (snd l)" "\<lambda>n. n" "\<lambda>n l. n \<noteq> fst l" pl_insert pl_erase
proof
  fix l :: "ptr \<times> links" and xs n it
  assume r: "ring (fst l) (snd l) xs" and n: "n \<notin> set xs" "n \<noteq> fst l"
    and it: "it = None \<or> (\<exists>x\<in>set xs. it = Some x)"
  obtain us vs where uv: "xs = us @ vs" "spec_insert it n xs = us @ n # vs"
      "it = (case vs of [] \<Rightarrow> None | v # _ \<Rightarrow> Some v)"
    using spec_insert_cut [OF it, of n] by blast
  have "(case it of None \<Rightarrow> ilist_end (fst l) | Some p \<Rightarrow> p) = hd (vs @ [fst l])"
    using uv(3) by (cases vs) (simp_all add: ilist_end_def)
  then show "ring (fst (pl_insert it n l)) (snd (pl_insert it n l)) (spec_insert it n xs)"
    using ring_insert [of "fst l" "snd l" us vs n] r n uv by (simp add: pl_insert_def)
next
  fix l :: "ptr \<times> links" and xs p
  assume r: "ring (fst l) (snd l) xs" and p: "p \<in> set xs"
  obtain us vs where uv: "xs = us @ p # vs" "p \<notin> set us" using split_list_first [OF p] by blast
  have "fst l \<noteq> p" using r p by (auto simp: ring_def)
  then show "ring (fst (pl_erase p l)) (snd (pl_erase p l)) (remove1 p xs)"
    using ring_remove [of "fst l" "snd l" us p vs] r uv by (simp add: pl_erase_def ilist_erase_def ilist_end_def remove1_append)
qed

text \<open>The instruction lists of the builder.\<close>

interpretation inst_seq: node_seq "\<lambda>l xs. map inst_ptr l = xs \<and> distinct xs" inst_ptr "\<lambda>n l. True"
  insert_before erase_inst
proof
  fix l :: "Inst list" and xs and n :: Inst and it
  assume l: "map inst_ptr l = xs \<and> distinct xs" and n: "inst_ptr n \<notin> set xs"
  have m: "map inst_ptr (insert_before it n l) = spec_insert it (inst_ptr n) (map inst_ptr l)"
    by (induction l) auto
  have "distinct (spec_insert it (inst_ptr n) xs)"
    using l n by (induction xs arbitrary: l) (auto simp: set_spec_insert)
  with m l show "map inst_ptr (insert_before it n l) = spec_insert it (inst_ptr n) xs \<and>
      distinct (spec_insert it (inst_ptr n) xs)" by simp
next
  fix l :: "Inst list" and xs p
  assume l: "map inst_ptr l = xs \<and> distinct xs"
  have "map inst_ptr (erase_inst p l) = filter ((\<noteq>) p) (map inst_ptr l)"
    by (induction l) (auto simp: erase_inst_def)
  with l show "map inst_ptr (erase_inst p l) = remove1 p xs \<and> distinct (remove1 p xs)"
    by (auto simp: distinct_remove1_removeAll removeAll_filter_not_eq)
qed

text \<open>C14. The intrusive list implements sequences. Building a ring by inserting nodes in front of any
  of its nodes or at the end and erasing others gives the ring of the list with the same insertions
  and deletions, and walking the ring from \<open>begin\<close> to \<open>end\<close> visits exactly that list, in order, within
  as many rounds as it has nodes; erasing the end asserts.\<close>

theorem ilist_implements_sequences:
  assumes "ring s h (us @ vs)" and "n \<notin> set (s # us @ vs)" and "length (us @ n # vs) \<le> k"
  shows "(let h' = ilist_insert (hd (vs @ [s])) n h in
      ring s h' (us @ n # vs) \<and> walk k s h' (ilist_begin s h') = Some (us @ n # vs) \<and>
      (\<exists>h''. ilist_erase s n h' = Inr (hd (vs @ [s]), h'') \<and> ring s h'' (us @ vs) \<and>
         walk k s h'' (ilist_begin s h'') = Some (us @ vs))) \<and>
    ilist_erase s (ilist_end s) h = Inl AssertFailed"
proof -
  let ?h' = "ilist_insert (hd (vs @ [s])) n h"
  have r': "ring s ?h' (us @ n # vs)" using assms(1,2) by (rule ring_insert)
  have r'': "ring s (remove_node n ?h') (us @ vs)" using r' by (rule ring_remove)
  have "nnext ?h' n = hd (vs @ [s])"
    using r' linked_append [of ?h' "s # us" n "vs @ [s]"] by (cases vs) (auto simp: ring_def)
  then have "ilist_erase s n ?h' = Inr (hd (vs @ [s]), remove_node n ?h')"
    using assms(2) by (auto simp: ilist_erase_def ilist_end_def it_inc_def)
  then show ?thesis
    using r' r'' walk_ring [OF r' assms(3)] walk_ring [OF r'', of k] assms(3)
    by (simp add: Let_def ilist_erase_def [of s "ilist_end s"])
qed

theorem ilist_implements_sequences_witness:
  "\<exists>h'. ring 9 h' [5, 7] \<and> walk 2 9 h' (ilist_begin 9 h') = Some [5, 7]"
proof -
  let ?h = "\<lparr>nprev = \<lambda>_. 0, nnext = \<lambda>_. 0\<rparr>"
  have "ring 9 (ilist_push_back 9 5 (reset 9 ?h)) ([5] @ [])"
    using ring_insert [of 9 "reset 9 ?h" "[]" "[]" 5] ring_reset [of 9 ?h]
    by (simp add: ilist_push_back_def ilist_end_def)
  from ilist_implements_sequences [OF this, of 7 2] show ?thesis by (auto simp: Let_def)
qed

end
