(* ===== verification/ObjProf.thy ===== *)
theory ObjProf
  imports TCache
begin

text \<open>
  The execution profile of \<^verbatim>\<open>src/dbt/tcache/objprof.h\<close> and \<^verbatim>\<open>src/dbt/tcache/objprof.cpp\<close>: per guest page three bit
  sets over its instruction slots, kept in a file that is mapped into memory and indexed by an ordered
  map. The digest of the object file and the result of opening the cache file are arguments. The walk
  over the translation cache does not test for the map's end iterator before it reads the key there, which C++
  leaves undefined; here that read is an invalid access.
\<close>

section \<open>State\<close>

definition idx_bits :: nat where "idx_bits = 2"

definition po2idx :: "u32 \<Rightarrow> u32" where "po2idx a = drop_bit idx_bits a"

definition idx2po :: "u32 \<Rightarrow> u32" where "idx2po i = push_bit idx_bits i"

record PageData =
  pageno :: u32
  executed :: "bool list"
  brind_target :: "bool list"
  segment_entry :: "bool list"

definition no_bits :: "bool list" where "no_bits = replicate 1024 False"

lemma length_no_bits [simp]: "length no_bits = 1024"
  by (simp add: no_bits_def)

definition ZeroPage :: PageData where
  "ZeroPage = \<lparr>pageno = 0, executed = no_bits, brind_target = no_bits, segment_entry = no_bits\<rparr>"

definition sizeof_PageData :: nat where "sizeof_PageData = 4 + 3 * 128"
definition sizeof_FileHeader :: nat where "sizeof_FileHeader = 16 + 4"
definition PROFILE_SIZE :: nat where "PROFILE_SIZE = 64 * 1024 * 1024"

record ElfProfile =
  csum :: "u8 list"
  n_pages :: u32
  pages :: "nat \<Rightarrow> PageData"
  page2idx :: "(u32 \<times> u32) list"
  fsize :: nat

datatype cache_file = NO_FILE | RDWR_NEW | RD_OR_RDWR ElfProfile

section \<open>Operations\<close>

primrec index_pages :: "nat \<Rightarrow> ElfProfile \<Rightarrow> (u32 \<times> u32) list \<Rightarrow> (u32 \<times> u32) list" where
  "index_pages 0 pf m = m"
| "index_pages (Suc left) pf m =
     (let idx = unat (n_pages pf) - Suc left
      in index_pages left pf (sm_insert (pageno (pages pf idx)) (of_nat idx) m))"

definition Announce :: "u8 list \<Rightarrow> cache_file \<Rightarrow> ElfProfile option \<Rightarrow> ElfProfile option res" where
  "Announce digest file prof =
     (case file of
        NO_FILE \<Rightarrow> Inr prof
      | RDWR_NEW \<Rightarrow>
          Inr (Some \<lparr>csum = digest, n_pages = 0, pages = \<lambda>_. ZeroPage,
                     page2idx = (case prof of None \<Rightarrow> [] | Some p \<Rightarrow> page2idx p), fsize = PROFILE_SIZE\<rparr>)
      | RD_OR_RDWR pf \<Rightarrow>
          if csum pf \<noteq> digest then Inl Panic
          else Inr (Some (pf\<lparr>page2idx := index_pages (unat (n_pages pf)) pf
                              (case prof of None \<Rightarrow> [] | Some p \<Rightarrow> page2idx p), fsize := PROFILE_SIZE\<rparr>)))"

definition HasProfile :: "ElfProfile option \<Rightarrow> bool" where "HasProfile prof \<longleftrightarrow> prof \<noteq> None"

definition GetProfile :: "ElfProfile option \<Rightarrow> PageData list res" where
  "GetProfile prof =
     (case prof of None \<Rightarrow> Inl AssertFailed | Some pf \<Rightarrow> Inr (map (pages pf) [0..<unat (n_pages pf)]))"

definition AllocatePageData :: "u32 \<Rightarrow> ElfProfile \<Rightarrow> (u32 \<times> ElfProfile) res" where
  "AllocatePageData pg pf =
     (let idx = n_pages pf; pf = pf\<lparr>n_pages := idx + 1\<rparr> in
      if fsize pf < sizeof_FileHeader + sizeof_PageData * unat (n_pages pf) then Inl Panic
      else Inr (idx, pf\<lparr>pages := (pages pf)(unat idx := (pages pf (unat idx))\<lparr>pageno := pg\<rparr>)\<rparr>))"

definition GetOrCreatePageData :: "u32 \<Rightarrow> ElfProfile \<Rightarrow> (nat \<times> ElfProfile) res" where
  "GetOrCreatePageData pg pf =
     (case sm_find pg (page2idx pf) of
        Some idx \<Rightarrow> Inr (unat idx, pf)
      | None \<Rightarrow>
          rbind (AllocatePageData pg pf) (\<lambda>(idx, pf).
            Inr (unat idx, pf\<lparr>page2idx := sm_insert pg idx (page2idx pf)\<rparr>)))"

definition upd_observed :: "nat \<Rightarrow> bool \<Rightarrow> bool list \<Rightarrow> bool list" where
  "upd_observed i val bits = (if val then bits[i := True] else bits)"

definition po_idx :: "u32 \<Rightarrow> nat" where
  "po_idx a = unat (po2idx (ucast ((ucast a :: u64) AND NOT (NOT (PAGE_SIZE - 1)))))"

definition record_block :: "u32 \<Rightarrow> TBlock \<Rightarrow> PageData \<Rightarrow> PageData" where
  "record_block a tb d =
     d\<lparr>executed := upd_observed (po_idx a) True (executed d),
       brind_target := upd_observed (po_idx a) (is_brind_target tb) (brind_target d),
       segment_entry := upd_observed (po_idx a) (is_segment_entry tb) (segment_entry d)\<rparr>"

definition page_of :: "u32 \<Rightarrow> u32" where "page_of a = drop_bit 12 a"

fun update_page_loop ::
  "tcache \<Rightarrow> u32 \<Rightarrow> nat \<Rightarrow> (u32 \<times> u64) list \<Rightarrow> ElfProfile \<Rightarrow> ((u32 \<times> u64) list \<times> ElfProfile) res" where
  "update_page_loop t pg idx [] pf = Inl BadDeref"
| "update_page_loop t pg idx (e # it) pf =
     (if page_of (fst e) = pg
      then rbind (deref (snd e) t) (\<lambda>tb.
             update_page_loop t pg idx it
               (pf\<lparr>pages := (pages pf)(idx := record_block (fst e) tb (pages pf idx))\<rparr>))
      else Inr (e # it, pf))"

definition UpdatePageProfile ::
  "tcache \<Rightarrow> (u32 \<times> u64) list \<Rightarrow> ElfProfile \<Rightarrow> ((u32 \<times> u64) list \<times> ElfProfile) res" where
  "UpdatePageProfile t it pf =
     (case it of
        [] \<Rightarrow> Inl BadDeref
      | e # _ \<Rightarrow>
          rbind (GetOrCreatePageData (page_of (fst e)) pf) (\<lambda>(idx, pf).
            if pageno (pages pf idx) \<noteq> page_of (fst e) then Inl AssertFailed
            else update_page_loop t (page_of (fst e)) idx it pf))"

lemma update_page_loop_length:
  "update_page_loop t pg idx it pf = Inr (it', pf') \<Longrightarrow> length it' \<le> length it"
  by (induction t pg idx it pf rule: update_page_loop.induct) (fastforce split: if_splits)+

lemma UpdatePageProfile_shorter:
  assumes "UpdatePageProfile t (e # it) pf = Inr (it', pf')"
  shows "length it' < length (e # it)"
  using assms by (auto simp: UpdatePageProfile_def le_imp_less_Suc dest!: update_page_loop_length split: if_splits)

function UpdateProfile_from :: "tcache \<Rightarrow> (u32 \<times> u64) list \<Rightarrow> ElfProfile \<Rightarrow> ElfProfile res" where
  "UpdateProfile_from t [] pf = Inr pf"
| "UpdateProfile_from t (e # it) pf =
     rbind (UpdatePageProfile t (e # it) pf) (\<lambda>x. UpdateProfile_from t (fst x) (snd x))"
  by pat_completeness auto

termination UpdateProfile_from
  by (relation "measure (\<lambda>(_, it, _). length it)") (use UpdatePageProfile_shorter in auto)

definition UpdateProfile :: "tcache \<Rightarrow> ElfProfile \<Rightarrow> ElfProfile res" where
  "UpdateProfile t pf = UpdateProfile_from t (tcache_map t) pf"

section \<open>What the profile records\<close>

definition bits_ok :: "PageData \<Rightarrow> bool" where
  "bits_ok d \<longleftrightarrow> length (executed d) = 1024 \<and> length (brind_target d) = 1024 \<and> length (segment_entry d) = 1024"

definition prof_inv :: "ElfProfile \<Rightarrow> bool" where
  "prof_inv pf \<longleftrightarrow> sm_sorted (page2idx pf) \<and>
     (\<forall>pg ix. sm_find pg (page2idx pf) = Some ix \<longrightarrow> ix < n_pages pf \<and> pageno (pages pf (unat ix)) = pg) \<and>
     (\<forall>j. bits_ok (pages pf j)) \<and>
     (\<forall>j\<ge>unat (n_pages pf). executed (pages pf j) = no_bits \<and> brind_target (pages pf j) = no_bits \<and>
        segment_entry (pages pf j) = no_bits)"

text \<open>A bit set and the block's flag it collects.\<close>

definition collects :: "(PageData \<Rightarrow> bool list) \<Rightarrow> (TBlock \<Rightarrow> bool) \<Rightarrow> bool" where
  "collects sel flag \<longleftrightarrow>
     (sel, flag) \<in> {(executed, \<lambda>_. True), (brind_target, is_brind_target), (segment_entry, is_segment_entry)}"

definition observed :: "(PageData \<Rightarrow> bool list) \<Rightarrow> ElfProfile \<Rightarrow> u32 \<Rightarrow> nat \<Rightarrow> bool" where
  "observed sel pf pg i \<longleftrightarrow>
     (case sm_find pg (page2idx pf) of None \<Rightarrow> False | Some ix \<Rightarrow> sel (pages pf (unat ix)) ! i)"

definition room_for :: "nat \<Rightarrow> ElfProfile \<Rightarrow> bool" where
  "room_for n pf \<longleftrightarrow> unat (n_pages pf) + n < 2 ^ 32 \<and>
     sizeof_FileHeader + sizeof_PageData * (unat (n_pages pf) + n) \<le> fsize pf"

text \<open>The profile has exactly the bits of the listed blocks in addition.\<close>

definition adds_blocks :: "tcache \<Rightarrow> (u32 \<times> u64) set \<Rightarrow> ElfProfile \<Rightarrow> ElfProfile \<Rightarrow> bool" where
  "adds_blocks t es pf pf' \<longleftrightarrow>
     (\<forall>sel flag pg i. collects sel flag \<longrightarrow> i < 1024 \<longrightarrow> (observed sel pf' pg i \<longleftrightarrow> observed sel pf pg i \<or>
        (\<exists>e\<in>es. page_of (fst e) = pg \<and> po_idx (fst e) = i \<and> flag (the (tblocks t (snd e))))))"

lemma adds_blocks_trans: "adds_blocks t A pf pf1 \<Longrightarrow> adds_blocks t B pf1 pf2 \<Longrightarrow> adds_blocks t (A \<union> B) pf pf2"
  unfolding adds_blocks_def by blast

lemma po_idx_range: "po_idx a < 1024"
proof -
  have m: "NOT (NOT (PAGE_SIZE - 1)) = mask 12" by (simp add: PAGE_SIZE_def mask_eq_exp_minus_1)
  have "po2idx (ucast ((ucast a :: u64) AND NOT (NOT (PAGE_SIZE - 1)))) = take_bit 10 (drop_bit 2 a)"
    unfolding po2idx_def idx_bits_def m by (rule bit_word_eqI) (auto simp: bit_simps)
  then show ?thesis
    using take_bit_nat_less_exp [of 10 "unat (drop_bit 2 a)"] by (simp add: po_idx_def unsigned_take_bit_eq)
qed

lemma collects_simps:
  assumes "collects sel flag"
  shows "sel (record_block a tb d) = upd_observed (po_idx a) (flag tb) (sel d)"
    and "sel (d\<lparr>pageno := pg\<rparr>) = sel d" and "bits_ok d \<Longrightarrow> length (sel d) = 1024"
  using assms by (auto simp: collects_def record_block_def upd_observed_def bits_ok_def)

lemma record_block_keeps [simp]:
  "pageno (record_block a tb d) = pageno d" "bits_ok (record_block a tb d) = bits_ok d"
  by (simp_all add: record_block_def bits_ok_def upd_observed_def)

definition record_blocks :: "tcache \<Rightarrow> (u32 \<times> u64) list \<Rightarrow> PageData \<Rightarrow> PageData" where
  "record_blocks t es d = fold (\<lambda>e. record_block (fst e) (the (tblocks t (snd e)))) es d"

lemma record_blocks_keeps [simp]:
  "pageno (record_blocks t es d) = pageno d" "bits_ok (record_blocks t es d) = bits_ok d"
  unfolding record_blocks_def by (induction es arbitrary: d) auto

lemma record_blocks_bits:
  assumes "collects sel flag" and "bits_ok d" and "i < 1024"
  shows "sel (record_blocks t es d) ! i \<longleftrightarrow>
    sel d ! i \<or> (\<exists>e\<in>set es. po_idx (fst e) = i \<and> flag (the (tblocks t (snd e))))"
  using assms(2)
proof (induction es arbitrary: d)
  case Nil
  then show ?case by (simp add: record_blocks_def)
next
  case (Cons e es)
  have "sel (record_blocks t (e # es) d) ! i \<longleftrightarrow>
      sel (record_block (fst e) (the (tblocks t (snd e))) d) ! i \<or>
      (\<exists>e\<in>set es. po_idx (fst e) = i \<and> flag (the (tblocks t (snd e))))"
    using Cons.IH [of "record_block (fst e) (the (tblocks t (snd e))) d"] Cons.prems by (simp add: record_blocks_def)
  then show ?case
    using Cons.prems assms(3)
    by (auto simp: collects_simps [OF assms(1)] upd_observed_def nth_list_update po_idx_range)
qed

definition page_done :: "tcache \<Rightarrow> u32 \<Rightarrow> nat \<Rightarrow> (u32 \<times> u64) list \<Rightarrow> ElfProfile \<Rightarrow> ElfProfile" where
  "page_done t pg idx it pf =
     pf\<lparr>pages := (pages pf)(idx := record_blocks t (takeWhile (\<lambda>e. page_of (fst e) = pg) it) (pages pf idx))\<rparr>"

lemma ball_dropWhile: "\<forall>e\<in>set it. Q e \<Longrightarrow> \<forall>e\<in>set (dropWhile P it). Q e"
  by (auto dest: set_dropWhileD)

lemma page_done_Nil [simp]: "page_done t pg idx [] pf = pf"
  by (cases pf) (simp add: page_done_def record_blocks_def)

lemma update_page_loop_eq:
  assumes "\<forall>e\<in>set it. tblocks t (snd e) \<noteq> None"
  shows "update_page_loop t pg idx it pf =
    (if dropWhile (\<lambda>e. page_of (fst e) = pg) it = [] then Inl BadDeref
     else Inr (dropWhile (\<lambda>e. page_of (fst e) = pg) it, page_done t pg idx it pf))"
  using assms
proof (induction it arbitrary: pf)
  case (Cons e it)
  show ?case
  proof (cases "page_of (fst e) = pg")
    case True
    obtain tb where tb: "tblocks t (snd e) = Some tb" using Cons.prems by auto
    let ?pf = "pf\<lparr>pages := (pages pf)(idx := record_block (fst e) tb (pages pf idx))\<rparr>"
    have loop: "update_page_loop t pg idx (e # it) pf = update_page_loop t pg idx it ?pf"
      using True tb by (simp add: deref_def)
    have pd: "page_done t pg idx it ?pf = page_done t pg idx (e # it) pf"
      using True tb by (simp add: page_done_def record_blocks_def)
    have "\<forall>e\<in>set it. tblocks t (snd e) \<noteq> None" using Cons.prems by simp
    from Cons.IH [OF this] show ?thesis unfolding loop pd [symmetric] using True by simp
  next
    case False
    then show ?thesis by (simp add: record_blocks_def page_done_def)
  qed
qed simp

lemma GetOrCreatePageData_ok:
  assumes inv: "prof_inv pf" and rm: "room_for (Suc n) pf"
  obtains ix pf' where "GetOrCreatePageData pg pf = Inr (unat ix, pf')" "prof_inv pf'" "room_for n pf'"
    "sm_find pg (page2idx pf') = Some ix"
    "adds_blocks t {} pf pf'"
proof (cases "sm_find pg (page2idx pf)")
  case (Some ix)
  then show ?thesis using that [of ix pf] inv rm by (simp add: GetOrCreatePageData_def room_for_def adds_blocks_def)
next
  case None
  let ?ix = "n_pages pf"
  let ?pf = "pf\<lparr>n_pages := ?ix + 1, pages := (pages pf)(unat ?ix := (pages pf (unat ?ix))\<lparr>pageno := pg\<rparr>),
    page2idx := sm_insert pg ?ix (page2idx pf)\<rparr>"
  have s: "sm_sorted (page2idx pf)" using inv by (simp add: prof_inv_def)
  have u: "unat (?ix + 1) = unat ?ix + 1" using rm by (simp add: room_for_def unat_word_ariths)
  then have g: "GetOrCreatePageData pg pf = Inr (unat ?ix, ?pf)"
    using None rm by (simp add: GetOrCreatePageData_def AllocatePageData_def Let_def room_for_def algebra_simps)
  have f: "sm_find pg' (page2idx ?pf) = (if pg' = pg then Some ?ix else sm_find pg' (page2idx pf))" for pg'
    using None by (simp add: sm_find_insert [OF s])
  have lt: "ix < ?ix" "pageno (pages pf (unat ix)) = pg'" if "sm_find pg' (page2idx pf) = Some ix" for pg' ix
    using inv that by (auto simp: prof_inv_def)
  have "prof_inv ?pf" unfolding prof_inv_def
  proof (intro conjI allI impI)
    fix pg' ix assume "sm_find pg' (page2idx ?pf) = Some ix"
    then show "ix < n_pages ?pf" "pageno (pages ?pf (unat ix)) = pg'"
      using lt [of pg' ix] u unfolding f by (auto simp: word_less_nat_alt split: if_splits)
  qed (use inv s u in \<open>auto simp: prof_inv_def smap.inv_insert bits_ok_def\<close>)
  moreover have "room_for n ?pf" using rm u by (simp add: room_for_def)
  moreover have "observed sel ?pf pg' i = observed sel pf pg' i" if c: "collects sel flag" and i: "i < 1024" for sel flag pg' i
  proof -
    have "\<not> sel (pages pf (unat ?ix)) ! i"
      using inv c i by (auto simp: prof_inv_def collects_def no_bits_def)
    then show ?thesis using f [of pg'] None lt [of pg'] collects_simps(2) [OF c]
      by (auto simp: observed_def split: option.splits)
  qed
  then have "adds_blocks t {} pf ?pf" by (auto simp: adds_blocks_def)
  ultimately show ?thesis using that [of ?ix ?pf] g f by simp
qed

lemma UpdatePageProfile_ok:
  assumes inv: "prof_inv pf" and rm: "room_for (Suc n) pf" and tb: "\<forall>e\<in>set (e0 # it). tblocks t (snd e) \<noteq> None"
    and pg: "pg = page_of (fst e0)" and more: "dropWhile (\<lambda>e. page_of (fst e) = pg) (e0 # it) \<noteq> []"
  shows "\<exists>pf'. UpdatePageProfile t (e0 # it) pf = Inr (dropWhile (\<lambda>e. page_of (fst e) = pg) (e0 # it), pf') \<and>
    prof_inv pf' \<and> room_for n pf' \<and> adds_blocks t (set (takeWhile (\<lambda>e. page_of (fst e) = pg) (e0 # it))) pf pf'"
proof -
  let ?P = "\<lambda>e. page_of (fst e) = pg"
  obtain ix pf1 where g: "GetOrCreatePageData pg pf = Inr (unat ix, pf1)" "prof_inv pf1" "room_for n pf1"
      "sm_find pg (page2idx pf1) = Some ix" "adds_blocks t {} pf pf1"
    by (rule GetOrCreatePageData_ok [OF inv rm, of pg])
  have ix: "pageno (pages pf1 (unat ix)) = pg" "ix < n_pages pf1" "\<And>j. bits_ok (pages pf1 j)"
    using g(2,4) by (auto simp: prof_inv_def)
  have inj: "pg' = pg" if "sm_find pg' (page2idx pf1) = Some ix'" "unat ix' = unat ix" for pg' ix'
    using g(2) that ix(1) by (metis prof_inv_def)
  let ?es = "takeWhile ?P (e0 # it)"
  let ?d = "record_blocks t ?es (pages pf1 (unat ix))"
  let ?pf = "pf1\<lparr>pages := (pages pf1)(unat ix := ?d)\<rparr>"
  have "update_page_loop t pg (unat ix) (e0 # it) pf1 = Inr (dropWhile ?P (e0 # it), ?pf)"
    unfolding update_page_loop_eq [OF tb] page_done_def using more by simp
  then have u: "UpdatePageProfile t (e0 # it) pf = Inr (dropWhile ?P (e0 # it), ?pf)"
    using g(1) ix(1) pg by (simp add: UpdatePageProfile_def del: update_page_loop.simps)
  have k: "pageno (pages ?pf j) = pageno (pages pf1 j)" "bits_ok (pages ?pf j)" for j using ix(3) by simp_all
  have "prof_inv ?pf" unfolding prof_inv_def k using g(2) k ix(2) by (simp add: prof_inv_def word_less_nat_alt)
  moreover have "room_for n ?pf" using g(3) by (simp add: room_for_def)
  ultimately have i: "prof_inv ?pf" "room_for n ?pf" by simp_all
  have es: "page_of (fst e) = pg" if "e \<in> set ?es" for e using set_takeWhileD [OF that] by simp
  have "adds_blocks t (set ?es) pf1 ?pf"
    unfolding adds_blocks_def
  proof (intro allI impI)
    fix sel flag pg' and i :: nat
    assume c: "collects sel flag" "i < 1024"
    show "observed sel ?pf pg' i \<longleftrightarrow> observed sel pf1 pg' i \<or>
        (\<exists>e\<in>set ?es. page_of (fst e) = pg' \<and> po_idx (fst e) = i \<and> flag (the (tblocks t (snd e))))"
    proof (cases "pg' = pg")
      case True
      then have "observed sel ?pf pg' i = sel ?d ! i" "observed sel pf1 pg' i = sel (pages pf1 (unat ix)) ! i"
        using g(4) by (simp_all add: observed_def)
      then show ?thesis using record_blocks_bits [OF c(1) ix(3) c(2), of t ?es "unat ix"] es True by blast
    next
      case False
      then have "observed sel ?pf pg' i = observed sel pf1 pg' i"
        using inj [of pg'] by (auto simp: observed_def split: option.splits)
      then show ?thesis using es False by blast
    qed
  qed
  from adds_blocks_trans [OF g(5) this] u i show ?thesis by auto
qed

lemma room_for_less: "room_for n pf \<Longrightarrow> m \<le> n \<Longrightarrow> room_for m pf"
  by (auto simp: room_for_def sizeof_FileHeader_def sizeof_PageData_def)

lemma UpdatePageProfile_last:
  assumes "prof_inv pf" and "room_for (Suc n) pf" and "\<forall>e\<in>set (e0 # it). tblocks t (snd e) \<noteq> None"
    and "dropWhile (\<lambda>e. page_of (fst e) = page_of (fst e0)) (e0 # it) = []"
  shows "UpdatePageProfile t (e0 # it) pf = Inl BadDeref"
proof -
  obtain ix pf1 where "GetOrCreatePageData (page_of (fst e0)) pf = Inr (unat ix, pf1)" "prof_inv pf1"
      "sm_find (page_of (fst e0)) (page2idx pf1) = Some ix"
    by (rule GetOrCreatePageData_ok [OF assms(1,2)])
  then show ?thesis using update_page_loop_eq [OF assms(3)] assms(4)
    by (auto simp: UpdatePageProfile_def prof_inv_def simp del: update_page_loop.simps)
qed

lemma UpdateProfile_from_end:
  assumes "it \<noteq> []" and "prof_inv pf" and "room_for (length it) pf" and "\<forall>e\<in>set it. tblocks t (snd e) \<noteq> None"
  shows "UpdateProfile_from t it pf = Inl BadDeref"
  using assms
proof (induction it arbitrary: pf rule: length_induct)
  case (1 it)
  obtain e0 it' where it: "it = e0 # it'" using "1.prems"(1) by (cases it) auto
  let ?P = "\<lambda>e. page_of (fst e) = page_of (fst e0)"
  let ?r = "dropWhile ?P it"
  have l: "length ?r \<le> length it'" "length ?r < length it" using it by (auto simp: le_imp_less_Suc length_dropWhile_le)
  have rm: "room_for (Suc (length it')) pf" "\<forall>e\<in>set (e0 # it'). tblocks t (snd e) \<noteq> None" using "1.prems"(3,4) it by simp_all
  have q: "\<forall>e\<in>set ?r. tblocks t (snd e) \<noteq> None" by (rule ball_dropWhile [OF "1.prems"(4)])
  show ?case
  proof (cases "?r = []")
    case True
    then have "UpdatePageProfile t it pf = Inl BadDeref" using UpdatePageProfile_last [OF "1.prems"(2) rm] it by simp
    then show ?thesis using it by simp
  next
    case False
    then obtain pf1 where u: "UpdatePageProfile t it pf = Inr (?r, pf1)" "prof_inv pf1" "room_for (length it') pf1"
      using UpdatePageProfile_ok [OF "1.prems"(2) rm refl] unfolding it by blast
    have "UpdateProfile_from t ?r pf1 = Inl BadDeref"
      using "1.IH" l(2) False u(2) room_for_less [OF u(3) l(1)] q by blast
    then show ?thesis using u(1) it by simp
  qed
qed

text \<open>In an ordered map the blocks of a page are next to each other.\<close>

lemma sorted_page_start:
  fixes f :: "'a \<Rightarrow> 'b :: linorder"
  assumes "sorted (map f xs)" and "\<forall>x\<in>set xs. p \<le> f x"
  shows "set (takeWhile (\<lambda>x. f x = p) xs) = {x \<in> set xs. f x = p}" and "dropWhile (\<lambda>x. f x = p) xs = dropWhile (\<lambda>x. f x \<le> p) xs"
  using assms by (induction xs) auto

lemma sorted_page:
  fixes f :: "'a \<Rightarrow> 'b :: linorder"
  assumes "sorted (map f xs)"
  shows "set (takeWhile (\<lambda>x. f x = p) (dropWhile (\<lambda>x. f x < p) xs)) = {x \<in> set xs. f x = p}"
    and "dropWhile (\<lambda>x. f x = p) (dropWhile (\<lambda>x. f x < p) xs) = dropWhile (\<lambda>x. f x \<le> p) xs"
proof -
  have "set (takeWhile (\<lambda>x. f x = p) (dropWhile (\<lambda>x. f x < p) xs)) = {x \<in> set xs. f x = p} \<and>
      dropWhile (\<lambda>x. f x = p) (dropWhile (\<lambda>x. f x < p) xs) = dropWhile (\<lambda>x. f x \<le> p) xs"
    using assms
  proof (induction xs)
    case (Cons a xs)
    show ?case
    proof (cases "f a < p")
      case True
      then show ?thesis using Cons by auto
    next
      case False
      then show ?thesis using sorted_page_start [OF Cons.prems, of p] Cons.prems by fastforce
    qed
  qed simp
  then show "set (takeWhile (\<lambda>x. f x = p) (dropWhile (\<lambda>x. f x < p) xs)) = {x \<in> set xs. f x = p}"
    "dropWhile (\<lambda>x. f x = p) (dropWhile (\<lambda>x. f x < p) xs) = dropWhile (\<lambda>x. f x \<le> p) xs" by blast+
qed

lemma page_of_mono: "a \<le> b \<Longrightarrow> page_of a \<le> page_of b"
  by (simp add: page_of_def word_le_nat_alt drop_bit_eq_div unat_div div_le_mono)

lemma map_blocks:
  assumes "tc_inv t"
  shows "e \<in> set (tcache_map t) \<longleftrightarrow> sm_find (fst e) (tcache_map t) = Some (snd e)"
    and "\<forall>e\<in>set (tcache_map t). tblocks t (snd e) \<noteq> None"
proof -
  have d: "distinct (map fst (tcache_map t))"
    using tc_invD(1) [OF assms] by (simp add: sm_sorted_def strict_sorted_iff)
  show i: "e \<in> set (tcache_map t) \<longleftrightarrow> sm_find (fst e) (tcache_map t) = Some (snd e)" for e
    by (cases e) (simp add: sm_find_def map_of_eq_Some_iff [OF d])
  show "\<forall>e\<in>set (tcache_map t). tblocks t (snd e) \<noteq> None" using i tc_invD(3) [OF assms] by fastforce
qed

text \<open>C26. What updating the profile does. For a page of a coherent cache that is not the cache's last, with room in the file, \<open>UpdatePageProfile\<close> started at the
  page's first block returns at the first block of the next page, and records exactly what ran: a bit is set
  afterwards when it was set before, or when a cached block at that page and slot has the flag (for \<open>executed\<close>, when there is
  any block); the profile's invariant is kept. For the last page the walk runs into the map's end and reads a key there, so
  updating the profile of a cache that is not empty always ends in an invalid access.\<close>

theorem profile_records_cache:
  assumes "tc_inv t" and "prof_inv pf" and "room_for (length (tcache_map t)) pf" and "sm_find g (tcache_map t) = Some p"
  shows "UpdateProfile t pf = Inl BadDeref \<and>
    (dropWhile (\<lambda>e. page_of (fst e) \<le> page_of g) (tcache_map t) = [] \<longrightarrow>
       UpdatePageProfile t (dropWhile (\<lambda>e. page_of (fst e) < page_of g) (tcache_map t)) pf = Inl BadDeref) \<and>
    (dropWhile (\<lambda>e. page_of (fst e) \<le> page_of g) (tcache_map t) \<noteq> [] \<longrightarrow>
       (\<exists>pf'. UpdatePageProfile t (dropWhile (\<lambda>e. page_of (fst e) < page_of g) (tcache_map t)) pf =
            Inr (dropWhile (\<lambda>e. page_of (fst e) \<le> page_of g) (tcache_map t), pf') \<and> prof_inv pf' \<and>
          (\<forall>sel flag pg i. collects sel flag \<longrightarrow> i < 1024 \<longrightarrow> (observed sel pf' pg i \<longleftrightarrow> observed sel pf pg i \<or>
             (pg = page_of g \<and> (\<exists>g' p' tb. sm_find g' (tcache_map t) = Some p' \<and> tblocks t p' = Some tb \<and>
                page_of g' = pg \<and> po_idx g' = i \<and> flag tb))))))"
proof -
  let ?m = "tcache_map t" and ?pg = "page_of g"
  let ?it = "dropWhile (\<lambda>e. page_of (fst e) < ?pg) ?m" and ?rest = "dropWhile (\<lambda>e. page_of (fst e) \<le> ?pg) ?m"
  have "sorted_wrt (\<lambda>a b. fst a < fst b) ?m" using tc_invD(1) [OF assms(1)] by (simp add: sm_sorted_def sorted_wrt_map)
  then have "sorted_wrt (\<lambda>a b. page_of (fst a) \<le> page_of (fst b)) ?m" by (rule sorted_wrt_mono_rel [rotated]) (simp add: page_of_mono)
  then have so: "sorted (map (\<lambda>e. page_of (fst e)) ?m)" by (simp add: sorted_wrt_map)
  note sp = sorted_page [OF so, of ?pg]
  note mb = map_blocks [OF assms(1)]
  have in_m: "(g, p) \<in> set ?m" using mb(1) [of "(g, p)"] assms(4) by simp
  then have "?m \<noteq> []" by auto
  then have end_read: "UpdateProfile t pf = Inl BadDeref" using UpdateProfile_from_end [OF _ assms(2,3) mb(2)] by (simp add: UpdateProfile_def)
  have "(g, p) \<in> set (takeWhile (\<lambda>e. page_of (fst e) = ?pg) ?it)" using sp(1) in_m by simp
  then obtain e0 it where it: "?it = e0 # it" "page_of (fst e0) = ?pg" by (cases ?it) (auto split: if_splits)
  have tb: "\<forall>e\<in>set (e0 # it). tblocks t (snd e) \<noteq> None" using ball_dropWhile [OF mb(2)] it(1) by metis
  have rm: "room_for (Suc 0) pf" using room_for_less [OF assms(3)] in_m by (cases ?m) auto
  have rest: "dropWhile (\<lambda>e. page_of (fst e) = ?pg) (e0 # it) = ?rest" using sp(2) it(1) by simp
  have last: "UpdatePageProfile t ?it pf = Inl BadDeref" if "?rest = []"
    using UpdatePageProfile_last [OF assms(2) rm tb] rest that it by simp
  have mid: "\<exists>pf'. UpdatePageProfile t ?it pf = Inr (?rest, pf') \<and> prof_inv pf' \<and> adds_blocks t {e \<in> set ?m. page_of (fst e) = ?pg} pf pf'" if "?rest \<noteq> []"
    using UpdatePageProfile_ok [OF assms(2) rm tb it(2) [symmetric]] rest that sp(1) it(1) by auto
  have ex: "(\<exists>e\<in>{e \<in> set ?m. page_of (fst e) = ?pg}. page_of (fst e) = pg \<and> po_idx (fst e) = i \<and> flag (the (tblocks t (snd e)))) \<longleftrightarrow>
      pg = ?pg \<and> (\<exists>g' p' tb. sm_find g' ?m = Some p' \<and> tblocks t p' = Some tb \<and> page_of g' = pg \<and> po_idx g' = i \<and> flag tb)"
    (is "?l \<longleftrightarrow> ?r") for pg i and flag :: "TBlock \<Rightarrow> bool"
  proof
    assume ?l
    then obtain e b where "e \<in> set ?m" "pg = ?pg" "page_of (fst e) = pg" "po_idx (fst e) = i" "tblocks t (snd e) = Some b" "flag b"
      using mb(2) by fastforce
    then show ?r using mb(1) [of e] by blast
  next
    assume ?r
    then obtain g' p' b where "sm_find g' ?m = Some p'" "tblocks t p' = Some b" "page_of g' = pg" "po_idx g' = i" "flag b" "pg = ?pg"
      by blast
    then show ?l using mb(1) [of "(g', p')"] by (intro bexI [of _ "(g', p')"]) simp_all
  qed
  show ?thesis using end_read last mid unfolding adds_blocks_def ex by blast
qed

definition example_profile :: ElfProfile where
  "example_profile = \<lparr>csum = [], n_pages = 0, pages = \<lambda>_. ZeroPage, page2idx = [], fsize = PROFILE_SIZE\<rparr>"

text \<open>Two blocks in two pages.\<close>

definition two_pages :: tcache where
  "two_pages = example_cache\<lparr>tcache_map := [(0x1000, 0x70000), (0x2000, 0x70018)], tb_pool := \<lparr>pool = 0x70000, pool_sz = TB_POOL_SIZE, used = 48\<rparr>,
     tblocks := [0x70000 \<mapsto> NewTBlock\<lparr>tb_ip := 0x1000, tcode_ptr := 0x90000\<rparr>, 0x70018 \<mapsto> NewTBlock\<lparr>tb_ip := 0x2000, tcode_ptr := 0x90100\<rparr>]\<rparr>"

lemma two_pages_inv: "tc_inv two_pages"
  by (rule tc_invI) (auto simp: two_pages_def example_cache_def sm_sorted_def sm_find_def arena_inv_def TB_POOL_SIZE_def
    block_in_pool_def brind_entry_ok_def NewTBlock_def split: if_splits)

lemma example_profile_ok: "prof_inv example_profile" "room_for 2 example_profile"
  by (simp_all add: example_profile_def prof_inv_def room_for_def sm_sorted_def sm_find_def bits_ok_def ZeroPage_def
    PROFILE_SIZE_def sizeof_FileHeader_def sizeof_PageData_def)

text \<open>C26 at the first of the two pages, which is recorded, although the whole update fails.\<close>

theorem profile_records_cache_witness:
  "UpdateProfile two_pages example_profile = Inl BadDeref \<and>
   (\<exists>pf'. UpdatePageProfile two_pages (tcache_map two_pages) example_profile = Inr ([(0x2000, 0x70018)], pf') \<and> observed executed pf' 1 0)"
proof -
  have p: "page_of 0x1000 = 1" "page_of 0x2000 = 2" "po_idx 0x1000 = 0" by (simp_all add: page_of_def po_idx_def po2idx_def idx_bits_def PAGE_SIZE_def)
  have m: "tcache_map two_pages = [(0x1000, 0x70000), (0x2000, 0x70018)]" by (simp add: two_pages_def)
  then have a: "room_for (length (tcache_map two_pages)) example_profile" "sm_find 0x1000 (tcache_map two_pages) = Some 0x70000"
    using example_profile_ok(2) by (simp_all add: sm_find_def numeral_2_eq_2)
  have d: "dropWhile (\<lambda>e. page_of (fst e) < page_of 0x1000) (tcache_map two_pages) = tcache_map two_pages"
      "dropWhile (\<lambda>e. page_of (fst e) \<le> page_of 0x1000) (tcache_map two_pages) = [(0x2000, 0x70018)]"
    by (simp_all add: m p word_less_nat_alt word_le_nat_alt)
  obtain b where b: "tblocks two_pages 0x70000 = Some b" by (simp add: two_pages_def)
  have c: "collects executed (\<lambda>_. True)" by (simp add: collects_def)
  note t = profile_records_cache [OF two_pages_inv example_profile_ok(1) a, unfolded d]
  from t obtain pf' where pf': "UpdatePageProfile two_pages (tcache_map two_pages) example_profile = Inr ([(0x2000, 0x70018)], pf')"
      "\<forall>sel flag pg i. collects sel flag \<longrightarrow> i < 1024 \<longrightarrow> (observed sel pf' pg i \<longleftrightarrow> observed sel example_profile pg i \<or>
             (pg = page_of 0x1000 \<and> (\<exists>g' p' tb. sm_find g' (tcache_map two_pages) = Some p' \<and> tblocks two_pages p' = Some tb \<and>
                page_of g' = pg \<and> po_idx g' = i \<and> flag tb)))" by blast
  have "observed executed pf' 1 0" using pf'(2) [rule_format, OF c, of 0 1] a(2) b p by auto
  then show ?thesis using pf'(1) t by blast
qed

end
