(* ===== verification/ModuleGraph.thy ===== *)
theory ModuleGraph
  imports JitABI ObjProf
begin

text \<open>
  The control-flow graph of a page that is compiled ahead of time, \<^verbatim>\<open>src/dbt/aot/aot_module.h\<close>,
  \<^verbatim>\<open>src/dbt/aot/aot_module.cpp\<close> and the markers of \<^verbatim>\<open>src/dbt/qmc/marker.h\<close>: recording nodes and edges, the
  traversal in reverse post-order, dominators, dominance frontiers, region entries and regions. A node
  is named by the address it has in the graph's map, the root by \<open>None\<close>; dereferencing a name that is
  not there is a failure. Loops whose end the code does not guarantee are partial functions.
\<close>

section \<open>Markers\<close>

record MarkerKeeper =
  k_min :: u16
  k_max :: u16

record Marker =
  m_min :: u16
  m_max :: u16

text \<open>\<open>states\<close> is a \<^verbatim>\<open>u8\<close> in the source, whatever the caller passes.\<close>

definition NewMarker :: "u8 \<Rightarrow> MarkerKeeper \<Rightarrow> Marker \<times> MarkerKeeper" where
  "NewMarker states k =
     (let mn = k_max k; mx = mn + ucast states in (\<lparr>m_min = mn, m_max = mx\<rparr>, \<lparr>k_min = mn, k_max = mx\<rparr>))"

section \<open>Graph\<close>

type_synonym nid = "u32 option"

record ModuleGraphNode =
  mn_ip :: u32
  mn_ip_end :: u32
  mn_brind_target :: bool
  mn_segment_entry :: bool
  mn_region_entry :: bool
  mn_brind_source :: bool
  mn_crosssegment_br :: bool
  mn_link :: "nid option"
  mn_succs :: "nid list"
  mn_preds :: "nid list"
  mn_dominator :: "nid option"
  mn_domfrontier :: "nid list"
  mn_mark :: u16

definition NewNode :: "u32 \<Rightarrow> ModuleGraphNode" where
  "NewNode a =
     \<lparr>mn_ip = a, mn_ip_end = 0, mn_brind_target = False, mn_segment_entry = False, mn_region_entry = False,
      mn_brind_source = False, mn_crosssegment_br = False, mn_link = None, mn_succs = [], mn_preds = [],
      mn_dominator = None, mn_domfrontier = [], mn_mark = 0\<rparr>"

record ModuleGraph =
  mg_segment :: CodeSegment
  mg_root :: ModuleGraphNode
  ip_map :: "(u32 \<times> ModuleGraphNode) list"
  markers :: MarkerKeeper

definition NewModuleGraph :: "CodeSegment \<Rightarrow> ModuleGraph" where
  "NewModuleGraph seg = \<lparr>mg_segment = seg, mg_root = NewNode 0, ip_map = [], markers = \<lparr>k_min = 0, k_max = 0\<rparr>\<rparr>"

definition node_at :: "ModuleGraph \<Rightarrow> nid \<Rightarrow> ModuleGraphNode option" where
  "node_at g n = (case n of None \<Rightarrow> Some (mg_root g) | Some a \<Rightarrow> sm_find a (ip_map g))"

definition node_res :: "ModuleGraph \<Rightarrow> nid \<Rightarrow> ModuleGraphNode res" where
  "node_res g n = (case node_at g n of None \<Rightarrow> Inl BadDeref | Some d \<Rightarrow> Inr d)"

definition upd_node :: "nid \<Rightarrow> (ModuleGraphNode \<Rightarrow> ModuleGraphNode) \<Rightarrow> ModuleGraph \<Rightarrow> ModuleGraph" where
  "upd_node n f g =
     (case n of
        None \<Rightarrow> g\<lparr>mg_root := f (mg_root g)\<rparr>
      | Some a \<Rightarrow> g\<lparr>ip_map := map (\<lambda>e. if fst e = a then (a, f (snd e)) else e) (ip_map g)\<rparr>)"

text \<open>A write through a node pointer.\<close>

definition set_node :: "nid \<Rightarrow> (ModuleGraphNode \<Rightarrow> ModuleGraphNode) \<Rightarrow> ModuleGraph \<Rightarrow> ModuleGraph res" where
  "set_node n f g = rbind (node_res g n) (\<lambda>_. Inr (upd_node n f g))"

definition AddSucc :: "nid \<Rightarrow> nid \<Rightarrow> ModuleGraph \<Rightarrow> ModuleGraph res" where
  "AddSucc n s g =
     rbind (set_node n (\<lambda>d. d\<lparr>mn_succs := mn_succs d @ [s]\<rparr>) g) (\<lambda>g.
       set_node s (\<lambda>d. d\<lparr>mn_preds := mn_preds d @ [n]\<rparr>) g)"

definition InModule :: "u32 \<Rightarrow> ModuleGraph \<Rightarrow> bool" where "InModule a g \<longleftrightarrow> InSegment a (mg_segment g)"

definition GetNode :: "u32 \<Rightarrow> ModuleGraph \<Rightarrow> nid option" where
  "GetNode a g =
     (if \<not> InModule a g then None
      else case sm_find a (ip_map g) of None \<Rightarrow> None | Some _ \<Rightarrow> Some (Some a))"

definition GetNode_res :: "u32 \<Rightarrow> ModuleGraph \<Rightarrow> nid res" where
  "GetNode_res a g = (case GetNode a g of None \<Rightarrow> Inl BadDeref | Some n \<Rightarrow> Inr n)"

definition AddNode :: "u32 \<Rightarrow> ModuleGraph \<Rightarrow> (nid \<times> ModuleGraph) res" where
  "AddNode a g =
     (case sm_find a (ip_map g) of
        Some _ \<Rightarrow> Inl AssertFailed
      | None \<Rightarrow> Inr (Some a, g\<lparr>ip_map := sm_insert a (NewNode a) (ip_map g)\<rparr>))"

definition mg_RecordEntry :: "u32 \<Rightarrow> ModuleGraph \<Rightarrow> ModuleGraph res" where
  "mg_RecordEntry a g = rbind (AddNode a g) (\<lambda>(_, g). Inr g)"

definition mg_RecordBrindTarget :: "u32 \<Rightarrow> ModuleGraph \<Rightarrow> ModuleGraph res" where
  "mg_RecordBrindTarget a g =
     rbind (GetNode_res a g) (\<lambda>n.
     rbind (set_node n (\<lambda>d. d\<lparr>mn_brind_target := True\<rparr>) g) (AddSucc None n))"

definition mg_RecordSegmentEntry :: "u32 \<Rightarrow> ModuleGraph \<Rightarrow> ModuleGraph res" where
  "mg_RecordSegmentEntry a g =
     rbind (GetNode_res a g) (\<lambda>n.
     rbind (set_node n (\<lambda>d. d\<lparr>mn_segment_entry := True\<rparr>) g) (AddSucc None n))"

definition mg_RecordGBr :: "u32 \<Rightarrow> u32 \<Rightarrow> ModuleGraph \<Rightarrow> ModuleGraph res" where
  "mg_RecordGBr a tgtip g =
     (case GetNode tgtip g of
        Some tgt \<Rightarrow> rbind (GetNode_res a g) (\<lambda>src. AddSucc src tgt g)
      | None \<Rightarrow> rbind (GetNode_res a g) (\<lambda>src. set_node src (\<lambda>d. d\<lparr>mn_crosssegment_br := True\<rparr>) g))"

definition mg_RecordGBrind :: "u32 \<Rightarrow> ModuleGraph \<Rightarrow> ModuleGraph res" where
  "mg_RecordGBrind a g = rbind (GetNode_res a g) (\<lambda>n. set_node n (\<lambda>d. d\<lparr>mn_brind_source := True\<rparr>) g)"

definition mg_RecordLink :: "u32 \<Rightarrow> u32 \<Rightarrow> ModuleGraph \<Rightarrow> ModuleGraph res" where
  "mg_RecordLink a linkip g =
     rbind (GetNode_res a g) (\<lambda>n. set_node n (\<lambda>d. d\<lparr>mn_link := GetNode linkip g\<rparr>) g)"

section \<open>Marks of nodes\<close>

definition Marker_Get :: "Marker \<Rightarrow> nid \<Rightarrow> ModuleGraph \<Rightarrow> u16 res" where
  "Marker_Get mk n g =
     rbind (node_res g n) (\<lambda>d.
       if \<not> mn_mark d < m_max mk then Inl AssertFailed
       else Inr (if mn_mark d < m_min mk then 0 else mn_mark d - m_min mk))"

definition Marker_Set :: "Marker \<Rightarrow> nid \<Rightarrow> u16 \<Rightarrow> ModuleGraph \<Rightarrow> ModuleGraph res" where
  "Marker_Set mk n s g =
     rbind (node_res g n) (\<lambda>d.
       if \<not> mn_mark d < m_max mk then Inl AssertFailed
       else if \<not> unat s + unat (m_min mk) < unat (m_max mk) then Inl AssertFailed
       else Inr (upd_node n (\<lambda>d. d\<lparr>mn_mark := s + m_min mk\<rparr>) g))"

definition new_marker :: "u8 \<Rightarrow> ModuleGraph \<Rightarrow> Marker \<times> ModuleGraph" where
  "new_marker states g = (let (mk, k) = NewMarker states (markers g) in (mk, g\<lparr>markers := k\<rparr>))"

section \<open>Lemmas on nodes\<close>

lemma node_at_upd [simp]:
  "node_at (upd_node n f g) n' = (if n' = n then map_option f (node_at g n) else node_at g n')"
proof (cases n)
  case None
  then show ?thesis by (cases n') (simp_all add: node_at_def upd_node_def)
next
  case (Some a)
  have "map_of (map (\<lambda>e. if fst e = a then (a, f (snd e)) else e) m) b =
      (if b = a then map_option f (map_of m a) else map_of m b)" for m :: "(u32 \<times> ModuleGraphNode) list" and b
    by (induction m) auto
  then show ?thesis using Some by (cases n') (simp_all add: node_at_def upd_node_def sm_find_def)
qed

lemma keys_upd [simp]: "map fst (ip_map (upd_node n f g)) = map fst (ip_map g)"
  by (cases n) (auto simp: upd_node_def)

lemma upd_node_frame [simp]:
  "mg_segment (upd_node n f g) = mg_segment g" "markers (upd_node n f g) = markers g"
  by (cases n; simp add: upd_node_def)+

definition nodes :: "ModuleGraph \<Rightarrow> nid set" where "nodes g = insert None (Some ` fst ` set (ip_map g))"

lemma nodes_at: "n \<in> nodes g \<longleftrightarrow> node_at g n \<noteq> None"
  by (cases n) (auto simp: nodes_def node_at_def sm_find_def map_of_eq_None_iff)

lemma nodes_upd [simp]: "nodes (upd_node n f g) = nodes g"
  using keys_upd [of n f g] unfolding nodes_def by (metis list.set_map)

lemma finite_nodes [simp]: "finite (nodes g)"
  by (simp add: nodes_def)

lemma node_res_Inr: "node_res g n = Inr d \<longleftrightarrow> node_at g n = Some d"
  by (auto simp: node_res_def split: option.splits)

lemma node_at_markers [simp]: "node_at (g\<lparr>markers := k\<rparr>) = node_at g"
  by (auto simp: node_at_def fun_eq_iff split: option.splits)

section \<open>Traversal\<close>

text \<open>A stack entry is a node with the children that are still to be looked at.\<close>

type_synonym dfs_stack = "(nid \<times> nid list) list"

definition rpo_push :: "Marker \<Rightarrow> nid \<Rightarrow> dfs_stack \<Rightarrow> ModuleGraph \<Rightarrow> (dfs_stack \<times> ModuleGraph) res" where
  "rpo_push mk n stk g =
     rbind (Marker_Get mk n g) (\<lambda>m.
       if m = 0
       then rbind (node_res g n) (\<lambda>d. rbind (Marker_Set mk n 1 g) (\<lambda>g. Inr ((n, mn_succs d) # stk, g)))
       else Inr (stk, g))"

definition unmarked :: "Marker \<Rightarrow> ModuleGraph \<Rightarrow> nid set" where
  "unmarked mk g = {n \<in> nodes g. \<exists>d. node_at g n = Some d \<and> mn_mark d \<le> m_min mk}"

lemma Marker_Get_0: "Marker_Get mk n g = Inr 0 \<Longrightarrow> n \<in> unmarked mk g"
  by (auto simp: Marker_Get_def node_res_Inr unmarked_def nodes_at split: if_splits)

lemma Marker_Set_1:
  assumes "Marker_Set mk n 1 g = Inr g'" and "n \<in> unmarked mk g"
  shows "unmarked mk g' = unmarked mk g - {n}"
proof -
  have s: "unat (1 :: u16) + unat (m_min mk) < unat (m_max mk)" "g' = upd_node n (\<lambda>d. d\<lparr>mn_mark := 1 + m_min mk\<rparr>) g"
    using assms(1) by (auto simp: Marker_Set_def split: if_splits)
  have "unat (m_max mk) < 2 ^ 16" by (rule order_less_le_trans [OF unsigned_less]) simp
  then have "unat (1 + m_min mk) = 1 + unat (m_min mk)" using s(1) by (simp add: unat_word_ariths)
  then have "\<not> 1 + m_min mk \<le> m_min mk" by (simp add: word_le_nat_alt)
  then show ?thesis using s(2) by (auto simp: unmarked_def split: if_splits)
qed

lemma unmarked_finite [simp]: "finite (unmarked mk g)"
  by (simp add: unmarked_def)

lemma push_measure:
  assumes "Marker_Get mk n g = Inr 0" and "Marker_Set mk n 1 g = Inr g'"
  shows "card (unmarked mk g') < card (unmarked mk g)"
  unfolding Marker_Set_1 [OF assms(2) Marker_Get_0 [OF assms(1)]]
  using Marker_Get_0 [OF assms(1)] by (intro psubset_card_mono) auto

lemma rpo_push_cases:
  assumes "rpo_push mk n stk g = Inr (stk', g')"
  shows "stk' = stk \<and> g' = g \<or> card (unmarked mk g') < card (unmarked mk g)"
  using assms by (auto simp: rpo_push_def intro: push_measure split: if_splits)

definition stack_size :: "dfs_stack \<Rightarrow> nat" where "stack_size stk = sum_list (map (\<lambda>p. Suc (length (snd p))) stk)"

function rpo_loop :: "Marker \<Rightarrow> dfs_stack \<Rightarrow> nid list \<Rightarrow> ModuleGraph \<Rightarrow> (nid list \<times> ModuleGraph) res" where
  "rpo_loop mk [] po g = Inr (po, g)"
| "rpo_loop mk ((n, []) # stk) po g = rpo_loop mk stk (po @ [n]) g"
| "rpo_loop mk ((n, s # ss) # stk) po g =
     rbind (rpo_push mk s ((n, ss) # stk) g) (\<lambda>x. rpo_loop mk (fst x) po (snd x))"
  by pat_completeness auto

termination rpo_loop
proof (relation "(\<lambda>(mk, stk, po, g). card (unmarked mk g)) <*mlex*> measure (\<lambda>(mk, stk, po, g). stack_size stk)")
  show "wf ((\<lambda>(mk, stk, po, g). card (unmarked mk g)) <*mlex*> measure (\<lambda>(mk, stk, po, g). stack_size stk))"
    by (intro wf_mlex wf_measure)
next
  fix mk n stk po g
  show "((mk, stk, po @ [n], g), mk, (n, []) # stk, po, g)
      \<in> (\<lambda>(mk, stk, po, g). card (unmarked mk g)) <*mlex*> measure (\<lambda>(mk, stk, po, g). stack_size stk)"
    by (simp add: mlex_prod_def stack_size_def)
next
  fix mk n s ss stk po g x
  assume "rpo_push mk s ((n, ss) # stk) g = Inr x"
  then have "fst x = (n, ss) # stk \<and> snd x = g \<or> card (unmarked mk (snd x)) < card (unmarked mk g)"
    using rpo_push_cases [of mk s "(n, ss) # stk" g "fst x" "snd x"] by simp
  then show "((mk, fst x, po, snd x), mk, (n, s # ss) # stk, po, g)
      \<in> (\<lambda>(mk, stk, po, g). card (unmarked mk g)) <*mlex*> measure (\<lambda>(mk, stk, po, g). stack_size stk)"
    by (auto simp: mlex_prod_def stack_size_def)
qed

text \<open>The nodes in post-order; its iterators run over them backwards.\<close>

definition RPOTraversal :: "ModuleGraph \<Rightarrow> (nid list \<times> ModuleGraph) res" where
  "RPOTraversal g =
     (let (mk, g) = new_marker 2 g in
      rbind (rpo_push mk None [] g) (\<lambda>(stk, g).
      rbind (rpo_loop mk stk [] g) (\<lambda>(po, g). Inr (rev po, g))))"

section \<open>Dominators\<close>

primrec number_nodes :: "Marker \<Rightarrow> u16 \<Rightarrow> nid list \<Rightarrow> ModuleGraph \<Rightarrow> (u16 \<times> ModuleGraph) res" where
  "number_nodes mk no [] g = Inr (no, g)"
| "number_nodes mk no (n # ns) g = rbind (Marker_Set mk n no g) (number_nodes mk (no + 1) ns)"

definition dom_res :: "ModuleGraph \<Rightarrow> nid \<Rightarrow> nid res" where
  "dom_res g n =
     rbind (node_res g n) (\<lambda>d. case mn_dominator d of None \<Rightarrow> Inl BadDeref | Some m \<Rightarrow> Inr m)"

text \<open>\<open>intersect\<close>: the nested loops as one, which moves the node with the higher number up.\<close>

partial_function (option) intersect :: "Marker \<Rightarrow> ModuleGraph \<Rightarrow> nid \<Rightarrow> nid \<Rightarrow> nid res option" where
  "intersect mk g b1 b2 =
     (if b1 = b2 then Some (Inr b1)
      else case Marker_Get mk b1 g of Inl e \<Rightarrow> Some (Inl e) | Inr m1 \<Rightarrow>
           (case Marker_Get mk b2 g of Inl e \<Rightarrow> Some (Inl e) | Inr m2 \<Rightarrow>
              (if m2 < m1 then (case dom_res g b1 of Inl e \<Rightarrow> Some (Inl e) | Inr d \<Rightarrow> intersect mk g d b2)
               else if m1 < m2 then (case dom_res g b2 of Inl e \<Rightarrow> Some (Inl e) | Inr d \<Rightarrow> intersect mk g b1 d)
               else intersect mk g b1 b2)))"

primrec fold_preds :: "Marker \<Rightarrow> ModuleGraph \<Rightarrow> nid option \<Rightarrow> nid list \<Rightarrow> nid option res option" where
  "fold_preds mk g new_idom [] = Some (Inr new_idom)"
| "fold_preds mk g new_idom (p # ps) =
     (case node_res g p of
        Inl e \<Rightarrow> Some (Inl e)
      | Inr d \<Rightarrow>
          if mn_dominator d = None then fold_preds mk g new_idom ps
          else (case new_idom of
                  None \<Rightarrow> fold_preds mk g (Some p) ps
                | Some i \<Rightarrow>
                    (case intersect mk g p i of
                       None \<Rightarrow> None
                     | Some (Inl e) \<Rightarrow> Some (Inl e)
                     | Some (Inr m) \<Rightarrow> fold_preds mk g (Some m) ps)))"

text \<open>One pass over the nodes, with the flag \<open>changed\<close>.\<close>

primrec dom_pass :: "Marker \<Rightarrow> nid list \<Rightarrow> bool \<Rightarrow> ModuleGraph \<Rightarrow> (bool \<times> ModuleGraph) res option" where
  "dom_pass mk [] changed g = Some (Inr (changed, g))"
| "dom_pass mk (b # bs) changed g =
     (if b = None then dom_pass mk bs changed g
      else case node_res g b of
             Inl e \<Rightarrow> Some (Inl e)
           | Inr d \<Rightarrow>
               (case fold_preds mk g None (mn_preds d) of
                  None \<Rightarrow> None
                | Some (Inl e) \<Rightarrow> Some (Inl e)
                | Some (Inr None) \<Rightarrow> Some (Inl AssertFailed)
                | Some (Inr (Some i)) \<Rightarrow>
                    if mn_dominator d = Some i then dom_pass mk bs changed g
                    else dom_pass mk bs True (upd_node b (\<lambda>d. d\<lparr>mn_dominator := Some i\<rparr>) g)))"

partial_function (option) dom_loop :: "Marker \<Rightarrow> nid list \<Rightarrow> ModuleGraph \<Rightarrow> ModuleGraph res option" where
  "dom_loop mk rpot g =
     (case dom_pass mk rpot False g of
        None \<Rightarrow> None
      | Some (Inl e) \<Rightarrow> Some (Inl e)
      | Some (Inr (changed, g)) \<Rightarrow> if changed then dom_loop mk rpot g else Some (Inr g))"

definition ComputeDomTree :: "ModuleGraph \<Rightarrow> ModuleGraph res option" where
  "ComputeDomTree g =
     (case RPOTraversal g of
        Inl e \<Rightarrow> Some (Inl e)
      | Inr (rpot, g) \<Rightarrow>
          (let n_nodes = length (ip_map g) + 1; (mk, g) = new_marker (of_nat n_nodes) g in
           case number_nodes mk 0 rpot g of
             Inl e \<Rightarrow> Some (Inl e)
           | Inr (rpo_no, g) \<Rightarrow>
               if unat rpo_no \<noteq> n_nodes then Some (Inl Panic)
               else dom_loop mk rpot (upd_node None (\<lambda>d. d\<lparr>mn_dominator := Some None\<rparr>) g)))"

section \<open>Frontiers and region entries\<close>

text \<open>Sets of nodes are ordered by address in the source; here by insertion.\<close>

definition set_insert :: "'a \<Rightarrow> 'a list \<Rightarrow> 'a list" where
  "set_insert x xs = (if x \<in> set xs then xs else xs @ [x])"

partial_function (option) df_walk :: "nid \<Rightarrow> nid option \<Rightarrow> nid \<Rightarrow> ModuleGraph \<Rightarrow> ModuleGraph res option" where
  "df_walk b idom runner g =
     (if Some runner = idom then Some (Inr g)
      else case node_res g runner of
             Inl e \<Rightarrow> Some (Inl e)
           | Inr d \<Rightarrow>
               (case mn_dominator d of
                  None \<Rightarrow> Some (Inl BadDeref)
                | Some r \<Rightarrow> df_walk b idom r (upd_node runner (\<lambda>d. d\<lparr>mn_domfrontier := set_insert b (mn_domfrontier d)\<rparr>) g)))"

primrec df_preds :: "nid \<Rightarrow> nid option \<Rightarrow> nid list \<Rightarrow> ModuleGraph \<Rightarrow> ModuleGraph res option" where
  "df_preds b idom [] g = Some (Inr g)"
| "df_preds b idom (p # ps) g =
     (case df_walk b idom p g of
        None \<Rightarrow> None | Some (Inl e) \<Rightarrow> Some (Inl e) | Some (Inr g) \<Rightarrow> df_preds b idom ps g)"

primrec df_nodes :: "u32 list \<Rightarrow> ModuleGraph \<Rightarrow> ModuleGraph res option" where
  "df_nodes [] g = Some (Inr g)"
| "df_nodes (a # as) g =
     (case node_res g (Some a) of
        Inl e \<Rightarrow> Some (Inl e)
      | Inr d \<Rightarrow>
          if 1 < length (mn_preds d)
          then (case df_preds (Some a) (mn_dominator d) (mn_preds d) g of
                  None \<Rightarrow> None | Some (Inl e) \<Rightarrow> Some (Inl e) | Some (Inr g) \<Rightarrow> df_nodes as g)
          else df_nodes as g)"

definition ComputeDomFrontier :: "ModuleGraph \<Rightarrow> ModuleGraph res option" where
  "ComputeDomFrontier g = df_nodes (map fst (ip_map g)) g"

primrec idf_seeds :: "u32 list \<Rightarrow> nid list \<Rightarrow> ModuleGraph \<Rightarrow> (nid list \<times> ModuleGraph) res" where
  "idf_seeds [] wlist g = Inr (wlist, g)"
| "idf_seeds (a # as) wlist g =
     rbind (node_res g (Some a)) (\<lambda>d.
       if mn_brind_target d \<or> mn_segment_entry d
       then idf_seeds as (Some a # wlist) (upd_node (Some a) (\<lambda>d. d\<lparr>mn_region_entry := True\<rparr>) g)
       else idf_seeds as wlist g)"

primrec idf_push :: "ModuleGraph \<Rightarrow> nid list \<Rightarrow> nid list \<Rightarrow> nid list res" where
  "idf_push g [] wlist = Inr wlist"
| "idf_push g (y # ys) wlist =
     rbind (node_res g y) (\<lambda>d. idf_push g ys (if mn_region_entry d then wlist else y # wlist))"

definition flagged :: "ModuleGraph \<Rightarrow> nid \<Rightarrow> bool" where
  "flagged g n \<longleftrightarrow> (\<exists>d. node_at g n = Some d \<and> mn_region_entry d)"

lemma idf_push_eq:
  assumes "idf_push g ys wlist = Inr wl'"
  shows "wl' = rev (filter (\<lambda>y. \<not> flagged g y) ys) @ wlist" and "set ys \<subseteq> nodes g"
proof -
  have "wl' = rev (filter (\<lambda>y. \<not> flagged g y) ys) @ wlist \<and> set ys \<subseteq> nodes g"
    using assms by (induction ys arbitrary: wlist) (auto simp: node_res_Inr flagged_def nodes_at split: if_splits)
  then show "wl' = rev (filter (\<lambda>y. \<not> flagged g y) ys) @ wlist" "set ys \<subseteq> nodes g" by simp_all
qed

definition set_region_entry :: "nid \<Rightarrow> ModuleGraph \<Rightarrow> ModuleGraph" where
  "set_region_entry x = upd_node x (\<lambda>d. d\<lparr>mn_region_entry := True\<rparr>)"

lemma flagged_set [simp]:
  "x \<in> nodes g \<Longrightarrow> flagged (set_region_entry x g) n \<longleftrightarrow> n = x \<or> flagged g n"
  by (auto simp: flagged_def set_region_entry_def nodes_at)

lemma nodes_set_region_entry [simp]: "nodes (set_region_entry x g) = nodes g"
  by (simp add: set_region_entry_def)

function idf_loop :: "nid list \<Rightarrow> ModuleGraph \<Rightarrow> ModuleGraph res" where
  "idf_loop [] g = Inr g"
| "idf_loop (x # wlist) g =
     rbind (rbind (node_res g x) (\<lambda>d. idf_push g (mn_domfrontier d) wlist)) (\<lambda>wlist.
       idf_loop wlist (set_region_entry x g))"
  by pat_completeness auto

lemma idf_measure:
  assumes "rbind (node_res g x) (\<lambda>d. idf_push g (mn_domfrontier d) wlist) = Inr wl'"
  shows "card {n \<in> nodes g. \<not> flagged (set_region_entry x g) n} < card {n \<in> nodes g. \<not> flagged g n} \<or>
    (card {n \<in> nodes g. \<not> flagged (set_region_entry x g) n} = card {n \<in> nodes g. \<not> flagged g n} \<and>
     length (filter (flagged (set_region_entry x g)) wl') < length (filter (flagged g) (x # wlist)))"
proof -
  obtain d where d: "node_at g x = Some d" "idf_push g (mn_domfrontier d) wlist = Inr wl'"
    using assms by (auto simp: node_res_Inr)
  have x: "x \<in> nodes g" using d(1) by (simp add: nodes_at)
  note w = idf_push_eq(1) [OF d(2)]
  show ?thesis
  proof (cases "flagged g x")
    case True
    then have "flagged (set_region_entry x g) = flagged g" using x by (intro ext) auto
    then show ?thesis using True w by (auto simp: filter_empty_conv)
  next
    case False
    have "{n \<in> nodes g. \<not> flagged (set_region_entry x g) n} = {n \<in> nodes g. \<not> flagged g n} - {x}" using x by auto
    then have "card {n \<in> nodes g. \<not> flagged (set_region_entry x g) n} < card {n \<in> nodes g. \<not> flagged g n}"
      using x False by (simp only:) (rule card_Diff1_less, simp_all)
    then show ?thesis by simp
  qed
qed

termination idf_loop
proof (relation "(\<lambda>(wl, g). card {n \<in> nodes g. \<not> flagged g n}) <*mlex*> measure (\<lambda>(wl, g). length (filter (flagged g) wl))")
  show "wf ((\<lambda>(wl, g). card {n \<in> nodes g. \<not> flagged g n}) <*mlex*> measure (\<lambda>(wl, g). length (filter (flagged g) wl)))"
    by (intro wf_mlex wf_measure)
next
  fix x wlist g wl'
  assume "rbind (node_res g x) (\<lambda>d. idf_push g (mn_domfrontier d) wlist) = Inr wl'"
  from idf_measure [OF this]
  show "((wl', set_region_entry x g), x # wlist, g)
      \<in> (\<lambda>(wl, g). card {n \<in> nodes g. \<not> flagged g n}) <*mlex*> measure (\<lambda>(wl, g). length (filter (flagged g) wl))"
    by (simp add: mlex_prod_def)
qed

definition ComputeRegionIDF :: "ModuleGraph \<Rightarrow> ModuleGraph res" where
  "ComputeRegionIDF g =
     rbind (idf_seeds (map fst (ip_map g)) [] g) (\<lambda>(wlist, g). idf_loop wlist g)"

section \<open>Regions\<close>

text \<open>\<open>push_node\<close> of \<open>compute_region\<close>; \<open>force\<close> short-circuits the test.\<close>

definition region_push ::
  "Marker \<Rightarrow> bool \<Rightarrow> nid \<Rightarrow> dfs_stack \<Rightarrow> nid list \<Rightarrow> ModuleGraph \<Rightarrow> (dfs_stack \<times> nid list \<times> ModuleGraph) res" where
  "region_push mk force n stk region g =
     rbind (if force then Inr True
            else rbind (Marker_Get mk n g) (\<lambda>m.
                   if m \<noteq> 0 then Inr False
                   else rbind (node_res g n) (\<lambda>d. Inr (\<not> mn_region_entry d)))) (\<lambda>ok.
       if ok
       then rbind (node_res g n) (\<lambda>d.
            rbind (Marker_Set mk n 1 g) (\<lambda>g. Inr ((n, mn_succs d) # stk, region @ [n], g)))
       else Inr (stk, region, g))"

lemma region_push_cases:
  assumes "region_push mk False n stk region g = Inr (stk', region', g')"
  shows "stk' = stk \<and> g' = g \<or> card (unmarked mk g') < card (unmarked mk g)"
  using assms by (auto simp: region_push_def intro: push_measure split: if_splits)

function region_loop ::
  "Marker \<Rightarrow> dfs_stack \<Rightarrow> nid list \<Rightarrow> ModuleGraph \<Rightarrow> (nid list \<times> ModuleGraph) res" where
  "region_loop mk [] region g = Inr (region, g)"
| "region_loop mk ((n, []) # stk) region g = region_loop mk stk region g"
| "region_loop mk ((n, s # ss) # stk) region g =
     rbind (region_push mk False s ((n, ss) # stk) region g) (\<lambda>x.
       region_loop mk (fst x) (fst (snd x)) (snd (snd x)))"
  by pat_completeness auto

termination region_loop
proof (relation "(\<lambda>(mk, stk, r, g). card (unmarked mk g)) <*mlex*> measure (\<lambda>(mk, stk, r, g). stack_size stk)")
  show "wf ((\<lambda>(mk, stk, r, g). card (unmarked mk g)) <*mlex*> measure (\<lambda>(mk, stk, r, g). stack_size stk))"
    by (intro wf_mlex wf_measure)
next
  fix mk n stk r g
  show "((mk, stk, r, g), mk, (n, []) # stk, r, g)
      \<in> (\<lambda>(mk, stk, r, g). card (unmarked mk g)) <*mlex*> measure (\<lambda>(mk, stk, r, g). stack_size stk)"
    by (simp add: mlex_prod_def stack_size_def)
next
  fix mk n s ss stk r g x
  assume "region_push mk False s ((n, ss) # stk) r g = Inr x"
  then have "fst x = (n, ss) # stk \<and> snd (snd x) = g \<or> card (unmarked mk (snd (snd x))) < card (unmarked mk g)"
    using region_push_cases [of mk s "(n, ss) # stk" r g "fst x" "fst (snd x)" "snd (snd x)"] by simp
  then show "((mk, fst x, fst (snd x), snd (snd x)), mk, (n, s # ss) # stk, r, g)
      \<in> (\<lambda>(mk, stk, r, g). card (unmarked mk g)) <*mlex*> measure (\<lambda>(mk, stk, r, g). stack_size stk)"
    by (cases x) (auto simp: mlex_prod_def stack_size_def)
qed

definition compute_region :: "nid \<Rightarrow> ModuleGraph \<Rightarrow> (nid list \<times> ModuleGraph) res" where
  "compute_region entry g =
     (let (mk, g) = new_marker 2 g in
      rbind (region_push mk True entry [] [] g) (\<lambda>(stk, region, g). region_loop mk stk region g))"

primrec region_sets :: "u32 list \<Rightarrow> nid list list \<Rightarrow> ModuleGraph \<Rightarrow> (nid list list \<times> ModuleGraph) res" where
  "region_sets [] regions g = Inr (regions, g)"
| "region_sets (a # as) regions g =
     rbind (node_res g (Some a)) (\<lambda>d.
       if mn_region_entry d
       then rbind (compute_region (Some a) g) (\<lambda>(r, g). region_sets as (regions @ [r]) g)
       else region_sets as regions g)"

definition ComputeRegionDomSets :: "ModuleGraph \<Rightarrow> (nid list list \<times> ModuleGraph) res" where
  "ComputeRegionDomSets g = region_sets (map fst (ip_map g)) [] g"

definition ComputeRegions :: "ModuleGraph \<Rightarrow> (nid list list \<times> ModuleGraph) res option" where
  "ComputeRegions g =
     (case ComputeDomTree g of
        None \<Rightarrow> None | Some (Inl e) \<Rightarrow> Some (Inl e)
      | Some (Inr g) \<Rightarrow>
          (case ComputeDomFrontier g of
             None \<Rightarrow> None | Some (Inl e) \<Rightarrow> Some (Inl e)
           | Some (Inr g) \<Rightarrow> Some (rbind (ComputeRegionIDF g) ComputeRegionDomSets)))"

end
