(* ===== verification/RV32_Analyser.thy ===== *)
theory RV32_Analyser
  imports RV32_QIR_Correct ModuleGraph
begin

text \<open>
  The analyser of \<^verbatim>\<open>src/dbt/guest/rv32_analyser.cpp\<close>, which decodes a block and records where control can go in the
  module graph. C34: every run of a block in the interpreter ends at a recorded successor, or leaves
  the graph by an edge the node is flagged for.
\<close>

section \<open>Analyser\<close>

record RV32Analyser =
  an_control :: Control
  an_vmem :: vmem
  an_insn_ip :: u32
  an_bb_ip :: u32
  an_mg :: ModuleGraph

definition NewAnalyser :: "ModuleGraph \<Rightarrow> u32 \<Rightarrow> vmem \<Rightarrow> RV32Analyser" where
  "NewAnalyser g a vm = \<lparr>an_control = C_NEXT, an_vmem = vm, an_insn_ip = 0, an_bb_ip = a, an_mg = g\<rparr>"

text \<open>A call on the graph.\<close>

definition on_mg :: "(ModuleGraph \<Rightarrow> ModuleGraph res) \<Rightarrow> RV32Analyser \<Rightarrow> RV32Analyser res" where
  "on_mg f t = rbind (f (an_mg t)) (\<lambda>g. Inr (t\<lparr>an_mg := g\<rparr>))"

definition AnalyseBrcc :: "u32 \<Rightarrow> RV32Analyser \<Rightarrow> RV32Analyser res" where
  "AnalyseBrcc i t =
     rbind (on_mg (mg_RecordGBr (an_bb_ip t) (an_insn_ip t + 4)) t) (\<lambda>t.
       on_mg (mg_RecordGBr (an_bb_ip t) (an_insn_ip t + B_imm i)) t)"

definition analyse_link :: "u32 \<Rightarrow> RV32Analyser \<Rightarrow> RV32Analyser res" where
  "analyse_link i t =
     (if insn_rd i \<noteq> 0 then on_mg (mg_RecordLink (an_bb_ip t) (an_insn_ip t + 4)) t else Inr t)"

definition V_analyse :: "Op \<Rightarrow> u32 \<Rightarrow> RV32Analyser \<Rightarrow> RV32Analyser res" where
  "V_analyse op i t =
     (case op of
        Op_ill \<Rightarrow> Inl Panic
      | Op_jal \<Rightarrow> rbind (on_mg (mg_RecordGBr (an_bb_ip t) (an_insn_ip t + J_imm i)) t) (analyse_link i)
      | Op_jalr \<Rightarrow> rbind (on_mg (mg_RecordGBrind (an_bb_ip t)) t) (analyse_link i)
      | Op_beq \<Rightarrow> AnalyseBrcc i t
      | Op_bne \<Rightarrow> AnalyseBrcc i t
      | Op_blt \<Rightarrow> AnalyseBrcc i t
      | Op_bge \<Rightarrow> AnalyseBrcc i t
      | Op_bltu \<Rightarrow> AnalyseBrcc i t
      | Op_bgeu \<Rightarrow> AnalyseBrcc i t
      | _ \<Rightarrow> Inr t)"

text \<open>The wrapper every \<open>Analyser\<close> expands to.\<close>

definition H_analyse :: "Op \<Rightarrow> u32 \<Rightarrow> RV32Analyser \<Rightarrow> RV32Analyser res" where
  "H_analyse op i t =
     rbind (V_analyse op i t) (\<lambda>t.
     let t = (if has_flag op Flags_Branch \<or> has_flag op Flags_Trap then t\<lparr>an_control := C_BRANCH\<rparr> else t)
     in Inr (t\<lparr>an_insn_ip := an_insn_ip t + 4\<rparr>))"

definition AnalyseInsn :: "RV32Analyser \<Rightarrow> RV32Analyser res" where
  "AnalyseInsn t = (let insn = fetch (an_vmem t) (an_insn_ip t) in H_analyse (Decode insn) insn t)"

text \<open>The loop of \<open>Analyse\<close>, with the number of instructions left before \<open>TB_MAX_INSNS\<close>.\<close>

primrec analyse_loop :: "nat \<Rightarrow> u32 \<Rightarrow> RV32Analyser \<Rightarrow> RV32Analyser res" where
  "analyse_loop 0 boundary_ip t = Inl Unreachable"
| "analyse_loop (Suc left) boundary_ip t =
     rbind (AnalyseInsn t) (\<lambda>t.
       if an_control t \<noteq> C_NEXT then Inr t
       else if left = 0 \<or> boundary_ip \<le> an_insn_ip t
       then on_mg (mg_RecordGBr (an_bb_ip t) (an_insn_ip t)) (t\<lparr>an_control := C_TB_OVF\<rparr>)
       else analyse_loop left boundary_ip t)"

definition Analyse :: "ModuleGraph \<Rightarrow> u32 \<Rightarrow> u32 \<Rightarrow> vmem \<Rightarrow> ModuleGraph res" where
  "Analyse g a boundary_ip vm =
     rbind (analyse_loop TB_MAX_INSNS boundary_ip ((NewAnalyser g a vm)\<lparr>an_insn_ip := a\<rparr>)) (\<lambda>t.
     rbind (GetNode_res (an_bb_ip t) (an_mg t)) (\<lambda>n.
       set_node n (\<lambda>d. d\<lparr>mn_ip_end := an_insn_ip t\<rparr>) (an_mg t)))"

section \<open>Recording only adds\<close>

text \<open>\<open>g'\<close> has the nodes of \<open>g\<close>, with at least their edges and flags.\<close>

definition node_le :: "ModuleGraphNode \<Rightarrow> ModuleGraphNode \<Rightarrow> bool" where
  "node_le d d' \<longleftrightarrow> set (mn_succs d) \<subseteq> set (mn_succs d') \<and> (mn_crosssegment_br d \<longrightarrow> mn_crosssegment_br d') \<and>
     (mn_brind_source d \<longrightarrow> mn_brind_source d') \<and> mn_ip_end d' = mn_ip_end d"

definition grows :: "ModuleGraph \<Rightarrow> ModuleGraph \<Rightarrow> bool" where
  "grows g g' \<longleftrightarrow> mg_segment g' = mg_segment g \<and> map fst (ip_map g') = map fst (ip_map g) \<and>
     (\<forall>n d. node_at g n = Some d \<longrightarrow> (\<exists>d'. node_at g' n = Some d' \<and> node_le d d'))"

lemma grows_refl [simp]: "grows g g"
  by (simp add: grows_def node_le_def)

lemma node_le_trans: "node_le d d' \<Longrightarrow> node_le d' d'' \<Longrightarrow> node_le d d''"
  by (auto simp: node_le_def)

lemma grows_trans: "grows g g' \<Longrightarrow> grows g' g'' \<Longrightarrow> grows g g''"
  unfolding grows_def using node_le_trans by simp blast

lemma node_le_refl [simp]: "node_le d d"
  by (simp add: node_le_def)

lemma grows_upd: "(\<And>d. node_le d (f d)) \<Longrightarrow> grows g (upd_node n f g)"
  by (auto simp: grows_def)

lemma grows_nodes: "grows g g' \<Longrightarrow> nodes g' = nodes g"
  unfolding grows_def nodes_def by (metis list.set_map)

lemma grows_GetNode: "grows g g' \<Longrightarrow> GetNode a g' = GetNode a g"
proof -
  assume g: "grows g g'"
  have "sm_find a (ip_map g') = None \<longleftrightarrow> sm_find a (ip_map g) = None"
    using grows_nodes [OF g] nodes_at [of "Some a" g] nodes_at [of "Some a" g'] by (cases "sm_find a (ip_map g)") (simp_all add: node_at_def)
  then show ?thesis using g by (auto simp: GetNode_def InModule_def grows_def split: option.splits)
qed

lemma GetNode_node: "GetNode a g = Some n \<Longrightarrow> n = Some a \<and> Some a \<in> nodes g"
  by (auto simp: GetNode_def nodes_at node_at_def split: if_splits option.splits)

lemma set_node_ok: "n \<in> nodes g \<Longrightarrow> set_node n f g = Inr (upd_node n f g)"
  by (auto simp: set_node_def node_res_def nodes_at split: option.splits)

lemma AddSucc_ok:
  assumes "n \<in> nodes g" and "s \<in> nodes g"
  shows "\<exists>g'. ModuleGraph.AddSucc n s g = Inr g' \<and> grows g g' \<and>
    (\<exists>d. node_at g' n = Some d \<and> s \<in> set (mn_succs d))"
proof -
  let ?f = "\<lambda>d. d\<lparr>mn_succs := mn_succs d @ [s]\<rparr>" and ?h = "\<lambda>d. d\<lparr>mn_preds := mn_preds d @ [n]\<rparr>"
  let ?g = "upd_node s ?h (upd_node n ?f g)"
  have "ModuleGraph.AddSucc n s g = Inr ?g" using assms by (simp add: ModuleGraph.AddSucc_def set_node_ok)
  moreover have "grows g ?g" by (rule grows_trans; rule grows_upd) (auto simp: node_le_def)
  moreover have "\<exists>d. node_at ?g n = Some d \<and> s \<in> set (mn_succs d)" using assms(1) by (auto simp: nodes_at)
  ultimately show ?thesis by blast
qed

text \<open>The edge from block \<open>a\<close> to \<open>tgt\<close> is in the graph, as a successor or, out of the graph, as a flag.\<close>

definition covered :: "ModuleGraph \<Rightarrow> u32 \<Rightarrow> u32 \<Rightarrow> bool" where
  "covered g a tgt \<longleftrightarrow>
     (\<exists>d. node_at g (Some a) = Some d \<and>
        (case GetNode tgt g of Some n \<Rightarrow> n \<in> set (mn_succs d) | None \<Rightarrow> mn_crosssegment_br d))"

lemma covered_grows: "covered g a tgt \<Longrightarrow> grows g g' \<Longrightarrow> covered g' a tgt"
  using grows_GetNode [of g g' tgt] unfolding covered_def grows_def node_le_def
  by (fastforce split: option.splits)

definition brind_source :: "ModuleGraph \<Rightarrow> u32 \<Rightarrow> bool" where
  "brind_source g a \<longleftrightarrow> (\<exists>d. node_at g (Some a) = Some d \<and> mn_brind_source d)"

lemma brind_source_grows: "brind_source g a \<Longrightarrow> grows g g' \<Longrightarrow> brind_source g' a"
  unfolding brind_source_def grows_def node_le_def by fastforce

lemma RecordGBr_ok:
  assumes "GetNode a g \<noteq> None"
  shows "\<exists>g'. mg_RecordGBr a tgt g = Inr g' \<and> grows g g' \<and> covered g' a tgt"
proof -
  have a: "GetNode a g = Some (Some a)" "Some a \<in> nodes g" using assms GetNode_node [of a g] by auto
  show ?thesis
  proof (cases "GetNode tgt g")
    case None
    let ?f = "\<lambda>d. d\<lparr>mn_crosssegment_br := True\<rparr>"
    have g: "grows g (upd_node (Some a) ?f g)" by (rule grows_upd) (simp add: node_le_def)
    have "mg_RecordGBr a tgt g = Inr (upd_node (Some a) ?f g)"
      using None a by (simp add: mg_RecordGBr_def GetNode_res_def set_node_ok)
    moreover have "covered (upd_node (Some a) ?f g) a tgt"
      using None a(2) grows_GetNode [OF g] by (auto simp: covered_def nodes_at)
    ultimately show ?thesis using g by blast
  next
    case (Some n)
    then have n: "n \<in> nodes g" using GetNode_node by blast
    from AddSucc_ok [OF a(2) n] obtain g' where g': "ModuleGraph.AddSucc (Some a) n g = Inr g'" "grows g g'"
      "\<exists>d. node_at g' (Some a) = Some d \<and> n \<in> set (mn_succs d)" by blast
    have "mg_RecordGBr a tgt g = Inr g'" using Some a g'(1) by (simp add: mg_RecordGBr_def GetNode_res_def)
    moreover have "covered g' a tgt" using g'(3) Some grows_GetNode [OF g'(2), of tgt] by (auto simp: covered_def)
    ultimately show ?thesis using g'(2) by blast
  qed
qed

lemma RecordGBrind_ok:
  assumes "GetNode a g \<noteq> None"
  shows "\<exists>g'. mg_RecordGBrind a g = Inr g' \<and> grows g g' \<and> brind_source g' a"
proof -
  have a: "GetNode a g = Some (Some a)" "Some a \<in> nodes g" using assms GetNode_node [of a g] by auto
  let ?g = "upd_node (Some a) (\<lambda>d. d\<lparr>mn_brind_source := True\<rparr>) g"
  have "mg_RecordGBrind a g = Inr ?g" using a by (simp add: mg_RecordGBrind_def GetNode_res_def set_node_ok)
  moreover have "grows g ?g" by (rule grows_upd) (simp add: node_le_def)
  moreover have "brind_source ?g a" using a(2) by (auto simp: brind_source_def nodes_at)
  ultimately show ?thesis by blast
qed

lemma RecordLink_ok:
  assumes "GetNode a g \<noteq> None"
  shows "\<exists>g'. mg_RecordLink a l g = Inr g' \<and> grows g g'"
proof -
  have a: "GetNode a g = Some (Some a)" "Some a \<in> nodes g" using assms GetNode_node [of a g] by auto
  have "grows g (upd_node (Some a) (\<lambda>d. d\<lparr>mn_link := GetNode l g\<rparr>) g)" by (rule grows_upd) (simp add: node_le_def)
  then show ?thesis using a by (simp add: mg_RecordLink_def GetNode_res_def set_node_ok)
qed

section \<open>Instructions\<close>

definition analysed :: "RV32Analyser \<Rightarrow> RV32Analyser \<Rightarrow> bool" where
  "analysed t t' \<longleftrightarrow> an_bb_ip t' = an_bb_ip t \<and> an_vmem t' = an_vmem t \<and> grows (an_mg t) (an_mg t')"

lemma analysed_trans: "analysed t t' \<Longrightarrow> analysed t' t'' \<Longrightarrow> analysed t t''"
  unfolding analysed_def using grows_trans by metis

text \<open>A run that is at \<open>tgt\<close> after block \<open>a\<close> is accounted for.\<close>

definition exits_to :: "ModuleGraph \<Rightarrow> u32 \<Rightarrow> u32 \<Rightarrow> bool" where
  "exits_to g a tgt \<longleftrightarrow> covered g a tgt \<or> brind_source g a"

lemma exits_grows: "exits_to g a tgt \<Longrightarrow> grows g g' \<Longrightarrow> exits_to g' a tgt"
  using covered_grows brind_source_grows by (auto simp: exits_to_def)

lemma on_mg_ok:
  assumes "\<exists>g'. f (an_mg t) = Inr g' \<and> grows (an_mg t) g' \<and> P g'"
  shows "\<exists>t'. on_mg f t = Inr t' \<and> analysed t t' \<and> an_insn_ip t' = an_insn_ip t \<and> an_control t' = an_control t \<and> P (an_mg t')"
proof -
  obtain g' where "f (an_mg t) = Inr g'" "grows (an_mg t) g'" "P g'" using assms by blast
  then show ?thesis by (intro exI [of _ "t\<lparr>an_mg := g'\<rparr>"]) (simp add: on_mg_def analysed_def)
qed

lemma analysed_GetNode: "analysed t t' \<Longrightarrow> GetNode (an_bb_ip t) (an_mg t) \<noteq> None \<Longrightarrow> GetNode (an_bb_ip t') (an_mg t') \<noteq> None"
  using grows_GetNode by (fastforce simp: analysed_def)

lemma analyse_link_ok:
  assumes "GetNode (an_bb_ip t) (an_mg t) \<noteq> None"
  shows "\<exists>t'. analyse_link i t = Inr t' \<and> analysed t t' \<and> an_insn_ip t' = an_insn_ip t \<and> an_control t' = an_control t"
proof (cases "insn_rd i = 0")
  case True
  then show ?thesis by (simp add: analyse_link_def analysed_def)
next
  case False
  then show ?thesis
    using on_mg_ok [where f = "mg_RecordLink (an_bb_ip t) (an_insn_ip t + 4)" and t = t and P = "\<lambda>_. True"] RecordLink_ok [OF assms]
    by (simp add: analyse_link_def)
qed

lemma analyse_then_link:
  assumes "GetNode (an_bb_ip t) (an_mg t) \<noteq> None"
    and "\<exists>g'. f (an_mg t) = Inr g' \<and> grows (an_mg t) g' \<and> P g'" and "\<forall>g g'. P g \<longrightarrow> grows g g' \<longrightarrow> P g'"
  shows "\<exists>t'. rbind (on_mg f t) (analyse_link i) = Inr t' \<and> analysed t t' \<and> an_insn_ip t' = an_insn_ip t \<and>
    an_control t' = an_control t \<and> P (an_mg t')"
proof -
  obtain t1 where t1: "on_mg f t = Inr t1" "analysed t t1" "an_insn_ip t1 = an_insn_ip t" "an_control t1 = an_control t" "P (an_mg t1)"
    using on_mg_ok [where f = f and P = P, OF assms(2)] by blast
  obtain t2 where t2: "analyse_link i t1 = Inr t2" "analysed t1 t2" "an_insn_ip t2 = an_insn_ip t1" "an_control t2 = an_control t1"
    using analyse_link_ok [OF analysed_GetNode [OF t1(2) assms(1)]] by blast
  have "grows (an_mg t1) (an_mg t2)" using t2(2) by (simp add: analysed_def)
  then have "P (an_mg t2)" using assms(3) t1(5) by blast
  then show ?thesis using t1 t2 analysed_trans by auto
qed

lemma AnalyseBrcc_ok:
  assumes "GetNode (an_bb_ip t) (an_mg t) \<noteq> None"
  shows "\<exists>t'. AnalyseBrcc i t = Inr t' \<and> analysed t t' \<and> an_insn_ip t' = an_insn_ip t \<and> an_control t' = an_control t \<and>
    covered (an_mg t') (an_bb_ip t) (an_insn_ip t + 4) \<and> covered (an_mg t') (an_bb_ip t) (an_insn_ip t + B_imm i)"
proof -
  let ?c = "\<lambda>tgt g. covered g (an_bb_ip t) tgt"
  obtain t1 where t1: "on_mg (mg_RecordGBr (an_bb_ip t) (an_insn_ip t + 4)) t = Inr t1" "analysed t t1"
      "an_insn_ip t1 = an_insn_ip t" "an_control t1 = an_control t" "?c (an_insn_ip t + 4) (an_mg t1)"
    using on_mg_ok [where f = "mg_RecordGBr (an_bb_ip t) (an_insn_ip t + 4)" and t = t and P = "?c (an_insn_ip t + 4)",
        OF RecordGBr_ok [OF assms]] by blast
  obtain t2 where t2: "on_mg (mg_RecordGBr (an_bb_ip t1) (an_insn_ip t1 + B_imm i)) t1 = Inr t2" "analysed t1 t2"
      "an_insn_ip t2 = an_insn_ip t1" "an_control t2 = an_control t1" "covered (an_mg t2) (an_bb_ip t1) (an_insn_ip t1 + B_imm i)"
    using on_mg_ok [where f = "mg_RecordGBr (an_bb_ip t1) (an_insn_ip t1 + B_imm i)" and t = t1 and
        P = "\<lambda>g. covered g (an_bb_ip t1) (an_insn_ip t1 + B_imm i)", OF RecordGBr_ok [OF analysed_GetNode [OF t1(2) assms]]] by blast
  have "grows (an_mg t1) (an_mg t2)" "an_bb_ip t1 = an_bb_ip t" using t1(2) t2(2) by (simp_all add: analysed_def)
  then show ?thesis using t1 t2 covered_grows analysed_trans by (fastforce simp: AnalyseBrcc_def)
qed

text \<open>Where the interpreter goes after one instruction.\<close>

lemma step_next_gip:
  assumes "interp_step st = Next st'" and "fetch (mem st) (gip st) = i"
  shows "\<not> has_flag (Decode i) Flags_Trap"
    and "\<not> has_flag (Decode i) Flags_Branch \<Longrightarrow> gip st' = gip st + 4"
    and "Decode i = Op_jal \<Longrightarrow> gip st' = gip st + J_imm i"
    and "Decode i \<in> {Op_beq, Op_bne, Op_blt, Op_bge, Op_bltu, Op_bgeu} \<Longrightarrow> gip st' \<in> {gip st + 4, gip st + B_imm i}"
proof -
  have h: "H (Decode i) i st = Next st'" using assms by (simp add: interp_step_def Let_def)
  show "\<not> has_flag (Decode i) Flags_Trap"
    using h by (auto simp: has_Trap H_def Impl_ill_def Impl_ecall_def Impl_ebreak_def RAISE_TRAP_def)
  show "gip st' = gip st + 4" if "\<not> has_flag (Decode i) Flags_Branch" using H_straight_gip [OF that h] .
  show "gip st' = gip st + J_imm i" if "Decode i = Op_jal"
    using h that by (auto simp: H_def Impl_jal_def RAISE_TRAP_def reg_defs Let_def has_Branch split: if_splits)
  show "gip st' \<in> {gip st + 4, gip st + B_imm i}" if "Decode i \<in> {Op_beq, Op_bne, Op_blt, Op_bge, Op_bltu, Op_bgeu}"
    using h that by (auto simp: H_def HANDLER_BCC_def RAISE_TRAP_def reg_defs Let_def has_Branch split: if_splits)
qed

text \<open>What analysing the instruction at \<open>a\<close> guarantees: the fields, and where a step from there can end.\<close>

definition insn_done :: "RV32Analyser \<Rightarrow> RV32Analyser \<Rightarrow> bool" where
  "insn_done t t' \<longleftrightarrow> analysed t t' \<and> an_insn_ip t' = an_insn_ip t + 4 \<and>
     (\<forall>st st'. gip st = an_insn_ip t \<and> fetch (mem st) (gip st) = fetch (an_vmem t) (gip st) \<and> interp_step st = Next st' \<longrightarrow>
        (if an_control t' = C_NEXT then gip st' = an_insn_ip t + 4
         else exits_to (an_mg t') (an_bb_ip t) (gip st')))"

lemma insn_doneD:
  assumes "insn_done t t'" and "gip st = an_insn_ip t" and "fetch (mem st) (gip st) = fetch (an_vmem t) (gip st)"
    and "interp_step st = Next st'"
  shows "an_control t' = C_NEXT \<Longrightarrow> an_insn_ip t' = an_insn_ip t + 4"
    and "an_control t' = C_NEXT \<Longrightarrow> gip st' = an_insn_ip t + 4"
    and "an_control t' \<noteq> C_NEXT \<Longrightarrow> exits_to (an_mg t') (an_bb_ip t) (gip st')"
  using assms unfolding insn_done_def by meson+

lemma H_analyse_done:
  assumes "V_analyse op i t = Inr t1" and "analysed t t1" and "an_insn_ip t1 = an_insn_ip t" and "an_control t1 = C_NEXT"
    and i: "i = fetch (an_vmem t) (an_insn_ip t)" "op = Decode i"
    and jal: "op = Op_jal \<Longrightarrow> exits_to (an_mg t1) (an_bb_ip t) (an_insn_ip t + J_imm i)"
    and jalr: "op = Op_jalr \<Longrightarrow> brind_source (an_mg t1) (an_bb_ip t)"
    and bcc: "op \<in> {Op_beq, Op_bne, Op_blt, Op_bge, Op_bltu, Op_bgeu} \<Longrightarrow>
      exits_to (an_mg t1) (an_bb_ip t) (an_insn_ip t + 4) \<and> exits_to (an_mg t1) (an_bb_ip t) (an_insn_ip t + B_imm i)"
  shows "\<exists>t'. AnalyseInsn t = Inr t' \<and> insn_done t t'"
proof -
  let ?b = "has_flag op Flags_Branch \<or> has_flag op Flags_Trap"
  let ?t = "(if ?b then t1\<lparr>an_control := C_BRANCH\<rparr> else t1)\<lparr>an_insn_ip := an_insn_ip t + 4\<rparr>"
  have a: "AnalyseInsn t = Inr ?t" using assms(1,3) i by (simp add: AnalyseInsn_def H_analyse_def Let_def)
  have m: "an_mg ?t = an_mg t1" "analysed t ?t" "an_insn_ip ?t = an_insn_ip t + 4" using assms(2) by (simp_all add: analysed_def)
  have c: "an_control ?t = C_NEXT \<longleftrightarrow> \<not> ?b" using assms(4) by simp
  have "if an_control ?t = C_NEXT then gip st' = an_insn_ip t + 4 else exits_to (an_mg ?t) (an_bb_ip t) (gip st')"
    if r: "gip st = an_insn_ip t" "fetch (mem st) (gip st) = fetch (an_vmem t) (gip st)" "interp_step st = Next st'" for st st'
  proof -
    have f: "fetch (mem st) (gip st) = i" using r i by simp
    note n = step_next_gip [OF r(3) f, folded i(2)]
    show ?thesis
    proof (cases "has_flag op Flags_Branch")
      case False
      then show ?thesis using n(1,2) c r(1) by simp
    next
      case True
      then consider "op = Op_jal" | "op = Op_jalr" | "op \<in> {Op_beq, Op_bne, Op_blt, Op_bge, Op_bltu, Op_bgeu}"
        by (auto simp: has_Branch)
      then have "exits_to (an_mg t1) (an_bb_ip t) (gip st')"
      proof cases
        case 1
        then show ?thesis using n(3) jal r(1) by simp
      next
        case 2
        then show ?thesis using jalr by (simp add: exits_to_def)
      next
        case 3
        then show ?thesis using n(4) [OF 3] bcc [OF 3] r(1) by auto
      qed
      then show ?thesis using c True m(1) by simp
    qed
  qed
  then show ?thesis using a m(2,3) unfolding insn_done_def by blast
qed

lemma AnalyseInsn_ok:
  assumes "GetNode (an_bb_ip t) (an_mg t) \<noteq> None" and "an_control t = C_NEXT"
    and "Decode (fetch (an_vmem t) (an_insn_ip t)) \<noteq> Op_ill"
  shows "\<exists>t'. AnalyseInsn t = Inr t' \<and> insn_done t t'"
proof -
  let ?i = "fetch (an_vmem t) (an_insn_ip t)" and ?bcc = "{Op_beq, Op_bne, Op_blt, Op_bge, Op_bltu, Op_bgeu}"
  consider (jal) "Decode ?i = Op_jal" | (jalr) "Decode ?i = Op_jalr" | (bcc) "Decode ?i \<in> ?bcc"
    | (other) "Decode ?i \<notin> ?bcc \<union> {Op_ill, Op_jal, Op_jalr}" using assms(3) by auto
  then show ?thesis
  proof cases
    case jal
    have "\<forall>g g'. covered g (an_bb_ip t) (an_insn_ip t + J_imm ?i) \<longrightarrow> grows g g' \<longrightarrow>
        covered g' (an_bb_ip t) (an_insn_ip t + J_imm ?i)" using covered_grows by blast
    from analyse_then_link [where f = "mg_RecordGBr (an_bb_ip t) (an_insn_ip t + J_imm ?i)" and t = t and i = ?i and
        P = "\<lambda>g. covered g (an_bb_ip t) (an_insn_ip t + J_imm ?i)", OF assms(1)
        RecordGBr_ok [OF assms(1)] this]
    obtain t1 where "V_analyse Op_jal ?i t = Inr t1" "analysed t t1" "an_insn_ip t1 = an_insn_ip t" "an_control t1 = C_NEXT"
        "covered (an_mg t1) (an_bb_ip t) (an_insn_ip t + J_imm ?i)" using assms(2) by (auto simp: V_analyse_def)
    then show ?thesis by (intro H_analyse_done [OF _ _ _ _ refl jal [symmetric]]) (auto simp: exits_to_def)
  next
    case jalr
    have "\<forall>g g'. brind_source g (an_bb_ip t) \<longrightarrow> grows g g' \<longrightarrow> brind_source g' (an_bb_ip t)"
      using brind_source_grows by blast
    from analyse_then_link [where f = "mg_RecordGBrind (an_bb_ip t)" and t = t and i = ?i and P = "\<lambda>g. brind_source g (an_bb_ip t)", OF assms(1) RecordGBrind_ok [OF assms(1)] this]
    obtain t1 where "V_analyse Op_jalr ?i t = Inr t1" "analysed t t1" "an_insn_ip t1 = an_insn_ip t" "an_control t1 = C_NEXT"
        "brind_source (an_mg t1) (an_bb_ip t)" using assms(2) by (auto simp: V_analyse_def)
    then show ?thesis by (intro H_analyse_done [OF _ _ _ _ refl jalr [symmetric]]) (simp_all add: exits_to_def)
  next
    case bcc
    then have "V_analyse (Decode ?i) ?i t = AnalyseBrcc ?i t" by (auto simp: V_analyse_def)
    with AnalyseBrcc_ok [OF assms(1), of ?i] obtain t1 where "V_analyse (Decode ?i) ?i t = Inr t1" "analysed t t1"
        "an_insn_ip t1 = an_insn_ip t" "an_control t1 = C_NEXT" "covered (an_mg t1) (an_bb_ip t) (an_insn_ip t + 4)"
        "covered (an_mg t1) (an_bb_ip t) (an_insn_ip t + B_imm ?i)" using assms(2) by auto
    then show ?thesis using bcc by (intro H_analyse_done [OF _ _ _ _ refl refl]) (auto simp: exits_to_def)
  next
    case other
    then have "V_analyse (Decode ?i) ?i t = Inr t" by (cases "Decode ?i") (simp_all add: V_analyse_def)
    then show ?thesis using other assms(2) by (intro H_analyse_done [OF _ _ _ _ refl refl]) (auto simp: analysed_def)
  qed
qed

lemma AnalyseInsn_ill: "Decode (fetch (an_vmem t) (an_insn_ip t)) = Op_ill \<Longrightarrow> AnalyseInsn t = Inl Panic"
  by (simp add: AnalyseInsn_def H_analyse_def V_analyse_def)

section \<open>Blocks\<close>

text \<open>The bytes at the guest program counter are those of \<open>vm\<close> in each of the next \<open>n\<close> steps.\<close>

definition same_code :: "vmem \<Rightarrow> nat \<Rightarrow> hstate \<Rightarrow> bool" where
  "same_code vm n st \<longleftrightarrow>
     (\<forall>k<n. \<forall>stk. interp_steps k st = Some stk \<longrightarrow> fetch (mem stk) (gip stk) = fetch vm (gip stk))"

lemma same_code_Suc:
  assumes "same_code vm (Suc n) st"
  shows "fetch (mem st) (gip st) = fetch vm (gip st)" and "interp_step st = Next st' \<Longrightarrow> same_code vm n st'"
proof -
  have "\<forall>stk. interp_steps 0 st = Some stk \<longrightarrow> fetch (mem stk) (gip stk) = fetch vm (gip stk)"
    using assms unfolding same_code_def by blast
  then show "fetch (mem st) (gip st) = fetch vm (gip st)" by simp
  assume n: "interp_step st = Next st'"
  show "same_code vm n st'" unfolding same_code_def
  proof (intro allI impI)
    fix k stk
    assume "k < n" "interp_steps k st' = Some stk"
    then have "Suc k < Suc n" "interp_steps (Suc k) st = Some stk" using n by simp_all
    then show "fetch (mem stk) (gip stk) = fetch vm (gip stk)" using assms unfolding same_code_def by blast
  qed
qed

text \<open>A run of \<open>n\<close> instructions from \<open>a\<close>: in sequence, and accounted for at the end.\<close>

definition block_runs :: "vmem \<Rightarrow> ModuleGraph \<Rightarrow> u32 \<Rightarrow> u32 \<Rightarrow> nat \<Rightarrow> bool" where
  "block_runs vm g bb a n \<longleftrightarrow>
     (\<forall>st. gip st = a \<and> same_code vm n st \<longrightarrow>
        (\<forall>k<n. \<forall>stk. interp_steps k st = Some stk \<longrightarrow> gip stk = a + 4 * of_nat k) \<and>
        (\<forall>st'. interp_steps n st = Some st' \<longrightarrow> exits_to g bb (gip st')))"

lemma block_runsD:
  assumes "block_runs vm g bb a n" and "gip st = a" and "same_code vm n st"
  shows "k < n \<Longrightarrow> interp_steps k st = Some stk \<Longrightarrow> gip stk = a + 4 * of_nat k"
    and "interp_steps n st = Some st' \<Longrightarrow> exits_to g bb (gip st')"
  using assms unfolding block_runs_def by blast+

lemma block_runs_1:
  assumes "insn_done t t1" and "an_control t1 = C_NEXT \<Longrightarrow> exits_to g (an_bb_ip t) (an_insn_ip t1)" and "grows (an_mg t1) g"
  shows "block_runs (an_vmem t) g (an_bb_ip t) (an_insn_ip t) 1"
proof -
  have "exits_to g (an_bb_ip t) (gip st')"
    if s: "gip st = an_insn_ip t" "same_code (an_vmem t) (Suc 0) st" "interp_step st = Next st'" for st st'
  proof (cases "an_control t1 = C_NEXT")
    case True
    then have "gip st' = an_insn_ip t1" using insn_doneD(1,2) [OF assms(1) s(1) same_code_Suc(1) [OF s(2)] s(3)] by simp
    then show ?thesis using assms(2) True by simp
  next
    case False
    then have "exits_to (an_mg t1) (an_bb_ip t) (gip st')"
      by (rule insn_doneD(3) [OF assms(1) s(1) same_code_Suc(1) [OF s(2)] s(3)])
    then show ?thesis using exits_grows assms(3) by blast
  qed
  then show ?thesis unfolding block_runs_def by (auto split: hres.splits)
qed

lemma block_runs_Suc:
  assumes "insn_done t t1" and "an_control t1 = C_NEXT" and "block_runs (an_vmem t) g bb (an_insn_ip t1) n"
  shows "block_runs (an_vmem t) g bb (an_insn_ip t) (Suc n)"
  unfolding block_runs_def
proof (intro allI impI, elim conjE)
  fix st
  assume st: "gip st = an_insn_ip t" "same_code (an_vmem t) (Suc n) st"
  have ip1: "an_insn_ip t1 = an_insn_ip t + 4" using assms(1) by (simp add: insn_done_def)
  have nx: "gip st1 = an_insn_ip t1 \<and> same_code (an_vmem t) n st1" if "interp_step st = Next st1" for st1
    using insn_doneD(1,2) [OF assms(1) st(1) same_code_Suc(1) [OF st(2)] that assms(2)] same_code_Suc(2) [OF st(2) that] by simp
  have "gip stk = an_insn_ip t + 4 * of_nat k" if k: "k < Suc n" "interp_steps k st = Some stk" for k stk
  proof (cases k)
    case 0
    then show ?thesis using k st(1) by simp
  next
    case (Suc j)
    then obtain st1 where "interp_step st = Next st1" "interp_steps j st1 = Some stk" using k(2) by (auto split: hres.splits)
    then have "gip stk = an_insn_ip t1 + 4 * of_nat j" using block_runsD(1) [OF assms(3)] nx Suc k(1) by blast
    then show ?thesis using Suc ip1 by (simp add: algebra_simps)
  qed
  moreover have "exits_to g bb (gip st')" if e: "interp_steps (Suc n) st = Some st'" for st'
  proof -
    obtain st1 where "interp_step st = Next st1" "interp_steps n st1 = Some st'" using e by (auto split: hres.splits)
    then show ?thesis using block_runsD(2) [OF assms(3)] nx by blast
  qed
  ultimately show "(\<forall>k<Suc n. \<forall>stk. interp_steps k st = Some stk \<longrightarrow> gip stk = an_insn_ip t + 4 * of_nat k) \<and>
      (\<forall>st'. interp_steps (Suc n) st = Some st' \<longrightarrow> exits_to g bb (gip st'))" by blast
qed

text \<open>What the loop leaves: an abort at an illegal instruction, or a block that is accounted for.\<close>

definition loop_ok :: "nat \<Rightarrow> RV32Analyser \<Rightarrow> RV32Analyser res \<Rightarrow> bool" where
  "loop_ok left t r \<longleftrightarrow>
     (case r of
        Inl f \<Rightarrow> f = Panic \<and> (\<exists>k<left. Decode (fetch (an_vmem t) (an_insn_ip t + 4 * of_nat k)) = Op_ill)
      | Inr t' \<Rightarrow> analysed t t' \<and>
          (\<exists>n. 0 < n \<and> n \<le> left \<and> an_insn_ip t' = an_insn_ip t + 4 * of_nat n \<and>
             block_runs (an_vmem t) (an_mg t') (an_bb_ip t) (an_insn_ip t) n))"

lemma loop_ok_next:
  assumes "insn_done t t1" and "an_control t1 = C_NEXT" and "loop_ok left t1 r"
  shows "loop_ok (Suc left) t r"
proof -
  have d: "analysed t t1" "an_insn_ip t1 = an_insn_ip t + 4" "an_vmem t1 = an_vmem t" "an_bb_ip t1 = an_bb_ip t"
    using assms(1) by (simp_all add: insn_done_def analysed_def)
  show ?thesis
  proof (cases r)
    case (Inl f)
    then obtain k where "f = Panic" "k < left" "Decode (fetch (an_vmem t) (an_insn_ip t + 4 * of_nat (Suc k))) = Op_ill"
      using assms(3) d by (auto simp: loop_ok_def algebra_simps)
    then show ?thesis using Inl unfolding loop_ok_def by (auto intro!: exI [of _ "Suc k"])
  next
    case (Inr t')
    then obtain n where n: "0 < n" "n \<le> left" "an_insn_ip t' = an_insn_ip t1 + 4 * of_nat n" "analysed t1 t'"
        "block_runs (an_vmem t) (an_mg t') (an_bb_ip t) (an_insn_ip t1) n" using assms(3) d by (auto simp: loop_ok_def)
    have "an_insn_ip t' = an_insn_ip t + 4 * of_nat (Suc n)" using n(3) d(2) by (simp add: algebra_simps)
    then show ?thesis
      using Inr n analysed_trans [OF d(1) n(4)] block_runs_Suc [OF assms(1,2) n(5)] unfolding loop_ok_def
      by (auto intro!: exI [of _ "Suc n"])
  qed
qed

lemma loop_ok_stop:
  assumes "insn_done t t1" and "analysed t1 t'" and "an_insn_ip t' = an_insn_ip t1"
    and "an_control t1 = C_NEXT \<Longrightarrow> exits_to (an_mg t') (an_bb_ip t) (an_insn_ip t1)"
  shows "loop_ok (Suc left) t (Inr t')"
proof -
  have d: "analysed t t1" "an_insn_ip t1 = an_insn_ip t + 4" "grows (an_mg t1) (an_mg t')"
    using assms(1,2) by (simp_all add: insn_done_def analysed_def)
  show ?thesis
    using analysed_trans [OF d(1) assms(2)] d(2) assms(3) block_runs_1 [OF assms(1,4) d(3)]
    by (auto simp: loop_ok_def intro!: exI [of _ 1])
qed

lemma analyse_loop_ok:
  assumes "GetNode (an_bb_ip t) (an_mg t) \<noteq> None" and "an_control t = C_NEXT" and "0 < left"
  shows "loop_ok left t (analyse_loop left boundary t)"
  using assms
proof (induction left arbitrary: t)
  case (Suc left)
  show ?case
  proof (cases "Decode (fetch (an_vmem t) (an_insn_ip t)) = Op_ill")
    case True
    then show ?thesis using AnalyseInsn_ill by (auto simp: loop_ok_def intro!: exI [of _ 0])
  next
    case False
    obtain t1 where t1: "AnalyseInsn t = Inr t1" "insn_done t t1" using AnalyseInsn_ok [OF Suc.prems(1,2) False] by blast
    have an: "analysed t t1" "an_bb_ip t1 = an_bb_ip t" using t1(2) by (simp_all add: insn_done_def analysed_def)
    note g1 = analysed_GetNode [OF an(1) Suc.prems(1)]
    consider (branch) "an_control t1 \<noteq> C_NEXT" | (stop) "an_control t1 = C_NEXT" "left = 0 \<or> boundary \<le> an_insn_ip t1"
      | (next') "an_control t1 = C_NEXT" "\<not> (left = 0 \<or> boundary \<le> an_insn_ip t1)" by blast
    then show ?thesis
    proof cases
      case branch
      then show ?thesis using t1 loop_ok_stop [OF t1(2), of t1 left] by (simp add: analysed_def)
    next
      case stop
      let ?t = "t1\<lparr>an_control := C_TB_OVF\<rparr>"
      have g2: "GetNode (an_bb_ip t1) (an_mg ?t) \<noteq> None" using g1 by simp
      obtain t' where t': "on_mg (mg_RecordGBr (an_bb_ip t1) (an_insn_ip t1)) ?t = Inr t'" "analysed ?t t'" "an_insn_ip t' = an_insn_ip t1"
          "covered (an_mg t') (an_bb_ip t1) (an_insn_ip t1)"
        using on_mg_ok [where f = "mg_RecordGBr (an_bb_ip t1) (an_insn_ip t1)" and t = ?t and
            P = "\<lambda>g. covered g (an_bb_ip t1) (an_insn_ip t1)", OF RecordGBr_ok [OF g2]] by auto
      have "loop_ok (Suc left) t (Inr t')"
        using loop_ok_stop [OF t1(2), of t'] t'(2-4) an(2) by (simp add: analysed_def exits_to_def)
      then show ?thesis using t1(1) stop t'(1) by auto
    next
      case next'
      then have "loop_ok left t1 (analyse_loop left boundary t1)" using Suc.IH g1 by simp
      then show ?thesis using loop_ok_next [OF t1(2) next'(1)] next' t1(1) by simp
    qed
  qed
qed simp

definition set_ip_end :: "u32 \<Rightarrow> u32 \<Rightarrow> ModuleGraph \<Rightarrow> ModuleGraph" where
  "set_ip_end a e = upd_node (Some a) (\<lambda>d. d\<lparr>mn_ip_end := e\<rparr>)"

lemma set_ip_end_simps [simp]:
  "GetNode b (set_ip_end a e g) = GetNode b g"
  "covered (set_ip_end a e g) b tgt = covered g b tgt"
  "brind_source (set_ip_end a e g) b = brind_source g b"
  "exits_to (set_ip_end a e g) b tgt = exits_to g b tgt"
  "block_runs vm (set_ip_end a e g) b c n = block_runs vm g b c n"
proof -
  show g: "GetNode b (set_ip_end a e g) = GetNode b g" for b
  proof -
    have "sm_find b (ip_map (set_ip_end a e g)) = None \<longleftrightarrow> sm_find b (ip_map g) = None"
      using node_at_upd [of "Some a" "\<lambda>d. d\<lparr>mn_ip_end := e\<rparr>" g "Some b"] by (auto simp: node_at_def set_ip_end_def split: if_splits)
    then show ?thesis by (auto simp: GetNode_def InModule_def set_ip_end_def split: option.splits)
  qed
  show c: "covered (set_ip_end a e g) b tgt = covered g b tgt" for tgt
    unfolding covered_def g by (auto simp: set_ip_end_def split: if_splits option.splits)
  show b: "brind_source (set_ip_end a e g) b = brind_source g b" by (auto simp: brind_source_def set_ip_end_def)
  show "exits_to (set_ip_end a e g) b tgt = exits_to g b tgt" for tgt by (simp add: exits_to_def c b)
  then show "block_runs vm (set_ip_end a e g) b c n = block_runs vm g b c n" by (simp add: block_runs_def)
qed

text \<open>The node of a block holds its end, one to 64 instructions on, and its runs are accounted for.\<close>

definition block_ok :: "vmem \<Rightarrow> ModuleGraph \<Rightarrow> u32 \<Rightarrow> bool" where
  "block_ok vm g a \<longleftrightarrow>
     (\<exists>n d. 0 < n \<and> n \<le> TB_MAX_INSNS \<and> node_at g (Some a) = Some d \<and> mn_ip_end d = a + 4 * of_nat n \<and> block_runs vm g a a n)"

lemma block_ok_grows: "block_ok vm g a \<Longrightarrow> grows g g' \<Longrightarrow> block_ok vm g' a"
proof -
  assume b: "block_ok vm g a" and g: "grows g g'"
  from b obtain n d where n: "0 < n" "n \<le> TB_MAX_INSNS" "node_at g (Some a) = Some d" "mn_ip_end d = a + 4 * of_nat n"
    "block_runs vm g a a n" by (auto simp: block_ok_def)
  obtain d' where "node_at g' (Some a) = Some d'" "mn_ip_end d' = mn_ip_end d"
    using g n(3) unfolding grows_def node_le_def by blast
  moreover have "block_runs vm g' a a n" using n(5) exits_grows [OF _ g] unfolding block_runs_def by blast
  ultimately show "block_ok vm g' a" using n unfolding block_ok_def by auto
qed

lemma block_ok_set_ip_end: "block_ok vm g b \<Longrightarrow> b \<noteq> a \<Longrightarrow> block_ok vm (set_ip_end a e g) b"
  unfolding block_ok_def by (simp add: set_ip_end_def [symmetric]) (simp add: set_ip_end_def)

lemma Analyse_ok:
  assumes "GetNode a g \<noteq> None"
  shows "case Analyse g a boundary vm of
      Inl f \<Rightarrow> f = Panic \<and> (\<exists>k<TB_MAX_INSNS. Decode (fetch vm (a + 4 * of_nat k)) = Op_ill)
    | Inr g' \<Rightarrow> (\<exists>g1 e. grows g g1 \<and> g' = set_ip_end a e g1) \<and> block_ok vm g' a"
proof -
  let ?t = "(NewAnalyser g a vm)\<lparr>an_insn_ip := a\<rparr>"
  have t: "an_bb_ip ?t = a" "an_mg ?t = g" "an_control ?t = C_NEXT" "an_vmem ?t = vm" "an_insn_ip ?t = a"
    by (simp_all add: NewAnalyser_def)
  have l: "loop_ok TB_MAX_INSNS ?t (analyse_loop TB_MAX_INSNS boundary ?t)"
    using assms by (intro analyse_loop_ok) (simp_all add: t TB_MAX_INSNS_def)
  show ?thesis
  proof (cases "analyse_loop TB_MAX_INSNS boundary ?t")
    case (Inl f)
    then show ?thesis using l by (simp add: Analyse_def loop_ok_def t)
  next
    case (Inr t')
    then obtain n where n: "0 < n" "n \<le> TB_MAX_INSNS" "an_insn_ip t' = a + 4 * of_nat n" "block_runs vm (an_mg t') a a n"
      and an: "analysed ?t t'" using l by (auto simp: loop_ok_def t)
    have g: "grows g (an_mg t')" "an_bb_ip t' = a" using an t by (simp_all add: analysed_def)
    have a: "GetNode a (an_mg t') = Some (Some a)" "Some a \<in> nodes (an_mg t')"
      using assms grows_GetNode [OF g(1), of a] GetNode_node [of a "an_mg t'"] by auto
    let ?g = "set_ip_end a (an_insn_ip t') (an_mg t')"
    have "Analyse g a boundary vm = Inr ?g"
      using Inr a g(2) by (simp add: Analyse_def GetNode_res_def set_node_ok set_ip_end_def)
    moreover obtain d where "node_at ?g (Some a) = Some d" "mn_ip_end d = a + 4 * of_nat n"
      using a(2) n(3) by (auto simp: nodes_at set_ip_end_def)
    then have "block_ok vm ?g a" using n by (auto simp: block_ok_def)
    ultimately show ?thesis using g(1) by auto
  qed
qed

text \<open>C34. The analysis of a block is sound for the interpreter. It aborts only at an illegal instruction among the
  at most 64 it looks at. Otherwise it records the end of the block, one to 64 instructions on, and every
  run through those instructions proceeds in sequence and then goes to a recorded successor of the block,
  or to an address outside the graph and the block is flagged for that, or the block is flagged as the
  source of an indirect branch.\<close>

theorem analyse_covers_control_flow:
  assumes "GetNode a g \<noteq> None"
  shows "case Analyse g a boundary vm of
      Inl f \<Rightarrow> f = Panic \<and> (\<exists>k<TB_MAX_INSNS. Decode (fetch vm (a + 4 * of_nat k)) = Op_ill)
    | Inr g' \<Rightarrow> \<exists>n d. 0 < n \<and> n \<le> TB_MAX_INSNS \<and> node_at g' (Some a) = Some d \<and> mn_ip_end d = a + 4 * of_nat n \<and>
        (\<forall>st. gip st = a \<and> same_code vm n st \<longrightarrow>
           (\<forall>k<n. \<forall>stk. interp_steps k st = Some stk \<longrightarrow> gip stk = a + 4 * of_nat k) \<and>
           (\<forall>st'. interp_steps n st = Some st' \<longrightarrow>
              (case GetNode (gip st') g' of Some m \<Rightarrow> m \<in> set (mn_succs d) | None \<Rightarrow> mn_crosssegment_br d) \<or>
              mn_brind_source d))"
proof (cases "Analyse g a boundary vm")
  case (Inl f)
  then show ?thesis using Analyse_ok [OF assms, where vm = vm and boundary = boundary] by simp
next
  case (Inr g')
  then obtain n d where n: "0 < n" "n \<le> TB_MAX_INSNS" "node_at g' (Some a) = Some d" "mn_ip_end d = a + 4 * of_nat n"
      "block_runs vm g' a a n" using Analyse_ok [OF assms, where vm = vm and boundary = boundary] by (auto simp: block_ok_def)
  have e: "exits_to g' a tgt \<longleftrightarrow>
      (case GetNode tgt g' of Some m \<Rightarrow> m \<in> set (mn_succs d) | None \<Rightarrow> mn_crosssegment_br d) \<or> mn_brind_source d" for tgt
    using n(3) by (simp add: exits_to_def covered_def brind_source_def)
  show ?thesis using Inr n unfolding block_runs_def e by (auto intro!: exI [of _ n])
qed

definition two_insns :: vmem where
  "two_insns a = (if a = 0x1000 then 0x0f else if a = 0x1004 then 0x6f else 0)"

theorem analyse_covers_control_flow_witness:
  "case Analyse ((NewModuleGraph \<lparr>gip_base = 0x1000, seg_size = 0x1000\<rparr>)\<lparr>ip_map := [(0x1000, NewNode 0x1000)]\<rparr>) 0x1000 0x2000 two_insns of
      Inl f \<Rightarrow> f = Panic \<and> (\<exists>k<TB_MAX_INSNS. Decode (fetch two_insns (0x1000 + 4 * of_nat k)) = Op_ill)
    | Inr g' \<Rightarrow> \<exists>n d. 0 < n \<and> n \<le> TB_MAX_INSNS \<and> node_at g' (Some 0x1000) = Some d \<and> mn_ip_end d = 0x1000 + 4 * of_nat n \<and>
        (\<forall>st. gip st = 0x1000 \<and> same_code two_insns n st \<longrightarrow>
           (\<forall>k<n. \<forall>stk. interp_steps k st = Some stk \<longrightarrow> gip stk = 0x1000 + 4 * of_nat k) \<and>
           (\<forall>st'. interp_steps n st = Some st' \<longrightarrow>
              (case GetNode (gip st') g' of Some m \<Rightarrow> m \<in> set (mn_succs d) | None \<Rightarrow> mn_crosssegment_br d) \<or>
              mn_brind_source d))"
  by (rule analyse_covers_control_flow) (simp add: GetNode_def InModule_def InSegment_def NewModuleGraph_def sm_find_def)

end
