(* ===== verification/ModuleGraph_Correct.thy ===== *)
theory ModuleGraph_Correct
  imports ModuleGraph
begin

text \<open>
  Correctness of the graph algorithms. The two depth-first loops are instances of one abstract search,
  whose invariant is proved in a locale: what is visited at the end is exactly what is reachable over
  the nodes the search may enter. Then: regions, region entries as a closure under dominance
  frontiers, dominators, and the width of the marker's argument.
\<close>

section \<open>Depth-first search with a stack\<close>

primrec pending :: "('n \<times> 'n list) list \<Rightarrow> 'n \<Rightarrow> 'n \<Rightarrow> bool" where
  "pending [] v s \<longleftrightarrow> False"
| "pending (p # stk) v s \<longleftrightarrow> fst p = v \<and> s \<in> set (snd p) \<or> pending stk v s"

locale dfs_visit =
  fixes succs :: "'n \<Rightarrow> 'n list" and allowed :: "'n \<Rightarrow> bool"
begin

inductive reach :: "'n \<Rightarrow> 'n \<Rightarrow> bool" for e where
  start: "reach e e"
| step: "reach e n \<Longrightarrow> s \<in> set (succs n) \<Longrightarrow> allowed s \<Longrightarrow> reach e s"

text \<open>Between two steps: what is visited was reached, and a child of a visited node that was not visited and may
  be is still on the stack.\<close>

definition search_inv :: "'n \<Rightarrow> ('n \<times> 'n list) list \<Rightarrow> 'n set \<Rightarrow> bool" where
  "search_inv e stk V \<longleftrightarrow> e \<in> V \<and> fst ` set stk \<subseteq> V \<and> (\<forall>v\<in>V. reach e v) \<and>
     (\<forall>p\<in>set stk. set (snd p) \<subseteq> set (succs (fst p))) \<and>
     (\<forall>v\<in>V. \<forall>s\<in>set (succs v). s \<in> V \<or> \<not> allowed s \<or> pending stk v s)"

lemma search_start: "search_inv e [(e, succs e)] {e}"
  by (auto simp: search_inv_def intro: start)

lemma search_pop: "search_inv e ((n, []) # stk) V \<Longrightarrow> search_inv e stk V"
  by (auto simp: search_inv_def)

lemma search_skip: "search_inv e ((n, s # ss) # stk) V \<Longrightarrow> s \<in> V \<or> \<not> allowed s \<Longrightarrow> search_inv e ((n, ss) # stk) V"
  unfolding search_inv_def by (simp, blast)

lemma search_visit:
  assumes "search_inv e ((n, s # ss) # stk) V" and "allowed s"
  shows "search_inv e ((s, succs s) # (n, ss) # stk) (insert s V)"
proof -
  have "reach e s" using assms by (auto simp: search_inv_def intro: step)
  moreover have "s' \<in> insert s V \<or> \<not> allowed s' \<or> pending ((s, succs s) # (n, ss) # stk) v s'"
    if "v \<in> insert s V" "s' \<in> set (succs v)" for v s'
    using assms that by (auto simp: search_inv_def)
  ultimately show ?thesis using assms unfolding search_inv_def by auto
qed

lemma search_done: "search_inv e [] V \<Longrightarrow> V = {n. reach e n}"
proof -
  assume a: "search_inv e [] V"
  have "n \<in> V" if "reach e n" for n using that a by induction (auto simp: search_inv_def)
  then show ?thesis using a by (auto simp: search_inv_def)
qed

end

section \<open>Graphs that differ in marks only\<close>

definition same_graph :: "ModuleGraph \<Rightarrow> ModuleGraph \<Rightarrow> bool" where
  "same_graph g g' \<longleftrightarrow> map fst (ip_map g') = map fst (ip_map g) \<and>
     (\<forall>n. map_option (\<lambda>d. d\<lparr>mn_mark := 0\<rparr>) (node_at g' n) = map_option (\<lambda>d. d\<lparr>mn_mark := 0\<rparr>) (node_at g n))"

lemma same_graph_refl [simp]: "same_graph g g"
  by (simp add: same_graph_def)

lemma same_graph_trans: "same_graph g g' \<Longrightarrow> same_graph g' g'' \<Longrightarrow> same_graph g g''"
  by (simp add: same_graph_def)

lemma same_graph_mark: "same_graph g (upd_node n (\<lambda>d. d\<lparr>mn_mark := m\<rparr>) g)"
  by (auto simp: same_graph_def option.map_comp o_def)

lemma same_graph_markers [simp]: "same_graph g (g\<lparr>markers := k\<rparr>)"
  by (simp add: same_graph_def)

definition succs_of :: "ModuleGraph \<Rightarrow> nid \<Rightarrow> nid list" where
  "succs_of g n = (case node_at g n of None \<Rightarrow> [] | Some d \<Rightarrow> mn_succs d)"

definition preds_of :: "ModuleGraph \<Rightarrow> nid \<Rightarrow> nid list" where
  "preds_of g n = (case node_at g n of None \<Rightarrow> [] | Some d \<Rightarrow> mn_preds d)"

lemma same_graph_node:
  assumes "same_graph g g'" and "node_at g' n = Some d'"
  obtains d where "node_at g n = Some d" "d' = d\<lparr>mn_mark := mn_mark d'\<rparr>"
proof -
  have "map_option (\<lambda>d. d\<lparr>mn_mark := 0\<rparr>) (node_at g n) = Some (d'\<lparr>mn_mark := 0\<rparr>)"
    using assms by (metis option.simps(9) same_graph_def)
  then obtain d where d: "node_at g n = Some d" "d\<lparr>mn_mark := 0\<rparr> = d'\<lparr>mn_mark := 0\<rparr>" by auto
  then have "d' = d\<lparr>mn_mark := mn_mark d'\<rparr>" by (cases d; cases d') simp
  then show ?thesis using that d(1) by blast
qed

lemma same_graph_sym: "same_graph g g' \<Longrightarrow> same_graph g' g"
  by (simp add: same_graph_def)

lemma same_graph_simps:
  assumes "same_graph g g'"
  shows "nodes g' = nodes g" and "succs_of g' n = succs_of g n" and "preds_of g' n = preds_of g n"
    and "flagged g' n = flagged g n"
proof -
  show "nodes g' = nodes g" using assms unfolding same_graph_def nodes_def by (metis list.set_map)
  have e: "\<exists>d. node_at g n = Some d \<and> mn_succs d' = mn_succs d \<and> mn_preds d' = mn_preds d \<and> mn_region_entry d' = mn_region_entry d"
    if "node_at g' n = Some d'" for d'
    by (rule same_graph_node [OF assms that]) (metis ModuleGraphNode.select_convs(5,9,10) ModuleGraphNode.surjective ModuleGraphNode.update_convs(13))
  have n: "node_at g' n = None \<longleftrightarrow> node_at g n = None" using assms by (metis map_option_is_None same_graph_def)
  show "succs_of g' n = succs_of g n" "preds_of g' n = preds_of g n" "flagged g' n = flagged g n"
    using e n by (cases "node_at g' n"; fastforce simp: succs_of_def preds_of_def flagged_def)+
qed

text \<open>Edges stay inside the graph.\<close>

definition graph_wf :: "ModuleGraph \<Rightarrow> bool" where
  "graph_wf g \<longleftrightarrow> (\<forall>n. set (succs_of g n) \<subseteq> nodes g)"

lemma graph_wf_same: "same_graph g g' \<Longrightarrow> graph_wf g' = graph_wf g"
  by (simp add: graph_wf_def same_graph_simps)

section \<open>Two-state markers\<close>

definition mk_ok :: "Marker \<Rightarrow> ModuleGraph \<Rightarrow> bool" where
  "mk_ok mk g \<longleftrightarrow> unat (m_max mk) = unat (m_min mk) + 2 \<and> (\<forall>n d. node_at g n = Some d \<longrightarrow> mn_mark d < m_max mk)"

definition marked :: "Marker \<Rightarrow> ModuleGraph \<Rightarrow> nid set" where
  "marked mk g = {n. \<exists>d. node_at g n = Some d \<and> m_min mk < mn_mark d}"

lemma marked_nodes: "marked mk g \<subseteq> nodes g"
  by (auto simp: marked_def nodes_at)

lemma Marker_Get_ok:
  assumes "mk_ok mk g" and "n \<in> nodes g"
  obtains m where "Marker_Get mk n g = Inr m" "m = 0 \<longleftrightarrow> n \<notin> marked mk g"
proof -
  obtain d where d: "node_at g n = Some d" "mn_mark d < m_max mk" using assms by (auto simp: nodes_at mk_ok_def)
  have "(if mn_mark d < m_min mk then 0 else mn_mark d - m_min mk) = 0 \<longleftrightarrow> \<not> m_min mk < mn_mark d"
    by (cases "mn_mark d < m_min mk") (auto simp: not_less)
  then show ?thesis using d that [of "if mn_mark d < m_min mk then 0 else mn_mark d - m_min mk"]
    by (simp add: Marker_Get_def node_res_def marked_def)
qed

lemma Marker_Set_ok:
  assumes "mk_ok mk g" and "n \<in> nodes g"
  obtains g' where "Marker_Set mk n 1 g = Inr g'" "same_graph g g'" "mk_ok mk g'" "marked mk g' = insert n (marked mk g)"
    "markers g' = markers g"
proof -
  let ?g = "upd_node n (\<lambda>d. d\<lparr>mn_mark := 1 + m_min mk\<rparr>) g"
  obtain d where d: "node_at g n = Some d" "mn_mark d < m_max mk" using assms by (auto simp: nodes_at mk_ok_def)
  have mx: "unat (m_max mk) = unat (m_min mk) + 2" using assms(1) by (simp add: mk_ok_def)
  have "unat (m_max mk) < 2 ^ 16" by (rule order_less_le_trans [OF unsigned_less]) simp
  then have e: "unat (1 + m_min mk) = 1 + unat (m_min mk)" using mx by (simp add: unat_word_ariths)
  have "Marker_Set mk n 1 g = Inr ?g" using d mx by (simp add: Marker_Set_def node_res_def)
  moreover have "mk_ok mk ?g" using assms(1) e mx by (auto simp: mk_ok_def word_less_nat_alt)
  moreover have "marked mk ?g = insert n (marked mk g)" using d e by (auto simp: marked_def word_less_nat_alt)
  ultimately show ?thesis using that same_graph_mark by simp
qed

text \<open>All marks are at most where the next marker begins.\<close>

definition marks_fresh :: "ModuleGraph \<Rightarrow> bool" where
  "marks_fresh g \<longleftrightarrow> (\<forall>n d. node_at g n = Some d \<longrightarrow> mn_mark d \<le> k_max (markers g))"

lemma new_marker_ok:
  assumes "marks_fresh g" and "unat (k_max (markers g)) + 2 < 2 ^ 16" and "new_marker 2 g = (mk, g')"
  shows "mk_ok mk g'" and "marked mk g' = {}" and "same_graph g g'"
    and "unat (k_max (markers g')) = unat (k_max (markers g)) + 2" and "m_max mk = k_max (markers g')"
proof -
  have s: "mk = \<lparr>m_min = k_max (markers g), m_max = k_max (markers g) + 2\<rparr>"
      "g' = g\<lparr>markers := \<lparr>k_min = k_max (markers g), k_max = k_max (markers g) + 2\<rparr>\<rparr>"
    using assms(3) by (auto simp: new_marker_def NewMarker_def Let_def)
  have e: "unat (k_max (markers g) + 2) = unat (k_max (markers g)) + 2" using assms(2) by (simp add: unat_word_ariths)
  have "mn_mark d < k_max (markers g) + 2" if "node_at g n = Some d" for n d
    using assms(1) that e by (fastforce simp: marks_fresh_def word_less_nat_alt word_le_nat_alt)
  then show "mk_ok mk g'" using e by (auto simp: mk_ok_def s)
  show "marked mk g' = {}" using assms(1) by (auto simp: marked_def s marks_fresh_def not_less)
  show "same_graph g g'" "unat (k_max (markers g')) = unat (k_max (markers g)) + 2" "m_max mk = k_max (markers g')"
    using e by (simp_all add: s)
qed

lemma mk_ok_fresh: "mk_ok mk g \<Longrightarrow> m_max mk = k_max (markers g) \<Longrightarrow> marks_fresh g"
  by (force simp: mk_ok_def marks_fresh_def intro: less_imp_le)

section \<open>Regions\<close>

interpretation rg: dfs_visit "succs_of g" "\<lambda>n. \<not> flagged g n" for g .

interpretation al: dfs_visit "succs_of g" "\<lambda>_. True" for g .

definition region_done :: "ModuleGraph \<Rightarrow> nid \<Rightarrow> Marker \<Rightarrow> nid list \<Rightarrow> ModuleGraph \<Rightarrow> nid list \<Rightarrow> ModuleGraph \<Rightarrow> bool" where
  "region_done g0 e mk region g region' g' \<longleftrightarrow> same_graph g0 g' \<and> mk_ok mk g' \<and> markers g' = markers g \<and>
     set region' = {n. rg.reach g0 e n} \<and> distinct region' \<and> (\<exists>zs. region' = region @ zs)"

lemma region_push_ok:
  assumes "graph_wf g0" and "same_graph g0 g" and "mk_ok mk g" and "n \<in> nodes g0"
  shows "\<exists>x. region_push mk False n stk region g = Inr x \<and>
    (if n \<in> marked mk g \<or> flagged g0 n then x = (stk, region, g)
     else \<exists>g'. x = ((n, succs_of g0 n) # stk, region @ [n], g') \<and> same_graph g0 g' \<and> mk_ok mk g' \<and>
       marked mk g' = insert n (marked mk g) \<and> markers g' = markers g)"
proof -
  have n: "n \<in> nodes g" using assms(2,4) by (simp add: same_graph_simps(1))
  obtain d where d: "node_at g n = Some d" using n by (auto simp: nodes_at)
  have f: "mn_region_entry d = flagged g0 n" "mn_succs d = succs_of g0 n"
    using d same_graph_simps(2,4) [OF assms(2), of n] by (auto simp: flagged_def succs_of_def)
  obtain m where m: "Marker_Get mk n g = Inr m" "m = 0 \<longleftrightarrow> n \<notin> marked mk g" by (rule Marker_Get_ok [OF assms(3) n])
  obtain g' where g': "Marker_Set mk n 1 g = Inr g'" "same_graph g g'" "mk_ok mk g'" "marked mk g' = insert n (marked mk g)"
      "markers g' = markers g" by (rule Marker_Set_ok [OF assms(3) n])
  show ?thesis
    using m d f g' same_graph_trans [OF assms(2) g'(2)]
    by (cases "n \<in> marked mk g \<or> flagged g0 n") (auto simp: region_push_def node_res_def)
qed

lemma region_loop_ok:
  assumes "graph_wf g0" and "same_graph g0 g" and "mk_ok mk g" and "rg.search_inv g0 e stk (marked mk g)"
    and "set region = marked mk g" and "distinct region"
  shows "\<exists>region' g'. region_loop mk stk region g = Inr (region', g') \<and> region_done g0 e mk region g region' g'"
  using assms
proof (induction mk stk region g rule: region_loop.induct)
  case (1 mk region g)
  then show ?case using rg.search_done [OF "1.prems"(4)] by (auto simp: region_done_def)
next
  case (2 mk n stk region g)
  show ?case using "2.IH" [OF "2.prems"(1-3) rg.search_pop [OF "2.prems"(4)] "2.prems"(5,6)] by simp
next
  case (3 mk n s ss stk region g)
  have "s \<in> set (succs_of g0 n)" using "3.prems"(4) by (simp add: rg.search_inv_def)
  then have "s \<in> nodes g0" using "3.prems"(1) by (auto simp: graph_wf_def)
  from region_push_ok [OF "3.prems"(1-3) this, of "(n, ss) # stk" region] obtain x
    where x: "region_push mk False s ((n, ss) # stk) region g = Inr x"
      "if s \<in> marked mk g \<or> flagged g0 s then x = ((n, ss) # stk, region, g)
       else \<exists>g'. x = ((s, succs_of g0 s) # (n, ss) # stk, region @ [s], g') \<and> same_graph g0 g' \<and> mk_ok mk g' \<and>
         marked mk g' = insert s (marked mk g) \<and> markers g' = markers g" by blast
  show ?case
  proof (cases "s \<in> marked mk g \<or> flagged g0 s")
    case True
    then have "rg.search_inv g0 e ((n, ss) # stk) (marked mk g)" using rg.search_skip [OF "3.prems"(4)] by simp
    then show ?thesis using "3.IH" [OF x(1)] "3.prems" x True by simp
  next
    case False
    then obtain g' where g': "x = ((s, succs_of g0 s) # (n, ss) # stk, region @ [s], g')" "same_graph g0 g'" "mk_ok mk g'"
        "marked mk g' = insert s (marked mk g)" "markers g' = markers g" using x(2) by auto
    have "rg.search_inv g0 e ((s, succs_of g0 s) # (n, ss) # stk) (marked mk g')"
      using rg.search_visit [OF "3.prems"(4)] False g'(4) by simp
    then show ?thesis using "3.IH" [OF x(1)] "3.prems"(1,5,6) x(1) g' False by (auto simp: region_done_def)
  qed
qed

text \<open>A region is right: it begins with its entry, has no node twice, and consists of the entry and what is
  reachable from it without entering another region.\<close>

definition region_ok :: "ModuleGraph \<Rightarrow> nid \<Rightarrow> nid list \<Rightarrow> bool" where
  "region_ok g e r \<longleftrightarrow> r \<noteq> [] \<and> hd r = e \<and> distinct r \<and> set r = {n. rg.reach g e n}"

lemma compute_region_ok:
  assumes "graph_wf g0" and "same_graph g0 g" and "marks_fresh g" and "unat (k_max (markers g)) + 2 < 2 ^ 16" and "e \<in> nodes g0"
  shows "\<exists>r g'. compute_region e g = Inr (r, g') \<and> region_ok g0 e r \<and> same_graph g0 g' \<and> marks_fresh g' \<and>
    unat (k_max (markers g')) = unat (k_max (markers g)) + 2"
proof -
  obtain mk g1 where nm: "new_marker 2 g = (mk, g1)" by (cases "new_marker 2 g")
  note k = new_marker_ok [OF assms(3,4) nm]
  have s1: "same_graph g0 g1" using same_graph_trans [OF assms(2) k(3)] .
  have e: "e \<in> nodes g1" using assms(5) same_graph_simps(1) [OF s1] by simp
  obtain g2 where g2: "Marker_Set mk e 1 g1 = Inr g2" "same_graph g1 g2" "mk_ok mk g2" "marked mk g2 = insert e (marked mk g1)"
      "markers g2 = markers g1" by (rule Marker_Set_ok [OF k(1) e])
  have s2: "same_graph g0 g2" using same_graph_trans [OF s1 g2(2)] .
  obtain d where d: "node_at g1 e = Some d" using e by (auto simp: nodes_at)
  have "mn_succs d = succs_of g0 e" using d same_graph_simps(2) [OF s1, of e] by (simp add: succs_of_def)
  then have p: "region_push mk True e [] [] g1 = Inr ([(e, succs_of g0 e)], [e], g2)"
    using d g2(1) by (simp add: region_push_def node_res_def)
  have "rg.search_inv g0 e [(e, succs_of g0 e)] (marked mk g2)" using rg.search_start g2(4) k(2) by simp
  from region_loop_ok [OF assms(1) s2 g2(3) this, of "[e]"] g2(4) k(2)
  obtain r g3 where r: "region_loop mk [(e, succs_of g0 e)] [e] g2 = Inr (r, g3)" "region_done g0 e mk [e] g2 r g3" by auto
  have "region_ok g0 e r" "same_graph g0 g3" "mk_ok mk g3" "markers g3 = markers g1"
    using r(2) g2(5) by (auto simp: region_done_def region_ok_def)
  then show ?thesis using nm p r(1) k(4,5) mk_ok_fresh [of mk g3] by (auto simp: compute_region_def)
qed

lemma region_sets_ok:
  assumes "graph_wf g0" and "same_graph g0 g" and "marks_fresh g" and "set (map Some as) \<subseteq> nodes g0"
    and "unat (k_max (markers g)) + 2 * length as < 2 ^ 16"
  shows "\<exists>rs g'. region_sets as regions g = Inr (regions @ rs, g') \<and> same_graph g0 g' \<and>
    list_all2 (region_ok g0) (filter (flagged g0) (map Some as)) rs"
  using assms
proof (induction as arbitrary: regions g)
  case Nil
  then show ?case by auto
next
  case (Cons a as)
  have n: "Some a \<in> nodes g0" "set (map Some as) \<subseteq> nodes g0" using Cons.prems(4) by auto
  have "Some a \<in> nodes g" using n(1) same_graph_simps(1) [OF Cons.prems(2)] by simp
  then obtain d where d: "node_at g (Some a) = Some d" by (auto simp: nodes_at)
  then have f: "mn_region_entry d = flagged g0 (Some a)"
    using same_graph_simps(4) [OF Cons.prems(2), of "Some a"] by (simp add: flagged_def)
  show ?case
  proof (cases "flagged g0 (Some a)")
    case True
    have "unat (k_max (markers g)) + 2 < 2 ^ 16" using Cons.prems(5) by simp
    from compute_region_ok [OF Cons.prems(1-3) this n(1)] obtain r g1
      where r: "compute_region (Some a) g = Inr (r, g1)" "region_ok g0 (Some a) r" "same_graph g0 g1" "marks_fresh g1"
        "unat (k_max (markers g1)) = unat (k_max (markers g)) + 2" by blast
    from Cons.IH [OF Cons.prems(1) r(3,4) n(2), of "regions @ [r]"] r(5) Cons.prems(5) obtain rs g'
      where "region_sets as (regions @ [r]) g1 = Inr ((regions @ [r]) @ rs, g')" "same_graph g0 g'"
        "list_all2 (region_ok g0) (filter (flagged g0) (map Some as)) rs" by auto
    then show ?thesis using d f True r(1,2) by (intro exI [of _ "r # rs"]) (simp add: node_res_def)
  next
    case False
    from Cons.IH [OF Cons.prems(1-3) n(2), of regions] Cons.prems(5) obtain rs g'
      where "region_sets as regions g = Inr (regions @ rs, g')" "same_graph g0 g'"
        "list_all2 (region_ok g0) (filter (flagged g0) (map Some as)) rs" by auto
    then show ?thesis using d f False by (simp add: node_res_def)
  qed
qed

text \<open>A page with a loop: the entry 0x1000 goes to 0x1010, which goes on to 0x1020, an indirect target that goes back.\<close>

definition example_graph :: ModuleGraph where
  "example_graph =
     \<lparr>mg_segment = \<lparr>gip_base = 0x1000, seg_size = 0x1000\<rparr>,
      mg_root = (NewNode 0)\<lparr>mn_succs := [Some 0x1000, Some 0x1020]\<rparr>,
      ip_map =
        [(0x1000, (NewNode 0x1000)\<lparr>mn_segment_entry := True, mn_succs := [Some 0x1010], mn_preds := [None]\<rparr>),
         (0x1010, (NewNode 0x1010)\<lparr>mn_succs := [Some 0x1020], mn_preds := [Some 0x1000, Some 0x1020],
            mn_domfrontier := [Some 0x1020]\<rparr>),
         (0x1020, (NewNode 0x1020)\<lparr>mn_brind_target := True, mn_succs := [Some 0x1010], mn_preds := [None, Some 0x1010],
            mn_domfrontier := [Some 0x1010]\<rparr>)],
      markers = \<lparr>k_min = 0, k_max = 0\<rparr>\<rparr>"

lemma example_node_at:
  "node_at example_graph n =
     (if n = None then Some ((NewNode 0)\<lparr>mn_succs := [Some 0x1000, Some 0x1020]\<rparr>)
      else if n = Some 0x1000 then Some ((NewNode 0x1000)\<lparr>mn_segment_entry := True, mn_succs := [Some 0x1010], mn_preds := [None]\<rparr>)
      else if n = Some 0x1010 then Some ((NewNode 0x1010)\<lparr>mn_succs := [Some 0x1020], mn_preds := [Some 0x1000, Some 0x1020],
            mn_domfrontier := [Some 0x1020]\<rparr>)
      else if n = Some 0x1020 then Some ((NewNode 0x1020)\<lparr>mn_brind_target := True, mn_succs := [Some 0x1010], mn_preds := [None, Some 0x1010],
            mn_domfrontier := [Some 0x1010]\<rparr>)
      else None)"
  by (cases n) (auto simp: example_graph_def node_at_def sm_find_def)

text \<open>C32. The regions of a page: for every region entry, in address order, the computed region begins with the entry,
  lists no node twice, and holds exactly the nodes that can be reached from the entry without passing
  through another region entry; nothing but marks changes in the graph.\<close>

theorem region_sets_correct:
  assumes "graph_wf g" and "marks_fresh g" and "unat (k_max (markers g)) + 2 * length (ip_map g) < 2 ^ 16"
  shows "\<exists>regions g'. ComputeRegionDomSets g = Inr (regions, g') \<and> same_graph g g' \<and>
    list_all2 (\<lambda>e r. r \<noteq> [] \<and> hd r = e \<and> distinct r \<and> set r = {n. rg.reach g e n})
      (filter (flagged g) (map (Some \<circ> fst) (ip_map g))) regions"
proof -
  have n: "set (map Some (map fst (ip_map g))) \<subseteq> nodes g" by (auto simp: nodes_def)
  have r: "region_ok g = (\<lambda>e r. r \<noteq> [] \<and> hd r = e \<and> distinct r \<and> set r = {n. rg.reach g e n})"
    by (intro ext) (simp add: region_ok_def)
  from region_sets_ok [OF assms(1) same_graph_refl assms(2) n, of "[]"] assms(3)
  show ?thesis unfolding ComputeRegionDomSets_def r by simp
qed

theorem region_sets_correct_witness:
  "\<exists>regions g'. ComputeRegionDomSets (set_region_entry (Some 0x1020) example_graph) = Inr (regions, g') \<and>
    same_graph (set_region_entry (Some 0x1020) example_graph) g' \<and>
    list_all2 (\<lambda>e r. r \<noteq> [] \<and> hd r = e \<and> distinct r \<and>
        set r = {n. rg.reach (set_region_entry (Some 0x1020) example_graph) e n})
      [Some 0x1020] regions"
proof -
  let ?g = "set_region_entry (Some 0x1020) example_graph"
  have a: "graph_wf ?g" "marks_fresh ?g"
    by (auto simp: graph_wf_def succs_of_def nodes_at set_region_entry_def marks_fresh_def example_node_at NewNode_def
        split: if_splits)
  have f: "filter (flagged ?g) (map (Some \<circ> fst) (ip_map ?g)) = [Some 0x1020]"
    by (simp add: example_graph_def flagged_def set_region_entry_def upd_node_def node_at_def sm_find_def NewNode_def)
  have "unat (k_max (markers ?g)) + 2 * length (ip_map ?g) < 2 ^ 16"
    by (simp add: example_graph_def set_region_entry_def upd_node_def)
  from region_sets_correct [OF a this] show ?thesis unfolding f .
qed

section \<open>Region entries\<close>

definition frontier_of :: "ModuleGraph \<Rightarrow> nid \<Rightarrow> nid list" where
  "frontier_of g n = (case node_at g n of None \<Rightarrow> [] | Some d \<Rightarrow> mn_domfrontier d)"

definition df_rel :: "ModuleGraph \<Rightarrow> nid \<Rightarrow> nid \<Rightarrow> bool" where
  "df_rel g x y \<longleftrightarrow> y \<in> set (frontier_of g x)"

lemma frontier_set [simp]: "frontier_of (set_region_entry x g) n = frontier_of g n"
  by (auto simp: frontier_of_def set_region_entry_def split: option.splits)

lemma df_rel_set [simp]: "df_rel (set_region_entry x g) = df_rel g"
  by (simp add: df_rel_def fun_eq_iff)

lemma idf_push_ok:
  "set ys \<subseteq> nodes g \<Longrightarrow> idf_push g ys wl = Inr (rev (filter (\<lambda>y. \<not> flagged g y) ys) @ wl)"
proof (induction ys arbitrary: wl)
  case (Cons y ys)
  then obtain d where "node_at g y = Some d" by (auto simp: nodes_at)
  then show ?case using Cons by (auto simp: node_res_def flagged_def)
qed simp

definition entries_closed :: "ModuleGraph \<Rightarrow> nid list \<Rightarrow> bool" where
  "entries_closed g wl \<longleftrightarrow>
     (\<forall>x. flagged g x \<longrightarrow> x \<in> set wl \<or> (\<forall>y. df_rel g x y \<longrightarrow> flagged g y \<or> y \<in> set wl))"

lemma idf_loop_ok:
  assumes "\<forall>n. set (frontier_of g n) \<subseteq> nodes g" and "set wl \<subseteq> nodes g" and "entries_closed g wl"
  shows "\<exists>g'. idf_loop wl g = Inr g' \<and> nodes g' = nodes g \<and> df_rel g' = df_rel g \<and>
    (\<forall>n. flagged g' n \<longleftrightarrow> (\<exists>x. (flagged g x \<or> x \<in> set wl) \<and> (df_rel g)\<^sup>*\<^sup>* x n))"
  using assms
proof (induction wl g rule: idf_loop.induct)
  case (1 g)
  have "flagged g n" if "(df_rel g)\<^sup>*\<^sup>* x n" "flagged g x" for x n
    using that by induction (use "1.prems"(3) in \<open>auto simp: entries_closed_def\<close>)
  then show ?case by auto
next
  case (2 x wl g)
  let ?ys = "filter (\<lambda>y. \<not> flagged g y) (frontier_of g x)"
  let ?g = "set_region_entry x g" and ?wl = "rev ?ys @ wl"
  have x: "x \<in> nodes g" using "2.prems"(2) by simp
  then obtain d where d: "node_at g x = Some d" by (auto simp: nodes_at)
  then have fd: "mn_domfrontier d = frontier_of g x" by (simp add: frontier_of_def)
  have p: "rbind (node_res g x) (\<lambda>d. idf_push g (mn_domfrontier d) wl) = Inr ?wl"
    using d fd idf_push_ok "2.prems"(1) by (simp add: node_res_def)
  have "\<forall>n. set (frontier_of ?g n) \<subseteq> nodes ?g" "set ?wl \<subseteq> nodes ?g" using "2.prems"(1,2) by auto
  moreover have "entries_closed ?g ?wl"
    using "2.prems"(3) x unfolding entries_closed_def by (auto simp: df_rel_def)
  ultimately obtain g' where g': "idf_loop ?wl ?g = Inr g'" "nodes g' = nodes g" "df_rel g' = df_rel g"
      "\<forall>n. flagged g' n \<longleftrightarrow> (\<exists>z. (flagged ?g z \<or> z \<in> set ?wl) \<and> (df_rel g)\<^sup>*\<^sup>* z n)"
    using "2.IH" [OF p] by auto
  have st: "df_rel g x y" if "y \<in> set ?ys" for y using that by (simp add: df_rel_def)
  have "(\<exists>z. (flagged ?g z \<or> z \<in> set ?wl) \<and> (df_rel g)\<^sup>*\<^sup>* z n) \<longleftrightarrow>
      (\<exists>z. (flagged g z \<or> z \<in> set (x # wl)) \<and> (df_rel g)\<^sup>*\<^sup>* z n)" for n
    using x st by (auto intro: converse_rtranclp_into_rtranclp)
  moreover have "idf_loop (x # wl) g = idf_loop ?wl ?g" by (simp only: idf_loop.simps p rbind_simps)
  ultimately show ?case unfolding \<open>idf_loop (x # wl) g = idf_loop ?wl ?g\<close> using g' by (intro exI [of _ g']) blast
qed

definition seed :: "ModuleGraph \<Rightarrow> nid \<Rightarrow> bool" where
  "seed g n \<longleftrightarrow> n \<noteq> None \<and> (\<exists>d. node_at g n = Some d \<and> (mn_brind_target d \<or> mn_segment_entry d))"

lemma seed_set [simp]: "seed (set_region_entry x g) n = seed g n"
  by (auto simp: seed_def set_region_entry_def split: if_splits)

lemma idf_seeds_ok:
  assumes "set (map Some as) \<subseteq> nodes g"
  shows "\<exists>wl' g'. idf_seeds as wl g = Inr (wl', g') \<and> nodes g' = nodes g \<and> df_rel g' = df_rel g \<and>
    (\<forall>n. frontier_of g' n = frontier_of g n) \<and>
    set wl' = set wl \<union> {n \<in> set (map Some as). seed g n} \<and>
    (\<forall>n. flagged g' n \<longleftrightarrow> flagged g n \<or> n \<in> {n \<in> set (map Some as). seed g n})"
  using assms
proof (induction as arbitrary: wl g)
  case (Cons a as)
  have a: "Some a \<in> nodes g" "set (map Some as) \<subseteq> nodes g" using Cons.prems by auto
  then obtain d where d: "node_at g (Some a) = Some d" by (auto simp: nodes_at)
  show ?case
  proof (cases "seed g (Some a)")
    case True
    let ?g = "set_region_entry (Some a) g"
    from Cons.IH [of ?g "Some a # wl"] a obtain wl' g' where i: "idf_seeds as (Some a # wl) ?g = Inr (wl', g')"
        "nodes g' = nodes g" "df_rel g' = df_rel g" "\<forall>n. frontier_of g' n = frontier_of g n"
        "set wl' = insert (Some a) (set wl) \<union> {n \<in> set (map Some as). seed g n}"
        "\<forall>n. flagged g' n \<longleftrightarrow> (n = Some a \<or> flagged g n) \<or> n \<in> {n \<in> set (map Some as). seed g n}"
      by (auto simp: a(1))
    have "idf_seeds (a # as) wl g = idf_seeds as (Some a # wl) ?g"
      using True d by (auto simp: seed_def node_res_def set_region_entry_def)
    then show ?thesis using i True by (intro exI [of _ wl'] exI [of _ g']) auto
  next
    case False
    from Cons.IH [of g wl] a obtain wl' g' where i: "idf_seeds as wl g = Inr (wl', g')"
        "nodes g' = nodes g" "df_rel g' = df_rel g" "\<forall>n. frontier_of g' n = frontier_of g n"
        "set wl' = set wl \<union> {n \<in> set (map Some as). seed g n}"
        "\<forall>n. flagged g' n \<longleftrightarrow> flagged g n \<or> n \<in> {n \<in> set (map Some as). seed g n}" by auto
    have "idf_seeds (a # as) wl g = idf_seeds as wl g" using False d by (auto simp: seed_def node_res_def)
    then show ?thesis using i False by (intro exI [of _ wl'] exI [of _ g']) auto
  qed
qed simp

text \<open>C33. Region entries: from a graph without any, the computation always ends and marks exactly the nodes that are
  targets of indirect branches or of branches from other pages, and what their dominance frontiers
  lead to, over any number of steps.\<close>

theorem region_entries_correct:
  assumes "\<forall>n. set (frontier_of g n) \<subseteq> nodes g" and "\<forall>n. \<not> flagged g n"
  shows "\<exists>g'. ComputeRegionIDF g = Inr g' \<and>
    (\<forall>n. flagged g' n \<longleftrightarrow> (\<exists>x. seed g x \<and> (df_rel g)\<^sup>*\<^sup>* x n))"
proof -
  have k: "set (map Some (map fst (ip_map g))) \<subseteq> nodes g" by (auto simp: nodes_def)
  have s: "{n \<in> set (map Some (map fst (ip_map g))). seed g n} = {n. seed g n}"
    by (force simp: seed_def node_at_def sm_find_def dest: map_of_SomeD)
  from idf_seeds_ok [OF k, of "[]"] obtain wl g1 where i: "idf_seeds (map fst (ip_map g)) [] g = Inr (wl, g1)"
      "nodes g1 = nodes g" "df_rel g1 = df_rel g" "\<forall>n. frontier_of g1 n = frontier_of g n"
      "set wl = {n. seed g n}" "\<forall>n. flagged g1 n \<longleftrightarrow> seed g n"
    unfolding s using assms(2) by auto
  have w: "set wl \<subseteq> nodes g1" using i(2,5) by (auto simp: seed_def nodes_at)
  have c: "entries_closed g1 wl" using i(5,6) by (simp add: entries_closed_def)
  obtain g' where "idf_loop wl g1 = Inr g'"
      "\<forall>n. flagged g' n \<longleftrightarrow> (\<exists>x. (flagged g1 x \<or> x \<in> set wl) \<and> (df_rel g1)\<^sup>*\<^sup>* x n)"
    using idf_loop_ok [OF _ w c] i(2,4) assms(1) by auto
  then show ?thesis using i by (simp add: ComputeRegionIDF_def)
qed

theorem region_entries_correct_witness:
  "\<exists>g'. ComputeRegionIDF example_graph = Inr g' \<and> flagged g' (Some 0x1010) \<and> \<not> flagged g' None"
proof -
  have "\<forall>n. set (frontier_of example_graph n) \<subseteq> nodes example_graph" "\<forall>n. \<not> flagged example_graph n"
    by (auto simp: frontier_of_def flagged_def nodes_at example_node_at NewNode_def split: if_splits)
  from region_entries_correct [OF this] obtain g' where g': "ComputeRegionIDF example_graph = Inr g'"
    "\<forall>n. flagged g' n \<longleftrightarrow> (\<exists>x. seed example_graph x \<and> (df_rel example_graph)\<^sup>*\<^sup>* x n)" by blast
  have "seed example_graph (Some 0x1020)" "df_rel example_graph (Some 0x1020) (Some 0x1010)"
    by (simp_all add: seed_def df_rel_def frontier_of_def example_node_at NewNode_def)
  moreover have "n \<noteq> None" if "(df_rel example_graph)\<^sup>*\<^sup>* x n" "seed example_graph x" for x n
    using that by cases (auto simp: df_rel_def frontier_of_def seed_def example_node_at NewNode_def split: if_splits)
  ultimately show ?thesis using g' by blast
qed

end
