(* ===== verification/AOT.thy ===== *)
theory AOT
  imports RV32_Analyser ModuleGraph_Correct
begin

text \<open>
  The drivers of \<^verbatim>\<open>src/dbt/aot/aot.cpp\<close>: the module graph of a profiled page, and the compilation of the page's
  regions. What every recording operation keeps of the graph is a locale, and the analysis of a block keeps
  any such invariant; the one that matters is that edges are stored at both ends and that the graph is
  as the passes over it expect.
\<close>

section \<open>Pages\<close>

primrec record_entries :: "PageData \<Rightarrow> u32 \<Rightarrow> nat list \<Rightarrow> u32 list \<Rightarrow> ModuleGraph \<Rightarrow> (u32 list \<times> ModuleGraph) res" where
  "record_entries page page_vaddr [] iplist g = Inr (iplist, g)"
| "record_entries page page_vaddr (idx # idxs) iplist g =
     (if \<not> executed page ! idx then record_entries page page_vaddr idxs iplist g
      else
        let a = page_vaddr + idx2po (of_nat idx) in
        rbind (mg_RecordEntry a g) (\<lambda>g.
        rbind (if brind_target page ! idx then mg_RecordBrindTarget a g else Inr g) (\<lambda>g.
        rbind (if segment_entry page ! idx then mg_RecordSegmentEntry a g else Inr g) (\<lambda>g.
          record_entries page page_vaddr idxs (iplist @ [a]) g))))"

fun analyse_blocks :: "u32 list \<Rightarrow> u32 \<Rightarrow> vmem \<Rightarrow> ModuleGraph \<Rightarrow> ModuleGraph res" where
  "analyse_blocks [] next_page vm g = Inr g"
| "analyse_blocks [a] next_page vm g = Analyse g a next_page vm"
| "analyse_blocks (a # a' # as) next_page vm g =
     rbind (Analyse g a a' vm) (analyse_blocks (a' # as) next_page vm)"

definition BuildModuleGraph :: "PageData \<Rightarrow> vmem \<Rightarrow> ModuleGraph res" where
  "BuildModuleGraph page vm =
     (let page_vaddr = push_bit 12 (pageno page); next_page_vaddr = page_vaddr + ucast PAGE_SIZE in
      rbind (record_entries page page_vaddr [0..<1024] []
               (NewModuleGraph \<lparr>gip_base = page_vaddr, seg_size = ucast PAGE_SIZE\<rparr>)) (\<lambda>(iplist, g).
        analyse_blocks iplist next_page_vaddr vm g))"

text \<open>A region's ranges, with the assertions on its first node and on the job; \<open>do_job\<close> is the compiler.\<close>

primrec node_ranges :: "nid list \<Rightarrow> ModuleGraph \<Rightarrow> (u32 \<times> u32) list res" where
  "node_ranges [] g = Inr []"
| "node_ranges (n # ns) g =
     rbind (node_res g n) (\<lambda>d. rbind (node_ranges ns g) (\<lambda>rs. Inr ((mn_ip d, mn_ip_end d) # rs)))"

primrec compile_regions ::
  "(CodeSegment \<Rightarrow> (u32 \<times> u32) list \<Rightarrow> 's \<Rightarrow> 's res) \<Rightarrow> nid list list \<Rightarrow> ModuleGraph \<Rightarrow> 's \<Rightarrow> 's res" where
  "compile_regions do_job [] g s = Inr s"
| "compile_regions do_job (r # rs) g s =
     (case r of
        [] \<Rightarrow> Inl BadDeref
      | n # _ \<Rightarrow>
          rbind (node_res g n) (\<lambda>d.
            if \<not> mn_region_entry d then Inl AssertFailed
            else rbind (node_ranges r g) (\<lambda>ranges.
                 rbind (do_job (mg_segment g) ranges s) (compile_regions do_job rs g))))"

definition AOTCompilePage ::
  "(CodeSegment \<Rightarrow> (u32 \<times> u32) list \<Rightarrow> 's \<Rightarrow> 's res) \<Rightarrow> vmem \<Rightarrow> PageData \<Rightarrow> 's \<Rightarrow> 's res option" where
  "AOTCompilePage do_job vm page s =
     (case BuildModuleGraph page vm of
        Inl e \<Rightarrow> Some (Inl e)
      | Inr g \<Rightarrow>
          (case ComputeRegions g of
             None \<Rightarrow> None
           | Some (Inl e) \<Rightarrow> Some (Inl e)
           | Some (Inr (regions, g)) \<Rightarrow> Some (compile_regions do_job regions g s)))"

primrec compile_pages ::
  "(CodeSegment \<Rightarrow> (u32 \<times> u32) list \<Rightarrow> 's \<Rightarrow> 's res) \<Rightarrow> vmem \<Rightarrow> PageData list \<Rightarrow> 's \<Rightarrow> 's res option" where
  "compile_pages do_job vm [] s = Some (Inr s)"
| "compile_pages do_job vm (page # pgs) s =
     (case AOTCompilePage do_job vm page s of
        None \<Rightarrow> None
      | Some (Inl e) \<Rightarrow> Some (Inl e)
      | Some (Inr s) \<Rightarrow> compile_pages do_job vm pgs s)"

definition AOTCompileObject ::
  "(CodeSegment \<Rightarrow> (u32 \<times> u32) list \<Rightarrow> 's \<Rightarrow> 's res) \<Rightarrow> vmem \<Rightarrow> ElfProfile option \<Rightarrow> 's \<Rightarrow> 's res option" where
  "AOTCompileObject do_job vm prof s =
     (case GetProfile prof of Inl e \<Rightarrow> Some (Inl e) | Inr pgs \<Rightarrow> compile_pages do_job vm pgs s)"

section \<open>Invariants of recording\<close>

locale record_invariant =
  fixes P :: "ModuleGraph \<Rightarrow> bool"
  assumes keeps_gbr: "P g \<Longrightarrow> mg_RecordGBr a b g = Inr g' \<Longrightarrow> P g'"
    and keeps_gbrind: "P g \<Longrightarrow> mg_RecordGBrind a g = Inr g' \<Longrightarrow> P g'"
    and keeps_link: "P g \<Longrightarrow> mg_RecordLink a b g = Inr g' \<Longrightarrow> P g'"
    and keeps_end: "P g \<Longrightarrow> set_node n (\<lambda>d. d\<lparr>mn_ip_end := e\<rparr>) g = Inr g' \<Longrightarrow> P g'"
begin

lemma keeps_on_mg:
  "(\<And>g g'. P g \<Longrightarrow> f g = Inr g' \<Longrightarrow> P g') \<Longrightarrow> P (an_mg t) \<Longrightarrow> on_mg f t = Inr t' \<Longrightarrow> P (an_mg t')"
  by (auto simp: on_mg_def)

lemma keeps_analyse_link: "P (an_mg t) \<Longrightarrow> analyse_link i t = Inr t' \<Longrightarrow> P (an_mg t')"
  by (auto simp: analyse_link_def intro: keeps_on_mg [OF keeps_link] split: if_splits)

lemma keeps_brcc: "P (an_mg t) \<Longrightarrow> AnalyseBrcc i t = Inr t' \<Longrightarrow> P (an_mg t')"
  by (auto simp: AnalyseBrcc_def intro: keeps_on_mg [OF keeps_gbr])

lemma keeps_V: "P (an_mg t) \<Longrightarrow> V_analyse op i t = Inr t' \<Longrightarrow> P (an_mg t')"
  by (cases op) (auto simp: V_analyse_def intro: keeps_brcc keeps_analyse_link [OF keeps_on_mg [OF keeps_gbr]]
    keeps_analyse_link [OF keeps_on_mg [OF keeps_gbrind]])

lemma keeps_insn: "P (an_mg t) \<Longrightarrow> AnalyseInsn t = Inr t' \<Longrightarrow> P (an_mg t')"
  by (auto simp: AnalyseInsn_def H_analyse_def Let_def intro: keeps_V split: if_splits)

lemma keeps_loop: "P (an_mg t) \<Longrightarrow> analyse_loop left b t = Inr t' \<Longrightarrow> P (an_mg t')"
proof (induction left arbitrary: t)
  case (Suc left)
  then obtain t1 where t1: "AnalyseInsn t = Inr t1"
    "(if an_control t1 \<noteq> C_NEXT then Inr t1
      else if left = 0 \<or> b \<le> an_insn_ip t1
      then on_mg (mg_RecordGBr (an_bb_ip t1) (an_insn_ip t1)) (t1\<lparr>an_control := C_TB_OVF\<rparr>)
      else analyse_loop left b t1) = Inr t'" by auto
  have "P (an_mg t1)" using keeps_insn Suc.prems(1) t1(1) by blast
  then show ?case using t1(2) Suc.IH keeps_on_mg [where t = "t1\<lparr>an_control := C_TB_OVF\<rparr>", OF keeps_gbr]
    by (auto split: if_splits)
qed simp

lemma keeps_Analyse: "P g \<Longrightarrow> Analyse g a b vm = Inr g' \<Longrightarrow> P g'"
proof -
  assume p: "P g" and a: "Analyse g a b vm = Inr g'"
  from a obtain t n where t: "analyse_loop TB_MAX_INSNS b ((NewAnalyser g a vm)\<lparr>an_insn_ip := a\<rparr>) = Inr t"
    "set_node n (\<lambda>d. d\<lparr>mn_ip_end := an_insn_ip t\<rparr>) (an_mg t) = Inr g'" by (auto simp: Analyse_def)
  have "P (an_mg t)" by (rule keeps_loop [OF _ t(1)]) (simp add: NewAnalyser_def p)
  then show "P g'" using t(2) keeps_end by blast
qed

lemma keeps_analyse_blocks: "P g \<Longrightarrow> analyse_blocks as e vm g = Inr g' \<Longrightarrow> P g'"
  by (induction as e vm g rule: analyse_blocks.induct) (auto intro: keeps_Analyse)

end

text \<open>A graph that is built and not yet computed on: edges are stored at both ends, the root has an edge to exactly
  the entry points and none leads back to it, nodes know their address, and the fields the passes fill in
  are empty.\<close>

definition node_fresh :: "ModuleGraphNode \<Rightarrow> bool" where
  "node_fresh d \<longleftrightarrow> mn_dominator d = None \<and> mn_domfrontier d = [] \<and> mn_mark d = 0 \<and> \<not> mn_region_entry d"

definition graph_inv :: "ModuleGraph \<Rightarrow> bool" where
  "graph_inv g \<longleftrightarrow> sm_sorted (ip_map g) \<and> markers g = \<lparr>k_min = 0, k_max = 0\<rparr> \<and> preds_of g None = [] \<and>
     (\<forall>n m. m \<in> set (succs_of g n) \<longleftrightarrow> n \<in> set (preds_of g m)) \<and>
     (\<forall>n. n \<in> set (succs_of g None) \<longleftrightarrow> seed g n) \<and>
     (\<forall>n d. node_at g n = Some d \<longrightarrow> node_fresh d) \<and>
     (\<forall>a d. node_at g (Some a) = Some d \<longrightarrow> mn_ip d = a \<and> InModule a g)"

lemma graph_invD:
  assumes "graph_inv g"
  shows "sm_sorted (ip_map g)" and "markers g = \<lparr>k_min = 0, k_max = 0\<rparr> \<and> preds_of g None = []"
    and "m \<in> set (succs_of g n) \<longleftrightarrow> n \<in> set (preds_of g m)" and "n \<in> set (succs_of g None) \<longleftrightarrow> seed g n"
    and "node_at g n = Some d \<Longrightarrow> node_fresh d" and "node_at g (Some a) = Some d \<Longrightarrow> mn_ip d = a \<and> InModule a g"
  using assms unfolding graph_inv_def by blast+

lemma succs_of_upd [simp]:
  "succs_of (upd_node n f g) m = (if m = n \<and> n \<in> nodes g then mn_succs (f (the (node_at g n))) else succs_of g m)"
  by (auto simp: succs_of_def nodes_at split: option.splits)

lemma preds_of_upd [simp]:
  "preds_of (upd_node n f g) m = (if m = n \<and> n \<in> nodes g then mn_preds (f (the (node_at g n))) else preds_of g m)"
  by (auto simp: preds_of_def nodes_at split: option.splits)

definition keeps_shape :: "(ModuleGraphNode \<Rightarrow> ModuleGraphNode) \<Rightarrow> bool" where
  "keeps_shape f \<longleftrightarrow> (\<forall>d. mn_succs (f d) = mn_succs d \<and> mn_preds (f d) = mn_preds d \<and> mn_brind_target (f d) = mn_brind_target d \<and>
     mn_segment_entry (f d) = mn_segment_entry d \<and> (node_fresh d \<longrightarrow> node_fresh (f d)) \<and> mn_ip (f d) = mn_ip d)"

lemma seed_upd:
  "(\<And>d. mn_brind_target (f d) = mn_brind_target d \<and> mn_segment_entry (f d) = mn_segment_entry d) \<Longrightarrow> seed (upd_node n f g) = seed g"
  by (auto simp: seed_def fun_eq_iff)

lemma graph_inv_upd:
  assumes "graph_inv g" and "keeps_shape f"
  shows "graph_inv (upd_node n f g)"
proof -
  have k: "sm_sorted (ip_map (upd_node n f g))" using assms(1) by (simp add: graph_inv_def sm_sorted_def)
  have s: "succs_of (upd_node n f g) m = succs_of g m" "preds_of (upd_node n f g) m = preds_of g m" for m
    using assms(2) by (auto simp: succs_of_def preds_of_def keeps_shape_def split: option.splits)
  have e: "seed (upd_node n f g) m = seed g m" for m
    using assms(2) by (auto simp: seed_def keeps_shape_def)
  have i: "InModule a (upd_node n f g) = InModule a g" for a by (simp add: InModule_def)
  show ?thesis using assms k unfolding graph_inv_def s e i by (auto simp: keeps_shape_def split: if_splits)
qed

lemma graph_inv_set_node: "graph_inv g \<Longrightarrow> keeps_shape f \<Longrightarrow> set_node n f g = Inr g' \<Longrightarrow> graph_inv g'"
  using graph_inv_upd by (auto simp: set_node_def)

lemma graph_inv_wf:
  assumes "graph_inv g"
  shows "graph_wf g" and "marks_fresh g" and "\<not> flagged g n"
proof -
  have "m \<in> nodes g" if "m \<in> set (succs_of g n)" for n m
  proof -
    have "preds_of g m \<noteq> []" using assms that by (auto simp: graph_inv_def)
    then show ?thesis by (auto simp: preds_of_def nodes_at split: option.splits)
  qed
  then show "graph_wf g" by (auto simp: graph_wf_def)
  show "marks_fresh g" "\<not> flagged g n"
    using assms by (auto simp: graph_inv_def marks_fresh_def flagged_def node_fresh_def)
qed

text \<open>Adding an edge that does not come from the root.\<close>

lemma graph_inv_AddSucc:
  assumes "graph_inv g" and "ModuleGraph.AddSucc (Some a) (Some b) g = Inr g'"
  shows "graph_inv g'"
proof -
  let ?f = "\<lambda>d. d\<lparr>mn_succs := mn_succs d @ [Some b]\<rparr>" and ?h = "\<lambda>d. d\<lparr>mn_preds := mn_preds d @ [Some a]\<rparr>"
  have n: "Some a \<in> nodes g" "Some b \<in> nodes g" "g' = upd_node (Some b) ?h (upd_node (Some a) ?f g)"
    using assms(2) by (auto simp: ModuleGraph.AddSucc_def set_node_def node_res_Inr nodes_at split: if_splits)
  have s: "set (succs_of g' n) = set (succs_of g n) \<union> (if n = Some a then {Some b} else {})"
      "set (preds_of g' n) = set (preds_of g n) \<union> (if n = Some b then {Some a} else {})" for n
    using n by (auto simp: succs_of_def preds_of_def nodes_at split: option.splits)
  have p: "preds_of g' None = preds_of g None" unfolding n(3) by (auto simp: preds_of_def nodes_at split: option.splits)
  have e: "seed g' m = seed g m" for m unfolding n(3) by (auto simp: seed_def)
  have i: "InModule x g' = InModule x g" "markers g' = markers g" "sm_sorted (ip_map g') = sm_sorted (ip_map g)" for x
    unfolding n(3) by (simp_all add: InModule_def sm_sorted_def)
  have d: "\<exists>d0. node_at g m = Some d0 \<and> (node_fresh d0 \<longrightarrow> node_fresh d) \<and> mn_ip d = mn_ip d0" if "node_at g' m = Some d" for m d
    using that unfolding n(3) by (auto simp: node_fresh_def split: if_splits)
  have "node_fresh d" if "node_at g' n = Some d" for n d using d [OF that] assms(1) unfolding graph_inv_def by blast
  moreover have "mn_ip d = a \<and> InModule a g" if "node_at g' (Some a) = Some d" for a d
    using d [OF that] assms(1) unfolding graph_inv_def by force
  moreover have "m \<in> set (succs_of g' n) \<longleftrightarrow> n \<in> set (preds_of g' m)" for n m
    unfolding s using graph_invD(3) [OF assms(1)] by auto
  moreover have "n \<in> set (succs_of g' None) \<longleftrightarrow> seed g' n" for n
    unfolding s e using graph_invD(4) [OF assms(1)] by auto
  ultimately show ?thesis using graph_invD(1,2) [OF assms(1)] unfolding graph_inv_def p i by blast
qed

text \<open>An edge from the root and the flag it stands for.\<close>

lemma graph_inv_entry:
  assumes "graph_inv g" and "Some a \<in> nodes g"
    and f: "\<And>d. (mn_brind_target (f d) \<or> mn_segment_entry (f d)) \<and> mn_succs (f d) = mn_succs d \<and> mn_preds (f d) = mn_preds d \<and>
      mn_ip (f d) = mn_ip d \<and> (node_fresh d \<longrightarrow> node_fresh (f d))"
  shows "\<exists>g'. rbind (set_node (Some a) f g) (ModuleGraph.AddSucc None (Some a)) = Inr g' \<and> graph_inv g' \<and> nodes g' = nodes g \<and>
    mg_segment g' = mg_segment g \<and> (\<forall>m. seed g' m \<longleftrightarrow> seed g m \<or> m = Some a)"
proof -
  let ?f = "\<lambda>d. d\<lparr>mn_succs := mn_succs d @ [Some a]\<rparr>" and ?h = "\<lambda>d. d\<lparr>mn_preds := mn_preds d @ [None]\<rparr>"
  let ?g = "upd_node (Some a) ?h (upd_node None ?f (upd_node (Some a) f g))"
  have r: "None \<in> nodes g" by (simp add: nodes_def)
  have g: "rbind (set_node (Some a) f g) (ModuleGraph.AddSucc None (Some a)) = Inr ?g"
    using assms(2) r by (simp add: ModuleGraph.AddSucc_def set_node_ok)
  have s: "set (succs_of ?g n) = set (succs_of g n) \<union> (if n = None then {Some a} else {})"
      "set (preds_of ?g n) = set (preds_of g n) \<union> (if n = Some a then {None} else {})" for n
    using assms(2) r f by (auto simp: succs_of_def preds_of_def nodes_at split: option.splits)
  have p: "preds_of ?g None = preds_of g None" by (auto simp: preds_of_def nodes_at split: option.splits)
  have e: "seed ?g m \<longleftrightarrow> seed g m \<or> m = Some a" for m
    using assms(2) f by (auto simp: seed_def nodes_at)
  have i: "InModule x ?g = InModule x g" "markers ?g = markers g" "sm_sorted (ip_map ?g) = sm_sorted (ip_map g)" for x
    by (simp_all add: InModule_def sm_sorted_def)
  have d: "\<exists>d0. node_at g m = Some d0 \<and> (node_fresh d0 \<longrightarrow> node_fresh d) \<and> mn_ip d = mn_ip d0" if "node_at ?g m = Some d" for m d
  proof -
    have k: "node_fresh (d\<lparr>mn_preds := xs\<rparr>) = node_fresh d" "node_fresh (d\<lparr>mn_succs := xs\<rparr>) = node_fresh d" for d xs
      by (simp_all add: node_fresh_def)
    show ?thesis using that f by (auto simp: k split: if_splits)
  qed
  have "node_fresh d" if "node_at ?g n = Some d" for n d using d [OF that] assms(1) unfolding graph_inv_def by blast
  moreover have "mn_ip d = a \<and> InModule a g" if "node_at ?g (Some a) = Some d" for a d
    using d [OF that] assms(1) unfolding graph_inv_def by force
  moreover have "m \<in> set (succs_of ?g n) \<longleftrightarrow> n \<in> set (preds_of ?g m)" for n m
    unfolding s using graph_invD(3) [OF assms(1)] by auto
  moreover have "n \<in> set (succs_of ?g None) \<longleftrightarrow> seed ?g n" for n
    unfolding s e using graph_invD(4) [OF assms(1)] by auto
  ultimately have "graph_inv ?g" using graph_invD(1,2) [OF assms(1)] unfolding graph_inv_def p i by blast
  then show ?thesis using g e by (intro exI [of _ ?g] conjI allI) (simp_all only: nodes_upd upd_node_frame)
qed

interpretation gi: record_invariant graph_inv
proof
  fix g g' a b
  assume g: "graph_inv g"
  {
    assume r: "mg_RecordGBr a b g = Inr g'"
    show "graph_inv g'"
    proof (cases "GetNode b g")
      case None
      then show ?thesis using r graph_inv_set_node [OF g, of "\<lambda>d. d\<lparr>mn_crosssegment_br := True\<rparr>"]
        by (auto simp: mg_RecordGBr_def keeps_shape_def node_fresh_def)
    next
      case (Some n)
      then obtain m where "GetNode a g = Some m" "ModuleGraph.AddSucc m n g = Inr g'"
        using r by (auto simp: mg_RecordGBr_def GetNode_res_def split: option.splits)
      then show ?thesis using graph_inv_AddSucc [OF g] GetNode_node [of a g m] GetNode_node [OF Some] by auto
    qed
  }
  show "mg_RecordGBrind a g = Inr g' \<Longrightarrow> graph_inv g'"
    using graph_inv_set_node [OF g, of "\<lambda>d. d\<lparr>mn_brind_source := True\<rparr>"]
    by (auto simp: mg_RecordGBrind_def keeps_shape_def node_fresh_def)
  show "mg_RecordLink a b g = Inr g' \<Longrightarrow> graph_inv g'"
    using graph_inv_set_node [OF g, of "\<lambda>d. d\<lparr>mn_link := GetNode b g\<rparr>"]
    by (auto simp: mg_RecordLink_def keeps_shape_def node_fresh_def)
  show "set_node n (\<lambda>d. d\<lparr>mn_ip_end := e\<rparr>) g = Inr g' \<Longrightarrow> graph_inv g'" for n e
    using graph_inv_set_node [OF g, of "\<lambda>d. d\<lparr>mn_ip_end := e\<rparr>"] by (auto simp: keeps_shape_def node_fresh_def)
qed

interpretation rf: record_invariant "\<lambda>g. seed g = S \<and> nodes g = N \<and> mg_segment g = sg" for S N sg
proof
  fix g g' a b
  assume g: "seed g = S \<and> nodes g = N \<and> mg_segment g = sg"
  have u: "seed g' = S \<and> nodes g' = N \<and> mg_segment g' = sg"
    if "set_node n f g = Inr g'" "\<forall>d. mn_brind_target (f d) = mn_brind_target d \<and> mn_segment_entry (f d) = mn_segment_entry d" for n f g'
    using that g seed_upd [of f] by (auto simp: set_node_def)
  {
    assume r: "mg_RecordGBr a b g = Inr g'"
    show "seed g' = S \<and> nodes g' = N \<and> mg_segment g' = sg"
    proof (cases "GetNode b g")
      case None
      then show ?thesis using r by (auto simp: mg_RecordGBr_def intro!: u)
    next
      case (Some n)
      then obtain m where "ModuleGraph.AddSucc m n g = Inr g'"
        using r by (auto simp: mg_RecordGBr_def GetNode_res_def split: option.splits)
      then show ?thesis using g by (auto simp: ModuleGraph.AddSucc_def set_node_def seed_upd)
    qed
  }
  show "mg_RecordGBrind a g = Inr g' \<Longrightarrow> seed g' = S \<and> nodes g' = N \<and> mg_segment g' = sg"
    by (auto simp: mg_RecordGBrind_def dest!: u)
  show "mg_RecordLink a b g = Inr g' \<Longrightarrow> seed g' = S \<and> nodes g' = N \<and> mg_segment g' = sg"
    by (auto simp: mg_RecordLink_def dest!: u)
  show "set_node n (\<lambda>d. d\<lparr>mn_ip_end := e\<rparr>) g = Inr g' \<Longrightarrow> seed g' = S \<and> nodes g' = N \<and> mg_segment g' = sg" for n e
    by (auto dest!: u)
qed

section \<open>Recording the entries of a page\<close>

definition slot_addr :: "PageData \<Rightarrow> nat \<Rightarrow> u32" where
  "slot_addr page i = push_bit 12 (pageno page) + idx2po (of_nat i)"

lemma idx2po_unat: "i < 1024 \<Longrightarrow> unat (idx2po (of_nat i)) = 4 * i"
  by (simp add: idx2po_def idx_bits_def push_bit_eq_mult unat_word_ariths unsigned_of_nat take_bit_nat_eq_self)

lemma slot_addr_inj: "inj_on (slot_addr page) {..<1024}"
proof (rule inj_onI)
  fix i j assume "i \<in> {..<1024}" "j \<in> {..<1024}" "slot_addr page i = slot_addr page j"
  then have "unat (idx2po (of_nat i)) = unat (idx2po (of_nat j))" "i < 1024" "j < 1024" by (simp_all add: slot_addr_def)
  then show "i = j" using idx2po_unat by simp
qed

definition page_segment :: "PageData \<Rightarrow> CodeSegment" where
  "page_segment page = \<lparr>gip_base = push_bit 12 (pageno page), seg_size = ucast PAGE_SIZE\<rparr>"

lemma slot_addr_in: "i < 1024 \<Longrightarrow> mg_segment g = page_segment page \<Longrightarrow> InModule (slot_addr page i) g"
  using idx2po_unat [of i]
  by (simp add: InModule_def InSegment_def page_segment_def slot_addr_def word_less_nat_alt PAGE_SIZE_def)

lemma NewNode_fields:
  "mn_succs (NewNode a) = []" "mn_preds (NewNode a) = []" "mn_ip (NewNode a) = a" "node_fresh (NewNode a)"
  "\<not> mn_brind_target (NewNode a)" "\<not> mn_segment_entry (NewNode a)"
  by (simp_all add: NewNode_def node_fresh_def)

lemma RecordEntry_ok:
  assumes "graph_inv g" and "Some a \<notin> nodes g" and "InModule a g"
  shows "\<exists>g'. mg_RecordEntry a g = Inr g' \<and> graph_inv g' \<and> nodes g' = insert (Some a) (nodes g) \<and>
    mg_segment g' = mg_segment g \<and> (\<forall>m. seed g' m = seed g m)"
proof -
  let ?g = "g\<lparr>ip_map := sm_insert a (NewNode a) (ip_map g)\<rparr>"
  have srt: "sm_sorted (ip_map g)" using assms(1) by (simp add: graph_inv_def)
  have na': "node_at g (Some a) = None" using assms(2) by (simp add: nodes_at)
  then have na: "sm_find a (ip_map g) = None" by (simp add: node_at_def)
  have r: "mg_RecordEntry a g = Inr ?g" using na by (simp add: mg_RecordEntry_def AddNode_def)
  have at: "node_at ?g n = (if n = Some a then Some (NewNode a) else node_at g n)" for n
    using sm_find_insert [OF srt] na by (auto simp: node_at_def split: option.splits)
  have s: "succs_of ?g n = succs_of g n" "preds_of ?g n = preds_of g n" "seed ?g n = seed g n" for n
    using na' by (auto simp: succs_of_def preds_of_def seed_def at NewNode_fields split: if_splits)
  have "nodes ?g = insert (Some a) (nodes g)" by (auto simp: nodes_at at split: if_splits)
  moreover have "sm_sorted (ip_map ?g)" using sm_insert_sorted [OF srt] by simp
  then have "graph_inv ?g"
    using assms(1,3) unfolding graph_inv_def s by (auto simp: at NewNode_fields InModule_def split: if_splits)
  ultimately show ?thesis using r s(3) by auto
qed

lemma GetNode_in: "Some a \<in> nodes g \<Longrightarrow> InModule a g \<Longrightarrow> GetNode a g = Some (Some a)"
  by (auto simp: GetNode_def nodes_at node_at_def split: option.splits)

text \<open>One executed slot.\<close>

definition slot_entry :: "PageData \<Rightarrow> nat \<Rightarrow> bool" where
  "slot_entry page i \<longleftrightarrow> brind_target page ! i \<or> segment_entry page ! i"

lemma record_slot_ok:
  assumes "graph_inv g" and "Some a \<notin> nodes g" and "InModule a g"
  shows "\<exists>g'. rbind (mg_RecordEntry a g) (\<lambda>g. rbind (if bt then mg_RecordBrindTarget a g else Inr g) (\<lambda>g.
      if se then mg_RecordSegmentEntry a g else Inr g)) = Inr g' \<and> graph_inv g' \<and> nodes g' = insert (Some a) (nodes g) \<and>
    mg_segment g' = mg_segment g \<and> (\<forall>m. seed g' m \<longleftrightarrow> seed g m \<or> (bt \<or> se) \<and> m = Some a)"
proof -
  obtain g1 where g1: "mg_RecordEntry a g = Inr g1" "graph_inv g1" "nodes g1 = insert (Some a) (nodes g)"
      "mg_segment g1 = mg_segment g" "\<forall>m. seed g1 m = seed g m" using RecordEntry_ok [OF assms] by blast
  have "\<exists>g2. (if bt then mg_RecordBrindTarget a g1 else Inr g1) = Inr g2 \<and> graph_inv g2 \<and> nodes g2 = nodes g1 \<and>
      mg_segment g2 = mg_segment g1 \<and> (\<forall>m. seed g2 m \<longleftrightarrow> seed g1 m \<or> bt \<and> m = Some a)"
    using graph_inv_entry [OF g1(2), of a "\<lambda>d. d\<lparr>mn_brind_target := True\<rparr>"] g1(3,4) GetNode_in [of a g1] assms(3)
    by (cases bt) (auto simp: mg_RecordBrindTarget_def GetNode_res_def node_fresh_def InModule_def g1(2))
  then obtain g2 where g2: "(if bt then mg_RecordBrindTarget a g1 else Inr g1) = Inr g2" "graph_inv g2" "nodes g2 = nodes g1"
      "mg_segment g2 = mg_segment g1" "\<forall>m. seed g2 m \<longleftrightarrow> seed g1 m \<or> bt \<and> m = Some a" by blast
  have "\<exists>g3. (if se then mg_RecordSegmentEntry a g2 else Inr g2) = Inr g3 \<and> graph_inv g3 \<and> nodes g3 = nodes g2 \<and>
      mg_segment g3 = mg_segment g2 \<and> (\<forall>m. seed g3 m \<longleftrightarrow> seed g2 m \<or> se \<and> m = Some a)"
    using graph_inv_entry [OF g2(2), of a "\<lambda>d. d\<lparr>mn_segment_entry := True\<rparr>"] g1(3,4) g2(3,4) GetNode_in [of a g2] assms(3)
    by (cases se) (auto simp: mg_RecordSegmentEntry_def GetNode_res_def node_fresh_def InModule_def g2(2))
  then obtain g3 where "(if se then mg_RecordSegmentEntry a g2 else Inr g2) = Inr g3" "graph_inv g3" "nodes g3 = nodes g2"
      "mg_segment g3 = mg_segment g2" "\<forall>m. seed g3 m \<longleftrightarrow> seed g2 m \<or> se \<and> m = Some a" by blast
  then show ?thesis using g1 g2 by (intro exI [of _ g3]) (auto simp: rbind_def)
qed

lemma record_entries_ok:
  assumes "graph_inv g" and "mg_segment g = page_segment page" and "nodes g = insert None (Some ` set iplist)"
    and "\<forall>i\<in>set idxs. i < 1024" and "distinct idxs" and "\<forall>i\<in>set idxs. slot_addr page i \<notin> set iplist"
  shows "\<exists>g'. record_entries page (push_bit 12 (pageno page)) idxs iplist g =
      Inr (iplist @ map (slot_addr page) (filter (\<lambda>i. executed page ! i) idxs), g') \<and> graph_inv g' \<and>
    mg_segment g' = page_segment page \<and>
    nodes g' = nodes g \<union> (Some \<circ> slot_addr page) ` {i \<in> set idxs. executed page ! i} \<and>
    (\<forall>m. seed g' m \<longleftrightarrow> seed g m \<or> (\<exists>i\<in>set idxs. executed page ! i \<and> slot_entry page i \<and> m = Some (slot_addr page i)))"
  using assms
proof (induction idxs arbitrary: iplist g)
  case (Cons i idxs)
  show ?case
  proof (cases "executed page ! i")
    case False
    from Cons.IH [OF Cons.prems(1-3)] Cons.prems(4-6) obtain g' where
      "record_entries page (push_bit 12 (pageno page)) idxs iplist g =
        Inr (iplist @ map (slot_addr page) (filter (\<lambda>i. executed page ! i) idxs), g')" "graph_inv g'" "mg_segment g' = page_segment page"
      "nodes g' = nodes g \<union> (Some \<circ> slot_addr page) ` {i \<in> set idxs. executed page ! i}"
      "\<forall>m. seed g' m \<longleftrightarrow> seed g m \<or> (\<exists>i\<in>set idxs. executed page ! i \<and> slot_entry page i \<and> m = Some (slot_addr page i))" by auto
    then show ?thesis using False by (intro exI [of _ g']) (auto simp del: comp_apply)
  next
    case True
    let ?a = "slot_addr page i"
    have n: "Some ?a \<notin> nodes g" using Cons.prems(3,6) by auto
    have im: "InModule ?a g" using slot_addr_in [OF _ Cons.prems(2)] Cons.prems(4) by simp
    obtain g1 where g1: "rbind (mg_RecordEntry ?a g) (\<lambda>g. rbind (if brind_target page ! i then mg_RecordBrindTarget ?a g else Inr g) (\<lambda>g.
        if segment_entry page ! i then mg_RecordSegmentEntry ?a g else Inr g)) = Inr g1" "graph_inv g1" "nodes g1 = insert (Some ?a) (nodes g)"
        "mg_segment g1 = mg_segment g" "\<forall>m. seed g1 m \<longleftrightarrow> seed g m \<or> slot_entry page i \<and> m = Some ?a"
      using record_slot_ok [OF Cons.prems(1) n im, where bt = "brind_target page ! i" and se = "segment_entry page ! i"]
      unfolding slot_entry_def by blast
    have r: "record_entries page (push_bit 12 (pageno page)) (i # idxs) iplist g =
        record_entries page (push_bit 12 (pageno page)) idxs (iplist @ [?a]) g1"
      using True g1(1) by (auto simp: slot_addr_def Let_def rbind_def split: sum.splits)
    have d: "slot_addr page j \<noteq> ?a" if "j \<in> set idxs" for j
      using that Cons.prems(4,5) slot_addr_inj [of page] unfolding inj_on_def by (metis distinct.simps(2) lessThan_iff list.set_intros)
    have h: "mg_segment g1 = page_segment page" "nodes g1 = insert None (Some ` set (iplist @ [?a]))" "\<forall>i\<in>set idxs. i < 1024"
        "distinct idxs" "\<forall>j\<in>set idxs. slot_addr page j \<notin> set (iplist @ [?a])"
      using g1(3,4) Cons.prems(2-6) d by auto
    from Cons.IH [OF g1(2) h] obtain g' where g': "record_entries page (push_bit 12 (pageno page)) idxs (iplist @ [?a]) g1 =
        Inr ((iplist @ [?a]) @ map (slot_addr page) (filter (\<lambda>i. executed page ! i) idxs), g')" "graph_inv g'" "mg_segment g' = page_segment page"
        "nodes g' = nodes g1 \<union> (Some \<circ> slot_addr page) ` {i \<in> set idxs. executed page ! i}"
        "\<forall>m. seed g' m \<longleftrightarrow> seed g1 m \<or> (\<exists>i\<in>set idxs. executed page ! i \<and> slot_entry page i \<and> m = Some (slot_addr page i))"
      by blast
    then show ?thesis using True g1(3,5) unfolding r by (intro exI [of _ g']) auto
  qed
qed auto

section \<open>The graph of a page\<close>

lemma Analyse_page_ok:
  assumes "GetNode a g \<noteq> None"
  shows "case Analyse g a boundary vm of
      Inl f \<Rightarrow> f = Panic \<and> (\<exists>k<TB_MAX_INSNS. Decode (fetch vm (a + 4 * of_nat k)) = Op_ill)
    | Inr g' \<Rightarrow> block_ok vm g' a \<and> (\<forall>b. b \<noteq> a \<longrightarrow> block_ok vm g b \<longrightarrow> block_ok vm g' b) \<and> (\<forall>b. GetNode b g' = GetNode b g)"
proof (cases "Analyse g a boundary vm")
  case (Inl f)
  then show ?thesis using Analyse_ok [OF assms, where vm = vm and boundary = boundary] by simp
next
  case (Inr g')
  then obtain g1 e where g: "grows g g1" "g' = set_ip_end a e g1" "block_ok vm g' a"
    using Analyse_ok [OF assms, where vm = vm and boundary = boundary] by auto
  then show ?thesis using Inr block_ok_grows [OF _ g(1)] block_ok_set_ip_end grows_GetNode [OF g(1)] by simp
qed

lemma analyse_blocks_ok:
  assumes "\<forall>a\<in>set as. GetNode a g \<noteq> None" and "distinct as"
  shows "case analyse_blocks as boundary vm g of
      Inl f \<Rightarrow> f = Panic \<and> (\<exists>a\<in>set as. \<exists>k<TB_MAX_INSNS. Decode (fetch vm (a + 4 * of_nat k)) = Op_ill)
    | Inr g' \<Rightarrow> \<forall>b. b \<in> set as \<or> block_ok vm g b \<longrightarrow> block_ok vm g' b"
  using assms
proof (induction as boundary vm g rule: analyse_blocks.induct)
  case (2 a e vm g)
  then show ?case using Analyse_page_ok [where a = a and g = g and vm = vm and boundary = e]
    by (cases "Analyse g a e vm") auto
next
  case (3 a a' as e vm g)
  have p: "case Analyse g a a' vm of
      Inl f \<Rightarrow> f = Panic \<and> (\<exists>k<TB_MAX_INSNS. Decode (fetch vm (a + 4 * of_nat k)) = Op_ill)
    | Inr g' \<Rightarrow> block_ok vm g' a \<and> (\<forall>b. b \<noteq> a \<longrightarrow> block_ok vm g b \<longrightarrow> block_ok vm g' b) \<and> (\<forall>b. GetNode b g' = GetNode b g)"
    using Analyse_page_ok [where a = a and g = g and vm = vm and boundary = a'] "3.prems"(1) by simp
  show ?case
  proof (cases "Analyse g a a' vm")
    case (Inl f)
    then show ?thesis using p by auto
  next
    case (Inr g1)
    then have g1: "block_ok vm g1 a" "\<forall>b. b \<noteq> a \<longrightarrow> block_ok vm g b \<longrightarrow> block_ok vm g1 b" "\<forall>b. GetNode b g1 = GetNode b g"
      using p by simp_all
    have "\<forall>b\<in>set (a' # as). GetNode b g1 \<noteq> None" "distinct (a' # as)" using "3.prems" g1(3) by auto
    from "3.IH" [OF Inr this] show ?thesis using Inr g1(1,2)
      by (cases "analyse_blocks (a' # as) e vm g1") auto
  qed
qed auto

text \<open>C35. The graph built for a page of the profile: it aborts only at an illegal instruction in an executed
  block; otherwise its nodes are the root and the executed slots, the entry points are the slots recorded as
  targets of indirect branches or of branches from other pages, edges are stored at both ends and lead
  from the root to exactly the entry points, and every run of the interpreter through a block goes on to a recorded
  successor, or leaves the graph in a way the block is flagged for.\<close>

theorem build_module_graph_correct:
  "case BuildModuleGraph page vm of
      Inl f \<Rightarrow> f = Panic \<and> (\<exists>i<1024. executed page ! i \<and>
        (\<exists>k<TB_MAX_INSNS. Decode (fetch vm (slot_addr page i + 4 * of_nat k)) = Op_ill))
    | Inr g \<Rightarrow> graph_inv g \<and> nodes g = insert None {Some (slot_addr page i) |i. i < 1024 \<and> executed page ! i} \<and>
        (\<forall>m. seed g m \<longleftrightarrow> (\<exists>i<1024. executed page ! i \<and> (brind_target page ! i \<or> segment_entry page ! i) \<and> m = Some (slot_addr page i))) \<and>
        (\<forall>i<1024. executed page ! i \<longrightarrow> block_ok vm g (slot_addr page i))"
proof -
  let ?g = "NewModuleGraph (page_segment page)" and ?xs = "filter (\<lambda>i. executed page ! i) [0..<1024]"
  have at: "node_at ?g n = (if n = None then Some (NewNode 0) else None)" for n
    by (auto simp: NewModuleGraph_def node_at_def sm_find_def split: option.splits)
  have g0: "graph_inv ?g" "mg_segment ?g = page_segment page" "nodes ?g = insert None (Some ` set [])" "\<not> seed ?g m" for m
    by (auto simp: graph_inv_def at succs_of_def preds_of_def seed_def nodes_at NewNode_fields split: if_splits)
      (simp_all add: NewModuleGraph_def sm_sorted_def)
  have ix: "\<forall>i\<in>set [0..<1024]. i < 1024" "distinct [0..<1024]" "\<forall>i\<in>set [0..<1024]. slot_addr page i \<notin> set []" by simp_all
  obtain g1 where g1': "record_entries page (push_bit 12 (pageno page)) [0..<1024] [] ?g = Inr ([] @ map (slot_addr page) ?xs, g1)"
      "graph_inv g1" "mg_segment g1 = page_segment page"
      "nodes g1 = nodes ?g \<union> (Some \<circ> slot_addr page) ` {i \<in> set [0..<1024]. executed page ! i}"
      "\<forall>m. seed g1 m \<longleftrightarrow> seed ?g m \<or> (\<exists>i\<in>set [0..<1024]. executed page ! i \<and> slot_entry page i \<and> m = Some (slot_addr page i))"
    using record_entries_ok [OF g0(1-3) ix] by blast
  have nd: "nodes g1 = insert None {Some (slot_addr page i) |i. i < 1024 \<and> executed page ! i}"
    unfolding g1'(4) g0(3) by auto
  have sd: "\<forall>m. seed g1 m \<longleftrightarrow> (\<exists>i<1024. executed page ! i \<and> slot_entry page i \<and> m = Some (slot_addr page i))"
    using g1'(5) g0(4) by auto
  note g1 = g1'(1) [simplified append_Nil] g1'(2,3) nd sd
  let ?as = "map (slot_addr page) ?xs" and ?e = "push_bit 12 (pageno page) + ucast PAGE_SIZE :: u32"
  have b: "BuildModuleGraph page vm = analyse_blocks ?as ?e vm g1"
    using g1(1) by (simp add: BuildModuleGraph_def Let_def page_segment_def)
  have "GetNode (slot_addr page i) g1 \<noteq> None" if "i < 1024" "executed page ! i" for i
  proof -
    have "Some (slot_addr page i) \<in> nodes g1" using nd that by auto
    from GetNode_in [OF this slot_addr_in [OF that(1) g1(3)]] show ?thesis by simp
  qed
  then have "\<forall>a\<in>set ?as. GetNode a g1 \<noteq> None" by simp
  moreover have "distinct ?as" using slot_addr_inj [of page] by (auto simp: distinct_map inj_on_def)
  ultimately have r: "case analyse_blocks ?as ?e vm g1 of
      Inl f \<Rightarrow> f = Panic \<and> (\<exists>a\<in>set ?as. \<exists>k<TB_MAX_INSNS. Decode (fetch vm (a + 4 * of_nat k)) = Op_ill)
    | Inr g' \<Rightarrow> \<forall>b. b \<in> set ?as \<or> block_ok vm g1 b \<longrightarrow> block_ok vm g' b" by (rule analyse_blocks_ok)
  show ?thesis
  proof (cases "analyse_blocks ?as ?e vm g1")
    case (Inl f)
    then show ?thesis using r unfolding b by auto
  next
    case (Inr g)
    have "graph_inv g" using gi.keeps_analyse_blocks [OF g1(2) Inr] .
    moreover have "seed g = seed g1" "nodes g = nodes g1"
      using rf.keeps_analyse_blocks [where S = "seed g1" and N = "nodes g1" and sg = "mg_segment g1", OF _ Inr] by simp_all
    moreover have "\<forall>i<1024. executed page ! i \<longrightarrow> block_ok vm g (slot_addr page i)" using r Inr by auto
    ultimately show ?thesis using Inr g1(4,5) unfolding b by (simp add: slot_entry_def)
  qed
qed

definition example_page :: PageData where
  "example_page = \<lparr>pageno = 1, executed = no_bits[0 := True], brind_target = no_bits[0 := True], segment_entry = no_bits\<rparr>"

theorem build_module_graph_correct_witness:
  "case BuildModuleGraph example_page two_insns of
      Inl f \<Rightarrow> f = Panic \<and> (\<exists>i<1024. executed example_page ! i \<and>
        (\<exists>k<TB_MAX_INSNS. Decode (fetch two_insns (slot_addr example_page i + 4 * of_nat k)) = Op_ill))
    | Inr g \<Rightarrow> graph_inv g \<and> nodes g = insert None {Some (slot_addr example_page i) |i. i < 1024 \<and> executed example_page ! i} \<and>
        (\<forall>m. seed g m \<longleftrightarrow> (\<exists>i<1024. executed example_page ! i \<and>
           (brind_target example_page ! i \<or> segment_entry example_page ! i) \<and> m = Some (slot_addr example_page i))) \<and>
        (\<forall>i<1024. executed example_page ! i \<longrightarrow> block_ok two_insns g (slot_addr example_page i))"
  by (rule build_module_graph_correct)

end
