(* ===== verification/Dominators.thy ===== *)
theory Dominators
  imports ModuleGraph_Correct
begin

text \<open>
  Dominators as \<open>ComputeDomTree\<close> of \<^verbatim>\<open>src/dbt/aot/aot_module.cpp\<close> computes them. The traversal visits exactly the nodes that
  can be reached from the root; where the iteration stops, what it stored for a node lies on every path
  to that node (C36). The numbers of the traversal are kept in marks whose range is given as a byte, which
  bounds the size of a graph (C37).
\<close>

section \<open>Traversal\<close>

lemma rpo_push_ok:
  assumes "same_graph g0 g" and "mk_ok mk g" and "n \<in> nodes g0"
  shows "\<exists>x. rpo_push mk n stk g = Inr x \<and>
    (if n \<in> marked mk g then x = (stk, g)
     else \<exists>g'. x = ((n, succs_of g0 n) # stk, g') \<and> same_graph g0 g' \<and> mk_ok mk g' \<and>
       marked mk g' = insert n (marked mk g) \<and> markers g' = markers g)"
proof -
  have n: "n \<in> nodes g" using assms(1,3) by (simp add: same_graph_simps(1))
  obtain d where d: "node_at g n = Some d" using n by (auto simp: nodes_at)
  have f: "mn_succs d = succs_of g0 n" using d same_graph_simps(2) [OF assms(1), of n] by (simp add: succs_of_def)
  obtain m where m: "Marker_Get mk n g = Inr m" "m = 0 \<longleftrightarrow> n \<notin> marked mk g" by (rule Marker_Get_ok [OF assms(2) n])
  obtain g' where g': "Marker_Set mk n 1 g = Inr g'" "same_graph g g'" "mk_ok mk g'" "marked mk g' = insert n (marked mk g)"
      "markers g' = markers g" by (rule Marker_Set_ok [OF assms(2) n])
  show ?thesis
    using m d f g' same_graph_trans [OF assms(1) g'(2)]
    by (cases "n \<in> marked mk g") (auto simp: rpo_push_def node_res_def)
qed

definition rpo_done :: "ModuleGraph \<Rightarrow> nid \<Rightarrow> Marker \<Rightarrow> ModuleGraph \<Rightarrow> nid list \<Rightarrow> ModuleGraph \<Rightarrow> bool" where
  "rpo_done g0 e mk g po g' \<longleftrightarrow> same_graph g0 g' \<and> mk_ok mk g' \<and> markers g' = markers g \<and>
     set po = {n. al.reach g0 e n} \<and> distinct po"

lemma rpo_loop_ok:
  assumes "graph_wf g0" and "same_graph g0 g" and "mk_ok mk g" and "al.search_inv g0 e stk (marked mk g)"
    and "set po \<union> fst ` set stk = marked mk g" and "distinct (po @ map fst stk)"
  shows "\<exists>po' g'. rpo_loop mk stk po g = Inr (po', g') \<and> rpo_done g0 e mk g po' g'"
  using assms
proof (induction mk stk po g rule: rpo_loop.induct)
  case (1 mk po g)
  then show ?case using al.search_done [OF "1.prems"(4)] by (auto simp: rpo_done_def)
next
  case (2 mk n stk po g)
  have "set (po @ [n]) \<union> fst ` set stk = marked mk g" "distinct ((po @ [n]) @ map fst stk)" using "2.prems"(5,6) by auto
  from "2.IH" [OF "2.prems"(1-3) al.search_pop [OF "2.prems"(4)] this] show ?case by simp
next
  case (3 mk n s ss stk po g)
  have "s \<in> set (succs_of g0 n)" using "3.prems"(4) by (simp add: al.search_inv_def)
  then have "s \<in> nodes g0" using "3.prems"(1) by (auto simp: graph_wf_def)
  from rpo_push_ok [OF "3.prems"(2,3) this, of "(n, ss) # stk"] obtain x
    where x: "rpo_push mk s ((n, ss) # stk) g = Inr x"
      "if s \<in> marked mk g then x = ((n, ss) # stk, g)
       else \<exists>g'. x = ((s, succs_of g0 s) # (n, ss) # stk, g') \<and> same_graph g0 g' \<and> mk_ok mk g' \<and>
         marked mk g' = insert s (marked mk g) \<and> markers g' = markers g" by blast
  show ?case
  proof (cases "s \<in> marked mk g")
    case True
    then have "al.search_inv g0 e ((n, ss) # stk) (marked mk g)" using al.search_skip [OF "3.prems"(4)] by simp
    then show ?thesis using "3.IH" [OF x(1)] "3.prems" x True by simp
  next
    case False
    then obtain g' where g': "x = ((s, succs_of g0 s) # (n, ss) # stk, g')" "same_graph g0 g'" "mk_ok mk g'"
        "marked mk g' = insert s (marked mk g)" "markers g' = markers g" using x(2) by auto
    have i: "al.search_inv g0 e ((s, succs_of g0 s) # (n, ss) # stk) (marked mk g')"
      using al.search_visit [OF "3.prems"(4)] g'(4) by simp
    have "set po \<union> fst ` set ((s, succs_of g0 s) # (n, ss) # stk) = marked mk g'" using "3.prems"(5) g'(4) by auto
    moreover have "distinct (po @ map fst ((s, succs_of g0 s) # (n, ss) # stk))" using "3.prems"(5,6) False by auto
    ultimately obtain po' g'' where "rpo_loop mk (fst x) po (snd x) = Inr (po', g'')" "rpo_done g0 e mk g' po' g''"
      using "3.IH" [OF x(1)] "3.prems"(1) g'(1-3) i by auto
    then show ?thesis using x(1) g'(5) by (auto simp: rpo_done_def)
  qed
qed

lemma RPOTraversal_ok:
  assumes "graph_wf g" and "marks_fresh g" and "unat (k_max (markers g)) + 2 < 2 ^ 16"
  shows "\<exists>rpot g'. RPOTraversal g = Inr (rpot, g') \<and> same_graph g g' \<and> marks_fresh g' \<and> distinct rpot \<and>
    set rpot = {n. al.reach g None n} \<and> unat (k_max (markers g')) = unat (k_max (markers g)) + 2"
proof -
  obtain mk g1 where nm: "new_marker 2 g = (mk, g1)" by (cases "new_marker 2 g")
  note k = new_marker_ok [OF assms(2,3) nm]
  have r: "None \<in> nodes g" by (simp add: nodes_def)
  obtain x where x: "rpo_push mk None [] g1 = Inr x"
      "if None \<in> marked mk g1 then x = ([], g1)
       else \<exists>g'. x = ([(None, succs_of g None)], g') \<and> same_graph g g' \<and> mk_ok mk g' \<and>
         marked mk g' = insert None (marked mk g1) \<and> markers g' = markers g1"
    using rpo_push_ok [OF k(3,1) r, of "[]"] by blast
  then obtain g2 where g2: "x = ([(None, succs_of g None)], g2)" "same_graph g g2" "mk_ok mk g2" "marked mk g2 = {None}"
      "markers g2 = markers g1" using k(2) by auto
  have "al.search_inv g None [(None, succs_of g None)] (marked mk g2)" using al.search_start g2(4) by simp
  from rpo_loop_ok [OF assms(1) g2(2,3) this, of "[]"] g2(4)
  obtain po g3 where l: "rpo_loop mk [(None, succs_of g None)] [] g2 = Inr (po, g3)" "rpo_done g None mk g2 po g3" by auto
  then have "RPOTraversal g = Inr (rev po, g3)" using nm x(1) g2(1) by (simp add: RPOTraversal_def)
  moreover have "marks_fresh g3" using l(2) g2(5) k(5) mk_ok_fresh [of mk g3] by (simp add: rpo_done_def)
  ultimately show ?thesis using l(2) g2(5) k(4) by (auto simp: rpo_done_def)
qed

section \<open>Dominators at the fixed point\<close>

definition dom_of :: "ModuleGraph \<Rightarrow> nid \<Rightarrow> nid option" where
  "dom_of g n = (case node_at g n of None \<Rightarrow> None | Some d \<Rightarrow> mn_dominator d)"

text \<open>The chain of stored dominators, a node included.\<close>

definition anc :: "ModuleGraph \<Rightarrow> nid \<Rightarrow> nid \<Rightarrow> bool" where
  "anc g = (\<lambda>x y. dom_of g x = Some y)\<^sup>*\<^sup>*"

lemma anc_refl [simp]: "anc g x x"
  by (simp add: anc_def)

lemma anc_step: "dom_of g x = Some y \<Longrightarrow> anc g y z \<Longrightarrow> anc g x z"
  unfolding anc_def by (rule converse_rtranclp_into_rtranclp)

lemma anc_trans: "anc g x y \<Longrightarrow> anc g y z \<Longrightarrow> anc g x z"
  unfolding anc_def by (rule rtranclp_trans)

lemma anc_cases: "anc g x z \<Longrightarrow> x = z \<or> (\<exists>y. dom_of g x = Some y \<and> anc g y z)"
  unfolding anc_def by (erule converse_rtranclpE) auto

lemma dom_res_Inr: "dom_res g n = Inr m \<Longrightarrow> dom_of g n = Some m"
  by (auto simp: dom_res_def dom_of_def node_res_Inr split: option.splits)

lemma intersect_anc:
  assumes "intersect mk g b1 b2 = Some r" and "r = Inr m"
  shows "anc g b1 m \<and> anc g b2 m"
  using assms(2)
proof (rule mp [OF intersect.raw_induct [where P = "\<lambda>mk g b1 b2 r. r = Inr m \<longrightarrow> anc g b1 m \<and> anc g b2 m", OF _ assms(1)], rotated])
  fix f :: "Marker \<Rightarrow> ModuleGraph \<Rightarrow> nid \<Rightarrow> nid \<Rightarrow> nid res option" and mk g b1 b2 r
  assume IH: "\<And>mk g b1 b2 r. f mk g b1 b2 = Some r \<Longrightarrow> r = Inr m \<longrightarrow> anc g b1 m \<and> anc g b2 m"
    and eq: "(if b1 = b2 then Some (Inr b1)
      else case Marker_Get mk b1 g of Inl e \<Rightarrow> Some (Inl e) | Inr m1 \<Rightarrow>
           (case Marker_Get mk b2 g of Inl e \<Rightarrow> Some (Inl e) | Inr m2 \<Rightarrow>
              (if m2 < m1 then (case dom_res g b1 of Inl e \<Rightarrow> Some (Inl e) | Inr d \<Rightarrow> f mk g d b2)
               else if m1 < m2 then (case dom_res g b2 of Inl e \<Rightarrow> Some (Inl e) | Inr d \<Rightarrow> f mk g b1 d)
               else f mk g b1 b2))) = Some r"
  show "r = Inr m \<longrightarrow> anc g b1 m \<and> anc g b2 m"
    using eq by (auto split: if_splits sum.splits dest!: IH dest: dom_res_Inr intro: anc_step)
qed

lemma fold_preds_anc:
  assumes "fold_preds mk g acc ps = Some (Inr (Some i))"
  shows "(\<forall>a. acc = Some a \<longrightarrow> anc g a i) \<and> (\<forall>p\<in>set ps. dom_of g p \<noteq> None \<longrightarrow> anc g p i)"
  using assms
proof (induction ps arbitrary: acc)
  case (Cons p ps)
  then obtain d where d: "node_at g p = Some d" by (auto simp: node_res_Inr split: sum.splits)
  then have dp: "dom_of g p = mn_dominator d" by (simp add: dom_of_def)
  show ?case
  proof (cases "mn_dominator d = None")
    case True
    then show ?thesis using Cons d dp by (simp add: node_res_def)
  next
    case False
    show ?thesis
    proof (cases acc)
      case None
      then show ?thesis using Cons d False by (auto simp: node_res_def)
    next
      case (Some a)
      then obtain m where m: "intersect mk g p a = Some (Inr m)" "fold_preds mk g (Some m) ps = Some (Inr (Some i))"
        using Cons.prems d False by (auto simp: node_res_def split: option.splits sum.splits)
      then show ?thesis using Cons.IH [OF m(2)] intersect_anc [OF m(1) refl] Some by (auto intro: anc_trans)
    qed
  qed
qed simp

text \<open>What the iteration does not touch.\<close>

definition same_edges :: "ModuleGraph \<Rightarrow> ModuleGraph \<Rightarrow> bool" where
  "same_edges g g' \<longleftrightarrow> nodes g' = nodes g \<and> succs_of g' = succs_of g \<and> preds_of g' = preds_of g"

lemma same_edges_refl [simp]: "same_edges g g"
  by (simp add: same_edges_def)

lemma same_edges_trans: "same_edges g g' \<Longrightarrow> same_edges g' g'' \<Longrightarrow> same_edges g g''"
  by (simp add: same_edges_def)

lemma same_graph_edges: "same_graph g g' \<Longrightarrow> same_edges g g'"
  by (simp add: same_edges_def same_graph_simps fun_eq_iff)

lemma same_edges_dom: "same_edges g (upd_node n (\<lambda>d. d\<lparr>mn_dominator := i\<rparr>) g)"
  by (auto simp: same_edges_def succs_of_def preds_of_def fun_eq_iff split: option.splits)

lemma dom_of_upd: "dom_of (upd_node n (\<lambda>d. d\<lparr>mn_dominator := i\<rparr>) g) m = (if m = n \<and> n \<in> nodes g then i else dom_of g m)"
  by (auto simp: dom_of_def nodes_at split: option.splits)

lemma dom_pass_edges:
  "dom_pass mk bs ch g = Some (Inr (ch', g')) \<Longrightarrow> same_edges g g' \<and> dom_of g' None = dom_of g None"
proof (induction bs arbitrary: ch g)
  case (Cons b bs)
  show ?case
  proof (cases "b = None")
    case True
    then show ?thesis using Cons by simp
  next
    case False
    then obtain d i where d: "node_at g b = Some d" "fold_preds mk g None (mn_preds d) = Some (Inr (Some i))"
      using Cons.prems by (auto simp: node_res_Inr split: sum.splits option.splits)
    let ?g = "upd_node b (\<lambda>d. d\<lparr>mn_dominator := Some i\<rparr>) g"
    show ?thesis
    proof (cases "mn_dominator d = Some i")
      case True
      then show ?thesis using Cons d False by (simp add: node_res_def)
    next
      case nd: False
      then have "same_edges ?g g' \<and> dom_of g' None = dom_of ?g None" using Cons d False by (simp add: node_res_def)
      then show ?thesis using same_edges_trans [OF same_edges_dom] dom_of_upd [of b "Some i" g None] False by auto
    qed
  qed
qed simp

lemma dom_pass_unchanged:
  assumes "dom_pass mk bs ch g = Some (Inr (False, g'))"
  shows "\<not> ch \<and> g' = g \<and>
    (\<forall>b\<in>set bs. b \<noteq> None \<longrightarrow> (\<exists>i. dom_of g b = Some i \<and> fold_preds mk g None (preds_of g b) = Some (Inr (Some i))))"
  using assms
proof (induction bs arbitrary: ch g)
  case (Cons b bs)
  show ?case
  proof (cases "b = None")
    case True
    then have "dom_pass mk bs ch g = Some (Inr (False, g'))" using Cons.prems by simp
    from Cons.IH [OF this] show ?thesis using True by simp
  next
    case False
    then obtain d i where d: "node_at g b = Some d" "fold_preds mk g None (mn_preds d) = Some (Inr (Some i))"
      using Cons.prems by (auto simp: node_res_Inr split: sum.splits option.splits)
    have "mn_dominator d = Some i"
    proof (rule ccontr)
      assume "mn_dominator d \<noteq> Some i"
      then have "dom_pass mk bs True (upd_node b (\<lambda>d. d\<lparr>mn_dominator := Some i\<rparr>) g) = Some (Inr (False, g'))"
        using Cons.prems d False by (simp add: node_res_def)
      then show False using Cons.IH by blast
    qed
    moreover have "dom_pass mk bs ch g = Some (Inr (False, g'))" using calculation Cons.prems d False by (simp add: node_res_def)
    ultimately show ?thesis using Cons.IH [of ch g] d by (auto simp: dom_of_def preds_of_def)
  qed
qed simp

lemma dom_loop_fixed:
  assumes "dom_loop mk rpot g = Some r" and "r = Inr g'"
  shows "same_edges g g' \<and> dom_of g' None = dom_of g None \<and> dom_pass mk rpot False g' = Some (Inr (False, g'))"
  using assms(2)
proof (rule mp [OF dom_loop.raw_induct [where P = "\<lambda>mk rpot g r. r = Inr g' \<longrightarrow>
    same_edges g g' \<and> dom_of g' None = dom_of g None \<and> dom_pass mk rpot False g' = Some (Inr (False, g'))", OF _ assms(1)], rotated])
  fix f :: "Marker \<Rightarrow> nid list \<Rightarrow> ModuleGraph \<Rightarrow> ModuleGraph res option" and mk rpot g r
  assume IH: "\<And>mk rpot g r. f mk rpot g = Some r \<Longrightarrow> r = Inr g' \<longrightarrow>
      same_edges g g' \<and> dom_of g' None = dom_of g None \<and> dom_pass mk rpot False g' = Some (Inr (False, g'))"
    and eq: "(case dom_pass mk rpot False g of
        None \<Rightarrow> None
      | Some (Inl e) \<Rightarrow> Some (Inl e)
      | Some (Inr (changed, g)) \<Rightarrow> if changed then f mk rpot g else Some (Inr g)) = Some r"
  show "r = Inr g' \<longrightarrow> same_edges g g' \<and> dom_of g' None = dom_of g None \<and> dom_pass mk rpot False g' = Some (Inr (False, g'))"
  proof
    assume r: "r = Inr g'"
    then obtain ch g1 where p: "dom_pass mk rpot False g = Some (Inr (ch, g1))" "(if ch then f mk rpot g1 else Some (Inr g1)) = Some r"
      using eq by (auto split: option.splits sum.splits)
    show "same_edges g g' \<and> dom_of g' None = dom_of g None \<and> dom_pass mk rpot False g' = Some (Inr (False, g'))"
    proof (cases ch)
      case True
      then have "same_edges g1 g' \<and> dom_of g' None = dom_of g1 None \<and> dom_pass mk rpot False g' = Some (Inr (False, g'))"
        using IH p(2) r by simp
      then show ?thesis using dom_pass_edges [OF p(1)] same_edges_trans by metis
    next
      case False
      then show ?thesis using p r dom_pass_unchanged [of mk rpot False g g1] by simp
    qed
  qed
qed

section \<open>Paths\<close>

inductive rpath :: "ModuleGraph \<Rightarrow> nid list \<Rightarrow> nid \<Rightarrow> bool" for g where
  rpath_root: "rpath g [None] None"
| rpath_step: "rpath g xs p \<Longrightarrow> b \<in> set (succs_of g p) \<Longrightarrow> rpath g (xs @ [b]) b"

lemma rpath_reach: "rpath g xs b \<Longrightarrow> al.reach g None b"
  by (induction rule: rpath.induct) (auto intro: al.reach.intros)

lemma rpath_root_in: "rpath g xs b \<Longrightarrow> None \<in> set xs"
  by (induction rule: rpath.induct) auto

lemma rpath_first: "rpath g xs c \<Longrightarrow> b \<in> set xs \<Longrightarrow> b \<noteq> None \<Longrightarrow> \<exists>ys p. rpath g ys p \<and> b \<in> set (succs_of g p) \<and> b \<notin> set ys"
  by (induction rule: rpath.induct) auto

lemma rpath_last: "rpath g xs b \<Longrightarrow> b \<in> set xs"
  by (induction rule: rpath.induct) auto

text \<open>Where no node's entry changes any more, the chain of a node lies on every path to it.\<close>

definition dom_fixed :: "Marker \<Rightarrow> ModuleGraph \<Rightarrow> bool" where
  "dom_fixed mk g \<longleftrightarrow> dom_of g None = Some None \<and>
     (\<forall>b. al.reach g None b \<and> b \<noteq> None \<longrightarrow> (\<exists>i. dom_of g b = Some i \<and> fold_preds mk g None (preds_of g b) = Some (Inr (Some i))))"

definition edges_dual :: "ModuleGraph \<Rightarrow> bool" where
  "edges_dual g \<longleftrightarrow> (\<forall>n m. m \<in> set (succs_of g n) \<longrightarrow> n \<in> set (preds_of g m))"

lemma fixed_pred:
  assumes "dom_fixed mk g" and "edges_dual g" and "al.reach g None p" and "b \<in> set (succs_of g p)" and "b \<noteq> None"
  shows "\<exists>i. dom_of g b = Some i \<and> anc g p i"
proof -
  have "al.reach g None b" using assms(3,4) by (auto intro: al.reach.step)
  then obtain i where i: "dom_of g b = Some i" "fold_preds mk g None (preds_of g b) = Some (Inr (Some i))"
    using assms(1,5) by (auto simp: dom_fixed_def)
  have "dom_of g p \<noteq> None" using assms(1,3) by (cases "p = None") (auto simp: dom_fixed_def)
  then show ?thesis using fold_preds_anc [OF i(2)] i(1) assms(2,4) by (auto simp: edges_dual_def)
qed

lemma anc_on_path:
  assumes "dom_fixed mk g" and "edges_dual g" and "rpath g xs b" and "anc g b a"
  shows "a \<in> set xs"
  using assms(3,4)
proof (induction arbitrary: a rule: rpath.induct)
  case rpath_root
  have "x = None \<Longrightarrow> a = None" for x using rpath_root unfolding anc_def
    by (induction rule: rtranclp_induct) (use assms(1) in \<open>auto simp: dom_fixed_def\<close>)
  then show ?case by simp
next
  case (rpath_step xs p b)
  show ?case
  proof (cases "b = None")
    case True
    then have "anc g None a" using rpath_step by simp
    then have "a = None" unfolding anc_def
      by (induction rule: rtranclp_induct) (use assms(1) in \<open>auto simp: dom_fixed_def\<close>)
    then show ?thesis using rpath_root_in [OF rpath_step(1)] by simp
  next
    case False
    obtain i where "dom_of g b = Some i" "anc g p i"
      using fixed_pred [OF assms(1,2) rpath_reach [OF rpath_step(1)] rpath_step(2) False] by blast
    then show ?thesis using anc_cases [OF rpath_step(4)] rpath_step(3) anc_trans by fastforce
  qed
qed

lemma number_nodes_same: "number_nodes mk no ns g = Inr (k, g') \<Longrightarrow> same_graph g g'"
proof (induction ns arbitrary: no g)
  case (Cons n ns)
  then obtain g1 where "Marker_Set mk n no g = Inr g1" "number_nodes mk (no + 1) ns g1 = Inr (k, g')" by auto
  moreover have "same_graph g g1" using calculation(1) same_graph_mark by (auto simp: Marker_Set_def split: if_splits)
  ultimately show ?case using Cons.IH same_graph_trans by blast
qed simp

lemma reach_edges: "same_edges g g' \<Longrightarrow> al.reach g' = al.reach g"
proof -
  assume s: "same_edges g g'"
  have "al.reach g' e n \<Longrightarrow> al.reach g e n" for e n
    by (induction rule: al.reach.induct) (use s in \<open>auto simp: same_edges_def intro: al.reach.intros\<close>)
  moreover have "al.reach g e n \<Longrightarrow> al.reach g' e n" for e n
    by (induction rule: al.reach.induct) (use s in \<open>auto simp: same_edges_def intro: al.reach.intros\<close>)
  ultimately show ?thesis by (auto simp: fun_eq_iff)
qed

lemma ComputeDomTree_fixed:
  assumes "graph_wf g" and "marks_fresh g" and "unat (k_max (markers g)) + 2 < 2 ^ 16" and "ComputeDomTree g = Some (Inr g')"
  shows "same_edges g g' \<and> (\<exists>mk. dom_fixed mk g')"
proof -
  obtain rpot g1 where r: "RPOTraversal g = Inr (rpot, g1)" "same_graph g g1" "set rpot = {n. al.reach g None n}"
    using RPOTraversal_ok [OF assms(1-3)] by blast
  obtain mk g2 where mk: "new_marker (of_nat (length (ip_map g1) + 1)) g1 = (mk, g2)" by (cases "new_marker (of_nat (length (ip_map g1) + 1)) g1")
  have g2: "same_graph g1 g2" using mk by (auto simp: new_marker_def NewMarker_def Let_def)
  obtain k g3 where g3: "number_nodes mk 0 rpot g2 = Inr (k, g3)"
      "dom_loop mk rpot (upd_node None (\<lambda>d. d\<lparr>mn_dominator := Some None\<rparr>) g3) = Some (Inr g')"
    using assms(4) r(1) mk by (auto simp: ComputeDomTree_def Let_def split: sum.splits if_splits)
  let ?g = "upd_node None (\<lambda>d. d\<lparr>mn_dominator := Some None\<rparr>) g3"
  note l = dom_loop_fixed [OF g3(2) refl]
  have e: "same_edges g ?g"
    using same_graph_edges [OF same_graph_trans [OF same_graph_trans [OF r(2) g2] number_nodes_same [OF g3(1)]]]
      same_edges_dom same_edges_trans by blast
  have "same_edges g g'" using l e same_edges_trans by blast
  moreover have "dom_of g' None = Some None" using l dom_of_upd [of None "Some None" g3 None] by (simp add: nodes_def)
  moreover have "\<exists>i. dom_of g' b = Some i \<and> fold_preds mk g' None (preds_of g' b) = Some (Inr (Some i))"
    if "al.reach g' None b" "b \<noteq> None" for b
    using dom_pass_unchanged [of mk rpot False g' g'] l that reach_edges [OF calculation(1)] r(3) by auto
  ultimately show ?thesis unfolding dom_fixed_def by blast
qed

text \<open>C36. When the iteration ends, it has found dominators: the node stored for any other node than the root that can be
  reached is a different node and lies on every path from the root to it; edges are unchanged.\<close>

theorem dominators_sound:
  assumes "graph_wf g" and "marks_fresh g" and "unat (k_max (markers g)) + 2 < 2 ^ 16"
    and "\<forall>n m. m \<in> set (succs_of g n) \<longrightarrow> n \<in> set (preds_of g m)" and "ComputeDomTree g = Some (Inr g')"
  shows "succs_of g' = succs_of g \<and> preds_of g' = preds_of g \<and>
    (\<forall>xs b. rpath g xs b \<longrightarrow> b \<noteq> None \<longrightarrow> (\<exists>d. dom_of g' b = Some d \<and> d \<noteq> b \<and> d \<in> set xs))"
proof -
  obtain mk where f: "same_edges g g'" "dom_fixed mk g'" using ComputeDomTree_fixed [OF assms(1-3,5)] by blast
  have du: "edges_dual g'" using f(1) assms(4) by (simp add: edges_dual_def same_edges_def)
  have rp: "rpath g xs b \<longleftrightarrow> rpath g' xs b" for xs b
  proof
    show "rpath g xs b \<Longrightarrow> rpath g' xs b" by (induction rule: rpath.induct) (use f(1) in \<open>auto simp: same_edges_def intro: rpath.intros\<close>)
    show "rpath g' xs b \<Longrightarrow> rpath g xs b" by (induction rule: rpath.induct) (use f(1) in \<open>auto simp: same_edges_def intro: rpath.intros\<close>)
  qed
  have "\<exists>d. dom_of g' b = Some d \<and> d \<noteq> b \<and> d \<in> set xs" if p: "rpath g' xs b" "b \<noteq> None" for xs b
  proof -
    obtain ys q where y: "rpath g' ys q" "b \<in> set (succs_of g' q)" "b \<notin> set ys" using rpath_first [OF p(1) rpath_last [OF p(1)] p(2)] by blast
    obtain d where d: "dom_of g' b = Some d" "anc g' q d" using fixed_pred [OF f(2) du rpath_reach [OF y(1)] y(2) p(2)] by blast
    have "d \<in> set ys" using anc_on_path [OF f(2) du y(1) d(2)] .
    moreover have "d \<in> set xs" using anc_on_path [OF f(2) du p(1)] anc_step [OF d(1) anc_refl] by blast
    ultimately show ?thesis using d(1) y(3) by auto
  qed
  then show ?thesis using f(1) rp by (simp add: same_edges_def)
qed

text \<open>The root, one entry and its successor, which goes back.\<close>

definition loop_graph :: ModuleGraph where
  "loop_graph =
     \<lparr>mg_segment = \<lparr>gip_base = 0x1000, seg_size = 0x1000\<rparr>,
      mg_root = (NewNode 0)\<lparr>mn_succs := [Some 0x1000]\<rparr>,
      ip_map =
        [(0x1000, (NewNode 0x1000)\<lparr>mn_segment_entry := True, mn_succs := [Some 0x1010], mn_preds := [None, Some 0x1010]\<rparr>),
         (0x1010, (NewNode 0x1010)\<lparr>mn_succs := [Some 0x1000], mn_preds := [Some 0x1000]\<rparr>)],
      markers = \<lparr>k_min = 0, k_max = 0\<rparr>\<rparr>"

declare intersect.simps [code] dom_loop.simps [code]

lemma loop_graph_returns: "case ComputeDomTree loop_graph of Some (Inr g) \<Rightarrow> True | _ \<Rightarrow> False"
  by code_simp

lemma loop_graph_at:
  "node_at loop_graph n =
     (if n = None then Some ((NewNode 0)\<lparr>mn_succs := [Some 0x1000]\<rparr>)
      else if n = Some 0x1000
      then Some ((NewNode 0x1000)\<lparr>mn_segment_entry := True, mn_succs := [Some 0x1010], mn_preds := [None, Some 0x1010]\<rparr>)
      else if n = Some 0x1010 then Some ((NewNode 0x1010)\<lparr>mn_succs := [Some 0x1000], mn_preds := [Some 0x1000]\<rparr>)
      else None)"
  by (cases n) (auto simp: loop_graph_def node_at_def sm_find_def)

theorem dominators_sound_witness:
  "\<exists>g' d. ComputeDomTree loop_graph = Some (Inr g') \<and> dom_of g' (Some 0x1010) = Some d \<and> d \<noteq> Some 0x1010 \<and>
    d \<in> set [None, Some 0x1000, Some 0x1010]"
proof -
  obtain g' where g': "ComputeDomTree loop_graph = Some (Inr g')"
    using loop_graph_returns by (auto split: option.splits sum.splits)
  have a: "graph_wf loop_graph" "marks_fresh loop_graph" "unat (k_max (markers loop_graph)) + 2 < 2 ^ 16"
      "\<forall>n m. m \<in> set (succs_of loop_graph n) \<longrightarrow> n \<in> set (preds_of loop_graph m)"
    by (auto simp: graph_wf_def marks_fresh_def succs_of_def preds_of_def nodes_at loop_graph_at NewNode_def split: if_splits)
      (simp add: loop_graph_def)
  have "rpath loop_graph ([None] @ [Some 0x1000]) (Some 0x1000)"
    by (rule rpath_step [OF rpath_root]) (simp add: succs_of_def loop_graph_at)
  then have "rpath loop_graph (([None] @ [Some 0x1000]) @ [Some 0x1010]) (Some 0x1010)"
    by (rule rpath_step) (simp add: succs_of_def loop_graph_at)
  then show ?thesis using dominators_sound [OF a g'] g' by fastforce
qed

section \<open>Capacity of the numbering\<close>

lemma number_nodes_fail:
  assumes "unat (m_max mk) \<le> unat (m_min mk) + c" and "unat no + length ns < 2 ^ 16"
    and "number_nodes mk no ns g = Inr (k, g')" and "unat no \<le> c"
  shows "unat k = unat no + length ns \<and> unat k \<le> c"
  using assms(2-4)
proof (induction ns arbitrary: no g)
  case (Cons n ns)
  then obtain g1 where g1: "Marker_Set mk n no g = Inr g1" "number_nodes mk (no + 1) ns g1 = Inr (k, g')" by auto
  have "unat no < c" using g1(1) assms(1) by (auto simp: Marker_Set_def split: if_splits)
  moreover have "unat (no + 1) = unat no + 1" using Cons.prems(1) by (simp add: unat_word_ariths)
  ultimately show ?case using Cons.IH [OF _ g1(2)] Cons.prems(1) by simp
qed simp

text \<open>C37. A page has at most 254 blocks for the ahead-of-time compiler: with 255 or more, counting the root at least 256
  nodes, the number of marks is truncated to a byte and the computation stops at an assertion or panics.\<close>

theorem marker_capacity:
  assumes "graph_wf g" and "marks_fresh g" and "unat (k_max (markers g)) + 1026 < 2 ^ 16"
    and "255 \<le> length (ip_map g)" and "length (ip_map g) \<le> 1024"
  shows "\<exists>f. ComputeDomTree g = Some (Inl f)"
proof -
  have k2: "unat (k_max (markers g)) + 2 < 2 ^ 16" using assms(3) by simp
  obtain rpot g1 where r: "RPOTraversal g = Inr (rpot, g1)" "same_graph g g1" "set rpot = {n. al.reach g None n}" "distinct rpot"
      "unat (k_max (markers g1)) = unat (k_max (markers g)) + 2"
    using RPOTraversal_ok [OF assms(1,2) k2] by blast
  have ln: "length (ip_map g1) = length (ip_map g)" using r(2) unfolding same_graph_def by (metis length_map)
  let ?n = "length (ip_map g1) + 1"
  obtain mk g2 where mk: "new_marker (of_nat ?n) g1 = (mk, g2)" by (cases "new_marker (of_nat ?n) g1")
  have m: "m_min mk = k_max (markers g1)" "m_max mk = k_max (markers g1) + ucast (of_nat ?n :: u8)"
    using mk by (auto simp: new_marker_def NewMarker_def Let_def)
  have "unat (ucast (of_nat ?n :: u8) :: u16) \<le> 255"
  proof -
    have "unat (of_nat ?n :: u8) < 2 ^ 8" by (rule order_less_le_trans [OF unsigned_less]) simp
    then show ?thesis by (simp add: unsigned_ucast_eq take_bit_nat_eq_self)
  qed
  moreover have "unat (m_max mk) \<le> unat (m_min mk) + unat (ucast (of_nat ?n :: u8) :: u16)"
    unfolding m by (simp only: unat_word_ariths mod_less_eq_dividend)
  ultimately have mx: "unat (m_max mk) \<le> unat (m_min mk) + 255" by simp
  have "al.reach g None n \<Longrightarrow> n \<in> nodes g" for n
    by (induction rule: al.reach.induct) (use assms(1) in \<open>auto simp: graph_wf_def nodes_def\<close>)
  then have "set rpot \<subseteq> nodes g" using r(3) by auto
  then have "length rpot \<le> card (nodes g)" using r(4) by (metis card_mono distinct_card finite_nodes)
  also have "\<dots> \<le> Suc (card (Some ` fst ` set (ip_map g)))" unfolding nodes_def by (simp add: card_insert_le_m1)
  also have "card (Some ` fst ` set (ip_map g)) \<le> length (ip_map g)"
    by (metis card_image_le card_length finite_imageI le_trans List.finite_set)
  finally have rl: "length rpot \<le> Suc (length (ip_map g))" by simp
  have "unat k \<noteq> ?n" if "number_nodes mk 0 rpot g2 = Inr (k, g3)" for k g3
    using number_nodes_fail [OF mx _ that] rl assms(4,5) ln by simp
  then show ?thesis using r(1) mk by (auto simp: ComputeDomTree_def Let_def split: sum.splits)
qed

definition wide_graph :: ModuleGraph where
  "wide_graph = (NewModuleGraph \<lparr>gip_base = 0, seg_size = 0x1000\<rparr>)\<lparr>ip_map := map (\<lambda>i. (of_nat i, NewNode (of_nat i))) [0..<255]\<rparr>"

theorem marker_capacity_witness: "\<exists>f. ComputeDomTree wide_graph = Some (Inl f)"
proof -
  have at: "mn_mark d = 0 \<and> mn_succs d = []" if "node_at wide_graph n = Some d" for n d
    using that by (cases n) (auto simp: wide_graph_def node_at_def NewModuleGraph_def NewNode_def sm_find_def dest!: map_of_SomeD)
  have "graph_wf wide_graph" "marks_fresh wide_graph"
    using at by (auto simp: graph_wf_def marks_fresh_def succs_of_def split: option.splits)
  moreover have "unat (k_max (markers wide_graph)) + 1026 < 2 ^ 16" "255 \<le> length (ip_map wide_graph)" "length (ip_map wide_graph) \<le> 1024"
    by (simp_all add: wide_graph_def NewModuleGraph_def)
  ultimately show ?thesis by (rule marker_capacity)
qed

end
