(* ===== verification/Execute.thy ===== *)
theory Execute
  imports Emit_Correct
begin

text \<open>
  The execution loop of \<^verbatim>\<open>src/dbt/execute.cpp\<close> in the configuration that translates, with the compiler's driver
  of \<^verbatim>\<open>src/dbt/qmc/compile.cpp\<close> and the allocation of emitted code in \<^verbatim>\<open>src/dbt/qmc/qcg/qemit.cpp\<close>. A job runs through the
  translator, selection, register allocation and emission, all of them the definitions of the other theories.
  Two things are arguments: the asmjit library, which turns the requests of emission into bytes, and
  the run of translated code, which the trampoline enters and which comes back with a slot to link,
  without one, or through \<open>RaiseTrap\<close>. Values are \<open>None\<close> where register allocation does not end.
\<close>

section \<open>Compilation\<close>

definition HandleTrap :: "CPUState \<Rightarrow> bool" where "HandleTrap s \<longleftrightarrow> \<not> IsTrapPending s"

record config =
  cf_debug :: bool
  cf_dump_trace :: bool
  cf_zero_membase :: bool

text \<open>The assembler: the size it gives for a list of requests, before they are relocated, and the bytes it copies to an address. With it,
  where the stubs and the table of indirect targets are.\<close>

record backend =
  code_size :: "asm list \<Rightarrow> u64"
  code_bytes :: "asm list \<Rightarrow> u64 \<Rightarrow> u8 list"
  be_stub_tab :: stub_tab
  be_l1_cache :: u64

definition EmitCode :: "config \<Rightarrow> backend \<Rightarrow> asm list \<Rightarrow> runtime \<Rightarrow> ((u64 \<times> u64) \<times> runtime) res" where
  "EmitCode cfg be code rt =
     rbind (AllocateCode (cf_debug cfg) (code_size be code) 8 (rt_tc rt)) (\<lambda>(p, tc).
       case p of
         None \<Rightarrow> Inl Panic
       | Some p \<Rightarrow>
           (let bs = code_bytes be code p in
            Inr ((p, of_nat (length bs)), rt\<lparr>rt_tc := tc, rt_mem := store_bytes (rt_mem rt) p bs\<rparr>)))"

definition AnnounceRegion :: "config \<Rightarrow> u32 \<Rightarrow> u64 \<times> u64 \<Rightarrow> tcache \<Rightarrow> (u64 \<times> tcache) res" where
  "AnnounceRegion cfg a code t =
     rbind (AllocateTBlock (cf_debug cfg) t) (\<lambda>(p, t).
     rbind (deref p t) (\<lambda>tb.
     rbind (tcache_Insert p
              (t\<lparr>tblocks := (tblocks t)(p \<mapsto> tb\<lparr>tb_ip := a, tcode_ptr := fst code, tcode_size := snd code\<rparr>)\<rparr>)) (\<lambda>t.
       Inr (p, t))))"

definition GetCompilationIPRange :: "config \<Rightarrow> u32 \<Rightarrow> tcache \<Rightarrow> (u32 \<times> u32) res" where
  "GetCompilationIPRange cfg a t =
     (let upper = ucast (roundup (ucast a) PAGE_SIZE) in
      if cf_dump_trace cfg then Inr (a, upper)
      else case LookupUpperBound a t of
             None \<Rightarrow> Inr (a, upper)
           | Some p \<Rightarrow> rbind (deref p t) (\<lambda>tb. Inr (a, min upper (tb_ip tb))))"

text \<open>The requests a job makes to the assembler, and the whole job.\<close>

definition job_code ::
  "config \<Rightarrow> backend \<Rightarrow> u64 \<Rightarrow> CodeSegment \<Rightarrow> (u32 \<times> u32) list \<Rightarrow> runtime \<Rightarrow> QEmit res option" where
  "job_code cfg be membase seg iprange rt =
     dbind (Some (CompilerGenRegionIR (cf_dump_trace cfg) iprange (\<lambda>a. rt_mem rt (membase + a)))) (\<lambda>r.
       GenerateCode True (cf_zero_membase cfg) seg (be_stub_tab be) (be_l1_cache be) (region_view r) (vregs_info r) (fst (hd iprange)))"

definition CompilerDoJob ::
  "config \<Rightarrow> backend \<Rightarrow> u64 \<Rightarrow> CodeSegment \<Rightarrow> (u32 \<times> u32) list \<Rightarrow> runtime \<Rightarrow> (u64 \<times> runtime) res option" where
  "CompilerDoJob cfg be membase seg iprange rt =
     dbind (job_code cfg be membase seg iprange rt) (\<lambda>e.
       Some (rbind (EmitCode cfg be (qe_code e) rt) (\<lambda>(code, rt).
             rbind (AnnounceRegion cfg (fst (hd iprange)) code (rt_tc rt)) (\<lambda>(p, tc).
               Inr (p, rt\<lparr>rt_tc := tc\<rparr>)))))"

section \<open>The loop\<close>

datatype tc_exit = Escaped "u64 option" runtime | TrapRaised runtime

definition job_segment :: "u32 \<Rightarrow> CodeSegment" where
  "job_segment a = \<lparr>gip_base = ucast (rounddown (ucast a) PAGE_SIZE), seg_size = ucast PAGE_SIZE\<rparr>"

definition find_block :: "config \<Rightarrow> backend \<Rightarrow> u64 \<Rightarrow> runtime \<Rightarrow> (u64 \<times> runtime) res option" where
  "find_block cfg be membase rt =
     (let a = ip (rt_cpu rt) in
      dbind (Some (Lookup a (rt_tc rt))) (\<lambda>(tb, tc).
        let rt = rt\<lparr>rt_tc := tc\<rparr> in
        case tb of
          Some p \<Rightarrow> Some (Inr (p, rt))
        | None \<Rightarrow>
            dbind (Some (GetCompilationIPRange cfg a (rt_tc rt))) (\<lambda>range.
              CompilerDoJob cfg be membase (job_segment a) [range] rt)))"

definition enter_block :: "u64 option \<Rightarrow> u64 \<Rightarrow> runtime \<Rightarrow> (u64 \<times> runtime) res" where
  "enter_block branch_slot p rt =
     rbind (deref p (rt_tc rt)) (\<lambda>tb.
     rbind (case branch_slot of
              Some slot \<Rightarrow>
                (let m = Link (tcode_ptr tb) slot (rt_mem rt) in
                 rbind (RecordLink slot p (slot_cross_segment m slot) (rt_tc rt)) (\<lambda>tc.
                   Inr (rt\<lparr>rt_tc := tc, rt_mem := m\<rparr>)))
            | None \<Rightarrow> rbind (CacheBrind p (rt_tc rt)) (\<lambda>tc. Inr (rt\<lparr>rt_tc := tc\<rparr>))) (\<lambda>rt.
       Inr (tcode_ptr tb, rt)))"

definition prepare :: "config \<Rightarrow> backend \<Rightarrow> u64 \<Rightarrow> u64 option \<Rightarrow> runtime \<Rightarrow> (u64 \<times> runtime) res option" where
  "prepare cfg be membase branch_slot rt =
     (if cf_debug cfg \<and>
         (gpr (rt_cpu rt) 0 \<noteq> 0 \<or>
          (case branch_slot of None \<Rightarrow> False | Some slot \<Rightarrow> slot_gip (rt_mem rt) slot \<noteq> ip (rt_cpu rt)))
      then Some (Inl AssertFailed)
      else dbind (find_block cfg be membase rt) (\<lambda>(p, rt). Some (enter_block branch_slot p rt)))"

partial_function (option) execute_loop ::
  "config \<Rightarrow> backend \<Rightarrow> u64 \<Rightarrow> (u64 \<Rightarrow> runtime \<Rightarrow> tc_exit) \<Rightarrow> u64 option \<Rightarrow> runtime \<Rightarrow> runtime res option" where
  "execute_loop cfg be membase run branch_slot rt =
     (if HandleTrap (rt_cpu rt) then Some (Inr rt)
      else case prepare cfg be membase branch_slot rt of
             None \<Rightarrow> None
           | Some (Inl e) \<Rightarrow> Some (Inl e)
           | Some (Inr (tc_ptr, rt)) \<Rightarrow>
               (case run tc_ptr rt of
                  Escaped slot rt \<Rightarrow> execute_loop cfg be membase run slot rt
                | TrapRaised rt \<Rightarrow> execute_loop cfg be membase run None rt))"

definition Execute ::
  "config \<Rightarrow> backend \<Rightarrow> u64 \<Rightarrow> (u64 \<Rightarrow> runtime \<Rightarrow> tc_exit) \<Rightarrow> runtime \<Rightarrow> runtime res option" where
  "Execute cfg be membase run rt = execute_loop cfg be membase run None rt"

section \<open>Ranges\<close>

lemma unat_u32: "unat (a :: u32) < 2 ^ 32"
  by (rule order_less_le_trans [OF unsigned_less]) simp

lemma unat_ucast_64 [simp]: "unat (ucast (a :: u32) :: u64) = unat a"
proof -
  have "unat a < 2 ^ 64" using unat_u32 [of a] by simp
  then show ?thesis by (simp add: unsigned_ucast_eq take_bit_nat_eq_self)
qed

lemma unat_ucast_32: "unat (ucast (x :: u64) :: u32) = unat x mod 2 ^ 32"
  by (simp add: unsigned_ucast_eq take_bit_eq_mod)

lemma unat_roundup_page:
  "unat (roundup (ucast (a :: u32)) PAGE_SIZE) = (unat a + 4095) div 4096 * 4096"
proof -
  show ?thesis using unat_u32 [of a] roundup_nat(1) [of PAGE_SIZE "ucast a"] by (simp add: PAGE_SIZE_def)
qed

lemma below_next_page: "n < (n div 4096 + 1) * (4096 :: nat)"
  using div_mult_mod_eq [of n 4096] mod_less_divisor [of 4096 n] by simp

lemma above_nonzero: "x < (u :: u32) \<Longrightarrow> u \<noteq> 0"
  by auto

lemma page_end_cases:
  fixes a :: u32
  defines "u \<equiv> ucast (roundup (ucast a) PAGE_SIZE) :: u32"
  shows "unat a mod 4096 = 0 \<Longrightarrow> u = a"
    and "unat a mod 4096 \<noteq> 0 \<Longrightarrow> unat a div 4096 = 2 ^ 20 - 1 \<Longrightarrow> u = 0"
    and "unat a mod 4096 \<noteq> 0 \<Longrightarrow> unat a div 4096 < 2 ^ 20 - 1 \<Longrightarrow>
      unat u = (unat a div 4096 + 1) * 4096"
proof -
  have u: "unat u = (unat a + 4095) div 4096 * 4096 mod 2 ^ 32" by (simp add: u_def unat_ucast_32 unat_roundup_page)
  note l = unat_u32 [of a]
  show "u = a" if z: "unat a mod 4096 = 0"
  proof -
    from z obtain k where "unat a = k * 4096" by (metis div_mult_mod_eq add_0_right)
    then have "(unat a + 4095) div 4096 * 4096 = unat a" by simp
    then have "unat u = unat a" using u l by simp
    then show ?thesis by (rule unsigned_word_eqI)
  qed
  assume z: "unat a mod 4096 \<noteq> 0"
  define q r where "q = unat a div 4096" and "r = unat a mod 4096"
  have "unat a = r + q * 4096" "0 < r" "r < 4096" using z by (simp_all add: q_def r_def)
  then have "(unat a + 4095) div 4096 = q + 1" by simp
  then have e: "(unat a + 4095) div 4096 = unat a div 4096 + 1" by (simp add: q_def)
  show "u = 0" if "unat a div 4096 = 2 ^ 20 - 1" 
  proof -
    have "unat u = 0" using u that unfolding e by simp
    then show ?thesis by (simp add: unat_eq_0)
  qed
  show "unat u = (unat a div 4096 + 1) * 4096" if "unat a div 4096 < 2 ^ 20 - 1"
    using u that unfolding e by simp
qed

lemma range_cases:
  assumes "tc_inv t"
  shows "\<exists>upper. GetCompilationIPRange cfg a t = Inr (a, upper) \<and>
    (unat a mod 4096 \<noteq> 0 \<and> unat a div 4096 < 2 ^ 20 - 1 \<longrightarrow>
       a < upper \<and> unat upper \<le> (unat a div 4096 + 1) * 4096) \<and>
    (unat a mod 4096 = 0 \<longrightarrow> upper = a) \<and>
    (unat a mod 4096 \<noteq> 0 \<and> unat a div 4096 = 2 ^ 20 - 1 \<longrightarrow> upper = 0) \<and>
    (\<not> cf_dump_trace cfg \<longrightarrow> (\<forall>g. a < g \<and> g < upper \<longrightarrow> sm_find g (tcache_map t) = None))"
proof -
  let ?u = "ucast (roundup (ucast a) PAGE_SIZE) :: u32"
  have lt: "a < ?u" if "unat a mod 4096 \<noteq> 0" "unat a div 4096 < 2 ^ 20 - 1"
    unfolding word_less_nat_alt page_end_cases(3) [OF that] by (rule below_next_page)
  show ?thesis
  proof (cases "cf_dump_trace cfg \<or> sm_above a (tcache_map t) = None")
    case True
    then have r: "GetCompilationIPRange cfg a t = Inr (a, ?u)"
      by (auto simp: GetCompilationIPRange_def LookupUpperBound_def Let_def)
    show ?thesis unfolding r
      using True lt page_end_cases [of a] smap.above_None [OF tc_invD(1) [OF assms], of a] by auto
  next
    case False
    then obtain g p where g: "sm_above a (tcache_map t) = Some (g, p)" by auto
    note ab = smap.above_Some [OF tc_invD(1) [OF assms] g]
    obtain tb where tb: "tblocks t p = Some tb" "tb_ip tb = g" using ab tc_invD(3) [OF assms] by blast
    have r: "GetCompilationIPRange cfg a t = Inr (a, min ?u g)"
      using False g tb by (simp add: GetCompilationIPRange_def LookupUpperBound_def deref_def Let_def)
    have "unat (min ?u g) \<le> unat ?u" by (simp add: min_def word_le_nat_alt)
    moreover have "min ?u g = a" if "?u = a" using ab that by (auto simp: min_def)
    moreover have "min ?u g = 0" if "?u = 0" using that by (simp add: min_def)
    ultimately show ?thesis unfolding r using lt page_end_cases [of a] ab by auto
  qed
qed

text \<open>C22. The range the loop compiles for an address inside a page that is not the last: it starts at the
  address, is not empty, stays inside the page, and no translated block starts strictly inside it.
  For an address on a page boundary the range is empty, and inside the last page its end wraps to 0.\<close>

theorem compilation_range:
  assumes "tc_inv t"
  shows "\<exists>upper. GetCompilationIPRange cfg a t = Inr (a, upper) \<and>
    (unat a mod 4096 \<noteq> 0 \<and> unat a div 4096 < 2 ^ 20 - 1 \<longrightarrow>
       a < upper \<and> unat upper \<le> (unat a div 4096 + 1) * 4096) \<and>
    (unat a mod 4096 = 0 \<longrightarrow> upper = a) \<and>
    (unat a mod 4096 \<noteq> 0 \<and> unat a div 4096 = 2 ^ 20 - 1 \<longrightarrow> upper = 0) \<and>
    (\<not> cf_dump_trace cfg \<longrightarrow> (\<forall>g. a < g \<and> g < upper \<longrightarrow> sm_find g (tcache_map t) = None))"
  using range_cases [OF assms] .

theorem compilation_range_witness:
  "\<exists>upper. GetCompilationIPRange \<lparr>cf_debug = True, cf_dump_trace = False, cf_zero_membase = True\<rparr> 0x0ff0 example_cache = Inr (0x0ff0, upper) \<and>
     0x0ff0 < upper \<and> unat upper \<le> 4096"
  using compilation_range [OF example_cache_inv, of "\<lparr>cf_debug = True, cf_dump_trace = False, cf_zero_membase = True\<rparr>" "0x0ff0"] by auto

section \<open>From a guest address to its code\<close>

definition room :: "u64 \<Rightarrow> MemArena \<Rightarrow> bool" where
  "room sz a \<longleftrightarrow> arena_inv a \<and> unat (used a) + 8 + unat sz \<le> unat (pool_sz a)"

lemma Allocate_room:
  assumes "room sz a"
  obtains p a' where "Allocate debug sz 8 a = Inr (Some p, a')" "pool a' = pool a"
    "unat (used a) \<le> unat (p - pool a)" "unat (p - pool a) + unat sz = unat (used a')" "arena_inv a'"
proof -
  have b: "unat (used a) + 8 + unat sz \<le> unat (pool_sz a)" "arena_inv a" "unat sz \<le> 2 ^ 62"
    using assms by (simp_all add: room_def arena_inv_def)
  have st: "unat (used a) \<le> unat (roundup (used a) 8)" "unat (roundup (used a) 8) < unat (used a) + 8"
    using roundup_nat(2,3) [of 8 "used a"] b by (simp_all add: arena_inv_def)
  then have e: "unat (roundup (used a) 8 + sz) = unat (roundup (used a) 8) + unat sz"
    using b by (simp add: unat_word_ariths arena_inv_def)
  then have "\<not> pool_sz a < roundup (used a) 8 + sz" using b st by (simp add: word_less_nat_alt)
  then have "Allocate debug sz 8 a = Inr (Some (pool a + roundup (used a) 8), a\<lparr>used := roundup (used a) 8 + sz\<rparr>)"
    by (simp add: Allocate_def Let_def)
  then show ?thesis using that st e b by (simp add: arena_inv_def)
qed

lemma AnnounceRegion_from:
  assumes inv: "tc_inv t" and a1: "AllocateTBlock (cf_debug cfg) t = Inr (p, t1)" and new: "tcode_of t a = None"
  obtains t' tb where "AnnounceRegion cfg a (c, n) t = Inr (p, t')" "tc_inv t'" "tcode_of t' = (tcode_of t)(a \<mapsto> c)"
    "sm_find a (tcache_map t') = Some p" "tblocks t' p = Some tb" "tb_ip tb = a" "tcode_ptr tb = c" "tcode_size tb = n"
proof -
  note i1 = AllocateTBlock_inv [OF inv a1]
  have t1: "tblocks t1 = (tblocks t)(p \<mapsto> NewTBlock)" by (rule AllocateTBlock_cases [OF a1]) simp
  define tb where "tb = NewTBlock\<lparr>tb_ip := a, tcode_ptr := c, tcode_size := n\<rparr>"
  define t2 where "t2 = t1\<lparr>tblocks := (tblocks t1)(p \<mapsto> tb)\<rparr>"
  have fresh: "sm_find g (tcache_map t) = Some q \<Longrightarrow> q \<noteq> p" for g q using i1 by blast
  have m2: "tcache_map t2 = tcache_map t" "tblocks t2 p = Some tb" "block_in_pool t2 p"
    using i1 by (simp_all add: t2_def block_in_pool_def)
  have "tc_inv t2"
    using tc_invD [of t1] i1 fresh unfolding t2_def
    by (intro tc_invI) (fastforce simp: block_in_pool_def brind_entry_ok_def)+
  from Insert_inv [OF this m2(2,3)] new obtain t3
    where t3: "tcache_Insert p t2 = Inr t3" "tc_inv t3" "tblocks t3 = tblocks t2"
      "\<And>g. sm_find g (tcache_map t3) = (if g = a then Some p else sm_find g (tcache_map t))"
    by (auto simp: m2 tb_def tcode_of_None [OF inv])
  have "tblocks t2 q = tblocks t q" if "sm_find g (tcache_map t) = Some q" for g q
    using fresh [OF that] by (simp add: t2_def t1)
  then have "tcode_of t3 = (tcode_of t)(a \<mapsto> c)"
    using t3(3,4) m2(2) by (auto simp: tcode_of_def fun_eq_iff tb_def split: option.splits)
  moreover have "AnnounceRegion cfg a (c, n) t = Inr (p, t3)"
    using a1 i1 t3(1) by (simp add: AnnounceRegion_def deref_def t2_def tb_def)
  ultimately show ?thesis using that [of t3 tb] t3 m2 by (simp add: tb_def)
qed

lemma AnnounceRegion_code:
  assumes inv: "tc_inv t" and rm: "room sizeof_TBlock (tb_pool t)" and new: "tcode_of t a = None"
  obtains p t' tb where "AnnounceRegion cfg a (c, n) t = Inr (p, t')" "tc_inv t'" "tcode_of t' = (tcode_of t)(a \<mapsto> c)"
    "sm_find a (tcache_map t') = Some p" "tblocks t' p = Some tb" "tb_ip tb = a" "tcode_ptr tb = c" "tcode_size tb = n"
proof -
  obtain p ar where "Allocate (cf_debug cfg) sizeof_TBlock 8 (tb_pool t) = Inr (Some p, ar)"
    by (rule Allocate_room [OF rm, of "cf_debug cfg"])
  then obtain t1 where "AllocateTBlock (cf_debug cfg) t = Inr (p, t1)" by (simp add: AllocateTBlock_def)
  then show ?thesis by (rule AnnounceRegion_from [OF inv _ new]) (rule that)
qed

text \<open>Code that was allocated before keeps its bytes, but for those of one slot.\<close>

definition code_kept :: "runtime \<Rightarrow> u64 option \<Rightarrow> vmem \<Rightarrow> bool" where
  "code_kept rt slot m \<longleftrightarrow>
     (\<forall>x. unat (x - pool (code_pool (rt_tc rt))) < unat (used (code_pool (rt_tc rt))) \<longrightarrow>
          (\<forall>s. slot = Some s \<longrightarrow> 12 \<le> unat (x - s)) \<longrightarrow> m x = rt_mem rt x)"

definition holds_bytes :: "vmem \<Rightarrow> u64 \<Rightarrow> u8 list \<Rightarrow> bool" where
  "holds_bytes m p bs \<longleftrightarrow> (\<forall>i<length bs. m (p + of_nat i) = bs ! i)"

lemma EmitCode_ok:
  assumes "room (code_size be code) (code_pool (rt_tc rt))" and "\<And>p. length (code_bytes be code p) \<le> unat (code_size be code)"
  obtains p m cp where
    "EmitCode cfg be code rt = Inr ((p, of_nat (length (code_bytes be code p))), rt\<lparr>rt_tc := (rt_tc rt)\<lparr>code_pool := cp\<rparr>, rt_mem := m\<rparr>)"
    "code_kept rt None m" "holds_bytes m p (code_bytes be code p)"
proof -
  let ?a = "code_pool (rt_tc rt)"
  obtain p cp where al: "Allocate (cf_debug cfg) (code_size be code) 8 ?a = Inr (Some p, cp)"
      "unat (used ?a) \<le> unat (p - pool ?a)" "unat (p - pool ?a) + unat (code_size be code) = unat (used cp)" "arena_inv cp"
    by (rule Allocate_room [OF assms(1), of "cf_debug cfg"])
  let ?bs = "code_bytes be code p"
  let ?m = "store_bytes (rt_mem rt) p ?bs"
  have len: "unat (p - pool ?a) + length ?bs \<le> 2 ^ 63"
    using al(3,4) assms(2) [of p] unsigned_less [of "used cp"] by (simp add: arena_inv_def)
  have l: "length ?bs \<le> 2 ^ 64" using len by simp
  have "?m x = rt_mem rt x" if x: "unat (x - pool ?a) < unat (used ?a)" for x
  proof -
    have "\<not> unat (x - p) < length ?bs"
    proof
      assume l: "unat (x - p) < length ?bs"
      have "x - pool ?a = (x - p) + (p - pool ?a)" by simp
      then have "unat (x - pool ?a) = unat (x - p) + unat (p - pool ?a)"
        using l len unat_add_lem [of "x - p" "p - pool ?a"] by simp
      then show False using x al(2) by simp
    qed
    then show ?thesis using store_bytes_apply [OF l] by simp
  qed
  then have k: "code_kept rt None ?m" by (simp add: code_kept_def)
  have "unat (of_nat i :: u64) = i" if "i < length ?bs" for i using that len by (simp add: unsigned_of_nat take_bit_nat_eq_self)
  then have "holds_bytes ?m p ?bs" using store_bytes_apply [OF l] by (simp add: holds_bytes_def)
  then show ?thesis using that [of p ?m cp] k al(1) by (simp add: EmitCode_def AllocateCode_def Let_def)
qed

section \<open>Compiling a job\<close>

text \<open>What is asked of the process: the areas emitted code works on do not meet.\<close>

definition backend_ok :: "backend \<Rightarrow> host_env \<Rightarrow> bool" where
  "backend_ok be h \<longleftrightarrow> env_ok h \<and> h_tab h = be_stub_tab be \<and> h_l1 h = be_l1_cache be"

text \<open>When a job can be compiled: at most 63 ranges with distinct starts and non-zero ends over guest code without discarded loads, at most 255
  virtual registers, and room in both pools for this job's block and code. The assembler's code for this job must not be larger than the size it gave
  for it, which is documented: relocation can only shrink code.\<close>

definition job_ok :: "config \<Rightarrow> backend \<Rightarrow> u64 \<Rightarrow> CodeSegment \<Rightarrow> (u32 \<times> u32) list \<Rightarrow> runtime \<Rightarrow> bool" where
  "job_ok cfg be membase seg ranges rt \<longleftrightarrow>
     (let vm = \<lambda>a. rt_mem rt (membase + a) in
      cf_zero_membase cfg \<and> ranges \<noteq> [] \<and> distinct (map fst ranges) \<and> length ranges \<le> 63 \<and>
      (\<forall>r\<in>set ranges. snd r \<noteq> 0 \<and> no_discarded vm TB_MAX_INSNS (fst r)) \<and> codegen_vregs (cf_dump_trace cfg) ranges vm \<le> 255 \<and>
      room sizeof_TBlock (tb_pool (rt_tc rt)) \<and>
      (case job_code cfg be membase seg ranges rt of
         Some (Inr e) \<Rightarrow> room (code_size be (qe_code e)) (code_pool (rt_tc rt)) \<and>
           (\<forall>p. length (code_bytes be (qe_code e) p) \<le> unat (code_size be (qe_code e)))
       | _ \<Rightarrow> True))"

text \<open>What a job leaves for an address: a block of the cache with the code there, and all earlier code as it was.\<close>

definition compiled :: "backend \<Rightarrow> u32 \<Rightarrow> asm list \<Rightarrow> runtime \<Rightarrow> u64 \<Rightarrow> runtime \<Rightarrow> bool" where
  "compiled be a code rt p rt' \<longleftrightarrow> tc_inv (rt_tc rt') \<and> rt_cpu rt' = rt_cpu rt \<and> sm_find a (tcache_map (rt_tc rt')) = Some p \<and>
     code_kept rt None (rt_mem rt') \<and>
     (\<exists>tb. tblocks (rt_tc rt') p = Some tb \<and> tb_ip tb = a \<and> tcode_of (rt_tc rt') = (tcode_of (rt_tc rt))(a \<mapsto> tcode_ptr tb) \<and>
        tcode_size tb = of_nat (length (code_bytes be code (tcode_ptr tb))) \<and> holds_bytes (rt_mem rt') (tcode_ptr tb) (code_bytes be code (tcode_ptr tb)))"

lemma tcode_of_code_pool [simp]: "tcode_of (t\<lparr>code_pool := cp\<rparr>) = tcode_of t"
  by (simp add: tcode_of_def fun_eq_iff split: option.split)

lemma CompilerDoJob_ok:
  assumes inv: "tc_inv (rt_tc rt)" and be: "backend_ok be h" and j: "job_ok cfg be membase seg ranges rt"
    and new: "tcode_of (rt_tc rt) (fst (hd ranges)) = None"
  shows "\<exists>t v leaf e p rt'. Translate (cf_dump_trace cfg) (NewRegion state_info) ranges (\<lambda>a. rt_mem rt (membase + a)) = Inr t \<and>
    GenerateCode_passes (tview t) (vregs_info (t_region t)) = Some (Inr (v, leaf)) \<and> job_code cfg be membase seg ranges rt = Some (Inr e) \<and>
    CompilerDoJob cfg be membase seg ranges rt = Some (Inr (p, rt')) \<and> compiled be (fst (hd ranges)) (qe_code e) rt p rt' \<and>
    ip2bb t (fst (hd ranges)) = Some 0 \<and> enters h leaf (qe_code e) \<and>
    (\<forall>r\<in>set ranges. \<exists>bb l. ip2bb t (fst r) = Some bb \<and> label_at (qe_code e) bb = Some l \<and>
       emitted_code_of_range h leaf (qe_code e) (ip2bb t) (\<lambda>a. rt_mem rt (membase + a)) (fst r) l)"
proof -
  let ?vm = "\<lambda>a. rt_mem rt (membase + a)" and ?a = "fst (hd ranges)"
  have b: "env_ok h" "h_tab h = be_stub_tab be" "h_l1 h = be_l1_cache be"
    using be by (simp_all add: backend_ok_def)
  have k: "cf_zero_membase cfg" "ranges \<noteq> []" "distinct (map fst ranges)" "length ranges \<le> 63"
      "\<forall>r\<in>set ranges. snd r \<noteq> 0 \<and> no_discarded ?vm TB_MAX_INSNS (fst r)" "codegen_vregs (cf_dump_trace cfg) ranges ?vm \<le> 255"
      "room sizeof_TBlock (tb_pool (rt_tc rt))"
      "\<And>e. job_code cfg be membase seg ranges rt = Some (Inr e) \<Longrightarrow> room (code_size be (qe_code e)) (code_pool (rt_tc rt)) \<and>
         (\<forall>p. length (code_bytes be (qe_code e) p) \<le> unat (code_size be (qe_code e)))"
    using j by (simp_all add: job_ok_def Let_def)
  obtain t v leaf e where g: "Translate (cf_dump_trace cfg) (NewRegion state_info) ranges ?vm = Inr t"
      "GenerateCode_passes (tview t) (vregs_info (t_region t)) = Some (Inr (v, leaf))"
      "GenerateCode True True seg (h_tab h) (h_l1 h) (tview t) (vregs_info (t_region t)) ?a = Some (Inr e)"
      "ip2bb t ?a = Some 0" "enters h leaf (qe_code e)"
      "\<forall>r\<in>set ranges. \<exists>bb l. ip2bb t (fst r) = Some bb \<and> label_at (qe_code e) bb = Some l \<and>
         emitted_code_of_range h leaf (qe_code e) (ip2bb t) ?vm (fst r) l"
    using emitted_code [OF b(1) k(2-6), of True seg] by (elim exE conjE) (rule that)
  have jc: "job_code cfg be membase seg ranges rt = Some (Inr e)"
    using g(1,3) k(1,2) b(2,3) by (simp add: job_code_def CompilerGenRegionIR_def dbind_def)
  obtain q m cp where e: "EmitCode cfg be (qe_code e) rt =
      Inr ((q, of_nat (length (code_bytes be (qe_code e) q))), rt\<lparr>rt_tc := (rt_tc rt)\<lparr>code_pool := cp\<rparr>, rt_mem := m\<rparr>)"
      "code_kept rt None m" "holds_bytes m q (code_bytes be (qe_code e) q)"
    by (rule EmitCode_ok [of be "qe_code e" rt cfg]) (use k(8) [OF jc] in auto)
  let ?t = "(rt_tc rt)\<lparr>code_pool := cp\<rparr>" and ?n = "of_nat (length (code_bytes be (qe_code e) q)) :: u64"
  have t: "tc_inv ?t" "room sizeof_TBlock (tb_pool ?t)" "tcode_of ?t ?a = None" using inv k(7) new by simp_all
  obtain p t' tb where "AnnounceRegion cfg ?a (q, ?n) ?t = Inr (p, t')" "tc_inv t'" "tcode_of t' = (tcode_of ?t)(?a \<mapsto> q)"
      "sm_find ?a (tcache_map t') = Some p" "tblocks t' p = Some tb" "tb_ip tb = ?a" "tcode_ptr tb = q" "tcode_size tb = ?n"
    by (rule AnnounceRegion_code [OF t])
  then have "CompilerDoJob cfg be membase seg ranges rt = Some (Inr (p, rt\<lparr>rt_tc := t', rt_mem := m\<rparr>))"
      "compiled be ?a (qe_code e) rt p (rt\<lparr>rt_tc := t', rt_mem := m\<rparr>)"
    using jc e by (simp_all add: CompilerDoJob_def dbind_def compiled_def)
  then show ?thesis using g(1,2,4-6) jc by blast
qed

text \<open>The loop's job for an address: the range is not empty or starts on a page boundary, and its end is not 0.\<close>

definition compilable :: "config \<Rightarrow> backend \<Rightarrow> u64 \<Rightarrow> runtime \<Rightarrow> bool" where
  "compilable cfg be membase rt \<longleftrightarrow>
     (case GetCompilationIPRange cfg (ip (rt_cpu rt)) (rt_tc rt) of
        Inl e \<Rightarrow> False
      | Inr rg \<Rightarrow> job_ok cfg be membase (job_segment (ip (rt_cpu rt))) [rg] rt)"

lemma GetCompilationIPRange_l1: "GetCompilationIPRange cfg a (t\<lparr>l1_cache := c\<rparr>) = GetCompilationIPRange cfg a t"
  by (simp add: GetCompilationIPRange_def LookupUpperBound_def deref_def Let_def split: option.splits)

lemma job_ok_l1:
  assumes "tb_pool t = tb_pool (rt_tc rt)" and "code_pool t = code_pool (rt_tc rt)"
  shows "job_ok cfg be membase seg ranges (rt\<lparr>rt_tc := t\<rparr>) = job_ok cfg be membase seg ranges rt"
proof -
  have "job_code cfg be membase seg ranges (rt\<lparr>rt_tc := t\<rparr>) = job_code cfg be membase seg ranges rt" by (simp add: job_code_def)
  then show ?thesis using assms unfolding job_ok_def by (simp split: option.split sum.split)
qed

lemma find_block_ok:
  assumes inv: "tc_inv (rt_tc rt)" and a: "a = ip (rt_cpu rt)"
    and c: "tcode_of (rt_tc rt) a = None \<Longrightarrow> compilable cfg be membase rt \<and> backend_ok be h"
  obtains p rt' tb where "find_block cfg be membase rt = Some (Inr (p, rt'))" "tc_inv (rt_tc rt')"
    "rt_cpu rt' = rt_cpu rt" "sm_find a (tcache_map (rt_tc rt')) = Some p" "tblocks (rt_tc rt') p = Some tb" "tb_ip tb = a"
    "tcode_of (rt_tc rt') = (tcode_of (rt_tc rt))(a \<mapsto> tcode_ptr tb)" "code_kept rt None (rt_mem rt')"
proof -
  obtain t1 where t1: "Lookup a (rt_tc rt) = Inr (sm_find a (tcache_map (rt_tc rt)), t1)" "tc_inv t1"
      "t1 = (rt_tc rt)\<lparr>l1_cache := l1_cache t1\<rparr>"
    using Lookup_inv [OF inv] by blast
  have e: "tcache_map t1 = tcache_map (rt_tc rt)" "tblocks t1 = tblocks (rt_tc rt)" "tb_pool t1 = tb_pool (rt_tc rt)"
      "code_pool t1 = code_pool (rt_tc rt)" by (subst t1(3), simp)+
  have tc: "tcode_of t1 = tcode_of (rt_tc rt)" using e(1,2) by (intro ext) (simp add: tcode_of_def split: option.split)
  let ?rt = "rt\<lparr>rt_tc := t1\<rparr>"
  show ?thesis
  proof (cases "tcode_of (rt_tc rt) a")
    case None
    then have n: "sm_find a (tcache_map (rt_tc rt)) = None" using tcode_of_None [OF inv] by simp
    have rg: "GetCompilationIPRange cfg a t1 = GetCompilationIPRange cfg a (rt_tc rt)"
      using GetCompilationIPRange_l1 [of cfg a _ "rt_tc rt"] t1(3) by metis
    obtain upper where u: "GetCompilationIPRange cfg a (rt_tc rt) = Inr (a, upper)" using range_cases [OF inv, of cfg a] by blast
    have j: "job_ok cfg be membase (job_segment a) [(a, upper)] ?rt" "backend_ok be h"
      using c [OF None] u a job_ok_l1 [OF e(3,4)] by (simp_all add: compilable_def)
    obtain p rt' code where "CompilerDoJob cfg be membase (job_segment a) [(a, upper)] ?rt = Some (Inr (p, rt'))" "compiled be a code ?rt p rt'"
      using CompilerDoJob_ok [OF _ j(2,1)] t1(2) tc None by auto
    then show ?thesis using that [of p rt'] t1(1) n u rg tc e
      by (auto simp: find_block_def Let_def a [symmetric] code_kept_def compiled_def dbind_def)
  next
    case (Some k)
    obtain p tb where p: "sm_find a (tcache_map (rt_tc rt)) = Some p" "tblocks (rt_tc rt) p = Some tb" "tb_ip tb = a" "tcode_ptr tb = k"
      by (rule tcode_of_Some [OF inv Some])
    then show ?thesis using that [of p ?rt tb] t1 e tc Some
      by (simp add: find_block_def Let_def a [symmetric] code_kept_def fun_upd_idem dbind_def)
  qed
qed

lemma Link_frame: "12 \<le> unat (x - s) \<Longrightarrow> Link c s m x = m x"
  by (simp add: Link_def Let_def CreatePatch_def store_bytes_apply)

lemma enter_block_ok:
  assumes inv: "tc_inv (rt_tc rt)" and p: "sm_find a (tcache_map (rt_tc rt)) = Some p" "tblocks (rt_tc rt) p = Some tb" "tb_ip tb = a"
  obtains rt' where "enter_block slot p rt = Inr (tcode_ptr tb, rt')" "tc_inv (rt_tc rt')" "rt_cpu rt' = rt_cpu rt"
    "tcode_of (rt_tc rt') = tcode_of (rt_tc rt)"
    "\<forall>s. slot = Some s \<longrightarrow> slot_xfer (rt_mem rt') s = Some (XJump (tcode_ptr tb))"
    "slot = None \<longrightarrow> l1_brind_cache (rt_tc rt') (l1hash a) = (a, tcode_ptr tb)"
    "\<forall>x. (\<forall>s. slot = Some s \<longrightarrow> 12 \<le> unat (x - s)) \<longrightarrow> rt_mem rt' x = rt_mem rt x"
proof (cases slot)
  case None
  obtain t' where "CacheBrind p (rt_tc rt) = Inr t'" "tc_inv t'" "tcode_of t' = tcode_of (rt_tc rt)"
      "l1_brind_cache t' (l1hash (tb_ip tb)) = (tb_ip tb, tcode_ptr tb)"
    using CacheBrind_code [OF inv p(2)] p by metis
  then show ?thesis using that [of "rt\<lparr>rt_tc := t'\<rparr>"] None p by (simp add: enter_block_def deref_def)
next
  case (Some s)
  let ?m = "Link (tcode_ptr tb) s (rt_mem rt)"
  obtain t' where "RecordLink s p (slot_cross_segment ?m s) (rt_tc rt) = Inr t'" "tc_inv t'" "tcode_of t' = tcode_of (rt_tc rt)"
    using RecordLink_code [OF inv p(2)] by metis
  then show ?thesis using that [of "rt\<lparr>rt_tc := t', rt_mem := ?m\<rparr>"] Some p
    by (simp add: enter_block_def deref_def Let_def xfer_Link Link_frame)
qed

text \<open>A state in which the loop can go on.\<close>

definition exec_ok :: "config \<Rightarrow> backend \<Rightarrow> u64 \<Rightarrow> u64 option \<Rightarrow> runtime \<Rightarrow> bool" where
  "exec_ok cfg be membase slot rt \<longleftrightarrow> tc_inv (rt_tc rt) \<and> gpr (rt_cpu rt) 0 = 0 \<and>
     (\<forall>s. slot = Some s \<longrightarrow> slot_gip (rt_mem rt) s = ip (rt_cpu rt)) \<and>
     (tcode_of (rt_tc rt) (ip (rt_cpu rt)) = None \<longrightarrow> compilable cfg be membase rt)"

definition entered :: "u64 option \<Rightarrow> runtime \<Rightarrow> u64 \<Rightarrow> runtime \<Rightarrow> bool" where
  "entered slot rt c rt' \<longleftrightarrow> tc_inv (rt_tc rt') \<and> rt_cpu rt' = rt_cpu rt \<and>
     tcode_of (rt_tc rt') = (tcode_of (rt_tc rt))(ip (rt_cpu rt) \<mapsto> c) \<and>
     (\<forall>s. slot = Some s \<longrightarrow> slot_xfer (rt_mem rt') s = Some (XJump c)) \<and>
     (slot = None \<longrightarrow> l1_brind_cache (rt_tc rt') (l1hash (ip (rt_cpu rt))) = (ip (rt_cpu rt), c)) \<and>
     code_kept rt slot (rt_mem rt')"

lemma prepare_ok:
  assumes "exec_ok cfg be membase slot rt" and "backend_ok be h"
  shows "\<exists>c rt'. prepare cfg be membase slot rt = Some (Inr (c, rt')) \<and> entered slot rt c rt'"
proof -
  let ?a = "ip (rt_cpu rt)"
  have a: "tc_inv (rt_tc rt)" "tcode_of (rt_tc rt) ?a = None \<Longrightarrow> compilable cfg be membase rt \<and> backend_ok be h"
    using assms by (simp_all add: exec_ok_def)
  obtain p rt1 tb where f: "find_block cfg be membase rt = Some (Inr (p, rt1))" "tc_inv (rt_tc rt1)" "rt_cpu rt1 = rt_cpu rt"
    "sm_find ?a (tcache_map (rt_tc rt1)) = Some p" "tblocks (rt_tc rt1) p = Some tb" "tb_ip tb = ?a"
    "tcode_of (rt_tc rt1) = (tcode_of (rt_tc rt))(?a \<mapsto> tcode_ptr tb)" "code_kept rt None (rt_mem rt1)"
    by (rule find_block_ok [OF a(1) refl a(2)])
  obtain rt' where e: "enter_block slot p rt1 = Inr (tcode_ptr tb, rt')" "tc_inv (rt_tc rt')" "rt_cpu rt' = rt_cpu rt1"
    "tcode_of (rt_tc rt') = tcode_of (rt_tc rt1)"
    "\<forall>s. slot = Some s \<longrightarrow> slot_xfer (rt_mem rt') s = Some (XJump (tcode_ptr tb))"
    "slot = None \<longrightarrow> l1_brind_cache (rt_tc rt') (l1hash ?a) = (?a, tcode_ptr tb)"
    "\<forall>x. (\<forall>s. slot = Some s \<longrightarrow> 12 \<le> unat (x - s)) \<longrightarrow> rt_mem rt' x = rt_mem rt1 x"
    by (rule enter_block_ok [OF f(2,4,5,6), of slot])
  have "prepare cfg be membase slot rt = Some (Inr (tcode_ptr tb, rt'))"
    using assms f(1) e(1) by (auto simp: prepare_def exec_ok_def dbind_def split: option.splits)
  moreover have "code_kept rt slot (rt_mem rt')" using f(8) e(7) by (simp add: code_kept_def)
  ultimately show ?thesis using e f by (auto simp: entered_def)
qed

text \<open>C23. One round of the execution loop up to the trampoline: from a coherent state whose program counter is
  translated or starts a job that can be compiled (guest code without discarded loads, an end other than 0, at most 255 virtual registers, room for this job's block and code,
  guest memory at host address 0), it succeeds with the code of exactly that guest address. The cache
  afterwards holds what it held before and that entry; a pending branch slot jumps to the code from
  now on, or else the address hits in the indirect-branch cache; the CPU state is not touched, and no
  byte of code that was already allocated changes but those of the slot.\<close>

theorem execute_enters_right_code:
  assumes "exec_ok cfg be membase slot rt" and "backend_ok be h"
  shows "\<exists>c rt'. prepare cfg be membase slot rt = Some (Inr (c, rt')) \<and> tc_inv (rt_tc rt') \<and> rt_cpu rt' = rt_cpu rt \<and>
     tcode_of (rt_tc rt') = (tcode_of (rt_tc rt))(ip (rt_cpu rt) \<mapsto> c) \<and>
     (\<forall>s. slot = Some s \<longrightarrow> slot_xfer (rt_mem rt') s = Some (XJump c)) \<and>
     (slot = None \<longrightarrow> l1_brind_cache (rt_tc rt') (l1hash (ip (rt_cpu rt))) = (ip (rt_cpu rt), c)) \<and>
     (\<forall>x. unat (x - pool (code_pool (rt_tc rt))) < unat (used (code_pool (rt_tc rt))) \<longrightarrow>
          (\<forall>s. slot = Some s \<longrightarrow> 12 \<le> unat (x - s)) \<longrightarrow> rt_mem rt' x = rt_mem rt x)"
  using prepare_ok [OF assms] unfolding entered_def code_kept_def .

text \<open>C24. Compiling a job. With a coherent cache that has no code for the job's first address, for a job of at most 63 ranges with distinct starts and non-zero ends over guest code
  without discarded loads, with at most 255 virtual registers and room for it in both pools, and an assembler whose code is not larger than it announced, in the configuration with guest memory at host
  address 0: \<open>CompilerDoJob\<close> returns a new block, through translation, selection, register allocation and emission. The cache holds what it
  held before and this block, the bytes at the block's code are the assembler's encoding of the requests that
  emission made, and no byte of code allocated before changes. Those requests are right: entered at their start they reach the block of the
  first range, and from the block of every range they do what the interpreter does for as long as it meets no alignment trap and no modified code.\<close>

theorem compiler_job_correct:
  assumes "tc_inv (rt_tc rt)" and "backend_ok be h" and "job_ok cfg be membase seg ranges rt" and "tcode_of (rt_tc rt) (fst (hd ranges)) = None"
  shows "\<exists>t v leaf e p rt'. Translate (cf_dump_trace cfg) (NewRegion state_info) ranges (\<lambda>a. rt_mem rt (membase + a)) = Inr t \<and>
    GenerateCode_passes (tview t) (vregs_info (t_region t)) = Some (Inr (v, leaf)) \<and> job_code cfg be membase seg ranges rt = Some (Inr e) \<and>
    CompilerDoJob cfg be membase seg ranges rt = Some (Inr (p, rt')) \<and> compiled be (fst (hd ranges)) (qe_code e) rt p rt' \<and>
    ip2bb t (fst (hd ranges)) = Some 0 \<and> enters h leaf (qe_code e) \<and>
    (\<forall>r\<in>set ranges. \<exists>bb l. ip2bb t (fst r) = Some bb \<and> label_at (qe_code e) bb = Some l \<and>
       emitted_code_of_range h leaf (qe_code e) (ip2bb t) (\<lambda>a. rt_mem rt (membase + a)) (fst r) l)"
  using CompilerDoJob_ok [OF assms] .

section \<open>An example\<close>

text \<open>A stand-in for the assembler: a byte per request, and at most 64 KB.\<close>

definition example_backend :: backend where
  "example_backend =
     \<lparr>code_size = \<lambda>code. of_nat (min (length code) 0x10000), code_bytes = \<lambda>code p. replicate (min (length code) 0x10000) 0x90,
      be_stub_tab = h_tab example_env, be_l1_cache = h_l1 example_env\<rparr>"

definition example_cfg :: config where
  "example_cfg = \<lparr>cf_debug = True, cf_dump_trace = False, cf_zero_membase = True\<rparr>"

definition example_start :: runtime where
  "example_start = \<lparr>rt_cpu = \<lparr>gpr = \<lambda>_. 0, ip = 0x2ff8, trapno = NONE\<rparr>, sp_unwindptr = 0,
     rt_tc = example_cache\<lparr>code_pool := \<lparr>pool = 0x90000, pool_sz = CODE_POOL_SIZE, used = 5\<rparr>\<rparr>, rt_mem = shifts_everywhere\<rparr>"

lemma example_backend_ok: "backend_ok example_backend example_env"
  using example_env_ok by (simp add: backend_ok_def example_backend_def)

lemma example_size: "unat (code_size example_backend code) \<le> 0x10000" "length (code_bytes example_backend code p) \<le> unat (code_size example_backend code)"
  by (simp_all add: example_backend_def unsigned_of_nat take_bit_nat_eq_self)

lemma example_job_ok: "job_ok example_cfg example_backend 0 seg [(0x2ff8, 0x3000)] example_start"
proof -
  let ?r = "[(0x2ff8, 0x3000)] :: (u32 \<times> u32) list"
  have m: "rt_mem example_start = shifts_everywhere" by (simp add: example_start_def)
  have r: "?r \<noteq> []" "distinct (map fst ?r)" "length ?r \<le> 63" "\<forall>r\<in>set ?r. snd r \<noteq> 0 \<and> no_discarded shifts_everywhere TB_MAX_INSNS (fst r)"
    using shifts_ok by simp_all
  have "job_size ?r \<le> 223" by (simp add: job_size_def TB_MAX_INSNS_def numeral_eq_Suc)
  then have v: "codegen_vregs False ?r shifts_everywhere \<le> 255" using codegen_vregs_bound [OF r, of False] by simp
  have "room (code_size example_backend code) (code_pool (rt_tc example_start))" "room sizeof_TBlock (tb_pool (rt_tc example_start))" for code
    using example_size(1) [of code]
    by (simp_all add: example_start_def room_def arena_inv_def example_cache_def TB_POOL_SIZE_def CODE_POOL_SIZE_def sizeof_TBlock_def)
  then show ?thesis using r v example_size(2) by (simp add: job_ok_def m example_cfg_def split: option.splits sum.splits)
qed

lemma example_start_code: "tcode_of (rt_tc example_start) 0x1000 = Some 0x90000" "tcode_of (rt_tc example_start) 0x2ff8 = None" "tc_inv (rt_tc example_start)"
  using example_code example_cache_inv by (simp_all add: example_start_def) (simp add: tcode_of_def example_cache_def sm_find_def)

lemma example_start_ok: "exec_ok example_cfg example_backend 0 None example_start"
proof -
  have a: "ip (rt_cpu example_start) = 0x2ff8" "gpr (rt_cpu example_start) 0 = 0" by (simp_all add: example_start_def)
  have "GetCompilationIPRange example_cfg 0x2ff8 (rt_tc example_start) = Inr (0x2ff8, 0x3000)"
    by (simp add: GetCompilationIPRange_def example_cfg_def example_start_def example_cache_def LookupUpperBound_def sm_above_def sm_upper_bound_def roundup_def PAGE_SIZE_def Let_def)
  then show ?thesis using a example_start_code(3) example_job_ok by (simp add: exec_ok_def compilable_def)
qed

theorem execute_enters_right_code_witness:
  "\<exists>c rt'. prepare example_cfg example_backend 0 None example_start = Some (Inr (c, rt')) \<and>
     tcode_of (rt_tc rt') 0x2ff8 = Some c \<and> tcode_of (rt_tc rt') 0x1000 = Some 0x90000"
proof -
  have t: "ip (rt_cpu example_start) = 0x2ff8" by (simp add: example_start_def)
  from execute_enters_right_code [OF example_start_ok example_backend_ok] t example_start_code(1) show ?thesis by auto
qed

theorem compiler_job_correct_witness:
  "\<exists>p rt'. CompilerDoJob example_cfg example_backend 0 (job_segment 0x2ff8) [(0x2ff8, 0x3000)] example_start = Some (Inr (p, rt')) \<and>
     (\<exists>c. tcode_of (rt_tc rt') 0x2ff8 = Some c) \<and> tcode_of (rt_tc rt') 0x1000 = Some 0x90000"
proof -
  have "tcode_of (rt_tc example_start) (fst (hd [(0x2ff8, 0x3000)])) = None" using example_start_code(2) by simp
  from compiler_job_correct [OF example_start_code(3) example_backend_ok example_job_ok this, of "job_segment 0x2ff8"]
  obtain p rt' code where "CompilerDoJob example_cfg example_backend 0 (job_segment 0x2ff8) [(0x2ff8, 0x3000)] example_start = Some (Inr (p, rt'))"
      "compiled example_backend 0x2ff8 code example_start p rt'" by auto
  then show ?thesis using example_start_code(1) by (auto simp: compiled_def)
qed

text \<open>Code that stops with an \<^verbatim>\<open>ebreak\<close> at once.\<close>

definition example_run :: "u64 \<Rightarrow> runtime \<Rightarrow> tc_exit" where
  "example_run c rt = TrapRaised (rt\<lparr>rt_cpu := (rt_cpu rt)\<lparr>trapno := EBREAK\<rparr>\<rparr>)"

section \<open>The cache as its clients see it\<close>

text \<open>The contract of a code cache: what it holds is a finite map from guest addresses to code; a look-up
  reads it and an announcement extends it.\<close>

locale code_cache =
  fixes inv :: "'c \<Rightarrow> bool" and entry :: "'c \<Rightarrow> u32 \<Rightarrow> 'k option"
    and find :: "u32 \<Rightarrow> 'c \<Rightarrow> ('k option \<times> 'c) res" and add :: "u32 \<Rightarrow> 'k \<Rightarrow> 'c \<Rightarrow> 'c res"
  assumes find_ok: "inv c \<Longrightarrow> \<exists>c'. find g c = Inr (entry c g, c') \<and> inv c' \<and> entry c' = entry c"
    and add_ok: "inv c \<Longrightarrow> entry c g = None \<Longrightarrow> add g k c = Inr c' \<Longrightarrow> inv c' \<and> entry c' = (entry c)(g \<mapsto> k)"
begin

text \<open>Serving requests: each names an address and the code that would be compiled for it now.\<close>

definition get :: "u32 \<Rightarrow> 'k \<Rightarrow> 'c \<Rightarrow> ('k \<times> 'c) res" where
  "get g k c =
     rbind (find g c) (\<lambda>(r, c).
       case r of Some k' \<Rightarrow> Inr (k', c) | None \<Rightarrow> rbind (add g k c) (\<lambda>c. Inr (k, c)))"

primrec get_all :: "(u32 \<times> 'k) list \<Rightarrow> 'c \<Rightarrow> ('k list \<times> 'c) res" where
  "get_all [] c = Inr ([], c)"
| "get_all (r # rs) c =
     rbind (get (fst r) (snd r) c) (\<lambda>(k, c). rbind (get_all rs c) (\<lambda>(ks, c). Inr (k # ks, c)))"

lemma get_entry:
  assumes "inv c" and "get g k c = Inr (k', c')"
  shows "inv c' \<and> entry c' g = Some k' \<and> entry c \<subseteq>\<^sub>m entry c'"
proof -
  obtain c1 where c1: "find g c = Inr (entry c g, c1)" "inv c1" "entry c1 = entry c" using find_ok [OF assms(1)] by blast
  then show ?thesis using assms(2) add_ok [OF c1(2), of g k c']
    by (auto simp: get_def map_le_def split: option.splits)
qed

lemma get_all_entries:
  "inv c \<Longrightarrow> get_all rs c = Inr (ks, c') \<Longrightarrow>
    inv c' \<and> length ks = length rs \<and> entry c \<subseteq>\<^sub>m entry c' \<and> (\<forall>i<length rs. entry c' (fst (rs ! i)) = Some (ks ! i))"
proof (induction rs arbitrary: c ks)
  case Nil
  then show ?case by simp
next
  case (Cons r rs)
  obtain k c1 ks' where g: "get (fst r) (snd r) c = Inr (k, c1)" "get_all rs c1 = Inr (ks', c')" "ks = k # ks'"
    using Cons.prems(2) by auto
  note e = get_entry [OF Cons.prems(1) g(1)]
  have IH: "inv c'" "length ks' = length rs" "entry c1 \<subseteq>\<^sub>m entry c'" "\<forall>i<length rs. entry c' (fst (rs ! i)) = Some (ks' ! i)"
    using Cons.IH [OF _ g(2)] e by simp_all
  have "entry c' (fst r) = Some k" using e IH(3) by (auto simp: map_le_def dom_def)
  then have "entry c' (fst ((r # rs) ! i)) = Some (ks ! i)" if "i < Suc (length rs)" for i
    using that IH(4) g(3) by (cases i) auto
  then show ?case using IH e g(3) map_le_trans by auto
qed

end

definition tc_find :: "u32 \<Rightarrow> tcache \<Rightarrow> (u64 option \<times> tcache) res" where
  "tc_find g t =
     rbind (Lookup g t) (\<lambda>(p, t).
       case p of None \<Rightarrow> Inr (None, t) | Some p \<Rightarrow> rbind (deref p t) (\<lambda>tb. Inr (Some (tcode_ptr tb), t)))"

definition tc_add :: "u32 \<Rightarrow> u64 \<Rightarrow> tcache \<Rightarrow> tcache res" where
  "tc_add g k t =
     rbind (AnnounceRegion \<lparr>cf_debug = False, cf_dump_trace = False, cf_zero_membase = True\<rparr> g (k, 0) t) (\<lambda>(p, t). Inr t)"

interpretation tc: code_cache tc_inv tcode_of tc_find tc_add
proof
  fix t g k t'
  assume inv: "tc_inv t"
  obtain t1 where t1: "Lookup g t = Inr (sm_find g (tcache_map t), t1)" "tc_inv t1" "tblocks t1 = tblocks t" "tcode_of t1 = tcode_of t"
    by (rule Lookup_code [OF inv, of g]) blast
  show "\<exists>t'. tc_find g t = Inr (tcode_of t g, t') \<and> tc_inv t' \<and> tcode_of t' = tcode_of t"
  proof (cases "sm_find g (tcache_map t)")
    case None
    then show ?thesis using t1 by (simp add: tc_find_def) (simp add: tcode_of_def)
  next
    case (Some p)
    then obtain tb where "tblocks t p = Some tb" using tc_invD(3) [OF inv] by blast
    then show ?thesis using t1 Some by (simp add: tc_find_def deref_def) (simp add: tcode_of_def)
  qed
  assume new: "tcode_of t g = None" and add: "tc_add g k t = Inr t'"
  let ?cfg = "\<lparr>cf_debug = False, cf_dump_trace = False, cf_zero_membase = True\<rparr>"
  obtain p where p: "AnnounceRegion ?cfg g (k, 0) t = Inr (p, t')" using add by (auto simp: tc_add_def)
  then obtain t2 where al: "AllocateTBlock (cf_debug ?cfg) t = Inr (p, t2)" by (auto simp: AnnounceRegion_def)
  obtain t3 tb where "AnnounceRegion ?cfg g (k, 0) t = Inr (p, t3)" "tc_inv t3" "tcode_of t3 = (tcode_of t)(g \<mapsto> k)"
    using AnnounceRegion_from [OF inv al new, of k 0] by metis
  then show "tc_inv t' \<and> tcode_of t' = (tcode_of t)(g \<mapsto> k)" using p by simp
qed

text \<open>C25. Translations are stable: whatever sequence of look-ups and announcements the cache serves, requests for
  the same address are answered with the same code, entries that were there before keep their code,
  and the cache stays coherent.\<close>

theorem translations_stable:
  assumes "tc_inv t" and "tc.get_all rs t = Inr (ks, t')"
    and "i < length rs" and "j < length rs" and "fst (rs ! i) = fst (rs ! j)"
  shows "tc_inv t' \<and> ks ! i = ks ! j \<and> tcode_of t' (fst (rs ! i)) = Some (ks ! i) \<and> tcode_of t \<subseteq>\<^sub>m tcode_of t'"
proof -
  note e = tc.get_all_entries [OF assms(1,2)]
  have "Some (ks ! i) = Some (ks ! j)" using e assms(3-5) by metis
  then show ?thesis using e assms(3) by simp
qed

theorem translations_stable_witness:
  "\<exists>t'. tc.get_all [(0x1000, 0xa0000), (0x1000, 0xb0000)] example_cache = Inr ([0x90000, 0x90000], t') \<and> tc_inv t'"
proof -
  obtain t1 where t1: "tc_find 0x1000 example_cache = Inr (Some 0x90000, t1)" "tc_inv t1" "tcode_of t1 = tcode_of example_cache"
    using tc.find_ok [OF example_cache_inv, of "0x1000"] example_code by auto
  obtain t2 where t2: "tc_find 0x1000 t1 = Inr (Some 0x90000, t2)"
    using tc.find_ok [OF t1(2), of "0x1000"] t1(3) example_code by auto
  have g: "tc.get_all [(0x1000, 0xa0000), (0x1000, 0xb0000)] example_cache = Inr ([0x90000, 0x90000], t2)"
    using t1(1) t2 by (simp add: tc.get_def)
  have "tc_inv t2" using translations_stable [OF example_cache_inv g, of 0 1] by simp
  then show ?thesis using g by blast
qed

end
