(* ===== verification/MMU.thy ===== *)
theory MMU
  imports TCache
begin

text \<open>
  Guest memory of \<^verbatim>\<open>src/dbt/mmu.h\<close> and \<^verbatim>\<open>src/dbt/mmu.cpp\<close>: the window of the host's address space that holds the
  guest's, the bit set of used pages, and the search for a free range. The host's \<^verbatim>\<open>mmap\<close> and \<^verbatim>\<open>munmap\<close> are
  arguments that act on a state of the host.
\<close>

section \<open>State\<close>

definition ASPACE_SIZE :: u64 where "ASPACE_SIZE = push_bit 32 1"
definition PAGE_BITS :: nat where "PAGE_BITS = 12"
definition N_PAGES :: nat where "N_PAGES = 2 ^ 20"
definition MIN_MMAP_ADDR :: u64 where "MIN_MMAP_ADDR = 16 * PAGE_SIZE"

definition MAP_PRIVATE :: u32 where "MAP_PRIVATE = 0x02"
definition MAP_FIXED :: u32 where "MAP_FIXED = 0x10"
definition MAP_ANON :: u32 where "MAP_ANON = 0x20"
definition MAP_NORESERVE :: u32 where "MAP_NORESERVE = 0x4000"
definition PROT_NONE :: u32 where "PROT_NONE = 0"

record mmu =
  mbase :: u64
  used_pages :: "u32 \<Rightarrow> bool"
  mmap_hint_page :: u32

record 'h host_os =
  os_mmap :: "u64 \<Rightarrow> u64 \<Rightarrow> u32 \<Rightarrow> u32 \<Rightarrow> u32 \<Rightarrow> u64 \<Rightarrow> 'h \<Rightarrow> u64 option \<times> 'h"
  os_munmap :: "u64 \<Rightarrow> u64 \<Rightarrow> 'h \<Rightarrow> bool \<times> 'h"

definition initial_mmu :: mmu where
  "initial_mmu = \<lparr>mbase = 0, used_pages = \<lambda>_. False, mmap_hint_page = ucast (drop_bit PAGE_BITS MIN_MMAP_ADDR)\<rparr>"

section \<open>Addresses\<close>

definition check_h2g :: "mmu \<Rightarrow> u64 \<Rightarrow> bool" where "check_h2g u hptr \<longleftrightarrow> hptr - mbase u < ASPACE_SIZE"

definition h2g :: "mmu \<Rightarrow> u64 \<Rightarrow> u32" where "h2g u hptr = ucast (hptr - mbase u)"

definition g2h :: "mmu \<Rightarrow> u32 \<Rightarrow> u64" where "g2h u gptr = mbase u + ucast gptr"

section \<open>Pages\<close>

text \<open>The loops of \<open>MarkUsedPages\<close> and \<open>MarkFreePages\<close> run from \<open>pvaddr\<close> while below \<open>plen\<close>; the bit set throws
  for a position outside it.\<close>

definition set_pages :: "bool \<Rightarrow> u32 \<Rightarrow> u32 \<Rightarrow> mmu \<Rightarrow> mmu res" where
  "set_pages v pvaddr plen u =
     (if pvaddr < plen \<and> N_PAGES < unat plen then Inl BadIndex
      else Inr (u\<lparr>used_pages := \<lambda>p. if pvaddr \<le> p \<and> p < plen then v else used_pages u p\<rparr>))"

definition MarkUsedPages :: "u32 \<Rightarrow> u32 \<Rightarrow> mmu \<Rightarrow> mmu res" where "MarkUsedPages = set_pages True"

definition MarkFreePages :: "u32 \<Rightarrow> u32 \<Rightarrow> mmu \<Rightarrow> mmu res" where "MarkFreePages = set_pages False"

text \<open>The loop of \<open>LookupFreeRange\<close> with the number of pages left to look at in place of the bound.\<close>

primrec lookup_loop :: "nat \<Rightarrow> u32 \<Rightarrow> u32 \<Rightarrow> u32 \<Rightarrow> mmu \<Rightarrow> u32" where
  "lookup_loop 0 p count plen u = 0"
| "lookup_loop (Suc left) p count plen u =
     (if used_pages u p then lookup_loop left (p + 1) plen plen u
      else if count - 1 = 0 then p + 1 - plen
      else lookup_loop left (p + 1) (count - 1) plen u)"

definition LookupFreeRange :: "u32 \<Rightarrow> u32 \<Rightarrow> mmu \<Rightarrow> u32" where
  "LookupFreeRange pvaddr plen u = lookup_loop (N_PAGES - unat pvaddr) pvaddr plen plen u"

section \<open>Mapping\<close>

definition mmu_Init :: "bool \<Rightarrow> 'h host_os \<Rightarrow> mmu \<Rightarrow> 'h \<Rightarrow> (mmu \<times> 'h) res" where
  "mmu_Init zero_membase os u h =
     rbind (MarkUsedPages 0 (ucast MIN_MMAP_ADDR) u) (\<lambda>u.
       if zero_membase then Inr (u, h)
       else let (b, h) = os_mmap os 0 ASPACE_SIZE PROT_NONE (MAP_PRIVATE OR MAP_ANON OR MAP_NORESERVE) (-1) 0 h
            in case b of
                 None \<Rightarrow> Inl Panic
               | Some b \<Rightarrow>
                   (let (ok, h) = os_munmap os (b + MIN_MMAP_ADDR) (ASPACE_SIZE - MIN_MMAP_ADDR) h
                    in if ok then Inr (u\<lparr>mbase := b\<rparr>, h) else Inl Panic))"

definition mmu_Destroy :: "'h host_os \<Rightarrow> mmu \<Rightarrow> 'h \<Rightarrow> 'h res" where
  "mmu_Destroy os u h = (let (ok, h) = os_munmap os (mbase u) ASPACE_SIZE h in if ok then Inr h else Inl Panic)"

text \<open>The inner loop of \<open>mmap\<close>: it looks from the hint on and once more from the lowest page.\<close>

function find_range :: "u32 \<Rightarrow> u32 \<Rightarrow> bool \<Rightarrow> mmu \<Rightarrow> (u32 \<times> bool) option" where
  "find_range plen paddr wrapped u =
     (let p = LookupFreeRange paddr plen u in
      if wrapped \<and> (p = 0 \<or> mmap_hint_page u < p) then None
      else if p = 0 then find_range plen (ucast (drop_bit PAGE_BITS MIN_MMAP_ADDR)) True u
      else Some (p, wrapped))"
  by pat_completeness auto

termination find_range
  by (relation "measure (\<lambda>(_, _, wrapped, _). if wrapped then 0 else 1)") auto

declare find_range.simps [simp del]

section \<open>The search for a free range\<close>

definition free_run :: "mmu \<Rightarrow> nat \<Rightarrow> nat \<Rightarrow> bool" where
  "free_run u s n \<longleftrightarrow> (\<forall>i<n. \<not> used_pages u (of_nat (s + i)))"

text \<open>The result: the first start at or above \<open>a\<close> of a run of \<open>n\<close> free pages, or 0.\<close>

definition first_free :: "mmu \<Rightarrow> nat \<Rightarrow> nat \<Rightarrow> u32 \<Rightarrow> bool" where
  "first_free u a n r \<longleftrightarrow>
     (\<exists>s\<ge>a. s + n \<le> N_PAGES \<and> free_run u s n \<and> r = of_nat s \<and> (\<forall>s'. a \<le> s' \<and> s' < s \<longrightarrow> \<not> free_run u s' n)) \<or>
     (r = 0 \<and> (\<forall>s\<ge>a. s + n \<le> N_PAGES \<longrightarrow> \<not> free_run u s n))"

lemma free_run_snoc: "free_run u s (Suc n) \<longleftrightarrow> free_run u s n \<and> \<not> used_pages u (of_nat (s + n))"
  by (auto simp: free_run_def less_Suc_eq)

lemma free_run_blocked: "used_pages u (of_nat q) \<Longrightarrow> s \<le> q \<Longrightarrow> q < s + n \<Longrightarrow> \<not> free_run u s n"
  unfolding free_run_def by (metis add_diff_inverse_nat diff_less_mono le_add_diff_inverse less_diff_conv2 not_less nat_add_left_cancel_less)

lemma unat_suc_page: "unat (p :: u32) < N_PAGES \<Longrightarrow> unat (p + 1) = unat p + 1"
  by (simp add: N_PAGES_def unat_word_ariths)

lemma lookup_loop_first:
  assumes "unat p + left = N_PAGES" and "0 < unat count" and "unat count \<le> unat plen"
    and "a + (unat plen - unat count) \<le> unat p" and "free_run u (unat p - (unat plen - unat count)) (unat plen - unat count)"
    and "\<forall>s. a \<le> s \<and> s < unat p - (unat plen - unat count) \<longrightarrow> \<not> free_run u s (unat plen)"
  shows "first_free u a (unat plen) (lookup_loop left p count plen u)"
  using assms
proof (induction left arbitrary: p count)
  case 0
  have "\<not> free_run u s (unat plen)" if "a \<le> s" "s + unat plen \<le> N_PAGES" for s
    using 0 that by auto
  then show ?case by (simp add: first_free_def)
next
  case (Suc left)
  let ?n = "unat plen" and ?r = "unat plen - unat count"
  have p1: "unat (p + 1) = unat p + 1" using Suc.prems(1) by (intro unat_suc_page) simp
  have pp: "of_nat (unat p) = p" by simp
  show ?case
  proof (cases "used_pages u p")
    case True
    have "\<not> free_run u s ?n" if "a \<le> s" "s < unat p + 1" for s
    proof (cases "s < unat p - ?r")
      case True
      then show ?thesis using Suc.prems(6) that by blast
    next
      case False
      then show ?thesis using free_run_blocked [of u "unat p" s ?n] \<open>used_pages u p\<close> that Suc.prems(2-4) by simp
    qed
    then have "first_free u a ?n (lookup_loop left (p + 1) plen plen u)"
      using Suc.prems(1-4) p1 by (intro Suc.IH) (auto simp: free_run_def)
    then show ?thesis using True by simp
  next
    case False
    have run: "free_run u (unat p - ?r) (Suc ?r)" using Suc.prems(4,5) False by (simp add: free_run_snoc)
    have c1: "unat (count - 1) = unat count - 1" using Suc.prems(2) by (intro unat_minus_one) auto
    show ?thesis
    proof (cases "count - 1 = 0")
      case True
      then have "unat count = 1" using c1 Suc.prems(2) by simp
      then have n: "Suc ?r = ?n" "unat p - ?r = unat p + 1 - ?n" using Suc.prems(3,4) by simp_all
      have e: "p + 1 - plen = of_nat (unat p - ?r)" using n Suc.prems(4) by (simp add: of_nat_diff)
      have "first_free u a ?n (of_nat (unat p - ?r))" unfolding first_free_def
        using run Suc.prems(1,4,6) n by (intro disjI1 exI [of _ "unat p - ?r"]) auto
      then show ?thesis using False True e by simp
    next
      case c: False
      then have "0 < unat (count - 1)" by (simp add: unat_gt_0)
      then have r: "0 < unat (count - 1)" "?n - unat (count - 1) = Suc ?r" using c1 Suc.prems(2,3) by simp_all
      have "first_free u a ?n (lookup_loop left (p + 1) (count - 1) plen u)"
        using Suc.prems run r c1 p1 by (intro Suc.IH) auto
      then show ?thesis using False c by simp
    qed
  qed
qed

lemma lookup_loop_zero:
  "left \<le> N_PAGES \<Longrightarrow> count = 0 \<or> left < unat count \<Longrightarrow> lookup_loop left p count 0 u = 0"
proof (induction left arbitrary: p count)
  case (Suc left)
  have "count - 1 \<noteq> 0 \<and> left < unat (count - 1)"
  proof (cases "count = 0")
    case True
    then show ?thesis using Suc.prems(1) by (simp add: N_PAGES_def unsigned_minus_1_eq_mask mask_eq_exp_minus_1)
  next
    case False
    then have "unat (count - 1) = unat count - 1" by (simp add: unat_minus_one)
    then show ?thesis using Suc.prems False by auto
  qed
  then show ?case using Suc by auto
qed simp

lemma LookupFreeRange_first:
  assumes "unat pvaddr \<le> N_PAGES" and "plen \<noteq> 0"
  shows "first_free u (unat pvaddr) (unat plen) (LookupFreeRange pvaddr plen u)"
  unfolding LookupFreeRange_def using assms
  by (intro lookup_loop_first) (auto simp: unat_gt_0 free_run_def)

lemma LookupFreeRange_bounds:
  assumes "LookupFreeRange pvaddr plen u = p" and "p \<noteq> 0"
  shows "unat pvaddr \<le> unat p \<and> unat p + unat plen \<le> N_PAGES \<and> plen \<noteq> 0 \<and> free_run u (unat p) (unat plen)"
proof -
  have n: "plen \<noteq> 0" using assms lookup_loop_zero [of "N_PAGES - unat pvaddr" 0 pvaddr u] by (auto simp: LookupFreeRange_def)
  have le: "unat pvaddr \<le> N_PAGES"
  proof (rule ccontr)
    assume "\<not> unat pvaddr \<le> N_PAGES"
    then show False using assms by (simp add: LookupFreeRange_def)
  qed
  from LookupFreeRange_first [OF le n, of u] assms obtain s
    where s: "unat pvaddr \<le> s" "s + unat plen \<le> N_PAGES" "free_run u s (unat plen)" "p = of_nat s"
    by (auto simp: first_free_def)
  have "s < 2 ^ 32" using s(2) by (simp add: N_PAGES_def)
  then have "unat p = s" unfolding s(4) unsigned_of_nat by (simp add: take_bit_nat_eq_self)
  then show ?thesis using s n by simp
qed

lemma find_range_bounds:
  assumes "find_range plen paddr wrapped u = Some (p, w)"
  shows "p \<noteq> 0 \<and> unat p + unat plen \<le> N_PAGES \<and> plen \<noteq> 0 \<and> free_run u (unat p) (unat plen) \<and>
    (if w = wrapped then unat paddr \<le> unat p else w)"
proof -
  let ?lo = "ucast (drop_bit PAGE_BITS MIN_MMAP_ADDR) :: u32"
  have s: "find_range plen paddr wrapped u =
      (let p = LookupFreeRange paddr plen u in
       if wrapped \<and> (p = 0 \<or> mmap_hint_page u < p) then None
       else if p = 0 then (let p = LookupFreeRange ?lo plen u in if p = 0 \<or> mmap_hint_page u < p then None else Some (p, True))
       else Some (p, wrapped))"
    by (subst find_range.simps) (simp add: Let_def find_range.simps [of plen ?lo True u])
  show ?thesis
    using assms LookupFreeRange_bounds [of paddr plen u] LookupFreeRange_bounds [of ?lo plen u]
    unfolding s by (auto simp: Let_def split: if_splits)
qed

section \<open>Mapping, continued\<close>

text \<open>The outer loop: a range the host does not give back inside the window is released and the search goes on
  behind it.\<close>

function mmap_search :: "'h host_os \<Rightarrow> u32 \<Rightarrow> u32 \<Rightarrow> u32 \<Rightarrow> bool \<Rightarrow> mmu \<Rightarrow> 'h \<Rightarrow> (u64 option \<times> 'h) res" where
  "mmap_search os len plen paddr wrapped u h =
     (case find_range plen paddr wrapped u of
        None \<Rightarrow> Inr (None, h)
      | Some (p, w) \<Rightarrow>
          (case os_mmap os (g2h u (push_bit PAGE_BITS p)) (ucast len) PROT_NONE
                  (MAP_ANON OR MAP_PRIVATE OR MAP_NORESERVE) (-1) 0 h of
             (None, h) \<Rightarrow> Inl Panic
           | (Some hptr, h) \<Rightarrow>
               if check_h2g u (hptr + ucast len - 1) then Inr (Some hptr, h)
               else (case os_munmap os hptr (ucast len) h of
                       (ok, h) \<Rightarrow> if ok then mmap_search os len plen (p + plen) w u h else Inl Panic)))"
  by pat_completeness auto

lemma mmap_search_measure:
  assumes "find_range plen paddr wrapped u = Some (p, w)"
  shows "(if w then 0 else 2 ^ 21) + (N_PAGES - unat (p + plen)) < (if wrapped then 0 else 2 ^ 21) + (N_PAGES - unat paddr)"
proof -
  note b = find_range_bounds [OF assms]
  have e: "unat (p + plen) = unat p + unat plen" using b by (simp add: unat_word_ariths N_PAGES_def)
  have "0 < unat plen" using b by (simp add: unat_gt_0)
  then show ?thesis using b e by (cases "w = wrapped") (auto simp: N_PAGES_def split: if_splits)
qed

termination mmap_search
  by (relation "measure (\<lambda>(_, _, _, paddr, wrapped, _, _). (if wrapped then 0 else 2 ^ 21) + (N_PAGES - unat paddr))")
    (simp_all only: wf_measure in_measure case_prod_conv mmap_search_measure)

declare mmap_search.simps [simp del]

definition mmap ::
  "'h host_os \<Rightarrow> u32 \<Rightarrow> u32 \<Rightarrow> u32 \<Rightarrow> u32 \<Rightarrow> u32 \<Rightarrow> u64 \<Rightarrow> mmu \<times> 'h \<Rightarrow> (u64 option \<times> mmu \<times> 'h) res" where
  "mmap os va len0 prot flags fd offs st =
     (let (u, h) = st in
      if \<not> (ucast va + ucast len0 - 1 < ASPACE_SIZE) then Inl AssertFailed else
      let len = ucast (roundup (ucast len0) PAGE_SIZE) :: u32; plen = drop_bit PAGE_BITS len in
      if flags AND MAP_FIXED \<noteq> 0
      then (case os_mmap os (g2h u va) (ucast len) prot flags fd offs h of
              (None, h) \<Rightarrow> Inr (None, u, h)
            | (Some hptr, h) \<Rightarrow>
                rbind (MarkUsedPages (drop_bit PAGE_BITS va) plen u) (\<lambda>u. Inr (Some hptr, u, h)))
      else
        rbind (mmap_search os len plen (mmap_hint_page u) False u h) (\<lambda>(r, h).
          case r of
            None \<Rightarrow> Inr (None, u, h)
          | Some hptr \<Rightarrow>
              (case os_mmap os hptr (ucast len) prot (flags OR MAP_FIXED) fd offs h of
                 (res, h) \<Rightarrow>
                   if res \<noteq> Some hptr then Inl Panic
                   else let paddr = drop_bit PAGE_BITS (h2g u hptr) in
                        rbind (MarkUsedPages paddr plen u) (\<lambda>u.
                          Inr (Some hptr, u\<lparr>mmap_hint_page := paddr + plen\<rparr>, h)))))"

section \<open>Properties\<close>

text \<open>C28. The search for a free range is right: from any page of the address space it returns the first start of a
  run of free pages of the given length, or 0 when there is none.\<close>

theorem lookup_finds_first_free:
  assumes "unat pvaddr \<le> N_PAGES" and "plen \<noteq> 0"
  shows "(\<exists>s\<ge>unat pvaddr. s + unat plen \<le> N_PAGES \<and> (\<forall>i<unat plen. \<not> used_pages u (of_nat (s + i))) \<and>
           LookupFreeRange pvaddr plen u = of_nat s \<and>
           (\<forall>s'. unat pvaddr \<le> s' \<and> s' < s \<longrightarrow> (\<exists>i<unat plen. used_pages u (of_nat (s' + i))))) \<or>
         (LookupFreeRange pvaddr plen u = 0 \<and>
           (\<forall>s\<ge>unat pvaddr. s + unat plen \<le> N_PAGES \<longrightarrow> (\<exists>i<unat plen. used_pages u (of_nat (s + i)))))"
  using LookupFreeRange_first [OF assms, of u] unfolding first_free_def free_run_def by blast

definition example_mmu :: mmu where
  "example_mmu = \<lparr>mbase = 0, used_pages = \<lambda>p. p < 16 \<or> p = 18, mmap_hint_page = 16\<rparr>"

theorem lookup_finds_first_free_witness:
  "\<exists>s\<ge>16. LookupFreeRange 16 3 example_mmu = of_nat s \<and> (\<forall>i<3. \<not> used_pages example_mmu (of_nat (s + i)))"
proof -
  have u: "used_pages example_mmu p \<longleftrightarrow> p < 16 \<or> p = 18" for p by (simp add: example_mmu_def)
  have "\<not> used_pages example_mmu (of_nat (19 + i))" if "i < 3" for i
  proof -
    have "i = 0 \<or> i = 1 \<or> i = 2" using that by auto
    then show ?thesis by (auto simp: u)
  qed
  then have "\<not> (\<forall>s\<ge>unat (16 :: u32). s + unat (3 :: u32) \<le> N_PAGES \<longrightarrow> (\<exists>i<unat (3 :: u32). used_pages example_mmu (of_nat (s + i))))"
    by (intro notI) (drule spec [of _ 19], auto simp: N_PAGES_def simp del: of_nat_add)
  then have "\<exists>s\<ge>unat (16 :: u32). s + unat (3 :: u32) \<le> N_PAGES \<and>
      (\<forall>i<unat (3 :: u32). \<not> used_pages example_mmu (of_nat (s + i))) \<and> LookupFreeRange 16 3 example_mmu = of_nat s"
    using lookup_finds_first_free [of 16 3 example_mmu] by (simp add: N_PAGES_def del: of_nat_add) blast
  then show ?thesis by (auto simp del: of_nat_add)
qed

lemma mark_used_noop: "plen \<le> pvaddr \<Longrightarrow> MarkUsedPages pvaddr plen u = Inr u"
proof -
  assume a: "plen \<le> pvaddr"
  then have "(\<lambda>p. if pvaddr \<le> p \<and> p < plen then True else used_pages u p) = used_pages u" by (intro ext) auto
  then show ?thesis using a by (simp add: MarkUsedPages_def set_pages_def not_less)
qed

text \<open>Pages that are mapped above their own number stay unmarked: a fixed mapping of \<open>n\<close> pages at a page not
  below \<open>n\<close> succeeds without changing the set of used pages, so the search for a free range goes on to
  offer it.\<close>

lemma fixed_mapping_unmarked:
  assumes "ucast va + ucast len - 1 < ASPACE_SIZE" and "flags AND MAP_FIXED \<noteq> 0"
    and "drop_bit PAGE_BITS (ucast (roundup (ucast len) PAGE_SIZE) :: u32) \<le> drop_bit PAGE_BITS va"
    and "os_mmap os (g2h u va) (ucast (ucast (roundup (ucast len) PAGE_SIZE) :: u32)) prot flags fd offs h = (Some hptr, h')"
  shows "mmap os va len prot flags fd offs (u, h) = Inr (Some hptr, u, h') \<and>
    (\<forall>plen. LookupFreeRange (drop_bit PAGE_BITS va) plen u = LookupFreeRange (drop_bit PAGE_BITS va) plen
       (case mmap os va len prot flags fd offs (u, h) of Inr (_, u', _) \<Rightarrow> u' | Inl _ \<Rightarrow> u))"
  using assms mark_used_noop [OF assms(3), of u] by (simp add: mmap_def Let_def)

definition example_os :: "unit host_os" where
  "example_os = \<lparr>os_mmap = \<lambda>a _ _ _ _ _ h. (Some a, h), os_munmap = \<lambda>_ _ h. (True, h)\<rparr>"

lemma fixed_mapping_unmarked_witness:
  "mmap example_os 0x10000 0x1000 3 MAP_FIXED (-1) 0 (example_mmu, ()) = Inr (Some 0x10000, example_mmu, ())"
  using fixed_mapping_unmarked [of "0x10000" "0x1000" MAP_FIXED example_os example_mmu 3 "-1" 0 "()" "0x10000" "()"]
  by (simp add: ASPACE_SIZE_def MAP_FIXED_def PAGE_BITS_def roundup_def PAGE_SIZE_def example_os_def g2h_def example_mmu_def)

definition search_result_ok :: "mmu \<Rightarrow> u32 \<Rightarrow> (u64 option \<times> 'h) res \<Rightarrow> bool" where
  "search_result_ok u len r \<longleftrightarrow>
     (case r of Inl f \<Rightarrow> f = Panic
      | Inr (None, _) \<Rightarrow> True
      | Inr (Some hptr, _) \<Rightarrow> check_h2g u (hptr + ucast len - 1))"

lemma mmap_search_result: "search_result_ok u len (mmap_search os len plen paddr wrapped u h)"
proof (induction os len plen paddr wrapped u h rule: mmap_search.induct)
  case (1 os len plen paddr wrapped u h)
  note unf = mmap_search.simps [of os len plen paddr wrapped u h]
  show ?case
  proof (cases "find_range plen paddr wrapped u")
    case None
    then show ?thesis by (simp add: unf search_result_ok_def)
  next
    case (Some pw)
    obtain p w where pw: "pw = (p, w)" by (cases pw)
    let ?m = "os_mmap os (g2h u (push_bit PAGE_BITS p)) (ucast len) PROT_NONE (MAP_ANON OR MAP_PRIVATE OR MAP_NORESERVE) (-1) 0 h"
    obtain r h1 where m: "?m = (r, h1)" by (cases ?m)
    show ?thesis
    proof (cases "r = None \<or> check_h2g u (the r + ucast len - 1)")
      case True
      then show ?thesis using Some pw m by (cases r) (simp_all add: unf search_result_ok_def)
    next
      case False
      then obtain hp where hp: "r = Some hp" "\<not> check_h2g u (hp + ucast len - 1)" by auto
      obtain ok h2 where k: "os_munmap os hp (ucast len) h1 = (ok, h2)" by (cases "os_munmap os hp (ucast len) h1")
      show ?thesis
      proof (cases ok)
        case True
        then have "mmap_search os len plen paddr wrapped u h = mmap_search os len plen (p + plen) w u h2"
          using Some pw m hp k by (simp add: unf)
        then show ?thesis using "1.IH" [OF Some pw [symmetric] m [symmetric] hp k [symmetric] True] by simp
      next
        case False
        then show ?thesis using Some pw m hp k by (simp add: unf search_result_ok_def)
      qed
    qed
  qed
qed

lemma plen_range: "unat (drop_bit PAGE_BITS (len :: u32)) \<le> N_PAGES"
proof -
  have "unat len < 2 ^ 32" by (rule order_less_le_trans [OF unsigned_less]) simp
  then have "unat len div 2 ^ 12 < 2 ^ 20" by (simp add: div_less_iff_less_mult)
  then show ?thesis by (simp add: PAGE_BITS_def N_PAGES_def drop_bit_eq_div unat_div)
qed

lemma MarkUsedPages_plen: "\<exists>u'. MarkUsedPages pv (drop_bit PAGE_BITS len) u = Inr u' \<and> mbase u' = mbase u"
  using plen_range [of len] by (simp add: MarkUsedPages_def set_pages_def not_less)

text \<open>C30. A mapping the guest leaves to the emulator: when it is granted, its last byte lies in the guest's window,
  the search continues behind it next time and the window has not moved; the search always ends, and
  when no run of free pages is left the request fails without any change.\<close>

theorem mmap_granted:
  assumes "flags AND MAP_FIXED = 0" and "ucast va + ucast len - 1 < ASPACE_SIZE"
  shows "case mmap os va len prot flags fd offs (u, h) of
      Inl f \<Rightarrow> f = Panic
    | Inr (None, u', h') \<Rightarrow> u' = u
    | Inr (Some hptr, u', h') \<Rightarrow>
        check_h2g u (hptr + ucast (ucast (roundup (ucast len) PAGE_SIZE) :: u32) - 1) \<and> mbase u' = mbase u \<and>
        mmap_hint_page u' = drop_bit PAGE_BITS (h2g u hptr) + drop_bit PAGE_BITS (ucast (roundup (ucast len) PAGE_SIZE))"
proof -
  let ?len = "ucast (roundup (ucast len) PAGE_SIZE) :: u32"
  let ?s = "mmap_search os ?len (drop_bit PAGE_BITS ?len) (mmap_hint_page u) False u h"
  note r = mmap_search_result [of u ?len os "drop_bit PAGE_BITS ?len" "mmap_hint_page u" False h]
  show ?thesis
  proof (cases ?s)
    case (Inl f)
    then show ?thesis using r assms by (simp add: mmap_def Let_def search_result_ok_def)
  next
    case (Inr x)
    obtain q h1 where x: "x = (q, h1)" by (cases x)
    show ?thesis
    proof (cases q)
      case None
      then show ?thesis using Inr x assms by (simp add: mmap_def Let_def)
    next
      case (Some hptr)
      obtain u' where u': "MarkUsedPages (drop_bit PAGE_BITS (h2g u hptr)) (drop_bit PAGE_BITS ?len) u = Inr u'" "mbase u' = mbase u"
        using MarkUsedPages_plen by blast
      obtain q2 h2 where m: "os_mmap os hptr (ucast ?len) prot (flags OR MAP_FIXED) fd offs h1 = (q2, h2)"
        by (cases "os_mmap os hptr (ucast ?len) prot (flags OR MAP_FIXED) fd offs h1")
      have "check_h2g u (hptr + ucast ?len - 1)" using r Inr x Some by (simp add: search_result_ok_def)
      then show ?thesis using Inr x Some m u' assms
        by (cases "q2 = Some hptr") (simp_all add: mmap_def Let_def)
    qed
  qed
qed

theorem mmap_granted_witness:
  "case mmap example_os 0 0x3000 3 0 (-1) 0 (example_mmu, ()) of
     Inl f \<Rightarrow> f = Panic | Inr (None, u', h') \<Rightarrow> u' = example_mmu
   | Inr (Some hptr, u', h') \<Rightarrow> check_h2g example_mmu (hptr + 0x3000 - 1)"
  using mmap_granted [where flags = 0 and va = 0 and len = "0x3000" and os = example_os and prot = 3 and fd = "-1" and offs = 0 and u = example_mmu and h = "()"]
  by (auto simp: ASPACE_SIZE_def MAP_FIXED_def roundup_def PAGE_SIZE_def split: sum.splits option.splits prod.splits)

text \<open>Guest and host addresses: every guest address has a host address inside the window that converts back to
  it, and every host address inside the window comes from exactly its guest address.\<close>

lemma guest_host_addresses:
  "check_h2g u (g2h u a) \<and> h2g u (g2h u a) = a \<and> (check_h2g u p \<longrightarrow> g2h u (h2g u p) = p)"
proof (intro conjI impI)
  have a: "unat (ucast a :: u64) = unat a"
  proof -
    have "unat a < 2 ^ 32" by (rule order_less_le_trans [OF unsigned_less]) simp
    then show ?thesis by (simp add: unsigned_ucast_eq take_bit_nat_eq_self)
  qed
  have "unat a < 2 ^ 32" by (rule order_less_le_trans [OF unsigned_less]) simp
  then show "check_h2g u (g2h u a)" using a by (simp add: check_h2g_def g2h_def ASPACE_SIZE_def word_less_nat_alt)
  show "h2g u (g2h u a) = a" by (simp add: h2g_def g2h_def) (rule bit_word_eqI, auto simp: bit_simps)
  assume "check_h2g u p"
  then have "unat (p - mbase u) < 2 ^ 32" by (simp add: check_h2g_def ASPACE_SIZE_def word_less_nat_alt)
  then have "unat (ucast (ucast (p - mbase u) :: u32) :: u64) = unat (p - mbase u)"
    by (simp add: unsigned_ucast_eq unsigned_take_bit_eq take_bit_nat_eq_self)
  then have "ucast (ucast (p - mbase u) :: u32) = p - mbase u" by (rule unsigned_word_eqI)
  then show "g2h u (h2g u p) = p" by (simp add: h2g_def g2h_def)
qed

lemma guest_host_addresses_witness:
  "check_h2g example_mmu (g2h example_mmu 0x1234) \<and> g2h example_mmu (h2g example_mmu 0x1234) = 0x1234"
  using guest_host_addresses [of example_mmu "0x1234" "0x1234"]
  by (simp add: check_h2g_def ASPACE_SIZE_def example_mmu_def)

end
