(* ===== verification/UKernel.thy ===== *)
theory UKernel
  imports Execute MMU ObjProf
begin

text \<open>
  The user kernel of \<^verbatim>\<open>src/dbt/ukernel.cpp\<close> and the system call numbers of \<^verbatim>\<open>src/dbt/ukernel_syscalls.h\<close>: threads and the
  process, path resolution, the system calls the guest may make, their dispatch, and the loop that runs the
  guest between traps. The host's own system calls are the fields of \<open>calls\<close>: functions on a host state
  of memory, the protection of its pages, \<^verbatim>\<open>errno\<close> and whatever else the host keeps. Guest pointers become addresses of
  host memory by \<open>g2h\<close>. The kernel's own accesses through them fault where the page's protection does not allow them, and the
  handler of the signal stops the program.
\<close>

section \<open>Host\<close>

record 'o host =
  h_mem :: vmem
  h_prot :: "u64 \<Rightarrow> u32"
  h_errno :: u32
  h_os :: 'o

type_synonym 'o call = "'o host \<Rightarrow> u64 \<times> 'o host"

text \<open>What \<^verbatim>\<open>sysinfo\<close> fills in and the kernel uses of it.\<close>

record host_sysinfo =
  hs_uptime :: u64
  hs_loads :: "u64 list"
  hs_procs :: u16

text \<open>Calls that write through a pointer to guest memory take the address; those that fill a local variable of
  the kernel return its content. \<open>c_stack\<close> is what an uninitialised local array holds.\<close>

record 'o calls =
  c_os :: "'o host host_os"
  c_stack :: "'o host \<Rightarrow> u8 list"
  c_openat :: "u32 \<Rightarrow> u64 \<Rightarrow> u32 \<Rightarrow> u32 \<Rightarrow> 'o call"
  c_close :: "u32 \<Rightarrow> 'o call"
  c_lseek :: "u32 \<Rightarrow> u64 \<Rightarrow> u32 \<Rightarrow> 'o call"
  c_read :: "u32 \<Rightarrow> u64 \<Rightarrow> u64 \<Rightarrow> 'o call"
  c_write :: "u32 \<Rightarrow> u64 \<Rightarrow> u64 \<Rightarrow> 'o call"
  c_readlinkat :: "u32 \<Rightarrow> u8 list \<Rightarrow> u64 \<Rightarrow> u64 \<Rightarrow> 'o call"
  c_fstatat :: "u32 \<Rightarrow> u8 list \<Rightarrow> u64 \<Rightarrow> u32 \<Rightarrow> 'o call"
  c_set_tid_address :: "'o host \<Rightarrow> u64 \<times> u32 \<times> 'o host"
  c_uname :: "u64 \<Rightarrow> 'o call"
  c_getuid :: "'o host \<Rightarrow> u32"
  c_geteuid :: "'o host \<Rightarrow> u32"
  c_getgid :: "'o host \<Rightarrow> u32"
  c_getegid :: "'o host \<Rightarrow> u32"
  c_sysinfo :: "'o host \<Rightarrow> u64 \<times> host_sysinfo \<times> 'o host"
  c_mprotect :: "u64 \<Rightarrow> u64 \<Rightarrow> u32 \<Rightarrow> 'o call"
  c_prlimit64 :: "u32 \<Rightarrow> u32 \<Rightarrow> (u64 \<times> u64) option \<Rightarrow> 'o host \<Rightarrow> u64 \<times> (u64 \<times> u64) \<times> 'o host"
  c_getrandom :: "u64 \<Rightarrow> u64 \<Rightarrow> u32 \<Rightarrow> 'o call"
  c_statx :: "u32 \<Rightarrow> u8 list \<Rightarrow> u32 \<Rightarrow> u32 \<Rightarrow> u64 \<Rightarrow> 'o call"
  c_clock_gettime :: "u32 \<Rightarrow> 'o host \<Rightarrow> u64 \<times> (u64 \<times> u64) \<times> 'o host"
  c_getcwd :: "nat \<Rightarrow> 'o host \<Rightarrow> u8 list option \<times> 'o host"
  c_readlink :: "u8 list \<Rightarrow> nat \<Rightarrow> 'o host \<Rightarrow> u8 list option \<times> 'o host"
  c_realpath :: "u8 list \<Rightarrow> 'o host \<Rightarrow> u8 list option \<times> 'o host"
  c_open :: "u8 list \<Rightarrow> u32 \<Rightarrow> 'o call"
  c_chdir_dirname :: "u8 list \<Rightarrow> 'o host \<Rightarrow> 'o host"
  c_pread :: "u32 \<Rightarrow> nat \<Rightarrow> u64 \<Rightarrow> 'o host \<Rightarrow> u64 \<times> u8 list \<times> 'o host"
  c_clktck :: "'o host \<Rightarrow> u32"
  c_readnum :: "'o host \<Rightarrow> u32 \<times> 'o host"
  c_writenum :: "u32 \<Rightarrow> 'o host \<Rightarrow> 'o host"

definition poke :: "u64 \<Rightarrow> u8 list \<Rightarrow> 'o host \<Rightarrow> 'o host" where
  "poke a bs h = h\<lparr>h_mem := store_bytes (h_mem h) a bs\<rparr>"

text \<open>\<open>h_prot\<close> is the protection of the page of an address, 0 where nothing is mapped. A page with any protection can be read.\<close>

definition PROT_READ :: u32 where "PROT_READ = 1"
definition PROT_WRITE :: u32 where "PROT_WRITE = 2"
definition PROT_EXEC :: u32 where "PROT_EXEC = 4"

definition may_write :: "'o host \<Rightarrow> u64 \<Rightarrow> nat \<Rightarrow> bool" where
  "may_write h a n \<longleftrightarrow> (\<forall>i<n. h_prot h (a + of_nat i) AND PROT_WRITE \<noteq> 0)"

definition may_read :: "'o host \<Rightarrow> u64 \<Rightarrow> nat \<Rightarrow> bool" where
  "may_read h a n \<longleftrightarrow> (\<forall>i<n. h_prot h (a + of_nat i) AND (PROT_READ OR PROT_WRITE OR PROT_EXEC) \<noteq> 0)"

text \<open>The handler of \<^verbatim>\<open>SIGSEGV\<close> and \<^verbatim>\<open>SIGBUS\<close>: whatever the address, it ends in a panic.\<close>

definition dbt_sigaction_memory :: "'a res" where "dbt_sigaction_memory = Inl Panic"

definition hstore :: "u64 \<Rightarrow> u8 list \<Rightarrow> 'o host \<Rightarrow> 'o host res" where
  "hstore a bs h = (if may_write h a (length bs) then Inr (poke a bs h) else dbt_sigaction_memory)"

primrec hstores :: "(u64 \<times> u8 list) list \<Rightarrow> 'o host \<Rightarrow> 'o host res" where
  "hstores [] h = Inr h"
| "hstores (w # ws) h = rbind (hstore (fst w) (snd w) h) (hstores ws)"

text \<open>A C string in memory. The value is \<open>None\<close> when no zero byte follows.\<close>

partial_function (option) cstr :: "vmem \<Rightarrow> u64 \<Rightarrow> u8 list option" where
  "cstr m a = (if m a = 0 then Some [] else Option.bind (cstr m (a + 1)) (\<lambda>s. Some (m a # s)))"

text \<open>Reading a string up to its zero byte.\<close>

definition the_cstr :: "'o host \<Rightarrow> u64 \<Rightarrow> u8 list res" where
  "the_cstr h a =
     (case cstr (h_mem h) a of
        None \<Rightarrow> dbt_sigaction_memory
      | Some s \<Rightarrow> if may_read h a (length s + 1) then Inr s else dbt_sigaction_memory)"

definition ascii :: "string \<Rightarrow> u8 list" where "ascii s = map of_char s"

section \<open>Process and thread\<close>

record Elf32_Ehdr =
  e_ident :: "u8 list"
  e_type :: u16
  e_machine :: u16
  e_entry :: u32
  e_phoff :: u32
  e_phnum :: u16

record ElfImage =
  ehdr :: Elf32_Ehdr
  load_addr :: u32
  stack_start :: u32
  elf_entry :: u32
  elf_brk :: u32

record Process =
  elf_image :: ElfImage
  main_thread :: bool
  fsroot :: "u8 list"
  exe_fd :: u32
  brk :: u32

record uthread =
  terminating :: bool
  termination_code :: u32

text \<open>The state of the whole program: the one thread, its CPU state, the code cache, the host, the guest's memory
  window, the profile and the process. \<open>k_thread\<close> is the thread \<open>CPUState::Current\<close> belongs to.\<close>

record 'o kernel =
  k_cpu :: CPUState
  k_unwind :: u64
  k_tc :: tcache
  k_host :: "'o host"
  k_mmu :: mmu
  k_prof :: "ElfProfile option"
  k_process :: Process
  k_thread :: "uthread option"

definition new_uthread :: "'o kernel \<Rightarrow> 'o kernel res" where
  "new_uthread k =
     (case k_thread k of
        Some _ \<Rightarrow> Inl Panic
      | None \<Rightarrow> Inr (k\<lparr>k_thread := Some \<lparr>terminating = False, termination_code = 0\<rparr>,
                       k_cpu := \<lparr>gpr = \<lambda>_. 0, ip = 0, trapno = NONE\<rparr>, k_unwind := 0\<rparr>))"

definition EnqueueTermination :: "u32 \<Rightarrow> 'o kernel \<Rightarrow> 'o kernel res" where
  "EnqueueTermination code k =
     (case k_thread k of
        None \<Rightarrow> Inl BadDeref
      | Some ut \<Rightarrow>
          if \<not> main_thread (k_process k) then Inl AssertFailed
          else Inr (k\<lparr>k_thread := Some (ut\<lparr>terminating := True, termination_code := code\<rparr>)\<rparr>))"

definition InitMainThread :: "ElfImage \<Rightarrow> 'o kernel \<Rightarrow> 'o kernel res" where
  "InitMainThread elf k =
     (if stack_start elf AND 15 \<noteq> 0 then Inl AssertFailed
      else Inr (k\<lparr>k_cpu := (k_cpu k)\<lparr>gpr := (gpr (k_cpu k))(2 := stack_start elf), ip := elf_entry elf\<rparr>\<rparr>))"

section \<open>Paths\<close>

definition PATH_MAX :: nat where "PATH_MAX = 4096"
definition AT_FDCWD :: u32 where "AT_FDCWD = -100"

text \<open>Overwriting part of a character array, and the string an array holds; reading on behind the end of the array
  is an invalid access.\<close>

definition buf_put :: "nat \<Rightarrow> u8 list \<Rightarrow> u8 list \<Rightarrow> u8 list" where
  "buf_put p bs buf = take p buf @ bs @ drop (p + length bs) buf"

definition buf_str :: "u8 list \<Rightarrow> u8 list res" where
  "buf_str buf = (if 0 \<in> set buf then Inr (takeWhile (\<lambda>c. c \<noteq> 0) buf) else Inl BadDeref)"

fun decimal :: "nat \<Rightarrow> u8 list" where
  "decimal n = (if n < 10 then [of_nat (48 + n)] else decimal (n div 10) @ [of_nat (48 + n mod 10)])"

declare decimal.simps [simp del]

definition print_int :: "u32 \<Rightarrow> u8 list" where
  "print_int v = (if v <s 0 then ascii ''-'' @ decimal (unat (- v)) else decimal (unat v))"

definition fd_path :: "u32 \<Rightarrow> u8 list" where "fd_path fd = ascii ''/proc/self/fd/'' @ print_int fd"

definition HandleSpecialPath :: "Process \<Rightarrow> u8 list \<Rightarrow> u8 list option" where
  "HandleSpecialPath p path = (if path = ascii ''/proc/self/exe'' then Some (fd_path (exe_fd p)) else None)"

definition SetFSRoot :: "'o calls \<Rightarrow> u8 list \<Rightarrow> 'o kernel \<Rightarrow> 'o kernel res" where
  "SetFSRoot c root k =
     (case c_realpath c root (k_host k) of
        (None, h) \<Rightarrow> Inl Panic
      | (Some buf, h) \<Rightarrow> Inr (k\<lparr>k_host := h, k_process := (k_process k)\<lparr>fsroot := buf @ ascii ''/''\<rparr>\<rparr>))"

text \<open>The start of a resolution: the array with the path to resolve. A relative path is put behind the current
  directory or the directory of the descriptor.\<close>

definition path_prefix :: "'o calls \<Rightarrow> u32 \<Rightarrow> 'o host \<Rightarrow> u8 list option \<times> 'o host" where
  "path_prefix c dirfd h =
     (let junk = c_stack c h in
      if dirfd = AT_FDCWD
      then (case c_getcwd c PATH_MAX h of
              (None, h) \<Rightarrow> (Some junk, h)
            | (Some s, h) \<Rightarrow> (Some (buf_put 0 (s @ [0]) junk), h))
      else (case c_readlink c (fd_path dirfd) PATH_MAX h of
              (None, h) \<Rightarrow> (None, h)
            | (Some s, h) \<Rightarrow> (Some (buf_put 0 s junk), h)))"

definition path_start :: "'o calls \<Rightarrow> Process \<Rightarrow> u32 \<Rightarrow> u8 list \<Rightarrow> 'o host \<Rightarrow> (u8 list option \<times> 'o host) res" where
  "path_start c p dirfd path h =
     (if path \<noteq> [] \<and> hd path = 47
      then Inr (Some (buf_put 0 (take (PATH_MAX - 1) (fsroot p @ [47] @ path) @ [0]) (c_stack c h)), h)
      else case path_prefix c dirfd h of
             (None, h) \<Rightarrow> Inr (None, h)
           | (Some buf, h) \<Rightarrow>
               rbind (buf_str buf) (\<lambda>pref.
                 let n = PATH_MAX - length pref in
                 Inr (Some (buf_put (length pref) (take n (path @ replicate n 0)) buf), h)))"

definition starts_with :: "u8 list \<Rightarrow> u8 list \<Rightarrow> bool" where
  "starts_with root s \<longleftrightarrow> take (length root) s = root"

definition PathResolution ::
  "'o calls \<Rightarrow> Process \<Rightarrow> u32 \<Rightarrow> u8 list \<Rightarrow> 'o host \<Rightarrow> (u8 list option \<times> 'o host) res" where
  "PathResolution c p dirfd path h =
     rbind (path_start c p dirfd path h) (\<lambda>(b, h).
       case b of
         None \<Rightarrow> Inr (None, h)
       | Some rp_buf \<Rightarrow>
           if \<not> starts_with (fsroot p) rp_buf then Inl Panic
           else rbind (buf_str (drop (length (fsroot p) + 1) rp_buf)) (\<lambda>inner.
             case HandleSpecialPath p inner of
               Some resolved \<Rightarrow> Inr (Some resolved, h)
             | None \<Rightarrow>
                 rbind (buf_str rp_buf) (\<lambda>rp.
                   case c_realpath c rp h of
                     (None, h) \<Rightarrow> Inr (None, h)
                   | (Some resolved, h) \<Rightarrow>
                       if \<not> starts_with (fsroot p) resolved then Inl Panic
                       else if path \<noteq> [] \<and> hd path = 47 then Inr (Some resolved, h)
                       else if PATH_MAX \<le> length path then Inl BadIndex
                       else Inr (Some path, h))))"

section \<open>System calls\<close>

text \<open>The members of \<open>SyscallID\<close> that the dispatch names; every other number goes to \<open>SyscallUnhandled\<close>.\<close>

definition SYS_openat :: u32 where "SYS_openat = 56"
definition SYS_close :: u32 where "SYS_close = 57"
definition SYS_llseek :: u32 where "SYS_llseek = 62"
definition SYS_read :: u32 where "SYS_read = 63"
definition SYS_write :: u32 where "SYS_write = 64"
definition SYS_readlinkat :: u32 where "SYS_readlinkat = 78"
definition SYS_fstat64 :: u32 where "SYS_fstat64 = 80"
definition SYS_set_tid_address :: u32 where "SYS_set_tid_address = 96"
definition SYS_exit :: u32 where "SYS_exit = 93"
definition SYS_exit_group :: u32 where "SYS_exit_group = 94"
definition SYS_rt_sigaction :: u32 where "SYS_rt_sigaction = 134"
definition SYS_uname :: u32 where "SYS_uname = 160"
definition SYS_getuid :: u32 where "SYS_getuid = 174"
definition SYS_geteuid :: u32 where "SYS_geteuid = 175"
definition SYS_getgid :: u32 where "SYS_getgid = 176"
definition SYS_getegid :: u32 where "SYS_getegid = 177"
definition SYS_sysinfo :: u32 where "SYS_sysinfo = 179"
definition SYS_brk :: u32 where "SYS_brk = 214"
definition SYS_munmap :: u32 where "SYS_munmap = 215"
definition SYS_mmap2 :: u32 where "SYS_mmap2 = 222"
definition SYS_mprotect :: u32 where "SYS_mprotect = 226"
definition SYS_prlimit64 :: u32 where "SYS_prlimit64 = 261"
definition SYS_getrandom :: u32 where "SYS_getrandom = 278"
definition SYS_statx :: u32 where "SYS_statx = 291"
definition SYS_clock_gettime64 :: u32 where "SYS_clock_gettime64 = 403"
definition SYS_set_robust_list :: u32 where "SYS_set_robust_list = 99"

lemmas syscall_nos = SYS_openat_def SYS_close_def SYS_llseek_def SYS_read_def SYS_write_def SYS_readlinkat_def
  SYS_fstat64_def SYS_set_tid_address_def SYS_exit_def SYS_exit_group_def SYS_rt_sigaction_def
  SYS_uname_def SYS_getuid_def SYS_geteuid_def SYS_getgid_def SYS_getegid_def SYS_sysinfo_def
  SYS_brk_def SYS_munmap_def SYS_mmap2_def SYS_mprotect_def SYS_prlimit64_def SYS_getrandom_def
  SYS_statx_def SYS_clock_gettime64_def SYS_set_robust_list_def

definition SyscallUnhandled :: "u32 \<Rightarrow> 'a res" where "SyscallUnhandled no = Inl Panic"

definition rcerrno :: "u64 \<Rightarrow> 'o host \<Rightarrow> u32" where
  "rcerrno rc h = (if (ucast rc :: u32) <s 0 then - h_errno h else ucast rc)"

definition forward :: "'o call \<Rightarrow> 'o kernel \<Rightarrow> (u32 \<times> 'o kernel) res" where
  "forward f k = (let (rc, h) = f (k_host k) in Inr (rcerrno rc h, k\<lparr>k_host := h\<rparr>))"

definition linux_openat :: "'o calls \<Rightarrow> u32 \<Rightarrow> u64 \<Rightarrow> u32 \<Rightarrow> u32 \<Rightarrow> 'o kernel \<Rightarrow> (u32 \<times> 'o kernel) res" where
  "linux_openat c dfd filename flags mode = forward (c_openat c dfd filename flags mode)"

definition linux_close :: "'o calls \<Rightarrow> u32 \<Rightarrow> 'o kernel \<Rightarrow> (u32 \<times> 'o kernel) res" where
  "linux_close c fd k = (if fd < 3 then Inr (0, k) else forward (c_close c fd) k)"

definition linux_llseek :: "'o calls \<Rightarrow> u32 \<Rightarrow> u32 \<Rightarrow> u32 \<Rightarrow> u64 \<Rightarrow> u32 \<Rightarrow> 'o kernel \<Rightarrow> (u32 \<times> 'o kernel) res" where
  "linux_llseek c fd offset_high offset_low result whence k =
     (let off = push_bit 32 (ucast offset_high :: u64) OR ucast offset_low;
          (r, h) = c_lseek c fd off whence (k_host k);
          rc = ucast r :: u32
      in rbind (if 0 \<le>s rc then hstore result (to_le 8 (scast rc :: u64)) h else Inr h) (\<lambda>h. Inr (0, k\<lparr>k_host := h\<rparr>)))"

definition linux_read :: "'o calls \<Rightarrow> u32 \<Rightarrow> u64 \<Rightarrow> u32 \<Rightarrow> 'o kernel \<Rightarrow> (u32 \<times> 'o kernel) res" where
  "linux_read c fd buf count = forward (c_read c fd buf (ucast count))"

definition linux_write :: "'o calls \<Rightarrow> u32 \<Rightarrow> u64 \<Rightarrow> u32 \<Rightarrow> 'o kernel \<Rightarrow> (u32 \<times> 'o kernel) res" where
  "linux_write c fd buf count = forward (c_write c fd buf (ucast count))"

text \<open>The common start of the calls that take a path: an empty path is passed on, any other is resolved.\<close>

definition resolve_arg :: "'o calls \<Rightarrow> u32 \<Rightarrow> u64 \<Rightarrow> 'o kernel \<Rightarrow> (u8 list option \<times> 'o kernel) res" where
  "resolve_arg c dfd path k =
     rbind (the_cstr (k_host k) path) (\<lambda>s.
       if s = [] then Inr (Some [], k)
       else rbind (PathResolution c (k_process k) dfd s (k_host k)) (\<lambda>(r, h). Inr (r, k\<lparr>k_host := h\<rparr>)))"

definition linux_readlinkat :: "'o calls \<Rightarrow> u32 \<Rightarrow> u64 \<Rightarrow> u64 \<Rightarrow> u32 \<Rightarrow> 'o kernel \<Rightarrow> (u32 \<times> 'o kernel) res" where
  "linux_readlinkat c dfd path buf bufsiz k =
     rbind (resolve_arg c dfd path k) (\<lambda>(r, k).
       case r of
         None \<Rightarrow> Inr (- h_errno (k_host k), k)
       | Some pathbuf \<Rightarrow> forward (c_readlinkat c dfd pathbuf buf (scast bufsiz)) k)"

definition linux_fstat64 :: "'o calls \<Rightarrow> u32 \<Rightarrow> u64 \<Rightarrow> 'o kernel \<Rightarrow> (u32 \<times> 'o kernel) res" where
  "linux_fstat64 c fd statbuf = forward (c_fstatat c fd [] statbuf 0)"

definition linux_set_tid_address :: "'o calls \<Rightarrow> u64 \<Rightarrow> 'o kernel \<Rightarrow> (u32 \<times> 'o kernel) res" where
  "linux_set_tid_address c tidptr k =
     (let (rc, h_tidptr, h) = c_set_tid_address c (k_host k) in
      if rc <s 0 then Inr (- h_errno h, k\<lparr>k_host := h\<rparr>)
      else rbind (hstore tidptr (to_le 4 h_tidptr) h) (\<lambda>h. Inr (ucast rc, k\<lparr>k_host := h\<rparr>)))"

definition linux_exit :: "u32 \<Rightarrow> 'o kernel \<Rightarrow> (u32 \<times> 'o kernel) res" where
  "linux_exit error_code k = rbind (EnqueueTermination error_code k) (\<lambda>k. Inr (0, k))"

definition linux_exit_group :: "u32 \<Rightarrow> 'o kernel \<Rightarrow> (u32 \<times> 'o kernel) res" where
  "linux_exit_group error_code = linux_exit error_code"

definition linux_rt_sigaction :: "'o kernel \<Rightarrow> (u32 \<times> 'o kernel) res" where "linux_rt_sigaction k = Inr (0, k)"

definition machine_offs :: u64 where "machine_offs = 4 * 65"

definition linux_uname :: "'o calls \<Rightarrow> u64 \<Rightarrow> 'o kernel \<Rightarrow> (u32 \<times> 'o kernel) res" where
  "linux_uname c name k =
     (let (rc, h) = c_uname c name (k_host k)
      in rbind (hstore (name + machine_offs) (ascii ''riscv32'' @ [0]) h) (\<lambda>h. Inr (rcerrno rc h, k\<lparr>k_host := h\<rparr>)))"

definition linux_getuid :: "'o calls \<Rightarrow> 'o kernel \<Rightarrow> (u32 \<times> 'o kernel) res" where
  "linux_getuid c k = Inr (c_getuid c (k_host k), k)"

definition linux_geteuid :: "'o calls \<Rightarrow> 'o kernel \<Rightarrow> (u32 \<times> 'o kernel) res" where
  "linux_geteuid c k = Inr (c_geteuid c (k_host k), k)"

definition linux_getgid :: "'o calls \<Rightarrow> 'o kernel \<Rightarrow> (u32 \<times> 'o kernel) res" where
  "linux_getgid c k = Inr (c_getgid c (k_host k), k)"

definition linux_getegid :: "'o calls \<Rightarrow> 'o kernel \<Rightarrow> (u32 \<times> 'o kernel) res" where
  "linux_getegid c k = Inr (c_getegid c (k_host k), k)"

text \<open>The fields of \<open>uabi_sysinfo\<close> in the order of the structure: the kernel writes all but the padding behind \<open>procs\<close>.\<close>

definition MB :: u32 where "MB = 0x100000"

definition fill_sysinfo :: "u64 \<Rightarrow> host_sysinfo \<Rightarrow> 'o host \<Rightarrow> 'o host res" where
  "fill_sysinfo info hi =
     (let w = \<lambda>offs (v :: u32). (info + offs, to_le 4 v) in
      hstores
       [w 0 (ucast (hs_uptime hi)), w 4 (ucast (hs_loads hi ! 0)), w 8 (ucast (hs_loads hi ! 1)), w 12 (ucast (hs_loads hi ! 2)),
        w 16 (1024 * MB), w 20 (500 * MB), w 36 MB, w 32 MB, w 28 MB, w 24 MB, (info + 40, to_le 2 (hs_procs hi)),
        w 48 MB, w 44 MB, w 52 1])"

definition linux_sysinfo :: "'o calls \<Rightarrow> u64 \<Rightarrow> 'o kernel \<Rightarrow> (u32 \<times> 'o kernel) res" where
  "linux_sysinfo c info k =
     (let (r, host_info, h) = c_sysinfo c (k_host k);
          rc = ucast r :: u32
      in rbind (if 0 <s rc then fill_sysinfo info host_info h else Inr h) (\<lambda>h. Inr (rcerrno (scast rc) h, k\<lparr>k_host := h\<rparr>)))"

text \<open>\<open>mmu::mmap\<close> on the kernel's state; \<open>None\<close> is \<^verbatim>\<open>MAP_FAILED\<close>, the address \<open>-1\<close>.\<close>

definition kmmap :: "'o calls \<Rightarrow> u32 \<Rightarrow> u32 \<Rightarrow> u32 \<Rightarrow> u32 \<Rightarrow> u32 \<Rightarrow> u64 \<Rightarrow> 'o kernel \<Rightarrow> (u64 option \<times> 'o kernel) res" where
  "kmmap c va len prot flags fd offs k =
     rbind (mmap (c_os c) va len prot flags fd offs (k_mmu k, k_host k)) (\<lambda>(r, u, h).
       Inr (r, k\<lparr>k_mmu := u, k_host := h\<rparr>))"

definition hptr_of :: "u64 option \<Rightarrow> u64" where "hptr_of r = (case r of None \<Rightarrow> -1 | Some p \<Rightarrow> p)"

definition set_brk :: "u32 \<Rightarrow> 'o kernel \<Rightarrow> 'o kernel" where
  "set_brk b k = k\<lparr>k_process := (k_process k)\<lparr>brk := b\<rparr>\<rparr>"

text \<open>\<^verbatim>\<open>memset\<close> to zero of guest memory.\<close>

definition kzero :: "u32 \<Rightarrow> u32 \<Rightarrow> 'o kernel \<Rightarrow> 'o kernel res" where
  "kzero a n k = rbind (hstore (g2h (k_mmu k) a) (replicate (unat n) 0) (k_host k)) (\<lambda>h. Inr (k\<lparr>k_host := h\<rparr>))"

definition linux_brk :: "'o calls \<Rightarrow> u32 \<Rightarrow> 'o kernel \<Rightarrow> (u32 \<times> 'o kernel) res" where
  "linux_brk c newbrk k =
     (let b = brk (k_process k); brk_p = ucast (roundup (ucast b) PAGE_SIZE) in
      if newbrk \<le> b then Inr (b, k)
      else if newbrk \<le> brk_p
      then rbind (if newbrk \<noteq> brk_p then kzero b (newbrk - b) k else Inr k) (\<lambda>k. Inr (newbrk, set_brk newbrk k))
      else rbind (kmmap c brk_p (newbrk - brk_p) (PROT_READ OR PROT_WRITE) (MAP_ANON OR MAP_PRIVATE OR MAP_FIXED) (-1) 0 k) (\<lambda>(r, k).
        if h2g (k_mmu k) (hptr_of r) \<noteq> brk_p
        then Inr (b, k\<lparr>k_host := snd (os_munmap (c_os c) (hptr_of r) (ucast (newbrk - brk_p)) (k_host k))\<rparr>)
        else rbind (kzero b (brk_p - b) k) (\<lambda>k. Inr (newbrk, set_brk newbrk k))))"

definition linux_munmap :: "'o calls \<Rightarrow> u32 \<Rightarrow> u32 \<Rightarrow> 'o kernel \<Rightarrow> (u32 \<times> 'o kernel) res" where
  "linux_munmap c gaddr len k =
     (let (ok, h) = os_munmap (c_os c) (g2h (k_mmu k) gaddr) (ucast len) (k_host k)
      in Inr (rcerrno (if ok then 0 else -1) h, k\<lparr>k_host := h\<rparr>))"

definition linux_mmap2 ::
  "'o calls \<Rightarrow> u32 \<Rightarrow> u32 \<Rightarrow> u32 \<Rightarrow> u32 \<Rightarrow> u32 \<Rightarrow> u32 \<Rightarrow> 'o kernel \<Rightarrow> (u32 \<times> 'o kernel) res" where
  "linux_mmap2 c gaddr len prot flags fd off k =
     rbind (kmmap c gaddr len prot flags fd (ucast off) k) (\<lambda>(r, k).
       case r of
         None \<Rightarrow> Inr (- h_errno (k_host k), k)
       | Some p \<Rightarrow> Inr (h2g (k_mmu k) p, k))"

definition linux_mprotect :: "'o calls \<Rightarrow> u32 \<Rightarrow> u32 \<Rightarrow> u32 \<Rightarrow> 'o kernel \<Rightarrow> (u32 \<times> 'o kernel) res" where
  "linux_mprotect c start len prot k = forward (c_mprotect c (g2h (k_mmu k) start) (ucast len) prot) k"

definition RLIMIT_DATA :: u32 where "RLIMIT_DATA = 2"
definition RLIMIT_STACK :: u32 where "RLIMIT_STACK = 3"
definition RLIMIT_AS :: u32 where "RLIMIT_AS = 9"

definition linux_prlimit64 :: "'o calls \<Rightarrow> u32 \<Rightarrow> u32 \<Rightarrow> u64 \<Rightarrow> u64 \<Rightarrow> 'o kernel \<Rightarrow> (u32 \<times> 'o kernel) res" where
  "linux_prlimit64 c pid resource new_rlim old_rlim k =
     (let m = h_mem (k_host k);
          given = new_rlim \<noteq> 0 \<and> \<not> (resource = RLIMIT_AS \<or> resource = RLIMIT_STACK \<or> resource = RLIMIT_DATA);
          h_new_rlim_p = (if given then Some (unaligned_load m new_rlim, unaligned_load m (new_rlim + 8)) else None);
          (rc, h_old, h) = c_prlimit64 c pid resource h_new_rlim_p (k_host k)
      in if given \<and> \<not> may_read (k_host k) new_rlim 16 then dbt_sigaction_memory
         else if rc <s 0 then Inr (- h_errno h, k\<lparr>k_host := h\<rparr>)
         else rbind (hstores [(old_rlim, to_le 8 (fst h_old)), (old_rlim + 8, to_le 8 (snd h_old))] h) (\<lambda>h. Inr (ucast rc, k\<lparr>k_host := h\<rparr>)))"

definition linux_getrandom :: "'o calls \<Rightarrow> u64 \<Rightarrow> u32 \<Rightarrow> u32 \<Rightarrow> 'o kernel \<Rightarrow> (u32 \<times> 'o kernel) res" where
  "linux_getrandom c buf count flags = forward (c_getrandom c buf (ucast count) flags)"

definition linux_statx :: "'o calls \<Rightarrow> u32 \<Rightarrow> u64 \<Rightarrow> u32 \<Rightarrow> u32 \<Rightarrow> u64 \<Rightarrow> 'o kernel \<Rightarrow> (u32 \<times> 'o kernel) res" where
  "linux_statx c dfd path flags msk buffer k =
     rbind (resolve_arg c dfd path k) (\<lambda>(r, k).
       case r of
         None \<Rightarrow> Inr (- h_errno (k_host k), k)
       | Some pathbuf \<Rightarrow> forward (c_statx c dfd pathbuf flags msk buffer) k)"

definition linux_clock_gettime64 :: "'o calls \<Rightarrow> u32 \<Rightarrow> u64 \<Rightarrow> 'o kernel \<Rightarrow> (u32 \<times> 'o kernel) res" where
  "linux_clock_gettime64 c which_clock ktp k =
     (let (rc, tp, h) = c_clock_gettime c which_clock (k_host k)
      in rbind (hstores [(ktp, to_le 8 (fst tp)), (ktp + 8, to_le 8 (snd tp))] h) (\<lambda>h. Inr (rcerrno rc h, k\<lparr>k_host := h\<rparr>)))"

section \<open>Dispatch\<close>

definition ENOSYS :: u32 where "ENOSYS = 38"

text \<open>\<open>a i\<close> is argument \<open>i\<close> as a number and \<open>p i\<close> as a pointer, the two conversions of \<open>do_syscall\<close>.\<close>

definition do_syscall :: "'o calls \<Rightarrow> (nat \<Rightarrow> u32) \<Rightarrow> (nat \<Rightarrow> u64) \<Rightarrow> u32 \<Rightarrow> 'o kernel \<Rightarrow> (u32 \<times> 'o kernel) res option" where
  "do_syscall c a p no k =
     map_of
      [(SYS_openat, linux_openat c (a 0) (p 1) (a 2) (a 3) k),
       (SYS_close, linux_close c (a 0) k),
       (SYS_llseek, linux_llseek c (a 0) (a 1) (a 2) (p 3) (a 4) k),
       (SYS_read, linux_read c (a 0) (p 1) (a 2) k),
       (SYS_write, linux_write c (a 0) (p 1) (a 2) k),
       (SYS_readlinkat, linux_readlinkat c (a 0) (p 1) (p 2) (a 3) k),
       (SYS_fstat64, linux_fstat64 c (a 0) (p 1) k),
       (SYS_set_tid_address, linux_set_tid_address c (p 0) k),
       (SYS_exit, linux_exit (a 0) k),
       (SYS_exit_group, linux_exit_group (a 0) k),
       (SYS_rt_sigaction, linux_rt_sigaction k),
       (SYS_uname, linux_uname c (p 0) k),
       (SYS_getuid, linux_getuid c k),
       (SYS_geteuid, linux_geteuid c k),
       (SYS_getgid, linux_getgid c k),
       (SYS_getegid, linux_getegid c k),
       (SYS_sysinfo, linux_sysinfo c (p 0) k),
       (SYS_brk, linux_brk c (a 0) k),
       (SYS_munmap, linux_munmap c (a 0) (a 1) k),
       (SYS_mmap2, linux_mmap2 c (a 0) (a 1) (a 2) (a 3) (a 4) (a 5) k),
       (SYS_mprotect, linux_mprotect c (a 0) (a 1) (a 2) k),
       (SYS_prlimit64, linux_prlimit64 c (a 0) (a 1) (p 2) (p 3) k),
       (SYS_getrandom, linux_getrandom c (p 0) (a 1) (a 2) k),
       (SYS_statx, linux_statx c (a 0) (p 1) (a 2) (a 3) (p 4) k),
       (SYS_clock_gettime64, linux_clock_gettime64 c (a 0) (p 1) k)] no"

definition dispatch :: "'o calls \<Rightarrow> (nat \<Rightarrow> u32) \<Rightarrow> u32 \<Rightarrow> 'o kernel \<Rightarrow> (u32 \<times> 'o kernel) res" where
  "dispatch c args syscallno k =
     (case do_syscall c args (\<lambda>i. g2h (k_mmu k) (args i)) syscallno k of
        Some r \<Rightarrow> r
      | None \<Rightarrow> if syscallno = SYS_set_robust_list then Inr (- ENOSYS, k) else SyscallUnhandled syscallno)"

definition set_cpu_gpr :: "u8 \<Rightarrow> u32 \<Rightarrow> 'o kernel \<Rightarrow> 'o kernel" where
  "set_cpu_gpr r v k = k\<lparr>k_cpu := (k_cpu k)\<lparr>gpr := (gpr (k_cpu k))(r := v)\<rparr>\<rparr>"

definition SyscallLinux :: "'o calls \<Rightarrow> 'o kernel \<Rightarrow> 'o kernel res" where
  "SyscallLinux c k =
     (let k = k\<lparr>k_cpu := (k_cpu k)\<lparr>trapno := NONE\<rparr>\<rparr>;
          args = (\<lambda>i. gpr (k_cpu k) (10 + of_nat i));
          syscallno = gpr (k_cpu k) 17
      in rbind (dispatch c args syscallno k) (\<lambda>(rc, k). Inr (set_cpu_gpr 10 rc k)))"

text \<open>The debugging kernel of builds without \<^verbatim>\<open>DBT_LINUX_GUEST\<close>.\<close>

definition SyscallDemo :: "'o calls \<Rightarrow> 'o kernel \<Rightarrow> 'o kernel res" where
  "SyscallDemo c k =
     (let k = k\<lparr>k_cpu := (k_cpu k)\<lparr>trapno := NONE\<rparr>\<rparr>; id = gpr (k_cpu k) 10 in
      if id = 1 then let (v, h) = c_readnum c (k_host k) in Inr (set_cpu_gpr 10 v (k\<lparr>k_host := h\<rparr>))
      else if id = 2 then Inr (k\<lparr>k_host := c_writenum c (gpr (k_cpu k) 11) (k_host k)\<rparr>)
      else if id = 3 then EnqueueTermination (gpr (k_cpu k) 11) k
      else Inl Panic)"

definition Syscall :: "bool \<Rightarrow> 'o calls \<Rightarrow> 'o kernel \<Rightarrow> 'o kernel res" where
  "Syscall linux_guest c k = (if linux_guest then SyscallLinux c k else SyscallDemo c k)"

section \<open>The loop\<close>

definition skip_insn :: "'o kernel \<Rightarrow> 'o kernel" where
  "skip_insn k = k\<lparr>k_cpu := (k_cpu k)\<lparr>ip := ip (k_cpu k) + 4\<rparr>\<rparr>"

definition handle_trap :: "bool \<Rightarrow> 'o calls \<Rightarrow> 'o kernel \<Rightarrow> 'o kernel res" where
  "handle_trap linux_guest c k =
     (case trapno (k_cpu k) of
        EBREAK \<Rightarrow> Inr (skip_insn k)
      | ECALL \<Rightarrow> Syscall linux_guest c (skip_insn k)
      | ILLEGAL_INSN \<Rightarrow> EnqueueTermination 1 k
      | _ \<Rightarrow> Inl Unreachable)"

definition is_terminating :: "'o kernel \<Rightarrow> bool res" where
  "is_terminating k = (case k_thread k of None \<Rightarrow> Inl BadDeref | Some ut \<Rightarrow> Inr (terminating ut))"

text \<open>\<open>exec\<close> is \<open>dbt::Execute\<close>.\<close>

partial_function (option) kernel_loop ::
  "('o kernel \<Rightarrow> 'o kernel res option) \<Rightarrow> ('o kernel \<Rightarrow> 'o kernel res) \<Rightarrow> 'o kernel \<Rightarrow> 'o kernel res option" where
  "kernel_loop exec trap k =
     (case is_terminating k of
        Inl e \<Rightarrow> Some (Inl e)
      | Inr t \<Rightarrow>
          if t then Some (Inr k) else
          Option.bind (exec k) (\<lambda>r.
            case rbind r (\<lambda>k. rbind (is_terminating k) (\<lambda>t. if t then Inl AssertFailed else trap k)) of
              Inl e \<Rightarrow> Some (Inl e)
            | Inr k \<Rightarrow> kernel_loop exec trap k))"

text \<open>The translating build: \<open>dbt::Execute\<close> works on the part of the state that is its own.\<close>

definition kernel_rt :: "'o kernel \<Rightarrow> runtime" where
  "kernel_rt k = \<lparr>rt_cpu = k_cpu k, sp_unwindptr = k_unwind k, rt_tc = k_tc k, rt_mem = h_mem (k_host k)\<rparr>"

definition with_rt :: "runtime \<Rightarrow> 'o kernel \<Rightarrow> 'o kernel" where
  "with_rt rt k =
     k\<lparr>k_cpu := rt_cpu rt, k_unwind := sp_unwindptr rt, k_tc := rt_tc rt, k_host := (k_host k)\<lparr>h_mem := rt_mem rt\<rparr>\<rparr>"

definition dbt_Execute :: "config \<Rightarrow> backend \<Rightarrow> (u64 \<Rightarrow> runtime \<Rightarrow> tc_exit) \<Rightarrow> 'o kernel \<Rightarrow> 'o kernel res option" where
  "dbt_Execute cfg be run k =
     map_option (\<lambda>r. rbind r (\<lambda>rt. Inr (with_rt rt k))) (Execute cfg be (mbase (k_mmu k)) run (kernel_rt k))"

definition ukernel_Execute ::
  "config \<Rightarrow> backend \<Rightarrow> (u64 \<Rightarrow> runtime \<Rightarrow> tc_exit) \<Rightarrow> bool \<Rightarrow> 'o calls \<Rightarrow> 'o kernel \<Rightarrow> 'o kernel res option" where
  "ukernel_Execute cfg be run linux_guest c k = kernel_loop (dbt_Execute cfg be run) (handle_trap linux_guest c) k"

definition MainThreadExecute ::
  "config \<Rightarrow> backend \<Rightarrow> (u64 \<Rightarrow> runtime \<Rightarrow> tc_exit) \<Rightarrow> bool \<Rightarrow> 'o calls \<Rightarrow> 'o kernel \<Rightarrow> (u32 \<times> 'o kernel) res option" where
  "MainThreadExecute cfg be run linux_guest c k =
     (if \<not> main_thread (k_process k) then Some (Inl AssertFailed)
      else map_option (\<lambda>r.
             rbind r (\<lambda>k.
             case k_thread k of
               None \<Rightarrow> Inl BadDeref
             | Some ut \<Rightarrow>
                 if \<not> terminating ut then Inl AssertFailed
                 else Inr (termination_code ut, k\<lparr>k_process := (k_process k)\<lparr>main_thread := False\<rparr>\<rparr>)))
             (ukernel_Execute cfg be run linux_guest c k))"

end
