(* ===== verification/UKernel_Correct.thy ===== *)
theory UKernel_Correct
  imports UKernel
begin

text \<open>
  What the user kernel promises its guest: system calls change only what they are for (C12), unknown ones stop the
  program (C27), the break grows by zeroed memory (C20), paths are looked up below the root (C31), and a process ends
  with the code it exits with (C29). The host's behaviour is a hypothesis only where memory is mapped.
\<close>

section \<open>System calls\<close>

text \<open>Most calls change nothing but the host: what they compute goes to guest memory or to the result.\<close>

definition host_only :: "'o kernel \<Rightarrow> (u32 \<times> 'o kernel) res \<Rightarrow> bool" where
  "host_only k r \<longleftrightarrow> (case r of Inl e \<Rightarrow> True | Inr (v, k') \<Rightarrow> \<exists>h. k' = k\<lparr>k_host := h\<rparr>)"

lemma host_only_Inr [simp]: "host_only k (Inr (v, k\<lparr>k_host := h\<rparr>))" "host_only k (Inr (v, k))" "host_only k (Inl e)"
proof -
  show "host_only k (Inr (v, k))" unfolding host_only_def by (auto intro!: exI [of _ "k_host k"])
qed (auto simp: host_only_def)

lemma forward_host_only [simp]: "host_only k (forward f k)"
  by (simp add: forward_def split: prod.split)

lemma store_host_only [simp]: "host_only k (rbind r (\<lambda>h. Inr (f h, k\<lparr>k_host := h\<rparr>)))"
  by (cases r) simp_all

lemma host_only_trans: "host_only (k\<lparr>k_host := h\<rparr>) r \<Longrightarrow> host_only k r"
  by (auto simp: host_only_def split: sum.splits)

lemma resolve_host_only:
  assumes "\<And>p h. host_only (k\<lparr>k_host := h\<rparr>) (f p (k\<lparr>k_host := h\<rparr>))"
  shows "host_only k (rbind (resolve_arg c dfd path k)
    (\<lambda>(r, k). case r of None \<Rightarrow> Inr (- h_errno (k_host k), k) | Some p \<Rightarrow> f p k))"
proof (cases "resolve_arg c dfd path k")
  case (Inr x)
  obtain r k1 where x: "x = (r, k1)" by (cases x)
  have "\<exists>h. k1 = k\<lparr>k_host := h\<rparr>"
    using Inr x host_only_Inr(2) [of k] by (auto simp: resolve_arg_def host_only_def split: if_splits)
  then obtain h where "k1 = k\<lparr>k_host := h\<rparr>" ..
  then show ?thesis using Inr x assms by (cases r) (auto intro: host_only_trans)
qed simp

lemma calls_host_only [simp]:
  "host_only k (linux_openat c n p m m' k)" "host_only k (linux_close c n k)" "host_only k (linux_llseek c n n1 n2 p m k)"
  "host_only k (linux_read c n p m k)" "host_only k (linux_write c n p m k)" "host_only k (linux_fstat64 c n p k)"
  "host_only k (linux_set_tid_address c p k)" "host_only k (linux_rt_sigaction k)" "host_only k (linux_uname c p k)"
  "host_only k (linux_getuid c k)" "host_only k (linux_geteuid c k)" "host_only k (linux_getgid c k)" "host_only k (linux_getegid c k)"
  "host_only k (linux_sysinfo c p k)" "host_only k (linux_munmap c n m k)" "host_only k (linux_mprotect c n n1 n2 k)"
  "host_only k (linux_prlimit64 c n m p q k)" "host_only k (linux_getrandom c p n m k)" "host_only k (linux_clock_gettime64 c n p k)"
  by (simp_all add: linux_openat_def linux_close_def linux_llseek_def linux_read_def linux_write_def linux_fstat64_def linux_set_tid_address_def
      linux_rt_sigaction_def linux_uname_def linux_getuid_def linux_geteuid_def linux_getgid_def linux_getegid_def linux_sysinfo_def
      linux_munmap_def linux_mprotect_def linux_prlimit64_def linux_getrandom_def linux_clock_gettime64_def dbt_sigaction_memory_def Let_def split: prod.split)

lemma path_calls_host_only [simp]: "host_only k (linux_readlinkat c n p q m k)" "host_only k (linux_statx c n p m m' q k)"
  unfolding linux_readlinkat_def linux_statx_def by (rule resolve_host_only, simp)+

lemma do_syscall_cases:
  assumes "do_syscall c a p no k = Some r"
  shows "no \<notin> {93, 94} \<and> host_only k r \<or> no = 214 \<and> r = linux_brk c (a 0) k \<or>
    no = 222 \<and> r = linux_mmap2 c (a 0) (a 1) (a 2) (a 3) (a 4) (a 5) k \<or> no \<in> {93, 94} \<and> r = linux_exit (a 0) k"
proof -
  note m = map_of_SomeD [OF assms [unfolded do_syscall_def]]
  show ?thesis using m unfolding list.set insert_iff empty_iff prod.inject
    by (elim disjE conjE) (simp_all add: linux_exit_group_def syscall_nos)
qed

lemma mark_mbase: "MarkUsedPages pv n u = Inr u' \<Longrightarrow> mbase u' = mbase u"
  by (auto simp: MarkUsedPages_def set_pages_def split: if_splits)

lemma mmap_mbase: "mmap os va len prot flags fd offs (u, h) = Inr (r, u', h') \<Longrightarrow> mbase u' = mbase u"
proof -
  let ?len = "ucast (roundup (ucast len) PAGE_SIZE) :: u32"
  assume m: "mmap os va len prot flags fd offs (u, h) = Inr (r, u', h')"
  show ?thesis
  proof (cases "flags AND MAP_FIXED = 0")
    case True
    obtain q h1 where q: "mmap_search os ?len (drop_bit PAGE_BITS ?len) (mmap_hint_page u) False u h = Inr (q, h1)"
      using m True by (cases "mmap_search os ?len (drop_bit PAGE_BITS ?len) (mmap_hint_page u) False u h") (auto simp: mmap_def Let_def split: if_splits)
    show ?thesis
    proof (cases q)
      case (Some p)
      obtain x h2 where x: "os_mmap os p (ucast ?len) prot (flags OR MAP_FIXED) fd offs h1 = (x, h2)" by (cases "os_mmap os p (ucast ?len) prot (flags OR MAP_FIXED) fd offs h1")
      show ?thesis using m True q Some x by (auto simp: mmap_def Let_def split: if_splits dest: mark_mbase)
    qed (use m True q in \<open>auto simp: mmap_def Let_def split: if_splits\<close>)
  next
    case False
    obtain x h1 where x: "os_mmap os (g2h u va) (ucast ?len) prot flags fd offs h = (x, h1)" by (cases "os_mmap os (g2h u va) (ucast ?len) prot flags fd offs h")
    show ?thesis using m False x by (cases x) (auto simp: mmap_def Let_def split: if_splits dest: mark_mbase)
  qed
qed

lemma kmmap_keeps:
  assumes "kmmap c va len prot flags fd offs k = Inr (r, k')"
  shows "\<exists>u h. k' = k\<lparr>k_mmu := u, k_host := h\<rparr> \<and> mbase u = mbase (k_mmu k)"
  using assms mmap_mbase by (fastforce simp: kmmap_def)

lemma linux_mmap2_keeps:
  assumes "linux_mmap2 c va len prot flags fd off k = Inr (r, k')"
  shows "\<exists>u h. k' = k\<lparr>k_mmu := u, k_host := h\<rparr> \<and> mbase u = mbase (k_mmu k)"
proof -
  obtain q k1 where q: "kmmap c va len prot flags fd (ucast off) k = Inr (q, k1)"
    using assms by (cases "kmmap c va len prot flags fd (ucast off) k") (auto simp: linux_mmap2_def)
  then have "k' = k1" using assms by (cases q) (auto simp: linux_mmap2_def)
  then show ?thesis using kmmap_keeps [OF q] by simp
qed

lemma brk_self [simp]: "\<exists>b. p = p\<lparr>brk := b\<rparr>"
  by (rule exI [of _ "brk p"]) simp

lemma brk_upd [simp]: "\<exists>b. p\<lparr>brk := x\<rparr> = p\<lparr>brk := b\<rparr>"
  by blast

lemma kernel_self: "\<exists>u h b. k = k\<lparr>k_mmu := u, k_host := h, k_process := (k_process k)\<lparr>brk := b\<rparr>\<rparr> \<and> mbase u = mbase (k_mmu k)"
  by (intro exI [of _ "k_mmu k"] exI [of _ "k_host k"] exI [of _ "brk (k_process k)"]) simp

lemma kzero_keeps: "kzero a n k = Inr k' \<Longrightarrow> \<exists>h. k' = k\<lparr>k_host := h\<rparr>"
  by (auto simp: kzero_def)

lemma linux_brk_keeps:
  assumes "linux_brk c newbrk k = Inr (r, k')"
  shows "\<exists>u h b. k' = k\<lparr>k_mmu := u, k_host := h, k_process := (k_process k)\<lparr>brk := b\<rparr>\<rparr> \<and> mbase u = mbase (k_mmu k)"
proof -
  let ?b = "brk (k_process k)" and ?p = "ucast (roundup (ucast (brk (k_process k))) PAGE_SIZE) :: u32"
  show ?thesis
  proof (cases "newbrk \<le> ?b")
    case True
    then show ?thesis using assms kernel_self [of k] by (simp add: linux_brk_def Let_def)
  next
    case b: False
    show ?thesis
    proof (cases "newbrk \<le> ?p")
      case True
      then obtain k1 where k1: "(if newbrk \<noteq> ?p then kzero ?b (newbrk - ?b) k else Inr k) = Inr k1" "k' = set_brk newbrk k1"
        using assms b by (auto simp: linux_brk_def Let_def)
      have "\<exists>h. k1 = k\<lparr>k_host := h\<rparr>"
      proof (cases "newbrk = ?p")
        case True
        then show ?thesis using k1(1) by (intro exI [of _ "k_host k"]) simp
      qed (use k1(1) kzero_keeps in auto)
      then obtain h where "k1 = k\<lparr>k_host := h\<rparr>" ..
      then show ?thesis using k1(2) by (intro exI [of _ "k_mmu k"] exI [of _ h] exI [of _ newbrk]) (simp add: set_brk_def)
    next
      case False
      then obtain q k1 where q: "kmmap c ?p (newbrk - ?p) (PROT_READ OR PROT_WRITE) (MAP_ANON OR MAP_PRIVATE OR MAP_FIXED) (-1) 0 k = Inr (q, k1)"
          "k' = k1\<lparr>k_host := k_host k', k_process := k_process k'\<rparr>" "\<exists>b. k_process k' = (k_process k1)\<lparr>brk := b\<rparr>"
        using assms b by (auto simp: linux_brk_def Let_def set_brk_def kzero_def split: if_splits)
      obtain u h where "k1 = k\<lparr>k_mmu := u, k_host := h\<rparr>" "mbase u = mbase (k_mmu k)" using kmmap_keeps [OF q(1)] by blast
      moreover obtain b' where "k_process k' = (k_process k)\<lparr>brk := b'\<rparr>" using q(3) calculation(1) by auto
      ultimately show ?thesis using q(2) by (intro exI [of _ u] exI [of _ "k_host k'"] exI [of _ b']) simp
    qed
  qed
qed

lemma syscall_frame:
  assumes "SyscallLinux c k = Inr k'"
  shows "trapno (k_cpu k') = NONE \<and> ip (k_cpu k') = ip (k_cpu k) \<and> (\<forall>r. r \<noteq> 10 \<longrightarrow> gpr (k_cpu k') r = gpr (k_cpu k) r) \<and>
    k_tc k' = k_tc k \<and> k_prof k' = k_prof k \<and> mbase (k_mmu k') = mbase (k_mmu k) \<and>
    k_thread k' = (if gpr (k_cpu k) 17 \<in> {93, 94} then Some \<lparr>terminating = True, termination_code = gpr (k_cpu k) 10\<rparr> else k_thread k) \<and>
    (\<exists>b. k_process k' = (k_process k)\<lparr>brk := b\<rparr>) \<and> (gpr (k_cpu k) 17 \<noteq> 214 \<longrightarrow> k_process k' = k_process k) \<and>
    (gpr (k_cpu k) 17 \<notin> {214, 222} \<longrightarrow> k_mmu k' = k_mmu k)"
proof -
  define k0 where "k0 = k\<lparr>k_cpu := (k_cpu k)\<lparr>trapno := NONE\<rparr>\<rparr>"
  define a where "a = (\<lambda>i. gpr (k_cpu k0) (10 + of_nat i))"
  define no where "no = gpr (k_cpu k) 17"
  obtain rc k1 where d: "dispatch c a no k0 = Inr (rc, k1)" "k' = set_cpu_gpr 10 rc k1"
    using assms by (auto simp: SyscallLinux_def Let_def a_def k0_def no_def)
  then consider "no = SYS_set_robust_list" "k1 = k0" | "do_syscall c a (\<lambda>i. g2h (k_mmu k0) (a i)) no k0 = Some (Inr (rc, k1))"
    by (cases "do_syscall c a (\<lambda>i. g2h (k_mmu k0) (a i)) no k0") (auto simp: dispatch_def SyscallUnhandled_def split: if_splits)
  then show ?thesis
  proof cases
    case 1
    then show ?thesis using d(2) by (simp add: k0_def no_def SYS_set_robust_list_def set_cpu_gpr_def)
  next
    case 2
    from do_syscall_cases [OF 2] consider h where "no \<notin> {93, 94}" "k1 = k0\<lparr>k_host := h\<rparr>"
      | "no = 214" "linux_brk c (a 0) k0 = Inr (rc, k1)"
      | "no = 222" "linux_mmap2 c (a 0) (a 1) (a 2) (a 3) (a 4) (a 5) k0 = Inr (rc, k1)"
      | "no \<in> {93, 94}" "linux_exit (a 0) k0 = Inr (rc, k1)"
      by (auto simp: host_only_def)
    then show ?thesis
    proof cases
      case 1
      then show ?thesis using d(2) by (auto simp: k0_def no_def set_cpu_gpr_def)
    next
      case 2
      then obtain u h b where "k1 = k0\<lparr>k_mmu := u, k_host := h, k_process := (k_process k)\<lparr>brk := b\<rparr>\<rparr>" "mbase u = mbase (k_mmu k)"
        using linux_brk_keeps [OF 2(2)] by (auto simp: k0_def)
      then show ?thesis using d(2) 2 by (auto simp: k0_def no_def set_cpu_gpr_def)
    next
      case 3
      then obtain u h where "k1 = k0\<lparr>k_mmu := u, k_host := h\<rparr>" "mbase u = mbase (k_mmu k)"
        using linux_mmap2_keeps [OF 3(2)] by (auto simp: k0_def)
      then show ?thesis using d(2) 3 by (auto simp: k0_def no_def set_cpu_gpr_def)
    next
      case 4
      then show ?thesis using d(2)
        by (auto simp: linux_exit_def EnqueueTermination_def k0_def no_def a_def set_cpu_gpr_def split: option.splits if_splits)
    qed
  qed
qed

lemma syscall_result:
  assumes "SyscallLinux c k = Inr k'"
  shows "\<exists>rc k1. dispatch c (\<lambda>i. gpr (k_cpu k) (10 + of_nat i)) (gpr (k_cpu k) 17) (k\<lparr>k_cpu := (k_cpu k)\<lparr>trapno := NONE\<rparr>\<rparr>) = Inr (rc, k1) \<and>
    gpr (k_cpu k') 10 = rc \<and> k_host k' = k_host k1"
  using assms by (auto simp: SyscallLinux_def Let_def set_cpu_gpr_def)

section \<open>Pages and mappings\<close>

definition page_up :: "nat \<Rightarrow> nat" where "page_up n = (n + 4095) div 4096 * 4096"

lemma page_up: "n \<le> page_up n" "page_up n < n + 4096" "4096 dvd page_up n" "n \<le> 4096 * m \<Longrightarrow> page_up n \<le> 4096 * m"
proof -
  have d: "page_up n + (n + 4095) mod 4096 = n + 4095" unfolding page_up_def by (rule div_mult_mod_eq)
  have r: "(n + 4095) mod 4096 < 4096" by simp
  show "n \<le> page_up n" using d r by linarith
  show l: "page_up n < n + 4096" using d r by linarith
  show "4096 dvd page_up n" by (simp add: page_up_def)
  show "page_up n \<le> 4096 * m" if "n \<le> 4096 * m"
  proof -
    have "page_up n < 4096 * Suc m" using that l by simp
    then have "(n + 4095) div 4096 < Suc m" by (simp add: page_up_def)
    then show ?thesis by (simp add: page_up_def)
  qed
qed

lemma round_page:
  fixes a :: u32
  assumes "unat a \<le> 2 ^ 32 - 4096"
  shows "unat (ucast (roundup (ucast a) PAGE_SIZE) :: u32) = page_up (unat a)"
proof -
  have "page_up (unat a) \<le> 4096 * (2 ^ 20 - 1)" using assms by (intro page_up(4)) simp
  then have "unat (roundup (ucast a) PAGE_SIZE) < 2 ^ 32" unfolding unat_roundup_page page_up_def by simp
  then show ?thesis using unat_roundup_page [of a] by (simp add: unsigned_ucast_eq take_bit_nat_eq_self page_up_def)
qed

lemma g2h_diff: "g2h u a - g2h u b = ucast a - ucast b"
  by (simp add: g2h_def)

lemma unat_window_diff:
  fixes a b :: u32
  assumes "n \<le> 2 ^ 32"
  shows "unat (g2h u a - g2h u b) < n \<longleftrightarrow> unat b \<le> unat a \<and> unat a < unat b + n"
proof -
  have l: "unat a < 2 ^ 32" "unat b < 2 ^ 32" by (rule unat_u32)+
  then show ?thesis using assms unfolding g2h_diff unat_sub_if_size by (auto simp: word_size)
qed

lemma g2h_aligned: "4096 dvd unat (mbase u) \<Longrightarrow> 4096 dvd unat a \<Longrightarrow> 4096 dvd unat (g2h u a)"
  unfolding g2h_def unat_word_ariths by (simp add: dvd_mod)

lemma kmmap_any:
  assumes "flags AND MAP_FIXED \<noteq> 0" and "0 < unat va + unat len" and "unat va + unat len \<le> 2 ^ 32"
    and "os_mmap (c_os c) (g2h (k_mmu k) va) (ucast (ucast (roundup (ucast len) PAGE_SIZE) :: u32)) prot flags fd offs (k_host k) = (r, h)"
  shows "\<exists>u. kmmap c va len prot flags fd offs k = Inr (r, k\<lparr>k_mmu := u, k_host := h\<rparr>) \<and> mbase u = mbase (k_mmu k)"
proof -
  let ?len = "ucast (roundup (ucast len) PAGE_SIZE) :: u32"
  have "unat (ucast va + ucast len - 1 :: u64) < 2 ^ 32"
  proof -
    have s: "unat (ucast va + ucast len :: u64) = unat va + unat len" using assms(3) by (simp add: unat_word_ariths)
    moreover have "(ucast va + ucast len :: u64) \<noteq> 0" using s assms(2) by (metis unat_0 less_numeral_extra(3))
    ultimately show ?thesis using assms(3) by (simp add: unat_minus_one)
  qed
  then have a: "ucast va + ucast len - 1 < ASPACE_SIZE" by (simp add: ASPACE_SIZE_def word_less_nat_alt)
  obtain u where u: "MarkUsedPages (drop_bit PAGE_BITS va) (drop_bit PAGE_BITS ?len) (k_mmu k) = Inr u" "mbase u = mbase (k_mmu k)"
    using MarkUsedPages_plen by blast
  show ?thesis
  proof (cases r)
    case None
    then show ?thesis using assms(1,4) a by (intro exI [of _ "k_mmu k"]) (simp add: kmmap_def mmap_def Let_def)
  next
    case (Some p)
    then show ?thesis using assms(1,4) a u by (intro exI [of _ u]) (simp add: kmmap_def mmap_def Let_def)
  qed
qed

lemma kmmap_fixed:
  assumes "flags AND MAP_FIXED \<noteq> 0" and "0 < unat va + unat len" and "unat va + unat len \<le> 2 ^ 32" and "unat len \<le> 2 ^ 32 - 4096"
    and "os_mmap (c_os c) (g2h (k_mmu k) va) (of_nat (page_up (unat len))) prot flags fd offs (k_host k) = (r, h)"
  shows "\<exists>u. kmmap c va len prot flags fd offs k = Inr (r, k\<lparr>k_mmu := u, k_host := h\<rparr>) \<and> mbase u = mbase (k_mmu k)"
proof -
  have "ucast (ucast (roundup (ucast len) PAGE_SIZE) :: u32) = (of_nat (page_up (unat len)) :: u64)"
    using round_page [OF assms(4)] by (metis of_nat_unat unat_ucast_64)
  then show ?thesis using kmmap_any [OF assms(1-3)] assms(5) by simp
qed

text \<open>What is documented of an anonymous private mapping of whole pages at a fixed, page-aligned address: a length of 0 is
  refused and nothing happens; otherwise the call fails, when the range may be left in any state, or the range reads as zeros with the protection
  asked for. Nothing outside the range changes.\<close>

definition kept_outside :: "u64 \<Rightarrow> nat \<Rightarrow> 'o host \<Rightarrow> 'o host \<Rightarrow> bool" where
  "kept_outside a n h h' \<longleftrightarrow> (\<forall>x. n \<le> unat (x - a) \<longrightarrow> h_mem h' x = h_mem h x \<and> h_prot h' x = h_prot h x)"

definition anon_maps :: "'o host host_os \<Rightarrow> bool" where
  "anon_maps os \<longleftrightarrow> (\<forall>a len prot h r h'. 4096 dvd unat a \<longrightarrow> 4096 dvd unat len \<longrightarrow>
     os_mmap os a len prot (MAP_ANON OR MAP_PRIVATE OR MAP_FIXED) (-1) 0 h = (r, h') \<longrightarrow>
     kept_outside a (unat len) h h' \<and> (len = 0 \<longrightarrow> r = None) \<and>
     (\<forall>p. r = Some p \<longrightarrow> p = a \<and> (\<forall>x. unat (x - a) < unat len \<longrightarrow> h_mem h' x = 0 \<and> h_prot h' x = prot)))"

text \<open>What is documented of unmapping at an address that is not page-aligned: it fails and nothing happens.\<close>

definition unmap_refuses :: "'o host host_os \<Rightarrow> bool" where
  "unmap_refuses os \<longleftrightarrow> (\<forall>a len h. \<not> 4096 dvd unat a \<longrightarrow> kept_outside 0 0 h (snd (os_munmap os a len h)))"

lemma anon_mapsD:
  assumes "anon_maps os" and "4096 dvd unat a" and "4096 dvd unat len" and "os_mmap os a len prot (MAP_ANON OR MAP_PRIVATE OR MAP_FIXED) (-1) 0 h = (r, h')"
  shows "kept_outside a (unat len) h h'" and "len = 0 \<Longrightarrow> r = None"
    and "r = None \<or> r = Some a \<and> (\<forall>x. unat (x - a) < unat len \<longrightarrow> h_mem h' x = 0 \<and> h_prot h' x = prot)"
proof -
  have m: "kept_outside a (unat len) h h' \<and> (len = 0 \<longrightarrow> r = None) \<and>
     (\<forall>p. r = Some p \<longrightarrow> p = a \<and> (\<forall>x. unat (x - a) < unat len \<longrightarrow> h_mem h' x = 0 \<and> h_prot h' x = prot))"
    using assms unfolding anon_maps_def by blast
  then show "kept_outside a (unat len) h h'" "len = 0 \<Longrightarrow> r = None" by blast+
  show "r = None \<or> r = Some a \<and> (\<forall>x. unat (x - a) < unat len \<longrightarrow> h_mem h' x = 0 \<and> h_prot h' x = prot)" using m by (cases r) auto
qed

definition guest_byte :: "'o kernel \<Rightarrow> u32 \<Rightarrow> u8" where "guest_byte k a = h_mem (k_host k) (g2h (k_mmu k) a)"

lemma guest_byte_set_brk [simp]: "guest_byte (set_brk b k) = guest_byte k"
  by (simp add: set_brk_def guest_byte_def fun_eq_iff)

definition guest_writable :: "'o kernel \<Rightarrow> u32 \<Rightarrow> bool" where
  "guest_writable k a \<longleftrightarrow> h_prot (k_host k) (g2h (k_mmu k) a) AND PROT_WRITE \<noteq> 0"

lemma guest_writable_set_brk [simp]: "guest_writable (set_brk b k) = guest_writable k"
  by (simp add: set_brk_def guest_writable_def fun_eq_iff)

lemma ucast_add_small:
  fixes a :: u32
  assumes "unat a + n < 2 ^ 32"
  shows "ucast (a + of_nat n) = (ucast a + of_nat n :: u64)" and "unat (a + of_nat n) = unat a + n"
proof -
  have n: "unat (of_nat n :: u32) = n" using assms by (simp add: unsigned_of_nat take_bit_nat_eq_self)
  then show e: "unat (a + of_nat n) = unat a + n" using assms by (simp add: unat_word_ariths)
  have n': "unat (of_nat n :: u64) = n" using assms by (simp add: unsigned_of_nat take_bit_nat_eq_self)
  have "unat (ucast a + of_nat n :: u64) = unat a + n" using assms n' by (simp add: unat_word_ariths)
  then have "unat (ucast (a + of_nat n) :: u64) = unat (ucast a + of_nat n :: u64)" unfolding unat_ucast_64 e by simp
  then show "ucast (a + of_nat n) = (ucast a + of_nat n :: u64)" by (rule unsigned_word_eqI)
qed

lemma may_write_window:
  fixes a :: u32
  assumes "unat a + n \<le> 2 ^ 32"
  shows "may_write (k_host k) (g2h (k_mmu k) a) n \<longleftrightarrow> (\<forall>x. unat a \<le> unat x \<and> unat x < unat a + n \<longrightarrow> guest_writable k x)" (is "?L \<longleftrightarrow> ?R")
proof
  assume l: ?L
  show ?R
  proof (intro allI impI)
    fix x :: u32 assume x: "unat a \<le> unat x \<and> unat x < unat a + n"
    let ?i = "unat x - unat a"
    have i: "unat a + ?i < 2 ^ 32" "?i < n" using x unat_u32 [of x] by auto
    have "unat (a + of_nat ?i) = unat x" using ucast_add_small(2) [OF i(1)] x by simp
    then have "a + of_nat ?i = x" by (rule unsigned_word_eqI)
    then have "g2h (k_mmu k) x = g2h (k_mmu k) a + of_nat ?i" using ucast_add_small(1) [OF i(1)] by (simp add: g2h_def)
    then show "guest_writable k x" using l i(2) by (simp add: may_write_def guest_writable_def)
  qed
next
  assume r: ?R
  show ?L unfolding may_write_def
  proof (intro allI impI)
    fix i assume "i < n"
    then have i: "unat a + i < 2 ^ 32" "i < n" using assms by simp_all
    have "guest_writable k (a + of_nat i)" using r ucast_add_small(2) [OF i(1)] i(2) by simp
    then show "h_prot (k_host k) (g2h (k_mmu k) a + of_nat i) AND PROT_WRITE \<noteq> 0"
      using ucast_add_small(1) [OF i(1)] by (simp add: guest_writable_def g2h_def add.assoc)
  qed
qed

lemma kzero_cases:
  assumes "unat b + unat n \<le> 2 ^ 32"
  obtains (fault) x where "kzero b n k = Inl Panic" "unat b \<le> unat x" "unat x < unat b + unat n" "\<not> guest_writable k x"
  | (cleared) h where "kzero b n k = Inr (k\<lparr>k_host := h\<rparr>)" "h_prot h = h_prot (k_host k)"
      "\<forall>x. unat b \<le> unat x \<and> unat x < unat b + unat n \<longrightarrow> guest_writable k x"
      "\<forall>x. guest_byte (k\<lparr>k_host := h\<rparr>) x = (if unat b \<le> unat x \<and> unat x < unat b + unat n then 0 else guest_byte k x)"
proof (cases "\<forall>x. unat b \<le> unat x \<and> unat x < unat b + unat n \<longrightarrow> guest_writable k x")
  case True
  let ?h = "poke (g2h (k_mmu k) b) (replicate (unat n) 0) (k_host k)"
  have l: "unat n < 2 ^ 32" by (rule unat_u32)
  have "store_bytes m (g2h u b) (replicate (unat n) 0) x = (if unat (x - g2h u b) < unat n then 0 else m x)" for m u x
    using store_bytes_apply [of "replicate (unat n) 0" m "g2h u b" x] l by simp
  then have "guest_byte (k\<lparr>k_host := ?h\<rparr>) x = (if unat b \<le> unat x \<and> unat x < unat b + unat n then 0 else guest_byte k x)" for x
    using unat_window_diff [of "unat n" "k_mmu k" x b] l by (simp add: guest_byte_def poke_def)
  moreover have "kzero b n k = Inr (k\<lparr>k_host := ?h\<rparr>)" using may_write_window [OF assms, of k] True by (simp add: kzero_def hstore_def)
  ultimately show ?thesis using cleared [of ?h] True by (simp add: poke_def)
next
  case False
  then have "kzero b n k = Inl Panic" using may_write_window [OF assms, of k] by (simp add: kzero_def hstore_def dbt_sigaction_memory_def)
  then show ?thesis using False fault by blast
qed

lemma ucast_ucast_u32: "ucast (ucast (a :: u32) :: u64) = a"
  by (rule bit_word_eqI) (simp add: bit_simps)

lemma h2g_failed:
  assumes "4096 dvd unat (mbase u)" and "4096 dvd unat p"
  shows "h2g u (-1) \<noteq> p"
proof
  assume "h2g u (-1) = p"
  then have "unat p = unat (-1 - mbase u) mod 2 ^ 32" by (auto simp: h2g_def unsigned_ucast_eq take_bit_eq_mod)
  then have "4096 dvd unat (-1 - mbase u)" using assms(2) by (simp add: dvd_mod_iff)
  moreover have "unat (-1 - mbase u) + unat (mbase u) = 2 ^ 64 - 1"
    using unsigned_less [of "mbase u", where 'a = nat] unfolding unat_sub_if_size by (simp add: unsigned_minus_1_eq_mask mask_eq_exp_minus_1 word_size)
  ultimately have "4096 dvd (2 ^ 64 - 1 :: nat)" using assms(1) by (metis dvd_add)
  then show False by simp
qed

text \<open>C12. What a Linux system call may change, whatever the host does. When \<open>SyscallLinux\<close> returns, the trap is cleared, the
  result of the called handler is in \<open>a0\<close>, no other register and not the program counter has changed, and neither have the code cache,
  the profile and the place of the guest's window. Only \<open>exit\<close> and \<open>exit_group\<close> end the thread, with their argument as its code;
  only \<open>brk\<close> changes the process, and only in its break; only \<open>brk\<close> and \<open>mmap2\<close> change the pages that count as used.\<close>

theorem syscall_effects:
  assumes "SyscallLinux c k = Inr k'"
  shows "(\<exists>rc k1. dispatch c (\<lambda>i. gpr (k_cpu k) (10 + of_nat i)) (gpr (k_cpu k) 17) (k\<lparr>k_cpu := (k_cpu k)\<lparr>trapno := NONE\<rparr>\<rparr>) = Inr (rc, k1) \<and>
      gpr (k_cpu k') 10 = rc \<and> k_host k' = k_host k1) \<and>
    trapno (k_cpu k') = NONE \<and> ip (k_cpu k') = ip (k_cpu k) \<and> (\<forall>r. r \<noteq> 10 \<longrightarrow> gpr (k_cpu k') r = gpr (k_cpu k) r) \<and>
    k_tc k' = k_tc k \<and> k_prof k' = k_prof k \<and> mbase (k_mmu k') = mbase (k_mmu k) \<and>
    k_thread k' = (if gpr (k_cpu k) 17 \<in> {93, 94} then Some \<lparr>terminating = True, termination_code = gpr (k_cpu k) 10\<rparr> else k_thread k) \<and>
    (\<exists>b. k_process k' = (k_process k)\<lparr>brk := b\<rparr>) \<and> (gpr (k_cpu k) 17 \<noteq> 214 \<longrightarrow> k_process k' = k_process k) \<and>
    (gpr (k_cpu k) 17 \<notin> {214, 222} \<longrightarrow> k_mmu k' = k_mmu k)"
  using syscall_result [OF assms] syscall_frame [OF assms] by blast

lemma round_last_page:
  fixes a :: u32
  assumes "2 ^ 32 - 4096 < unat a"
  shows "ucast (roundup (ucast a) PAGE_SIZE) = (0 :: u32)"
proof (rule page_end_cases(2))
  define q where "q = unat a div 4096"
  define r where "r = unat a mod 4096"
  have e: "unat a = q * 4096 + r" "r < 4096" by (simp_all add: q_def r_def)
  have l: "unat a < 4294967296" "4294963200 < unat a" using unat_u32 [of a] assms by simp_all
  then have q: "q = 1048575" using e by linarith
  then have "r \<noteq> 0" using e(1) l(2) by (intro notI) simp
  then show "unat a mod 4096 \<noteq> 0" "unat a div 4096 = 2 ^ 20 - 1" using q by (simp_all add: q_def r_def)
qed

text \<open>The mapping \<open>brk\<close> asks for: of no length at all, when the length or the end of the break's page wraps, or of
  the pages from the end of the break's page on.\<close>

lemma brk_request:
  fixes b newbrk :: u32
  defines "p \<equiv> ucast (roundup (ucast b) PAGE_SIZE) :: u32"
  defines "n \<equiv> ucast (ucast (roundup (ucast (newbrk - p)) PAGE_SIZE) :: u32) :: u64"
  assumes "b < newbrk" and "p < newbrk"
  shows "4096 dvd unat p" and "4096 dvd unat n" and "unat n \<le> 2 ^ 32" and "n = 0 \<or> unat b \<le> unat p \<and> unat newbrk \<le> unat p + unat n"
    and "unat p + unat (newbrk - p) \<le> 2 ^ 32"
proof -
  let ?len = "newbrk - p"
  have len: "unat ?len = unat newbrk - unat p" "unat p < unat newbrk" using assms(4) by (simp_all add: unat_sub word_le_nat_alt word_less_nat_alt)
  have n: "unat n = (if unat ?len \<le> 2 ^ 32 - 4096 then page_up (unat ?len) else 0)"
    using round_page [of ?len] round_last_page [of ?len] unfolding n_def unat_ucast_64 by simp
  have p: "unat p = (if unat b \<le> 2 ^ 32 - 4096 then page_up (unat b) else 0)" using round_page [of b] round_last_page [of b] by (simp add: p_def)
  show "4096 dvd unat p" "4096 dvd unat n" using n p page_up(3) by simp_all
  show "unat n \<le> 2 ^ 32" using n page_up(4) [of "unat ?len" "2 ^ 20 - 1"] by (auto intro: order_trans)
  show "unat p + unat ?len \<le> 2 ^ 32" using len unat_u32 [of newbrk] by simp
  show "n = 0 \<or> unat b \<le> unat p \<and> unat newbrk \<le> unat p + unat n"
  proof (cases "unat b \<le> 2 ^ 32 - 4096 \<and> unat ?len \<le> 2 ^ 32 - 4096")
    case True
    then have "unat p = page_up (unat b)" "unat n = page_up (unat ?len)" using p n by simp_all
    then have "unat b \<le> unat p \<and> unat newbrk \<le> unat p + unat n" using len page_up(1) [of "unat b"] page_up(1) [of "unat ?len"] by linarith
    then show ?thesis ..
  next
    case False
    then have "unat n = 0" using p n len assms(3) by (auto simp: word_less_nat_alt)
    then show ?thesis by (simp add: unat_eq_0)
  qed
qed

text \<open>What a call of \<open>brk\<close> above the old break may do.\<close>

definition brk_moved :: "u32 \<Rightarrow> 'o kernel \<Rightarrow> (u32 \<times> 'o kernel) res \<Rightarrow> bool" where
  "brk_moved newbrk k res \<longleftrightarrow>
     (let b = brk (k_process k); p = ucast (roundup (ucast b) PAGE_SIZE) in
      res = Inl Panic \<and> (\<exists>a. b \<le> a \<and> a < p \<and> a < newbrk \<and> \<not> guest_writable k a) \<or>
      (\<exists>r k'. res = Inr (r, k') \<and> brk (k_process k') = r \<and> (\<forall>a<b. guest_byte k' a = guest_byte k a) \<and>
         (r = b \<or> r = newbrk \<and>
           (if newbrk = p then guest_byte k' = guest_byte k
            else \<forall>a<newbrk. b \<le> a \<longrightarrow> guest_byte k' a = 0 \<and> guest_writable k' a))))"

lemma brk_in_page:
  assumes "brk (k_process k) = b" and "b < newbrk" and "newbrk \<le> ucast (roundup (ucast b) PAGE_SIZE)"
  shows "brk_moved newbrk k (linux_brk c newbrk k)"
proof (cases "newbrk = ucast (roundup (ucast b) PAGE_SIZE)")
  case True
  have "linux_brk c newbrk k = Inr (newbrk, set_brk newbrk k)" using assms True by (simp add: linux_brk_def Let_def not_le [symmetric])
  then show ?thesis using assms(1) True by (simp add: brk_moved_def Let_def) (simp add: set_brk_def)
next
  case False
  let ?n = "newbrk - b"
  have n: "unat b + unat ?n = unat newbrk" using assms(2) by (simp add: unat_sub word_le_nat_alt word_less_nat_alt)
  have e: "linux_brk c newbrk k = rbind (kzero b ?n k) (\<lambda>k. Inr (newbrk, set_brk newbrk k))"
    using assms False by (simp add: linux_brk_def Let_def not_le [symmetric])
  have l: "unat b + unat ?n \<le> 2 ^ 32" using n unat_u32 [of newbrk] by simp
  from l show ?thesis
  proof (cases rule: kzero_cases [where k = k])
    case (fault x)
    then show ?thesis using e assms n False
      by (auto simp: brk_moved_def Let_def word_le_nat_alt word_less_nat_alt intro!: exI [of _ x])
  next
    case (cleared h)
    have w: "guest_writable (k\<lparr>k_host := h\<rparr>) x = guest_writable k x" for x using cleared(2) by (simp add: guest_writable_def)
    have "linux_brk c newbrk k = Inr (newbrk, set_brk newbrk (k\<lparr>k_host := h\<rparr>))" using e cleared(1) by simp
    moreover have "brk (k_process (set_brk newbrk (k\<lparr>k_host := h\<rparr>))) = newbrk" by (simp add: set_brk_def)
    ultimately show ?thesis using assms(1) n False cleared(3,4) w
      by (auto simp: brk_moved_def Let_def word_le_nat_alt word_less_nat_alt)
  qed
qed

lemma brk_new_pages:
  assumes "anon_maps (c_os c)" and "unmap_refuses (c_os c)" and "4096 dvd unat (mbase (k_mmu k))" and b: "brk (k_process k) = b" and lt: "b < newbrk"
    and p: "p = ucast (roundup (ucast b) PAGE_SIZE)" "p < newbrk"
  shows "brk_moved newbrk k (linux_brk c newbrk k)"
proof -
  let ?u = "k_mmu k" and ?flags = "MAP_ANON OR MAP_PRIVATE OR MAP_FIXED" and ?prot = "PROT_READ OR PROT_WRITE"
  define n where "n = (ucast (ucast (roundup (ucast (newbrk - p)) PAGE_SIZE) :: u32) :: u64)"
  note q = brk_request [OF lt p(2) [unfolded p(1)], folded p(1), folded n_def]
  obtain r h where m: "os_mmap (c_os c) (g2h ?u p) n ?prot ?flags (-1) 0 (k_host k) = (r, h)" by fastforce
  have "newbrk - p \<noteq> 0" using p(2) by auto
  then have ln: "0 < unat p + unat (newbrk - p)" by (simp add: unat_gt_0)
  obtain u where u: "kmmap c p (newbrk - p) ?prot ?flags (-1) 0 k = Inr (r, k\<lparr>k_mmu := u, k_host := h\<rparr>)" "mbase u = mbase ?u"
    using kmmap_any [OF _ ln q(5), of ?flags c k ?prot "-1" 0 r h] m unfolding n_def by (auto simp: MAP_ANON_def MAP_PRIVATE_def MAP_FIXED_def)
  let ?k1 = "k\<lparr>k_mmu := u, k_host := h\<rparr>"
  have g: "g2h u = g2h ?u" "h2g u (g2h ?u p) = p" using u(2) by (simp_all add: g2h_def h2g_def fun_eq_iff ucast_ucast_u32)
  note a = anon_mapsD [OF assms(1) g2h_aligned [OF assms(3) q(1)] q(2) m]
  have out: "guest_byte ?k1 x = guest_byte k x \<and> guest_writable ?k1 x = guest_writable k x" if "\<not> (unat p \<le> unat x \<and> unat x < unat p + unat n)" for x
  proof -
    have "unat n \<le> unat (g2h ?u x - g2h ?u p)" using that unat_window_diff [OF q(3), of ?u x p] by linarith
    then show ?thesis using a(1) by (simp add: kept_outside_def guest_byte_def guest_writable_def g)
  qed
  have below: "guest_byte ?k1 x = guest_byte k x" if "x < b" for x
    using q(4) that out [of x] by (auto simp: word_less_nat_alt)
  have nb: "\<not> newbrk \<le> b" "\<not> newbrk \<le> p" using lt p(2) by simp_all
  show ?thesis
  proof (cases r)
    case None
    let ?h = "snd (os_munmap (c_os c) (-1) (ucast (newbrk - p)) h)"
    have e: "linux_brk c newbrk k = Inr (b, ?k1\<lparr>k_host := ?h\<rparr>)" using None nb u h2g_failed [OF _ q(1), of u] assms(3) b
      by (simp add: linux_brk_def Let_def p(1) [symmetric] hptr_of_def)
    have "\<not> 4096 dvd unat (-1 :: u64)" by (simp add: unsigned_minus_1_eq_mask mask_eq_exp_minus_1)
    then have "h_mem ?h = h_mem h" using assms(2) by (simp add: unmap_refuses_def kept_outside_def fun_eq_iff)
    then have "guest_byte (?k1\<lparr>k_host := ?h\<rparr>) = guest_byte ?k1" by (simp add: guest_byte_def fun_eq_iff)
    then show ?thesis using e b below by (simp add: brk_moved_def Let_def)
  next
    case (Some x)
    then have s: "r = Some (g2h ?u p)" "\<forall>x. unat (x - g2h ?u p) < unat n \<longrightarrow> h_mem h x = 0 \<and> h_prot h x = ?prot" using a(3) by auto
    have bp: "unat b \<le> unat p" "unat newbrk \<le> unat p + unat n" using q(4) a(2) s(1) by auto
    have new: "guest_byte ?k1 x = 0 \<and> guest_writable ?k1 x" if "unat p \<le> unat x" "unat x < unat p + unat n" for x
      using s(2) that unat_window_diff [OF q(3), of ?u x p]
      by (simp add: guest_byte_def guest_writable_def g PROT_READ_def PROT_WRITE_def)
    have l: "unat b + unat (p - b) = unat p" using bp(1) by (simp add: unat_sub word_le_nat_alt)
    have e: "linux_brk c newbrk k = rbind (kzero b (p - b) ?k1) (\<lambda>k. Inr (newbrk, set_brk newbrk k))"
      using nb u s(1) g b by (simp add: linux_brk_def Let_def p(1) [symmetric] hptr_of_def)
    have l2: "unat b + unat (p - b) \<le> 2 ^ 32" using l unat_u32 [of p] by simp
    from l2 show ?thesis
    proof (cases rule: kzero_cases [where k = ?k1])
      case (fault x)
      then have "\<not> guest_writable k x" using out [of x] l by simp
      then show ?thesis using e fault l p b by (auto simp: brk_moved_def Let_def word_le_nat_alt word_less_nat_alt intro!: exI [of _ x])
    next
      case (cleared h')
      let ?k2 = "?k1\<lparr>k_host := h'\<rparr>"
      have w: "guest_writable ?k2 x = guest_writable ?k1 x" for x using cleared(2) by (simp add: guest_writable_def)
      have z: "guest_byte ?k2 x = 0 \<and> guest_writable ?k2 x" if "b \<le> x" "x < newbrk" for x
        using cleared(3,4) new [of x] that bp l w [of x] by (cases "unat x < unat p") (auto simp: word_le_nat_alt word_less_nat_alt)
      have lo: "guest_byte ?k2 x = guest_byte k x" if "x < b" for x
        using cleared(4) below [OF that] that by (auto simp: word_less_nat_alt)
      have "linux_brk c newbrk k = Inr (newbrk, set_brk newbrk ?k2)" using e cleared(1) by simp
      moreover have "brk (k_process (set_brk newbrk ?k2)) = newbrk" by (simp add: set_brk_def)
      ultimately show ?thesis using b z lo nb(2) p(1) by (auto simp: brk_moved_def Let_def)
    qed
  qed
qed

text \<open>C20. Growing the break. A call above the old break, wherever that is, stops the program with a memory fault only when a byte
  that it has to clear, in the rest of the old break's page, is not mapped for writing. Otherwise it returns the process's break, the old or the new one,
  and everything below the old break is as it was. When the break moves, what is gained is writable and reads as zero,
  unless the new break is exactly the end of the old break's page: then no byte changes. The host's mappings at fixed addresses are as documented, the failing
  ones included.\<close>

theorem brk_grows:
  assumes "anon_maps (c_os c)" and "unmap_refuses (c_os c)" and "4096 dvd unat (mbase (k_mmu k))" and "brk (k_process k) = b" and "b < newbrk"
  shows "linux_brk c newbrk k = Inl Panic \<and> (\<exists>a. b \<le> a \<and> a < ucast (roundup (ucast b) PAGE_SIZE) \<and> a < newbrk \<and> \<not> guest_writable k a) \<or>
    (\<exists>r k'. linux_brk c newbrk k = Inr (r, k') \<and> brk (k_process k') = r \<and> (\<forall>a<b. guest_byte k' a = guest_byte k a) \<and>
       (r = b \<or> r = newbrk \<and>
         (if newbrk = ucast (roundup (ucast b) PAGE_SIZE) then guest_byte k' = guest_byte k
          else \<forall>a<newbrk. b \<le> a \<longrightarrow> guest_byte k' a = 0 \<and> guest_writable k' a)))"
proof -
  have "brk_moved newbrk k (linux_brk c newbrk k)"
    using brk_in_page [OF assms(4,5)] brk_new_pages [OF assms(1-5) refl] by (cases "newbrk \<le> ucast (roundup (ucast b) PAGE_SIZE)") simp_all
  then show ?thesis unfolding brk_moved_def Let_def assms(4) .
qed

text \<open>In the last page of the address space the end of the page wraps to 0 and the length of the new mapping too, so that the break
  can never grow there.\<close>

lemma brk_last_page:
  assumes "anon_maps (c_os c)" and "4096 dvd unat (mbase (k_mmu k))" and b: "brk (k_process k) = b" "2 ^ 32 - 4096 < unat b" and "b < newbrk"
  shows "\<exists>k'. linux_brk c newbrk k = Inr (b, k')"
proof -
  let ?flags = "MAP_ANON OR MAP_PRIVATE OR MAP_FIXED" and ?prot = "PROT_READ OR PROT_WRITE"
  have p: "ucast (roundup (ucast b) PAGE_SIZE) = (0 :: u32)" using round_last_page [OF b(2)] .
  have "2 ^ 32 - 4096 < unat newbrk" using b(2) assms(5) by (simp add: word_less_nat_alt)
  from round_last_page [OF this] have z: "ucast (roundup (ucast newbrk) PAGE_SIZE) = (0 :: u32)" .
  have n0: "newbrk \<noteq> 0" "\<not> newbrk \<le> b" using assms(5) by auto
  obtain r h where m: "os_mmap (c_os c) (g2h (k_mmu k) 0) 0 ?prot ?flags (-1) 0 (k_host k) = (r, h)" by fastforce
  have r: "r = None" using anon_mapsD(2) [OF assms(1) g2h_aligned [OF assms(2)] _ m] by simp
  have l: "0 < unat (0 :: u32) + unat newbrk" "unat (0 :: u32) + unat newbrk \<le> 2 ^ 32" using n0(1) unat_u32 [of newbrk] by (simp_all add: unat_gt_0)
  obtain u where u: "kmmap c 0 newbrk ?prot ?flags (-1) 0 k = Inr (r, k\<lparr>k_mmu := u, k_host := h\<rparr>)" "mbase u = mbase (k_mmu k)"
    using kmmap_any [OF _ l, of ?flags c k ?prot "-1" 0 r h] m z by (auto simp: MAP_ANON_def MAP_PRIVATE_def MAP_FIXED_def)
  have "h2g u (-1) \<noteq> 0" using h2g_failed [of u 0] u(2) assms(2) by simp
  then show ?thesis using n0 p r u b(1) by (simp add: linux_brk_def Let_def hptr_of_def)
qed

section \<open>Running a process\<close>

inductive krun :: "('o kernel \<Rightarrow> 'o kernel res option) \<Rightarrow> ('o kernel \<Rightarrow> 'o kernel res) \<Rightarrow> 'o kernel \<Rightarrow> 'o kernel \<Rightarrow> bool" for exec trap where
  krun_refl: "krun exec trap k k"
| krun_step: "is_terminating k = Inr False \<Longrightarrow> exec k = Some (Inr k1) \<Longrightarrow> is_terminating k1 = Inr False \<Longrightarrow> trap k1 = Inr k2 \<Longrightarrow>
    krun exec trap k2 k3 \<Longrightarrow> krun exec trap k k3"

lemma kernel_loop_reaches:
  assumes "kernel_loop exec trap k = Some r"
  shows "\<forall>k'. r = Inr k' \<longrightarrow> krun exec trap k k' \<and> is_terminating k' = Inr True"
proof (rule kernel_loop.raw_induct [OF _ assms, where P = "\<lambda>exec trap k r. \<forall>k'. r = Inr k' \<longrightarrow> krun exec trap k k' \<and> is_terminating k' = Inr True"],
    goal_cases)
  case (1 loop exec trap k r)
  show ?case
  proof (intro allI impI)
    fix k' assume r: "r = Inr k'"
    show "krun exec trap k k' \<and> is_terminating k' = Inr True"
    proof (cases "is_terminating k = Inr True")
      case True
      then show ?thesis using 1(2) r by (auto intro: krun_refl)
    next
      case False
      then have t: "is_terminating k = Inr False" using 1(2) r by (cases "is_terminating k") auto
      obtain x where x: "exec k = Some x" using 1(2) t by (cases "exec k") auto
      let ?b = "rbind x (\<lambda>k. rbind (is_terminating k) (\<lambda>t. if t then Inl AssertFailed else trap k))"
      obtain k2 where k2: "?b = Inr k2" "loop exec trap k2 = Some r" using 1(2) r t x by (cases ?b) auto
      then obtain k1 where k1: "x = Inr k1" "is_terminating k1 = Inr False" "trap k1 = Inr k2" by (auto split: if_splits)
      show ?thesis using 1(1) [OF k2(2)] r krun_step [of k exec k1 trap k2 k'] t x k1 by simp
    qed
  qed
qed

lemma kernel_loop_krun: "krun exec trap k k' \<Longrightarrow> is_terminating k' = Inr True \<Longrightarrow> kernel_loop exec trap k = Some (Inr k')"
  by (induction rule: krun.induct) (simp_all add: kernel_loop.simps)

lemma krun_trans: "krun exec trap k k1 \<Longrightarrow> krun exec trap k1 k2 \<Longrightarrow> krun exec trap k k2"
  by (induction rule: krun.induct) (auto intro: krun_step)

text \<open>The last round of a run that has ended.\<close>

lemma krun_last:
  assumes "krun exec trap k k'" and "is_terminating k = Inr False" and "is_terminating k' = Inr True"
  shows "\<exists>k1 k2. krun exec trap k k1 \<and> is_terminating k1 = Inr False \<and> exec k1 = Some (Inr k2) \<and> is_terminating k2 = Inr False \<and> trap k2 = Inr k'"
  using assms
proof (induction rule: krun.induct)
  case (krun_step k k1 k2 k3)
  show ?case
  proof (cases "is_terminating k2 = Inr False")
    case True
    then show ?thesis using krun_step.IH krun_step.prems krun_step.hyps by (metis krun.krun_step)
  next
    case False
    have "k2 = k3" using krun_step.hyps(5) False by (cases rule: krun.cases) simp_all
    then show ?thesis using krun_step.hyps by (auto intro: krun_refl)
  qed
qed simp

text \<open>A guest ends by \<open>exit\<close>, \<open>exit_group\<close> or an illegal instruction.\<close>

definition exits :: "'o kernel \<Rightarrow> u32 \<Rightarrow> bool" where
  "exits k rc \<longleftrightarrow> trapno (k_cpu k) = ECALL \<and> gpr (k_cpu k) 17 \<in> {93, 94} \<and> rc = gpr (k_cpu k) 10 \<or> trapno (k_cpu k) = ILLEGAL_INSN \<and> rc = 1"

lemma trap_ends:
  assumes "handle_trap True c k = Inr k'" and "is_terminating k = Inr False"
  shows "main_thread (k_process k') = main_thread (k_process k) \<and>
    (is_terminating k' = Inr True \<longleftrightarrow> (\<exists>rc. exits k rc)) \<and> (\<forall>rc ut. exits k rc \<longrightarrow> k_thread k' = Some ut \<longrightarrow> termination_code ut = rc)"
proof (cases "trapno (k_cpu k)")
  case ECALL
  then have "SyscallLinux c (skip_insn k) = Inr k'" using assms(1) by (simp add: handle_trap_def Syscall_def)
  from syscall_frame [OF this] show ?thesis using assms(2) ECALL
    by (auto simp: exits_def is_terminating_def skip_insn_def split: if_splits option.splits)
qed (use assms in \<open>auto simp: handle_trap_def exits_def is_terminating_def skip_insn_def EnqueueTermination_def split: option.splits if_splits\<close>)

lemma exits_unique: "exits k rc \<Longrightarrow> exits k rc' \<Longrightarrow> rc = rc'"
  by (auto simp: exits_def)

lemma exit_trap:
  assumes "exits k rc" and "k_thread k = Some ut" and "main_thread (k_process k)"
  shows "\<exists>k'. handle_trap True c k = Inr k' \<and> k_thread k' = Some \<lparr>terminating = True, termination_code = rc\<rparr>"
proof -
  have "dispatch c a no k = linux_exit (a 0) k" if "no \<in> {93, 94}" for a no k
    using that by (auto simp: dispatch_def do_syscall_def syscall_nos linux_exit_group_def)
  then show ?thesis using assms
    by (auto simp: exits_def handle_trap_def Syscall_def SyscallLinux_def linux_exit_def EnqueueTermination_def skip_insn_def set_cpu_gpr_def)
qed

lemma dbt_Execute_keeps: "dbt_Execute cfg be run k = Some (Inr k') \<Longrightarrow> k_process k' = k_process k \<and> k_thread k' = k_thread k"
  by (auto simp: dbt_Execute_def with_rt_def)

lemma krun_main:
  "krun (dbt_Execute cfg be run) (handle_trap True c) k k' \<Longrightarrow> main_thread (k_process k') = main_thread (k_process k)"
proof (induction rule: krun.induct)
  case (krun_step k k1 k2 k3)
  then show ?case using dbt_Execute_keeps [OF krun_step.hyps(2)] trap_ends [OF krun_step.hyps(4,3)] by simp
qed simp

text \<open>C29. How a guest process ends. \<open>MainThreadExecute\<close> returns a code exactly when the guest, run by the execution loop from trap
  to trap with every other system call and breakpoint handled, comes to an \<open>exit\<close> or \<open>exit_group\<close> with this argument, or to an illegal
  instruction, which counts as code 1.\<close>

theorem process_exit_code:
  assumes "main_thread (k_process k)" and "is_terminating k = Inr False"
  shows "(\<exists>k'. MainThreadExecute cfg be run True c k = Some (Inr (rc, k'))) \<longleftrightarrow>
    (\<exists>k1 k2. krun (dbt_Execute cfg be run) (handle_trap True c) k k1 \<and> is_terminating k1 = Inr False \<and>
       dbt_Execute cfg be run k1 = Some (Inr k2) \<and> exits k2 rc)" (is "?L \<longleftrightarrow> ?R")
proof
  assume ?L
  then obtain k' ut where k': "kernel_loop (dbt_Execute cfg be run) (handle_trap True c) k = Some (Inr k')"
      "k_thread k' = Some ut" "rc = termination_code ut"
    using assms(1) by (auto simp: MainThreadExecute_def ukernel_Execute_def split: option.splits if_splits)
  have r: "krun (dbt_Execute cfg be run) (handle_trap True c) k k'" "is_terminating k' = Inr True" using kernel_loop_reaches [OF k'(1)] by simp_all
  from krun_last [OF r(1) assms(2) r(2)] trap_ends k'(2,3) r(2) exits_unique show ?R by metis
next
  assume ?R
  then obtain k1 k2 where k: "krun (dbt_Execute cfg be run) (handle_trap True c) k k1" "is_terminating k1 = Inr False"
      "dbt_Execute cfg be run k1 = Some (Inr k2)" "exits k2 rc" by blast
  note e = dbt_Execute_keeps [OF k(3)]
  obtain ut where ut: "k_thread k2 = Some ut" using k(2) e by (auto simp: is_terminating_def split: option.splits)
  then obtain k3 where k3: "handle_trap True c k2 = Inr k3" "k_thread k3 = Some \<lparr>terminating = True, termination_code = rc\<rparr>"
    using exit_trap [OF k(4) ut] e krun_main [OF k(1)] assms(1) by auto
  have t: "is_terminating k2 = Inr False" "is_terminating k3 = Inr True" using k(2) e k3(2) by (simp_all add: is_terminating_def)
  have "krun (dbt_Execute cfg be run) (handle_trap True c) k k3"
    using krun_trans [OF k(1) krun_step [of k1 _ k2 _ k3 k3]] k(2,3) t(1) k3(1) by (simp add: krun_refl)
  from kernel_loop_krun [OF this t(2)] show ?L using assms(1) k3(2) by (simp add: MainThreadExecute_def ukernel_Execute_def)
qed

section \<open>Paths\<close>

lemma buf_str_append: "0 \<notin> set s \<Longrightarrow> buf_str (s @ 0 # t) = Inr s"
  by (induction s) (auto simp: buf_str_def)

lemma starts_with_nul: "0 \<notin> set root \<Longrightarrow> starts_with root (s @ 0 # t) \<longleftrightarrow> starts_with root s"
proof (induction root arbitrary: s)
  case (Cons x root)
  then show ?case by (cases s) (auto simp: starts_with_def)
qed (simp add: starts_with_def)

lemma starts_with_append [simp]: "starts_with root (root @ s)"
  by (simp add: starts_with_def)

lemma starts_with_length: "starts_with root s \<Longrightarrow> length root \<le> length s"
  unfolding starts_with_def by (metis length_take min.cobounded1)

text \<open>The rest of a resolution once the array holds a string and the bytes behind it.\<close>

definition resolve_string :: "'o calls \<Rightarrow> Process \<Rightarrow> u8 list \<Rightarrow> u8 list \<Rightarrow> 'o host \<Rightarrow> (u8 list option \<times> 'o host) res" where
  "resolve_string c p path s h =
     (if \<not> starts_with (fsroot p) s then Inl Panic
      else if drop (length (fsroot p) + 1) s = ascii ''/proc/self/exe'' then Inr (Some (fd_path (exe_fd p)), h)
      else case c_realpath c s h of
             (None, h) \<Rightarrow> Inr (None, h)
           | (Some r, h) \<Rightarrow>
               if \<not> starts_with (fsroot p) r then Inl Panic
               else Inr (Some (if path \<noteq> [] \<and> hd path = 47 then r else path), h))"

lemma PathResolution_string:
  assumes "path_start c p dirfd path h = Inr (Some (s @ 0 # t), h')" and "0 \<notin> set s" and "0 \<notin> set (fsroot p)"
    and "length (fsroot p) < length s" and "length path < PATH_MAX"
  shows "PathResolution c p dirfd path h = resolve_string c p path s h'"
proof -
  have d: "buf_str (drop (length (fsroot p) + 1) (s @ 0 # t)) = Inr (drop (length (fsroot p) + 1) s)"
  proof -
    have "drop (length (fsroot p) + 1) (s @ 0 # t) = drop (length (fsroot p) + 1) s @ 0 # t" using assms(4) by simp
    then show ?thesis using assms(2) buf_str_append by (metis in_set_dropD)
  qed
  show ?thesis using assms(1,2,5) d starts_with_nul [OF assms(3), of s t]
    by (auto simp: PathResolution_def resolve_string_def buf_str_append HandleSpecialPath_def split: option.split prod.split)
qed

lemma path_start_absolute:
  assumes "path \<noteq> []" and "hd path = 47" and "length (fsroot p) + 1 + length path < PATH_MAX"
  shows "\<exists>t. path_start c p dirfd path h = Inr (Some ((fsroot p @ [47] @ path) @ 0 # t), h)"
  using assms by (auto simp: path_start_def buf_put_def)

lemma path_start_relative:
  assumes "path = [] \<or> hd path \<noteq> 47" and "c_getcwd c PATH_MAX h = (Some d, h')" and "0 \<notin> set d" and "length d + length path < PATH_MAX"
    and "length (c_stack c h) = PATH_MAX"
  shows "\<exists>t. path_start c p AT_FDCWD path h = Inr (Some ((d @ path) @ 0 # t), h')"
proof -
  let ?n = "PATH_MAX - length d"
  have b: "buf_str (buf_put 0 (d @ [0]) (c_stack c h)) = Inr d" using buf_str_append [OF assms(3)] by (simp add: buf_put_def)
  have t: "take ?n (path @ replicate ?n 0) = path @ 0 # replicate (?n - length path - 1) 0"
  proof -
    have "replicate (?n - length path) 0 = (0 :: u8) # replicate (?n - length path - 1) 0" using assms(4) by (cases "?n - length path") auto
    then show ?thesis using assms(4) by simp
  qed
  have "buf_put (length d) (take ?n (path @ replicate ?n 0)) (buf_put 0 (d @ [0]) (c_stack c h)) =
      (d @ path) @ 0 # replicate (?n - length path - 1) 0 @ drop PATH_MAX (d @ 0 # drop (Suc (length d)) (c_stack c h))"
    using assms(4) unfolding t by (simp add: buf_put_def)
  then show ?thesis using assms(1,2) b by (auto simp: path_start_def path_prefix_def Let_def)
qed

text \<open>C31. Path resolution. With room in the buffer, an absolute path is looked up as the file system root, a slash and the path;
  a relative one as the current directory directly followed by the path, with no slash between them. The
  string must begin with the root, the executable's own link is answered with its descriptor, and a path the host resolves
  outside the root stops the program: what comes back lies below the root, or is the relative path itself
  after that check.\<close>

theorem path_resolution_spec:
  assumes "0 \<notin> set (fsroot p)" and "0 \<notin> set path" and "length (c_stack c h) = PATH_MAX"
    and "length (fsroot p) < length s" and "length s < PATH_MAX"
    and "if path \<noteq> [] \<and> hd path = 47 then s = fsroot p @ [47] @ path \<and> h' = h
         else \<exists>d. c_getcwd c PATH_MAX h = (Some d, h') \<and> 0 \<notin> set d \<and> s = d @ path"
  shows "PathResolution c p AT_FDCWD path h = resolve_string c p path s h' \<and>
    (\<forall>r h''. PathResolution c p AT_FDCWD path h = Inr (Some r, h'') \<longrightarrow>
       r = fd_path (exe_fd p) \<or> starts_with (fsroot p) r \<or> r = path \<and> (path = [] \<or> hd path \<noteq> 47))"
proof -
  have l: "length path < PATH_MAX" "0 \<notin> set s" using assms(1,2,5,6) by (auto split: if_splits)
  have "\<exists>t. path_start c p AT_FDCWD path h = Inr (Some (s @ 0 # t), h')"
  proof (cases "path \<noteq> [] \<and> hd path = 47")
    case True
    then show ?thesis using path_start_absolute [of path p c AT_FDCWD h] assms(5,6) by simp
  next
    case False
    then obtain d where "c_getcwd c PATH_MAX h = (Some d, h')" "0 \<notin> set d" "s = d @ path" using assms(6) by (metis (no_types, lifting))
    then show ?thesis using path_start_relative [of path c h d h' p] False assms(3,5) by auto
  qed
  then have e: "PathResolution c p AT_FDCWD path h = resolve_string c p path s h'" using PathResolution_string l assms(1,4) by blast
  moreover have "r = fd_path (exe_fd p) \<or> starts_with (fsroot p) r \<or> r = path \<and> (path = [] \<or> hd path \<noteq> 47)"
    if "resolve_string c p path s h' = Inr (Some r, h'')" for r h''
    using that by (auto simp: resolve_string_def split: if_splits option.splits prod.splits)
  ultimately show ?thesis by simp
qed

text \<open>C27. Every system call the kernel does not implement stops the program with a message: there is no \<open>-ENOSYS\<close> for the
  guest, except for \<open>set_robust_list\<close>, which is answered with it and changes nothing else.\<close>

theorem syscall_unhandled:
  assumes "gpr (k_cpu k) 17 \<notin> {56, 57, 62, 63, 64, 78, 80, 93, 94, 96, 134, 160, 174, 175, 176, 177, 179, 214, 215, 222, 226, 261, 278, 291, 403}"
  shows "SyscallLinux c k =
    (if gpr (k_cpu k) 17 = 99 then Inr (set_cpu_gpr 10 (-38) (k\<lparr>k_cpu := (k_cpu k)\<lparr>trapno := NONE\<rparr>\<rparr>)) else Inl Panic)"
proof -
  have "do_syscall c a q (gpr (k_cpu k) 17) k' = None" for a q k'
    using assms by (simp add: do_syscall_def syscall_nos)
  then show ?thesis by (simp add: SyscallLinux_def dispatch_def SyscallUnhandled_def SYS_set_robust_list_def ENOSYS_def Let_def)
qed

section \<open>An example host\<close>

definition example_calls :: "unit calls" where
  "example_calls = \<lparr>
     c_os = \<lparr>os_mmap = \<lambda>a len prot _ _ _ h.
                (if len = 0 then None else Some a,
                 h\<lparr>h_mem := \<lambda>x. if unat (x - a) < unat len then 0 else h_mem h x, h_prot := \<lambda>x. if unat (x - a) < unat len then prot else h_prot h x\<rparr>),
             os_munmap = \<lambda>_ _ h. (True, h)\<rparr>,
     c_stack = \<lambda>_. replicate PATH_MAX 1,
     c_openat = \<lambda>_ _ _ _ h. (3, h), c_close = \<lambda>_ h. (0, h), c_lseek = \<lambda>_ _ _ h. (0, h), c_read = \<lambda>_ _ _ h. (0, h), c_write = \<lambda>_ _ n h. (n, h),
     c_readlinkat = \<lambda>_ _ _ _ h. (-1, h\<lparr>h_errno := 2\<rparr>), c_fstatat = \<lambda>_ _ _ _ h. (-1, h\<lparr>h_errno := 2\<rparr>),
     c_set_tid_address = \<lambda>h. (1, 0, h), c_uname = \<lambda>_ h. (0, h), c_getuid = \<lambda>_. 1000, c_geteuid = \<lambda>_. 1000, c_getgid = \<lambda>_. 1000, c_getegid = \<lambda>_. 1000,
     c_sysinfo = \<lambda>h. (0, \<lparr>hs_uptime = 1, hs_loads = [0, 0, 0], hs_procs = 1\<rparr>, h), c_mprotect = \<lambda>_ _ _ h. (0, h),
     c_prlimit64 = \<lambda>_ _ _ h. (0, (0, 0), h), c_getrandom = \<lambda>_ n _ h. (n, h), c_statx = \<lambda>_ _ _ _ _ h. (-1, h\<lparr>h_errno := 2\<rparr>),
     c_clock_gettime = \<lambda>_ h. (0, (1, 0), h), c_getcwd = \<lambda>_ h. (Some (ascii ''/r''), h), c_readlink = \<lambda>_ _ h. (None, h\<lparr>h_errno := 2\<rparr>),
     c_realpath = \<lambda>s h. (Some s, h), c_open = \<lambda>_ _ h. (3, h), c_chdir_dirname = \<lambda>_ h. h, c_pread = \<lambda>_ _ _ h. (0, [], h),
     c_clktck = \<lambda>_. 100, c_readnum = \<lambda>h. (7, h), c_writenum = \<lambda>_ h. h\<rparr>"

definition example_process :: Process where
  "example_process = \<lparr>
     elf_image = \<lparr>ehdr = \<lparr>e_ident = [], e_type = 2, e_machine = 243, e_entry = 0x10000, e_phoff = 52, e_phnum = 1\<rparr>,
                  load_addr = 0x10000, stack_start = 0x80000000, elf_entry = 0x10000, elf_brk = 0x20010\<rparr>,
     main_thread = True, fsroot = ascii ''/r/'', exe_fd = 3, brk = 0x20010\<rparr>"

text \<open>A process at an \<open>ecall\<close> with number \<open>no\<close> and first argument \<open>a\<close>.\<close>

definition example_kernel :: "u32 \<Rightarrow> u32 \<Rightarrow> unit kernel" where
  "example_kernel no a = \<lparr>
     k_cpu = \<lparr>gpr = (\<lambda>_. 0)(17 := no, 10 := a), ip = 0x10000, trapno = ECALL\<rparr>, k_unwind = 0, k_tc = example_cache,
     k_host = \<lparr>h_mem = \<lambda>_. 0x55, h_prot = \<lambda>_. 3, h_errno = 0, h_os = ()\<rparr>, k_mmu = example_mmu, k_prof = None, k_process = example_process,
     k_thread = Some \<lparr>terminating = False, termination_code = 0\<rparr>\<rparr>"

lemma example_anon: "anon_maps (c_os example_calls)" "unmap_refuses (c_os example_calls)"
  by (auto simp: anon_maps_def unmap_refuses_def kept_outside_def example_calls_def)

section \<open>Witnesses\<close>

theorem syscall_effects_witness:
  "\<exists>k'. SyscallLinux example_calls (example_kernel 93 5) = Inr k' \<and> k_thread k' = Some \<lparr>terminating = True, termination_code = 5\<rparr> \<and>
     ip (k_cpu k') = 0x10000 \<and> gpr (k_cpu k') 17 = 93 \<and> gpr (k_cpu k') 10 = 0"
proof -
  obtain k' where k': "SyscallLinux example_calls (example_kernel 93 5) = Inr k'"
    by (simp add: SyscallLinux_def dispatch_def do_syscall_def syscall_nos linux_exit_def EnqueueTermination_def example_kernel_def example_process_def)
  have d: "dispatch c a 93 k = Inr (rc, k1) \<Longrightarrow> rc = 0" for c a rc and k k1 :: "unit kernel"
    by (auto simp: dispatch_def do_syscall_def syscall_nos linux_exit_def)
  from syscall_effects [OF k'] show ?thesis using k' d by (auto simp: example_kernel_def)
qed

theorem brk_grows_witness:
  "\<exists>r k'. linux_brk example_calls 0x23000 (example_kernel 214 0x23000) = Inr (r, k') \<and> brk (k_process k') = r \<and> guest_byte k' 0x2000f = 0x55 \<and>
     (r = 0x20010 \<or> r = 0x23000 \<and> guest_byte k' 0x22fff = 0 \<and> guest_writable k' 0x22fff)"
proof -
  let ?k = "example_kernel 214 0x23000"
  have b: "brk (k_process ?k) = 0x20010" "guest_byte ?k 0x2000f = 0x55" by (simp_all add: example_kernel_def example_process_def guest_byte_def)
  have w: "guest_writable ?k a" for a by (simp add: guest_writable_def example_kernel_def PROT_WRITE_def)
  have m: "4096 dvd unat (mbase (k_mmu ?k))" by (simp add: example_kernel_def example_mmu_def)
  have p: "ucast (roundup (ucast (0x20010 :: u32)) PAGE_SIZE) = (0x21000 :: u32)" by (simp add: roundup_def PAGE_SIZE_def)
  from brk_grows [OF example_anon m b(1), of "0x23000"] w b(2) show ?thesis unfolding p by force
qed

theorem syscall_unhandled_witness: "SyscallLinux example_calls (example_kernel 23 0) = Inl Panic"
  by (subst syscall_unhandled) (simp_all add: example_kernel_def)

theorem process_exit_code_witness:
  "\<exists>k'. MainThreadExecute example_cfg example_backend example_run True example_calls (example_kernel 93 5) = Some (Inr (5, k'))"
proof (subst process_exit_code)
  let ?k = "example_kernel 93 5"
  show "main_thread (k_process ?k)" "is_terminating ?k = Inr False" by (simp_all add: example_kernel_def example_process_def is_terminating_def)
  have "dbt_Execute example_cfg example_backend example_run ?k = Some (Inr (with_rt (kernel_rt ?k) ?k))"
    by (simp add: dbt_Execute_def Execute_def execute_loop.simps HandleTrap_def IsTrapPending_def kernel_rt_def example_kernel_def)
  moreover have "exits (with_rt (kernel_rt ?k) ?k) 5" by (simp add: exits_def with_rt_def kernel_rt_def example_kernel_def)
  ultimately show "\<exists>k1 k2. krun (dbt_Execute example_cfg example_backend example_run) (handle_trap True example_calls) ?k k1 \<and>
      is_terminating k1 = Inr False \<and> dbt_Execute example_cfg example_backend example_run k1 = Some (Inr k2) \<and> exits k2 5"
    using krun_refl by (metis \<open>is_terminating ?k = Inr False\<close>)
qed

theorem path_resolution_spec_witness:
  "PathResolution example_calls example_process AT_FDCWD (ascii ''/a'') \<lparr>h_mem = \<lambda>_. 0, h_prot = \<lambda>_. 3, h_errno = 0, h_os = ()\<rparr> =
     Inr (Some (ascii ''/r///a''), \<lparr>h_mem = \<lambda>_. 0, h_prot = \<lambda>_. 3, h_errno = 0, h_os = ()\<rparr>)"
  using path_resolution_spec [of example_process "ascii ''/a''" example_calls "\<lparr>h_mem = \<lambda>_. 0, h_prot = \<lambda>_. 3, h_errno = 0, h_os = ()\<rparr>" "ascii ''/r///a''"
      "\<lparr>h_mem = \<lambda>_. 0, h_prot = \<lambda>_. 3, h_errno = 0, h_os = ()\<rparr>"]
  by (simp add: example_calls_def example_process_def ascii_def resolve_string_def starts_with_def PATH_MAX_def)

end
