(* ===== verification/ElfLoad.thy ===== *)
theory ElfLoad
  imports UKernel_Correct
begin

text \<open>
  Starting a process, from \<^verbatim>\<open>src/dbt/ukernel.cpp\<close>: the ELF loader, the initial stack with arguments, environment
  and auxiliary vector, and the boot of the main thread. The stores of the initial stack go to the mapping made just before and are not
  checked against its protection; the loader's \<^verbatim>\<open>memset\<close> is.
\<close>

section \<open>Headers\<close>

record Elf32_Phdr =
  p_type :: u32
  p_offset :: u32
  p_vaddr :: u32
  p_filesz :: u32
  p_memsz :: u32
  p_flags :: u32

definition u16_at :: "nat \<Rightarrow> u8 list \<Rightarrow> u16" where "u16_at i bs = from_le (take 2 (drop i bs))"
definition u32_at :: "nat \<Rightarrow> u8 list \<Rightarrow> u32" where "u32_at i bs = from_le (take 4 (drop i bs))"

definition sizeof_Ehdr :: nat where "sizeof_Ehdr = 52"
definition sizeof_Phdr :: nat where "sizeof_Phdr = 32"

definition read_ehdr :: "u8 list \<Rightarrow> Elf32_Ehdr" where
  "read_ehdr bs = \<lparr>e_ident = take 16 bs, e_type = u16_at 16 bs, e_machine = u16_at 18 bs, e_entry = u32_at 24 bs,
     e_phoff = u32_at 28 bs, e_phnum = u16_at 44 bs\<rparr>"

definition read_phdr :: "u8 list \<Rightarrow> Elf32_Phdr" where
  "read_phdr bs = \<lparr>p_type = u32_at 0 bs, p_offset = u32_at 4 bs, p_vaddr = u32_at 8 bs, p_filesz = u32_at 16 bs,
     p_memsz = u32_at 20 bs, p_flags = u32_at 24 bs\<rparr>"

definition PT_LOAD :: u32 where "PT_LOAD = 1"
definition PF_X :: u32 where "PF_X = 1"
definition PF_W :: u32 where "PF_W = 2"
definition PF_R :: u32 where "PF_R = 4"
definition EM_RISCV :: u16 where "EM_RISCV = 243"
definition ET_EXEC :: u16 where "ET_EXEC = 2"

section \<open>The loader\<close>

text \<open>\<open>roundup\<close> with both arguments of 32 bits, which wraps there.\<close>

definition roundup32 :: "u32 \<Rightarrow> u32 \<Rightarrow> u32" where "roundup32 x y = (x + (y - 1)) div y * y"

definition PAGE32 :: u32 where "PAGE32 = ucast PAGE_SIZE"

definition seg_prot :: "Elf32_Phdr \<Rightarrow> u32" where
  "seg_prot ph =
     (if p_flags ph AND PF_R \<noteq> 0 then PROT_READ else 0) OR
     (if p_flags ph AND PF_W \<noteq> 0 then PROT_WRITE else 0) OR
     (if p_flags ph AND PF_X \<noteq> 0 then PROT_EXEC else 0)"

definition vaddr_ps :: "Elf32_Phdr \<Rightarrow> u32" where "vaddr_ps ph = ucast (rounddown (ucast (p_vaddr ph)) PAGE_SIZE)"

definition vaddr_po :: "Elf32_Phdr \<Rightarrow> u32" where "vaddr_po ph = p_vaddr ph - vaddr_ps ph"

definition load_bss :: "'o calls \<Rightarrow> Elf32_Phdr \<Rightarrow> 'o kernel \<Rightarrow> 'o kernel res" where
  "load_bss c ph k =
     (let bss_start = p_vaddr ph + p_filesz ph;
          bss_end = vaddr_ps ph + p_memsz ph;
          bss_start_nextp = roundup32 bss_start PAGE32;
          bss_len = roundup32 (bss_end - bss_start) PAGE32
      in rbind (kmmap c bss_start_nextp bss_len (seg_prot ph) (MAP_FIXED OR MAP_PRIVATE OR MAP_ANON) (-1) 0 k) (\<lambda>(_, k).
           let prev_sz = bss_start_nextp - bss_start in
           if prev_sz \<noteq> 0 then kzero bss_start prev_sz k else Inr k))"

definition map_segment :: "'o calls \<Rightarrow> u32 \<Rightarrow> Elf32_Phdr \<Rightarrow> 'o kernel \<Rightarrow> 'o kernel res" where
  "map_segment c fd ph k =
     (if p_filesz ph \<noteq> 0
      then rbind (kmmap c (vaddr_ps ph) (ucast (roundup (ucast (p_filesz ph + vaddr_po ph)) PAGE_SIZE)) (seg_prot ph)
                    (MAP_FIXED OR MAP_PRIVATE) fd (ucast (p_offset ph - vaddr_po ph)) k) (\<lambda>(_, k).
             if p_filesz ph < p_memsz ph then load_bss c ph k else Inr k)
      else if p_memsz ph \<noteq> 0
      then rbind (kmmap c (vaddr_ps ph) (roundup32 (p_memsz ph + vaddr_po ph) PAGE32) (seg_prot ph)
                    (MAP_FIXED OR MAP_PRIVATE OR MAP_ANON) (-1) 0 k) (\<lambda>(_, k). Inr k)
      else Inr k)"

definition load_segment :: "'o calls \<Rightarrow> u32 \<Rightarrow> Elf32_Phdr \<Rightarrow> ElfImage \<times> 'o kernel \<Rightarrow> (ElfImage \<times> 'o kernel) res" where
  "load_segment c fd ph st =
     (let (elf, k) = st in
      if p_type ph \<noteq> PT_LOAD then Inr (elf, k)
      else rbind (map_segment c fd ph k) (\<lambda>k.
             Inr (elf\<lparr>load_addr := min (load_addr elf) (p_vaddr ph - p_offset ph),
                      elf_brk := max (elf_brk elf) (p_vaddr ph + p_memsz ph)\<rparr>, k)))"

primrec load_segments :: "'o calls \<Rightarrow> u32 \<Rightarrow> Elf32_Phdr list \<Rightarrow> ElfImage \<times> 'o kernel \<Rightarrow> (ElfImage \<times> 'o kernel) res" where
  "load_segments c fd [] st = Inr st"
| "load_segments c fd (ph # phs) st = rbind (load_segment c fd ph st) (load_segments c fd phs)"

definition phdrs_of :: "nat \<Rightarrow> u8 list \<Rightarrow> Elf32_Phdr list" where
  "phdrs_of n phtab = map (\<lambda>i. read_phdr (take sizeof_Phdr (drop (sizeof_Phdr * i) phtab))) [0..<n]"

definition LoadElf :: "'o calls \<Rightarrow> u32 \<Rightarrow> ElfImage \<Rightarrow> 'o kernel \<Rightarrow> (ElfImage \<times> 'o kernel) res" where
  "LoadElf c fd elf k =
     (case c_pread c fd sizeof_Ehdr 0 (k_host k) of (rc, hdr, h) \<Rightarrow>
        let eh = read_ehdr hdr; n = unat (e_phnum eh); phtab_sz = sizeof_Phdr * n in
        if rc \<noteq> of_nat sizeof_Ehdr then Inl Panic
        else if take 4 (e_ident eh) \<noteq> 0x7f # ascii ''ELF'' then Inl Panic
        else if e_machine eh \<noteq> EM_RISCV then Inl Panic
        else if e_type eh \<noteq> ET_EXEC then Inl Panic
        else (case c_pread c fd phtab_sz (ucast (e_phoff eh)) h of (rc, phtab, h) \<Rightarrow>
                if rc \<noteq> of_nat phtab_sz then Inl Panic
                else load_segments c fd (phdrs_of n phtab)
                       (elf\<lparr>ehdr := eh, load_addr := -1, elf_brk := 0, elf_entry := e_entry eh\<rparr>, k\<lparr>k_host := h\<rparr>)))"

section \<open>The initial stack\<close>

definition kpoke :: "u32 \<Rightarrow> u8 list \<Rightarrow> 'o kernel \<Rightarrow> 'o kernel" where
  "kpoke a bs k = k\<lparr>k_host := poke (g2h (k_mmu k) a) bs (k_host k)\<rparr>"

definition AllocAVectorStr :: "u8 list \<Rightarrow> u32 \<times> 'o kernel \<Rightarrow> u32 \<times> 'o kernel" where
  "AllocAVectorStr bs st =
     (let (stk, k) = st; sz = of_nat (length bs) :: u16; stk = stk - ucast sz in (stk, kpoke stk (take (unat sz) bs) k))"

text \<open>The loop over the arguments; it collects the addresses of the strings.\<close>

primrec push_strings :: "u8 list list \<Rightarrow> u32 \<times> 'o kernel \<Rightarrow> u32 list \<times> u32 \<times> 'o kernel" where
  "push_strings [] st = ([], st)"
| "push_strings (s # ss) st =
     (let st = AllocAVectorStr (s @ [0]) st; (ps, st') = push_strings ss st in (fst st # ps, st'))"

definition push_avval :: "u32 \<Rightarrow> u32 \<times> 'o kernel \<Rightarrow> u32 \<times> 'o kernel" where
  "push_avval v st = (let (vec, k) = st in (vec + 4, kpoke vec (to_le 4 v) k))"

definition push_auxv :: "u16 \<times> u32 \<Rightarrow> u32 \<times> 'o kernel \<Rightarrow> u32 \<times> 'o kernel" where
  "push_auxv e st = push_avval (snd e) (push_avval (ucast (fst e)) st)"

definition auxv_salt :: "u8 list" where "auxv_salt = [0, 1, 2, 3, 4, 5, 6] @ replicate 9 0"

text \<open>The entries in the order they are pushed: \<^verbatim>\<open>AT_PHDR\<close>, \<^verbatim>\<open>AT_PHENT\<close>, \<^verbatim>\<open>AT_PHNUM\<close>, \<^verbatim>\<open>AT_PAGESZ\<close>, \<^verbatim>\<open>AT_BASE\<close>, \<^verbatim>\<open>AT_FLAGS\<close>, \<^verbatim>\<open>AT_ENTRY\<close>,
  \<^verbatim>\<open>AT_UID\<close>, \<^verbatim>\<open>AT_GID\<close>, \<^verbatim>\<open>AT_EUID\<close>, \<^verbatim>\<open>AT_EGID\<close>, \<^verbatim>\<open>AT_EXECFN\<close>, \<^verbatim>\<open>AT_SECURE\<close>, \<^verbatim>\<open>AT_HWCAP\<close>, \<^verbatim>\<open>AT_CLKTCK\<close>, \<^verbatim>\<open>AT_RANDOM\<close>, \<^verbatim>\<open>AT_NULL\<close>.\<close>

definition auxv_entries :: "'o calls \<Rightarrow> ElfImage \<Rightarrow> u32 \<Rightarrow> u32 \<Rightarrow> 'o host \<Rightarrow> (u16 \<times> u32) list" where
  "auxv_entries c elf foo_str_g auxv_salt_g h =
     [(3, e_phoff (ehdr elf) + load_addr elf), (4, of_nat sizeof_Phdr), (5, ucast (e_phnum (ehdr elf))), (6, PAGE32), (7, 0), (8, 0),
      (9, elf_entry elf), (11, c_getuid c h), (13, c_getgid c h), (12, c_geteuid c h), (14, c_getegid c h), (31, foo_str_g), (23, 0),
      (16, 0), (17, c_clktck c h), (25, auxv_salt_g), (0, 0)]"

definition InitAVectors :: "'o calls \<Rightarrow> u8 list list \<Rightarrow> ElfImage \<Rightarrow> 'o kernel \<Rightarrow> ElfImage \<times> 'o kernel" where
  "InitAVectors c argv elf k =
     (let argv_n = of_nat (length argv) :: u32;
          (foo_str_g, k) = AllocAVectorStr (ascii ''__foo_str__'' @ [0]) (stack_start elf, k);
          (lc_all_str_g, k) = AllocAVectorStr (ascii ''LC_ALL=C'' @ [0]) (foo_str_g, k);
          (auxv_salt_g, k) = AllocAVectorStr auxv_salt (lc_all_str_g, k);
          (argv_strings_g, stk, k) = push_strings argv (auxv_salt_g, k);
          stk = stk AND -4;
          stk_vsz = argv_n + 1 + 64 + 3;
          stk = stk - stk_vsz * 4;
          stk = stk AND -16;
          argc_p = stk;
          argv_p = argc_p + 4;
          envp_p = argv_p + 4 * (argv_n + 1);
          auxv_p = envp_p + 4 * (1 + 1);
          (_, k) = push_avval argv_n (argc_p, k);
          (_, k) = push_avval 0 (fold push_avval argv_strings_g (argv_p, k));
          (_, k) = push_avval 0 (push_avval lc_all_str_g (envp_p, k));
          (_, k) = fold push_auxv (auxv_entries c elf foo_str_g auxv_salt_g (k_host k)) (auxv_p, k)
      in (elf\<lparr>stack_start := stk\<rparr>, k))"

section \<open>Boot\<close>

text \<open>\<open>obj\<close> stands for the digest of the file behind a descriptor and the cache file that is opened for it, which
  \<open>Announce\<close> gets from the host.\<close>

definition announce :: "(u32 \<Rightarrow> bool \<Rightarrow> u8 list \<times> cache_file) \<Rightarrow> u32 \<Rightarrow> bool \<Rightarrow> 'o kernel \<Rightarrow> 'o kernel res" where
  "announce obj fd writable k =
     rbind (Announce (fst (obj fd writable)) (snd (obj fd writable)) (k_prof k)) (\<lambda>p. Inr (k\<lparr>k_prof := p\<rparr>))"

definition O_RDONLY :: u32 where "O_RDONLY = 0"

definition open_elf :: "'o calls \<Rightarrow> u8 list \<Rightarrow> 'o kernel \<Rightarrow> (u32 \<times> 'o kernel) res" where
  "open_elf c path k =
     (let (r, h) = c_open c path O_RDONLY (k_host k); fd = ucast r :: u32 in
      if fd <s 0 then Inl Panic else Inr (fd, k\<lparr>k_host := h\<rparr>))"

definition STK_SIZE :: u32 where "STK_SIZE = 0x800000"

definition InitElfMappings ::
  "'o calls \<Rightarrow> (u32 \<Rightarrow> bool \<Rightarrow> u8 list \<times> cache_file) \<Rightarrow> u8 list \<Rightarrow> ElfImage \<Rightarrow> 'o kernel \<Rightarrow> (ElfImage \<times> 'o kernel) res" where
  "InitElfMappings c obj path elf k =
     rbind (open_elf c path k) (\<lambda>(fd, k).
       let k = k\<lparr>k_host := c_chdir_dirname c path (k_host k)\<rparr> in
       rbind (LoadElf c fd elf k) (\<lambda>(elf, k).
       rbind (announce obj fd True k) (\<lambda>k.
         let k = k\<lparr>k_process := (k_process k)\<lparr>exe_fd := fd, brk := elf_brk elf\<rparr>\<rparr> in
         rbind (kmmap c (ucast (ASPACE_SIZE - PAGE_SIZE)) PAGE32 0 (MAP_ANON OR MAP_PRIVATE OR MAP_FIXED) (-1) 0 k) (\<lambda>(_, k).
         rbind (kmmap c (ucast (ASPACE_SIZE - PAGE_SIZE) - STK_SIZE) STK_SIZE (PROT_READ OR PROT_WRITE)
                  (MAP_ANON OR MAP_PRIVATE OR MAP_FIXED) (-1) 0 k) (\<lambda>(stk_ptr, k).
           Inr (elf\<lparr>stack_start := h2g (k_mmu k) (hptr_of stk_ptr) + STK_SIZE\<rparr>, k))))))"

definition MainThreadBoot ::
  "bool \<Rightarrow> 'o calls \<Rightarrow> (u32 \<Rightarrow> bool \<Rightarrow> u8 list \<times> cache_file) \<Rightarrow> u8 list list \<Rightarrow> 'o kernel \<Rightarrow> 'o kernel res" where
  "MainThreadBoot linux_guest c obj argv k =
     rbind (new_uthread k) (\<lambda>k.
       let k = k\<lparr>k_process := (k_process k)\<lparr>main_thread := True\<rparr>\<rparr> in
       if argv = [] then Inl AssertFailed
       else rbind (InitElfMappings c obj (fsroot (k_process k) @ [47] @ hd argv) (elf_image (k_process k)) k) (\<lambda>(elf, k).
         let (elf, k) = (if linux_guest then InitAVectors c argv elf k else (elf, k));
             k = k\<lparr>k_process := (k_process k)\<lparr>elf_image := elf\<rparr>\<rparr>
         in InitMainThread elf k))"

definition ReproduceElfMappings ::
  "'o calls \<Rightarrow> (u32 \<Rightarrow> bool \<Rightarrow> u8 list \<times> cache_file) \<Rightarrow> u8 list \<Rightarrow> ElfImage \<Rightarrow> 'o kernel \<Rightarrow> 'o kernel res" where
  "ReproduceElfMappings c obj path elf0 k =
     rbind (open_elf c path k) (\<lambda>(fd, k).
     rbind (LoadElf c fd elf0 k) (\<lambda>(_, k).
     rbind (announce obj fd False k) (\<lambda>k.
       Inr (k\<lparr>k_host := snd (c_close c fd (k_host k))\<rparr>))))"

end
