(* ===== verification/ElfLoad_Correct.thy ===== *)
theory ElfLoad_Correct
  imports ElfLoad
begin

text \<open>
  What starting a process leaves in guest memory: the initial stack as the guest reads it (C21) and the loaded
  segments (C10). Memory is compared byte by byte through the guest's window; the host's mappings and reads
  are described by predicates on the calls.
\<close>

section \<open>Bytes in guest memory\<close>

definition guest_mem :: "'o kernel \<Rightarrow> vmem" where "guest_mem k x = h_mem (k_host k) (mbase (k_mmu k) + x)"

lemma guest_byte_mem: "guest_byte k a = guest_mem k (ucast a)"
  by (simp add: guest_byte_def guest_mem_def g2h_def)

lemma store_bytes_append: "store_bytes m a (xs @ ys) = store_bytes (store_bytes m a xs) (a + of_nat (length xs)) ys"
  by (induction xs arbitrary: m a) (simp_all add: ac_simps)

lemma kpoke_simps [simp]: "k_mmu (kpoke a bs k) = k_mmu k" "kpoke a [] k = k"
  by (simp_all add: kpoke_def poke_def)

lemma kpoke_append:
  assumes "unat a + length xs < 2 ^ 32"
  shows "kpoke (a + of_nat (length xs)) ys (kpoke a xs k) = kpoke a (xs @ ys) k"
  using ucast_add_small(1) [OF assms] by (simp add: kpoke_def poke_def store_bytes_append g2h_def add.assoc)

lemma guest_byte_kpoke:
  assumes "unat a + length bs \<le> 2 ^ 32"
  shows "guest_byte (kpoke a bs k) x = (if unat a \<le> unat x \<and> unat x < unat a + length bs then bs ! (unat x - unat a) else guest_byte k x)"
proof -
  have l: "length bs \<le> 2 ^ 32" using assms by simp
  have "unat (g2h (k_mmu k) x - g2h (k_mmu k) a) = unat x - unat a" if "unat a \<le> unat x"
    using that unat_u32 [of x] unfolding g2h_diff unat_sub_if_size by (simp add: word_size)
  then show ?thesis using store_bytes_apply [of bs "h_mem (k_host k)" "g2h (k_mmu k) a" "g2h (k_mmu k) x"] unat_window_diff [OF l, of "k_mmu k" x a] l
    by (auto simp: guest_byte_def kpoke_def poke_def)
qed

text \<open>Bytes from an address on, and memory that only differs in a range.\<close>

definition guest_holds :: "'o kernel \<Rightarrow> nat \<Rightarrow> u8 list \<Rightarrow> bool" where
  "guest_holds k a bs \<longleftrightarrow> (\<forall>x. a \<le> unat x \<and> unat x < a + length bs \<longrightarrow> guest_byte k x = bs ! (unat x - a))"

definition same_outside :: "nat \<Rightarrow> nat \<Rightarrow> 'o kernel \<Rightarrow> 'o kernel \<Rightarrow> bool" where
  "same_outside lo hi k k' \<longleftrightarrow> k_mmu k' = k_mmu k \<and> (\<forall>x. unat x < lo \<or> hi \<le> unat x \<longrightarrow> guest_byte k' x = guest_byte k x)"

lemma same_outside_refl [simp]: "same_outside lo hi k k"
  by (simp add: same_outside_def)

lemma same_outside_trans:
  "same_outside lo hi k k1 \<Longrightarrow> same_outside lo' hi' k1 k2 \<Longrightarrow> same_outside (min lo lo') (max hi hi') k k2"
  by (auto simp: same_outside_def)

lemma same_outside_mono: "same_outside lo hi k k' \<Longrightarrow> lo' \<le> lo \<Longrightarrow> hi \<le> hi' \<Longrightarrow> same_outside lo' hi' k k'"
  by (auto simp: same_outside_def)

lemma guest_holds_outside: "guest_holds k a bs \<Longrightarrow> same_outside lo hi k k' \<Longrightarrow> a + length bs \<le> lo \<or> hi \<le> a \<Longrightarrow> guest_holds k' a bs"
  unfolding guest_holds_def same_outside_def by (metis le_trans less_le_trans)

lemma kpoke_holds: "unat a + length bs \<le> 2 ^ 32 \<Longrightarrow> guest_holds (kpoke a bs k) (unat a) bs"
  by (simp add: guest_holds_def guest_byte_kpoke)

lemma kpoke_outside: "unat a + length bs \<le> 2 ^ 32 \<Longrightarrow> same_outside (unat a) (unat a + length bs) k (kpoke a bs k)"
  by (simp add: same_outside_def guest_byte_kpoke)

text \<open>What the guest reads: a string, and a word of a vector of words.\<close>

lemma guest_holds_nth:
  fixes a :: u32
  assumes "guest_holds k (unat a) bs" and "i < length bs" and "unat a + length bs \<le> 2 ^ 32"
  shows "guest_mem k (ucast a + of_nat i) = bs ! i"
proof -
  have "unat a + i < 2 ^ 32" using assms(2,3) by simp
  from ucast_add_small [OF this] show ?thesis using assms(1,2) by (metis guest_holds_def guest_byte_mem add_diff_cancel_left' le_add1 nat_add_left_cancel_less)
qed

lemma guest_cstr_aux:
  assumes "\<forall>i<length s + 1. m (a + of_nat i) = (s @ [0]) ! i" and "0 \<notin> set s"
  shows "cstr m a = Some s"
  using assms
proof (induction s arbitrary: a)
  case Nil
  then show ?case by (simp add: cstr.simps [of m a])
next
  case (Cons b s)
  have "m (a + 1 + of_nat i) = (s @ [0]) ! i" if "i < length s + 1" for i
    using Cons.prems(1) [rule_format, of "Suc i"] that by (simp add: ac_simps)
  then have "cstr m (a + 1) = Some s" using Cons by simp
  moreover have "m a = b" using Cons.prems(1) [rule_format, of 0] by simp
  ultimately show ?case using Cons.prems(2) by (simp add: cstr.simps [of m a])
qed

lemma guest_cstr:
  fixes a :: u32
  assumes "guest_holds k (unat a) (s @ [0])" and "0 \<notin> set s" and "unat a + length s < 2 ^ 32"
  shows "cstr (guest_mem k) (ucast a) = Some s"
  using guest_holds_nth [OF assms(1)] assms(2,3) by (intro guest_cstr_aux) auto

definition word_bytes :: "u32 list \<Rightarrow> u8 list" where "word_bytes ws = concat (map (to_le 4) ws)"

lemma length_word_bytes [simp]: "length (word_bytes ws) = 4 * length ws"
  by (induction ws) (simp_all add: word_bytes_def)

lemma nth_word_bytes: "i < length ws \<Longrightarrow> j < 4 \<Longrightarrow> word_bytes ws ! (4 * i + j) = to_le 4 (ws ! i) ! j"
proof (induction ws arbitrary: i)
  case (Cons w ws)
  show ?case
  proof (cases i)
    case 0
    then show ?thesis using Cons.prems by (simp add: word_bytes_def nth_append)
  next
    case (Suc n)
    then show ?thesis using Cons by (simp add: word_bytes_def nth_append)
  qed
qed simp

definition guest_word :: "'o kernel \<Rightarrow> u32 \<Rightarrow> u32" where "guest_word k a = unaligned_load (guest_mem k) (ucast a)"

lemma guest_word_nth:
  assumes "guest_holds k (unat a) (word_bytes ws)" and "i < length ws" and "unat a + 4 * length ws < 2 ^ 32"
  shows "guest_word k (a + 4 * of_nat i) = ws ! i"
proof -
  have e: "ucast (a + 4 * of_nat i) = (ucast a + of_nat (4 * i) :: u64)" using ucast_add_small(1) [of a "4 * i"] assms(2,3) by simp
  have "guest_mem k (ucast (a + 4 * of_nat i) + of_nat j) = to_le 4 (ws ! i) ! j" if "j < 4" for j
    using guest_holds_nth [OF assms(1), of "4 * i + j"] that assms(2,3) nth_word_bytes [OF assms(2) that] unfolding e by (simp add: add.assoc)
  then have "map (\<lambda>j. guest_mem k (ucast (a + 4 * of_nat i) + of_nat j)) [0..<4] = to_le 4 (ws ! i)"
    by (intro nth_equalityI) simp_all
  then show ?thesis by (simp add: guest_word_def unaligned_load_def from_le_to_le)
qed

section \<open>The initial stack\<close>

lemma AllocAVectorStr_ok:
  assumes "length bs < 65536" and "length bs \<le> unat stk"
  shows "AllocAVectorStr bs (stk, k) = (stk - of_nat (length bs), kpoke (stk - of_nat (length bs)) bs k)"
    and "unat (stk - of_nat (length bs) :: u32) = unat stk - length bs"
proof -
  have u: "unat (of_nat (length bs) :: u16) = length bs" "unat (of_nat (length bs) :: u32) = length bs"
    using assms(1) by (simp_all add: unsigned_of_nat take_bit_nat_eq_self)
  then have "(ucast (of_nat (length bs) :: u16) :: u32) = of_nat (length bs)" by (metis of_nat_unat)
  then show "AllocAVectorStr bs (stk, k) = (stk - of_nat (length bs), kpoke (stk - of_nat (length bs)) bs k)"
    by (simp add: AllocAVectorStr_def u Let_def)
  show "unat (stk - of_nat (length bs) :: u32) = unat stk - length bs" using assms(2) u(2) by (simp add: unat_sub word_le_nat_alt)
qed

lemma AllocAVectorStr_holds:
  assumes "length bs < 65536" and "length bs \<le> unat stk" and "AllocAVectorStr bs (stk, k) = (p, k')"
  shows "unat p = unat stk - length bs" and "same_outside (unat p) (unat stk) k k'" and "guest_holds k' (unat p) bs"
proof -
  note a = AllocAVectorStr_ok [OF assms(1,2)]
  have p: "p = stk - of_nat (length bs)" "k' = kpoke p bs k" using assms(3) a(1) [of k] by auto
  show u: "unat p = unat stk - length bs" using a(2) p(1) by simp
  then have e: "unat p + length bs = unat stk" "unat p + length bs \<le> 2 ^ 32" using assms(2) unat_u32 [of stk] by simp_all
  show "same_outside (unat p) (unat stk) k k'" using kpoke_outside [OF e(2), of k] p(2) e(1) by simp
  show "guest_holds k' (unat p) bs" using kpoke_holds [OF e(2), of k] p(2) by simp
qed

definition strings_size :: "u8 list list \<Rightarrow> nat" where "strings_size ss = sum_list (map (\<lambda>s. length s + 1) ss)"

lemma push_strings_holds:
  assumes "\<forall>s\<in>set ss. length s + 1 < 65536" and "strings_size ss \<le> unat stk" and "push_strings ss (stk, k) = (ps, stk', k')"
  shows "unat stk' = unat stk - strings_size ss \<and> length ps = length ss \<and> same_outside (unat stk') (unat stk) k k' \<and>
    (\<forall>i<length ss. unat stk' \<le> unat (ps ! i) \<and> unat (ps ! i) + length (ss ! i) + 1 \<le> unat stk \<and> guest_holds k' (unat (ps ! i)) (ss ! i @ [0]))"
  using assms
proof (induction ss arbitrary: stk k ps)
  case (Cons s ss)
  obtain p k1 where a: "AllocAVectorStr (s @ [0]) (stk, k) = (p, k1)" by fastforce
  obtain qs where q: "push_strings ss (p, k1) = (qs, stk', k')" "ps = p # qs" using Cons.prems(3) a by (auto split: prod.splits)
  have l: "length (s @ [0]) < 65536" "length (s @ [0]) \<le> unat stk" using Cons.prems(1,2) by (simp_all add: strings_size_def)
  note h = AllocAVectorStr_holds [OF l a]
  have sz: "strings_size (s # ss) = length (s @ [0]) + strings_size ss" by (simp add: strings_size_def)
  have ih: "unat stk' = unat p - strings_size ss \<and> length qs = length ss \<and> same_outside (unat stk') (unat p) k1 k' \<and>
    (\<forall>i<length ss. unat stk' \<le> unat (qs ! i) \<and> unat (qs ! i) + length (ss ! i) + 1 \<le> unat p \<and> guest_holds k' (unat (qs ! i)) (ss ! i @ [0]))"
    by (rule Cons.IH [OF _ _ q(1)]) (use Cons.prems(1,2) h(1) sz in simp_all)
  have u: "unat stk' = unat stk - strings_size (s # ss)" "unat stk' \<le> unat p" "unat p \<le> unat stk" using ih h(1) sz by simp_all
  have f: "same_outside (unat stk') (unat stk) k k'"
    using same_outside_trans [OF h(2) ih [THEN conjunct2, THEN conjunct2, THEN conjunct1]] u by (simp add: min_absorb2 max_absorb1)
  have g: "guest_holds k' (unat p) (s @ [0])" using guest_holds_outside [OF h(3) ih [THEN conjunct2, THEN conjunct2, THEN conjunct1]] by simp
  have "unat stk' \<le> unat (ps ! i) \<and> unat (ps ! i) + length ((s # ss) ! i) + 1 \<le> unat stk \<and> guest_holds k' (unat (ps ! i)) ((s # ss) ! i @ [0])"
    if "i < length (s # ss)" for i
  proof (cases i)
    case 0
    then show ?thesis using q(2) g u h(1) l(2) by simp
  next
    case (Suc j)
    then show ?thesis using ih that q(2) u(3) by fastforce
  qed
  then show ?case using u f ih q(2) by simp
qed (simp add: strings_size_def)

lemma fold_push_avval:
  assumes "unat vec + 4 * length ws < 2 ^ 32"
  shows "fold push_avval ws (vec, k) = (vec + 4 * of_nat (length ws), kpoke vec (word_bytes ws) k)"
  using assms
proof (induction ws arbitrary: vec k)
  case (Cons w ws)
  have v: "unat (vec + of_nat 4) = unat vec + 4" using Cons.prems by (intro ucast_add_small(2)) simp
  have "fold push_avval (w # ws) (vec, k) = fold push_avval ws (vec + 4, kpoke vec (to_le 4 w) k)" by (simp add: push_avval_def)
  also have "\<dots> = (vec + 4 + 4 * of_nat (length ws), kpoke (vec + 4) (word_bytes ws) (kpoke vec (to_le 4 w) k))"
    using Cons.prems v by (intro Cons.IH) simp
  also have "kpoke (vec + 4) (word_bytes ws) (kpoke vec (to_le 4 w) k) = kpoke vec (word_bytes (w # ws)) k"
    using kpoke_append [of vec "to_le 4 w" "word_bytes ws" k] Cons.prems by (simp add: word_bytes_def)
  finally show ?case by (simp add: algebra_simps)
qed (simp add: word_bytes_def)

lemma fold_push_auxv: "fold push_auxv es st = fold push_avval (concat (map (\<lambda>e. [ucast (fst e), snd e]) es)) st"
  by (induction es arbitrary: st) (simp_all add: push_auxv_def)

lemma align_down:
  fixes s :: u32
  assumes "n < 32"
  shows "unat (s AND NOT (mask n)) = unat s div 2 ^ n * 2 ^ n"
proof -
  have "s AND NOT (mask n) = push_bit n (drop_bit n s)" by (rule bit_word_eqI) (auto simp: bit_simps)
  also have "\<dots> = (s div 2 ^ n) * 2 ^ n" by (simp add: push_bit_eq_mult drop_bit_eq_div)
  finally have e: "s AND NOT (mask n) = (s div 2 ^ n) * 2 ^ n" .
  have "unat (of_nat (2 ^ n) :: u32) = 2 ^ n" using assms by (simp add: unsigned_of_nat take_bit_nat_eq_self del: of_nat_power)
  then have p: "unat (2 ^ n :: u32) = 2 ^ n" by simp
  have "unat s div 2 ^ n * 2 ^ n < 2 ^ 32" using unat_u32 [of s] by (meson div_times_less_eq_dividend le_less_trans)
  then show ?thesis unfolding e by (simp add: unat_word_ariths mod_mult_left_eq p)
qed

text \<open>The words of the vectors, in the order of their addresses.\<close>

definition stack_words :: "u32 list \<Rightarrow> u32 \<Rightarrow> (u16 \<times> u32) list \<Rightarrow> u32 list" where
  "stack_words ps env es = of_nat (length ps) # ps @ [0, env, 0] @ concat (map (\<lambda>e. [ucast (fst e), snd e]) es)"

lemma fst_fold_push: "fst (fold push_avval ws (v, k)) = v + 4 * of_nat (length ws)"
  by (induction ws arbitrary: v k) (simp_all add: push_avval_def algebra_simps)

lemma fold_push_eq: "fold push_avval ws (v, k) = (v + 4 * of_nat (length ws), snd (fold push_avval ws (v, k)))"
  by (metis fst_fold_push prod.collapse)

lemma InitAVectors_words:
  assumes "AllocAVectorStr (ascii ''__foo_str__'' @ [0]) (stack_start elf, k) = (foo, k1)"
    and "AllocAVectorStr (ascii ''LC_ALL=C'' @ [0]) (foo, k1) = (env, k2)" and "AllocAVectorStr auxv_salt (env, k2) = (salt, k3)"
    and "push_strings argv (salt, k3) = (ps, stk, k4)" and "length ps = length argv"
    and "sp = ((stk AND -4) - (of_nat (length argv) + 1 + 64 + 3) * 4) AND -16"
  shows "\<exists>h. InitAVectors c argv elf k =
    (elf\<lparr>stack_start := sp\<rparr>, snd (fold push_avval (stack_words ps env (auxv_entries c elf foo salt h)) (sp, k4)))"
proof -
  define n where "n = (of_nat (length argv) :: u32)"
  define k5 where "k5 = snd (fold push_avval [n] (sp, k4))"
  define k6 where "k6 = snd (fold push_avval (ps @ [0]) (sp + 4, k5))"
  define k7 where "k7 = snd (fold push_avval [env, 0] (sp + 4 + 4 * (n + 1), k6))"
  let ?es = "auxv_entries c elf foo salt (k_host k7)"
  let ?aux = "concat (map (\<lambda>e. [ucast (fst e), snd e]) ?es)"
  have s1: "push_avval n (sp, k4) = (sp + 4, k5)" using fold_push_eq [of "[n]" sp k4] by (simp add: k5_def)
  have s2: "push_avval 0 (fold push_avval ps (sp + 4, k5)) = (sp + 4 + 4 * (n + 1), k6)"
    using fold_push_eq [of "ps @ [0]" "sp + 4" k5] assms(5) by (simp add: k6_def n_def add.commute)
  have s3: "push_avval 0 (push_avval env (sp + 4 + 4 * (n + 1), k6)) = (sp + 4 + 4 * (n + 1) + 4 * (1 + 1), k7)"
    using fold_push_eq [of "[env, 0]" "sp + 4 + 4 * (n + 1)" k6] by (simp add: k7_def)
  have "fold push_avval (stack_words ps env ?es) (sp, k4) = fold push_auxv ?es (sp + 4 + 4 * (n + 1) + 4 * (1 + 1), k7)"
    unfolding stack_words_def fold_push_auxv using s1 s2 s3 assms(5) by (simp add: n_def)
  then show ?thesis using s1 s2 s3 assms unfolding InitAVectors_def Let_def n_def [symmetric]
    by (intro exI [of _ "k_host k7"]) (simp split: prod.split)
qed

lemma push_words_holds:
  assumes "unat v + 4 * length ws < 2 ^ 32"
  shows "guest_holds (snd (fold push_avval ws (v, k))) (unat v) (word_bytes ws)"
    and "same_outside (unat v) (unat v + 4 * length ws) k (snd (fold push_avval ws (v, k)))"
  using kpoke_holds [of v "word_bytes ws" k] kpoke_outside [of v "word_bytes ws" k] assms by (simp_all add: fold_push_avval)

lemma stack_pointer:
  fixes stk :: u32
  assumes "4 * n + 311 \<le> unat stk" and "sp = ((stk AND -4) - (of_nat n + 1 + 64 + 3) * 4) AND -16"
  shows "sp AND 15 = 0" and "unat sp + 4 * (n + 68) \<le> unat stk"
proof -
  have m: "(-4 :: u32) = NOT (mask 2)" "(-16 :: u32) = NOT (mask 4)" "(15 :: u32) = mask 4" by (simp_all add: mask_eq_exp_minus_1 not_eq_complement)
  show "sp AND 15 = 0" unfolding assms(2) m by (rule bit_word_eqI) (simp add: bit_simps)
  let ?s = "stk AND -4" and ?d = "of_nat (4 * (n + 68)) :: u32"
  have d: "(of_nat n + 1 + 64 + 3) * 4 = ?d" by (simp add: algebra_simps)
  have l: "4 * (n + 68) < 2 ^ 32" using assms(1) unat_u32 [of stk] by simp
  then have ud: "unat ?d = 4 * (n + 68)" unfolding unsigned_of_nat by (simp add: take_bit_nat_eq_self)
  have s: "unat ?s = unat stk div 4 * 4" unfolding m using align_down [of 2 stk] by simp
  have s': "unat stk < unat ?s + 4" "unat ?s \<le> unat stk" using s div_mult_mod_eq [of "unat stk" 4] mod_less_divisor [of 4 "unat stk"] by linarith+
  have "unat (?s - ?d) + 4 * (n + 68) = unat ?s" using s' assms(1) ud by (simp add: unat_sub word_le_nat_alt)
  moreover have "unat sp \<le> unat (?s - ?d)" unfolding assms(2) d m(2) using align_down [of 4 "?s - ?d"] by (simp add: m(1))
  ultimately show "unat sp + 4 * (n + 68) \<le> unat stk" using s' assms(1) by linarith
qed

lemma stack_words_length: "length (stack_words ps env es) = 4 + length ps + 2 * length es"
  by (induction es) (simp_all add: stack_words_def)

lemma nth_pairs: "i < length es \<Longrightarrow> concat (map (\<lambda>e. [f e, g e]) es) ! (2 * i) = f (es ! i) \<and> concat (map (\<lambda>e. [f e, g e]) es) ! (Suc (2 * i)) = g (es ! i)"
proof (induction es arbitrary: i)
  case (Cons e es)
  then show ?case by (cases i) auto
qed simp

lemma stack_words_aux:
  assumes "i < length es"
  shows "stack_words ps env es ! (4 + length ps + 2 * i) = ucast (fst (es ! i))" "stack_words ps env es ! (5 + length ps + 2 * i) = snd (es ! i)"
  using nth_pairs [OF assms, of "\<lambda>e. ucast (fst e)" snd] by (simp_all add: stack_words_def nth_append)

text \<open>The layout: where everything is once the vectors are written.\<close>

lemma InitAVectors_layout:
  assumes "\<forall>s\<in>set argv. length s + 1 < 65536" and "strings_size argv + 4 * length argv + 348 \<le> unat (stack_start elf)"
    and "InitAVectors c argv elf k = (elf', k')"
  obtains foo env salt ps h ws where
    "ws = stack_words ps env (auxv_entries c elf foo salt h)" "length ps = length argv"
    "stack_start elf' AND 15 = 0" "guest_holds k' (unat (stack_start elf')) (word_bytes ws)" "unat (stack_start elf') + 4 * length ws < 2 ^ 32"
    "guest_holds k' (unat foo) (ascii ''__foo_str__'' @ [0])" "guest_holds k' (unat env) (ascii ''LC_ALL=C'' @ [0])" "guest_holds k' (unat salt) auxv_salt"
    "unat foo + 12 \<le> unat (stack_start elf)" "unat env + 9 \<le> unat (stack_start elf)"
    "\<forall>i<length argv. guest_holds k' (unat (ps ! i)) (argv ! i @ [0]) \<and> unat (ps ! i) + length (argv ! i) < 2 ^ 32"
    "same_outside (unat (stack_start elf')) (unat (stack_start elf)) k k'"
proof -
  let ?top = "unat (stack_start elf)" and ?n = "length argv"
  obtain foo k1 where a1: "AllocAVectorStr (ascii ''__foo_str__'' @ [0]) (stack_start elf, k) = (foo, k1)" by fastforce
  obtain env k2 where a2: "AllocAVectorStr (ascii ''LC_ALL=C'' @ [0]) (foo, k1) = (env, k2)" by fastforce
  obtain salt k3 where a3: "AllocAVectorStr auxv_salt (env, k2) = (salt, k3)" by fastforce
  obtain ps stk k4 where a4: "push_strings argv (salt, k3) = (ps, stk, k4)" by (metis prod_cases3)
  have len: "length (ascii ''__foo_str__'' @ [0 :: u8]) = 12" "length (ascii ''LC_ALL=C'' @ [0 :: u8]) = 9" "length auxv_salt = 16"
    by (simp_all add: ascii_def auxv_salt_def)
  have top: "348 \<le> ?top" using assms(2) by simp
  note h1 = AllocAVectorStr_holds [OF _ _ a1, unfolded len]
  have u1: "unat foo = ?top - 12" "same_outside (unat foo) ?top k k1" "guest_holds k1 (unat foo) (ascii ''__foo_str__'' @ [0])" using h1 top by simp_all
  note h2 = AllocAVectorStr_holds [OF _ _ a2, unfolded len]
  have u2: "unat env = ?top - 21" "same_outside (unat env) (unat foo) k1 k2" "guest_holds k2 (unat env) (ascii ''LC_ALL=C'' @ [0])" using h2 u1(1) top by simp_all
  note h3 = AllocAVectorStr_holds [OF _ _ a3, unfolded len]
  have u3: "unat salt = ?top - 37" "same_outside (unat salt) (unat env) k2 k3" "guest_holds k3 (unat salt) auxv_salt" using h3 u2(1) top by simp_all
  have "strings_size argv \<le> unat salt" using assms(2) u3(1) by simp
  note h4 = push_strings_holds [OF assms(1) this a4]
  then have u4: "unat stk = unat salt - strings_size argv" "length ps = ?n" "same_outside (unat stk) (unat salt) k3 k4" by blast+
  have args: "unat stk \<le> unat (ps ! i)" "unat (ps ! i) + length (argv ! i) + 1 \<le> unat salt" "guest_holds k4 (unat (ps ! i)) (argv ! i @ [0])"
    if "i < ?n" for i using h4 that by blast+
  define sp where "sp = ((stk AND -4) - (of_nat ?n + 1 + 64 + 3) * 4) AND -16"
  have room: "4 * ?n + 311 \<le> unat stk" using assms(2) u4(1) u3(1) by simp
  note sp = stack_pointer [OF room sp_def]
  obtain h where init: "InitAVectors c argv elf k = (elf\<lparr>stack_start := sp\<rparr>, snd (fold push_avval (stack_words ps env (auxv_entries c elf foo salt h)) (sp, k4)))"
    using InitAVectors_words [OF a1 a2 a3 a4 u4(2) sp_def, of c] by blast
  define es where "es = auxv_entries c elf foo salt h"
  define ws where "ws = stack_words ps env es"
  have k': "elf' = elf\<lparr>stack_start := sp\<rparr>" "k' = snd (fold push_avval ws (sp, k4))" using init assms(3) by (simp_all add: ws_def es_def)
  have wl: "length ws = ?n + 38" using u4(2) by (simp add: ws_def stack_words_length es_def auxv_entries_def)
  have wb: "unat sp + 4 * length ws \<le> unat stk" "unat sp + 4 * length ws < 2 ^ 32" using sp(2) wl unat_u32 [of stk] by simp_all
  have w: "guest_holds k' (unat sp) (word_bytes ws)" "same_outside (unat sp) (unat sp + 4 * length ws) k4 k'"
    unfolding k'(2) by (rule push_words_holds [OF wb(2)])+
  have up: "unat sp + 4 * length ws \<le> unat stk" "unat stk \<le> unat salt" "unat salt \<le> unat env" "unat env \<le> unat foo" "unat foo \<le> ?top"
    using wb(1) u1(1) u2(1) u3(1) u4(1) by simp_all
  note keep = guest_holds_outside [OF guest_holds_outside [OF _ u4(3)] w(2)]
  show thesis
  proof (rule that [of ws ps env foo salt h])
    show "guest_holds k' (unat salt) auxv_salt" using keep [OF u3(3)] up by simp
    show "guest_holds k' (unat env) (ascii ''LC_ALL=C'' @ [0])" using keep [OF guest_holds_outside [OF u2(3) u3(2)]] up by simp
    show "guest_holds k' (unat foo) (ascii ''__foo_str__'' @ [0])"
      using keep [OF guest_holds_outside [OF guest_holds_outside [OF u1(3) u2(2)] u3(2)]] up by simp
    show "\<forall>i<?n. guest_holds k' (unat (ps ! i)) (argv ! i @ [0]) \<and> unat (ps ! i) + length (argv ! i) < 2 ^ 32"
    proof (intro allI impI conjI)
      fix i assume i: "i < ?n"
      show "guest_holds k' (unat (ps ! i)) (argv ! i @ [0])" using guest_holds_outside [OF args(3) [OF i] w(2)] args(1) [OF i] up(1) by simp
      show "unat (ps ! i) + length (argv ! i) < 2 ^ 32" using args(2) [OF i] unat_u32 [of salt] by simp
    qed
    note t = same_outside_trans [OF same_outside_trans [OF same_outside_trans [OF same_outside_trans [OF u1(2) u2(2)] u3(2)] u4(3)] w(2)]
    show "same_outside (unat (stack_start elf')) ?top k k'" by (rule same_outside_mono [OF t]) (use up k'(1) in auto)
    show "unat foo + 12 \<le> ?top" "unat env + 9 \<le> ?top" using u1(1) u2(1) top by simp_all
  qed (use k'(1) u4(2) sp(1) w(1) wb(2) in \<open>simp_all add: ws_def es_def\<close>)
qed

text \<open>C21. The initial stack. With room for the strings and the vectors, and arguments without zero bytes that are shorter than
  65535 bytes each, the guest reads back what it was given: the stack pointer is a multiple of 16, the word it points
  to is the number of arguments, the next words point to the arguments as C strings and end with 0, then
  comes one environment string and 0, then the entries of the auxiliary vector up to \<^verbatim>\<open>AT_NULL\<close>. Nothing
  outside the part of the stack that was used has changed.\<close>

theorem initial_stack_readable:
  assumes "\<forall>s\<in>set argv. length s + 1 < 65536 \<and> 0 \<notin> set s" and "strings_size argv + 4 * length argv + 348 \<le> unat (stack_start elf)"
    and "InitAVectors c argv elf k = (elf', k')"
  shows "stack_start elf' AND 15 = 0 \<and> guest_word k' (stack_start elf') = of_nat (length argv) \<and>
    (\<forall>i<length argv. cstr (guest_mem k') (ucast (guest_word k' (stack_start elf' + 4 * of_nat (1 + i)))) = Some (argv ! i)) \<and>
    guest_word k' (stack_start elf' + 4 * of_nat (1 + length argv)) = 0 \<and>
    cstr (guest_mem k') (ucast (guest_word k' (stack_start elf' + 4 * of_nat (2 + length argv)))) = Some (ascii ''LC_ALL=C'') \<and>
    guest_word k' (stack_start elf' + 4 * of_nat (3 + length argv)) = 0 \<and>
    (\<exists>foo salt h. cstr (guest_mem k') (ucast foo) = Some (ascii ''__foo_str__'') \<and> guest_holds k' (unat salt) auxv_salt \<and>
       (\<forall>i<17. guest_word k' (stack_start elf' + 4 * of_nat (4 + length argv + 2 * i)) = ucast (fst (auxv_entries c elf foo salt h ! i)) \<and>
               guest_word k' (stack_start elf' + 4 * of_nat (5 + length argv + 2 * i)) = snd (auxv_entries c elf foo salt h ! i))) \<and>
    same_outside (unat (stack_start elf')) (unat (stack_start elf)) k k'"
proof -
  let ?n = "length argv" and ?sp = "stack_start elf'"
  have a: "\<forall>s\<in>set argv. length s + 1 < 65536" using assms(1) by blast
  obtain foo env salt ps h ws where l: "ws = stack_words ps env (auxv_entries c elf foo salt h)" "length ps = ?n" "?sp AND 15 = 0"
      "guest_holds k' (unat ?sp) (word_bytes ws)" "unat ?sp + 4 * length ws < 2 ^ 32"
    and strs: "guest_holds k' (unat foo) (ascii ''__foo_str__'' @ [0])" "guest_holds k' (unat env) (ascii ''LC_ALL=C'' @ [0])" "guest_holds k' (unat salt) auxv_salt"
      "unat foo + 12 \<le> unat (stack_start elf)" "unat env + 9 \<le> unat (stack_start elf)"
    and args: "\<forall>i<?n. guest_holds k' (unat (ps ! i)) (argv ! i @ [0]) \<and> unat (ps ! i) + length (argv ! i) < 2 ^ 32"
    and out: "same_outside (unat ?sp) (unat (stack_start elf)) k k'"
    by (rule InitAVectors_layout [OF a assms(2,3)])
  define es where "es = auxv_entries c elf foo salt h"
  have es: "length es = 17" by (simp add: es_def auxv_entries_def)
  have wl: "length ws = ?n + 38" using l(1,2) es by (simp add: stack_words_length es_def)
  have word: "guest_word k' (?sp + 4 * of_nat i) = ws ! i" if "i < ?n + 38" for i using guest_word_nth [OF l(4) _ l(5)] that wl by simp
  have ws: "ws = stack_words ps env es" using l(1) by (simp add: es_def)
  have 1: "guest_word k' ?sp = of_nat ?n" using word [of 0] l(2) by (simp add: ws stack_words_def)
  have 2: "cstr (guest_mem k') (ucast (guest_word k' (?sp + 4 * of_nat (1 + i)))) = Some (argv ! i)" if "i < ?n" for i
    using word [of "1 + i"] guest_cstr [of k' "ps ! i" "argv ! i"] args assms(1) that l(2) by (simp add: ws stack_words_def nth_append)
  have "unat foo + 11 < 2 ^ 32" "unat env + 8 < 2 ^ 32" using strs(4,5) unat_u32 [of "stack_start elf"] by simp_all
  then have 3: "cstr (guest_mem k') (ucast foo) = Some (ascii ''__foo_str__'')" "cstr (guest_mem k') (ucast env) = Some (ascii ''LC_ALL=C'')"
    using guest_cstr [OF strs(1)] guest_cstr [OF strs(2)] by (simp_all add: ascii_def)
  have 4: "guest_word k' (?sp + 4 * of_nat (1 + ?n)) = 0" "guest_word k' (?sp + 4 * of_nat (2 + ?n)) = env" "guest_word k' (?sp + 4 * of_nat (3 + ?n)) = 0"
    using word [of "1 + ?n"] word [of "2 + ?n"] word [of "3 + ?n"] l(2) by (simp_all add: ws stack_words_def nth_append)
  have 5: "guest_word k' (?sp + 4 * of_nat (4 + ?n + 2 * i)) = ucast (fst (es ! i)) \<and> guest_word k' (?sp + 4 * of_nat (5 + ?n + 2 * i)) = snd (es ! i)"
    if "i < 17" for i using word [of "4 + ?n + 2 * i"] word [of "5 + ?n + 2 * i"] stack_words_aux [of i es ps env] that es l(2) by (simp add: ws)
  show ?thesis using 1 2 3 4 5 l(3) strs(3) out by (auto simp: es_def)
qed

section \<open>Mapping a file\<close>

text \<open>What is documented of a private mapping of whole pages of the file \<open>fd\<close>, of \<open>flen\<close> bytes, at a fixed page-aligned address: when it
  succeeds, the pages have the protection asked for and show the file from the offset on, with zeros from its end to the end of its last page; nothing is said
  of pages behind that. Nothing outside the range changes. Anonymous mappings are those of \<open>anon_maps\<close>.\<close>

definition file_part :: "(u64 \<Rightarrow> u8) \<Rightarrow> nat \<Rightarrow> u64 \<Rightarrow> u64 \<Rightarrow> u8" where
  "file_part file flen offs i = (if unat offs + unat i < flen then file (offs + i) else 0)"

definition file_maps :: "'o host host_os \<Rightarrow> (u64 \<Rightarrow> u8) \<Rightarrow> u32 \<Rightarrow> nat \<Rightarrow> bool" where
  "file_maps os file fd flen \<longleftrightarrow> (\<forall>a len prot offs h r h'. 4096 dvd unat a \<longrightarrow> 4096 dvd unat len \<longrightarrow> 4096 dvd unat offs \<longrightarrow>
     os_mmap os a len prot (MAP_FIXED OR MAP_PRIVATE) fd offs h = (r, h') \<longrightarrow>
     kept_outside a (unat len) h h' \<and>
     (\<forall>p. r = Some p \<longrightarrow> p = a \<and>
        (\<forall>x. unat (x - a) < unat len \<longrightarrow> h_prot h' x = prot \<and>
           (unat offs + unat (x - a) < page_up flen \<longrightarrow> h_mem h' x = file_part file flen offs (x - a)))))"

text \<open>A host with memory to spare, which refuses no such mapping of some pages of the guest's window above the lowest ones, the
  file's own pages in the case of the file.\<close>

definition maps_granted :: "'o host host_os \<Rightarrow> u64 \<Rightarrow> u32 \<Rightarrow> nat \<Rightarrow> bool" where
  "maps_granted os base fd flen \<longleftrightarrow> (\<forall>a len prot offs h. 4096 dvd unat a \<longrightarrow> 4096 dvd unat len \<longrightarrow> 4096 dvd unat offs \<longrightarrow> prot \<le> 7 \<longrightarrow>
     len \<noteq> 0 \<longrightarrow> 0x10000 \<le> unat (a - base) \<longrightarrow> unat (a - base) + unat len \<le> 2 ^ 32 \<longrightarrow>
     fst (os_mmap os a len prot (MAP_ANON OR MAP_PRIVATE OR MAP_FIXED) (-1) 0 h) \<noteq> None \<and>
     (unat offs + unat len \<le> page_up flen \<longrightarrow> fst (os_mmap os a len prot (MAP_FIXED OR MAP_PRIVATE) fd offs h) \<noteq> None))"

text \<open>A new mapping as the guest sees it.\<close>

definition guest_prot :: "'o kernel \<Rightarrow> u32 \<Rightarrow> u32" where "guest_prot k a = h_prot (k_host k) (g2h (k_mmu k) a)"

lemma guest_writable_prot: "guest_writable k a \<longleftrightarrow> guest_prot k a AND PROT_WRITE \<noteq> 0"
  by (simp add: guest_writable_def guest_prot_def)

definition remapped :: "nat \<Rightarrow> nat \<Rightarrow> (nat \<Rightarrow> u8) \<Rightarrow> u32 \<Rightarrow> 'o kernel \<Rightarrow> 'o kernel \<Rightarrow> bool" where
  "remapped a n f prot k k' \<longleftrightarrow> mbase (k_mmu k') = mbase (k_mmu k) \<and>
     (\<forall>x. guest_byte k' x = (if a \<le> unat x \<and> unat x < a + n then f (unat x - a) else guest_byte k x)) \<and>
     (\<forall>x. guest_prot k' x = (if a \<le> unat x \<and> unat x < a + n then prot else guest_prot k x))"

lemma kmmap_remaps:
  assumes m: "4096 dvd unat (mbase (k_mmu k))" "4096 dvd unat va" "0 < unat va + unat len" "unat va + page_up (unat len) \<le> 2 ^ 32" "unat len \<le> 2 ^ 32 - 4096"
    and f: "flags AND MAP_FIXED \<noteq> 0"
    and os: "os_mmap (c_os c) (g2h (k_mmu k) va) (of_nat (page_up (unat len))) prot flags fd offs (k_host k) = (r, h)"
      "kept_outside (g2h (k_mmu k) va) (page_up (unat len)) (k_host k) h"
      "\<And>x. unat (x - g2h (k_mmu k) va) < page_up (unat len) \<Longrightarrow> h_mem h x = g (x - g2h (k_mmu k) va) \<and> h_prot h x = prot"
  shows "\<exists>k'. kmmap c va len prot flags fd offs k = Inr (r, k') \<and> remapped (unat va) (page_up (unat len)) (\<lambda>i. g (of_nat i)) prot k k'"
proof -
  let ?n = "page_up (unat len)"
  have l: "unat va + unat len \<le> 2 ^ 32" "?n \<le> 2 ^ 32" using m(4) page_up(1) [of "unat len"] by simp_all
  obtain u where u: "kmmap c va len prot flags fd offs k = Inr (r, k\<lparr>k_mmu := u, k_host := h\<rparr>)" "mbase u = mbase (k_mmu k)"
    using kmmap_fixed [OF f m(3) l(1) m(5) os(1)] by blast
  have g: "g2h u = g2h (k_mmu k)" using u(2) by (simp add: g2h_def fun_eq_iff)
  let ?k = "k\<lparr>k_mmu := u, k_host := h\<rparr>"
  have inside: "guest_byte ?k x = g (of_nat (unat x - unat va)) \<and> guest_prot ?k x = prot" if "unat va \<le> unat x" "unat x < unat va + ?n" for x
  proof -
    have d: "g2h (k_mmu k) x - g2h (k_mmu k) va = of_nat (unat x - unat va)" using that(1) by (simp add: g2h_diff of_nat_diff)
    have "unat (g2h (k_mmu k) x - g2h (k_mmu k) va) < ?n" using unat_window_diff [OF l(2), of "k_mmu k" x va] that by simp
    from os(3) [OF this] show ?thesis by (simp add: guest_byte_def guest_prot_def g d)
  qed
  have outside: "guest_byte ?k x = guest_byte k x \<and> guest_prot ?k x = guest_prot k x" if "\<not> (unat va \<le> unat x \<and> unat x < unat va + ?n)" for x
  proof -
    have "?n \<le> unat (g2h (k_mmu k) x - g2h (k_mmu k) va)" using unat_window_diff [OF l(2), of "k_mmu k" x va] that by linarith
    then show ?thesis using os(2) by (simp add: kept_outside_def guest_byte_def guest_prot_def g)
  qed
  have "remapped (unat va) ?n (\<lambda>i. g (of_nat i)) prot k ?k" unfolding remapped_def using inside outside u(2) by auto
  then show ?thesis using u(1) by blast
qed

lemma round32:
  assumes "unat x \<le> 2 ^ 32 - 4096"
  shows "unat (roundup32 x PAGE32) = page_up (unat x)"
proof -
  have a: "unat (x + 4095) = unat x + 4095" using assms by (simp add: unat_word_ariths)
  have "page_up (unat x) < 2 ^ 32" using page_up(4) [of "unat x" "2 ^ 20 - 1"] assms by simp
  then show ?thesis using a unfolding roundup32_def PAGE32_def PAGE_SIZE_def page_up_def
    by (simp add: unat_word_ariths unat_div)
qed

lemma round32_neg:
  assumes "0 < d" and "d < 4096"
  shows "roundup32 (- of_nat d) PAGE32 = 0"
proof -
  have "(- of_nat d + 4095 :: u32) = of_nat (4095 - d)" using assms by (simp add: of_nat_diff)
  moreover have "unat (of_nat e :: u32) = e" if "e < 4096" for e using that by (simp add: unsigned_of_nat take_bit_nat_eq_self)
  ultimately have "unat ((- of_nat d + 4095 :: u32) div 4096) = 0" using assms by (simp add: unat_div del: of_nat_diff)
  then have "(- of_nat d + 4095 :: u32) div 4096 = 0" by (simp add: unat_eq_0)
  then show ?thesis by (simp add: roundup32_def PAGE32_def PAGE_SIZE_def)
qed

section \<open>Segments\<close>

lemma segment_start:
  "unat (vaddr_ps ph) = unat (p_vaddr ph) div 4096 * 4096" "unat (vaddr_po ph) = unat (p_vaddr ph) mod 4096"
proof -
  let ?v = "ucast (p_vaddr ph) :: u64"
  have "unat (rounddown ?v PAGE_SIZE) = unat (p_vaddr ph) div 4096 * 4096"
    unfolding rounddown_def PAGE_SIZE_def
    by (subst unat_sub) (simp_all add: word_mod_less_divisor unat_mod minus_mod_eq_div_mult word_le_nat_alt)
  moreover have "unat (p_vaddr ph) div 4096 * 4096 < 2 ^ 32" using unat_u32 [of "p_vaddr ph"] by (meson div_times_less_eq_dividend le_less_trans)
  ultimately show s: "unat (vaddr_ps ph) = unat (p_vaddr ph) div 4096 * 4096" by (simp add: vaddr_ps_def unsigned_ucast_eq take_bit_nat_eq_self)
  have "vaddr_ps ph \<le> p_vaddr ph" unfolding word_le_nat_alt s by simp
  then show "unat (vaddr_po ph) = unat (p_vaddr ph) mod 4096" by (simp add: vaddr_po_def unat_sub s minus_div_mult_eq_mod)
qed

text \<open>A loadable segment as linkers make them: above the lowest pages and below the stack, with a file part no longer than the memory part and inside the file, and an
  offset that agrees with the address within the page. \<open>bss_covered\<close> is what the loader's arithmetic needs to map
  all of the memory part, and \<open>bss_writable\<close> what its \<^verbatim>\<open>memset\<close> of the rest of the last file page needs.\<close>

definition seg_ok :: "nat \<Rightarrow> Elf32_Phdr \<Rightarrow> bool" where
  "seg_ok flen ph \<longleftrightarrow> unat (p_filesz ph) \<le> unat (p_memsz ph) \<and> unat (p_vaddr ph) + unat (p_memsz ph) \<le> 0xffffd000 \<and>
     unat (p_offset ph) mod 4096 = unat (p_vaddr ph) mod 4096 \<and> 0x10000 \<le> unat (p_vaddr ph) \<and>
     (p_filesz ph \<noteq> 0 \<longrightarrow> unat (p_offset ph) + unat (p_filesz ph) \<le> flen)"

definition bss_covered :: "Elf32_Phdr \<Rightarrow> bool" where
  "bss_covered ph \<longleftrightarrow> p_filesz ph = 0 \<or>
     unat (p_vaddr ph) + unat (p_memsz ph) \<le>
       page_up (unat (p_vaddr ph) + unat (p_filesz ph)) + page_up (unat (p_memsz ph) - unat (p_filesz ph) - unat (p_vaddr ph) mod 4096)"

definition bss_writable :: "Elf32_Phdr \<Rightarrow> bool" where
  "bss_writable ph \<longleftrightarrow> p_filesz ph = 0 \<or> p_filesz ph = p_memsz ph \<or> 4096 dvd unat (p_vaddr ph) + unat (p_filesz ph) \<or> p_flags ph AND PF_W \<noteq> 0"

definition seg_loaded :: "(u64 \<Rightarrow> u8) \<Rightarrow> Elf32_Phdr \<Rightarrow> 'o kernel \<Rightarrow> bool" where
  "seg_loaded file ph k \<longleftrightarrow> (\<forall>x. unat (p_vaddr ph) \<le> unat x \<and> unat x < unat (p_vaddr ph) + unat (p_memsz ph) \<longrightarrow>
     guest_byte k x = (if unat x < unat (p_vaddr ph) + unat (p_filesz ph) then file (ucast (p_offset ph) + of_nat (unat x - unat (p_vaddr ph))) else 0) \<and>
     guest_prot k x = seg_prot ph)"

lemma seg_prot_bits: "seg_prot ph \<le> 7" "seg_prot ph AND PROT_WRITE \<noteq> 0 \<longleftrightarrow> p_flags ph AND PF_W \<noteq> 0"
  by (simp_all add: seg_prot_def PROT_READ_def PROT_WRITE_def PROT_EXEC_def)

lemma fixed_flags: "(MAP_FIXED OR MAP_PRIVATE) AND MAP_FIXED \<noteq> 0" "(MAP_FIXED OR MAP_PRIVATE OR MAP_ANON) AND MAP_FIXED \<noteq> 0"
  "MAP_FIXED OR MAP_PRIVATE OR MAP_ANON = MAP_ANON OR MAP_PRIVATE OR MAP_FIXED"
  by (simp_all add: MAP_FIXED_def MAP_PRIVATE_def MAP_ANON_def)

lemma page_up_idem [simp]: "page_up (page_up n) = page_up n"
  by (simp add: page_up_def)

lemma page_up_mono: "m \<le> n \<Longrightarrow> page_up m \<le> page_up n"
  by (simp add: page_up_def div_le_mono)

lemma page_up_add: "4096 dvd a \<Longrightarrow> page_up (a + n) = a + page_up n"
  by (auto simp: page_up_def add.assoc elim!: dvdE)

lemma window_start: "g2h (k_mmu k) va - mbase (k_mmu k) = ucast va"
  by (simp add: g2h_def)

lemma unat_pages: "unat va + page_up n \<le> 2 ^ 32 \<Longrightarrow> unat (of_nat (page_up n) :: u64) = page_up n"
  by (simp add: unsigned_of_nat take_bit_nat_eq_self)

lemma kmmap_zeros:
  assumes "anon_maps (c_os c)" "maps_granted (c_os c) (mbase (k_mmu k)) fd flen" "4096 dvd unat (mbase (k_mmu k))" "4096 dvd unat va" "0x10000 \<le> unat va"
    and "unat va + page_up (unat len) \<le> 2 ^ 32" "unat len \<le> 2 ^ 32 - 4096" "prot \<le> 7"
  shows "\<exists>r k'. kmmap c va len prot (MAP_FIXED OR MAP_PRIVATE OR MAP_ANON) (-1) 0 k = Inr (r, k') \<and> remapped (unat va) (page_up (unat len)) (\<lambda>_. 0) prot k k'"
proof -
  let ?a = "g2h (k_mmu k) va" and ?n = "of_nat (page_up (unat len)) :: u64" and ?flags = "MAP_ANON OR MAP_PRIVATE OR MAP_FIXED"
  have n: "unat ?n = page_up (unat len)" "4096 dvd unat ?n" using unat_pages [OF assms(6)] page_up(3) [of "unat len"] by simp_all
  have v: "0 < unat va + unat len" using assms(5) by simp
  obtain r h where m: "os_mmap (c_os c) ?a ?n prot ?flags (-1) 0 (k_host k) = (r, h)" by fastforce
  note a = anon_mapsD [OF assms(1) g2h_aligned [OF assms(3,4)] n(2) m]
  have "r \<noteq> None" if "?n \<noteq> 0"
  proof -
    have "fst (os_mmap (c_os c) ?a ?n prot ?flags (-1) 0 (k_host k)) \<noteq> None"
      using assms(2) [unfolded maps_granted_def, rule_format, of ?a ?n 0 prot] g2h_aligned [OF assms(3,4)] n that assms(5,6,8) by (simp add: window_start)
    then show ?thesis using m by simp
  qed
  then have z: "h_mem h x = 0 \<and> h_prot h x = prot" if "unat (x - ?a) < page_up (unat len)" for x
    using a(3) that n(1) by (cases "?n = 0") auto
  have "kept_outside ?a (page_up (unat len)) (k_host k) h" using a(1) n(1) by simp
  from kmmap_remaps [OF assms(3,4) v assms(6,7) fixed_flags(2) m [folded fixed_flags(3)] this, where g = "\<lambda>_. 0"] z show ?thesis by blast
qed

lemma kmmap_file:
  assumes "file_maps (c_os c) file fd flen" "maps_granted (c_os c) (mbase (k_mmu k)) fd flen" "4096 dvd unat (mbase (k_mmu k))" "4096 dvd unat va" "0x10000 \<le> unat va"
    and "unat va + page_up (unat len) \<le> 2 ^ 32" "unat len \<le> 2 ^ 32 - 4096" "prot \<le> 7" "4096 dvd unat offs" "unat offs + page_up (unat len) \<le> page_up flen" "0 < unat len"
  shows "\<exists>r k'. kmmap c va len prot (MAP_FIXED OR MAP_PRIVATE) fd offs k = Inr (r, k') \<and>
    remapped (unat va) (page_up (unat len)) (\<lambda>i. file_part file flen offs (of_nat i)) prot k k'"
proof -
  let ?a = "g2h (k_mmu k) va" and ?n = "of_nat (page_up (unat len)) :: u64"
  have n: "unat ?n = page_up (unat len)" "4096 dvd unat ?n" "0 < unat ?n" using unat_pages [OF assms(6)] page_up(1,3) [of "unat len"] assms(11) by simp_all
  have v: "0 < unat va + unat len" using assms(5) by simp
  obtain r h where m: "os_mmap (c_os c) ?a ?n prot (MAP_FIXED OR MAP_PRIVATE) fd offs (k_host k) = (r, h)" by fastforce
  have a: "kept_outside ?a (unat ?n) (k_host k) h" "\<And>p. r = Some p \<Longrightarrow> \<forall>x. unat (x - ?a) < unat ?n \<longrightarrow> h_prot h x = prot \<and>
           (unat offs + unat (x - ?a) < page_up flen \<longrightarrow> h_mem h x = file_part file flen offs (x - ?a))"
    using assms(1) [unfolded file_maps_def, rule_format, OF g2h_aligned [OF assms(3,4)] n(2) assms(9) m] by blast+
  have "?n \<noteq> 0" using n(3) by auto
  then have "fst (os_mmap (c_os c) ?a ?n prot (MAP_FIXED OR MAP_PRIVATE) fd offs (k_host k)) \<noteq> None"
    using assms(2) [unfolded maps_granted_def, rule_format, of ?a ?n offs prot] g2h_aligned [OF assms(3,4)] n assms(5,6,8,9,10) by (simp add: window_start)
  then obtain p where "r = Some p" using m by auto
  then have z: "h_mem h x = file_part file flen offs (x - ?a) \<and> h_prot h x = prot" if "unat (x - ?a) < page_up (unat len)" for x
    using a(2) that n(1) assms(10) by simp
  have "kept_outside ?a (page_up (unat len)) (k_host k) h" using a(1) n(1) by simp
  from kmmap_remaps [OF assms(3,4) v assms(6,7) fixed_flags(1) m this, where g = "file_part file flen offs"] z show ?thesis by blast
qed

lemma two32: "(2 :: nat) ^ 32 = 4294967296"
  by simp

lemma unat_of_small: "n < 4096 \<Longrightarrow> unat (of_nat n :: u64) = n"
  by (simp add: unsigned_of_nat take_bit_nat_eq_self)

lemma seg_okD:
  assumes "seg_ok flen ph"
  shows "unat (p_filesz ph) \<le> unat (p_memsz ph)" "unat (p_vaddr ph) + unat (p_memsz ph) \<le> 0xffffd000"
    "unat (p_offset ph) mod 4096 = unat (p_vaddr ph) mod 4096" "0x10000 \<le> unat (p_vaddr ph)"
    "p_filesz ph \<noteq> 0 \<Longrightarrow> unat (p_offset ph) + unat (p_filesz ph) \<le> flen"
  using assms by (simp_all add: seg_ok_def)

lemma unat_add_u32: "unat (a :: u32) + unat b < 2 ^ 32 \<Longrightarrow> unat (a + b) = unat a + unat b"
  by (simp add: unat_word_ariths)

lemma bss_length:
  assumes "seg_ok flen ph"
  shows "unat (roundup32 (vaddr_ps ph + p_memsz ph - (p_vaddr ph + p_filesz ph)) PAGE32) =
    page_up (unat (p_memsz ph) - unat (p_filesz ph) - unat (p_vaddr ph) mod 4096)"
proof -
  let ?v = "unat (p_vaddr ph)" and ?f = "unat (p_filesz ph)" and ?m = "unat (p_memsz ph)"
  have v: "?v div 4096 * 4096 + ?v mod 4096 = ?v" by (rule div_mult_mod_eq)
  have e: "unat (vaddr_ps ph + p_memsz ph) = ?v div 4096 * 4096 + ?m" "unat (p_vaddr ph + p_filesz ph) = ?v + ?f"
  proof -
    have "unat (vaddr_ps ph) \<le> ?v" unfolding segment_start by simp
    then show "unat (vaddr_ps ph + p_memsz ph) = ?v div 4096 * 4096 + ?m" "unat (p_vaddr ph + p_filesz ph) = ?v + ?f"
      using seg_okD [OF assms] segment_start(1) [of ph] unat_add_u32 [of "vaddr_ps ph" "p_memsz ph"] unat_add_u32 [of "p_vaddr ph" "p_filesz ph"] by simp_all
  qed
  show ?thesis
  proof (cases "?v + ?f \<le> ?v div 4096 * 4096 + ?m")
    case True
    then have "unat (vaddr_ps ph + p_memsz ph - (p_vaddr ph + p_filesz ph)) = (?v div 4096 * 4096 + ?m) - (?v + ?f)" using e by (simp add: unat_sub word_le_nat_alt)
    also have "\<dots> = ?m - ?f - ?v mod 4096" using v by linarith
    finally have "unat (vaddr_ps ph + p_memsz ph - (p_vaddr ph + p_filesz ph)) = ?m - ?f - ?v mod 4096" .
    moreover have "?m - ?f - ?v mod 4096 \<le> 2 ^ 32 - 4096" using seg_okD(2) [OF assms] unfolding two32 by linarith
    ultimately show ?thesis using round32 [of "vaddr_ps ph + p_memsz ph - (p_vaddr ph + p_filesz ph)"] by metis
  next
    case False
    define d where "d = ?v + ?f - (?v div 4096 * 4096 + ?m)"
    have d: "0 < d" "d < 4096" using False v seg_okD(1) [OF assms] mod_less_divisor [of 4096 ?v] unfolding d_def by linarith+
    have "p_vaddr ph + p_filesz ph = vaddr_ps ph + p_memsz ph + of_nat d"
    proof -
      have "unat (p_vaddr ph + p_filesz ph) = unat (vaddr_ps ph + p_memsz ph) + d" using e False unfolding d_def by linarith
      then have "(of_nat (unat (p_vaddr ph + p_filesz ph)) :: u32) = of_nat (unat (vaddr_ps ph + p_memsz ph) + d)" by simp
      then show ?thesis by simp
    qed
    then have "vaddr_ps ph + p_memsz ph - (p_vaddr ph + p_filesz ph) = - of_nat d" by simp
    moreover have "?m - ?f - ?v mod 4096 = 0" using False v by linarith
    ultimately show ?thesis using round32_neg [OF d] by (simp add: page_up_def)
  qed
qed

text \<open>The zero part: the mapping behind the last page of the file part, and the \<^verbatim>\<open>memset\<close> of the rest of that page, which faults when the page is not
  writable.\<close>

definition bss_done :: "Elf32_Phdr \<Rightarrow> 'o kernel \<Rightarrow> 'o kernel \<Rightarrow> bool" where
  "bss_done ph k k' \<longleftrightarrow>
     (let b = unat (p_vaddr ph) + unat (p_filesz ph); l = page_up (unat (p_memsz ph) - unat (p_filesz ph) - unat (p_vaddr ph) mod 4096) in
      mbase (k_mmu k') = mbase (k_mmu k) \<and>
      (\<forall>x. guest_byte k' x = (if b \<le> unat x \<and> unat x < page_up b + l then 0 else guest_byte k x)) \<and>
      (\<forall>x. guest_prot k' x = (if page_up b \<le> unat x \<and> unat x < page_up b + l then seg_prot ph else guest_prot k x)))"

lemma load_bss_cases:
  assumes "anon_maps (c_os c)" "maps_granted (c_os c) (mbase (k_mmu k)) fd flen" "4096 dvd unat (mbase (k_mmu k))" "seg_ok flen ph" "p_filesz ph \<noteq> 0"
    and b: "bs = unat (p_vaddr ph) + unat (p_filesz ph)"
  shows "load_bss c ph k = Inl Panic \<and> (\<exists>x. bs \<le> unat x \<and> unat x < page_up bs \<and> \<not> guest_writable k x) \<or>
    (\<exists>k'. load_bss c ph k = Inr k' \<and> bss_done ph k k' \<and> (\<forall>x. bs \<le> unat x \<and> unat x < page_up bs \<longrightarrow> guest_writable k x))"
proof -
  define b where "b = p_vaddr ph + p_filesz ph"
  define q where "q = roundup32 b PAGE32"
  define l where "l = roundup32 (vaddr_ps ph + p_memsz ph - b) PAGE32"
  let ?l = "page_up (unat (p_memsz ph) - unat (p_filesz ph) - unat (p_vaddr ph) mod 4096)"
  note ok = seg_okD [OF assms(4)]
  have b: "unat b = bs" "bs \<le> 0xffffd000" "0x10000 \<le> bs" using ok(1,2,4) by (simp_all add: b_def unat_word_ariths assms(6))
  have q: "unat q = page_up bs" using round32 [of b] b by (simp add: q_def)
  have l: "unat l = ?l" "page_up (unat l) = unat l" using bss_length [OF assms(4)] by (simp_all add: l_def b_def)
  have q': "bs \<le> unat q" "unat q < bs + 4096" "4096 dvd unat q" using page_up [of bs] q by simp_all
  have l': "unat l < unat (p_memsz ph) - unat (p_filesz ph) + 4096"
    using l(1) page_up(2) [of "unat (p_memsz ph) - unat (p_filesz ph) - unat (p_vaddr ph) mod 4096"]
      diff_le_self [of "unat (p_memsz ph) - unat (p_filesz ph)" "unat (p_vaddr ph) mod 4096"] by linarith
  have r: "0x10000 \<le> unat q" "unat q + page_up (unat l) \<le> 2 ^ 32" "unat l \<le> 2 ^ 32 - 4096"
    using q' l l' b(2,3) ok(1,2) unfolding two32 assms(6) by linarith+
  obtain r k1 where k1: "kmmap c q l (seg_prot ph) (MAP_FIXED OR MAP_PRIVATE OR MAP_ANON) (-1) 0 k = Inr (r, k1)" "remapped (unat q) (unat l) (\<lambda>_. 0) (seg_prot ph) k k1"
    using kmmap_zeros [OF assms(1-3) q'(3) r seg_prot_bits(1) [of ph]] unfolding l(2) by blast
  have d: "unat (q - b) = unat q - bs" using q'(1) b(1) by (simp add: unat_sub word_le_nat_alt)
  have dd: "unat b + unat (q - b) = unat q" using d b(1) q'(1) by simp
  have z: "q - b = 0 \<longleftrightarrow> unat q = bs" using d q'(1) by (simp add: unat_eq_0 [symmetric])
  have w: "guest_writable k1 x = guest_writable k x" if "unat x < unat q" for x
    using k1(2) that by (simp add: remapped_def guest_writable_prot)
  have e: "load_bss c ph k = (if q - b \<noteq> 0 then kzero b (q - b) k1 else Inr k1)"
    using k1(1) by (simp add: load_bss_def b_def [symmetric] q_def [symmetric] l_def [symmetric] Let_def)
  show ?thesis
  proof (cases "q - b = 0")
    case True
    then have eq: "page_up bs = bs" using z q by simp
    have "bss_done ph k k1" using k1(2) unfolding bss_done_def Let_def assms(6) [symmetric] remapped_def q l eq by simp
    then show ?thesis using True e eq by auto
  next
    case False
    have ll: "unat b + unat (q - b) \<le> 2 ^ 32" using dd unat_u32 [of q] by simp
    from ll show ?thesis
    proof (cases rule: kzero_cases [where k = k1])
      case (fault x)
      then have "bs \<le> unat x \<and> unat x < page_up bs \<and> \<not> guest_writable k x" using w [of x] dd b(1) q by simp
      then show ?thesis using e False fault(1) by auto
    next
      case (cleared h)
      let ?k = "k1\<lparr>k_host := h\<rparr>"
      have p: "guest_prot ?k x = guest_prot k1 x" for x using cleared(2) by (simp add: guest_prot_def)
      have "bss_done ph k ?k" unfolding bss_done_def Let_def assms(6) [symmetric]
      proof (intro conjI allI)
        fix x
        show "guest_byte ?k x = (if bs \<le> unat x \<and> unat x < page_up bs + ?l then 0 else guest_byte k x)"
          using cleared(4) k1(2) b(1) dd q'(1) unfolding remapped_def q l(1) by auto
        show "guest_prot ?k x = (if page_up bs \<le> unat x \<and> unat x < page_up bs + ?l then seg_prot ph else guest_prot k x)"
          using k1(2) unfolding p remapped_def q l(1) by simp
      qed (use k1(2) in \<open>simp add: remapped_def\<close>)
      moreover have "guest_writable k x" if "bs \<le> unat x" "unat x < page_up bs" for x
        using cleared(3) w [of x] that b(1) dd q by simp
      ultimately show ?thesis using e False cleared(1) by auto
    qed
  qed
qed

text \<open>The mapping of the file part.\<close>

lemma map_file_part:
  assumes "file_maps (c_os c) file fd flen" "maps_granted (c_os c) (mbase (k_mmu k)) fd flen" "4096 dvd unat (mbase (k_mmu k))" "seg_ok flen ph" "p_filesz ph \<noteq> 0"
    and v: "v = unat (p_vaddr ph)" and f: "f = unat (p_filesz ph)"
  shows "\<exists>r k'. kmmap c (vaddr_ps ph) (ucast (roundup (ucast (p_filesz ph + vaddr_po ph)) PAGE_SIZE)) (seg_prot ph) (MAP_FIXED OR MAP_PRIVATE) fd
      (ucast (p_offset ph - vaddr_po ph)) k = Inr (r, k') \<and> mbase (k_mmu k') = mbase (k_mmu k) \<and>
    (\<forall>x. unat x < v div 4096 * 4096 \<longrightarrow> guest_byte k' x = guest_byte k x \<and> guest_prot k' x = guest_prot k x) \<and>
    (\<forall>x. v \<le> unat x \<and> unat x < v + f \<longrightarrow> guest_byte k' x = file (ucast (p_offset ph) + of_nat (unat x - v))) \<and>
    (\<forall>x. v \<le> unat x \<and> unat x < page_up (v + f) \<longrightarrow> guest_prot k' x = seg_prot ph)"
proof -
  let ?s = "v div 4096 * 4096" and ?o = "v mod 4096"
  let ?len = "ucast (roundup (ucast (p_filesz ph + vaddr_po ph)) PAGE_SIZE) :: u32" and ?offs = "ucast (p_offset ph - vaddr_po ph) :: u64"
  have so: "?s + ?o = v" "?o < 4096" by simp_all
  note ok = seg_okD [OF assms(4), folded v f] and st = segment_start [of ph, folded v]
  have sd: "4096 dvd unat (vaddr_ps ph)" "0x10000 \<le> unat (vaddr_ps ph)"
  proof -
    show "4096 dvd unat (vaddr_ps ph)" unfolding st by simp
    have "16 \<le> v div 4096" using div_le_mono [OF ok(4), of 4096] by simp
    then show "0x10000 \<le> unat (vaddr_ps ph)" unfolding st by simp
  qed
  have z: "unat (p_filesz ph + vaddr_po ph) = f + ?o" using unat_add_u32 [of "p_filesz ph" "vaddr_po ph"] ok(1,2) so unfolding st f by simp
  have l: "unat ?len = page_up (f + ?o)" "page_up (unat ?len) = page_up (f + ?o)"
    using round_page [of "p_filesz ph + vaddr_po ph"] z ok(1,2) so by simp_all
  have up: "page_up (v + f) = ?s + page_up (f + ?o)" using page_up_add [of ?s "f + ?o"] so(1) by (simp add: ac_simps)
  have f0: "0 < f" using assms(5) by (simp add: unat_gt_0 f)
  have r: "unat (vaddr_ps ph) + page_up (unat ?len) \<le> 2 ^ 32" "unat ?len \<le> 2 ^ 32 - 4096" "0 < unat ?len"
    using page_up(1,2) [of "f + ?o"] l f0 ok(1,2) so unfolding st two32 by linarith+
  have po: "?o \<le> unat (p_offset ph)" using ok(3) by (metis mod_less_eq_dividend)
  then have uo: "unat ?offs = unat (p_offset ph) - ?o" by (simp add: unat_sub word_le_nat_alt st)
  then have od: "4096 dvd unat ?offs" using ok(3) by (metis minus_mod_eq_mult_div dvd_triv_left)
  have inf: "unat ?offs + page_up (unat ?len) \<le> page_up flen"
  proof -
    have "unat ?offs + (f + ?o) = unat (p_offset ph) + f" using uo po by simp
    then have "unat ?offs + page_up (unat ?len) = page_up (unat (p_offset ph) + f)" using page_up_add [OF od, of "f + ?o"] unfolding l(2) by metis
    also have "\<dots> \<le> page_up flen" using ok(5) assms(5) by (intro page_up_mono) simp
    finally show ?thesis .
  qed
  obtain r k1 where k1: "kmmap c (vaddr_ps ph) ?len (seg_prot ph) (MAP_FIXED OR MAP_PRIVATE) fd ?offs k = Inr (r, k1)"
      "remapped ?s (page_up (f + ?o)) (\<lambda>i. file_part file flen ?offs (of_nat i)) (seg_prot ph) k k1"
    using kmmap_file [OF assms(1-3) sd r(1,2) seg_prot_bits(1) od inf r(3)] unfolding l(2) st by blast
  have "guest_byte k1 x = file (ucast (p_offset ph) + of_nat (unat x - v))" if x: "v \<le> unat x" "unat x < v + f" for x
  proof -
    have i: "?s \<le> unat x" "unat x < ?s + page_up (f + ?o)" "unat x - ?s = ?o + (unat x - v)" using x so(1) page_up(1) [of "f + ?o"] by linarith+
    have u: "unat (of_nat (unat x - ?s) :: u64) = unat x - ?s" using unat_u32 [of x] by (simp add: unsigned_of_nat take_bit_nat_eq_self)
    have o: "?offs + of_nat ?o = (ucast (p_offset ph) :: u64)"
    proof -
      have "unat (?offs + of_nat ?o) = unat (ucast (p_offset ph) :: u64)"
        using uo po so(2) unat_u32 [of "p_offset ph"] unat_of_small [of ?o] by (simp add: unat_word_ariths)
      then show ?thesis by (rule unsigned_word_eqI)
    qed
    have "unat ?offs + (unat x - ?s) = unat (p_offset ph) + (unat x - v)" using i(3) uo po by linarith
    then have "unat ?offs + (unat x - ?s) < flen" using x ok(5) [OF assms(5)] by linarith
    then have "guest_byte k1 x = file (?offs + of_nat (unat x - ?s))" using k1(2) i(1,2) u by (simp add: remapped_def file_part_def)
    also have "?offs + of_nat (unat x - ?s) = ucast (p_offset ph) + of_nat (unat x - v)" unfolding i(3) of_nat_add o [symmetric] by (simp only: add.assoc)
    finally show ?thesis .
  qed
  moreover have "guest_prot k1 x = seg_prot ph" if "v \<le> unat x" "unat x < page_up (v + f)" for x
  proof -
    have "?s \<le> unat x" using that(1) so(1) by linarith
    then show ?thesis using k1(2) that(2) unfolding up remapped_def by simp
  qed
  ultimately show ?thesis using k1 by (intro exI [of _ r] exI [of _ k1]) (auto simp: remapped_def)
qed

text \<open>The host for one file: its bytes and length, and that mappings behave as documented and are granted.\<close>

definition loads_from :: "'o calls \<Rightarrow> u64 \<Rightarrow> (u64 \<Rightarrow> u8) \<Rightarrow> u32 \<Rightarrow> nat \<Rightarrow> bool" where
  "loads_from c base file fd flen \<longleftrightarrow>
     anon_maps (c_os c) \<and> file_maps (c_os c) file fd flen \<and> maps_granted (c_os c) base fd flen \<and> 4096 dvd unat base"

lemma map_segment_ok:
  assumes l: "loads_from c (mbase (k_mmu k)) file fd flen" and "seg_ok flen ph" "bss_covered ph" "bss_writable ph"
  shows "\<exists>k'. map_segment c fd ph k = Inr k' \<and> mbase (k_mmu k') = mbase (k_mmu k) \<and> seg_loaded file ph k' \<and>
    (\<forall>x. unat x < unat (p_vaddr ph) div 4096 * 4096 \<longrightarrow> guest_byte k' x = guest_byte k x) \<and>
    (\<forall>x. unat x < unat (p_vaddr ph) div 4096 * 4096 \<longrightarrow> guest_prot k' x = guest_prot k x)"
proof -
  let ?v = "unat (p_vaddr ph)" and ?f = "unat (p_filesz ph)" and ?m = "unat (p_memsz ph)" and ?s = "unat (p_vaddr ph) div 4096 * 4096" and ?o = "unat (p_vaddr ph) mod 4096"
  have v: "?s + ?o = ?v" "?o < 4096" by simp_all
  note ok = seg_okD [OF assms(2)]
  have h: "anon_maps (c_os c)" "file_maps (c_os c) file fd flen" "maps_granted (c_os c) (mbase (k_mmu k)) fd flen" "4096 dvd unat (mbase (k_mmu k))"
    using l by (simp_all add: loads_from_def)
  consider "p_filesz ph \<noteq> 0" | "p_filesz ph = 0" "p_memsz ph \<noteq> 0" | "p_filesz ph = 0" "p_memsz ph = 0" by blast
  then show ?thesis
  proof cases
    case 1
    let ?len = "ucast (roundup (ucast (p_filesz ph + vaddr_po ph)) PAGE_SIZE) :: u32" and ?offs = "ucast (p_offset ph - vaddr_po ph) :: u64"
    obtain r k1 where k1: "kmmap c (vaddr_ps ph) ?len (seg_prot ph) (MAP_FIXED OR MAP_PRIVATE) fd ?offs k = Inr (r, k1)" "mbase (k_mmu k1) = mbase (k_mmu k)"
        "\<forall>x. unat x < ?s \<longrightarrow> guest_byte k1 x = guest_byte k x \<and> guest_prot k1 x = guest_prot k x"
        "\<forall>x. ?v \<le> unat x \<and> unat x < ?v + ?f \<longrightarrow> guest_byte k1 x = file (ucast (p_offset ph) + of_nat (unat x - ?v))"
        "\<forall>x. ?v \<le> unat x \<and> unat x < page_up (?v + ?f) \<longrightarrow> guest_prot k1 x = seg_prot ph"
      using map_file_part [OF h(2,3,4) assms(2) 1 refl refl] by (elim exE conjE) (rule that)
    show ?thesis
    proof (cases "p_filesz ph < p_memsz ph")
      case True
      let ?b = "?v + ?f" and ?n = "page_up (?m - ?f - ?o)"
      have h1: "maps_granted (c_os c) (mbase (k_mmu k1)) fd flen" "4096 dvd unat (mbase (k_mmu k1))" using h(3,4) k1(2) by simp_all
      have "guest_writable k1 x" if x: "?b \<le> unat x" "unat x < page_up ?b" for x
      proof -
        have "\<not> 4096 dvd ?b" using x by (auto simp: page_up_def elim!: dvdE)
        then have "p_flags ph AND PF_W \<noteq> 0" using assms(4) 1 True by (auto simp: bss_writable_def)
        then show ?thesis using k1(5) x seg_prot_bits(2) [of ph] by (simp add: guest_writable_prot)
      qed
      then obtain k2 where k2: "load_bss c ph k1 = Inr k2" "bss_done ph k1 k2"
        using load_bss_cases [OF h(1) h1 assms(2) 1 refl] by blast
      note d = k2(2) [unfolded bss_done_def Let_def]
      have cov: "?v + ?m \<le> page_up ?b + ?n" using assms(3) 1 by (simp add: bss_covered_def)
      have "seg_loaded file ph k2" unfolding seg_loaded_def
      proof (intro allI impI conjI)
        fix x :: u32 assume x: "?v \<le> unat x \<and> unat x < ?v + ?m"
        show "guest_byte k2 x = (if unat x < ?b then file (ucast (p_offset ph) + of_nat (unat x - ?v)) else 0)" using d k1(4) x cov by simp
        show "guest_prot k2 x = seg_prot ph" using d k1(5) x cov by (cases "unat x < page_up ?b") simp_all
      qed
      moreover have "guest_byte k2 x = guest_byte k x \<and> guest_prot k2 x = guest_prot k x" if "unat x < ?s" for x
      proof -
        have "\<not> ?b \<le> unat x" "\<not> page_up ?b \<le> unat x" using that v(1) page_up(1) [of ?b] by linarith+
        then show ?thesis using d k1(3) that by simp
      qed
      ultimately show ?thesis using k1(1,2) k2(1) d True 1 by (intro exI [of _ k2]) (simp add: map_segment_def)
    next
      case False
      then have "?m = ?f" using ok(1) by (simp add: word_less_nat_alt)
      then have "seg_loaded file ph k1" using k1(4,5) page_up(1) [of "?v + ?f"] unfolding seg_loaded_def by (metis (no_types, lifting) order_less_le_trans)
      then show ?thesis using k1(1-3) False 1 by (intro exI [of _ k1]) (simp add: map_segment_def)
    qed
  next
    case 2
    let ?l = "roundup32 (p_memsz ph + vaddr_po ph) PAGE32"
    have "unat (p_memsz ph + vaddr_po ph) = ?m + ?o"
      using unat_add_u32 [of "p_memsz ph" "vaddr_po ph"] ok(2) v unfolding segment_start two32 by linarith
    then have l: "unat ?l = page_up (?m + ?o)" "page_up (unat ?l) = page_up (?m + ?o)" using round32 [of "p_memsz ph + vaddr_po ph"] ok v by simp_all
    have "16 \<le> ?v div 4096" using div_le_mono [OF ok(4), of 4096] by simp
    then have r: "4096 dvd unat (vaddr_ps ph)" "0x10000 \<le> unat (vaddr_ps ph)" "unat (vaddr_ps ph) + page_up (unat ?l) \<le> 2 ^ 32" "unat ?l \<le> 2 ^ 32 - 4096"
      using page_up(2) [of "?m + ?o"] l ok(2) v unfolding segment_start two32 by simp_all
    obtain r k1 where k1: "kmmap c (vaddr_ps ph) ?l (seg_prot ph) (MAP_FIXED OR MAP_PRIVATE OR MAP_ANON) (-1) 0 k = Inr (r, k1)"
        "remapped ?s (page_up (?m + ?o)) (\<lambda>_. 0) (seg_prot ph) k k1"
      using kmmap_zeros [OF h(1,3,4) r seg_prot_bits(1) [of ph]] unfolding l(2) segment_start by blast
    have "unat x < ?s + page_up (?m + ?o)" if "unat x < ?v + ?m" for x :: u32 using that page_up(1) [of "?m + ?o"] v(1) by linarith
    moreover have "?s \<le> unat x" if "?v \<le> unat x" for x :: u32 using that v(1) by linarith
    ultimately have "seg_loaded file ph k1" using k1(2) 2(1) by (simp add: seg_loaded_def remapped_def)
    then show ?thesis using k1 2 by (intro exI [of _ k1]) (simp add: map_segment_def remapped_def)
  next
    case 3
    then show ?thesis by (intro exI [of _ k]) (auto simp: map_segment_def seg_loaded_def)
  qed
qed

text \<open>The condition \<open>bss_writable\<close> is not idle: without write permission, the loader stops with a memory fault in its own \<^verbatim>\<open>memset\<close>.\<close>

lemma read_only_bss_faults:
  assumes l: "loads_from c (mbase (k_mmu k)) file fd flen" and "seg_ok flen ph" and "p_filesz ph \<noteq> 0" and "p_filesz ph < p_memsz ph"
    and "\<not> 4096 dvd unat (p_vaddr ph) + unat (p_filesz ph)" and "p_flags ph AND PF_W = 0"
  shows "map_segment c fd ph k = Inl Panic"
proof -
  let ?b = "unat (p_vaddr ph) + unat (p_filesz ph)"
  have h: "anon_maps (c_os c)" "file_maps (c_os c) file fd flen" "maps_granted (c_os c) (mbase (k_mmu k)) fd flen" "4096 dvd unat (mbase (k_mmu k))"
    using l by (simp_all add: loads_from_def)
  obtain r k1 where k1: "kmmap c (vaddr_ps ph) (ucast (roundup (ucast (p_filesz ph + vaddr_po ph)) PAGE_SIZE)) (seg_prot ph) (MAP_FIXED OR MAP_PRIVATE) fd
        (ucast (p_offset ph - vaddr_po ph)) k = Inr (r, k1)" "mbase (k_mmu k1) = mbase (k_mmu k)"
      "\<forall>x. unat (p_vaddr ph) \<le> unat x \<and> unat x < page_up ?b \<longrightarrow> guest_prot k1 x = seg_prot ph"
    using map_file_part [OF h(2,3,4) assms(2,3) refl refl] by (elim exE conjE) (rule that)
  have h1: "maps_granted (c_os c) (mbase (k_mmu k1)) fd flen" "4096 dvd unat (mbase (k_mmu k1))" using h(3,4) k1(2) by simp_all
  have b: "?b < page_up ?b" using page_up(1,3) [of ?b] assms(5) by (cases "?b = page_up ?b") auto
  let ?x = "p_vaddr ph + p_filesz ph"
  have x: "unat ?x = ?b" using seg_okD(1,2) [OF assms(2)] unat_add_u32 [of "p_vaddr ph" "p_filesz ph"] by simp
  then have "guest_prot k1 ?x = seg_prot ph" using k1(3) b by simp
  then have "\<not> guest_writable k1 ?x" using seg_prot_bits(2) [of ph] assms(6) by (simp add: guest_writable_prot)
  then have "load_bss c ph k1 = Inl Panic" using load_bss_cases [OF h(1) h1 assms(2,3) refl] x b by auto
  then show ?thesis using k1(1) assms(3,4) by (simp add: map_segment_def)
qed

text \<open>The segments of an image come in ascending order and do not share pages.\<close>

definition loadable :: "Elf32_Phdr \<Rightarrow> bool" where "loadable ph \<longleftrightarrow> p_type ph = PT_LOAD"

definition image_ok :: "nat \<Rightarrow> Elf32_Phdr list \<Rightarrow> bool" where
  "image_ok flen phs \<longleftrightarrow> (\<forall>ph\<in>set phs. loadable ph \<longrightarrow> seg_ok flen ph \<and> bss_covered ph \<and> bss_writable ph) \<and>
     sorted_wrt (\<lambda>p q. loadable p \<longrightarrow> loadable q \<longrightarrow> unat (p_vaddr p) + unat (p_memsz p) \<le> unat (p_vaddr q) div 4096 * 4096) phs"

lemma seg_loaded_frame:
  "seg_loaded file ph k \<Longrightarrow> (\<And>x. unat x < unat (p_vaddr ph) + unat (p_memsz ph) \<Longrightarrow> guest_byte k' x = guest_byte k x \<and> guest_prot k' x = guest_prot k x) \<Longrightarrow>
     seg_loaded file ph k'"
  by (simp add: seg_loaded_def)

lemma load_segments_ok:
  assumes "loads_from c (mbase (k_mmu k)) file fd flen" "image_ok flen phs"
  shows "\<exists>elf' k'. load_segments c fd phs (elf, k) = Inr (elf', k') \<and> mbase (k_mmu k') = mbase (k_mmu k) \<and> elf_entry elf' = elf_entry elf \<and> ehdr elf' = ehdr elf \<and>
    elf_brk elf \<le> elf_brk elf' \<and> (\<forall>ph\<in>set phs. loadable ph \<longrightarrow> seg_loaded file ph k' \<and> p_vaddr ph + p_memsz ph \<le> elf_brk elf') \<and>
    (\<forall>x. (\<forall>ph\<in>set phs. loadable ph \<longrightarrow> unat x < unat (p_vaddr ph) div 4096 * 4096) \<longrightarrow> guest_byte k' x = guest_byte k x \<and> guest_prot k' x = guest_prot k x)"
  using assms
proof (induction phs arbitrary: elf k)
  case (Cons ph phs)
  have ok: "image_ok flen phs" using Cons.prems(2) by (simp add: image_ok_def)
  show ?case
  proof (cases "loadable ph")
    case False
    then show ?thesis using Cons.IH [OF Cons.prems(1) ok, of elf] by (simp add: load_segment_def loadable_def)
  next
    case True
    have s: "seg_ok flen ph" "bss_covered ph" "bss_writable ph" using Cons.prems(2) True by (simp_all add: image_ok_def)
    obtain k1 where k1: "map_segment c fd ph k = Inr k1" "mbase (k_mmu k1) = mbase (k_mmu k)" "seg_loaded file ph k1"
        "\<And>x. unat x < unat (p_vaddr ph) div 4096 * 4096 \<Longrightarrow> guest_byte k1 x = guest_byte k x \<and> guest_prot k1 x = guest_prot k x"
      using map_segment_ok [OF Cons.prems(1) s] by blast
    define elf1 where "elf1 = elf\<lparr>load_addr := min (load_addr elf) (p_vaddr ph - p_offset ph), elf_brk := max (elf_brk elf) (p_vaddr ph + p_memsz ph)\<rparr>"
    have l: "load_segments c fd (ph # phs) (elf, k) = load_segments c fd phs (elf1, k1)"
      using True k1(1) by (simp add: load_segment_def loadable_def elf1_def)
    have "loads_from c (mbase (k_mmu k1)) file fd flen" using Cons.prems(1) k1(2) by simp
    from Cons.IH [OF this ok, of elf1] obtain elf' k' where r: "load_segments c fd phs (elf1, k1) = Inr (elf', k')" "mbase (k_mmu k') = mbase (k_mmu k1)"
        "elf_entry elf' = elf_entry elf1" "ehdr elf' = ehdr elf1" "elf_brk elf1 \<le> elf_brk elf'"
        "\<forall>ph\<in>set phs. loadable ph \<longrightarrow> seg_loaded file ph k' \<and> p_vaddr ph + p_memsz ph \<le> elf_brk elf'"
        "\<forall>x. (\<forall>ph\<in>set phs. loadable ph \<longrightarrow> unat x < unat (p_vaddr ph) div 4096 * 4096) \<longrightarrow> guest_byte k' x = guest_byte k1 x \<and> guest_prot k' x = guest_prot k1 x" by blast
    have "guest_byte k' x = guest_byte k1 x \<and> guest_prot k' x = guest_prot k1 x" if "unat x < unat (p_vaddr ph) + unat (p_memsz ph)" for x
    proof -
      have "\<forall>q\<in>set phs. loadable q \<longrightarrow> unat x < unat (p_vaddr q) div 4096 * 4096"
        using Cons.prems(2) True that less_le_trans unfolding image_ok_def sorted_wrt.simps by blast
      then show ?thesis using r(7) by blast
    qed
    then have f: "seg_loaded file ph k'" by (rule seg_loaded_frame [OF k1(3)])
    have b: "elf_brk elf \<le> elf_brk elf'" "p_vaddr ph + p_memsz ph \<le> elf_brk elf'" using r(5) by (simp_all add: elf1_def)
    have "guest_byte k' x = guest_byte k x \<and> guest_prot k' x = guest_prot k x" if "\<forall>ph\<in>set (ph # phs). loadable ph \<longrightarrow> unat x < unat (p_vaddr ph) div 4096 * 4096" for x
      using r(7) k1(4) [of x] that True by simp
    then show ?thesis using l r(1-4,6) f b k1(2) by (intro exI [of _ elf'] exI [of _ k']) (simp add: elf1_def)
  qed
qed simp

section \<open>The loader\<close>

text \<open>Reading inside a file of \<open>flen\<close> bytes succeeds and leaves memory alone.\<close>

definition file_bytes :: "(u64 \<Rightarrow> u8) \<Rightarrow> u64 \<Rightarrow> nat \<Rightarrow> u8 list" where "file_bytes file offs n = map (\<lambda>i. file (offs + of_nat i)) [0..<n]"

definition reads_ok :: "'o calls \<Rightarrow> (u64 \<Rightarrow> u8) \<Rightarrow> u32 \<Rightarrow> nat \<Rightarrow> bool" where
  "reads_ok c file fd flen \<longleftrightarrow> (\<forall>n offs h. unat offs + n \<le> flen \<longrightarrow>
     (\<exists>h'. c_pread c fd n offs h = (of_nat n, file_bytes file offs n, h') \<and> h_mem h' = h_mem h))"

definition elf_header :: "(u64 \<Rightarrow> u8) \<Rightarrow> Elf32_Ehdr" where "elf_header file = read_ehdr (file_bytes file 0 sizeof_Ehdr)"

definition elf_phdrs :: "(u64 \<Rightarrow> u8) \<Rightarrow> Elf32_Phdr list" where
  "elf_phdrs file =
     (let eh = elf_header file; n = unat (e_phnum eh) in phdrs_of n (file_bytes file (ucast (e_phoff eh)) (sizeof_Phdr * n)))"

definition elf_file_ok :: "(u64 \<Rightarrow> u8) \<Rightarrow> nat \<Rightarrow> bool" where
  "elf_file_ok file flen \<longleftrightarrow>
     (let eh = elf_header file in
      take 4 (e_ident eh) = 0x7f # ascii ''ELF'' \<and> e_machine eh = EM_RISCV \<and> e_type eh = ET_EXEC \<and> sizeof_Ehdr \<le> flen \<and>
      unat (e_phoff eh) + sizeof_Phdr * unat (e_phnum eh) \<le> flen \<and> image_ok flen (elf_phdrs file))"

text \<open>C10. The loader is right for well-formed executables: header, program headers and file parts inside the file, loadable segments in
  ascending order on pages of their own above the lowest 16 and below the stack, whose memory part the loader's rounding covers, and with write permission where
  the rest of a file page is to be cleared. On a host that maps
  files as documented and has memory to spare, it returns; every byte of the file part of every segment is then in guest memory at its address, the rest of
  the segment is zero, each byte has the protection of the segment's flags, the entry point is the header's, and the break lies at or above the end of every segment.\<close>

theorem load_elf_correct:
  assumes "loads_from c (mbase (k_mmu k)) file fd flen" and "reads_ok c file fd flen" and "elf_file_ok file flen"
  shows "\<exists>elf' k'. LoadElf c fd elf k = Inr (elf', k') \<and> elf_entry elf' = e_entry (elf_header file) \<and> mbase (k_mmu k') = mbase (k_mmu k) \<and>
    (\<forall>ph\<in>set (elf_phdrs file). p_type ph = PT_LOAD \<longrightarrow> p_vaddr ph + p_memsz ph \<le> elf_brk elf' \<and>
       (\<forall>x. unat (p_vaddr ph) \<le> unat x \<and> unat x < unat (p_vaddr ph) + unat (p_memsz ph) \<longrightarrow>
          guest_byte k' x = (if unat x < unat (p_vaddr ph) + unat (p_filesz ph) then file (ucast (p_offset ph) + of_nat (unat x - unat (p_vaddr ph))) else 0) \<and>
          guest_prot k' x = seg_prot ph))"
proof -
  define eh where "eh = elf_header file"
  define n where "n = unat (e_phnum eh)"
  have f: "take 4 (e_ident eh) = 0x7f # ascii ''ELF''" "e_machine eh = EM_RISCV" "e_type eh = ET_EXEC" "unat (0 :: u64) + sizeof_Ehdr \<le> flen"
      "unat (ucast (e_phoff eh) :: u64) + sizeof_Phdr * n \<le> flen" "image_ok flen (elf_phdrs file)"
    using assms(3) by (simp_all add: elf_file_ok_def Let_def eh_def n_def)
  obtain h1 where h1: "c_pread c fd sizeof_Ehdr 0 (k_host k) = (of_nat sizeof_Ehdr, file_bytes file 0 sizeof_Ehdr, h1)" "h_mem h1 = h_mem (k_host k)"
    using assms(2) f(4) unfolding reads_ok_def by blast
  obtain h2 where h2: "c_pread c fd (sizeof_Phdr * n) (ucast (e_phoff eh)) h1 = (of_nat (sizeof_Phdr * n), file_bytes file (ucast (e_phoff eh)) (sizeof_Phdr * n), h2)"
    using assms(2) f(5) unfolding reads_ok_def by blast
  have e: "read_ehdr (file_bytes file 0 sizeof_Ehdr) = eh" by (simp add: eh_def elf_header_def)
  have p: "phdrs_of n (file_bytes file (ucast (e_phoff eh)) (sizeof_Phdr * n)) = elf_phdrs file" by (simp add: elf_phdrs_def eh_def n_def Let_def)
  let ?elf = "elf\<lparr>ehdr := eh, load_addr := -1, elf_brk := 0, elf_entry := e_entry eh\<rparr>" and ?k = "k\<lparr>k_host := h2\<rparr>"
  have "LoadElf c fd elf k = load_segments c fd (elf_phdrs file) (?elf, ?k)"
    using h1(1) h2 f(1-3) e p by (simp add: LoadElf_def Let_def n_def [symmetric] del: of_nat_mult)
  moreover have "loads_from c (mbase (k_mmu ?k)) file fd flen" using assms(1) by simp
  from load_segments_ok [OF this f(6), of ?elf] obtain elf' k' where
      r: "load_segments c fd (elf_phdrs file) (?elf, ?k) = Inr (elf', k')" "mbase (k_mmu k') = mbase (k_mmu ?k)" "elf_entry elf' = elf_entry ?elf"
        "\<forall>ph\<in>set (elf_phdrs file). loadable ph \<longrightarrow> seg_loaded file ph k' \<and> p_vaddr ph + p_memsz ph \<le> elf_brk elf'" by blast
  ultimately show ?thesis using r(1-3) r(4) [unfolded loadable_def seg_loaded_def]
    by (intro exI [of _ elf'] exI [of _ k']) (simp add: eh_def)
qed

text \<open>The condition \<open>bss_covered\<close> is not idle: for this segment the loader leaves the last page unmapped, because it computes
  the end of the zero part from the start of the page instead of the segment's address.\<close>

definition short_bss :: Elf32_Phdr where
  "short_bss = \<lparr>p_type = PT_LOAD, p_offset = 0x1800, p_vaddr = 0x11800, p_filesz = 0x800, p_memsz = 0x1900, p_flags = 6\<rparr>"

lemma bss_page_missing:
  assumes "loads_from c (mbase (k_mmu k)) file fd flen" and "0x2000 \<le> flen"
  shows "seg_ok flen short_bss \<and> (\<exists>k'. load_bss c short_bss k = Inr k' \<and> guest_byte k' 0x13000 = guest_byte k 0x13000 \<and> guest_prot k' 0x13000 = guest_prot k 0x13000)"
proof
  show s: "seg_ok flen short_bss" using assms(2) by (simp add: seg_ok_def short_bss_def)
  have h: "anon_maps (c_os c)" "maps_granted (c_os c) (mbase (k_mmu k)) fd flen" "4096 dvd unat (mbase (k_mmu k))"
    using assms(1) by (simp_all add: loads_from_def)
  have "p_filesz short_bss \<noteq> 0" by (simp add: short_bss_def)
  from load_bss_cases [OF h s this refl]
  show "\<exists>k'. load_bss c short_bss k = Inr k' \<and> guest_byte k' 0x13000 = guest_byte k 0x13000 \<and> guest_prot k' 0x13000 = guest_prot k 0x13000"
    by (auto simp: bss_done_def short_bss_def page_up_def)
qed

section \<open>An example executable\<close>

definition example_elf :: "u8 list" where
  "example_elf =
     [0x7f, 0x45, 0x4c, 0x46, 1, 1, 1, 0, 0, 0, 0, 0, 0, 0, 0, 0, 2, 0, 243, 0, 1, 0, 0, 0, 0x54, 0, 1, 0, 52, 0, 0, 0] @
     [0, 0, 0, 0, 0, 0, 0, 0, 52, 0, 32, 0, 1, 0, 0, 0, 0, 0, 0, 0] @
     [1, 0, 0, 0, 0, 0, 0, 0, 0, 0, 1, 0, 0, 0, 1, 0, 0x58, 0, 0, 0, 0, 1, 0, 0, 7, 0, 0, 0, 0, 0x10, 0, 0] @ [0x73, 0, 0, 0]"

definition example_file :: "u64 \<Rightarrow> u8" where
  "example_file i = (if unat i < length example_elf then example_elf ! unat i else 0)"

text \<open>A host with this file open that maps what it is asked to.\<close>

definition elf_calls :: "unit calls" where
  "elf_calls = example_calls\<lparr>
     c_os := \<lparr>os_mmap = \<lambda>a len prot flags fd offs h.
                (if len = 0 then None else Some a,
                 h\<lparr>h_mem := \<lambda>x. if unat (x - a) < unat len then (if flags AND MAP_ANON = 0 then file_part example_file 88 offs (x - a) else 0) else h_mem h x,
                   h_prot := \<lambda>x. if unat (x - a) < unat len then prot else h_prot h x\<rparr>),
              os_munmap = \<lambda>_ _ h. (True, h)\<rparr>,
     c_pread := \<lambda>fd n offs h. (of_nat n, file_bytes example_file offs n, h)\<rparr>"

lemma elf_calls_ok: "4096 dvd unat base \<Longrightarrow> loads_from elf_calls base example_file 3 88" "reads_ok elf_calls example_file 3 88"
  by (auto simp: loads_from_def anon_maps_def file_maps_def maps_granted_def kept_outside_def reads_ok_def elf_calls_def MAP_FIXED_def MAP_PRIVATE_def MAP_ANON_def)

definition example_phdr :: Elf32_Phdr where
  "example_phdr = \<lparr>p_type = 1, p_offset = 0, p_vaddr = 0x10000, p_filesz = 0x58, p_memsz = 0x100, p_flags = 7\<rparr>"

lemma example_header:
  "file_bytes example_file 0 52 = take 52 example_elf" "file_bytes example_file 52 32 = take 32 (drop 52 example_elf)"
proof -
  have l: "length example_elf = 88" by (simp add: example_elf_def)
  have "unat (of_nat i :: u64) = i" if "i < 88" for i using that by (simp add: unsigned_of_nat take_bit_nat_eq_self)
  then have e: "example_file (of_nat i) = example_elf ! i" if "i < 88" for i using that l by (simp add: example_file_def)
  show "file_bytes example_file 0 52 = take 52 example_elf"
    by (rule nth_equalityI) (use e l in \<open>simp_all add: file_bytes_def\<close>)
  have "example_file (52 + of_nat i) = example_elf ! (52 + i)" if "i < 32" for i using e [of "52 + i"] that by simp
  then show "file_bytes example_file 52 32 = take 32 (drop 52 example_elf)"
    using l by (intro nth_equalityI) (simp_all add: file_bytes_def)
qed

lemma example_ehdr: "elf_header example_file = \<lparr>e_ident = take 16 example_elf, e_type = 2, e_machine = 243, e_entry = 0x10054, e_phoff = 52, e_phnum = 1\<rparr>"
  unfolding elf_header_def sizeof_Ehdr_def example_header
  by (simp add: read_ehdr_def example_elf_def u16_at_def u32_at_def)

lemma example_phdrs: "elf_phdrs example_file = [example_phdr]"
proof -
  have "file_bytes example_file (ucast (52 :: u32)) (32 * 1) = take 32 (drop 52 example_elf)" using example_header(2) by simp
  then show ?thesis
    by (simp add: elf_phdrs_def example_ehdr phdrs_of_def sizeof_Phdr_def Let_def) (simp add: read_phdr_def example_phdr_def example_elf_def u32_at_def)
qed

lemma example_elf_ok: "elf_file_ok example_file 88"
  unfolding elf_file_ok_def Let_def example_ehdr example_phdrs
  by (simp add: example_elf_def ascii_def EM_RISCV_def ET_EXEC_def sizeof_Ehdr_def sizeof_Phdr_def image_ok_def loadable_def seg_ok_def bss_covered_def bss_writable_def example_phdr_def page_up_def PF_W_def)

theorem load_elf_correct_witness:
  "\<exists>elf' k'. LoadElf elf_calls 3 (elf_image example_process) (example_kernel 0 0) = Inr (elf', k') \<and> elf_entry elf' = 0x10054 \<and>
     guest_byte k' 0x10000 = 0x7f \<and> guest_byte k' 0x10054 = 0x73 \<and> guest_byte k' 0x10058 = 0 \<and> guest_prot k' 0x10058 = 7"
proof -
  have a: "4096 dvd unat (mbase (k_mmu (example_kernel 0 0)))" by (simp add: example_kernel_def example_mmu_def)
  obtain elf' k' where r: "LoadElf elf_calls 3 (elf_image example_process) (example_kernel 0 0) = Inr (elf', k')" "elf_entry elf' = 0x10054"
      "\<forall>x. unat (0x10000 :: u32) \<le> unat x \<and> unat x < unat (0x10000 :: u32) + unat (0x100 :: u32) \<longrightarrow>
         guest_byte k' x = (if unat x < unat (0x10000 :: u32) + unat (0x58 :: u32) then example_file (ucast (0 :: u32) + of_nat (unat x - unat (0x10000 :: u32))) else 0) \<and>
         guest_prot k' x = seg_prot example_phdr"
    using load_elf_correct [OF elf_calls_ok(1) [OF a] elf_calls_ok(2) example_elf_ok, of "elf_image example_process"] unfolding example_phdrs example_ehdr
    by (auto simp: example_phdr_def PT_LOAD_def)
  have "guest_byte k' 0x10000 = 0x7f" using r(3) by (simp add: example_file_def example_elf_def)
  moreover have "guest_byte k' 0x10054 = 0x73" using r(3) by (simp add: example_file_def example_elf_def)
  moreover have "guest_byte k' 0x10058 = 0" using r(3) by simp
  moreover have "guest_prot k' 0x10058 = 7"
    using r(3) by (simp add: seg_prot_def example_phdr_def PF_R_def PF_W_def PF_X_def PROT_READ_def PROT_WRITE_def PROT_EXEC_def)
  ultimately show ?thesis using r(1,2) by blast
qed

theorem initial_stack_readable_witness:
  "\<exists>elf' k'. InitAVectors example_calls [ascii ''ls'', ascii ''-l''] (elf_image example_process) (example_kernel 0 0) = (elf', k') \<and>
     guest_word k' (stack_start elf') = 2 \<and> cstr (guest_mem k') (ucast (guest_word k' (stack_start elf' + 8))) = Some (ascii ''-l'')"
proof -
  obtain elf' k' where i: "InitAVectors example_calls [ascii ''ls'', ascii ''-l''] (elf_image example_process) (example_kernel 0 0) = (elf', k')" by fastforce
  have a: "\<forall>s\<in>set [ascii ''ls'', ascii ''-l'']. length s + 1 < 65536 \<and> 0 \<notin> set s" by (simp add: ascii_def)
  have s: "strings_size [ascii ''ls'', ascii ''-l''] + 4 * length [ascii ''ls'', ascii ''-l''] + 348 \<le> unat (stack_start (elf_image example_process))"
    by (simp add: strings_size_def ascii_def example_process_def)
  note r = initial_stack_readable [OF a s i]
  have "cstr (guest_mem k') (ucast (guest_word k' (stack_start elf' + 4 * of_nat (1 + 1)))) = Some ([ascii ''ls'', ascii ''-l''] ! 1)"
    using r [THEN conjunct2, THEN conjunct2, THEN conjunct1, rule_format, of 1] by simp
  then show ?thesis using i r by (intro exI [of _ elf'] exI [of _ k']) simp
qed

end
