(* ===== verification/Spec2Isabelle.thy ===== *)
theory Spec2Isabelle
  imports Emit_Correct IList AOT Dominators ElfLoad_Correct
begin

text \<open>
  A model of \<^verbatim>\<open>rvdbt\<close>, a dynamic binary translator that runs 32-bit RISC-V Linux programs on amd64, and
  theorems about it.

  \<^bold>\<open>The program.\<close> Guest code lives in a window of the host's address space (\<^verbatim>\<open>src/dbt/mmu\<close>). The execution
  loop (\<^verbatim>\<open>src/dbt/execute.cpp\<close>) asks the translation cache (\<^verbatim>\<open>src/dbt/tcache\<close>) for the block at the guest's
  program counter; on a miss it chooses a range of guest code, has it decoded and translated to an
  intermediate code (\<^verbatim>\<open>src/dbt/guest\<close>, \<^verbatim>\<open>src/dbt/qmc/qir*\<close>), compiled by the code generator (\<^verbatim>\<open>src/dbt/qmc/qcg\<close>) and entered in the cache.
  Translated blocks leave through branch slots that call the runtime until they are linked to their target
  (\<^verbatim>\<open>src/dbt/qmc/qcg/jitabi\<close>). What has run is recorded in a profile (\<^verbatim>\<open>objprof\<close>), from which the ahead-of-time
  compiler builds a control-flow graph per page, splits it into regions and compiles those
  (\<^verbatim>\<open>src/dbt/aot\<close>). An interpreter with the same decoder can run the guest instead, and is what the
  translator's correctness is stated against.

  \<^bold>\<open>Theories and sources.\<close> Names of definitions are those of the source where the logic allows it.

  \<^item> \<open>Prelude\<close>: integer types, rounding and unaligned access of \<^verbatim>\<open>util/common.h\<close>; \<open>'a res\<close> is the sum of the
    ways to stop (\<open>Panic\<close>, a failed assertion, an invalid dereference, unreachable code) and a result.
  \<^item> \<open>Bitfield\<close>: \<^verbatim>\<open>util/bitfield.h\<close>. \<open>RV32_Insn\<close>, \<open>RV32_Decode\<close>: \<^verbatim>\<open>guest/rv32_insn.h\<close>, \<^verbatim>\<open>rv32_ops.h\<close>, \<^verbatim>\<open>rv32_decode.h\<close>.
    C1 and C2: the decoder and the immediates invert an assembler written from the manual's table.
  \<^item> \<open>RV32_Interp\<close>: \<^verbatim>\<open>guest/rv32_cpu.h\<close>, \<^verbatim>\<open>rv32_interp.cpp\<close>; one handler per opcode. C3, C4 and C6: \<open>x0\<close>, precise traps,
    and which instruction stops the interpreter, with which trap, against a table written from the manual; also that the program counter stays aligned.
  \<^item> \<open>QIR_Operand\<close>, \<open>QIR\<close>, \<open>QIR_Builder\<close>: \<^verbatim>\<open>qmc/qir.h\<close>, \<^verbatim>\<open>qir_ops.h\<close>, \<^verbatim>\<open>qir.cpp\<close>, \<^verbatim>\<open>qir_builder.h\<close>, \<^verbatim>\<open>qir_opt.cpp\<close>. \<open>QIR_Sem\<close> is a
    reference semantics of the intermediate code, not code of the program. C7 to C9: packed operands
    refine their structured view; the builder appends the folded instruction; folding is sound.
  \<^item> \<open>RV32_QIR\<close>: the translator of \<^verbatim>\<open>guest/rv32_qir.cpp\<close>. \<open>RV32_QIR_Correct\<close> and \<open>Region_Correct\<close>: C11 and C13, each
    instruction, and then each block of a region, simulates the interpreter.
  \<^item> \<open>ArchTraits\<close>, \<open>QSel\<close>: \<^verbatim>\<open>qmc/qcg/arch_traits.h\<close>, \<^verbatim>\<open>arch_traits.cpp\<close>, \<^verbatim>\<open>qsel.cpp\<close>: the host's registers and operand
    constraints, and instruction selection, which keeps the behaviour of every block (C38).
    \<open>Select_Correct\<close> composes it with the front end.
  \<^item> \<open>QRA\<close>: the register allocator of \<^verbatim>\<open>qmc/qcg/qra.cpp\<close>, every operation of it, with the moves, spills and fills it
    inserts. \<open>Host_Sem\<close> is a reference semantics of allocated code (host registers, spill frame, calls that
    clobber), not code of the program. \<open>QRA_Moves\<close> and \<open>QRA_Correct\<close>: the invariant that ties tracks, registers
    and slots to values, and that each step of the allocator keeps it; \<open>Alloc_Moves\<close>: what it inserts are host moves; \<open>Alloc_Correct\<close>: a block does on
    the host what it did on virtual registers (C40).
  \<^item> \<open>Region_Shape\<close>, \<open>Shape_Sel\<close>: the code the front end builds has the shape the allocator relies on, and selection keeps
    it. \<open>Host_Typed\<close>: the operand types emission relies on, which both passes keep. \<open>Codegen_Correct\<close>: the passes of
    \<^verbatim>\<open>qmc/qcg/qcg.cpp\<close> up to emission, composed with the front end.
  \<^item> \<open>QEmit\<close>: emission, \<^verbatim>\<open>qmc/qcg/qemit.cpp\<close>, \<^verbatim>\<open>qemit.h\<close> and the visitor of \<^verbatim>\<open>qcg.cpp\<close>; its result is the list of requests made to the
    assembler. \<open>X86\<close> is a reference semantics of those host instructions (64-bit registers with their narrower
    views, flags, stack, the areas of the process), not code of the program. \<open>QEmit_Correct\<close>: operands, memory and calls;
    \<open>QEmit_Insts\<close>: each straight-line instruction; \<open>QEmit_Ends\<close>: branches, exits and the inlined look-up;
    \<open>QEmit_Region\<close>: the layout of blocks and labels. \<open>Emit_Correct\<close>: emission of a region (C5), and guest code to host
    instructions against the interpreter, every pass together (C39).
  \<^item> \<open>IList\<close> (\<^verbatim>\<open>qmc/ilist.h\<close>, C14), \<open>Arena\<close> (\<^verbatim>\<open>arena.h\<close>, C15): the pointer-linked list implements sequences;
    blocks of an arena are disjoint.
  \<^item> \<open>TCache\<close> (\<^verbatim>\<open>tcache/tcache.h\<close>, \<^verbatim>\<open>tcache.cpp\<close>, C16), \<open>JitABI\<close> (\<^verbatim>\<open>qmc/qcg/jitabi.h\<close>, \<^verbatim>\<open>jitabi.cpp\<close>, parts of
    \<^verbatim>\<open>qemit.cpp\<close> and \<^verbatim>\<open>compile.h\<close>, C17 to C19), \<open>Execute\<close> (\<^verbatim>\<open>execute.cpp\<close>, \<^verbatim>\<open>qmc/compile.cpp\<close>, C22 to C25): the look-ups
    agree with the ordered map, slots and indirect branches reach the code of their guest address, a job goes through every pass of the compiler and leaves
    the encoding of right code in the cache (C24), and
    every round of the loop enters the code of the program counter (C23), which never changes once translated.
  \<^item> \<open>ObjProf\<close> (\<^verbatim>\<open>tcache/objprof.cpp\<close>, C26): the profile of a page records exactly its cached blocks, except for the cache's last page, where the
    walk reads through the end iterator.
  \<^item> \<open>MMU\<close> (\<^verbatim>\<open>mmu.cpp\<close>, C28 and C30): the search for free pages, the bookkeeping of used pages, addresses.
  \<^item> \<open>UKernel\<close> (\<^verbatim>\<open>ukernel.cpp\<close>, \<^verbatim>\<open>ukernel_syscalls.h\<close>): thread and process, path resolution, the system calls, their dispatch
    and the loop between traps. \<open>UKernel_Correct\<close>: what a call may change (C12), calls that are not implemented (C27), the break (C20),
    paths (C31), and when and with which code a process ends (C29). \<open>ElfLoad\<close>, \<open>ElfLoad_Correct\<close> (the loader and the boot of \<^verbatim>\<open>ukernel.cpp\<close>): loaded
    segments (C10) and the initial stack (C21).
  \<^item> \<open>ModuleGraph\<close>, \<open>ModuleGraph_Correct\<close> (\<^verbatim>\<open>aot/aot_module.cpp\<close>, \<^verbatim>\<open>qmc/marker.h\<close>, C32 and C33): regions of a page as
    sets of nodes reachable without another entry, entries as a closure under dominance frontiers.
  \<^item> \<open>RV32_Analyser\<close> (\<^verbatim>\<open>guest/rv32_analyser.cpp\<close>, C34) and \<open>AOT\<close> (\<^verbatim>\<open>aot/aot.cpp\<close>, C35): the graph accounts for every
    run of the interpreter, and is well formed. \<open>Dominators\<close> (C36 and C37): what \<open>ComputeDomTree\<close> stores lies on
    every path, and how many nodes it can number.

  \<^bold>\<open>Interfaces.\<close> What one component promises another is a locale, interpreted on the model's operations:
  encodings that are read back (\<open>Prelude\<close>), bump allocation (\<open>Arena\<close>), the ordered map and the coherent cache
  (\<open>TCache\<close>, \<open>Execute\<close>), the depth-first search all graph loops are instances of
  (\<open>ModuleGraph_Correct\<close>), and the invariants of recording into a graph (\<open>AOT\<close>).

  \<^bold>\<open>State, bounds and loops.\<close> Machine integers keep their width and wrap. Memory is a function from
  addresses to bytes; pointers into pools are addresses. The loops of the translator count down from
  \<open>TB_MAX_INSNS\<close>, so they are total; loops with a decreasing set or counter are total functions with a
  termination proof; loops that can run forever (the dispatch loop, the execution loop, the iteration of
  dominators, the kernel's loop) are partial functions whose value is \<open>None\<close> when they do not return, and C6 and C29 say exactly
  when they do. A region of at most 1000 ranges keeps the number of locals inside the 16-bit register
  number; C13 assumes this bound. Selection adds up to three temporaries per instruction, for which a
  region of at most 63 ranges is enough. The allocator's loop over tracks at a call counts in a byte and does not end
  from 256 virtual registers on, so it is a partial function too; C24, C39 and C40 assume at most 255. C5, C24 and C39 are
  about the configuration with guest memory at host address 0 (\<^verbatim>\<open>config::zero_membase\<close>), in a process whose areas do not meet.
  C11, C13, C24 and C39 exclude loads with a discarded result and offset 0, which are translated wrongly, and the last three runs that meet an alignment trap,
  which translated code does not raise, or change the code they run.

  \<^bold>\<open>Resources.\<close> The memory of a job's intermediate code never runs out in the model: the program allocates instructions, operands and blocks
  (\<open>Region_CreateInst\<close>, \<open>Region_CreateBlock\<close>) from an arena of 1 MB per job (\<^verbatim>\<open>compile.cpp\<close>), which \<open>Arena\<close> models, but whose exhaustion is not an
  outcome of these definitions. The pools of the cache do run out, and C23 and C24 ask for room in them for the job at hand. The host's pages have a protection:
  the kernel's own stores and reads through guest pointers, and the loader's \<^verbatim>\<open>memset\<close>, fault where it does not allow them; the stores of the initial stack, which
  go to the mapping made just before, and the accesses of guest code are not checked.

  \<^bold>\<open>Arguments.\<close> In the execution loop, the assembler that turns the requests of emission into bytes, with a size it keeps to, and the run of machine code; the
  host's system calls, \<^verbatim>\<open>mmap\<close> and \<^verbatim>\<open>munmap\<close> among them, the digest and the opening of cache files are arguments of the definitions that
  use them; what the theorems need of them are hypotheses, with an instance in the witness.

  \<^bold>\<open>Not modelled.\<close> Printers, logging and dumps (output only); the LLVM back end, which drives that library, and the encoding of
  host instructions into bytes, which is asmjit's; writing and loading ahead-of-time object files (ELF and \<^verbatim>\<open>dlopen\<close>); the
  assembly trampolines; what the handler of memory faults reports before it stops; command lines.
  Atomic instructions run on one thread, as the program has only one.
\<close>

end
